(* ===== verification/Prelude.thy ===== *)
theory Prelude
  imports Main "HOL-Library.Word" "HOL-Library.Monad_Syntax"
begin

section \<open>Shared types, checked arithmetic and byte lemmas\<close>

text \<open>
  The machine types of the Rust code, the checked arithmetic of a build with overflow checks
  (\<open>None\<close> is the panic), the contract of the third-party crate \<open>byteorder\<close>, and the lemmas on
  big-endian byte strings that the components share.
\<close>

unbundle bit_operations_syntax

type_synonym u8 = "8 word"
type_synonym u16 = "16 word"
type_synonym u32 = "32 word"
type_synonym u64 = "64 word"
type_synonym bytes = "u8 list"

text \<open>
  The facts that rewrite the model's own accessors, used by \<open>simp add: model_simps\<close>.
\<close>

named_theorems model_simps

lemma unat_bound: "unat (w :: 'a::len word) < 2 ^ LENGTH('a)"
  by (rule unsigned_less)

lemma unat_ucast_up:
  "LENGTH('a) \<le> LENGTH('b) \<Longrightarrow> unat (ucast (w :: 'a::len word) :: 'b::len word) = unat w"
proof -
  assume "LENGTH('a) \<le> LENGTH('b)"
  then have "(2 :: nat) ^ LENGTH('a) \<le> 2 ^ LENGTH('b)" by (rule power_increasing) simp
  with unat_bound[of w] have "unat w < 2 ^ LENGTH('b)" by (rule order_less_le_trans)
  then show ?thesis by (simp add: unsigned_ucast_eq take_bit_nat_eq_self)
qed

subsection \<open>Leading zeros\<close>

text \<open>\<open>leading_zeros\<close> of the unsigned integers of the standard library.\<close>

definition leading_zeros :: "'a::len word \<Rightarrow> nat" where
  "leading_zeros w = length (takeWhile (\<lambda>i. \<not> bit w i) (rev [0..<LENGTH('a)]))"

lemma takeWhile_rev_upt:
  assumes "l = length (takeWhile (\<lambda>i. \<not> P i) (rev [0..<n]))"
  shows "l \<le> n \<and> (\<forall>k. n - l \<le> k \<and> k < n \<longrightarrow> \<not> P k) \<and> (l < n \<longrightarrow> P (n - l - 1))"
  using assms
proof (induction n arbitrary: l)
  case 0
  then show ?case by simp
next
  case (Suc n)
  show ?case
  proof (cases "P n")
    case True
    then show ?thesis using Suc.prems by auto
  next
    case False
    then obtain l' where l: "l = Suc l'" "l' = length (takeWhile (\<lambda>i. \<not> P i) (rev [0..<n]))"
      using Suc.prems by simp
    from Suc.IH[OF this(2)] False show ?thesis
      by (auto simp: l(1) less_Suc_eq Suc_diff_le)
  qed
qed

lemma bit_le_nat: "bit (v :: nat) j \<Longrightarrow> 2 ^ j \<le> v"
  by (rule ccontr) (simp add: bit_iff_odd)

text \<open>The bit length of a word.\<close>

lemma leading_zeros_val:
  "unat (w :: 'a::len word) < 2 ^ (LENGTH('a) - leading_zeros w) \<and>
    (w \<noteq> 0 \<longrightarrow> leading_zeros w < LENGTH('a) \<and> 2 ^ (LENGTH('a) - 1 - leading_zeros w) \<le> unat w)"
proof -
  let ?l = "leading_zeros w"
  have l: "?l \<le> LENGTH('a)" "\<And>k. LENGTH('a) - ?l \<le> k \<Longrightarrow> k < LENGTH('a) \<Longrightarrow> \<not> bit w k" "?l < LENGTH('a) \<Longrightarrow> bit w (LENGTH('a) - ?l - 1)"
    using takeWhile_rev_upt[OF leading_zeros_def] by blast+
  have "take_bit (LENGTH('a) - ?l) (unat w) = unat w"
  proof (rule bit_eqI)
    fix n
    have "bit w n \<Longrightarrow> n < LENGTH('a)" using bit_imp_le_length[of w n] by simp
    then have "bit w n \<Longrightarrow> n < LENGTH('a) - ?l" using l(2)[of n] by (metis not_le)
    then show "bit (take_bit (LENGTH('a) - ?l) (unat w)) n \<longleftrightarrow> bit (unat w) n"
      by (auto simp: bit_take_bit_iff bit_unsigned_iff)
  qed
  then have lt: "unat (w :: 'a::len word) < 2 ^ (LENGTH('a) - ?l)" by (metis take_bit_nat_less_exp)
  have "w \<noteq> 0 \<Longrightarrow> ?l < LENGTH('a)"
    using lt l(1) by (cases "?l = LENGTH('a)") (simp_all add: unat_eq_0)
  moreover have "?l < LENGTH('a) \<Longrightarrow> 2 ^ (LENGTH('a) - 1 - ?l) \<le> unat w"
    using l(3) by (intro bit_le_nat) (simp add: bit_unsigned_iff)
  ultimately show ?thesis using lt by blast
qed

subsection \<open>Checked arithmetic\<close>

text \<open>
  Rust's \<open>+\<close>, \<open>-\<close> and \<open>*\<close> on \<open>u64\<close> panic on overflow in a build with overflow checks.
\<close>

definition cadd :: "'a::len word \<Rightarrow> 'a word \<Rightarrow> 'a word option" where
  "cadd a b = (if unat a + unat b < 2 ^ LENGTH('a) then Some (a + b) else None)"

definition csub :: "'a::len word \<Rightarrow> 'a word \<Rightarrow> 'a word option" where
  "csub a b = (if b \<le> a then Some (a - b) else None)"

definition cmul :: "'a::len word \<Rightarrow> 'a word \<Rightarrow> 'a word option" where
  "cmul a b = (if unat a * unat b < 2 ^ LENGTH('a) then Some (a * b) else None)"

lemma cadd_SomeD: "cadd a b = Some c \<Longrightarrow> unat c = unat a + unat b"
  by (auto simp: cadd_def unat_word_ariths split: if_splits)

lemma csub_SomeD: "csub a b = Some c \<Longrightarrow> unat c = unat a - unat b \<and> unat b \<le> unat a"
  by (auto simp: csub_def unat_sub word_le_nat_alt split: if_splits)

lemma cmul_SomeD: "cmul a b = Some c \<Longrightarrow> unat c = unat a * unat b"
  by (auto simp: cmul_def unat_word_ariths split: if_splits)

text \<open>\<open>usize\<close> is a 64-bit \<open>nat\<close>; the same checks where a length or an index can overflow.\<close>

definition usize_add :: "nat \<Rightarrow> nat \<Rightarrow> nat option" where
  "usize_add a b = (if a + b < 2 ^ 64 then Some (a + b) else None)"

definition usize_sub :: "nat \<Rightarrow> nat \<Rightarrow> nat option" where
  "usize_sub a b = (if b \<le> a then Some (a - b) else None)"

lemma usize_add_Some [simp]: "usize_add a b = Some c \<longleftrightarrow> c = a + b \<and> a + b < 2 ^ 64"
  by (auto simp: usize_add_def)

lemma usize_sub_Some [simp]: "usize_sub a b = Some c \<longleftrightarrow> c = a - b \<and> b \<le> a"
  by (auto simp: usize_sub_def)

subsection \<open>Big-endian byte strings\<close>

definition be_val :: "bytes \<Rightarrow> nat" where
  "be_val bs = foldl (\<lambda>acc b. acc * 256 + unat b) 0 bs"

fun be_bytes :: "nat \<Rightarrow> nat \<Rightarrow> bytes" where
  "be_bytes 0 v = []"
| "be_bytes (Suc n) v = be_bytes n (v div 256) @ [of_nat (v mod 256)]"

lemma length_be_bytes [simp]: "length (be_bytes n v) = n"
  by (induction n arbitrary: v) auto

lemma be_val_Nil [simp]: "be_val [] = 0"
  by (simp add: be_val_def)

lemma be_val_snoc [simp]: "be_val (bs @ [b]) = be_val bs * 256 + unat b"
  by (simp add: be_val_def)

lemma be_val_append: "be_val (xs @ ys) = be_val xs * 256 ^ length ys + be_val ys"
proof (induction ys rule: rev_induct)
  case Nil
  then show ?case by simp
next
  case (snoc y ys)
  have "be_val (xs @ ys @ [y]) = be_val ((xs @ ys) @ [y])" by simp
  also have "\<dots> = be_val (xs @ ys) * 256 + unat y" by (rule be_val_snoc)
  finally show ?case using snoc by (simp add: algebra_simps)
qed

lemma be_val_Cons: "be_val (b # bs) = unat b * 256 ^ length bs + be_val bs"
  using be_val_append[of "[b]" bs] by (simp add: be_val_def)

lemma unat_of_nat_byte [simp]: "unat (of_nat (v mod 256) :: u8) = v mod 256"
  by (simp add: unat_of_nat)

lemma be_val_be_bytes [simp]: "be_val (be_bytes n v) = v mod 256 ^ n"
proof (induction n arbitrary: v)
  case 0
  then show ?case by simp
next
  case (Suc n)
  have "v mod (256 * 256 ^ n) = 256 * (v div 256 mod 256 ^ n) + v mod 256"
    by (rule mod_mult2_eq)
  then show ?case using Suc by simp
qed

lemma be_val_less: "be_val bs < 256 ^ length bs"
proof (induction bs rule: rev_induct)
  case Nil
  then show ?case by simp
next
  case (snoc b bs)
  have "unat b < 256" using unat_bound[of b] by simp
  moreover have "be_val bs + 1 \<le> 256 ^ length bs" using snoc by simp
  then have "(be_val bs + 1) * 256 \<le> 256 ^ length bs * 256" by (rule mult_le_mono1)
  ultimately show ?case by simp
qed

lemma be_bytes_be_val [simp]: "be_bytes (length bs) (be_val bs) = bs"
proof (induction bs rule: rev_induct)
  case Nil
  then show ?case by simp
next
  case (snoc b bs)
  have "unat b < 256" using unat_bound[of b] by simp
  then show ?case using snoc by simp
qed

lemma be_val_inj: "length xs = length ys \<Longrightarrow> be_val xs = be_val ys \<Longrightarrow> xs = ys"
  by (metis be_bytes_be_val)

lemma be_bytes_Cons:
  "be_bytes (Suc n) v = of_nat (v div 256 ^ n mod 256) # be_bytes n v"
proof (induction n arbitrary: v)
  case 0
  then show ?case by simp
next
  case (Suc n)
  have "be_bytes (Suc (Suc n)) v = be_bytes (Suc n) (v div 256) @ [of_nat (v mod 256)]"
    by simp
  also have "\<dots> = of_nat (v div 256 div 256 ^ n mod 256) # be_bytes (Suc n) v"
    using Suc[of "v div 256"] by simp
  finally show ?case by (simp add: div_mult2_eq)
qed

text \<open>The leading byte of a minimal encoding is not zero.\<close>

lemma be_val_pos_Cons: "b \<noteq> 0 \<Longrightarrow> 256 ^ length bs \<le> be_val (b # bs)"
proof -
  assume "b \<noteq> 0"
  then have "1 \<le> unat b" by (simp add: Suc_leI unat_gt_0)
  then have "1 * 256 ^ length bs \<le> unat b * 256 ^ length bs" by (rule mult_le_mono1)
  then show ?thesis by (simp add: be_val_Cons trans_le_add1)
qed

text \<open>The number of significant bytes, and the big-endian bytes without leading zeros.\<close>

fun nbytes :: "nat \<Rightarrow> nat" where
  "nbytes v = (if v = 0 then 0 else Suc (nbytes (v div 256)))"

declare nbytes.simps [simp del]

definition min_be :: "nat \<Rightarrow> bytes" where
  "min_be v = be_bytes (nbytes v) v"

lemma nbytes_0 [simp]: "nbytes 0 = 0"
  by (simp add: nbytes.simps)

lemma nbytes_le_iff: "nbytes v \<le> k \<longleftrightarrow> v < 256 ^ k"
proof (induction v arbitrary: k rule: nbytes.induct)
  case (1 v)
  show ?case
  proof (cases "v = 0 \<or> k = 0")
    case True
    then show ?thesis by (auto simp: nbytes.simps[of v])
  next
    case False
    then obtain j where k: "k = Suc j" by (cases k) auto
    have "v div 256 < 256 ^ j \<longleftrightarrow> v < 256 ^ j * 256" by (rule div_less_iff_less_mult) simp
    then show ?thesis using False 1[of j] by (simp add: nbytes.simps[of v] k mult.commute)
  qed
qed

lemma drop_be_bytes: "nbytes v \<le> n \<Longrightarrow> drop (n - nbytes v) (be_bytes n v) = min_be v"
proof (induction n)
  case 0
  then show ?case by (simp add: min_be_def)
next
  case (Suc n)
  show ?case
  proof (cases "nbytes v = Suc n")
    case True
    then show ?thesis by (simp add: min_be_def)
  next
    case False
    with Suc show ?thesis by (simp add: be_bytes_Cons Suc_diff_le del: be_bytes.simps)
  qed
qed

lemma length_min_be [simp]: "length (min_be v) = nbytes v"
  by (simp add: min_be_def)

lemma be_val_min_be [simp]: "be_val (min_be v) = v"
  using nbytes_le_iff[of v "nbytes v"] by (simp add: min_be_def)

lemma hd_min_be: "v \<noteq> 0 \<Longrightarrow> hd (min_be v) \<noteq> 0 \<and> min_be v \<noteq> []"
proof -
  assume v: "v \<noteq> 0"
  then obtain n where n: "nbytes v = Suc n" by (simp add: nbytes.simps)
  have lt: "v < 256 ^ Suc n" and ge: "\<not> v < 256 ^ n"
    using nbytes_le_iff[of v "Suc n"] nbytes_le_iff[of v n] n by simp_all
  have "v div 256 ^ n < 256" using lt by (simp add: less_mult_imp_div_less)
  moreover have "0 < v div 256 ^ n" using ge by (simp add: div_greater_zero_iff)
  ultimately have "unat (of_nat (v div 256 ^ n mod 256) :: u8) \<noteq> 0"
    by (simp only: unat_of_nat_byte) simp
  then have "(of_nat (v div 256 ^ n mod 256) :: u8) \<noteq> 0" by (metis unat_0)
  then show ?thesis by (auto simp: min_be_def n be_bytes_Cons simp del: be_bytes.simps)
qed

text \<open>Counting whole leading zero bytes of a word or of a bit length.\<close>

lemma nbytes_bits:
  assumes "v < 2 ^ b" and "0 < v \<Longrightarrow> 0 < b \<and> 2 ^ (b - 1) \<le> v" and "v = 0 \<Longrightarrow> b = 0"
  shows "nbytes v = (b + 7) div 8"
proof -
  have le: "b \<le> 8 * ((b + 7) div 8)" by presburger
  have "v < 2 ^ (8 * ((b + 7) div 8))"
    using assms(1) by (rule order_less_le_trans) (rule power_increasing[OF le], simp)
  then have "nbytes v \<le> (b + 7) div 8" by (simp add: nbytes_le_iff power_mult)
  moreover have "(b + 7) div 8 \<le> nbytes v"
  proof (cases "v = 0")
    case True
    then show ?thesis using assms(3) by simp
  next
    case False
    have "v < 2 ^ (8 * nbytes v)" using nbytes_le_iff[of v "nbytes v"] by (simp add: power_mult)
    then have "(2 :: nat) ^ (b - 1) < 2 ^ (8 * nbytes v)" using assms(2) False by linarith
    then have "b - 1 < 8 * nbytes v" by (rule power_less_imp_less_exp[rotated]) simp
    then show ?thesis by presburger
  qed
  ultimately show ?thesis by simp
qed

lemma leading_zeros_bytes:
  fixes w :: "'a::len word"
  assumes "LENGTH('a) = 8 * n"
  shows "leading_zeros w div 8 = n - nbytes (unat w)" and "nbytes (unat w) \<le> n"
    and "drop (leading_zeros w div 8) (be_bytes n (unat w)) = min_be (unat w)"
proof -
  note lz = leading_zeros_val[of w, unfolded assms]
  have l0: "unat w = 0 \<Longrightarrow> 8 * n - leading_zeros w = 0"
    using takeWhile_rev_upt[OF leading_zeros_def[of w]] assms by (auto simp: unat_eq_0)
  have nb: "nbytes (unat w) = (8 * n - leading_zeros w + 7) div 8"
  proof (rule nbytes_bits)
    show "0 < unat w \<Longrightarrow> 0 < 8 * n - leading_zeros w \<and> 2 ^ (8 * n - leading_zeros w - 1) \<le> unat w"
      using lz by (auto simp: unat_gt_0 diff_commute)
  qed (use lz l0 in simp_all)
  have "leading_zeros w \<le> 8 * n" using takeWhile_rev_upt[OF leading_zeros_def[of w]] assms by simp
  then obtain m where m: "leading_zeros w = 8 * n - m" "m = 8 * n - leading_zeros w" "m \<le> 8 * n" by simp
  have c: "m \<le> 8 * nbytes (unat w)" "8 * nbytes (unat w) \<le> m + 7" unfolding nb m(2)[symmetric] by presburger+
  show le: "nbytes (unat w) \<le> n" using c m(3) by linarith
  show e: "leading_zeros w div 8 = n - nbytes (unat w)"
    unfolding m(1) by (rule div_nat_eqI) (use c m(3) le in simp_all)
  show "drop (leading_zeros w div 8) (be_bytes n (unat w)) = min_be (unat w)"
    unfolding e using le by (rule drop_be_bytes)
qed

subsection \<open>The crate \<open>byteorder\<close>\<close>

text \<open>
  \<open>BigEndian::read_u32\<close>, \<open>read_u64\<close>, \<open>write_u16\<close>, \<open>write_u32\<close>, \<open>write_u64\<close> and
  \<open>LittleEndian::write_u64\<close> come from the crate
  \<open>byteorder\<close>, which is not part of the repository: the model takes them as an argument. A write
  is the bytes it puts into the buffer, a read looks at the front of the slice. The predicate
  \<open>big_endian\<close> states the documented behaviour.
\<close>

record byteorder =
  write_u16 :: "u16 \<Rightarrow> bytes"
  write_u32 :: "u32 \<Rightarrow> bytes"
  write_u64 :: "u64 \<Rightarrow> bytes"
  write_u64_le :: "u64 \<Rightarrow> bytes"
  read_u32 :: "bytes \<Rightarrow> u32"
  read_u64 :: "bytes \<Rightarrow> u64"

definition big_endian :: "byteorder \<Rightarrow> bool" where
  "big_endian bo \<longleftrightarrow>
     (\<forall>w. write_u16 bo w = be_bytes 2 (unat w)) \<and>
     (\<forall>w. write_u32 bo w = be_bytes 4 (unat w)) \<and>
     (\<forall>w. write_u64 bo w = be_bytes 8 (unat w)) \<and>
     (\<forall>w. write_u64_le bo w = rev (be_bytes 8 (unat w))) \<and>
     (\<forall>bs. 4 \<le> length bs \<longrightarrow> read_u32 bo bs = of_nat (be_val (take 4 bs))) \<and>
     (\<forall>bs. 8 \<le> length bs \<longrightarrow> read_u64 bo bs = of_nat (be_val (take 8 bs)))"

text \<open>The functions the documentation describes, for evaluation on concrete inputs.\<close>

definition byteorder_be :: byteorder where
  "byteorder_be =
     \<lparr>write_u16 = (\<lambda>w. be_bytes 2 (unat w)),
      write_u32 = (\<lambda>w. be_bytes 4 (unat w)),
      write_u64 = (\<lambda>w. be_bytes 8 (unat w)),
      write_u64_le = (\<lambda>w. rev (be_bytes 8 (unat w))),
      read_u32 = (\<lambda>bs. of_nat (be_val (take 4 bs))),
      read_u64 = (\<lambda>bs. of_nat (be_val (take 8 bs)))\<rparr>"

lemma big_endian_byteorder_be [simp]: "big_endian byteorder_be"
  by (simp add: big_endian_def byteorder_be_def)

lemma big_endian_write [model_simps]:
  assumes "big_endian bo"
  shows "write_u16 bo w16 = be_bytes 2 (unat w16)"
    and "write_u32 bo w32 = be_bytes 4 (unat w32)"
    and "write_u64 bo w64 = be_bytes 8 (unat w64)"
    and "write_u64_le bo w64 = rev (be_bytes 8 (unat w64))"
  using assms by (simp_all add: big_endian_def)

lemma big_endian_read [model_simps]:
  assumes "big_endian bo"
  shows "4 \<le> length bs \<Longrightarrow> read_u32 bo bs = of_nat (be_val (take 4 bs))"
    and "8 \<le> length bs \<Longrightarrow> read_u64 bo bs = of_nat (be_val (take 8 bs))"
  using assms by (simp_all add: big_endian_def)

lemma read_u64_write_u64:
  assumes "big_endian bo"
  shows "read_u64 bo (write_u64 bo w @ rest) = w"
proof -
  have "unat w < 2 ^ 64" using unat_bound[of w] by simp
  then have "unat w mod 256 ^ 8 = unat w" by simp
  then show ?thesis using assms by (simp add: model_simps del: power_numeral)
qed

lemma read_u32_write_u32:
  assumes "big_endian bo"
  shows "read_u32 bo (write_u32 bo w @ rest) = w"
proof -
  have "unat w < 2 ^ 32" using unat_bound[of w] by simp
  then have "unat w mod 256 ^ 4 = unat w" by simp
  then show ?thesis using assms by (simp add: model_simps del: power_numeral)
qed

lemma length_write [simp]:
  assumes "big_endian bo"
  shows "length (write_u16 bo w16) = 2" and "length (write_u32 bo w32) = 4"
    and "length (write_u64 bo w64) = 8"
  using assms by (simp_all add: model_simps)

end
