(* ===== verification/UintBase.thy ===== *)
theory UintBase
  imports Prelude
begin

section \<open>Fixed-size unsigned integers: representation, addition, subtraction, order\<close>

text \<open>
  \<open>util/bigint/src/uint.rs\<close>. The macro \<open>construct_uint!\<close> builds \<open>U512\<close>, \<open>U256\<close> and \<open>U128\<close> from
  an array of \<open>$n_words\<close> words of 64 bits, least significant first. The model keeps the array as a
  \<open>u64 list\<close> whose length is \<open>$n_words\<close>; the operations are those of the portable macros (the
  \<open>_reg\<close> versions). The value of an array is \<open>uval\<close>, and every operation is proved against it.
\<close>

type_synonym uint = "u64 list"

fun uval :: "uint \<Rightarrow> nat" where
  "uval [] = 0"
| "uval (w # ws) = unat w + 2 ^ 64 * uval ws"

subsection \<open>u64 primitives\<close>

definition overflowing_add_u64 :: "u64 \<Rightarrow> u64 \<Rightarrow> u64 \<times> bool" where
  "overflowing_add_u64 a b = (a + b, 2 ^ 64 \<le> unat a + unat b)"

definition overflowing_sub_u64 :: "u64 \<Rightarrow> u64 \<Rightarrow> u64 \<times> bool" where
  "overflowing_sub_u64 a b = (a - b, a < b)"

definition bool_as_u64 :: "bool \<Rightarrow> u64" where
  "bool_as_u64 b = (if b then 1 else 0)"

lemma unat_bool_as_u64 [simp]: "unat (bool_as_u64 b) = (if b then 1 else 0)"
  by (simp add: bool_as_u64_def)

lemma overflowing_add_u64_val:
  "overflowing_add_u64 a b = (r, ov) \<Longrightarrow> unat r + (if ov then 2 ^ 64 else 0) = unat a + unat b"
proof -
  assume h: "overflowing_add_u64 a b = (r, ov)"
  have "unat a < 2 ^ 64" "unat b < 2 ^ 64" using unat_bound[of a] unat_bound[of b] by simp_all
  then show ?thesis using h
    by (auto simp: overflowing_add_u64_def unat_word_ariths mod_if le_mod_geq)
qed

lemma overflowing_sub_u64_val:
  "overflowing_sub_u64 a b = (r, ov) \<Longrightarrow> unat r + unat b = unat a + (if ov then 2 ^ 64 else 0)"
proof -
  assume h: "overflowing_sub_u64 a b = (r, ov)"
  have "unat a < 2 ^ 64" "unat b < 2 ^ 64" using unat_bound[of a] unat_bound[of b] by simp_all
  then show ?thesis using h
    by (auto simp: overflowing_sub_u64_def word_less_nat_alt unat_sub_if' split: if_splits)
qed

subsection \<open>Addition and subtraction\<close>

text \<open>The loop of \<open>uint_overflowing_add_reg!\<close> over the words, with its carry.\<close>

fun add_words :: "uint \<Rightarrow> uint \<Rightarrow> u64 \<Rightarrow> uint \<times> u64" where
  "add_words (x # xs) (y # ys) carry =
     (let (res1, overflow1) = overflowing_add_u64 x y;
          (res2, overflow2) = overflowing_add_u64 res1 carry;
          (ret, c) = add_words xs ys (bool_as_u64 overflow1 + bool_as_u64 overflow2)
      in (res2 # ret, c))"
| "add_words _ _ carry = ([], carry)"

definition overflowing_add :: "uint \<Rightarrow> uint \<Rightarrow> uint \<times> bool" where
  "overflowing_add me you = (let (ret, carry) = add_words me you 0 in (ret, carry > 0))"

fun sub_words :: "uint \<Rightarrow> uint \<Rightarrow> u64 \<Rightarrow> uint \<times> u64" where
  "sub_words (x # xs) (y # ys) carry =
     (let (res1, overflow1) = overflowing_sub_u64 x y;
          (res2, overflow2) = overflowing_sub_u64 res1 carry;
          (ret, c) = sub_words xs ys (bool_as_u64 overflow1 + bool_as_u64 overflow2)
      in (res2 # ret, c))"
| "sub_words _ _ carry = ([], carry)"

definition overflowing_sub :: "uint \<Rightarrow> uint \<Rightarrow> uint \<times> bool" where
  "overflowing_sub me you = (let (ret, carry) = sub_words me you 0 in (ret, carry > 0))"

text \<open>\<open>Add\<close> and \<open>Sub\<close> panic on overflow.\<close>

definition uint_add :: "uint \<Rightarrow> uint \<Rightarrow> uint option" where
  "uint_add a b = (let (r, overflow) = overflowing_add a b in if overflow then None else Some r)"

definition uint_sub :: "uint \<Rightarrow> uint \<Rightarrow> uint option" where
  "uint_sub a b = (let (r, overflow) = overflowing_sub a b in if overflow then None else Some r)"

subsection \<open>Constructors and small queries\<close>

definition uint_from_u64 :: "nat \<Rightarrow> u64 \<Rightarrow> uint" where
  "uint_from_u64 n value = (replicate n 0)[0 := value]"

definition uint_zero :: "nat \<Rightarrow> uint" where
  "uint_zero n = uint_from_u64 n 0"

definition uint_one :: "nat \<Rightarrow> uint" where
  "uint_one n = uint_from_u64 n 1"

definition uint_max_value :: "nat \<Rightarrow> uint" where
  "uint_max_value n = replicate n (- 1)"

definition uint_is_zero :: "uint \<Rightarrow> bool" where
  "uint_is_zero arr \<longleftrightarrow> list_all (\<lambda>w. w = 0) arr"

definition low_u64 :: "uint \<Rightarrow> u64" where
  "low_u64 arr = arr ! 0"

definition low_u32 :: "uint \<Rightarrow> u32" where
  "low_u32 arr = ucast (arr ! 0)"

text \<open>\<open>as_u64\<close> and \<open>as_u32\<close> panic when the number does not fit.\<close>

definition as_u64 :: "uint \<Rightarrow> u64 option" where
  "as_u64 arr = (if list_ex (\<lambda>w. w \<noteq> 0) (drop 1 arr) then None else Some (arr ! 0))"

definition as_u32 :: "uint \<Rightarrow> u32 option" where
  "as_u32 arr =
     (if (arr ! 0) AND (push_bit 32 0xffffffff) \<noteq> 0 then None
      else map_option ucast (as_u64 arr))"

definition saturating_add :: "uint \<Rightarrow> uint \<Rightarrow> uint" where
  "saturating_add a b =
     (case overflowing_add a b of
        (_, True) \<Rightarrow> uint_max_value (length a)
      | (val, False) \<Rightarrow> val)"

definition saturating_sub :: "uint \<Rightarrow> uint \<Rightarrow> uint" where
  "saturating_sub a b =
     (case overflowing_sub a b of
        (_, True) \<Rightarrow> uint_zero (length a)
      | (val, False) \<Rightarrow> val)"

subsection \<open>Bitwise operations\<close>

definition uint_bitand :: "uint \<Rightarrow> uint \<Rightarrow> uint" where
  "uint_bitand a b = map2 (\<lambda>x y. x AND y) a b"

definition uint_bitxor :: "uint \<Rightarrow> uint \<Rightarrow> uint" where
  "uint_bitxor a b = map2 (\<lambda>x y. x XOR y) a b"

definition uint_bitor :: "uint \<Rightarrow> uint \<Rightarrow> uint" where
  "uint_bitor a b = map2 (\<lambda>x y. x OR y) a b"

definition uint_not :: "uint \<Rightarrow> uint" where
  "uint_not a = map (\<lambda>x. NOT x) a"

definition overflowing_neg :: "uint \<Rightarrow> uint \<times> bool" where
  "overflowing_neg a = (uint_not a, True)"

subsection \<open>Comparison\<close>

datatype ordering = Less | Equal | Greater

text \<open>\<open>cmp_words me you i\<close> is the loop of \<open>Ord::cmp\<close> with \<open>i\<close> words still to compare.\<close>

fun cmp_words :: "uint \<Rightarrow> uint \<Rightarrow> nat \<Rightarrow> ordering" where
  "cmp_words me you 0 = Equal"
| "cmp_words me you (Suc i) =
     (if me ! i < you ! i then Less
      else if me ! i > you ! i then Greater
      else cmp_words me you i)"

definition uint_cmp :: "uint \<Rightarrow> uint \<Rightarrow> ordering" where
  "uint_cmp me you = cmp_words me you (length me)"

definition uint_less :: "uint \<Rightarrow> uint \<Rightarrow> bool" where
  "uint_less a b \<longleftrightarrow> uint_cmp a b = Less"

definition uint_ge :: "uint \<Rightarrow> uint \<Rightarrow> bool" where
  "uint_ge a b \<longleftrightarrow> uint_cmp a b \<noteq> Less"

subsection \<open>The value of an array\<close>

lemma uval_bound: "uval xs < 2 ^ (64 * length xs)"
proof (induction xs)
  case Nil
  then show ?case by simp
next
  case (Cons x xs)
  have "unat x < 2 ^ 64" using unat_bound[of x] by simp
  moreover have "2 ^ 64 * (uval xs + 1) \<le> 2 ^ 64 * (2 ^ (64 * length xs) :: nat)"
    using Cons by (intro mult_le_mono2) simp
  ultimately show ?case by (simp add: power_add)
qed

lemma uval_append: "uval (xs @ ys) = uval xs + 2 ^ (64 * length xs) * uval ys"
  by (induction xs) (simp_all add: power_add algebra_simps)

lemma uval_replicate_0 [simp]: "uval (replicate n 0) = 0"
  by (induction n) auto

lemma uval_from_u64: "0 < n \<Longrightarrow> uval (uint_from_u64 n v) = unat v"
  by (cases n) (simp_all add: uint_from_u64_def)

lemma length_uint_from_u64 [simp]: "length (uint_from_u64 n v) = n"
  by (simp add: uint_from_u64_def)

lemma uval_zero [simp]: "uval (uint_zero n) = 0"
  by (cases n) (simp_all add: uint_zero_def uint_from_u64_def)

lemma uval_one [simp]: "0 < n \<Longrightarrow> uval (uint_one n) = 1"
  by (simp add: uint_one_def uval_from_u64)

lemma length_uint_consts [simp]:
  "length (uint_zero n) = n" "length (uint_one n) = n" "length (uint_max_value n) = n"
  by (simp_all add: uint_zero_def uint_one_def uint_max_value_def)

lemma uval_max_value: "uval (uint_max_value n) = 2 ^ (64 * n) - 1"
proof (induction n)
  case 0
  then show ?case by (simp add: uint_max_value_def)
next
  case (Suc n)
  have "unat (- 1 :: u64) = 2 ^ 64 - 1" by (simp add: unsigned_minus_1_eq_mask mask_eq_exp_minus_1)
  moreover obtain k :: nat where "2 ^ (64 * n) = Suc k"
    using gr0_implies_Suc[of "2 ^ (64 * n)"] by auto
  ultimately show ?case using Suc by (simp add: uint_max_value_def power_add)
qed

lemma uval_eq_0_iff: "uval xs = 0 \<longleftrightarrow> (\<forall>w \<in> set xs. w = 0)"
  by (induction xs) (auto simp: unat_eq_0)

lemma uint_is_zero_iff: "uint_is_zero a \<longleftrightarrow> uval a = 0"
  by (auto simp: uint_is_zero_def uval_eq_0_iff list_all_iff)

lemma uval_inj: "length xs = length ys \<Longrightarrow> uval xs = uval ys \<Longrightarrow> xs = ys"
proof (induction xs ys rule: list_induct2)
  case Nil
  then show ?case by simp
next
  case (Cons x xs y ys)
  have x: "unat x < 2 ^ 64" and y: "unat y < 2 ^ 64"
    using unat_bound[of x] unat_bound[of y] by simp_all
  have eq: "unat x + 2 ^ 64 * uval xs = unat y + 2 ^ 64 * uval ys" using Cons by simp
  then have "unat x = unat y"
    using x y by (metis mod_less mod_mult_self2)
  with eq Cons.IH show ?case by (simp add: word_unat_eq_iff)
qed

subsection \<open>Addition and subtraction compute on values\<close>

lemma length_add_words [simp]: "length xs = length ys \<Longrightarrow> length (fst (add_words xs ys c)) = length xs"
  by (induction xs ys arbitrary: c rule: list_induct2)
    (auto simp: Let_def case_prod_unfold)

lemma length_sub_words [simp]: "length xs = length ys \<Longrightarrow> length (fst (sub_words xs ys c)) = length xs"
  by (induction xs ys arbitrary: c rule: list_induct2)
    (auto simp: Let_def case_prod_unfold)

lemma add_words_val:
  assumes "length xs = length ys" and "unat c \<le> 1" and "add_words xs ys c = (ret, c')"
  shows "uval ret + 2 ^ (64 * length xs) * unat c' = uval xs + uval ys + unat c \<and> unat c' \<le> 1"
  using assms
proof (induction xs ys arbitrary: c ret rule: list_induct2)
  case Nil
  then show ?case by simp
next
  case (Cons x xs y ys)
  obtain r1 o1 where 1: "overflowing_add_u64 x y = (r1, o1)" by fastforce
  obtain r2 o2 where 2: "overflowing_add_u64 r1 c = (r2, o2)" by fastforce
  let ?cm = "bool_as_u64 o1 + bool_as_u64 o2"
  obtain rs where 3: "add_words xs ys ?cm = (rs, c')" and ret: "ret = r2 # rs"
    using Cons.prems(2) 1 2 by (auto simp: Let_def split: prod.splits)
  note v1 = overflowing_add_u64_val[OF 1] and v2 = overflowing_add_u64_val[OF 2]
  have x: "unat x < 2 ^ 64" "unat y < 2 ^ 64" "unat r1 < 2 ^ 64"
    using unat_bound[of x] unat_bound[of y] unat_bound[of r1] by simp_all
  have "\<not> (o1 \<and> o2)" using v1 v2 x Cons.prems(1) by (auto split: if_splits)
  then have cm: "unat ?cm = (if o1 then 1 else 0) + (if o2 then 1 else 0)" and "unat ?cm \<le> 1"
    by (auto simp: bool_as_u64_def)
  from Cons.IH[OF this(2) 3] cm
  have "uval rs + 2 ^ (64 * length xs) * unat c' =
      uval xs + uval ys + ((if o1 then 1 else 0) + (if o2 then 1 else 0))" and "unat c' \<le> 1" by simp_all
  moreover have "unat r2 + 2 ^ 64 * ((if o1 then 1 else 0) + (if o2 then 1 else 0)) =
      unat x + unat y + unat c" using v1 v2 by (auto split: if_splits)
  ultimately show ?case by (simp add: ret power_add algebra_simps)
qed

lemma sub_words_val:
  assumes "length xs = length ys" and "unat c \<le> 1" and "sub_words xs ys c = (ret, c')"
  shows "uval ret + uval ys + unat c = uval xs + 2 ^ (64 * length xs) * unat c' \<and> unat c' \<le> 1"
  using assms
proof (induction xs ys arbitrary: c ret rule: list_induct2)
  case Nil
  then show ?case by simp
next
  case (Cons x xs y ys)
  obtain r1 o1 where 1: "overflowing_sub_u64 x y = (r1, o1)" by fastforce
  obtain r2 o2 where 2: "overflowing_sub_u64 r1 c = (r2, o2)" by fastforce
  let ?cm = "bool_as_u64 o1 + bool_as_u64 o2"
  obtain rs where 3: "sub_words xs ys ?cm = (rs, c')" and ret: "ret = r2 # rs"
    using Cons.prems(2) 1 2 by (auto simp: Let_def split: prod.splits)
  note v1 = overflowing_sub_u64_val[OF 1] and v2 = overflowing_sub_u64_val[OF 2]
  have x: "unat x < 2 ^ 64" "unat y < 2 ^ 64" "unat r2 < 2 ^ 64"
    using unat_bound[of x] unat_bound[of y] unat_bound[of r2] by simp_all
  have "\<not> (o1 \<and> o2)" using v1 v2 x Cons.prems(1) by (auto split: if_splits)
  then have cm: "unat ?cm = (if o1 then 1 else 0) + (if o2 then 1 else 0)" and "unat ?cm \<le> 1"
    by (auto simp: bool_as_u64_def)
  from Cons.IH[OF this(2) 3] cm
  have "uval rs + uval ys + ((if o1 then 1 else 0) + (if o2 then 1 else 0)) =
      uval xs + 2 ^ (64 * length xs) * unat c'" and "unat c' \<le> 1" by simp_all
  moreover have "unat r2 + unat y + unat c =
      unat x + 2 ^ 64 * ((if o1 then 1 else 0) + (if o2 then 1 else 0))"
    using v1 v2 by (auto split: if_splits)
  ultimately show ?case by (simp add: ret power_add algebra_simps)
qed

lemma overflowing_add_val:
  assumes "length a = length b" and "overflowing_add a b = (r, ov)"
  shows "uval r + (if ov then 2 ^ (64 * length a) else 0) = uval a + uval b" and "length r = length a"
proof -
  obtain c where c: "add_words a b 0 = (r, c)" and ov: "ov = (c > 0)"
    using assms(2) by (auto simp: overflowing_add_def Let_def split: prod.splits)
  have "uval r + 2 ^ (64 * length a) * unat c = uval a + uval b" and "unat c \<le> 1"
    using add_words_val[OF assms(1) _ c] by simp_all
  moreover have "ov \<longleftrightarrow> unat c = 1" and "unat c = 0 \<or> unat c = 1"
    using \<open>unat c \<le> 1\<close> ov by (auto simp: word_less_nat_alt)
  ultimately show "uval r + (if ov then 2 ^ (64 * length a) else 0) = uval a + uval b" by auto
  show "length r = length a" using length_add_words[OF assms(1), of 0] c by simp
qed

lemma overflowing_sub_val:
  assumes "length a = length b" and "overflowing_sub a b = (r, ov)"
  shows "uval r + uval b = uval a + (if ov then 2 ^ (64 * length a) else 0)" and "length r = length a"
proof -
  obtain c where c: "sub_words a b 0 = (r, c)" and ov: "ov = (c > 0)"
    using assms(2) by (auto simp: overflowing_sub_def Let_def split: prod.splits)
  have "uval r + uval b = uval a + 2 ^ (64 * length a) * unat c" and "unat c \<le> 1"
    using sub_words_val[OF assms(1) _ c] by simp_all
  moreover have "ov \<longleftrightarrow> unat c = 1" and "unat c = 0 \<or> unat c = 1"
    using \<open>unat c \<le> 1\<close> ov by (auto simp: word_less_nat_alt)
  ultimately show "uval r + uval b = uval a + (if ov then 2 ^ (64 * length a) else 0)" by auto
  show "length r = length a" using length_sub_words[OF assms(1), of 0] c by simp
qed

subsection \<open>Comparison agrees with the values\<close>

lemma uval_take_Suc:
  "i < length xs \<Longrightarrow> uval (take (Suc i) xs) = uval (take i xs) + 2 ^ (64 * i) * unat (xs ! i)"
  by (simp add: take_Suc_conv_app_nth uval_append)

lemma uval_take_bound: "uval (take i xs) < 2 ^ (64 * i)"
  using uval_bound[of "take i xs"]
  by (rule order_less_le_trans) (simp add: power_increasing)

lemma cmp_words_val:
  assumes "length a = length b" and "i \<le> length a"
  shows "cmp_words a b i =
    (if uval (take i a) < uval (take i b) then Less
     else if uval (take i a) > uval (take i b) then Greater else Equal)"
  using assms(2)
proof (induction i)
  case 0
  then show ?case by simp
next
  case (Suc i)
  have lt: "x + 2 ^ (64 * i) * u < y + 2 ^ (64 * i) * v"
    if "x < 2 ^ (64 * i)" "u < v" for x y u v :: nat
  proof -
    have "2 ^ (64 * i) * (u + 1) \<le> 2 ^ (64 * i) * v" using that(2) by (intro mult_le_mono2) simp
    with that(1) show ?thesis by (simp add: algebra_simps)
  qed
  have ia: "i < length a" and ib: "i < length b" using Suc.prems assms(1) by simp_all
  note ta = uval_take_Suc[OF ia] and tb = uval_take_Suc[OF ib]
  consider "a ! i < b ! i" | "b ! i < a ! i" | "a ! i = b ! i" by fastforce
  then show ?case
  proof cases
    case 1
    then have "uval (take (Suc i) a) < uval (take (Suc i) b)"
      unfolding ta tb by (intro lt uval_take_bound) (simp add: word_less_nat_alt)
    with 1 show ?thesis by simp
  next
    case 2
    then have "uval (take (Suc i) b) < uval (take (Suc i) a)"
      unfolding ta tb by (intro lt uval_take_bound) (simp add: word_less_nat_alt)
    with 2 show ?thesis by (auto simp: not_less_iff_gr_or_eq)
  next
    case 3
    with Suc show ?thesis by (simp add: ta tb)
  qed
qed

lemma uint_cmp_val:
  assumes "length a = length b"
  shows "uint_cmp a b =
    (if uval a < uval b then Less else if uval a > uval b then Greater else Equal)"
  using cmp_words_val[OF assms, of "length a"] assms by (simp add: uint_cmp_def)

lemma uint_less_val: "length a = length b \<Longrightarrow> uint_less a b \<longleftrightarrow> uval a < uval b"
  by (simp add: uint_less_def uint_cmp_val)

lemma uint_ge_val: "length a = length b \<Longrightarrow> uint_ge a b \<longleftrightarrow> uval b \<le> uval a"
  by (auto simp: uint_ge_def uint_cmp_val)

subsection \<open>Properties\<close>

text \<open>
  Addition and subtraction of two numbers of the same width wrap around modulo two to the
  power of the width, and the flag they return is raised exactly when the true result does not fit.
\<close>

theorem overflowing_add_sub_spec:
  assumes "length a = length b"
  shows "uval (fst (overflowing_add a b)) = (uval a + uval b) mod 2 ^ (64 * length a) \<and>
    (snd (overflowing_add a b) \<longleftrightarrow> 2 ^ (64 * length a) \<le> uval a + uval b) \<and>
    uval (fst (overflowing_sub a b)) =
      (uval a + 2 ^ (64 * length a) - uval b) mod 2 ^ (64 * length a) \<and>
    (snd (overflowing_sub a b) \<longleftrightarrow> uval a < uval b)"
proof (intro conjI)
  let ?M = "2 ^ (64 * length a) :: nat"
  have a: "uval a < ?M" and b: "uval b < ?M"
    using uval_bound[of a] uval_bound[of b] assms by simp_all
  obtain r ov where r: "overflowing_add a b = (r, ov)" by fastforce
  have rM: "uval r < ?M" using uval_bound[of r] overflowing_add_val(2)[OF assms r] by simp
  note v = overflowing_add_val(1)[OF assms r]
  from v rM show "snd (overflowing_add a b) \<longleftrightarrow> ?M \<le> uval a + uval b"
    by (cases ov) (auto simp: r)
  from v rM show "uval (fst (overflowing_add a b)) = (uval a + uval b) mod ?M"
    by (cases ov) (simp_all add: r mod_less flip: v)
  obtain q ov' where q: "overflowing_sub a b = (q, ov')" by fastforce
  have qM: "uval q < ?M" using uval_bound[of q] overflowing_sub_val(2)[OF assms q] by simp
  note w = overflowing_sub_val(1)[OF assms q]
  from w qM b show "snd (overflowing_sub a b) \<longleftrightarrow> uval a < uval b"
    by (cases ov') (auto simp: q)
  have "uval a + ?M - uval b = uval q + (if ov' then 0 else ?M)"
    using w b by (cases ov') auto
  then show "uval (fst (overflowing_sub a b)) = (uval a + ?M - uval b) mod ?M"
    using qM by (simp add: q)
qed

theorem overflowing_add_sub_spec_witness:
  "uval (fst (overflowing_add [- 1, 5] [1, 7])) = (uval [- 1, 5] + uval [1, 7]) mod 2 ^ (64 * length [- 1 :: u64, 5])"
  using overflowing_add_sub_spec[of "[- 1, 5]" "[1, 7]"] by simp

text \<open>
  The order on the arrays, computed word by word from the top, is the order of the numbers.
\<close>

theorem uint_cmp_spec:
  assumes "length a = length b"
  shows "uint_cmp a b =
    (if uval a < uval b then Less else if uval a > uval b then Greater else Equal)"
  using assms by (rule uint_cmp_val)

theorem uint_cmp_spec_witness:
  "uint_cmp [3, 5] [9, 4] =
    (if uval [3, 5] < uval [9, 4] then Less else if uval [3, 5] > uval [9, 4] then Greater else Equal)"
  by (rule uint_cmp_spec) simp

text \<open>
  \<open>overflowing_neg\<close> is the bitwise complement, one less than the two's complement negation its
  name promises: it is never the additive inverse.
\<close>

theorem overflowing_neg_complement:
  "uval (fst (overflowing_neg a)) + uval a + 1 = 2 ^ (64 * length a)"
proof (induction a)
  case Nil
  then show ?case by (simp add: overflowing_neg_def uint_not_def)
next
  case (Cons x xs)
  have "unat (NOT x) + unat x + 1 = 2 ^ 64"
  proof -
    have "NOT x = - 1 - x" by (simp add: not_eq_complement)
    then have "unat (NOT x) = unat (- 1 :: u64) - unat x"
      by (simp add: unat_sub)
    moreover have "unat x < 2 ^ 64" using unat_bound[of x] by simp
    ultimately show ?thesis
      by (simp add: unsigned_minus_1_eq_mask mask_eq_exp_minus_1)
  qed
  moreover have "2 ^ 64 * (uval (map (\<lambda>x. NOT x) xs) + uval xs + 1) = (2 ^ 64 * 2 ^ (64 * length xs) :: nat)"
    using Cons by (simp add: overflowing_neg_def uint_not_def)
  ultimately show ?case
    by (simp add: overflowing_neg_def uint_not_def power_add)
qed

end
