(* ===== verification/UintShift.thy ===== *)
theory UintShift
  imports UintBase
begin

section \<open>Fixed-size unsigned integers: bits and shifts\<close>

text \<open>
  \<open>bits\<close>, \<open>bit\<close>, \<open>byte\<close>, \<open>Shl\<close> and \<open>Shr\<close> of \<open>construct_uint!\<close>. An index out of the array panics
  (\<open>None\<close>). The shifts are the two passes of the code over the result array; the additions of the
  carry pass have disjoint bits (\<open>uint_shl_nth\<close>, \<open>uint_shr_nth\<close>), so they cannot overflow.
\<close>

subsection \<open>Definitions\<close>

fun bits_loop :: "uint \<Rightarrow> nat list \<Rightarrow> nat" where
  "bits_loop arr [] = 0x40 - leading_zeros (arr ! 0)"
| "bits_loop arr (i # is) =
     (let n = length arr in
      if arr ! (n - i) > 0 then 0x40 * (n - i + 1) - leading_zeros (arr ! (n - i))
      else bits_loop arr is)"

definition uint_bits :: "uint \<Rightarrow> nat" where
  "uint_bits arr = bits_loop arr [1..<length arr]"

definition uint_bit :: "uint \<Rightarrow> nat \<Rightarrow> bool option" where
  "uint_bit arr index =
     (if index div 64 < length arr
      then Some (arr ! (index div 64) AND push_bit (index mod 64) 1 \<noteq> 0) else None)"

definition uint_byte :: "uint \<Rightarrow> nat \<Rightarrow> u8 option" where
  "uint_byte arr index =
     (if index div 8 < length arr
      then Some (ucast (drop_bit (index mod 8 * 8) (arr ! (index div 8)))) else None)"

definition uint_shl :: "uint \<Rightarrow> nat \<Rightarrow> uint" where
  "uint_shl original shift =
     (let n = length original; word_shift = shift div 64; bit_shift = shift mod 64;
          ret = foldl (\<lambda>ret i. ret[i := push_bit bit_shift (original ! (i - word_shift))])
                  (replicate n 0) [word_shift..<n]
      in if bit_shift > 0
         then foldl (\<lambda>ret i. ret[i := ret ! i + drop_bit (64 - bit_shift) (original ! (i - 1 - word_shift))])
                ret [word_shift + 1..<n]
         else ret)"

definition uint_shr :: "uint \<Rightarrow> nat \<Rightarrow> uint" where
  "uint_shr original shift =
     (let n = length original; word_shift = shift div 64; bit_shift = shift mod 64;
          ret = foldl (\<lambda>ret i. ret[i - word_shift := drop_bit bit_shift (original ! i)])
                  (replicate n 0) [word_shift..<n]
      in if bit_shift > 0
         then foldl (\<lambda>ret i. ret[i - word_shift - 1 :=
                       ret ! (i - word_shift - 1) + push_bit (64 - bit_shift) (original ! i)])
                ret [word_shift + 1..<n]
         else ret)"

subsection \<open>Bits of the value\<close>

lemma bit_uval: "bit (uval xs) k \<longleftrightarrow> k < 64 * length xs \<and> bit (xs ! (k div 64)) (k mod 64)"
proof (induction xs arbitrary: k)
  case Nil
  then show ?case by simp
next
  case (Cons x xs)
  have "unat x AND push_bit 64 (uval xs) = 0"
    by (rule bit_eqI) (auto simp: bit_simps dest: bit_imp_le_length)
  then have "uval (x # xs) = unat x OR push_bit 64 (uval xs)"
    by (metis disjunctive_add_eq_or mult.commute push_bit_eq_mult uval.simps(2))
  then have b: "bit (uval (x # xs)) k \<longleftrightarrow> bit x k \<or> 64 \<le> k \<and> bit (uval xs) (k - 64)"
    by (simp add: bit_simps bit_push_bit_iff_nat)
  show ?case
  proof (cases "k < 64")
    case True
    then show ?thesis unfolding b by simp
  next
    case False
    then have "\<not> bit x k" by (auto dest: bit_imp_le_length)
    moreover obtain j where "k = 64 + j" using False by (metis le_iff_add not_less)
    moreover have "(64 + j) div 64 = Suc (j div 64)" "(64 + j) mod 64 = j mod 64" by simp_all
    ultimately show ?thesis unfolding b by (simp only: Cons.IH) simp
  qed
qed

lemma uval_bit_eqI:
  assumes "\<And>k. k < 64 * length xs \<Longrightarrow> bit (xs ! (k div 64)) (k mod 64) \<longleftrightarrow> bit v k"
    and "v < 2 ^ (64 * length xs)"
  shows "uval xs = v"
proof (rule bit_eqI)
  fix k
  have "bit v k \<Longrightarrow> k < 64 * length xs"
  proof (rule ccontr)
    assume "bit v k" "\<not> k < 64 * length xs"
    then have "(2 :: nat) ^ (64 * length xs) \<le> 2 ^ k" by (intro power_increasing) simp_all
    with assms(2) have "v < 2 ^ k" by linarith
    with \<open>bit v k\<close> show False by (simp add: bit_iff_odd)
  qed
  then show "bit (uval xs) k \<longleftrightarrow> bit v k" using assms(1)[of k] by (auto simp: bit_uval)
qed

text \<open>The bitwise operators act on the values.\<close>

lemma bit_word_nth_map2:
  assumes "length a = length b" and "k < 64 * length a"
  shows "map2 f a b ! (k div 64) = f (a ! (k div 64)) (b ! (k div 64))"
  using assms by (simp add: less_mult_imp_div_less)

lemma uval_bitand:
  assumes "length a = length b"
  shows "uval (uint_bitand a b) = uval a AND uval b"
proof (rule bit_eqI)
  fix k
  show "bit (uval (uint_bitand a b)) k \<longleftrightarrow> bit (uval a AND uval b) k"
    using assms bit_word_nth_map2[OF assms, of k]
    by (auto simp: uint_bitand_def bit_uval bit_and_iff)
qed

lemma uval_bitor:
  assumes "length a = length b"
  shows "uval (uint_bitor a b) = uval a OR uval b"
proof (rule bit_eqI)
  fix k
  show "bit (uval (uint_bitor a b)) k \<longleftrightarrow> bit (uval a OR uval b) k"
    using assms bit_word_nth_map2[OF assms, of k]
    by (auto simp: uint_bitor_def bit_uval bit_or_iff)
qed

lemma uval_bitxor:
  assumes "length a = length b"
  shows "uval (uint_bitxor a b) = uval a XOR uval b"
proof (rule bit_eqI)
  fix k
  show "bit (uval (uint_bitxor a b)) k \<longleftrightarrow> bit (uval a XOR uval b) k"
    using assms bit_word_nth_map2[OF assms, of k]
    by (auto simp: uint_bitxor_def bit_uval bit_xor_iff)
qed

lemma uint_bit_val:
  "uint_bit arr i = (if i < 64 * length arr then Some (bit (uval arr) i) else None)"
proof -
  have "i div 64 < length arr \<longleftrightarrow> i < 64 * length arr" by (simp add: div_less_iff_less_mult mult.commute)
  moreover have "w AND push_bit j 1 \<noteq> 0 \<longleftrightarrow> bit w j" if "j < 64" for w :: u64 and j
    using that by (simp add: and_exp_eq_0_iff_not_bit push_bit_eq_mult)
  ultimately show ?thesis by (simp add: uint_bit_def bit_uval)
qed

lemma uint_byte_val:
  assumes "i < 8 * length arr"
  shows "map_option unat (uint_byte arr i) = Some (uval arr div 256 ^ i mod 256)"
proof -
  have i: "i div 8 < length arr" using assms by (simp add: less_mult_imp_div_less mult.commute)
  have "unat (ucast (drop_bit (i mod 8 * 8) (arr ! (i div 8))) :: u8) =
      take_bit 8 (drop_bit (8 * i) (uval arr))"
  proof (rule bit_eqI)
    fix k
    have eq: "(8 * i + k) div 64 = i div 8" "(8 * i + k) mod 64 = i mod 8 * 8 + k"
      and lt: "8 * i + k < 64 * length arr" if "k < 8"
    proof -
      have "8 * i + k = 64 * (i div 8) + (i mod 8 * 8 + k)" by presburger
      moreover have "i mod 8 * 8 + k < 64" using that mod_less_divisor[of 8 i] by linarith
      ultimately show "(8 * i + k) div 64 = i div 8" "(8 * i + k) mod 64 = i mod 8 * 8 + k"
        by (metis (no_types) add.commute div_mult_self2 div_less add_0 zero_neq_numeral,
            metis (no_types) mod_mult_self4 mod_less)
      show "8 * i + k < 64 * length arr" using that assms by simp
    qed
    show "bit (unat (ucast (drop_bit (i mod 8 * 8) (arr ! (i div 8))) :: u8)) k \<longleftrightarrow>
        bit (take_bit 8 (drop_bit (8 * i) (uval arr))) k"
      using eq lt by (auto simp: bit_simps bit_uval)
  qed
  also have "\<dots> = uval arr div 256 ^ i mod 256"
    by (simp add: take_bit_eq_mod drop_bit_eq_div power_mult)
  finally show ?thesis using i by (simp add: uint_byte_def)
qed

subsection \<open>The two passes of a shift\<close>

text \<open>The array after a pass that updates the cells \<open>i - d\<close> in turn.\<close>

lemma length_foldl_update [simp]:
  "length (foldl (\<lambda>r i. r[g i := f i r]) r is) = length r"
  by (induction "is" arbitrary: r) simp_all

lemma foldl_update_nth:
  assumes "d \<le> a" and "b \<le> length r + d" and "k < length r"
  shows "foldl (\<lambda>r i. r[i - d := f i (r ! (i - d))]) r [a..<b] ! k =
    (if a \<le> k + d \<and> k + d < b then f (k + d) (r ! k) else r ! k)"
  using assms(2)
proof (induction b)
  case 0
  then show ?case by simp
next
  case (Suc b)
  show ?case
  proof (cases "a \<le> b")
    case False
    then show ?thesis by auto
  next
    case True
    have "b - d < length r" using Suc.prems True assms(1) by simp
    moreover have "b - d = k \<longleftrightarrow> b = k + d" using True assms(1) by auto
    ultimately show ?thesis
      using Suc True assms(1,3) by (auto simp: nth_list_update less_Suc_eq)
  qed
qed

lemma uint_shl_nth:
  assumes "k < length a"
  shows "uint_shl a s ! k =
    (if s div 64 \<le> k then push_bit (s mod 64) (a ! (k - s div 64)) else 0) OR
    (if s div 64 < k \<and> 0 < s mod 64 then drop_bit (64 - s mod 64) (a ! (k - 1 - s div 64)) else 0)"
proof -
  let ?w = "s div 64" and ?b = "s mod 64" and ?n = "length a"
  let ?r = "foldl (\<lambda>ret i. ret[i := push_bit ?b (a ! (i - ?w))]) (replicate ?n 0) [?w..<?n]"
  have r: "?r ! k = (if ?w \<le> k then push_bit ?b (a ! (k - ?w)) else 0)"
    using foldl_update_nth[of 0 ?w ?n "replicate ?n 0" k "\<lambda>i _. push_bit ?b (a ! (i - ?w))"] assms
    by simp
  have "push_bit ?b (a ! (k - ?w)) AND drop_bit (64 - ?b) (a ! (k - 1 - ?w)) = 0"
    by (rule bit_word_eqI) (auto simp: bit_simps dest: bit_imp_le_length)
  then have dj: "push_bit ?b (a ! (k - ?w)) + drop_bit (64 - ?b) (a ! (k - 1 - ?w)) =
      push_bit ?b (a ! (k - ?w)) OR drop_bit (64 - ?b) (a ! (k - 1 - ?w))"
    by (rule disjunctive_add_eq_or)
  show ?thesis
    using foldl_update_nth[of 0 "?w + 1" ?n ?r k "\<lambda>i x. x + drop_bit (64 - ?b) (a ! (i - 1 - ?w))"] assms dj r
    by (auto simp: uint_shl_def Let_def)
qed

lemma uint_shr_nth:
  assumes "k < length a"
  shows "uint_shr a s ! k =
    (if k + s div 64 < length a then drop_bit (s mod 64) (a ! (k + s div 64)) else 0) OR
    (if k + s div 64 + 1 < length a \<and> 0 < s mod 64
     then push_bit (64 - s mod 64) (a ! (k + s div 64 + 1)) else 0)"
proof -
  let ?w = "s div 64" and ?b = "s mod 64" and ?n = "length a"
  let ?r = "foldl (\<lambda>ret i. ret[i - ?w := drop_bit ?b (a ! i)]) (replicate ?n 0) [?w..<?n]"
  have r: "?r ! k = (if k + ?w < ?n then drop_bit ?b (a ! (k + ?w)) else 0)"
    using foldl_update_nth[of ?w ?w ?n "replicate ?n 0" k "\<lambda>i _. drop_bit ?b (a ! i)"] assms
    by simp
  have "drop_bit ?b (a ! (k + ?w)) AND push_bit (64 - ?b) (a ! (k + ?w + 1)) = 0"
    by (rule bit_word_eqI) (auto simp: bit_simps dest: bit_imp_le_length)
  then have dj: "drop_bit ?b (a ! (k + ?w)) + push_bit (64 - ?b) (a ! (k + ?w + 1)) =
      drop_bit ?b (a ! (k + ?w)) OR push_bit (64 - ?b) (a ! (k + ?w + 1))"
    by (rule disjunctive_add_eq_or)
  have "foldl (\<lambda>r i. r[i - (?w + 1) := r ! (i - (?w + 1)) + push_bit (64 - ?b) (a ! i)]) ?r [?w + 1..<?n] ! k =
    (if k + ?w + 1 < ?n then ?r ! k + push_bit (64 - ?b) (a ! (k + ?w + 1)) else ?r ! k)"
    using foldl_update_nth[of "?w + 1" "?w + 1" ?n ?r k "\<lambda>i x. x + push_bit (64 - ?b) (a ! i)"] assms
    by simp
  then show ?thesis using r dj by (auto simp: uint_shr_def Let_def)
qed

lemma length_uint_shl [simp]: "length (uint_shl a s) = length a"
  by (simp add: uint_shl_def Let_def)

lemma length_uint_shr [simp]: "length (uint_shr a s) = length a"
  by (simp add: uint_shr_def Let_def)

subsection \<open>Shifts, bits and values\<close>

text \<open>Quotient and remainder of a sum and a difference, from those of the parts.\<close>

lemma div_mod_unique:
  fixes m :: nat
  assumes "m = 64 * q + r" and "r < 64"
  shows "m div 64 = q" and "m mod 64 = r"
  using assms by simp_all

lemma shifted_index:
  fixes k s :: nat
  shows "k mod 64 + s mod 64 < 64 \<Longrightarrow> (k + s) div 64 = k div 64 + s div 64 \<and> (k + s) mod 64 = k mod 64 + s mod 64"
    and "64 \<le> k mod 64 + s mod 64 \<Longrightarrow>
      (k + s) div 64 = k div 64 + s div 64 + 1 \<and> (k + s) mod 64 = k mod 64 + s mod 64 - 64"
proof -
  define q r w b where d: "q = k div 64" "r = k mod 64" "w = s div 64" "b = s mod 64"
  have e: "k = 64 * q + r" "s = 64 * w + b" "r < 64" "b < 64" by (simp_all add: d)
  show "k mod 64 + s mod 64 < 64 \<Longrightarrow> (k + s) div 64 = k div 64 + s div 64 \<and> (k + s) mod 64 = k mod 64 + s mod 64"
    unfolding d[symmetric] using div_mod_unique[of "k + s" "q + w" "r + b"] e by simp
  show "64 \<le> k mod 64 + s mod 64 \<Longrightarrow>
      (k + s) div 64 = k div 64 + s div 64 + 1 \<and> (k + s) mod 64 = k mod 64 + s mod 64 - 64"
    unfolding d[symmetric] using div_mod_unique[of "k + s" "q + w + 1" "r + b - 64"] e by simp
qed

lemma unshifted_index:
  fixes k s :: nat
  assumes "s \<le> k"
  shows "s mod 64 \<le> k mod 64 \<Longrightarrow> (k - s) div 64 = k div 64 - s div 64 \<and> (k - s) mod 64 = k mod 64 - s mod 64"
    and "\<not> s mod 64 \<le> k mod 64 \<Longrightarrow>
      (k - s) div 64 = k div 64 - 1 - s div 64 \<and> (k - s) mod 64 = k mod 64 + 64 - s mod 64"
proof -
  define q r w b where d: "q = k div 64" "r = k mod 64" "w = s div 64" "b = s mod 64"
  have e: "k = 64 * q + r" "s = 64 * w + b" "r < 64" "b < 64" by (simp_all add: d)
  have wq: "w \<le> q" using assms by (simp add: d div_le_mono)
  have "b \<le> r \<Longrightarrow> k - s = 64 * (q - w) + (r - b)" using wq e by (simp add: diff_mult_distrib2)
  then show "s mod 64 \<le> k mod 64 \<Longrightarrow> (k - s) div 64 = k div 64 - s div 64 \<and> (k - s) mod 64 = k mod 64 - s mod 64"
    unfolding d[symmetric] using div_mod_unique[of "k - s" "q - w" "r - b"] e(3) by simp
  assume "\<not> s mod 64 \<le> k mod 64"
  then have "r < b" by (simp add: d)
  moreover have "w < q" using assms e calculation by linarith
  moreover have "k - s = 64 * (q - 1 - w) + (r + 64 - b)"
    using calculation e by (simp add: diff_mult_distrib2)
  ultimately show "(k - s) div 64 = k div 64 - 1 - s div 64 \<and> (k - s) mod 64 = k mod 64 + 64 - s mod 64"
    unfolding d[symmetric] using div_mod_unique[of "k - s" "q - 1 - w" "r + 64 - b"] by simp
qed

lemma le_div_index:
  fixes k s :: nat
  shows "s mod 64 \<le> k mod 64 \<Longrightarrow> s div 64 \<le> k div 64 \<longleftrightarrow> s \<le> k"
    and "\<not> s mod 64 \<le> k mod 64 \<Longrightarrow> s div 64 < k div 64 \<longleftrightarrow> s \<le> k"
proof -
  define q r w b where d: "q = k div 64" "r = k mod 64" "w = s div 64" "b = s mod 64"
  have e: "k = 64 * q + r" "s = 64 * w + b" "r < 64" "b < 64" by (simp_all add: d)
  show "s mod 64 \<le> k mod 64 \<Longrightarrow> s div 64 \<le> k div 64 \<longleftrightarrow> s \<le> k"
    "\<not> s mod 64 \<le> k mod 64 \<Longrightarrow> s div 64 < k div 64 \<longleftrightarrow> s \<le> k"
    unfolding d[symmetric] using e by linarith+
qed

lemma div64_less: "(k :: nat) < 64 * n \<longleftrightarrow> k div 64 < n"
  by (simp add: div_less_iff_less_mult mult.commute)

lemma bit_uint_shr_word:
  assumes "q < length a" and "r < 64"
  shows "bit (uint_shr a s ! q) r \<longleftrightarrow>
    (if r + s mod 64 < 64 then q + s div 64 < length a \<and> bit (a ! (q + s div 64)) (r + s mod 64)
     else q + s div 64 + 1 < length a \<and> bit (a ! (q + s div 64 + 1)) (r + s mod 64 - 64))"
proof -
  define w b where "w = s div 64" and "b = s mod 64"
  have "b < 64" by (simp add: b_def)
  then show ?thesis
    unfolding uint_shr_nth[OF assms(1)] w_def[symmetric] b_def[symmetric] bit_or_iff
    using assms(2) by (auto simp: bit_push_bit_iff bit_drop_bit_eq add.commute dest: bit_imp_le_length)
qed

lemma uval_shr: "uval (uint_shr a s) = uval a div 2 ^ s"
proof -
  have "uval (uint_shr a s) = drop_bit s (uval a)"
  proof (rule bit_eqI)
    fix k
    note lt = div64_less[of "k + s" "length a"] and k = div64_less[of k "length a"]
    have le: "(k + s) div 64 < length a \<Longrightarrow> k div 64 < length a"
      by (meson div_le_mono le_add1 le_less_trans)
    show "bit (uval (uint_shr a s)) k \<longleftrightarrow> bit (drop_bit s (uval a)) k"
    proof (cases "k div 64 < length a")
      case False
      then show ?thesis using le
        by (simp only: bit_uval bit_drop_bit_eq o_def k lt add.commute[of s] length_uint_shr) blast
    next
      case True
      have b: "k mod 64 < 64" by simp
      note b = bit_uint_shr_word[OF True b, of s]
      show ?thesis
      proof (cases "k mod 64 + s mod 64 < 64")
        case Lt: True
        show ?thesis using True shifted_index(1)[OF Lt] b Lt
          by (simp only: bit_uval bit_drop_bit_eq k lt add.commute[of s] length_uint_shr o_def if_True HOL.simp_thms)
      next
        case False
        then have F: "64 \<le> k mod 64 + s mod 64" by simp
        note si = shifted_index(2)[OF F]
        show ?thesis using True si b False
          by (simp only: bit_uval bit_drop_bit_eq k lt add.commute[of s] length_uint_shr o_def if_False HOL.simp_thms)
      qed
    qed
  qed
  then show ?thesis by (simp add: drop_bit_eq_div)
qed

lemma bit_uint_shl_word:
  assumes "q < length a" and "r < 64"
  shows "bit (uint_shl a s ! q) r \<longleftrightarrow>
    (if s mod 64 \<le> r then s div 64 \<le> q \<and> bit (a ! (q - s div 64)) (r - s mod 64)
     else s div 64 < q \<and> bit (a ! (q - 1 - s div 64)) (r + 64 - s mod 64))"
proof -
  define w b where "w = s div 64" and "b = s mod 64"
  have "b < 64" by (simp add: b_def)
  then show ?thesis
    unfolding uint_shl_nth[OF assms(1)] w_def[symmetric] b_def[symmetric] bit_or_iff
    using assms(2) by (auto simp: bit_push_bit_iff bit_drop_bit_eq add.commute dest: bit_imp_le_length)
qed

lemma uval_shl: "uval (uint_shl a s) = (uval a * 2 ^ s) mod 2 ^ (64 * length a)"
proof -
  have "uval (uint_shl a s) = take_bit (64 * length a) (push_bit s (uval a))"
  proof (rule bit_eqI)
    fix k
    note k = div64_less[of k "length a"]
    show "bit (uval (uint_shl a s)) k \<longleftrightarrow> bit (take_bit (64 * length a) (push_bit s (uval a))) k"
    proof (cases "k div 64 < length a")
      case False
      then show ?thesis by (simp add: bit_uval bit_take_bit_iff k)
    next
      case True
      have b: "k mod 64 < 64" by simp
      note b = bit_uint_shl_word[OF True b, of s]
      have kt: "bit (take_bit (64 * length a) (push_bit s (uval a))) k \<longleftrightarrow>
          s \<le> k \<and> k - s < 64 * length a \<and> bit (a ! ((k - s) div 64)) ((k - s) mod 64)"
        using True by (simp add: bit_uval bit_take_bit_iff bit_push_bit_iff_nat k)
      have kl: "bit (uval (uint_shl a s)) k \<longleftrightarrow> bit (uint_shl a s ! (k div 64)) (k mod 64)"
        using True by (simp add: bit_uval k)
      have "k - s < 64 * length a" using True k by simp
      moreover note le_div_index[of s k] unshifted_index[of s k]
      ultimately show ?thesis unfolding kl kt b
        by (cases "s mod 64 \<le> k mod 64"; cases "s \<le> k") (simp_all only: if_True if_False HOL.simp_thms)
    qed
  qed
  then show ?thesis by (simp add: take_bit_eq_mod push_bit_eq_mult)
qed

subsection \<open>The number of bits\<close>

lemma leading_zeros_val64:
  "unat (w :: u64) < 2 ^ (64 - leading_zeros w) \<and>
    (w \<noteq> 0 \<longrightarrow> leading_zeros w < 64 \<and> 2 ^ (63 - leading_zeros w) \<le> unat w)"
  using leading_zeros_val[of w] by simp

lemma bits_loop_val:
  assumes "1 \<le> m" and "m \<le> length a" and "uval (drop (length a + 1 - m) a) = 0"
  shows "uval a < 2 ^ bits_loop a [m..<length a] \<and>
    (0 < uval a \<longrightarrow> 0 < bits_loop a [m..<length a] \<and> 2 ^ (bits_loop a [m..<length a] - 1) \<le> uval a)"
  using assms
proof (induction "length a - m" arbitrary: m)
  case 0
  then have m: "m = length a" and a: "a \<noteq> []" and z: "uval (drop 1 a) = 0" by auto
  from a obtain x xs where ax: "a = x # xs" by (cases a) auto
  have "uval a = unat (a ! 0)" using z by (simp add: ax)
  then show ?case using leading_zeros_val64[of "a ! 0"] by (auto simp: m word_gt_0 unat_gt_0)
next
  case (Suc d)
  let ?n = "length a"
  let ?w = "a ! (?n - m)" and ?l = "leading_zeros (a ! (?n - m))"
  have m: "m < ?n" using Suc.hyps(2) by simp
  have i: "?n - m < ?n" "Suc (?n - m) = ?n + 1 - m" using m Suc.prems by simp_all
  have v: "uval a = uval (take (?n - m) a) + 2 ^ (64 * (?n - m)) * unat ?w"
    using uval_append[of "take (?n + 1 - m) a" "drop (?n + 1 - m) a"] uval_take_Suc[OF i(1)] Suc.prems(3) i(2)
    by simp
  have up: "[m..<?n] = m # [Suc m..<?n]" using m by (simp add: upt_conv_Cons)
  show ?case
  proof (cases "?w > 0")
    case True
    then have w: "?l < 64" "2 ^ (63 - ?l) \<le> unat ?w" "unat ?w < 2 ^ (64 - ?l)"
      using leading_zeros_val64[of ?w] by (auto simp: word_gt_0)
    have b: "bits_loop a [m..<?n] = 64 * (?n - m) + (64 - ?l)" using True w(1) by (simp add: up Let_def)
    have "2 ^ (64 * (?n - m)) * (unat ?w + 1) \<le> 2 ^ (64 * (?n - m)) * (2 ^ (64 - ?l) :: nat)"
      using w(3) by (intro mult_le_mono2) simp
    moreover have "uval (take (?n - m) a) < 2 ^ (64 * (?n - m))" by (rule uval_take_bound)
    ultimately have "uval a < 2 ^ (64 * (?n - m) + (64 - ?l))" unfolding v power_add by simp
    moreover have "2 ^ (64 * (?n - m)) * (2 ^ (63 - ?l) :: nat) \<le> 2 ^ (64 * (?n - m)) * unat ?w"
      using w(2) by (rule mult_le_mono2)
    then have "2 ^ (64 * (?n - m) + (63 - ?l)) \<le> uval a" unfolding v power_add by linarith
    moreover have "64 * (?n - m) + (64 - ?l) - 1 = 64 * (?n - m) + (63 - ?l)" using w(1) by simp
    ultimately show ?thesis unfolding b using w(1) by simp
  next
    case False
    then have "?w = 0" by (simp add: word_gt_0)
    then have "bits_loop a [m..<?n] = bits_loop a [Suc m..<?n]" by (simp add: up Let_def)
    moreover have "uval (drop (?n - m) a) = 0"
      using \<open>?w = 0\<close> Suc.prems(3) i by (simp add: Cons_nth_drop_Suc[OF i(1), symmetric])
    ultimately show ?thesis using Suc.hyps(1)[of "Suc m"] Suc.hyps(2) m by simp
  qed
qed

lemma uint_bits_val:
  assumes "a \<noteq> []"
  shows "uval a < 2 ^ uint_bits a" and "0 < uval a \<Longrightarrow> 2 ^ (uint_bits a - 1) \<le> uval a"
    and "uint_bits a = 0 \<longleftrightarrow> uval a = 0"
proof -
  have 1: "1 \<le> length a" using assms by (cases a) auto
  have "uval (drop (length a + 1 - 1) a) = 0" by simp
  note b = bits_loop_val[OF order_refl 1 this, folded uint_bits_def]
  show "uval a < 2 ^ uint_bits a" and "0 < uval a \<Longrightarrow> 2 ^ (uint_bits a - 1) \<le> uval a" using b by auto
  have z: "uint_bits a = 0" if "uval a = 0"
  proof -
    have zs: "\<And>i. i < length a \<Longrightarrow> a ! i = 0" using that by (simp add: uval_eq_0_iff)
    have "bits_loop a is = 0" if "\<forall>i \<in> set is. 0 < i" for "is"
      using that
    proof (induction "is")
      case Nil
      have "leading_zeros (0 :: u64) = 64" by (simp add: leading_zeros_def takeWhile_eq_all_conv[THEN iffD2])
      moreover have "a ! 0 = 0" using zs[of 0] assms by simp
      ultimately show ?case by simp
    next
      case (Cons i "is")
      moreover have "a ! (length a - i) = 0" using Cons.prems assms by (intro zs) simp
      ultimately show ?case by (simp add: Let_def)
    qed
    then show ?thesis by (simp add: uint_bits_def)
  qed
  show "uint_bits a = 0 \<longleftrightarrow> uval a = 0" using b z by auto
qed

subsection \<open>Properties\<close>

text \<open>
  The shift operators multiply and divide by a power of two: a left shift drops what leaves the
  width, a right shift drops the remainder, for every shift distance.\<close>

theorem uint_shift_spec:
  "uval (uint_shl a s) = (uval a * 2 ^ s) mod 2 ^ (64 * length a) \<and>
    uval (uint_shr a s) = uval a div 2 ^ s"
  by (simp add: uval_shl uval_shr)

text \<open>
  \<open>bits\<close> is the least number of bits that represents the number, and \<open>bit\<close> and \<open>byte\<close> read the
  bits and the bytes of the number, panicking exactly beyond the width.\<close>

theorem uint_bits_spec:
  assumes "a \<noteq> []"
  shows "(\<forall>k. uval a < 2 ^ k \<longleftrightarrow> uint_bits a \<le> k) \<and>
    (\<forall>i. uint_bit a i = (if i < 64 * length a then Some (bit (uval a) i) else None)) \<and>
    (\<forall>i. map_option unat (uint_byte a i) =
      (if i < 8 * length a then Some (uval a div 256 ^ i mod 256) else None))"
proof (intro conjI allI)
  fix k
  note b = uint_bits_val[OF assms]
  show "uval a < 2 ^ k \<longleftrightarrow> uint_bits a \<le> k"
  proof
    assume "uint_bits a \<le> k"
    then have "(2 :: nat) ^ uint_bits a \<le> 2 ^ k" by (rule power_increasing) simp
    with b(1) show "uval a < 2 ^ k" by (rule order_less_le_trans)
  next
    assume lt: "uval a < 2 ^ k"
    show "uint_bits a \<le> k"
    proof (cases "uval a = 0")
      case False
      with b(2) lt have "(2 :: nat) ^ (uint_bits a - 1) < 2 ^ k" by linarith
      then have "uint_bits a - 1 < k" by (rule power_less_imp_less_exp[rotated]) simp
      then show ?thesis by simp
    next
      case True
      then show ?thesis using b(3) by simp
    qed
  qed
next
  fix i
  show "uint_bit a i = (if i < 64 * length a then Some (bit (uval a) i) else None)"
    by (rule uint_bit_val)
next
  fix i
  show "map_option unat (uint_byte a i) =
      (if i < 8 * length a then Some (uval a div 256 ^ i mod 256) else None)"
  proof (cases "i < 8 * length a")
    case False
    then have "\<not> i div 8 < length a" by (simp add: div_less_iff_less_mult mult.commute)
    with False show ?thesis by (simp add: uint_byte_def)
  qed (simp add: uint_byte_val)
qed

theorem uint_bits_spec_witness: "uint_bit [5, 1] 64 = Some (bit (uval [5, 1]) 64)"
  using uint_bits_spec[of "[5, 1]", THEN conjunct2, THEN conjunct1] by simp

text \<open>The bitwise operators of the arrays are those of the numbers.\<close>

theorem uint_bitops_spec:
  assumes "length a = length b"
  shows "uval (uint_bitand a b) = uval a AND uval b \<and> uval (uint_bitor a b) = uval a OR uval b \<and>
    uval (uint_bitxor a b) = uval a XOR uval b"
  by (simp add: uval_bitand uval_bitor uval_bitxor assms)

theorem uint_bitops_spec_witness: "uval (uint_bitxor [5, 1] [3, 9]) = uval [5, 1] XOR uval [3, 9]"
  using uint_bitops_spec[of "[5, 1]" "[3, 9]"] by simp

end
