(* ===== verification/UintMul.thy ===== *)
theory UintMul
  imports UintBase
begin

section \<open>Fixed-size unsigned integers: multiplication\<close>

text \<open>
  The schoolbook multiplication of \<open>uint_overflowing_mul_reg!\<close> and \<open>full_mul\<close>, by halves of words,
  and the multiplication by a \<open>u32\<close> of \<open>overflowing_mul_u32\<close>. The products of halves in \<open>mul_u32\<close>
  and the additions marked as not overflowing stay in range (\<open>mul_u32_val\<close>, \<open>mul_cell_val\<close>), so the
  plain word operations of the model do not hide a panic.
\<close>

definition split_u64 :: "u64 \<Rightarrow> u64 \<times> u64" where
  "split_u64 a = (drop_bit 32 a, a AND 0xFFFFFFFF)"

definition mul_u32 :: "u64 \<times> u64 \<Rightarrow> u64 \<Rightarrow> u64 \<Rightarrow> u64 \<times> u64" where
  "mul_u32 a b carry =
     (let upper = b * fst a;
          lower = b * snd a;
          (res1, overflow1) = overflowing_add_u64 lower (push_bit 32 upper);
          (res2, overflow2) = overflowing_add_u64 res1 carry;
          carry = drop_bit 32 upper + bool_as_u64 overflow1 + bool_as_u64 overflow2
      in (res2, carry))"

text \<open>
  One round of the inner loop: the words \<open>ret[i + j]\<close> and \<open>ret[i + j + 1]\<close> and the carry.
\<close>

definition mul_cell ::
    "u64 \<Rightarrow> u64 \<times> u64 \<Rightarrow> u64 \<Rightarrow> u64 \<Rightarrow> u64 \<Rightarrow> u64 \<times> u64 \<times> u64" where
  "mul_cell me_j b r0 r1 carry2 =
     (let (b_u, b_l) = b;
          a = split_u64 me_j;
          (c_l, overflow_l) = mul_u32 a b_l r0;
          (c_u, overflow_u) = mul_u32 a b_u (drop_bit 32 c_l);
          r0' = (c_l AND 0xFFFFFFFF) + push_bit 32 c_u;
          res = drop_bit 32 c_u + push_bit 32 overflow_u;
          (res, o1) = overflowing_add_u64 res overflow_l;
          (res, o2) = overflowing_add_u64 res carry2;
          (res, o3) = overflowing_add_u64 res r1
      in (r0', res, bool_as_u64 (o1 \<or> o2 \<or> o3)))"

definition mul_inner :: "uint \<Rightarrow> u64 \<times> u64 \<Rightarrow> nat \<Rightarrow> uint \<times> u64 \<Rightarrow> nat \<Rightarrow> uint \<times> u64" where
  "mul_inner me b i st j =
     (let (ret, carry2) = st in
      if me ! j = 0 \<and> carry2 = 0 then (ret, carry2)
      else let (r0, r1, carry2') = mul_cell (me ! j) b (ret ! (i + j)) (ret ! (i + j + 1)) carry2
           in (ret[i + j := r0, i + j + 1 := r1], carry2'))"

definition mul_outer :: "uint \<Rightarrow> uint \<Rightarrow> uint \<Rightarrow> nat \<Rightarrow> uint" where
  "mul_outer me you ret i =
     (if you ! i = 0 then ret
      else fst (foldl (mul_inner me (split_u64 (you ! i)) i) (ret, 0) [0..<length me]))"

text \<open>The product on twice the words; for four words this is \<open>U256::full_mul\<close>.\<close>

definition full_mul :: "uint \<Rightarrow> uint \<Rightarrow> uint" where
  "full_mul me you = foldl (mul_outer me you) (replicate (2 * length me) 0) [0..<length me]"

definition overflowing_mul :: "uint \<Rightarrow> uint \<Rightarrow> uint \<times> bool" where
  "overflowing_mul me you =
     (let ret = full_mul me you; n = length me
      in (take n ret, list_ex (\<lambda>w. w \<noteq> 0) (drop n ret)))"

definition uint_mul :: "uint \<Rightarrow> uint \<Rightarrow> uint option" where
  "uint_mul a b = (let (r, overflow) = overflowing_mul a b in if overflow then None else Some r)"

definition saturating_mul :: "uint \<Rightarrow> uint \<Rightarrow> uint" where
  "saturating_mul a b =
     (case overflowing_mul a b of
        (_, True) \<Rightarrow> uint_max_value (length a)
      | (val, False) \<Rightarrow> val)"

fun mul_u32_words :: "uint \<Rightarrow> u64 \<Rightarrow> u64 \<Rightarrow> uint \<times> u64" where
  "mul_u32_words [] k carry = ([], carry)"
| "mul_u32_words (w # ws) k carry =
     (let (res, carry2) = mul_u32 (split_u64 w) k carry;
          (ret, c) = mul_u32_words ws k carry2
      in (res # ret, c))"

definition overflowing_mul_u32 :: "uint \<Rightarrow> u32 \<Rightarrow> uint \<times> bool" where
  "overflowing_mul_u32 arr other =
     (let (ret, carry) = mul_u32_words arr (ucast other) 0 in (ret, carry > 0))"

definition uint_mul_u32 :: "uint \<Rightarrow> u32 \<Rightarrow> uint option" where
  "uint_mul_u32 a k = (let (r, overflow) = overflowing_mul_u32 a k in if overflow then None else Some r)"

text \<open>\<open>exp10\<close> recurses down to zero and panics when the power does not fit.\<close>

fun exp10 :: "nat \<Rightarrow> nat \<Rightarrow> uint option" where
  "exp10 n 0 = Some (uint_from_u64 n 1)"
| "exp10 n (Suc k) = do { r \<leftarrow> exp10 n k; uint_mul_u32 r 10 }"

subsection \<open>Halves of words\<close>

lemma unat_drop32: "unat (drop_bit 32 (w :: u64)) = unat w div 2 ^ 32"
  by (simp add: drop_bit_eq_div unat_div)

lemma unat_low32: "unat (w AND 0xFFFFFFFF :: u64) = unat w mod 2 ^ 32"
proof -
  have "(0xFFFFFFFF :: u64) = mask 32" by (simp add: mask_eq_exp_minus_1)
  then have "w AND 0xFFFFFFFF = take_bit 32 w" by (simp add: take_bit_eq_mask)
  then show ?thesis by (simp add: take_bit_eq_mod unat_mod)
qed

lemma unat_push32: "unat (push_bit 32 (w :: u64)) = unat w mod 2 ^ 32 * 2 ^ 32"
proof -
  have "unat (push_bit 32 w) = (unat w * 2 ^ 32) mod (2 ^ 32 * 2 ^ 32)"
    by (simp add: push_bit_eq_mult unat_word_ariths mult.commute)
  then show ?thesis by (simp only: mod_mult_mult2)
qed

lemma split_u64_val:
  assumes "split_u64 a = (h, l)"
  shows "unat a = 2 ^ 32 * unat h + unat l" and "unat h < 2 ^ 32" and "unat l < 2 ^ 32"
proof -
  have h: "unat h = unat a div 2 ^ 32" and l: "unat l = unat a mod 2 ^ 32"
    using assms unat_low32[of a] by (auto simp: split_u64_def unat_drop32)
  show "unat a = 2 ^ 32 * unat h + unat l" by (simp add: h l)
  show "unat h < 2 ^ 32" unfolding h using unat_bound[of a] by (simp add: less_mult_imp_div_less)
  show "unat l < 2 ^ 32" unfolding l by simp
qed

lemma unat_mult_small:
  fixes a b :: u64
  assumes "unat a < 2 ^ 32" and "unat b < 2 ^ 32"
  shows "unat (a * b) = unat a * unat b" and "unat a * unat b \<le> (2 ^ 32 - 1) * (2 ^ 32 - 1)"
proof -
  show le: "unat a * unat b \<le> (2 ^ 32 - 1) * (2 ^ 32 - 1)"
    using assms by (intro mult_le_mono) simp_all
  then show "unat (a * b) = unat a * unat b" by (simp add: unat_word_ariths)
qed

lemma mul_u32_val:
  assumes "unat ah < 2 ^ 32" and "unat al < 2 ^ 32" and "unat b < 2 ^ 32"
    and "mul_u32 (ah, al) b carry = (r, c)"
  shows "unat r + 2 ^ 64 * unat c = unat b * (2 ^ 32 * unat ah + unat al) + unat carry"
proof -
  let ?u = "b * ah" and ?l = "b * al"
  obtain r1 o1 where 1: "overflowing_add_u64 ?l (push_bit 32 ?u) = (r1, o1)" by fastforce
  obtain r2 o2 where 2: "overflowing_add_u64 r1 carry = (r2, o2)" by fastforce
  have r: "r = r2" and c: "c = drop_bit 32 ?u + bool_as_u64 o1 + bool_as_u64 o2"
    using assms(4) 1 2 by (auto simp: mul_u32_def Let_def)
  have u: "unat ?u = unat b * unat ah" and l: "unat ?l = unat b * unat al"
    using unat_mult_small(1) assms by blast+
  note v1 = overflowing_add_u64_val[OF 1] and v2 = overflowing_add_u64_val[OF 2]
  have d: "unat (drop_bit 32 ?u) < 2 ^ 32"
    using unat_bound[of ?u] by (simp add: unat_drop32 less_mult_imp_div_less)
  define k :: nat where "k = (if o1 then 1 else 0) + (if o2 then 1 else 0)"
  define q m where "q = unat ?u div 2 ^ 32" and "m = unat ?u mod 2 ^ 32"
  have c': "unat c = q + k"
    using d by (simp add: c q_def k_def unat_word_ariths unat_drop32 bool_as_u64_def)
  have "unat ?u = 2 ^ 32 * q + m" by (simp add: q_def m_def)
  moreover have "unat r + 2 ^ 64 * k = unat ?l + m * 2 ^ 32 + unat carry"
    using v1 v2 by (auto simp: r unat_push32 m_def k_def split: if_splits)
  ultimately have "unat r + 2 ^ 64 * unat c = unat ?l + 2 ^ 32 * unat ?u + unat carry"
    unfolding c' by simp
  then show ?thesis unfolding u l by (simp add: algebra_simps)
qed

lemma mul_cell_val:
  assumes "mul_cell x (split_u64 y) r0 r1 carry2 = (r0', r1', c)" and "unat carry2 \<le> 1"
  shows "unat r0' + 2 ^ 64 * unat r1' + 2 ^ 128 * unat c =
      unat x * unat y + unat r0 + 2 ^ 64 * (unat r1 + unat carry2)" and "unat c \<le> 1"
proof -
  obtain xh xl where sx: "split_u64 x = (xh, xl)" by fastforce
  obtain yh yl where sy: "split_u64 y = (yh, yl)" by fastforce
  obtain cl ol where cl: "mul_u32 (xh, xl) yl r0 = (cl, ol)" by fastforce
  obtain cu ou where cu: "mul_u32 (xh, xl) yh (drop_bit 32 cl) = (cu, ou)" by fastforce
  let ?res = "drop_bit 32 cu + push_bit 32 ou"
  obtain s1 o1 where 1: "overflowing_add_u64 ?res ol = (s1, o1)" by fastforce
  obtain s2 o2 where 2: "overflowing_add_u64 s1 carry2 = (s2, o2)" by fastforce
  obtain s3 o3 where 3: "overflowing_add_u64 s2 r1 = (s3, o3)" by fastforce
  have r0': "r0' = (cl AND 0xFFFFFFFF) + push_bit 32 cu" and r1': "r1' = s3"
    and c: "c = bool_as_u64 (o1 \<or> o2 \<or> o3)"
    using assms(1) by (auto simp: mul_cell_def Let_def sx sy cl cu 1 2 3)
  note X = split_u64_val[OF sx] and Y = split_u64_val[OF sy]
  have L: "unat cl + 2 ^ 64 * unat ol = unat yl * unat x + unat r0"
    using mul_u32_val[OF X(2,3) Y(3) cl] X(1) by simp
  have U: "unat cu + 2 ^ 64 * unat ou = unat yh * unat x + unat cl div 2 ^ 32"
    using mul_u32_val[OF X(2,3) Y(2) cu] X(1) by (simp add: unat_drop32)
  have xb: "unat x \<le> 2 ^ 64 - 1" and r0b: "unat r0 \<le> 2 ^ 64 - 1" and clb: "unat cl \<le> 2 ^ 64 - 1"
    and r1b: "unat r1 \<le> 2 ^ 64 - 1" and cub: "unat cu \<le> 2 ^ 64 - 1" and yb: "unat y \<le> 2 ^ 64 - 1"
    using unat_bound[of x] unat_bound[of r0] unat_bound[of cl] unat_bound[of r1] unat_bound[of cu]
      unat_bound[of y] by simp_all
  have "unat yh * unat x \<le> (2 ^ 32 - 1) * (2 ^ 64 - 1)"
    using Y(2) xb by (intro mult_le_mono) simp_all
  then have "2 ^ 64 * unat ou < 2 ^ 64 * 2 ^ 32" using U clb by simp
  then have ou: "unat ou < 2 ^ 32" by simp
  have cu32: "unat cu div 2 ^ 32 < 2 ^ 32" using cub by (simp add: less_mult_imp_div_less)
  have low: "unat (cl AND 0xFFFFFFFF) = unat cl mod 2 ^ 32" by (rule unat_low32)
  have R0: "unat r0' = unat cl mod 2 ^ 32 + unat cu mod 2 ^ 32 * 2 ^ 32"
  proof -
    have "unat cl mod 2 ^ 32 + unat cu mod 2 ^ 32 * 2 ^ 32 < 2 ^ 64"
    proof -
      have "unat cl mod 2 ^ 32 \<le> 2 ^ 32 - 1" "unat cu mod 2 ^ 32 \<le> 2 ^ 32 - 1"
        using mod_less_divisor[of "2 ^ 32" "unat cl"] mod_less_divisor[of "2 ^ 32" "unat cu"] by simp_all
      then show ?thesis by simp
    qed
    then show ?thesis using low by (simp add: r0' unat_word_ariths unat_push32)
  qed
  have RES: "unat ?res = unat cu div 2 ^ 32 + unat ou * 2 ^ 32"
    using cu32 ou by (simp add: unat_word_ariths unat_push32 unat_drop32)
  note v1 = overflowing_add_u64_val[OF 1] and v2 = overflowing_add_u64_val[OF 2]
    and v3 = overflowing_add_u64_val[OF 3]
  have eq: "unat r0' + 2 ^ 64 * (unat ?res + unat ol) = unat x * unat y + unat r0"
  proof -
    define q m q' m' where "q = unat cu div 2 ^ 32" and "m = unat cu mod 2 ^ 32"
      and "q' = unat cl div 2 ^ 32" and "m' = unat cl mod 2 ^ 32"
    have cu: "unat cu = 2 ^ 32 * q + m" and cl: "unat cl = 2 ^ 32 * q' + m'"
      by (simp_all add: q_def m_def q'_def m'_def)
    have U': "unat cu + 2 ^ 64 * unat ou = unat yh * unat x + q'" using U by (simp add: q'_def)
    have R0': "unat r0' = m' + m * 2 ^ 32" and RES': "unat ?res = q + unat ou * 2 ^ 32"
      unfolding R0 RES q_def m_def m'_def by simp_all
    have "unat r0' + 2 ^ 64 * (unat ?res + unat ol) =
        m' + 2 ^ 32 * (unat cu + 2 ^ 64 * unat ou) + 2 ^ 64 * unat ol"
      unfolding R0' RES' cu by simp
    also have "\<dots> = unat cl + 2 ^ 64 * unat ol + 2 ^ 32 * (unat yh * unat x)"
      unfolding U' cl by simp
    also have "\<dots> = unat x * unat y + unat r0"
      using L unfolding Y(1) by (simp add: algebra_simps)
    finally show ?thesis .
  qed
  have "unat x * unat y \<le> (2 ^ 64 - 1) * (2 ^ 64 - 1)" using xb yb by (rule mult_le_mono)
  then have "2 ^ 64 * (unat ?res + unat ol) \<le> 2 ^ 64 * (2 ^ 64 - 1)"
    using eq r0b by simp
  then have sl: "unat ?res + unat ol \<le> 2 ^ 64 - 1" by simp
  have s: "unat s3 + 2 ^ 64 * ((if o1 then 1 else 0) + (if o2 then 1 else 0) + (if o3 then 1 else 0)) =
      unat ?res + unat ol + unat carry2 + unat r1"
    using v1 v2 v3 by (auto split: if_splits)
  have "(if o1 then 1 else 0) + (if o2 then 1 else 0) + (if o3 then 1 else 0) \<le> (1::nat)"
    using s sl assms(2) r1b by (auto split: if_splits)
  then have "(if o1 then 1 else 0) + (if o2 then 1 else 0) + (if o3 then 1 else 0) = unat c"
    by (auto simp: c split: if_splits)
  then have "unat r1' + 2 ^ 64 * unat c = unat ?res + unat ol + unat carry2 + unat r1"
    using s by (simp add: r1')
  then have "2 ^ 64 * (unat r1' + 2 ^ 64 * unat c) =
      2 ^ 64 * (unat ?res + unat ol + unat carry2 + unat r1)" by simp
  then show "unat r0' + 2 ^ 64 * unat r1' + 2 ^ 128 * unat c =
      unat x * unat y + unat r0 + 2 ^ 64 * (unat r1 + unat carry2)"
    using eq by (simp add: algebra_simps)
  show "unat c \<le> 1" by (simp add: c)
qed


subsection \<open>The loops\<close>

lemma uval_update:
  "k < length xs \<Longrightarrow> uval (xs[k := v]) + 2 ^ (64 * k) * unat (xs ! k) = uval xs + 2 ^ (64 * k) * unat v"
proof (induction xs arbitrary: k)
  case Nil
  then show ?case by simp
next
  case (Cons x xs)
  show ?case
  proof (cases k)
    case 0
    then show ?thesis by simp
  next
    case (Suc j)
    with Cons have "uval (xs[j := v]) + 2 ^ (64 * j) * unat (xs ! j) = uval xs + 2 ^ (64 * j) * unat v"
      by simp
    then have "2 ^ 64 * (uval (xs[j := v]) + 2 ^ (64 * j) * unat (xs ! j)) =
        2 ^ 64 * (uval xs + 2 ^ (64 * j) * unat v)" by simp
    then show ?thesis using Suc by (simp add: power_add algebra_simps)
  qed
qed

lemma uval_update2:
  assumes "k + 1 < length xs"
  shows "uval (xs[k := v, k + 1 := w]) + 2 ^ (64 * k) * (unat (xs ! k) + 2 ^ 64 * unat (xs ! (k + 1)))
    = uval xs + 2 ^ (64 * k) * (unat v + 2 ^ 64 * unat w)"
proof -
  have 1: "uval (xs[k := v]) + 2 ^ (64 * k) * unat (xs ! k) = uval xs + 2 ^ (64 * k) * unat v"
    using assms by (intro uval_update) simp
  have 2: "uval (xs[k := v, k + 1 := w]) + 2 ^ (64 * (k + 1)) * unat (xs ! (k + 1)) =
      uval (xs[k := v]) + 2 ^ (64 * (k + 1)) * unat w"
    using uval_update[of "k + 1" "xs[k := v]" w] assms by simp
  have p: "2 ^ (64 * (k + 1)) = 2 ^ (64 * k) * (2 ^ 64 :: nat)" by (simp add: power_add)
  show ?thesis using 1 2 unfolding p by (simp add: algebra_simps)
qed

lemma mul_inner_step:
  assumes "j < length me" and "i + length me < length ret" and "unat c \<le> 1"
    and "mul_inner me (split_u64 y) i (ret, c) j = (ret', c')"
  shows "uval ret' + 2 ^ (64 * (i + j + 2)) * unat c' =
      uval ret + 2 ^ (64 * (i + j + 1)) * unat c + 2 ^ (64 * (i + j)) * (unat (me ! j) * unat y)"
    and "unat c' \<le> 1" and "length ret' = length ret"
proof -
  let ?k = "i + j"
  have p1: "2 ^ (64 * (?k + 1)) = 2 ^ (64 * ?k) * (2 ^ 64 :: nat)"
    and p2: "2 ^ (64 * (?k + 2)) = 2 ^ (64 * ?k) * (2 ^ 128 :: nat)" by (simp_all add: power_add)
  have goals: "(uval ret' + 2 ^ (64 * (?k + 2)) * unat c' =
      uval ret + 2 ^ (64 * (?k + 1)) * unat c + 2 ^ (64 * ?k) * (unat (me ! j) * unat y))
    \<and> unat c' \<le> 1 \<and> length ret' = length ret"
  proof (cases "me ! j = 0 \<and> c = 0")
    case True
    with assms show ?thesis by (simp add: mul_inner_def)
  next
    case False
    obtain r0 r1 c2 where cell:
      "mul_cell (me ! j) (split_u64 y) (ret ! ?k) (ret ! (?k + 1)) c = (r0, r1, c2)"
      by (metis prod_cases3)
    then have ret': "ret' = ret[?k := r0, ?k + 1 := r1]" and c': "c' = c2"
      using assms(4) False by (auto simp: mul_inner_def)
    note v = mul_cell_val[OF cell assms(3)]
    have "2 ^ (64 * ?k) * (unat r0 + 2 ^ 64 * unat r1 + 2 ^ 128 * unat c2) =
        2 ^ (64 * ?k) * (unat (me ! j) * unat y + unat (ret ! ?k) + 2 ^ 64 * (unat (ret ! (?k + 1)) + unat c))"
      using v(1) by simp
    moreover have "uval ret' + 2 ^ (64 * ?k) * (unat (ret ! ?k) + 2 ^ 64 * unat (ret ! (?k + 1)))
        = uval ret + 2 ^ (64 * ?k) * (unat r0 + 2 ^ 64 * unat r1)"
      unfolding ret' using assms(1,2) by (intro uval_update2) simp
    ultimately have "uval ret' + 2 ^ (64 * (?k + 2)) * unat c' =
      uval ret + 2 ^ (64 * (?k + 1)) * unat c + 2 ^ (64 * ?k) * (unat (me ! j) * unat y)"
      unfolding p1 p2 c' by (simp only: distrib_left mult.assoc)
    then show ?thesis using v(2) by (simp add: c' ret')
  qed
  then show "uval ret' + 2 ^ (64 * (i + j + 2)) * unat c' =
      uval ret + 2 ^ (64 * (i + j + 1)) * unat c + 2 ^ (64 * (i + j)) * (unat (me ! j) * unat y)"
    and "unat c' \<le> 1" and "length ret' = length ret" by blast+
qed

lemma mul_inner_loop:
  assumes "m \<le> length me" and "i + length me < length ret"
    and "foldl (mul_inner me (split_u64 y) i) (ret, 0) [0..<m] = (ret', c)"
  shows "uval ret' + 2 ^ (64 * (i + m + 1)) * unat c = uval ret + 2 ^ (64 * i) * (uval (take m me) * unat y)
    \<and> unat c \<le> 1 \<and> length ret' = length ret"
  using assms(1,3)
proof (induction m arbitrary: ret' c)
  case 0
  then show ?case by simp
next
  case (Suc m)
  obtain r1 c1 where f: "foldl (mul_inner me (split_u64 y) i) (ret, 0) [0..<m] = (r1, c1)" by fastforce
  have IH: "uval r1 + 2 ^ (64 * (i + m + 1)) * unat c1 = uval ret + 2 ^ (64 * i) * (uval (take m me) * unat y)"
    and c1: "unat c1 \<le> 1" and l1: "length r1 = length ret"
    using Suc.IH[OF _ f] Suc.prems(1) by simp_all
  have s: "mul_inner me (split_u64 y) i (r1, c1) m = (ret', c)" using Suc.prems(2) f by simp
  have st: "uval ret' + 2 ^ (64 * (i + m + 2)) * unat c =
      uval r1 + 2 ^ (64 * (i + m + 1)) * unat c1 + 2 ^ (64 * (i + m)) * (unat (me ! m) * unat y)"
    and "unat c \<le> 1" and "length ret' = length ret"
    using mul_inner_step[OF _ _ c1 s] Suc.prems(1) assms(2) l1 by simp_all
  have "uval (take (Suc m) me) = uval (take m me) + 2 ^ (64 * m) * unat (me ! m)"
    using Suc.prems(1) by (intro uval_take_Suc) simp
  then have "2 ^ (64 * i) * (uval (take (Suc m) me) * unat y) =
      2 ^ (64 * i) * (uval (take m me) * unat y) + 2 ^ (64 * (i + m)) * (unat (me ! m) * unat y)"
    by (simp add: power_add algebra_simps)
  with st IH \<open>unat c \<le> 1\<close> \<open>length ret' = length ret\<close> show ?case by simp
qed

text \<open>One outer round: the carry out of the last word of the row is always zero.\<close>

lemma mul_outer_step:
  assumes "length me = length you" and "i < length you" and "length ret = 2 * length me"
    and inv: "uval ret = uval me * uval (take i you)"
  shows "uval (mul_outer me you ret i) = uval me * uval (take (Suc i) you)
    \<and> length (mul_outer me you ret i) = length ret"
proof -
  have tk: "uval (take (Suc i) you) = uval (take i you) + 2 ^ (64 * i) * unat (you ! i)"
    using assms(2) by (rule uval_take_Suc)
  show ?thesis
  proof (cases "you ! i = 0")
    case True
    then show ?thesis using inv tk by (simp add: mul_outer_def)
  next
    case False
    obtain ret' c where f: "foldl (mul_inner me (split_u64 (you ! i)) i) (ret, 0) [0..<length me] = (ret', c)"
      by fastforce
    have bound: "i + length me < length ret" using assms(1,2,3) by simp
    have v: "uval ret' + 2 ^ (64 * (i + length me + 1)) * unat c =
        uval ret + 2 ^ (64 * i) * (uval me * unat (you ! i))"
      and len: "length ret' = length ret"
      using mul_inner_loop[OF order_refl bound f] by simp_all
    then have eq: "uval ret' + 2 ^ (64 * (i + length me + 1)) * unat c = uval me * uval (take (Suc i) you)"
      by (simp add: inv tk algebra_simps)
    have "uval me * uval (take (Suc i) you) < 2 ^ (64 * length me) * 2 ^ (64 * Suc i)"
      using uval_bound[of me] uval_take_bound[of "Suc i" you] by (intro mult_strict_mono) simp_all
    also have "\<dots> = 2 ^ (64 * (i + length me + 1))" by (simp add: power_add)
    finally have "2 ^ (64 * (i + length me + 1)) * unat c < 2 ^ (64 * (i + length me + 1)) * 1"
      using eq by linarith
    then have "unat c = 0" by (simp only: mult_less_cancel1) simp
    with eq have "uval ret' = uval me * uval (take (Suc i) you)" by simp
    with False f len show ?thesis by (simp add: mul_outer_def)
  qed
qed

lemma full_mul_val:
  assumes "length me = length you"
  shows "uval (full_mul me you) = uval me * uval you \<and> length (full_mul me you) = 2 * length me"
proof -
  have "uval (foldl (mul_outer me you) (replicate (2 * length me) 0) [0..<m]) = uval me * uval (take m you)
      \<and> length (foldl (mul_outer me you) (replicate (2 * length me) 0) [0..<m]) = 2 * length me"
    if "m \<le> length you" for m
    using that
  proof (induction m)
    case 0
    then show ?case by simp
  next
    case (Suc m)
    then show ?case using mul_outer_step[OF assms, of m] by simp
  qed
  from this[of "length you"] show ?thesis using assms by (simp add: full_mul_def)
qed

lemma overflowing_mul_val:
  assumes "length a = length b" and "overflowing_mul a b = (r, ov)"
  shows "uval r = (uval a * uval b) mod 2 ^ (64 * length a)"
    and "ov \<longleftrightarrow> 2 ^ (64 * length a) \<le> uval a * uval b" and "length r = length a"
proof -
  let ?f = "full_mul a b" and ?n = "length a"
  have f: "uval ?f = uval a * uval b" "length ?f = 2 * ?n" using full_mul_val[OF assms(1)] by simp_all
  have r: "r = take ?n ?f" and ov: "ov \<longleftrightarrow> uval (drop ?n ?f) \<noteq> 0"
    using assms(2) by (auto simp: overflowing_mul_def Let_def list_ex_iff uval_eq_0_iff)
  have s: "uval a * uval b = uval (take ?n ?f) + 2 ^ (64 * ?n) * uval (drop ?n ?f)"
    using f uval_append[of "take ?n ?f" "drop ?n ?f"] by simp
  have lt: "uval (take ?n ?f) < 2 ^ (64 * ?n)" by (rule uval_take_bound)
  show "uval r = (uval a * uval b) mod 2 ^ (64 * ?n)" using s lt by (simp add: r)
  show "length r = ?n" by (simp add: r f)
  show "ov \<longleftrightarrow> 2 ^ (64 * ?n) \<le> uval a * uval b"
  proof (cases "uval (drop ?n ?f)")
    case 0
    then show ?thesis using s lt ov by simp
  next
    case (Suc k)
    then show ?thesis using s ov by simp
  qed
qed

lemma uint_mul_Some_iff:
  assumes "length a = length b"
  shows "uint_mul a b = Some r \<longleftrightarrow>
    length r = length a \<and> uval r = uval a * uval b \<and> uval a * uval b < 2 ^ (64 * length a)"
proof -
  obtain q ov where q: "overflowing_mul a b = (q, ov)" by fastforce
  note v = overflowing_mul_val[OF assms q]
  show ?thesis
    using v by (auto simp: uint_mul_def q not_le intro: uval_inj)
qed

lemma mul_u32_words_val:
  assumes "unat k < 2 ^ 32" and "mul_u32_words ws k c = (r, c')"
  shows "uval r + 2 ^ (64 * length ws) * unat c' = uval ws * unat k + unat c \<and> length r = length ws"
  using assms(2)
proof (induction ws arbitrary: c r)
  case Nil
  then show ?case by simp
next
  case (Cons w ws)
  obtain h l where hl: "split_u64 w = (h, l)" by fastforce
  obtain r0 c2 where 1: "mul_u32 (h, l) k c = (r0, c2)" by fastforce
  obtain rs where 2: "mul_u32_words ws k c2 = (rs, c')" and r: "r = r0 # rs"
    using Cons.prems hl 1 by (auto simp: Let_def split: prod.splits)
  note S = split_u64_val[OF hl]
  have v: "unat r0 + 2 ^ 64 * unat c2 = unat k * unat w + unat c"
    using mul_u32_val[OF S(2,3) assms(1) 1] S(1) by simp
  have "uval rs + 2 ^ (64 * length ws) * unat c' = uval ws * unat k + unat c2" and "length rs = length ws"
    using Cons.IH[OF 2] by simp_all
  moreover from this(1) have "2 ^ 64 * (uval rs + 2 ^ (64 * length ws) * unat c') =
      2 ^ 64 * (uval ws * unat k + unat c2)" by simp
  ultimately show ?case using v by (simp add: r power_add algebra_simps)
qed

lemma overflowing_mul_u32_val:
  assumes "overflowing_mul_u32 a k = (r, ov)"
  shows "uval r = (uval a * unat k) mod 2 ^ (64 * length a)"
    and "ov \<longleftrightarrow> 2 ^ (64 * length a) \<le> uval a * unat k" and "length r = length a"
proof -
  have u: "unat (ucast k :: u64) = unat k" by (simp add: unsigned_ucast_eq take_bit_nat_eq_self
        unat_bound[of k, THEN order_less_le_trans])
  have lt: "unat (ucast k :: u64) < 2 ^ 32" using unat_bound[of k] by (simp add: u)
  obtain c where c: "mul_u32_words a (ucast k) 0 = (r, c)" and ov: "ov = (c > 0)"
    using assms by (auto simp: overflowing_mul_u32_def Let_def split: prod.splits)
  have v: "uval r + 2 ^ (64 * length a) * unat c = uval a * unat k" and len: "length r = length a"
    using mul_u32_words_val[OF lt c] u by simp_all
  have rb: "uval r < 2 ^ (64 * length a)" using uval_bound[of r] len by simp
  from v rb have "(uval a * unat k) mod 2 ^ (64 * length a) = uval r" by (simp flip: v)
  then show "uval r = (uval a * unat k) mod 2 ^ (64 * length a)" by simp
  show "length r = length a" by (rule len)
  show "ov \<longleftrightarrow> 2 ^ (64 * length a) \<le> uval a * unat k"
  proof (cases "unat c")
    case 0
    then show ?thesis using v rb ov by (simp add: word_less_nat_alt)
  next
    case (Suc x)
    then have "0 < c" by (simp add: word_less_nat_alt)
    then show ?thesis using v ov Suc by simp
  qed
qed

subsection \<open>Properties\<close>

text \<open>
  C37. The schoolbook multiplication keeps the low words of the true product, raises its flag exactly
  when the product does not fit the width, and \<open>full_mul\<close> loses nothing on twice the words; the
  operator \<open>*\<close> panics exactly on overflow.\<close>

theorem overflowing_mul_spec:
  assumes "length a = length b"
  shows "uval (full_mul a b) = uval a * uval b \<and>
    uval (fst (overflowing_mul a b)) = (uval a * uval b) mod 2 ^ (64 * length a) \<and>
    (snd (overflowing_mul a b) \<longleftrightarrow> 2 ^ (64 * length a) \<le> uval a * uval b) \<and>
    (uint_mul a b = None \<longleftrightarrow> 2 ^ (64 * length a) \<le> uval a * uval b)"
proof -
  obtain r ov where r: "overflowing_mul a b = (r, ov)" by fastforce
  note v = overflowing_mul_val[OF assms r]
  show ?thesis using v full_mul_val[OF assms] by (simp add: r uint_mul_def)
qed

theorem overflowing_mul_spec_witness:
  "uval (full_mul [- 1, 7] [5, 2 ^ 63]) = uval [- 1, 7] * uval [5, 2 ^ 63]"
  by (rule overflowing_mul_spec[THEN conjunct1]) simp

end
