(* ===== verification/UintDiv.thy ===== *)
theory UintDiv
  imports UintShift UintMul
begin

section \<open>Fixed-size unsigned integers: division and powers\<close>

text \<open>
  \<open>Div\<close>, \<open>Rem\<close>, \<open>pow\<close> and \<open>overflowing_pow\<close> of \<open>construct_uint!\<close>. Division by zero and a product
  that does not fit panic (\<open>None\<close>). The division loop counts \<open>shift\<close> down to zero, so it is structural
  recursion; the loops of the powers halve the exponent, their termination is proved by its value.
\<close>

subsection \<open>Division\<close>

definition div_step :: "uint \<Rightarrow> uint \<Rightarrow> uint \<Rightarrow> nat \<Rightarrow> uint \<times> uint" where
  "div_step sub_copy shift_copy ret shift =
     (if uint_ge sub_copy shift_copy
      then (fst (overflowing_sub sub_copy shift_copy),
            ret[shift div 64 := ret ! (shift div 64) OR push_bit (shift mod 64) 1])
      else (sub_copy, ret))"

fun div_loop :: "uint \<Rightarrow> uint \<Rightarrow> uint \<Rightarrow> nat \<Rightarrow> uint" where
  "div_loop sub_copy shift_copy ret 0 = snd (div_step sub_copy shift_copy ret 0)"
| "div_loop sub_copy shift_copy ret (Suc shift) =
     (let (sub_copy', ret') = div_step sub_copy shift_copy ret (Suc shift)
      in div_loop sub_copy' (uint_shr shift_copy 1) ret' shift)"

definition uint_div :: "uint \<Rightarrow> uint \<Rightarrow> uint option" where
  "uint_div me other =
     (let my_bits = uint_bits me; your_bits = uint_bits other; ret = replicate (length me) 0
      in if your_bits = 0 then None
         else if my_bits < your_bits then Some ret
         else let shift = my_bits - your_bits
              in Some (div_loop me (uint_shl other shift) ret shift))"

definition uint_rem :: "uint \<Rightarrow> uint \<Rightarrow> uint option" where
  "uint_rem me other = do {
     times \<leftarrow> uint_div me other;
     p \<leftarrow> uint_mul times other;
     uint_sub me p }"

definition overflowing_div :: "uint \<Rightarrow> uint \<Rightarrow> (uint \<times> bool) option" where
  "overflowing_div a b = do { r \<leftarrow> uint_div a b; Some (r, False) }"

definition overflowing_rem :: "uint \<Rightarrow> uint \<Rightarrow> (uint \<times> bool) option" where
  "overflowing_rem a b = do { r \<leftarrow> uint_rem a b; Some (r, False) }"

subsection \<open>The division loop computes the quotient\<close>

lemma uval_set_bit:
  assumes "s < 64 * length r" and "uval r mod 2 ^ Suc s = 0"
  shows "uval (r[s div 64 := r ! (s div 64) OR push_bit (s mod 64) 1]) = uval r + 2 ^ s"
proof -
  have q: "s div 64 < length r" using assms(1) by (simp add: div64_less)
  have nb: "\<not> bit (uval r) k" if "k \<le> s" for k
  proof -
    have "take_bit (Suc s) (uval r) = 0" using assms(2) by (simp only: take_bit_eq_mod)
    then have "\<not> bit (take_bit (Suc s) (uval r)) k" by simp
    then show ?thesis using that by (simp add: bit_take_bit_iff)
  qed
  have "uval (r[s div 64 := r ! (s div 64) OR push_bit (s mod 64) 1]) = uval r OR push_bit s 1"
  proof (rule bit_eqI)
    fix k
    have "k div 64 = s div 64 \<and> k mod 64 = s mod 64 \<longleftrightarrow> k = s"
      by (metis div_mult_mod_eq)
    moreover have "k mod 64 < 64" by simp
    ultimately show "bit (uval (r[s div 64 := r ! (s div 64) OR push_bit (s mod 64) 1])) k \<longleftrightarrow>
        bit (uval r OR push_bit s 1) k"
      using q by (auto simp: bit_uval bit_or_iff bit_exp_iff nth_list_update div64_less split: if_splits)
  qed
  also have "\<dots> = uval r + push_bit s 1"
    by (rule disjunctive_add[symmetric]) (use nb in \<open>auto simp: bit_exp_iff\<close>)
  finally show ?thesis by (simp add: push_bit_eq_mult)
qed

lemma div_step_val:
  assumes "length sub = length sh" and "length ret = length sh" and "s < 64 * length sh"
    and "uval sh = d * 2 ^ s" and "uval sub < d * 2 ^ Suc s" and "uval ret mod 2 ^ Suc s = 0"
    and "div_step sub sh ret s = (sub', ret')"
  shows "uval ret' * d + uval sub' = uval ret * d + uval sub \<and> uval sub' < d * 2 ^ s \<and>
    uval ret' mod 2 ^ s = 0 \<and> length sub' = length sh \<and> length ret' = length sh"
proof (cases "uval sh \<le> uval sub")
  case True
  then have ge: "uint_ge sub sh" using assms(1) by (simp add: uint_ge_val)
  obtain r ov where o: "overflowing_sub sub sh = (r, ov)" by fastforce
  have "uval r + uval sh = uval sub"
    using overflowing_sub_val[OF assms(1) o] True uval_bound[of r] by (auto split: if_splits)
  moreover have "sub' = r" and ret': "ret' = ret[s div 64 := ret ! (s div 64) OR push_bit (s mod 64) 1]"
    using assms(7) ge o by (auto simp: div_step_def)
  moreover have rv: "uval ret' = uval ret + 2 ^ s"
    unfolding ret' using assms(2,3,6) by (intro uval_set_bit) simp_all
  moreover have "(uval ret + 2 ^ s) mod 2 ^ s = 0"
    using assms(6) by (metis mod_add_self2 mod_mod_cancel le_imp_power_dvd le_SucI order_refl mod_0)
  ultimately show ?thesis
    using assms overflowing_sub_val(2)[OF assms(1) o] by (auto simp: algebra_simps)
next
  case False
  then have "\<not> uint_ge sub sh" using assms(1) by (simp add: uint_ge_val)
  then have "sub' = sub" "ret' = ret" using assms(7) by (simp_all add: div_step_def)
  moreover have "uval ret mod 2 ^ s = 0"
    using assms(6) by (metis mod_mod_cancel le_imp_power_dvd le_SucI order_refl mod_0)
  ultimately show ?thesis using assms False by simp
qed

lemma div_loop_val:
  assumes "length sub = length sh" and "length ret = length sh" and "s < 64 * length sh"
    and "uval sh = d * 2 ^ s" and "uval sub < d * 2 ^ Suc s" and "uval ret mod 2 ^ Suc s = 0"
  shows "uval (div_loop sub sh ret s) = (uval ret * d + uval sub) div d \<and>
    length (div_loop sub sh ret s) = length sh"
  using assms
proof (induction s arbitrary: sub sh ret)
  case 0
  obtain sub' ret' where st: "div_step sub sh ret 0 = (sub', ret')" by fastforce
  have "uval ret' * d + uval sub' = uval ret * d + uval sub" "uval sub' < d" "length ret' = length sh"
    using div_step_val[OF 0(1-6) st] by simp_all
  moreover from this(1)[symmetric] have "(uval ret * d + uval sub) div d = uval ret'"
    using \<open>uval sub' < d\<close> by simp
  ultimately show ?case by (simp add: st)
next
  case (Suc s)
  obtain sub' ret' where st: "div_step sub sh ret (Suc s) = (sub', ret')" by fastforce
  note v = div_step_val[OF Suc.prems st]
  have "uval (div_loop sub' (uint_shr sh 1) ret' s) = (uval ret' * d + uval sub') div d \<and>
    length (div_loop sub' (uint_shr sh 1) ret' s) = length (uint_shr sh 1)"
    using v Suc.prems(3,4) by (intro Suc.IH) (simp_all add: uval_shr)
  then show ?case using v st by simp
qed

lemma uint_div_val:
  assumes "length a = length b" and "uval b \<noteq> 0"
  shows "\<exists>q. uint_div a b = Some q \<and> uval q = uval a div uval b \<and> length q = length a"
proof -
  have ne: "a \<noteq> []" "b \<noteq> []" using assms by (cases a; cases b; simp_all)+
  note A = uint_bits_val[OF ne(1)] and B = uint_bits_val[OF ne(2)]
  have b0: "uint_bits b \<noteq> 0" using assms(2) B(3) by simp
  show ?thesis
  proof (cases "uint_bits a < uint_bits b")
    case True
    then have "uint_bits a \<le> uint_bits b - 1" by simp
    then have "(2 :: nat) ^ uint_bits a \<le> 2 ^ (uint_bits b - 1)" by (rule power_increasing) simp
    then have "uval a < uval b" using A(1) B(2) assms(2) by linarith
    then show ?thesis using b0 True by (simp add: uint_div_def)
  next
    case False
    let ?s = "uint_bits a - uint_bits b" and ?n = "length a"
    have a0: "0 < uint_bits a" using False b0 by simp
    then have "0 < uval a" using A(3) by simp
    have bl: "uint_bits a \<le> 64 * ?n"
    proof -
      have "(2 :: nat) ^ (uint_bits a - 1) < 2 ^ (64 * ?n)"
        using A(2)[OF \<open>0 < uval a\<close>] uval_bound[of a] by (rule order_le_less_trans)
      then have "uint_bits a - 1 < 64 * ?n" by (rule power_less_imp_less_exp[rotated]) simp
      then show ?thesis by simp
    qed
    have "uval b * 2 ^ ?s < 2 ^ uint_bits b * 2 ^ ?s" using B(1) by simp
    also have "\<dots> = (2 :: nat) ^ uint_bits a" using False by (simp flip: power_add)
    also have "\<dots> \<le> 2 ^ (64 * ?n)" using bl by (intro power_increasing) simp_all
    finally have sh: "uval (uint_shl b ?s) = uval b * 2 ^ ?s" using assms(1) by (simp add: uval_shl)
    have "2 ^ (uint_bits b - 1) * 2 ^ Suc ?s \<le> uval b * 2 ^ Suc ?s"
      using B(2) assms(2) by (intro mult_le_mono1) simp
    moreover have "(2 :: nat) ^ (uint_bits b - 1) * 2 ^ Suc ?s = 2 ^ uint_bits a"
      using False b0 by (simp flip: power_add power_Suc)
    ultimately have lt: "uval a < uval b * 2 ^ Suc ?s" using A(1) by linarith
    have "?s < 64 * ?n" using bl b0 a0 by linarith
    then have "uval (div_loop a (uint_shl b ?s) (replicate ?n 0) ?s) =
        (uval (replicate ?n 0) * uval b + uval a) div uval b \<and>
        length (div_loop a (uint_shl b ?s) (replicate ?n 0) ?s) = length (uint_shl b ?s)"
      using sh lt assms(1) by (intro div_loop_val) simp_all
    then show ?thesis using b0 False assms(1) by (simp add: uint_div_def Let_def)
  qed
qed

lemma uint_div_zero: "a \<noteq> [] \<Longrightarrow> b \<noteq> [] \<Longrightarrow> uval b = 0 \<Longrightarrow> uint_div a b = None"
  using uint_bits_val(3)[of b] by (simp add: uint_div_def)

lemma uint_sub_Some_iff:
  assumes "length a = length b"
  shows "uint_sub a b = Some r \<longleftrightarrow> length r = length a \<and> uval r + uval b = uval a"
proof -
  obtain q ov where q: "overflowing_sub a b = (q, ov)" by fastforce
  note v = overflowing_sub_val[OF assms q]
  have "uval q < 2 ^ (64 * length a)" using uval_bound[of q] v(2) by simp
  moreover have "uval a < 2 ^ (64 * length a)" by (rule uval_bound)
  ultimately show ?thesis using v
    by (cases ov) (auto simp: uint_sub_def q intro!: uval_inj)
qed

lemma uint_rem_val:
  assumes "length a = length b" and "uval b \<noteq> 0"
  shows "\<exists>r. uint_rem a b = Some r \<and> uval r = uval a mod uval b \<and> length r = length a"
proof -
  obtain q where q: "uint_div a b = Some q" "uval q = uval a div uval b" "length q = length a"
    using uint_div_val[OF assms] by blast
  have le: "uval q * uval b \<le> uval a" by (simp add: q(2))
  then have "uval q * uval b < 2 ^ (64 * length a)" using uval_bound[of a] by (rule order_le_less_trans)
  moreover obtain p ov where p: "overflowing_mul q b = (p, ov)" by fastforce
  moreover have lq: "length q = length b" using q(3) assms(1) by simp
  note v = overflowing_mul_val[OF lq p]
  ultimately have m: "uint_mul q b = Some p" "uval p = uval q * uval b" "length p = length a"
    using q(3) by (simp_all add: uint_mul_def)
  obtain r ov where r: "overflowing_sub a p = (r, ov)" by fastforce
  have la: "length a = length p" using m(3) by simp
  note w = overflowing_sub_val[OF la r]
  have "\<not> ov" using w le m(2) uval_bound[of r] by (auto split: if_splits)
  then have "uint_sub a p = Some r" "uval r = uval a - uval q * uval b"
    using w m(2) by (auto simp: uint_sub_def r)
  then show ?thesis using q m w(2) by (simp add: uint_rem_def minus_div_mult_eq_mod)
qed

subsection \<open>Powers\<close>

text \<open>The number \<open>v\<close> in \<open>n\<close> words, and a result that panics when it does not fit.\<close>

fun uint_of :: "nat \<Rightarrow> nat \<Rightarrow> uint" where
  "uint_of 0 v = []"
| "uint_of (Suc n) v = of_nat v # uint_of n (v div 2 ^ 64)"

definition fits :: "nat \<Rightarrow> nat \<Rightarrow> uint option" where
  "fits n v = (if v < 2 ^ (64 * n) then Some (uint_of n v) else None)"

definition is_even :: "uint \<Rightarrow> bool" where
  "is_even x \<longleftrightarrow> low_u64 x AND 1 = 0"

definition clear_top :: "uint \<Rightarrow> uint" where
  "clear_top n = n[length n - 1 := n ! (length n - 1) AND drop_bit 1 (NOT 0)]"

lemma length_uint_of [simp]: "length (uint_of n v) = n"
  by (induction n arbitrary: v) auto

lemma uval_uint_of [simp]: "uval (uint_of n v) = v mod 2 ^ (64 * n)"
proof (induction n arbitrary: v)
  case 0
  then show ?case by simp
next
  case (Suc n)
  have "v mod (2 ^ 64 * 2 ^ (64 * n)) = 2 ^ 64 * (v div 2 ^ 64 mod 2 ^ (64 * n)) + v mod 2 ^ 64"
    by (rule mod_mult2_eq)
  then show ?case using Suc by (simp add: power_add unat_of_nat)
qed

lemma uint_of_uval [simp]: "length a = n \<Longrightarrow> uint_of n (uval a) = a"
  using uval_bound[of a] by (intro uval_inj) simp_all

lemma uint_mul_fits: "length a = n \<Longrightarrow> length b = n \<Longrightarrow> uint_mul a b = fits n (uval a * uval b)"
proof (cases "uval a * uval b < 2 ^ (64 * n)")
  case True
  assume "length a = n" "length b = n"
  then have "uint_mul a b = Some (uint_of n (uval a * uval b))"
    using True by (subst uint_mul_Some_iff) simp_all
  then show ?thesis using True by (simp add: fits_def)
next
  case False
  assume "length a = n" "length b = n"
  then have "uint_mul a b \<noteq> Some r" for r using False uint_mul_Some_iff[of a b r] by simp
  then have "uint_mul a b = None" by (cases "uint_mul a b") blast+
  then show ?thesis using False by (simp add: fits_def)
qed

lemma fits_Some: "fits n v = Some r \<longleftrightarrow> length r = n \<and> uval r = v \<and> v < 2 ^ (64 * n)"
  by (auto simp: fits_def)

lemma uval_mod2: "a \<noteq> [] \<Longrightarrow> uval a mod 2 = unat (a ! 0) mod 2"
  by (cases a) (simp_all add: mod_add_eq[symmetric] mod_mult_right_eq mod_mult_left_eq)

lemma is_even_val: "a \<noteq> [] \<Longrightarrow> is_even a \<longleftrightarrow> even (uval a)"
proof -
  assume a: "a \<noteq> []"
  have "low_u64 a AND 1 = 0 \<longleftrightarrow> even (low_u64 a)" by (simp add: and_one_eq even_iff_mod_2_eq_zero)
  moreover have "bit (unat (a ! 0)) 0 \<longleftrightarrow> bit (a ! 0) 0"
    by (simp only: bit_unsigned_iff) simp
  then have "even (low_u64 a) \<longleftrightarrow> even (unat (a ! 0))" unfolding bit_0 by (simp add: low_u64_def)
  ultimately show ?thesis using uval_mod2[OF a] by (simp add: is_even_def even_iff_mod_2_eq_zero)
qed

lemma uint_gt_one_val: "a \<noteq> [] \<Longrightarrow> uint_less (uint_one (length a)) a \<longleftrightarrow> 1 < uval a"
  by (simp add: uint_less_val)

lemma length_clear_top [simp]: "length (clear_top a) = length a"
  by (simp add: clear_top_def)

lemma uval_clear_top:
  assumes "a \<noteq> []"
  shows "uval (clear_top a) = uval a mod 2 ^ (64 * length a - 1)"
proof -
  let ?n = "length a"
  have n: "0 < ?n" using assms by simp
  have "uval (clear_top a) = take_bit (64 * ?n - 1) (uval a)"
  proof (rule bit_eqI)
    fix k
    have "k div 64 = ?n - 1 \<Longrightarrow> k mod 64 < 63 \<longleftrightarrow> k < 64 * ?n - 1"
      and "k div 64 < ?n - 1 \<Longrightarrow> k < 64 * ?n - 1"
      using n div_mult_mod_eq[of k 64] mod_less_divisor[of 64 k] by linarith+
    moreover have "k < 64 * ?n - 1 \<Longrightarrow> k < 64 * ?n" "k < 64 * ?n \<longleftrightarrow> k div 64 < ?n"
      by (simp_all add: div64_less)
    moreover have m: "bit (drop_bit 1 (NOT 0 :: u64)) (k mod 64) \<longleftrightarrow> k mod 64 < 63"
      by (auto simp: bit_simps)
    moreover have "bit (uval (clear_top a)) k \<longleftrightarrow> k div 64 < ?n \<and> bit (a ! (k div 64)) (k mod 64) \<and>
        (k div 64 = ?n - 1 \<longrightarrow> k mod 64 < 63)"
      using n by (cases "k div 64 = ?n - 1")
        (simp_all only: clear_top_def bit_uval div64_less length_list_update nth_list_update_eq
          nth_list_update_neq bit_and_iff m diff_less zero_less_one HOL.simp_thms)
    ultimately show "bit (uval (clear_top a)) k \<longleftrightarrow> bit (take_bit (64 * ?n - 1) (uval a)) k"
      unfolding bit_take_bit_iff bit_uval by (metis Suc_diff_1 less_Suc_eq n)
  qed
  then show ?thesis by (simp add: take_bit_eq_mod)
qed

function pow_loop :: "uint \<Rightarrow> uint \<Rightarrow> uint \<Rightarrow> (uint \<times> uint) option" where
  "pow_loop y x n =
     (if n \<noteq> [] \<and> uint_less (uint_one (length n)) n
      then if is_even n
           then do { x' \<leftarrow> uint_mul x x; pow_loop y x' (uint_shr n 1) }
           else do {
             y' \<leftarrow> uint_mul x y;
             x' \<leftarrow> uint_mul x x;
             pow_loop y' x' (uint_shr (clear_top n) 1) }
      else Some (x, y))"
  by pat_completeness auto

lemma half_less:
  "n \<noteq> [] \<Longrightarrow> uint_less (uint_one (length n)) n \<Longrightarrow> uval (uint_shr n 1) < uval n"
  "n \<noteq> [] \<Longrightarrow> uint_less (uint_one (length n)) n \<Longrightarrow> uval (uint_shr (clear_top n) 1) < uval n"
proof -
  assume n: "n \<noteq> []" "uint_less (uint_one (length n)) n"
  then have 1: "1 < uval n" by (simp add: uint_gt_one_val)
  then show "uval (uint_shr n 1) < uval n" by (simp add: uval_shr)
  have "uval (clear_top n) \<le> uval n" using n by (simp add: uval_clear_top)
  then show "uval (uint_shr (clear_top n) 1) < uval n"
    using 1 by (simp add: uval_shr)
qed

termination pow_loop
  by (relation "measure (\<lambda>(_, _, n). uval n)") (auto simp: half_less simp del: One_nat_def)

declare pow_loop.simps [simp del]

definition uint_pow :: "uint \<Rightarrow> uint \<Rightarrow> uint option" where
  "uint_pow me expon =
     (if uint_is_zero expon then Some (uint_one (length me))
      else do { (x, y) \<leftarrow> pow_loop (uint_one (length me)) me expon; uint_mul x y })"

text \<open>\<open>overflowing!\<close> keeps the value and accumulates the flag.\<close>

function overflowing_pow_loop ::
    "uint \<Rightarrow> uint \<Rightarrow> uint \<Rightarrow> bool \<Rightarrow> (uint \<times> uint \<times> bool) option" where
  "overflowing_pow_loop y x n overflow =
     (if n \<noteq> [] \<and> uint_less (uint_one (length n)) n
      then if is_even n
           then let (x', o1) = overflowing_mul x x
                in overflowing_pow_loop y x' (uint_shr n 1) (overflow \<or> o1)
           else let (y', o1) = overflowing_mul x y; (x', o2) = overflowing_mul x x
                in case uint_sub n (uint_one (length n)) of
                     None \<Rightarrow> None
                   | Some n' \<Rightarrow> overflowing_pow_loop y' x' (uint_shr n' 1) (overflow \<or> o1 \<or> o2)
      else Some (x, y, overflow))"
  by pat_completeness auto

lemma half_pred_less:
  assumes "n \<noteq> []" and "uint_less (uint_one (length n)) n" and "uint_sub n (uint_one (length n)) = Some n'"
  shows "uval (uint_shr n' 1) < uval n"
proof -
  have "uval n' + 1 = uval n" and "1 < uval n"
    using assms by (simp_all add: uint_sub_Some_iff uint_gt_one_val)
  then show ?thesis by (simp add: uval_shr)
qed

termination overflowing_pow_loop
  by (relation "measure (\<lambda>(_, _, n, _). uval n)") (auto simp: half_less half_pred_less simp del: One_nat_def)

declare overflowing_pow_loop.simps [simp del]

definition overflowing_pow :: "uint \<Rightarrow> uint \<Rightarrow> (uint \<times> bool) option" where
  "overflowing_pow me expon =
     (if uint_is_zero expon then Some (uint_one (length me), False)
      else do {
        (x, y, overflow) \<leftarrow> overflowing_pow_loop (uint_one (length me)) me expon False;
        let (res, o1) = overflowing_mul x y;
        Some (res, overflow \<or> o1) })"

subsection \<open>The powers compute powers\<close>

text \<open>Squaring the base and halving the exponent keeps the product \<open>y * x ^ n\<close>.\<close>

lemma pow_half:
  fixes x y n :: nat
  shows "even n \<Longrightarrow> y * (x * x) ^ (n div 2) = y * x ^ n"
    and "odd n \<Longrightarrow> x * y * (x * x) ^ (n div 2) = y * x ^ n"
proof -
  have sq: "(x * x) ^ k = x ^ (2 * k)" for k by (simp add: power_mult power2_eq_square)
  show "even n \<Longrightarrow> y * (x * x) ^ (n div 2) = y * x ^ n" by (simp add: sq)
  assume "odd n"
  then have "x ^ n = x * x ^ (2 * (n div 2))" by (metis odd_two_times_div_two_succ power_Suc Suc_eq_plus1)
  then show "x * y * (x * x) ^ (n div 2) = y * x ^ n" by (simp add: sq)
qed

lemma le_pow_mult:
  fixes x y n :: nat
  assumes "y = 0 \<longrightarrow> x = 0" and "1 < n"
  shows "x * x \<le> y * x ^ n" and "x * y \<le> y * x ^ n"
proof -
  obtain k where n: "n = Suc (Suc k)" using assms(2) by (metis One_nat_def less_imp_Suc_add add_Suc)
  have "x \<noteq> 0 \<Longrightarrow> 1 \<le> y * x ^ k \<and> 1 \<le> x * x ^ k" using assms(1) by simp
  then show "x * x \<le> y * x ^ n" "x * y \<le> y * x ^ n"
    by (cases "x = 0"; simp add: n)+
qed

lemma pow_loop_val:
  assumes "length x = L" and "length y = L" and "length n = L" and "0 < L"
    and "0 < uval n" and "uval n < 2 ^ (64 * L - 1)" and "uval y = 0 \<longrightarrow> uval x = 0"
  shows "do { (x', y') \<leftarrow> pow_loop y x n; uint_mul x' y' } = fits L (uval y * uval x ^ uval n)"
  using assms
proof (induction y x n rule: pow_loop.induct)
  case (1 y x n)
  have ne: "n \<noteq> []" using "1.prems" by auto
  have lt: "uval n div 2 < 2 ^ (64 * L - 1)" using "1.prems"(6) by linarith
  have ct: "uval (clear_top n) = uval n" using "1.prems" ne by (simp add: uval_clear_top)
  show ?case
  proof (cases "uint_less (uint_one (length n)) n")
    case False
    then have "uval n = 1" using ne "1.prems"(5) by (simp add: uint_gt_one_val)
    with False show ?thesis using "1.prems"
      by (simp add: pow_loop.simps[of y x n] uint_mul_fits mult.commute)
  next
    case gt: True
    then have g1: "1 < uval n" using ne by (simp add: uint_gt_one_val)
    note le = le_pow_mult[OF "1.prems"(7) g1]
    show ?thesis
    proof (cases "is_even n")
      case True
      then have ev: "even (uval n)" using ne by (simp add: is_even_val)
      show ?thesis
      proof (cases "uint_mul x x")
        case None
        then have "\<not> uval x * uval x < 2 ^ (64 * L)"
          using "1.prems"(1) by (auto simp: uint_mul_fits fits_def split: if_splits)
        then have "fits L (uval y * uval x ^ uval n) = None" using le(1) by (simp add: fits_def)
        then show ?thesis using gt True ne None by (simp add: pow_loop.simps[of y x n])
      next
        case (Some x')
        then have x': "length x' = L" "uval x' = uval x * uval x"
          using "1.prems"(1) by (simp_all add: uint_mul_fits fits_Some)
        have "do { (x', y') \<leftarrow> pow_loop y x' (uint_shr n 1); uint_mul x' y' } =
            fits L (uval y * uval x' ^ uval (uint_shr n 1))"
          using "1.IH"(1)[OF _ True Some] gt ne x' "1.prems" lt g1 by (simp add: uval_shr)
        then show ?thesis using gt True ne Some x' pow_half(1)[OF ev]
          by (simp add: pow_loop.simps[of y x n] uval_shr)
      qed
    next
      case False
      then have od: "odd (uval n)" using ne by (simp add: is_even_val)
      show ?thesis
      proof (cases "uint_mul x y = None \<or> uint_mul x x = None")
        case True
        then have "\<not> uval x * uval y < 2 ^ (64 * L) \<or> \<not> uval x * uval x < 2 ^ (64 * L)"
          using "1.prems"(1,2) by (auto simp: uint_mul_fits fits_def split: if_splits)
        then have "fits L (uval y * uval x ^ uval n) = None" using le unfolding fits_def by (metis order_le_less_trans)
        then show ?thesis using gt False ne True by (auto simp: pow_loop.simps[of y x n] bind_eq_None_conv)
      next
        case noov: False
        then obtain x' y' where s: "uint_mul x y = Some y'" "uint_mul x x = Some x'" by auto
        then have x': "length x' = L" "uval x' = uval x * uval x" "length y' = L" "uval y' = uval x * uval y"
          using "1.prems"(1,2) by (simp_all add: uint_mul_fits fits_Some)
        have "do { (x', y') \<leftarrow> pow_loop y' x' (uint_shr (clear_top n) 1); uint_mul x' y' } =
            fits L (uval y' * uval x' ^ uval (uint_shr (clear_top n) 1))"
          using "1.IH"(2)[OF _ False s] gt ne x' "1.prems" lt g1 ct by (simp add: uval_shr)
        then show ?thesis using gt False ne s x' pow_half(2)[OF od] ct
          by (simp add: pow_loop.simps[of y x n] uval_shr)
      qed
    qed
  qed
qed

text \<open>The flag of the overflowing loop records that the true base or the true factor left the width.\<close>

lemma overflowing_pow_loop_val:
  fixes X Y :: nat and x y n :: uint
  defines "M \<equiv> 2 ^ (64 * length x) :: nat"
  assumes "length y = length x" and "length n = length x" and "x \<noteq> []" and "0 < uval n"
    and "uval x = X mod M" and "uval y = Y mod M" and "ov \<longleftrightarrow> M \<le> X \<or> M \<le> Y"
    and "Y = 0 \<longrightarrow> X = 0" and "X = 0 \<longrightarrow> Y \<le> 1"
  shows "\<exists>x' y' ov'. overflowing_pow_loop y x n ov = Some (x', y', ov') \<and>
    length x' = length x \<and> length y' = length x \<and>
    (uval x' * uval y') mod M = (Y * X ^ uval n) mod M \<and>
    (ov' \<or> M \<le> uval x' * uval y' \<longleftrightarrow> M \<le> Y * X ^ uval n)"
  using assms(2-10) unfolding M_def
proof (induction y x n ov arbitrary: X Y rule: overflowing_pow_loop.induct)
  case (1 y x n ov)
  let ?M = "2 ^ (64 * length x) :: nat"
  have ne: "n \<noteq> []" using "1.prems" by auto
  have M1: "1 < ?M" using "1.prems"(3) by (intro one_less_power) simp_all
  obtain xx o2 where xx: "overflowing_mul x x = (xx, o2)" by fastforce
  obtain xy o1 where xy: "overflowing_mul x y = (xy, o1)" by fastforce
  have v: "uval xx = X * X mod ?M" "length xx = length x" "o2 \<longleftrightarrow> ?M \<le> uval x * uval x"
    "uval xy = X * Y mod ?M" "length xy = length x" "o1 \<longleftrightarrow> ?M \<le> uval x * uval y"
    using overflowing_mul_val[OF refl xx] overflowing_mul_val[OF _ xy] "1.prems"
    by (simp_all add: mod_mult_eq)
  have small: "\<not> ov \<Longrightarrow> uval x = X \<and> uval y = Y" using "1.prems" by simp
  have big: "Y = 0 \<longrightarrow> X = 0" "X = 0 \<longrightarrow> Y \<le> 1" "ov \<longleftrightarrow> ?M \<le> X \<or> ?M \<le> Y" using "1.prems" by simp_all
  have bx: "?M \<le> X \<Longrightarrow> ?M \<le> X * X" by (meson le_square le_trans)
  have bxy: "?M \<le> X * Y" if ov
  proof -
    have "1 \<le> X" "1 \<le> Y" using that big M1 by (auto simp: Suc_le_eq intro!: gr0I)
    then have "X \<le> X * Y" "Y \<le> X * Y" by simp_all
    with that big(3) show ?thesis by linarith
  qed
  have o12: "ov \<or> o1 \<or> o2 \<longleftrightarrow> ?M \<le> X * X \<or> ?M \<le> X * Y"
    using bxy small v(3,6) by (cases ov) auto
  have oe: "ov \<or> o2 \<longleftrightarrow> ?M \<le> X * X \<or> ?M \<le> Y"
    using bx small v(3) big(3) by (cases ov) auto
  show ?case
  proof (cases "uint_less (uint_one (length n)) n")
    case False
    then have "uval n = 1" using ne "1.prems"(4) by (simp add: uint_gt_one_val)
    moreover have "ov \<or> ?M \<le> uval x * uval y \<longleftrightarrow> ?M \<le> Y * X"
      using bxy small by (cases ov) (auto simp: mult.commute)
    moreover have "(uval x * uval y) mod ?M = (Y * X) mod ?M"
      using "1.prems" by (simp add: mod_mult_eq mult.commute)
    ultimately show ?thesis using False "1.prems"(1) by (simp add: overflowing_pow_loop.simps[of y x n ov])
  next
    case gt: True
    then have g1: "1 < uval n" using ne by (simp add: uint_gt_one_val)
    show ?thesis
    proof (cases "is_even n")
      case True
      then have ev: "even (uval n)" using ne by (simp add: is_even_val)
      have "\<exists>x' y' ov'. overflowing_pow_loop y xx (uint_shr n 1) (ov \<or> o2) = Some (x', y', ov') \<and>
          length x' = length xx \<and> length y' = length xx \<and>
          (uval x' * uval y') mod 2 ^ (64 * length xx) =
            (Y * (X * X) ^ uval (uint_shr n 1)) mod 2 ^ (64 * length xx) \<and>
          (ov' \<or> 2 ^ (64 * length xx) \<le> uval x' * uval y' \<longleftrightarrow>
            2 ^ (64 * length xx) \<le> Y * (X * X) ^ uval (uint_shr n 1))"
        using "1.prems" v(1,2) oe big g1 gt ne
        by (intro "1.IH"(1)[OF _ True xx[symmetric] refl]) (auto simp: uval_shr)
      then show ?thesis using pow_half(1)[OF ev] gt True ne xx v(2)
        by (simp add: overflowing_pow_loop.simps[of y x n ov] uval_shr)
    next
      case False
      then have od: "odd (uval n)" using ne by (simp add: is_even_val)
      obtain n' where n': "uint_sub n (uint_one (length n)) = Some n'"
      proof -
        have "\<exists>r. length r = length n \<and> uval r + uval (uint_one (length n)) = uval n"
          using uval_bound[of n] g1 ne by (intro exI[of _ "uint_of (length n) (uval n - 1)"]) simp
        then show thesis using that by (auto simp: uint_sub_Some_iff)
      qed
      then have nv: "length n' = length n" "uval n' div 2 = uval n div 2"
        using od ne by (auto simp: uint_sub_Some_iff elim!: oddE)
      have "\<exists>x' y' ov'. overflowing_pow_loop xy xx (uint_shr n' 1) (ov \<or> o1 \<or> o2) = Some (x', y', ov') \<and>
          length x' = length xx \<and> length y' = length xx \<and>
          (uval x' * uval y') mod 2 ^ (64 * length xx) =
            (X * Y * (X * X) ^ uval (uint_shr n' 1)) mod 2 ^ (64 * length xx) \<and>
          (ov' \<or> 2 ^ (64 * length xx) \<le> uval x' * uval y' \<longleftrightarrow>
            2 ^ (64 * length xx) \<le> X * Y * (X * X) ^ uval (uint_shr n' 1))"
        using "1.prems" v o12 big g1 gt ne nv
        by (intro "1.IH"(2)[OF _ False xy[symmetric] refl xx[symmetric] refl n']) (auto simp: uval_shr)
      then show ?thesis using pow_half(2)[OF od] gt False ne xx xy v(2) n' nv(2)
        by (simp add: overflowing_pow_loop.simps[of y x n ov] uval_shr)
    qed
  qed
qed

subsection \<open>Properties\<close>

text \<open>
  C38. Division panics exactly for the divisor zero; otherwise the bitwise long division returns the
  quotient and \<open>%\<close> the remainder, without a panic in the multiplication and subtraction inside.\<close>

theorem uint_div_rem_spec:
  assumes "length a = length b" and "a \<noteq> []"
  shows "map_option uval (uint_div a b) = (if uval b = 0 then None else Some (uval a div uval b)) \<and>
    map_option uval (uint_rem a b) = (if uval b = 0 then None else Some (uval a mod uval b))"
proof (cases "uval b = 0")
  case True
  then have "uint_div a b = None" using assms by (intro uint_div_zero) auto
  with True show ?thesis by (simp add: uint_rem_def)
next
  case False
  then show ?thesis using uint_div_val[OF assms(1)] uint_rem_val[OF assms(1)] by auto
qed

theorem uint_div_rem_spec_witness:
  "map_option uval (uint_rem [7, 1] [10, 0]) =
    (if uval [10, 0] = 0 then None else Some (uval [7, 1] mod uval [10, 0]))"
  using uint_div_rem_spec[of "[7, 1]" "[10, 0]"] by simp

text \<open>
  \<open>overflowing_pow\<close> returns the power modulo the width, and its flag is raised exactly when the
  true power does not fit: no intermediate product raises it without reason or hides it.\<close>

theorem overflowing_pow_spec:
  assumes "length e = length a" and "a \<noteq> []"
  shows "map_option (\<lambda>(r, ov). (uval r, ov)) (overflowing_pow a e) =
    Some (uval a ^ uval e mod 2 ^ (64 * length a), 2 ^ (64 * length a) \<le> uval a ^ uval e)"
proof (cases "uval e = 0")
  case True
  have "1 < (2 :: nat) ^ (64 * length a)" using assms by (intro one_less_power) simp_all
  then show ?thesis using True assms by (simp add: overflowing_pow_def uint_is_zero_iff)
next
  case False
  have M1: "1 < (2 :: nat) ^ (64 * length a)" using assms by (intro one_less_power) simp_all
  have "\<exists>x' y' ov'. overflowing_pow_loop (uint_one (length a)) a e False = Some (x', y', ov') \<and>
      length x' = length a \<and> length y' = length a \<and>
      (uval x' * uval y') mod 2 ^ (64 * length a) = (1 * uval a ^ uval e) mod 2 ^ (64 * length a) \<and>
      (ov' \<or> 2 ^ (64 * length a) \<le> uval x' * uval y' \<longleftrightarrow> 2 ^ (64 * length a) \<le> 1 * uval a ^ uval e)"
    using assms False M1 uval_bound[of a] by (intro overflowing_pow_loop_val) simp_all
  then obtain x' y' ov' where l: "overflowing_pow_loop (uint_one (length a)) a e False = Some (x', y', ov')"
    "length x' = length a" "length y' = length a"
    "(uval x' * uval y') mod 2 ^ (64 * length a) = uval a ^ uval e mod 2 ^ (64 * length a)"
    "ov' \<or> 2 ^ (64 * length a) \<le> uval x' * uval y' \<longleftrightarrow> 2 ^ (64 * length a) \<le> uval a ^ uval e" by auto
  obtain r o1 where r: "overflowing_mul x' y' = (r, o1)" by fastforce
  have "uval r = uval a ^ uval e mod 2 ^ (64 * length a)"
    "ov' \<or> o1 \<longleftrightarrow> 2 ^ (64 * length a) \<le> uval a ^ uval e"
    using overflowing_mul_val[OF _ r] l by simp_all
  then show ?thesis using False l(1) r by (simp add: overflowing_pow_def uint_is_zero_iff)
qed

theorem overflowing_pow_spec_witness:
  "map_option (\<lambda>(r, ov). (uval r, ov)) (overflowing_pow [3, 0] [100, 0]) =
    Some (uval [3, 0] ^ uval [100, 0] mod 2 ^ (64 * length [3 :: u64, 0]), 2 ^ (64 * length [3 :: u64, 0]) \<le> uval [3, 0] ^ uval [100, 0])"
  by (rule overflowing_pow_spec) simp_all

text \<open>
  \<open>pow\<close> returns the power or panics on overflow for every exponent below half of the range; this
  covers every exponent whose power fits for a base above one.\<close>

theorem uint_pow_spec:
  assumes "length e = length a" and "a \<noteq> []" and "uval e < 2 ^ (64 * length a - 1)"
  shows "uint_pow a e = (if uval a ^ uval e < 2 ^ (64 * length a)
    then Some (uint_of (length a) (uval a ^ uval e)) else None)"
proof (cases "uval e = 0")
  case True
  have M1: "1 < (2 :: nat) ^ (64 * length a)" using assms by (intro one_less_power) simp_all
  have "uint_one (length a) = uint_of (length a) 1" using assms(2) M1 by (intro uval_inj) simp_all
  then show ?thesis using True assms M1 by (simp add: uint_pow_def uint_is_zero_iff)
next
  case False
  then show ?thesis
    using pow_loop_val[of a "length a" "uint_one (length a)" e] assms
    by (simp add: uint_pow_def uint_is_zero_iff fits_def)
qed

theorem uint_pow_spec_witness:
  "uint_pow [3, 0] [5, 0] = (if uval [3, 0] ^ uval [5, 0] < 2 ^ (64 * length [3 :: u64, 0])
    then Some (uint_of (length [3 :: u64, 0]) (uval [3, 0] ^ uval [5, 0])) else None)"
  by (rule uint_pow_spec) simp_all

text \<open>
  For an odd exponent with the top bit set \<open>pow\<close> clears that top bit where its comment says it
  clears the last one: with the exponent \<open>2 ^ (64 n - 1) + 1\<close> the result is the cube of the base
  (or a panic when the cube does not fit), whatever the base.\<close>

theorem uint_pow_top_bit:
  assumes "length a = Suc (Suc n)"
  shows "uint_pow a (1 # replicate n 0 @ [2 ^ 63]) = fits (length a) (uval a ^ 3)"
proof -
  let ?L = "Suc (Suc n)"
  define e :: uint where "e = 1 # replicate n 0 @ [2 ^ 63]"
  have l: "length e = ?L" and ne: "e \<noteq> []" by (simp_all add: e_def)
  have ev: "uval e = 2 ^ (64 * ?L - 1) + 1"
  proof -
    have "64 * ?L - 1 = 64 + (64 * n + 63)" by simp
    then show ?thesis by (simp add: e_def uval_append power_add)
  qed
  have M1: "1 < (2 :: nat) ^ (64 * ?L - 1)" by (intro one_less_power) simp_all
  have gt: "uint_less (uint_one (length e)) e"
    unfolding uint_gt_one_val[OF ne] ev by simp
  have odd: "\<not> is_even e" by (simp add: is_even_def low_u64_def e_def)
  have "uval (clear_top e) = 1"
    unfolding uval_clear_top[OF ne] ev l using mod_add_self1[of "2 ^ (64 * ?L - 1)" "1 :: nat"] mod_less[OF M1]
    by (simp only:)
  then have n': "uval (uint_shr (clear_top e) 1) = 0"
    by (simp add: uval_shr)
  have stop: "pow_loop y x' (uint_shr (clear_top e) 1) = Some (x', y)" for x' y
    using uint_gt_one_val[of "uint_shr (clear_top e) 1"] n'
    by (cases "uint_shr (clear_top e) 1 = []") (simp_all add: pow_loop.simps)
  have nz: "\<not> uint_is_zero e" unfolding uint_is_zero_iff ev by simp
  have "uint_pow a e = do {
      y' \<leftarrow> uint_mul a (uint_one (length a)); x' \<leftarrow> uint_mul a a; uint_mul x' y' }"
    using gt odd nz ne by (simp add: uint_pow_def pow_loop.simps[of _ _ e] stop del: One_nat_def)
  also have "\<dots> = fits (length a) (uval a ^ 3)"
  proof -
    have one: "uint_mul a (uint_one (length a)) = Some a"
      using uval_bound[of a] assms by (simp add: uint_mul_fits fits_Some)
    show ?thesis
    proof (cases "uint_mul a a")
      case None
      then have "2 ^ (64 * length a) \<le> uval a * uval a"
        by (auto simp: uint_mul_fits fits_def split: if_splits)
      then have "2 ^ (64 * length a) \<le> uval a ^ 3"
        using le_pow_mult(1)[of 1 "uval a" 3] by simp
      then show ?thesis by (simp add: one None fits_def)
    next
      case (Some x')
      then have "length x' = length a" "uval x' = uval a * uval a" by (simp_all add: uint_mul_fits fits_Some)
      then show ?thesis by (simp add: one Some uint_mul_fits power3_eq_cube)
    qed
  qed
  finally show ?thesis by (simp add: e_def)
qed

theorem uint_pow_top_bit_witness:
  "uint_pow [2, 0, 0, 0] (1 # replicate 2 0 @ [2 ^ 63]) = Some [8, 0, 0, 0]"
proof -
  have "fits (length [2 :: u64, 0, 0, 0]) (uval [2, 0, 0, 0] ^ 3) = Some [8, 0, 0, 0]"
    by (simp add: fits_def)
  then show ?thesis using uint_pow_top_bit[of "[2, 0, 0, 0]" 2] by simp
qed

end
