(* ===== verification/UintConv.thy ===== *)
theory UintConv
  imports UintDiv
begin

section \<open>Fixed-size unsigned integers: conversions\<close>

text \<open>
  The conversions of \<open>construct_uint!\<close>: big- and little-endian byte strings, decimal strings,
  hexadecimal strings, machine integers, and the conversions between \<open>U128\<close>, \<open>U256\<close> and \<open>U512\<close>.
  Strings of the crate \<open>rustc_hex\<close> come from the parameters \<open>from_hex\<close> and \<open>to_hex\<close>.
\<close>

subsection \<open>Definitions\<close>

text \<open>
  The array is written word by word into the buffer; the assertion on the buffer's length is the
  panic. \<open>buf\<close> is the length of the slice handed in.
\<close>

definition to_big_endian :: "byteorder \<Rightarrow> uint \<Rightarrow> nat \<Rightarrow> bytes option" where
  "to_big_endian bo arr buf =
     (let n = length arr in
      if n * 8 = buf then Some (concat (map (\<lambda>i. write_u64 bo (arr ! (n - i - 1))) [0..<n])) else None)"

definition to_little_endian :: "byteorder \<Rightarrow> uint \<Rightarrow> nat \<Rightarrow> bytes option" where
  "to_little_endian bo arr buf =
     (let n = length arr in
      if n * 8 = buf then Some (concat (map (\<lambda>i. write_u64_le bo (arr ! i)) [0..<n])) else None)"

definition from_bytes :: "nat \<Rightarrow> bytes \<Rightarrow> uint option" where
  "from_bytes n bs =
     (if n * 8 \<ge> length bs
      then Some (foldl (\<lambda>ret i.
             let rev = length bs - 1 - i; pos = rev div 8
             in ret[pos := ret ! pos + push_bit (rev mod 8 * 8) (ucast (bs ! i))])
           (replicate n 0) [0..<length bs])
      else None)"

datatype from_dec_str_err = InvalidCharacter | InvalidLength

text \<open>The loop over the decimal digits; the bytes are ASCII.\<close>

fun dec_loop :: "uint \<Rightarrow> u8 list \<Rightarrow> from_dec_str_err + uint" where
  "dec_loop res [] = Inr res"
| "dec_loop res (b # bs) =
     (let (r, overflow) = overflowing_mul_u32 res 10 in
      if overflow then Inl InvalidLength
      else let (r, overflow) = overflowing_add r (uint_from_u64 (length r) (ucast b)) in
           if overflow then Inl InvalidLength else dec_loop r bs)"

definition from_dec_str :: "nat \<Rightarrow> u8 list \<Rightarrow> from_dec_str_err + uint" where
  "from_dec_str n value =
     (if \<not> list_all (\<lambda>b. 48 \<le> b \<and> b \<le> 57) value then Inl InvalidCharacter
      else dec_loop (uint_zero n) (map (\<lambda>b. b - 48) value))"

text \<open>\<open>format!\<close> of a \<open>u32\<close>: its decimal digits.\<close>

fun decimal :: "nat \<Rightarrow> u8 list" where
  "decimal v = (if v < 10 then [of_nat (48 + v)] else decimal (v div 10) @ [of_nat (48 + v mod 10)])"

declare decimal.simps [simp del]

function display_loop :: "uint \<Rightarrow> u8 list \<Rightarrow> u8 list option" where
  "display_loop current s =
     (if uint_is_zero current then Some s
      else case uint_rem current (uint_from_u64 (length current) 10) of
             None \<Rightarrow> None
           | Some r \<Rightarrow>
               (case uint_div current (uint_from_u64 (length current) 10) of
                  None \<Rightarrow> None
                | Some q \<Rightarrow> display_loop q (decimal (unat (low_u32 r)) @ s)))"
  by pat_completeness auto

lemma uint_div_ten:
  assumes "\<not> uint_is_zero a"
  shows "\<exists>q r. uint_div a (uint_from_u64 (length a) 10) = Some q \<and>
    uint_rem a (uint_from_u64 (length a) 10) = Some r \<and>
    uval q = uval a div 10 \<and> uval r = uval a mod 10 \<and> length q = length a \<and> length r = length a"
proof -
  have a: "0 < length a" using assms by (cases a) (auto simp: uint_is_zero_def)
  then have t: "length a = length (uint_from_u64 (length a) 10)" "uval (uint_from_u64 (length a) 10) = 10"
    by (simp_all add: uval_from_u64)
  then show ?thesis using uint_div_val[OF t(1)] uint_rem_val[OF t(1)] by auto
qed

termination display_loop
proof (relation "measure (\<lambda>(c, _). uval c)")
  fix current r q :: uint and s :: "u8 list"
  assume "\<not> uint_is_zero current" and "uint_div current (uint_from_u64 (length current) 10) = Some q"
  then show "((q, decimal (unat (low_u32 r)) @ s), current, s) \<in> measure (\<lambda>(c, _). uval c)"
    using uint_div_ten[of current] by (auto simp: uint_is_zero_iff)
qed simp

declare display_loop.simps [simp del]

definition display :: "uint \<Rightarrow> u8 list option" where
  "display self = (if uint_is_zero self then Some [48] else display_loop self [])"

text \<open>\<open>to_hex\<close> drops the leading zero bytes and then the leading zero digit.\<close>

definition uint_to_hex :: "byteorder \<Rightarrow> (bytes \<Rightarrow> u8 list) \<Rightarrow> uint \<Rightarrow> u8 list option" where
  "uint_to_hex bo to_hex self =
     (if uint_is_zero self then Some [48]
      else do {
        bs \<leftarrow> to_big_endian bo self (8 * length self);
        let bp7 = uint_bits self + 7;
        let len = max (bp7 div 8) 1;
        start \<leftarrow> usize_sub (length bs) len;
        let bytes_hex = to_hex (drop start bs);
        off \<leftarrow> usize_sub 1 (bp7 mod 8 div 4);
        if off \<le> length bytes_hex then Some (drop off bytes_hex) else None })"

definition uint_from_str :: "nat \<Rightarrow> (u8 list \<Rightarrow> 'e + bytes) \<Rightarrow> u8 list \<Rightarrow> ('e + uint) option" where
  "uint_from_str n from_hex value =
     (case (if length value mod 2 = 0 then from_hex value else from_hex (48 # value)) of
        Inl e \<Rightarrow> Some (Inl e)
      | Inr bs \<Rightarrow> map_option Inr (from_bytes n bs))"

definition uint_from_i64 :: "nat \<Rightarrow> u64 \<Rightarrow> uint option" where
  "uint_from_i64 n value = (if 0 \<le> sint value then Some (uint_from_u64 n value) else None)"

text \<open>The conversions between the widths: \<open>U256\<close> has 4 words, \<open>U512\<close> 8, \<open>U128\<close> 2.\<close>

definition u512_from_u256 :: "uint \<Rightarrow> uint" where
  "u512_from_u256 arr = (replicate 8 0)[0 := arr ! 0, 1 := arr ! 1, 2 := arr ! 2, 3 := arr ! 3]"

definition u256_from_u512 :: "uint \<Rightarrow> uint option" where
  "u256_from_u512 arr =
     (if arr ! 4 OR arr ! 5 OR arr ! 6 OR arr ! 7 \<noteq> 0 then None
      else Some ((replicate 4 0)[0 := arr ! 0, 1 := arr ! 1, 2 := arr ! 2, 3 := arr ! 3]))"

definition u128_from_u256 :: "uint \<Rightarrow> uint option" where
  "u128_from_u256 arr =
     (if arr ! 2 OR arr ! 3 \<noteq> 0 then None
      else Some ((replicate 2 0)[0 := arr ! 0, 1 := arr ! 1]))"

definition u128_from_u512 :: "uint \<Rightarrow> uint option" where
  "u128_from_u512 arr =
     (if arr ! 2 OR arr ! 3 OR arr ! 4 OR arr ! 5 OR arr ! 6 OR arr ! 7 \<noteq> 0 then None
      else Some ((replicate 2 0)[0 := arr ! 0, 1 := arr ! 1]))"

definition u512_from_u128 :: "uint \<Rightarrow> uint" where
  "u512_from_u128 arr = (replicate 8 0)[0 := arr ! 0, 1 := arr ! 1]"

definition u256_from_u128 :: "uint \<Rightarrow> uint" where
  "u256_from_u128 arr = (replicate 4 0)[0 := arr ! 0, 1 := arr ! 1]"

subsection \<open>Byte strings\<close>

lemma be_val_write_u64:
  assumes "big_endian bo"
  shows "be_val (write_u64 bo w) = unat w"
proof -
  have "unat w < 256 ^ 8" using unat_bound[of w] by simp
  then show ?thesis using assms by (simp only: model_simps be_val_be_bytes mod_less)
qed

lemma be_val_rev_words:
  assumes "big_endian bo"
  shows "be_val (concat (map (write_u64 bo) (rev ws))) = uval ws \<and>
    length (concat (map (write_u64 bo) (rev ws))) = 8 * length ws"
proof (induction ws)
  case Nil
  then show ?case by simp
next
  case (Cons w ws)
  have "(256 :: nat) ^ 8 = 2 ^ 64" by simp
  then show ?case using Cons assms by (simp add: be_val_append be_val_write_u64)
qed

lemma to_big_endian_rev:
  "to_big_endian bo a (8 * length a) = Some (concat (map (write_u64 bo) (rev a)))"
proof -
  have "map (\<lambda>i. write_u64 bo (a ! (length a - i - 1))) [0..<length a] = map (write_u64 bo) (rev a)"
    by (rule nth_equalityI) (simp_all add: rev_nth)
  then show ?thesis by (simp add: to_big_endian_def Let_def del: map_map)
qed

lemma to_big_endian_val:
  assumes "big_endian bo"
  shows "to_big_endian bo a (8 * length a) = Some (be_bytes (8 * length a) (uval a))"
  using be_val_rev_words[OF assms, of a] be_bytes_be_val to_big_endian_rev by metis

lemma to_little_endian_val:
  assumes "big_endian bo"
  shows "to_little_endian bo a (8 * length a) = Some (rev (be_bytes (8 * length a) (uval a)))"
proof -
  have "concat (map (write_u64_le bo) ws) = rev (concat (map (write_u64 bo) (rev ws)))" for ws
    by (induction ws) (simp_all add: assms model_simps)
  moreover have "map (\<lambda>i. write_u64_le bo (a ! i)) [0..<length a] = map (write_u64_le bo) a"
    by (rule nth_equalityI) simp_all
  ultimately show ?thesis
    using to_big_endian_val[OF assms, of a] by (simp add: to_little_endian_def to_big_endian_rev)
qed

text \<open>The loop of \<open>From<&[u8]>\<close> from the front: the bytes already read sit above the rest.\<close>

lemma from_bytes_add:
  assumes "j < 8 * length r" and "\<forall>k. 8 * j \<le> k \<and> k < 8 * Suc j \<longrightarrow> \<not> bit (uval r) k"
  shows "uval (r[j div 8 := r ! (j div 8) + push_bit (j mod 8 * 8) (ucast (b :: u8))]) =
    uval r + unat b * 256 ^ j"
proof -
  let ?i = "j div 8" and ?v = "push_bit (j mod 8 * 8) (ucast b :: u64)"
  have i: "?i < length r" using assms(1) by (simp add: less_mult_imp_div_less mult.commute)
  have idx: "(64 * ?i + m) div 64 = ?i" "(64 * ?i + m) mod 64 = m" if "m < 64" for m
    using that by simp_all
  have jm: "j mod 8 * 8 + 8 \<le> 64" using mod_less_divisor[of 8 j] by linarith
  have j8: "8 * j = 64 * ?i + j mod 8 * 8" by presburger
  have bv: "bit ?v m \<longleftrightarrow> j mod 8 * 8 \<le> m \<and> bit b (m - j mod 8 * 8)" if "m < 64" for m
    using that by (auto simp: bit_push_bit_iff bit_ucast_iff dest: bit_imp_le_length)
  have uv: "unat ?v = unat b * 2 ^ (j mod 8 * 8)"
  proof -
    have "unat b < 256" using unat_bound[of b] by simp
    then have "unat b * 2 ^ (j mod 8 * 8) < 2 ^ 8 * 2 ^ (j mod 8 * 8)" by simp
    also have "\<dots> \<le> 2 ^ 64" unfolding power_add[symmetric] using jm by (intro power_increasing) simp_all
    finally have lt: "unat b * 2 ^ (j mod 8 * 8) < 2 ^ 64" .
    have "unat ?v = (unat (ucast b :: u64) * 2 ^ (j mod 8 * 8)) mod 2 ^ 64"
      by (simp only: unsigned_push_bit_eq take_bit_eq_mod) (simp add: push_bit_eq_mult)
    also have "unat (ucast b :: u64) = unat b" by (simp add: unat_ucast_up)
    finally show ?thesis using lt by simp
  qed
  have dj: "\<not> bit (r ! ?i) m \<or> \<not> bit ?v m" for m
  proof (cases "m < 64")
    case True
    show ?thesis
    proof (rule disjCI)
      assume "\<not> \<not> bit ?v m"
      then have m: "j mod 8 * 8 \<le> m" "m - j mod 8 * 8 < 8" using bv[OF True] bit_imp_le_length by fastforce+
      then have "\<not> bit (uval r) (64 * ?i + m)" using assms(2) j8 by auto
      then show "\<not> bit (r ! ?i) m" using idx[OF True] i True by (simp add: bit_uval)
    qed
  qed (auto dest: bit_imp_le_length)
  have "unat (r ! ?i + ?v) = unat (r ! ?i OR ?v)"
    using dj by (subst disjunctive_add) auto
  also have "\<dots> = unat (r ! ?i) OR unat ?v" by (rule bit_eqI) (auto simp: bit_simps)
  also have "\<dots> = unat (r ! ?i) + unat ?v"
    using dj by (intro disjunctive_add[symmetric]) (auto simp: bit_unsigned_iff)
  finally have s: "unat (r ! ?i + ?v) = unat (r ! ?i) + unat b * 2 ^ (j mod 8 * 8)" by (simp add: uv)
  have split: "uval (r[?i := w]) = uval (take ?i r) + 2 ^ (64 * ?i) * (unat w + 2 ^ 64 * uval (drop (Suc ?i) r))" for w
    using i uval_append[of "take ?i r" "w # drop (Suc ?i) r"]
    by (simp add: upd_conv_take_nth_drop)
  have "(256 :: nat) ^ j = 2 ^ (64 * ?i) * 2 ^ (j mod 8 * 8)"
    unfolding power_add[symmetric] j8[symmetric] by (simp add: power_mult)
  moreover have "uval (r[?i := r ! ?i + ?v]) =
      uval (take ?i r) + 2 ^ (64 * ?i) * (unat (r ! ?i) + unat b * 2 ^ (j mod 8 * 8) + 2 ^ 64 * uval (drop (Suc ?i) r))"
    unfolding split s ..
  moreover have "uval r = uval (take ?i r) + 2 ^ (64 * ?i) * (unat (r ! ?i) + 2 ^ 64 * uval (drop (Suc ?i) r))"
    using split[of "r ! ?i"] by (simp only: list_update_id)
  ultimately show ?thesis by (simp only: distrib_left add.assoc add.commute add.left_commute mult.commute mult.left_commute)
qed

lemma from_bytes_val:
  assumes "length bs \<le> 8 * n"
  shows "from_bytes n bs = Some (uint_of n (be_val bs))"
proof -
  let ?f = "\<lambda>ret i. let rev = length bs - 1 - i; pos = rev div 8
             in ret[pos := ret ! pos + push_bit (rev mod 8 * 8) (ucast (bs ! i) :: u64)]"
  have "uval (foldl ?f (replicate n 0) [0..<i]) = be_val (take i bs) * 256 ^ (length bs - i) \<and>
      length (foldl ?f (replicate n 0) [0..<i]) = n" if "i \<le> length bs" for i
    using that
  proof (induction i)
    case 0
    then show ?case by simp
  next
    case (Suc i)
    let ?r = "foldl ?f (replicate n 0) [0..<i]" and ?j = "length bs - 1 - i"
    have j: "length bs - i = Suc ?j" using Suc.prems by simp
    have "uval ?r = be_val (take i bs) * 256 ^ (length bs - i) \<and> length ?r = n"
      using Suc.IH Suc.prems by (meson Suc_leD)
    then have IH: "uval ?r = be_val (take i bs) * 256 ^ Suc ?j" "length ?r = n" unfolding j by blast+
    have "\<not> bit (uval ?r) k" if "k < 8 * Suc ?j" for k
    proof -
      have "(256 :: nat) ^ Suc ?j = 2 ^ (8 * Suc ?j)" using power_mult[of "2 :: nat" 8 "Suc ?j"] by simp
      then have "take_bit (8 * Suc ?j) (uval ?r) = 0"
        unfolding IH(1) by (simp only: take_bit_eq_mod mod_mult_self2_is_0)
      then have "\<not> bit (take_bit (8 * Suc ?j) (uval ?r)) k" by (simp only: bit_0_eq bot_apply) simp
      then show ?thesis using that unfolding bit_take_bit_iff by blast
    qed
    moreover have "?j < 8 * length ?r" using Suc.prems assms IH(2) by simp
    ultimately have "uval (?f ?r i) = uval ?r + unat (bs ! i) * 256 ^ ?j"
      using from_bytes_add[of ?j ?r "bs ! i"] by (simp add: Let_def)
    moreover have "take (Suc i) bs = take i bs @ [bs ! i]" using Suc.prems by (simp add: take_Suc_conv_app_nth)
    ultimately show ?case using IH by (simp add: Let_def algebra_simps)
  qed
  from this[of "length bs"] have v: "uval (foldl ?f (replicate n 0) [0..<length bs]) = be_val bs"
    "length (foldl ?f (replicate n 0) [0..<length bs]) = n" by simp_all
  have "n * 8 \<ge> length bs" using assms by linarith
  then have "from_bytes n bs = Some (foldl ?f (replicate n 0) [0..<length bs])"
    unfolding from_bytes_def by (rule if_P)
  also have "foldl ?f (replicate n 0) [0..<length bs] = uint_of n (be_val bs)"
    unfolding v(1)[symmetric] by (rule uint_of_uval[symmetric]) (rule v(2))
  finally show ?thesis .
qed

subsection \<open>Decimal strings\<close>

definition dec_val :: "nat \<Rightarrow> u8 list \<Rightarrow> nat" where
  "dec_val acc ds = foldl (\<lambda>v d. v * 10 + unat d) acc ds"

lemma dec_val_Cons: "dec_val acc (d # ds) = dec_val (acc * 10 + unat d) ds"
  by (simp add: dec_val_def)

lemma dec_val_ge: "acc \<le> dec_val acc ds"
proof (induction ds arbitrary: acc)
  case Nil
  then show ?case by (simp add: dec_val_def)
next
  case (Cons d ds)
  have "acc \<le> acc * 10 + unat d" by simp
  with Cons[of "acc * 10 + unat d"] show ?case unfolding dec_val_Cons by linarith
qed

lemma dec_loop_val:
  assumes "res \<noteq> []"
  shows "dec_loop res ds = (if dec_val (uval res) ds < 2 ^ (64 * length res)
    then Inr (uint_of (length res) (dec_val (uval res) ds)) else Inl InvalidLength)"
  using assms
proof (induction ds arbitrary: res)
  case Nil
  then show ?case by (simp add: dec_val_def uval_bound)
next
  case (Cons d ds)
  let ?M = "2 ^ (64 * length res) :: nat"
  obtain r o1 where r: "overflowing_mul_u32 res 10 = (r, o1)" by fastforce
  note v = overflowing_mul_u32_val[OF r]
  obtain q o2 where q: "overflowing_add r (uint_from_u64 (length r) (ucast d)) = (q, o2)" by fastforce
  have d: "uval (uint_from_u64 (length r) (ucast d)) = unat d"
    using Cons.prems v(3) by (simp add: uval_from_u64 unat_ucast_up)
  have lq: "length r = length (uint_from_u64 (length r) (ucast d))" by simp
  note w = overflowing_add_val[OF lq q]
  show ?case
  proof (cases "o1 \<or> o2")
    case True
    have "?M \<le> uval res * 10 + unat d"
    proof (cases o1)
      case True
      then show ?thesis using v(2) by simp
    next
      case False
      then have "uval r = uval res * 10" using v by simp
      then show ?thesis using True False w v(3) d by simp
    qed
    then have "\<not> dec_val (uval res) (d # ds) < ?M"
      using dec_val_ge[of "uval res * 10 + unat d" ds] by (simp add: dec_val_Cons)
    then show ?thesis using True r q by auto
  next
    case False
    then have qv: "uval q = uval res * 10 + unat d" "length q = length res" using v w d by simp_all
    then have "q \<noteq> []" using Cons.prems by auto
    then show ?thesis using False r q Cons.IH[of q] qv by (simp add: dec_val_Cons)
  qed
qed

lemma decimal_digits: "list_all (\<lambda>b. 48 \<le> b \<and> b \<le> 57) (decimal v)"
proof (induction v rule: decimal.induct)
  case (1 v)
  have "(48 :: u8) \<le> of_nat (48 + v mod 10) \<and> of_nat (48 + v mod 10) \<le> (57 :: u8)" for v :: nat
  proof -
    have "unat (of_nat (48 + v mod 10) :: u8) = 48 + v mod 10"
      using mod_less_divisor[of 10 v] by (subst unat_of_nat) simp
    then show ?thesis using mod_less_divisor[of 10 v] by (auto simp: word_le_nat_alt simp del: of_nat_add)
  qed
  from this[of v] 1 show ?case by (subst decimal.simps) (auto simp: mod_less)
qed

lemma dec_val_decimal: "dec_val 0 (map (\<lambda>b. b - 48) (decimal v)) = v"
proof (induction v rule: decimal.induct)
  case (1 v)
  have d: "unat (of_nat (48 + d) - 48 :: u8) = d" if "d < 10" for d
  proof -
    have "(of_nat (48 + d) - 48 :: u8) = of_nat d" by simp
    then show ?thesis using that by (simp add: unat_of_nat)
  qed
  show ?case
  proof (cases "v < 10")
    case True
    then show ?thesis using d[of v] by (simp add: decimal.simps[of v] dec_val_def)
  next
    case False
    then show ?thesis using d[of "v mod 10"] 1 by (simp add: decimal.simps[of v] dec_val_def)
  qed
qed

lemma display_loop_val: "uval c \<noteq> 0 \<Longrightarrow> display_loop c s = Some (decimal (uval c) @ s)"
proof (induction c s rule: display_loop.induct)
  case (1 c s)
  then have nz: "\<not> uint_is_zero c" by (simp add: uint_is_zero_iff)
  then obtain q r where qr: "uint_div c (uint_from_u64 (length c) 10) = Some q"
    "uint_rem c (uint_from_u64 (length c) 10) = Some r"
    "uval q = uval c div 10" "uval r = uval c mod 10" "length q = length c" "length r = length c"
    using uint_div_ten by blast
  have lr: "unat (low_u32 r) = uval c mod 10"
  proof -
    obtain x xs where x: "r = x # xs" using qr(6) nz by (cases r) (auto simp: uint_is_zero_def)
    have "uval r < 2 ^ 64" using qr(4) by (simp add: mod_less_divisor[THEN order_less_le_trans])
    then have "uval r = unat x" by (cases "uval xs") (simp_all add: x)
    then show ?thesis using qr(4) by (simp add: x low_u32_def unsigned_ucast_eq take_bit_eq_mod)
  qed
  have step: "display_loop c s = display_loop q (decimal (uval c mod 10) @ s)"
    using nz qr lr by (subst display_loop.simps) simp
  show ?case
  proof (cases "uval c < 10")
    case True
    then have "uint_is_zero q" using qr(3) by (simp add: uint_is_zero_iff)
    then show ?thesis using step True by (simp add: display_loop.simps)
  next
    case False
    then have "display_loop q (decimal (uval c mod 10) @ s) = Some (decimal (uval q) @ decimal (uval c mod 10) @ s)"
      using "1.IH"[OF nz qr(2,1)] qr(3) lr by simp
    moreover have "decimal (uval c) = decimal (uval c div 10) @ decimal (uval c mod 10)"
      using False by (simp add: decimal.simps[of "uval c"] decimal.simps[of "uval c mod 10"])
    ultimately show ?thesis using step qr(3) by simp
  qed
qed

lemma display_val: "a \<noteq> [] \<Longrightarrow> display a = Some (decimal (uval a))"
  by (cases "uval a = 0") (simp_all add: display_def uint_is_zero_iff display_loop_val decimal.simps[of 0])

subsection \<open>Properties\<close>

text \<open>
  A number written to a big-endian buffer of its width and read back is the same number, any
  shorter byte string reads as its big-endian value, and a longer one panics.\<close>

theorem uint_bytes_roundtrip:
  assumes "big_endian bo"
  shows "Option.bind (to_big_endian bo a (8 * length a)) (from_bytes (length a)) = Some a \<and>
    map_option uval (from_bytes n bs) = (if length bs \<le> 8 * n then Some (be_val bs) else None)"
proof
  have "(256 :: nat) ^ (8 * length a) = 2 ^ (64 * length a)" using power_mult[of "2 :: nat" 8 "8 * length a"] by simp
  then have "be_val (be_bytes (8 * length a) (uval a)) = uval a"
    using uval_bound[of a] by simp
  then show "Option.bind (to_big_endian bo a (8 * length a)) (from_bytes (length a)) = Some a"
    by (simp add: to_big_endian_val[OF assms] from_bytes_val)
  have "be_val bs < 2 ^ (64 * n)" if "length bs \<le> 8 * n"
  proof -
    have "be_val bs < 2 ^ (8 * length bs)" using be_val_less[of bs] by (simp add: power_mult)
    also have "\<dots> \<le> 2 ^ (64 * n)" using that by (intro power_increasing) simp_all
    finally show ?thesis .
  qed
  then show "map_option uval (from_bytes n bs) = (if length bs \<le> 8 * n then Some (be_val bs) else None)"
    by (simp add: from_bytes_val) (simp add: from_bytes_def)
qed

theorem uint_bytes_roundtrip_witness:
  "Option.bind (to_big_endian byteorder_be [7, 1, 0, 9] (8 * length [7 :: u64, 1, 0, 9])) (from_bytes (length [7 :: u64, 1, 0, 9])) = Some [7, 1, 0, 9]"
  using uint_bytes_roundtrip[OF big_endian_byteorder_be] by blast

text \<open>
  \<open>Display\<close> prints the decimal digits of the number, and \<open>from_dec_str\<close> of them returns it: the
  loops of divisions terminate and no division panics.\<close>

theorem uint_decimal_roundtrip:
  assumes "a \<noteq> []"
  shows "\<exists>s. display a = Some s \<and> dec_val 0 (map (\<lambda>b. b - 48) s) = uval a \<and>
    from_dec_str (length a) s = Inr a"
proof -
  have "uint_zero (length a) \<noteq> []" using assms by (metis length_uint_consts(1) length_0_conv)
  then have "from_dec_str (length a) (decimal (uval a)) = Inr a"
    using uval_bound[of a] by (simp add: from_dec_str_def decimal_digits dec_loop_val dec_val_decimal)
  then show ?thesis by (simp add: display_val[OF assms] dec_val_decimal)
qed

theorem uint_decimal_roundtrip_witness:
  "\<exists>s. display [1, 1] = Some s \<and> dec_val 0 (map (\<lambda>b. b - 48) s) = uval [1, 1] \<and>
    from_dec_str (length [1 :: u64, 1]) s = Inr [1, 1]"
  by (rule uint_decimal_roundtrip) simp

text \<open>
  \<open>from_dec_str\<close> accepts exactly the strings of digits whose number fits: other characters and
  numbers too long for the width are the two errors.\<close>

theorem from_dec_str_spec:
  assumes "0 < n"
  shows "from_dec_str n s =
    (if \<not> list_all (\<lambda>b. 48 \<le> b \<and> b \<le> 57) s then Inl InvalidCharacter
     else if dec_val 0 (map (\<lambda>b. b - 48) s) < 2 ^ (64 * n)
     then Inr (uint_of n (dec_val 0 (map (\<lambda>b. b - 48) s))) else Inl InvalidLength)"
proof -
  have "uint_zero n \<noteq> []" using assms by (metis length_uint_consts(1) less_irrefl list.size(3))
  then show ?thesis by (simp add: from_dec_str_def dec_loop_val)
qed

theorem from_dec_str_spec_witness: "from_dec_str 2 [49, 97] = Inl InvalidCharacter"
  using from_dec_str_spec[of 2 "[49, 97]"] by (simp add: word_le_nat_alt)

end
