(* ===== verification/RlpStream.thy ===== *)
theory RlpStream
  imports Prelude
begin

section \<open>RLP: the streaming encoder\<close>

text \<open>
  \<open>util/rlp/src/stream.rs\<close>. \<open>RlpStream\<close> writes values and lists into one buffer; the header of a
  list is inserted in front of its payload when the last item arrives, and that may finish the
  enclosing lists in turn. The stack of unfinished lists is kept with the innermost list first.
  A panic is \<open>None\<close>. The second half states what the stream promises: an abstract machine whose
  frames hold the payloads of the open lists, refined by every operation (\<open>rep\<close>), and the contract
  \<open>emits\<close> of an encodable value, closed under values and lists.
\<close>

subsection \<open>Definitions\<close>

record list_info =
  position :: nat
  current :: nat
  max_items :: "nat option"

record rlp_stream =
  unfinished_lists :: "list_info list"
  buffer :: bytes
  finished_list :: bool

definition list_info_new :: "nat \<Rightarrow> nat option \<Rightarrow> list_info" where
  "list_info_new pos mx = \<lparr>position = pos, current = 0, max_items = mx\<rparr>"

definition stream_new :: rlp_stream where
  "stream_new = \<lparr>unfinished_lists = [], buffer = [], finished_list = False\<rparr>"

definition insert_slice :: "nat \<Rightarrow> bytes \<Rightarrow> bytes \<Rightarrow> bytes" where
  "insert_slice pos bs buf = take pos buf @ bs @ drop pos buf"

text \<open>\<open>insert_size\<close> casts the length to a \<open>u32\<close>.\<close>

definition insert_size :: "byteorder \<Rightarrow> nat \<Rightarrow> nat \<Rightarrow> bytes \<Rightarrow> bytes \<times> u8" where
  "insert_size bo len pos buf =
     (let sz = (of_nat len :: u32);
          leading_empty_bytes = leading_zeros sz div 8;
          size_bytes = (4 :: u8) - of_nat leading_empty_bytes
      in (insert_slice pos (drop leading_empty_bytes (write_u32 bo sz)) buf, size_bytes))"

definition insert_list_payload :: "byteorder \<Rightarrow> nat \<Rightarrow> nat \<Rightarrow> bytes \<Rightarrow> bytes" where
  "insert_list_payload bo len pos buf =
     (if len \<le> 55 then buf[pos - 1 := 0xc0 + of_nat len]
      else let (buf, inserted_bytes) = insert_size bo len pos buf
           in buf[pos - 1 := 0xf7 + inserted_bytes])"

definition encode_value :: "byteorder \<Rightarrow> bytes \<Rightarrow> rlp_stream \<Rightarrow> rlp_stream option" where
  "encode_value bo value s =
     (let buf = buffer s; len = length value in Some (s\<lparr>buffer :=
        (if len = 0 then buf @ [0x80]
         else if len = 1 \<and> value ! 0 < 0x80 then buf @ [value ! 0]
         else if len \<le> 55 then (buf @ [0x80 + of_nat len]) @ value
         else let buf = buf @ [0]; pos = length buf;
                  (buf, inserted_bytes) = insert_size bo len pos buf
              in buf[pos - 1 := 0xb7 + inserted_bytes] @ value)\<rparr>))"

function note_appended :: "byteorder \<Rightarrow> nat \<Rightarrow> rlp_stream \<Rightarrow> rlp_stream option" where
  "note_appended bo inserted_items s =
     (case unfinished_lists s of
        [] \<Rightarrow> Some s
      | x # rest \<Rightarrow>
          (case usize_add (current x) inserted_items of
             None \<Rightarrow> None
           | Some cur \<Rightarrow>
               if \<exists>m. max_items x = Some m \<and> cur > m then None
               else if max_items x = Some cur
               then (case note_appended bo 1 (s\<lparr>unfinished_lists := rest,
                            buffer := insert_list_payload bo (length (buffer s) - position x) (position x) (buffer s)\<rparr>) of
                       None \<Rightarrow> None
                     | Some s' \<Rightarrow> Some (s'\<lparr>finished_list := True\<rparr>))
               else Some (s\<lparr>unfinished_lists := x\<lparr>current := cur\<rparr> # rest, finished_list := False\<rparr>)))"
  by pat_completeness auto

termination note_appended
  by (relation "measure (\<lambda>(_, _, s). length (unfinished_lists s))") auto

declare note_appended.simps [simp del]

definition append_value ::
    "byteorder \<Rightarrow> (rlp_stream \<Rightarrow> rlp_stream option) \<Rightarrow> rlp_stream \<Rightarrow> rlp_stream option" where
  "append_value bo rlp_append s = do {
     s \<leftarrow> rlp_append (s\<lparr>finished_list := False\<rparr>);
     if \<not> finished_list s then note_appended bo 1 s else Some s }"

definition begin_list :: "byteorder \<Rightarrow> nat \<Rightarrow> rlp_stream \<Rightarrow> rlp_stream option" where
  "begin_list bo len s =
     (let s = s\<lparr>finished_list := False\<rparr> in
      if len = 0
      then do { s \<leftarrow> note_appended bo 1 (s\<lparr>buffer := buffer s @ [0xc0]\<rparr>); Some (s\<lparr>finished_list := True\<rparr>) }
      else let buf = buffer s @ [0]
           in Some (s\<lparr>buffer := buf, unfinished_lists := list_info_new (length buf) (Some len) # unfinished_lists s\<rparr>))"

fun append_all ::
    "byteorder \<Rightarrow> (rlp_stream \<Rightarrow> rlp_stream option) list \<Rightarrow> rlp_stream \<Rightarrow> rlp_stream option" where
  "append_all bo [] s = Some s"
| "append_all bo (f # fs) s = do { s \<leftarrow> append_value bo f s; append_all bo fs s }"

definition append_list ::
    "byteorder \<Rightarrow> ('a \<Rightarrow> rlp_stream \<Rightarrow> rlp_stream option) \<Rightarrow> 'a list \<Rightarrow> rlp_stream \<Rightarrow> rlp_stream option" where
  "append_list bo rlp_append values s = do {
     s \<leftarrow> begin_list bo (length values) s;
     append_all bo (map rlp_append values) s }"

definition append_internal ::
    "(rlp_stream \<Rightarrow> rlp_stream option) \<Rightarrow> rlp_stream \<Rightarrow> rlp_stream option" where
  "append_internal rlp_append s = rlp_append s"

definition stream_new_list :: "byteorder \<Rightarrow> nat \<Rightarrow> rlp_stream option" where
  "stream_new_list bo len = begin_list bo len stream_new"

definition begin_unbounded_list :: "rlp_stream \<Rightarrow> rlp_stream" where
  "begin_unbounded_list s =
     (let buf = buffer s @ [0]
      in s\<lparr>finished_list := False, buffer := buf,
           unfinished_lists := list_info_new (length buf) None # unfinished_lists s\<rparr>)"

definition append_empty_data :: "byteorder \<Rightarrow> rlp_stream \<Rightarrow> rlp_stream option" where
  "append_empty_data bo s = note_appended bo 1 (s\<lparr>buffer := buffer s @ [0x80]\<rparr>)"

definition append_raw :: "byteorder \<Rightarrow> bytes \<Rightarrow> nat \<Rightarrow> rlp_stream \<Rightarrow> rlp_stream option" where
  "append_raw bo bs item_count s = note_appended bo item_count (s\<lparr>buffer := buffer s @ bs\<rparr>)"

definition estimate_size :: "nat \<Rightarrow> rlp_stream \<Rightarrow> nat" where
  "estimate_size add s =
     (let total_size = length (buffer s) + add
      in foldl (\<lambda>base_size lst.
           let len = total_size - position lst in
           if len > 55
           then base_size + (8 - leading_zeros (of_nat len :: u64) div 8)
           else base_size) total_size (unfinished_lists s))"

definition append_raw_checked ::
    "byteorder \<Rightarrow> bytes \<Rightarrow> nat \<Rightarrow> nat \<Rightarrow> rlp_stream \<Rightarrow> (bool \<times> rlp_stream) option" where
  "append_raw_checked bo bs item_count max_size s =
     (if estimate_size (length bs) s > max_size then Some (False, s)
      else do { s \<leftarrow> append_raw bo bs item_count s; Some (True, s) })"

definition stream_len :: "rlp_stream \<Rightarrow> nat" where
  "stream_len s = estimate_size 0 s"

definition stream_clear :: "rlp_stream \<Rightarrow> rlp_stream" where
  "stream_clear s = s\<lparr>buffer := [], unfinished_lists := []\<rparr>"

definition is_finished :: "rlp_stream \<Rightarrow> bool" where
  "is_finished s \<longleftrightarrow> length (unfinished_lists s) = 0"

definition stream_out :: "rlp_stream \<Rightarrow> bytes option" where
  "stream_out s = (if is_finished s then Some (buffer s) else None)"

definition drain :: "rlp_stream \<Rightarrow> bytes option" where
  "drain s = (if is_finished s then Some (buffer s) else None)"

definition complete_unbounded_list :: "byteorder \<Rightarrow> rlp_stream \<Rightarrow> rlp_stream option" where
  "complete_unbounded_list bo s =
     (case unfinished_lists s of
        [] \<Rightarrow> None
      | x # rest \<Rightarrow>
          if max_items x \<noteq> None then None
          else note_appended bo 1 (s\<lparr>unfinished_lists := rest,
                 buffer := insert_list_payload bo (length (buffer s) - position x) (position x) (buffer s)\<rparr>))"

text \<open>\<open>rlp::encode\<close>, \<open>rlp::encode_list\<close> and \<open>Encodable::rlp_bytes\<close>.\<close>

definition encode :: "byteorder \<Rightarrow> (rlp_stream \<Rightarrow> rlp_stream option) \<Rightarrow> bytes option" where
  "encode bo rlp_append = do { s \<leftarrow> append_value bo rlp_append stream_new; drain s }"

definition encode_list ::
    "byteorder \<Rightarrow> ('a \<Rightarrow> rlp_stream \<Rightarrow> rlp_stream option) \<Rightarrow> 'a list \<Rightarrow> bytes option" where
  "encode_list bo rlp_append values = do { s \<leftarrow> append_list bo rlp_append values stream_new; drain s }"

definition rlp_bytes :: "(rlp_stream \<Rightarrow> rlp_stream option) \<Rightarrow> bytes option" where
  "rlp_bytes rlp_append = do { s \<leftarrow> rlp_append stream_new; drain s }"

subsection \<open>What the stream promises\<close>

text \<open>The header of a value (\<open>base\<close> 0x80) or of a list (\<open>base\<close> 0xc0) of \<open>len\<close> bytes.\<close>

definition rlp_header :: "u8 \<Rightarrow> nat \<Rightarrow> bytes" where
  "rlp_header base len =
     (if len \<le> 55 then [base + of_nat len]
      else (base + 55 + of_nat (nbytes len)) # min_be len)"

definition data_bytes :: "bytes \<Rightarrow> bytes" where
  "data_bytes bs = (if length bs = 1 \<and> hd bs < 0x80 then bs else rlp_header 0x80 (length bs) @ bs)"

definition list_bytes :: "bytes \<Rightarrow> bytes" where
  "list_bytes payload = rlp_header 0xc0 (length payload) @ payload"

text \<open>What the code writes: the length is cast to 32 bits in the long form.\<close>

definition code_len :: "nat \<Rightarrow> nat" where
  "code_len len = (if len \<le> 55 then len else len mod 2 ^ 32)"

definition code_header :: "u8 \<Rightarrow> nat \<Rightarrow> bytes" where
  "code_header base len =
     (if len \<le> 55 then [base + of_nat len]
      else (base + 55 + of_nat (nbytes (len mod 2 ^ 32))) # min_be (len mod 2 ^ 32))"

lemma code_header_small: "len < 2 ^ 32 \<Longrightarrow> code_header base len = rlp_header base len"
  by (simp add: code_header_def rlp_header_def)

definition code_data :: "bytes \<Rightarrow> bytes" where
  "code_data bs = (if length bs = 1 \<and> hd bs < 0x80 then bs else code_header 0x80 (length bs) @ bs)"

definition code_list :: "bytes \<Rightarrow> bytes" where
  "code_list payload = code_header 0xc0 (length payload) @ payload"

lemma code_data_small: "length bs < 2 ^ 32 \<Longrightarrow> code_data bs = data_bytes bs"
  by (simp add: code_data_def data_bytes_def code_header_small)

lemma code_list_small: "length p < 2 ^ 32 \<Longrightarrow> code_list p = list_bytes p"
  by (simp add: code_list_def list_bytes_def code_header_small)

text \<open>The abstract machine: the finished bytes and a frame (payload, items, expected) per open list.\<close>

type_synonym frame = "bytes \<times> nat \<times> nat option"

fun aput :: "bytes \<Rightarrow> nat \<Rightarrow> bytes \<Rightarrow> frame list \<Rightarrow> (bytes \<times> frame list) option" where
  "aput e n root [] = Some (root @ e, [])"
| "aput e n root ((c, k, m) # fs) =
     (if 2 ^ 64 \<le> k + n then None
      else if \<exists>x. m = Some x \<and> k + n > x then None
      else if m = Some (k + n) then aput (code_list (c @ e)) 1 root fs
      else Some (root, (c @ e, k + n, m) # fs))"

fun conc_buf :: "bytes \<Rightarrow> frame list \<Rightarrow> bytes" where
  "conc_buf root [] = root"
| "conc_buf root ((c, k, m) # fs) = conc_buf root fs @ [0] @ c"

fun conc_lists :: "bytes \<Rightarrow> frame list \<Rightarrow> list_info list" where
  "conc_lists root [] = []"
| "conc_lists root ((c, k, m) # fs) =
     \<lparr>position = length (conc_buf root fs) + 1, current = k, max_items = m\<rparr> # conc_lists root fs"

definition rep :: "rlp_stream \<Rightarrow> bytes \<Rightarrow> frame list \<Rightarrow> bool" where
  "rep s root fs \<longleftrightarrow> unfinished_lists s = conc_lists root fs \<and> buffer s = conc_buf root fs"

fun closing :: "nat \<Rightarrow> frame list \<Rightarrow> bool" where
  "closing n [] = False"
| "closing n ((c, k, m) # fs) = (m = Some (k + n))"

subsection \<open>The operations refine the abstract machine\<close>

lemma insert_size_at:
  assumes "big_endian bo"
  shows "insert_size bo len (length pre) (pre @ rest) =
    (pre @ min_be (len mod 2 ^ 32) @ rest, of_nat (nbytes (len mod 2 ^ 32)))"
proof -
  let ?w = "of_nat len :: u32"
  have w: "unat ?w = len mod 2 ^ 32" by (simp add: unat_of_nat)
  note lz = leading_zeros_bytes[where w = ?w and n = 4, simplified]
  have "(4 :: u8) - of_nat (4 - nbytes (unat ?w)) = of_nat (nbytes (unat ?w))"
    using lz(2) by (simp add: of_nat_diff)
  then show ?thesis
    using assms lz by (simp add: insert_size_def insert_slice_def model_simps w Let_def)
qed

lemma insert_list_payload_at:
  assumes "big_endian bo"
  shows "insert_list_payload bo (length c) (length b + 1) (b @ [0] @ c) = b @ code_list c"
proof (cases "length c \<le> 55")
  case True
  then show ?thesis
    by (simp add: insert_list_payload_def code_list_def code_header_def list_update_append)
next
  case False
  have "insert_size bo (length c) (length b + 1) (b @ [0] @ c) =
    ((b @ [0]) @ min_be (length c mod 2 ^ 32) @ c, of_nat (nbytes (length c mod 2 ^ 32)))"
    using insert_size_at[OF assms, of "length c" "b @ [0]" c] by simp
  then show ?thesis using False
    by (simp add: insert_list_payload_def code_list_def code_header_def list_update_append)
qed

lemma encode_value_at:
  assumes "big_endian bo"
  shows "encode_value bo v s = Some (s\<lparr>buffer := buffer s @ code_data v\<rparr>)"
proof (cases "length v \<le> 55")
  case True
  then show ?thesis
    by (cases v) (auto simp: encode_value_def code_data_def code_header_def)
next
  case False
  have "insert_size bo (length v) (length (buffer s @ [0])) ((buffer s @ [0]) @ []) =
    ((buffer s @ [0]) @ min_be (length v mod 2 ^ 32) @ [], of_nat (nbytes (length v mod 2 ^ 32)))"
    by (rule insert_size_at[OF assms])
  then show ?thesis using False
    by (auto simp: encode_value_def code_data_def code_header_def list_update_append Let_def)
qed

text \<open>The code's stream is in a state that represents \<open>r\<close> (or panicked with it).\<close>

definition refines :: "rlp_stream option \<Rightarrow> (bytes \<times> frame list) option \<Rightarrow> bool \<Rightarrow> bool" where
  "refines res r fin \<longleftrightarrow>
     (case r of None \<Rightarrow> res = None
      | Some (root, fs) \<Rightarrow> (\<exists>s. res = Some s \<and> rep s root fs \<and> (fin \<longrightarrow> finished_list s)))"

lemma refines_None [simp]: "refines None None fin"
  by (simp add: refines_def)

lemma refines_Some: "rep s root fs \<Longrightarrow> (fin \<Longrightarrow> finished_list s) \<Longrightarrow> refines (Some s) (Some (root, fs)) fin"
  by (simp add: refines_def)

lemma rep_flag [simp]: "rep (s\<lparr>finished_list := b\<rparr>) root fs \<longleftrightarrow> rep s root fs"
  by (simp add: rep_def)

lemma note_appended_refines:
  assumes "big_endian bo" and "unfinished_lists s = conc_lists root fs" and "buffer s = conc_buf root fs @ e"
  shows "refines (note_appended bo n s) (aput e n root fs) (closing n fs)"
  using assms(2,3)
proof (induction e n root fs arbitrary: s rule: aput.induct)
  case (1 e n root)
  then show ?case by (simp add: note_appended.simps[of bo n s] refines_def rep_def)
next
  case (2 e n root c k m fs)
  let ?x = "\<lparr>position = length (conc_buf root fs) + 1, current = k, max_items = m\<rparr>"
  have u: "unfinished_lists s = ?x # conc_lists root fs"
    and b: "buffer s = conc_buf root fs @ [0] @ (c @ e)" using "2.prems" by simp_all
  consider (ov) "2 ^ 64 \<le> k + n" | (more) "k + n < 2 ^ 64" "\<exists>x. m = Some x \<and> k + n > x"
    | (close) "k + n < 2 ^ 64" "m = Some (k + n)"
    | (stay) "k + n < 2 ^ 64" "\<not> (\<exists>x. m = Some x \<and> k + n > x)" "m \<noteq> Some (k + n)" by fastforce
  then show ?case
  proof cases
    case ov
    then show ?thesis by (simp add: note_appended.simps[of bo n s] u usize_add_def)
  next
    case more
    then show ?thesis by (auto simp: note_appended.simps[of bo n s] u usize_add_def)
  next
    case close
    have p: "insert_list_payload bo (length (buffer s) - position ?x) (position ?x) (buffer s) =
        conc_buf root fs @ code_list (c @ e)"
      using insert_list_payload_at[OF assms(1), of "c @ e" "conc_buf root fs"] by (simp add: b)
    have IH: "refines (note_appended bo 1 (s\<lparr>unfinished_lists := conc_lists root fs,
        buffer := conc_buf root fs @ code_list (c @ e)\<rparr>)) (aput (code_list (c @ e)) 1 root fs) (closing 1 fs)"
      using close by (intro "2.IH") auto
    then show ?thesis using close p
      by (auto simp: note_appended.simps[of bo n s] u usize_add_def refines_def split: option.splits)
  next
    case stay
    then show ?thesis
      by (auto simp: note_appended.simps[of bo n s] u usize_add_def refines_def rep_def b)
  qed
qed

text \<open>An encodable value emits \<open>e\<close> when appending it is one item of the abstract machine.\<close>

definition emits :: "byteorder \<Rightarrow> (rlp_stream \<Rightarrow> rlp_stream option) \<Rightarrow> bytes \<Rightarrow> bool" where
  "emits bo f e \<longleftrightarrow>
     (\<forall>s root fs. rep s root fs \<longrightarrow> refines (append_value bo f s) (aput e 1 root fs) (closing 1 fs))"

lemma emitsD: "emits bo f e \<Longrightarrow> rep s root fs \<Longrightarrow> refines (append_value bo f s) (aput e 1 root fs) (closing 1 fs)"
  by (simp add: emits_def)

lemma emits_value:
  assumes "big_endian bo"
  shows "emits bo (encode_value bo v) (code_data v)"
proof -
  have "refines (append_value bo (encode_value bo v) s) (aput (code_data v) 1 root fs) (closing 1 fs)"
    if "rep s root fs" for s root fs
    using note_appended_refines[OF assms, of "s\<lparr>finished_list := False, buffer := buffer s @ code_data v\<rparr>" root fs "code_data v" 1]
      that by (simp add: append_value_def encode_value_at[OF assms] rep_def)
  then show ?thesis by (simp add: emits_def)
qed

lemma append_raw_refines:
  assumes "big_endian bo" and "rep s root fs"
  shows "refines (append_raw bo bs n s) (aput bs n root fs) (closing n fs)"
  using note_appended_refines[OF assms(1), of "s\<lparr>buffer := buffer s @ bs\<rparr>" root fs bs n] assms(2)
  by (simp add: append_raw_def rep_def)

text \<open>Appending the items of a list: the frame collects them, the last one closes it.\<close>

lemma append_all_refines:
  assumes "list_all2 (emits bo) gs es" and "rep s root ((c, k, Some (k + length gs)) # fs)"
    and "gs \<noteq> []" and "k + length gs < 2 ^ 64"
  shows "refines (append_all bo gs s) (aput (code_list (c @ concat es)) 1 root fs) True"
  using assms
proof (induction gs es arbitrary: s c k rule: list_all2_induct)
  case Nil
  then show ?case by simp
next
  case (Cons g gs e es)
  let ?n = "Suc (length gs)"
  have r: "refines (append_value bo g s) (aput e 1 root ((c, k, Some (k + ?n)) # fs))
      (closing 1 ((c, k, Some (k + ?n)) # fs))"
    using Cons.hyps(1) Cons.prems(1) by (intro emitsD) simp_all
  show ?case
  proof (cases "gs = []")
    case True
    then have "es = []" using Cons.hyps(2) by simp
    then show ?thesis using r True Cons.prems by (auto simp: refines_def split: option.splits)
  next
    case False
    then have "aput e 1 root ((c, k, Some (k + ?n)) # fs) = Some (root, (c @ e, k + 1, Some (k + 1 + length gs)) # fs)"
      using Cons.prems(3) by (cases gs) auto
    then obtain s' where s': "append_value bo g s = Some s'"
      "rep s' root ((c @ e, k + 1, Some (k + 1 + length gs)) # fs)"
      using r by (auto simp: refines_def)
    show ?thesis using Cons.IH[OF s'(2) False] Cons.prems(3) by (simp add: s'(1))
  qed
qed

text \<open>\<open>begin_list\<close> of the number of items, then the items: one item of the enclosing list.\<close>

definition list_body :: "byteorder \<Rightarrow> (rlp_stream \<Rightarrow> rlp_stream option) list \<Rightarrow> rlp_stream \<Rightarrow> rlp_stream option" where
  "list_body bo gs s = do { s \<leftarrow> begin_list bo (length gs) s; append_all bo gs s }"

lemma list_body_refines:
  assumes "big_endian bo" and "list_all2 (emits bo) gs es" and "length gs < 2 ^ 64" and "rep s root fs"
  shows "refines (list_body bo gs s) (aput (code_list (concat es)) 1 root fs) True"
proof (cases "gs = []")
  case True
  then have "es = []" using assms(2) by simp
  moreover have "refines (note_appended bo 1 (s\<lparr>finished_list := False, buffer := buffer s @ [0xc0]\<rparr>))
      (aput [0xc0] 1 root fs) (closing 1 fs)"
    using assms(4) by (intro note_appended_refines[OF assms(1)]) (simp_all add: rep_def)
  ultimately show ?thesis using True
    by (auto simp: list_body_def begin_list_def Let_def refines_def code_list_def code_header_def
      split: option.splits)
next
  case False
  let ?s = "s\<lparr>finished_list := False, buffer := buffer s @ [0],
    unfinished_lists := list_info_new (length (buffer s @ [0])) (Some (length gs)) # unfinished_lists s\<rparr>"
  have "refines (append_all bo gs ?s) (aput (code_list ([] @ concat es)) 1 root fs) True"
    using assms False by (intro append_all_refines[where k = 0]) (simp_all add: rep_def list_info_new_def)
  then show ?thesis using False by (simp add: list_body_def begin_list_def Let_def)
qed

lemma append_finished:
  assumes "\<And>s root fs. rep s root fs \<Longrightarrow> refines (f s) (aput e 1 root fs) True"
  shows "emits bo f e"
proof -
  have "refines (append_value bo f s) (aput e 1 root fs) (closing 1 fs)" if "rep s root fs" for s root fs
    using assms[of "s\<lparr>finished_list := False\<rparr>" root fs] that
    by (auto simp: append_value_def refines_def split: option.splits)
  then show ?thesis by (simp add: emits_def)
qed

lemma emits_list:
  assumes "big_endian bo" and "list_all2 (emits bo) gs es" and "length gs < 2 ^ 64"
  shows "emits bo (list_body bo gs) (code_list (concat es))"
  using list_body_refines[OF assms] by (rule append_finished)

lemma append_list_body: "append_list bo f xs = list_body bo (map f xs)"
  by (rule ext) (simp add: append_list_def list_body_def)

lemma encode_emits:
  assumes "emits bo f e"
  shows "encode bo f = Some e"
proof -
  have "rep stream_new [] []" by (simp add: rep_def stream_new_def)
  from emitsD[OF assms this] show ?thesis
    by (auto simp: encode_def refines_def rep_def drain_def is_finished_def)
qed

lemma rlp_bytes_list:
  assumes "big_endian bo" and "list_all2 (emits bo) gs es" and "length gs < 2 ^ 64"
  shows "rlp_bytes (list_body bo gs) = Some (code_list (concat es))"
proof -
  have "rep stream_new [] []" by (simp add: rep_def stream_new_def)
  from list_body_refines[OF assms this] show ?thesis
    by (auto simp: rlp_bytes_def refines_def rep_def drain_def is_finished_def)
qed

end
