(* ===== verification/RlpDecode.thy ===== *)
theory RlpDecode
  imports RlpStream
begin

section \<open>RLP: the decoder\<close>

text \<open>
  \<open>util/rlp/src/untrusted_rlp.rs\<close> and \<open>decode_usize\<close> of \<open>impls.rs\<close>. Decoding returns a value, one of
  the errors of \<open>DecoderError\<close>, or panics. \<open>UntrustedRlp\<close> is a byte slice with two caches in cells:
  the offset of the item looked up last and the number of items. The operations that use a cache
  return the new state. \<open>usize\<close> values are naturals below \<open>2 ^ 64\<close>.
\<close>

subsection \<open>Outcomes\<close>

datatype decoder_error =
    RlpIsTooBig | RlpIsTooShort | RlpExpectedToBeList | RlpExpectedToBeData | RlpIncorrectListLen
  | RlpDataLenWithZeroPrefix | RlpListLenWithZeroPrefix | RlpInvalidIndirection
  | RlpInconsistentLengthAndData | RlpInvalidLength | Custom string

datatype 'a outcome = Done 'a | Err decoder_error | Panic

text \<open>The operator \<open>?\<close>.\<close>

fun try_then :: "'a outcome \<Rightarrow> ('a \<Rightarrow> 'b outcome) \<Rightarrow> 'b outcome" where
  "try_then (Done x) f = f x"
| "try_then (Err e) f = Err e"
| "try_then Panic f = Panic"

definition outcome_ok :: "'a outcome \<Rightarrow> 'a option" where
  "outcome_ok r = (case r of Done x \<Rightarrow> Some x | _ \<Rightarrow> None)"

subsection \<open>Headers\<close>

definition decode_usize :: "bytes \<Rightarrow> nat outcome" where
  "decode_usize bs =
     (let l = length bs in
      if l \<le> 8 then
        (case bs of
           [] \<Rightarrow> Panic
         | b # _ \<Rightarrow>
             if b = 0 then Err RlpInvalidIndirection
             else Done (foldl (\<lambda>res i. res + push_bit ((l - 1 - i) * 8) (unat (bs ! i))) 0 [0..<l]))
      else Err RlpIsTooBig)"

record payload_info =
  header_len :: nat
  value_len :: nat

definition payload_total :: "payload_info \<Rightarrow> nat" where
  "payload_total pi = header_len pi + value_len pi"

definition calculate_payload_info :: "bytes \<Rightarrow> nat \<Rightarrow> payload_info outcome" where
  "calculate_payload_info header_bytes len_of_len =
     (let h = 1 + len_of_len in
      if length header_bytes \<le> 1 then Err RlpIsTooShort
      else if header_bytes ! 1 = 0 then Err RlpDataLenWithZeroPrefix
      else if length header_bytes < h then Err RlpIsTooShort
      else try_then (decode_usize (take len_of_len (drop 1 header_bytes)))
             (\<lambda>v. Done \<lparr>header_len = h, value_len = v\<rparr>))"

definition payload_info_from :: "bytes \<Rightarrow> payload_info outcome" where
  "payload_info_from header_bytes =
     (case header_bytes of
        [] \<Rightarrow> Err RlpIsTooShort
      | l # _ \<Rightarrow>
          if l \<le> 0x7f then Done \<lparr>header_len = 0, value_len = 1\<rparr>
          else if l \<le> 0xb7 then Done \<lparr>header_len = 1, value_len = unat l - 0x80\<rparr>
          else if l \<le> 0xbf then calculate_payload_info header_bytes (unat l - 0xb7)
          else if l \<le> 0xf7 then Done \<lparr>header_len = 1, value_len = unat l - 0xc0\<rparr>
          else calculate_payload_info header_bytes (unat l - 0xf7))"

text \<open>\<open>BasicDecoder::payload_info\<close>, with the checked addition.\<close>

definition payload_info :: "bytes \<Rightarrow> payload_info outcome" where
  "payload_info bs =
     try_then (payload_info_from bs)
       (\<lambda>item. if payload_total item < 2 ^ 64 \<and> payload_total item \<le> length bs then Done item
               else Err RlpIsTooShort)"

definition decode_value :: "(bytes \<Rightarrow> 'a outcome) \<Rightarrow> bytes \<Rightarrow> 'a outcome" where
  "decode_value f bs =
     (case bs of
        [] \<Rightarrow> Err RlpIsTooShort
      | l # _ \<Rightarrow>
          if l \<le> 0x7f then f [l]
          else if l \<le> 0xb7 then
            (let last_index_of = 1 + unat l - 0x80 in
             if length bs < last_index_of then Err RlpInconsistentLengthAndData
             else let d = take (last_index_of - 1) (drop 1 bs) in
                  if l = 0x81 \<and> d ! 0 < 0x80 then Err RlpInvalidIndirection
                  else f d)
          else if l \<le> 0xbf then
            (let len_of_len = unat l - 0xb7; begin_of_value = 1 + len_of_len in
             if length bs < begin_of_value then Err RlpInconsistentLengthAndData
             else try_then (decode_usize (take len_of_len (drop 1 bs)))
               (\<lambda>len. if 2 ^ 64 \<le> begin_of_value + len then Err RlpInvalidLength
                      else if length bs < begin_of_value + len then Err RlpInconsistentLengthAndData
                      else f (take len (drop begin_of_value bs))))
          else Err RlpExpectedToBeData)"

subsection \<open>\<open>UntrustedRlp\<close>\<close>

record untrusted =
  rbytes :: bytes
  offset_cache :: "nat \<times> nat"
  count_cache :: "nat option"

definition usize_max :: nat where
  "usize_max = 2 ^ 64 - 1"

definition untrusted_new :: "bytes \<Rightarrow> untrusted" where
  "untrusted_new bs = \<lparr>rbytes = bs, offset_cache = (usize_max, 0), count_cache = None\<rparr>"

definition is_null :: "bytes \<Rightarrow> bool" where
  "is_null bs \<longleftrightarrow> length bs = 0"

definition is_empty :: "bytes \<Rightarrow> bool" where
  "is_empty bs \<longleftrightarrow> \<not> is_null bs \<and> (bs ! 0 = 0xc0 \<or> bs ! 0 = 0x80)"

definition is_list :: "bytes \<Rightarrow> bool" where
  "is_list bs \<longleftrightarrow> \<not> is_null bs \<and> bs ! 0 \<ge> 0xc0"

definition is_data :: "bytes \<Rightarrow> bool" where
  "is_data bs \<longleftrightarrow> \<not> is_null bs \<and> bs ! 0 < 0xc0"

text \<open>The index into the value can be out of range: a panic.\<close>

definition is_int :: "bytes \<Rightarrow> bool option" where
  "is_int bs =
     (if is_null bs then Some False
      else let b = bs ! 0 in
           if b \<le> 0x80 then Some True
           else if b \<le> 0xb7 then (if 1 < length bs then Some (bs ! 1 \<noteq> 0) else None)
           else if b \<le> 0xbf
           then (let i = 1 + unat b - 0xb7 in if i < length bs then Some (bs ! i \<noteq> 0) else None)
           else Some False)"

definition rlp_data :: "bytes \<Rightarrow> bytes outcome" where
  "rlp_data bs = try_then (payload_info bs) (\<lambda>pi. Done (take (value_len pi) (drop (header_len pi) bs)))"

definition rlp_size :: "bytes \<Rightarrow> nat" where
  "rlp_size bs =
     (if is_data bs then (case payload_info bs of Done pi \<Rightarrow> value_len pi | _ \<Rightarrow> 0) else 0)"

definition consume :: "bytes \<Rightarrow> nat \<Rightarrow> bytes outcome" where
  "consume bs len = (if length bs \<ge> len then Done (drop len bs) else Err RlpIsTooShort)"

fun consume_items :: "bytes \<Rightarrow> nat \<Rightarrow> bytes outcome" where
  "consume_items bs 0 = Done bs"
| "consume_items bs (Suc items) =
     try_then (payload_info bs) (\<lambda>i.
       try_then (consume bs (payload_total i)) (\<lambda>result. consume_items result items))"

definition consume_list_payload :: "bytes \<Rightarrow> bytes outcome" where
  "consume_list_payload bs = try_then (payload_info bs) (\<lambda>item. consume bs (header_len item))"

definition rlp_at :: "untrusted \<Rightarrow> nat \<Rightarrow> untrusted outcome \<times> untrusted" where
  "rlp_at r index =
     (if \<not> is_list (rbytes r) then (Err RlpExpectedToBeList, r)
      else
        let (c_index, c_offset) = offset_cache r;
            start = (if c_index \<le> index
                     then try_then (consume (rbytes r) c_offset) (\<lambda>b. Done (b, index - c_index))
                     else try_then (consume_list_payload (rbytes r)) (\<lambda>b. Done (b, index)))
        in case try_then start (\<lambda>(b, to_skip). consume_items b to_skip) of
             Err e \<Rightarrow> (Err e, r)
           | Panic \<Rightarrow> (Panic, r)
           | Done b \<Rightarrow>
               (try_then (payload_info b) (\<lambda>found. Done (untrusted_new (take (payload_total found) b))),
                r\<lparr>offset_cache := (index, length (rbytes r) - length b)\<rparr>))"

text \<open>
  The iterator stops at the first index that is not found. Every item takes at least one byte, so
  one more step than there are bytes is enough (\<open>iter_loop_fuel\<close>).
\<close>

fun iter_loop :: "nat \<Rightarrow> untrusted \<Rightarrow> nat \<Rightarrow> untrusted list \<times> untrusted" where
  "iter_loop 0 r index = ([], r)"
| "iter_loop (Suc fuel) r index =
     (case rlp_at r index of
        (Done item, r') \<Rightarrow> (let (items, r'') = iter_loop fuel r' (index + 1) in (item # items, r''))
      | (_, r') \<Rightarrow> ([], r'))"

definition rlp_iter :: "untrusted \<Rightarrow> untrusted list \<times> untrusted" where
  "rlp_iter r = iter_loop (length (rbytes r) + 1) r 0"

definition item_count :: "untrusted \<Rightarrow> nat outcome \<times> untrusted" where
  "item_count r =
     (if is_list (rbytes r)
      then (case count_cache r of
              Some c \<Rightarrow> (Done c, r)
            | None \<Rightarrow>
                let (items, r') = rlp_iter r; c = length items
                in (Done c, r'\<lparr>count_cache := Some c\<rparr>))
      else (Err RlpExpectedToBeList, r))"

datatype prototype = Null | Data nat | PList nat

definition rlp_prototype :: "untrusted \<Rightarrow> prototype outcome \<times> untrusted" where
  "rlp_prototype r =
     (if is_data (rbytes r) then (Done (Data (rlp_size (rbytes r))), r)
      else if is_list (rbytes r)
      then (case item_count r of (res, r') \<Rightarrow> (try_then res (\<lambda>c. Done (PList c)), r'))
      else (Done Null, r))"

text \<open>Decoders of values take the slice; \<open>as_list\<close> stops at the first error.\<close>

fun collect :: "('a \<Rightarrow> 'b outcome) \<Rightarrow> 'a list \<Rightarrow> 'b list outcome" where
  "collect f [] = Done []"
| "collect f (x # xs) = try_then (f x) (\<lambda>y. try_then (collect f xs) (\<lambda>ys. Done (y # ys)))"

definition as_list :: "(bytes \<Rightarrow> 'a outcome) \<Rightarrow> untrusted \<Rightarrow> 'a list outcome" where
  "as_list dec r = collect (\<lambda>i. dec (rbytes i)) (fst (rlp_iter r))"

definition val_at :: "(bytes \<Rightarrow> 'a outcome) \<Rightarrow> untrusted \<Rightarrow> nat \<Rightarrow> 'a outcome \<times> untrusted" where
  "val_at dec r index = (case rlp_at r index of (res, r') \<Rightarrow> (try_then res (\<lambda>i. dec (rbytes i)), r'))"

definition list_at :: "(bytes \<Rightarrow> 'a outcome) \<Rightarrow> untrusted \<Rightarrow> nat \<Rightarrow> 'a list outcome \<times> untrusted" where
  "list_at dec r index = (case rlp_at r index of (res, r') \<Rightarrow> (try_then res (as_list dec), r'))"

subsection \<open>Headers of encodings\<close>

lemma decode_usize_val:
  assumes "bs \<noteq> []" and "length bs \<le> 8" and "hd bs \<noteq> 0"
  shows "decode_usize bs = Done (be_val bs)"
proof -
  let ?l = "length bs"
  let ?f = "\<lambda>res i. res + push_bit ((?l - 1 - i) * 8) (unat (bs ! i))"
  have "foldl ?f 0 [0..<i] = be_val (take i bs) * 256 ^ (?l - i)" if "i \<le> ?l" for i
    using that
  proof (induction i)
    case 0
    then show ?case by simp
  next
    case (Suc i)
    have e: "?l - i = Suc (?l - 1 - i)" using Suc.prems by simp
    have "push_bit ((?l - 1 - i) * 8) (unat (bs ! i)) = unat (bs ! i) * 256 ^ (?l - 1 - i)"
      using power_mult[of "2 :: nat" 8 "?l - 1 - i"] by (simp add: push_bit_eq_mult mult.commute)
    moreover have "foldl ?f 0 [0..<i] = be_val (take i bs) * 256 ^ Suc (?l - 1 - i)"
      using Suc.IH Suc.prems unfolding e by simp
    moreover have "take (Suc i) bs = take i bs @ [bs ! i]" using Suc.prems by (simp add: take_Suc_conv_app_nth)
    ultimately show ?case by (simp add: algebra_simps)
  qed
  from this[of ?l] have v: "foldl ?f 0 [0..<?l] = be_val bs" by simp
  obtain b t where bt: "bs = b # t" using assms(1) by (cases bs) auto
  have "b \<noteq> 0" using assms(3) by (simp add: bt)
  then show ?thesis using assms(2) v unfolding decode_usize_def Let_def bt by simp
qed

lemma nbytes_usize: "v < 2 ^ 64 \<Longrightarrow> nbytes v \<le> 8"
  by (simp add: nbytes_le_iff)

lemma nbytes_pos: "0 < v \<Longrightarrow> 0 < nbytes v"
  by (simp add: nbytes.simps[of v])

text \<open>A long header, for values (\<open>lo\<close> 0xb7) and lists (\<open>lo\<close> 0xf7).\<close>

lemma calculate_payload_info_enc:
  assumes "0 < len" and "len < 2 ^ 64"
  shows "calculate_payload_info (b # min_be len @ rest) (nbytes len) =
    Done \<lparr>header_len = 1 + nbytes len, value_len = len\<rparr>"
proof -
  have ne: "min_be len \<noteq> []" and h: "hd (min_be len) \<noteq> 0" using hd_min_be[of len] assms by simp_all
  then obtain x xs where x: "min_be len = x # xs" "x \<noteq> 0" by (cases "min_be len") auto
  have d: "decode_usize (min_be len) = Done len"
    using decode_usize_val[OF ne _ h] nbytes_usize[OF assms(2)] by simp
  have n: "nbytes len = Suc (length xs)" using x(1) length_min_be[of len] by simp
  have "take (nbytes len) (min_be len @ rest) = min_be len" by simp
  then show ?thesis using d x n by (simp add: calculate_payload_info_def)
qed

lemma unat_header:
  assumes "base = 0x80 \<or> base = 0xc0" and "n \<le> 63"
  shows "unat (base + of_nat n :: u8) = unat base + n"
proof -
  have "unat (of_nat n :: u8) = n" using assms(2) by (simp add: unat_of_nat)
  moreover have "unat base + n < 2 ^ 8" using assms by auto
  ultimately show ?thesis by (simp add: unat_word_ariths)
qed

lemma payload_info_header:
  assumes "base = 0x80 \<or> base = 0xc0" and "len < 2 ^ 64"
  shows "payload_info_from (rlp_header base len @ rest) =
    Done \<lparr>header_len = length (rlp_header base len), value_len = len\<rparr>"
proof (cases "len \<le> 55")
  case True
  have u: "unat (base + of_nat len :: u8) = unat base + len" using assms(1) True by (intro unat_header) auto
  then show ?thesis using True assms(1)
    by (auto simp: rlp_header_def payload_info_from_def word_le_nat_alt)
next
  case False
  have nb: "nbytes len \<le> 8" "0 < nbytes len" using nbytes_usize[OF assms(2)] nbytes_pos[of len] False by simp_all
  have u: "unat (base + (55 + of_nat (nbytes len)) :: u8) = unat base + 55 + nbytes len"
    using unat_header[OF assms(1), of "55 + nbytes len"] nb by simp
  note c = calculate_payload_info_enc[OF _ assms(2), of "base + (55 + of_nat (nbytes len))" rest]
  show ?thesis using False assms(1) u nb c
    by (auto simp: rlp_header_def payload_info_from_def word_le_nat_alt add.assoc)
qed

subsection \<open>Trees and their encodings\<close>

text \<open>The values RLP describes, their canonical encoding, and an encodable tree.\<close>

datatype rlp = RData bytes | RList "rlp list"

fun rlp_enc :: "rlp \<Rightarrow> bytes" where
  "rlp_enc (RData bs) = data_bytes bs"
| "rlp_enc (RList xs) = list_bytes (concat (map rlp_enc xs))"

fun tree_append :: "byteorder \<Rightarrow> rlp \<Rightarrow> rlp_stream \<Rightarrow> rlp_stream option" where
  "tree_append bo (RData bs) = encode_value bo bs"
| "tree_append bo (RList xs) = list_body bo (map (tree_append bo) xs)"

lemma rlp_header_nonempty [simp]: "rlp_header base len \<noteq> []"
  by (simp add: rlp_header_def)

lemma rlp_enc_nonempty: "rlp_enc r \<noteq> []"
  by (cases r) (auto simp: data_bytes_def list_bytes_def)

lemma rlp_enc_children: "x \<in> set xs \<Longrightarrow> length (rlp_enc x) < length (rlp_enc (RList xs))"
proof -
  assume "x \<in> set xs"
  then obtain a b where "xs = a @ x # b" by (auto dest: split_list)
  moreover have "rlp_header 0xc0 n \<noteq> []" for n by simp
  ultimately show ?thesis by (simp add: list_bytes_def)
qed

lemma length_concat_ge: "(\<And>x. x \<in> set xs \<Longrightarrow> 0 < length x) \<Longrightarrow> length xs \<le> length (concat xs)"
  by (induction xs) (auto simp: Suc_le_eq add_strict_increasing less_le_trans)

lemma tree_append_emits:
  assumes "big_endian bo"
  shows "length (rlp_enc r) < 2 ^ 32 \<Longrightarrow> emits bo (tree_append bo r) (rlp_enc r)"
proof (induction r)
  case (RData bs)
  have "length bs < 2 ^ 32"
    using RData by (auto simp: data_bytes_def split: if_splits)
  then show ?case using emits_value[OF assms, of bs] by (simp add: code_data_small)
next
  case (RList xs)
  let ?p = "concat (map rlp_enc xs)"
  have p: "length ?p < 2 ^ 32" using RList.prems by (simp add: list_bytes_def)
  have "length (map rlp_enc xs) \<le> length ?p"
    by (rule length_concat_ge) (auto simp: rlp_enc_nonempty)
  with p have n: "length (map (tree_append bo) xs) < 2 ^ 64" by simp
  have "list_all2 (emits bo) (map (tree_append bo) xs) (map rlp_enc xs)"
    using RList rlp_enc_children[of _ xs]
    by (auto simp: list_all2_conv_all_nth set_conv_nth simp del: rlp_enc.simps intro!: RList.IH)
      (metis less_trans nth_mem)
  from emits_list[OF assms this n] show ?case by (simp add: code_list_small[OF p])
qed

lemma data_bytes_short: "length bs = 1 \<Longrightarrow> hd bs < 0x80 \<Longrightarrow> data_bytes bs = bs"
  by (simp add: data_bytes_def)

lemma payload_info_data:
  assumes "length bs < 2 ^ 64"
  shows "\<exists>pi. payload_info_from (data_bytes bs @ rest) = Done pi \<and>
    payload_total pi = length (data_bytes bs) \<and> value_len pi = length bs"
proof (cases "length bs = 1 \<and> hd bs < 0x80")
  case True
  then obtain b where b: "bs = [b]" "b < 0x80" by (cases bs) auto
  have "b \<le> 0x7f" using b(2) by (simp add: word_le_nat_alt word_less_nat_alt)
  then show ?thesis using b by (simp add: data_bytes_def payload_info_from_def payload_total_def)
next
  case False
  then have "data_bytes bs = rlp_header 0x80 (length bs) @ bs" by (auto simp: data_bytes_def)
  then show ?thesis using payload_info_header[of "0x80" "length bs" "bs @ rest"] assms
    by (simp add: payload_total_def)
qed

lemma payload_info_enc:
  assumes "length (rlp_enc r) < 2 ^ 64"
  shows "\<exists>pi. payload_info (rlp_enc r @ rest) = Done pi \<and> payload_total pi = length (rlp_enc r)"
proof -
  have "\<exists>pi. payload_info_from (rlp_enc r @ rest) = Done pi \<and> payload_total pi = length (rlp_enc r)"
  proof (cases r)
    case (RData bs)
    have "length bs < 2 ^ 64" using assms by (auto simp: RData data_bytes_def split: if_splits)
    then show ?thesis using payload_info_data[of bs rest] by (auto simp: RData)
  next
    case (RList xs)
    then show ?thesis using payload_info_header[of "0xc0" "length (concat (map rlp_enc xs))" "concat (map rlp_enc xs) @ rest"] assms
      by (simp add: list_bytes_def payload_total_def)
  qed
  then show ?thesis using assms by (auto simp: payload_info_def)
qed

lemma is_list_enc [simp]:
  assumes "length (rlp_enc (RList xs)) < 2 ^ 64"
  shows "is_list (rlp_enc (RList xs))"
proof -
  let ?n = "length (concat (map rlp_enc xs))"
  have n: "?n < 2 ^ 64" using assms by (simp add: list_bytes_def)
  have "unat (0xc0 + of_nat ?n :: u8) = 0xc0 + ?n" if "?n \<le> 55" using that unat_header[of "0xc0" ?n] by simp
  moreover have "unat (0xc0 + (55 + of_nat (nbytes ?n)) :: u8) = 0xc0 + 55 + nbytes ?n"
    using unat_header[of "0xc0" "55 + nbytes ?n"] nbytes_usize[OF n] by simp
  ultimately show ?thesis
    by (auto simp: is_list_def is_null_def list_bytes_def rlp_header_def word_le_nat_alt add.assoc)
qed

lemma is_data_enc [simp]:
  assumes "length bs < 2 ^ 64"
  shows "is_data (data_bytes bs) \<and> \<not> is_list (data_bytes bs)"
proof -
  have "unat (0x80 + of_nat (length bs) :: u8) = 0x80 + length bs" if "length bs \<le> 55"
    using that unat_header[of "0x80" "length bs"] by simp
  moreover have "unat (0x80 + (55 + of_nat (nbytes (length bs))) :: u8) = 0x80 + 55 + nbytes (length bs)"
    using unat_header[of "0x80" "55 + nbytes (length bs)"] nbytes_usize[OF assms] by simp
  moreover have "nbytes (length bs) \<le> 8" by (rule nbytes_usize[OF assms])
  moreover have "hd bs < 0x80 \<Longrightarrow> length bs = 1 \<Longrightarrow> bs ! 0 < 0xc0"
    by (cases bs) (auto simp: word_less_nat_alt)
  ultimately show ?thesis
    by (auto simp: is_data_def is_list_def is_null_def data_bytes_def rlp_header_def word_less_nat_alt
      word_le_nat_alt add.assoc not_le)
qed

lemma decode_value_long:
  assumes "unat h = 0xb7 + n" and "n \<le> 8" and "0 < n" and "length l = n"
    and "decode_usize l = Done (length bs)" and "1 + n + length bs < 2 ^ 64"
  shows "decode_value f (h # l @ bs @ rest) = f bs"
proof -
  define xs where "xs = h # l @ bs @ rest"
  have h: "\<not> h \<le> 0x7f" "\<not> h \<le> 0xb7" "h \<le> 0xbf" using assms(1-3) by (simp_all add: word_le_nat_alt)
  have n: "unat h - 0xb7 = n" using assms(1) by simp
  have t: "take n (drop 1 xs) = l" "\<not> length xs < 1 + n" using assms(4) by (simp_all add: xs_def)
  have v: "take (length bs) (drop (1 + n) xs) = bs" "\<not> length xs < 1 + n + length bs"
    using assms(4) by (simp_all add: xs_def)
  have m: "\<not> 2 ^ 64 \<le> 1 + n + length bs" using assms(6) by linarith
  have "decode_value f xs = (if length xs < 1 + n then Err RlpInconsistentLengthAndData
      else try_then (decode_usize (take n (drop 1 xs))) (\<lambda>len. if 2 ^ 64 \<le> 1 + n + len then Err RlpInvalidLength
        else if length xs < 1 + n + len then Err RlpInconsistentLengthAndData
        else f (take len (drop (1 + n) xs))))"
    unfolding decode_value_def by (simp only: xs_def list.case h n Let_def if_False if_True)
  also have "\<dots> = f bs" unfolding t(1) assms(5) try_then.simps if_not_P[OF t(2)] if_not_P[OF v(2)] if_not_P[OF m] v(1) ..
  finally show ?thesis by (simp only: xs_def)
qed

lemma decode_value_enc:
  assumes dl: "length (data_bytes bs) < 2 ^ 64"
  shows "decode_value f (data_bytes bs @ rest) = f bs"
proof (cases "length bs = 1 \<and> hd bs < 0x80")
  case True
  then obtain b where b: "bs = [b]" "b < 0x80" by (cases bs) auto
  have "b \<le> 0x7f" using b(2) by (simp add: word_le_nat_alt word_less_nat_alt)
  then show ?thesis using b by (simp add: data_bytes_def decode_value_def)
next
  case False
  then have d: "data_bytes bs = rlp_header 0x80 (length bs) @ bs" by (auto simp: data_bytes_def)
  have lb: "length bs < 2 ^ 64" using dl by (simp add: d)
  show ?thesis
  proof (cases "length bs \<le> 55")
    case True
    have u: "unat (0x80 + of_nat (length bs) :: u8) = 0x80 + length bs"
      using True unat_header[of "0x80" "length bs"] by simp
    have "0x80 + of_nat (length bs) = (0x81 :: u8) \<Longrightarrow> length bs = 1"
    proof -
      assume "0x80 + of_nat (length bs) = (0x81 :: u8)"
      then have "unat (0x80 + of_nat (length bs) :: u8) = 0x81" by simp
      with u show "length bs = 1" by simp
    qed
    moreover have "length bs = 1 \<Longrightarrow> \<not> bs ! 0 < 0x80" using False by (cases bs) auto
    ultimately show ?thesis using True u
      by (auto simp: d rlp_header_def decode_value_def word_le_nat_alt Let_def)
  next
    case F: False
    let ?n = "nbytes (length bs)"
    have "0 < length bs" using F by linarith
    then have nb: "?n \<le> 8" "0 < ?n" using nbytes_usize[OF lb] nbytes_pos by blast+
    have u: "unat (0x80 + (55 + of_nat ?n) :: u8) = 0x80 + 55 + ?n"
      using unat_header[of "0x80" "55 + ?n"] nb by simp
    have h: "hd (min_be (length bs)) \<noteq> 0 \<and> min_be (length bs) \<noteq> []" by (rule hd_min_be) (use F in linarith)
    then have "decode_usize (min_be (length bs)) = Done (length bs)"
      using decode_usize_val nb by simp
    moreover have "1 + ?n + length bs < 2 ^ 64" using dl F by (simp add: d rlp_header_def)
    ultimately show ?thesis
      using decode_value_long[of "0x80 + (55 + of_nat ?n)" ?n "min_be (length bs)" bs f rest] F u nb
      by (simp add: d rlp_header_def)
  qed
qed

subsection \<open>Walking a list\<close>

lemma consume_items_add:
  "consume_items bs (m + n) = try_then (consume_items bs m) (\<lambda>b. consume_items b n)"
proof (induction m arbitrary: bs)
  case 0
  then show ?case by simp
next
  case (Suc m)
  show ?case
  proof (cases "payload_info bs")
    case (Done pi)
    then show ?thesis by (cases "consume bs (payload_total pi)") (simp_all add: Suc)
  qed simp_all
qed

lemma payload_total_pos:
  assumes "payload_info bs = Done pi"
  shows "0 < payload_total pi" and "payload_total pi \<le> length bs"
proof -
  have 1: "payload_info_from bs = Done pi" and 2: "payload_total pi \<le> length bs"
    using assms by (cases "payload_info_from bs"; auto simp: payload_info_def split: if_splits)+
  show "payload_total pi \<le> length bs" by (rule 2)
  have "0 < payload_total pi" if "calculate_payload_info bs n = Done pi" for n
  proof -
    have "header_len pi = 1 + n" using that
      by (cases "decode_usize (take n (drop 1 bs))")
        (auto simp: calculate_payload_info_def Let_def split: if_splits)
    then show ?thesis by (simp add: payload_total_def)
  qed
  then show "0 < payload_total pi" using 1
    by (auto simp: payload_info_from_def payload_total_def split: list.splits if_splits)
qed

lemma consume_items_length:
  "consume_items bs n = Done b \<Longrightarrow> length b + n \<le> length bs \<and> b = drop (length bs - length b) bs"
proof (induction n arbitrary: bs)
  case 0
  then show ?case by simp
next
  case (Suc n)
  then obtain pi where pi: "payload_info bs = Done pi" by (cases "payload_info bs") auto
  note t = payload_total_pos[OF pi]
  have c: "consume_items (drop (payload_total pi) bs) n = Done b"
    using Suc.prems pi t by (simp add: consume_def)
  have l: "length b + n \<le> length bs - payload_total pi" and
    d: "b = drop (length bs - payload_total pi - length b) (drop (payload_total pi) bs)"
    using Suc.IH[OF c] by simp_all
  have "length b + Suc n \<le> length bs" using l t by linarith
  moreover have "length bs - payload_total pi - length b + payload_total pi = length bs - length b"
    using l t by linarith
  ultimately show ?case using d by (simp add: add.commute)
qed

text \<open>The lookup without a cache.\<close>

definition at_pure :: "bytes \<Rightarrow> nat \<Rightarrow> bytes outcome" where
  "at_pure bs index =
     (if \<not> is_list bs then Err RlpExpectedToBeList
      else try_then (consume_list_payload bs) (\<lambda>b.
        try_then (consume_items b index) (\<lambda>b.
          try_then (payload_info b) (\<lambda>found. Done (take (payload_total found) b)))))"

text \<open>The cache holds the offset of an item that was found from the start of the payload.\<close>

definition cache_ok :: "untrusted \<Rightarrow> bool" where
  "cache_ok r \<longleftrightarrow>
     (case offset_cache r of (i, off) \<Rightarrow>
        i = usize_max \<and> off = 0 \<or>
        (\<exists>p b. consume_list_payload (rbytes r) = Done p \<and> consume_items p i = Done b \<and>
          length b \<le> length (rbytes r) \<and> off = length (rbytes r) - length b \<and> b = drop off (rbytes r)))"

lemma cache_ok_new [simp]: "cache_ok (untrusted_new bs)"
  by (simp add: cache_ok_def untrusted_new_def)

lemma cache_ok_count [simp]: "cache_ok (r\<lparr>count_cache := c\<rparr>) = cache_ok r"
  by (simp add: cache_ok_def)

lemma consume_list_payload_drop:
  "consume_list_payload bs = Done p \<Longrightarrow> length p \<le> length bs \<and> p = drop (length bs - length p) bs"
  by (cases "payload_info bs") (auto simp: consume_list_payload_def consume_def split: if_splits)

lemma consume_then_ok:
  assumes "consume_list_payload bs = Done p" and "consume_items p i = Done b"
  shows "length b \<le> length bs \<and> b = drop (length bs - length b) bs"
proof -
  note c = consume_list_payload_drop[OF assms(1)] and d = consume_items_length[OF assms(2)]
  have "b = drop (length p - length b) p" and "p = drop (length bs - length p) bs" using c d by blast+
  then have "b = drop (length p - length b) (drop (length bs - length p) bs)" by (rule back_subst[where P = "\<lambda>q. b = drop (length p - length b) q"])
  moreover have "length p - length b + (length bs - length p) = length bs - length b" using c d by linarith
  ultimately have "b = drop (length bs - length b) bs" by (simp only: drop_drop)
  then show ?thesis using c d by linarith
qed

lemma rlp_at_pure:
  assumes "cache_ok r" and "i < usize_max"
  shows "fst (rlp_at r i) = try_then (at_pure (rbytes r) i) (\<lambda>b. Done (untrusted_new b)) \<and>
    cache_ok (snd (rlp_at r i)) \<and> rbytes (snd (rlp_at r i)) = rbytes r \<and>
    count_cache (snd (rlp_at r i)) = count_cache r"
proof (cases "is_list (rbytes r)")
  case False
  then show ?thesis using assms(1) by (simp add: rlp_at_def at_pure_def)
next
  case True
  obtain ci off where c: "offset_cache r = (ci, off)" by fastforce
  let ?start = "if ci \<le> i then try_then (consume (rbytes r) off) (\<lambda>b. Done (b, i - ci))
    else try_then (consume_list_payload (rbytes r)) (\<lambda>b. Done (b, i))"
  have walk: "try_then ?start (\<lambda>(b, k). consume_items b k) =
      try_then (consume_list_payload (rbytes r)) (\<lambda>b. consume_items b i)"
  proof (cases "ci \<le> i")
    case False
    then show ?thesis by (cases "consume_list_payload (rbytes r)") simp_all
  next
    case le: True
    then have "ci \<noteq> usize_max" using assms(2) by simp
    then obtain p b where pb: "consume_list_payload (rbytes r) = Done p" "consume_items p ci = Done b"
      "off = length (rbytes r) - length b" "b = drop off (rbytes r)"
      using assms(1) \<open>ci \<noteq> usize_max\<close> unfolding cache_ok_def c prod.case by blast
    have "consume_items p i = consume_items b (i - ci)"
      using consume_items_add[of p ci "i - ci"] le pb(2) by simp
    moreover have "consume (rbytes r) off = Done b" using pb(3,4) by (simp add: consume_def)
    ultimately show ?thesis using le pb(1) by simp
  qed
  have pure: "at_pure (rbytes r) i = try_then (try_then (consume_list_payload (rbytes r)) (\<lambda>b. consume_items b i))
      (\<lambda>b. try_then (payload_info b) (\<lambda>found. Done (take (payload_total found) b)))"
    using True by (cases "consume_list_payload (rbytes r)") (simp_all add: at_pure_def)
  show ?thesis
  proof (cases "try_then (consume_list_payload (rbytes r)) (\<lambda>b. consume_items b i)")
    case (Done b)
    then obtain p where p: "consume_list_payload (rbytes r) = Done p" "consume_items p i = Done b"
      by (cases "consume_list_payload (rbytes r)") auto
    note ok = consume_then_ok[OF p]
    have at: "rlp_at r i = (try_then (payload_info b) (\<lambda>found. Done (untrusted_new (take (payload_total found) b))),
        r\<lparr>offset_cache := (i, length (rbytes r) - length b)\<rparr>)"
      using True walk Done by (simp add: rlp_at_def c)
    have "cache_ok (snd (rlp_at r i))" using p ok by (auto simp: at cache_ok_def)
    moreover have "fst (rlp_at r i) = try_then (at_pure (rbytes r) i) (\<lambda>b. Done (untrusted_new b))"
      unfolding pure Done by (cases "payload_info b") (simp_all add: at)
    ultimately show ?thesis by (simp add: at)
  next
    case (Err e)
    have "rlp_at r i = (Err e, r)" using True walk Err by (simp add: rlp_at_def c)
    then show ?thesis using assms(1) pure Err by simp
  next
    case Panic
    have "rlp_at r i = (Panic, r)" using True walk Panic by (simp add: rlp_at_def c)
    then show ?thesis using assms(1) pure Panic by simp
  qed
qed

subsection \<open>Looking up and iterating a list\<close>

text \<open>
  The lookups need of an item only that its header tells its length whatever follows. That holds of
  the encodings of trees, and of other byte strings that stand for an item.
\<close>

definition framed :: "bytes \<Rightarrow> bool" where
  "framed b \<longleftrightarrow> b \<noteq> [] \<and> (\<forall>rest. \<exists>pi. payload_info (b @ rest) = Done pi \<and> payload_total pi = length b)"

definition items_ok :: "bytes list \<Rightarrow> bool" where
  "items_ok bs \<longleftrightarrow> length (list_bytes (concat bs)) < 2 ^ 64 \<and> (\<forall>b \<in> set bs. framed b)"

lemma framed_enc: "length (rlp_enc r) < 2 ^ 64 \<Longrightarrow> framed (rlp_enc r)"
  unfolding framed_def using payload_info_enc rlp_enc_nonempty by blast

lemma items_ok_length: "items_ok bs \<Longrightarrow> length bs < usize_max"
proof -
  assume ok: "items_ok bs"
  then have "length (concat bs) + 1 < 2 ^ 64"
    using rlp_header_nonempty[of "0xc0" "length (concat bs)"]
    by (cases "rlp_header 0xc0 (length (concat bs))") (simp_all add: items_ok_def list_bytes_def)
  moreover have "length bs \<le> length (concat bs)"
    by (rule length_concat_ge) (use ok in \<open>auto simp: items_ok_def framed_def\<close>)
  ultimately show ?thesis by (simp add: usize_max_def)
qed

lemma is_list_bytes:
  assumes "length (list_bytes p) < 2 ^ 64"
  shows "is_list (list_bytes p)"
proof -
  have n: "length p < 2 ^ 64" using assms by (simp add: list_bytes_def)
  have "unat (0xc0 + of_nat (length p) :: u8) = 0xc0 + length p" if "length p \<le> 55"
    using that unat_header[of "0xc0" "length p"] by simp
  moreover have "unat (0xc0 + (55 + of_nat (nbytes (length p))) :: u8) = 0xc0 + 55 + nbytes (length p)"
    using unat_header[of "0xc0" "55 + nbytes (length p)"] nbytes_usize[OF n] by simp
  ultimately show ?thesis
    by (auto simp: is_list_def is_null_def list_bytes_def rlp_header_def word_le_nat_alt add.assoc)
qed

lemma list_bytes_payload_info:
  assumes "length (list_bytes p) < 2 ^ 64"
  shows "payload_info (list_bytes p @ rest) = Done \<lparr>header_len = length (rlp_header 0xc0 (length p)), value_len = length p\<rparr>"
proof -
  have "length p < 2 ^ 64" using assms by (simp add: list_bytes_def)
  from payload_info_header[OF _ this, of "0xc0" "p @ rest"] have
    "payload_info_from (list_bytes p @ rest) = Done \<lparr>header_len = length (rlp_header 0xc0 (length p)), value_len = length p\<rparr>"
    by (simp add: list_bytes_def)
  then show ?thesis using assms by (simp add: payload_info_def payload_total_def list_bytes_def)
qed

lemma framed_list_bytes: "length (list_bytes p) < 2 ^ 64 \<Longrightarrow> framed (list_bytes p)"
  unfolding framed_def using list_bytes_payload_info[of p]
  by (auto simp: payload_total_def list_bytes_def)

lemma consume_list_payload_bytes:
  assumes "length (list_bytes p) < 2 ^ 64"
  shows "consume_list_payload (list_bytes p) = Done p"
  using list_bytes_payload_info[OF assms, of "[]"]
  by (simp add: consume_list_payload_def consume_def list_bytes_def)

lemma consume_items_bytes:
  assumes "\<forall>b \<in> set bs. framed b"
  shows "consume_items (concat bs) i = (if i \<le> length bs then Done (concat (drop i bs)) else Err RlpIsTooShort)"
  using assms
proof (induction i arbitrary: bs)
  case 0
  then show ?case by simp
next
  case (Suc i)
  show ?case
  proof (cases bs)
    case Nil
    then show ?thesis by (simp add: payload_info_def payload_info_from_def)
  next
    case (Cons b cs)
    then have "framed b" using Suc.prems by simp
    then obtain pi where "payload_info (b @ concat cs) = Done pi" "payload_total pi = length b"
      unfolding framed_def by blast
    then show ?thesis using Suc.IH[of cs] Suc.prems Cons by (simp add: consume_def)
  qed
qed

lemma at_pure_bytes:
  assumes "items_ok bs"
  shows "at_pure (list_bytes (concat bs)) i = (if i < length bs then Done (bs ! i) else Err RlpIsTooShort)"
proof -
  have len: "length (list_bytes (concat bs)) < 2 ^ 64" and fr: "\<forall>b \<in> set bs. framed b"
    using assms by (simp_all add: items_ok_def)
  note l = is_list_bytes[OF len] and c = consume_list_payload_bytes[OF len]
  show ?thesis
  proof (cases "i < length bs")
    case True
    then have "framed (bs ! i)" using fr by simp
    then obtain pi where "payload_info (bs ! i @ concat (drop (Suc i) bs)) = Done pi"
      "payload_total pi = length (bs ! i)" unfolding framed_def by blast
    moreover have "concat (drop i bs) = bs ! i @ concat (drop (Suc i) bs)"
      using True by (simp flip: Cons_nth_drop_Suc)
    ultimately show ?thesis using True l c by (simp add: at_pure_def consume_items_bytes[OF fr])
  next
    case False
    then show ?thesis using l c
      by (auto simp: at_pure_def consume_items_bytes[OF fr] payload_info_def payload_info_from_def)
  qed
qed

text \<open>Lookups in any order of a value that starts as a list of the items \<open>bs\<close>.\<close>

definition bviews :: "untrusted \<Rightarrow> bytes list \<Rightarrow> bool" where
  "bviews r bs \<longleftrightarrow> rbytes r = list_bytes (concat bs) \<and> cache_ok r \<and> (count_cache r = None \<or> count_cache r = Some (length bs))"

lemma bviews_new: "bviews (untrusted_new (list_bytes (concat bs))) bs"
  unfolding bviews_def using cache_ok_new by (simp add: untrusted_new_def)

lemma rlp_at_bviews:
  assumes "bviews r bs" and "items_ok bs" and "i < usize_max"
  shows "fst (rlp_at r i) = (if i < length bs then Done (untrusted_new (bs ! i)) else Err RlpIsTooShort)
    \<and> bviews (snd (rlp_at r i)) bs"
proof -
  have c: "cache_ok r" "rbytes r = list_bytes (concat bs)" using assms(1) by (simp_all add: bviews_def)
  from rlp_at_pure[OF c(1) assms(3)] assms(1) show ?thesis
    unfolding c(2) at_pure_bytes[OF assms(2)] bviews_def by auto
qed

lemma iter_loop_bviews:
  assumes "bviews r bs" and "items_ok bs" and "i \<le> length bs" and "length bs - i < fuel"
  shows "fst (iter_loop fuel r i) = map untrusted_new (drop i bs) \<and> bviews (snd (iter_loop fuel r i)) bs"
  using assms
proof (induction fuel arbitrary: r i)
  case 0
  then show ?case by simp
next
  case (Suc fuel)
  have "i < usize_max" using items_ok_length[OF Suc.prems(2)] Suc.prems(3) by simp
  note a = rlp_at_bviews[OF Suc.prems(1,2) this]
  obtain res r' where r: "rlp_at r i = (res, r')" by fastforce
  show ?case
  proof (cases "i < length bs")
    case False
    then have "res = Err RlpIsTooShort" "bviews r' bs" using a by (simp_all add: r)
    then show ?thesis using False Suc.prems(3) r by simp
  next
    case True
    then have "res = Done (untrusted_new (bs ! i))" "bviews r' bs" using a by (simp_all add: r)
    then show ?thesis using True Suc.IH[of r' "i + 1"] Suc.prems
      by (auto simp: r split: prod.splits simp flip: Cons_nth_drop_Suc)
  qed
qed

lemma rlp_iter_bviews:
  assumes "bviews r bs" and "items_ok bs"
  shows "fst (rlp_iter r) = map untrusted_new bs \<and> bviews (snd (rlp_iter r)) bs"
proof -
  have "length bs \<le> length (concat bs)"
    by (rule length_concat_ge) (use assms(2) in \<open>auto simp: items_ok_def framed_def\<close>)
  then have "length bs - 0 < length (rbytes r) + 1" using assms(1) by (simp add: bviews_def list_bytes_def)
  from iter_loop_bviews[OF assms _ this] show ?thesis by (simp add: rlp_iter_def)
qed

lemma item_count_bviews:
  assumes "bviews r bs" and "items_ok bs"
  shows "fst (item_count r) = Done (length bs) \<and> bviews (snd (item_count r)) bs"
proof -
  have l: "is_list (rbytes r)" using assms is_list_bytes by (simp add: bviews_def items_ok_def)
  show ?thesis
  proof (cases "count_cache r")
    case None
    obtain items r' where it: "rlp_iter r = (items, r')" by fastforce
    then have "length items = length bs" "bviews r' bs" using rlp_iter_bviews[OF assms] by auto
    moreover have "item_count r = (Done (length items), r'\<lparr>count_cache := Some (length items)\<rparr>)"
      using l None it by (simp add: item_count_def Let_def)
    ultimately show ?thesis by (simp add: bviews_def)
  next
    case (Some c)
    then show ?thesis using l assms(1) by (auto simp: item_count_def bviews_def)
  qed
qed

text \<open>The same for the encodings of trees.\<close>

definition list_ok :: "rlp list \<Rightarrow> bool" where
  "list_ok xs \<longleftrightarrow> length (rlp_enc (RList xs)) < 2 ^ 64"

definition views :: "untrusted \<Rightarrow> rlp list \<Rightarrow> bool" where
  "views r xs \<longleftrightarrow> bviews r (map rlp_enc xs)"

lemma items_ok_enc: "list_ok xs \<Longrightarrow> items_ok (map rlp_enc xs)"
proof -
  assume ok: "list_ok xs"
  then have "\<forall>x \<in> set xs. framed (rlp_enc x)"
    using rlp_enc_children[of _ xs] unfolding list_ok_def by (blast intro: framed_enc less_trans)
  then show ?thesis using ok by (simp add: items_ok_def list_ok_def)
qed

lemma list_ok_length: "list_ok xs \<Longrightarrow> length xs < usize_max"
  using items_ok_length[OF items_ok_enc, of xs] by simp

lemma views_new: "views (untrusted_new (rlp_enc (RList xs))) xs"
  using bviews_new[of "map rlp_enc xs"] by (simp add: views_def)

lemma rlp_at_views:
  assumes "views r xs" and "list_ok xs" and "i < usize_max"
  shows "fst (rlp_at r i) = (if i < length xs then Done (untrusted_new (rlp_enc (xs ! i))) else Err RlpIsTooShort)
    \<and> views (snd (rlp_at r i)) xs"
  using rlp_at_bviews[of r "map rlp_enc xs" i] items_ok_enc[OF assms(2)] assms(1,3) by (simp add: views_def)

lemma rlp_iter_views:
  assumes "views r xs" and "list_ok xs"
  shows "fst (rlp_iter r) = map (\<lambda>x. untrusted_new (rlp_enc x)) xs \<and> views (snd (rlp_iter r)) xs"
  using rlp_iter_bviews[of r "map rlp_enc xs"] items_ok_enc[OF assms(2)] assms(1) by (simp add: views_def comp_def)

lemma item_count_views:
  assumes "views r xs" and "list_ok xs"
  shows "fst (item_count r) = Done (length xs) \<and> views (snd (item_count r)) xs"
  using item_count_bviews[of r "map rlp_enc xs"] items_ok_enc[OF assms(2)] assms(1) by (simp add: views_def)

lemma iter_loop_items:
  "consume_list_payload (rbytes r) = Done p \<Longrightarrow> cache_ok r \<Longrightarrow> i < usize_max \<Longrightarrow>
    fst (rlp_at r i) = Done x \<Longrightarrow> i < length (rbytes r)"
proof -
  assume p: "consume_list_payload (rbytes r) = Done p" and c: "cache_ok r" "i < usize_max"
    and at: "fst (rlp_at r i) = Done x"
  have "try_then (at_pure (rbytes r) i) (\<lambda>b. Done (untrusted_new b)) = Done x"
    using rlp_at_pure[OF c] at by simp
  then obtain b where b: "at_pure (rbytes r) i = Done b" by (cases "at_pure (rbytes r) i") auto
  obtain q where q: "consume_items p i = Done q" "payload_info q \<noteq> Err RlpIsTooShort"
  proof (cases "consume_items p i")
    case (Done q)
    then have "payload_info q \<noteq> Err RlpIsTooShort" using b p by (auto simp: at_pure_def split: if_splits)
    with Done that show thesis by blast
  qed (use b p in \<open>auto simp: at_pure_def split: if_splits\<close>)
  have "q \<noteq> []" using q(2) by (auto simp: payload_info_def payload_info_from_def)
  then have "0 < length q" by simp
  then show "i < length (rbytes r)"
    using consume_items_length[OF q(1)] consume_list_payload_drop[OF p] by linarith
qed

text \<open>The fuel of the iterator is enough for any bytes: no index beyond the length is ever found.\<close>

lemma rlp_at_payload:
  assumes "cache_ok r" and "i < usize_max" and "fst (rlp_at r i) = Done x"
  shows "i < length (rbytes r)"
proof -
  have "try_then (at_pure (rbytes r) i) (\<lambda>b. Done (untrusted_new b)) = Done x"
    using rlp_at_pure[OF assms(1,2)] assms(3) by simp
  then obtain b where "at_pure (rbytes r) i = Done b" by (cases "at_pure (rbytes r) i") auto
  then obtain p where "consume_list_payload (rbytes r) = Done p"
    by (cases "consume_list_payload (rbytes r)") (auto simp: at_pure_def split: if_splits)
  from iter_loop_items[OF this assms] show ?thesis .
qed

lemma iter_loop_fuel:
  assumes "cache_ok r" and "length (rbytes r) \<le> fuel + i" and "length (rbytes r) + 1 < usize_max" and "i \<le> length (rbytes r)"
  shows "iter_loop (Suc fuel) r i = iter_loop (Suc (fuel + k)) r i"
  using assms
proof (induction fuel arbitrary: r i)
  case 0
  have "\<nexists>x. fst (rlp_at r i) = Done x" using rlp_at_payload[of r i] 0 by force
  then show ?case by (cases "rlp_at r i"; cases "fst (rlp_at r i)") simp_all
next
  case (Suc fuel)
  obtain res r' where at: "rlp_at r i = (res, r')" by fastforce
  show ?case
  proof (cases res)
    case (Done x)
    have i: "i < usize_max" using Suc.prems by linarith
    have "i < length (rbytes r)" using rlp_at_payload[OF Suc.prems(1) i] at Done by simp
    moreover have "cache_ok r'" "rbytes r' = rbytes r" using rlp_at_pure[OF Suc.prems(1) i] at by simp_all
    ultimately have "iter_loop (Suc fuel) r' (i + 1) = iter_loop (Suc (fuel + k)) r' (i + 1)"
      using Suc.prems by (intro Suc.IH) simp_all
    then show ?thesis using at Done by simp
  qed (simp_all add: at)
qed

subsection \<open>Properties\<close>

text \<open>
  C32. Every RLP tree whose encoding is shorter than 4 GiB is encoded to its canonical bytes: the
  headers inserted afterwards, at every level of nesting, carry the right lengths, and nothing
  panics.\<close>

theorem encode_tree:
  assumes "big_endian bo" and "length (rlp_enc t) < 2 ^ 32"
  shows "encode bo (tree_append bo t) = Some (rlp_enc t)"
  using tree_append_emits[OF assms] by (rule encode_emits)

theorem encode_tree_witness:
  "encode byteorder_be (tree_append byteorder_be (RList [RData [99, 97], RList []])) =
    Some (rlp_enc (RList [RData [99, 97], RList []]))"
  by (rule encode_tree) (simp_all add: data_bytes_def list_bytes_def rlp_header_def)

text \<open>
  C34. A lookup through the offset cache gives what a lookup from the start gives, whatever the bytes
  are and whatever was looked up before: the cache holds an offset that a walk from the start
  reaches, and every lookup keeps that.\<close>

theorem rlp_at_cache:
  assumes "cache_ok r" and "i < usize_max"
  shows "fst (rlp_at r i) = fst (rlp_at (untrusted_new (rbytes r)) i) \<and> cache_ok (snd (rlp_at r i)) \<and>
    rbytes (snd (rlp_at r i)) = rbytes r"
proof -
  have "fst (rlp_at (untrusted_new (rbytes r)) i) =
      try_then (at_pure (rbytes r) i) (\<lambda>b. Done (untrusted_new b))"
    using rlp_at_pure[OF cache_ok_new assms(2), of "rbytes r"] by (simp add: untrusted_new_def)
  then show ?thesis using rlp_at_pure[OF assms] by simp
qed

theorem rlp_at_cache_witness:
  "fst (rlp_at (snd (rlp_at (untrusted_new [0xc2, 1, 2]) 0)) 1) =
    fst (rlp_at (untrusted_new (rbytes (snd (rlp_at (untrusted_new [0xc2, 1, 2]) 0)))) 1)"
proof -
  have "cache_ok (snd (rlp_at (untrusted_new [0xc2, 1, 2]) 0))"
    using rlp_at_pure[OF cache_ok_new, of 0 "[0xc2, 1, 2]"] by (simp add: usize_max_def)
  from rlp_at_cache[OF this, of 1] show ?thesis by (simp add: usize_max_def)
qed

text \<open>
  C33. The decoder reads an encoded list back: the item count, the items in order by the iterator and
  by lookup at any index, and an error beyond the end, for lists nested to any depth.\<close>

theorem decode_list_roundtrip:
  assumes "length (rlp_enc (RList xs)) < 2 ^ 64"
  shows "fst (item_count (untrusted_new (rlp_enc (RList xs)))) = Done (length xs) \<and>
    map rbytes (fst (rlp_iter (untrusted_new (rlp_enc (RList xs))))) = map rlp_enc xs \<and>
    (\<forall>i < usize_max. fst (rlp_at (untrusted_new (rlp_enc (RList xs))) i) =
      (if i < length xs then Done (untrusted_new (rlp_enc (xs ! i))) else Err RlpIsTooShort))"
proof -
  have ok: "list_ok xs" using assms by (simp add: list_ok_def)
  note v = views_new[of xs]
  show ?thesis
    using item_count_views[OF v ok] rlp_iter_views[OF v ok] rlp_at_views[OF v ok]
    by (simp add: untrusted_new_def comp_def)
qed

theorem decode_list_roundtrip_witness:
  "fst (item_count (untrusted_new (rlp_enc (RList [RData [7], RList []])))) = Done (length [RData [7], RList []])"
  by (rule decode_list_roundtrip[THEN conjunct1]) (simp add: data_bytes_def list_bytes_def rlp_header_def)

text \<open>
  The length of a value of 4 GiB or more is written modulo \<open>2 ^ 32\<close>: \<open>insert_size\<close> casts it to a
  \<open>u32\<close>. When the remainder is again the length of a long value, the decoder silently returns that
  many bytes instead of the value.\<close>

theorem encode_value_truncates:
  assumes "big_endian bo" and "2 ^ 32 \<le> length v" and "length v < 2 ^ 63" and "55 < length v mod 2 ^ 32"
  shows "\<exists>e. encode bo (encode_value bo v) = Some e \<and>
    decode_value Done e = Done (take (length v mod 2 ^ 32) v)"
proof -
  let ?l = "length v mod 2 ^ 32"
  let ?w = "take ?l v"
  have lw: "length ?w = ?l" using assms(2) by simp
  have "encode bo (encode_value bo v) = Some (code_data v)"
    by (rule encode_emits) (rule emits_value[OF assms(1)])
  moreover have "\<not> length v \<le> 55" using assms(2) by simp
  then have "code_data v = data_bytes ?w @ drop ?l v"
    using assms(4) by (simp add: code_data_def data_bytes_def code_header_def rlp_header_def lw)
  moreover have "decode_value Done (data_bytes ?w @ drop ?l v) = Done ?w"
  proof (rule decode_value_enc)
    have "?l < 2 ^ 32" by simp
    moreover have "nbytes ?l \<le> 8" by (rule nbytes_usize) (use calculation in simp)
    ultimately show "length (data_bytes ?w) < 2 ^ 64"
      by (auto simp: data_bytes_def rlp_header_def lw)
  qed
  ultimately show ?thesis by auto
qed

theorem encode_value_truncates_witness:
  "\<exists>e. encode byteorder_be (encode_value byteorder_be (replicate (2 ^ 32 + 56) 7)) = Some e \<and>
    decode_value Done e = Done (take (length (replicate (2 ^ 32 + 56) 7 :: bytes) mod 2 ^ 32) (replicate (2 ^ 32 + 56) 7))"
  by (rule encode_value_truncates[OF big_endian_byteorder_be]) simp_all

end
