(* ===== verification/RlpImpls.thy ===== *)
theory RlpImpls
  imports RlpDecode UintConv
begin

section \<open>RLP: encodable and decodable types\<close>

text \<open>
  \<open>util/rlp/src/impls.rs\<close>, \<open>rlpin.rs\<close> and the shortcuts of \<open>lib.rs\<close>. An \<open>Encodable\<close> is a function
  on the stream, a \<open>Decodable\<close> a function from the item's bytes. The locale \<open>rlp_codec\<close> states what a
  type that is both promises; it is interpreted for every type of the file, and its lemmas give
  the round trips of values, lists and options.
\<close>

subsection \<open>Definitions\<close>

definition bool_append :: "byteorder \<Rightarrow> bool \<Rightarrow> rlp_stream \<Rightarrow> rlp_stream option" where
  "bool_append bo b s = (if b then encode_value bo [1] s else encode_value bo [0] s)"

definition bool_decode :: "bytes \<Rightarrow> bool outcome" where
  "bool_decode rlp = decode_value (\<lambda>bs.
     if length bs = 0 then Done False
     else if length bs = 1 then Done (bs ! 0 \<noteq> 0)
     else Err RlpIsTooBig) rlp"

definition bytes_append :: "byteorder \<Rightarrow> bytes \<Rightarrow> rlp_stream \<Rightarrow> rlp_stream option" where
  "bytes_append bo v s = encode_value bo v s"

definition bytes_decode :: "bytes \<Rightarrow> bytes outcome" where
  "bytes_decode rlp = decode_value Done rlp"

definition option_append ::
    "byteorder \<Rightarrow> ('a \<Rightarrow> rlp_stream \<Rightarrow> rlp_stream option) \<Rightarrow> 'a option \<Rightarrow> rlp_stream \<Rightarrow> rlp_stream option" where
  "option_append bo app v s =
     (case v of
        None \<Rightarrow> begin_list bo 0 s
      | Some value \<Rightarrow> do { s \<leftarrow> begin_list bo 1 s; append_value bo (app value) s })"

definition option_decode :: "(bytes \<Rightarrow> 'a outcome) \<Rightarrow> bytes \<Rightarrow> 'a option outcome" where
  "option_decode dec rlp =
     (case item_count (untrusted_new rlp) of
        (items, r) \<Rightarrow> try_then items (\<lambda>n.
          if n = 1 then try_then (fst (val_at dec r 0)) (\<lambda>v. Done (Some v))
          else if n = 0 then Done None
          else Err RlpIncorrectListLen))"

definition u8_append :: "byteorder \<Rightarrow> u8 \<Rightarrow> rlp_stream \<Rightarrow> rlp_stream option" where
  "u8_append bo v s = (if v \<noteq> 0 then encode_value bo [v] s else encode_value bo [] s)"

definition u8_decode :: "bytes \<Rightarrow> u8 outcome" where
  "u8_decode rlp = decode_value (\<lambda>bs.
     if length bs = 1 \<and> bs ! 0 \<noteq> 0 then Done (bs ! 0)
     else if length bs = 0 then Done 0
     else if length bs = 1 then Err RlpInvalidIndirection
     else Err RlpIsTooBig) rlp"

text \<open>The macros for \<open>u16\<close>, \<open>u32\<close> and \<open>u64\<close>.\<close>

definition u16_append :: "byteorder \<Rightarrow> u16 \<Rightarrow> rlp_stream \<Rightarrow> rlp_stream option" where
  "u16_append bo v s = encode_value bo (drop (leading_zeros v div 8) (write_u16 bo v)) s"

definition u32_append :: "byteorder \<Rightarrow> u32 \<Rightarrow> rlp_stream \<Rightarrow> rlp_stream option" where
  "u32_append bo v s = encode_value bo (drop (leading_zeros v div 8) (write_u32 bo v)) s"

definition u64_append :: "byteorder \<Rightarrow> u64 \<Rightarrow> rlp_stream \<Rightarrow> rlp_stream option" where
  "u64_append bo v s = encode_value bo (drop (leading_zeros v div 8) (write_u64 bo v)) s"

definition word_decode :: "bytes \<Rightarrow> 'a::len word outcome" where
  "word_decode rlp = decode_value (\<lambda>bs.
     let l = length bs in
     if l \<le> 1 then try_then (u8_decode rlp) (\<lambda>v. Done (ucast v))
     else if l \<le> LENGTH('a) div 8 then
       (if bs ! 0 = 0 then Err RlpInvalidIndirection
        else Done (foldl (\<lambda>res i. res + push_bit ((l - 1 - i) * 8) (ucast (bs ! i))) 0 [0..<l]))
     else Err RlpIsTooBig) rlp"

definition usize_append :: "byteorder \<Rightarrow> nat \<Rightarrow> rlp_stream \<Rightarrow> rlp_stream option" where
  "usize_append bo v s = u64_append bo (of_nat v) s"

definition usize_decode :: "bytes \<Rightarrow> nat outcome" where
  "usize_decode rlp = try_then (word_decode rlp :: u64 outcome) (\<lambda>v. Done (unat v))"

text \<open>The hashes: \<open>n\<close> is 8, 16, 20, 32, 64, 65 or 256.\<close>

definition hash_append :: "byteorder \<Rightarrow> bytes \<Rightarrow> rlp_stream \<Rightarrow> rlp_stream option" where
  "hash_append bo h s = encode_value bo h s"

definition hash_decode :: "nat \<Rightarrow> bytes \<Rightarrow> bytes outcome" where
  "hash_decode n rlp = decode_value (\<lambda>bs.
     if length bs < n then Err RlpIsTooShort
     else if length bs > n then Err RlpIsTooBig
     else Done bs) rlp"

text \<open>\<open>U256\<close> (4 words) and \<open>U128\<close> (2 words).\<close>

definition uint_append :: "byteorder \<Rightarrow> nat \<Rightarrow> uint \<Rightarrow> rlp_stream \<Rightarrow> rlp_stream option" where
  "uint_append bo n v s = do {
     leading_empty_bytes \<leftarrow> usize_sub (n * 8) ((uint_bits v + 7) div 8);
     buf \<leftarrow> to_big_endian bo v (n * 8);
     encode_value bo (drop leading_empty_bytes buf) s }"

definition uint_decode :: "nat \<Rightarrow> bytes \<Rightarrow> uint outcome" where
  "uint_decode n rlp = decode_value (\<lambda>bs.
     if bs \<noteq> [] \<and> bs ! 0 = 0 then Err RlpInvalidIndirection
     else if length bs \<le> n * 8 then (case from_bytes n bs of Some v \<Rightarrow> Done v | None \<Rightarrow> Panic)
     else Err RlpIsTooBig) rlp"

text \<open>Strings; \<open>from_utf8\<close> is the standard library's validation.\<close>

definition string_append :: "byteorder \<Rightarrow> bytes \<Rightarrow> rlp_stream \<Rightarrow> rlp_stream option" where
  "string_append bo v s = encode_value bo v s"

definition string_decode :: "(bytes \<Rightarrow> bytes option) \<Rightarrow> bytes \<Rightarrow> bytes outcome" where
  "string_decode from_utf8 rlp = decode_value (\<lambda>bs.
     case from_utf8 bs of Some s \<Rightarrow> Done s | None \<Rightarrow> Err RlpExpectedToBeData) rlp"

text \<open>The trusting view of \<open>rlpin.rs\<close>: errors are panics.\<close>

definition rlp_unwrap :: "'a outcome \<Rightarrow> 'a option" where
  "rlp_unwrap r = (case r of Done x \<Rightarrow> Some x | _ \<Rightarrow> None)"

definition rlp_as_val :: "(bytes \<Rightarrow> 'a outcome) \<Rightarrow> bytes \<Rightarrow> 'a option" where
  "rlp_as_val dec bs = rlp_unwrap (dec bs)"

definition rlp_item_count :: "untrusted \<Rightarrow> nat" where
  "rlp_item_count r = (case fst (item_count r) of Done n \<Rightarrow> n | _ \<Rightarrow> 0)"

definition rlp_at_unwrap :: "untrusted \<Rightarrow> nat \<Rightarrow> untrusted option" where
  "rlp_at_unwrap r index = rlp_unwrap (fst (rlp_at r index))"

definition rlp_val_at :: "(bytes \<Rightarrow> 'a outcome) \<Rightarrow> untrusted \<Rightarrow> nat \<Rightarrow> 'a option" where
  "rlp_val_at dec r index = do { i \<leftarrow> rlp_at_unwrap r index; rlp_as_val dec (rbytes i) }"

definition rlp_as_list :: "(bytes \<Rightarrow> 'a outcome) \<Rightarrow> untrusted \<Rightarrow> 'a list option" where
  "rlp_as_list dec r = rlp_unwrap (collect (\<lambda>i. dec (rbytes i)) (fst (rlp_iter r)))"

definition rlp_list_at :: "(bytes \<Rightarrow> 'a outcome) \<Rightarrow> untrusted \<Rightarrow> nat \<Rightarrow> 'a list option" where
  "rlp_list_at dec r index = do { i \<leftarrow> rlp_at_unwrap r index; rlp_as_list dec i }"

definition decode :: "(bytes \<Rightarrow> 'a outcome) \<Rightarrow> bytes \<Rightarrow> 'a option" where
  "decode dec bs = rlp_as_val dec bs"

definition decode_list :: "(bytes \<Rightarrow> 'a outcome) \<Rightarrow> bytes \<Rightarrow> 'a list option" where
  "decode_list dec bs = rlp_as_list dec (untrusted_new bs)"

lemma append_all_Nil: "append_all bo [] = Some"
  by (rule ext) simp

subsection \<open>The contract of a type that is encodable and decodable\<close>

text \<open>
  \<open>item x\<close> is the RLP value of \<open>x\<close>; \<open>good x\<close> collects what the encoding needs (lengths of hashes,
  sizes, the law of the byte order).
\<close>

locale rlp_codec =
  fixes bo :: byteorder
    and app :: "'a \<Rightarrow> rlp_stream \<Rightarrow> rlp_stream option"
    and dec :: "bytes \<Rightarrow> 'a outcome"
    and item :: "'a \<Rightarrow> rlp"
    and good :: "'a \<Rightarrow> bool"
  assumes bo_law: "good x \<Longrightarrow> big_endian bo"
    and app_emits: "good x \<Longrightarrow> emits bo (app x) (rlp_enc (item x))"
    and dec_item: "good x \<Longrightarrow> dec (rlp_enc (item x)) = Done x"
    and item_small: "good x \<Longrightarrow> length (rlp_enc (item x)) < 2 ^ 32"
begin

lemma encode_decode: "good x \<Longrightarrow> \<exists>e. encode bo (app x) = Some e \<and> dec e = Done x \<and> decode dec e = Some x"
  using encode_emits[OF app_emits[of x]] dec_item[of x]
  by (auto simp: decode_def rlp_as_val_def rlp_unwrap_def)

lemma encode_item: "good x \<Longrightarrow> encode bo (app x) = Some (rlp_enc (item x))"
  by (rule encode_emits) (rule app_emits)

text \<open>Different values have different encodings.\<close>

lemma encode_inj: "good x \<Longrightarrow> good y \<Longrightarrow> encode bo (app x) = encode bo (app y) \<Longrightarrow> x = y"
  by (metis encode_item dec_item option.inject outcome.inject(1))

lemma list_small_count:
  assumes "length (rlp_enc (RList ys)) < 2 ^ 32"
  shows "length ys < 2 ^ 32"
proof -
  have "length (map rlp_enc ys) \<le> length (concat (map rlp_enc ys))"
    by (rule length_concat_ge) (auto simp: rlp_enc_nonempty)
  moreover have "length (concat (map rlp_enc ys)) \<le> length (rlp_enc (RList ys))" by (simp add: list_bytes_def)
  ultimately show ?thesis using assms unfolding length_map by linarith
qed

lemma list_emits:
  assumes "\<forall>x \<in> set xs. good x" and "xs \<noteq> []" and "length (rlp_enc (RList (map item xs))) < 2 ^ 32"
  shows "emits bo (append_list bo app xs) (rlp_enc (RList (map item xs)))"
proof -
  have bo: "big_endian bo" using assms(1,2) bo_law by (cases xs) auto
  have "list_all2 (emits bo) (map app xs) (map rlp_enc (map item xs))"
    using assms(1) app_emits by (simp add: list_all2_conv_all_nth)
  moreover have "length (map app xs) < 2 ^ 64" using list_small_count[OF assms(3)] by simp
  moreover have "code_list (concat (map rlp_enc (map item xs))) = rlp_enc (RList (map item xs))"
    using assms(3) by (simp add: code_list_small list_bytes_def)
  ultimately show ?thesis using emits_list[OF bo] by (metis append_list_body)
qed

lemma collect_items: "\<forall>x \<in> set xs. good x \<Longrightarrow>
    collect (\<lambda>i. dec (rbytes i)) (map (\<lambda>x. untrusted_new (rlp_enc x)) (map item xs)) = Done xs"
  by (induction xs) (simp_all add: dec_item untrusted_new_def)

lemma as_list_items:
  assumes "\<forall>x \<in> set xs. good x" and "views r (map item xs)" and "list_ok (map item xs)"
  shows "as_list dec r = Done xs" and "rlp_as_list dec r = Some xs"
  using rlp_iter_views[OF assms(2,3)] collect_items[OF assms(1)]
  by (simp_all add: as_list_def rlp_as_list_def rlp_unwrap_def comp_def)

lemma encode_list_decode_list:
  assumes "\<forall>x \<in> set xs. good x" and "xs \<noteq> []" and "length (rlp_enc (RList (map item xs))) < 2 ^ 32"
  shows "\<exists>e. encode_list bo app xs = Some e \<and> decode_list dec e = Some xs"
proof -
  have bo: "big_endian bo" using assms(1,2) bo_law by (cases xs) auto
  let ?e = "rlp_enc (RList (map item xs))"
  have "list_all2 (emits bo) (map app xs) (map rlp_enc (map item xs))"
    using assms(1) app_emits by (simp add: list_all2_conv_all_nth)
  moreover have "length (map app xs) < 2 ^ 64" using list_small_count[OF assms(3)] by simp
  moreover have "code_list (concat (map rlp_enc (map item xs))) = ?e"
    using assms(3) by (simp add: code_list_small list_bytes_def)
  ultimately have "rlp_bytes (list_body bo (map app xs)) = Some ?e" using rlp_bytes_list[OF bo] by metis
  then have "encode_list bo app xs = Some ?e"
    by (simp add: encode_list_def rlp_bytes_def append_list_body)
  moreover have "decode_list dec ?e = Some xs"
    using as_list_items(2)[OF assms(1) views_new] assms(3) by (simp add: decode_list_def list_ok_def)
  ultimately show ?thesis by blast
qed

lemma val_at_item:
  assumes "good x" and "views r ys" and "list_ok ys" and "i < length ys" and "ys ! i = item x"
  shows "fst (val_at dec r i) = Done x" and "views (snd (val_at dec r i)) ys"
proof -
  have "i < usize_max" using list_ok_length[OF assms(3)] assms(4) by simp
  from rlp_at_views[OF assms(2,3) this] obtain r' where
    "rlp_at r i = (Done (untrusted_new (rlp_enc (item x))), r')" "views r' ys"
    using assms(4,5) by (metis prod.collapse)
  then show "fst (val_at dec r i) = Done x" "views (snd (val_at dec r i)) ys"
    using dec_item[OF assms(1)] by (simp_all add: val_at_def untrusted_new_def)
qed

lemma option_roundtrip:
  assumes "good x" and "length (rlp_enc (RList [item x])) < 2 ^ 32"
  shows "\<exists>e. encode bo (option_append bo app (Some x)) = Some e \<and> option_decode dec e = Done (Some x)"
proof -
  let ?e = "rlp_enc (RList [item x])"
  have bo: "big_endian bo" using bo_law[OF assms(1)] .
  have body: "option_append bo app (Some x) = list_body bo [app x]"
    by (rule ext) (simp add: option_append_def list_body_def append_all_Nil)
  have "emits bo (list_body bo [app x]) (code_list (concat [rlp_enc (item x)]))"
    using app_emits[OF assms(1)] by (intro emits_list[OF bo]) simp_all
  moreover have "code_list (concat [rlp_enc (item x)]) = ?e"
    using assms(2) by (simp add: code_list_small list_bytes_def)
  ultimately have "encode bo (option_append bo app (Some x)) = Some ?e"
    unfolding body using encode_emits by metis
  moreover have "option_decode dec ?e = Done (Some x)"
  proof -
    have ok: "list_ok [item x]" using assms(2) by (simp add: list_ok_def)
    obtain r where r: "item_count (untrusted_new ?e) = (Done 1, r)" "views r [item x]"
      using item_count_views[OF views_new ok] by (cases "item_count (untrusted_new ?e)") auto
    show ?thesis using val_at_item(1)[OF assms(1) r(2) ok, of 0] r(1)
      by (simp add: option_decode_def del: rlp_enc.simps)
  qed
  ultimately show ?thesis by blast
qed

end

subsection \<open>The types of the file\<close>

definition bool_item :: "bool \<Rightarrow> rlp" where
  "bool_item b = RData [if b then 1 else 0]"

definition word_item :: "'a::len word \<Rightarrow> rlp" where
  "word_item v = RData (min_be (unat v))"

definition uint_item :: "uint \<Rightarrow> rlp" where
  "uint_item v = RData (min_be (uval v))"

lemma data_small: "length bs < 2 ^ 31 \<Longrightarrow> length (data_bytes bs) < 2 ^ 32"
proof -
  assume l: "length bs < 2 ^ 31"
  then have "nbytes (length bs) \<le> 4" by (simp add: nbytes_le_iff)
  then show ?thesis using l by (auto simp: data_bytes_def rlp_header_def)
qed

lemmas data_sizes = data_small data_small[simplified]

lemma data_emits:
  assumes "big_endian bo" and "length bs < 2 ^ 31"
  shows "emits bo (encode_value bo bs) (data_bytes bs)"
  using emits_value[OF assms(1), of bs] assms(2) by (simp add: code_data_small)

lemma data_dec: "length bs < 2 ^ 31 \<Longrightarrow> decode_value f (data_bytes bs) = f bs"
  using decode_value_enc[of bs f "[]"] data_small[of bs] by simp

lemma unat_min_be_length: "LENGTH('a::len) = 8 * n \<Longrightarrow> nbytes (unat (v :: 'a word)) \<le> n"
  using leading_zeros_bytes(2)[of n v] by simp

text \<open>Reading the bytes of a word.\<close>

lemma word_fold:
  assumes "length bs * 8 \<le> LENGTH('a::len)"
  shows "foldl (\<lambda>res i. res + push_bit ((length bs - 1 - i) * 8) (ucast (bs ! i))) (0 :: 'a word) [0..<length bs] =
    of_nat (be_val bs)"
proof -
  let ?f = "\<lambda>res i. res + push_bit ((length bs - 1 - i) * 8) (ucast (bs ! i)) :: 'a word"
  have "foldl ?f 0 [0..<i] = of_nat (be_val (take i bs) * 256 ^ (length bs - i))" if "i \<le> length bs" for i
    using that
  proof (induction i)
    case 0
    then show ?case by simp
  next
    case (Suc i)
    have e: "length bs - i = Suc (length bs - 1 - i)" using Suc.prems by simp
    have u: "(ucast (bs ! i) :: 'a word) = of_nat (unat (bs ! i))" by simp
    have "push_bit ((length bs - 1 - i) * 8) (ucast (bs ! i) :: 'a word) =
        of_nat (unat (bs ! i) * 256 ^ (length bs - 1 - i))"
      unfolding u push_bit_eq_mult using power_mult[of "2 :: 'a word" 8 "length bs - 1 - i"]
      by (simp add: mult.commute)
    moreover have "foldl ?f 0 [0..<i] = of_nat (be_val (take i bs) * 256 ^ Suc (length bs - 1 - i))"
      using Suc.IH Suc.prems unfolding e by simp
    moreover have "take (Suc i) bs = take i bs @ [bs ! i]" using Suc.prems by (simp add: take_Suc_conv_app_nth)
    ultimately show ?case by (simp add: algebra_simps)
  qed
  from this[of "length bs"] show ?thesis by simp
qed

lemma min_be_1: "nbytes v = 1 \<Longrightarrow> min_be v = [of_nat v] \<and> v < 256 \<and> 0 < v"
proof -
  assume n: "nbytes v = 1"
  then have "v < 256" using nbytes_le_iff[of v 1] by simp
  moreover have "0 < v" using n by (cases v) simp_all
  ultimately show ?thesis using n by (simp add: min_be_def)
qed

lemma nbytes_0_iff: "nbytes v = 0 \<longleftrightarrow> v = 0"
  using nbytes_le_iff[of v 0] by auto

lemma u8_decode_item:
  assumes "v < 256"
  shows "u8_decode (data_bytes (min_be v)) = Done (of_nat v)"
proof (cases "v = 0")
  case True
  then show ?thesis by (simp add: u8_decode_def data_dec min_be_def)
next
  case False
  then have "nbytes v = 1" using assms nbytes_le_iff[of v 1] nbytes_0_iff[of v] by simp
  note m = min_be_1[OF this]
  have "unat (of_nat v :: u8) = v" using assms by (simp add: unat_of_nat)
  then have "(of_nat v :: u8) \<noteq> 0" using False by (metis unat_0)
  then show ?thesis using m by (simp add: u8_decode_def data_dec)
qed

lemma word_decode_item:
  assumes "LENGTH('a::len) = 8 * n" and "8 * n < 256" and "0 < n"
  shows "word_decode (rlp_enc (word_item (v :: 'a word))) = Done v"
proof -
  let ?b = "min_be (unat v)"
  have nb: "nbytes (unat v) \<le> n" by (rule unat_min_be_length[OF assms(1)])
  have l: "length ?b < 2 ^ 31" using nb assms(2) by simp
  show ?thesis
  proof (cases "nbytes (unat v) \<le> 1")
    case True
    then have lt: "unat v < 256" using nbytes_le_iff[of "unat v" 1] by simp
    have u: "unat (of_nat (unat v) :: u8) = unat v" by (subst unat_of_nat) (simp add: lt)
    have le: "LENGTH(8) \<le> LENGTH('a)" using assms(1,3) by simp
    have e: "ucast (of_nat (unat v) :: u8) = v"
      unfolding word_unat_eq_iff unat_ucast_up[where 'a = 8 and 'b = 'a, OF le] by (rule u)
    have "word_decode (data_bytes ?b) = try_then (u8_decode (data_bytes ?b)) (\<lambda>v. Done (ucast v :: 'a word))"
      using True by (simp add: word_decode_def data_dec[OF l])
    then show ?thesis unfolding u8_decode_item[OF lt] try_then.simps e by (simp add: word_item_def)
  next
    case False
    then have v0: "unat v \<noteq> 0" using nbytes_0_iff[of "unat v"] by (metis zero_le)
    then have h: "hd ?b \<noteq> 0" and ne: "?b \<noteq> []" using hd_min_be[of "unat v"] by blast+
    then have "?b ! 0 \<noteq> 0" by (simp add: hd_conv_nth)
    moreover have "length ?b * 8 \<le> LENGTH('a)" using nb assms(1) by simp
    note f = word_fold[OF this]
    ultimately show ?thesis using False nb f assms(1)
      by (simp add: word_decode_def word_item_def data_dec[OF l] Let_def)
  qed
qed

lemma uint_be_min:
  assumes "big_endian bo" and "length v = n" and "0 < n"
  shows "uint_append bo n v = encode_value bo (min_be (uval v))" and "nbytes (uval v) \<le> n * 8"
proof -
  have v: "v \<noteq> []" using assms by auto
  note b = uint_bits_val[OF v]
  have nb: "nbytes (uval v) = (uint_bits v + 7) div 8"
    by (rule nbytes_bits) (use b in auto)
  have "uval v < 256 ^ (n * 8)"
    using uval_bound[of v] assms(2) power_mult[of "2 :: nat" 8 "n * 8"] by (simp add: mult.commute)
  then show le: "nbytes (uval v) \<le> n * 8" by (simp add: nbytes_le_iff)
  have "to_big_endian bo v (n * 8) = Some (be_bytes (n * 8) (uval v))"
    using to_big_endian_val[OF assms(1), of v] assms(2) by (simp add: mult.commute)
  then show "uint_append bo n v = encode_value bo (min_be (uval v))"
    using le drop_be_bytes[OF le] by (intro ext) (simp add: uint_append_def nb usize_sub_def)
qed

lemma uint_decode_item:
  assumes "length v = n" and "0 < n" and "n \<le> 8"
  shows "uint_decode n (rlp_enc (uint_item v)) = Done v"
proof -
  let ?b = "min_be (uval v)"
  have nb: "nbytes (uval v) \<le> n * 8"
    using uval_bound[of v] assms(1) power_mult[of "2 :: nat" 8 "n * 8"]
    by (simp add: nbytes_le_iff mult.commute)
  then have l: "length ?b < 2 ^ 31" using assms(3) by simp
  have "?b \<noteq> [] \<Longrightarrow> ?b ! 0 \<noteq> 0"
    using hd_min_be[of "uval v"] by (cases "uval v = 0") (auto simp: min_be_def hd_conv_nth)
  moreover have "from_bytes n ?b = Some v" using nb assms(1) by (simp add: from_bytes_val)
  ultimately show ?thesis using nb
    by (auto simp: uint_decode_def uint_item_def data_dec[OF l])
qed

text \<open>Every type of the file fulfils the contract.\<close>

interpretation bool_rlp: rlp_codec bo "bool_append bo" bool_decode bool_item "\<lambda>_. big_endian bo" for bo
proof
  fix x assume bo: "big_endian bo"
  show "big_endian bo" by (rule bo)
  have "bool_append bo x = encode_value bo [if x then 1 else 0]" by (rule ext) (simp add: bool_append_def)
  then show "emits bo (bool_append bo x) (rlp_enc (bool_item x))"
    by (simp add: bool_item_def data_emits[OF bo])
  show "bool_decode (rlp_enc (bool_item x)) = Done x" by (simp add: bool_decode_def bool_item_def data_dec)
  show "length (rlp_enc (bool_item x)) < 2 ^ 32" by (simp add: bool_item_def data_sizes)
qed

interpretation bytes_rlp: rlp_codec bo "bytes_append bo" bytes_decode RData
  "\<lambda>bs. big_endian bo \<and> length bs < 2 ^ 31" for bo
  by unfold_locales
    (simp_all add: bytes_append_def[abs_def] bytes_decode_def data_emits data_dec data_sizes)

interpretation u8_rlp: rlp_codec bo "u8_append bo" u8_decode word_item "\<lambda>_. big_endian bo" for bo
proof
  fix x :: u8 assume bo: "big_endian bo"
  show "big_endian bo" by (rule bo)
  have lt: "unat x < 256" using unat_bound[of x] by simp
  have "nbytes (unat x) \<le> 1" using lt by (simp add: nbytes_le_iff)
  then have l: "length (min_be (unat x)) < 2 ^ 31" by simp
  have "min_be (unat x) = (if x \<noteq> 0 then [x] else [])"
    using min_be_1[of "unat x"] nbytes_0_iff[of "unat x"] \<open>nbytes (unat x) \<le> 1\<close>
    by (cases "unat x = 0") (auto simp: unat_eq_0 min_be_def le_Suc_eq)
  then have "u8_append bo x = encode_value bo (min_be (unat x))" by (intro ext) (simp add: u8_append_def)
  then show "emits bo (u8_append bo x) (rlp_enc (word_item x))"
    by (simp add: word_item_def data_emits[OF bo l])
  show "u8_decode (rlp_enc (word_item x)) = Done x"
    using u8_decode_item[OF lt] by (simp add: word_item_def)
  show "length (rlp_enc (word_item x)) < 2 ^ 32" using data_small[OF l] by (simp add: word_item_def)
qed

lemma word_codec:
  assumes "LENGTH('a::len) = 8 * n" and "8 * n < 256" and "0 < n" and "big_endian bo"
    and "app = encode_value bo (drop (leading_zeros (v :: 'a word) div 8) (be_bytes n (unat v)))"
  shows "emits bo app (rlp_enc (word_item v)) \<and> word_decode (rlp_enc (word_item v)) = Done v \<and>
    length (rlp_enc (word_item v)) < 2 ^ 32"
proof -
  have l: "length (min_be (unat v)) < 2 ^ 31" using unat_min_be_length[OF assms(1), of v] assms(2) by simp
  have "app = encode_value bo (min_be (unat v))"
    using leading_zeros_bytes(3)[OF assms(1), of v] assms(5) by simp
  then show ?thesis using data_emits[OF assms(4) l] data_small[OF l] word_decode_item[OF assms(1-3), of v]
    by (simp add: word_item_def)
qed

interpretation u16_rlp: rlp_codec bo "u16_append bo" word_decode word_item "\<lambda>_. big_endian bo" for bo
  by unfold_locales
    (use word_codec[where 'a = 16 and n = 2 and bo = bo, OF _ _ _ _ refl] in \<open>simp_all add: u16_append_def[abs_def] model_simps\<close>)

interpretation u32_rlp: rlp_codec bo "u32_append bo" word_decode word_item "\<lambda>_. big_endian bo" for bo
  by unfold_locales
    (use word_codec[where 'a = 32 and n = 4 and bo = bo, OF _ _ _ _ refl] in \<open>simp_all add: u32_append_def[abs_def] model_simps\<close>)

interpretation u64_rlp: rlp_codec bo "u64_append bo" word_decode word_item "\<lambda>_. big_endian bo" for bo
  by unfold_locales
    (use word_codec[where 'a = 64 and n = 8 and bo = bo, OF _ _ _ _ refl] in \<open>simp_all add: u64_append_def[abs_def] model_simps\<close>)

interpretation usize_rlp: rlp_codec bo "usize_append bo" usize_decode "\<lambda>n. word_item (of_nat n :: u64)"
  "\<lambda>n. big_endian bo \<and> n < 2 ^ 64" for bo
  by unfold_locales
    (use u64_rlp.app_emits[of bo] u64_rlp.dec_item[of bo] u64_rlp.item_small[of bo]
      in \<open>simp_all add: usize_append_def[abs_def] usize_decode_def unat_of_nat\<close>)

interpretation hash_rlp: rlp_codec bo "hash_append bo" "hash_decode n" RData
  "\<lambda>h. big_endian bo \<and> length h = n \<and> n \<le> 256" for bo n
  by unfold_locales
    (auto simp: hash_append_def[abs_def] hash_decode_def data_emits data_dec intro!: data_sizes data_emits)

interpretation uint_rlp: rlp_codec bo "uint_append bo n" "uint_decode n" uint_item
  "\<lambda>v. big_endian bo \<and> length v = n \<and> 0 < n \<and> n \<le> 8" for bo n
proof
  fix v :: uint assume v: "big_endian bo \<and> length v = n \<and> 0 < n \<and> n \<le> 8"
  then have bo: "big_endian bo" and n: "length v = n" "0 < n" "n \<le> 8" by simp_all
  show "big_endian bo" by (rule bo)
  note a = uint_be_min[OF bo n(1,2)]
  have l: "length (min_be (uval v)) < 2 ^ 31" using a(2) n(3) by simp
  show "emits bo (uint_append bo n v) (rlp_enc (uint_item v))"
    by (simp add: a(1) uint_item_def data_emits[OF bo l])
  show "uint_decode n (rlp_enc (uint_item v)) = Done v" by (rule uint_decode_item[OF n])
  show "length (rlp_enc (uint_item v)) < 2 ^ 32" using data_small[OF l] by (simp add: uint_item_def)
qed

subsection \<open>Properties\<close>

text \<open>
  C35. Values of every encodable type of the file survive the wire: the bytes \<open>encode\<close> produces
  decode to the same value, for booleans, machine integers, byte strings, hashes and the 256-bit
  integers.\<close>

theorem rlp_values_roundtrip:
  assumes "big_endian bo" and "length bs < 2 ^ 31" and "length h = 32" and "length v = 4"
  shows "(\<exists>e. encode bo (bool_append bo b) = Some e \<and> decode bool_decode e = Some b) \<and>
    (\<exists>e. encode bo (u8_append bo x8) = Some e \<and> decode u8_decode e = Some x8) \<and>
    (\<exists>e. encode bo (u32_append bo x32) = Some e \<and> decode word_decode e = Some x32) \<and>
    (\<exists>e. encode bo (u64_append bo x64) = Some e \<and> decode word_decode e = Some x64) \<and>
    (\<exists>e. encode bo (bytes_append bo bs) = Some e \<and> decode bytes_decode e = Some bs) \<and>
    (\<exists>e. encode bo (hash_append bo h) = Some e \<and> decode (hash_decode 32) e = Some h) \<and>
    (\<exists>e. encode bo (uint_append bo 4 v) = Some e \<and> decode (uint_decode 4) e = Some v)"
proof (intro conjI)
  note bo = assms(1)
  show "\<exists>e. encode bo (bool_append bo b) = Some e \<and> decode bool_decode e = Some b"
    using bool_rlp.encode_decode[OF bo] by blast
  show "\<exists>e. encode bo (u8_append bo x8) = Some e \<and> decode u8_decode e = Some x8"
    using u8_rlp.encode_decode[OF bo] by blast
  show "\<exists>e. encode bo (u32_append bo x32) = Some e \<and> decode word_decode e = Some x32"
    using u32_rlp.encode_decode[OF bo] by blast
  show "\<exists>e. encode bo (u64_append bo x64) = Some e \<and> decode word_decode e = Some x64"
    using u64_rlp.encode_decode[OF bo] by blast
  show "\<exists>e. encode bo (bytes_append bo bs) = Some e \<and> decode bytes_decode e = Some bs"
    using bytes_rlp.encode_decode[of bo bs] bo assms(2) by blast
  show "\<exists>e. encode bo (hash_append bo h) = Some e \<and> decode (hash_decode 32) e = Some h"
    using hash_rlp.encode_decode[of bo h 32] bo assms(3) by simp blast
  show "\<exists>e. encode bo (uint_append bo 4 v) = Some e \<and> decode (uint_decode 4) e = Some v"
    using uint_rlp.encode_decode[of bo v 4] bo assms(4) by simp blast
qed

theorem rlp_values_roundtrip_witness:
  "\<exists>e. encode byteorder_be (uint_append byteorder_be 4 [7, 0, 1, 0]) = Some e \<and> decode (uint_decode 4) e = Some [7, 0, 1, 0]"
  using rlp_values_roundtrip[OF big_endian_byteorder_be, of "[1]" "replicate 32 9" "[7, 0, 1, 0]"] by simp

text \<open>
  A list of numbers written with \<open>encode_list\<close> is read back by \<open>decode_list\<close>, in order.\<close>

theorem rlp_list_roundtrip:
  assumes "big_endian bo" and "ns \<noteq> []" and "length (rlp_enc (RList (map word_item ns))) < 2 ^ 32"
  shows "\<exists>e. encode_list bo (u64_append bo) ns = Some e \<and> decode_list word_decode e = Some ns"
  using u64_rlp.encode_list_decode_list[of ns bo] assms by blast

theorem rlp_list_roundtrip_witness:
  "\<exists>e. encode_list byteorder_be (u64_append byteorder_be) [5, 0] = Some e \<and> decode_list word_decode e = Some [5, 0 :: u64]"
  by (rule rlp_list_roundtrip)
    (simp_all add: word_item_def min_be_def nbytes.simps list_bytes_def data_bytes_def rlp_header_def)

text \<open>
  The decoder is not strict about long headers: a value of up to 55 bytes is also accepted with
  the header of a long value, so a value has more than one encoding that decodes to it.\<close>

theorem decode_value_lenient:
  assumes "0 < length bs" and "length bs \<le> 55"
  shows "decode_value f (0xb8 # of_nat (length bs) # bs) = f bs \<and> 0xb8 # of_nat (length bs) # bs \<noteq> data_bytes bs \<and>
    decode_value f (data_bytes bs) = f bs"
proof (intro conjI)
  let ?l = "of_nat (length bs) :: u8"
  have u: "unat ?l = length bs" using assms(2) by (simp add: unat_of_nat)
  then have nz: "?l \<noteq> 0" using assms(1) by (metis less_irrefl unat_0)
  have "be_val [?l] = length bs" using be_val_snoc[of "[]" ?l] u by simp
  then have d: "decode_usize [?l] = Done (length bs)" using nz decode_usize_val[of "[?l]"] by simp
  show "decode_value f (0xb8 # ?l # bs) = f bs"
    using decode_value_long[OF _ _ _ _ d, of "0xb8" 1 f "[]"] assms(2) by simp
  show "0xb8 # ?l # bs \<noteq> data_bytes bs"
    using assms by (auto simp: data_bytes_def rlp_header_def)
  show "decode_value f (data_bytes bs) = f bs" by (rule data_dec) (use assms(2) in simp)
qed

theorem decode_value_lenient_witness:
  "decode_value Done (0xb8 # of_nat (length [7 :: u8, 7]) # [7, 7]) = Done [7, 7]"
  by (rule decode_value_lenient[THEN conjunct1]) simp_all

end
