(* ===== verification/RlpCompress.thy ===== *)
theory RlpCompress
  imports RlpImpls
begin

section \<open>RLP: compression by swapping common values\<close>

text \<open>
  \<open>util/rlp/src/compression.rs\<close> and the tables of \<open>common.rs\<close>. Common values are replaced by two-byte
  strings \<open>[0x81, k]\<close> that no encoder produces. The functions recurse into the items of a list; an
  item is shorter than its list (\<open>rlp_iter_shorter\<close>), so they terminate on any bytes.
\<close>

subsection \<open>Definitions\<close>

record swapper =
  invalid_to_valid :: "bytes \<rightharpoonup> bytes"
  valid_to_invalid :: "bytes \<rightharpoonup> bytes"

definition swapper_new :: "bytes list \<Rightarrow> bytes list \<Rightarrow> swapper option" where
  "swapper_new rlps_to_swap invalid_rlps =
     (if length rlps_to_swap > 0x7e then None
      else Some (foldl (\<lambda>s (rlp, invalid).
             s\<lparr>invalid_to_valid := (invalid_to_valid s)(invalid \<mapsto> rlp),
               valid_to_invalid := (valid_to_invalid s)(rlp \<mapsto> invalid)\<rparr>)
           \<lparr>invalid_to_valid = Map.empty, valid_to_invalid = Map.empty\<rparr> (zip rlps_to_swap invalid_rlps)))"

definition get_valid :: "swapper \<Rightarrow> bytes \<Rightarrow> bytes option" where
  "get_valid s invalid_rlp = invalid_to_valid s invalid_rlp"

definition get_invalid :: "swapper \<Rightarrow> bytes \<Rightarrow> bytes option" where
  "get_invalid s valid_rlp = valid_to_invalid s valid_rlp"

definition EMPTY_RLPS :: "bytes list" where
  "EMPTY_RLPS =
     [[160, 86, 232, 31, 23, 27, 204, 85, 166, 255, 131, 69, 230, 146, 192, 248, 110, 91,
       72, 224, 27, 153, 108, 173, 192, 1, 98, 47, 181, 227, 99, 180, 33],
      [160, 197, 210, 70, 1, 134, 247, 35, 60, 146, 126, 125, 178, 220, 199, 3, 192, 229,
       0, 182, 83, 202, 130, 39, 59, 123, 250, 216, 4, 93, 133, 164, 112]]"

definition COMMON_RLPS :: "bytes list" where
  "COMMON_RLPS =
     [[160, 86, 232, 31, 23, 27, 204, 85, 166, 255, 131, 69, 230, 146, 192, 248, 110, 91,
       72, 224, 27, 153, 108, 173, 192, 1, 98, 47, 181, 227, 99, 180, 33],
      [160, 197, 210, 70, 1, 134, 247, 35, 60, 146, 126, 125, 178, 220, 199, 3, 192, 229,
       0, 182, 83, 202, 130, 39, 59, 123, 250, 216, 4, 93, 133, 164, 112],
      [160, 29, 204, 77, 232, 222, 199, 93, 122, 171, 133, 181, 103, 182, 204, 212, 26, 211,
       18, 69, 27, 148, 138, 116, 19, 240, 161, 66, 253, 64, 212, 147, 71],
      [148, 50, 190, 52, 59, 148, 248, 96, 18, 77, 196, 254, 226, 120, 253, 203, 211, 140,
       16, 45, 136],
      [148, 82, 188, 68, 213, 55, 131, 9, 238, 42, 191, 21, 57, 191, 113, 222, 27, 125,
       123, 227, 181],
      replicate 256 0]"

definition INVALID_RLPS :: "bytes list" where
  "INVALID_RLPS = map (\<lambda>k. [0x81, of_nat k]) [0..<127]"

text \<open>The items of a list, as the iterator yields them.\<close>

definition sub_items :: "bytes \<Rightarrow> bytes list" where
  "sub_items rlp = map rbytes (fst (rlp_iter (untrusted_new rlp)))"

text \<open>\<open>map_rlp\<close>, given the results of its function on the items.\<close>

definition map_step ::
    "byteorder \<Rightarrow> (bool \<times> rlp_stream) option \<Rightarrow> bytes \<times> bytes option \<Rightarrow> (bool \<times> rlp_stream) option" where
  "map_step bo acc sn =
     (case sn of (sub, new) \<Rightarrow>
        do {
          (is_some, s) \<leftarrow> acc;
          s \<leftarrow> append_raw bo (case new of Some ins \<Rightarrow> ins | None \<Rightarrow> sub) 1 s;
          Some (is_some \<or> new \<noteq> None, s) })"

definition map_rlp :: "byteorder \<Rightarrow> bytes \<Rightarrow> (bytes \<times> bytes option) list \<Rightarrow> bytes option option" where
  "map_rlp bo rlp subs =
     (let n = (case fst (item_count (untrusted_new rlp)) of Done n \<Rightarrow> n | _ \<Rightarrow> 0) in
      do {
        s \<leftarrow> stream_new_list bo n;
        (is_some, s) \<leftarrow> foldl (map_step bo) (Some (False, s)) subs;
        if is_some then map_option Some (drain s) else Some None })"

text \<open>Items are shorter than the list they are found in.\<close>

lemma at_pure_shorter:
  assumes "at_pure bs i = Done b"
  shows "length b < length bs"
proof -
  obtain p where p: "consume_list_payload bs = Done p" and l: "is_list bs"
    using assms by (cases "consume_list_payload bs") (auto simp: at_pure_def split: if_splits)
  then obtain q where q: "consume_items p i = Done q"
    using assms by (cases "consume_items p i") (auto simp: at_pure_def)
  have "length b \<le> length q"
    using assms p q l by (cases "payload_info q") (auto simp: at_pure_def)
  also have "\<dots> \<le> length p" using consume_items_length[OF q] by simp
  also have "\<dots> < length bs"
  proof -
    obtain pi where pi: "payload_info bs = Done pi" "p = drop (header_len pi) bs" "header_len pi \<le> length bs"
      using p by (cases "payload_info bs") (auto simp: consume_list_payload_def consume_def split: if_splits)
    have "payload_info_from bs = Done pi"
      using pi(1) by (cases "payload_info_from bs") (auto simp: payload_info_def split: if_splits)
    then have "0 < header_len pi"
    proof -
      have "header_len pi = 1 + n" if "calculate_payload_info bs n = Done pi" for n
        using that by (cases "decode_usize (take n (drop 1 bs))")
          (auto simp: calculate_payload_info_def Let_def split: if_splits)
      moreover obtain h t where "bs = h # t" "\<not> h \<le> 0xbf"
        using l by (cases bs) (auto simp: is_list_def is_null_def word_le_nat_alt)
      moreover from this(2) have "\<not> h \<le> 0x7f" "\<not> h \<le> 0xb7" by (auto simp: word_le_nat_alt)
      ultimately show ?thesis using \<open>payload_info_from bs = Done pi\<close>
        by (auto simp: payload_info_from_def split: if_splits)
    qed
    then show ?thesis using pi l by (cases bs) (auto simp: is_list_def is_null_def)
  qed
  finally show ?thesis .
qed

lemma rlp_at_shorter:
  assumes "cache_ok r" and "i < usize_max" and "fst (rlp_at r i) = Done x"
  shows "length (rbytes x) < length (rbytes r)"
proof -
  have "try_then (at_pure (rbytes r) i) (\<lambda>b. Done (untrusted_new b)) = Done x"
    using rlp_at_pure[OF assms(1,2)] assms(3) by simp
  then obtain b where "at_pure (rbytes r) i = Done b" "x = untrusted_new b"
    by (cases "at_pure (rbytes r) i") auto
  then show ?thesis using at_pure_shorter by (simp add: untrusted_new_def)
qed

lemma iter_loop_shorter:
  assumes "cache_ok r" and "fuel + i < usize_max" and "x \<in> set (fst (iter_loop fuel r i))"
  shows "length (rbytes x) < length (rbytes r)"
  using assms
proof (induction fuel arbitrary: r i)
  case 0
  then show ?case by simp
next
  case (Suc fuel)
  have i: "i < usize_max" using Suc.prems(2) by simp
  note p = rlp_at_pure[OF Suc.prems(1) i]
  obtain res r' where at: "rlp_at r i = (res, r')" by fastforce
  show ?case
  proof (cases res)
    case (Done y)
    have "x = y \<or> x \<in> set (fst (iter_loop fuel r' (i + 1)))"
      using Suc.prems(3) at Done by (auto split: prod.splits)
    then show ?thesis
      using rlp_at_shorter[OF Suc.prems(1) i, of y] Suc.IH[of r' "i + 1"] Suc.prems(2) p at Done by auto
  qed (use Suc.prems(3) at in auto)
qed

text \<open>The guard on the length is that of any slice in memory.\<close>

lemma sub_items_shorter:
  "length rlp < 2 ^ 63 \<Longrightarrow> b \<in> set (sub_items rlp) \<Longrightarrow> length b < length rlp"
proof -
  assume l: "length rlp < 2 ^ 63" and b: "b \<in> set (sub_items rlp)"
  then obtain x where x: "x \<in> set (fst (rlp_iter (untrusted_new rlp)))" "b = rbytes x"
    by (auto simp: sub_items_def)
  have "length (rbytes (untrusted_new rlp)) + 1 + 0 < usize_max"
    using l by (simp add: usize_max_def untrusted_new_def)
  from iter_loop_shorter[OF cache_ok_new this] x show ?thesis
    by (simp add: rlp_iter_def untrusted_new_def)
qed

function simple_compress :: "byteorder \<Rightarrow> swapper \<Rightarrow> bytes \<Rightarrow> bytes option" where
  "simple_compress bo sw rlp =
     (if 2 ^ 63 \<le> length rlp then None
      else if is_data rlp then Some (case get_invalid sw rlp of Some v \<Rightarrow> v | None \<Rightarrow> rlp)
      else let subs = sub_items rlp in
           case those (map (simple_compress bo sw) subs) of
             None \<Rightarrow> None
           | Some news \<Rightarrow>
               (case map_rlp bo rlp (zip subs (map Some news)) of
                  None \<Rightarrow> None
                | Some r \<Rightarrow> Some (case r of Some v \<Rightarrow> v | None \<Rightarrow> rlp)))"
  by pat_completeness auto

termination simple_compress
  by (relation "measure (\<lambda>(_, _, r). length r)") (auto simp: sub_items_shorter)

function simple_decompress :: "byteorder \<Rightarrow> swapper \<Rightarrow> bytes \<Rightarrow> bytes option" where
  "simple_decompress bo sw rlp =
     (if 2 ^ 63 \<le> length rlp then None
      else if is_data rlp then Some (case get_valid sw rlp of Some v \<Rightarrow> v | None \<Rightarrow> rlp)
      else let subs = sub_items rlp in
           case those (map (simple_decompress bo sw) subs) of
             None \<Rightarrow> None
           | Some news \<Rightarrow>
               (case map_rlp bo rlp (zip subs (map Some news)) of
                  None \<Rightarrow> None
                | Some r \<Rightarrow> Some (case r of Some v \<Rightarrow> v | None \<Rightarrow> rlp)))"
  by pat_completeness auto

termination simple_decompress
  by (relation "measure (\<lambda>(_, _, r). length r)") (auto simp: sub_items_shorter)

function deep_decompress :: "byteorder \<Rightarrow> swapper \<Rightarrow> bytes \<Rightarrow> bytes option option" where
  "deep_decompress bo sw rlp =
     (if 2 ^ 63 \<le> length rlp then None
      else if is_data rlp then Some (get_valid sw rlp)
      else let n = (case fst (item_count (untrusted_new rlp)) of Done n \<Rightarrow> n | _ \<Rightarrow> 0) in
           if n = 2 \<and> (case fst (rlp_at (untrusted_new rlp) 0) of Done r \<Rightarrow> rbytes r = [0x81, 0x7f] | _ \<Rightarrow> False)
           then (case fst (rlp_at (untrusted_new rlp) 1) of
                   Done r \<Rightarrow>
                     (case deep_decompress bo sw (rbytes r) of
                        None \<Rightarrow> None
                      | Some None \<Rightarrow> Some None
                      | Some (Some d) \<Rightarrow> map_option Some (encode bo (bytes_append bo d)))
                 | _ \<Rightarrow> Some (get_valid sw rlp))
           else let subs = sub_items rlp in
                case those (map (deep_decompress bo sw) subs) of
                  None \<Rightarrow> None
                | Some news \<Rightarrow> map_rlp bo rlp (zip subs news))"
  by pat_completeness auto

termination deep_decompress
proof (relation "measure (\<lambda>(_, _, r). length r)", goal_cases)
  case (2 bo sw rlp n r)
  have "fst (rlp_at (untrusted_new rlp) 1) = Done r" using 2 by simp
  then show ?case
    using rlp_at_shorter[OF cache_ok_new, of 1 rlp r] by (simp add: usize_max_def untrusted_new_def)
qed (auto simp: sub_items_shorter)

declare simple_compress.simps [simp del] simple_decompress.simps [simp del] deep_decompress.simps [simp del]

datatype rlp_type = Blocks | Snapshot

definition SNAPSHOT_RLP_SWAPPER :: "swapper option" where
  "SNAPSHOT_RLP_SWAPPER = swapper_new EMPTY_RLPS INVALID_RLPS"

definition BLOCKS_RLP_SWAPPER :: "swapper option" where
  "BLOCKS_RLP_SWAPPER = swapper_new COMMON_RLPS INVALID_RLPS"

definition compress :: "byteorder \<Rightarrow> rlp_type \<Rightarrow> bytes \<Rightarrow> bytes option" where
  "compress bo t rlp =
     (case t of
        Snapshot \<Rightarrow> do { sw \<leftarrow> SNAPSHOT_RLP_SWAPPER; simple_compress bo sw rlp }
      | Blocks \<Rightarrow> do { sw \<leftarrow> BLOCKS_RLP_SWAPPER; simple_compress bo sw rlp })"

definition decompress :: "byteorder \<Rightarrow> rlp_type \<Rightarrow> bytes \<Rightarrow> bytes option" where
  "decompress bo t rlp =
     (case t of
        Snapshot \<Rightarrow> do { sw \<leftarrow> SNAPSHOT_RLP_SWAPPER; simple_decompress bo sw rlp }
      | Blocks \<Rightarrow> do {
          sw \<leftarrow> BLOCKS_RLP_SWAPPER;
          r \<leftarrow> deep_decompress bo sw rlp;
          Some (case r of Some v \<Rightarrow> v | None \<Rightarrow> rlp) })"

subsection \<open>Rebuilding a list\<close>

definition pick :: "bytes \<times> bytes option \<Rightarrow> bytes" where
  "pick sn = (case snd sn of Some ins \<Rightarrow> ins | None \<Rightarrow> fst sn)"

lemma map_step_Some:
  "append_raw bo (case new of Some ins \<Rightarrow> ins | None \<Rightarrow> sub) 1 s = Some s' \<Longrightarrow>
    map_step bo (Some (b, s)) (sub, new) = Some (b \<or> new \<noteq> None, s')"
  by (simp add: map_step_def)

lemma map_fold:
  assumes bo: "big_endian bo"
  shows "rep s [] [(c, k, Some (k + length subs))] \<Longrightarrow> subs \<noteq> [] \<Longrightarrow> k + length subs < 2 ^ 64 \<Longrightarrow>
    \<exists>s'. foldl (map_step bo) (Some (b, s)) subs = Some (b \<or> (\<exists>x \<in> set subs. snd x \<noteq> None), s') \<and>
      rep s' (code_list (c @ concat (map pick subs))) []"
proof (induction subs arbitrary: s c k b)
  case Nil
  then show ?case by simp
next
  case (Cons x subs)
  obtain sub new where x: "x = (sub, new)" by fastforce
  let ?b = "case new of Some ins \<Rightarrow> ins | None \<Rightarrow> sub"
  have pk: "pick x = ?b" by (cases new) (simp_all add: x pick_def)
  have r: "refines (append_raw bo ?b 1 s) (aput ?b 1 [] [(c, k, Some (k + Suc (length subs)))])
      (closing 1 [(c, k, Some (k + Suc (length subs)))])"
    using Cons.prems(1) by (intro append_raw_refines[OF bo]) simp
  show ?case
  proof (cases "subs = []")
    case True
    then have "aput ?b 1 [] [(c, k, Some (k + Suc (length subs)))] = Some (code_list (c @ ?b), [])"
      using Cons.prems(3) by simp
    then obtain s' where "append_raw bo ?b 1 s = Some s'" "rep s' (code_list (c @ ?b)) []"
      using r by (auto simp: refines_def)
    then show ?thesis using True pk map_step_Some[where bo = bo and new = new and sub = sub and s = s and s' = s' and b = b] by (simp add: x)
  next
    case False
    then have "aput ?b 1 [] [(c, k, Some (k + Suc (length subs)))] = Some ([], [(c @ ?b, k + 1, Some (k + 1 + length subs))])"
      using Cons.prems(3) by (cases subs) auto
    then obtain s' where s': "append_raw bo ?b 1 s = Some s'" "rep s' [] [(c @ ?b, k + 1, Some (k + 1 + length subs))]"
      using r by (auto simp: refines_def)
    have "k + 1 + length subs < 2 ^ 64" using Cons.prems(3) by simp
    from Cons.IH[OF s'(2) False this, of "b \<or> new \<noteq> None"] obtain s2 where
      "foldl (map_step bo) (Some (b \<or> new \<noteq> None, s')) subs =
        Some ((b \<or> new \<noteq> None) \<or> (\<exists>x \<in> set subs. snd x \<noteq> None), s2)"
      "rep s2 (code_list ((c @ ?b) @ concat (map pick subs))) []" by blast
    then show ?thesis using pk map_step_Some[OF s'(1), of b] by (simp add: x disj_assoc)
  qed
qed

lemma map_rlp_val:
  assumes "big_endian bo" and "items_ok bs" and "length subs = length bs"
  shows "map_rlp bo (list_bytes (concat bs)) subs =
    Some (if \<exists>x \<in> set subs. snd x \<noteq> None then Some (code_list (concat (map pick subs))) else None)"
proof -
  have n: "fst (item_count (untrusted_new (list_bytes (concat bs)))) = Done (length bs)"
    using item_count_bviews[OF bviews_new assms(2)] by simp
  show ?thesis
  proof (cases "bs = []")
    case True
    then have e: "subs = []" using assms(3) by simp
    have "\<exists>s. stream_new_list bo 0 = Some s"
      by (simp add: stream_new_list_def begin_list_def note_appended.simps stream_new_def)
    then show ?thesis using n True e by (auto simp: map_rlp_def)
  next
    case False
    let ?s = "\<lparr>unfinished_lists = [list_info_new 1 (Some (length bs))], buffer = [0], finished_list = False\<rparr>"
    have s: "stream_new_list bo (length bs) = Some ?s"
      using False by (simp add: stream_new_list_def begin_list_def stream_new_def)
    have r: "rep ?s [] [([], 0, Some (0 + length subs))]"
      using assms(3) by (simp add: rep_def list_info_new_def)
    have "0 + length subs < 2 ^ 64" using items_ok_length[OF assms(2)] assms(3) by (simp add: usize_max_def)
    moreover have "subs \<noteq> []" using False assms(3) by auto
    ultimately obtain s' where
      f: "foldl (map_step bo) (Some (False, ?s)) subs = Some (False \<or> (\<exists>x \<in> set subs. snd x \<noteq> None), s')"
      "rep s' (code_list ([] @ concat (map pick subs))) []" using map_fold[OF assms(1) r] by blast
    have "drain s' = Some (code_list (concat (map pick subs)))"
      using f(2) by (simp add: drain_def is_finished_def rep_def)
    then show ?thesis using n s f(1) by (simp add: map_rlp_def)
  qed
qed

lemma sub_items_bytes: "items_ok bs \<Longrightarrow> sub_items (list_bytes (concat bs)) = bs"
  using rlp_iter_bviews[OF bviews_new, of bs] by (simp add: sub_items_def untrusted_new_def comp_def)

subsection \<open>Compression and decompression are inverse\<close>

definition swapper_ok :: "swapper \<Rightarrow> bool" where
  "swapper_ok sw \<longleftrightarrow>
     (\<forall>v i. valid_to_invalid sw v = Some i \<longrightarrow> invalid_to_valid sw i = Some v) \<and>
     (\<forall>i v. invalid_to_valid sw i = Some v \<longrightarrow> (\<exists>k < 0x7f. i = [0x81, k]) \<and> 2 \<le> length v)"

fun cbytes :: "swapper \<Rightarrow> rlp \<Rightarrow> bytes" where
  "cbytes sw (RData b) = (case valid_to_invalid sw (data_bytes b) of Some i \<Rightarrow> i | None \<Rightarrow> data_bytes b)"
| "cbytes sw (RList xs) = list_bytes (concat (map (cbytes sw) xs))"

lemma data_bytes_not_invalid:
  assumes "k < 0x80"
  shows "data_bytes b \<noteq> [0x81, k]"
proof (cases "length b = 1")
  case True
  then obtain x where b: "b = [x]" by (cases b) auto
  have "data_bytes [x] = (if x < 0x80 then [x] else [0x81, x])" by (simp add: data_bytes_def rlp_header_def)
  then show ?thesis using assms b by (auto split: if_splits)
next
  case False
  have "length (data_bytes b) \<noteq> 2"
    using False by (auto simp: data_bytes_def rlp_header_def)
  then show ?thesis by (metis length_Cons list.size(3) numeral_2_eq_2)
qed

lemma invalid_framed: "framed [0x81, k] \<and> is_data [0x81, k]"
  by (auto simp: framed_def payload_info_def payload_info_from_def payload_total_def is_data_def is_null_def
    word_le_nat_alt word_less_nat_alt)

lemma cbytes_framed:
  assumes "swapper_ok sw" and "length (cbytes sw t) < 2 ^ 32" and "length (rlp_enc t) < 2 ^ 32"
  shows "framed (cbytes sw t)"
proof (cases t)
  case (RData b)
  show ?thesis
  proof (cases "valid_to_invalid sw (data_bytes b)")
    case None
    then show ?thesis using framed_enc[of t] assms(3) by (simp add: RData)
  next
    case (Some i)
    then obtain k where "i = [0x81, k]" using assms(1) unfolding swapper_ok_def by blast
    then show ?thesis using invalid_framed Some by (simp add: RData)
  qed
next
  case (RList xs)
  then show ?thesis using assms(2) by (simp add: framed_list_bytes)
qed

lemma cbytes_children:
  assumes "length (list_bytes (concat bs)) < n" and "b \<in> set bs"
  shows "length b < n"
proof -
  have "length b \<le> length (concat bs)" using assms(2) by (auto dest!: split_list)
  then show ?thesis using assms(1) by (simp add: list_bytes_def)
qed

lemma cbytes_items:
  assumes "swapper_ok sw" and "length (cbytes sw (RList xs)) < 2 ^ 32" and "length (rlp_enc (RList xs)) < 2 ^ 32"
  shows "items_ok (map (cbytes sw) xs)" and "items_ok (map rlp_enc xs)"
    and "\<forall>x \<in> set xs. length (cbytes sw x) < 2 ^ 32 \<and> length (rlp_enc x) < 2 ^ 32"
proof -
  show c: "\<forall>x \<in> set xs. length (cbytes sw x) < 2 ^ 32 \<and> length (rlp_enc x) < 2 ^ 32"
  proof
    fix x assume "x \<in> set xs"
    then show "length (cbytes sw x) < 2 ^ 32 \<and> length (rlp_enc x) < 2 ^ 32"
      using cbytes_children[OF assms(2)[unfolded cbytes.simps], of "cbytes sw x"]
        cbytes_children[OF assms(3)[unfolded rlp_enc.simps], of "rlp_enc x"] by simp
  qed
  then have "\<forall>x \<in> set xs. framed (cbytes sw x)" using cbytes_framed[OF assms(1)] by blast
  then show "items_ok (map (cbytes sw) xs)" using assms(2) by (simp add: items_ok_def)
  show "items_ok (map rlp_enc xs)" using assms(3) by (intro items_ok_enc) (simp add: list_ok_def)
qed

lemma those_map: "(\<And>x. x \<in> set xs \<Longrightarrow> f (g x) = Some (h x)) \<Longrightarrow> those (map f (map g xs)) = Some (map h xs)"
  by (induction xs) auto

lemma pick_zip: "length xs = length ys \<Longrightarrow> map pick (zip xs (map Some ys)) = ys"
  by (induction xs ys rule: list_induct2) (auto simp: pick_def)

lemma some_zip: "length xs = length ys \<Longrightarrow> (\<exists>x \<in> set (zip xs (map Some ys)). snd x \<noteq> None) \<longleftrightarrow> xs \<noteq> []"
  by (cases xs; cases ys) auto

lemma code_list_eq: "length (list_bytes p) < 2 ^ 32 \<Longrightarrow> code_list p = list_bytes p"
  by (rule code_list_small) (simp add: list_bytes_def)

lemma is_data_list_bytes: "length (list_bytes p) < 2 ^ 64 \<Longrightarrow> \<not> is_data (list_bytes p)"
  using is_list_bytes[of p] by (auto simp: is_data_def is_list_def)

lemma simple_compress_val:
  assumes "big_endian bo" and "swapper_ok sw"
  shows "length (cbytes sw t) < 2 ^ 32 \<Longrightarrow> length (rlp_enc t) < 2 ^ 32 \<Longrightarrow>
    simple_compress bo sw (rlp_enc t) = Some (cbytes sw t)"
proof (induction t)
  case (RData b)
  have "length b < 2 ^ 64" using RData.prems(2) by (auto simp: data_bytes_def split: if_splits)
  then show ?case using RData.prems(2) is_data_enc[of b]
    by (simp add: simple_compress.simps[of bo sw "data_bytes b"] get_invalid_def)
next
  case (RList xs)
  note it = cbytes_items[OF assms(2) RList.prems]
  have t: "those (map (simple_compress bo sw) (map rlp_enc xs)) = Some (map (cbytes sw) xs)"
    using RList.IH it(3) by (intro those_map) simp
  have m: "map_rlp bo (rlp_enc (RList xs)) (zip (map rlp_enc xs) (map Some (map (cbytes sw) xs))) =
      Some (if xs \<noteq> [] then Some (code_list (concat (map (cbytes sw) xs))) else None)"
  proof -
    let ?z = "zip (map rlp_enc xs) (map Some (map (cbytes sw) xs))"
    have "(\<exists>x \<in> set ?z. snd x \<noteq> None) \<longleftrightarrow> map rlp_enc xs \<noteq> []" by (rule some_zip) simp
    moreover have "map pick ?z = map (cbytes sw) xs" by (rule pick_zip) simp
    ultimately show ?thesis using map_rlp_val[OF assms(1) it(2), of ?z] by simp
  qed
  have "\<not> is_data (rlp_enc (RList xs))" using RList.prems(2) is_data_list_bytes by simp
  moreover have "sub_items (rlp_enc (RList xs)) = map rlp_enc xs" using sub_items_bytes[OF it(2)] by simp
  moreover have "\<not> 2 ^ 63 \<le> length (rlp_enc (RList xs))" using RList.prems(2) by simp
  ultimately show ?case using t m RList.prems(1) code_list_eq[of "concat (map (cbytes sw) xs)"]
    unfolding simple_compress.simps[of bo sw "rlp_enc (RList xs)"] Let_def
    by (simp del: rlp_enc.simps(2) map_map) (simp add: list_bytes_def)
qed

lemma data_not_swapped:
  assumes "swapper_ok sw"
  shows "invalid_to_valid sw (data_bytes b) = None"
proof (rule ccontr)
  assume "invalid_to_valid sw (data_bytes b) \<noteq> None"
  then obtain k where "k < 0x7f" "data_bytes b = [0x81, k]" using assms unfolding swapper_ok_def by blast
  moreover from this(1) have "k < 0x80" by (simp add: word_less_nat_alt)
  ultimately show False using data_bytes_not_invalid by blast
qed

lemma data_cbytes:
  assumes "swapper_ok sw" and "length (data_bytes b) < 2 ^ 32"
  shows "is_data (cbytes sw (RData b))" and "length (cbytes sw (RData b)) < 2 ^ 63"
    and "(case get_valid sw (cbytes sw (RData b)) of Some v \<Rightarrow> v = data_bytes b | None \<Rightarrow> cbytes sw (RData b) = data_bytes b)"
    and "cbytes sw (RData b) \<noteq> [0x81, 0x7f]"
proof -
  have "length b < 2 ^ 64" using assms(2) by (auto simp: data_bytes_def split: if_splits)
  note d = is_data_enc[OF this]
  have 7: "data_bytes b \<noteq> [0x81, 0x7f]" by (rule data_bytes_not_invalid) (simp add: word_less_nat_alt)
  have "is_data (cbytes sw (RData b)) \<and> length (cbytes sw (RData b)) < 2 ^ 63 \<and>
    (case get_valid sw (cbytes sw (RData b)) of Some v \<Rightarrow> v = data_bytes b | None \<Rightarrow> cbytes sw (RData b) = data_bytes b) \<and>
    cbytes sw (RData b) \<noteq> [0x81, 0x7f]"
  proof (cases "valid_to_invalid sw (data_bytes b)")
    case None
    then show ?thesis using d assms(2) data_not_swapped[OF assms(1), of b] 7 by (simp add: get_valid_def)
  next
    case (Some i)
    then have i: "invalid_to_valid sw i = Some (data_bytes b)" using assms(1) unfolding swapper_ok_def by blast
    then obtain k where "k < 0x7f" "i = [0x81, k]" using assms(1) unfolding swapper_ok_def by blast
    then show ?thesis using i Some invalid_framed by (auto simp: get_valid_def)
  qed
  then show "is_data (cbytes sw (RData b))" "length (cbytes sw (RData b)) < 2 ^ 63"
    "(case get_valid sw (cbytes sw (RData b)) of Some v \<Rightarrow> v = data_bytes b | None \<Rightarrow> cbytes sw (RData b) = data_bytes b)"
    "cbytes sw (RData b) \<noteq> [0x81, 0x7f]" by blast+
qed


lemma list_not_data: "length (list_bytes p) < 2 ^ 64 \<Longrightarrow> list_bytes p \<noteq> [0x81, k]"
  using is_data_list_bytes[of p] invalid_framed[of k] by auto

lemma map_rlp_all:
  assumes "big_endian bo" and "items_ok bs" and "length bs = length news" and "length (list_bytes (concat news)) < 2 ^ 32"
  shows "map_rlp bo (list_bytes (concat bs)) (zip bs (map Some news)) =
    Some (if bs \<noteq> [] then Some (list_bytes (concat news)) else None)"
  using map_rlp_val[OF assms(1,2), of "zip bs (map Some news)"] some_zip[OF assms(3)] pick_zip[OF assms(3)]
    code_list_eq[OF assms(4)] assms(3) by simp

lemma simple_decompress_val:
  assumes "big_endian bo" and "swapper_ok sw"
  shows "length (cbytes sw t) < 2 ^ 32 \<Longrightarrow> length (rlp_enc t) < 2 ^ 32 \<Longrightarrow>
    simple_decompress bo sw (cbytes sw t) = Some (rlp_enc t)"
proof (induction t)
  case (RData b)
  have "length (data_bytes b) < 2 ^ 32" using RData.prems(2) by simp
  note d = data_cbytes[OF assms(2) this]
  have "is_data c \<Longrightarrow> length c < 2 ^ 63 \<Longrightarrow>
      simple_decompress bo sw c = Some (case get_valid sw c of Some v \<Rightarrow> v | None \<Rightarrow> c)" for c
    by (simp add: simple_decompress.simps[of bo sw c])
  from this[OF d(1,2)] show ?case using d(3) by (cases "get_valid sw (cbytes sw (RData b))") (simp_all del: cbytes.simps)
next
  case (RList xs)
  note it = cbytes_items[OF assms(2) RList.prems]
  have t: "those (map (simple_decompress bo sw) (map (cbytes sw) xs)) = Some (map rlp_enc xs)"
    using RList.IH it(3) by (intro those_map) simp
  have m: "map_rlp bo (cbytes sw (RList xs)) (zip (map (cbytes sw) xs) (map Some (map rlp_enc xs))) =
      Some (if map (cbytes sw) xs \<noteq> [] then Some (rlp_enc (RList xs)) else None)"
    using map_rlp_all[OF assms(1) it(1), of "map rlp_enc xs"] RList.prems(2) by simp
  have "\<not> is_data (cbytes sw (RList xs))" using RList.prems(1) is_data_list_bytes by simp
  moreover have "sub_items (cbytes sw (RList xs)) = map (cbytes sw) xs" using sub_items_bytes[OF it(1)] by simp
  moreover have "\<not> 2 ^ 63 \<le> length (cbytes sw (RList xs))" using RList.prems(1) by simp
  ultimately show ?case using t m
    unfolding simple_decompress.simps[of bo sw "cbytes sw (RList xs)"] Let_def
    by (simp del: rlp_enc.simps(2) cbytes.simps(2) map_map) (simp add: list_bytes_def)
qed

lemma those_ex:
  "(\<And>x. x \<in> set xs \<Longrightarrow> \<exists>r. f (g x) = Some r \<and> P x r) \<Longrightarrow>
    \<exists>rs. those (map f (map g xs)) = Some rs \<and> list_all2 P xs rs"
proof (induction xs)
  case (Cons x xs)
  obtain r rs where "f (g x) = Some r" "P x r" "those (map f (map g xs)) = Some rs" "list_all2 P xs rs"
    using Cons by (metis list.set_intros)
  then show ?case by (intro exI[of _ "r # rs"]) simp
qed simp

text \<open>What \<open>deep_decompress\<close> promises: nothing was changed, or the original.\<close>

definition restored :: "swapper \<Rightarrow> rlp \<Rightarrow> bytes option \<Rightarrow> bool" where
  "restored sw t r \<longleftrightarrow> (case r of None \<Rightarrow> cbytes sw t = rlp_enc t | Some e \<Rightarrow> e = rlp_enc t)"

lemma restored_pick:
  "list_all2 (restored sw) xs rs \<Longrightarrow> map pick (zip (map (cbytes sw) xs) rs) = map rlp_enc xs"
  by (induction xs rs rule: list_all2_induct) (auto simp: pick_def restored_def split: option.splits)

lemma restored_none:
  "list_all2 (restored sw) xs rs \<Longrightarrow> \<forall>x \<in> set (zip (map (cbytes sw) xs) rs). snd x = None \<Longrightarrow>
    map (cbytes sw) xs = map rlp_enc xs"
  by (induction xs rs rule: list_all2_induct) (auto simp: restored_def split: option.splits)

lemma deep_decompress_val:
  assumes "big_endian bo" and "swapper_ok sw"
  shows "length (cbytes sw t) < 2 ^ 32 \<Longrightarrow> length (rlp_enc t) < 2 ^ 32 \<Longrightarrow>
    \<exists>r. deep_decompress bo sw (cbytes sw t) = Some r \<and> restored sw t r"
proof (induction t)
  case (RData b)
  have "length (data_bytes b) < 2 ^ 32" using RData.prems(2) by simp
  note d = data_cbytes[OF assms(2) this]
  have "is_data c \<Longrightarrow> length c < 2 ^ 63 \<Longrightarrow> deep_decompress bo sw c = Some (get_valid sw c)" for c
    by (simp add: deep_decompress.simps[of bo sw c])
  from this[OF d(1,2)] show ?case using d(3)
    by (cases "get_valid sw (cbytes sw (RData b))") (simp_all add: restored_def del: cbytes.simps)
next
  case (RList xs)
  note it = cbytes_items[OF assms(2) RList.prems]
  let ?c = "cbytes sw (RList xs)" and ?z = "\<lambda>rs. zip (map (cbytes sw) xs) rs"
  have c: "?c = list_bytes (concat (map (cbytes sw) xs))" by simp
  obtain rs where t: "those (map (deep_decompress bo sw) (map (cbytes sw) xs)) = Some rs"
    and rs: "list_all2 (restored sw) xs rs"
    using those_ex[of xs "deep_decompress bo sw" "cbytes sw" "restored sw"] RList.IH it(3) by blast
  have m: "map_rlp bo ?c (?z rs) = Some (if \<exists>x \<in> set (?z rs). snd x \<noteq> None then Some (rlp_enc (RList xs)) else None)"
    using map_rlp_val[OF assms(1) it(1), of "?z rs"] restored_pick[OF rs] list_all2_lengthD[OF rs]
      code_list_eq[of "concat (map rlp_enc xs)"] RList.prems(2) by simp
  have first: "fst (item_count (untrusted_new ?c)) = Done 2 \<Longrightarrow>
      fst (rlp_at (untrusted_new ?c) 0) = Done r \<Longrightarrow> rbytes r \<noteq> [0x81, 0x7f]" for r
  proof -
    assume n: "fst (item_count (untrusted_new ?c)) = Done 2" and at: "fst (rlp_at (untrusted_new ?c) 0) = Done r"
    have "length xs = 2" using n item_count_bviews[OF bviews_new it(1)] by simp
    then obtain x ys where xs: "xs = x # ys" by (cases xs) auto
    have "rbytes r = cbytes sw x"
      using at rlp_at_bviews[OF bviews_new it(1), of 0] by (simp add: xs untrusted_new_def usize_max_def)
    moreover have "cbytes sw x \<noteq> [0x81, 0x7f]"
    proof (cases x)
      case (RData b)
      then show ?thesis using data_cbytes(4)[OF assms(2), of b] it(3) by (simp add: xs)
    next
      case (RList ys)
      then show ?thesis using list_not_data[of "concat (map (cbytes sw) ys)"] it(3) by (simp add: xs)
    qed
    ultimately show ?thesis by simp
  qed
  have "\<not> is_data ?c" using RList.prems(1) is_data_list_bytes by simp
  moreover have "sub_items ?c = map (cbytes sw) xs" using sub_items_bytes[OF it(1)] by simp
  moreover have "\<not> 2 ^ 63 \<le> length ?c" using RList.prems(1) by simp
  moreover have "\<exists>n. fst (item_count (untrusted_new ?c)) = Done n" using item_count_bviews[OF bviews_new it(1)] by simp
  ultimately have "deep_decompress bo sw ?c = map_rlp bo ?c (?z rs)"
    using t first unfolding deep_decompress.simps[of bo sw ?c] Let_def
    by (auto simp del: cbytes.simps(2) map_map split: outcome.splits)
  moreover have "restored sw (RList xs) (if \<exists>x \<in> set (?z rs). snd x \<noteq> None then Some (rlp_enc (RList xs)) else None)"
    using restored_none[OF rs] by (auto simp: restored_def simp del: map_eq_conv)
  ultimately show ?case using m by (intro exI conjI) (simp only:, assumption)
qed

subsection \<open>The tables\<close>

lemma swapper_fold:
  "invalid_to_valid (foldl (\<lambda>s (rlp, invalid).
      s\<lparr>invalid_to_valid := (invalid_to_valid s)(invalid \<mapsto> rlp), valid_to_invalid := (valid_to_invalid s)(rlp \<mapsto> invalid)\<rparr>) s ps) =
    invalid_to_valid s ++ map_of (rev (map prod.swap ps)) \<and>
   valid_to_invalid (foldl (\<lambda>s (rlp, invalid).
      s\<lparr>invalid_to_valid := (invalid_to_valid s)(invalid \<mapsto> rlp), valid_to_invalid := (valid_to_invalid s)(rlp \<mapsto> invalid)\<rparr>) s ps) =
    valid_to_invalid s ++ map_of (rev ps)"
  by (induction ps arbitrary: s) (auto simp: fun_eq_iff map_add_def split: option.splits)

lemma INVALID_RLPS_facts: "distinct INVALID_RLPS" "length INVALID_RLPS = 127" "i \<in> set INVALID_RLPS \<Longrightarrow> \<exists>k < 0x7f. i = [0x81, k]"
proof -
  have "inj_on (\<lambda>k. [0x81, of_nat k :: u8]) {0..<127}"
  proof (rule inj_onI)
    fix i j assume ij: "i \<in> {0..<127::nat}" "j \<in> {0..<127}" "[0x81, of_nat i :: u8] = [0x81, of_nat j]"
    then have "unat (of_nat i :: u8) = unat (of_nat j :: u8)" by simp
    then show "i = j" using ij(1,2) by (simp add: unat_of_nat)
  qed
  then show "distinct INVALID_RLPS" by (simp add: INVALID_RLPS_def distinct_map)
  show "length INVALID_RLPS = 127" by (simp add: INVALID_RLPS_def)
  show "\<exists>k < 0x7f. i = [0x81, k]" if i: "i \<in> set INVALID_RLPS"
  proof -
    obtain j where "j < 127" "i = [0x81, of_nat j]" using i unfolding INVALID_RLPS_def by auto
    then show ?thesis by (intro exI[of _ "of_nat j"]) (simp add: word_less_nat_alt unat_of_nat)
  qed
qed

lemma swapper_new_ok:
  assumes "distinct vs" and "length vs \<le> 0x7e" and "\<forall>v \<in> set vs. 2 \<le> length v"
  shows "\<exists>sw. swapper_new vs INVALID_RLPS = Some sw \<and> swapper_ok sw"
proof -
  let ?p = "zip vs INVALID_RLPS"
  obtain sw where sw: "swapper_new vs INVALID_RLPS = Some sw"
    "invalid_to_valid sw = map_of (rev (map prod.swap ?p))" "valid_to_invalid sw = map_of (rev ?p)"
    using assms(2) swapper_fold[of "\<lparr>invalid_to_valid = Map.empty, valid_to_invalid = Map.empty\<rparr>" ?p]
    by (auto simp: swapper_new_def)
  have len: "length vs \<le> length INVALID_RLPS" using assms(2) INVALID_RLPS_facts(2) by simp
  have "distinct (map fst (rev ?p))" using assms(1) len by (simp add: rev_map[symmetric] map_fst_zip_take)
  then have v: "valid_to_invalid sw v = Some i \<longleftrightarrow> (v, i) \<in> set ?p" for v i
    by (simp add: sw(3) map_of_eq_Some_iff del: set_zip)
  have "map fst (rev (map prod.swap ?p)) = rev (take (length vs) INVALID_RLPS)"
    using len by (simp add: rev_map[symmetric] comp_def map_snd_zip_take)
  then have "distinct (map fst (rev (map prod.swap ?p)))" using INVALID_RLPS_facts(1) by (simp add: distinct_take)
  then have i: "invalid_to_valid sw i = Some v \<longleftrightarrow> (v, i) \<in> set ?p" for v i
    by (subst sw(2), subst map_of_eq_Some_iff) (auto simp del: set_zip)
  have "swapper_ok sw" using INVALID_RLPS_facts(3) assms(3) unfolding swapper_ok_def v i
    by (auto dest: set_zip_leftD set_zip_rightD)
  then show ?thesis using sw(1) by blast
qed

lemma tables_distinct: "distinct EMPTY_RLPS" "distinct COMMON_RLPS" "length EMPTY_RLPS = 2" "length COMMON_RLPS = 6"
proof -
  show "distinct EMPTY_RLPS" "length EMPTY_RLPS = 2" "length COMMON_RLPS = 6" by (simp_all add: EMPTY_RLPS_def COMMON_RLPS_def)
  have "(xs = replicate 256 (0 :: u8)) = False" if "length xs < 256" for xs using that by auto
  then show "distinct COMMON_RLPS" by (simp add: COMMON_RLPS_def)
qed


lemma blocks_swapper: "\<exists>sw. BLOCKS_RLP_SWAPPER = Some sw \<and> swapper_ok sw"
  unfolding BLOCKS_RLP_SWAPPER_def using tables_distinct by (intro swapper_new_ok) (simp_all add: EMPTY_RLPS_def COMMON_RLPS_def)

lemma snapshot_swapper: "\<exists>sw. SNAPSHOT_RLP_SWAPPER = Some sw \<and> swapper_ok sw"
  unfolding SNAPSHOT_RLP_SWAPPER_def using tables_distinct by (intro swapper_new_ok) (simp_all add: EMPTY_RLPS_def COMMON_RLPS_def)

text \<open>No item of a compressed value is longer than the original.\<close>

lemma length_list_bytes_mono: "length a \<le> length b \<Longrightarrow> length (list_bytes a) \<le> length (list_bytes b)"
proof -
  assume ab: "length a \<le> length b"
  have "nbytes (length a) \<le> nbytes (length b)"
    unfolding nbytes_le_iff[of "length a"] using ab nbytes_le_iff[of "length b" "nbytes (length b)"] by linarith
  then show ?thesis using ab by (auto simp: list_bytes_def rlp_header_def)
qed

lemma cbytes_length:
  assumes "swapper_ok sw"
  shows "length (cbytes sw t) \<le> length (rlp_enc t)"
proof (induction t)
  case (RData b)
  show ?case
  proof (cases "valid_to_invalid sw (data_bytes b)")
    case (Some i)
    then have "invalid_to_valid sw i = Some (data_bytes b)" using assms unfolding swapper_ok_def by blast
    then have "2 \<le> length (data_bytes b)" "length i = 2" using assms unfolding swapper_ok_def by fastforce+
    then show ?thesis using Some by simp
  qed simp
next
  case (RList xs)
  then have "length (concat (map (cbytes sw) xs)) \<le> length (concat (map rlp_enc xs))"
    by (simp add: length_concat comp_def sum_list_mono)
  then show ?case using length_list_bytes_mono by simp
qed

subsection \<open>Properties\<close>


text \<open>
  C36. Compression loses nothing and never makes a value longer: any RLP tree below 4 GiB comes back from its compressed form, by the
  block table with the deep decompressor as by the snapshot table, and neither direction panics. The
  replacements cannot be confused with encoded values: no encoder emits \<open>[0x81, k]\<close> with
  \<open>k < 0x80\<close>.\<close>

theorem compress_roundtrip:
  assumes "big_endian bo" and "length (rlp_enc t) < 2 ^ 32"
  shows "\<exists>c. compress bo ty (rlp_enc t) = Some c \<and> length c \<le> length (rlp_enc t) \<and>
    decompress bo ty c = Some (rlp_enc t)"
proof (cases ty)
  case Blocks
  obtain sw where sw: "BLOCKS_RLP_SWAPPER = Some sw" "swapper_ok sw" using blocks_swapper by blast
  have l: "length (cbytes sw t) < 2 ^ 32" using cbytes_length[OF sw(2), of t] assms(2) by linarith
  obtain r where r: "deep_decompress bo sw (cbytes sw t) = Some r" "restored sw t r"
    using deep_decompress_val[OF assms(1) sw(2) l assms(2)] by blast
  have "decompress bo Blocks (cbytes sw t) = Some (case r of Some v \<Rightarrow> v | None \<Rightarrow> cbytes sw t)"
    by (simp add: decompress_def sw(1) r(1))
  then have "decompress bo Blocks (cbytes sw t) = Some (rlp_enc t)"
    using r(2) by (cases r) (simp_all add: restored_def)
  moreover have "compress bo Blocks (rlp_enc t) = Some (cbytes sw t)"
    using simple_compress_val[OF assms(1) sw(2) l assms(2)] by (simp add: compress_def sw(1))
  ultimately show ?thesis using cbytes_length[OF sw(2)] Blocks by blast
next
  case Snapshot
  obtain sw where sw: "SNAPSHOT_RLP_SWAPPER = Some sw" "swapper_ok sw" using snapshot_swapper by blast
  have l: "length (cbytes sw t) < 2 ^ 32" using cbytes_length[OF sw(2), of t] assms(2) by linarith
  show ?thesis
    using simple_compress_val[OF assms(1) sw(2) l assms(2)] simple_decompress_val[OF assms(1) sw(2) l assms(2)]
      cbytes_length[OF sw(2), of t] by (simp add: Snapshot compress_def decompress_def sw(1))
qed

theorem compress_roundtrip_witness:
  "\<exists>c. compress byteorder_be Blocks (rlp_enc (RList [RData [7], RData (replicate 20 9)])) = Some c \<and>
    length c \<le> length (rlp_enc (RList [RData [7], RData (replicate 20 9)])) \<and>
    decompress byteorder_be Blocks c = Some (rlp_enc (RList [RData [7], RData (replicate 20 9)]))"
  by (rule compress_roundtrip[OF big_endian_byteorder_be]) (simp add: data_bytes_def list_bytes_def rlp_header_def)

end
