(* ===== verification/Containers.thy ===== *)
theory Containers
  imports Prelude "HOL-Library.AList" "HOL-Library.List_Lexorder" "HOL-Library.Multiset"
begin

section \<open>Containers of the standard library\<close>

text \<open>
  A vector index that panics out of range (\<open>None\<close>), \<open>HashMap\<close> as an association list with
  distinct keys (its order is unspecified), and \<open>BTreeMap\<close> as an association list sorted by its keys.
  Byte strings are ordered lexicographically, as the \<open>Ord\<close> instance of slices does.
\<close>

subsection \<open>Indexing\<close>

definition index :: "'a list \<Rightarrow> nat \<Rightarrow> 'a option" where
  "index xs i = (if i < length xs then Some (xs ! i) else None)"

lemma index_Some [simp]: "i < length xs \<Longrightarrow> index xs i = Some (xs ! i)"
  by (simp add: index_def)

lemma index_None [simp]: "length xs \<le> i \<Longrightarrow> index xs i = None"
  by (simp add: index_def)

lemma index_SomeD: "index xs i = Some x \<Longrightarrow> i < length xs \<and> x = xs ! i"
  by (auto simp: index_def split: if_splits)

subsection \<open>\<open>HashMap\<close>\<close>

definition hm_get :: "('k \<times> 'v) list \<Rightarrow> 'k \<Rightarrow> 'v option" where
  "hm_get m k = map_of m k"

definition hm_insert :: "'k \<Rightarrow> 'v \<Rightarrow> ('k \<times> 'v) list \<Rightarrow> ('k \<times> 'v) list" where
  "hm_insert k v m = AList.update k v m"

definition hm_remove :: "'k \<Rightarrow> ('k \<times> 'v) list \<Rightarrow> ('k \<times> 'v) list" where
  "hm_remove k m = AList.delete k m"

definition hm_ok :: "('k \<times> 'v) list \<Rightarrow> bool" where
  "hm_ok m \<longleftrightarrow> distinct (map fst m)"

lemma hm_get_empty [simp]: "hm_get [] k = None"
  by (simp add: hm_get_def)

lemma hm_get_insert [simp]: "hm_get (hm_insert k v m) k' = (if k' = k then Some v else hm_get m k')"
  by (simp add: hm_get_def hm_insert_def update_conv')

lemma hm_get_remove [simp]: "hm_get (hm_remove k m) k' = (if k' = k then None else hm_get m k')"
  by (simp add: hm_get_def hm_remove_def delete_conv')

lemma hm_ok_empty [simp]: "hm_ok []"
  by (simp add: hm_ok_def)

lemma hm_ok_insert [simp]: "hm_ok m \<Longrightarrow> hm_ok (hm_insert k v m)"
  by (simp add: hm_ok_def hm_insert_def distinct_update)

lemma hm_ok_remove [simp]: "hm_ok m \<Longrightarrow> hm_ok (hm_remove k m)"
  by (simp add: hm_ok_def hm_remove_def distinct_delete)

lemma set_hm_insert: "set (hm_insert k v m) \<subseteq> insert (k, v) (set m)"
  unfolding hm_insert_def by (induction m) auto

lemma hm_get_in: "hm_get m k = Some v \<Longrightarrow> (k, v) \<in> set m"
  by (simp add: hm_get_def map_of_SomeD)

text \<open>An iteration order of a map is any permutation of its entries.\<close>

definition iteration_order :: "(('k \<times> 'v) list \<Rightarrow> ('k \<times> 'v) list) \<Rightarrow> bool" where
  "iteration_order ord \<longleftrightarrow> (\<forall>m. mset (ord m) = mset m)"

lemma iteration_order_id: "iteration_order (\<lambda>m. m)"
  by (simp add: iteration_order_def)

lemma iteration_order_rev: "iteration_order rev"
  by (simp add: iteration_order_def)

lemma iteration_order_get:
  assumes "iteration_order ord" and "hm_ok m"
  shows "map_of (ord m) k = hm_get m k" and "set (ord m) = set m" and "distinct (map fst (ord m))"
proof -
  have ms: "mset (ord m) = mset m" using assms(1) by (simp add: iteration_order_def)
  then show s: "set (ord m) = set m" by (rule mset_eq_setD)
  have "mset (map fst (ord m)) = mset (map fst m)" using ms by (simp add: mset_map)
  then show d: "distinct (map fst (ord m))" using assms(2) mset_eq_imp_distinct_iff unfolding hm_ok_def by blast
  show "map_of (ord m) k = hm_get m k"
    using map_of_eqI[of "ord m" m] s d assms(2) unfolding hm_ok_def hm_get_def
    by (metis map_of_eq_Some_iff not_Some_eq)
qed

subsection \<open>\<open>BTreeMap\<close>\<close>

fun bt_insert :: "'k::linorder \<Rightarrow> 'v \<Rightarrow> ('k \<times> 'v) list \<Rightarrow> ('k \<times> 'v) list" where
  "bt_insert k v [] = [(k, v)]"
| "bt_insert k v ((k', v') # m) =
     (if k < k' then (k, v) # (k', v') # m
      else if k = k' then (k, v) # m
      else (k', v') # bt_insert k v m)"

fun bt_remove :: "'k::linorder \<Rightarrow> ('k \<times> 'v) list \<Rightarrow> ('k \<times> 'v) list" where
  "bt_remove k [] = []"
| "bt_remove k ((k', v') # m) = (if k = k' then m else (k', v') # bt_remove k m)"

definition bt_get :: "('k::linorder \<times> 'v) list \<Rightarrow> 'k \<Rightarrow> 'v option" where
  "bt_get m k = map_of m k"

definition bt_ok :: "('k::linorder \<times> 'v) list \<Rightarrow> bool" where
  "bt_ok m \<longleftrightarrow> sorted_wrt (<) (map fst m)"

lemma bt_ok_empty [simp]: "bt_ok []"
  by (simp add: bt_ok_def)

lemma bt_get_empty [simp]: "bt_get [] k = None"
  by (simp add: bt_get_def)

lemma bt_insert_keys: "set (map fst (bt_insert k v m)) = insert k (set (map fst m))"
  by (induction k v m rule: bt_insert.induct) auto

lemma bt_remove_keys: "set (map fst (bt_remove k m)) \<subseteq> set (map fst m)"
  by (induction k m rule: bt_remove.induct) auto

lemma bt_ok_insert [simp]: "bt_ok m \<Longrightarrow> bt_ok (bt_insert k v m)"
proof (induction k v m rule: bt_insert.induct)
  case (2 k v k' v' m)
  have "x \<in> set (map fst (bt_insert k v m)) \<longleftrightarrow> x = k \<or> x \<in> set (map fst m)" for x
    using bt_insert_keys[of k v m] by blast
  then show ?case using 2 by (auto simp: bt_ok_def simp del: set_map)
qed (simp add: bt_ok_def)

lemma bt_ok_remove [simp]: "bt_ok m \<Longrightarrow> bt_ok (bt_remove k m)"
proof (induction k m rule: bt_remove.induct)
  case (2 k k' v' m)
  then show ?case using bt_remove_keys[of k m] by (auto simp: bt_ok_def simp del: set_map)
qed simp

lemma bt_get_insert [simp]: "bt_get (bt_insert k v m) k' = (if k' = k then Some v else bt_get m k')"
  by (induction k v m rule: bt_insert.induct) (auto simp: bt_get_def)

lemma bt_get_remove [simp]: "bt_ok m \<Longrightarrow> bt_get (bt_remove k m) k' = (if k' = k then None else bt_get m k')"
proof (induction k m rule: bt_remove.induct)
  case (2 k k2 v2 m)
  have "k2 \<notin> set (map fst m)" using 2(2) by (auto simp: bt_ok_def)
  then have "map_of m k2 = None" by (simp add: map_of_eq_None_iff)
  moreover have "bt_ok m" using 2(2) by (simp add: bt_ok_def)
  ultimately show ?case using 2(1) by (cases "k = k2") (auto simp: bt_get_def)
qed simp

subsection \<open>Prefixes\<close>

definition starts_with :: "'a list \<Rightarrow> 'a list \<Rightarrow> bool" where
  "starts_with k p \<longleftrightarrow> take (length p) k = p"

lemma starts_with_ge: "starts_with k p \<Longrightarrow> p \<le> (k :: 'a::linorder list)"
proof -
  assume "starts_with k p"
  then have "k = p @ drop (length p) k" unfolding starts_with_def by (metis append_take_drop_id)
  moreover have "p \<le> p @ xs" for xs :: "'a list" by (induction p) auto
  ultimately show ?thesis by metis
qed

text \<open>The keys with a prefix follow each other: between the prefix and such a key there is nothing else.\<close>

lemma starts_with_convex: "p \<le> x \<Longrightarrow> x \<le> y \<Longrightarrow> starts_with y p \<Longrightarrow> starts_with x (p :: 'a::linorder list)"
proof (induction p arbitrary: x y)
  case (Cons a p)
  obtain y' where y: "y = a # y'" "starts_with y' p"
    using Cons.prems(3) by (cases y) (auto simp: starts_with_def)
  obtain b x' where x: "x = b # x'" using Cons.prems(1) by (cases x) auto
  have "b = a" using Cons.prems(1,2) by (auto simp: x y)
  then show ?case using Cons.IH[of x' y'] Cons.prems(1,2) y(2) by (auto simp: x y(1) starts_with_def)
qed (simp add: starts_with_def)

text \<open>The first key with the prefix is the first key that is not below the prefix, if that has it.\<close>

lemma find_prefix:
  assumes "bt_ok m"
  shows "find (\<lambda>(k, _). starts_with k p) m =
    (case dropWhile (\<lambda>(k, _). k < p) m of [] \<Rightarrow> None | (k, v) # _ \<Rightarrow> if starts_with k p then Some (k, v) else None)"
  using assms
proof (induction m)
  case (Cons a m)
  obtain k v where a: "a = (k, v)" by fastforce
  have m: "bt_ok m" and lt: "\<forall>x \<in> set m. k < fst x" using Cons.prems by (auto simp: bt_ok_def a)
  show ?case
  proof (cases "k < p")
    case True
    then have "\<not> starts_with k p" using starts_with_ge[of k p] by auto
    then show ?thesis using Cons.IH[OF m] True by (simp add: a)
  next
    case False
    have "find (\<lambda>(k, _). starts_with k p) m = None" if "\<not> starts_with k p"
    proof -
      have "\<not> starts_with (fst x) p" if "x \<in> set m" for x
        using starts_with_convex[of p k "fst x"] lt that leI[OF False] \<open>\<not> starts_with k p\<close> less_imp_le by blast
      then show ?thesis by (auto simp: find_None_iff)
    qed
    then show ?thesis using False by (auto simp: a)
  qed
qed simp

end
