(* ===== verification/KvStore.thy ===== *)
theory KvStore
  imports Containers RlpCompress
begin

section \<open>Key-value store: transactions, the contract and the in-memory store\<close>

text \<open>
  \<open>util/kvdb/src/lib.rs\<close>, first part: \<open>DBTransaction\<close>, the trait \<open>KeyValueDB\<close> and the store
  \<open>InMemory\<close>. The trait is the locale \<open>kv_store\<close>: what the callers of a store rely on, stated over
  an abstract store (a map per column). The locale covers plain puts and deletes; compressed puts
  behave differently in the two stores and are treated with each of them.
\<close>

subsection \<open>Transactions\<close>

datatype db_op =
    DInsert "u32 option" bytes bytes
  | DInsertCompressed "u32 option" bytes bytes
  | DDelete "u32 option" bytes

record db_transaction =
  ops :: "db_op list"

definition tr_new :: db_transaction where
  "tr_new = \<lparr>ops = []\<rparr>"

definition tr_put :: "u32 option \<Rightarrow> bytes \<Rightarrow> bytes \<Rightarrow> db_transaction \<Rightarrow> db_transaction" where
  "tr_put col key val tr = tr\<lparr>ops := ops tr @ [DInsert col key val]\<rparr>"

definition tr_put_vec :: "u32 option \<Rightarrow> bytes \<Rightarrow> bytes \<Rightarrow> db_transaction \<Rightarrow> db_transaction" where
  "tr_put_vec col key val tr = tr\<lparr>ops := ops tr @ [DInsert col key val]\<rparr>"

definition tr_put_compressed :: "u32 option \<Rightarrow> bytes \<Rightarrow> bytes \<Rightarrow> db_transaction \<Rightarrow> db_transaction" where
  "tr_put_compressed col key val tr = tr\<lparr>ops := ops tr @ [DInsertCompressed col key val]\<rparr>"

definition tr_delete :: "u32 option \<Rightarrow> bytes \<Rightarrow> db_transaction \<Rightarrow> db_transaction" where
  "tr_delete col key tr = tr\<lparr>ops := ops tr @ [DDelete col key]\<rparr>"

text \<open>The default method \<open>write\<close> of the trait.\<close>

definition default_write ::
    "(db_transaction \<Rightarrow> 's \<Rightarrow> 's option) \<Rightarrow> ('s \<Rightarrow> ((string + unit) \<times> 's) option) \<Rightarrow>
      db_transaction \<Rightarrow> 's \<Rightarrow> ((string + unit) \<times> 's) option" where
  "default_write write_buffered flush tr s = do { s' \<leftarrow> write_buffered tr s; flush s' }"

subsection \<open>The in-memory store\<close>

record in_mem =
  columns :: "(u32 option \<times> (bytes \<times> bytes) list) list"

definition in_memory :: "u32 \<Rightarrow> in_mem" where
  "in_memory num_cols =
     \<lparr>columns = foldl (\<lambda>cols idx. hm_insert (Some (of_nat idx)) [] cols) (hm_insert None [] []) [0..<unat num_cols]\<rparr>"

definition mem_get :: "in_mem \<Rightarrow> u32 option \<Rightarrow> bytes \<Rightarrow> (string + bytes option) option" where
  "mem_get s col key =
     Some (case hm_get (columns s) col of
       None \<Rightarrow> Inl ''No such column family''
     | Some m \<Rightarrow> Inr (bt_get m key))"

definition mem_get_by_prefix :: "in_mem \<Rightarrow> u32 option \<Rightarrow> bytes \<Rightarrow> bytes option" where
  "mem_get_by_prefix s col prefix =
     (case hm_get (columns s) col of
        None \<Rightarrow> None
      | Some m \<Rightarrow> map_option snd (find (\<lambda>(k, _). starts_with k prefix) m))"

definition mem_op :: "byteorder \<Rightarrow> in_mem option \<Rightarrow> db_op \<Rightarrow> in_mem option" where
  "mem_op bo acc op =
     do {
       s \<leftarrow> acc;
       case op of
         DInsert col key val \<Rightarrow>
           (case hm_get (columns s) col of
              Some m \<Rightarrow> Some (s\<lparr>columns := hm_insert col (bt_insert key val m) (columns s)\<rparr>)
            | None \<Rightarrow> Some s)
       | DInsertCompressed col key val \<Rightarrow>
           (case hm_get (columns s) col of
              Some m \<Rightarrow> do {
                compressed \<leftarrow> compress bo Blocks val;
                Some (s\<lparr>columns := hm_insert col (bt_insert key compressed m) (columns s)\<rparr>) }
            | None \<Rightarrow> Some s)
       | DDelete col key \<Rightarrow>
           (case hm_get (columns s) col of
              Some m \<Rightarrow> Some (s\<lparr>columns := hm_insert col (bt_remove key m) (columns s)\<rparr>)
            | None \<Rightarrow> Some s) }"

definition mem_write_buffered :: "byteorder \<Rightarrow> db_transaction \<Rightarrow> in_mem \<Rightarrow> in_mem option" where
  "mem_write_buffered bo tr s = foldl (mem_op bo) (Some s) (ops tr)"

definition mem_flush :: "in_mem \<Rightarrow> ((string + unit) \<times> in_mem) option" where
  "mem_flush s = Some (Inr (), s)"

definition mem_iter :: "in_mem \<Rightarrow> u32 option \<Rightarrow> (bytes \<times> bytes) list" where
  "mem_iter s col = (case hm_get (columns s) col of Some m \<Rightarrow> m | None \<Rightarrow> [])"

definition mem_iter_from_prefix :: "in_mem \<Rightarrow> u32 option \<Rightarrow> bytes \<Rightarrow> (bytes \<times> bytes) list" where
  "mem_iter_from_prefix s col prefix =
     (case hm_get (columns s) col of Some m \<Rightarrow> dropWhile (\<lambda>(k, _). \<not> starts_with k prefix) m | None \<Rightarrow> [])"

definition mem_restore :: "in_mem \<Rightarrow> string + unit" where
  "mem_restore s = Inl ''Attempted to restore in-memory database''"

subsection \<open>The contract of a store\<close>

type_synonym store = "u32 option \<Rightarrow> bytes \<Rightarrow> bytes option"

fun apply_op :: "store \<Rightarrow> db_op \<Rightarrow> store" where
  "apply_op st (DInsert c k v) = st(c := (st c)(k := Some v))"
| "apply_op st (DInsertCompressed c k v) = st(c := (st c)(k := Some v))"
| "apply_op st (DDelete c k) = st(c := (st c)(k := None))"

fun op_col :: "db_op \<Rightarrow> u32 option" where
  "op_col (DInsert c k v) = c"
| "op_col (DInsertCompressed c k v) = c"
| "op_col (DDelete c k) = c"

fun op_key :: "db_op \<Rightarrow> bytes" where
  "op_key (DInsert c k v) = k"
| "op_key (DInsertCompressed c k v) = k"
| "op_key (DDelete c k) = k"

fun plain :: "db_op \<Rightarrow> bool" where
  "plain (DInsertCompressed c k v) = False"
| "plain _ = True"

definition ops_ok :: "u32 option set \<Rightarrow> db_op list \<Rightarrow> bool" where
  "ops_ok cs os \<longleftrightarrow> (\<forall>op \<in> set os. plain op \<and> op_col op \<in> cs)"

lemma ops_ok_simps [simp]: "ops_ok cs []" "ops_ok cs (os @ os') \<longleftrightarrow> ops_ok cs os \<and> ops_ok cs os'"
  "ops_ok cs (op # os) \<longleftrightarrow> plain op \<and> op_col op \<in> cs \<and> ops_ok cs os"
  by (auto simp: ops_ok_def)

lemma apply_untouched:
  "\<forall>op \<in> set os. (op_col op, op_key op) \<noteq> (c, k) \<Longrightarrow> foldl apply_op st os c k = st c k"
proof (induction os arbitrary: st)
  case (Cons op os)
  have "apply_op st op c k = st c k" using Cons.prems by (cases op) (auto simp: fun_upd_def)
  then show ?case using Cons by simp
qed simp

locale kv_store =
  fixes inv :: "'s \<Rightarrow> bool"
    and cols :: "'s \<Rightarrow> u32 option set"
    and view :: "'s \<Rightarrow> store"
    and durable :: "'s \<Rightarrow> store"
    and get :: "'s \<Rightarrow> u32 option \<Rightarrow> bytes \<Rightarrow> (string + bytes option) option"
    and write_buffered :: "db_transaction \<Rightarrow> 's \<Rightarrow> 's option"
    and flush :: "'s \<Rightarrow> ((string + unit) \<times> 's) option"
  assumes get_total: "inv s \<Longrightarrow> c \<in> cols s \<Longrightarrow> \<exists>r. get s c k = Some r"
    and get_view: "inv s \<Longrightarrow> c \<in> cols s \<Longrightarrow> get s c k = Some (Inr v) \<Longrightarrow> v = view s c k"
    and write_buffered_ok: "inv s \<Longrightarrow> ops_ok (cols s) (ops tr) \<Longrightarrow>
      \<exists>s'. write_buffered tr s = Some s' \<and> inv s' \<and> cols s' = cols s \<and> view s' = foldl apply_op (view s) (ops tr)"
    and flush_total: "inv s \<Longrightarrow> \<exists>r s'. flush s = Some (r, s')"
    and flush_ok: "inv s \<Longrightarrow> flush s = Some (Inr (), s') \<Longrightarrow>
      inv s' \<and> cols s' = cols s \<and> view s' = view s \<and> durable s' = view s"
begin

text \<open>A read after a buffered put sees the value put, and only that key changes.\<close>

lemma put_get:
  assumes "inv s" and "c \<in> cols s"
  shows "\<exists>s'. write_buffered (tr_put c k v tr_new) s = Some s' \<and> inv s' \<and> cols s' = cols s \<and>
    view s' = (view s)(c := (view s c)(k := Some v)) \<and>
    (\<forall>r. get s' c k = Some (Inr r) \<longrightarrow> r = Some v)"
proof -
  have "ops_ok (cols s) (ops (tr_put c k v tr_new))" using assms(2) by (simp add: tr_put_def tr_new_def)
  then obtain s' where s': "write_buffered (tr_put c k v tr_new) s = Some s'" "inv s'" "cols s' = cols s"
    "view s' = (view s)(c := (view s c)(k := Some v))"
    using write_buffered_ok[OF assms(1), of "tr_put c k v tr_new"] by (auto simp: tr_put_def tr_new_def)
  then show ?thesis using get_view[of s' c k] assms(2) by auto
qed

lemma delete_get:
  assumes "inv s" and "c \<in> cols s"
  shows "\<exists>s'. write_buffered (tr_delete c k tr_new) s = Some s' \<and> inv s' \<and> cols s' = cols s \<and>
    (\<forall>r. get s' c k = Some (Inr r) \<longrightarrow> r = None)"
proof -
  have "ops_ok (cols s) (ops (tr_delete c k tr_new))" using assms(2) by (simp add: tr_delete_def tr_new_def)
  then obtain s' where s': "write_buffered (tr_delete c k tr_new) s = Some s'" "inv s'" "cols s' = cols s"
    "view s' = (view s)(c := (view s c)(k := None))"
    using write_buffered_ok[OF assms(1), of "tr_delete c k tr_new"] by (auto simp: tr_delete_def tr_new_def)
  then show ?thesis using get_view[of s' c k] assms(2) by auto
qed

text \<open>A sequence of transactions is one transaction of all their operations, in order.\<close>

lemma write_all:
  "inv s \<Longrightarrow> \<forall>tr \<in> set trs. ops_ok (cols s) (ops tr) \<Longrightarrow>
    \<exists>s'. foldl (\<lambda>acc tr. Option.bind acc (write_buffered tr)) (Some s) trs = Some s' \<and> inv s' \<and> cols s' = cols s \<and>
      view s' = foldl apply_op (view s) (concat (map ops trs))"
proof (induction trs arbitrary: s)
  case (Cons tr trs)
  obtain s' where s': "write_buffered tr s = Some s'" "inv s'" "cols s' = cols s"
    "view s' = foldl apply_op (view s) (ops tr)"
    using write_buffered_ok[OF Cons.prems(1), of tr] Cons.prems(2) by auto
  then show ?case using Cons.IH[OF s'(2)] Cons.prems(2) by simp
qed simp

text \<open>What has been written survives a flush, and the flushed state is the whole view.\<close>

lemma write_all_flush:
  assumes "inv s" and "\<forall>tr \<in> set trs. ops_ok (cols s) (ops tr)"
    and "foldl (\<lambda>acc tr. Option.bind acc (write_buffered tr)) (Some s) trs = Some s1" and "flush s1 = Some (Inr (), s2)"
  shows "durable s2 = foldl apply_op (view s) (concat (map ops trs))" and "view s2 = durable s2" and "inv s2"
    and "\<forall>c \<in> cols s. \<forall>k v. get s2 c k = Some (Inr v) \<longrightarrow> v = foldl apply_op (view s) (concat (map ops trs)) c k"
proof -
  have s1: "inv s1" "cols s1 = cols s" "view s1 = foldl apply_op (view s) (concat (map ops trs))"
    using write_all[OF assms(1,2)] assms(3) by auto
  note f = flush_ok[OF s1(1) assms(4)]
  show "durable s2 = foldl apply_op (view s) (concat (map ops trs))" "view s2 = durable s2" "inv s2"
    using f s1(3) by auto
  show "\<forall>c \<in> cols s. \<forall>k v. get s2 c k = Some (Inr v) \<longrightarrow> v = foldl apply_op (view s) (concat (map ops trs)) c k"
    using f s1 get_view[of s2] by simp
qed

lemma default_write_ok:
  assumes "inv s" and "ops_ok (cols s) (ops tr)"
  shows "\<exists>r s'. default_write write_buffered flush tr s = Some (r, s') \<and>
    (r = Inr () \<longrightarrow> inv s' \<and> cols s' = cols s \<and> view s' = foldl apply_op (view s) (ops tr) \<and> durable s' = view s')"
proof -
  obtain s1 where s1: "write_buffered tr s = Some s1" "inv s1" "cols s1 = cols s" "view s1 = foldl apply_op (view s) (ops tr)"
    using write_buffered_ok[OF assms] by blast
  obtain r s2 where f: "flush s1 = Some (r, s2)" using flush_total[OF s1(2)] by blast
  then have "default_write write_buffered flush tr s = Some (r, s2)" by (simp add: default_write_def s1(1))
  then show ?thesis using f s1 flush_ok[OF s1(2), of s2] by (cases r) auto
qed

text \<open>A key that no operation names keeps its value.\<close>

lemma untouched:
  assumes "inv s" and "ops_ok (cols s) (ops tr)" and "\<forall>op \<in> set (ops tr). (op_col op, op_key op) \<noteq> (c, k)"
    and "write_buffered tr s = Some s'" and "c \<in> cols s"
  shows "get s' c k = Some (Inr v) \<Longrightarrow> v = view s c k"
  using write_buffered_ok[OF assms(1,2)] assms(4,5) get_view[of s' c k v] apply_untouched[OF assms(3), of "view s"] by auto

end

subsection \<open>The in-memory store keeps the contract\<close>

definition mem_view :: "in_mem \<Rightarrow> store" where
  "mem_view s c k = (case hm_get (columns s) c of None \<Rightarrow> None | Some m \<Rightarrow> bt_get m k)"

definition mem_cols :: "in_mem \<Rightarrow> u32 option set" where
  "mem_cols s = {c. hm_get (columns s) c \<noteq> None}"

definition mem_inv :: "in_mem \<Rightarrow> bool" where
  "mem_inv s \<longleftrightarrow> hm_ok (columns s) \<and> (\<forall>c m. hm_get (columns s) c = Some m \<longrightarrow> bt_ok m)"

lemma mem_op_ok:
  assumes "mem_inv s" and "plain op" and "op_col op \<in> mem_cols s"
  shows "\<exists>s'. mem_op bo (Some s) op = Some s' \<and> mem_inv s' \<and> mem_cols s' = mem_cols s \<and> mem_view s' = apply_op (mem_view s) op"
proof -
  obtain m where m: "hm_get (columns s) (op_col op) = Some m" using assms(3) by (auto simp: mem_cols_def)
  then have "bt_ok m" using assms(1) by (simp add: mem_inv_def)
  then show ?thesis using m assms
    by (cases op) (auto simp: mem_op_def mem_inv_def mem_cols_def mem_view_def fun_eq_iff)
qed

lemma mem_write_buffered_ok:
  "mem_inv s \<Longrightarrow> ops_ok (mem_cols s) os \<Longrightarrow>
    \<exists>s'. foldl (mem_op bo) (Some s) os = Some s' \<and> mem_inv s' \<and> mem_cols s' = mem_cols s \<and>
      mem_view s' = foldl apply_op (mem_view s) os"
proof (induction os arbitrary: s)
  case (Cons op os)
  obtain s' where s': "mem_op bo (Some s) op = Some s'" "mem_inv s'" "mem_cols s' = mem_cols s"
    "mem_view s' = apply_op (mem_view s) op"
    using mem_op_ok[OF Cons.prems(1), of op bo] Cons.prems(2) by auto
  then show ?case using Cons.IH[OF s'(2)] Cons.prems(2) by simp
qed simp

interpretation mem: kv_store mem_inv mem_cols mem_view mem_view mem_get "mem_write_buffered bo" mem_flush for bo
proof unfold_locales
  fix s c k v assume "c \<in> mem_cols s"
  then obtain m where "hm_get (columns s) c = Some m" by (auto simp: mem_cols_def)
  then show "\<exists>r. mem_get s c k = Some r" "mem_get s c k = Some (Inr v) \<Longrightarrow> v = mem_view s c k"
    by (simp_all add: mem_get_def mem_view_def)
next
  fix s and tr :: db_transaction assume "mem_inv s" "ops_ok (mem_cols s) (ops tr)"
  then show "\<exists>s'. mem_write_buffered bo tr s = Some s' \<and> mem_inv s' \<and> mem_cols s' = mem_cols s \<and>
      mem_view s' = foldl apply_op (mem_view s) (ops tr)"
    unfolding mem_write_buffered_def by (rule mem_write_buffered_ok)
qed (simp_all add: mem_flush_def)

lemma in_memory_inv: "mem_inv (in_memory n)" and in_memory_cols: "mem_cols (in_memory n) = insert None (Some ` {c. c < n})"
proof -
  let ?f = "\<lambda>cols idx. hm_insert (Some (of_nat idx :: u32)) ([] :: (bytes \<times> bytes) list) cols"
  have g: "hm_ok (foldl ?f (hm_insert None [] []) [0..<k]) \<and>
      hm_get (foldl ?f (hm_insert None [] []) [0..<k]) c = (if c = None \<or> c \<in> Some ` of_nat ` {..<k} then Some [] else None)" for c k
    by (induction k) (auto simp: lessThan_Suc)
  show "mem_inv (in_memory n)" using g[of "unat n"] by (auto simp: mem_inv_def in_memory_def split: if_splits)
  have "of_nat ` {..<unat n} = {c. c < n}"
  proof
    show "of_nat ` {..<unat n} \<subseteq> {c. c < n}"
      by (auto simp: word_less_nat_alt unat_of_nat intro: le_less_trans[OF mod_less_eq_dividend])
    show "{c. c < n} \<subseteq> of_nat ` {..<unat n}"
    proof
      fix c assume "c \<in> {c. c < n}"
      then show "c \<in> of_nat ` {..<unat n}"
        by (intro image_eqI[of _ _ "unat c"]) (simp_all add: word_less_nat_alt)
    qed
  qed
  then show "mem_cols (in_memory n) = insert None (Some ` {c. c < n})"
    using g[of "unat n"] by (auto simp: mem_cols_def in_memory_def split: if_splits)
qed

end
