(* ===== verification/KvDatabase.thy ===== *)
theory KvDatabase
  imports KvStore
begin

section \<open>Key-value store: the buffered database over RocksDB\<close>

text \<open>
  \<open>util/kvdb/src/lib.rs\<close>, second part: the struct \<open>Database\<close> with its overlay of buffered values, the
  values being flushed, and the RocksDB instance behind them. RocksDB and the file system are the
  record parameters \<open>rocks\<close> and \<open>file_system\<close>; what the code relies on is \<open>rocks_ok\<close>: a batch holds
  its operations in order, a write applies the batch or nothing, a read returns the stored value.
  Hash maps are iterated in any order \<open>ord\<close>. The locks are not modelled: every method runs alone.
\<close>

subsection \<open>Configuration\<close>

record compaction_profile =
  initial_file_size :: u64
  file_size_multiplier :: int
  write_rate_limit :: "u64 option"

definition profile_ssd :: compaction_profile where
  "profile_ssd = \<lparr>initial_file_size = 32 * 1024 * 1024, file_size_multiplier = 2, write_rate_limit = None\<rparr>"

definition profile_hdd :: compaction_profile where
  "profile_hdd =
     \<lparr>initial_file_size = 192 * 1024 * 1024, file_size_multiplier = 1, write_rate_limit = Some (8 * 1024 * 1024)\<rparr>"

definition profile_default :: compaction_profile where
  "profile_default = profile_ssd"

record database_config =
  max_open_files :: int
  cache_sizes :: "(u32 option \<times> nat) list"
  compaction :: compaction_profile
  config_columns :: "u32 option"
  wal :: bool

definition config_default :: database_config where
  "config_default =
     \<lparr>max_open_files = 512, cache_sizes = [], compaction = profile_default, config_columns = None, wal = True\<rparr>"

definition config_with_columns :: "u32 option \<Rightarrow> database_config" where
  "config_with_columns cs = config_default\<lparr>config_columns := cs\<rparr>"

definition config_set_cache :: "u32 option \<Rightarrow> nat \<Rightarrow> database_config \<Rightarrow> database_config" where
  "config_set_cache col mib cfg = cfg\<lparr>cache_sizes := hm_insert col mib (cache_sizes cfg)\<rparr>"

record col_options =
  target_file_size_base :: u64
  target_file_size_multiplier :: int
  block_cache :: nat

definition col_config :: "nat \<Rightarrow> database_config \<Rightarrow> col_options" where
  "col_config col cfg =
     (let col_opt = map_option (\<lambda>_. of_nat col) (config_columns cfg);
          cache_size = (case hm_get (cache_sizes cfg) col_opt of Some n \<Rightarrow> n | None \<Rightarrow> 2) in
      \<lparr>target_file_size_base = initial_file_size (compaction cfg),
       target_file_size_multiplier = file_size_multiplier (compaction cfg),
       block_cache = cache_size * 1024 * 1024\<rparr>)"

subsection \<open>RocksDB and the file system\<close>

type_synonym path = "string list"

record ('fs, 'db, 'cf, 'b) rocks =
  r_set_parsed_options :: "string \<Rightarrow> string + unit"
  r_open :: "path \<Rightarrow> 'fs \<Rightarrow> (string + 'db) \<times> 'fs"
  r_open_cf :: "path \<Rightarrow> string list \<Rightarrow> col_options list \<Rightarrow> 'fs \<Rightarrow> (string + 'db) \<times> 'fs"
  r_repair :: "path \<Rightarrow> 'fs \<Rightarrow> (string + unit) \<times> 'fs"
  r_cf_handle :: "'db \<Rightarrow> string \<Rightarrow> 'cf option"
  r_create_cf :: "string \<Rightarrow> col_options \<Rightarrow> 'db \<Rightarrow> (string + 'cf) \<times> 'db"
  r_drop_cf :: "string \<Rightarrow> 'db \<Rightarrow> (string + unit) \<times> 'db"
  r_batch :: "'b"
  r_put :: "'cf option \<Rightarrow> bytes \<Rightarrow> bytes \<Rightarrow> 'b \<Rightarrow> string + 'b"
  r_delete :: "'cf option \<Rightarrow> bytes \<Rightarrow> 'b \<Rightarrow> string + 'b"
  r_write :: "'b \<Rightarrow> 'db \<Rightarrow> (string + unit) \<times> 'db"
  r_get :: "'db \<Rightarrow> 'cf option \<Rightarrow> bytes \<Rightarrow> string + bytes option"
  r_iter :: "'db \<Rightarrow> 'cf option \<Rightarrow> bytes option \<Rightarrow> (bytes \<times> bytes) list"

datatype io_error = NotFound | OtherIo string

record 'fs file_system =
  fs_rename :: "path \<Rightarrow> path \<Rightarrow> 'fs \<Rightarrow> (io_error + unit) \<times> 'fs"
  fs_remove_dir_all :: "path \<Rightarrow> 'fs \<Rightarrow> (io_error + unit) \<times> 'fs"

subsection \<open>The database\<close>

datatype key_state = KInsert bytes | KInsertCompressed bytes | KDelete

type_synonym column_map = "(bytes \<times> key_state) list"

record ('db, 'cf) database =
  db_handle :: "('db \<times> 'cf list) option"
  db_config :: database_config
  db_path :: path
  overlay :: "column_map list"
  flushing :: "column_map list"
  flushing_lock :: bool

fun show_nat :: "nat \<Rightarrow> string" where
  "show_nat n = (if n < 10 then [char_of (48 + n)] else show_nat (n div 10) @ [char_of (48 + n mod 10)])"

declare show_nat.simps [simp del]

definition col_name :: "nat \<Rightarrow> string" where
  "col_name c = ''col'' @ show_nat c"

text \<open>\<open>Database::open\<close>: the handle of the opened database and its column handles.\<close>

definition set_options :: "('fs, 'db, 'cf, 'b) rocks \<Rightarrow> database_config \<Rightarrow> string + unit" where
  "set_options R cfg =
     foldl (\<lambda>acc o'. case acc of Inl e \<Rightarrow> Inl e | Inr _ \<Rightarrow> r_set_parsed_options R o') (Inr ())
       ((case write_rate_limit (compaction cfg) of
           Some limit \<Rightarrow> [''rate_limiter_bytes_per_sec='' @ show_nat (unat limit)] | None \<Rightarrow> []) @
        [''max_total_wal_size='' @ show_nat (64 * 1024 * 1024), ''verify_checksums_in_compaction=0'', ''keep_log_file_num=1''])"

fun create_cfs :: "('fs, 'db, 'cf, 'b) rocks \<Rightarrow> (string \<times> col_options) list \<Rightarrow> 'db \<Rightarrow> (string + 'cf list) \<times> 'db" where
  "create_cfs R [] h = (Inr [], h)"
| "create_cfs R ((n, co) # ns) h =
     (case r_create_cf R n co h of
        (Inl e, h) \<Rightarrow> (Inl e, h)
      | (Inr cf, h) \<Rightarrow>
          (case create_cfs R ns h of
             (Inl e, h) \<Rightarrow> (Inl e, h)
           | (Inr cfs, h) \<Rightarrow> (Inr (cf # cfs), h)))"

text \<open>The first attempt: the columns, or a database without them in which they are created. An error
  of \<open>create_cf\<close> leaves the function (\<open>Inl\<close>).\<close>

definition open_first ::
    "('fs, 'db, 'cf, 'b) rocks \<Rightarrow> database_config \<Rightarrow> path \<Rightarrow> string list \<Rightarrow> col_options list \<Rightarrow> 'fs \<Rightarrow>
      ((string + (string + 'db) \<times> 'cf list) \<times> 'fs) option" where
  "open_first R cfg p cfnames cf_options fs =
     (case config_columns cfg of
        Some cs \<Rightarrow>
          (case r_open_cf R p cfnames cf_options fs of
             (Inr h, fs) \<Rightarrow>
               (case those (map (r_cf_handle R h) cfnames) of
                  None \<Rightarrow> None
                | Some cfs \<Rightarrow> if length cfs = unat cs then Some (Inr (Inr h, cfs), fs) else None)
           | (Inl _, fs) \<Rightarrow>
               (case r_open_cf R p [] [] fs of
                  (Inr h, fs) \<Rightarrow>
                    (case create_cfs R (zip cfnames cf_options) h of
                       (Inl e, _) \<Rightarrow> Some (Inl e, fs)
                     | (Inr cfs, h) \<Rightarrow> Some (Inr (Inr h, cfs), fs))
                | (Inl e, fs) \<Rightarrow> Some (Inr (Inl e, []), fs)))
      | None \<Rightarrow> (case r_open R p fs of (r, fs) \<Rightarrow> Some (Inr (r, []), fs)))"

definition open_repair ::
    "('fs, 'db, 'cf, 'b) rocks \<Rightarrow> path \<Rightarrow> string list \<Rightarrow> col_options list \<Rightarrow> 'fs \<Rightarrow> (string + 'db) \<times> 'fs" where
  "open_repair R p cfnames cf_options fs =
     (case r_repair R p fs of
        (Inl e, fs) \<Rightarrow> (Inl e, fs)
      | (Inr _, fs) \<Rightarrow> if cfnames = [] then r_open R p fs else r_open_cf R p cfnames cf_options fs)"

definition database_new :: "database_config \<Rightarrow> path \<Rightarrow> 'db \<Rightarrow> 'cf list \<Rightarrow> ('db, 'cf) database" where
  "database_new cfg p h cfs =
     \<lparr>db_handle = Some (h, cfs), db_config = cfg, db_path = p,
      overlay = map (\<lambda>_. []) [0..<length cfs + 1], flushing = map (\<lambda>_. []) [0..<length cfs + 1], flushing_lock = False\<rparr>"

definition database_open ::
    "('fs, 'db, 'cf, 'b) rocks \<Rightarrow> database_config \<Rightarrow> path \<Rightarrow> 'fs \<Rightarrow> ((string + ('db, 'cf) database) \<times> 'fs) option" where
  "database_open R cfg p fs =
     (case set_options R cfg of
        Inl e \<Rightarrow> Some (Inl e, fs)
      | Inr _ \<Rightarrow>
          let n = (case config_columns cfg of Some c \<Rightarrow> unat c | None \<Rightarrow> 0);
              cfnames = map col_name [0..<n];
              cf_options = map (\<lambda>c. col_config c cfg) [0..<n] in
          case open_first R cfg p cfnames cf_options fs of
            None \<Rightarrow> None
          | Some (Inl e, fs) \<Rightarrow> Some (Inl e, fs)
          | Some (Inr (Inr h, cfs), fs) \<Rightarrow> Some (Inr (database_new cfg p h cfs), fs)
          | Some (Inr (Inl s, cfs), fs) \<Rightarrow>
              if starts_with s ''Corruption:''
              then (case open_repair R p cfnames cf_options fs of
                      (Inl e, fs) \<Rightarrow> Some (Inl e, fs)
                    | (Inr h, fs) \<Rightarrow> Some (Inr (database_new cfg p h cfs), fs))
              else Some (Inl s, fs))"

text \<open>The column number plus one overflows for the last \<open>u32\<close>.\<close>

definition to_overlay_column :: "u32 option \<Rightarrow> nat option" where
  "to_overlay_column col = (case col of None \<Rightarrow> Some 0 | Some c \<Rightarrow> map_option unat (cadd c 1))"

definition buffer_op :: "column_map list option \<Rightarrow> db_op \<Rightarrow> column_map list option" where
  "buffer_op acc op =
     do {
       ov \<leftarrow> acc;
       case op of
         DInsert col key val \<Rightarrow> do {
           c \<leftarrow> to_overlay_column col; m \<leftarrow> index ov c; Some (ov[c := hm_insert key (KInsert val) m]) }
       | DInsertCompressed col key val \<Rightarrow> do {
           c \<leftarrow> to_overlay_column col; m \<leftarrow> index ov c; Some (ov[c := hm_insert key (KInsertCompressed val) m]) }
       | DDelete col key \<Rightarrow> do {
           c \<leftarrow> to_overlay_column col; m \<leftarrow> index ov c; Some (ov[c := hm_insert key KDelete m]) } }"

definition db_write_buffered :: "db_transaction \<Rightarrow> ('db, 'cf) database \<Rightarrow> ('db, 'cf) database option" where
  "db_write_buffered tr d = map_option (\<lambda>ov. d\<lparr>overlay := ov\<rparr>) (foldl buffer_op (Some (overlay d)) (ops tr))"

text \<open>The column of a batch operation: the default one, or \<open>cfs[c - 1]\<close>.\<close>

definition cf_of :: "'cf list \<Rightarrow> nat \<Rightarrow> 'cf option option" where
  "cf_of cfs c = (if c > 0 then map_option Some (index cfs (c - 1)) else Some None)"

definition flush_entry ::
    "('fs, 'db, 'cf, 'b) rocks \<Rightarrow> byteorder \<Rightarrow> 'cf list \<Rightarrow> (string + 'b) option \<Rightarrow> nat \<times> bytes \<times> key_state \<Rightarrow>
      (string + 'b) option" where
  "flush_entry R bo cfs acc e =
     (case e of (c, key, state) \<Rightarrow>
        case acc of
          None \<Rightarrow> None
        | Some (Inl err) \<Rightarrow> Some (Inl err)
        | Some (Inr b) \<Rightarrow>
            (case state of
               KDelete \<Rightarrow> do { cf \<leftarrow> cf_of cfs c; Some (r_delete R cf key b) }
             | KInsert val \<Rightarrow> do { cf \<leftarrow> cf_of cfs c; Some (r_put R cf key val b) }
             | KInsertCompressed val \<Rightarrow> do {
                 compressed \<leftarrow> compress bo Blocks val;
                 cf \<leftarrow> cf_of cfs c;
                 Some (r_put R cf key (if c > 0 then compressed else val) b) }))"

definition entries :: "(column_map \<Rightarrow> column_map) \<Rightarrow> nat \<Rightarrow> column_map list \<Rightarrow> (nat \<times> bytes \<times> key_state) list" where
  "entries ord n fl = concat (map (\<lambda>(c, m). map (\<lambda>(k, s). (c, k, s)) (ord m)) (enumerate n fl))"

definition write_flushing_with_lock ::
    "('fs, 'db, 'cf, 'b) rocks \<Rightarrow> byteorder \<Rightarrow> (column_map \<Rightarrow> column_map) \<Rightarrow> ('db, 'cf) database \<Rightarrow>
      ((string + unit) \<times> ('db, 'cf) database) option" where
  "write_flushing_with_lock R bo ord d =
     (case db_handle d of
        None \<Rightarrow> Some (Inl ''Database is closed'', d)
      | Some (h, cfs) \<Rightarrow>
          let d = d\<lparr>overlay := flushing d, flushing := overlay d\<rparr> in
          case foldl (flush_entry R bo cfs) (Some (Inr (r_batch R))) (entries ord 0 (flushing d)) of
            None \<Rightarrow> None
          | Some (Inl e) \<Rightarrow> Some (Inl e, d)
          | Some (Inr b) \<Rightarrow>
              (case r_write R b h of
                 (Inl e, h) \<Rightarrow> Some (Inl e, d\<lparr>db_handle := Some (h, cfs)\<rparr>)
               | (Inr _, h) \<Rightarrow> Some (Inr (), d\<lparr>db_handle := Some (h, cfs), flushing := map (\<lambda>_. []) (flushing d)\<rparr>)))"

definition db_flush ::
    "('fs, 'db, 'cf, 'b) rocks \<Rightarrow> byteorder \<Rightarrow> (column_map \<Rightarrow> column_map) \<Rightarrow> ('db, 'cf) database \<Rightarrow>
      ((string + unit) \<times> ('db, 'cf) database) option" where
  "db_flush R bo ord d =
     (if flushing_lock d then Some (Inl ''Database write failure. Running low on memory perhaps?'', d)
      else do {
        (result, d) \<leftarrow> write_flushing_with_lock R bo ord (d\<lparr>flushing_lock := True\<rparr>);
        Some (result, d\<lparr>flushing_lock := False\<rparr>) })"

text \<open>The column of \<open>write\<close> and \<open>get\<close>: \<open>cfs[c]\<close>.\<close>

definition cf_index :: "'cf list \<Rightarrow> u32 option \<Rightarrow> 'cf option option" where
  "cf_index cfs col = (case col of None \<Rightarrow> Some None | Some c \<Rightarrow> map_option Some (index cfs (unat c)))"

definition write_entry ::
    "('fs, 'db, 'cf, 'b) rocks \<Rightarrow> byteorder \<Rightarrow> 'cf list \<Rightarrow> (string + 'b) option \<Rightarrow> db_op \<Rightarrow> (string + 'b) option" where
  "write_entry R bo cfs acc op =
     (case acc of
        None \<Rightarrow> None
      | Some (Inl err) \<Rightarrow> Some (Inl err)
      | Some (Inr b) \<Rightarrow>
          (case op of
             DInsert col key val \<Rightarrow> do { cf \<leftarrow> cf_index cfs col; Some (r_put R cf key val b) }
           | DInsertCompressed col key val \<Rightarrow> do {
               compressed \<leftarrow> compress bo Blocks val;
               cf \<leftarrow> cf_index cfs col;
               Some (r_put R cf key compressed b) }
           | DDelete col key \<Rightarrow> do { cf \<leftarrow> cf_index cfs col; Some (r_delete R cf key b) }))"

definition db_write ::
    "('fs, 'db, 'cf, 'b) rocks \<Rightarrow> byteorder \<Rightarrow> db_transaction \<Rightarrow> ('db, 'cf) database \<Rightarrow>
      ((string + unit) \<times> ('db, 'cf) database) option" where
  "db_write R bo tr d =
     (case db_handle d of
        None \<Rightarrow> Some (Inl ''Database is closed'', d)
      | Some (h, cfs) \<Rightarrow>
          (case foldl (write_entry R bo cfs) (Some (Inr (r_batch R))) (ops tr) of
             None \<Rightarrow> None
           | Some (Inl e) \<Rightarrow> Some (Inl e, d)
           | Some (Inr b) \<Rightarrow> (case r_write R b h of (r, h) \<Rightarrow> Some (r, d\<lparr>db_handle := Some (h, cfs)\<rparr>))))"

fun state_value :: "key_state \<Rightarrow> bytes option" where
  "state_value (KInsert val) = Some val"
| "state_value (KInsertCompressed val) = Some val"
| "state_value KDelete = None"

definition db_get :: "('fs, 'db, 'cf, 'b) rocks \<Rightarrow> ('db, 'cf) database \<Rightarrow> u32 option \<Rightarrow> bytes \<Rightarrow> (string + bytes option) option" where
  "db_get R d col key =
     (case db_handle d of
        None \<Rightarrow> Some (Inr None)
      | Some (h, cfs) \<Rightarrow> do {
          c \<leftarrow> to_overlay_column col;
          ov \<leftarrow> index (overlay d) c;
          case hm_get ov key of
            Some state \<Rightarrow> Some (Inr (state_value state))
          | None \<Rightarrow> do {
              fl \<leftarrow> index (flushing d) c;
              case hm_get fl key of
                Some state \<Rightarrow> Some (Inr (state_value state))
              | None \<Rightarrow> do { cf \<leftarrow> cf_index cfs col; Some (r_get R h cf key) } } })"

text \<open>Iteration reads the flushed data; a closed database yields nothing.\<close>

definition db_iter :: "('fs, 'db, 'cf, 'b) rocks \<Rightarrow> ('db, 'cf) database \<Rightarrow> u32 option \<Rightarrow> (bytes \<times> bytes) list option" where
  "db_iter R d col =
     (case db_handle d of
        None \<Rightarrow> Some []
      | Some (h, cfs) \<Rightarrow> do { cf \<leftarrow> cf_index cfs col; Some (r_iter R h cf None) })"

definition db_iter_from_prefix ::
    "('fs, 'db, 'cf, 'b) rocks \<Rightarrow> ('db, 'cf) database \<Rightarrow> u32 option \<Rightarrow> bytes \<Rightarrow> (bytes \<times> bytes) list option" where
  "db_iter_from_prefix R d col prefix =
     (case db_handle d of
        None \<Rightarrow> Some []
      | Some (h, cfs) \<Rightarrow> do { cf \<leftarrow> cf_index cfs col; Some (r_iter R h cf (Some prefix)) })"

text \<open>\<open>k[0 .. prefix.len()]\<close> panics when the key found is shorter than the prefix.\<close>

definition db_get_by_prefix ::
    "('fs, 'db, 'cf, 'b) rocks \<Rightarrow> ('db, 'cf) database \<Rightarrow> u32 option \<Rightarrow> bytes \<Rightarrow> bytes option option" where
  "db_get_by_prefix R d col prefix =
     do {
       it \<leftarrow> db_iter_from_prefix R d col prefix;
       case it of
         [] \<Rightarrow> Some None
       | (k, v) # _ \<Rightarrow>
           if length prefix \<le> length k then Some (if take (length prefix) k = prefix then Some v else None) else None }"

definition db_close :: "('db, 'cf) database \<Rightarrow> ('db, 'cf) database" where
  "db_close d = d\<lparr>db_handle := None, overlay := [], flushing := []\<rparr>"

datatype restore_error = RestoreIo io_error | RestoreMsg string

definition backup_path :: "path \<Rightarrow> path" where
  "backup_path p = butlast p @ [''backup_db'']"

definition move_in :: "'fs file_system \<Rightarrow> path \<Rightarrow> path \<Rightarrow> bool \<Rightarrow> 'fs \<Rightarrow> (io_error + unit) \<times> 'fs" where
  "move_in F new_db p existed fs =
     (case fs_rename F new_db p fs of
        (Inr _, fs) \<Rightarrow> if existed then fs_remove_dir_all F (backup_path p) fs else (Inr (), fs)
      | (Inl e, fs) \<Rightarrow>
          if existed
          then (case fs_rename F (backup_path p) p fs of (Inl e2, fs) \<Rightarrow> (Inl e2, fs) | (Inr _, fs) \<Rightarrow> (Inl e, fs))
          else (Inl e, fs))"

definition db_restore ::
    "('fs, 'db, 'cf, 'b) rocks \<Rightarrow> 'fs file_system \<Rightarrow> path \<Rightarrow> ('db, 'cf) database \<Rightarrow> 'fs \<Rightarrow>
      ((restore_error + unit) \<times> ('db, 'cf) database \<times> 'fs) option" where
  "db_restore R F new_db d fs =
     (let d = db_close d in
      case fs_rename F (db_path d) (backup_path (db_path d)) fs of
        (Inl (OtherIo e), fs) \<Rightarrow> Some (Inl (RestoreIo (OtherIo e)), d, fs)
      | (renamed, fs) \<Rightarrow>
          (case move_in F new_db (db_path d) (renamed = Inr ()) fs of
             (Inl e, fs) \<Rightarrow> Some (Inl (RestoreIo e), d, fs)
           | (Inr _, fs) \<Rightarrow>
               (case database_open R (db_config d) (db_path d) fs of
                  None \<Rightarrow> None
                | Some (Inl e, fs) \<Rightarrow> Some (Inl (RestoreMsg e), d, fs)
                | Some (Inr d2, fs) \<Rightarrow>
                    Some (Inr (), d\<lparr>db_handle := db_handle d2, overlay := overlay d2, flushing := flushing d2\<rparr>, fs))))"

definition db_num_columns :: "('db, 'cf) database \<Rightarrow> u32" where
  "db_num_columns d = (case db_handle d of Some (h, cfs) \<Rightarrow> of_nat (length cfs) | None \<Rightarrow> 0)"

definition db_drop_column :: "('fs, 'db, 'cf, 'b) rocks \<Rightarrow> ('db, 'cf) database \<Rightarrow> (string + unit) \<times> ('db, 'cf) database" where
  "db_drop_column R d =
     (case db_handle d of
        None \<Rightarrow> (Inr (), d)
      | Some (h, cfs) \<Rightarrow>
          if cfs = [] then (Inr (), d)
          else case r_drop_cf R (col_name (length cfs - 1)) h of
                 (r, h) \<Rightarrow> (r, d\<lparr>db_handle := Some (h, butlast cfs)\<rparr>))"

definition db_add_column :: "('fs, 'db, 'cf, 'b) rocks \<Rightarrow> ('db, 'cf) database \<Rightarrow> (string + unit) \<times> ('db, 'cf) database" where
  "db_add_column R d =
     (case db_handle d of
        None \<Rightarrow> (Inr (), d)
      | Some (h, cfs) \<Rightarrow>
          (case r_create_cf R (col_name (length cfs)) (col_config (length cfs) (db_config d)) h of
             (Inl e, h) \<Rightarrow> (Inl e, d\<lparr>db_handle := Some (h, cfs)\<rparr>)
           | (Inr cf, h) \<Rightarrow> (Inr (), d\<lparr>db_handle := Some (h, cfs @ [cf])\<rparr>)))"

definition db_drop ::
    "('fs, 'db, 'cf, 'b) rocks \<Rightarrow> byteorder \<Rightarrow> (column_map \<Rightarrow> column_map) \<Rightarrow> ('db, 'cf) database \<Rightarrow> ('db, 'cf) database option" where
  "db_drop R bo ord d = map_option snd (db_flush R bo ord d)"

end
