(* ===== verification/KvRefine.thy ===== *)
theory KvRefine
  imports KvDatabase
begin

section \<open>Key-value store: the buffered database keeps the contract\<close>

text \<open>
  The overlay, the values being flushed and RocksDB together hold one abstract store
  (\<open>db_view\<close>); buffered writes and successful flushes refine the operations on it, so the database
  interprets \<open>kv_store\<close>. The theorems at the end state this for whole runs and show where the code
  leaves the contract: compressed values, direct writes, failed flushes and changed columns.
\<close>

subsection \<open>What is relied on of RocksDB\<close>

type_synonym 'cf batch = "('cf option \<times> bytes \<times> bytes option) list"

definition apply_batch :: "('cf option \<Rightarrow> bytes \<Rightarrow> bytes option) \<Rightarrow> 'cf batch \<Rightarrow> 'cf option \<Rightarrow> bytes \<Rightarrow> bytes option" where
  "apply_batch st b = foldl (\<lambda>st (cf, k, v). st(cf := (st cf)(k := v))) st b"

definition rocks_ok ::
    "('fs, 'db, 'cf, 'b) rocks \<Rightarrow> ('db \<Rightarrow> 'cf option \<Rightarrow> bytes \<Rightarrow> bytes option) \<Rightarrow> ('b \<Rightarrow> 'cf batch) \<Rightarrow> bool" where
  "rocks_ok R C B \<longleftrightarrow>
     B (r_batch R) = [] \<and>
     (\<forall>b cf k v b'. r_put R cf k v b = Inr b' \<longrightarrow> B b' = B b @ [(cf, k, Some v)]) \<and>
     (\<forall>b cf k b'. r_delete R cf k b = Inr b' \<longrightarrow> B b' = B b @ [(cf, k, None)]) \<and>
     (\<forall>b h h'. r_write R b h = (Inr (), h') \<longrightarrow> C h' = apply_batch (C h) (B b)) \<and>
     (\<forall>b h e h'. r_write R b h = (Inl e, h') \<longrightarrow> C h' = C h) \<and>
     (\<forall>h cf k v. r_get R h cf k = Inr v \<longrightarrow> v = C h cf k)"

lemma apply_batch_append: "apply_batch st (b @ b') = apply_batch (apply_batch st b) b'"
  by (simp add: apply_batch_def)

lemma apply_batch_column:
  "distinct (map fst m) \<Longrightarrow>
    apply_batch st (map (\<lambda>(k, s). (h, k, f s)) m) = st(h := \<lambda>k. case map_of m k of Some s \<Rightarrow> f s | None \<Rightarrow> st h k)"
proof (induction m arbitrary: st)
  case Nil
  then show ?case by (simp add: apply_batch_def)
next
  case (Cons e m)
  obtain k s where e: "e = (k, s)" by fastforce
  have "map_of m k = None" using Cons.prems by (simp add: e map_of_eq_None_iff)
  moreover have "apply_batch st (map (\<lambda>(k, s). (h, k, f s)) (e # m)) =
      apply_batch (st(h := (st h)(k := f s))) (map (\<lambda>(k, s). (h, k, f s)) m)"
    by (simp add: apply_batch_def e)
  ultimately show ?case using Cons by (auto simp: e fun_eq_iff split: option.splits)
qed

subsection \<open>The batch of a flush\<close>

definition handle :: "'cf list \<Rightarrow> nat \<Rightarrow> 'cf option" where
  "handle cfs c = (if c = 0 then None else Some (cfs ! (c - 1)))"

lemma cf_of_handle: "c \<le> length cfs \<Longrightarrow> cf_of cfs c = Some (handle cfs c)"
  by (simp add: cf_of_def handle_def)

lemma handle_inj: "distinct cfs \<Longrightarrow> c \<le> length cfs \<Longrightarrow> c' \<le> length cfs \<Longrightarrow> handle cfs c = handle cfs c' \<longleftrightarrow> c = c'"
  by (cases c; cases c') (auto simp: handle_def nth_eq_iff_index_eq)

text \<open>What a flush stores for a buffered state.\<close>

definition stored :: "byteorder \<Rightarrow> nat \<Rightarrow> key_state \<Rightarrow> bytes option" where
  "stored bo c s =
     (case s of KDelete \<Rightarrow> None | KInsert v \<Rightarrow> Some v
      | KInsertCompressed v \<Rightarrow> if c > 0 then compress bo Blocks v else Some v)"

lemma flush_entry_step:
  assumes "rocks_ok R C B" and "c \<le> length cfs" and "flush_entry R bo cfs acc (c, k, s) = Some (Inr b')"
  shows "\<exists>b. acc = Some (Inr b) \<and> B b' = B b @ [(handle cfs c, k, stored bo c s)]"
proof -
  obtain b where acc: "acc = Some (Inr b)"
    using assms(3) by (cases acc) (auto simp: flush_entry_def split: sum.splits)
  note rk = assms(1)[unfolded rocks_ok_def]
  have "B b' = B b @ [(handle cfs c, k, stored bo c s)]"
  proof (cases s)
    case (KInsert v)
    then show ?thesis using assms(3) rk by (simp add: acc flush_entry_def cf_of_handle[OF assms(2)] stored_def)
  next
    case KDelete
    then show ?thesis using assms(3) rk by (simp add: acc flush_entry_def cf_of_handle[OF assms(2)] stored_def)
  next
    case (KInsertCompressed v)
    then obtain x where x: "compress bo Blocks v = Some x"
      using assms(3) by (cases "compress bo Blocks v") (auto simp: acc flush_entry_def)
    then have "r_put R (handle cfs c) k (if c > 0 then x else v) b = Inr b'"
      using assms(3) KInsertCompressed by (simp add: acc flush_entry_def cf_of_handle[OF assms(2)])
    then have "B b' = B b @ [(handle cfs c, k, Some (if c > 0 then x else v))]" using rk by blast
    then show ?thesis using KInsertCompressed x by (simp add: stored_def)
  qed
  then show ?thesis using acc by blast
qed

lemma flush_entry_fold:
  assumes "rocks_ok R C B" and "\<forall>(c, k, s) \<in> set es. c \<le> length cfs"
    and "foldl (flush_entry R bo cfs) (Some (Inr (r_batch R))) es = Some (Inr b)"
  shows "B b = map (\<lambda>(c, k, s). (handle cfs c, k, stored bo c s)) es"
  using assms(2,3)
proof (induction es arbitrary: b rule: rev_induct)
  case Nil
  then show ?case using assms(1) by (simp add: rocks_ok_def)
next
  case (snoc e es)
  obtain c k s where e: "e = (c, k, s)" by (cases e)
  have "c \<le> length cfs" using snoc.prems(1) by (simp add: e)
  then obtain b1 where "foldl (flush_entry R bo cfs) (Some (Inr (r_batch R))) es = Some (Inr b1)"
    "B b = B b1 @ [(handle cfs c, k, stored bo c s)]"
    using flush_entry_step[OF assms(1)] snoc.prems(2) by (fastforce simp: e)
  then show ?case using snoc.IH[of b1] snoc.prems(1) by (simp add: e)
qed

definition plain_column :: "column_map \<Rightarrow> bool" where
  "plain_column m \<longleftrightarrow> (\<forall>(k, s) \<in> set m. \<forall>v. s \<noteq> KInsertCompressed v)"

lemma flush_entry_total:
  "\<forall>(c, k, s) \<in> set es. c \<le> length cfs \<and> (\<forall>v. s \<noteq> KInsertCompressed v) \<Longrightarrow>
    \<exists>r. foldl (flush_entry R bo cfs) (Some r0) es = Some r"
proof (induction es rule: rev_induct)
  case (snoc e es)
  obtain c k s where e: "e = (c, k, s)" by (cases e)
  obtain r where r: "foldl (flush_entry R bo cfs) (Some r0) es = Some r" using snoc by auto
  have "cf_of cfs c = Some (handle cfs c)" using snoc.prems by (intro cf_of_handle) (simp add: e)
  then have "\<exists>r'. flush_entry R bo cfs (Some r) e = Some r'"
    using snoc.prems by (cases s; cases r) (auto simp: e flush_entry_def)
  then show ?case using r by simp
qed simp

text \<open>The stored contents after the batch of all columns.\<close>

lemma set_entries:
  assumes "iteration_order ord"
  shows "set (entries ord n fl) = {(c, k, s). n \<le> c \<and> c < n + length fl \<and> (k, s) \<in> set (fl ! (c - n))}"
proof -
  have "set (ord m) = set m" for m using assms mset_eq_setD unfolding iteration_order_def by blast
  then show ?thesis by (fastforce simp: entries_def in_set_enumerate_eq)
qed

lemma entries_Cons: "entries ord n (m # fl) = map (\<lambda>(k, s). (n, k, s)) (ord m) @ entries ord (Suc n) fl"
  by (simp add: entries_def)

lemma apply_entries:
  assumes "iteration_order ord" and "distinct cfs"
  shows "\<forall>m \<in> set fl. hm_ok m \<Longrightarrow> n + length fl \<le> Suc (length cfs) \<Longrightarrow> c \<le> length cfs \<Longrightarrow>
    apply_batch st (map (\<lambda>(c, k, s). (handle cfs c, k, stored bo c s)) (entries ord n fl)) (handle cfs c) k =
    (case (if n \<le> c \<and> c < n + length fl then hm_get (fl ! (c - n)) k else None) of
       Some s \<Rightarrow> stored bo c s | None \<Rightarrow> st (handle cfs c) k)"
proof (induction fl arbitrary: n st)
  case Nil
  show ?case by (auto simp: entries_def apply_batch_def)
next
  case (Cons m fl)
  have m: "hm_ok m" using Cons.prems(1) by simp
  note om = iteration_order_get[OF assms(1) m]
  let ?st = "st(handle cfs n := \<lambda>k. case hm_get m k of Some s \<Rightarrow> stored bo n s | None \<Rightarrow> st (handle cfs n) k)"
  have first: "apply_batch st (map (\<lambda>(k, s). (handle cfs n, k, stored bo n s)) (ord m)) = ?st"
    using apply_batch_column[OF om(3), of st "handle cfs n" "stored bo n"] om(1) by simp
  have split: "apply_batch st (map (\<lambda>(c, k, s). (handle cfs c, k, stored bo c s)) (entries ord n (m # fl))) =
      apply_batch ?st (map (\<lambda>(c, k, s). (handle cfs c, k, stored bo c s)) (entries ord (Suc n) fl))"
    using first by (simp add: entries_Cons apply_batch_append comp_def split_def)
  have IH: "apply_batch ?st (map (\<lambda>(c, k, s). (handle cfs c, k, stored bo c s)) (entries ord (Suc n) fl)) (handle cfs c) k =
      (case (if Suc n \<le> c \<and> c < Suc n + length fl then hm_get (fl ! (c - Suc n)) k else None) of
         Some s \<Rightarrow> stored bo c s | None \<Rightarrow> ?st (handle cfs c) k)"
    using Cons.prems by (intro Cons.IH) auto
  have n: "handle cfs c = handle cfs n \<longleftrightarrow> c = n" using handle_inj[OF assms(2)] Cons.prems(2,3) by simp
  show ?case
  proof (cases "c = n")
    case True
    then show ?thesis unfolding split IH by (simp split: option.splits)
  next
    case False
    then have "(m # fl) ! (c - n) = fl ! (c - Suc n)" if "n < c" using that by (simp add: nth_Cons')
    then show ?thesis unfolding split IH using n False by (cases "n < c") (simp_all split: option.splits)
  qed
qed


subsection \<open>The abstract store of a database\<close>

definition db_cols :: "('db, 'cf) database \<Rightarrow> u32 option set" where
  "db_cols d = (case db_handle d of None \<Rightarrow> {} | Some (h, cfs) \<Rightarrow> insert None (Some ` {c. unat c < length cfs}))"

definition col_index :: "u32 option \<Rightarrow> nat" where
  "col_index col = (case col of None \<Rightarrow> 0 | Some c \<Rightarrow> unat c + 1)"

definition db_durable :: "('db \<Rightarrow> 'cf option \<Rightarrow> bytes \<Rightarrow> bytes option) \<Rightarrow> ('db, 'cf) database \<Rightarrow> store" where
  "db_durable C d c k =
     (case db_handle d of
        None \<Rightarrow> None
      | Some (h, cfs) \<Rightarrow> if c \<in> db_cols d then C h (handle cfs (col_index c)) k else None)"

definition layer :: "column_map list \<Rightarrow> u32 option \<Rightarrow> bytes \<Rightarrow> key_state option" where
  "layer ms c k = (if col_index c < length ms then hm_get (ms ! col_index c) k else None)"

definition db_view :: "('db \<Rightarrow> 'cf option \<Rightarrow> bytes \<Rightarrow> bytes option) \<Rightarrow> ('db, 'cf) database \<Rightarrow> store" where
  "db_view C d c k =
     (case layer (overlay d) c k of
        Some s \<Rightarrow> state_value s
      | None \<Rightarrow> (case layer (flushing d) c k of Some s \<Rightarrow> state_value s | None \<Rightarrow> db_durable C d c k))"

text \<open>A well-formed database, whatever its columns hold.\<close>

definition db_wf :: "('db, 'cf) database \<Rightarrow> bool" where
  "db_wf d \<longleftrightarrow>
     (case db_handle d of
        None \<Rightarrow> False
      | Some (h, cfs) \<Rightarrow>
          distinct cfs \<and> length cfs < 2 ^ 32 \<and> length (overlay d) = Suc (length cfs) \<and> length (flushing d) = Suc (length cfs) \<and>
          (\<forall>m \<in> set (overlay d) \<union> set (flushing d). hm_ok m) \<and> \<not> flushing_lock d)"

definition db_inv ::
    "('fs, 'db, 'cf, 'b) rocks \<Rightarrow> ('db \<Rightarrow> 'cf option \<Rightarrow> bytes \<Rightarrow> bytes option) \<Rightarrow> ('b \<Rightarrow> 'cf batch) \<Rightarrow>
      (column_map \<Rightarrow> column_map) \<Rightarrow> ('db, 'cf) database \<Rightarrow> bool" where
  "db_inv R C B ord d \<longleftrightarrow>
     rocks_ok R C B \<and> iteration_order ord \<and> db_wf d \<and> (\<forall>m \<in> set (overlay d). plain_column m) \<and> (\<forall>m \<in> set (flushing d). m = [])"

lemma db_wfE:
  assumes "db_wf d"
  obtains h cfs where "db_handle d = Some (h, cfs)" "distinct cfs" "length cfs < 2 ^ 32"
    "length (overlay d) = Suc (length cfs)" "length (flushing d) = Suc (length cfs)"
    "\<forall>m \<in> set (overlay d). hm_ok m" "\<forall>m \<in> set (flushing d). hm_ok m" "\<not> flushing_lock d"
  using assms by (auto simp: db_wf_def split: option.splits)

lemma db_cols_index:
  assumes "db_handle d = Some (h, cfs)" and "length cfs < 2 ^ 32" and "c \<in> db_cols d"
  shows "to_overlay_column c = Some (col_index c)" and "col_index c \<le> length cfs"
    and "cf_index cfs c = Some (handle cfs (col_index c))"
proof -
  have "to_overlay_column c = Some (col_index c) \<and> col_index c \<le> length cfs \<and> cf_index cfs c = Some (handle cfs (col_index c))"
  proof (cases c)
    case None
    then show ?thesis by (simp add: to_overlay_column_def col_index_def cf_index_def handle_def)
  next
    case (Some x)
    then have x: "unat x < length cfs" using assms(1,3) by (auto simp: db_cols_def)
    then have "unat x + 1 < 2 ^ 32" using assms(2) by linarith
    then have "cadd x 1 = Some (x + 1)" "unat (x + 1) = unat x + 1" by (simp_all add: cadd_def unat_word_ariths)
    then show ?thesis using x by (simp add: Some to_overlay_column_def col_index_def cf_index_def handle_def)
  qed
  then show "to_overlay_column c = Some (col_index c)" "col_index c \<le> length cfs"
    "cf_index cfs c = Some (handle cfs (col_index c))" by blast+
qed

text \<open>A read sees the view, or reports an error of RocksDB.\<close>

lemma db_get_view:
  assumes "rocks_ok R C B" and "db_wf d" and "c \<in> db_cols d"
  shows "\<exists>r. db_get R d c k = Some r" and "db_get R d c k = Some (Inr v) \<Longrightarrow> v = db_view C d c k"
proof -
  obtain h cfs where d: "db_handle d = Some (h, cfs)" "length cfs < 2 ^ 32"
    "length (overlay d) = Suc (length cfs)" "length (flushing d) = Suc (length cfs)"
    using assms(2) by (rule db_wfE)
  note i = db_cols_index[OF d(1,2) assms(3)]
  have g: "db_get R d c k =
      (case hm_get (overlay d ! col_index c) k of
         Some s \<Rightarrow> Some (Inr (state_value s))
       | None \<Rightarrow> (case hm_get (flushing d ! col_index c) k of
                   Some s \<Rightarrow> Some (Inr (state_value s))
                 | None \<Rightarrow> Some (r_get R h (handle cfs (col_index c)) k)))"
    using i d by (simp add: db_get_def split: option.splits)
  have dur: "db_durable C d c k = C h (handle cfs (col_index c)) k" using assms(3) d(1) by (simp add: db_durable_def)
  have l: "layer (overlay d) c k = hm_get (overlay d ! col_index c) k"
    "layer (flushing d) c k = hm_get (flushing d ! col_index c) k" using i(2) d(3,4) by (simp_all add: layer_def)
  have r: "r_get R h (handle cfs (col_index c)) k = Inr v \<Longrightarrow> v = C h (handle cfs (col_index c)) k"
    using assms(1) by (simp add: rocks_ok_def)
  show "\<exists>r. db_get R d c k = Some r" unfolding g by (auto split: option.splits)
  show "db_get R d c k = Some (Inr v) \<Longrightarrow> v = db_view C d c k"
    unfolding g db_view_def l dur using r by (auto split: option.splits)
qed

text \<open>Buffering an operation.\<close>

fun op_state :: "db_op \<Rightarrow> key_state" where
  "op_state (DInsert c k v) = KInsert v"
| "op_state (DInsertCompressed c k v) = KInsertCompressed v"
| "op_state (DDelete c k) = KDelete"

lemma buffer_op_val:
  assumes "to_overlay_column (op_col op) = Some i" and "i < length ov"
  shows "buffer_op (Some ov) op = Some (ov[i := hm_insert (op_key op) (op_state op) (ov ! i)])"
  using assms by (cases op) (simp_all add: buffer_op_def)

lemma col_index_inj: "col_index c = col_index c' \<longleftrightarrow> c = c'"
  by (auto simp: col_index_def word_unat_eq_iff split: option.splits)

lemma db_cols_overlay [simp]: "db_cols (d\<lparr>overlay := ov\<rparr>) = db_cols d"
  by (simp add: db_cols_def)

lemma db_durable_overlay [simp]: "db_durable C (d\<lparr>overlay := ov\<rparr>) c k = db_durable C d c k"
  by (simp add: db_durable_def split: option.splits)

lemma db_view_overlay: "db_view C (d\<lparr>overlay := ov\<rparr>) c k =
    (case layer ov c k of
       Some s \<Rightarrow> state_value s
     | None \<Rightarrow> (case layer (flushing d) c k of Some s \<Rightarrow> state_value s | None \<Rightarrow> db_durable C d c k))"
  by (simp add: db_view_def split: option.splits)

lemma buffer_op_ok:
  assumes "db_wf d" and "op_col op \<in> db_cols d"
  shows "\<exists>ov. buffer_op (Some (overlay d)) op = Some ov \<and> db_wf (d\<lparr>overlay := ov\<rparr>) \<and> db_cols (d\<lparr>overlay := ov\<rparr>) = db_cols d \<and>
    db_durable C (d\<lparr>overlay := ov\<rparr>) = db_durable C d \<and> db_view C (d\<lparr>overlay := ov\<rparr>) = apply_op (db_view C d) op \<and>
    ((\<forall>m \<in> set (overlay d). plain_column m) \<longrightarrow> plain op \<longrightarrow> (\<forall>m \<in> set ov. plain_column m))"
proof -
  obtain h cfs where d: "db_handle d = Some (h, cfs)" "distinct cfs" "length cfs < 2 ^ 32"
    "length (overlay d) = Suc (length cfs)" "length (flushing d) = Suc (length cfs)"
    "\<forall>m \<in> set (overlay d). hm_ok m" "\<forall>m \<in> set (flushing d). hm_ok m" "\<not> flushing_lock d"
    using assms(1) by (rule db_wfE)
  note i = db_cols_index[OF d(1,3) assms(2)]
  let ?i = "col_index (op_col op)"
  let ?m = "hm_insert (op_key op) (op_state op) (overlay d ! ?i)"
  have l: "?i < length (overlay d)" using i(2) d(4) by simp
  have b: "buffer_op (Some (overlay d)) op = Some ((overlay d)[?i := ?m])" by (rule buffer_op_val[OF i(1) l])
  have "hm_ok ?m" using d(6) l by simp
  then have wf: "db_wf (d\<lparr>overlay := (overlay d)[?i := ?m]\<rparr>)"
    using d set_update_subset_insert[of "overlay d" ?i ?m] by (auto simp: db_wf_def)
  have lay: "layer ((overlay d)[?i := ?m]) c k =
      (if c = op_col op \<and> k = op_key op then Some (op_state op) else layer (overlay d) c k)" for c k
    using l by (auto simp: layer_def col_index_inj nth_list_update)
  have view: "db_view C (d\<lparr>overlay := (overlay d)[?i := ?m]\<rparr>) = apply_op (db_view C d) op"
  proof (intro ext)
    fix c k
    have "apply_op (db_view C d) op c k = (if c = op_col op \<and> k = op_key op then state_value (op_state op) else db_view C d c k)"
      by (cases op) auto
    then show "db_view C (d\<lparr>overlay := (overlay d)[?i := ?m]\<rparr>) c k = apply_op (db_view C d) op c k"
      by (simp add: db_view_overlay lay db_view_def[of C d])
  qed
  have dur: "db_durable C (d\<lparr>overlay := (overlay d)[?i := ?m]\<rparr>) = db_durable C d" by (simp add: fun_eq_iff)
  have "plain_column ?m" if "\<forall>m \<in> set (overlay d). plain_column m" "plain op"
  proof -
    have "plain_column (overlay d ! ?i)" using that(1) l by simp
    moreover have "set ?m \<subseteq> insert (op_key op, op_state op) (set (overlay d ! ?i))"
      by (rule set_hm_insert)
    ultimately show ?thesis using that(2) by (cases op) (auto simp: plain_column_def)
  qed
  then show ?thesis using b wf dur view set_update_subset_insert[of "overlay d" ?i ?m] by fastforce
qed

lemma buffer_ops_ok:
  "db_wf d \<Longrightarrow> \<forall>op \<in> set os. op_col op \<in> db_cols d \<Longrightarrow>
    \<exists>ov. foldl buffer_op (Some (overlay d)) os = Some ov \<and> db_wf (d\<lparr>overlay := ov\<rparr>) \<and>
      db_view C (d\<lparr>overlay := ov\<rparr>) = foldl apply_op (db_view C d) os \<and>
      ((\<forall>m \<in> set (overlay d). plain_column m) \<longrightarrow> (\<forall>op \<in> set os. plain op) \<longrightarrow> (\<forall>m \<in> set ov. plain_column m))"
proof (induction os arbitrary: d)
  case (Cons op os)
  obtain ov where ov: "buffer_op (Some (overlay d)) op = Some ov" "db_wf (d\<lparr>overlay := ov\<rparr>)"
    "db_view C (d\<lparr>overlay := ov\<rparr>) = apply_op (db_view C d) op"
    "(\<forall>m \<in> set (overlay d). plain_column m) \<longrightarrow> plain op \<longrightarrow> (\<forall>m \<in> set ov. plain_column m)"
    using buffer_op_ok[OF Cons.prems(1), of op C] Cons.prems(2) by auto
  from Cons.IH[OF ov(2)] Cons.prems(2) obtain ov2 where ov2:
    "foldl buffer_op (Some ov) os = Some ov2" "db_wf (d\<lparr>overlay := ov2\<rparr>)"
    "db_view C (d\<lparr>overlay := ov2\<rparr>) = foldl apply_op (db_view C (d\<lparr>overlay := ov\<rparr>)) os"
    "(\<forall>m \<in> set ov. plain_column m) \<longrightarrow> (\<forall>op \<in> set os. plain op) \<longrightarrow> (\<forall>m \<in> set ov2. plain_column m)"
    by auto
  have "foldl buffer_op (Some (overlay d)) (op # os) = Some ov2" using ov(1) ov2(1) by simp
  moreover have "db_view C (d\<lparr>overlay := ov2\<rparr>) = foldl apply_op (db_view C d) (op # os)" using ov(3) ov2(3) by simp
  moreover have "\<forall>m \<in> set ov2. plain_column m"
    if "\<forall>m \<in> set (overlay d). plain_column m" "\<forall>op' \<in> set (op # os). plain op'"
    using that ov(4) ov2(4) by (meson list.set_intros)
  ultimately show ?case using ov2(2) by blast
qed simp

text \<open>Two vectors of hash maps with empty second one: the swap of a flush.\<close>

lemma layer_empty: "\<forall>m \<in> set ms. m = [] \<Longrightarrow> layer ms c k = None"
  unfolding layer_def by (metis hm_get_empty nth_mem)

definition swapped :: "('db, 'cf) database \<Rightarrow> ('db, 'cf) database" where
  "swapped d = d\<lparr>overlay := flushing d, flushing := overlay d\<rparr>"

text \<open>A flush that succeeds stores every buffered value, and leaves what was being flushed in the overlay.\<close>

lemma db_flush_val:
  assumes "rocks_ok R C B" and "iteration_order ord" and "db_wf d" and "db_flush R bo ord d = Some (r, d')"
  shows "db_wf d'" and "db_cols d' = db_cols d" and "overlay d' = flushing d"
    and "r = Inr () \<Longrightarrow> \<forall>m \<in> set (flushing d'). m = []"
    and "r = Inr () \<Longrightarrow> c \<in> db_cols d \<Longrightarrow> db_durable C d' c k =
      (case layer (overlay d) c k of Some s \<Rightarrow> stored bo (col_index c) s | None \<Rightarrow> db_durable C d c k)"
    and "r \<noteq> Inr () \<Longrightarrow> flushing d' = overlay d \<and> db_durable C d' = db_durable C d"
proof -
  obtain h cfs where d: "db_handle d = Some (h, cfs)" "distinct cfs" "length cfs < 2 ^ 32"
    "length (overlay d) = Suc (length cfs)" "length (flushing d) = Suc (length cfs)"
    "\<forall>m \<in> set (overlay d). hm_ok m" "\<forall>m \<in> set (flushing d). hm_ok m" "\<not> flushing_lock d"
    using assms(3) by (rule db_wfE)
  let ?f = "foldl (flush_entry R bo cfs) (Some (Inr (r_batch R))) (entries ord 0 (overlay d))"
  have es: "\<forall>(c, k, s) \<in> set (entries ord 0 (overlay d)). c \<le> length cfs"
    using d(4) by (auto simp: set_entries[OF assms(2)])
  note ap = apply_entries[OF assms(2) d(2) d(6), of 0]
  consider (err) e where "?f = Some (Inl e)" | (ok) b where "?f = Some (Inr b)"
    using assms(4) d(1,8) by (cases ?f; cases "the ?f") (auto simp: db_flush_def write_flushing_with_lock_def)
  then have "db_wf d' \<and> db_cols d' = db_cols d \<and> overlay d' = flushing d \<and>
    (r = Inr () \<longrightarrow> (\<forall>m \<in> set (flushing d'). m = []) \<and> (c \<in> db_cols d \<longrightarrow> db_durable C d' c k =
      (case layer (overlay d) c k of Some s \<Rightarrow> stored bo (col_index c) s | None \<Rightarrow> db_durable C d c k))) \<and>
    (r \<noteq> Inr () \<longrightarrow> flushing d' = overlay d \<and> db_durable C d' = db_durable C d)"
  proof cases
    case (err e)
    then have "r = Inl e" "d' = swapped d"
      using assms(4) d(1,8) by (auto simp: db_flush_def write_flushing_with_lock_def swapped_def)
    then show ?thesis using d by (auto simp: swapped_def db_wf_def db_cols_def db_durable_def fun_eq_iff split: option.splits)
  next
    case (ok b)
    obtain rw h' where w: "r_write R b h = (rw, h')" by fastforce
    show ?thesis
    proof (cases rw)
      case (Inl e)
      then have "r = Inl e" "d' = (swapped d)\<lparr>db_handle := Some (h', cfs)\<rparr>"
        using assms(4) d(1,8) w ok by (auto simp: db_flush_def write_flushing_with_lock_def swapped_def)
      moreover have "C h' = C h" using assms(1) w Inl unfolding rocks_ok_def by blast
      ultimately show ?thesis using d
        by (auto simp: swapped_def db_wf_def db_cols_def db_durable_def fun_eq_iff split: option.splits)
    next
      case (Inr u)
      have d': "r = Inr ()" "d' = (swapped d)\<lparr>db_handle := Some (h', cfs), flushing := map (\<lambda>_. []) (overlay d)\<rparr>"
        using assms(4) d(1,8) w ok Inr by (auto simp: db_flush_def write_flushing_with_lock_def swapped_def)
      have "C h' = apply_batch (C h) (B b)" using assms(1) w Inr unfolding rocks_ok_def by auto
      also have "B b = map (\<lambda>(c, k, s). (handle cfs c, k, stored bo c s)) (entries ord 0 (overlay d))"
        by (rule flush_entry_fold[OF assms(1) es ok])
      finally have C: "C h' (handle cfs i) k = (case (if i < length (overlay d) then hm_get (overlay d ! i) k else None) of
          Some s \<Rightarrow> stored bo i s | None \<Rightarrow> C h (handle cfs i) k)" if "i \<le> length cfs" for i
        using ap[of i "C h" bo k] that d(4) by simp
      have dur: "db_durable C d' c k =
          (case layer (overlay d) c k of Some s \<Rightarrow> stored bo (col_index c) s | None \<Rightarrow> db_durable C d c k)" if "c \<in> db_cols d"
        using C[OF db_cols_index(2)[OF d(1,3) that]] that d(1)
        by (simp add: d' swapped_def db_durable_def db_cols_def layer_def split: option.splits)
      show ?thesis using d d' dur by (auto simp: swapped_def db_wf_def db_cols_def)
    qed
  qed
  then show "db_wf d'" "db_cols d' = db_cols d" "overlay d' = flushing d"
    "r = Inr () \<Longrightarrow> \<forall>m \<in> set (flushing d'). m = []"
    "r = Inr () \<Longrightarrow> c \<in> db_cols d \<Longrightarrow> db_durable C d' c k =
      (case layer (overlay d) c k of Some s \<Rightarrow> stored bo (col_index c) s | None \<Rightarrow> db_durable C d c k)"
    "r \<noteq> Inr () \<Longrightarrow> flushing d' = overlay d \<and> db_durable C d' = db_durable C d" by blast+
qed

lemma db_flush_total:
  assumes "db_inv R C B ord d"
  shows "\<exists>r d'. db_flush R bo ord d = Some (r, d')"
proof -
  have ord: "iteration_order ord" using assms by (simp add: db_inv_def)
  obtain h cfs where d: "db_handle d = Some (h, cfs)" "length (overlay d) = Suc (length cfs)" "\<not> flushing_lock d"
    using assms unfolding db_inv_def by (auto elim: db_wfE)
  have "\<forall>(c, k, s) \<in> set (entries ord 0 (overlay d)). c \<le> length cfs \<and> (\<forall>v. s \<noteq> KInsertCompressed v)"
    using assms d(2) by (fastforce simp: set_entries[OF ord] db_inv_def plain_column_def)
  from flush_entry_total[OF this] obtain f where
    "foldl (flush_entry R bo cfs) (Some (Inr (r_batch R))) (entries ord 0 (overlay d)) = Some f" by blast
  moreover obtain r h' where "r_write R (case f of Inr b \<Rightarrow> b | Inl e \<Rightarrow> r_batch R) h = (r, h')" by fastforce
  ultimately show ?thesis using d by (cases f; cases r) (auto simp: db_flush_def write_flushing_with_lock_def)
qed

lemma stored_plain: "\<forall>m \<in> set ms. plain_column m \<Longrightarrow> layer ms c k = Some s \<Longrightarrow> stored bo i s = state_value s"
proof -
  assume "\<forall>m \<in> set ms. plain_column m" "layer ms c k = Some s"
  then have "plain_column (ms ! col_index c)" "(k, s) \<in> set (ms ! col_index c)"
    by (auto simp: layer_def dest: hm_get_in split: if_splits)
  then have "\<forall>v. s \<noteq> KInsertCompressed v" by (auto simp: plain_column_def)
  then show ?thesis by (cases s) (simp_all add: stored_def)
qed

lemma db_outside: "db_wf d \<Longrightarrow> c \<notin> db_cols d \<Longrightarrow> layer (overlay d) c k = None \<and> layer (flushing d) c k = None \<and> db_durable C d c k = None"
  by (auto simp: db_wf_def db_cols_def layer_def col_index_def db_durable_def split: option.splits)

lemma db_flush_ok:
  assumes "db_inv R C B ord d" and "db_flush R bo ord d = Some (Inr (), d')"
  shows "db_inv R C B ord d' \<and> db_cols d' = db_cols d \<and> db_view C d' = db_view C d \<and> db_durable C d' = db_view C d"
proof -
  have i: "rocks_ok R C B" "iteration_order ord" "db_wf d" "\<forall>m \<in> set (overlay d). plain_column m" "\<forall>m \<in> set (flushing d). m = []"
    using assms(1) by (auto simp: db_inv_def)
  note f = db_flush_val[OF i(1-3) assms(2)]
  have dur: "db_durable C d' c k = db_view C d c k" for c k
  proof (cases "c \<in> db_cols d")
    case True
    then show ?thesis using f(5)[OF refl True] stored_plain[OF i(4), of c k _ bo "col_index c"]
      by (auto simp: db_view_def layer_empty[OF i(5)] split: option.splits)
  next
    case False
    then show ?thesis using db_outside[OF i(3) False] db_outside[OF f(1), of c] f(2) by (simp add: db_view_def)
  qed
  have "layer (overlay d') c k = None \<and> layer (flushing d') c k = None" for c k
    using f(3) f(4)[OF refl] i(5) by (simp add: layer_empty)
  then have "db_view C d' c k = db_durable C d' c k" for c k by (simp add: db_view_def)
  moreover have "db_inv R C B ord d'" using f(1,3) f(4)[OF refl] i by (auto simp: db_inv_def plain_column_def)
  ultimately show ?thesis using dur f(2) by (auto simp: fun_eq_iff)
qed

interpretation dbi: kv_store "db_inv R C B ord" db_cols "db_view C" "db_durable C" "db_get R" db_write_buffered "db_flush R bo ord"
  for R :: "('fs, 'db, 'cf, 'b) rocks" and C B ord bo
proof unfold_locales
  fix d :: "('db, 'cf) database" and c k v assume "db_inv R C B ord d" "c \<in> db_cols d"
  then show "\<exists>r. db_get R d c k = Some r" "db_get R d c k = Some (Inr v) \<Longrightarrow> v = db_view C d c k"
    using db_get_view(1)[of R C B d c k] db_get_view(2)[of R C B d c k v] by (auto simp: db_inv_def)
next
  fix d :: "('db, 'cf) database" and tr :: db_transaction
  assume a: "db_inv R C B ord d" "ops_ok (db_cols d) (ops tr)"
  then obtain ov where "foldl buffer_op (Some (overlay d)) (ops tr) = Some ov" "db_wf (d\<lparr>overlay := ov\<rparr>)"
    "db_view C (d\<lparr>overlay := ov\<rparr>) = foldl apply_op (db_view C d) (ops tr)" "\<forall>m \<in> set ov. plain_column m"
    using buffer_ops_ok[of d "ops tr" C] by (auto simp: db_inv_def ops_ok_def)
  then show "\<exists>s'. db_write_buffered tr d = Some s' \<and> db_inv R C B ord s' \<and> db_cols s' = db_cols d \<and>
      db_view C s' = foldl apply_op (db_view C d) (ops tr)"
    using a by (auto simp: db_write_buffered_def db_inv_def)
next
  fix d :: "('db, 'cf) database" assume "db_inv R C B ord d"
  then show "\<exists>r s'. db_flush R bo ord d = Some (r, s')" by (rule db_flush_total)
next
  fix d d' :: "('db, 'cf) database" assume "db_inv R C B ord d" "db_flush R bo ord d = Some (Inr (), d')"
  then show "db_inv R C B ord d' \<and> db_cols d' = db_cols d \<and> db_view C d' = db_view C d \<and> db_durable C d' = db_view C d"
    by (rule db_flush_ok)
qed

subsection \<open>A map as RocksDB\<close>

text \<open>An instance of the parameters for the concrete examples: the state is the contents and
  whether the next write fails.\<close>

definition map_rocks :: "(unit, bool \<times> (nat option \<Rightarrow> bytes \<Rightarrow> bytes option), nat, nat batch) rocks" where
  "map_rocks =
     \<lparr>r_set_parsed_options = (\<lambda>_. Inr ()), r_open = (\<lambda>_ fs. (Inr (False, \<lambda>_ _. None), fs)), r_open_cf = (\<lambda>_ _ _ fs. (Inr (False, \<lambda>_ _. None), fs)),
      r_repair = (\<lambda>_ fs. (Inr (), fs)), r_cf_handle = (\<lambda>_ n. Some (length n)), r_create_cf = (\<lambda>n _ h. (Inr (length n), h)),
      r_drop_cf = (\<lambda>_ h. (Inr (), h)), r_batch = [], r_put = (\<lambda>cf k v b. Inr (b @ [(cf, k, Some v)])),
      r_delete = (\<lambda>cf k b. Inr (b @ [(cf, k, None)])), r_write = (\<lambda>b (fails, h). if fails then (Inl ''write failed'', (False, h)) else (Inr (), (False, apply_batch h b))),
      r_get = (\<lambda>h cf k. Inr (snd h cf k)), r_iter = (\<lambda>_ _ _. [])\<rparr>"

lemma map_rocks_ok: "rocks_ok map_rocks snd (\<lambda>b. b)"
  by (auto simp: rocks_ok_def map_rocks_def split: if_splits)

definition map_db :: "bool \<Rightarrow> (bool \<times> (nat option \<Rightarrow> bytes \<Rightarrow> bytes option), nat) database" where
  "map_db fails = database_new (config_with_columns (Some 1)) [] (fails, \<lambda>_ _. None) [0]"

lemma map_db_inv: "db_inv map_rocks snd (\<lambda>b. b) (\<lambda>m. m) (map_db fails)"
  by (auto simp: db_inv_def map_rocks_ok iteration_order_id db_wf_def map_db_def database_new_def plain_column_def)

lemma map_db_cols: "db_cols (map_db fails) = {None, Some 0}"
  by (auto simp: db_cols_def map_db_def database_new_def unat_eq_zero)

definition map_db_put :: "bool \<Rightarrow> (bool \<times> (nat option \<Rightarrow> bytes \<Rightarrow> bytes option), nat) database" where
  "map_db_put fails = (map_db fails)\<lparr>overlay := [[], [([1], KInsert [2])]]\<rparr>"

lemma map_db_put_val: "db_write_buffered (tr_put (Some 0) [1] [2] tr_new) (map_db fails) = Some (map_db_put fails)"
  by (simp add: db_write_buffered_def tr_put_def tr_new_def map_db_def map_db_put_def database_new_def buffer_op_def
      to_overlay_column_def cadd_def index_def hm_insert_def)

lemma map_flush:
  assumes "db_handle d = Some ((False, st), [0])" and "overlay d = [[], [([1], KInsert x)]]" and "\<not> flushing_lock d"
  shows "db_flush map_rocks byteorder_be (\<lambda>m. m) d =
    Some (Inr (), d\<lparr>db_handle := Some ((False, apply_batch st [(Some 0, [1], Some x)]), [0]),
      overlay := flushing d, flushing := [[], []], flushing_lock := False\<rparr>)"
  using assms by (simp add: db_flush_def write_flushing_with_lock_def entries_def flush_entry_def cf_of_def map_rocks_def)

lemma map_db_put_flush: "\<exists>d2. db_flush map_rocks byteorder_be (\<lambda>m. m) (map_db_put False) = Some (Inr (), d2)"
  by (simp add: map_db_put_def map_db_def database_new_def db_flush_def write_flushing_with_lock_def entries_def
      flush_entry_def cf_of_def map_rocks_def)

subsection \<open>Properties\<close>

text \<open>
  Every read gives what \<open>st\<close> has for the key. Only for a key that is not in the overlay can it be an
  error instead, and then that is the error with which RocksDB answered.\<close>

definition answers :: "('fs, 'db, 'cf, 'b) rocks \<Rightarrow> ('db, 'cf) database \<Rightarrow> store \<Rightarrow> bool" where
  "answers R d st \<longleftrightarrow> (\<forall>c \<in> db_cols d. \<forall>k. db_get R d c k = Some (Inr (st c k)) \<or>
     (\<exists>e h cfs cf. db_get R d c k = Some (Inl e) \<and> layer (overlay d) c k = None \<and> db_handle d = Some (h, cfs) \<and> r_get R h cf k = Inl e))"

lemma answers_view:
  assumes "db_inv R C B ord d"
  shows "answers R d (db_view C d)"
  unfolding answers_def
proof (intro ballI allI)
  fix c k
  assume c: "c \<in> db_cols d"
  have w: "rocks_ok R C B" "db_wf d" using assms by (simp_all add: db_inv_def)
  obtain h cfs where d: "db_handle d = Some (h, cfs)" "length cfs < 2 ^ 32"
    "length (overlay d) = Suc (length cfs)" "length (flushing d) = Suc (length cfs)"
    using w(2) by (rule db_wfE)
  note i = db_cols_index[OF d(1,2) c]
  obtain r where r: "db_get R d c k = Some r" using db_get_view(1)[OF w c] by blast
  show "db_get R d c k = Some (Inr (db_view C d c k)) \<or>
     (\<exists>e h cfs cf. db_get R d c k = Some (Inl e) \<and> layer (overlay d) c k = None \<and> db_handle d = Some (h, cfs) \<and> r_get R h cf k = Inl e)"
  proof (cases r)
    case (Inl e)
    with r i d have "hm_get (overlay d ! col_index c) k = None \<and> r_get R h (handle cfs (col_index c)) k = Inl e"
      by (auto simp: db_get_def split: option.splits)
    then show ?thesis using r Inl d i(2) by (auto simp: layer_def)
  next
    case (Inr v)
    then show ?thesis using db_get_view(2)[OF w c, of k v] r by simp
  qed
qed

text \<open>
  C18. The buffered database implements the abstract store: after any sequence of buffered transactions
  (plain puts and deletes in existing columns) every read sees their effect, applied one after another to the old contents, although nothing has
  been flushed; a read fails only where RocksDB fails, and never for a key that is buffered. A flush
  returns, and when it succeeds RocksDB holds exactly these contents and every read still sees them.\<close>

theorem database_refines:
  assumes "db_inv R C B ord d" and "\<forall>tr \<in> set trs. ops_ok (db_cols d) (ops tr)"
  shows "\<exists>d1. foldl (\<lambda>acc tr. Option.bind acc (db_write_buffered tr)) (Some d) trs = Some d1 \<and> db_cols d1 = db_cols d \<and>
    answers R d1 (foldl apply_op (db_view C d) (concat (map ops trs))) \<and>
    (\<exists>r d2. db_flush R bo ord d1 = Some (r, d2) \<and> (r = Inr () \<longrightarrow> db_inv R C B ord d2 \<and> db_cols d2 = db_cols d \<and>
      db_durable C d2 = foldl apply_op (db_view C d) (concat (map ops trs)) \<and>
      answers R d2 (foldl apply_op (db_view C d) (concat (map ops trs)))))"
proof -
  obtain d1 where d1: "foldl (\<lambda>acc tr. Option.bind acc (db_write_buffered tr)) (Some d) trs = Some d1" "db_inv R C B ord d1"
    "db_cols d1 = db_cols d" "db_view C d1 = foldl apply_op (db_view C d) (concat (map ops trs))"
    using dbi.write_all[OF assms] by blast
  obtain r d2 where f: "db_flush R bo ord d1 = Some (r, d2)" using dbi.flush_total[OF d1(2)] by blast
  show ?thesis using d1 f answers_view[OF d1(2)] dbi.flush_ok[OF d1(2)] answers_view[of R C B ord d2] by fastforce
qed

theorem database_refines_witness:
  "db_get map_rocks (map_db_put False) (Some 0) [1] = Some (Inr (Some [2])) \<and>
    (\<exists>d2. db_flush map_rocks byteorder_be (\<lambda>m. m) (map_db_put False) = Some (Inr (), d2) \<and>
      db_durable snd d2 (Some 0) [1] = Some [2] \<and> db_get map_rocks d2 (Some 0) [1] = Some (Inr (Some [2])))"
proof -
  let ?trs = "[tr_put (Some 0) [1] [2] tr_new]"
  have ok: "\<forall>tr \<in> set ?trs. ops_ok (db_cols (map_db False)) (ops tr)"
    by (simp add: map_db_cols tr_put_def tr_new_def)
  have st: "foldl apply_op (db_view snd (map_db False)) (concat (map ops ?trs)) (Some 0) [1] = Some [2]"
    by (simp add: tr_put_def tr_new_def)
  have get: "db_get map_rocks d (Some 0) [1] = Some (Inr (st (Some 0) [1]))"
    if "answers map_rocks d st" "db_cols d = db_cols (map_db False)" for d st
    using that unfolding answers_def by (fastforce simp: map_db_cols map_rocks_def)
  obtain d2 where "db_flush map_rocks byteorder_be (\<lambda>m. m) (map_db_put False) = Some (Inr (), d2)" using map_db_put_flush by blast
  then show ?thesis
    using database_refines[OF map_db_inv ok, of byteorder_be] get st by (auto simp: map_db_put_val)
qed

text \<open>
  The in-memory store and the database are interchangeable for plain operations: after the same
  transactions, starting from the same contents, two reads that succeed agree.\<close>

theorem stores_agree:
  assumes "db_inv R C B ord d" and "mem_inv s" and "mem_cols s = db_cols d" and "mem_view s = db_view C d"
    and "\<forall>tr \<in> set trs. ops_ok (db_cols d) (ops tr)" and "c \<in> db_cols d"
    and "foldl (\<lambda>acc tr. Option.bind acc (db_write_buffered tr)) (Some d) trs = Some d1"
    and "foldl (\<lambda>acc tr. Option.bind acc (mem_write_buffered bo tr)) (Some s) trs = Some s1"
    and "db_get R d1 c k = Some (Inr v)"
  shows "mem_get s1 c k = Some (Inr v)"
proof -
  have d1: "db_inv R C B ord d1" "db_cols d1 = db_cols d" "db_view C d1 = foldl apply_op (db_view C d) (concat (map ops trs))"
    using dbi.write_all[OF assms(1,5)] assms(7) by auto
  have s1: "mem_inv s1" "mem_cols s1 = mem_cols s" "mem_view s1 = foldl apply_op (mem_view s) (concat (map ops trs))"
    using mem.write_all[OF assms(2), of trs bo] assms(3,5,8) by auto
  have "v = mem_view s1 c k" using dbi.get_view[OF d1(1) _ assms(9)] d1(2,3) s1(3) assms(4,6) by simp
  moreover have "c \<in> mem_cols s1" using s1(2) assms(3,6) by simp
  ultimately show ?thesis by (auto simp: mem_cols_def mem_get_def mem_view_def)
qed

theorem stores_agree_witness:
  "\<exists>d1 s1 v. db_write_buffered (tr_put (Some 0) [1] [2] tr_new) (map_db False) = Some d1 \<and>
    mem_write_buffered byteorder_be (tr_put (Some 0) [1] [2] tr_new) (in_memory 1) = Some s1 \<and>
    db_get map_rocks d1 (Some 0) [1] = Some (Inr v) \<and> mem_get s1 (Some 0) [1] = Some (Inr v)"
proof -
  let ?tr = "tr_put (Some 0) [1] [2] tr_new"
  have c: "mem_cols (in_memory 1) = db_cols (map_db False)" by (auto simp: in_memory_cols map_db_cols word_less_nat_alt unat_eq_zero)
  have v: "mem_view (in_memory 1) = db_view snd (map_db False)"
    by (auto simp: fun_eq_iff mem_view_def in_memory_def db_view_def layer_def db_durable_def map_db_def database_new_def
        col_index_def nth_Cons' split: option.splits)
  have ok: "ops_ok (db_cols (map_db False)) (ops ?tr)" by (simp add: map_db_cols tr_put_def tr_new_def)
  obtain d1 where d1: "db_write_buffered ?tr (map_db False) = Some d1" using dbi.write_buffered_ok[OF map_db_inv ok] by blast
  obtain s1 where s1: "mem_write_buffered byteorder_be ?tr (in_memory 1) = Some s1"
    using mem.write_buffered_ok[OF in_memory_inv, of 1 ?tr byteorder_be] ok c by auto
  have g: "db_get map_rocks d1 (Some 0) [1] = Some (Inr (Some [2]))"
    using d1 by (auto simp: db_write_buffered_def tr_put_def tr_new_def map_db_def database_new_def buffer_op_def
        to_overlay_column_def cadd_def db_get_def index_def)
  have "mem_get s1 (Some 0) [1] = Some (Inr (Some [2]))"
    by (rule stores_agree[OF map_db_inv in_memory_inv c v, of "[?tr]" "Some 0" d1 byteorder_be s1]) (use ok d1 s1 g map_db_cols in auto)
  then show ?thesis using d1 s1 g by blast
qed

text \<open>
  C20. A failed flush loses the order of writes. Let a buffered value \<open>a\<close> fail to be flushed, and let
  \<open>b\<close> be written to the key afterwards. The next flush succeeds and stores \<open>b\<close>, but it swaps the old
  \<open>a\<close> back into the overlay: reads return \<open>a\<close> again, and one more flush overwrites \<open>b\<close> with \<open>a\<close>.\<close>

theorem failed_flush_reverts:
  assumes "db_inv R C B ord d" and "c \<in> db_cols d" and "layer (overlay d) c k = Some (KInsert a)"
    and "db_flush R bo ord d = Some (Inl e, d1)" and "db_write_buffered (tr_put c k b tr_new) d1 = Some d2"
    and "db_flush R bo ord d2 = Some (Inr (), d3)" and "db_flush R bo ord d3 = Some (Inr (), d4)"
  shows "db_view C d2 c k = Some b \<and> db_durable C d3 c k = Some b \<and> db_view C d3 c k = Some a \<and> db_durable C d4 c k = Some a"
proof -
  have i: "rocks_ok R C B" "iteration_order ord" "db_wf d" using assms(1) by (auto simp: db_inv_def)
  note f1 = db_flush_val[OF i assms(4)]
  have c1: "c \<in> db_cols d1" using f1(2) assms(2) by simp
  obtain ov where ov: "buffer_op (Some (overlay d1)) (DInsert c k b) = Some ov" "db_wf (d1\<lparr>overlay := ov\<rparr>)"
    "db_view C (d1\<lparr>overlay := ov\<rparr>) = apply_op (db_view C d1) (DInsert c k b)"
    using buffer_op_ok[OF f1(1), of "DInsert c k b" C] c1 by auto
  have d2: "d2 = d1\<lparr>overlay := ov\<rparr>" using assms(5) ov(1) by (simp add: db_write_buffered_def tr_put_def tr_new_def)
  have wf2: "db_wf d2" using ov(2) d2 by simp
  have fl2: "flushing d2 = overlay d" using f1(6) d2 by simp
  have c2: "c \<in> db_cols d2" using c1 d2 by simp
  have v2: "db_view C d2 c k = Some b" using ov(3) d2 by simp
  have "col_index c < length (overlay d1)" "to_overlay_column c = Some (col_index c)"
    using f1(1) c1 by (auto elim!: db_wfE dest: db_cols_index)
  then have "ov = (overlay d1)[col_index c := hm_insert k (KInsert b) (overlay d1 ! col_index c)]"
    and l: "col_index c < length (overlay d1)"
    using ov(1) buffer_op_val[of "DInsert c k b" "col_index c" "overlay d1"] by auto
  then have l2: "layer (overlay d2) c k = Some (KInsert b)" using d2 by (simp add: layer_def)
  note f2 = db_flush_val[OF i(1,2) wf2 assms(6)]
  have d3: "db_durable C d3 c k = Some b" using f2(5)[OF refl c2, of k] l2 by (simp add: stored_def)
  have l3: "layer (overlay d3) c k = Some (KInsert a)" using f2(3) fl2 assms(3) by simp
  then have v3: "db_view C d3 c k = Some a" by (simp add: db_view_def)
  have "c \<in> db_cols d3" using f2(2) c2 by simp
  then have "db_durable C d4 c k = Some a"
    using db_flush_val(5)[OF i(1,2) f2(1) assms(7) refl, of c k] l3 by (simp add: stored_def)
  then show ?thesis using v2 d3 v3 by blast
qed

theorem failed_flush_reverts_witness:
  "\<exists>d1 d2 d3 d4. db_flush map_rocks byteorder_be (\<lambda>m. m) (map_db_put True) = Some (Inl ''write failed'', d1) \<and>
    db_write_buffered (tr_put (Some 0) [1] [3] tr_new) d1 = Some d2 \<and> db_view snd d2 (Some 0) [1] = Some [3] \<and>
    db_flush map_rocks byteorder_be (\<lambda>m. m) d2 = Some (Inr (), d3) \<and> db_view snd d3 (Some 0) [1] = Some [2] \<and>
    db_flush map_rocks byteorder_be (\<lambda>m. m) d3 = Some (Inr (), d4) \<and> db_durable snd d4 (Some 0) [1] = Some [2]"
proof -
  have inv: "db_inv map_rocks snd (\<lambda>b. b) (\<lambda>m. m) (map_db_put True)"
    by (auto simp: db_inv_def map_rocks_ok iteration_order_id db_wf_def map_db_put_def map_db_def database_new_def plain_column_def hm_ok_def)
  have c: "Some 0 \<in> db_cols (map_db_put True)" using map_db_cols by (simp add: map_db_put_def)
  have l: "layer (overlay (map_db_put True)) (Some 0) [1] = Some (KInsert [2])"
    by (simp add: layer_def map_db_put_def col_index_def hm_get_def)
  let ?d1 = "(map_db_put True)\<lparr>db_handle := Some ((False, \<lambda>_ _. None), [0]), overlay := [[], []], flushing := [[], [([1], KInsert [2])]]\<rparr>"
  have f1: "db_flush map_rocks byteorder_be (\<lambda>m. m) (map_db_put True) = Some (Inl ''write failed'', ?d1)"
    by (simp add: map_db_put_def map_db_def database_new_def db_flush_def write_flushing_with_lock_def entries_def
      flush_entry_def cf_of_def map_rocks_def)
  let ?d2 = "?d1\<lparr>overlay := [[], [([1], KInsert [3])]]\<rparr>"
  have w: "db_write_buffered (tr_put (Some 0) [1] [3] tr_new) ?d1 = Some ?d2"
    by (simp add: db_write_buffered_def tr_put_def tr_new_def buffer_op_def to_overlay_column_def cadd_def index_def hm_insert_def)
  obtain d3 where f2: "db_flush map_rocks byteorder_be (\<lambda>m. m) ?d2 = Some (Inr (), d3)"
    and d3: "d3 = ?d1\<lparr>db_handle := Some ((False, apply_batch (\<lambda>_ _. None) [(Some 0, [1], Some [3])]), [0]),
      overlay := [[], [([1], KInsert [2])]], flushing := [[], []]\<rparr>"
    using map_flush[of "?d2" "\<lambda>_ _. None" "[3]"] by (simp add: map_db_put_def map_db_def database_new_def)
  obtain d4 where f3: "db_flush map_rocks byteorder_be (\<lambda>m. m) d3 = Some (Inr (), d4)"
    using map_flush[of d3 "apply_batch (\<lambda>_ _. None) [(Some 0, [1], Some [3])]" "[2]"] by (simp add: d3 map_db_put_def map_db_def database_new_def)
  from failed_flush_reverts[OF inv c l f1 w f2 f3] f1 w f2 f3 show ?thesis by blast
qed

text \<open>
  A write past the buffer is invisible while the key is buffered, and the next flush undoes it:
  \<open>Database::write\<close> goes to RocksDB directly, where the default method of the trait buffers and
  flushes.\<close>

theorem direct_write_undone:
  assumes "db_inv R C B ord d" and "c \<in> db_cols d" and "layer (overlay d) c k = Some (KInsert a)"
    and "db_write R bo (tr_put c k b tr_new) d = Some (Inr (), d1)" and "db_flush R bo ord d1 = Some (Inr (), d2)"
  shows "db_durable C d1 c k = Some b \<and> db_view C d1 c k = Some a \<and> db_durable C d2 c k = Some a"
proof -
  have i: "rocks_ok R C B" "iteration_order ord" "db_wf d" using assms(1) by (auto simp: db_inv_def)
  obtain h cfs where d: "db_handle d = Some (h, cfs)" "length cfs < 2 ^ 32" using i(3) by (rule db_wfE)
  note x = db_cols_index[OF d assms(2)]
  obtain b1 h1 where w: "r_put R (handle cfs (col_index c)) k b (r_batch R) = Inr b1" "r_write R b1 h = (Inr (), h1)"
    "d1 = d\<lparr>db_handle := Some (h1, cfs)\<rparr>"
    using assms(4) d(1) x(3)
    by (cases "r_put R (handle cfs (col_index c)) k b (r_batch R)")
      (auto simp: db_write_def tr_put_def tr_new_def write_entry_def split: prod.splits)
  have "B b1 = [(handle cfs (col_index c), k, Some b)]" using i(1) w(1) unfolding rocks_ok_def by fastforce
  moreover have "C h1 = apply_batch (C h) (B b1)" using i(1) w(2) unfolding rocks_ok_def by blast
  ultimately have "C h1 (handle cfs (col_index c)) k = Some b" by (simp add: apply_batch_def)
  moreover have c1: "c \<in> db_cols d1" using assms(2) w(3) d(1) by (simp add: db_cols_def)
  ultimately have a: "db_durable C d1 c k = Some b" using w(3) by (simp add: db_durable_def)
  have l: "layer (overlay d1) c k = Some (KInsert a)" using assms(3) w(3) by simp
  have "db_wf d1" using i(3) w(3) d(1) by (simp add: db_wf_def)
  then have "db_durable C d2 c k = Some a"
    using db_flush_val(5)[OF i(1,2) _ assms(5) refl c1, of k] l by (simp add: stored_def)
  moreover have "db_view C d1 c k = Some a" using l by (simp add: db_view_def)
  ultimately show ?thesis using a by blast
qed

theorem direct_write_undone_witness:
  "\<exists>d1 d2. db_write map_rocks byteorder_be (tr_put (Some 0) [1] [3] tr_new) (map_db_put False) = Some (Inr (), d1) \<and>
    db_durable snd d1 (Some 0) [1] = Some [3] \<and> db_view snd d1 (Some 0) [1] = Some [2] \<and>
    db_flush map_rocks byteorder_be (\<lambda>m. m) d1 = Some (Inr (), d2) \<and> db_durable snd d2 (Some 0) [1] = Some [2]"
proof -
  have inv: "db_inv map_rocks snd (\<lambda>b. b) (\<lambda>m. m) (map_db_put False)"
    by (auto simp: db_inv_def map_rocks_ok iteration_order_id db_wf_def map_db_put_def map_db_def database_new_def plain_column_def hm_ok_def)
  have c: "Some 0 \<in> db_cols (map_db_put False)" using map_db_cols by (simp add: map_db_put_def)
  have l: "layer (overlay (map_db_put False)) (Some 0) [1] = Some (KInsert [2])"
    by (simp add: layer_def map_db_put_def col_index_def hm_get_def)
  let ?d1 = "(map_db_put False)\<lparr>db_handle := Some ((False, apply_batch (\<lambda>_ _. None) [(Some 0, [1], Some [3])]), [0])\<rparr>"
  have w: "db_write map_rocks byteorder_be (tr_put (Some 0) [1] [3] tr_new) (map_db_put False) = Some (Inr (), ?d1)"
    by (simp add: db_write_def map_db_put_def map_db_def database_new_def tr_put_def tr_new_def write_entry_def cf_index_def map_rocks_def)
  obtain d2 where f: "db_flush map_rocks byteorder_be (\<lambda>m. m) ?d1 = Some (Inr (), d2)"
    by (simp add: map_db_put_def map_db_def database_new_def db_flush_def write_flushing_with_lock_def entries_def
        flush_entry_def cf_of_def map_rocks_def)
  from direct_write_undone[OF inv c l w f] w f show ?thesis by blast
qed

text \<open>
  A compressed value is read back as it was given while it is buffered and in its compressed form
  after a flush; in the default column it is stored as given.\<close>

theorem compressed_after_flush:
  assumes "db_inv R C B ord d" and "c \<in> db_cols d" and "db_write_buffered (tr_put_compressed c k v tr_new) d = Some d1"
    and "db_flush R bo ord d1 = Some (Inr (), d2)"
  shows "db_view C d1 c k = Some v \<and>
    db_view C d2 c k = (if c = None then Some v else compress bo Blocks v)"
proof -
  have i: "rocks_ok R C B" "iteration_order ord" "db_wf d" "\<forall>m \<in> set (flushing d). m = []" using assms(1) by (auto simp: db_inv_def)
  obtain h cfs where d: "db_handle d = Some (h, cfs)" "length cfs < 2 ^ 32" "length (overlay d) = Suc (length cfs)"
    using i(3) by (rule db_wfE)
  note x = db_cols_index[OF d(1,2) assms(2)]
  have l: "col_index c < length (overlay d)" using x(2) d(3) by simp
  have d1: "d1 = d\<lparr>overlay := (overlay d)[col_index c := hm_insert k (KInsertCompressed v) (overlay d ! col_index c)]\<rparr>"
    using assms(3) buffer_op_val[of "DInsertCompressed c k v" "col_index c" "overlay d"] x(1) l
    by (simp add: db_write_buffered_def tr_put_compressed_def tr_new_def)
  have wf: "db_wf d1" using buffer_op_ok[OF i(3), of "DInsertCompressed c k v" C] buffer_op_val[of "DInsertCompressed c k v" "col_index c" "overlay d"]
      assms(2) x(1) l d1 by auto
  have l1: "layer (overlay d1) c k = Some (KInsertCompressed v)" using l by (simp add: d1 layer_def)
  note f = db_flush_val[OF i(1,2) wf assms(4)]
  have "c \<in> db_cols d1" using assms(2) by (simp add: d1)
  then have "db_durable C d2 c k = stored bo (col_index c) (KInsertCompressed v)" using f(5)[OF refl] l1 by simp
  moreover have "layer (overlay d2) c k = None" "layer (flushing d2) c k = None"
    using f(3) f(4)[OF refl] i(4) d1 by (simp_all add: layer_empty)
  ultimately show ?thesis using l1 by (auto simp: db_view_def stored_def col_index_def split: option.splits)
qed

lemma compress_total:
  assumes "big_endian bo" and "length (rlp_enc t) < 2 ^ 32"
  shows "\<exists>c. compress bo Blocks (rlp_enc t) = Some c"
proof -
  obtain sw where sw: "BLOCKS_RLP_SWAPPER = Some sw" "swapper_ok sw" using blocks_swapper by blast
  then show ?thesis using simple_compress_val[OF assms(1) sw(2), of t] cbytes_length[OF sw(2), of t] assms(2)
    by (simp add: compress_def sw(1))
qed

theorem compressed_after_flush_witness:
  "\<exists>d1 d2 v. db_write_buffered (tr_put_compressed (Some 0) [1] v tr_new) (map_db False) = Some d1 \<and>
    db_flush map_rocks byteorder_be (\<lambda>m. m) d1 = Some (Inr (), d2) \<and> db_view snd d1 (Some 0) [1] = Some v \<and>
    db_view snd d2 (Some 0) [1] = compress byteorder_be Blocks v"
proof -
  obtain v c where v: "compress byteorder_be Blocks v = Some c"
    using compress_total[OF big_endian_byteorder_be, of "RData [7]"] by (auto simp: data_bytes_def)
  let ?d1 = "(map_db False)\<lparr>overlay := [[], [([1], KInsertCompressed v)]]\<rparr>"
  have w: "db_write_buffered (tr_put_compressed (Some 0) [1] v tr_new) (map_db False) = Some ?d1"
    by (simp add: db_write_buffered_def tr_put_compressed_def tr_new_def map_db_def database_new_def buffer_op_def
        to_overlay_column_def cadd_def index_def hm_insert_def)
  obtain d2 where f: "db_flush map_rocks byteorder_be (\<lambda>m. m) ?d1 = Some (Inr (), d2)"
    using v by (simp add: map_db_def database_new_def db_flush_def write_flushing_with_lock_def entries_def
        flush_entry_def cf_of_def map_rocks_def)
  have "Some 0 \<in> db_cols (map_db False)" by (simp add: map_db_cols)
  from compressed_after_flush[OF map_db_inv this w f] w f show ?thesis by auto
qed

text \<open>A key shorter than the prefix that follows it in the database makes the prefix search panic.\<close>

lemma get_by_prefix_panics:
  assumes "db_iter_from_prefix R d col prefix = Some ((k, v) # it)" and "length k < length prefix"
  shows "db_get_by_prefix R d col prefix = None"
  using assms by (simp add: db_get_by_prefix_def)

text \<open>A column that was added after the opening has no overlay, so buffering a write to it panics.\<close>

lemma added_column_panics:
  assumes "db_wf d" and "db_handle d = Some (h, cfs)" and "db_add_column R d = (Inr (), d')" and "Suc (length cfs) < 2 ^ 32"
  shows "db_num_columns d' = of_nat (Suc (length cfs)) \<and>
    db_write_buffered (tr_put (Some (of_nat (length cfs))) k v tr_new) d' = None"
proof -
  have n: "unat (of_nat (length cfs) :: u32) = length cfs" using assms(4) by (simp add: unat_of_nat)
  have ov: "length (overlay d) = Suc (length cfs)" using assms(1,2) by (auto elim: db_wfE)
  have d': "overlay d' = overlay d" "\<exists>cf h'. db_handle d' = Some (h', cfs @ [cf])"
    using assms(2,3) by (auto simp: db_add_column_def split: prod.splits sum.splits)
  have "unat (of_nat (length cfs) + 1 :: u32) = Suc (length cfs)"
    using n assms(4) by (simp add: unat_word_ariths)
  then have "to_overlay_column (Some (of_nat (length cfs))) = Some (Suc (length cfs))"
    using n assms(4) by (simp add: to_overlay_column_def cadd_def)
  then have "db_write_buffered (tr_put (Some (of_nat (length cfs))) k v tr_new) d' = None"
    using ov d'(1) by (simp add: db_write_buffered_def tr_put_def tr_new_def buffer_op_def)
  moreover have "db_num_columns d' = of_nat (Suc (length cfs))" using d'(2) by (auto simp: db_num_columns_def)
  ultimately show ?thesis by blast
qed

text \<open>A database opened through the repair has no column handles: a read of a column panics.\<close>

lemma repaired_no_columns:
  assumes "set_options R cfg = Inr ()" and "config_columns cfg = Some n"
    and "r_open_cf R p (map col_name [0..<unat n]) (map (\<lambda>c. col_config c cfg) [0..<unat n]) fs = (Inl e1, fs1)"
    and "r_open_cf R p [] [] fs1 = (Inl (''Corruption:'' @ e2), fs2)"
    and "open_repair R p (map col_name [0..<unat n]) (map (\<lambda>c. col_config c cfg) [0..<unat n]) fs2 = (Inr h, fs3)"
  shows "database_open R cfg p fs = Some (Inr (database_new cfg p h []), fs3) \<and>
    db_get R (database_new cfg p h []) (Some 0) k = None"
  using assms by (simp add: database_open_def open_first_def Let_def starts_with_def db_get_def database_new_def
      to_overlay_column_def cadd_def)

end
