(* ===== verification/RlpStruct.thy ===== *)
theory RlpStruct
  imports RlpImpls
begin

section \<open>RLP: structs\<close>

text \<open>
  The code that \<open>#[derive(RlpEncodable, RlpDecodable)]\<close> generates for a struct (\<open>util/rlp_derive\<close>): a
  list with one item per field in order, a field of a type \<open>Vec<T>\<close> with \<open>append_list\<close> and \<open>list_at\<close>,
  any other with \<open>append\<close> and \<open>val_at\<close>. \<open>pthen\<close> runs the field decoders on one view, which keeps its
  offset cache between them.
\<close>

subsection \<open>Definitions\<close>

type_synonym 'a parser = "untrusted \<Rightarrow> 'a outcome \<times> untrusted"

definition pthen :: "'a parser \<Rightarrow> ('a \<Rightarrow> 'b parser) \<Rightarrow> 'b parser" where
  "pthen p f r =
     (case p r of
        (Done x, r') \<Rightarrow> f x r'
      | (Err e, r') \<Rightarrow> (Err e, r')
      | (Panic, r') \<Rightarrow> (Panic, r'))"

definition preturn :: "'a \<Rightarrow> 'a parser" where
  "preturn x r = (Done x, r)"

definition field :: "(bytes \<Rightarrow> 'a outcome) \<Rightarrow> nat \<Rightarrow> 'a parser" where
  "field dec i r = val_at dec r i"

definition list_field :: "(bytes \<Rightarrow> 'a outcome) \<Rightarrow> nat \<Rightarrow> 'a list parser" where
  "list_field dec i r = list_at dec r i"

subsection \<open>What a field puts into the stream\<close>

definition puts :: "byteorder \<Rightarrow> (rlp_stream \<Rightarrow> rlp_stream option) \<Rightarrow> bytes \<Rightarrow> bool" where
  "puts bo g e \<longleftrightarrow> (\<forall>s root fs. rep s root fs \<longrightarrow> refines (g s) (aput e 1 root fs) (closing 1 fs))"

lemma putsD: "puts bo g e \<Longrightarrow> rep s root fs \<Longrightarrow> refines (g s) (aput e 1 root fs) (closing 1 fs)"
  by (simp add: puts_def)

lemma puts_value: "emits bo f e \<Longrightarrow> puts bo (append_value bo f) e"
  by (simp add: puts_def emits_def)

lemma refines_weaken: "refines r a True \<Longrightarrow> refines r a b"
  by (auto simp: refines_def split: option.splits)

lemma puts_list:
  assumes "big_endian bo" and "list_all2 (emits bo) (map app xs) es" and "length xs < 2 ^ 64"
  shows "puts bo (append_list bo app xs) (code_list (concat es))"
  unfolding puts_def append_list_body
  using list_body_refines[OF assms(1,2)] assms(3) by (auto intro: refines_weaken)

fun run_fields :: "(rlp_stream \<Rightarrow> rlp_stream option) list \<Rightarrow> rlp_stream \<Rightarrow> rlp_stream option" where
  "run_fields [] s = Some s"
| "run_fields (g # gs) s = do { s \<leftarrow> g s; run_fields gs s }"

lemma run_fields_one [simp]: "run_fields [g] = g"
  by (rule ext) (simp split: bind_splits)

lemma run_fields_more [simp]: "run_fields (g # g' # gs) = (\<lambda>s. g s \<bind> run_fields (g' # gs))"
  by (rule ext) simp

lemma run_fields_refines:
  assumes "list_all2 (puts bo) gs es" and "rep s root ((c, k, Some (k + length gs)) # fs)"
    and "gs \<noteq> []" and "k + length gs < 2 ^ 64"
  shows "refines (run_fields gs s) (aput (code_list (c @ concat es)) 1 root fs) True"
  using assms
proof (induction gs es arbitrary: s c k rule: list_all2_induct)
  case (Cons g gs e es)
  let ?n = "Suc (length gs)"
  have r: "refines (g s) (aput e 1 root ((c, k, Some (k + ?n)) # fs)) (closing 1 ((c, k, Some (k + ?n)) # fs))"
    using Cons.hyps(1) Cons.prems(1) by (intro putsD) simp_all
  show ?case
  proof (cases "gs = []")
    case True
    then have "es = []" using Cons.hyps(2) by simp
    then show ?thesis using r True Cons.prems by (auto simp: refines_def split: option.splits)
  next
    case False
    then have "aput e 1 root ((c, k, Some (k + ?n)) # fs) = Some (root, (c @ e, k + 1, Some (k + 1 + length gs)) # fs)"
      using Cons.prems(3) by (cases gs) auto
    then obtain s' where s': "g s = Some s'" "rep s' root ((c @ e, k + 1, Some (k + 1 + length gs)) # fs)"
      using r by (auto simp: refines_def)
    show ?thesis using Cons.IH[OF s'(2) False] Cons.prems(3) by (simp add: s'(1))
  qed
qed simp

definition struct_body :: "byteorder \<Rightarrow> (rlp_stream \<Rightarrow> rlp_stream option) list \<Rightarrow> rlp_stream \<Rightarrow> rlp_stream option" where
  "struct_body bo gs s = do { s \<leftarrow> begin_list bo (length gs) s; run_fields gs s }"

lemma struct_refines:
  assumes "big_endian bo" and "list_all2 (puts bo) gs es" and "gs \<noteq> []" and "length gs < 2 ^ 64" and "rep s root fs"
  shows "refines (struct_body bo gs s) (aput (code_list (concat es)) 1 root fs) True"
proof -
  let ?s = "s\<lparr>finished_list := False, buffer := buffer s @ [0],
    unfinished_lists := list_info_new (length (buffer s @ [0])) (Some (length gs)) # unfinished_lists s\<rparr>"
  have "refines (run_fields gs ?s) (aput (code_list ([] @ concat es)) 1 root fs) True"
    using assms by (intro run_fields_refines[where k = 0]) (simp_all add: rep_def list_info_new_def)
  then show ?thesis using assms(3) by (simp add: struct_body_def begin_list_def Let_def)
qed

text \<open>A struct emits the tree of its fields.\<close>

lemma struct_tree:
  assumes "list_all2 (\<lambda>g y. puts bo g (rlp_enc y)) gs ys" and "length (rlp_enc (RList ys)) < 2 ^ 32"
  shows "list_all2 (puts bo) gs (map rlp_enc ys)" and "code_list (concat (map rlp_enc ys)) = rlp_enc (RList ys)"
    and "length gs < 2 ^ 64"
proof -
  have "length (map rlp_enc ys) \<le> length (concat (map rlp_enc ys))"
    by (rule length_concat_ge) (auto simp: rlp_enc_nonempty)
  also have "\<dots> \<le> length (rlp_enc (RList ys))" by (simp add: list_bytes_def)
  finally have "length gs < 2 ^ 32" using assms(2) list_all2_lengthD[OF assms(1)] by simp
  then show "length gs < 2 ^ 64" by simp
  show "list_all2 (puts bo) gs (map rlp_enc ys)" using assms(1) by (simp add: list_all2_map2)
  show "code_list (concat (map rlp_enc ys)) = rlp_enc (RList ys)"
    using assms(2) by (simp add: code_list_small list_bytes_def)
qed

lemma struct_emits_tree:
  assumes "big_endian bo" and "list_all2 (\<lambda>g y. puts bo g (rlp_enc y)) gs ys" and "gs \<noteq> []"
    and "length (rlp_enc (RList ys)) < 2 ^ 32"
  shows "emits bo (struct_body bo gs) (rlp_enc (RList ys))"
  using struct_refines[OF assms(1) struct_tree(1)[OF assms(2,4)] assms(3) struct_tree(3)[OF assms(2,4)]]
  unfolding struct_tree(2)[OF assms(2,4)] by (rule append_finished)

lemma struct_out:
  assumes "big_endian bo" and "list_all2 (\<lambda>g y. puts bo g (rlp_enc y)) gs ys" and "gs \<noteq> []"
    and "length (rlp_enc (RList ys)) < 2 ^ 32"
  shows "(do { s \<leftarrow> struct_body bo gs stream_new; stream_out s }) = Some (rlp_enc (RList ys))"
proof -
  have "rep stream_new [] []" by (simp add: rep_def stream_new_def)
  from struct_refines[OF assms(1) struct_tree(1)[OF assms(2,4)] assms(3) struct_tree(3)[OF assms(2,4)] this]
  show ?thesis by (auto simp: struct_tree(2)[OF assms(2,4)] refines_def rep_def stream_out_def is_finished_def)
qed

lemma struct_child: "length (rlp_enc (RList ys)) < n \<Longrightarrow> y \<in> set ys \<Longrightarrow> length (rlp_enc y) < n"
  using rlp_enc_children[of y ys] by linarith

subsection \<open>Fields of a codec\<close>

text \<open>A parser that reads \<open>x\<close> from any view of the items \<open>ys\<close>.\<close>

definition parses :: "'a parser \<Rightarrow> rlp list \<Rightarrow> 'a \<Rightarrow> bool" where
  "parses p ys x \<longleftrightarrow> (\<forall>r. views r ys \<longrightarrow> fst (p r) = Done x \<and> views (snd (p r)) ys)"

lemma parses_new: "parses p ys x \<Longrightarrow> fst (p (untrusted_new (rlp_enc (RList ys)))) = Done x"
  using views_new by (simp add: parses_def del: rlp_enc.simps)

lemma parses_return: "parses (preturn x) ys x"
  by (simp add: parses_def preturn_def)

lemma parses_then: "parses p ys x \<Longrightarrow> parses (f x) ys z \<Longrightarrow> parses (pthen p f) ys z"
  by (auto simp: parses_def pthen_def split: prod.splits outcome.splits)

context rlp_codec
begin

lemma puts_item: "good x \<Longrightarrow> puts bo (append_value bo (app x)) (rlp_enc (item x))"
  by (intro puts_value app_emits)

lemma puts_items:
  assumes "big_endian bo" and "\<forall>x \<in> set xs. good x" and "length (rlp_enc (RList (map item xs))) < 2 ^ 32"
  shows "puts bo (append_list bo app xs) (rlp_enc (RList (map item xs)))"
proof -
  have "list_all2 (emits bo) (map app xs) (map rlp_enc (map item xs))"
    using assms(2) app_emits by (simp add: list_all2_conv_all_nth)
  moreover have "length xs < 2 ^ 64" using list_small_count[OF assms(3)] by simp
  moreover have "code_list (concat (map rlp_enc (map item xs))) = rlp_enc (RList (map item xs))"
    using assms(3) by (simp add: code_list_small list_bytes_def)
  ultimately show ?thesis using puts_list[OF assms(1)] by metis
qed

lemma parses_field:
  assumes "good x" and "list_ok ys" and "i < length ys" and "ys ! i = item x"
  shows "parses (field dec i) ys x"
  using val_at_item[OF assms(1) _ assms(2-4)] by (simp add: parses_def field_def)

lemma parses_list_field:
  assumes "\<forall>x \<in> set xs. good x" and "list_ok ys" and "i < length ys" and "ys ! i = RList (map item xs)"
  shows "parses (list_field dec i) ys xs"
proof -
  have i: "i < usize_max" using list_ok_length[OF assms(2)] assms(3) by simp
  have "list_ok (map item xs)"
    using struct_child[of ys "2 ^ 64" "RList (map item xs)"] assms(2-4) nth_mem unfolding list_ok_def by metis
  then have "as_list dec (untrusted_new (rlp_enc (RList (map item xs)))) = Done xs"
    using as_list_items(1)[OF assms(1) views_new] by simp
  then show ?thesis
    unfolding parses_def list_field_def list_at_def
    using rlp_at_views[OF _ assms(2) i] assms(3,4) by (fastforce simp del: rlp_enc.simps split: prod.splits)
qed

end

end
