(* ===== verification/Hash.thy ===== *)
theory Hash
  imports UintConv
begin

section \<open>Fixed-size hashes\<close>

text \<open>
  \<open>util/bigint/src/hash.rs\<close>: the operations that \<open>impl_hash!\<close> generates for a size \<open>n\<close>, the
  conversions with the integers, and the prefix fold of \<open>util/plain_hasher\<close>. A hash is its byte list;
  the comparison is that of the C function \<open>memcmp\<close> on unsigned bytes. Hexadecimal parsing of the
  crate \<open>rustc_hex\<close> is the parameter \<open>from_hex\<close>.
\<close>

type_synonym hash = bytes

subsection \<open>Definitions\<close>

definition hash_new :: "nat \<Rightarrow> hash" where
  "hash_new n = replicate n 0"

definition hash_clone_from_slice :: "hash \<Rightarrow> bytes \<Rightarrow> hash \<times> nat" where
  "hash_clone_from_slice self src =
     (let mn = min (length self) (length src) in (take mn src @ drop mn self, mn))"

definition hash_from_slice :: "nat \<Rightarrow> bytes \<Rightarrow> hash" where
  "hash_from_slice n src = fst (hash_clone_from_slice (hash_new n) src)"

definition hash_copy_to :: "hash \<Rightarrow> bytes \<Rightarrow> bytes" where
  "hash_copy_to self dest =
     (let mn = min (length self) (length dest) in take mn self @ drop mn dest)"

definition hash_eq :: "hash \<Rightarrow> hash \<Rightarrow> bool" where
  "hash_eq a b \<longleftrightarrow> a = b"

definition hash_is_zero :: "hash \<Rightarrow> bool" where
  "hash_is_zero self \<longleftrightarrow> hash_eq self (hash_new (length self))"

definition hash_bitor :: "hash \<Rightarrow> hash \<Rightarrow> hash" where
  "hash_bitor a b = map2 (\<lambda>x y. x OR y) a b"

definition hash_bitand :: "hash \<Rightarrow> hash \<Rightarrow> hash" where
  "hash_bitand a b = map2 (\<lambda>x y. x AND y) a b"

definition hash_bitxor :: "hash \<Rightarrow> hash \<Rightarrow> hash" where
  "hash_bitxor a b = map2 (\<lambda>x y. x XOR y) a b"

definition hash_contains :: "hash \<Rightarrow> hash \<Rightarrow> bool" where
  "hash_contains self b \<longleftrightarrow> hash_eq (hash_bitand b self) b"

definition hash_low_u64 :: "hash \<Rightarrow> u64" where
  "hash_low_u64 self =
     foldl (\<lambda>ret i. ret OR push_bit (i * 8) (ucast (self ! (length self - 1 - i)))) 0 [0..<min (length self) 8]"

fun hash_cmp :: "hash \<Rightarrow> hash \<Rightarrow> ordering" where
  "hash_cmp (x # xs) (y # ys) = (if x < y then Less else if y < x then Greater else hash_cmp xs ys)"
| "hash_cmp _ _ = Equal"

definition hash_less :: "hash \<Rightarrow> hash \<Rightarrow> bool" where
  "hash_less a b \<longleftrightarrow> hash_cmp a b = Less"

text \<open>\<open>From<u64>\<close>: the loop shifts the value down while it fills the bytes from the end.\<close>

definition hash_from_u64 :: "nat \<Rightarrow> u64 \<Rightarrow> hash" where
  "hash_from_u64 n v =
     fst (foldl (\<lambda>(ret, value) i.
            if i < n then (ret[n - i - 1 := ucast (value AND 0xff)], drop_bit 8 value) else (ret, value))
          (hash_new n, v) [0..<8])"

definition h256_from_u256 :: "byteorder \<Rightarrow> uint \<Rightarrow> hash option" where
  "h256_from_u256 bo value = to_big_endian bo value (length (hash_new 32))"

definition u256_from_h256 :: "hash \<Rightarrow> uint option" where
  "u256_from_h256 value = from_bytes 4 value"

definition h160_from_h256 :: "hash \<Rightarrow> hash" where
  "h160_from_h256 value = take 20 (drop 12 value)"

definition h64_from_h256 :: "hash \<Rightarrow> hash" where
  "h64_from_h256 value = take 8 (drop 20 value)"

definition h256_from_h160 :: "hash \<Rightarrow> hash" where
  "h256_from_h160 value = take 12 (hash_new 32) @ value"

definition clean_0x :: "u8 list \<Rightarrow> u8 list" where
  "clean_0x s = (if take 2 s = [48, 120] then drop 2 s else s)"

datatype hash_str_err = HexErr | InvalidHexLength

definition hash_from_str :: "(u8 list \<Rightarrow> bytes option) \<Rightarrow> nat \<Rightarrow> u8 list \<Rightarrow> hash_str_err + hash" where
  "hash_from_str from_hex n s =
     (case from_hex s of
        None \<Rightarrow> Inl HexErr
      | Some a \<Rightarrow> if length a \<noteq> n then Inl InvalidHexLength else Inr a)"

text \<open>\<open>From<&'static str>\<close> unwraps the parse.\<close>

definition hash_from_static_str :: "(u8 list \<Rightarrow> bytes option) \<Rightarrow> nat \<Rightarrow> u8 list \<Rightarrow> hash option" where
  "hash_from_static_str from_hex n s =
     (let s = clean_0x s in
      case hash_from_str from_hex n (if length s mod 2 = 1 then 48 # s else s) of
        Inr h \<Rightarrow> Some h | Inl _ \<Rightarrow> None)"

text \<open>The visitor of the \<open>Deserialize\<close> implementation.\<close>

definition hash_visit_str :: "(u8 list \<Rightarrow> bytes option) \<Rightarrow> nat \<Rightarrow> u8 list \<Rightarrow> hash option" where
  "hash_visit_str from_hex n value =
     (if length value = 0 then Some (hash_from_u64 n 0)
      else if length value = 2 \<and> value = [48, 120] then Some (hash_from_u64 n 0)
      else case hash_from_str from_hex n (if take 2 value = [48, 120] then drop 2 value else value) of
             Inr h \<Rightarrow> Some h | Inl _ \<Rightarrow> None)"

text \<open>\<open>PlainHasher::write\<close> asserts 32 bytes and folds them into eight.\<close>

definition plain_hasher_write :: "u8 list \<Rightarrow> bytes \<Rightarrow> u8 list option" where
  "plain_hasher_write prefix bs =
     (if length bs = 32
      then Some (map (\<lambda>i. prefix ! i XOR ((bs ! i XOR bs ! (i + 8)) XOR (bs ! (i + 16) XOR bs ! (i + 24)))) [0..<8])
      else None)"

subsection \<open>Lemmas\<close>

lemma length_hash_new [simp]: "length (hash_new n) = n"
  by (simp add: hash_new_def)

lemma hash_from_slice_id: "length src = n \<Longrightarrow> hash_from_slice n src = src"
  by (simp add: hash_from_slice_def hash_clone_from_slice_def Let_def)

lemma length_hash_from_slice [simp]: "length (hash_from_slice n src) = n"
  by (simp add: hash_from_slice_def hash_clone_from_slice_def Let_def)

lemma hash_cmp_val:
  "length a = length b \<Longrightarrow> hash_cmp a b =
    (if be_val a < be_val b then Less else if be_val b < be_val a then Greater else Equal)"
proof (induction a b rule: list_induct2)
  case Nil
  then show ?case by simp
next
  case (Cons x xs y ys)
  have lt: "unat u * 256 ^ length xs + be_val p < unat v * 256 ^ length xs + be_val q"
    if "u < v" "length p = length xs" for u v :: u8 and p q
  proof -
    have "unat u + 1 \<le> unat v" using that(1) by (simp add: word_less_nat_alt)
    then have "(unat u + 1) * 256 ^ length xs \<le> unat v * 256 ^ length xs" by (rule mult_le_mono1)
    moreover have "be_val p < 256 ^ length xs" using be_val_less[of p] that(2) by simp
    ultimately show ?thesis by (simp add: algebra_simps)
  qed
  consider "x < y" | "y < x" | "x = y" by fastforce
  then show ?case
  proof cases
    case 1
    then show ?thesis using lt[of x y xs ys] Cons.hyps by (simp add: be_val_Cons)
  next
    case 2
    then show ?thesis using lt[of y x ys xs] Cons.hyps by (auto simp: be_val_Cons not_less_iff_gr_or_eq)
  next
    case 3
    then show ?thesis using Cons by (simp add: be_val_Cons)
  qed
qed

lemma u256_from_h256_val:
  assumes "length h = 32"
  shows "u256_from_h256 h = Some (uint_of 4 (be_val h))" and "be_val h < 2 ^ 256"
proof -
  show "u256_from_h256 h = Some (uint_of 4 (be_val h))"
    using assms by (simp add: u256_from_h256_def from_bytes_val)
  show "be_val h < 2 ^ 256" using be_val_less[of h] assms by simp
qed

lemma h256_from_u256_val:
  assumes "big_endian bo" and "length v = 4"
  shows "h256_from_u256 bo v = Some (be_bytes 32 (uval v))"
  using to_big_endian_val[OF assms(1), of v] assms(2) by (simp add: h256_from_u256_def)

lemma hash_from_u64_val: "8 \<le> n \<Longrightarrow> hash_from_u64 n v = be_bytes n (unat v)"
proof -
  assume n: "8 \<le> n"
  let ?f = "\<lambda>(ret, value) i. if i < n then (ret[n - i - 1 := ucast (value AND 0xff) :: u8], drop_bit 8 value) else (ret, value :: u64)"
  have "foldl ?f (hash_new n, v) [0..<k] =
      (replicate (n - k) 0 @ be_bytes k (unat v mod 256 ^ k), drop_bit (8 * k) v)" if "k \<le> 8" for k
    using that
  proof (induction k)
    case 0
    then show ?case by (simp add: hash_new_def)
  next
    case (Suc k)
    then have k: "k < n" using n by simp
    let ?x = "drop_bit (8 * k) v"
    have m: "(0xff :: u64) = mask 8" by (simp add: mask_eq_exp_minus_1)
    have "unat (?x AND 0xff) = take_bit 8 (unat (drop_bit (8 * k) v))"
      by (simp only: m take_bit_eq_mask[symmetric] unsigned_take_bit_eq)
    also have "unat (drop_bit (8 * k) v) = unat v div 2 ^ (8 * k)"
      by (simp only: unat_drop_bit_eq) (rule drop_bit_eq_div)
    finally have u: "unat (?x AND 0xff) = unat v div 256 ^ k mod 256"
      using power_mult[of "2 :: nat" 8 k] by (simp add: take_bit_eq_mod)
    then have b: "ucast (?x AND 0xff) = (of_nat (unat v div 256 ^ k mod 256) :: u8)"
      by (metis of_nat_unat)
    have "be_bytes (Suc k) (unat v mod 256 ^ Suc k) =
        of_nat (unat v mod 256 ^ Suc k div 256 ^ k mod 256) # be_bytes k (unat v mod 256 ^ Suc k)"
      by (rule be_bytes_Cons)
    moreover have "unat v mod 256 ^ Suc k div 256 ^ k mod 256 = unat v div 256 ^ k mod 256"
      by (simp add: mod_mult2_eq mult.commute[of 256])
    moreover have "be_bytes k (unat v mod 256 ^ Suc k) = be_bytes k (unat v mod 256 ^ k)"
      by (rule be_val_inj) (simp_all add: mod_mod_cancel)
    moreover have "replicate (n - k) (0 :: u8) = replicate (n - Suc k) 0 @ [0]"
      using k by (simp add: replicate_append_same flip: replicate_Suc Suc_diff_Suc)
    moreover have "drop_bit 8 ?x = drop_bit (8 * Suc k) v" by (simp add: add.commute)
    ultimately show ?case using Suc k b by (simp add: list_update_append)
  qed
  from this[of 8] have "hash_from_u64 n v = replicate (n - 8) 0 @ be_bytes 8 (unat v mod 256 ^ 8)"
    by (simp add: hash_from_u64_def)
  moreover have "unat v < 256 ^ 8" using unat_bound[of v] by simp
  moreover have "be_val (replicate m 0) = 0" for m
    by (induction m) (simp_all add: be_val_Cons)
  ultimately show ?thesis
    using n power_increasing[of 8 n "256 :: nat"] by (intro be_val_inj) (simp_all add: be_val_append)
qed

subsection \<open>Properties\<close>

text \<open>
  \<open>H256\<close> and \<open>U256\<close> describe the same numbers: the conversions are inverse to each other, and
  comparing two hashes bytewise is comparing the numbers, so a proof below a difficulty as a hash is
  below it as an integer.\<close>

theorem h256_u256_conversion:
  assumes "big_endian bo" and "length h = 32" and "length g = 32"
  shows "\<exists>v w. u256_from_h256 h = Some v \<and> h256_from_u256 bo v = Some h \<and> u256_from_h256 g = Some w \<and>
    uval v = be_val h \<and> hash_cmp h g = uint_cmp v w"
proof -
  note h = u256_from_h256_val[OF assms(2)] and g = u256_from_h256_val[OF assms(3)]
  have "hash_cmp h g = uint_cmp (uint_of 4 (be_val h)) (uint_of 4 (be_val g))"
    using h(2) g(2) assms(2,3) by (simp add: hash_cmp_val uint_cmp_val)
  moreover have "h256_from_u256 bo (uint_of 4 (be_val h)) = Some h"
    using h(2) h256_from_u256_val[OF assms(1), of "uint_of 4 (be_val h)"] be_bytes_be_val[of h] assms(2) by simp
  ultimately show ?thesis using h g by simp
qed

theorem h256_u256_conversion_witness:
  "\<exists>v w. u256_from_h256 (replicate 32 1) = Some v \<and> h256_from_u256 byteorder_be v = Some (replicate 32 1) \<and>
    u256_from_h256 (replicate 32 2) = Some w \<and> uval v = be_val (replicate 32 1) \<and>
    hash_cmp (replicate 32 1) (replicate 32 2) = uint_cmp v w"
  by (rule h256_u256_conversion) simp_all

end
