(* ===== verification/Merkle.thy ===== *)
theory Merkle
  imports Hash
begin

section \<open>Merkle roots of complete trees\<close>

text \<open>
  \<open>util/src/merklehash.rs\<close> and the constant it returns for no input, of \<open>util/src/sha3.rs\<close>. The hash
  function is the argument \<open>sha3\<close> (its C code under \<open>util/sha3\<close> is not modelled). The loops work on
  an array of nodes; an index out of range would panic (\<open>None\<close>). The number of inputs is that of a
  vector in memory, below \<open>2 ^ 63\<close>, so the doubling in \<open>lowest_children_len\<close> does not wrap around.
\<close>

subsection \<open>Definitions\<close>

definition SHA3_NULL_RLP :: hash where
  "SHA3_NULL_RLP =
     [0x56, 0xe8, 0x1f, 0x17, 0x1b, 0xcc, 0x55, 0xa6, 0xff, 0x83, 0x45, 0xe6, 0x92, 0xc0, 0xf8, 0x6e,
      0x5b, 0x48, 0xe0, 0x1b, 0x99, 0x6c, 0xad, 0xc0, 0x01, 0x62, 0x2f, 0xb5, 0xe3, 0x63, 0xb4, 0x21]"

function low_loop :: "nat \<Rightarrow> nat \<Rightarrow> nat \<Rightarrow> nat" where
  "low_loop amount n r = (if 0 < n \<and> n \<le> amount then low_loop amount (2 * n) (amount - n) else r)"
  by pat_completeness auto

termination low_loop
  by (relation "measure (\<lambda>(a, n, _). a + 1 - n)") auto

declare low_loop.simps [simp del]

definition lowest_children_len :: "nat \<Rightarrow> nat" where
  "lowest_children_len amount = 2 * low_loop amount 1 0"

definition merkle_merge :: "(bytes \<Rightarrow> hash) \<Rightarrow> hash \<Rightarrow> hash \<Rightarrow> hash" where
  "merkle_merge sha3 left right = sha3 (left @ right)"

text \<open>The first loop merges the leaves of the lowest level in pairs.\<close>

function pair_loop :: "(bytes \<Rightarrow> hash) \<Rightarrow> hash list \<Rightarrow> nat \<Rightarrow> nat \<Rightarrow> hash list \<Rightarrow> (hash list \<times> nat) option" where
  "pair_loop sha3 input lwlen i nodes =
     (if i < lwlen
      then if i + 1 < length input
           then pair_loop sha3 input lwlen (i + 2) (nodes @ [merkle_merge sha3 (input ! i) (input ! (i + 1))])
           else None
      else Some (nodes, i))"
  by pat_completeness auto

termination pair_loop
  by (relation "measure (\<lambda>(_, _, l, i, _). l - i)") auto

declare pair_loop.simps [simp del]

text \<open>The two nested loops that merge the nodes in place, with stride \<open>d\<close>.\<close>

function level_loop :: "(bytes \<Rightarrow> hash) \<Rightarrow> nat \<Rightarrow> nat \<Rightarrow> nat \<Rightarrow> hash list \<Rightarrow> hash list option" where
  "level_loop sha3 nlen d j nodes =
     (if j < nlen \<and> 0 < d
      then if j + d < length nodes
           then level_loop sha3 nlen d (j + (d + d)) (nodes[j := merkle_merge sha3 (nodes ! j) (nodes ! (j + d))])
           else None
      else Some nodes)"
  by pat_completeness auto

termination level_loop
  by (relation "measure (\<lambda>(_, n, _, j, _). n - j)") auto

declare level_loop.simps [simp del]

function stride_loop :: "(bytes \<Rightarrow> hash) \<Rightarrow> nat \<Rightarrow> nat \<Rightarrow> hash list \<Rightarrow> hash list option" where
  "stride_loop sha3 nlen d nodes =
     (if d < nlen \<and> 0 < d
      then case level_loop sha3 nlen d 0 nodes of
             None \<Rightarrow> None
           | Some nodes \<Rightarrow> stride_loop sha3 nlen (2 * d) nodes
      else Some nodes)"
  by pat_completeness auto

termination stride_loop
  by (relation "measure (\<lambda>(_, n, d, _). n - d)") auto

declare stride_loop.simps [simp del]

definition gen_merkle_root :: "(bytes \<Rightarrow> hash) \<Rightarrow> hash list \<Rightarrow> hash option" where
  "gen_merkle_root sha3 input =
     (let inlen = length input in
      if inlen = 0 then Some SHA3_NULL_RLP
      else
        case pair_loop sha3 input (lowest_children_len inlen) 0 [] of
          None \<Rightarrow> None
        | Some (nodes, i) \<Rightarrow>
            let nodes = nodes @ map (\<lambda>j. input ! j) [i..<inlen];
                nlen = length nodes
            in case stride_loop sha3 nlen 1 nodes of
                 None \<Rightarrow> None
               | Some nodes \<Rightarrow> (if 0 < length nodes then Some (nodes ! 0) else None))"

definition complete_merkle_root :: "(bytes \<Rightarrow> hash) \<Rightarrow> bytes list \<Rightarrow> hash option" where
  "complete_merkle_root sha3 input = gen_merkle_root sha3 (map sha3 input)"

definition complete_merkle_root_raw :: "(bytes \<Rightarrow> hash) \<Rightarrow> hash list \<Rightarrow> hash option" where
  "complete_merkle_root_raw sha3 input = gen_merkle_root sha3 input"

subsection \<open>Specification: the root of a perfect tree\<close>

fun perfect_root :: "(bytes \<Rightarrow> hash) \<Rightarrow> nat \<Rightarrow> hash list \<Rightarrow> hash" where
  "perfect_root sha3 0 xs = xs ! 0"
| "perfect_root sha3 (Suc k) xs =
     merkle_merge sha3 (perfect_root sha3 k (take (2 ^ k) xs)) (perfect_root sha3 k (drop (2 ^ k) xs))"

fun pairs :: "(bytes \<Rightarrow> hash) \<Rightarrow> hash list \<Rightarrow> hash list" where
  "pairs sha3 (x # y # zs) = merkle_merge sha3 x y # pairs sha3 zs"
| "pairs sha3 zs = []"

text \<open>
  With \<open>2 ^ k\<close> the largest power of two up to \<open>n\<close>, the first \<open>2 (n - 2 ^ k)\<close> inputs lie one level
  deeper than the others.
\<close>

definition merkle_spec :: "(bytes \<Rightarrow> hash) \<Rightarrow> nat \<Rightarrow> hash list \<Rightarrow> hash" where
  "merkle_spec sha3 k xs =
     (let m = 2 * (length xs - 2 ^ k) in perfect_root sha3 k (pairs sha3 (take m xs) @ drop m xs))"

subsection \<open>The loops compute the specification\<close>

lemma low_loop_val:
  assumes "2 ^ k \<le> a" and "a < 2 ^ Suc k" and "j \<le> k"
  shows "low_loop a (2 ^ j) r = a - 2 ^ k"
  using assms(3)
proof (induction "k - j" arbitrary: j r)
  case 0
  then have "j = k" by simp
  then show ?case using assms(1,2) by (simp add: low_loop.simps[of a "2 ^ k"] low_loop.simps[of a "2 * 2 ^ k"])
next
  case (Suc d)
  then have "(2 :: nat) ^ j \<le> 2 ^ k" by (intro power_increasing) simp_all
  then have "2 ^ j \<le> a" using assms(1) by linarith
  then have "low_loop a (2 ^ j) r = low_loop a (2 ^ Suc j) (a - 2 ^ j)" by (simp add: low_loop.simps[of a "2 ^ j"])
  also have "\<dots> = a - 2 ^ k" by (rule Suc.hyps(1)) (use Suc.hyps(2) in simp_all)
  finally show ?case .
qed

lemma lowest_children_len_val:
  "2 ^ k \<le> a \<Longrightarrow> a < 2 ^ Suc k \<Longrightarrow> lowest_children_len a = 2 * (a - 2 ^ k)"
  using low_loop_val[of k a 0 0] by (simp add: lowest_children_len_def)

lemma pairs_snoc:
  "even (length xs) \<Longrightarrow> pairs sha3 (xs @ [a, b]) = pairs sha3 xs @ [merkle_merge sha3 a b]"
  by (induction sha3 xs rule: pairs.induct) auto

lemma length_pairs [simp]: "length (pairs sha3 xs) = length xs div 2"
  by (induction sha3 xs rule: pairs.induct) auto

lemma pair_loop_val:
  assumes "l \<le> length input" and "even l" and "even i" and "i \<le> l"
  shows "pair_loop sha3 input l i (pairs sha3 (take i input)) = Some (pairs sha3 (take l input), l)"
  using assms(3,4)
proof (induction "l - i" arbitrary: i rule: less_induct)
  case less
  show ?case
  proof (cases "i < l")
    case False
    then show ?thesis using less.prems by (subst pair_loop.simps) simp
  next
    case True
    then have i2: "i + 2 \<le> l" using less.prems(1) assms(2) by presburger
    then have "take (i + 2) input = take i input @ [input ! i, input ! (i + 1)]"
      using assms(1) by (simp add: take_Suc_conv_app_nth numeral_2_eq_2)
    then have p: "pairs sha3 (take (i + 2) input) =
        pairs sha3 (take i input) @ [merkle_merge sha3 (input ! i) (input ! (i + 1))]"
      using less.prems(1) i2 assms(1) by (simp add: pairs_snoc)
    have "pair_loop sha3 input l (i + 2) (pairs sha3 (take (i + 2) input)) = Some (pairs sha3 (take l input), l)"
      using less.hyps[of "i + 2"] i2 less.prems(1) by simp
    then show ?thesis using True i2 assms(1) p by (simp add: pair_loop.simps[of sha3 input l i])
  qed
qed

text \<open>One level in place: the nodes at the multiples of \<open>2 d\<close> hold the merged pairs.\<close>

lemma level_loop_val:
  assumes "0 < d" and "length nodes = n" and "n = 2 * d * m" and "q \<le> m"
  shows "\<exists>nodes'. level_loop sha3 n d (2 * d * q) nodes = Some nodes' \<and> length nodes' = n \<and>
    (\<forall>p < m. nodes' ! (2 * d * p) = (if q \<le> p
      then merkle_merge sha3 (nodes ! (2 * d * p)) (nodes ! (2 * d * p + d)) else nodes ! (2 * d * p)))"
  using assms(2,4)
proof (induction "m - q" arbitrary: q nodes)
  case 0
  then have "q = m" by simp
  then show ?case using assms(3) 0 by (subst level_loop.simps) auto
next
  case (Suc k)
  let ?j = "2 * d * q" and ?nodes = "nodes[2 * d * q := merkle_merge sha3 (nodes ! (2 * d * q)) (nodes ! (2 * d * q + d))]"
  have "2 * d * Suc q \<le> 2 * d * m" using Suc.hyps(2) by (intro mult_le_mono2) simp
  moreover have e: "2 * d * Suc q = ?j + (d + d)" by simp
  ultimately have jd: "?j + d < n" "?j < n" "?j + (d + d) = 2 * d * Suc q" using assms(1,3) by linarith+
  have step: "level_loop sha3 n d ?j nodes = level_loop sha3 n d (2 * d * Suc q) ?nodes"
    using jd Suc.prems(1) assms(1) by (simp add: level_loop.simps[of sha3 n d ?j])
  obtain nodes' where n': "level_loop sha3 n d (2 * d * Suc q) ?nodes = Some nodes'" "length nodes' = n"
    "\<forall>p < m. nodes' ! (2 * d * p) = (if Suc q \<le> p
      then merkle_merge sha3 (?nodes ! (2 * d * p)) (?nodes ! (2 * d * p + d)) else ?nodes ! (2 * d * p))"
  proof -
    have "k = m - Suc q" "Suc q \<le> m" "length ?nodes = n" using Suc.hyps(2) Suc.prems(1) by simp_all
    from Suc.hyps(1)[OF this(1,3,2)] that show thesis by blast
  qed
  have "nodes' ! (2 * d * p) = (if q \<le> p
      then merkle_merge sha3 (nodes ! (2 * d * p)) (nodes ! (2 * d * p + d)) else nodes ! (2 * d * p))" if "p < m" for p
  proof -
    have ne: "2 * d * q \<noteq> 2 * d * p + d"
    proof
      assume e: "2 * d * q = 2 * d * p + d"
      then have "d * (2 * q) = d * (2 * p + 1)" by (simp add: algebra_simps)
      then have "2 * q = 2 * p + 1" using assms(1) unfolding mult_cancel1 by blast
      then show False by presburger
    qed
    have "2 * d * q = 2 * d * p \<longleftrightarrow> q = p" using assms(1) by simp
    moreover have "q \<le> p \<longleftrightarrow> q = p \<or> Suc q \<le> p" by auto
    ultimately show ?thesis using n'(3) that ne jd(2) Suc.prems(1)
      by (cases "q = p") (simp_all add: nth_list_update)
  qed
  then show ?case using step n'(1,2) by auto
qed

lemma perfect_root_cong:
  "length xs = 2 ^ k \<Longrightarrow> length ys = 2 ^ k \<Longrightarrow> (\<And>i. i < 2 ^ k \<Longrightarrow> xs ! i = ys ! i) \<Longrightarrow>
    perfect_root sha3 k xs = perfect_root sha3 k ys"
  using nth_equalityI[of xs ys] by simp

text \<open>A tree of one more level, seen from the bottom: merge the pairs, then take the root.\<close>

lemma pairs_append: "even (length xs) \<Longrightarrow> pairs sha3 (xs @ ys) = pairs sha3 xs @ pairs sha3 ys"
  by (induction sha3 xs rule: pairs.induct) auto

lemma perfect_root_pairs:
  "length xs = 2 ^ Suc k \<Longrightarrow> perfect_root sha3 (Suc k) xs = perfect_root sha3 k (pairs sha3 xs)"
proof (induction k arbitrary: xs)
  case 0
  then obtain a b where "xs = [a, b]" by (auto simp: length_Suc_conv numeral_2_eq_2)
  then show ?case by simp
next
  case (Suc k)
  let ?h = "2 ^ Suc k :: nat"
  have l: "length (take ?h xs) = 2 ^ Suc k" "length (drop ?h xs) = 2 ^ Suc k" using Suc.prems by simp_all
  have p: "pairs sha3 xs = pairs sha3 (take ?h xs) @ pairs sha3 (drop ?h xs)"
    using pairs_append[of "take ?h xs" sha3 "drop ?h xs"] l(1) by simp
  have "length (pairs sha3 (take ?h xs)) = 2 ^ k" using l(1) by simp
  then have t: "take (2 ^ k) (pairs sha3 xs) = pairs sha3 (take ?h xs)"
    "drop (2 ^ k) (pairs sha3 xs) = pairs sha3 (drop ?h xs)" unfolding p by simp_all
  have "perfect_root sha3 (Suc (Suc k)) xs = merkle_merge sha3
      (perfect_root sha3 (Suc k) (take ?h xs)) (perfect_root sha3 (Suc k) (drop ?h xs))"
    by (rule perfect_root.simps(2))
  also have "\<dots> = merkle_merge sha3 (perfect_root sha3 k (pairs sha3 (take ?h xs)))
      (perfect_root sha3 k (pairs sha3 (drop ?h xs)))" by (simp only: Suc.IH[OF l(1)] Suc.IH[OF l(2)])
  also have "\<dots> = perfect_root sha3 (Suc k) (pairs sha3 xs)" by (simp only: perfect_root.simps(2) t)
  finally show ?case .
qed

definition strided :: "nat \<Rightarrow> nat \<Rightarrow> hash list \<Rightarrow> hash list" where
  "strided d m nodes = map (\<lambda>p. nodes ! (d * p)) [0..<m]"

lemma pairs_nth: "p < length xs div 2 \<Longrightarrow> pairs sha3 xs ! p = merkle_merge sha3 (xs ! (2 * p)) (xs ! (2 * p + 1))"
proof (induction sha3 xs arbitrary: p rule: pairs.induct)
  case (1 sha3 x y zs)
  then show ?case by (cases p) simp_all
qed simp_all

lemma stride_loop_val:
  assumes "length nodes = n" and "n = 2 ^ (j + k)" and "d = 2 ^ j"
  shows "\<exists>nodes'. stride_loop sha3 n d nodes = Some nodes' \<and> length nodes' = n \<and>
    nodes' ! 0 = perfect_root sha3 k (strided d (2 ^ k) nodes)"
  using assms
proof (induction k arbitrary: j d nodes)
  case 0
  then show ?case by (subst stride_loop.simps) (simp add: strided_def)
next
  case (Suc k)
  let ?m = "2 ^ k :: nat"
  have n: "n = 2 * d * ?m" using Suc.prems by (simp add: power_add)
  have d: "0 < d" "d < n" unfolding Suc.prems(2,3) by (simp, rule power_strict_increasing) simp_all
  obtain nodes1 where n1: "level_loop sha3 n d 0 nodes = Some nodes1" "length nodes1 = n"
    "\<forall>p < ?m. nodes1 ! (2 * d * p) = merkle_merge sha3 (nodes ! (2 * d * p)) (nodes ! (2 * d * p + d))"
    using level_loop_val[OF d(1) Suc.prems(1) n, of 0 sha3] by auto
  obtain nodes' where n': "stride_loop sha3 n (2 * d) nodes1 = Some nodes'" "length nodes' = n"
    "nodes' ! 0 = perfect_root sha3 k (strided (2 * d) ?m nodes1)"
    using Suc.IH[OF n1(2), of "Suc j" "2 * d"] Suc.prems by auto
  have "strided (2 * d) ?m nodes1 = pairs sha3 (strided d (2 ^ Suc k) nodes)"
  proof (rule nth_equalityI)
    show "length (strided (2 * d) ?m nodes1) = length (pairs sha3 (strided d (2 ^ Suc k) nodes))"
      by (simp add: strided_def)
    fix p assume "p < length (strided (2 * d) ?m nodes1)"
    then have p: "p < ?m" by (simp add: strided_def)
    have "pairs sha3 (strided d (2 ^ Suc k) nodes) ! p =
        merkle_merge sha3 (strided d (2 ^ Suc k) nodes ! (2 * p)) (strided d (2 ^ Suc k) nodes ! (2 * p + 1))"
      using p by (intro pairs_nth) (simp add: strided_def)
    moreover have "2 * p + 1 < 2 ^ Suc k" "2 * p < 2 ^ Suc k" using p by simp_all
    moreover have "d * (2 * p) = 2 * d * p" "d * (2 * p + 1) = 2 * d * p + d" by simp_all
    ultimately show "strided (2 * d) ?m nodes1 ! p = pairs sha3 (strided d (2 ^ Suc k) nodes) ! p"
      using p n1(3) by (simp add: strided_def del: power_Suc mult_Suc_right)
  qed
  then have "nodes' ! 0 = perfect_root sha3 (Suc k) (strided d (2 ^ Suc k) nodes)"
    using n'(3) perfect_root_pairs[of "strided d (2 ^ Suc k) nodes" k sha3] by (simp add: strided_def)
  then show ?case using n'(1,2) n1(1) d by (simp add: stride_loop.simps[of sha3 n d] del: perfect_root.simps)
qed

lemma gen_merkle_root_val:
  assumes "2 ^ k \<le> length xs" and "length xs < 2 ^ Suc k"
  shows "gen_merkle_root sha3 xs = Some (merkle_spec sha3 k xs)"
proof -
  let ?m = "2 * (length xs - 2 ^ k)"
  have m: "?m \<le> length xs" "even ?m" "lowest_children_len (length xs) = ?m"
    using assms lowest_children_len_val by simp_all
  have p: "pair_loop sha3 xs ?m 0 [] = Some (pairs sha3 (take ?m xs), ?m)"
    using pair_loop_val[OF m(1,2), of 0 sha3] by simp
  have dr: "map (\<lambda>j. xs ! j) [?m..<length xs] = drop ?m xs"
    by (rule nth_equalityI) simp_all
  let ?nodes = "pairs sha3 (take ?m xs) @ drop ?m xs"
  have l: "length ?nodes = 2 ^ k"
  proof -
    have "length ?nodes = (length xs - 2 ^ k) + (length xs - ?m)" using m(1) by simp
    then show ?thesis using assms by simp
  qed
  obtain nodes' where n: "stride_loop sha3 (2 ^ k) 1 ?nodes = Some nodes'" "length nodes' = 2 ^ k"
    "nodes' ! 0 = perfect_root sha3 k (strided 1 (2 ^ k) ?nodes)"
    using stride_loop_val[OF l, of 0 k 1 sha3] by auto
  have "strided 1 (2 ^ k) ?nodes = ?nodes" unfolding strided_def using l
    by (intro nth_equalityI) simp_all
  moreover have "length xs \<noteq> 0" using assms(1) by (metis le_zero_eq power_eq_0_iff zero_neq_numeral)
  ultimately show ?thesis using p m(3) dr n l
    unfolding gen_merkle_root_def Let_def merkle_spec_def by simp
qed

subsection \<open>What a root commits to\<close>

text \<open>
  The byte strings that are hashed on the way from the leaves to the root: the concatenations of the
  two children, first of the nodes on the lowest level, then of those above.\<close>

fun pair_inputs :: "hash list \<Rightarrow> bytes set" where
  "pair_inputs (x # y # zs) = insert (x @ y) (pair_inputs zs)"
| "pair_inputs zs = {}"

fun perfect_inputs :: "(bytes \<Rightarrow> hash) \<Rightarrow> nat \<Rightarrow> hash list \<Rightarrow> bytes set" where
  "perfect_inputs sha3 0 xs = {}"
| "perfect_inputs sha3 (Suc k) xs =
     insert (perfect_root sha3 k (take (2 ^ k) xs) @ perfect_root sha3 k (drop (2 ^ k) xs))
       (perfect_inputs sha3 k (take (2 ^ k) xs) \<union> perfect_inputs sha3 k (drop (2 ^ k) xs))"

definition merkle_inputs :: "(bytes \<Rightarrow> hash) \<Rightarrow> nat \<Rightarrow> hash list \<Rightarrow> bytes set" where
  "merkle_inputs sha3 k xs =
     (let m = 2 * (length xs - 2 ^ k) in pair_inputs (take m xs) \<union> perfect_inputs sha3 k (pairs sha3 (take m xs) @ drop m xs))"

text \<open>Two different byte strings, one of each set, with the same hash.\<close>

definition clash :: "(bytes \<Rightarrow> hash) \<Rightarrow> bytes set \<Rightarrow> bytes set \<Rightarrow> bool" where
  "clash sha3 A B \<longleftrightarrow> (\<exists>a \<in> A. \<exists>b \<in> B. a \<noteq> b \<and> sha3 a = sha3 b)"

lemma clash_mono: "\<not> clash sha3 A B \<Longrightarrow> A' \<subseteq> A \<Longrightarrow> B' \<subseteq> B \<Longrightarrow> \<not> clash sha3 A' B'"
  unfolding clash_def by blast

lemma merkle_merge_inj:
  assumes "\<not> clash sha3 A B" and "a @ b \<in> A" and "c @ d \<in> B" and "length a = length c"
    and "merkle_merge sha3 a b = merkle_merge sha3 c d"
  shows "a = c \<and> b = d"
proof -
  have "a @ b = c @ d" using assms(1-3,5) by (auto simp: clash_def merkle_merge_def)
  then show ?thesis using assms(4) by simp
qed

lemma length_perfect_root:
  assumes "\<And>x. length (sha3 x) = 32" and "length xs = 2 ^ k" and "\<And>x. x \<in> set xs \<Longrightarrow> length x = 32"
  shows "length (perfect_root sha3 k xs) = 32"
  using assms(2,3)
proof (cases k)
  case 0
  then show ?thesis using assms(2,3) by (simp add: nth_mem)
qed (simp add: assms(1) merkle_merge_def)

lemma perfect_root_inj:
  assumes len: "\<And>x. length (sha3 x) = 32"
  shows "\<not> clash sha3 (perfect_inputs sha3 k xs) (perfect_inputs sha3 k ys) \<Longrightarrow> length xs = 2 ^ k \<Longrightarrow> length ys = 2 ^ k \<Longrightarrow>
    \<forall>x \<in> set xs \<union> set ys. length x = 32 \<Longrightarrow> perfect_root sha3 k xs = perfect_root sha3 k ys \<Longrightarrow> xs = ys"
proof (induction k arbitrary: xs ys)
  case 0
  then show ?case by (auto simp: length_Suc_conv)
next
  case (Suc k)
  let ?t = "take (2 ^ k)" and ?d = "drop (2 ^ k)"
  have m: "\<forall>x \<in> set (?t xs) \<union> set (?t ys). length x = 32" "\<forall>x \<in> set (?d xs) \<union> set (?d ys). length x = 32"
    using Suc.prems(4) by (auto dest: in_set_takeD in_set_dropD)
  have l: "length (?t xs) = 2 ^ k" "length (?t ys) = 2 ^ k" "length (?d xs) = 2 ^ k" "length (?d ys) = 2 ^ k"
    using Suc.prems(2,3) by simp_all
  have "length (perfect_root sha3 k (?t xs)) = length (perfect_root sha3 k (?t ys))"
    using length_perfect_root[of sha3, OF len l(1)] length_perfect_root[of sha3, OF len l(2)] m(1) by simp
  from merkle_merge_inj[OF Suc.prems(1) _ _ this, of "perfect_root sha3 k (?d xs)" "perfect_root sha3 k (?d ys)"] Suc.prems(5)
  have "perfect_root sha3 k (?t xs) = perfect_root sha3 k (?t ys) \<and>
      perfect_root sha3 k (?d xs) = perfect_root sha3 k (?d ys)" by simp
  moreover have "\<not> clash sha3 (perfect_inputs sha3 k (?t xs)) (perfect_inputs sha3 k (?t ys))"
    "\<not> clash sha3 (perfect_inputs sha3 k (?d xs)) (perfect_inputs sha3 k (?d ys))"
    by (rule clash_mono[OF Suc.prems(1)]; auto)+
  ultimately have "?t xs = ?t ys" "?d xs = ?d ys" using Suc.IH l m by blast+
  then show ?case by (metis append_take_drop_id)
qed

lemma pairs_inj:
  shows "\<not> clash sha3 (pair_inputs xs) (pair_inputs ys) \<Longrightarrow> length xs = length ys \<Longrightarrow> even (length xs) \<Longrightarrow>
    \<forall>x \<in> set xs \<union> set ys. length x = 32 \<Longrightarrow> pairs sha3 xs = pairs sha3 ys \<Longrightarrow> xs = ys"
proof (induction sha3 xs arbitrary: ys rule: pairs.induct)
  case (1 sha3 x y zs)
  then obtain a b cs where ys: "ys = a # b # cs" by (cases ys; cases "tl ys") auto
  have "\<not> clash sha3 (pair_inputs zs) (pair_inputs cs)" by (rule clash_mono[OF "1.prems"(1)]) (auto simp: ys)
  with 1 show ?case using merkle_merge_inj[OF "1.prems"(1), of x y a b] by (auto simp: ys)
qed auto

lemma merkle_depth_ex: "0 < (n :: nat) \<Longrightarrow> \<exists>k. 2 ^ k \<le> n \<and> n < 2 ^ Suc k"
  using ex_power_ivl1[of 2 n] by auto

subsection \<open>Properties\<close>

text \<open>
  C30. For every number of leaves the in-place loops stay in range and return the root of the
  complete binary tree whose first leaves lie one level deeper; no input gives a panic.\<close>

theorem merkle_root_spec:
  "complete_merkle_root_raw sha3 [] = Some SHA3_NULL_RLP \<and>
    (\<forall>x xs. \<exists>k. 2 ^ k \<le> length (x # xs) \<and> length (x # xs) < 2 ^ Suc k \<and>
      complete_merkle_root_raw sha3 (x # xs) = Some (merkle_spec sha3 k (x # xs)))"
proof (intro conjI allI)
  show "complete_merkle_root_raw sha3 [] = Some SHA3_NULL_RLP"
    by (simp add: complete_merkle_root_raw_def gen_merkle_root_def)
  fix x :: hash and xs
  obtain k where k: "2 ^ k \<le> length (x # xs)" "length (x # xs) < 2 ^ Suc k"
    using merkle_depth_ex[of "length (x # xs)"] by auto
  then show "\<exists>k. 2 ^ k \<le> length (x # xs) \<and> length (x # xs) < 2 ^ Suc k \<and>
      complete_merkle_root_raw sha3 (x # xs) = Some (merkle_spec sha3 k (x # xs))"
    using gen_merkle_root_val[OF k] by (auto simp: complete_merkle_root_raw_def)
qed

text \<open>
  C31. A root commits to the leaves, as far as the hash function has no collision among the byte strings
  that are hashed: when two lists of the same number of 32-byte hashes have the same root, they are equal, or two
  different concatenations of children, one merged on the way to the first root and one on the way to the second, have the same
  hash. (The number of leaves is not committed to, see \<open>merkle_root_levels\<close>.)\<close>

theorem merkle_root_binding:
  assumes "\<And>x. length (sha3 x) = 32" and "2 ^ k \<le> length xs" and "length xs < 2 ^ Suc k" and "length xs = length ys"
    and "\<forall>x \<in> set xs \<union> set ys. length x = 32"
    and "complete_merkle_root_raw sha3 xs = complete_merkle_root_raw sha3 ys"
  shows "xs = ys \<or> clash sha3 (merkle_inputs sha3 k xs) (merkle_inputs sha3 k ys)"
proof (rule disjCI)
  let ?m = "2 * (length xs - 2 ^ k)"
  let ?f = "\<lambda>zs. pairs sha3 (take ?m zs) @ drop ?m zs"
  assume "\<not> clash sha3 (merkle_inputs sha3 k xs) (merkle_inputs sha3 k ys)"
  then have nc: "\<not> clash sha3 (pair_inputs (take ?m xs)) (pair_inputs (take ?m ys))"
    "\<not> clash sha3 (perfect_inputs sha3 k (?f xs)) (perfect_inputs sha3 k (?f ys))"
    by (auto simp: clash_def merkle_inputs_def Let_def assms(4))
  note k = assms(2,3)
  have m: "?m \<le> length xs" using k by simp
  have lp: "length (?f zs) = 2 ^ k" if "length zs = length xs" for zs
  proof -
    have "length (?f zs) = (length xs - 2 ^ k) + (length xs - ?m)" using m that by simp
    then show ?thesis using k by simp
  qed
  have mem: "\<forall>x \<in> set (?f xs) \<union> set (?f ys). length x = 32"
  proof -
    have "\<forall>x \<in> set (pairs sha3 zs). length x = 32" for zs
      using assms(1) by (induction sha3 zs rule: pairs.induct) (auto simp: merkle_merge_def)
    then show ?thesis using assms(5) by (auto dest: in_set_dropD)
  qed
  have "perfect_root sha3 k (?f xs) = perfect_root sha3 k (?f ys)"
    using assms(6) gen_merkle_root_val[OF k] gen_merkle_root_val[of k ys] k assms(4)
    by (simp add: complete_merkle_root_raw_def merkle_spec_def Let_def)
  then have eq: "?f xs = ?f ys"
    using perfect_root_inj[of sha3, OF assms(1) nc(2) lp[OF refl] lp[OF assms(4)[symmetric]] mem] by simp
  have "length (pairs sha3 (take ?m xs)) = length (pairs sha3 (take ?m ys))" using assms(4) by simp
  with eq have e: "pairs sha3 (take ?m xs) = pairs sha3 (take ?m ys)" "drop ?m xs = drop ?m ys" by simp_all
  have "take ?m xs = take ?m ys"
    by (rule pairs_inj[OF nc(1) _ _ _ e(1)]) (use assms(4,5) m in \<open>auto dest: in_set_takeD\<close>)
  then show "xs = ys" using e(2) by (metis append_take_drop_id)
qed

text \<open>With a hash function that keeps the first 32 bytes, the second of two leaves is not committed to, and the collision is found.\<close>

theorem merkle_root_binding_witness:
  "let h = (\<lambda>b. take 32 (b @ replicate 32 0)); a = replicate 32 1; b = replicate 32 2; c = replicate 32 3 in
    complete_merkle_root_raw h [a, b] = complete_merkle_root_raw h [a, c] \<and>
    clash h (merkle_inputs h 1 [a, b]) (merkle_inputs h 1 [a, c]) \<and> merkle_inputs h 1 [a, b] = {a @ b}"
proof -
  let ?h = "\<lambda>b :: bytes. take 32 (b @ replicate 32 0)" and ?a = "replicate 32 (1 :: u8)" and ?b = "replicate 32 (2 :: u8)"
    and ?c = "replicate 32 (3 :: u8)"
  have g: "complete_merkle_root_raw ?h [x, y] = Some (?h (x @ y))" for x y
    using gen_merkle_root_val[of 1 "[x, y]" ?h] by (simp add: complete_merkle_root_raw_def merkle_spec_def merkle_merge_def)
  have i: "merkle_inputs ?h 1 [x, y] = {x @ y}" for x y by (simp add: merkle_inputs_def Let_def)
  have "?h (?a @ ?b) = ?h (?a @ ?c)" by simp
  then have e: "complete_merkle_root_raw ?h [?a, ?b] = complete_merkle_root_raw ?h [?a, ?c]" unfolding g by (rule arg_cong)
  have "[?a, ?b] = [?a, ?c] \<or> clash ?h (merkle_inputs ?h 1 [?a, ?b]) (merkle_inputs ?h 1 [?a, ?c])"
    by (rule merkle_root_binding[OF _ _ _ _ _ e]) simp_all
  moreover have "[?a, ?b] \<noteq> [?a, ?c]" by simp
  ultimately show ?thesis using e i unfolding Let_def by blast
qed

text \<open>
  Nodes and leaves are hashed alike: the root of one value that is the concatenation of two
  leaf hashes is the root of the two values, so a root alone does not fix the number of values.\<close>

theorem merkle_root_levels:
  "complete_merkle_root sha3 [sha3 a @ sha3 b] = complete_merkle_root sha3 [a, b] \<and>
    complete_merkle_root sha3 [a, b] \<noteq> None"
proof -
  have "gen_merkle_root sha3 [x] = Some x" for x
    using gen_merkle_root_val[of 0 "[x]" sha3] by (simp add: merkle_spec_def)
  moreover have "gen_merkle_root sha3 [x, y] = Some (merkle_merge sha3 x y)" for x y
    using gen_merkle_root_val[of 1 "[x, y]" sha3] by (simp add: merkle_spec_def)
  ultimately show ?thesis by (simp add: complete_merkle_root_def merkle_merge_def)
qed

end
