(* ===== verification/Crypto.thy ===== *)
theory Crypto
  imports Hash
begin

section \<open>Keys and signatures\<close>

text \<open>
  \<open>crypto/src/signature.rs\<close>, \<open>keypair.rs\<close>, \<open>signer.rs\<close>: the 65-byte layout of a signature (r, s and the
  recovery byte), its range checks, and the wrappers of the crate \<open>secp256k1\<close>. The crate is the
  parameter \<open>secp\<close>; \<open>secp_ok\<close> is its documented behaviour: a recoverable signature serialises to 64
  bytes and a recovery id that parse back to it, and recovering from it gives the key of the signer.
\<close>

subsection \<open>Definitions\<close>

datatype crypto_error =
    InvalidPrivKey | InvalidPubKey | InvalidAddress | InvalidSignature | InvalidMessage | CryptoIo string | Unexpected string

datatype secp_error = SecpInvalidMessage | SecpInvalidPublicKey | SecpInvalidSecretKey | SecpIncorrectSignature | SecpOther

definition crypto_error_from :: "secp_error \<Rightarrow> crypto_error" where
  "crypto_error_from e =
     (case e of
        SecpInvalidMessage \<Rightarrow> InvalidMessage
      | SecpInvalidPublicKey \<Rightarrow> InvalidPubKey
      | SecpInvalidSecretKey \<Rightarrow> InvalidPrivKey
      | _ \<Rightarrow> InvalidSignature)"

record ('sk, 'pk, 'rs) secp =
  s_message :: "bytes \<Rightarrow> secp_error + bytes"
  s_secret :: "bytes \<Rightarrow> 'sk"
  s_secret_from_slice :: "bytes \<Rightarrow> secp_error + 'sk"
  s_secret_bytes :: "'sk \<Rightarrow> bytes"
  s_public :: "'sk \<Rightarrow> secp_error + 'pk"
  s_serialize :: "'pk \<Rightarrow> bytes"
  s_public_from_slice :: "bytes \<Rightarrow> secp_error + 'pk"
  s_sign :: "bytes \<Rightarrow> 'sk \<Rightarrow> secp_error + 'rs"
  s_compact :: "'rs \<Rightarrow> nat \<times> bytes"
  s_recovery_id :: "nat \<Rightarrow> secp_error + nat"
  s_from_compact :: "bytes \<Rightarrow> nat \<Rightarrow> secp_error + 'rs"
  s_recover :: "bytes \<Rightarrow> 'rs \<Rightarrow> secp_error + 'pk"
  s_verify :: "bytes \<Rightarrow> 'rs \<Rightarrow> 'pk \<Rightarrow> secp_error + unit"

text \<open>The \<open>?\<close> operator, which converts the error of the crate.\<close>

definition secp_then :: "secp_error + 'a \<Rightarrow> ('a \<Rightarrow> crypto_error + 'b) \<Rightarrow> crypto_error + 'b" where
  "secp_then r f = (case r of Inl e \<Rightarrow> Inl (crypto_error_from e) | Inr x \<Rightarrow> f x)"

lemma secp_then_simps [simp]: "secp_then (Inr x) f = f x" "secp_then (Inl e) f = Inl (crypto_error_from e)"
  by (simp_all add: secp_then_def)

type_synonym signature = bytes

definition sig_r :: "signature \<Rightarrow> bytes" where
  "sig_r sig = take 32 sig"

definition sig_s :: "signature \<Rightarrow> bytes" where
  "sig_s sig = take 32 (drop 32 sig)"

definition sig_v :: "signature \<Rightarrow> u8" where
  "sig_v sig = sig ! 64"

definition sig_from_rsv :: "hash \<Rightarrow> hash \<Rightarrow> u8 \<Rightarrow> signature" where
  "sig_from_rsv r s v =
     (let sig = replicate 65 0;
          sig = take 0 sig @ r @ drop 32 sig;
          sig = take 32 sig @ s @ drop 64 sig in
      sig[64 := v])"

text \<open>The two constants are parsed from hexadecimal strings; half the order and the order of the curve.\<close>

definition LOW_S :: hash where
  "LOW_S = be_bytes 32 0x7FFFFFFFFFFFFFFFFFFFFFFFFFFFFFFF5D576E7357A4501DDFE92F46681B20A0"

definition CURVE_N :: hash where
  "CURVE_N = be_bytes 32 0xfffffffffffffffffffffffffffffffebaaedce6af48a03bbfd25e8cd0364141"

definition is_low_s :: "signature \<Rightarrow> bool" where
  "is_low_s sig \<longleftrightarrow> hash_cmp (hash_from_slice 32 (sig_s sig)) LOW_S \<noteq> Greater"

definition sig_is_valid :: "signature \<Rightarrow> bool" where
  "sig_is_valid sig \<longleftrightarrow>
     sig_v sig \<le> 1 \<and>
     hash_less (hash_from_slice 32 (sig_r sig)) CURVE_N \<and>
     hash_cmp (hash_from_slice 32 (sig_r sig)) (hash_from_u64 32 1) \<noteq> Less \<and>
     hash_less (hash_from_slice 32 (sig_s sig)) CURVE_N \<and>
     hash_cmp (hash_from_slice 32 (sig_s sig)) (hash_from_u64 32 1) \<noteq> Less"

definition sig_from_str :: "(u8 list \<Rightarrow> bytes option) \<Rightarrow> u8 list \<Rightarrow> crypto_error + signature" where
  "sig_from_str from_hex s =
     (case from_hex s of
        Some hex \<Rightarrow> if length hex = 65 then Inr (take 65 hex) else Inl InvalidSignature
      | None \<Rightarrow> Inl InvalidSignature)"

definition sig_default :: signature where
  "sig_default = replicate 65 0"

text \<open>\<open>copy_from_slice(&data[0..64])\<close>; the recovery id is cast to a byte.\<close>

definition crypto_sign :: "('sk, 'pk, 'rs) secp \<Rightarrow> hash \<Rightarrow> hash \<Rightarrow> crypto_error + signature" where
  "crypto_sign S privkey message =
     secp_then (s_message S message) (\<lambda>m.
     secp_then (s_sign S m (s_secret S privkey)) (\<lambda>s.
       case s_compact S s of (rec_id, data) \<Rightarrow> Inr (take 64 data @ [of_nat rec_id])))"

definition crypto_recover :: "('sk, 'pk, 'rs) secp \<Rightarrow> signature \<Rightarrow> hash \<Rightarrow> crypto_error + hash" where
  "crypto_recover S sig message =
     secp_then (s_recovery_id S (unat (sig ! 64))) (\<lambda>id.
     secp_then (s_from_compact S (take 64 sig) id) (\<lambda>rsig.
     secp_then (s_message S message) (\<lambda>m.
     secp_then (s_recover S m rsig) (\<lambda>publ. Inr (take 64 (drop 1 (s_serialize S publ)))))))"

definition crypto_verify_public :: "('sk, 'pk, 'rs) secp \<Rightarrow> hash \<Rightarrow> signature \<Rightarrow> hash \<Rightarrow> crypto_error + bool" where
  "crypto_verify_public S pubkey sig message =
     secp_then (s_recovery_id S (unat (sig ! 64))) (\<lambda>id.
     secp_then (s_from_compact S (take 64 sig) id) (\<lambda>rsig.
     secp_then (s_public_from_slice S (4 # pubkey)) (\<lambda>publ.
     secp_then (s_message S message) (\<lambda>m.
       case s_verify S m rsig publ of
         Inr _ \<Rightarrow> Inr True
       | Inl SecpIncorrectSignature \<Rightarrow> Inr False
       | Inl x \<Rightarrow> Inl (crypto_error_from x)))))"

definition pubkey_to_address :: "(bytes \<Rightarrow> hash) \<Rightarrow> hash \<Rightarrow> hash" where
  "pubkey_to_address sha3 pubkey = h160_from_h256 (sha3 pubkey)"

definition crypto_verify_address ::
    "(bytes \<Rightarrow> hash) \<Rightarrow> ('sk, 'pk, 'rs) secp \<Rightarrow> hash \<Rightarrow> signature \<Rightarrow> hash \<Rightarrow> crypto_error + bool" where
  "crypto_verify_address sha3 S address sig message =
     (case crypto_recover S sig message of
        Inl e \<Rightarrow> Inl e
      | Inr pubkey \<Rightarrow> Inr (hash_eq address (pubkey_to_address sha3 pubkey)))"

record key_pair =
  privkey :: hash
  pubkey :: hash

definition keypair_from_privkey :: "('sk, 'pk, 'rs) secp \<Rightarrow> hash \<Rightarrow> crypto_error + key_pair" where
  "keypair_from_privkey S k =
     secp_then (s_secret_from_slice S k) (\<lambda>s.
     secp_then (s_public S s) (\<lambda>p.
       Inr \<lparr>privkey = k, pubkey = take 64 (drop 1 (s_serialize S p))\<rparr>))"

definition keypair_from_keypair :: "('sk, 'pk, 'rs) secp \<Rightarrow> 'sk \<Rightarrow> 'pk \<Rightarrow> key_pair" where
  "keypair_from_keypair S sec publ =
     \<lparr>privkey = take 32 (s_secret_bytes S sec), pubkey = take 64 (drop 1 (s_serialize S publ))\<rparr>"

definition keypair_address :: "(bytes \<Rightarrow> hash) \<Rightarrow> key_pair \<Rightarrow> hash" where
  "keypair_address sha3 k = pubkey_to_address sha3 (pubkey k)"

record signer =
  keypair :: key_pair
  signer_address :: hash

definition signer_from :: "(bytes \<Rightarrow> hash) \<Rightarrow> ('sk, 'pk, 'rs) secp \<Rightarrow> hash \<Rightarrow> signer option" where
  "signer_from sha3 S k =
     (case keypair_from_privkey S k of
        Inl _ \<Rightarrow> None
      | Inr kp \<Rightarrow> Some \<lparr>keypair = kp, signer_address = keypair_address sha3 kp\<rparr>)"

subsection \<open>What is relied on of the crate\<close>

definition secp_ok :: "('sk, 'pk, 'rs) secp \<Rightarrow> bool" where
  "secp_ok S \<longleftrightarrow>
     (\<forall>m. length m = 32 \<longrightarrow> s_message S m = Inr m) \<and>
     (\<forall>k s. s_secret_from_slice S k = Inr s \<longrightarrow> s = s_secret S k) \<and>
     (\<forall>m k s. s_sign S m k = Inr s \<longrightarrow>
        length (snd (s_compact S s)) = 64 \<and> fst (s_compact S s) < 4 \<and>
        s_recovery_id S (fst (s_compact S s)) = Inr (fst (s_compact S s)) \<and>
        s_from_compact S (snd (s_compact S s)) (fst (s_compact S s)) = Inr s \<and>
        (\<forall>p. s_public S k = Inr p \<longrightarrow> s_recover S m s = Inr p \<and> s_verify S m s p = Inr ())) \<and>
     (\<forall>p. length (s_serialize S p) = 65 \<and> s_serialize S p ! 0 = 4 \<and> s_public_from_slice S (s_serialize S p) = Inr p)"

lemma sig_layout:
  assumes "length r = 32" and "length s = 32"
  shows "sig_from_rsv r s v = r @ s @ [v]"
proof -
  have "drop 32 (replicate 65 (0 :: u8)) = replicate 33 0" by simp
  then show ?thesis using assms by (simp add: sig_from_rsv_def list_update_append)
qed

lemma sig_parts:
  assumes "length sig = 65"
  shows "sig = sig_r sig @ sig_s sig @ [sig_v sig]" and "length (sig_r sig) = 32" and "length (sig_s sig) = 32"
proof -
  have "drop 64 sig = [sig ! 64]" using assms by (simp flip: Cons_nth_drop_Suc)
  then show "sig = sig_r sig @ sig_s sig @ [sig_v sig]"
    using append_take_drop_id[of 32 sig] append_take_drop_id[of 32 "drop 32 sig"]
    by (simp add: sig_r_def sig_s_def sig_v_def)
  show "length (sig_r sig) = 32" "length (sig_s sig) = 32" using assms by (simp_all add: sig_r_def sig_s_def)
qed

lemma sign_recovers:
  assumes "secp_ok S" and "keypair_from_privkey S k = Inr kp" and "length m = 32" and "crypto_sign S k m = Inr sig"
  shows "crypto_recover S sig m = Inr (pubkey kp) \<and> crypto_verify_public S (pubkey kp) sig m = Inr True \<and>
    crypto_verify_address sha3 S (keypair_address sha3 kp) sig m = Inr True \<and>
    length sig = 65 \<and> sig = sig_from_rsv (sig_r sig) (sig_s sig) (sig_v sig)"
proof -
  note ok = assms(1)[unfolded secp_ok_def]
  have m: "s_message S m = Inr m" using ok assms(3) by blast
  obtain sk p where sk: "s_secret_from_slice S k = Inr sk" "s_public S sk = Inr p"
    "pubkey kp = take 64 (drop 1 (s_serialize S p))"
    using assms(2) by (auto simp: keypair_from_privkey_def secp_then_def split: sum.splits)
  have "sk = s_secret S k" using ok sk(1) by blast
  with sk have p: "s_public S (s_secret S k) = Inr p" "pubkey kp = take 64 (drop 1 (s_serialize S p))" by simp_all
  obtain s where s: "s_sign S m (s_secret S k) = Inr s"
    using assms(4) m by (auto simp: crypto_sign_def secp_then_def split: sum.splits)
  obtain id data where c: "s_compact S s = (id, data)" by fastforce
  have sgn: "s_sign S m sk' = Inr s \<Longrightarrow> length (snd (s_compact S s)) = 64 \<and> fst (s_compact S s) < 4 \<and>
      s_recovery_id S (fst (s_compact S s)) = Inr (fst (s_compact S s)) \<and>
      s_from_compact S (snd (s_compact S s)) (fst (s_compact S s)) = Inr s \<and>
      (\<forall>p. s_public S sk' = Inr p \<longrightarrow> s_recover S m s = Inr p \<and> s_verify S m s p = Inr ())" for sk'
    using ok by blast
  have l: "length data = 64" "id < 4" "s_recovery_id S id = Inr id" "s_from_compact S data id = Inr s"
    "s_recover S m s = Inr p" "s_verify S m s p = Inr ()"
    using sgn[OF s] p(1) c by auto
  have sig: "sig = data @ [of_nat id]" using assms(4) m s c l(1) by (simp add: crypto_sign_def)
  have id: "unat (of_nat id :: u8) = id" using l(2) by (simp add: unat_of_nat)
  have v: "sig ! 64 = of_nat id" "take 64 sig = data" using l(1) by (simp_all add: sig nth_append)
  have r: "crypto_recover S sig m = Inr (pubkey kp)" using v l m id p(2) by (simp add: crypto_recover_def)
  have "4 # pubkey kp = s_serialize S p"
  proof -
    have "length (s_serialize S p) = 65" "s_serialize S p ! 0 = 4" using ok by blast+
    then show ?thesis using p(2) by (cases "s_serialize S p") auto
  qed
  moreover have "s_public_from_slice S (s_serialize S p) = Inr p" using ok by blast
  ultimately have "crypto_verify_public S (pubkey kp) sig m = Inr True"
    using v l m id by (simp add: crypto_verify_public_def)
  moreover have l65: "length sig = 65" using sig l(1) by simp
  moreover have "crypto_verify_address sha3 S (keypair_address sha3 kp) sig m = Inr True"
    using r by (simp add: crypto_verify_address_def hash_eq_def keypair_address_def)
  moreover have "sig = sig_from_rsv (sig_r sig) (sig_s sig) (sig_v sig)"
    using sig_layout[OF sig_parts(2)[OF l65] sig_parts(3)[OF l65], of "sig_v sig"] sig_parts(1)[OF l65] by simp
  ultimately show ?thesis using r by blast
qed

subsection \<open>Properties\<close>

text \<open>
  The signature functions fit together: a signature made with a private key recovers to the public
  key of that key pair and verifies under it and under its address, and the signature is its three
  parts r, s, v laid end to end.\<close>

theorem sign_recover:
  assumes "secp_ok S" and "keypair_from_privkey S k = Inr kp" and "length m = 32" and "crypto_sign S k m = Inr sig"
  shows "crypto_recover S sig m = Inr (pubkey kp) \<and> crypto_verify_public S (pubkey kp) sig m = Inr True \<and>
    crypto_verify_address sha3 S (keypair_address sha3 kp) sig m = Inr True \<and>
    length sig = 65 \<and> sig = sig_from_rsv (sig_r sig) (sig_s sig) (sig_v sig)"
  by (rule sign_recovers[OF assms])

text \<open>A crate with one key, for the concrete example.\<close>

definition unit_secp :: "(unit, unit, unit) secp" where
  "unit_secp =
     \<lparr>s_message = Inr, s_secret = (\<lambda>_. ()), s_secret_from_slice = (\<lambda>_. Inr ()), s_secret_bytes = (\<lambda>_. replicate 32 1),
      s_public = (\<lambda>_. Inr ()), s_serialize = (\<lambda>_. 4 # replicate 64 2), s_public_from_slice = (\<lambda>_. Inr ()),
      s_sign = (\<lambda>_ _. Inr ()), s_compact = (\<lambda>_. (1, replicate 64 3)), s_recovery_id = Inr,
      s_from_compact = (\<lambda>_ _. Inr ()), s_recover = (\<lambda>_ _. Inr ()), s_verify = (\<lambda>_ _ _. Inr ())\<rparr>"

lemma unit_secp_ok: "secp_ok unit_secp"
  by (simp add: secp_ok_def unit_secp_def)

theorem sign_recover_witness:
  "crypto_recover unit_secp (replicate 64 3 @ [1]) (replicate 32 5) = Inr (replicate 64 2) \<and>
    crypto_verify_public unit_secp (replicate 64 2) (replicate 64 3 @ [1]) (replicate 32 5) = Inr True"
proof -
  have k: "keypair_from_privkey unit_secp (replicate 32 1) = Inr \<lparr>privkey = replicate 32 1, pubkey = replicate 64 2\<rparr>"
    by (simp add: keypair_from_privkey_def unit_secp_def)
  have s: "crypto_sign unit_secp (replicate 32 1) (replicate 32 5) = Inr (replicate 64 3 @ [1])"
    by (simp add: crypto_sign_def unit_secp_def)
  show ?thesis using sign_recover[OF unit_secp_ok k _ s, of "\<lambda>_. []"] by simp
qed

text \<open>The range check of a signature, read as numbers.\<close>

lemma sig_is_valid_val:
  assumes "length sig = 65"
  shows "sig_is_valid sig \<longleftrightarrow> unat (sig_v sig) \<le> 1 \<and>
    0 < be_val (sig_r sig) \<and> be_val (sig_r sig) < be_val CURVE_N \<and> 0 < be_val (sig_s sig) \<and> be_val (sig_s sig) < be_val CURVE_N"
  using sig_parts(2,3)[OF assms]
  by (auto simp: sig_is_valid_def hash_less_def hash_from_slice_id hash_cmp_val hash_from_u64_val CURVE_N_def word_le_nat_alt
      split: if_splits)

lemma is_low_s_val: "length sig = 65 \<Longrightarrow> is_low_s sig \<longleftrightarrow> be_val (sig_s sig) \<le> be_val LOW_S"
  using sig_parts(3)[of sig] by (auto simp: is_low_s_def hash_from_slice_id hash_cmp_val LOW_S_def)

end
