(* ===== verification/ChainTypes.thy ===== *)
theory ChainTypes
  imports RlpStruct Merkle Crypto
begin

section \<open>Transactions, headers and blocks\<close>

text \<open>
  \<open>chain/src/transaction.rs\<close>, \<open>block.rs\<close>, \<open>extras.rs\<close>, \<open>error.rs\<close>. The structs, their RLP forms (hand-written
  for the header, derived for the others, see \<open>RlpStruct\<close>), the cached hash of a header, signing and
  the proof of a block. The hash function, the signature crate and the pairing crate are parameters;
  the cell with the cached hash is a field that \<open>header_hash\<close> may fill.
\<close>

subsection \<open>Data\<close>

datatype chain_error =
    FutureBlock | UnknownParent | DuplicateBlock | DuplicateTransaction | OverdueTransaction | InvalidTimestamp
  | InvalidReceiptsRoot | InvalidStateRoot | InvalidTransactionsRoot | InvalidPublicKey | InvalidProofKey | InvalidProof
  | ErrInvalidSignature | InvalidFormat | LongFork | UnknownAncestor | NTPError

type_synonym block_number = u64

record transaction =
  tx_data :: bytes
  tx_timestamp :: u64

record signed_transaction =
  stx_transaction :: transaction
  stx_hash :: hash
  stx_signature :: signature

record proof_rec =
  time_signature :: bytes
  block_signature :: signature

record header =
  parent_hash :: hash
  h_timestamp :: u64
  h_height :: u64
  h_transactions_root :: hash
  h_state_root :: hash
  h_receipts_root :: hash
  h_hash :: "hash option"
  h_proof :: proof_rec

record rich_header =
  rh_header :: header
  rh_verified :: bool

record body =
  transactions :: "signed_transaction list"

record block =
  b_header :: header
  b_body :: body

record transaction_address =
  ta_block_hash :: hash
  ta_index :: nat

text \<open>The pairing crate: \<open>bls::sign\<close> and \<open>bls::verify\<close>.\<close>

record bls =
  bls_sign :: "bytes \<Rightarrow> bytes \<Rightarrow> bytes"
  bls_verify :: "bytes \<Rightarrow> bytes \<Rightarrow> bytes \<Rightarrow> bytes \<Rightarrow> bool"

subsection \<open>RLP forms\<close>

definition tx_append :: "byteorder \<Rightarrow> transaction \<Rightarrow> rlp_stream \<Rightarrow> rlp_stream option" where
  "tx_append bo t s = do {
     s \<leftarrow> begin_list bo 2 s;
     s \<leftarrow> append_list bo (u8_append bo) (tx_data t) s;
     append_value bo (u64_append bo (tx_timestamp t)) s }"

definition tx_decode :: "bytes \<Rightarrow> transaction outcome" where
  "tx_decode rlp = fst (
     pthen (list_field u8_decode 0) (\<lambda>d.
     pthen (field word_decode 1) (\<lambda>t.
     preturn \<lparr>tx_data = d, tx_timestamp = t\<rparr>)) (untrusted_new rlp))"

definition stx_append :: "byteorder \<Rightarrow> signed_transaction \<Rightarrow> rlp_stream \<Rightarrow> rlp_stream option" where
  "stx_append bo t s = do {
     s \<leftarrow> begin_list bo 3 s;
     s \<leftarrow> append_value bo (tx_append bo (stx_transaction t)) s;
     s \<leftarrow> append_value bo (hash_append bo (stx_hash t)) s;
     append_value bo (hash_append bo (stx_signature t)) s }"

definition stx_decode :: "bytes \<Rightarrow> signed_transaction outcome" where
  "stx_decode rlp = fst (
     pthen (field tx_decode 0) (\<lambda>t.
     pthen (field (hash_decode 32) 1) (\<lambda>h.
     pthen (field (hash_decode 65) 2) (\<lambda>sig.
     preturn \<lparr>stx_transaction = t, stx_hash = h, stx_signature = sig\<rparr>))) (untrusted_new rlp))"

definition proof_append :: "byteorder \<Rightarrow> proof_rec \<Rightarrow> rlp_stream \<Rightarrow> rlp_stream option" where
  "proof_append bo p s = do {
     s \<leftarrow> begin_list bo 2 s;
     s \<leftarrow> append_list bo (u8_append bo) (time_signature p) s;
     append_value bo (hash_append bo (block_signature p)) s }"

definition proof_decode :: "bytes \<Rightarrow> proof_rec outcome" where
  "proof_decode rlp = fst (
     pthen (list_field u8_decode 0) (\<lambda>t.
     pthen (field (hash_decode 65) 1) (\<lambda>sig.
     preturn \<lparr>time_signature = t, block_signature = sig\<rparr>)) (untrusted_new rlp))"

text \<open>\<open>Header::stream_rlp\<close>, which is also its \<open>rlp_append\<close>.\<close>

definition stream_rlp :: "byteorder \<Rightarrow> header \<Rightarrow> rlp_stream \<Rightarrow> rlp_stream option" where
  "stream_rlp bo h s = do {
     s \<leftarrow> begin_list bo 7 s;
     s \<leftarrow> append_value bo (hash_append bo (parent_hash h)) s;
     s \<leftarrow> append_value bo (u64_append bo (h_timestamp h)) s;
     s \<leftarrow> append_value bo (u64_append bo (h_height h)) s;
     s \<leftarrow> append_value bo (hash_append bo (h_transactions_root h)) s;
     s \<leftarrow> append_value bo (hash_append bo (h_state_root h)) s;
     s \<leftarrow> append_value bo (hash_append bo (h_receipts_root h)) s;
     append_value bo (proof_append bo (h_proof h)) s }"

definition header_rlp :: "byteorder \<Rightarrow> header \<Rightarrow> bytes option" where
  "header_rlp bo h = do { s \<leftarrow> stream_rlp bo h stream_new; stream_out s }"

definition rlp_hash :: "(bytes \<Rightarrow> hash) \<Rightarrow> byteorder \<Rightarrow> header \<Rightarrow> hash option" where
  "rlp_hash sha3 bo h = map_option sha3 (header_rlp bo h)"

text \<open>The timestamp is read as a \<open>U256\<close> and cut to the largest \<open>u64\<close>.\<close>

definition clamp_u64 :: "uint \<Rightarrow> u64 option" where
  "clamp_u64 v = as_u64 (if uint_cmp v (uint_from_u64 4 (- 1)) = Greater then uint_from_u64 4 (- 1) else v)"

definition header_decode :: "(bytes \<Rightarrow> hash) \<Rightarrow> bytes \<Rightarrow> header outcome" where
  "header_decode sha3 rlp = fst (
     pthen (field (hash_decode 32) 0) (\<lambda>ph.
     pthen (field (uint_decode 4) 1) (\<lambda>v.
     case clamp_u64 v of
       None \<Rightarrow> (\<lambda>r. (Panic, r))
     | Some ts \<Rightarrow>
         pthen (field word_decode 2) (\<lambda>hh.
         pthen (field (hash_decode 32) 3) (\<lambda>tr.
         pthen (field (hash_decode 32) 4) (\<lambda>sr.
         pthen (field (hash_decode 32) 5) (\<lambda>rr.
         pthen (field proof_decode 6) (\<lambda>p.
         preturn \<lparr>parent_hash = ph, h_timestamp = ts, h_height = hh, h_transactions_root = tr, h_state_root = sr,
           h_receipts_root = rr, h_hash = Some (sha3 rlp), h_proof = p\<rparr>))))))) (untrusted_new rlp))"

definition rich_append :: "byteorder \<Rightarrow> rich_header \<Rightarrow> rlp_stream \<Rightarrow> rlp_stream option" where
  "rich_append bo h s = do {
     s \<leftarrow> begin_list bo 2 s;
     s \<leftarrow> append_value bo (stream_rlp bo (rh_header h)) s;
     append_value bo (bool_append bo (rh_verified h)) s }"

definition rich_decode :: "(bytes \<Rightarrow> hash) \<Rightarrow> bytes \<Rightarrow> rich_header outcome" where
  "rich_decode sha3 rlp = fst (
     pthen (field (header_decode sha3) 0) (\<lambda>h.
     pthen (field bool_decode 1) (\<lambda>v.
     preturn \<lparr>rh_header = h, rh_verified = v\<rparr>)) (untrusted_new rlp))"

definition body_append :: "byteorder \<Rightarrow> body \<Rightarrow> rlp_stream \<Rightarrow> rlp_stream option" where
  "body_append bo b s = do {
     s \<leftarrow> begin_list bo 1 s;
     append_list bo (stx_append bo) (transactions b) s }"

definition body_decode :: "bytes \<Rightarrow> body outcome" where
  "body_decode rlp = fst (
     pthen (list_field stx_decode 0) (\<lambda>ts. preturn \<lparr>transactions = ts\<rparr>) (untrusted_new rlp))"

definition address_append :: "byteorder \<Rightarrow> transaction_address \<Rightarrow> rlp_stream \<Rightarrow> rlp_stream option" where
  "address_append bo a s = do {
     s \<leftarrow> begin_list bo 2 s;
     s \<leftarrow> append_value bo (hash_append bo (ta_block_hash a)) s;
     append_value bo (usize_append bo (ta_index a)) s }"

definition address_decode :: "bytes \<Rightarrow> transaction_address outcome" where
  "address_decode rlp = fst (
     pthen (field (hash_decode 32) 0) (\<lambda>h.
     pthen (field usize_decode 1) (\<lambda>i.
     preturn \<lparr>ta_block_hash = h, ta_index = i\<rparr>)) (untrusted_new rlp))"

subsection \<open>Operations\<close>

definition tx_new :: "u64 \<Rightarrow> transaction" where
  "tx_new t = \<lparr>tx_data = [], tx_timestamp = t\<rparr>"

definition cal_hash :: "(bytes \<Rightarrow> hash) \<Rightarrow> byteorder \<Rightarrow> transaction \<Rightarrow> hash option" where
  "cal_hash sha3 bo t = map_option sha3 (encode bo (tx_append bo t))"

definition set_data :: "bytes \<Rightarrow> transaction \<Rightarrow> transaction" where
  "set_data d t = t\<lparr>tx_data := d\<rparr>"

definition stx_new :: "(bytes \<Rightarrow> hash) \<Rightarrow> byteorder \<Rightarrow> u64 \<Rightarrow> signed_transaction option" where
  "stx_new sha3 bo t = do {
     h \<leftarrow> cal_hash sha3 bo (tx_new t);
     Some \<lparr>stx_transaction = tx_new t, stx_hash = h, stx_signature = hash_new 65\<rparr> }"

definition recover_public :: "('sk, 'pk, 'rs) secp \<Rightarrow> signed_transaction \<Rightarrow> chain_error + hash" where
  "recover_public S t =
     (case crypto_recover S (stx_signature t) (stx_hash t) of Inl _ \<Rightarrow> Inl ErrInvalidSignature | Inr k \<Rightarrow> Inr k)"

definition proof_default :: proof_rec where
  "proof_default = \<lparr>time_signature = [], block_signature = hash_new 65\<rparr>"

definition header_default :: header where
  "header_default =
     \<lparr>parent_hash = hash_new 32, h_timestamp = 0, h_height = 0, h_transactions_root = SHA3_NULL_RLP,
      h_state_root = SHA3_NULL_RLP, h_receipts_root = SHA3_NULL_RLP, h_hash = None, h_proof = proof_default\<rparr>"

text \<open>The message that is signed with the pairing key: time, height and the hash of an ancestor.\<close>

definition proof_message :: "(bytes \<Rightarrow> hash) \<Rightarrow> u64 \<Rightarrow> u64 \<Rightarrow> hash \<Rightarrow> hash" where
  "proof_message sha3 time height anc_hash = sha3 (hash_from_u64 32 time @ hash_from_u64 32 height @ anc_hash)"

definition verify_proof :: "(bytes \<Rightarrow> hash) \<Rightarrow> bls \<Rightarrow> header \<Rightarrow> hash \<Rightarrow> bytes \<Rightarrow> bytes \<Rightarrow> bool" where
  "verify_proof sha3 P h anc_hash pk g =
     bls_verify P (proof_message sha3 (h_timestamp h) (h_height h) anc_hash) (time_signature (h_proof h)) pk g"

definition gen_proof :: "(bytes \<Rightarrow> hash) \<Rightarrow> bls \<Rightarrow> bytes \<Rightarrow> u64 \<Rightarrow> u64 \<Rightarrow> hash \<Rightarrow> bytes" where
  "gen_proof sha3 P sk time height anc_hash = bls_sign P (proof_message sha3 time height anc_hash) sk"

definition difficulty :: "(bytes \<Rightarrow> hash) \<Rightarrow> header \<Rightarrow> uint option" where
  "difficulty sha3 h = u256_from_h256 (sha3 (time_signature (h_proof h)))"

definition header_hash :: "(bytes \<Rightarrow> hash) \<Rightarrow> byteorder \<Rightarrow> header \<Rightarrow> (hash \<times> header) option" where
  "header_hash sha3 bo h =
     (case h_hash h of
        Some x \<Rightarrow> Some (x, h)
      | None \<Rightarrow> do { x \<leftarrow> rlp_hash sha3 bo h; Some (x, h\<lparr>h_hash := Some x\<rparr>) })"

definition is_genesis :: "header \<Rightarrow> chain_error + bool" where
  "is_genesis h =
     (if h_height h = 0 then (if parent_hash h \<noteq> hash_new 32 then Inl InvalidFormat else Inr True) else Inr False)"

definition body_default :: body where
  "body_default = \<lparr>transactions = []\<rparr>"

definition transactions_root :: "(bytes \<Rightarrow> hash) \<Rightarrow> body \<Rightarrow> hash option" where
  "transactions_root sha3 b = complete_merkle_root_raw sha3 (map stx_hash (transactions b))"

definition block_default :: block where
  "block_default = \<lparr>b_header = header_default, b_body = body_default\<rparr>"

definition block_init :: "u64 \<Rightarrow> u64 \<Rightarrow> hash \<Rightarrow> signed_transaction list \<Rightarrow> bytes \<Rightarrow> block" where
  "block_init height timestamp parent txs time_sig =
     \<lparr>b_header =
        \<lparr>parent_hash = parent, h_timestamp = timestamp, h_height = height, h_transactions_root = SHA3_NULL_RLP,
         h_state_root = SHA3_NULL_RLP, h_receipts_root = SHA3_NULL_RLP, h_hash = None,
         h_proof = \<lparr>time_signature = time_sig, block_signature = hash_new 65\<rparr>\<rparr>,
      b_body = \<lparr>transactions = txs\<rparr>\<rparr>"

definition block_hash :: "(bytes \<Rightarrow> hash) \<Rightarrow> byteorder \<Rightarrow> block \<Rightarrow> (hash \<times> block) option" where
  "block_hash sha3 bo b = do { (h, hdr) \<leftarrow> header_hash sha3 bo (b_header b); Some (h, b\<lparr>b_header := hdr\<rparr>) }"

definition block_sign ::
    "(bytes \<Rightarrow> hash) \<Rightarrow> byteorder \<Rightarrow> ('sk, 'pk, 'rs) secp \<Rightarrow> hash \<Rightarrow> block \<Rightarrow> block option" where
  "block_sign sha3 bo S sk b = do {
     (h, b) \<leftarrow> block_hash sha3 bo b;
     case crypto_sign S sk h of
       Inl _ \<Rightarrow> None
     | Inr sig \<Rightarrow>
         Some (b\<lparr>b_header := (b_header b)\<lparr>h_proof := (h_proof (b_header b))\<lparr>block_signature := sig\<rparr>\<rparr>\<rparr>) }"

definition sign_public ::
    "(bytes \<Rightarrow> hash) \<Rightarrow> byteorder \<Rightarrow> ('sk, 'pk, 'rs) secp \<Rightarrow> block \<Rightarrow> (chain_error + hash) option" where
  "sign_public sha3 bo S b = do {
     (h, b) \<leftarrow> block_hash sha3 bo b;
     Some (case crypto_recover S (block_signature (h_proof (b_header b))) h of
             Inl _ \<Rightarrow> Inl ErrInvalidSignature
           | Inr k \<Rightarrow> Inr k) }"

definition genesis :: "u64 \<Rightarrow> block" where
  "genesis t = block_default\<lparr>b_header := (b_header block_default)\<lparr>h_timestamp := t\<rparr>\<rparr>"

subsection \<open>Keys of the database\<close>

definition with_index :: "hash \<Rightarrow> u8 \<Rightarrow> bytes" where
  "with_index h i = i # h"

definition block_number_key :: "block_number \<Rightarrow> bytes" where
  "block_number_key n =
     [1, ucast (drop_bit 24 n), ucast (drop_bit 16 n), ucast (drop_bit 8 n), ucast n]"

definition header_key :: "hash \<Rightarrow> bytes" where
  "header_key h = h"

definition body_key :: "hash \<Rightarrow> bytes" where
  "body_key h = h"

definition address_key :: "hash \<Rightarrow> bytes" where
  "address_key h = with_index h 2"

subsection \<open>The codecs\<close>

definition tx_item :: "transaction \<Rightarrow> rlp" where
  "tx_item t = RList [RList (map word_item (tx_data t)), word_item (tx_timestamp t)]"

definition stx_item :: "signed_transaction \<Rightarrow> rlp" where
  "stx_item t = RList [tx_item (stx_transaction t), RData (stx_hash t), RData (stx_signature t)]"

definition proof_item :: "proof_rec \<Rightarrow> rlp" where
  "proof_item p = RList [RList (map word_item (time_signature p)), RData (block_signature p)]"

definition header_item :: "header \<Rightarrow> rlp" where
  "header_item h = RList [RData (parent_hash h), word_item (h_timestamp h), word_item (h_height h),
     RData (h_transactions_root h), RData (h_state_root h), RData (h_receipts_root h), proof_item (h_proof h)]"

definition rich_item :: "rich_header \<Rightarrow> rlp" where
  "rich_item h = RList [header_item (rh_header h), bool_item (rh_verified h)]"

definition body_item :: "body \<Rightarrow> rlp" where
  "body_item b = RList [RList (map stx_item (transactions b))]"

definition address_item :: "transaction_address \<Rightarrow> rlp" where
  "address_item a = RList [RData (ta_block_hash a), word_item (of_nat (ta_index a) :: u64)]"

definition small :: "rlp \<Rightarrow> bool" where
  "small y \<longleftrightarrow> length (rlp_enc y) < 2 ^ 32"

lemma small_child: "small (RList ys) \<Longrightarrow> y \<in> set ys \<Longrightarrow> small y"
  unfolding small_def by (rule struct_child)

lemma small_list_ok: "small (RList ys) \<Longrightarrow> list_ok ys"
  by (simp add: small_def list_ok_def)

definition good_tx :: "byteorder \<Rightarrow> transaction \<Rightarrow> bool" where
  "good_tx bo t \<longleftrightarrow> big_endian bo \<and> small (tx_item t)"

definition good_stx :: "byteorder \<Rightarrow> signed_transaction \<Rightarrow> bool" where
  "good_stx bo t \<longleftrightarrow> big_endian bo \<and> length (stx_hash t) = 32 \<and> length (stx_signature t) = 65 \<and> small (stx_item t)"

definition good_proof :: "byteorder \<Rightarrow> proof_rec \<Rightarrow> bool" where
  "good_proof bo p \<longleftrightarrow> big_endian bo \<and> length (block_signature p) = 65 \<and> small (proof_item p)"

text \<open>A header whose fields have their sizes; its cached hash is not part of the encoding.\<close>

definition wf_header :: "byteorder \<Rightarrow> header \<Rightarrow> bool" where
  "wf_header bo h \<longleftrightarrow> big_endian bo \<and> length (parent_hash h) = 32 \<and> length (h_transactions_root h) = 32 \<and>
     length (h_state_root h) = 32 \<and> length (h_receipts_root h) = 32 \<and> length (block_signature (h_proof h)) = 65 \<and>
     small (header_item h)"

definition good_header :: "(bytes \<Rightarrow> hash) \<Rightarrow> byteorder \<Rightarrow> header \<Rightarrow> bool" where
  "good_header sha3 bo h \<longleftrightarrow> wf_header bo h \<and> h_hash h = Some (sha3 (rlp_enc (header_item h)))"

definition good_rich :: "(bytes \<Rightarrow> hash) \<Rightarrow> byteorder \<Rightarrow> rich_header \<Rightarrow> bool" where
  "good_rich sha3 bo h \<longleftrightarrow> good_header sha3 bo (rh_header h) \<and> small (rich_item h)"

definition good_body :: "byteorder \<Rightarrow> body \<Rightarrow> bool" where
  "good_body bo b \<longleftrightarrow> big_endian bo \<and> (\<forall>t \<in> set (transactions b). good_stx bo t) \<and> small (body_item b)"

definition good_address :: "byteorder \<Rightarrow> transaction_address \<Rightarrow> bool" where
  "good_address bo a \<longleftrightarrow> big_endian bo \<and> length (ta_block_hash a) = 32 \<and> ta_index a < 2 ^ 64 \<and> small (address_item a)"

declare rlp_enc.simps [simp del]

text \<open>Each appending function is a struct body, and each field of a well-formed value puts its item.\<close>

lemma tx_append_body: "tx_append bo t = struct_body bo
    [append_list bo (u8_append bo) (tx_data t), append_value bo (u64_append bo (tx_timestamp t))]"
  by (rule ext) (simp add: tx_append_def struct_body_def numeral_2_eq_2)

lemma stx_append_body: "stx_append bo t = struct_body bo
    [append_value bo (tx_append bo (stx_transaction t)), append_value bo (hash_append bo (stx_hash t)),
     append_value bo (hash_append bo (stx_signature t))]"
  by (rule ext) (simp add: stx_append_def struct_body_def numeral_3_eq_3)

lemma proof_append_body: "proof_append bo p = struct_body bo
    [append_list bo (u8_append bo) (time_signature p), append_value bo (hash_append bo (block_signature p))]"
  by (rule ext) (simp add: proof_append_def struct_body_def numeral_2_eq_2)

lemma stream_rlp_body: "stream_rlp bo h = struct_body bo
    [append_value bo (hash_append bo (parent_hash h)), append_value bo (u64_append bo (h_timestamp h)),
     append_value bo (u64_append bo (h_height h)), append_value bo (hash_append bo (h_transactions_root h)),
     append_value bo (hash_append bo (h_state_root h)), append_value bo (hash_append bo (h_receipts_root h)),
     append_value bo (proof_append bo (h_proof h))]"
  by (rule ext) (simp add: stream_rlp_def struct_body_def eval_nat_numeral)

lemma rich_append_body: "rich_append bo h = struct_body bo
    [append_value bo (stream_rlp bo (rh_header h)), append_value bo (bool_append bo (rh_verified h))]"
  by (rule ext) (simp add: rich_append_def struct_body_def numeral_2_eq_2)

lemma body_append_body: "body_append bo b = struct_body bo
    [append_list bo (stx_append bo) (transactions b)]"
  by (rule ext) (simp add: body_append_def struct_body_def)

lemma address_append_body: "address_append bo a = struct_body bo
    [append_value bo (hash_append bo (ta_block_hash a)), append_value bo (usize_append bo (ta_index a))]"
  by (rule ext) (simp add: address_append_def struct_body_def numeral_2_eq_2)

lemma small_smallD: "small y \<Longrightarrow> length (rlp_enc y) < 2 ^ 32"
  by (simp add: small_def)

lemma hash_puts: "big_endian bo \<Longrightarrow> length h \<le> 256 \<Longrightarrow> puts bo (append_value bo (hash_append bo h)) (rlp_enc (RData h))"
  by (rule hash_rlp.puts_item[where n = "length h"]) simp

lemmas struct_emits = struct_emits_tree[OF _ _ _ small_smallD]

interpretation tx_rlp: rlp_codec bo "tx_append bo" tx_decode tx_item "good_tx bo" for bo
proof
  fix t assume g: "good_tx bo t"
  then show bo: "big_endian bo" by (simp add: good_tx_def)
  let ?ys = "[RList (map word_item (tx_data t)), word_item (tx_timestamp t)]"
  have s: "small (RList ?ys)" using g by (simp add: good_tx_def tx_item_def)
  then show "length (rlp_enc (tx_item t)) < 2 ^ 32" by (simp add: small_def tx_item_def)
  note sm = small_smallD[OF small_child[OF s, of "hd ?ys"]]
  show "emits bo (tx_append bo t) (rlp_enc (tx_item t))" unfolding tx_append_body tx_item_def
    by (rule struct_emits[OF bo _ _ s])
      (use u8_rlp.puts_items[OF bo] sm in \<open>simp_all add: bo u64_rlp.puts_item\<close>)
  note ok = small_list_ok[OF s]
  have p1: "parses (list_field u8_decode 0) ?ys (tx_data t)"
    by (rule u8_rlp.parses_list_field[where bo = bo, OF _ ok]) (use bo in simp_all)
  have p2: "parses (field word_decode 1) ?ys (tx_timestamp t)"
    by (rule u64_rlp.parses_field[where bo = bo, OF bo ok]) simp_all
  show "tx_decode (rlp_enc (tx_item t)) = Done t"
    unfolding tx_decode_def tx_item_def
    by (intro parses_new parses_then[OF p1] parses_then[OF p2]) (cases t, simp add: parses_return)
qed

lemma u64_as_u256: "uint_item (uint_from_u64 4 t) = word_item t"
  by (simp add: uint_item_def word_item_def uval_from_u64)

lemma clamp_u64_val: "clamp_u64 (uint_from_u64 4 t) = Some t"
proof -
  have "uint_cmp (uint_from_u64 4 t) (uint_from_u64 4 (- 1)) \<noteq> Greater"
    using word_n1_ge[of t] by (simp add: uint_cmp_val uval_from_u64 word_le_nat_alt)
  then show ?thesis by (simp add: clamp_u64_def as_u64_def uint_from_u64_def eval_nat_numeral)
qed

interpretation stx_rlp: rlp_codec bo "stx_append bo" stx_decode stx_item "good_stx bo" for bo
proof
  fix t assume g: "good_stx bo t"
  then show bo: "big_endian bo" by (simp add: good_stx_def)
  let ?ys = "[tx_item (stx_transaction t), RData (stx_hash t), RData (stx_signature t)]"
  have s: "small (RList ?ys)" using g by (simp add: good_stx_def stx_item_def)
  then show "length (rlp_enc (stx_item t)) < 2 ^ 32" by (simp add: small_def stx_item_def)
  have gt: "good_tx bo (stx_transaction t)" using bo small_child[OF s] by (simp add: good_tx_def)
  have l: "length (stx_hash t) = 32" "length (stx_signature t) = 65" using g by (simp_all add: good_stx_def)
  show "emits bo (stx_append bo t) (rlp_enc (stx_item t))" unfolding stx_append_body stx_item_def
    by (rule struct_emits[OF bo _ _ s]) (simp_all add: bo l tx_rlp.puts_item[OF gt] hash_puts)
  note ok = small_list_ok[OF s]
  have p: "parses (field tx_decode 0) ?ys (stx_transaction t)"
    "parses (field (hash_decode 32) 1) ?ys (stx_hash t)"
    "parses (field (hash_decode 65) 2) ?ys (stx_signature t)"
    by (rule tx_rlp.parses_field[OF gt ok] hash_rlp.parses_field[where bo = bo, OF _ ok]; simp add: bo l)+
  show "stx_decode (rlp_enc (stx_item t)) = Done t"
    unfolding stx_decode_def stx_item_def
    by (intro parses_new parses_then[OF p(1)] parses_then[OF p(2)] parses_then[OF p(3)]) (cases t, simp add: parses_return)
qed

interpretation proof_rlp: rlp_codec bo "proof_append bo" proof_decode proof_item "good_proof bo" for bo
proof
  fix t assume g: "good_proof bo t"
  then show bo: "big_endian bo" by (simp add: good_proof_def)
  let ?ys = "[RList (map word_item (time_signature t)), RData (block_signature t)]"
  have s: "small (RList ?ys)" using g by (simp add: good_proof_def proof_item_def)
  then show "length (rlp_enc (proof_item t)) < 2 ^ 32" by (simp add: small_def proof_item_def)
  have l: "length (block_signature t) = 65" using g by (simp add: good_proof_def)
  note sm = small_smallD[OF small_child[OF s, of "hd ?ys"]]
  show "emits bo (proof_append bo t) (rlp_enc (proof_item t))" unfolding proof_append_body proof_item_def
    by (rule struct_emits[OF bo _ _ s])
      (use u8_rlp.puts_items[OF bo] sm in \<open>simp_all add: bo l hash_puts\<close>)
  note ok = small_list_ok[OF s]
  have p: "parses (list_field u8_decode 0) ?ys (time_signature t)"
    "parses (field (hash_decode 65) 1) ?ys (block_signature t)"
    by (rule u8_rlp.parses_list_field[where bo = bo, OF _ ok] hash_rlp.parses_field[where bo = bo, OF _ ok]; simp add: bo l)+
  show "proof_decode (rlp_enc (proof_item t)) = Done t"
    unfolding proof_decode_def proof_item_def
    by (intro parses_new parses_then[OF p(1)] parses_then[OF p(2)]) (cases t, simp add: parses_return)
qed

lemma wf_header_emits:
  assumes "wf_header bo h"
  shows "emits bo (stream_rlp bo h) (rlp_enc (header_item h))" and "header_rlp bo h = Some (rlp_enc (header_item h))"
proof -
  let ?ys = "[RData (parent_hash h), word_item (h_timestamp h), word_item (h_height h),
     RData (h_transactions_root h), RData (h_state_root h), RData (h_receipts_root h), proof_item (h_proof h)]"
  have s: "small (RList ?ys)" and bo: "big_endian bo" using assms by (simp_all add: wf_header_def header_item_def)
  have gp: "good_proof bo (h_proof h)" using assms bo small_child[OF s] by (simp add: good_proof_def wf_header_def)
  have l: "length (parent_hash h) = 32" "length (h_transactions_root h) = 32" "length (h_state_root h) = 32"
    "length (h_receipts_root h) = 32" using assms by (simp_all add: wf_header_def)
  show "emits bo (stream_rlp bo h) (rlp_enc (header_item h))" unfolding stream_rlp_body header_item_def
    by (rule struct_emits[OF bo _ _ s])
      (simp_all add: bo l hash_puts u64_rlp.puts_item proof_rlp.puts_item[OF gp])
  show "header_rlp bo h = Some (rlp_enc (header_item h))" unfolding header_rlp_def stream_rlp_body header_item_def
    by (rule struct_out[OF bo _ _ small_smallD[OF s]])
      (simp_all add: bo l hash_puts u64_rlp.puts_item proof_rlp.puts_item[OF gp])
qed

lemma parses_case_Some: "v = Some x \<Longrightarrow> parses (f x) ys z \<Longrightarrow> parses (case v of None \<Rightarrow> g | Some x \<Rightarrow> f x) ys z"
  by simp

lemma header_decode_item:
  assumes "wf_header bo h"
  shows "header_decode sha3 (rlp_enc (header_item h)) = Done (h\<lparr>h_hash := Some (sha3 (rlp_enc (header_item h)))\<rparr>)"
proof -
  let ?ys = "[RData (parent_hash h), word_item (h_timestamp h), word_item (h_height h),
     RData (h_transactions_root h), RData (h_state_root h), RData (h_receipts_root h), proof_item (h_proof h)]"
  have s: "small (RList ?ys)" and bo: "big_endian bo" using assms by (simp_all add: wf_header_def header_item_def)
  note ok = small_list_ok[OF s]
  have gp: "good_proof bo (h_proof h)" using assms bo small_child[OF s] by (simp add: good_proof_def wf_header_def)
  have l: "length (parent_hash h) = 32" "length (h_transactions_root h) = 32" "length (h_state_root h) = 32"
    "length (h_receipts_root h) = 32" using assms by (simp_all add: wf_header_def)
  have p: "parses (field (hash_decode 32) 0) ?ys (parent_hash h)"
    "parses (field (uint_decode 4) 1) ?ys (uint_from_u64 4 (h_timestamp h))"
    "parses (field word_decode 2) ?ys (h_height h)"
    "parses (field (hash_decode 32) 3) ?ys (h_transactions_root h)"
    "parses (field (hash_decode 32) 4) ?ys (h_state_root h)"
    "parses (field (hash_decode 32) 5) ?ys (h_receipts_root h)"
    "parses (field proof_decode 6) ?ys (h_proof h)"
    by (rule hash_rlp.parses_field[where bo = bo, OF _ ok] uint_rlp.parses_field[where bo = bo, OF _ ok]
      u64_rlp.parses_field[where bo = bo, OF bo ok] proof_rlp.parses_field[OF gp ok]; simp add: bo l u64_as_u256)+
  show ?thesis
    unfolding header_decode_def header_item_def
    by (intro parses_new parses_then[OF p(1)] parses_then[OF p(2)] parses_case_Some[OF clamp_u64_val]
      parses_then[OF p(3)] parses_then[OF p(4)] parses_then[OF p(5)] parses_then[OF p(6)] parses_then[OF p(7)])
      (cases h, simp add: parses_return)
qed

interpretation header_rlp: rlp_codec bo "stream_rlp bo" "header_decode sha3" header_item "good_header sha3 bo" for bo sha3
proof
  fix h assume g: "good_header sha3 bo h"
  then have w: "wf_header bo h" and hh: "h_hash h = Some (sha3 (rlp_enc (header_item h)))"
    by (simp_all add: good_header_def)
  show "big_endian bo" "length (rlp_enc (header_item h)) < 2 ^ 32" using w by (simp_all add: wf_header_def small_def)
  show "emits bo (stream_rlp bo h) (rlp_enc (header_item h))" by (rule wf_header_emits[OF w])
  show "header_decode sha3 (rlp_enc (header_item h)) = Done h"
    unfolding header_decode_item[OF w] hh[symmetric] by simp
qed

interpretation rich_rlp: rlp_codec bo "rich_append bo" "rich_decode sha3" rich_item "good_rich sha3 bo" for bo sha3
proof
  fix t assume g: "good_rich sha3 bo t"
  then have gh: "good_header sha3 bo (rh_header t)" by (simp add: good_rich_def)
  then show bo: "big_endian bo" by (simp add: good_header_def wf_header_def)
  let ?ys = "[header_item (rh_header t), bool_item (rh_verified t)]"
  have s: "small (RList ?ys)" using g by (simp add: good_rich_def rich_item_def)
  then show "length (rlp_enc (rich_item t)) < 2 ^ 32" by (simp add: small_def rich_item_def)
  show "emits bo (rich_append bo t) (rlp_enc (rich_item t))" unfolding rich_append_body rich_item_def
    by (rule struct_emits[OF bo _ _ s]) (simp_all add: bo header_rlp.puts_item[OF gh] bool_rlp.puts_item)
  note ok = small_list_ok[OF s]
  have p: "parses (field (header_decode sha3) 0) ?ys (rh_header t)" "parses (field bool_decode 1) ?ys (rh_verified t)"
    by (rule header_rlp.parses_field[OF gh ok] bool_rlp.parses_field[where bo = bo, OF _ ok]; simp add: bo)+
  show "rich_decode sha3 (rlp_enc (rich_item t)) = Done t"
    unfolding rich_decode_def rich_item_def
    by (intro parses_new parses_then[OF p(1)] parses_then[OF p(2)]) (cases t, simp add: parses_return)
qed

interpretation body_rlp: rlp_codec bo "body_append bo" body_decode body_item "good_body bo" for bo
proof
  fix t assume g: "good_body bo t"
  then show bo: "big_endian bo" by (simp add: good_body_def)
  let ?ys = "[RList (map stx_item (transactions t))]"
  have s: "small (RList ?ys)" using g by (simp add: good_body_def body_item_def)
  then show "length (rlp_enc (body_item t)) < 2 ^ 32" by (simp add: small_def body_item_def)
  have gt: "\<forall>x \<in> set (transactions t). good_stx bo x" using g by (simp add: good_body_def)
  note sm = small_smallD[OF small_child[OF s, of "hd ?ys"]]
  show "emits bo (body_append bo t) (rlp_enc (body_item t))" unfolding body_append_body body_item_def
    by (rule struct_emits[OF bo _ _ s]) (use stx_rlp.puts_items[OF bo gt] sm in simp_all)
  have p: "parses (list_field stx_decode 0) ?ys (transactions t)"
    by (rule stx_rlp.parses_list_field[OF gt small_list_ok[OF s]]) simp_all
  show "body_decode (rlp_enc (body_item t)) = Done t"
    unfolding body_decode_def body_item_def
    by (intro parses_new parses_then[OF p]) (cases t, simp add: parses_return)
qed

interpretation address_rlp: rlp_codec bo "address_append bo" address_decode address_item "good_address bo" for bo
proof
  fix t assume g: "good_address bo t"
  then show bo: "big_endian bo" by (simp add: good_address_def)
  let ?ys = "[RData (ta_block_hash t), word_item (of_nat (ta_index t) :: u64)]"
  have s: "small (RList ?ys)" using g by (simp add: good_address_def address_item_def)
  then show "length (rlp_enc (address_item t)) < 2 ^ 32" by (simp add: small_def address_item_def)
  have l: "length (ta_block_hash t) = 32" "ta_index t < 2 ^ 64" using g by (simp_all add: good_address_def)
  show "emits bo (address_append bo t) (rlp_enc (address_item t))" unfolding address_append_body address_item_def
    by (rule struct_emits[OF bo _ _ s]) (use usize_rlp.puts_item[OF conjI[OF bo l(2)]] in \<open>simp_all add: bo l(1) hash_puts\<close>)
  note ok = small_list_ok[OF s]
  have p: "parses (field (hash_decode 32) 0) ?ys (ta_block_hash t)" "parses (field usize_decode 1) ?ys (ta_index t)"
    by (rule hash_rlp.parses_field[where bo = bo, OF _ ok] usize_rlp.parses_field[where bo = bo, OF _ ok];
      use l in \<open>simp add: bo\<close>)+
  show "address_decode (rlp_enc (address_item t)) = Done t"
    unfolding address_decode_def address_item_def
    by (intro parses_new parses_then[OF p(1)] parses_then[OF p(2)]) (cases t, simp add: parses_return)
qed

subsection \<open>Signing\<close>

lemma header_hash_cached: "header_hash sha3 bo h = Some (x, h') \<Longrightarrow> h' = h\<lparr>h_hash := Some x\<rparr>"
  by (cases "h_hash h") (auto simp: header_hash_def bind_eq_Some_conv)

lemma header_hash_again: "header_hash sha3 bo h = Some (x, h') \<Longrightarrow> header_hash sha3 bo h' = Some (x, h')"
  by (frule header_hash_cached) (simp add: header_hash_def)

lemma block_sign_parts:
  assumes "block_sign sha3 bo S sk b = Some b'"
  shows "\<exists>x sig. header_hash sha3 bo (b_header b) = Some (x, (b_header b)\<lparr>h_hash := Some x\<rparr>) \<and>
    crypto_sign S sk x = Inr sig \<and>
    b' = b\<lparr>b_header := (b_header b)\<lparr>h_hash := Some x, h_proof := (h_proof (b_header b))\<lparr>block_signature := sig\<rparr>\<rparr>\<rparr>"
proof -
  from assms obtain x hdr where x: "header_hash sha3 bo (b_header b) = Some (x, hdr)"
    by (auto simp: block_sign_def block_hash_def bind_eq_Some_conv)
  then obtain sig where s: "crypto_sign S sk x = Inr sig"
    using assms by (cases "crypto_sign S sk x") (simp_all add: block_sign_def block_hash_def)
  show ?thesis using header_hash_cached[OF x] x s assms by (simp add: block_sign_def block_hash_def)
qed

lemma signed_block_hash:
  assumes "block_sign sha3 bo S sk b = Some b'" and "header_hash sha3 bo (b_header b) = Some (x, hdr)"
  shows "block_hash sha3 bo b' = Some (x, b')"
proof -
  from block_sign_parts[OF assms(1)] assms(2) have "h_hash (b_header b') = Some x" by fastforce
  then show ?thesis by (simp add: block_hash_def header_hash_def)
qed

lemma sign_public_signed:
  assumes "secp_ok S" and "keypair_from_privkey S sk = Inr kp"
    and "header_hash sha3 bo (b_header b) = Some (x, hdr)" and "length x = 32"
    and "block_sign sha3 bo S sk b = Some b'"
  shows "sign_public sha3 bo S b' = Some (Inr (pubkey kp))"
proof -
  obtain sig where s: "crypto_sign S sk x = Inr sig"
    "b' = b\<lparr>b_header := (b_header b)\<lparr>h_hash := Some x, h_proof := (h_proof (b_header b))\<lparr>block_signature := sig\<rparr>\<rparr>\<rparr>"
    using block_sign_parts[OF assms(5)] assms(3) by fastforce
  from sign_recovers[OF assms(1,2,4) s(1)] have "crypto_recover S sig x = Inr (pubkey kp)" by blast
  then show ?thesis using signed_block_hash[OF assms(5,3)] s(2) by (simp add: sign_public_def)
qed

text \<open>The tree of a header determines its signature.\<close>

lemma header_item_signature:
  "header_item h = header_item h' \<Longrightarrow> block_signature (h_proof h) = block_signature (h_proof h')"
  by (simp add: header_item_def proof_item_def)

lemma header_bytes_inj:
  assumes "wf_header bo h" and "wf_header bo h'" and "rlp_enc (header_item h) = rlp_enc (header_item h')"
  shows "h\<lparr>h_hash := None\<rparr> = h'\<lparr>h_hash := None\<rparr>"
proof -
  have "header_decode (\<lambda>_. []) (rlp_enc (header_item h)) = header_decode (\<lambda>_. []) (rlp_enc (header_item h'))"
    using assms(3) by simp
  then have "h\<lparr>h_hash := Some []\<rparr> = h'\<lparr>h_hash := Some []\<rparr>"
    unfolding header_decode_item[OF assms(1)] header_decode_item[OF assms(2)] by simp
  then show ?thesis by (cases h, cases h') simp
qed

subsection \<open>Keys\<close>

lemma block_number_key_bytes: "block_number_key n = 1 # be_bytes 4 (unat n)"
proof -
  have "(ucast (drop_bit k n) :: u8) = of_nat (unat n div 2 ^ k mod 256)" for k
    by (rule word_unat_eq_iff[THEN iffD2]) (simp add: unsigned_ucast_eq unsigned_take_bit_eq take_bit_eq_mod unat_drop_bit_eq drop_bit_eq_div[where 'a = nat])
  from this[of 0] this[of 8] this[of 16] this[of 24]
  have "block_number_key n = [1, of_nat (unat n div 2 ^ 24 mod 256), of_nat (unat n div 2 ^ 16 mod 256),
      of_nat (unat n div 2 ^ 8 mod 256), of_nat (unat n mod 256)]"
    by (simp add: block_number_key_def)
  also have "\<dots> = 1 # be_bytes (Suc (Suc (Suc (Suc 0)))) (unat n)"
    by (simp add: div_mult2_eq[symmetric])
  finally show ?thesis by (simp add: eval_nat_numeral(3)[of num.One] numeral_eq_Suc del: be_bytes.simps)
qed

lemma block_number_key_val: "be_val (tl (block_number_key n)) = unat n mod 2 ^ 32"
  by (simp add: block_number_key_bytes)

lemma block_number_key_wraps: "block_number_key (n + 2 ^ 32) = block_number_key n"
proof -
  have "unat (n + 2 ^ 32) mod 2 ^ 32 = unat n mod 2 ^ 32"
    by (simp add: unat_word_ariths mod_mod_cancel)
  then have "be_val (tl (block_number_key (n + 2 ^ 32))) = be_val (tl (block_number_key n))"
    by (simp only: block_number_key_val)
  then have "be_bytes 4 (unat (n + 2 ^ 32)) = be_bytes 4 (unat n)"
    by (intro be_val_inj) (simp_all add: block_number_key_bytes)
  then show ?thesis by (simp add: block_number_key_bytes)
qed

subsection \<open>Properties\<close>

lemma codec_trip: "rlp_codec bo app dec item good \<Longrightarrow> good x \<Longrightarrow>
    encode bo (app x) = Some (rlp_enc (item x)) \<and> decode dec (rlp_enc (item x)) = Some x"
  using rlp_codec.encode_decode encode_emits[OF rlp_codec.app_emits] by fastforce

lemma header_trip:
  assumes "wf_header bo h"
  shows "encode bo (stream_rlp bo h) = Some (rlp_enc (header_item h)) \<and>
    decode (header_decode sha3) (rlp_enc (header_item h)) = Some (h\<lparr>h_hash := Some (sha3 (rlp_enc (header_item h)))\<rparr>)"
  using encode_emits[OF wf_header_emits(1)[OF assms]] header_decode_item[OF assms]
  by (simp add: decode_def rlp_as_val_def rlp_unwrap_def)

text \<open>
  C28. What the chain stores is read back: the bytes that the code writes for a header, a body and the
  address of a transaction decode to the value that was written, and the decoded header has the hash of
  those bytes in its cell, whatever its cell held before.
\<close>

theorem chain_types_roundtrip:
  assumes "wf_header bo h" and "good_body bo b" and "good_address bo a"
  shows "(\<exists>e. encode bo (stream_rlp bo h) = Some e \<and> header_rlp bo h = Some e \<and>
      decode (header_decode sha3) e = Some (h\<lparr>h_hash := Some (sha3 e)\<rparr>)) \<and>
    (\<exists>e. encode bo (body_append bo b) = Some e \<and> decode body_decode e = Some b) \<and>
    (\<exists>e. encode bo (address_append bo a) = Some e \<and> decode address_decode e = Some a)"
  using header_trip[OF assms(1)] wf_header_emits(2)[OF assms(1)] codec_trip[OF body_rlp.rlp_codec_axioms assms(2)]
    codec_trip[OF address_rlp.rlp_codec_axioms assms(3)] by blast

text \<open>A bound on the size of an encoding that is easy to compute.\<close>

fun isize :: "rlp \<Rightarrow> nat" where
  "isize (RData bs) = 9 + length bs"
| "isize (RList ys) = 9 + sum_list (map isize ys)"

lemma header_size: "n < 2 ^ 64 \<Longrightarrow> length (rlp_header b n) \<le> 9"
  by (simp add: rlp_header_def nbytes_le_iff)

lemma isize_bound: "isize y < 2 ^ 64 \<Longrightarrow> length (rlp_enc y) \<le> isize y"
proof (induction y)
  case (RData bs)
  then show ?case using header_size[of "length bs"] by (simp add: rlp_enc.simps data_bytes_def)
next
  case (RList ys)
  have "length (concat (map rlp_enc ys)) \<le> sum_list (map isize ys)"
    unfolding length_concat map_map comp_def
  proof (rule sum_list_mono)
    fix y assume y: "y \<in> set ys"
    then have "isize y \<le> sum_list (map isize ys)" by (intro member_le_sum_list) simp_all
    with RList.prems RList.IH[OF y] show "length (rlp_enc y) \<le> isize y" by simp
  qed
  moreover from this have "length (concat (map rlp_enc ys)) < 2 ^ 64" using RList.prems by simp
  ultimately show ?case using header_size[of "length (concat (map rlp_enc ys))" "0xc0"]
    by (simp add: rlp_enc.simps list_bytes_def)
qed

lemma small_isize: "isize y < 2 ^ 32 \<Longrightarrow> small y"
  using isize_bound[of y] by (simp add: small_def)

definition sample_stx :: signed_transaction where
  "sample_stx = \<lparr>stx_transaction = \<lparr>tx_data = [1, 200], tx_timestamp = 1000\<rparr>, stx_hash = replicate 32 7,
     stx_signature = replicate 65 9\<rparr>"

definition sample_address :: transaction_address where
  "sample_address = \<lparr>ta_block_hash = replicate 32 8, ta_index = 3\<rparr>"

lemma sample_header_wf: "wf_header byteorder_be (b_header (genesis 5))"
  unfolding wf_header_def
  by (intro conjI small_isize)
    (simp_all add: genesis_def block_default_def header_default_def proof_default_def hash_new_def
      SHA3_NULL_RLP_def header_item_def proof_item_def word_item_def nbytes.simps model_simps)

lemma sample_body_good: "good_body byteorder_be \<lparr>transactions = [sample_stx]\<rparr>"
  unfolding good_body_def good_stx_def
  by (intro conjI small_isize ballI)
    (simp_all add: sample_stx_def body_item_def stx_item_def tx_item_def word_item_def nbytes.simps)

lemma sample_address_good: "good_address byteorder_be sample_address"
  unfolding good_address_def
  by (intro conjI small_isize) (simp_all add: sample_address_def address_item_def word_item_def nbytes.simps)

theorem chain_types_roundtrip_witness:
  "\<exists>e. encode byteorder_be (body_append byteorder_be \<lparr>transactions = [sample_stx]\<rparr>) = Some e \<and>
    decode body_decode e = Some \<lparr>transactions = [sample_stx]\<rparr>"
  using chain_types_roundtrip[OF sample_header_wf sample_body_good sample_address_good] by blast

text \<open>
  A block that a key has signed is recovered as signed by that key: for a header of the right sizes whose
  hash is not yet in its cell, and a crate that keeps its contract, \<open>Block::sign\<close> returns a block with the
  hash of the unsigned header in the cell, and \<open>sign_public\<close> of it is the public key of the signer. Nothing
  in it depends on the body: the same holds with any other transactions in place of the block's own.
\<close>

theorem signed_block_public:
  assumes "secp_ok S" and "keypair_from_privkey S sk = Inr kp" and "wf_header bo (b_header b)"
    and "h_hash (b_header b) = None" and "\<And>e. length (sha3 e) = 32"
    and "crypto_sign S sk (sha3 (rlp_enc (header_item (b_header b)))) = Inr sig"
  shows "\<exists>b'. block_sign sha3 bo S sk b = Some b' \<and> sign_public sha3 bo S b' = Some (Inr (pubkey kp)) \<and>
    sign_public sha3 bo S (b'\<lparr>b_body := other\<rparr>) = Some (Inr (pubkey kp)) \<and>
    block_hash sha3 bo b' = Some (sha3 (rlp_enc (header_item (b_header b))), b') \<and> b_body b' = b_body b"
proof -
  let ?x = "sha3 (rlp_enc (header_item (b_header b)))"
  have h: "header_hash sha3 bo (b_header b) = Some (?x, (b_header b)\<lparr>h_hash := Some ?x\<rparr>)"
    using assms(4) wf_header_emits(2)[OF assms(3)] by (simp add: header_hash_def rlp_hash_def)
  obtain b' where b': "block_sign sha3 bo S sk b = Some b'"
    using h assms(6) by (auto simp: block_sign_def block_hash_def)
  have p: "sign_public sha3 bo S b' = Some (Inr (pubkey kp))"
    by (rule sign_public_signed[OF assms(1,2) h assms(5) b'])
  moreover have "sign_public sha3 bo S (b'\<lparr>b_body := other\<rparr>) = sign_public sha3 bo S b'"
    by (cases "header_hash sha3 bo (b_header b')") (auto simp: sign_public_def block_hash_def)
  moreover have "b_body b' = b_body b" using block_sign_parts[OF b'] by auto
  ultimately show ?thesis using b' signed_block_hash[OF b' h] by auto
qed

lemma unit_keypair:
  "keypair_from_privkey unit_secp (replicate 32 1) = Inr \<lparr>privkey = replicate 32 1, pubkey = replicate 64 2\<rparr>"
  by (simp add: keypair_from_privkey_def unit_secp_def)

lemma unit_sign: "crypto_sign unit_secp k m = Inr (replicate 64 3 @ [1])"
  by (simp add: crypto_sign_def unit_secp_def)

theorem signed_block_public_witness:
  "\<exists>b'. block_sign (\<lambda>_. replicate 32 7) byteorder_be unit_secp (replicate 32 1) (genesis 5) = Some b' \<and>
    sign_public (\<lambda>_. replicate 32 7) byteorder_be unit_secp b' = Some (Inr (replicate 64 2))"
proof -
  have "h_hash (b_header (genesis 5)) = None" by (simp add: genesis_def block_default_def header_default_def)
  from signed_block_public[OF unit_secp_ok unit_keypair sample_header_wf this _ unit_sign, of "\<lambda>_. replicate 32 7"]
  show ?thesis by auto
qed

text \<open>
  C27. The hash that a signed block carries is not the hash of the bytes that are stored for it: the cell holds
  the hash of the header before the signature was put in (\<open>e\<close>), while reading the stored bytes (\<open>e'\<close>) back gives a header
  whose hash is that of the bytes with the signature. When the signature is not the one the block had before and the hash
  function does not collide on these two encodings, the two hashes are different.
\<close>

theorem signed_hash_not_stored:
  assumes "wf_header bo (b_header b)" and "h_hash (b_header b) = None" and "block_sign sha3 bo S sk b = Some b'"
    and "wf_header bo (b_header b')"
    and "block_signature (h_proof (b_header b')) \<noteq> block_signature (h_proof (b_header b))"
    and "header_rlp bo (b_header b) = Some e" and "header_rlp bo (b_header b') = Some e'" and "inj_on sha3 {e, e'}"
  shows "\<exists>h'. block_hash sha3 bo b' = Some (sha3 e, b') \<and> decode (header_decode sha3) e' = Some h' \<and>
    header_hash sha3 bo h' = Some (sha3 e', h') \<and> sha3 e \<noteq> sha3 e'"
proof -
  have e: "e = rlp_enc (header_item (b_header b))" "e' = rlp_enc (header_item (b_header b'))"
    using assms(6,7) wf_header_emits(2)[OF assms(1)] wf_header_emits(2)[OF assms(4)] by simp_all
  have h: "header_hash sha3 bo (b_header b) = Some (sha3 e, (b_header b)\<lparr>h_hash := Some (sha3 e)\<rparr>)"
    using assms(2,6) by (simp add: header_hash_def rlp_hash_def)
  have "e \<noteq> e'"
  proof
    assume "e = e'"
    from header_bytes_inj[OF assms(1,4) this[unfolded e]] have "h_proof (b_header b) = h_proof (b_header b')"
      by (cases "b_header b", cases "b_header b'") simp
    then show False using assms(5) by simp
  qed
  then have "sha3 e \<noteq> sha3 e'" using assms(8) by (auto dest: inj_onD)
  then show ?thesis
    using signed_block_hash[OF assms(3) h] header_trip[OF assms(4), of sha3]
    by (auto simp: header_hash_def e(2))
qed

theorem signed_hash_not_stored_witness:
  "\<exists>b' e' h' x. block_sign rev byteorder_be unit_secp (replicate 32 1) (genesis 5) = Some b' \<and>
    header_rlp byteorder_be (b_header b') = Some e' \<and> decode (header_decode rev) e' = Some h' \<and>
    block_hash rev byteorder_be b' = Some (x, b') \<and> x \<noteq> rev e' \<and> header_hash rev byteorder_be h' = Some (rev e', h')"
proof -
  let ?g = "b_header (genesis 5)"
  have c: "h_hash ?g = None" by (simp add: genesis_def block_default_def header_default_def)
  obtain e where e: "header_rlp byteorder_be ?g = Some e" using wf_header_emits(2)[OF sample_header_wf] by blast
  define b' where "b' = (genesis 5)\<lparr>b_header := ?g\<lparr>h_hash := Some (rev e),
    h_proof := (h_proof ?g)\<lparr>block_signature := replicate 64 3 @ [1]\<rparr>\<rparr>\<rparr>"
  have s: "block_sign rev byteorder_be unit_secp (replicate 32 1) (genesis 5) = Some b'"
    using e c by (simp add: b'_def block_sign_def block_hash_def header_hash_def rlp_hash_def unit_sign)
  have w: "wf_header byteorder_be (b_header b')"
    unfolding wf_header_def
    by (intro conjI small_isize)
      (simp_all add: b'_def genesis_def block_default_def header_default_def proof_default_def hash_new_def
        SHA3_NULL_RLP_def header_item_def proof_item_def word_item_def nbytes.simps model_simps)
  have "block_signature (h_proof (b_header b')) ! 64 \<noteq> block_signature (h_proof ?g) ! 64"
    by (simp add: b'_def genesis_def block_default_def header_default_def proof_default_def hash_new_def nth_append)
  then have d: "block_signature (h_proof (b_header b')) \<noteq> block_signature (h_proof ?g)" by metis
  obtain e' where e': "header_rlp byteorder_be (b_header b') = Some e'" using wf_header_emits(2)[OF w] by blast
  have "inj_on rev {e, e'}" by (simp add: inj_on_def)
  from signed_hash_not_stored[OF sample_header_wf c s w d e e' this] s e' show ?thesis by blast
qed

text \<open>A proof made with a pairing key is accepted for the time, height and ancestor it was made for.\<close>

definition bls_ok :: "bls \<Rightarrow> bytes \<Rightarrow> bytes \<Rightarrow> bytes \<Rightarrow> bool" where
  "bls_ok P sk pk g \<longleftrightarrow> (\<forall>m. bls_verify P m (bls_sign P m sk) pk g)"

lemma gen_proof_verifies:
  "bls_ok P sk pk g \<Longrightarrow>
    verify_proof sha3 P (b_header (block_init height time parent txs (gen_proof sha3 P sk time height anc))) anc pk g"
  by (simp add: bls_ok_def verify_proof_def gen_proof_def block_init_def)

end
