(* ===== verification/HashCache.thy ===== *)
theory HashCache
  imports ChainTypes Containers
begin

section \<open>The window of recent blocks\<close>

text \<open>
  \<open>HashCache\<close> of \<open>chain/src/chain.rs\<close>: the last blocks of the best chain in order of height, with the height
  at which each of their transactions stands. \<open>VecDeque\<close> is a list, the map of hashes a partial function.
  \<open>None\<close> is a panic: \<open>best_height\<close> of an empty window, \<open>drain\<close> out of range.
\<close>

subsection \<open>Definitions\<close>

record block_info =
  bi_hash :: hash
  bi_height :: u64
  bi_timestamp :: u64
  bi_transactions :: "hash list"

record hash_cache =
  hc_total :: nat
  hc_queue :: "block_info list"
  hc_hashes :: "hash \<Rightarrow> u64 option"

definition hc_new :: "nat \<Rightarrow> hash_cache" where
  "hc_new t = \<lparr>hc_total = t, hc_queue = [], hc_hashes = (\<lambda>_. None)\<rparr>"

definition hc_get :: "hash_cache \<Rightarrow> nat \<Rightarrow> block_info option" where
  "hc_get c i = index (hc_queue c) i"

definition best_height :: "hash_cache \<Rightarrow> u64 option" where
  "best_height c = (if hc_queue c = [] then None else Some (bi_height (last (hc_queue c))))"

definition block_info_at :: "hash_cache \<Rightarrow> u64 \<Rightarrow> block_info option option" where
  "block_info_at c h = do {
     best \<leftarrow> best_height c;
     if h > best then Some None
     else do {
       d \<leftarrow> csub best h;
       let i = unat d;
       let len = length (hc_queue c);
       if i \<ge> len then Some None else Some (index (hc_queue c) (len - 1 - i)) } }"

definition remove_hashes :: "hash list \<Rightarrow> (hash \<Rightarrow> u64 option) \<Rightarrow> hash \<Rightarrow> u64 option" where
  "remove_hashes hs m = foldl (\<lambda>m h. m(h := None)) m hs"

definition insert_hashes :: "hash list \<Rightarrow> u64 \<Rightarrow> (hash \<Rightarrow> u64 option) \<Rightarrow> hash \<Rightarrow> u64 option" where
  "insert_hashes hs height m = foldl (\<lambda>m h. m(h \<mapsto> height)) m hs"

definition hc_pop_front :: "hash_cache \<Rightarrow> hash_cache" where
  "hc_pop_front c =
     (case hc_queue c of
        [] \<Rightarrow> c
      | b # q \<Rightarrow> c\<lparr>hc_queue := q, hc_hashes := remove_hashes (bi_transactions b) (hc_hashes c)\<rparr>)"

definition hc_push_front :: "block_info \<Rightarrow> hash_cache \<Rightarrow> hash_cache" where
  "hc_push_front b c =
     c\<lparr>hc_hashes := insert_hashes (bi_transactions b) (bi_height b) (hc_hashes c), hc_queue := b # hc_queue c\<rparr>"

definition hc_push_back :: "block_info \<Rightarrow> hash_cache \<Rightarrow> hash_cache" where
  "hc_push_back b c =
     c\<lparr>hc_hashes := insert_hashes (bi_transactions b) (bi_height b) (hc_hashes c), hc_queue := hc_queue c @ [b]\<rparr>"

definition hc_drop_back :: "nat \<Rightarrow> hash_cache \<Rightarrow> hash_cache option" where
  "hc_drop_back m c =
     (if m > length (hc_queue c) then None
      else Some (c\<lparr>hc_queue := take m (hc_queue c),
        hc_hashes := foldl (\<lambda>hs b. remove_hashes (bi_transactions b) hs) (hc_hashes c) (drop m (hc_queue c))\<rparr>))"

text \<open>\<open>VecDeque::swap_remove_back\<close>: the last element takes the place of the removed one.\<close>

definition swap_remove_back :: "'a list \<Rightarrow> nat \<Rightarrow> 'a option \<times> 'a list" where
  "swap_remove_back q i =
     (if i < length q then (Some (q ! i), butlast (q[i := last q])) else (None, q))"

definition hc_replace :: "nat \<Rightarrow> block_info \<Rightarrow> hash_cache \<Rightarrow> hash_cache" where
  "hc_replace i b c =
     (case swap_remove_back (hc_queue c @ [b]) i of
        (removed, q) \<Rightarrow>
          let hs = (case removed of Some old \<Rightarrow> remove_hashes (bi_transactions old) (hc_hashes c) | None \<Rightarrow> hc_hashes c) in
          c\<lparr>hc_queue := q, hc_hashes := insert_hashes (bi_transactions b) (bi_height b) hs\<rparr>)"

definition hc_contains :: "hash_cache \<Rightarrow> hash \<Rightarrow> u64 \<Rightarrow> u64 \<Rightarrow> bool" where
  "hc_contains c h left right =
     (case hc_hashes c h of Some height \<Rightarrow> height \<le> right \<and> height \<ge> left | None \<Rightarrow> False)"

subsection \<open>Lemmas\<close>

lemma remove_hashes_get [simp]: "remove_hashes hs m h = (if h \<in> set hs then None else m h)"
  unfolding remove_hashes_def by (induction hs arbitrary: m) auto

lemma insert_hashes_get [simp]: "insert_hashes hs n m h = (if h \<in> set hs then Some n else m h)"
  unfolding insert_hashes_def by (induction hs arbitrary: m) auto

lemma swap_remove_replaces: "i < length q \<Longrightarrow> swap_remove_back (q @ [b]) i = (Some (q ! i), q[i := b])"
  by (simp add: swap_remove_back_def nth_append list_update_append butlast_append)

lemma swap_remove_last: "swap_remove_back (q @ [b]) (length q) = (Some b, q)"
  by (simp add: swap_remove_back_def list_update_append)

lemma replace_queue [simp]: "i < length (hc_queue c) \<Longrightarrow> hc_queue (hc_replace i b c) = (hc_queue c)[i := b]"
  by (simp add: hc_replace_def swap_remove_replaces)

text \<open>
  The window is sound: a hash is known with a height only if a block of the window has it at that height. It is
  exact when no transaction stands in two places of it: then every transaction of every block is known.
\<close>

definition hc_sound :: "hash_cache \<Rightarrow> bool" where
  "hc_sound c \<longleftrightarrow> (\<forall>h n. hc_hashes c h = Some n \<longrightarrow> (\<exists>b \<in> set (hc_queue c). h \<in> set (bi_transactions b) \<and> bi_height b = n))"

definition window_txs :: "hash_cache \<Rightarrow> hash list" where
  "window_txs c = concat (map bi_transactions (hc_queue c))"

definition hc_exact :: "hash_cache \<Rightarrow> bool" where
  "hc_exact c \<longleftrightarrow> (\<forall>h n. hc_hashes c h = Some n \<longleftrightarrow> (\<exists>b \<in> set (hc_queue c). h \<in> set (bi_transactions b) \<and> bi_height b = n))"

lemma new_exact: "hc_exact (hc_new t)"
  by (simp add: hc_exact_def hc_new_def)

lemma push_back_exact:
  assumes "hc_exact c" and "set (bi_transactions b) \<inter> set (window_txs c) = {}"
  shows "hc_exact (hc_push_back b c)"
  using assms by (fastforce simp: hc_exact_def hc_push_back_def window_txs_def)

lemma push_front_exact:
  assumes "hc_exact c" and "set (bi_transactions b) \<inter> set (window_txs c) = {}"
  shows "hc_exact (hc_push_front b c)"
  using assms by (fastforce simp: hc_exact_def hc_push_front_def window_txs_def)

lemma pop_front_exact:
  assumes "hc_exact c" and "distinct (window_txs c)"
  shows "hc_exact (hc_pop_front c)"
proof (cases "hc_queue c")
  case Nil
  then show ?thesis using assms(1) by (simp add: hc_pop_front_def)
next
  case (Cons b q)
  then have "set (bi_transactions b) \<inter> set (concat (map bi_transactions q)) = {}"
    using assms(2) by (simp add: window_txs_def)
  then show ?thesis using assms(1) Cons by (fastforce simp: hc_exact_def hc_pop_front_def)
qed

lemma replace_exact:
  assumes "hc_exact c" and "distinct (window_txs c)" and "i < length (hc_queue c)"
    and "set (bi_transactions b) \<inter> set (concat (map bi_transactions (take i (hc_queue c) @ drop (Suc i) (hc_queue c)))) = {}"
  shows "hc_exact (hc_replace i b c)"
proof -
  define xs where "xs = take i (hc_queue c)"
  define ys where "ys = drop (Suc i) (hc_queue c)"
  have q: "hc_queue c = xs @ hc_queue c ! i # ys" and l: "length xs = i"
    using assms(3) by (simp_all add: xs_def ys_def id_take_nth_drop[symmetric])
  have q': "(hc_queue c)[i := b] = xs @ b # ys"
    using l by (subst q) (simp add: list_update_append)
  have d: "set (bi_transactions (hc_queue c ! i)) \<inter> set (concat (map bi_transactions (xs @ ys))) = {}"
    using assms(2) unfolding window_txs_def by (subst (asm) q) auto
  have s: "set (hc_queue c) = insert (hc_queue c ! i) (set (xs @ ys))" by (subst q) simp
  have b: "set (bi_transactions b) \<inter> set (concat (map bi_transactions (xs @ ys))) = {}"
    using assms(4) by (simp add: xs_def ys_def)
  show ?thesis
    using assms(1) d b unfolding hc_exact_def s replace_queue[OF assms(3)] q'
    by (simp add: hc_replace_def swap_remove_replaces[OF assms(3)] Let_def) fastforce
qed

end
