(* ===== verification/ChainDb.thy ===== *)
theory ChainDb
  imports KvStore
begin

section \<open>Cached tables and the cache manager\<close>

text \<open>
  \<open>chain/src/db.rs\<close>, \<open>cache_manager.rs\<close>, \<open>cache.rs\<close>. A table stores values of one type in a column of the
  key-value store, with a cache in front of it. Writing goes to a batch and to the cache, reading to the cache
  and then to the store. The key of a value, its encoding and its decoding (\<open>Key\<close>, \<open>Encodable\<close>,
  \<open>Decodable\<close>) are arguments. A cache is a map: the code never iterates over one.
\<close>

subsection \<open>Columns and policies\<close>

definition COL_STATE :: "u32 option" where
  "COL_STATE = Some 0"

definition COL_HEADERS :: "u32 option" where
  "COL_HEADERS = Some 1"

definition COL_BODIES :: "u32 option" where
  "COL_BODIES = Some 2"

definition COL_EXTRA :: "u32 option" where
  "COL_EXTRA = Some 3"

definition COL_TRACE :: "u32 option" where
  "COL_TRACE = Some 4"

definition COL_ACCOUNT_BLOOM :: "u32 option" where
  "COL_ACCOUNT_BLOOM = Some 5"

definition COL_NODE_INFO :: "u32 option" where
  "COL_NODE_INFO = Some 6"

definition COL_LIGHT_CHAIN :: "u32 option" where
  "COL_LIGHT_CHAIN = Some 7"

definition NUM_COLUMNS :: "u32 option" where
  "NUM_COLUMNS = Some 8"


datatype update_policy = Overwrite | Remove

type_synonym ('k, 'v) cache = "'k \<Rightarrow> 'v option"

subsection \<open>Writing\<close>

definition tr_write :: "('k \<Rightarrow> bytes) \<Rightarrow> ('v \<Rightarrow> bytes option) \<Rightarrow> u32 option \<Rightarrow> 'k \<Rightarrow> 'v \<Rightarrow> db_transaction \<Rightarrow> db_transaction option" where
  "tr_write key enc col k v tr = do { e \<leftarrow> enc v; Some (tr_put col (key k) e tr) }"

definition tr_delete_key :: "('k \<Rightarrow> bytes) \<Rightarrow> u32 option \<Rightarrow> 'k \<Rightarrow> db_transaction \<Rightarrow> db_transaction" where
  "tr_delete_key key col k tr = tr_delete col (key k) tr"

definition write_with_cache ::
    "('k \<Rightarrow> bytes) \<Rightarrow> ('v \<Rightarrow> bytes option) \<Rightarrow> u32 option \<Rightarrow> ('k, 'v) cache \<Rightarrow> 'k \<Rightarrow> 'v \<Rightarrow> update_policy \<Rightarrow>
      db_transaction \<Rightarrow> (db_transaction \<times> ('k, 'v) cache) option" where
  "write_with_cache key enc col cache k v policy tr = do {
     tr \<leftarrow> tr_write key enc col k v tr;
     Some (tr, case policy of Overwrite \<Rightarrow> cache(k \<mapsto> v) | Remove \<Rightarrow> cache(k := None)) }"

definition delete_with_cache ::
    "('k \<Rightarrow> bytes) \<Rightarrow> u32 option \<Rightarrow> ('k, 'v) cache \<Rightarrow> 'k \<Rightarrow> db_transaction \<Rightarrow> db_transaction \<times> ('k, 'v) cache" where
  "delete_with_cache key col cache k tr = (tr_delete_key key col k tr, cache(k := None))"

text \<open>The values of \<open>extend_with_cache\<close> are a \<open>HashMap\<close>, given in the order in which it is iterated.\<close>

fun extend_with_cache ::
    "('k \<Rightarrow> bytes) \<Rightarrow> ('v \<Rightarrow> bytes option) \<Rightarrow> u32 option \<Rightarrow> ('k, 'v) cache \<Rightarrow> ('k \<times> 'v) list \<Rightarrow> update_policy \<Rightarrow>
      db_transaction \<Rightarrow> (db_transaction \<times> ('k, 'v) cache) option" where
  "extend_with_cache key enc col cache [] policy tr = Some (tr, cache)"
| "extend_with_cache key enc col cache ((k, v) # values) policy tr = do {
     tr \<leftarrow> tr_write key enc col k v tr;
     extend_with_cache key enc col (case policy of Overwrite \<Rightarrow> cache(k \<mapsto> v) | Remove \<Rightarrow> cache(k := None)) values policy tr }"

fun extend_with_option_cache ::
    "('k \<Rightarrow> bytes) \<Rightarrow> ('v \<Rightarrow> bytes option) \<Rightarrow> u32 option \<Rightarrow> ('k, 'v option) cache \<Rightarrow> ('k \<times> 'v option) list \<Rightarrow> update_policy \<Rightarrow>
      db_transaction \<Rightarrow> (db_transaction \<times> ('k, 'v option) cache) option" where
  "extend_with_option_cache key enc col cache [] policy tr = Some (tr, cache)"
| "extend_with_option_cache key enc col cache ((k, v) # values) policy tr = do {
     tr \<leftarrow> (case v of Some x \<Rightarrow> tr_write key enc col k x tr | None \<Rightarrow> Some (tr_delete_key key col k tr));
     extend_with_option_cache key enc col (case policy of Overwrite \<Rightarrow> cache(k \<mapsto> v) | Remove \<Rightarrow> cache(k := None)) values policy tr }"

subsection \<open>Reading\<close>

text \<open>
  \<open>get\<close> is the store's \<open>get\<close>. An error of the store is a panic (\<open>None\<close>), and so is a value that does
  not decode.
\<close>

type_synonym getter = "u32 option \<Rightarrow> bytes \<Rightarrow> (string + bytes option) option"

definition db_read :: "('k \<Rightarrow> bytes) \<Rightarrow> (bytes \<Rightarrow> 'v option) \<Rightarrow> getter \<Rightarrow> u32 option \<Rightarrow> 'k \<Rightarrow> 'v option option" where
  "db_read key dec get col k = do {
     result \<leftarrow> get col (key k);
     case result of
       Inl _ \<Rightarrow> None
     | Inr None \<Rightarrow> Some None
     | Inr (Some v) \<Rightarrow> map_option Some (dec v) }"

definition read_with_cache ::
    "('k \<Rightarrow> bytes) \<Rightarrow> (bytes \<Rightarrow> 'v option) \<Rightarrow> getter \<Rightarrow> u32 option \<Rightarrow> ('k, 'v) cache \<Rightarrow> 'k \<Rightarrow>
      ('v option \<times> ('k, 'v) cache) option" where
  "read_with_cache key dec get col cache k =
     (case cache k of
        Some v \<Rightarrow> Some (Some v, cache)
      | None \<Rightarrow> do {
          r \<leftarrow> db_read key dec get col k;
          case r of
            Some v \<Rightarrow> Some (Some v, cache(k \<mapsto> v))
          | None \<Rightarrow> Some (None, cache) })"

definition db_exists :: "('k \<Rightarrow> bytes) \<Rightarrow> getter \<Rightarrow> u32 option \<Rightarrow> 'k \<Rightarrow> bool option" where
  "db_exists key get col k = do {
     result \<leftarrow> get col (key k);
     case result of Inl _ \<Rightarrow> None | Inr v \<Rightarrow> Some (v \<noteq> None) }"

definition exists_with_cache :: "('k \<Rightarrow> bytes) \<Rightarrow> getter \<Rightarrow> u32 option \<Rightarrow> ('k, 'v) cache \<Rightarrow> 'k \<Rightarrow> bool option" where
  "exists_with_cache key get col cache k = (if cache k \<noteq> None then Some True else db_exists key get col k)"

subsection \<open>A cached table\<close>

text \<open>What the users see of a table: the cached value, or the decoded stored one.\<close>

definition table_view :: "('k \<Rightarrow> bytes) \<Rightarrow> (bytes \<Rightarrow> 'v option) \<Rightarrow> u32 option \<Rightarrow> ('k, 'v) cache \<Rightarrow> store \<Rightarrow> 'k \<Rightarrow> 'v option" where
  "table_view key dec col cache st k = (case cache k of Some v \<Rightarrow> Some v | None \<Rightarrow> Option.bind (st col (key k)) dec)"


text \<open>
  What the users of a table rely on. The keys of \<open>K\<close> are told apart by their bytes, and a good value has
  an encoding, which decodes to a good value with the same encoding. It need not be the same value: a decoded
  header has a new hash in its cell (\<open>ChainTypes\<close>). A cache is coherent with a store when every
  cached value is good and the store holds its encoding.
\<close>

locale cached_table =
  fixes key :: "'k \<Rightarrow> bytes"
    and enc :: "'v \<Rightarrow> bytes option"
    and dec :: "bytes \<Rightarrow> 'v option"
    and col :: "u32 option"
    and good :: "'v \<Rightarrow> bool"
    and K :: "'k set"
  assumes key_inj: "inj_on key K"
    and enc_good: "good v \<Longrightarrow> \<exists>e. enc v = Some e"
    and dec_good: "good v \<Longrightarrow> enc v = Some e \<Longrightarrow> \<exists>v'. dec e = Some v' \<and> good v' \<and> enc v' = Some e"
begin

definition coherent :: "('k, 'v) cache \<Rightarrow> store \<Rightarrow> bool" where
  "coherent cache st \<longleftrightarrow> (\<forall>k v. cache k = Some v \<longrightarrow> k \<in> K \<and> good v \<and> enc v = st col (key k))"

definition stored_ok :: "store \<Rightarrow> bool" where
  "stored_ok st \<longleftrightarrow> (\<forall>k e. k \<in> K \<longrightarrow> st col (key k) = Some e \<longrightarrow> (\<exists>v. good v \<and> enc v = Some e))"

definition gets :: "getter \<Rightarrow> store \<Rightarrow> bool" where
  "gets get st \<longleftrightarrow> (\<forall>k. get col (key k) = Some (Inr (st col (key k))))"

lemma coherentD: "coherent cache st \<Longrightarrow> cache k = Some v \<Longrightarrow> k \<in> K \<and> good v \<and> enc v = st col (key k)"
  by (simp add: coherent_def)

lemma coherent_empty: "coherent (\<lambda>_. None) st"
  by (simp add: coherent_def)

text \<open>Reading gives a value with the stored encoding, or nothing when nothing is stored, and the cache stays coherent.\<close>

lemma read_ok:
  assumes "coherent cache st" and "stored_ok st" and "gets get st" and "k \<in> K"
  shows "\<exists>r cache'. read_with_cache key dec get col cache k = Some (r, cache') \<and> coherent cache' st \<and>
    Option.bind r enc = st col (key k) \<and> (\<forall>v. r = Some v \<longrightarrow> good v)"
proof (cases "cache k")
  case (Some v)
  then show ?thesis using coherentD[OF assms(1) Some] assms(1) by (simp add: read_with_cache_def)
next
  case None
  have g: "get col (key k) = Some (Inr (st col (key k)))" using assms(3) by (simp add: gets_def)
  show ?thesis
  proof (cases "st col (key k)")
    case None' : None
    then show ?thesis using None g assms(1) by (simp add: read_with_cache_def db_read_def)
  next
    case (Some e)
    then obtain v where v: "dec e = Some v" "good v" "enc v = Some e"
      using assms(2,4) dec_good unfolding stored_ok_def by blast
    then have "coherent (cache(k \<mapsto> v)) st" using assms(1,4) Some by (simp add: coherent_def)
    then show ?thesis using None g Some v by (simp add: read_with_cache_def db_read_def)
  qed
qed

lemma read_some:
  assumes "coherent cache st" and "stored_ok st" and "gets get st" and "k \<in> K"
    and "read_with_cache key dec get col cache k = Some (r, cache')"
  shows "coherent cache' st" and "r = None \<longleftrightarrow> st col (key k) = None"
    and "r = Some v \<Longrightarrow> good v \<and> enc v = st col (key k)"
  using read_ok[OF assms(1-4)] assms(5) enc_good by ((cases r; fastforce)+)

text \<open>
  While a batch is pending, the caches are coherent with the store that will be, and the store itself still has
  the old values; the two agree where nothing is cached.
\<close>

definition agrees :: "('k, 'v) cache \<Rightarrow> store \<Rightarrow> store \<Rightarrow> bool" where
  "agrees cache db st \<longleftrightarrow> (\<forall>k \<in> K. cache k = None \<longrightarrow> db col (key k) = st col (key k))"

lemma agrees_refl [simp]: "agrees cache st st"
  by (simp add: agrees_def)

lemma read_view:
  assumes "coherent cache st" and "stored_ok st" and "gets get db" and "agrees cache db st" and "k \<in> K"
  shows "\<exists>cache'. read_with_cache key dec get col cache k = Some (table_view key dec col cache st k, cache') \<and>
    coherent cache' st \<and> agrees cache' db st \<and> table_view key dec col cache' st = table_view key dec col cache st"
proof (cases "cache k")
  case (Some v)
  then show ?thesis using assms(1,4) by (simp add: read_with_cache_def table_view_def)
next
  case None
  have g: "get col (key k) = Some (Inr (st col (key k)))" using assms(3-5) None by (simp add: gets_def agrees_def)
  show ?thesis
  proof (cases "st col (key k)")
    case None' : None
    then show ?thesis using None g assms(1,4) by (simp add: read_with_cache_def db_read_def table_view_def)
  next
    case (Some e)
    then obtain v where v: "dec e = Some v" "good v" "enc v = Some e"
      using assms(2,5) dec_good unfolding stored_ok_def by blast
    have "table_view key dec col (cache(k \<mapsto> v)) st = table_view key dec col cache st"
      by (rule ext) (use None Some v(1) in \<open>simp add: table_view_def\<close>)
    moreover have "coherent (cache(k \<mapsto> v)) st" using assms(1,5) Some v by (simp add: coherent_def)
    moreover have "agrees (cache(k \<mapsto> v)) db st" using assms(4) by (simp add: agrees_def)
    ultimately show ?thesis using None g Some v by (simp add: read_with_cache_def db_read_def table_view_def)
  qed
qed

lemma agrees_put: "agrees cache db st \<Longrightarrow> k \<in> K \<Longrightarrow> agrees (cache(k \<mapsto> v)) db (st(col := (st col)(key k := x)))"
  using key_inj by (auto simp: agrees_def inj_on_def)

lemma frame_agrees: "agrees cache db st \<Longrightarrow> c \<noteq> col \<or> k \<notin> key ` K \<Longrightarrow> agrees cache db (st(c := (st c)(k := x)))"
  by (auto simp: agrees_def)

lemma view_good:
  assumes "coherent cache st" and "stored_ok st" and "k \<in> K" and "table_view key dec col cache st k = Some v"
  shows "good v" and "st col (key k) = enc v"
proof -
  have "good v \<and> st col (key k) = enc v"
  proof (cases "cache k")
    case (Some w)
    then show ?thesis using coherentD[OF assms(1) Some] assms(4) by (simp add: table_view_def)
  next
    case None
    then obtain e where e: "st col (key k) = Some e" "dec e = Some v"
      using assms(4) by (auto simp: table_view_def bind_eq_Some_conv)
    then show ?thesis using assms(2,3) dec_good unfolding stored_ok_def by (metis option.inject)
  qed
  then show "good v" "st col (key k) = enc v" by simp_all
qed

lemma view_None:
  assumes "coherent cache st" and "stored_ok st" and "k \<in> K"
  shows "table_view key dec col cache st k = None \<longleftrightarrow> st col (key k) = None"
proof (cases "table_view key dec col cache st k")
  case (Some v)
  from view_good[OF assms Some] enc_good[of v] show ?thesis using Some by auto
next
  case None
  then have "cache k = None" by (simp add: table_view_def split: option.splits)
  moreover have "dec e \<noteq> None" if "st col (key k) = Some e" for e
    using assms(2,3) that dec_good unfolding stored_ok_def by (metis option.distinct(1))
  ultimately show ?thesis using None by (cases "st col (key k)") (auto simp: table_view_def)
qed

lemma exists_agrees:
  assumes "coherent cache st" and "gets get st"
  shows "exists_with_cache key get col cache k = Some (st col (key k) \<noteq> None)"
proof (cases "cache k")
  case (Some v)
  then show ?thesis using coherentD[OF assms(1) Some] enc_good[of v] by (auto simp: exists_with_cache_def)
next
  case None
  then show ?thesis using assms(2) by (simp add: exists_with_cache_def db_exists_def gets_def)
qed

text \<open>Writing keeps the cache coherent with what the store will be once the batch is applied.\<close>

abbreviation after :: "store \<Rightarrow> db_transaction \<Rightarrow> store" where
  "after st tr \<equiv> foldl apply_op st (ops tr)"

lemma coherent_put:
  "coherent cache st \<Longrightarrow> k \<in> K \<Longrightarrow> good v \<Longrightarrow> enc v = Some e \<Longrightarrow>
    coherent (cache(k \<mapsto> v)) (st(col := (st col)(key k := Some e)))"
  using key_inj by (auto simp: coherent_def inj_on_def)

lemma coherent_forget:
  "coherent cache st \<Longrightarrow> k \<in> K \<Longrightarrow> coherent (cache(k := None)) (st(col := (st col)(key k := x)))"
  using key_inj by (auto simp: coherent_def inj_on_def)

lemma stored_put: "stored_ok st \<Longrightarrow> k \<in> K \<Longrightarrow> good v \<Longrightarrow> enc v = Some e \<Longrightarrow> stored_ok (st(col := (st col)(key k := Some e)))"
  using key_inj by (auto simp: stored_ok_def inj_on_def)

lemma stored_forget: "stored_ok st \<Longrightarrow> k \<in> K \<Longrightarrow> stored_ok (st(col := (st col)(key k := None)))"
  using key_inj by (auto simp: stored_ok_def inj_on_def)

lemma write_ok:
  assumes "coherent cache (after st tr)" and "k \<in> K" and "good v"
  shows "\<exists>e cache'. enc v = Some e \<and>
    write_with_cache key enc col cache k v policy tr = Some (tr_put col (key k) e tr, cache') \<and>
    coherent cache' (after st (tr_put col (key k) e tr)) \<and> (policy = Overwrite \<longrightarrow> cache' = cache(k \<mapsto> v))"
proof -
  obtain e where e: "enc v = Some e" using enc_good[OF assms(3)] by blast
  then show ?thesis
    using coherent_put[OF assms(1-3) e] coherent_forget[OF assms(1,2)]
    by (cases policy) (simp_all add: write_with_cache_def tr_write_def tr_put_def)
qed

lemma delete_ok:
  assumes "coherent cache (after st tr)" and "k \<in> K" and "delete_with_cache key col cache k tr = (tr', cache')"
  shows "coherent cache' (after st tr')" and "tr' = tr_delete col (key k) tr"
  using coherent_forget[OF assms(1,2)] assms(3) by (auto simp: delete_with_cache_def tr_delete_key_def tr_delete_def)

lemma extend_ok:
  "coherent cache (after st tr) \<Longrightarrow> \<forall>(k, v) \<in> set vs. k \<in> K \<and> good v \<Longrightarrow>
    \<exists>tr' cache'. extend_with_cache key enc col cache vs policy tr = Some (tr', cache') \<and>
      coherent cache' (after st tr')"
proof (induction vs arbitrary: cache tr)
  case (Cons kv vs)
  obtain k v where kv: "kv = (k, v)" by force
  then obtain e cache' where e: "enc v = Some e"
    "coherent (case policy of Overwrite \<Rightarrow> cache(k \<mapsto> v) | Remove \<Rightarrow> cache(k := None)) (after st (tr_put col (key k) e tr))"
    using write_ok[OF Cons.prems(1), of k v policy] Cons.prems(2) by (auto simp: write_with_cache_def tr_write_def)
  from Cons.IH[OF e(2)] Cons.prems(2) show ?case by (simp add: kv tr_write_def e(1))
qed simp

text \<open>The cache of \<open>extend_with_option_cache\<close> also remembers that a key has no value.\<close>

definition opt_coherent :: "('k, 'v option) cache \<Rightarrow> store \<Rightarrow> bool" where
  "opt_coherent cache st \<longleftrightarrow> (\<forall>k v. cache k = Some v \<longrightarrow>
     k \<in> K \<and> (\<forall>x. v = Some x \<longrightarrow> good x) \<and> Option.bind v enc = st col (key k))"

lemma extend_option_ok:
  "opt_coherent cache (after st tr) \<Longrightarrow> \<forall>(k, v) \<in> set vs. k \<in> K \<and> (\<forall>x. v = Some x \<longrightarrow> good x) \<Longrightarrow>
    \<exists>tr' cache'. extend_with_option_cache key enc col cache vs policy tr = Some (tr', cache') \<and>
      opt_coherent cache' (after st tr')"
proof (induction vs arbitrary: cache tr)
  case (Cons kv vs)
  obtain k v where kv: "kv = (k, v)" by force
  then have k: "k \<in> K" "\<forall>x. v = Some x \<longrightarrow> good x" using Cons.prems(2) by auto
  let ?c = "case policy of Overwrite \<Rightarrow> cache(k \<mapsto> v) | Remove \<Rightarrow> cache(k := None)"
  obtain tr' where tr': "(case v of Some x \<Rightarrow> tr_write key enc col k x tr | None \<Rightarrow> Some (tr_delete_key key col k tr)) = Some tr'"
    "after st tr' = (after st tr)(col := (after st tr col)(key k := Option.bind v enc))"
    using k(2) enc_good by (cases v) (fastforce simp: tr_write_def tr_delete_key_def tr_put_def tr_delete_def)+
  have "opt_coherent ?c (after st tr')"
    using Cons.prems(1) k key_inj unfolding tr'(2) opt_coherent_def by (cases policy) (auto simp: inj_on_def)
  then show ?case using Cons.IH[of ?c tr'] Cons.prems(2) by (simp add: kv tr'(1))
qed simp

text \<open>A write to another column, or to a key that is not one of the table, does not disturb it.\<close>

lemma frame_coherent: "coherent cache st \<Longrightarrow> c \<noteq> col \<or> k \<notin> key ` K \<Longrightarrow> coherent cache (st(c := (st c)(k := x)))"
  by (auto simp: coherent_def)

lemma frame_stored: "stored_ok st \<Longrightarrow> c \<noteq> col \<or> k \<notin> key ` K \<Longrightarrow> stored_ok (st(c := (st c)(k := x)))"
  by (auto simp: stored_ok_def)

end

end
