(* ===== verification/CacheManager.thy ===== *)
theory CacheManager
  imports Containers
begin

section \<open>The cache manager\<close>

text \<open>
  \<open>chain/src/cache_manager.rs\<close> and \<open>cache.rs\<close>. The ids of cached values are kept in eight sets, from the
  most to the least recently used. The owner of the caches is a callback with its own state: it gets the
  ids to drop and returns the new size.
\<close>

subsection \<open>Definitions\<close>

definition COLLECTION_QUEUE_SIZE :: nat where
  "COLLECTION_QUEUE_SIZE = 8"

record 'a cache_manager =
  pref_cache_size :: nat
  max_cache_size :: nat
  bytes_per_cache_entry :: nat
  cache_usage :: "'a set list"

definition cache_manager_new :: "nat \<Rightarrow> nat \<Rightarrow> nat \<Rightarrow> 'a cache_manager" where
  "cache_manager_new pref mx entry =
     \<lparr>pref_cache_size = pref, max_cache_size = mx, bytes_per_cache_entry = entry,
      cache_usage = map (\<lambda>_. {}) [0..<COLLECTION_QUEUE_SIZE]\<rparr>"

text \<open>\<open>find\<close> gives the first set with the id, which then loses it.\<close>

fun remove_first :: "'a \<Rightarrow> 'a set list \<Rightarrow> 'a set list" where
  "remove_first x [] = []"
| "remove_first x (e # es) = (if x \<in> e then (e - {x}) # es else e # remove_first x es)"

definition note_used :: "'a \<Rightarrow> 'a cache_manager \<Rightarrow> 'a cache_manager option" where
  "note_used x m =
     (case cache_usage m of
        [] \<Rightarrow> None
      | e # es \<Rightarrow> Some (if x \<in> e then m else m\<lparr>cache_usage := insert x e # remove_first x es\<rparr>))"

definition rotate_cache_if_needed :: "'a cache_manager \<Rightarrow> 'a cache_manager option" where
  "rotate_cache_if_needed m =
     (if cache_usage m = [] then Some m
      else if 2 ^ 64 \<le> card (hd (cache_usage m)) * bytes_per_cache_entry m then None
      else if card (hd (cache_usage m)) * bytes_per_cache_entry m > pref_cache_size m div COLLECTION_QUEUE_SIZE
      then Some (m\<lparr>cache_usage := last (cache_usage m) # butlast (cache_usage m)\<rparr>)
      else Some m)"

fun collect_loop :: "nat \<Rightarrow> ('a set \<Rightarrow> 's \<Rightarrow> nat \<times> 's) \<Rightarrow> 'a cache_manager \<Rightarrow> 's \<Rightarrow> 'a cache_manager \<times> 's" where
  "collect_loop 0 notify_unused m s = (m, s)"
| "collect_loop (Suc n) notify_unused m s =
     (if cache_usage m = [] then collect_loop n notify_unused m s
      else case notify_unused (last (cache_usage m)) s of
        (current_size, s') \<Rightarrow>
          let m' = m\<lparr>cache_usage := {} # butlast (cache_usage m)\<rparr> in
          if current_size < max_cache_size m then (m', s') else collect_loop n notify_unused m' s')"

definition collect_garbage ::
    "nat \<Rightarrow> ('a set \<Rightarrow> 's \<Rightarrow> nat \<times> 's) \<Rightarrow> 'a cache_manager \<Rightarrow> 's \<Rightarrow> ('a cache_manager \<times> 's) option" where
  "collect_garbage current_size notify_unused m s =
     (if current_size < pref_cache_size m then map_option (\<lambda>m. (m, s)) (rotate_cache_if_needed m)
      else Some (collect_loop COLLECTION_QUEUE_SIZE notify_unused m s))"

record cache_size =
  cs_blocks :: nat
  cs_transaction_addresses :: nat

definition cache_size_total :: "cache_size \<Rightarrow> nat option" where
  "cache_size_total c = usize_add (cs_blocks c) (cs_transaction_addresses c)"

subsection \<open>The invariant\<close>

text \<open>There are eight finite sets, and no id is in two of them.\<close>

definition usage_ok :: "'a set list \<Rightarrow> bool" where
  "usage_ok es \<longleftrightarrow> (\<forall>e \<in> set es. finite e) \<and> (\<forall>i < length es. \<forall>j < length es. i \<noteq> j \<longrightarrow> es ! i \<inter> es ! j = {})"

definition manager_ok :: "'a cache_manager \<Rightarrow> bool" where
  "manager_ok m \<longleftrightarrow> length (cache_usage m) = COLLECTION_QUEUE_SIZE \<and> usage_ok (cache_usage m)"

definition tracked :: "'a cache_manager \<Rightarrow> 'a set" where
  "tracked m = \<Union> (set (cache_usage m))"

lemma disjoint_nth: "e \<inter> \<Union> (set es) = {} \<Longrightarrow> i < length es \<Longrightarrow> e \<inter> es ! i = {}"
  using nth_mem by blast

lemma usage_ok_Cons: "usage_ok (e # es) \<longleftrightarrow> finite e \<and> e \<inter> \<Union> (set es) = {} \<and> usage_ok es"
proof
  assume u: "usage_ok (e # es)"
  have "e \<inter> x = {}" if "x \<in> set es" for x
  proof -
    from that obtain j where "j < length es" "x = es ! j" by (auto simp: in_set_conv_nth)
    then show ?thesis using u[unfolded usage_ok_def, THEN conjunct2, rule_format, of 0 "Suc j"] by simp
  qed
  moreover have "usage_ok es"
    unfolding usage_ok_def
  proof (intro conjI allI impI)
    fix i j assume "i < length es" "j < length es" "i \<noteq> j"
    then show "es ! i \<inter> es ! j = {}" using u[unfolded usage_ok_def, THEN conjunct2, rule_format, of "Suc i" "Suc j"] by simp
  qed (use u in \<open>simp add: usage_ok_def\<close>)
  ultimately show "finite e \<and> e \<inter> \<Union> (set es) = {} \<and> usage_ok es" using u by (auto simp: usage_ok_def)
next
  assume a: "finite e \<and> e \<inter> \<Union> (set es) = {} \<and> usage_ok es"
  have "(e # es) ! i \<inter> (e # es) ! j = {}"
    if "i < length (e # es)" "j < length (e # es)" "i \<noteq> j" for i j
    using that a disjoint_nth[of e es] by (cases i; cases j) (auto simp: usage_ok_def)
  then show "usage_ok (e # es)" using a by (simp add: usage_ok_def)
qed

lemma usage_ok_Nil [simp]: "usage_ok []"
  by (simp add: usage_ok_def)

lemma usage_ok_append:
  "usage_ok (es @ fs) \<longleftrightarrow> usage_ok es \<and> usage_ok fs \<and> \<Union> (set es) \<inter> \<Union> (set fs) = {}"
  by (induction es) (auto simp: usage_ok_Cons)

lemma remove_first_union: "usage_ok es \<Longrightarrow> \<Union> (set (remove_first x es)) = \<Union> (set es) - {x}"
  by (induction es) (auto simp: usage_ok_Cons)

lemma remove_first_ok: "usage_ok es \<Longrightarrow> usage_ok (remove_first x es)"
proof (induction es)
  case (Cons e es)
  then show ?case using remove_first_union[of es x] by (auto simp: usage_ok_Cons)
qed simp

lemma remove_first_length [simp]: "length (remove_first x es) = length es"
  by (induction es) simp_all

lemma cache_manager_new_ok: "manager_ok (cache_manager_new p x e)" and cache_manager_new_tracked: "tracked (cache_manager_new p x e) = {}"
  by (auto simp: manager_ok_def cache_manager_new_def usage_ok_def tracked_def)

lemma manager_Cons:
  assumes "manager_ok m"
  obtains e es where "cache_usage m = e # es" and "finite e" and "e \<inter> \<Union> (set es) = {}" and "usage_ok es"
    and "Suc (length es) = COLLECTION_QUEUE_SIZE"
  using assms by (cases "cache_usage m") (auto simp: manager_ok_def usage_ok_Cons COLLECTION_QUEUE_SIZE_def)

lemma manager_snoc:
  assumes "manager_ok m"
  obtains e es where "cache_usage m = es @ [e]" and "finite e" and "e \<inter> \<Union> (set es) = {}" and "usage_ok es"
    and "Suc (length es) = COLLECTION_QUEUE_SIZE"
  using assms
  by (cases "cache_usage m" rule: rev_cases)
    (auto simp: manager_ok_def usage_ok_append usage_ok_Cons COLLECTION_QUEUE_SIZE_def)

text \<open>An id that is used moves to the front set, and nothing else changes.\<close>

lemma note_used_ok:
  assumes "manager_ok m"
  shows "\<exists>m'. note_used x m = Some m' \<and> manager_ok m' \<and> tracked m' = insert x (tracked m) \<and>
    hd (cache_usage m') = insert x (hd (cache_usage m)) \<and>
    (\<forall>i < COLLECTION_QUEUE_SIZE. 0 < i \<longrightarrow> cache_usage m' ! i = cache_usage m ! i - {x})"
proof -
  obtain e es where m: "cache_usage m = e # es" "finite e" "e \<inter> \<Union> (set es) = {}" "usage_ok es"
    "Suc (length es) = COLLECTION_QUEUE_SIZE" by (rule manager_Cons[OF assms])
  have nth: "remove_first x es ! i = es ! i - {x}" if "i < length es" for i
    using that m(4)
  proof (induction es arbitrary: i)
    case (Cons e es)
    show ?case
    proof (cases i)
      case 0
      then show ?thesis by simp
    next
      case (Suc j)
      then have j: "j < length es" using Cons.prems(1) by simp
      then have "x \<in> e \<Longrightarrow> x \<notin> es ! j" using Cons.prems(2) disjoint_nth[OF _ j, of e] by (auto simp: usage_ok_Cons)
      then show ?thesis using Suc Cons.IH[OF j] Cons.prems(2) by (auto simp: usage_ok_Cons)
    qed
  qed simp
  show ?thesis
  proof (cases "x \<in> e")
    case True
    then have "x \<notin> es ! i" if "i < length es" for i using disjoint_nth[OF m(3) that] by auto
    then have "es ! i - {x} = es ! i" if "i < length es" for i using that by simp
    moreover have "tracked m = insert x (tracked m)" using True m(1) by (auto simp: tracked_def)
    ultimately show ?thesis using True m assms by (auto simp: note_used_def nth_Cons' insert_absorb)
  next
    case False
    then show ?thesis
      using m remove_first_ok[OF m(4), of x] remove_first_union[OF m(4), of x] nth
      by (auto simp: note_used_def manager_ok_def usage_ok_Cons tracked_def nth_Cons')
  qed
qed

text \<open>Rotation keeps every id, and makes those of the last set the most recent.\<close>

lemma rotate_ok:
  assumes "manager_ok m" and "rotate_cache_if_needed m = Some m'"
  shows "manager_ok m'" and "tracked m' = tracked m"
    and "cache_usage m' = cache_usage m \<or> cache_usage m' = last (cache_usage m) # butlast (cache_usage m)"
proof -
  obtain e es where m: "cache_usage m = es @ [e]" "finite e" "e \<inter> \<Union> (set es) = {}" "usage_ok es"
    "Suc (length es) = COLLECTION_QUEUE_SIZE" by (rule manager_snoc[OF assms(1)])
  show "manager_ok m'" "tracked m' = tracked m"
    "cache_usage m' = cache_usage m \<or> cache_usage m' = last (cache_usage m) # butlast (cache_usage m)"
    using assms m by (auto simp: rotate_cache_if_needed_def manager_ok_def usage_ok_Cons tracked_def split: if_splits)
qed

text \<open>
  The loop hands out the last \<open>k\<close> sets, the last one first, where \<open>k\<close> is where the owner reports a size
  below the maximum; the other sets keep their order.
\<close>

definition report :: "('a set \<Rightarrow> 's \<Rightarrow> nat \<times> 's) \<Rightarrow> 'a set list \<Rightarrow> 's \<Rightarrow> 's" where
  "report notify es s = foldl (\<lambda>s e. snd (notify e s)) s es"

lemma report_simps [simp]: "report f [] s = s" "report f (e # es) s = report f es (snd (f e s))"
  by (simp_all add: report_def)

lemma collect_loop_spec:
  assumes "n \<le> length (cache_usage m)" and "collect_loop n f m s = (m', s')"
  shows "\<exists>k \<le> n. m' = m\<lparr>cache_usage := replicate k {} @ take (length (cache_usage m) - k) (cache_usage m)\<rparr> \<and>
      s' = report f (take k (rev (cache_usage m))) s \<and>
      (k < n \<longrightarrow> 0 < k \<and> fst (f (rev (cache_usage m) ! (k - 1)) (report f (take (k - 1) (rev (cache_usage m))) s)) < max_cache_size m)"
  using assms
proof (induction n arbitrary: m s)
  case 0
  then show ?case by simp
next
  case (Suc n)
  let ?u = "cache_usage m" and ?m = "m\<lparr>cache_usage := {} # butlast (cache_usage m)\<rparr>"
  have ne: "?u \<noteq> []" using Suc.prems(1) by auto
  then obtain es e where u: "?u = es @ [e]" by (metis append_butlast_last_id)
  obtain c s1 where c: "f (last ?u) s = (c, s1)" by force
  show ?case
  proof (cases "c < max_cache_size m")
    case True
    then have "m' = ?m" "s' = s1" using Suc.prems(2) ne c by (simp_all add: Let_def)
    then show ?thesis using True c u by (intro exI[of _ 1]) (auto simp: butlast_append)
  next
    case False
    then have cl: "collect_loop n f ?m s1 = (m', s')" using Suc.prems(2) ne c by (simp add: Let_def)
    have v: "cache_usage ?m = {} # es" using u by simp
    have "n \<le> length (cache_usage ?m)" using Suc.prems(1) u by simp
    from Suc.IH[OF this cl] obtain k where k: "k \<le> n"
      "m' = ?m\<lparr>cache_usage := replicate k {} @ take (length ({} # es) - k) ({} # es)\<rparr>"
      "s' = report f (take k (rev ({} # es))) s1"
      "k < n \<longrightarrow> 0 < k \<and> fst (f (rev ({} # es) ! (k - 1)) (report f (take (k - 1) (rev ({} # es))) s1)) < max_cache_size m"
      unfolding v by auto
    have kl: "k \<le> length es" using k(1) Suc.prems(1) u by simp
    have "replicate k {} @ take (length ({} # es) - k) ({} # es) = replicate (Suc k) {} @ take (length ?u - Suc k) ?u"
      using kl u by (simp add: Suc_diff_le replicate_append_same)
    moreover have "rev ({} # es) ! (k - 1) = rev ?u ! k" if "0 < k"
      using that kl u by (cases k) (simp_all add: nth_append)
    moreover have "take j (rev ({} # es)) = take j (rev es)" if "j \<le> k" for j
      using that kl by simp
    ultimately show ?thesis
      using k c u by (intro exI[of _ "Suc k"]) (cases k; auto)
  qed
qed

lemma union_take_drop: "usage_ok es \<Longrightarrow> \<Union> (set (take n es)) = \<Union> (set es) - \<Union> (set (drop n es))"
proof -
  assume "usage_ok es"
  then have "usage_ok (take n es @ drop n es)" by simp
  then have "\<Union> (set (take n es)) \<inter> \<Union> (set (drop n es)) = {}" unfolding usage_ok_append by blast
  moreover have "\<Union> (set es) = \<Union> (set (take n es)) \<union> \<Union> (set (drop n es))"
    by (metis Union_Un_distrib append_take_drop_id set_append)
  ultimately show ?thesis by blast
qed

lemma usage_ok_empties [simp]: "usage_ok (replicate k {} @ es) \<longleftrightarrow> usage_ok es"
  by (induction k) (auto simp: usage_ok_Cons)

lemma take_last: "0 < k \<Longrightarrow> k \<le> length xs \<Longrightarrow>
    last (take k xs) = xs ! (k - 1) \<and> butlast (take k xs) = take (k - 1) xs \<and> take k xs \<noteq> []"
  by (cases xs) (auto simp: last_conv_nth butlast_take)

lemma collected_ok:
  assumes "manager_ok m" and "k \<le> COLLECTION_QUEUE_SIZE"
    and "m' = m\<lparr>cache_usage := replicate k {} @ take (length (cache_usage m) - k) (cache_usage m)\<rparr>"
  shows "manager_ok m'" and "tracked m' = tracked m - \<Union> (set (take k (rev (cache_usage m))))"
proof -
  have u: "usage_ok (cache_usage m)" and l: "length (cache_usage m) = COLLECTION_QUEUE_SIZE"
    using assms(1) by (simp_all add: manager_ok_def)
  have "usage_ok (take n (cache_usage m))" for n
    using u usage_ok_append[of "take n (cache_usage m)" "drop n (cache_usage m)"] by simp
  then show "manager_ok m'" using assms(2,3) l by (simp add: manager_ok_def)
  show "tracked m' = tracked m - \<Union> (set (take k (rev (cache_usage m))))"
    using union_take_drop[OF u, of "length (cache_usage m) - k"] assms(3)
    by (auto simp: tracked_def take_rev)
qed

text \<open>
  C29. The manager keeps every id in at most one of its eight sets. \<open>note_used\<close> never fails, tracks the id and moves it
  to the front. \<open>collect_garbage\<close> drops nothing while the size is below the preferred one; otherwise it hands
  the owner whole sets from the least recently used on, forgets exactly the ids handed out, and only stops
  before all eight when the owner reports a size below the maximum.
\<close>

theorem cache_manager_spec:
  assumes "manager_ok m"
  shows "(\<exists>m'. note_used x m = Some m' \<and> manager_ok m' \<and> tracked m' = insert x (tracked m) \<and>
      hd (cache_usage m') = insert x (hd (cache_usage m))) \<and>
    (\<forall>size f s m' s'. collect_garbage size f m s = Some (m', s') \<longrightarrow> manager_ok m' \<and>
      (if size < pref_cache_size m then s' = s \<and> tracked m' = tracked m
       else \<exists>k \<le> COLLECTION_QUEUE_SIZE. let drops = take k (rev (cache_usage m)) in
         s' = report f drops s \<and> tracked m' = tracked m - \<Union> (set drops) \<and>
         (k < COLLECTION_QUEUE_SIZE \<longrightarrow> drops \<noteq> [] \<and> fst (f (last drops) (report f (butlast drops) s)) < max_cache_size m)))"
proof (intro conjI allI impI)
  show "\<exists>m'. note_used x m = Some m' \<and> manager_ok m' \<and> tracked m' = insert x (tracked m) \<and>
      hd (cache_usage m') = insert x (hd (cache_usage m))"
    using note_used_ok[OF assms] by blast
next
  fix size f s m' s' assume c: "collect_garbage size f m s = Some (m', s')"
  have l: "length (cache_usage m) = COLLECTION_QUEUE_SIZE" using assms by (simp add: manager_ok_def)
  show "manager_ok m'"
  proof (cases "size < pref_cache_size m")
    case True
    then show ?thesis using c rotate_ok[OF assms] by (auto simp: collect_garbage_def)
  next
    case False
    then have "collect_loop COLLECTION_QUEUE_SIZE f m s = (m', s')" using c by (simp add: collect_garbage_def)
    from collect_loop_spec[OF _ this] l collected_ok(1)[OF assms] show ?thesis by auto
  qed
  show "if size < pref_cache_size m then s' = s \<and> tracked m' = tracked m
       else \<exists>k \<le> COLLECTION_QUEUE_SIZE. let drops = take k (rev (cache_usage m)) in
         s' = report f drops s \<and> tracked m' = tracked m - \<Union> (set drops) \<and>
         (k < COLLECTION_QUEUE_SIZE \<longrightarrow> drops \<noteq> [] \<and> fst (f (last drops) (report f (butlast drops) s)) < max_cache_size m)"
  proof (cases "size < pref_cache_size m")
    case True
    then show ?thesis using c rotate_ok[OF assms] by (auto simp: collect_garbage_def)
  next
    case False
    then have "collect_loop COLLECTION_QUEUE_SIZE f m s = (m', s')" using c by (simp add: collect_garbage_def)
    from collect_loop_spec[OF _ this] l obtain k where k: "k \<le> COLLECTION_QUEUE_SIZE"
      "m' = m\<lparr>cache_usage := replicate k {} @ take (length (cache_usage m) - k) (cache_usage m)\<rparr>"
      "s' = report f (take k (rev (cache_usage m))) s"
      "k < COLLECTION_QUEUE_SIZE \<longrightarrow> 0 < k \<and>
        fst (f (rev (cache_usage m) ! (k - 1)) (report f (take (k - 1) (rev (cache_usage m))) s)) < max_cache_size m"
      by auto
    have "0 < k \<Longrightarrow> last (take k (rev (cache_usage m))) = rev (cache_usage m) ! (k - 1) \<and>
        butlast (take k (rev (cache_usage m))) = take (k - 1) (rev (cache_usage m)) \<and> take k (rev (cache_usage m)) \<noteq> []"
      using take_last[of k "rev (cache_usage m)"] k(1) l by simp
    then show ?thesis using False k collected_ok(2)[OF assms k(1,2)] by (auto simp: Let_def)
  qed
qed

theorem cache_manager_spec_witness:
  "\<exists>m'. note_used 7 (cache_manager_new 100 200 10 :: nat cache_manager) = Some m' \<and> tracked m' = {7}"
  using cache_manager_spec[OF cache_manager_new_ok, of 7 100 200 10] by (auto simp: cache_manager_new_tracked)

end
