(* ===== verification/SleepyConfig.thy ===== *)
theory SleepyConfig
  imports UintConv Hash "HOL-Library.Signed_Division"
begin

section \<open>The configuration\<close>

text \<open>
  \<open>util/src/config.rs\<close>. The file format is read by the TOML crate; what the program computes from the fields is
  here. An \<open>i64\<close> is an \<open>int\<close> with the range check of the code's arithmetic; the clock and the answers of the
  time servers are arguments. \<open>None\<close> is a panic (overflow, division by zero).
\<close>

subsection \<open>Definitions\<close>

record key_group =
  proof_public_key :: bytes
  proof_public_g :: bytes
  signer_public_key :: hash

record sleepy_config =
  id_card :: u32
  max_peer :: u64
  steps :: u64
  nps :: u64
  miner_private_key :: bytes
  signer_private_key :: hash
  keygroups :: "key_group list"
  epoch_len :: u64
  start_time :: u64
  buffer_size :: u64
  public_keys :: "hash \<Rightarrow> (bytes \<times> bytes) option"

text \<open>\<open>SleepyConfig::new\<close>: the key groups become a map from the signer's key.\<close>

definition config_new :: "sleepy_config \<Rightarrow> sleepy_config" where
  "config_new c =
     c\<lparr>public_keys := foldl (\<lambda>m v. m(signer_public_key v \<mapsto> (proof_public_key v, proof_public_g v))) (\<lambda>_. None) (keygroups c)\<rparr>"

definition get_difficulty :: "sleepy_config \<Rightarrow> uint option" where
  "get_difficulty c = do {
     p \<leftarrow> cadd (max_peer c) 1;
     p \<leftarrow> cmul p (steps c);
     p \<leftarrow> cmul p (nps c);
     uint_div (uint_max_value 4) (uint_from_u64 4 p) }"

definition get_proof_pub :: "sleepy_config \<Rightarrow> hash \<Rightarrow> (bytes \<times> bytes) option" where
  "get_proof_pub c sign_key = public_keys c sign_key"

definition i64_check :: "int \<Rightarrow> int option" where
  "i64_check x = (if - (2 ^ 63) \<le> x \<and> x < 2 ^ 63 then Some x else None)"

definition i64_div :: "int \<Rightarrow> int \<Rightarrow> int option" where
  "i64_div a b = (if b = 0 then None else i64_check (a sdiv b))"

definition u64_div :: "u64 \<Rightarrow> u64 \<Rightarrow> u64 option" where
  "u64_div a b = (if b = 0 then None else Some (a div b))"

text \<open>The length of a time unit in nanoseconds, \<open>(1000000000 / self.nps) as i64\<close>.\<close>

definition unit_nanos :: "sleepy_config \<Rightarrow> int option" where
  "unit_nanos c = map_option sint (u64_div 1000000000 (nps c))"

definition sys_now :: "sleepy_config \<Rightarrow> int \<Rightarrow> int \<Rightarrow> u64 option" where
  "sys_now c sec nsec = do {
     a \<leftarrow> i64_check (sec * sint (nps c));
     u \<leftarrow> unit_nanos c;
     b \<leftarrow> i64_div nsec u;
     r \<leftarrow> i64_check (a + b);
     Some (word_of_int r) }"

text \<open>\<open>ntp_timestamp\<close>: the first answer that is not zero; \<open>answers\<close> is in the order of arrival.\<close>

definition ntp_timestamp :: "int list \<Rightarrow> int" where
  "ntp_timestamp answers = foldl (\<lambda>r t. if t \<noteq> 0 \<and> r = 0 then t else r) 0 answers"

definition ntp_now :: "sleepy_config \<Rightarrow> int list \<Rightarrow> u64 option option" where
  "ntp_now c answers =
     (let now = ntp_timestamp answers in
      if now = 0 then Some None
      else do {
        u \<leftarrow> unit_nanos c;
        t \<leftarrow> i64_div now u;
        Some (Some (word_of_int t)) })"

subsection \<open>Lemmas\<close>

lemma u64_div_Some [simp]: "u64_div a b = Some q \<longleftrightarrow> b \<noteq> 0 \<and> q = a div b"
  by (auto simp: u64_div_def)

lemma ntp_first: "ntp_timestamp answers = (case filter (\<lambda>t. t \<noteq> 0) answers of [] \<Rightarrow> 0 | t # _ \<Rightarrow> t)"
proof -
  have "foldl (\<lambda>r t. if t \<noteq> 0 \<and> r = 0 then t else r) r answers =
      (if r \<noteq> 0 then r else case filter (\<lambda>t. t \<noteq> 0) answers of [] \<Rightarrow> 0 | t # _ \<Rightarrow> t)" for r :: int
    by (induction answers arbitrary: r) auto
  then show ?thesis by (simp add: ntp_timestamp_def)
qed

text \<open>The difficulty is the largest 256-bit number divided by the number of draws in an hour of the protocol.\<close>

lemma get_difficulty_val:
  assumes "get_difficulty c = Some d"
  shows "uval d = (2 ^ 256 - 1) div (unat (max_peer c + 1) * unat (steps c) * unat (nps c))" and "length d = 4"
proof -
  obtain p1 p2 p3 where p: "cadd (max_peer c) 1 = Some p1" "cmul p1 (steps c) = Some p2" "cmul p2 (nps c) = Some p3"
    "uint_div (uint_max_value 4) (uint_from_u64 4 p3) = Some d"
    using assms by (auto simp: get_difficulty_def bind_eq_Some_conv)
  have "p1 = max_peer c + 1" using p(1) by (auto simp: cadd_def split: if_splits)
  then have "unat p3 = unat (max_peer c + 1) * unat (steps c) * unat (nps c)"
    using cmul_SomeD[OF p(2)] cmul_SomeD[OF p(3)] by simp
  moreover have "uval d = uval (uint_max_value 4) div unat p3 \<and> length d = 4"
  proof -
    let ?m = "uint_max_value 4" and ?u = "uint_from_u64 4 p3"
    have l: "length ?m = length ?u" "?m \<noteq> []" "?u \<noteq> []" "uval ?u = unat p3"
      using uval_from_u64[of 4 p3] by (simp_all add: uint_max_value_def uint_from_u64_def)
    then have "uval ?u \<noteq> 0" using uint_div_zero[OF l(2,3)] p(4) by auto
    from uint_div_val[OF l(1) this] p(4) l(4) show ?thesis by (auto simp: uint_max_value_def)
  qed
  ultimately show "uval d = (2 ^ 256 - 1) div (unat (max_peer c + 1) * unat (steps c) * unat (nps c))" "length d = 4"
    using uval_max_value[of 4] by simp_all
qed

end
