(* ===== verification/ChainState.thy ===== *)
theory ChainState
  imports HashCache ChainDb CacheManager SleepyConfig
begin

section \<open>The state of the chain and its tables\<close>

text \<open>
  \<open>struct Chain\<close> of \<open>chain/src/chain.rs\<close> and the functions that look things up. A function of the code that
  takes a lock to read a cache may fill it, so each returns the new state. The outside world is the record
  \<open>env\<close>: the hash function, the crates for signatures and pairings, the store behind the trait object, the
  random generator and the sizes that the heap crate reports. \<open>outbox\<close> is the channel to the thread that
  waits for parents. \<open>None\<close> is a panic. Locks and threads are not modelled: each function runs alone.
\<close>

subsection \<open>Data\<close>

datatype cache_id =
    BlockHeader hash
  | BlockBody hash
  | BlockHashes block_number
  | TransactionAddresses hash

record ('sk, 'pk, 'rs, 'db) env =
  e_sha3 :: "bytes \<Rightarrow> hash"
  e_bo :: byteorder
  e_secp :: "('sk, 'pk, 'rs) secp"
  e_bls :: bls
  e_get :: "'db \<Rightarrow> getter"
  e_write :: "db_transaction \<Rightarrow> 'db \<Rightarrow> ((string + unit) \<times> 'db) option"
  e_gen_range :: "nat \<Rightarrow> nat \<Rightarrow> nat"
  e_headers_size :: "(hash, rich_header) cache \<Rightarrow> nat"
  e_bodies_size :: "(hash, body) cache \<Rightarrow> nat"
  e_hashes_size :: "(block_number, hash) cache \<Rightarrow> nat"
  e_addresses_size :: "(hash, transaction_address) cache \<Rightarrow> nat"

record 'db chain =
  c_db :: 'db
  cache_man :: "cache_id cache_manager"
  block_headers :: "(hash, rich_header) cache"
  block_bodies :: "(hash, body) cache"
  transaction_addresses :: "(hash, transaction_address) cache"
  block_hashes :: "(block_number, hash) cache"
  future_blocks :: "block list"
  unknown_parent :: "hash \<Rightarrow> block list option"
  current_height :: u64
  current_hash :: hash
  txs_cache :: hash_cache
  c_config :: sleepy_config
  outbox :: "hash list"

subsection \<open>Encodings of the tables\<close>

definition enc_rich :: "('sk, 'pk, 'rs, 'db) env \<Rightarrow> rich_header \<Rightarrow> bytes option" where
  "enc_rich E v = encode (e_bo E) (rich_append (e_bo E) v)"

definition dec_rich :: "('sk, 'pk, 'rs, 'db) env \<Rightarrow> bytes \<Rightarrow> rich_header option" where
  "dec_rich E b = decode (rich_decode (e_sha3 E)) b"

definition enc_body :: "('sk, 'pk, 'rs, 'db) env \<Rightarrow> body \<Rightarrow> bytes option" where
  "enc_body E v = encode (e_bo E) (body_append (e_bo E) v)"

definition dec_body :: "bytes \<Rightarrow> body option" where
  "dec_body b = decode body_decode b"

definition enc_address :: "('sk, 'pk, 'rs, 'db) env \<Rightarrow> transaction_address \<Rightarrow> bytes option" where
  "enc_address E v = encode (e_bo E) (address_append (e_bo E) v)"

definition dec_address :: "bytes \<Rightarrow> transaction_address option" where
  "dec_address b = decode address_decode b"

definition enc_hash :: "('sk, 'pk, 'rs, 'db) env \<Rightarrow> hash \<Rightarrow> bytes option" where
  "enc_hash E v = encode (e_bo E) (hash_append (e_bo E) v)"

definition dec_hash :: "bytes \<Rightarrow> hash option" where
  "dec_hash b = decode (hash_decode 32) b"

subsection \<open>Lookups\<close>

definition note_id :: "cache_id \<Rightarrow> 'db chain \<Rightarrow> 'db chain option" where
  "note_id i s = do { m \<leftarrow> note_used i (cache_man s); Some (s\<lparr>cache_man := m\<rparr>) }"

definition block_hash_by_number_db ::
    "('sk, 'pk, 'rs, 'db) env \<Rightarrow> block_number \<Rightarrow> 'db chain \<Rightarrow> (hash option \<times> 'db chain) option" where
  "block_hash_by_number_db E number s = do {
     (r, c) \<leftarrow> read_with_cache block_number_key dec_hash (e_get E (c_db s)) COL_EXTRA (block_hashes s) number;
     s \<leftarrow> note_id (BlockHashes number) (s\<lparr>block_hashes := c\<rparr>);
     Some (r, s) }"

definition get_block_header_by_hash ::
    "('sk, 'pk, 'rs, 'db) env \<Rightarrow> hash \<Rightarrow> 'db chain \<Rightarrow> (rich_header option \<times> 'db chain) option" where
  "get_block_header_by_hash E h s = do {
     (r, c) \<leftarrow> read_with_cache header_key (dec_rich E) (e_get E (c_db s)) COL_HEADERS (block_headers s) h;
     s \<leftarrow> note_id (BlockHeader h) (s\<lparr>block_headers := c\<rparr>);
     Some (r, s) }"

definition get_block_body_by_hash ::
    "('sk, 'pk, 'rs, 'db) env \<Rightarrow> hash \<Rightarrow> 'db chain \<Rightarrow> (body option \<times> 'db chain) option" where
  "get_block_body_by_hash E h s = do {
     (r, c) \<leftarrow> read_with_cache body_key dec_body (e_get E (c_db s)) COL_BODIES (block_bodies s) h;
     s \<leftarrow> note_id (BlockBody h) (s\<lparr>block_bodies := c\<rparr>);
     Some (r, s) }"

definition get_transaction_address ::
    "('sk, 'pk, 'rs, 'db) env \<Rightarrow> hash \<Rightarrow> 'db chain \<Rightarrow> (transaction_address option \<times> 'db chain) option" where
  "get_transaction_address E h s = do {
     (r, c) \<leftarrow> read_with_cache address_key dec_address (e_get E (c_db s)) COL_EXTRA (transaction_addresses s) h;
     s \<leftarrow> note_id (TransactionAddresses h) (s\<lparr>transaction_addresses := c\<rparr>);
     Some (r, s) }"

definition block_hash_by_number ::
    "('sk, 'pk, 'rs, 'db) env \<Rightarrow> block_number \<Rightarrow> 'db chain \<Rightarrow> (hash option \<times> 'db chain) option" where
  "block_hash_by_number E number s = do {
     b \<leftarrow> block_info_at (txs_cache s) number;
     case b of
       Some b \<Rightarrow> Some (Some (bi_hash b), s)
     | None \<Rightarrow> block_hash_by_number_db E number s }"

definition get_block_body_by_height ::
    "('sk, 'pk, 'rs, 'db) env \<Rightarrow> u64 \<Rightarrow> 'db chain \<Rightarrow> (body option \<times> 'db chain) option" where
  "get_block_body_by_height E height s = do {
     (h, s) \<leftarrow> block_hash_by_number E height s;
     case h of None \<Rightarrow> Some (None, s) | Some h \<Rightarrow> get_block_body_by_hash E h s }"

definition get_block_by_hash ::
    "('sk, 'pk, 'rs, 'db) env \<Rightarrow> hash \<Rightarrow> 'db chain \<Rightarrow> (block option \<times> 'db chain) option" where
  "get_block_by_hash E h s = do {
     (hdr, s) \<leftarrow> get_block_header_by_hash E h s;
     (bd, s) \<leftarrow> get_block_body_by_hash E h s;
     Some (case (hdr, bd) of
             (Some hdr, Some bd) \<Rightarrow> Some \<lparr>b_header = rh_header hdr, b_body = bd\<rparr>
           | _ \<Rightarrow> None, s) }"

definition tx_hashes_of :: "body \<Rightarrow> hash list" where
  "tx_hashes_of b = map stx_hash (transactions b)"

definition block_transaction_hashes_by_hash ::
    "('sk, 'pk, 'rs, 'db) env \<Rightarrow> hash \<Rightarrow> 'db chain \<Rightarrow> (hash list \<times> 'db chain) option" where
  "block_transaction_hashes_by_hash E h s = do {
     (b, s) \<leftarrow> get_block_body_by_hash E h s;
     b \<leftarrow> b;
     Some (tx_hashes_of b, s) }"

definition block_transaction_hashes_by_height_db ::
    "('sk, 'pk, 'rs, 'db) env \<Rightarrow> u64 \<Rightarrow> 'db chain \<Rightarrow> (hash list \<times> 'db chain) option" where
  "block_transaction_hashes_by_height_db E height s = do {
     (b, s) \<leftarrow> get_block_body_by_height E height s;
     b \<leftarrow> b;
     Some (tx_hashes_of b, s) }"

definition block_transaction_hashes_by_height ::
    "('sk, 'pk, 'rs, 'db) env \<Rightarrow> u64 \<Rightarrow> 'db chain \<Rightarrow> (hash list \<times> 'db chain) option" where
  "block_transaction_hashes_by_height E height s =
     (if height > current_height s then Some ([], s)
      else do {
        b \<leftarrow> block_info_at (txs_cache s) height;
        case b of
          Some b \<Rightarrow> Some (bi_transactions b, s)
        | None \<Rightarrow> block_transaction_hashes_by_height_db E height s })"

definition get_status :: "'db chain \<Rightarrow> u64 \<times> hash" where
  "get_status s = (current_height s, current_hash s)"

text \<open>\<open>RichHeader::hash\<close> of a clone: the value, without the cell of the clone.\<close>

definition rh_hash :: "('sk, 'pk, 'rs, 'db) env \<Rightarrow> rich_header \<Rightarrow> hash option" where
  "rh_hash E h = map_option fst (header_hash (e_sha3 E) (e_bo E) (rh_header h))"

definition info_of :: "('sk, 'pk, 'rs, 'db) env \<Rightarrow> rich_header \<Rightarrow> hash list \<Rightarrow> block_info option" where
  "info_of E h txs = do {
     x \<leftarrow> rh_hash E h;
     Some \<lparr>bi_hash = x, bi_height = h_height (rh_header h), bi_timestamp = h_timestamp (rh_header h), bi_transactions = txs\<rparr> }"

subsection \<open>Walking back along the parents\<close>

function fork_loop ::
    "('sk, 'pk, 'rs, 'db) env \<Rightarrow> u64 \<Rightarrow> u64 \<Rightarrow> hash \<Rightarrow> 'db chain \<Rightarrow> (hash option \<times> 'db chain) option" where
  "fork_loop E number height h s =
     (if height = number then Some (Some h, s)
      else do {
        (v, s) \<leftarrow> block_hash_by_number E height s;
        if Some h = v then block_hash_by_number E number s
        else do {
          (hdr, s) \<leftarrow> get_block_header_by_hash E h s;
          case hdr of
            None \<Rightarrow> Some (None, s)
          | Some hdr \<Rightarrow> do {
              height' \<leftarrow> csub height 1;
              fork_loop E number height' (parent_hash (rh_header hdr)) s } } })"
  by pat_completeness auto
termination
  by (relation "measure (\<lambda>(_, _, height, _, _). unat height)")
    (auto dest!: csub_SomeD simp: unat_gt_0)

declare fork_loop.simps [simp del]

definition block_hash_by_number_fork ::
    "('sk, 'pk, 'rs, 'db) env \<Rightarrow> u64 \<Rightarrow> u64 \<Rightarrow> hash \<Rightarrow> 'db chain \<Rightarrow> (hash option \<times> 'db chain) option" where
  "block_hash_by_number_fork E number height h s =
     (if height < number then Some (None, s) else fork_loop E number height h s)"

text \<open>\<open>get_fork_chain\<close>, with the blocks collected so far.\<close>

function fork_chain_loop ::
    "('sk, 'pk, 'rs, 'db) env \<Rightarrow> u64 \<Rightarrow> hash \<Rightarrow> block_info list \<Rightarrow> 'db chain \<Rightarrow> (block_info list \<times> 'db chain) option" where
  "fork_chain_loop E height h blocks s = do {
     (v, s) \<leftarrow> block_hash_by_number E height s;
     if Some h = v \<or> height = 0 then Some (blocks, s)
     else do {
       (hdr, s) \<leftarrow> get_block_header_by_hash E h s;
       hdr \<leftarrow> hdr;
       (txs, s) \<leftarrow> block_transaction_hashes_by_hash E h s;
       b \<leftarrow> info_of E hdr txs;
       height' \<leftarrow> csub height 1;
       fork_chain_loop E height' (parent_hash (rh_header hdr)) (blocks @ [b]) s } }"
  by pat_completeness auto
termination
  by (relation "measure (\<lambda>(_, height, _, _, _). unat height)")
    (auto dest!: csub_SomeD simp: unat_gt_0)

declare fork_chain_loop.simps [simp del]

definition get_fork_chain ::
    "('sk, 'pk, 'rs, 'db) env \<Rightarrow> u64 \<Rightarrow> hash \<Rightarrow> 'db chain \<Rightarrow> (block_info list \<times> 'db chain) option" where
  "get_fork_chain E height h s = fork_chain_loop E height h [] s"

text \<open>\<open>get_unverif_headers\<close>: nothing bounds the loop but the headers themselves.\<close>

partial_function (option) unverif_loop ::
    "('sk, 'pk, 'rs, 'db) env \<Rightarrow> rich_header \<Rightarrow> rich_header list \<Rightarrow> 'db chain \<Rightarrow> (rich_header list \<times> 'db chain) option" where
  "unverif_loop E header headers s =
     (if rh_verified header then Some (headers, s)
      else Option.bind (get_block_header_by_hash E (parent_hash (rh_header header)) s) (\<lambda>(hdr, s').
        case hdr of
          None \<Rightarrow> None
        | Some hdr' \<Rightarrow> unverif_loop E hdr' (headers @ [header]) s'))"

definition get_unverif_headers ::
    "('sk, 'pk, 'rs, 'db) env \<Rightarrow> rich_header \<Rightarrow> 'db chain \<Rightarrow> (rich_header list \<times> 'db chain) option" where
  "get_unverif_headers E header s = unverif_loop E header [] s"

end
