(* ===== verification/Chain.thy ===== *)
theory Chain
  imports ChainState
begin

section \<open>The chain\<close>

text \<open>
  The rest of \<open>chain/src/chain.rs\<close>: checking a block, inserting it, switching between forks, building a
  block, the threads that retry blocks, the garbage collection of the caches and the start of the node.
  An operation that can refuse returns an error of \<open>chain_error\<close> with the state it leaves behind.
\<close>

subsection \<open>Checking transactions\<close>

text \<open>\<open>transactions_diff\<close>: the transactions between a block and the best chain; \<open>bs\<close> counts down the buffer.\<close>

function diff_loop ::
    "('sk, 'pk, 'rs, 'db) env \<Rightarrow> u64 \<Rightarrow> u64 \<Rightarrow> hash \<Rightarrow> hash set \<Rightarrow> 'db chain \<Rightarrow>
      ((chain_error + u64 \<times> hash set) \<times> 'db chain) option" where
  "diff_loop E bs height h txs_set s =
     (if bs = 0 then Some (Inl LongFork, s)
      else do {
        bs' \<leftarrow> csub bs 1;
        (v, s) \<leftarrow> block_hash_by_number E height s;
        if Some h = v \<or> height = 0 then Some (Inr (height, txs_set), s)
        else do {
          (txs, s) \<leftarrow> block_transaction_hashes_by_hash E h s;
          (hdr, s) \<leftarrow> get_block_header_by_hash E h s;
          hdr \<leftarrow> hdr;
          if \<not> rh_verified hdr then Some (Inl LongFork, s)
          else do {
            height' \<leftarrow> csub height 1;
            diff_loop E bs' height' (parent_hash (rh_header hdr)) (txs_set \<union> set txs) s } } })"
  by pat_completeness auto
termination
  by (relation "measure (\<lambda>(_, bs, _, _, _, _). unat bs)")
    (auto dest!: csub_SomeD simp: unat_gt_0)

declare diff_loop.simps [simp del]

definition transactions_diff ::
    "('sk, 'pk, 'rs, 'db) env \<Rightarrow> u64 \<Rightarrow> hash \<Rightarrow> 'db chain \<Rightarrow> ((chain_error + u64 \<times> hash set) \<times> 'db chain) option" where
  "transactions_diff E height h s = do {
     top \<leftarrow> cadd height (buffer_size (c_config s));
     if top < current_height s then Some (Inl LongFork, s)
     else diff_loop E (buffer_size (c_config s)) height h {} s }"

definition get_left_bound :: "u64 \<Rightarrow> hash_cache \<Rightarrow> 'db chain \<Rightarrow> (u64 \<times> u64) option" where
  "get_left_bound height cache s = do {
     a \<leftarrow> cadd (buffer_size (c_config s)) height;
     i \<leftarrow> csub a (current_height s);
     bi \<leftarrow> hc_get cache (unat i);
     t \<leftarrow> cmul (bi_timestamp bi) 1000;
     t \<leftarrow> u64_div t (nps (c_config s));
     Some (bi_height bi, t) }"

fun check_loop ::
    "u64 \<Rightarrow> u64 \<Rightarrow> u64 \<Rightarrow> hash_cache \<Rightarrow> signed_transaction list \<Rightarrow> hash set \<Rightarrow> chain_error + unit" where
  "check_loop bh bt mx cache [] txs_set = Inr ()"
| "check_loop bh bt mx cache (tx # txs) txs_set =
     (if tx_timestamp (stx_transaction tx) \<le> bt then Inl OverdueTransaction
      else if stx_hash tx \<in> txs_set then Inl DuplicateTransaction
      else if hc_contains cache (stx_hash tx) bh mx then Inl DuplicateTransaction
      else check_loop bh bt mx cache txs (insert (stx_hash tx) txs_set))"

definition transactions_check ::
    "signed_transaction list \<Rightarrow> hash set \<Rightarrow> hash_cache \<Rightarrow> u64 \<Rightarrow> u64 \<Rightarrow> 'db chain \<Rightarrow> (chain_error + unit) option" where
  "transactions_check txs txs_set cache height mx s = do {
     height' \<leftarrow> csub height 1;
     (bh, bt) \<leftarrow> get_left_bound height' cache s;
     Some (check_loop bh bt mx cache txs txs_set) }"

definition check_transactions ::
    "('sk, 'pk, 'rs, 'db) env \<Rightarrow> block \<Rightarrow> 'db chain \<Rightarrow> ((chain_error + bool) \<times> 'db chain) option" where
  "check_transactions E b s = do {
     height' \<leftarrow> csub (h_height (b_header b)) 1;
     (r, s) \<leftarrow> transactions_diff E height' (parent_hash (b_header b)) s;
     case r of
       Inl _ \<Rightarrow> Some (Inr False, s)
     | Inr (height, txs_set) \<Rightarrow> do {
         c \<leftarrow> transactions_check (transactions (b_body b)) txs_set (txs_cache s) (h_height (b_header b)) height s;
         Some (case c of Inl e \<Rightarrow> Inl e | Inr _ \<Rightarrow> Inr True, s) } }"

fun filter_loop ::
    "u64 \<Rightarrow> u64 \<Rightarrow> u64 \<Rightarrow> hash_cache \<Rightarrow> signed_transaction list \<Rightarrow> hash set \<Rightarrow> signed_transaction list" where
  "filter_loop bh bt mx cache [] txs_set = []"
| "filter_loop bh bt mx cache (tx # txs) txs_set =
     (if tx_timestamp (stx_transaction tx) \<le> bt then filter_loop bh bt mx cache txs txs_set
      else if stx_hash tx \<in> txs_set then filter_loop bh bt mx cache txs txs_set
      else if hc_contains cache (stx_hash tx) bh mx then filter_loop bh bt mx cache txs txs_set
      else tx # filter_loop bh bt mx cache txs (insert (stx_hash tx) txs_set))"

definition filter_transactions ::
    "('sk, 'pk, 'rs, 'db) env \<Rightarrow> u64 \<Rightarrow> hash \<Rightarrow> signed_transaction list \<Rightarrow> 'db chain \<Rightarrow>
      (signed_transaction list \<times> 'db chain) option" where
  "filter_transactions E height h txs s = do {
     (r, s) \<leftarrow> transactions_diff E height h s;
     case r of
       Inl _ \<Rightarrow> None
     | Inr (height, txs_set) \<Rightarrow> do {
         (bh, bt) \<leftarrow> get_left_bound height (txs_cache s) s;
         Some (filter_loop bh bt height (txs_cache s) txs txs_set, s) } }"

subsection \<open>Checking a block\<close>

definition anc_height :: "u64 \<Rightarrow> 'db chain \<Rightarrow> u64 option" where
  "anc_height height s = do {
     a \<leftarrow> u64_div height (epoch_len (c_config s));
     a \<leftarrow> (if a > 0 then csub a 1 else Some a);
     cmul a (epoch_len (c_config s)) }"

definition anc_hash :: "('sk, 'pk, 'rs, 'db) env \<Rightarrow> u64 \<Rightarrow> hash \<Rightarrow> 'db chain \<Rightarrow> (hash option \<times> 'db chain) option" where
  "anc_hash E height h s = do {
     up \<leftarrow> cadd height 1;
     a \<leftarrow> anc_height up s;
     (r, s) \<leftarrow> block_hash_by_number_fork E a height h s;
     case r of
       None \<Rightarrow> Some (None, s)
     | Some x \<Rightarrow> do {
         (hdr, s) \<leftarrow> get_block_header_by_hash E x s;
         Some (map_option (\<lambda>hdr. e_sha3 E (time_signature (h_proof (rh_header hdr)))) hdr, s) } }"

definition tx_basic_check :: "('sk, 'pk, 'rs, 'db) env \<Rightarrow> signed_transaction \<Rightarrow> chain_error + unit" where
  "tx_basic_check E stx = (case recover_public (e_secp E) stx of Inl e \<Rightarrow> Inl e | Inr _ \<Rightarrow> Inr ())"

text \<open>The last part of \<open>block_basic_check\<close>: the signer and the proof.\<close>

definition check_proof ::
    "('sk, 'pk, 'rs, 'db) env \<Rightarrow> block \<Rightarrow> 'db chain \<Rightarrow> ((chain_error + unit) \<times> 'db chain) option" where
  "check_proof E b s = do {
     below \<leftarrow> csub (h_height (b_header b)) 1;
     (anc, s) \<leftarrow> anc_hash E below (parent_hash (b_header b)) s;
     case anc of
       None \<Rightarrow> Some (Inl UnknownAncestor, s)
     | Some anc \<Rightarrow> do {
         sp \<leftarrow> sign_public (e_sha3 E) (e_bo E) (e_secp E) b;
         Some (case sp of
             Inl e \<Rightarrow> Inl e
           | Inr sign_pub \<Rightarrow>
               (case get_proof_pub (c_config s) sign_pub of
                  None \<Rightarrow> Inl InvalidPublicKey
                | Some (proof_pub, proof_g) \<Rightarrow>
                    if \<not> verify_proof (e_sha3 E) (e_bls E) (b_header b) anc proof_pub proof_g then Inl InvalidProofKey
                    else Inr ()), s) } }"

text \<open>\<open>now\<close> is what the time servers answer. The hash of the block is in its cell when this starts.\<close>

definition block_basic_check ::
    "('sk, 'pk, 'rs, 'db) env \<Rightarrow> u64 option \<Rightarrow> block \<Rightarrow> 'db chain \<Rightarrow> ((chain_error + unit) \<times> 'db chain) option" where
  "block_basic_check E now b s = do {
     (h, b) \<leftarrow> block_hash (e_sha3 E) (e_bo E) b;
     d \<leftarrow> difficulty (e_sha3 E) (b_header b);
     limit \<leftarrow> get_difficulty (c_config s);
     if uint_cmp d limit = Greater then Some (Inl InvalidProof, s)
     else case now of
       None \<Rightarrow> Some (Inl NTPError, s)
     | Some now \<Rightarrow> do {
         m \<leftarrow> cmul 2 (nps (c_config s));
         m \<leftarrow> cmul m (steps (c_config s));
         m \<leftarrow> cadd now m;
         if m < h_timestamp (b_header b) then Some (Inl InvalidTimestamp, s)
         else do {
           (known, s) \<leftarrow> get_block_header_by_hash E h s;
           if known \<noteq> None then Some (Inl DuplicateBlock, s)
           else do {
             (parent, s) \<leftarrow> get_block_header_by_hash E (parent_hash (b_header b)) s;
             case parent of
               None \<Rightarrow>
                 let waiting = (case unknown_parent s (parent_hash (b_header b)) of None \<Rightarrow> [] | Some bs \<Rightarrow> bs) in
                 Some (Inl UnknownParent, s\<lparr>unknown_parent := (unknown_parent s)(parent_hash (b_header b) \<mapsto> waiting @ [b])\<rparr>)
             | Some p \<Rightarrow>
                 if h_timestamp (b_header b) \<le> h_timestamp (rh_header p) then Some (Inl InvalidTimestamp, s)
                 else if h_timestamp (b_header b) > now then Some (Inl FutureBlock, s\<lparr>future_blocks := future_blocks s @ [b]\<rparr>)
                 else check_proof E b s } } } }"

subsection \<open>Writing blocks\<close>

definition CURRENT_HASH :: bytes where
  "CURRENT_HASH = [99, 117, 114, 114, 101, 110, 116, 95, 104, 97, 115, 104]"

definition save_status :: "db_transaction \<Rightarrow> u64 \<Rightarrow> hash \<Rightarrow> 'db chain \<Rightarrow> db_transaction \<times> 'db chain" where
  "save_status batch height h s =
     (tr_put COL_EXTRA CURRENT_HASH h batch, s\<lparr>current_height := height, current_hash := h\<rparr>)"

fun update_block_number ::
    "('sk, 'pk, 'rs, 'db) env \<Rightarrow> db_transaction \<Rightarrow> block_info list \<Rightarrow> 'db chain \<Rightarrow> (db_transaction \<times> 'db chain) option" where
  "update_block_number E batch [] s = Some (batch, s)"
| "update_block_number E batch (b # bs) s = do {
     (batch, c) \<leftarrow> write_with_cache block_number_key (enc_hash E) COL_EXTRA (block_hashes s) (bi_height b) (bi_hash b) Overwrite batch;
     s \<leftarrow> note_id (BlockHashes (bi_height b)) (s\<lparr>block_hashes := c\<rparr>);
     update_block_number E batch bs s }"

text \<open>The first loop of \<open>update_transaction_addresses\<close> collects, the other two write.\<close>

fun collect_txs ::
    "('sk, 'pk, 'rs, 'db) env \<Rightarrow> block_info list \<Rightarrow> hash list \<Rightarrow> (hash \<times> transaction_address) list \<Rightarrow> 'db chain \<Rightarrow>
      ((hash list \<times> (hash \<times> transaction_address) list) \<times> 'db chain) option" where
  "collect_txs E [] old_txs new_txs s = Some ((old_txs, new_txs), s)"
| "collect_txs E (b # bs) old_txs new_txs s = do {
     (old, s) \<leftarrow> block_transaction_hashes_by_height E (bi_height b) s;
     collect_txs E bs (old_txs @ old)
       (new_txs @ map (\<lambda>(i, h). (h, \<lparr>ta_block_hash = bi_hash b, ta_index = i\<rparr>)) (enumerate 0 (bi_transactions b))) s }"

fun delete_addresses :: "db_transaction \<Rightarrow> hash list \<Rightarrow> 'db chain \<Rightarrow> db_transaction \<times> 'db chain" where
  "delete_addresses batch [] s = (batch, s)"
| "delete_addresses batch (h # hs) s =
     (case delete_with_cache address_key COL_EXTRA (transaction_addresses s) h batch of
        (batch, c) \<Rightarrow> delete_addresses batch hs (s\<lparr>transaction_addresses := c\<rparr>))"

fun write_addresses ::
    "('sk, 'pk, 'rs, 'db) env \<Rightarrow> db_transaction \<Rightarrow> (hash \<times> transaction_address) list \<Rightarrow> 'db chain \<Rightarrow>
      (db_transaction \<times> 'db chain) option" where
  "write_addresses E batch [] s = Some (batch, s)"
| "write_addresses E batch ((h, a) # xs) s = do {
     (batch, c) \<leftarrow> write_with_cache address_key (enc_address E) COL_EXTRA (transaction_addresses s) h a Overwrite batch;
     s \<leftarrow> note_id (TransactionAddresses h) (s\<lparr>transaction_addresses := c\<rparr>);
     write_addresses E batch xs s }"

definition update_transaction_addresses ::
    "('sk, 'pk, 'rs, 'db) env \<Rightarrow> db_transaction \<Rightarrow> block_info list \<Rightarrow> 'db chain \<Rightarrow> (db_transaction \<times> 'db chain) option" where
  "update_transaction_addresses E batch bs s = do {
     ((old_txs, new_txs), s) \<leftarrow> collect_txs E bs [] [] s;
     let (batch, s) = delete_addresses batch old_txs s;
     write_addresses E batch new_txs s }"

subsection \<open>Moving the window\<close>

text \<open>The loop counts from 1 and stops at \<open>m\<close>.\<close>

fun update_txs_cache_from :: "nat \<Rightarrow> hash_cache \<Rightarrow> block_info list \<Rightarrow> nat \<Rightarrow> hash_cache" where
  "update_txs_cache_from i cache [] m = cache"
| "update_txs_cache_from i cache (b # bs) m =
     (if i > m then cache else update_txs_cache_from (i + 1) (hc_replace (m - i) b cache) bs m)"

definition update_txs_cache :: "hash_cache \<Rightarrow> block_info list \<Rightarrow> nat \<Rightarrow> hash_cache" where
  "update_txs_cache cache bs m = update_txs_cache_from 1 cache bs m"

fun roll_back_loop ::
    "('sk, 'pk, 'rs, 'db) env \<Rightarrow> nat \<Rightarrow> rich_header \<Rightarrow> hash_cache \<Rightarrow> 'db chain \<Rightarrow> (hash_cache \<times> 'db chain) option" where
  "roll_back_loop E 0 hdr cache s = Some (cache, s)"
| "roll_back_loop E (Suc n) hdr cache s = do {
     (hdr, s) \<leftarrow> (if h_height (rh_header hdr) \<noteq> 0
       then do {
         (p, s) \<leftarrow> get_block_header_by_hash E (parent_hash (rh_header hdr)) s;
         p \<leftarrow> p;
         Some (p, s) }
       else Some (hdr, s));
     x \<leftarrow> rh_hash E hdr;
     (txs, s) \<leftarrow> block_transaction_hashes_by_hash E x s;
     b \<leftarrow> info_of E hdr txs;
     roll_back_loop E n hdr (hc_push_front b cache) s }"

definition tx_cache_roll_back ::
    "('sk, 'pk, 'rs, 'db) env \<Rightarrow> hash_cache \<Rightarrow> hash \<Rightarrow> nat \<Rightarrow> 'db chain \<Rightarrow> (hash_cache \<times> 'db chain) option" where
  "tx_cache_roll_back E cache h n s = do {
     cache \<leftarrow> hc_drop_back n cache;
     (hdr, s) \<leftarrow> get_block_header_by_hash E h s;
     hdr \<leftarrow> hdr;
     roll_back_loop E n hdr cache s }"

text \<open>\<open>print_chain\<close> reads the hashes of the last blocks, and panics when one is missing.\<close>

fun print_loop :: "('sk, 'pk, 'rs, 'db) env \<Rightarrow> u64 \<Rightarrow> nat \<Rightarrow> nat \<Rightarrow> 'db chain \<Rightarrow> 'db chain option" where
  "print_loop E best i 0 s = Some s"
| "print_loop E best i (Suc n) s = do {
     h \<leftarrow> csub best (of_nat i);
     (r, s) \<leftarrow> block_hash_by_number E h s;
     r \<leftarrow> r;
     print_loop E best (i + 1) n s }"

definition print_chain :: "('sk, 'pk, 'rs, 'db) env \<Rightarrow> u64 \<Rightarrow> 'db chain \<Rightarrow> 'db chain option" where
  "print_chain E best s = print_loop E best 0 ((if best > 10 then 10 else unat best) + 1) s"

subsection \<open>Switching to a fork\<close>

text \<open>The loop over the headers that are not verified yet, from the oldest on.\<close>

fun verify_loop ::
    "('sk, 'pk, 'rs, 'db) env \<Rightarrow> db_transaction \<Rightarrow> rich_header list \<Rightarrow> hash_cache \<Rightarrow> block_info list \<Rightarrow> 'db chain \<Rightarrow>
      ((chain_error + hash_cache \<times> block_info list) \<times> db_transaction \<times> 'db chain) option" where
  "verify_loop E batch [] cache fork_blocks s = Some (Inr (cache, fork_blocks), batch, s)"
| "verify_loop E batch (h # hs) cache fork_blocks s = do {
     (x, hdr) \<leftarrow> header_hash (e_sha3 E) (e_bo E) (rh_header h);
     (body, s) \<leftarrow> get_block_body_by_hash E x s;
     body \<leftarrow> body;
     c \<leftarrow> transactions_check (transactions body) {} cache (h_height hdr) (h_height hdr) s;
     case c of
       Inl e \<Rightarrow> Some (Inl e, batch, s)
     | Inr _ \<Rightarrow> do {
         let h = \<lparr>rh_header = hdr, rh_verified = True\<rparr>;
         (batch, hs') \<leftarrow> write_with_cache header_key (enc_rich E) COL_HEADERS (block_headers s) x h Overwrite batch;
         let s = s\<lparr>block_headers := hs'\<rparr>;
         let b = \<lparr>bi_hash = x, bi_height = h_height hdr, bi_timestamp = h_timestamp hdr, bi_transactions = tx_hashes_of body\<rparr>;
         verify_loop E batch hs (hc_push_back b (hc_pop_front cache)) (fork_blocks @ [b]) s } }"

definition switch_long_fork ::
    "('sk, 'pk, 'rs, 'db) env \<Rightarrow> db_transaction \<Rightarrow> rich_header \<Rightarrow> 'db chain \<Rightarrow>
      ((chain_error + unit) \<times> db_transaction \<times> 'db chain) option" where
  "switch_long_fork E batch header s = do {
     let cache = txs_cache s;
     (headers, s) \<leftarrow> get_unverif_headers E header s;
     n \<leftarrow> (if current_height s \<noteq> h_height (rh_header header) then usize_sub (length headers) 1 else Some (length headers));
     let to = hc_total cache;
     x \<leftarrow> rh_hash E header;
     (fork_blocks, s) \<leftarrow> get_fork_chain E (h_height (rh_header header)) x s;
     (h, n, cache) \<leftarrow>
       (if n < to then do {
          let cache = update_txs_cache cache fork_blocks (to - n);
          if hc_queue cache = [] then None else Some (bi_hash (hd (hc_queue cache)), n, cache) }
        else if headers = [] then None
        else do { x \<leftarrow> rh_hash E (last headers); Some (x, to, cache) });
     (cache, s) \<leftarrow> tx_cache_roll_back E cache h n s;
     (r, batch, s) \<leftarrow> verify_loop E batch (rev headers) cache fork_blocks s;
     case r of
       Inl e \<Rightarrow> Some (Inl e, batch, s)
     | Inr (cache, fork_blocks) \<Rightarrow> do {
         (batch, s) \<leftarrow> update_transaction_addresses E batch fork_blocks s;
         (batch, s) \<leftarrow> update_block_number E batch fork_blocks s;
         s \<leftarrow> print_chain E (h_height (rh_header header)) (s\<lparr>txs_cache := cache\<rparr>);
         Some (Inr (), batch, s) } }"

definition adjust_block_hashes ::
    "('sk, 'pk, 'rs, 'db) env \<Rightarrow> db_transaction \<Rightarrow> rich_header \<Rightarrow> 'db chain \<Rightarrow> (bool \<times> db_transaction \<times> 'db chain) option" where
  "adjust_block_hashes E batch header s =
     (if \<not> rh_verified header then do {
        (r, batch, s) \<leftarrow> switch_long_fork E batch header s;
        Some (\<not> isl r, batch, s) }
      else do {
        (fork_blocks, s) \<leftarrow> (if h_height (rh_header header) > 0 then do {
             below \<leftarrow> csub (h_height (rh_header header)) 1;
             get_fork_chain E below (parent_hash (rh_header header)) s }
           else Some ([], s));
        x \<leftarrow> rh_hash E header;
        (txs, s) \<leftarrow> block_transaction_hashes_by_hash E x s;
        b \<leftarrow> info_of E header txs;
        let fork_blocks = fork_blocks @ [b];
        (batch, s) \<leftarrow> update_transaction_addresses E batch fork_blocks s;
        (batch, s) \<leftarrow> update_block_number E batch fork_blocks s;
        let cache = txs_cache s;
        cache \<leftarrow> (if current_height s < h_height (rh_header header)
          then (case hc_queue cache of [] \<Rightarrow> None | front # q \<Rightarrow> Some (cache\<lparr>hc_queue := q @ [front]\<rparr>))
          else Some cache);
        s \<leftarrow> print_chain E (h_height (rh_header header)) (s\<lparr>txs_cache := update_txs_cache cache fork_blocks (hc_total cache)\<rparr>);
        Some (True, batch, s) })"

end
