(* ===== verification/ChainInsert.thy ===== *)
theory ChainInsert
  imports Chain
begin

section \<open>Inserting blocks, mining and start\<close>

text \<open>
  The entry points of \<open>chain/src/chain.rs\<close>: \<open>insert\<close> for a block from the network, \<open>gen_block\<close> for an own
  block, the two threads that retry blocks (as functions of what wakes them), \<open>collect_garbage\<close>, and \<open>init\<close>.
\<close>

subsection \<open>Definitions\<close>

definition insert_at :: "('sk, 'pk, 'rs, 'db) env \<Rightarrow> block \<Rightarrow> bool \<Rightarrow> 'db chain \<Rightarrow> 'db chain option" where
  "insert_at E b verified s = do {
     (h, b) \<leftarrow> block_hash (e_sha3 E) (e_bo E) b;
     let height = h_height (b_header b);
     let rh = \<lparr>rh_header = b_header b, rh_verified = verified\<rparr>;
     (batch, hs) \<leftarrow> write_with_cache header_key (enc_rich E) COL_HEADERS (block_headers s) h rh Overwrite tr_new;
     let s = s\<lparr>block_headers := hs\<rparr>;
     (batch, bs) \<leftarrow> write_with_cache body_key (enc_body E) COL_BODIES (block_bodies s) h (b_body b) Overwrite batch;
     let s = s\<lparr>block_bodies := bs\<rparr>;
     up \<leftarrow> cadd (current_height s) 1;
     (batch, s) \<leftarrow>
       (if height = up \<or> (height = current_height s \<and> (e_gen_range E 0 1 = 0 \<or> current_hash s = hash_new 32)) then do {
          (ok, batch, s) \<leftarrow> adjust_block_hashes E batch rh s;
          Some (if ok then save_status batch height h s else (batch, s)) }
        else Some (batch, s));
     (r, d) \<leftarrow> e_write E batch (c_db s);
     case r of Inl _ \<Rightarrow> None | Inr _ \<Rightarrow> Some (s\<lparr>c_db := d\<rparr>) }"

definition chain_insert ::
    "('sk, 'pk, 'rs, 'db) env \<Rightarrow> u64 option \<Rightarrow> block \<Rightarrow> 'db chain \<Rightarrow> ((chain_error + unit) \<times> 'db chain) option" where
  "chain_insert E now b s = do {
     (h, b) \<leftarrow> block_hash (e_sha3 E) (e_bo E) b;
     (r, s) \<leftarrow> block_basic_check E now b s;
     case r of
       Inl e \<Rightarrow> Some (Inl e, s)
     | Inr _ \<Rightarrow> do {
         (c, s) \<leftarrow> check_transactions E b s;
         case c of
           Inl e \<Rightarrow> Some (Inl e, s)
         | Inr checked \<Rightarrow> do {
             s \<leftarrow> insert_at E b checked s;
             Some (Inr (), s\<lparr>outbox := outbox s @ [h]\<rparr>) } } }"

definition gen_block ::
    "('sk, 'pk, 'rs, 'db) env \<Rightarrow> u64 \<Rightarrow> hash \<Rightarrow> u64 \<Rightarrow> bytes \<Rightarrow> signed_transaction list \<Rightarrow> 'db chain \<Rightarrow> (block \<times> 'db chain) option" where
  "gen_block E height h time time_sig txs s = do {
     (txs, s) \<leftarrow> filter_transactions E height h txs s;
     up \<leftarrow> cadd height 1;
     b \<leftarrow> block_sign (e_sha3 E) (e_bo E) (e_secp E) (signer_private_key (c_config s)) (block_init up time h txs time_sig);
     s \<leftarrow> insert_at E b True s;
     Some (b, s) }"

text \<open>The thread that waits for parents: \<open>now\<close> is the time that each insertion sees. Errors are ignored.\<close>

fun insert_all :: "('sk, 'pk, 'rs, 'db) env \<Rightarrow> (block \<Rightarrow> u64 option) \<Rightarrow> block list \<Rightarrow> 'db chain \<Rightarrow> 'db chain option" where
  "insert_all E now [] s = Some s"
| "insert_all E now (b # bs) s = do {
     (_, s) \<leftarrow> chain_insert E (now b) b s;
     insert_all E now bs s }"

definition on_inserted :: "('sk, 'pk, 'rs, 'db) env \<Rightarrow> (block \<Rightarrow> u64 option) \<Rightarrow> 'db chain \<Rightarrow> 'db chain option" where
  "on_inserted E now s =
     (case outbox s of
        [] \<Rightarrow> Some s
      | h # rest \<Rightarrow>
          (let s = s\<lparr>outbox := rest\<rparr> in
           case unknown_parent s h of
             None \<Rightarrow> Some s
           | Some bs \<Rightarrow> insert_all E now bs (s\<lparr>unknown_parent := (unknown_parent s)(h := None)\<rparr>)))"

text \<open>\<open>handle_pending\<close> goes through a copy of the future blocks; an error of the insertion is a panic.\<close>

fun pending_loop ::
    "('sk, 'pk, 'rs, 'db) env \<Rightarrow> u64 \<Rightarrow> (block \<Rightarrow> u64 option) \<Rightarrow> block list \<Rightarrow> 'db chain \<Rightarrow> (block list \<times> 'db chain) option" where
  "pending_loop E now seen [] s = Some ([], s)"
| "pending_loop E now seen (b # bs) s =
     (if h_timestamp (b_header b) \<le> now then do {
        (r, s) \<leftarrow> chain_insert E (seen b) b s;
        case r of Inl _ \<Rightarrow> None | Inr _ \<Rightarrow> pending_loop E now seen bs s }
      else do {
        (left, s) \<leftarrow> pending_loop E now seen bs s;
        Some (b # left, s) })"

definition handle_pending ::
    "('sk, 'pk, 'rs, 'db) env \<Rightarrow> u64 option \<Rightarrow> (block \<Rightarrow> u64 option) \<Rightarrow> 'db chain \<Rightarrow> 'db chain option" where
  "handle_pending E now seen s =
     (case now of
        None \<Rightarrow> Some s
      | Some now \<Rightarrow> do {
          (left, s) \<leftarrow> pending_loop E now seen (future_blocks s) s;
          Some (s\<lparr>future_blocks := left\<rparr>) })"

definition chain_cache_size :: "('sk, 'pk, 'rs, 'db) env \<Rightarrow> 'db chain \<Rightarrow> cache_size option" where
  "chain_cache_size E s = do {
     b \<leftarrow> usize_add (e_headers_size E (block_headers s)) (e_bodies_size E (block_bodies s));
     Some \<lparr>cs_blocks = b, cs_transaction_addresses = e_addresses_size E (transaction_addresses s)\<rparr> }"

text \<open>The callback of the cache manager: the entries of the ids leave their caches.\<close>

definition forget_ids :: "cache_id set \<Rightarrow> 'db chain \<Rightarrow> 'db chain" where
  "forget_ids ids s = s\<lparr>
     block_headers := (\<lambda>h. if BlockHeader h \<in> ids then None else block_headers s h),
     block_bodies := (\<lambda>h. if BlockBody h \<in> ids then None else block_bodies s h),
     block_hashes := (\<lambda>n. if BlockHashes n \<in> ids then None else block_hashes s n),
     transaction_addresses := (\<lambda>h. if TransactionAddresses h \<in> ids then None else transaction_addresses s h)\<rparr>"

definition caches_size :: "('sk, 'pk, 'rs, 'db) env \<Rightarrow> 'db chain \<Rightarrow> nat" where
  "caches_size E s = e_headers_size E (block_headers s) + e_bodies_size E (block_bodies s) +
     e_hashes_size E (block_hashes s) + e_addresses_size E (transaction_addresses s)"

definition chain_collect_garbage :: "('sk, 'pk, 'rs, 'db) env \<Rightarrow> 'db chain \<Rightarrow> 'db chain option" where
  "chain_collect_garbage E s = do {
     c \<leftarrow> chain_cache_size E s;
     current_size \<leftarrow> cache_size_total c;
     (m, s') \<leftarrow> collect_garbage current_size (\<lambda>ids s. let s = forget_ids ids s in (caches_size E s, s)) (cache_man s) s;
     Some (s'\<lparr>cache_man := m\<rparr>) }"

subsection \<open>Start\<close>

definition LMT :: u64 where
  "LMT = 100"

definition chain_new :: "'db \<Rightarrow> sleepy_config \<Rightarrow> nat \<Rightarrow> 'db chain" where
  "chain_new d c window =
     \<lparr>c_db = d, cache_man = cache_manager_new (2 ^ 14) (2 ^ 20) 400, block_headers = (\<lambda>_. None), block_bodies = (\<lambda>_. None),
      transaction_addresses = (\<lambda>_. None), block_hashes = (\<lambda>_. None), future_blocks = [], unknown_parent = (\<lambda>_. None),
      current_height = 0, current_hash = hash_new 32, txs_cache = hc_new window, c_config = c, outbox = []\<rparr>"

text \<open>The loop that fills the window from the stored chain, back from the current block; \<open>n\<close> counts down.\<close>

function window_loop ::
    "('sk, 'pk, 'rs, 'db) env \<Rightarrow> u64 \<Rightarrow> rich_header \<Rightarrow> hash_cache \<Rightarrow> 'db chain \<Rightarrow>
      (u64 \<times> rich_header \<times> hash_cache \<times> 'db chain) option" where
  "window_loop E n header cache s = do {
     x \<leftarrow> rh_hash E header;
     (txs, s) \<leftarrow> block_transaction_hashes_by_hash E x s;
     b \<leftarrow> info_of E header txs;
     let cache = hc_push_front b cache;
     n' \<leftarrow> csub n 1;
     if n' = 0 \<or> h_height (rh_header header) = 0 then Some (n', header, cache, s)
     else do {
       (p, s) \<leftarrow> get_block_header_by_hash E (parent_hash (rh_header header)) s;
       p \<leftarrow> p;
       window_loop E n' p cache s } }"
  by pat_completeness auto
termination
  by (relation "measure (\<lambda>(_, n, _, _, _). unat n)")
    (auto dest!: csub_SomeD simp: unat_gt_0)

declare window_loop.simps [simp del]

definition padding :: "hash \<Rightarrow> u64 \<Rightarrow> block_info" where
  "padding h t = \<lparr>bi_hash = h, bi_height = 0, bi_timestamp = t, bi_transactions = []\<rparr>"

definition chain_init :: "('sk, 'pk, 'rs, 'db) env \<Rightarrow> sleepy_config \<Rightarrow> 'db \<Rightarrow> 'db chain option" where
  "chain_init E c d = do {
     n \<leftarrow> cadd LMT (buffer_size c);
     _ \<leftarrow> cadd n 5;
     n \<leftarrow> cadd n 1;
     let s = chain_new d c (unat n);
     ret \<leftarrow> e_get E d COL_EXTRA CURRENT_HASH;
     case ret of
       Inl _ \<Rightarrow> None
     | Inr (Some h) \<Rightarrow> do {
         let h = hash_from_slice 32 h;
         (header, s) \<leftarrow> get_block_header_by_hash E h s;
         header \<leftarrow> header;
         let s = s\<lparr>current_height := h_height (rh_header header), current_hash := h\<rparr>;
         (n, header, cache, s) \<leftarrow> window_loop E n header (txs_cache s) s;
         x \<leftarrow> rh_hash E header;
         let cache = foldl (\<lambda>cache _. hc_push_back (padding x (h_timestamp (rh_header header))) cache) cache [0..<unat n];
         Some (s\<lparr>txs_cache := cache\<rparr>) }
     | Inr None \<Rightarrow> do {
         (x, g) \<leftarrow> block_hash (e_sha3 E) (e_bo E) (genesis (start_time c));
         let cache = foldl (\<lambda>cache _. hc_push_back (padding x (start_time c)) cache) (txs_cache s) [0..<unat n];
         insert_at E g True (s\<lparr>txs_cache := cache\<rparr>) } }"

end
