(* ===== verification/ChainView.thy ===== *)
theory ChainView
  imports ChainInsert
begin

section \<open>What the chain stores, and that looking up does not change it\<close>

text \<open>
  The four tables of the chain fulfil the contract \<open>cached_table\<close>. The store behind the chain is the locale
  \<open>chain_store\<close>: reading gives what is stored and a batch is applied as a whole. Under the invariant
  \<open>chain_ok\<close> each function of \<open>ChainState\<close> returns what the table holds and keeps the state but for the
  caches (\<open>same\<close>).
\<close>

subsection \<open>The tables\<close>

text \<open>
  A stored header may have any hash of 32 bytes in its cell. Its height fits 32 bits, so that the key of its
  number is its own (\<open>block_number_key\<close>).
\<close>

definition sha3_ok :: "('sk, 'pk, 'rs, 'db) env \<Rightarrow> bool" where
  "sha3_ok E \<longleftrightarrow> (\<forall>x. length (e_sha3 E x) = 32)"

definition wf_rich :: "('sk, 'pk, 'rs, 'db) env \<Rightarrow> rich_header \<Rightarrow> bool" where
  "wf_rich E h \<longleftrightarrow> sha3_ok E \<and> wf_header (e_bo E) (rh_header h) \<and> small (rich_item h) \<and>
     h_height (rh_header h) < 2 ^ 32 \<and> (\<forall>x. h_hash (rh_header h) = Some x \<longrightarrow> length x = 32)"

definition recelled :: "(bytes \<Rightarrow> hash) \<Rightarrow> rich_header \<Rightarrow> rich_header" where
  "recelled sha3 h = h\<lparr>rh_header := (rh_header h)\<lparr>h_hash := Some (sha3 (rlp_enc (header_item (rh_header h))))\<rparr>\<rparr>"

lemma recelled_simps [simp]:
  "rich_item (recelled sha3 h) = rich_item h" "rich_append bo (recelled sha3 h) = rich_append bo h"
  "header_item (rh_header (recelled sha3 h)) = header_item (rh_header h)"
  "rh_verified (recelled sha3 h) = rh_verified h"
  by (auto simp: recelled_def rich_item_def header_item_def rich_append_def[abs_def] stream_rlp_def[abs_def])

lemma recelled_good: "wf_header bo (rh_header h) \<Longrightarrow> small (rich_item h) \<Longrightarrow> good_rich sha3 bo (recelled sha3 h)"
  by (simp add: good_rich_def good_header_def wf_header_def) (simp add: recelled_def header_item_def)

lemma recelled_wf: "wf_rich E h \<Longrightarrow> wf_rich E (recelled (e_sha3 E) h)"
  by (simp add: wf_rich_def wf_header_def) (simp add: recelled_def sha3_ok_def)

lemma rich_trip:
  assumes "wf_rich E h"
  shows "enc_rich E h = Some (rlp_enc (rich_item h))"
    and "dec_rich E (rlp_enc (rich_item h)) = Some (recelled (e_sha3 E) h)"
  using codec_trip[OF rich_rlp.rlp_codec_axioms recelled_good, of "e_bo E" h "e_sha3 E"] assms
  by (simp_all add: wf_rich_def enc_rich_def dec_rich_def)

lemma body_trip:
  assumes "good_body (e_bo E) b"
  shows "enc_body E b = Some (rlp_enc (body_item b))" and "dec_body (rlp_enc (body_item b)) = Some b"
  using codec_trip[OF body_rlp.rlp_codec_axioms assms] by (simp_all add: enc_body_def dec_body_def)

lemma address_trip:
  assumes "good_address (e_bo E) a"
  shows "enc_address E a = Some (rlp_enc (address_item a))" and "dec_address (rlp_enc (address_item a)) = Some a"
  using codec_trip[OF address_rlp.rlp_codec_axioms assms] by (simp_all add: enc_address_def dec_address_def)

definition good_hash :: "('sk, 'pk, 'rs, 'db) env \<Rightarrow> hash \<Rightarrow> bool" where
  "good_hash E h \<longleftrightarrow> big_endian (e_bo E) \<and> length h = 32"

lemma hash_trip:
  assumes "good_hash E h"
  shows "enc_hash E h = Some (rlp_enc (RData h))" and "dec_hash (rlp_enc (RData h)) = Some h"
  using codec_trip[OF hash_rlp.rlp_codec_axioms, of "e_bo E" h 32] assms
  by (simp_all add: enc_hash_def dec_hash_def good_hash_def)

interpretation header_table: cached_table header_key "enc_rich E" "dec_rich E" COL_HEADERS "wf_rich E" UNIV for E
proof
  show "inj_on header_key UNIV" by (simp add: header_key_def[abs_def])
  fix v e assume g: "wf_rich E v"
  then show "\<exists>e. enc_rich E v = Some e" using rich_trip(1) by blast
  assume "enc_rich E v = Some e"
  then show "\<exists>v'. dec_rich E e = Some v' \<and> wf_rich E v' \<and> enc_rich E v' = Some e"
    using rich_trip[OF g] recelled_wf[OF g] rich_trip(1)[OF recelled_wf[OF g]] by simp
qed

interpretation body_table: cached_table body_key "enc_body E" dec_body COL_BODIES "good_body (e_bo E)" UNIV for E
  by unfold_locales (use body_trip in \<open>fastforce simp: body_key_def[abs_def]\<close>)+

interpretation address_table: cached_table address_key "enc_address E" dec_address COL_EXTRA "good_address (e_bo E)" UNIV for E
  by unfold_locales (use address_trip in \<open>fastforce simp: address_key_def[abs_def] with_index_def inj_on_def\<close>)+

text \<open>The heights that have a key of their own.\<close>

definition HEIGHTS :: "u64 set" where
  "HEIGHTS = {n. n < 2 ^ 32}"

lemma HEIGHTS_iff: "n \<in> HEIGHTS \<longleftrightarrow> n < 2 ^ 32"
  by (simp add: HEIGHTS_def)

lemma block_number_key_inj: "inj_on block_number_key HEIGHTS"
proof (rule inj_onI)
  fix n n' :: u64 assume n: "n \<in> HEIGHTS" "n' \<in> HEIGHTS" and e: "block_number_key n = block_number_key n'"
  then have "unat n mod 2 ^ 32 = unat n' mod 2 ^ 32" using block_number_key_val by metis
  moreover have "unat n < 2 ^ 32" "unat n' < 2 ^ 32" using n by (simp_all add: HEIGHTS_def word_less_nat_alt)
  ultimately show "n = n'" by (simp add: word_unat_eq_iff)
qed

interpretation number_table: cached_table block_number_key "enc_hash E" dec_hash COL_EXTRA "good_hash E" "HEIGHTS" for E
  by unfold_locales (use hash_trip block_number_key_inj in \<open>fastforce\<close>)+

subsection \<open>The store\<close>

text \<open>
  The trait object behind the chain: \<open>get\<close> gives what the store holds, and \<open>write\<close> applies the operations of a
  batch in order. This is the contract \<open>kv_store\<close> for a store that does not fail, over the columns of the chain.
\<close>

locale chain_store =
  fixes E :: "('sk, 'pk, 'rs, 'db) env"
    and dinv :: "'db \<Rightarrow> bool"
    and view :: "'db \<Rightarrow> store"
  assumes get_ok: "dinv d \<Longrightarrow> c \<in> {COL_HEADERS, COL_BODIES, COL_EXTRA} \<Longrightarrow> e_get E d c k = Some (Inr (view d c k))"
    and write_ok: "dinv d \<Longrightarrow> ops_ok {COL_HEADERS, COL_BODIES, COL_EXTRA} (ops tr) \<Longrightarrow>
      \<exists>d'. e_write E tr d = Some (Inr (), d') \<and> dinv d' \<and> view d' = foldl apply_op (view d) (ops tr)"
    and sha3_law: "sha3_ok E"
    and bo_law: "big_endian (e_bo E)"

text \<open>The in-memory store keeps the contract.\<close>

definition mem_env :: "('sk, 'pk, 'rs, 'x) env \<Rightarrow> ('sk, 'pk, 'rs, in_mem) env" where
  "mem_env X =
     \<lparr>e_sha3 = (\<lambda>b. take 32 (e_sha3 X b @ replicate 32 0)), e_bo = byteorder_be, e_secp = e_secp X, e_bls = e_bls X, e_get = mem_get,
      e_write = default_write (mem_write_buffered byteorder_be) mem_flush, e_gen_range = e_gen_range X,
      e_headers_size = e_headers_size X, e_bodies_size = e_bodies_size X, e_hashes_size = e_hashes_size X,
      e_addresses_size = e_addresses_size X\<rparr>"

definition mem_ok :: "in_mem \<Rightarrow> bool" where
  "mem_ok d \<longleftrightarrow> mem_inv d \<and> {COL_HEADERS, COL_BODIES, COL_EXTRA} \<subseteq> mem_cols d"

interpretation mem_chain: chain_store "mem_env X" mem_ok mem_view for X
proof
  fix d c k assume "mem_ok d" "c \<in> {COL_HEADERS, COL_BODIES, COL_EXTRA}"
  then show "e_get (mem_env X) d c k = Some (Inr (mem_view d c k))"
    by (auto simp: mem_env_def mem_ok_def mem_get_def mem_view_def mem_cols_def split: option.splits)
next
  fix d and tr :: db_transaction
  assume d: "mem_ok d" and o: "ops_ok {COL_HEADERS, COL_BODIES, COL_EXTRA} (ops tr)"
  then have "ops_ok (mem_cols d) (ops tr)" by (auto simp: ops_ok_def mem_ok_def)
  then obtain d' where d': "mem_write_buffered byteorder_be tr d = Some d'" "mem_inv d'" "mem_cols d' = mem_cols d"
    "mem_view d' = foldl apply_op (mem_view d) (ops tr)"
    using mem.write_buffered_ok[of d tr byteorder_be] d by (auto simp: mem_ok_def)
  then show "\<exists>d'. e_write (mem_env X) tr d = Some (Inr (), d') \<and> mem_ok d' \<and> mem_view d' = foldl apply_op (mem_view d) (ops tr)"
    using d by (auto simp: mem_env_def default_write_def mem_flush_def mem_ok_def)
qed (auto simp: mem_env_def sha3_ok_def)

subsection \<open>The invariant and the views\<close>

text \<open>Every cache is coherent with the store, and the store holds encodings of good values only.\<close>

definition tables_ok :: "('sk, 'pk, 'rs, 'db) env \<Rightarrow> store \<Rightarrow> 'db chain \<Rightarrow> bool" where
  "tables_ok E st s \<longleftrightarrow>
     cached_table.coherent header_key (enc_rich E) COL_HEADERS (wf_rich E) UNIV (block_headers s) st \<and>
     cached_table.stored_ok header_key (enc_rich E) COL_HEADERS (wf_rich E) UNIV st \<and>
     cached_table.coherent body_key (enc_body E) COL_BODIES (good_body (e_bo E)) UNIV (block_bodies s) st \<and>
     cached_table.stored_ok body_key (enc_body E) COL_BODIES (good_body (e_bo E)) UNIV st \<and>
     cached_table.coherent address_key (enc_address E) COL_EXTRA (good_address (e_bo E)) UNIV (transaction_addresses s) st \<and>
     cached_table.stored_ok address_key (enc_address E) COL_EXTRA (good_address (e_bo E)) UNIV st \<and>
     cached_table.coherent block_number_key (enc_hash E) COL_EXTRA (good_hash E) HEIGHTS (block_hashes s) st \<and>
     cached_table.stored_ok block_number_key (enc_hash E) COL_EXTRA (good_hash E) HEIGHTS st"

definition chain_ok :: "('sk, 'pk, 'rs, 'db) env \<Rightarrow> ('db \<Rightarrow> bool) \<Rightarrow> ('db \<Rightarrow> store) \<Rightarrow> store \<Rightarrow> 'db chain \<Rightarrow> bool" where
  "chain_ok E dinv view st s \<longleftrightarrow>
     dinv (c_db s) \<and> manager_ok (cache_man s) \<and> hc_queue (txs_cache s) \<noteq> [] \<and> tables_ok E st s \<and>
     cached_table.agrees header_key COL_HEADERS UNIV (block_headers s) (view (c_db s)) st \<and>
     cached_table.agrees body_key COL_BODIES UNIV (block_bodies s) (view (c_db s)) st \<and>
     cached_table.agrees block_number_key COL_EXTRA HEIGHTS (block_hashes s) (view (c_db s)) st"

definition v_header :: "('sk, 'pk, 'rs, 'db) env \<Rightarrow> store \<Rightarrow> 'db chain \<Rightarrow> hash \<Rightarrow> rich_header option" where
  "v_header E st s = table_view header_key (dec_rich E) COL_HEADERS (block_headers s) st"

definition v_body :: "store \<Rightarrow> 'db chain \<Rightarrow> hash \<Rightarrow> body option" where
  "v_body st s = table_view body_key dec_body COL_BODIES (block_bodies s) st"

definition v_address :: "store \<Rightarrow> 'db chain \<Rightarrow> hash \<Rightarrow> transaction_address option" where
  "v_address st s = table_view address_key dec_address COL_EXTRA (transaction_addresses s) st"

definition v_number_db :: "store \<Rightarrow> 'db chain \<Rightarrow> block_number \<Rightarrow> hash option" where
  "v_number_db st s = table_view block_number_key dec_hash COL_EXTRA (block_hashes s) st"

definition v_number :: "store \<Rightarrow> 'db chain \<Rightarrow> block_number \<Rightarrow> hash option" where
  "v_number st s n =
     (case block_info_at (txs_cache s) n of
        Some (Some b) \<Rightarrow> Some (bi_hash b)
      | _ \<Rightarrow> v_number_db st s n)"

text \<open>The hashes of the transactions at a height: none above the best block.\<close>

definition v_txs_at :: "store \<Rightarrow> 'db chain \<Rightarrow> u64 \<Rightarrow> hash list option" where
  "v_txs_at st s n =
     (if n > current_height s then Some []
      else case block_info_at (txs_cache s) n of
        Some (Some b) \<Rightarrow> Some (bi_transactions b)
      | _ \<Rightarrow> map_option tx_hashes_of (Option.bind (v_number st s n) (v_body st s)))"

text \<open>Two states that differ in what is cached only.\<close>

definition core :: "'db chain \<Rightarrow> 'db \<times> block list \<times> (hash \<Rightarrow> block list option) \<times> u64 \<times> hash \<times> hash_cache \<times> sleepy_config \<times> hash list" where
  "core s = (c_db s, future_blocks s, unknown_parent s, current_height s, current_hash s, txs_cache s, c_config s, outbox s)"

definition same :: "('sk, 'pk, 'rs, 'db) env \<Rightarrow> store \<Rightarrow> 'db chain \<Rightarrow> 'db chain \<Rightarrow> bool" where
  "same E st s s' \<longleftrightarrow>
     core s' = core s \<and> v_header E st s' = v_header E st s \<and> v_body st s' = v_body st s \<and>
     v_address st s' = v_address st s \<and> v_number_db st s' = v_number_db st s"

definition yields ::
    "('sk, 'pk, 'rs, 'db) env \<Rightarrow> ('db \<Rightarrow> bool) \<Rightarrow> ('db \<Rightarrow> store) \<Rightarrow> store \<Rightarrow> 'db chain \<Rightarrow> ('a \<times> 'db chain) option \<Rightarrow> 'a \<Rightarrow> bool" where
  "yields E dinv view st s r x \<longleftrightarrow> (\<exists>s'. r = Some (x, s') \<and> chain_ok E dinv view st s' \<and> same E st s s')"

lemma same_refl [simp]: "same E st s s"
  by (simp add: same_def)

lemma same_fields:
  assumes "same E st s s'"
  shows "c_db s' = c_db s" and "txs_cache s' = txs_cache s" and "c_config s' = c_config s"
    and "current_height s' = current_height s" and "current_hash s' = current_hash s"
    and "future_blocks s' = future_blocks s" and "unknown_parent s' = unknown_parent s" and "outbox s' = outbox s"
    and "v_header E st s' = v_header E st s" and "v_body st s' = v_body st s"
    and "v_address st s' = v_address st s" and "v_number_db st s' = v_number_db st s"
    and "v_number st s' = v_number st s"
proof -
  show "c_db s' = c_db s" "c_config s' = c_config s"
    "current_height s' = current_height s" "current_hash s' = current_hash s"
    "future_blocks s' = future_blocks s" "unknown_parent s' = unknown_parent s" "outbox s' = outbox s"
    "v_header E st s' = v_header E st s" "v_body st s' = v_body st s"
    "v_address st s' = v_address st s"
    and t: "txs_cache s' = txs_cache s" and n: "v_number_db st s' = v_number_db st s"
    using assms by (simp_all add: same_def core_def)
  show "v_number st s' = v_number st s" by (rule ext) (unfold v_number_def t n, rule refl)
qed

lemma same_trans: "same E st s s' \<Longrightarrow> same E st s' s'' \<Longrightarrow> same E st s s''"
  by (simp add: same_def)

lemma yields_return: "chain_ok E dinv view st s \<Longrightarrow> yields E dinv view st s (Some (x, s)) x"
  by (simp add: yields_def)

lemma yields_bind:
  assumes "yields E dinv view st s r x"
    and "\<And>s'. chain_ok E dinv view st s' \<Longrightarrow> same E st s s' \<Longrightarrow> yields E dinv view st s' (f x s') y"
  shows "yields E dinv view st s (Option.bind r (\<lambda>(x, s). f x s)) y"
proof -
  obtain s' where s': "r = Some (x, s')" "chain_ok E dinv view st s'" "same E st s s'"
    using assms(1) by (auto simp: yields_def)
  from assms(2)[OF s'(2,3)] show ?thesis using s'(1,3) same_trans by (fastforce simp: yields_def)
qed

subsection \<open>Lookups\<close>

context chain_store
begin

lemma header_gets: "dinv (c_db s) \<Longrightarrow> cached_table.gets header_key COL_HEADERS (e_get E (c_db s)) (view (c_db s))"
  by (simp add: header_table.gets_def get_ok)

lemma body_gets: "dinv (c_db s) \<Longrightarrow> cached_table.gets body_key COL_BODIES (e_get E (c_db s)) (view (c_db s))"
  by (simp add: body_table.gets_def get_ok)

lemma address_gets: "dinv (c_db s) \<Longrightarrow> cached_table.gets address_key COL_EXTRA (e_get E (c_db s)) (view (c_db s))"
  by (simp add: address_table.gets_def get_ok)

lemma number_gets: "dinv (c_db s) \<Longrightarrow> cached_table.gets block_number_key COL_EXTRA (e_get E (c_db s)) (view (c_db s))"
  by (simp add: number_table.gets_def get_ok)

lemma note_id_ok: "manager_ok (cache_man s) \<Longrightarrow> \<exists>m. note_id i s = Some (s\<lparr>cache_man := m\<rparr>) \<and> manager_ok m"
  using note_used_ok[of "cache_man s" i] by (auto simp: note_id_def)

lemma header_yields:
  assumes "chain_ok E dinv view st s"
  shows "yields E dinv view st s (get_block_header_by_hash E h s) (v_header E st s h)"
proof -
  note ok = assms(1)[unfolded chain_ok_def tables_ok_def]
  obtain c where c: "read_with_cache header_key (dec_rich E) (e_get E (c_db s)) COL_HEADERS (block_headers s) h = Some (v_header E st s h, c)"
    "cached_table.coherent header_key (enc_rich E) COL_HEADERS (wf_rich E) UNIV c st" "cached_table.agrees header_key COL_HEADERS UNIV c (view (c_db s)) st"
    "table_view header_key (dec_rich E) COL_HEADERS c st = v_header E st s"
    using header_table.read_view[of E "block_headers s" st "e_get E (c_db s)" "view (c_db s)" h] ok header_gets[of s]
    by (auto simp: v_header_def)
  obtain m where m: "note_id (BlockHeader h) (s\<lparr>block_headers := c\<rparr>) = Some (s\<lparr>block_headers := c, cache_man := m\<rparr>)" "manager_ok m"
    using note_id_ok[of "s\<lparr>block_headers := c\<rparr>"] ok by auto
  have "chain_ok E dinv view st (s\<lparr>block_headers := c, cache_man := m\<rparr>)"
    using ok c(2,3) m(2) by (simp add: chain_ok_def tables_ok_def)
  moreover have "same E st s (s\<lparr>block_headers := c, cache_man := m\<rparr>)"
    using c(4) by (simp add: same_def core_def v_header_def v_body_def v_address_def v_number_db_def)
  ultimately show ?thesis by (simp add: yields_def get_block_header_by_hash_def c(1) m(1))
qed

lemma body_yields:
  assumes "chain_ok E dinv view st s"
  shows "yields E dinv view st s (get_block_body_by_hash E h s) (v_body st s h)"
proof -
  note ok = assms(1)[unfolded chain_ok_def tables_ok_def]
  obtain c where c: "read_with_cache body_key dec_body (e_get E (c_db s)) COL_BODIES (block_bodies s) h = Some (v_body st s h, c)"
    "cached_table.coherent body_key (enc_body E) COL_BODIES (good_body (e_bo E)) UNIV c st" "cached_table.agrees body_key COL_BODIES UNIV c (view (c_db s)) st"
    "table_view body_key dec_body COL_BODIES c st = v_body st s"
    using body_table.read_view[of E "block_bodies s" st "e_get E (c_db s)" "view (c_db s)" h] ok body_gets[of s]
    by (auto simp: v_body_def)
  obtain m where m: "note_id (BlockBody h) (s\<lparr>block_bodies := c\<rparr>) = Some (s\<lparr>block_bodies := c, cache_man := m\<rparr>)" "manager_ok m"
    using note_id_ok[of "s\<lparr>block_bodies := c\<rparr>"] ok by auto
  have "chain_ok E dinv view st (s\<lparr>block_bodies := c, cache_man := m\<rparr>)"
    using ok c(2,3) m(2) by (simp add: chain_ok_def tables_ok_def)
  moreover have "same E st s (s\<lparr>block_bodies := c, cache_man := m\<rparr>)"
    using c(4) by (simp add: same_def core_def v_header_def v_body_def v_address_def v_number_db_def)
  ultimately show ?thesis by (simp add: yields_def get_block_body_by_hash_def c(1) m(1))
qed

lemma address_yields:
  assumes "chain_ok E dinv view st s"
    and "cached_table.agrees address_key COL_EXTRA UNIV (transaction_addresses s) (view (c_db s)) st"
  shows "yields E dinv view st s (get_transaction_address E h s) (v_address st s h)"
proof -
  note ok = assms(1)[unfolded chain_ok_def tables_ok_def]
  obtain c where c: "read_with_cache address_key dec_address (e_get E (c_db s)) COL_EXTRA (transaction_addresses s) h = Some (v_address st s h, c)"
    "cached_table.coherent address_key (enc_address E) COL_EXTRA (good_address (e_bo E)) UNIV c st" "cached_table.agrees address_key COL_EXTRA UNIV c (view (c_db s)) st"
    "table_view address_key dec_address COL_EXTRA c st = v_address st s"
    using address_table.read_view[of E "transaction_addresses s" st "e_get E (c_db s)" "view (c_db s)" h] ok address_gets[of s] assms(2)
    by (auto simp: v_address_def)
  obtain m where m: "note_id (TransactionAddresses h) (s\<lparr>transaction_addresses := c\<rparr>) = Some (s\<lparr>transaction_addresses := c, cache_man := m\<rparr>)" "manager_ok m"
    using note_id_ok[of "s\<lparr>transaction_addresses := c\<rparr>"] ok by auto
  have "chain_ok E dinv view st (s\<lparr>transaction_addresses := c, cache_man := m\<rparr>)"
    using ok c(2,3) m(2) by (simp add: chain_ok_def tables_ok_def)
  moreover have "same E st s (s\<lparr>transaction_addresses := c, cache_man := m\<rparr>)"
    using c(4) by (simp add: same_def core_def v_header_def v_body_def v_address_def v_number_db_def)
  ultimately show ?thesis by (simp add: yields_def get_transaction_address_def c(1) m(1))
qed

lemma number_db_yields:
  assumes "chain_ok E dinv view st s" and "h < 2 ^ 32"
  shows "yields E dinv view st s (block_hash_by_number_db E h s) (v_number_db st s h)"
proof -
  note ok = assms(1)[unfolded chain_ok_def tables_ok_def]
  obtain c where c: "read_with_cache block_number_key dec_hash (e_get E (c_db s)) COL_EXTRA (block_hashes s) h = Some (v_number_db st s h, c)"
    "cached_table.coherent block_number_key (enc_hash E) COL_EXTRA (good_hash E) HEIGHTS c st" "cached_table.agrees block_number_key COL_EXTRA HEIGHTS c (view (c_db s)) st"
    "table_view block_number_key dec_hash COL_EXTRA c st = v_number_db st s"
    using number_table.read_view[of E "block_hashes s" st "e_get E (c_db s)" "view (c_db s)" h] ok number_gets[of s] assms(2)[folded HEIGHTS_iff]
    by (auto simp: v_number_db_def)
  obtain m where m: "note_id (BlockHashes h) (s\<lparr>block_hashes := c\<rparr>) = Some (s\<lparr>block_hashes := c, cache_man := m\<rparr>)" "manager_ok m"
    using note_id_ok[of "s\<lparr>block_hashes := c\<rparr>"] ok by auto
  have "chain_ok E dinv view st (s\<lparr>block_hashes := c, cache_man := m\<rparr>)"
    using ok c(2,3) m(2) by (simp add: chain_ok_def tables_ok_def)
  moreover have "same E st s (s\<lparr>block_hashes := c, cache_man := m\<rparr>)"
    using c(4) by (simp add: same_def core_def v_header_def v_body_def v_address_def v_number_db_def)
  ultimately show ?thesis by (simp add: yields_def block_hash_by_number_db_def c(1) m(1))
qed

lemma block_info_total: "hc_queue c \<noteq> [] \<Longrightarrow> \<exists>b. block_info_at c n = Some b"
  by (auto simp: block_info_at_def best_height_def csub_def Let_def)

lemma number_yields:
  assumes "chain_ok E dinv view st s" and "n < 2 ^ 32"
  shows "yields E dinv view st s (block_hash_by_number E n s) (v_number st s n)"
proof -
  obtain b where b: "block_info_at (txs_cache s) n = Some b"
    using block_info_total assms(1) unfolding chain_ok_def by blast
  then show ?thesis
    using yields_return[OF assms(1)] number_db_yields[OF assms]
    by (cases b) (simp_all add: block_hash_by_number_def v_number_def)
qed

lemma tx_hashes_yields:
  assumes "chain_ok E dinv view st s" and "v_body st s h = Some b"
  shows "yields E dinv view st s (block_transaction_hashes_by_hash E h s) (tx_hashes_of b)"
  using body_yields[OF assms(1), of h] assms(2)
  by (auto simp: yields_def block_transaction_hashes_by_hash_def)

lemma body_by_height_yields:
  assumes "chain_ok E dinv view st s" and "n < 2 ^ 32"
  shows "yields E dinv view st s (get_block_body_by_height E n s) (Option.bind (v_number st s n) (v_body st s))"
  unfolding get_block_body_by_height_def
proof (rule yields_bind[OF number_yields[OF assms]])
  fix s' assume s': "chain_ok E dinv view st s'" "same E st s s'"
  show "yields E dinv view st s' (case v_number st s n of None \<Rightarrow> Some (None, s') | Some h \<Rightarrow> get_block_body_by_hash E h s')
      (Option.bind (v_number st s n) (v_body st s))"
    using yields_return[OF s'(1)] body_yields[OF s'(1)] same_fields(10)[OF s'(2)]
    by (cases "v_number st s n") simp_all
qed

lemma txs_at_yields:
  assumes "chain_ok E dinv view st s" and "n < 2 ^ 32" and "v_txs_at st s n = Some txs"
  shows "yields E dinv view st s (block_transaction_hashes_by_height E n s) txs"
proof (cases "n > current_height s")
  case True
  then show ?thesis using assms(3) yields_return[OF assms(1)]
    by (simp add: v_txs_at_def block_transaction_hashes_by_height_def)
next
  case False
  obtain b where b: "block_info_at (txs_cache s) n = Some b"
    using block_info_total assms(1) unfolding chain_ok_def by blast
  show ?thesis
  proof (cases b)
    case (Some bi)
    then show ?thesis using False b assms(3) yields_return[OF assms(1)]
      by (simp add: v_txs_at_def block_transaction_hashes_by_height_def)
  next
    case None
    then obtain bd where bd: "Option.bind (v_number st s n) (v_body st s) = Some bd" "txs = tx_hashes_of bd"
      using False b assms(3) by (auto simp: v_txs_at_def)
    show ?thesis
      using False b None bd body_by_height_yields[OF assms(1,2)]
      by (auto simp: yields_def block_transaction_hashes_by_height_def block_transaction_hashes_by_height_db_def)
  qed
qed

end

end
