(* ===== verification/ChainWalk.thy ===== *)
theory ChainWalk
  imports ChainView
begin

section \<open>Walking back along a fork\<close>

text \<open>
  What the functions of \<open>chain.rs\<close> that walk from a block towards the best chain compute: the ancestor at a
  height, the blocks of the fork and their transactions. The specifications are over the views of the tables
  and know nothing of caches and states.
\<close>

subsection \<open>Ancestors\<close>

fun ancestor :: "(hash \<Rightarrow> rich_header option) \<Rightarrow> nat \<Rightarrow> hash \<Rightarrow> hash option" where
  "ancestor hv 0 h = Some h"
| "ancestor hv (Suc k) h = Option.bind (hv h) (\<lambda>r. ancestor hv k (parent_hash (rh_header r)))"

text \<open>The numbers up to \<open>tip\<close> name a chain: the parent of the block at a number is the block below.\<close>

definition linked :: "(hash \<Rightarrow> rich_header option) \<Rightarrow> (u64 \<Rightarrow> hash option) \<Rightarrow> u64 \<Rightarrow> bool" where
  "linked hv nv tip \<longleftrightarrow> (\<forall>n x. n \<noteq> 0 \<longrightarrow> n \<le> tip \<longrightarrow> nv n = Some x \<longrightarrow>
     (\<exists>r. hv x = Some r \<and> nv (n - 1) = Some (parent_hash (rh_header r))))"

lemma linked_mono: "linked hv nv tip \<Longrightarrow> tip' \<le> tip \<Longrightarrow> linked hv nv tip'"
  unfolding linked_def by (meson order_trans)

lemma pred_word: "(n :: u64) \<noteq> 0 \<Longrightarrow> unat (n - 1) = unat n - 1"
  by (simp add: unat_sub word_le_nat_alt unat_gt_0 Suc_le_eq)

lemma csub_one: "csub (n :: u64) 1 = (if n = 0 then None else Some (n - 1))"
  by (auto simp: csub_def word_le_nat_alt unat_gt_0 Suc_le_eq)

lemma linked_ancestor:
  "linked hv nv tip \<Longrightarrow> n \<le> tip \<Longrightarrow> nv n = Some x \<Longrightarrow> m \<le> n \<Longrightarrow> nv m = ancestor hv (unat n - unat m) x"
proof (induction "unat n - unat m" arbitrary: n x)
  case 0
  then have "m = n" by (simp add: word_le_nat_alt word_unat_eq_iff)
  then show ?case using 0 by simp
next
  case (Suc k)
  have n0: "n \<noteq> 0" using Suc.hyps(2) by auto
  then obtain r where r: "hv x = Some r" "nv (n - 1) = Some (parent_hash (rh_header r))"
    using Suc.prems(1-3) unfolding linked_def by blast
  have p: "unat (n - 1) = unat n - 1" by (rule pred_word[OF n0])
  have "k = unat (n - 1) - unat m" "n - 1 \<le> tip" "m \<le> n - 1"
    using Suc.hyps(2) Suc.prems(2) p by (simp_all add: word_le_nat_alt)
  from Suc.hyps(1)[OF this(1) Suc.prems(1) this(2) r(2) this(3)] this(1)
  have "nv m = ancestor hv k (parent_hash (rh_header r))" by simp
  then show ?case using r(1) Suc.hyps(2)[symmetric] by simp
qed

context chain_store
begin

lemma fork_loop_yields:
  "chain_ok E dinv view st s \<Longrightarrow> height < 2 ^ 32 \<Longrightarrow> number \<le> height \<Longrightarrow> linked (v_header E st s) (v_number st s) height \<Longrightarrow>
    yields E dinv view st s (fork_loop E number height h s) (ancestor (v_header E st s) (unat height - unat number) h)"
proof (induction "unat height - unat number" arbitrary: height h s)
  case 0
  then have "height = number" by (simp add: word_le_nat_alt word_unat_eq_iff)
  then show ?case using yields_return[OF 0(2)] by (simp add: fork_loop.simps)
next
  case (Suc k)
  let ?hv = "v_header E st s" and ?nv = "v_number st s"
  have ne: "height \<noteq> number" and h0: "height \<noteq> 0" using Suc.hyps(2) by auto
  have p: "unat (height - 1) = unat height - 1" by (rule pred_word[OF h0])
  have below: "k = unat (height - 1) - unat number" "height - 1 < 2 ^ 32" "number \<le> height - 1" "height - 1 \<le> height"
    using Suc.hyps(2) Suc.prems(2) p by (simp_all add: word_le_nat_alt word_less_nat_alt)
  have n32: "number < 2 ^ 32" using Suc.prems(2,3) by simp
  show ?case
    unfolding fork_loop.simps[of E number height h s] using ne
  proof (simp, intro yields_bind[OF number_yields[OF Suc.prems(1,2)]])
    fix s' assume s': "chain_ok E dinv view st s'" "same E st s s'"
    note f = same_fields[OF s'(2)]
    show "yields E dinv view st s' (if Some h = ?nv height then block_hash_by_number E number s'
        else Option.bind (get_block_header_by_hash E h s') (\<lambda>(hdr, s). case hdr of None \<Rightarrow> Some (None, s)
          | Some hdr \<Rightarrow> Option.bind (csub height 1) (\<lambda>height'. fork_loop E number height' (parent_hash (rh_header hdr)) s)))
      (ancestor ?hv (unat height - unat number) h)"
    proof (cases "Some h = ?nv height")
      case True
      have "?nv number = ancestor ?hv (unat height - unat number) h"
        by (rule linked_ancestor[OF Suc.prems(4) order_refl True[symmetric] Suc.prems(3)])
      then show ?thesis using True number_yields[OF s'(1) n32] f by simp
    next
      case False
      show ?thesis
        unfolding if_not_P[OF False]
      proof (rule yields_bind[OF header_yields[OF s'(1)]])
        fix s'' assume s'': "chain_ok E dinv view st s''" "same E st s' s''"
        note g = same_fields[OF s''(2)]
        show "yields E dinv view st s'' (case v_header E st s' h of None \<Rightarrow> Some (None, s'')
            | Some hdr \<Rightarrow> Option.bind (csub height 1) (\<lambda>height'. fork_loop E number height' (parent_hash (rh_header hdr)) s''))
          (ancestor ?hv (unat height - unat number) h)"
        proof (cases "?hv h")
          case None
          then show ?thesis using yields_return[OF s''(1)] f Suc.hyps(2)[symmetric] by simp
        next
          case (Some r)
          have "linked (v_header E st s'') (v_number st s'') (height - 1)"
            using linked_mono[OF Suc.prems(4) below(4)] f g by simp
          from Suc.hyps(1)[OF below(1) s''(1) below(2,3) this] below(1)
          show ?thesis using Some f g h0 Suc.hyps(2)[symmetric] by (simp add: csub_one)
        qed
      qed
    qed
  qed
qed

lemma by_number_fork_yields:
  assumes "chain_ok E dinv view st s" and "height < 2 ^ 32" and "linked (v_header E st s) (v_number st s) height"
  shows "yields E dinv view st s (block_hash_by_number_fork E number height h s)
    (if height < number then None else ancestor (v_header E st s) (unat height - unat number) h)"
  using yields_return[OF assms(1), of "None :: hash option"] fork_loop_yields[OF assms(1,2) _ assms(3)]
  by (simp add: block_hash_by_number_fork_def)

end

subsection \<open>The blocks of a fork\<close>

text \<open>The blocks from a block down to the best chain, and the height at which it is met.\<close>

function fork_path ::
    "(hash \<Rightarrow> rich_header option) \<Rightarrow> (u64 \<Rightarrow> hash option) \<Rightarrow> u64 \<Rightarrow> hash \<Rightarrow> ((u64 \<times> hash) list \<times> u64) option" where
  "fork_path hv nv n h =
     (if Some h = nv n \<or> n = 0 then Some ([], n)
      else do {
        r \<leftarrow> hv h;
        (path, base) \<leftarrow> fork_path hv nv (n - 1) (parent_hash (rh_header r));
        Some ((n, h) # path, base) })"
  by pat_completeness auto
termination
  by (relation "measure (\<lambda>(_, _, n, _). unat n)") (auto simp: pred_word unat_gt_0)

declare fork_path.simps [simp del]

lemma fork_path_stop: "Some h = nv n \<or> n = 0 \<Longrightarrow> fork_path hv nv n h = Some ([], n)"
  by (simp add: fork_path.simps)

lemma fork_path_step:
  assumes "\<not> (Some h = nv n \<or> n = 0)" and "fork_path hv nv n h = Some (path, base)"
  shows "\<exists>r rest. hv h = Some r \<and> fork_path hv nv (n - 1) (parent_hash (rh_header r)) = Some (rest, base) \<and> path = (n, h) # rest"
  using assms by (auto simp: fork_path.simps[of hv nv n h] bind_eq_Some_conv)

text \<open>The heights of the path go down by one, to just above the base.\<close>

lemma fork_path_heights:
  "fork_path hv nv n h = Some (path, base) \<Longrightarrow>
    base \<le> n \<and> map fst path = map (\<lambda>i. n - of_nat i) [0..<length path] \<and> unat base + length path = unat n"
proof (induction path arbitrary: n h)
  case Nil
  then have "Some h = nv n \<or> n = 0" using fork_path_step[of h nv n hv "[]" base] by blast
  then show ?case using Nil by (simp add: fork_path_stop)
next
  case (Cons p path)
  then have ns: "\<not> (Some h = nv n \<or> n = 0)" by (auto simp: fork_path_stop)
  then obtain r :: rich_header where r: "fork_path hv nv (n - 1) (parent_hash (rh_header r)) = Some (path, base)" "p = (n, h)"
    using fork_path_step[OF ns Cons.prems] by auto
  note ih = Cons.IH[OF r(1)]
  have p: "unat (n - 1) = unat n - 1" "n - 1 \<le> n" using ns pred_word[of n] by (simp_all add: word_le_nat_alt)
  have "map (\<lambda>i. n - of_nat i) [0..<Suc (length path)] = n # map (\<lambda>i. n - 1 - of_nat i) [0..<length path]"
    unfolding upt_conv_Cons[OF zero_less_Suc] map_Suc_upt[symmetric] by (simp add: comp_def algebra_simps)
  then show ?case using ih p r(2) ns by (simp add: unat_gt_0 Suc_le_eq) (metis Suc_pred add_Suc_right order_trans unat_gt_0)
qed

definition fork_info ::
    "('sk, 'pk, 'rs, 'db) env \<Rightarrow> (hash \<Rightarrow> rich_header option) \<Rightarrow> (hash \<Rightarrow> body option) \<Rightarrow> hash \<Rightarrow> block_info option" where
  "fork_info E hv bv h = do { r \<leftarrow> hv h; b \<leftarrow> bv h; info_of E r (tx_hashes_of b) }"

definition path_infos ::
    "('sk, 'pk, 'rs, 'db) env \<Rightarrow> (hash \<Rightarrow> rich_header option) \<Rightarrow> (hash \<Rightarrow> body option) \<Rightarrow> (u64 \<times> hash) list \<Rightarrow> block_info list option" where
  "path_infos E hv bv path = those (map (\<lambda>(n, h). fork_info E hv bv h) path)"

definition path_txs :: "(hash \<Rightarrow> body option) \<Rightarrow> (u64 \<times> hash) list \<Rightarrow> hash list" where
  "path_txs bv path = concat (map (\<lambda>(n, h). case bv h of Some b \<Rightarrow> tx_hashes_of b | None \<Rightarrow> []) path)"

lemma path_infos_Cons:
  "path_infos E hv bv ((n, h) # path) = Some bs \<longleftrightarrow>
    (\<exists>b bs'. fork_info E hv bv h = Some b \<and> path_infos E hv bv path = Some bs' \<and> bs = b # bs')"
  by (auto simp: path_infos_def split: option.splits)

lemma those_length: "those xs = Some ys \<Longrightarrow> length ys = length xs"
  by (induction xs arbitrary: ys) (auto split: option.splits)

lemma path_infos_length: "path_infos E hv bv path = Some bs \<Longrightarrow> length bs = length path"
  unfolding path_infos_def by (drule those_length) simp

context chain_store
begin

lemma fork_chain_yields:
  "chain_ok E dinv view st s \<Longrightarrow> n < 2 ^ 32 \<Longrightarrow> fork_path (v_header E st s) (v_number st s) n h = Some (path, base) \<Longrightarrow>
    path_infos E (v_header E st s) (v_body st s) path = Some bs \<Longrightarrow>
    yields E dinv view st s (fork_chain_loop E n h acc s) (acc @ bs)"
proof (induction path arbitrary: n h s acc bs)
  case Nil
  then have stop: "Some h = v_number st s n \<or> n = 0"
    using fork_path_step[of h "v_number st s" n "v_header E st s" "[]" base] by blast
  have bs: "bs = []" using Nil.prems(4) by (simp add: path_infos_def)
  show ?case
    unfolding fork_chain_loop.simps[of E n h acc s]
    by (rule yields_bind[OF number_yields[OF Nil.prems(1,2)]]) (use stop bs in \<open>auto intro: yields_return\<close>)
next
  case (Cons p path)
  let ?hv = "v_header E st s" and ?nv = "v_number st s" and ?bv = "v_body st s"
  have ns: "\<not> (Some h = ?nv n \<or> n = 0)" using Cons.prems(3) by (auto simp: fork_path_stop)
  then obtain r :: rich_header where r: "?hv h = Some r" "fork_path ?hv ?nv (n - 1) (parent_hash (rh_header r)) = Some (path, base)" "p = (n, h)"
    using fork_path_step[OF ns Cons.prems(3)] by auto
  obtain b bs' where b: "fork_info E ?hv ?bv h = Some b" "path_infos E ?hv ?bv path = Some bs'" "bs = b # bs'"
    using Cons.prems(4) unfolding r(3) path_infos_Cons by blast
  then obtain bd where bd: "?bv h = Some bd" "info_of E r (tx_hashes_of bd) = Some b"
    using r(1) by (auto simp: fork_info_def bind_eq_Some_conv)
  have n1: "n - 1 < 2 ^ 32" using Cons.prems(2) ns pred_word[of n] by (simp add: word_less_nat_alt)
  show ?case
    unfolding fork_chain_loop.simps[of E n h acc s]
  proof (rule yields_bind[OF number_yields[OF Cons.prems(1,2)]])
    fix s1 assume s1: "chain_ok E dinv view st s1" "same E st s s1"
    note f = same_fields[OF s1(2)]
    show "yields E dinv view st s1 (if Some h = ?nv n \<or> n = 0 then Some (acc, s1)
        else Option.bind (get_block_header_by_hash E h s1) (\<lambda>(hdr, s). Option.bind hdr (\<lambda>hdr.
          Option.bind (block_transaction_hashes_by_hash E h s) (\<lambda>(txs, s). Option.bind (info_of E hdr txs) (\<lambda>b.
          Option.bind (csub n 1) (\<lambda>height'. fork_chain_loop E height' (parent_hash (rh_header hdr)) (acc @ [b]) s))))))
      (acc @ bs)"
      unfolding if_not_P[OF ns]
    proof (rule yields_bind[OF header_yields[OF s1(1)]])
      fix s2 assume s2: "chain_ok E dinv view st s2" "same E st s1 s2"
      note g = same_fields[OF s2(2)]
      have bd2: "v_body st s2 h = Some bd" using bd(1) f g by simp
      have h1: "v_header E st s1 h = Some r" using r(1) f by simp
      show "yields E dinv view st s2 (Option.bind (v_header E st s1 h) (\<lambda>hdr.
          Option.bind (block_transaction_hashes_by_hash E h s2) (\<lambda>(txs, s). Option.bind (info_of E hdr txs) (\<lambda>b.
          Option.bind (csub n 1) (\<lambda>height'. fork_chain_loop E height' (parent_hash (rh_header hdr)) (acc @ [b]) s)))))
        (acc @ bs)"
        unfolding h1 bind.bind_lunit
      proof (rule yields_bind[OF tx_hashes_yields[OF s2(1) bd2]])
        fix s3 assume s3: "chain_ok E dinv view st s3" "same E st s2 s3"
        note k = same_fields[OF s3(2)]
        have "yields E dinv view st s3 (fork_chain_loop E (n - 1) (parent_hash (rh_header r)) (acc @ [b]) s3) ((acc @ [b]) @ bs')"
          by (rule Cons.IH[OF s3(1) n1]) (use r(2) b(2) f g k in simp_all)
        then show "yields E dinv view st s3 (Option.bind (info_of E r (tx_hashes_of bd)) (\<lambda>b.
            Option.bind (csub n 1) (\<lambda>height'. fork_chain_loop E height' (parent_hash (rh_header r)) (acc @ [b]) s3))) (acc @ bs)"
          using ns b(3) by (simp add: bd(2) csub_one)
      qed
    qed
  qed
qed

lemma get_fork_chain_yields:
  assumes "chain_ok E dinv view st s" and "n < 2 ^ 32"
    and "fork_path (v_header E st s) (v_number st s) n h = Some (path, base)"
    and "path_infos E (v_header E st s) (v_body st s) path = Some bs"
  shows "yields E dinv view st s (get_fork_chain E n h s) bs"
  using fork_chain_yields[OF assms, of "[]"] by (simp add: get_fork_chain_def)

lemma diff_loop_yields:
  "chain_ok E dinv view st s \<Longrightarrow> n < 2 ^ 32 \<Longrightarrow> fork_path (v_header E st s) (v_number st s) n h = Some (path, base) \<Longrightarrow>
    \<forall>(m, x) \<in> set path. v_body st s x \<noteq> None \<Longrightarrow>
    yields E dinv view st s (diff_loop E bs n h acc s)
      (if length path < unat bs \<and> (\<forall>(m, x) \<in> set path. \<exists>r. v_header E st s x = Some r \<and> rh_verified r)
       then Inr (base, acc \<union> set (path_txs (v_body st s) path)) else Inl LongFork)"
proof (induction path arbitrary: n h s acc bs)
  case Nil
  then have stop: "Some h = v_number st s n \<or> n = 0"
    using fork_path_step[of h "v_number st s" n "v_header E st s" "[]" base] by blast
  then have base: "base = n" using Nil.prems(3) by (simp add: fork_path_stop)
  show ?case
  proof (cases "bs = 0")
    case True
    then show ?thesis using yields_return[OF Nil.prems(1), of "Inl LongFork :: chain_error + u64 \<times> hash set"]
      by (simp add: diff_loop.simps[of E 0])
  next
    case False
    show ?thesis
      unfolding diff_loop.simps[of E bs n h acc s] if_not_P[OF False] csub_one bind.bind_lunit
      by (rule yields_bind[OF number_yields[OF Nil.prems(1,2)]])
        (use stop base False in \<open>auto intro: yields_return simp: path_txs_def unat_gt_0\<close>)
  qed
next
  case (Cons p path)
  let ?hv = "v_header E st s" and ?nv = "v_number st s" and ?bv = "v_body st s"
  have ns: "\<not> (Some h = ?nv n \<or> n = 0)" using Cons.prems(3) by (auto simp: fork_path_stop)
  then obtain r :: rich_header where r: "?hv h = Some r" "fork_path ?hv ?nv (n - 1) (parent_hash (rh_header r)) = Some (path, base)" "p = (n, h)"
    using fork_path_step[OF ns Cons.prems(3)] by auto
  obtain bd where bd: "?bv h = Some bd" using Cons.prems(4) r(3) by auto
  have n1: "n - 1 < 2 ^ 32" using Cons.prems(2) ns pred_word[of n] by (simp add: word_less_nat_alt)
  let ?res = "if length (p # path) < unat bs \<and> (\<forall>(m, x) \<in> set (p # path). \<exists>r. ?hv x = Some r \<and> rh_verified r)
       then Inr (base, acc \<union> set (path_txs ?bv (p # path))) else Inl LongFork"
  show ?case
  proof (cases "bs = 0")
    case True
    then show ?thesis using yields_return[OF Cons.prems(1), of "Inl LongFork :: chain_error + u64 \<times> hash set"]
      by (simp add: diff_loop.simps[of E 0])
  next
    case False
    show ?thesis
      unfolding diff_loop.simps[of E bs n h acc s] if_not_P[OF False] csub_one[of bs] bind.bind_lunit
    proof (rule yields_bind[OF number_yields[OF Cons.prems(1,2)]])
      fix s1 assume s1: "chain_ok E dinv view st s1" "same E st s s1"
      note f = same_fields[OF s1(2)]
      have b1: "v_body st s1 h = Some bd" using bd f by simp
      show "yields E dinv view st s1 (if Some h = ?nv n \<or> n = 0 then Some (Inr (n, acc), s1)
          else Option.bind (block_transaction_hashes_by_hash E h s1) (\<lambda>(txs, s).
            Option.bind (get_block_header_by_hash E h s) (\<lambda>(hdr, s). Option.bind hdr (\<lambda>hdr.
            if \<not> rh_verified hdr then Some (Inl LongFork, s)
            else Option.bind (csub n 1) (\<lambda>height'. diff_loop E (bs - 1) height' (parent_hash (rh_header hdr)) (acc \<union> set txs) s)))))
        ?res"
        unfolding if_not_P[OF ns]
      proof (rule yields_bind[OF tx_hashes_yields[OF s1(1) b1]])
        fix s2 assume s2: "chain_ok E dinv view st s2" "same E st s1 s2"
        note g = same_fields[OF s2(2)]
        show "yields E dinv view st s2 (Option.bind (get_block_header_by_hash E h s2) (\<lambda>(hdr, s). Option.bind hdr (\<lambda>hdr.
            if \<not> rh_verified hdr then Some (Inl LongFork, s)
            else Option.bind (csub n 1) (\<lambda>height'. diff_loop E (bs - 1) height' (parent_hash (rh_header hdr)) (acc \<union> set (tx_hashes_of bd)) s))))
          ?res"
        proof (rule yields_bind[OF header_yields[OF s2(1)]])
          fix s3 assume s3: "chain_ok E dinv view st s3" "same E st s2 s3"
          note k = same_fields[OF s3(2)]
          have h2: "v_header E st s2 h = Some r" using r(1) f g by simp
          show "yields E dinv view st s3 (Option.bind (v_header E st s2 h) (\<lambda>hdr.
              if \<not> rh_verified hdr then Some (Inl LongFork, s3)
              else Option.bind (csub n 1) (\<lambda>height'. diff_loop E (bs - 1) height' (parent_hash (rh_header hdr)) (acc \<union> set (tx_hashes_of bd)) s3)))
            ?res"
          proof (cases "rh_verified r")
            case False
            then show ?thesis
              using h2 r(1,3) yields_return[OF s3(1), of "Inl LongFork :: chain_error + u64 \<times> hash set"] by auto
          next
            case True
            let ?acc = "acc \<union> set (tx_hashes_of bd)"
            let ?rest = "if length path < unat (bs - 1) \<and> (\<forall>(m, x) \<in> set path. \<exists>r. ?hv x = Some r \<and> rh_verified r)
              then Inr (base, ?acc \<union> set (path_txs ?bv path)) else Inl LongFork"
            have e: "v_header E st s3 = ?hv" "v_body st s3 = ?bv" "v_number st s3 = ?nv" using f g k by simp_all
            have ih: "yields E dinv view st s3 (diff_loop E (bs - 1) (n - 1) (parent_hash (rh_header r)) ?acc s3) ?rest"
              by (rule Cons.IH[OF s3(1) n1, unfolded e]) (use r(2) Cons.prems(4) in simp_all)
            have "length path < unat (bs - 1) \<longleftrightarrow> length (p # path) < unat bs"
              using pred_word[OF \<open>bs \<noteq> 0\<close>] by auto
            moreover have "set (path_txs ?bv (p # path)) = set (tx_hashes_of bd) \<union> set (path_txs ?bv path)"
              using bd r(3) by (simp add: path_txs_def)
            moreover have "(\<forall>(m, x) \<in> set (p # path). \<exists>r. ?hv x = Some r \<and> rh_verified r) \<longleftrightarrow>
                (\<forall>(m, x) \<in> set path. \<exists>r. ?hv x = Some r \<and> rh_verified r)"
              using True r(1,3) by simp
            ultimately have res: "?res = ?rest" by (simp only: Un_assoc)
            show ?thesis unfolding res using ih ns True by (simp only: h2 bind.bind_lunit csub_one if_not_P de_Morgan_disj) simp
          qed
        qed
      qed
    qed
  qed
qed

end

end
