(* ===== verification/ChainInv.thy ===== *)
theory ChainInv
  imports ChainWalk
begin

section \<open>The caches of the chain stay coherent\<close>

text \<open>
  Inserting a block goes through many lookups and writes: headers, bodies, numbers, addresses, in a batch
  that reaches the store at the end. The caches are coherent with the store that the batch will make, at
  every step of it, on every path, the switch to another fork included.
\<close>

subsection \<open>Lookups that may panic\<close>

definition reads ::
    "('sk, 'pk, 'rs, 'db) env \<Rightarrow> ('db \<Rightarrow> bool) \<Rightarrow> ('db \<Rightarrow> store) \<Rightarrow> store \<Rightarrow> ('a \<Rightarrow> bool) \<Rightarrow> 'db chain \<Rightarrow>
      ('a \<times> 'db chain) option \<Rightarrow> bool" where
  "reads E dinv view st Q s r \<longleftrightarrow> (\<forall>x s'. r = Some (x, s') \<longrightarrow> chain_ok E dinv view st s' \<and> same E st s s' \<and> Q x)"

lemma readsD: "reads E dinv view st Q s r \<Longrightarrow> r = Some (x, s') \<Longrightarrow> chain_ok E dinv view st s' \<and> same E st s s' \<and> Q x"
  by (simp add: reads_def)

lemma reads_yields: "yields E dinv view st s r x \<Longrightarrow> Q x \<Longrightarrow> reads E dinv view st Q s r"
  by (auto simp: yields_def reads_def)

lemma reads_return: "chain_ok E dinv view st s \<Longrightarrow> Q x \<Longrightarrow> reads E dinv view st Q s (Some (x, s))"
  by (simp add: reads_def)

lemma reads_None: "reads E dinv view st Q s None"
  by (simp add: reads_def)

lemma reads_bind:
  assumes "reads E dinv view st P s r"
    and "\<And>x s'. chain_ok E dinv view st s' \<Longrightarrow> same E st s s' \<Longrightarrow> P x \<Longrightarrow> reads E dinv view st Q s' (f x s')"
  shows "reads E dinv view st Q s (Option.bind r (\<lambda>(x, s). f x s))"
proof (cases r)
  case (Some p)
  obtain x s' where p: "p = (x, s')" by force
  from readsD[OF assms(1)] Some p have s': "chain_ok E dinv view st s'" "same E st s s'" "P x" by auto
  from assms(2)[OF this] show ?thesis
    unfolding reads_def Some p using same_trans[OF s'(2)] by auto
qed (simp add: reads_None)

lemma reads_bind_option:
  assumes "\<And>y. x = Some y \<Longrightarrow> reads E dinv view st Q s (f y)"
  shows "reads E dinv view st Q s (Option.bind x f)"
  using assms by (cases x) (simp_all add: reads_None)

definition good_info :: "block_info \<Rightarrow> bool" where
  "good_info b \<longleftrightarrow> length (bi_hash b) = 32 \<and> bi_height b < 2 ^ 32 \<and> length (bi_transactions b) < 2 ^ 32"

lemma good_body_count: "good_body bo b \<Longrightarrow> length (tx_hashes_of b) < 2 ^ 32"
proof -
  assume g: "good_body bo b"
  then have s: "small (RList [RList (map stx_item (transactions b))])" by (simp add: good_body_def body_item_def)
  then have "small (RList (map stx_item (transactions b)))" by (rule small_child) simp
  then show ?thesis using u8_rlp.list_small_count[of "map stx_item (transactions b)"] by (simp add: small_def tx_hashes_of_def)
qed

lemma rh_hash_length: "wf_rich E h \<Longrightarrow> rh_hash E h = Some x \<Longrightarrow> length x = 32"
  by (cases "h_hash (rh_header h)") (auto simp: rh_hash_def header_hash_def rlp_hash_def wf_rich_def sha3_ok_def bind_eq_Some_conv)

lemma info_good:
  assumes "wf_rich E h" and "length txs < 2 ^ 32" and "info_of E h txs = Some b"
  shows "good_info b"
proof -
  obtain x where x: "rh_hash E h = Some x" using assms(3) by (auto simp: info_of_def bind_eq_Some_conv)
  then show ?thesis
    using rh_hash_length[OF assms(1) x] assms by (auto simp: info_of_def good_info_def wf_rich_def)
qed

context chain_store
begin

lemma header_good: "chain_ok E dinv view st s \<Longrightarrow> v_header E st s h = Some r \<Longrightarrow> wf_rich E r"
  using header_table.view_good(1)[of E "block_headers s" st h r]
  by (auto simp: chain_ok_def tables_ok_def v_header_def)

lemma body_good: "chain_ok E dinv view st s \<Longrightarrow> v_body st s h = Some b \<Longrightarrow> good_body (e_bo E) b"
  using body_table.view_good(1)[of E "block_bodies s" st h b]
  by (auto simp: chain_ok_def tables_ok_def v_body_def)

lemma header_reads:
  assumes "chain_ok E dinv view st s"
  shows "reads E dinv view st (\<lambda>r. \<forall>h. r = Some h \<longrightarrow> wf_rich E h) s (get_block_header_by_hash E x s)"
  by (rule reads_yields[OF header_yields[OF assms]]) (use header_good[OF assms] in blast)

lemma body_reads:
  assumes "chain_ok E dinv view st s"
  shows "reads E dinv view st (\<lambda>r. \<forall>b. r = Some b \<longrightarrow> good_body (e_bo E) b) s (get_block_body_by_hash E x s)"
  by (rule reads_yields[OF body_yields[OF assms]]) (use body_good[OF assms] in blast)

lemma number_reads: "chain_ok E dinv view st s \<Longrightarrow> n < 2 ^ 32 \<Longrightarrow> reads E dinv view st (\<lambda>_. True) s (block_hash_by_number E n s)"
  by (rule reads_yields[OF number_yields]) auto

lemma tx_hashes_reads:
  assumes "chain_ok E dinv view st s"
  shows "reads E dinv view st (\<lambda>txs. length txs < 2 ^ 32) s (block_transaction_hashes_by_hash E x s)"
  unfolding block_transaction_hashes_by_hash_def
  by (rule reads_bind[OF body_reads[OF assms]])
    (auto intro!: reads_bind_option reads_return good_body_count[simplified])

lemma txs_at_reads:
  assumes "chain_ok E dinv view st s" and "n < 2 ^ 32"
  shows "reads E dinv view st (\<lambda>_. True) s (block_transaction_hashes_by_height E n s)"
proof -
  have "reads E dinv view st (\<lambda>_. True) s (block_transaction_hashes_by_height_db E n s)"
    unfolding block_transaction_hashes_by_height_db_def
    by (rule reads_bind[OF reads_yields[OF body_by_height_yields[OF assms], where Q = "\<lambda>_. True"]])
      (auto intro!: reads_bind_option reads_return)
  then show ?thesis
    by (auto simp: block_transaction_hashes_by_height_def intro!: reads_bind_option reads_return[OF assms(1)] split: option.splits)
qed

lemma fork_chain_reads:
  "chain_ok E dinv view st s \<Longrightarrow> n < 2 ^ 32 \<Longrightarrow> \<forall>b \<in> set acc. good_info b \<Longrightarrow>
    reads E dinv view st (\<lambda>bs. \<forall>b \<in> set bs. good_info b) s (fork_chain_loop E n h acc s)"
proof (induction "unat n" arbitrary: n h acc s)
  case 0
  then have "n = 0" by (simp add: unat_eq_0)
  then show ?case
    unfolding fork_chain_loop.simps[of E n h acc s]
    by (intro reads_bind[OF number_reads[OF 0(2,3)]]) (use 0 in \<open>auto intro: reads_return\<close>)
next
  case (Suc k)
  have n0: "n \<noteq> 0" using Suc.hyps(2) by auto
  have p: "k = unat (n - 1)" "n - 1 < 2 ^ 32"
    using pred_word[OF n0] Suc.hyps(2) Suc.prems(2) by (simp_all add: word_less_nat_alt)
  have step: "reads E dinv view st (\<lambda>bs. \<forall>b \<in> set bs. good_info b) s'
      (Option.bind (get_block_header_by_hash E h s') (\<lambda>(hdr, s). Option.bind hdr (\<lambda>hdr.
        Option.bind (block_transaction_hashes_by_hash E h s) (\<lambda>(txs, s). Option.bind (info_of E hdr txs) (\<lambda>b.
        Option.bind (csub n 1) (\<lambda>height'. fork_chain_loop E height' (parent_hash (rh_header hdr)) (acc @ [b]) s))))))"
    if s': "chain_ok E dinv view st s'" for s'
    by (rule reads_bind[OF header_reads[OF s']], rule reads_bind_option, rule reads_bind[OF tx_hashes_reads], assumption,
        rule reads_bind_option, rule reads_bind_option)
      (use Suc.prems(3) p n0 info_good in \<open>auto simp: csub_one intro!: Suc.hyps(1)\<close>)
  show ?case
    unfolding fork_chain_loop.simps[of E n h acc s]
    by (rule reads_bind[OF number_reads[OF Suc.prems(1,2)]])
      (use step Suc.prems(3) in \<open>auto intro: reads_return\<close>)
qed

end

subsection \<open>Writing while a batch is pending\<close>

definition after_batch :: "store \<Rightarrow> db_transaction \<Rightarrow> store" where
  "after_batch st tr = foldl apply_op st (ops tr)"

definition pend :: "('sk, 'pk, 'rs, 'db) env \<Rightarrow> ('db \<Rightarrow> bool) \<Rightarrow> ('db \<Rightarrow> store) \<Rightarrow> db_transaction \<Rightarrow> 'db chain \<Rightarrow> bool" where
  "pend E dinv view batch s \<longleftrightarrow>
     chain_ok E dinv view (after_batch (view (c_db s)) batch) s \<and> ops_ok {COL_HEADERS, COL_BODIES, COL_EXTRA} (ops batch)"

lemma after_put [simp]: "after_batch st (tr_put c k v tr) = (after_batch st tr)(c := (after_batch st tr c)(k := Some v))"
  by (simp add: after_batch_def tr_put_def)

lemma after_delete [simp]: "after_batch st (tr_delete c k tr) = (after_batch st tr)(c := (after_batch st tr c)(k := None))"
  by (simp add: after_batch_def tr_delete_def)

lemma after_new [simp]: "after_batch st tr_new = st"
  by (simp add: after_batch_def tr_new_def)

lemma put_ops_ok [simp]: "ops_ok cs (ops (tr_put c k v tr)) \<longleftrightarrow> ops_ok cs (ops tr) \<and> c \<in> cs"
  by (auto simp: tr_put_def)

lemma delete_ops_ok [simp]: "ops_ok cs (ops (tr_delete c k tr)) \<longleftrightarrow> ops_ok cs (ops tr) \<and> c \<in> cs"
  by (auto simp: tr_delete_def)

lemma cols_distinct [simp]: "COL_HEADERS \<noteq> COL_BODIES" "COL_BODIES \<noteq> COL_HEADERS" "COL_HEADERS \<noteq> COL_EXTRA"
  "COL_EXTRA \<noteq> COL_HEADERS" "COL_BODIES \<noteq> COL_EXTRA" "COL_EXTRA \<noteq> COL_BODIES"
  by (simp_all add: COL_HEADERS_def COL_BODIES_def COL_EXTRA_def)

text \<open>The three kinds of keys in the column of the extras differ in their first byte.\<close>

lemma extra_keys [simp]: "address_key h \<notin> block_number_key ` A" "block_number_key n \<notin> range address_key"
  "CURRENT_HASH \<notin> block_number_key ` A" "CURRENT_HASH \<notin> range address_key"
  by (auto simp: address_key_def with_index_def block_number_key_def CURRENT_HASH_def)

lemmas frames = header_table.frame_coherent header_table.frame_stored header_table.frame_agrees
  body_table.frame_coherent body_table.frame_stored body_table.frame_agrees
  address_table.frame_coherent address_table.frame_stored
  number_table.frame_coherent number_table.frame_stored number_table.frame_agrees

context chain_store
begin

lemma pend_write_header:
  assumes "pend E dinv view batch s" and "wf_rich E v"
  shows "\<exists>e. enc_rich E v = Some e \<and>
    write_with_cache header_key (enc_rich E) COL_HEADERS (block_headers s) h v Overwrite batch =
      Some (tr_put COL_HEADERS (header_key h) e batch, (block_headers s)(h \<mapsto> v)) \<and>
    pend E dinv view (tr_put COL_HEADERS (header_key h) e batch) (s\<lparr>block_headers := (block_headers s)(h \<mapsto> v)\<rparr>)"
proof -
  note p = assms(1)[unfolded pend_def chain_ok_def tables_ok_def]
  obtain e where e: "enc_rich E v = Some e" using header_table.enc_good[OF assms(2)] by blast
  let ?st = "after_batch (view (c_db s)) batch"
  have "pend E dinv view (tr_put COL_HEADERS (header_key h) e batch) (s\<lparr>block_headers := (block_headers s)(h \<mapsto> v)\<rparr>)"
    using p e header_table.coherent_put[of E "block_headers s" ?st h v e] header_table.stored_put[of E ?st h v e]
      header_table.agrees_put[of "block_headers s" "view (c_db s)" ?st h v "Some e"] assms(2)
    by (simp add: pend_def chain_ok_def tables_ok_def frames)
  then show ?thesis using e by (simp add: write_with_cache_def tr_write_def)
qed

lemma pend_write_body:
  assumes "pend E dinv view batch s" and "good_body (e_bo E) v"
  shows "\<exists>e. enc_body E v = Some e \<and>
    write_with_cache body_key (enc_body E) COL_BODIES (block_bodies s) h v Overwrite batch =
      Some (tr_put COL_BODIES (body_key h) e batch, (block_bodies s)(h \<mapsto> v)) \<and>
    pend E dinv view (tr_put COL_BODIES (body_key h) e batch) (s\<lparr>block_bodies := (block_bodies s)(h \<mapsto> v)\<rparr>)"
proof -
  note p = assms(1)[unfolded pend_def chain_ok_def tables_ok_def]
  obtain e where e: "enc_body E v = Some e" using body_table.enc_good[OF assms(2)] by blast
  let ?st = "after_batch (view (c_db s)) batch"
  have "pend E dinv view (tr_put COL_BODIES (body_key h) e batch) (s\<lparr>block_bodies := (block_bodies s)(h \<mapsto> v)\<rparr>)"
    using p e body_table.coherent_put[of E "block_bodies s" ?st h v e] body_table.stored_put[of E ?st h v e]
      body_table.agrees_put[of "block_bodies s" "view (c_db s)" ?st h v "Some e"] assms(2)
    by (simp add: pend_def chain_ok_def tables_ok_def frames)
  then show ?thesis using e by (simp add: write_with_cache_def tr_write_def)
qed

lemma pend_write_number:
  assumes "pend E dinv view batch s" and "length v = 32" and "n < 2 ^ 32"
  shows "\<exists>e. enc_hash E v = Some e \<and>
    write_with_cache block_number_key (enc_hash E) COL_EXTRA (block_hashes s) n v Overwrite batch =
      Some (tr_put COL_EXTRA (block_number_key n) e batch, (block_hashes s)(n \<mapsto> v)) \<and>
    pend E dinv view (tr_put COL_EXTRA (block_number_key n) e batch) (s\<lparr>block_hashes := (block_hashes s)(n \<mapsto> v)\<rparr>)"
proof -
  note p = assms(1)[unfolded pend_def chain_ok_def tables_ok_def]
  have g: "good_hash E v" using assms(2) bo_law by (simp add: good_hash_def)
  then obtain e where e: "enc_hash E v = Some e" using number_table.enc_good by blast
  let ?st = "after_batch (view (c_db s)) batch"
  note n = assms(3)[folded HEIGHTS_iff]
  have "pend E dinv view (tr_put COL_EXTRA (block_number_key n) e batch) (s\<lparr>block_hashes := (block_hashes s)(n \<mapsto> v)\<rparr>)"
    using p e number_table.coherent_put[of E "block_hashes s" ?st n v e] number_table.stored_put[of E ?st n v e]
      number_table.agrees_put[of "block_hashes s" "view (c_db s)" ?st n v "Some e"] g n
    by (simp add: pend_def chain_ok_def tables_ok_def frames)
  then show ?thesis using e by (simp add: write_with_cache_def tr_write_def)
qed

lemma pend_write_address:
  assumes "pend E dinv view batch s" and "good_address (e_bo E) v"
  shows "\<exists>e. enc_address E v = Some e \<and>
    write_with_cache address_key (enc_address E) COL_EXTRA (transaction_addresses s) h v Overwrite batch =
      Some (tr_put COL_EXTRA (address_key h) e batch, (transaction_addresses s)(h \<mapsto> v)) \<and>
    pend E dinv view (tr_put COL_EXTRA (address_key h) e batch)
      (s\<lparr>transaction_addresses := (transaction_addresses s)(h \<mapsto> v)\<rparr>)"
proof -
  note p = assms(1)[unfolded pend_def chain_ok_def tables_ok_def]
  obtain e where e: "enc_address E v = Some e" using address_table.enc_good[OF assms(2)] by blast
  let ?st = "after_batch (view (c_db s)) batch"
  have "pend E dinv view (tr_put COL_EXTRA (address_key h) e batch)
      (s\<lparr>transaction_addresses := (transaction_addresses s)(h \<mapsto> v)\<rparr>)"
    using p e address_table.coherent_put[of E "transaction_addresses s" ?st h v e] address_table.stored_put[of E ?st h v e] assms(2)
    by (simp add: pend_def chain_ok_def tables_ok_def frames)
  then show ?thesis using e by (simp add: write_with_cache_def tr_write_def)
qed

lemma pend_delete_address:
  assumes "pend E dinv view batch s" and "delete_with_cache address_key COL_EXTRA (transaction_addresses s) h batch = (batch', c)"
  shows "pend E dinv view batch' (s\<lparr>transaction_addresses := c\<rparr>)"
proof -
  note p = assms(1)[unfolded pend_def chain_ok_def tables_ok_def]
  let ?st = "after_batch (view (c_db s)) batch"
  have d: "batch' = tr_delete COL_EXTRA (address_key h) batch" "c = (transaction_addresses s)(h := None)"
    using assms(2) by (auto simp: delete_with_cache_def tr_delete_key_def)
  show ?thesis
    using p address_table.coherent_forget[of E "transaction_addresses s" ?st h None] address_table.stored_forget[of E ?st h]
    by (simp add: d pend_def chain_ok_def tables_ok_def frames)
qed

lemma pend_put_current:
  assumes "pend E dinv view batch s"
  shows "pend E dinv view (tr_put COL_EXTRA CURRENT_HASH h batch) s"
  using assms by (simp add: pend_def chain_ok_def tables_ok_def frames)

text \<open>What is not a table or the store does not matter to it.\<close>

lemma pend_other: "pend E dinv view batch s \<Longrightarrow> manager_ok m \<Longrightarrow> hc_queue c \<noteq> [] \<Longrightarrow>
    pend E dinv view batch (s\<lparr>cache_man := m, txs_cache := c\<rparr>)"
  by (simp add: pend_def chain_ok_def tables_ok_def)

lemma pend_status: "pend E dinv view batch s \<Longrightarrow> pend E dinv view batch (s\<lparr>current_height := n, current_hash := h\<rparr>)"
  by (simp add: pend_def chain_ok_def tables_ok_def)

lemma pend_note: "pend E dinv view batch s \<Longrightarrow> note_id i s = Some s' \<Longrightarrow>
    pend E dinv view batch s' \<and> c_db s' = c_db s \<and> txs_cache s' = txs_cache s"
  using note_id_ok[of s i] pend_other[of batch s _ "txs_cache s"] by (auto simp: pend_def chain_ok_def tables_ok_def)

lemma pend_read: "pend E dinv view batch s \<Longrightarrow> chain_ok E dinv view (after_batch (view (c_db s)) batch) s' \<Longrightarrow>
    same E (after_batch (view (c_db s)) batch) s s' \<Longrightarrow> pend E dinv view batch s'"
  using same_fields(1)[of E _ s s'] by (simp add: pend_def)

lemma pend_reads:
  assumes "pend E dinv view batch s" and "\<And>st. chain_ok E dinv view st s \<Longrightarrow> reads E dinv view st Q s (r s)" and "r s = Some (x, s')"
  shows "pend E dinv view batch s' \<and> Q x \<and> core s' = core s"
proof -
  have "chain_ok E dinv view (after_batch (view (c_db s)) batch) s" using assms(1) by (simp add: pend_def)
  from readsD[OF assms(2)[OF this] assms(3)] show ?thesis using pend_read[OF assms(1)] by (auto simp: same_def)
qed

end

subsection \<open>Every step of an insertion\<close>

lemma note_id_core: "note_id i s = Some s' \<Longrightarrow> core s' = core s"
  by (auto simp: note_id_def core_def bind_eq_Some_conv)

lemma core_caches [simp]: "core (s\<lparr>block_headers := a\<rparr>) = core s" "core (s\<lparr>block_bodies := b\<rparr>) = core s"
  "core (s\<lparr>block_hashes := c\<rparr>) = core s" "core (s\<lparr>transaction_addresses := d\<rparr>) = core s"
  by (simp_all add: core_def)

lemma address_good: "big_endian bo \<Longrightarrow> length h = 32 \<Longrightarrow> i < 2 ^ 32 \<Longrightarrow> good_address bo \<lparr>ta_block_hash = h, ta_index = i\<rparr>"
  unfolding good_address_def
proof (intro conjI small_isize)
  assume "i < 2 ^ 32"
  then have "nbytes (unat (of_nat i :: u64)) \<le> 8" using unat_bound[of "of_nat i :: u64"] by (intro nbytes_usize) simp
  then show "isize (address_item \<lparr>ta_block_hash = h, ta_index = i\<rparr>) < 2 ^ 32" if "length h = 32"
    using that by (simp add: address_item_def word_item_def)
qed simp_all

context chain_store
begin

lemma update_block_number_pend:
  "pend E dinv view batch s \<Longrightarrow> \<forall>b \<in> set bs. good_info b \<Longrightarrow> update_block_number E batch bs s = Some (batch', s') \<Longrightarrow>
    pend E dinv view batch' s' \<and> core s' = core s"
proof (induction bs arbitrary: batch s)
  case (Cons b bs)
  have g: "length (bi_hash b) = 32" "bi_height b < 2 ^ 32" using Cons.prems(2) by (simp_all add: good_info_def)
  obtain e where e: "write_with_cache block_number_key (enc_hash E) COL_EXTRA (block_hashes s) (bi_height b) (bi_hash b) Overwrite batch =
      Some (tr_put COL_EXTRA (block_number_key (bi_height b)) e batch, (block_hashes s)(bi_height b \<mapsto> bi_hash b))"
    "pend E dinv view (tr_put COL_EXTRA (block_number_key (bi_height b)) e batch)
      (s\<lparr>block_hashes := (block_hashes s)(bi_height b \<mapsto> bi_hash b)\<rparr>)"
    using pend_write_number[OF Cons.prems(1) g] by blast
  obtain s1 where s1: "note_id (BlockHashes (bi_height b)) (s\<lparr>block_hashes := (block_hashes s)(bi_height b \<mapsto> bi_hash b)\<rparr>) = Some s1"
    and r: "update_block_number E (tr_put COL_EXTRA (block_number_key (bi_height b)) e batch) bs s1 = Some (batch', s')"
    using Cons.prems(3) by (auto simp: e(1) bind_eq_Some_conv)
  have "pend E dinv view (tr_put COL_EXTRA (block_number_key (bi_height b)) e batch) s1"
    using pend_note[OF e(2) s1] by simp
  from Cons.IH[OF this _ r] Cons.prems(2) note_id_core[OF s1] show ?case by simp
qed simp

lemma collect_txs_pend:
  "pend E dinv view batch s \<Longrightarrow> \<forall>b \<in> set bs. good_info b \<Longrightarrow> \<forall>(h, a) \<in> set new. good_address (e_bo E) a \<Longrightarrow>
    collect_txs E bs old new s = Some ((old', new'), s') \<Longrightarrow>
    pend E dinv view batch s' \<and> core s' = core s \<and> (\<forall>(h, a) \<in> set new'. good_address (e_bo E) a)"
proof (induction bs arbitrary: old new s)
  case (Cons b bs)
  have g: "good_info b" using Cons.prems(2) by simp
  then have "bi_height b < 2 ^ 32" by (simp add: good_info_def)
  note rd = txs_at_reads[OF _ this]
  let ?new = "map (\<lambda>(i, h). (h, \<lparr>ta_block_hash = bi_hash b, ta_index = i\<rparr>)) (enumerate 0 (bi_transactions b))"
  obtain txs s1 where s1: "block_transaction_hashes_by_height E (bi_height b) s = Some (txs, s1)"
    and r: "collect_txs E bs (old @ txs) (new @ ?new) s1 = Some ((old', new'), s')"
    using Cons.prems(4) by (auto simp: bind_eq_Some_conv)
  have p: "pend E dinv view batch s1 \<and> core s1 = core s"
    using pend_reads[where r = "block_transaction_hashes_by_height E (bi_height b)", OF Cons.prems(1) rd s1] by blast
  have "good_address (e_bo E) \<lparr>ta_block_hash = bi_hash b, ta_index = i\<rparr>" if "i < length (bi_transactions b)" for i
    using address_good[OF bo_law, of "bi_hash b" i] g that by (simp add: good_info_def)
  then have "\<forall>(h, a) \<in> set ?new. good_address (e_bo E) a"
    by (auto simp: in_set_enumerate_eq)
  with Cons.prems(3) have "\<forall>(h, a) \<in> set (new @ ?new). good_address (e_bo E) a" by auto
  from Cons.IH[OF conjunct1[OF p] _ this r] Cons.prems(2) p show ?case by simp
qed simp

lemma delete_addresses_pend:
  "pend E dinv view batch s \<Longrightarrow> delete_addresses batch hs s = (batch', s') \<Longrightarrow> pend E dinv view batch' s' \<and> core s' = core s"
proof (induction hs arbitrary: batch s)
  case (Cons h hs)
  obtain b c where d: "delete_with_cache address_key COL_EXTRA (transaction_addresses s) h batch = (b, c)" by force
  from Cons.IH[OF pend_delete_address[OF Cons.prems(1) d]] Cons.prems(2) d show ?case by simp
qed simp

lemma write_addresses_pend:
  "pend E dinv view batch s \<Longrightarrow> \<forall>(h, a) \<in> set xs. good_address (e_bo E) a \<Longrightarrow>
    write_addresses E batch xs s = Some (batch', s') \<Longrightarrow> pend E dinv view batch' s' \<and> core s' = core s"
proof (induction xs arbitrary: batch s)
  case (Cons x xs)
  obtain h a where x: "x = (h, a)" by force
  then have g: "good_address (e_bo E) a" using Cons.prems(2) by simp
  obtain e where e: "write_with_cache address_key (enc_address E) COL_EXTRA (transaction_addresses s) h a Overwrite batch =
      Some (tr_put COL_EXTRA (address_key h) e batch, (transaction_addresses s)(h \<mapsto> a))"
    "pend E dinv view (tr_put COL_EXTRA (address_key h) e batch)
      (s\<lparr>transaction_addresses := (transaction_addresses s)(h \<mapsto> a)\<rparr>)"
    using pend_write_address[OF Cons.prems(1) g] by blast
  obtain s1 where s1: "note_id (TransactionAddresses h) (s\<lparr>transaction_addresses := (transaction_addresses s)(h \<mapsto> a)\<rparr>) = Some s1"
    and r: "write_addresses E (tr_put COL_EXTRA (address_key h) e batch) xs s1 = Some (batch', s')"
    using Cons.prems(3) by (auto simp: x e(1) bind_eq_Some_conv)
  have "pend E dinv view (tr_put COL_EXTRA (address_key h) e batch) s1"
    using pend_note[OF e(2) s1] by simp
  from Cons.IH[OF this _ r] Cons.prems(2) note_id_core[OF s1] show ?case by simp
qed simp

lemma update_transaction_addresses_pend:
  assumes "pend E dinv view batch s" and "\<forall>b \<in> set bs. good_info b"
    and "update_transaction_addresses E batch bs s = Some (batch', s')"
  shows "pend E dinv view batch' s' \<and> core s' = core s"
proof -
  obtain old new s1 where c: "collect_txs E bs [] [] s = Some ((old, new), s1)"
    using assms(3) by (auto simp: update_transaction_addresses_def bind_eq_Some_conv)
  obtain b2 s2 where d: "delete_addresses batch old s1 = (b2, s2)" by force
  have w: "write_addresses E b2 new s2 = Some (batch', s')"
    using assms(3) c d by (simp add: update_transaction_addresses_def)
  have p1: "pend E dinv view batch s1" "core s1 = core s" "\<forall>(h, a) \<in> set new. good_address (e_bo E) a"
    using collect_txs_pend[OF assms(1,2) _ c] by auto
  have p2: "pend E dinv view b2 s2" "core s2 = core s1" using delete_addresses_pend[OF p1(1) d] by auto
  from write_addresses_pend[OF p2(1) p1(3) w] p1 p2 show ?thesis by simp
qed

end

end
