(* ===== verification/ChainBatch.thy ===== *)
theory ChainBatch
  imports ChainInv
begin

section \<open>The block that joins the chain keeps it coherent\<close>

text \<open>
  The walks that rewrite the chain (verifying the blocks of a fork, switching to it, adjusting the hashes
  by number) add their writes to the batch of the inserted block. Each keeps the caches coherent with the
  store the batch will make, and the insertion as a whole, which writes the batch, keeps them coherent with
  the store itself.
\<close>

lemma below_small: "n < 2 ^ 32 \<Longrightarrow> (n :: u64) \<noteq> 0 \<Longrightarrow> n - 1 < 2 ^ 32"
  using pred_word[of n] by (simp add: word_less_nat_alt)

lemma verified_small: "small (rich_item h) \<longleftrightarrow> small (rich_item (h\<lparr>rh_verified := v\<rparr>))"
  by (simp add: small_def rich_item_def rlp_enc.simps list_bytes_def data_bytes_def bool_item_def)

lemma verified_wf:
  assumes "wf_rich E h" and "header_hash (e_sha3 E) (e_bo E) (rh_header h) = Some (x, hdr)"
  shows "wf_rich E \<lparr>rh_header = hdr, rh_verified = v\<rparr>" and "length x = 32"
proof -
  have x: "length x = 32" using rh_hash_length[OF assms(1), of x] assms(2) by (simp add: rh_hash_def)
  then show "length x = 32" .
  have h: "hdr = (rh_header h)\<lparr>h_hash := Some x\<rparr>" by (rule header_hash_cached[OF assms(2)])
  have "small (rich_item (h\<lparr>rh_verified := v\<rparr>))" using assms(1) verified_small[of h v] by (simp add: wf_rich_def)
  then have "small (rich_item \<lparr>rh_header = hdr, rh_verified = v\<rparr>)"
    by (simp add: rich_item_def h header_item_def)
  moreover have "wf_header (e_bo E) hdr" using assms(1) by (simp add: wf_rich_def wf_header_def h header_item_def)
  ultimately show "wf_rich E \<lparr>rh_header = hdr, rh_verified = v\<rparr>" using assms(1) x by (simp add: wf_rich_def h)
qed

context chain_store
begin

lemma print_loop_pend:
  "pend E dinv view batch s \<Longrightarrow> best < 2 ^ 32 \<Longrightarrow> print_loop E best i n s = Some s' \<Longrightarrow>
    pend E dinv view batch s' \<and> core s' = core s"
proof (induction n arbitrary: i s)
  case (Suc n)
  obtain h r s1 where h: "csub best (of_nat i) = Some h" "block_hash_by_number E h s = Some (r, s1)"
    "print_loop E best (i + 1) n s1 = Some s'"
    using Suc.prems(3) by (auto simp: bind_eq_Some_conv)
  have "h < 2 ^ 32" using csub_SomeD[OF h(1)] Suc.prems(2) by (simp add: word_less_nat_alt)
  from pend_reads[where r = "block_hash_by_number E h", OF Suc.prems(1) number_reads[OF _ this] h(2)]
    Suc.IH[OF _ Suc.prems(2) h(3)] show ?case by simp
qed simp

end

text \<open>The walk over the headers that are not verified, if it comes to an end.\<close>

definition unverif_post ::
    "('db \<Rightarrow> bool) \<Rightarrow> ('db \<Rightarrow> store) \<Rightarrow> store \<Rightarrow> ('sk, 'pk, 'rs, 'db) env \<Rightarrow> rich_header \<Rightarrow> rich_header list \<Rightarrow> 'db chain \<Rightarrow>
      rich_header list \<times> 'db chain \<Rightarrow> bool" where
  "unverif_post dinv view st E header headers s y \<longleftrightarrow>
     (chain_store E dinv view \<longrightarrow> chain_ok E dinv view st s \<longrightarrow> (\<forall>h \<in> set (header # headers). wf_rich E h) \<longrightarrow>
      chain_ok E dinv view st (snd y) \<and> same E st s (snd y) \<and> (\<forall>h \<in> set (fst y). wf_rich E h))"

lemma unverif_reads_raw:
  fixes E :: "('sk, 'pk, 'rs, 'db) env"
  assumes "unverif_loop E header headers s = Some y"
  shows "unverif_post dinv view st E header headers s y"
proof (rule unverif_loop.raw_induct[OF _ assms])
  fix f :: "('sk, 'pk, 'rs, 'db) env \<Rightarrow> rich_header \<Rightarrow> rich_header list \<Rightarrow> 'db chain \<Rightarrow> (rich_header list \<times> 'db chain) option"
  fix E :: "('sk, 'pk, 'rs, 'db) env" and header headers s y
  assume ih: "\<And>E header headers s y. f E header headers s = Some y \<Longrightarrow> unverif_post dinv view st E header headers s y"
    and y: "(if rh_verified header then Some (headers, s)
      else Option.bind (get_block_header_by_hash E (parent_hash (rh_header header)) s) (\<lambda>(hdr, s').
        case hdr of None \<Rightarrow> None | Some hdr' \<Rightarrow> f E hdr' (headers @ [header]) s')) = Some y"
  show "unverif_post dinv view st E header headers s y"
  proof (cases "rh_verified header")
    case True
    then show ?thesis using y by (auto simp: unverif_post_def)
  next
    case False
    then obtain hdr s1 where h: "get_block_header_by_hash E (parent_hash (rh_header header)) s = Some (Some hdr, s1)"
      "f E hdr (headers @ [header]) s1 = Some y"
      using y by (auto simp: bind_eq_Some_conv split: option.splits)
    show ?thesis
      unfolding unverif_post_def
    proof (intro impI)
      assume c: "chain_store E dinv view" and ok: "chain_ok E dinv view st s" and w: "\<forall>h \<in> set (header # headers). wf_rich E h"
      from readsD[OF chain_store.header_reads[OF c ok] h(1)]
      have r: "chain_ok E dinv view st s1" "same E st s s1" "wf_rich E hdr" by auto
      with ih[OF h(2)] c w have "chain_ok E dinv view st (snd y) \<and> same E st s1 (snd y) \<and> (\<forall>h \<in> set (fst y). wf_rich E h)"
        by (simp add: unverif_post_def)
      then show "chain_ok E dinv view st (snd y) \<and> same E st s (snd y) \<and> (\<forall>h \<in> set (fst y). wf_rich E h)"
        using same_trans[OF r(2)] by blast
    qed
  qed
qed

context chain_store
begin

lemma unverif_reads:
  assumes "chain_ok E dinv view st s" and "wf_rich E header"
  shows "reads E dinv view st (\<lambda>hs. \<forall>h \<in> set hs. wf_rich E h) s (get_unverif_headers E header s)"
  unfolding reads_def get_unverif_headers_def
proof (intro allI impI)
  fix x s' assume l: "unverif_loop E header [] s = Some (x, s')"
  show "chain_ok E dinv view st s' \<and> same E st s s' \<and> (\<forall>h \<in> set x. wf_rich E h)"
    using unverif_reads_raw[OF l, of dinv view st] assms chain_store_axioms by (simp add: unverif_post_def)
qed

lemma roll_back_loop_pend:
  "pend E dinv view batch s \<Longrightarrow> roll_back_loop E n hdr cache s = Some (cache', s') \<Longrightarrow>
    pend E dinv view batch s' \<and> core s' = core s"
proof (induction n arbitrary: hdr cache s)
  case (Suc n)
  obtain hdr1 s1 where s1: "(if h_height (rh_header hdr) \<noteq> 0
       then Option.bind (get_block_header_by_hash E (parent_hash (rh_header hdr)) s) (\<lambda>(p, s). Option.bind p (\<lambda>p. Some (p, s)))
       else Some (hdr, s)) = Some (hdr1, s1)"
    and r: "Option.bind (rh_hash E hdr1) (\<lambda>x. Option.bind (block_transaction_hashes_by_hash E x s1) (\<lambda>(txs, s).
       Option.bind (info_of E hdr1 txs) (\<lambda>b. roll_back_loop E n hdr1 (hc_push_front b cache) s))) = Some (cache', s')"
    using Suc.prems(2) by (simp add: bind_eq_Some_conv) blast
  have p1: "pend E dinv view batch s1 \<and> core s1 = core s"
  proof (cases "h_height (rh_header hdr) \<noteq> 0")
    case True
    then obtain p where "get_block_header_by_hash E (parent_hash (rh_header hdr)) s = Some (p, s1)"
      using s1 by (auto simp: bind_eq_Some_conv)
    from pend_reads[where r = "get_block_header_by_hash E (parent_hash (rh_header hdr))", OF Suc.prems(1) header_reads this]
    show ?thesis by blast
  qed (use s1 Suc.prems(1) in simp)
  obtain x txs s2 b where s2: "block_transaction_hashes_by_hash E x s1 = Some (txs, s2)"
    "roll_back_loop E n hdr1 (hc_push_front b cache) s2 = Some (cache', s')"
    using r by (auto simp: bind_eq_Some_conv)
  from pend_reads[where r = "block_transaction_hashes_by_hash E x", OF conjunct1[OF p1] tx_hashes_reads s2(1)]
    Suc.IH[OF _ s2(2)] p1 show ?case by simp
qed simp

lemma tx_cache_roll_back_pend:
  assumes "pend E dinv view batch s" and "tx_cache_roll_back E cache h n s = Some (cache', s')"
  shows "pend E dinv view batch s' \<and> core s' = core s"
proof -
  obtain c1 hdr s1 where h: "get_block_header_by_hash E h s = Some (Some hdr, s1)"
    "roll_back_loop E n hdr c1 s1 = Some (cache', s')"
    using assms(2) by (auto simp: tx_cache_roll_back_def bind_eq_Some_conv)
  have p1: "pend E dinv view batch s1 \<and> core s1 = core s"
    using pend_reads[where r = "get_block_header_by_hash E h", OF assms(1) header_reads h(1)] by blast
  from roll_back_loop_pend[OF conjunct1[OF p1] h(2)] p1 show ?thesis by simp
qed

lemma print_chain_pend:
  assumes "pend E dinv view batch s" and "best < 2 ^ 32" and "print_chain E best (s\<lparr>txs_cache := c\<rparr>) = Some s'"
  shows "pend E dinv view batch s' \<and> core s' = core (s\<lparr>txs_cache := c\<rparr>)"
proof -
  let ?s = "s\<lparr>txs_cache := c\<rparr>"
  obtain n where n: "print_loop E best 0 (Suc n) ?s = Some s'" using assms(3) by (auto simp: print_chain_def)
  then obtain h r where "block_hash_by_number E h ?s = Some r" by (auto simp: bind_eq_Some_conv)
  then have "hc_queue c \<noteq> []"
    by (auto simp: block_hash_by_number_def block_info_at_def best_height_def bind_eq_Some_conv split: if_splits)
  moreover have "manager_ok (cache_man s)" using assms(1) by (simp add: pend_def chain_ok_def)
  moreover have "s\<lparr>cache_man := cache_man s, txs_cache := c\<rparr> = ?s" by simp
  ultimately have "pend E dinv view batch ?s" using pend_other[OF assms(1), of "cache_man s" c] by simp
  from print_loop_pend[OF this assms(2) n] show ?thesis .
qed

lemma verify_loop_pend:
  "pend E dinv view batch s \<Longrightarrow> \<forall>h \<in> set hs. wf_rich E h \<Longrightarrow> \<forall>b \<in> set bs. good_info b \<Longrightarrow>
    verify_loop E batch hs cache bs s = Some (r, batch', s') \<Longrightarrow>
    pend E dinv view batch' s' \<and> core s' = core s \<and> (\<forall>c bs'. r = Inr (c, bs') \<longrightarrow> (\<forall>b \<in> set bs'. good_info b))"
proof (induction hs arbitrary: batch cache bs s)
  case (Cons h hs)
  obtain x hdr body s1 c where h: "header_hash (e_sha3 E) (e_bo E) (rh_header h) = Some (x, hdr)"
    and b: "get_block_body_by_hash E x s = Some (Some body, s1)"
    and c: "transactions_check (transactions body) {} cache (h_height hdr) (h_height hdr) s1 = Some c"
    and r: "(case c of Inl e \<Rightarrow> Some (Inl e, batch, s1) | Inr _ \<Rightarrow>
      Option.bind (write_with_cache header_key (enc_rich E) COL_HEADERS (block_headers s1) x \<lparr>rh_header = hdr, rh_verified = True\<rparr> Overwrite batch)
        (\<lambda>(batch, hs'). verify_loop E batch hs
          (hc_push_back \<lparr>bi_hash = x, bi_height = h_height hdr, bi_timestamp = h_timestamp hdr, bi_transactions = tx_hashes_of body\<rparr>
            (hc_pop_front cache))
          (bs @ [\<lparr>bi_hash = x, bi_height = h_height hdr, bi_timestamp = h_timestamp hdr, bi_transactions = tx_hashes_of body\<rparr>])
          (s1\<lparr>block_headers := hs'\<rparr>))) = Some (r, batch', s')"
    using Cons.prems(4) by (auto simp: bind_eq_Some_conv Let_def)
  have wf: "wf_rich E h" using Cons.prems(2) by simp
  have p1: "pend E dinv view batch s1 \<and> (\<forall>b. Some body = Some b \<longrightarrow> good_body (e_bo E) b) \<and> core s1 = core s"
    using pend_reads[where r = "get_block_body_by_hash E x", OF Cons.prems(1) body_reads b] by blast
  show ?case
  proof (cases c)
    case (Inl e)
    then show ?thesis using r p1 by auto
  next
    case (Inr u)
    let ?h = "\<lparr>rh_header = hdr, rh_verified = True\<rparr>"
    let ?b = "\<lparr>bi_hash = x, bi_height = h_height hdr, bi_timestamp = h_timestamp hdr, bi_transactions = tx_hashes_of body\<rparr>"
    note w = verified_wf[OF wf h]
    obtain e where e: "write_with_cache header_key (enc_rich E) COL_HEADERS (block_headers s1) x ?h Overwrite batch =
        Some (tr_put COL_HEADERS (header_key x) e batch, (block_headers s1)(x \<mapsto> ?h))"
      "pend E dinv view (tr_put COL_HEADERS (header_key x) e batch) (s1\<lparr>block_headers := (block_headers s1)(x \<mapsto> ?h)\<rparr>)"
      using pend_write_header[OF conjunct1[OF p1] w(1)] by blast
    have "good_info ?b"
      using w good_body_count[of "e_bo E" body] p1 by (simp add: good_info_def wf_rich_def)
    then have gi: "\<forall>b \<in> set (bs @ [?b]). good_info b" using Cons.prems(3) by simp
    have vl: "verify_loop E (tr_put COL_HEADERS (header_key x) e batch) hs (hc_push_back ?b (hc_pop_front cache)) (bs @ [?b])
        (s1\<lparr>block_headers := (block_headers s1)(x \<mapsto> ?h)\<rparr>) = Some (r, batch', s')"
      using r Inr e(1) by simp
    have hs: "\<forall>h \<in> set hs. wf_rich E h" using Cons.prems(2) by simp
    from Cons.IH[OF e(2) hs gi vl] p1 show ?thesis by simp
  qed
qed auto

text \<open>Whatever way a switch goes, only the window of recent blocks is new.\<close>

lemma fork_blocks_pend:
  assumes "pend E dinv view batch s" and "n < 2 ^ 32" and "get_fork_chain E n h s = Some (bs, s')"
  shows "pend E dinv view batch s' \<and> (\<forall>b \<in> set bs. good_info b) \<and> core s' = core s"
  using pend_reads[where r = "get_fork_chain E n h" and Q = "\<lambda>bs. \<forall>b \<in> set bs. good_info b", OF assms(1) _ assms(3)]
    fork_chain_reads[OF _ assms(2)] by (simp add: get_fork_chain_def)

lemma join_blocks_pend:
  assumes "pend E dinv view batch s" and "\<forall>b \<in> set bs. good_info b"
    and "update_transaction_addresses E batch bs s = Some (batch1, s1)"
    and "update_block_number E batch1 bs s1 = Some (batch2, s2)"
    and "n < 2 ^ 32" and "print_chain E n (s2\<lparr>txs_cache := c\<rparr>) = Some s'"
  shows "pend E dinv view batch2 s' \<and> core s' = core (s\<lparr>txs_cache := c\<rparr>)"
proof -
  note a = update_transaction_addresses_pend[OF assms(1,2,3)]
  note b = update_block_number_pend[OF conjunct1[OF a] assms(2,4)]
  from print_chain_pend[OF conjunct1[OF b] assms(5,6)] a b show ?thesis by (simp add: core_def)
qed

lemma switch_long_fork_pend:
  assumes "pend E dinv view batch s" and "wf_rich E header"
    and "switch_long_fork E batch header s = Some (r, batch', s')"
  shows "pend E dinv view batch' s' \<and> core s' = core (s\<lparr>txs_cache := txs_cache s'\<rparr>)"
proof -
  obtain headers s1 m x fork_blocks s2 h n c1 c2 s3 r' batch1 s4 where
    headers: "get_unverif_headers E header s = Some (headers, s1)"
    and fork: "get_fork_chain E (h_height (rh_header header)) x s1 = Some (fork_blocks, s2)"
    and rolled: "tx_cache_roll_back E c1 h n s2 = Some (c2, s3)"
    and verify: "verify_loop E batch (rev headers) c2 fork_blocks s3 = Some (r', batch1, s4)"
    and rest: "(case r' of
         Inl e \<Rightarrow> Some (Inl e, batch1, s4)
       | Inr (cache, fork_blocks) \<Rightarrow>
           Option.bind (update_transaction_addresses E batch1 fork_blocks s4) (\<lambda>(batch, s).
           Option.bind (update_block_number E batch fork_blocks s) (\<lambda>(batch, s).
           Option.bind (print_chain E (h_height (rh_header header)) (s\<lparr>txs_cache := cache\<rparr>)) (\<lambda>s.
             Some (Inr (), batch, s))))) = Some (r, batch', s')"
    using assms(3) by (auto simp: switch_long_fork_def bind_eq_Some_conv Let_def)
  have height: "h_height (rh_header header) < 2 ^ 32" using assms(2) by (simp add: wf_rich_def)
  have p1: "pend E dinv view batch s1 \<and> (\<forall>h \<in> set headers. wf_rich E h) \<and> core s1 = core s"
    using pend_reads[where r = "get_unverif_headers E header", OF assms(1) unverif_reads[OF _ assms(2)] headers] .
  note p2 = fork_blocks_pend[OF conjunct1[OF p1] height fork]
  note p3 = tx_cache_roll_back_pend[OF conjunct1[OF p2] rolled]
  have hs: "\<forall>h \<in> set (rev headers). wf_rich E h" using p1 by simp
  note p4 = verify_loop_pend[OF conjunct1[OF p3] hs conjunct1[OF conjunct2[OF p2]] verify]
  have core: "core s4 = core s" using p1 p2 p3 p4 by simp
  show ?thesis
  proof (cases r')
    case (Inl e)
    then show ?thesis using rest p4 core by (auto simp: core_def)
  next
    case (Inr cb)
    obtain c bs where cb: "cb = (c, bs)" by force
    have gi: "\<forall>b \<in> set bs. good_info b" using p4 Inr cb by simp
    obtain batch2 s5 batch3 s6 where
      j: "update_transaction_addresses E batch1 bs s4 = Some (batch2, s5)" "update_block_number E batch2 bs s5 = Some (batch3, s6)"
        "print_chain E (h_height (rh_header header)) (s6\<lparr>txs_cache := c\<rparr>) = Some s'" "batch' = batch3"
      using rest Inr cb by (auto simp: bind_eq_Some_conv)
    from join_blocks_pend[OF conjunct1[OF p4] gi j(1,2) height j(3)] core j(4) show ?thesis by (auto simp: core_def)
  qed
qed

lemma adjust_block_hashes_pend:
  assumes "pend E dinv view batch s" and "wf_rich E header"
    and "adjust_block_hashes E batch header s = Some (ok, batch', s')"
  shows "pend E dinv view batch' s' \<and> core s' = core (s\<lparr>txs_cache := txs_cache s'\<rparr>)"
proof (cases "rh_verified header")
  case False
  then obtain r where "switch_long_fork E batch header s = Some (r, batch', s')"
    using assms(3) by (auto simp: adjust_block_hashes_def bind_eq_Some_conv)
  then show ?thesis by (rule switch_long_fork_pend[OF assms(1,2)])
next
  case True
  have height: "h_height (rh_header header) < 2 ^ 32" using assms(2) by (simp add: wf_rich_def)
  obtain bs s1 x txs s2 b batch1 s3 batch2 s4 c where
    bs: "(if h_height (rh_header header) > 0 then do {
             below \<leftarrow> csub (h_height (rh_header header)) 1;
             get_fork_chain E below (parent_hash (rh_header header)) s }
           else Some ([], s)) = Some (bs, s1)"
    and txs: "block_transaction_hashes_by_hash E x s1 = Some (txs, s2)"
    and b: "info_of E header txs = Some b"
    and j: "update_transaction_addresses E batch (bs @ [b]) s2 = Some (batch1, s3)"
      "update_block_number E batch1 (bs @ [b]) s3 = Some (batch2, s4)"
      "print_chain E (h_height (rh_header header)) (s4\<lparr>txs_cache := c\<rparr>) = Some s'" "batch' = batch2"
    using assms(3) True by (auto simp: adjust_block_hashes_def bind_eq_Some_conv Let_def)
  have p1: "pend E dinv view batch s1 \<and> (\<forall>b \<in> set bs. good_info b) \<and> core s1 = core s"
  proof (cases "h_height (rh_header header) > 0")
    case True
    then have g: "get_fork_chain E (h_height (rh_header header) - 1) (parent_hash (rh_header header)) s = Some (bs, s1)"
      using bs by (simp add: csub_one word_gt_0)
    have "h_height (rh_header header) - 1 < 2 ^ 32" using below_small[OF height] True by (simp add: word_gt_0)
    then show ?thesis by (rule fork_blocks_pend[OF assms(1) _ g])
  qed (use assms(1) bs in simp)
  have p2: "pend E dinv view batch s2 \<and> length txs < 2 ^ 32 \<and> core s2 = core s1"
    using pend_reads[where r = "block_transaction_hashes_by_hash E x", OF conjunct1[OF p1] tx_hashes_reads txs] .
  have "good_info b" using info_good[OF assms(2) _ b] p2 by simp
  then have "\<forall>b \<in> set (bs @ [b]). good_info b" using p1 by simp
  from join_blocks_pend[OF conjunct1[OF p2] this j(1,2) height j(3)] p1 p2 j(4) show ?thesis by (auto simp: core_def)
qed

end

end
