(* ===== verification/ChainKeep.thy ===== *)
theory ChainKeep
  imports ChainBatch ChainInsert
begin

section \<open>The chain between its operations\<close>

text \<open>
  Between two operations the caches are coherent with the store itself and the blocks that wait are well
  formed: every entry point of the chain keeps this, whatever it answers.
\<close>

subsection \<open>The invariant\<close>

definition good_block :: "('sk, 'pk, 'rs, 'db) env \<Rightarrow> block \<Rightarrow> bool" where
  "good_block E b \<longleftrightarrow> wf_rich E \<lparr>rh_header = b_header b, rh_verified = True\<rparr> \<and> good_body (e_bo E) (b_body b)"

definition settled :: "('sk, 'pk, 'rs, 'db) env \<Rightarrow> ('db \<Rightarrow> bool) \<Rightarrow> ('db \<Rightarrow> store) \<Rightarrow> 'db chain \<Rightarrow> bool" where
  "settled E dinv view s \<longleftrightarrow> chain_ok E dinv view (view (c_db s)) s"

definition waiting_ok :: "('sk, 'pk, 'rs, 'db) env \<Rightarrow> 'db chain \<Rightarrow> bool" where
  "waiting_ok E s \<longleftrightarrow>
     (\<forall>b \<in> set (future_blocks s). good_block E b) \<and>
     (\<forall>h bs. unknown_parent s h = Some bs \<longrightarrow> (\<forall>b \<in> set bs. good_block E b))"

definition chain_inv :: "('sk, 'pk, 'rs, 'db) env \<Rightarrow> ('db \<Rightarrow> bool) \<Rightarrow> ('db \<Rightarrow> store) \<Rightarrow> 'db chain \<Rightarrow> bool" where
  "chain_inv E dinv view s \<longleftrightarrow> settled E dinv view s \<and> waiting_ok E s"

lemma waiting_core: "core s' = core (s\<lparr>c_db := d, txs_cache := t, current_height := n, current_hash := h\<rparr>) \<Longrightarrow>
    waiting_ok E s' = waiting_ok E s"
  by (simp add: waiting_ok_def core_def)

lemma block_hash_good:
  assumes "good_block E b" and "block_hash (e_sha3 E) (e_bo E) b = Some (h, b')"
  shows "good_block E b'" and "h_height (b_header b') = h_height (b_header b)" and "b_body b' = b_body b"
    and "wf_rich E \<lparr>rh_header = b_header b', rh_verified = v\<rparr>"
proof -
  obtain hdr where hh: "header_hash (e_sha3 E) (e_bo E) (b_header b) = Some (h, hdr)" and b': "b' = b\<lparr>b_header := hdr\<rparr>"
    using assms(2) by (auto simp: block_hash_def bind_eq_Some_conv)
  have w: "wf_rich E \<lparr>rh_header = b_header b, rh_verified = True\<rparr>" using assms(1) by (simp add: good_block_def)
  from hh have hh': "header_hash (e_sha3 E) (e_bo E) (rh_header \<lparr>rh_header = b_header b, rh_verified = True\<rparr>) = Some (h, hdr)" by simp
  show g: "good_block E b'" using verified_wf(1)[OF w hh'] assms(1) by (simp add: good_block_def b')
  show "h_height (b_header b') = h_height (b_header b)"
    using hh by (auto simp: b' header_hash_def bind_eq_Some_conv split: option.splits)
  show "b_body b' = b_body b" by (simp add: b')
  show "wf_rich E \<lparr>rh_header = b_header b', rh_verified = v\<rparr>" using verified_wf(1)[OF w hh'] by (simp add: b')
qed

subsection \<open>Inserting\<close>

context chain_store
begin

lemma settled_pend: "settled E dinv view s \<Longrightarrow> pend E dinv view tr_new s"
  by (simp add: settled_def pend_def ops_ok_def tr_new_def after_batch_def)

lemma pend_writes:
  assumes "pend E dinv view batch s" and "e_write E batch (c_db s) = Some (r, d)"
  shows "r = Inr () \<and> settled E dinv view (s\<lparr>c_db := d\<rparr>)"
proof -
  have p: "chain_ok E dinv view (after_batch (view (c_db s)) batch) s" "ops_ok {COL_HEADERS, COL_BODIES, COL_EXTRA} (ops batch)"
    using assms(1) by (simp_all add: pend_def)
  obtain d' where d': "e_write E batch (c_db s) = Some (Inr (), d')" "dinv d'" "view d' = after_batch (view (c_db s)) batch"
    using write_ok[of "c_db s" batch] p by (auto simp: chain_ok_def after_batch_def)
  then show ?thesis using assms(2) p(1) by (auto simp: settled_def chain_ok_def tables_ok_def)
qed

text \<open>An insertion writes header and body, perhaps lets the block join the chain, and writes the batch.\<close>

lemma insert_at_steps:
  assumes "settled E dinv view s" and "good_block E b" and "insert_at E b v s = Some s'"
    and hb: "block_hash (e_sha3 E) (e_bo E) b = Some (x, b')"
  obtains e batch2 hs bs batch3 s3 d where
    "after_batch (view (c_db s)) batch2 COL_HEADERS (header_key x) = Some e"
    "pend E dinv view batch2 (s\<lparr>block_headers := hs, block_bodies := bs\<rparr>)"
    "(batch3 = batch2 \<and> s3 = s\<lparr>block_headers := hs, block_bodies := bs\<rparr>) \<or>
      (\<exists>ok batch s2. adjust_block_hashes E batch2 \<lparr>rh_header = b_header b', rh_verified = v\<rparr> (s\<lparr>block_headers := hs, block_bodies := bs\<rparr>) =
          Some (ok, batch, s2) \<and>
        (if ok then save_status batch (h_height (b_header b')) x s2 else (batch, s2)) = (batch3, s3))"
    "e_write E batch3 (c_db s3) = Some (Inr (), d)" "s' = s3\<lparr>c_db := d\<rparr>"
    "pend E dinv view batch3 s3" "\<exists>t n h. core s3 = core (s\<lparr>txs_cache := t, current_height := n, current_hash := h\<rparr>)"
proof -
  obtain batch1 hs batch2 bs up batch3 s3 r d where
    w1: "write_with_cache header_key (enc_rich E) COL_HEADERS (block_headers s) x
        \<lparr>rh_header = b_header b', rh_verified = v\<rparr> Overwrite tr_new = Some (batch1, hs)"
    and w2: "write_with_cache body_key (enc_body E) COL_BODIES (block_bodies s) x (b_body b') Overwrite batch1 = Some (batch2, bs)"
    and j: "(if h_height (b_header b') = up \<or> (h_height (b_header b') = current_height s \<and>
          (e_gen_range E 0 1 = 0 \<or> current_hash s = hash_new 32))
       then do {
          (ok, batch, s) \<leftarrow> adjust_block_hashes E batch2 \<lparr>rh_header = b_header b', rh_verified = v\<rparr>
            (s\<lparr>block_headers := hs, block_bodies := bs\<rparr>);
          Some (if ok then save_status batch (h_height (b_header b')) x s else (batch, s)) }
        else Some (batch2, s\<lparr>block_headers := hs, block_bodies := bs\<rparr>)) = Some (batch3, s3)"
    and w3: "e_write E batch3 (c_db s3) = Some (r, d)" and s': "(case r of Inl _ \<Rightarrow> None | Inr _ \<Rightarrow> Some (s3\<lparr>c_db := d\<rparr>)) = Some s'"
    using assms(3) hb by (auto simp: insert_at_def bind_eq_Some_conv Let_def)
  note gb = block_hash_good[OF assms(2) hb]
  let ?h = "\<lparr>rh_header = b_header b', rh_verified = v\<rparr>" and ?s = "s\<lparr>block_headers := hs, block_bodies := bs\<rparr>"
  obtain e where p1: "pend E dinv view batch1 (s\<lparr>block_headers := hs\<rparr>)" and e: "batch1 = tr_put COL_HEADERS (header_key x) e tr_new"
    using pend_write_header[OF settled_pend[OF assms(1)] gb(4)[of v], of x] w1 by auto
  obtain e2 where p2: "pend E dinv view batch2 ?s" and e2: "batch2 = tr_put COL_BODIES (body_key x) e2 batch1"
    using pend_write_body[OF p1, of "b_body b'" x] gb(1) w2 by (auto simp: good_block_def)
  have known: "after_batch (view (c_db s)) batch2 COL_HEADERS (header_key x) = Some e" by (simp add: e e2)
  have joined: "(batch3 = batch2 \<and> s3 = ?s) \<or> (\<exists>ok batch s2. adjust_block_hashes E batch2 ?h ?s = Some (ok, batch, s2) \<and>
      (if ok then save_status batch (h_height (b_header b')) x s2 else (batch, s2)) = (batch3, s3))"
    using j by (auto simp: bind_eq_Some_conv split: if_splits)
  have p3: "pend E dinv view batch3 s3 \<and> (\<exists>t n h. core s3 = core (s\<lparr>txs_cache := t, current_height := n, current_hash := h\<rparr>))"
    using joined
  proof (elim disjE exE conjE)
    assume e: "batch3 = batch2" "s3 = ?s"
    then have "core s3 = core (s\<lparr>txs_cache := txs_cache s, current_height := current_height s, current_hash := current_hash s\<rparr>)"
      by (simp add: core_def)
    then show ?thesis using p2 e by blast
  next
    fix ok batch s2
    assume a: "adjust_block_hashes E batch2 ?h ?s = Some (ok, batch, s2)"
      and sv: "(if ok then save_status batch (h_height (b_header b')) x s2 else (batch, s2)) = (batch3, s3)"
    note p = adjust_block_hashes_pend[OF p2 gb(4) a]
    have c: "core s2 = core (s\<lparr>txs_cache := txs_cache s2\<rparr>)" using p by (simp add: core_def)
    show ?thesis
    proof (cases ok)
      case True
      then have "batch3 = tr_put COL_EXTRA CURRENT_HASH x batch" "s3 = s2\<lparr>current_height := h_height (b_header b'), current_hash := x\<rparr>"
        using sv by (auto simp: save_status_def)
      moreover from this have "core s3 = core (s\<lparr>txs_cache := txs_cache s2, current_height := h_height (b_header b'), current_hash := x\<rparr>)"
        using c by (simp add: core_def)
      ultimately show ?thesis using p pend_status[OF pend_put_current, of batch s2 x] by blast
    next
      case False
      then have "batch3 = batch" "s3 = s2" using sv by auto
      moreover have "core s2 = core (s\<lparr>txs_cache := txs_cache s2, current_height := current_height s, current_hash := current_hash s\<rparr>)"
        using c by simp
      ultimately show ?thesis using p by blast
    qed
  qed
  have r: "r = Inr ()" using pend_writes[OF conjunct1[OF p3] w3] by simp
  show thesis by (rule that[OF known p2 joined _ _ conjunct1[OF p3] conjunct2[OF p3]]) (use w3 s' r in auto)
qed

lemma insert_at_settled:
  assumes "settled E dinv view s" and "good_block E b" and "insert_at E b v s = Some s'"
  shows "settled E dinv view s'"
    and "\<exists>d t n h. core s' = core (s\<lparr>c_db := d, txs_cache := t, current_height := n, current_hash := h\<rparr>)"
proof -
  obtain x b' where hb: "block_hash (e_sha3 E) (e_bo E) b = Some (x, b')" using assms(3) by (auto simp: insert_at_def bind_eq_Some_conv)
  obtain batch s3 d where p: "pend E dinv view batch s3" "e_write E batch (c_db s3) = Some (Inr (), d)" "s' = s3\<lparr>c_db := d\<rparr>"
    "\<exists>t n h. core s3 = core (s\<lparr>txs_cache := t, current_height := n, current_hash := h\<rparr>)"
    by (rule insert_at_steps[OF assms hb], rule that, assumption+)
  then obtain t n h where c: "core s3 = core (s\<lparr>txs_cache := t, current_height := n, current_hash := h\<rparr>)" by blast
  show "settled E dinv view s'" using pend_writes[OF p(1,2)] p(3) by simp
  have "core s' = core (s\<lparr>c_db := d, txs_cache := t, current_height := n, current_hash := h\<rparr>)"
    using c by (simp add: p(3) core_def)
  then show "\<exists>d t n h. core s' = core (s\<lparr>c_db := d, txs_cache := t, current_height := n, current_hash := h\<rparr>)" by blast
qed

lemma insert_at_inv:
  assumes "chain_inv E dinv view s" and "good_block E b" and "insert_at E b v s = Some s'"
  shows "chain_inv E dinv view s'"
proof -
  have s: "settled E dinv view s" "waiting_ok E s" using assms(1) by (simp_all add: chain_inv_def)
  note k = insert_at_settled[OF s(1) assms(2,3)]
  from k(2) obtain d t n h where "core s' = core (s\<lparr>c_db := d, txs_cache := t, current_height := n, current_hash := h\<rparr>)" by blast
  from waiting_core[OF this, of E] k(1) s(2) show ?thesis by (simp add: chain_inv_def)
qed

end

subsection \<open>Checking\<close>

context chain_store
begin

lemma inv_reads:
  assumes "chain_inv E dinv view s" and "\<And>st. chain_ok E dinv view st s \<Longrightarrow> reads E dinv view st Q s (r s)" and "r s = Some (x, s')"
  shows "chain_inv E dinv view s' \<and> Q x \<and> core s' = core s"
proof -
  have "chain_ok E dinv view (view (c_db s)) s" using assms(1) by (simp add: chain_inv_def settled_def)
  from readsD[OF assms(2)[OF this] assms(3)] have "chain_ok E dinv view (view (c_db s)) s'" "core s' = core s" "Q x"
    by (simp_all add: same_def)
  then show ?thesis using assms(1) by (simp add: chain_inv_def settled_def core_def waiting_ok_def)
qed

lemma csub_below: "csub n 1 = Some m \<Longrightarrow> n < 2 ^ 32 \<Longrightarrow> unat m < unat n \<and> m < 2 ^ 32" for n m :: u64
  using csub_SomeD[of n 1 m] by (auto simp: word_less_nat_alt csub_one split: if_splits dest: unat_gt_0[THEN iffD2])

lemma fork_loop_reads:
  "chain_ok E dinv view st s \<Longrightarrow> height < 2 ^ 32 \<Longrightarrow> number < 2 ^ 32 \<Longrightarrow>
    reads E dinv view st (\<lambda>_. True) s (fork_loop E number height h s)"
proof (induction height arbitrary: h s rule: measure_induct_rule[of unat])
  case (less height)
  have step: "reads E dinv view st (\<lambda>_. True) s'
      (Option.bind (get_block_header_by_hash E h s') (\<lambda>(hdr, s). case hdr of
          None \<Rightarrow> Some (None, s)
        | Some hdr \<Rightarrow> Option.bind (csub height 1) (\<lambda>height'. fork_loop E number height' (parent_hash (rh_header hdr)) s)))"
    if s': "chain_ok E dinv view st s'" for s'
    by (rule reads_bind[OF header_reads[OF s']])
      (use less.IH less.prems in \<open>auto dest: csub_below intro!: reads_return reads_bind_option split: option.splits\<close>)
  show ?case
    unfolding fork_loop.simps[of E number height h s]
    by (rule if_splits(1)[THEN iffD2], intro conjI impI)
      (use step number_reads[OF _ less.prems(3)] in
        \<open>auto intro!: reads_return[OF less.prems(1)] reads_bind[OF number_reads[OF less.prems(1,2)]]\<close>)
qed

lemma anc_hash_reads:
  assumes "chain_ok E dinv view st s" and "height < 2 ^ 32"
  shows "reads E dinv view st (\<lambda>_. True) s (anc_hash E height h s)"
proof -
  have f: "reads E dinv view st (\<lambda>_. True) s (block_hash_by_number_fork E a height h s)" for a
    unfolding block_hash_by_number_fork_def
    using fork_loop_reads[OF assms, of a h] assms(2) by (auto intro!: reads_return[OF assms(1)] simp: not_less)
  show ?thesis
    unfolding anc_hash_def
    by (rule reads_bind_option, rule reads_bind_option, rule reads_bind[OF f]) (auto intro!: reads_return reads_bind[OF header_reads] split: option.splits)
qed

lemma diff_loop_reads:
  "chain_ok E dinv view st s \<Longrightarrow> height < 2 ^ 32 \<Longrightarrow> reads E dinv view st (\<lambda>_. True) s (diff_loop E bs height h acc s)"
proof (induction height arbitrary: bs h acc s rule: measure_induct_rule[of unat])
  case (less height)
  have step: "reads E dinv view st (\<lambda>_. True) s'
      (Option.bind (block_transaction_hashes_by_hash E h s') (\<lambda>(txs, s).
        Option.bind (get_block_header_by_hash E h s) (\<lambda>(hdr, s). Option.bind hdr (\<lambda>hdr.
          if \<not> rh_verified hdr then Some (Inl LongFork, s)
          else Option.bind (csub height 1) (\<lambda>height'. diff_loop E bs' height' (parent_hash (rh_header hdr)) (acc \<union> set txs) s)))))"
    if s': "chain_ok E dinv view st s'" for s' bs'
    by (rule reads_bind[OF tx_hashes_reads[OF s']], rule reads_bind[OF header_reads], assumption, rule reads_bind_option)
      (use less.IH less.prems in \<open>auto dest: csub_below intro!: reads_return reads_bind_option\<close>)
  show ?case
    unfolding diff_loop.simps[of E bs height h acc s]
    by (rule if_splits(1)[THEN iffD2], intro conjI impI, rule reads_return[OF less.prems(1)], simp,
        rule reads_bind_option, rule reads_bind[OF number_reads[OF less.prems(1,2)]])
      (use step in \<open>auto intro: reads_return\<close>)
qed

lemma check_transactions_reads:
  assumes "chain_ok E dinv view st s" and "good_block E b"
  shows "reads E dinv view st (\<lambda>_. True) s (check_transactions E b s)"
  unfolding check_transactions_def
proof (rule reads_bind_option)
  fix below :: u64
  assume "csub (h_height (b_header b)) 1 = Some below"
  then have below: "below < 2 ^ 32" using assms(2) csub_below by (auto simp: good_block_def wf_rich_def)
  have d: "reads E dinv view st (\<lambda>_. True) s (transactions_diff E below h s)" for h
    unfolding transactions_diff_def
    by (rule reads_bind_option) (use diff_loop_reads[OF assms(1) below] in \<open>auto intro!: reads_return[OF assms(1)]\<close>)
  show "reads E dinv view st (\<lambda>_. True) s (Option.bind (transactions_diff E below (parent_hash (b_header b)) s) (\<lambda>(r, s). case r of
       Inl _ \<Rightarrow> Some (Inr False, s)
     | Inr (height, txs_set) \<Rightarrow>
         Option.bind (transactions_check (transactions (b_body b)) txs_set (txs_cache s) (h_height (b_header b)) height s)
           (\<lambda>c. Some (case c of Inl e \<Rightarrow> Inl e | Inr _ \<Rightarrow> Inr True, s))))"
    by (rule reads_bind[OF d]) (auto intro!: reads_return reads_bind_option split: sum.splits)
qed

lemma check_proof_reads:
  assumes "chain_ok E dinv view st s" and "good_block E b"
  shows "reads E dinv view st (\<lambda>_. True) s (check_proof E b s)"
  unfolding check_proof_def
proof (rule reads_bind_option)
  fix below :: u64
  assume "csub (h_height (b_header b)) 1 = Some below"
  then have below: "below < 2 ^ 32" using assms(2) csub_below by (auto simp: good_block_def wf_rich_def)
  show "reads E dinv view st (\<lambda>_. True) s (Option.bind (anc_hash E below (parent_hash (b_header b)) s) (\<lambda>(anc, s). case anc of
       None \<Rightarrow> Some (Inl UnknownAncestor, s)
     | Some anc \<Rightarrow>
         Option.bind (sign_public (e_sha3 E) (e_bo E) (e_secp E) b) (\<lambda>sp.
         Some (case sp of
             Inl e \<Rightarrow> Inl e
           | Inr sign_pub \<Rightarrow>
               (case get_proof_pub (c_config s) sign_pub of
                  None \<Rightarrow> Inl InvalidPublicKey
                | Some (proof_pub, proof_g) \<Rightarrow>
                    if \<not> verify_proof (e_sha3 E) (e_bls E) (b_header b) anc proof_pub proof_g then Inl InvalidProofKey
                    else Inr ()), s))))"
    by (rule reads_bind[OF anc_hash_reads[OF assms(1) below]]) (auto intro!: reads_return reads_bind_option split: option.splits)
qed

end

subsection \<open>Operations that keep the invariant\<close>

definition keeps :: "('sk, 'pk, 'rs, 'db) env \<Rightarrow> ('db \<Rightarrow> bool) \<Rightarrow> ('db \<Rightarrow> store) \<Rightarrow> ('a \<times> 'db chain) option \<Rightarrow> bool" where
  "keeps E dinv view r \<longleftrightarrow> (\<forall>x s'. r = Some (x, s') \<longrightarrow> chain_inv E dinv view s')"

lemma keepsD: "keeps E dinv view r \<Longrightarrow> r = Some (x, s') \<Longrightarrow> chain_inv E dinv view s'"
  by (simp add: keeps_def)

lemma keeps_return: "chain_inv E dinv view s \<Longrightarrow> keeps E dinv view (Some (x, s))"
  by (simp add: keeps_def)

lemma keeps_None: "keeps E dinv view None"
  by (simp add: keeps_def)

lemma keeps_bind:
  assumes "keeps E dinv view r" and "\<And>x s'. chain_inv E dinv view s' \<Longrightarrow> keeps E dinv view (f x s')"
  shows "keeps E dinv view (Option.bind r (\<lambda>(x, s). f x s))"
  using assms by (auto simp: keeps_def bind_eq_Some_conv)

lemma keeps_option: "(\<And>y. x = Some y \<Longrightarrow> keeps E dinv view (f y)) \<Longrightarrow> keeps E dinv view (Option.bind x f)"
  by (auto simp: keeps_def bind_eq_Some_conv)

lemma keeps_pair: "(\<And>a b. x = Some (a, b) \<Longrightarrow> keeps E dinv view (f a b)) \<Longrightarrow> keeps E dinv view (Option.bind x (\<lambda>(a, b). f a b))"
  by (auto simp: keeps_def bind_eq_Some_conv)

lemma keeps_if: "(P \<Longrightarrow> keeps E dinv view a) \<Longrightarrow> (\<not> P \<Longrightarrow> keeps E dinv view b) \<Longrightarrow> keeps E dinv view (if P then a else b)"
  by simp

lemma keeps_case:
  "(x = None \<Longrightarrow> keeps E dinv view a) \<Longrightarrow> (\<And>y. x = Some y \<Longrightarrow> keeps E dinv view (f y)) \<Longrightarrow>
    keeps E dinv view (case x of None \<Rightarrow> a | Some y \<Rightarrow> f y)"
  by (cases x) auto

lemma keeps_sum:
  "(\<And>y. x = Inl y \<Longrightarrow> keeps E dinv view (f y)) \<Longrightarrow> (\<And>y. x = Inr y \<Longrightarrow> keeps E dinv view (g y)) \<Longrightarrow>
    keeps E dinv view (case x of Inl y \<Rightarrow> f y | Inr y \<Rightarrow> g y)"
  by (cases x) auto

lemma waits_inv:
  assumes "chain_inv E dinv view s" and "good_block E b"
  shows "chain_inv E dinv view (s\<lparr>future_blocks := future_blocks s @ [b]\<rparr>)"
    and "chain_inv E dinv view (s\<lparr>unknown_parent := (unknown_parent s)(h \<mapsto>
      (case unknown_parent s h of None \<Rightarrow> [] | Some bs \<Rightarrow> bs) @ [b])\<rparr>)"
  using assms by (cases "unknown_parent s h"; auto simp: chain_inv_def settled_def chain_ok_def tables_ok_def waiting_ok_def)+

lemma sent_inv: "chain_inv E dinv view s \<Longrightarrow> chain_inv E dinv view (s\<lparr>outbox := hs\<rparr>)"
  by (simp add: chain_inv_def settled_def chain_ok_def tables_ok_def waiting_ok_def)

context chain_store
begin

lemma reads_keeps:
  assumes "chain_inv E dinv view s" and "\<And>st. chain_ok E dinv view st s \<Longrightarrow> reads E dinv view st Q s (r s)"
  shows "keeps E dinv view (r s)"
  unfolding keeps_def using inv_reads[where r = r, OF assms] by blast

lemma header_keeps: "chain_inv E dinv view s \<Longrightarrow> keeps E dinv view (get_block_header_by_hash E h s)"
  by (rule reads_keeps[where r = "get_block_header_by_hash E h", OF _ header_reads])

text \<open>The checks can add a block to those that wait, and nothing else.\<close>

lemma basic_check_keeps:
  assumes "chain_inv E dinv view s" and "good_block E b"
  shows "keeps E dinv view (block_basic_check E now b s)"
  unfolding block_basic_check_def
proof (rule keeps_pair)
  fix h b'
  assume "block_hash (e_sha3 E) (e_bo E) b = Some (h, b')"
  from block_hash_good(1)[OF assms(2) this] have g: "good_block E b'" .
  have check: "chain_inv E dinv view s \<Longrightarrow> keeps E dinv view (check_proof E b' s)" for s
    by (rule reads_keeps[where r = "check_proof E b'", OF _ check_proof_reads[OF _ g]])
  have known: "keeps E dinv view (do {
         (parent, s) \<leftarrow> get_block_header_by_hash E (parent_hash (b_header b')) s;
         case parent of
           None \<Rightarrow>
             let waiting = (case unknown_parent s (parent_hash (b_header b')) of None \<Rightarrow> [] | Some bs \<Rightarrow> bs) in
             Some (Inl UnknownParent, s\<lparr>unknown_parent := (unknown_parent s)(parent_hash (b_header b') \<mapsto> waiting @ [b'])\<rparr>)
         | Some p \<Rightarrow>
             if h_timestamp (b_header b') \<le> h_timestamp (rh_header p) then Some (Inl InvalidTimestamp, s)
             else if h_timestamp (b_header b') > now then Some (Inl FutureBlock, s\<lparr>future_blocks := future_blocks s @ [b']\<rparr>)
             else check_proof E b' s })"
    if "chain_inv E dinv view s" for s now
    unfolding Let_def
    by (rule keeps_bind[OF header_keeps[OF that]], rule keeps_case)
      (auto intro!: keeps_return waits_inv g check)
  note ret = keeps_return[OF assms(1)]
  show "keeps E dinv view (do {
     d \<leftarrow> difficulty (e_sha3 E) (b_header b');
     limit \<leftarrow> get_difficulty (c_config s);
     if uint_cmp d limit = Greater then Some (Inl InvalidProof, s)
     else case now of
       None \<Rightarrow> Some (Inl NTPError, s)
     | Some now \<Rightarrow> do {
         m \<leftarrow> cmul 2 (nps (c_config s));
         m \<leftarrow> cmul m (steps (c_config s));
         m \<leftarrow> cadd now m;
         if m < h_timestamp (b_header b') then Some (Inl InvalidTimestamp, s)
         else do {
           (known, s) \<leftarrow> get_block_header_by_hash E h s;
           if known \<noteq> None then Some (Inl DuplicateBlock, s)
           else do {
             (parent, s) \<leftarrow> get_block_header_by_hash E (parent_hash (b_header b')) s;
             case parent of
               None \<Rightarrow>
                 let waiting = (case unknown_parent s (parent_hash (b_header b')) of None \<Rightarrow> [] | Some bs \<Rightarrow> bs) in
                 Some (Inl UnknownParent, s\<lparr>unknown_parent := (unknown_parent s)(parent_hash (b_header b') \<mapsto> waiting @ [b'])\<rparr>)
             | Some p \<Rightarrow>
                 if h_timestamp (b_header b') \<le> h_timestamp (rh_header p) then Some (Inl InvalidTimestamp, s)
                 else if h_timestamp (b_header b') > now then Some (Inl FutureBlock, s\<lparr>future_blocks := future_blocks s @ [b']\<rparr>)
                 else check_proof E b' s } } } })"
    by (rule keeps_option, rule keeps_option, rule keeps_if, rule ret, rule keeps_case, rule ret,
        rule keeps_option, rule keeps_option, rule keeps_option, rule keeps_if, rule ret,
        rule keeps_bind[OF header_keeps[OF assms(1)]], rule keeps_if, erule keeps_return, erule known)
qed

lemma chain_insert_keeps:
  assumes "chain_inv E dinv view s" and "good_block E b"
  shows "keeps E dinv view (chain_insert E now b s)"
  unfolding chain_insert_def
proof (rule keeps_pair)
  fix h b'
  assume "block_hash (e_sha3 E) (e_bo E) b = Some (h, b')"
  from block_hash_good(1)[OF assms(2) this] have g: "good_block E b'" .
  have check: "chain_inv E dinv view s \<Longrightarrow> keeps E dinv view (check_transactions E b' s)" for s
    by (rule reads_keeps[where r = "check_transactions E b'", OF _ check_transactions_reads[OF _ g]])
  have ins: "chain_inv E dinv view s \<Longrightarrow>
      keeps E dinv view (Option.bind (insert_at E b' v s) (\<lambda>s. Some (Inr (), s\<lparr>outbox := outbox s @ [h]\<rparr>)))" for s v
    using insert_at_inv[OF _ g, of s v] sent_inv by (auto simp: keeps_def bind_eq_Some_conv)
  show "keeps E dinv view (do {
     (r, s) \<leftarrow> block_basic_check E now b' s;
     case r of
       Inl e \<Rightarrow> Some (Inl e, s)
     | Inr _ \<Rightarrow> do {
         (c, s) \<leftarrow> check_transactions E b' s;
         case c of
           Inl e \<Rightarrow> Some (Inl e, s)
         | Inr checked \<Rightarrow> do {
             s \<leftarrow> insert_at E b' checked s;
             Some (Inr (), s\<lparr>outbox := outbox s @ [h]\<rparr>) } } })"
    by (rule keeps_bind[OF basic_check_keeps[OF assms(1) g]], rule keeps_sum, erule keeps_return,
        rule keeps_bind[OF check], assumption, rule keeps_sum, erule keeps_return, erule ins)
qed

subsection \<open>The threads that retry blocks\<close>

lemma insert_all_inv:
  "chain_inv E dinv view s \<Longrightarrow> \<forall>b \<in> set bs. good_block E b \<Longrightarrow> insert_all E now bs s = Some s' \<Longrightarrow> chain_inv E dinv view s'"
proof (induction bs arbitrary: s)
  case (Cons b bs)
  then obtain r s1 where i: "chain_insert E (now b) b s = Some (r, s1)" "insert_all E now bs s1 = Some s'"
    by (auto simp: bind_eq_Some_conv)
  have "chain_inv E dinv view s1" by (rule keepsD[OF chain_insert_keeps i(1)]) (use Cons.prems in simp_all)
  from Cons.IH[OF this _ i(2)] Cons.prems(2) show ?case by simp
qed simp

lemma on_inserted_inv:
  assumes "chain_inv E dinv view s" and "on_inserted E now s = Some s'"
  shows "chain_inv E dinv view s'"
proof -
  have w: "chain_inv E dinv view (s\<lparr>outbox := o', unknown_parent := u\<rparr>)"
    if "u = unknown_parent s \<or> (\<exists>h. u = (unknown_parent s)(h := None))" for o' u
    using that assms(1) by (auto simp: chain_inv_def settled_def chain_ok_def tables_ok_def waiting_ok_def split: if_splits)
  show ?thesis
  proof (cases "outbox s")
    case (Cons h rest)
    show ?thesis
    proof (cases "unknown_parent s h")
      case None
      then show ?thesis using assms(2) Cons w[of "unknown_parent s" rest] by (auto simp: on_inserted_def)
    next
      case (Some bs)
      have "\<forall>b \<in> set bs. good_block E b" using assms(1) Some by (auto simp: chain_inv_def waiting_ok_def)
      then show ?thesis
        using insert_all_inv[OF w[of "(unknown_parent s)(h := None)" rest], of bs now s'] assms(2) Cons Some
        by (auto simp: on_inserted_def)
    qed
  qed (use assms in \<open>simp add: on_inserted_def\<close>)
qed

lemma pending_loop_inv:
  "chain_inv E dinv view s \<Longrightarrow> \<forall>b \<in> set bs. good_block E b \<Longrightarrow> pending_loop E now seen bs s = Some (left, s') \<Longrightarrow>
    chain_inv E dinv view s' \<and> set left \<subseteq> set bs"
proof (induction bs arbitrary: s left)
  case (Cons b bs)
  show ?case
  proof (cases "h_timestamp (b_header b) \<le> now")
    case True
    then obtain r s1 where i: "chain_insert E (seen b) b s = Some (r, s1)"
      and r: "(case r of Inl _ \<Rightarrow> None | Inr _ \<Rightarrow> pending_loop E now seen bs s1) = Some (left, s')"
      using Cons.prems(3) by (auto simp: bind_eq_Some_conv)
    have l: "pending_loop E now seen bs s1 = Some (left, s')" using r by (cases r) auto
    have "chain_inv E dinv view s1" by (rule keepsD[OF chain_insert_keeps i]) (use Cons.prems in simp_all)
    from Cons.IH[OF this _ l] Cons.prems(2) show ?thesis by auto
  next
    case False
    then obtain l where l: "pending_loop E now seen bs s = Some (l, s')" "left = b # l"
      using Cons.prems(3) by (auto simp: bind_eq_Some_conv)
    from Cons.IH[OF Cons.prems(1) _ l(1)] Cons.prems(2) l(2) show ?thesis by auto
  qed
qed simp

lemma handle_pending_inv:
  assumes "chain_inv E dinv view s" and "handle_pending E now seen s = Some s'"
  shows "chain_inv E dinv view s'"
proof (cases now)
  case (Some time)
  then obtain l s1 where l: "pending_loop E time seen (future_blocks s) s = Some (l, s1)" "s' = s1\<lparr>future_blocks := l\<rparr>"
    using assms(2) by (auto simp: handle_pending_def bind_eq_Some_conv)
  have f: "\<forall>b \<in> set (future_blocks s). good_block E b" using assms(1) by (simp add: chain_inv_def waiting_ok_def)
  from pending_loop_inv[OF assms(1) f l(1)] f l(2) show ?thesis
    by (auto simp: chain_inv_def settled_def chain_ok_def tables_ok_def waiting_ok_def)
qed (use assms in \<open>simp add: handle_pending_def\<close>)

end

end
