(* ===== verification/ChainGarbage.thy ===== *)
theory ChainGarbage
  imports ChainKeep
begin

section \<open>Collecting garbage is invisible\<close>

text \<open>
  \<open>collect_garbage\<close> drops cached values. Lookups afterwards decode them from the store again, and find what
  was cached: for a header up to the hash in its cell, which decoding computes.
\<close>

context cached_table
begin

lemma coherent_drop: "coherent cache st \<Longrightarrow> coherent (\<lambda>k. if P k then None else cache k) st"
  by (auto simp: coherent_def split: if_splits)

lemma view_drop:
  assumes "coherent cache st" and "\<And>v e. good v \<Longrightarrow> enc v = Some e \<Longrightarrow> dec e = Some (f v)" and "\<And>v. f (f v) = f v"
  shows "map_option f (table_view key dec col (\<lambda>k. if P k then None else cache k) st k) =
    map_option f (table_view key dec col cache st k)"
proof (cases "cache k")
  case (Some v)
  then obtain e where "good v" "enc v = Some e" "st col (key k) = Some e"
    using coherentD[OF assms(1) Some] enc_good by metis
  then show ?thesis using Some assms(2,3) by (simp add: table_view_def)
qed (simp add: table_view_def)

end

text \<open>What the users of the chain see of it.\<close>

definition sees_same :: "('sk, 'pk, 'rs, 'db) env \<Rightarrow> store \<Rightarrow> 'db chain \<Rightarrow> 'db chain \<Rightarrow> bool" where
  "sees_same E st s s' \<longleftrightarrow> core s' = core s \<and>
     (\<forall>h. map_option (recelled (e_sha3 E)) (v_header E st s' h) = map_option (recelled (e_sha3 E)) (v_header E st s h)) \<and>
     v_body st s' = v_body st s \<and> v_address st s' = v_address st s \<and> v_number_db st s' = v_number_db st s"

lemma sees_same_refl: "sees_same E st s s"
  by (simp add: sees_same_def)

lemma sees_same_trans: "sees_same E st s s' \<Longrightarrow> sees_same E st s' s'' \<Longrightarrow> sees_same E st s s''"
  by (simp add: sees_same_def)

lemma recelled_twice: "recelled sha3 (recelled sha3 h) = recelled sha3 h"
  by (simp add: recelled_def header_item_def)

lemma forget_sees:
  assumes "tables_ok E st s"
  shows "sees_same E st s (forget_ids ids s)" and "tables_ok E st (forget_ids ids s)"
proof -
  note t = assms[unfolded tables_ok_def]
  let ?s = "forget_ids ids s"
  have h: "map_option (recelled (e_sha3 E)) (v_header E st ?s h) = map_option (recelled (e_sha3 E)) (v_header E st s h)" for h
    using header_table.view_drop[of E "block_headers s" st "recelled (e_sha3 E)" "\<lambda>h. BlockHeader h \<in> ids" h] t rich_trip recelled_twice
    by (fastforce simp: v_header_def forget_ids_def)
  have b: "v_body st ?s h = v_body st s h" for h
    using body_table.view_drop[of E "block_bodies s" st id "\<lambda>h. BlockBody h \<in> ids" h] t body_trip
    by (fastforce simp: v_body_def forget_ids_def option.map_id)
  have a: "v_address st ?s h = v_address st s h" for h
    using address_table.view_drop[of E "transaction_addresses s" st id "\<lambda>h. TransactionAddresses h \<in> ids" h] t address_trip
    by (fastforce simp: v_address_def forget_ids_def option.map_id)
  have n: "v_number_db st ?s m = v_number_db st s m" for m
    using number_table.view_drop[of E "block_hashes s" st id "\<lambda>n. BlockHashes n \<in> ids" m] t hash_trip
    by (fastforce simp: v_number_db_def forget_ids_def option.map_id)
  show "sees_same E st s ?s"
    using h b a n by (auto simp: sees_same_def core_def forget_ids_def fun_eq_iff)
  show "tables_ok E st ?s"
    using t header_table.coherent_drop[of E "block_headers s" st "\<lambda>h. BlockHeader h \<in> ids"]
      body_table.coherent_drop[of E "block_bodies s" st "\<lambda>h. BlockBody h \<in> ids"]
      address_table.coherent_drop[of E "transaction_addresses s" st "\<lambda>h. TransactionAddresses h \<in> ids"]
      number_table.coherent_drop[of E "block_hashes s" st "\<lambda>n. BlockHashes n \<in> ids"]
    by (simp add: tables_ok_def forget_ids_def)
qed

end
