(* ===== verification/ChainRun.thy ===== *)
theory ChainRun
  imports ChainGarbage "HOL-Library.Sublist"
begin

section \<open>Runs of the chain\<close>

text \<open>
  The steps that the rest of the node can make the chain take, as a relation, and the invariant that they
  keep: whatever order they come in, the caches are coherent with the store.
\<close>

subsection \<open>Own blocks\<close>

text \<open>What the miner hands over: sizes that stay below the bound of the RLP decoder, and 65 byte signatures.\<close>

definition mined_ok :: "('sk, 'pk, 'rs, 'db) env \<Rightarrow> u64 \<Rightarrow> hash \<Rightarrow> bytes \<Rightarrow> signed_transaction list \<Rightarrow> bool" where
  "mined_ok E height h time_sig txs \<longleftrightarrow>
     unat height + 1 < 2 ^ 32 \<and> length h = 32 \<and> length time_sig < 2 ^ 28 \<and> (\<forall>t \<in> set txs. good_stx (e_bo E) t) \<and>
     isize (body_item \<lparr>transactions = txs\<rparr>) < 2 ^ 32 \<and>
     (\<forall>sk m sig. crypto_sign (e_secp E) sk m = Inr sig \<longrightarrow> length sig = 65)"

lemma isize_word: "isize (word_item (w :: u64)) \<le> 17" "isize (word_item (b :: u8)) \<le> 10"
proof -
  show "isize (word_item w) \<le> 17" using nbytes_usize[of "unat w"] unat_bound[of w] by (simp add: word_item_def)
  have "nbytes (unat b) \<le> 1" using unat_bound[of b] by (simp add: nbytes_le_iff)
  then show "isize (word_item b) \<le> 10" by (simp add: word_item_def)
qed

lemma isize_bytes: "sum_list (map (isize \<circ> word_item) (bs :: bytes)) \<le> 10 * length bs"
  by (induction bs) (auto intro: order_trans[OF add_mono[OF isize_word(2)]])

lemma header_isize:
  assumes "length (parent_hash h) = 32" and "length (h_transactions_root h) = 32" and "length (h_state_root h) = 32"
    and "length (h_receipts_root h) = 32" and "length (block_signature (h_proof h)) = 65"
    and "length (time_signature (h_proof h)) < 2 ^ 28"
  shows "isize (header_item h) < 2 ^ 32 - 100"
proof -
  have "isize (header_item h) \<le> 1000 + 10 * length (time_signature (h_proof h))"
    using assms(1-5) isize_word(1)[of "h_timestamp h"] isize_word(1)[of "h_height h"]
      isize_bytes[of "time_signature (h_proof h)"]
    by (simp add: header_item_def proof_item_def)
  then show ?thesis using assms(6) by simp
qed

lemma header_wf_rich:
  assumes "sha3_ok E" and "big_endian (e_bo E)" and "h_height h < 2 ^ 32"
    and "length (parent_hash h) = 32" and "length (h_transactions_root h) = 32" and "length (h_state_root h) = 32"
    and "length (h_receipts_root h) = 32" and "length (block_signature (h_proof h)) = 65"
    and "length (time_signature (h_proof h)) < 2 ^ 28" and "\<forall>x. h_hash h = Some x \<longrightarrow> length x = 32"
  shows "wf_rich E \<lparr>rh_header = h, rh_verified = v\<rparr>"
proof -
  note i = header_isize[OF assms(4-9)]
  have "small (header_item h)" by (rule small_isize) (use i in simp)
  moreover have "small (rich_item \<lparr>rh_header = h, rh_verified = v\<rparr>)"
    by (rule small_isize) (use i in \<open>simp add: rich_item_def bool_item_def\<close>)
  ultimately show ?thesis using assms by (simp add: wf_rich_def wf_header_def)
qed

lemma null_rlp_length [simp]: "length SHA3_NULL_RLP = 32"
  by (simp add: SHA3_NULL_RLP_def)

lemma genesis_good:
  assumes "sha3_ok E" and "big_endian (e_bo E)"
  shows "good_block E (genesis t)"
proof -
  have "wf_rich E \<lparr>rh_header = b_header (genesis t), rh_verified = True\<rparr>"
    by (rule header_wf_rich[OF assms])
      (simp_all add: genesis_def block_default_def header_default_def proof_default_def hash_new_def)
  moreover have "small (body_item body_default)"
    by (rule small_isize) (simp add: body_item_def body_default_def)
  ultimately show ?thesis
    using assms(2) by (simp add: good_block_def good_body_def genesis_def block_default_def body_default_def)
qed

lemma filter_loop_subseq: "subseq (filter_loop bh bt mx cache txs seen) txs"
  by (induction bh bt mx cache txs seen rule: filter_loop.induct) auto

lemma isize_subseq: "subseq xs ys \<Longrightarrow> sum_list (map f xs) \<le> sum_list (map f ys)" for f :: "'a \<Rightarrow> nat"
  by (induction rule: list_emb.induct) auto

lemma body_subseq:
  assumes "isize (body_item \<lparr>transactions = ys\<rparr>) < 2 ^ 32" and "subseq xs ys"
  shows "isize (body_item \<lparr>transactions = xs\<rparr>) < 2 ^ 32"
  using isize_subseq[OF assms(2), of "\<lambda>x. isize (stx_item x)"] assms(1) by (simp add: body_item_def comp_def)

lemma mined_block_good:
  assumes "sha3_ok E" and "big_endian (e_bo E)" and "mined_ok E height h time_sig txs" and "subseq txs' txs"
    and "cadd height 1 = Some up"
    and "block_sign (e_sha3 E) (e_bo E) (e_secp E) sk (block_init up time h txs' time_sig) = Some b"
  shows "good_block E b"
proof -
  note m = assms(3)[unfolded mined_ok_def]
  let ?b = "block_init up time h txs' time_sig"
  have up: "up < 2 ^ 32" using assms(5) m by (auto simp: cadd_def word_less_nat_alt unat_word_ariths split: if_splits)
  have "wf_rich E \<lparr>rh_header = b_header ?b, rh_verified = True\<rparr>"
    by (rule header_wf_rich[OF assms(1,2)]) (use m up in \<open>simp_all add: block_init_def hash_new_def\<close>)
  moreover have "good_body (e_bo E) (b_body ?b)"
    using m body_subseq[OF _ assms(4)] assms(2) list_emb_set[OF assms(4)]
    by (auto simp: good_body_def block_init_def intro!: small_isize)
  ultimately have g: "good_block E ?b" by (simp add: good_block_def)
  obtain x b' where hb: "block_hash (e_sha3 E) (e_bo E) ?b = Some (x, b')" and c: "(case crypto_sign (e_secp E) sk x of
       Inl _ \<Rightarrow> None
     | Inr sig \<Rightarrow>
         Some (b'\<lparr>b_header := (b_header b')\<lparr>h_proof := (h_proof (b_header b'))\<lparr>block_signature := sig\<rparr>\<rparr>\<rparr>)) = Some b"
    using assms(6) by (auto simp: block_sign_def bind_eq_Some_conv)
  obtain sig where sig: "crypto_sign (e_secp E) sk x = Inr sig"
    and b: "b = b'\<lparr>b_header := (b_header b')\<lparr>h_proof := (h_proof (b_header b'))\<lparr>block_signature := sig\<rparr>\<rparr>\<rparr>"
    using c by (cases "crypto_sign (e_secp E) sk x") auto
  note g' = block_hash_good[OF g hb]
  have hdr: "b_header b' = (b_header ?b)\<lparr>h_hash := Some x\<rparr>"
    using hb by (auto simp: block_hash_def header_hash_def bind_eq_Some_conv block_init_def)
  have "length x = 32" using g'(1) hdr by (simp add: good_block_def wf_rich_def)
  then have "wf_rich E \<lparr>rh_header = b_header b, rh_verified = True\<rparr>"
    by (intro header_wf_rich[OF assms(1,2)]) (use m up sig in \<open>auto simp: b hdr block_init_def\<close>)
  then show ?thesis using g'(1) by (simp add: good_block_def b)
qed

context chain_store
begin

lemma transactions_diff_reads:
  assumes "chain_ok E dinv view st s" and "height < 2 ^ 32"
  shows "reads E dinv view st (\<lambda>_. True) s (transactions_diff E height h s)"
  unfolding transactions_diff_def
  by (rule reads_bind_option) (use diff_loop_reads[OF assms] in \<open>auto intro!: reads_return[OF assms(1)]\<close>)

lemma filter_transactions_reads:
  assumes "chain_ok E dinv view st s" and "height < 2 ^ 32"
  shows "reads E dinv view st (\<lambda>txs'. subseq txs' txs) s (filter_transactions E height h txs s)"
  unfolding filter_transactions_def
proof (rule reads_bind[OF transactions_diff_reads[OF assms]])
  fix r s'
  assume "chain_ok E dinv view st s'"
  then show "reads E dinv view st (\<lambda>txs'. subseq txs' txs) s' (case r of
       Inl _ \<Rightarrow> None
     | Inr (height, txs_set) \<Rightarrow> do {
         (bh, bt) \<leftarrow> get_left_bound height (txs_cache s') s';
         Some (filter_loop bh bt height (txs_cache s') txs txs_set, s') })"
    by (auto intro!: reads_None reads_return reads_bind_option filter_loop_subseq split: sum.split)
qed

lemma gen_block_keeps:
  assumes "chain_inv E dinv view s" and "mined_ok E height h time_sig txs"
  shows "keeps E dinv view (gen_block E height h time time_sig txs s)"
  unfolding keeps_def
proof (intro allI impI)
  fix b s'
  assume "gen_block E height h time time_sig txs s = Some (b, s')"
  then obtain txs' s1 up where f: "filter_transactions E height h txs s = Some (txs', s1)" and up: "cadd height 1 = Some up"
    and b: "block_sign (e_sha3 E) (e_bo E) (e_secp E) (signer_private_key (c_config s1)) (block_init up time h txs' time_sig) = Some b"
    and i: "insert_at E b True s1 = Some s'"
    by (auto simp: gen_block_def bind_eq_Some_conv)
  have "unat height < 2 ^ 32" using assms(2) by (simp add: mined_ok_def)
  then have "height < 2 ^ 32" by (simp add: word_less_nat_alt)
  from inv_reads[where r = "filter_transactions E height h txs", OF assms(1) filter_transactions_reads[OF _ this] f]
  have s1: "chain_inv E dinv view s1" "subseq txs' txs" by auto
  show "chain_inv E dinv view s'"
    by (rule insert_at_inv[OF s1(1) mined_block_good[OF sha3_law bo_law assms(2) s1(2) up b] i])
qed

end

subsection \<open>Start\<close>

text \<open>A store that a chain has written: everything in its tables is the encoding of a good value.\<close>

definition db_good :: "('sk, 'pk, 'rs, 'db) env \<Rightarrow> store \<Rightarrow> bool" where
  "db_good E st \<longleftrightarrow>
     cached_table.stored_ok header_key (enc_rich E) COL_HEADERS (wf_rich E) UNIV st \<and>
     cached_table.stored_ok body_key (enc_body E) COL_BODIES (good_body (e_bo E)) UNIV st \<and>
     cached_table.stored_ok address_key (enc_address E) COL_EXTRA (good_address (e_bo E)) UNIV st \<and>
     cached_table.stored_ok block_number_key (enc_hash E) COL_EXTRA (good_hash E) HEIGHTS st"

text \<open>The window is still empty while \<open>init\<close> fills it; the lookups that it makes do not read the window.\<close>

lemma header_any_window:
  "get_block_header_by_hash E h (s\<lparr>txs_cache := c\<rparr>) =
    map_option (\<lambda>(r, s). (r, s\<lparr>txs_cache := c\<rparr>)) (get_block_header_by_hash E h s)"
  by (cases "read_with_cache header_key (dec_rich E) (e_get E (c_db s)) COL_HEADERS (block_headers s) h";
      cases "note_used (BlockHeader h) (cache_man s)")
    (auto simp: get_block_header_by_hash_def note_id_def)

lemma txs_any_window:
  "block_transaction_hashes_by_hash E h (s\<lparr>txs_cache := c\<rparr>) =
    map_option (\<lambda>(r, s). (r, s\<lparr>txs_cache := c\<rparr>)) (block_transaction_hashes_by_hash E h s)"
proof -
  have "get_block_body_by_hash E h (s\<lparr>txs_cache := c\<rparr>) =
      map_option (\<lambda>(r, s). (r, s\<lparr>txs_cache := c\<rparr>)) (get_block_body_by_hash E h s)"
    by (cases "read_with_cache body_key dec_body (e_get E (c_db s)) COL_BODIES (block_bodies s) h";
        cases "note_used (BlockBody h) (cache_man s)")
      (auto simp: get_block_body_by_hash_def note_id_def)
  then show ?thesis
    by (cases "get_block_body_by_hash E h s") (auto simp: block_transaction_hashes_by_hash_def split: option.split Option.bind_split)
qed

lemma window_loop_any_window:
  "window_loop E n header cache s = Some (m, header', cache', s') \<Longrightarrow>
    window_loop E n header cache (s\<lparr>txs_cache := c\<rparr>) = Some (m, header', cache', s'\<lparr>txs_cache := c\<rparr>)"
proof (induction n arbitrary: header cache s rule: measure_induct_rule[of unat])
  case (less n)
  obtain x txs s1 b n' where w: "rh_hash E header = Some x" "block_transaction_hashes_by_hash E x s = Some (txs, s1)"
    "info_of E header txs = Some b" "csub n 1 = Some n'"
    and r: "(if n' = 0 \<or> h_height (rh_header header) = 0 then Some (n', header, hc_push_front b cache, s1)
     else do {
       (p, s) \<leftarrow> get_block_header_by_hash E (parent_hash (rh_header header)) s1;
       p \<leftarrow> p;
       window_loop E n' p (hc_push_front b cache) s }) = Some (m, header', cache', s')"
    using less.prems unfolding window_loop.simps[of E n] by (auto simp: bind_eq_Some_conv Let_def)
  have w': "block_transaction_hashes_by_hash E x (s\<lparr>txs_cache := c\<rparr>) = Some (txs, s1\<lparr>txs_cache := c\<rparr>)"
    using w(2) by (simp add: txs_any_window)
  have n': "unat n' < unat n" using w(4) by (auto simp: csub_one word_less_nat_alt pred_word unat_gt_0 split: if_splits)
  show ?case
  proof (cases "n' = 0 \<or> h_height (rh_header header) = 0")
    case True
    then show ?thesis using r w w' unfolding window_loop.simps[of E n] by (auto simp: Let_def)
  next
    case False
    then obtain p s2 where p: "get_block_header_by_hash E (parent_hash (rh_header header)) s1 = Some (Some p, s2)"
      and l: "window_loop E n' p (hc_push_front b cache) s2 = Some (m, header', cache', s')"
      using r by (auto simp: bind_eq_Some_conv)
    have "get_block_header_by_hash E (parent_hash (rh_header header)) (s1\<lparr>txs_cache := c\<rparr>) = Some (Some p, s2\<lparr>txs_cache := c\<rparr>)"
      using p by (simp add: header_any_window)
    then show ?thesis using less.IH[OF n' l] False w w' unfolding window_loop.simps[of E n] by (simp add: Let_def)
  qed
qed

lemma push_back_queue [simp]: "hc_queue (hc_push_back b c) = hc_queue c @ [b]"
  by (simp add: hc_push_back_def)

lemma push_front_queue [simp]: "hc_queue (hc_push_front b c) = b # hc_queue c"
  by (simp add: hc_push_front_def)

lemma pad_queue: "hc_queue (foldl (\<lambda>cache _. hc_push_back b cache) c xs) = hc_queue c @ replicate (length xs) b"
  by (induction xs arbitrary: c) (simp_all add: replicate_app_Cons_same)

context chain_store
begin

lemma window_loop_ok:
  "chain_ok E dinv view st s \<Longrightarrow> window_loop E n header cache s = Some (m, header', cache', s') \<Longrightarrow>
    chain_ok E dinv view st s' \<and> same E st s s' \<and> hc_queue cache' \<noteq> []"
proof (induction n arbitrary: header cache s rule: measure_induct_rule[of unat])
  case (less n)
  obtain x txs s1 b n' where w: "rh_hash E header = Some x" "block_transaction_hashes_by_hash E x s = Some (txs, s1)"
    "info_of E header txs = Some b" "csub n 1 = Some n'"
    and r: "(if n' = 0 \<or> h_height (rh_header header) = 0 then Some (n', header, hc_push_front b cache, s1)
     else do {
       (p, s) \<leftarrow> get_block_header_by_hash E (parent_hash (rh_header header)) s1;
       p \<leftarrow> p;
       window_loop E n' p (hc_push_front b cache) s }) = Some (m, header', cache', s')"
    using less.prems(2) unfolding window_loop.simps[of E n] by (auto simp: bind_eq_Some_conv Let_def)
  from readsD[OF tx_hashes_reads[OF less.prems(1)] w(2)] have s1: "chain_ok E dinv view st s1" "same E st s s1" by auto
  have n': "unat n' < unat n" using w(4) by (auto simp: csub_one word_less_nat_alt pred_word unat_gt_0 split: if_splits)
  show ?case
  proof (cases "n' = 0 \<or> h_height (rh_header header) = 0")
    case True
    then show ?thesis using r s1 by auto
  next
    case False
    then obtain p s2 where p: "get_block_header_by_hash E (parent_hash (rh_header header)) s1 = Some (Some p, s2)"
      and l: "window_loop E n' p (hc_push_front b cache) s2 = Some (m, header', cache', s')"
      using r by (auto simp: bind_eq_Some_conv)
    from readsD[OF header_reads[OF s1(1)] p] have s2: "chain_ok E dinv view st s2" "same E st s1 s2" by auto
    from less.IH[OF n' s2(1) l] same_trans[OF same_trans[OF s1(2) s2(2)]] show ?thesis by blast
  qed
qed

lemma new_ok: "dinv d \<Longrightarrow> db_good E (view d) \<Longrightarrow> hc_queue q \<noteq> [] \<Longrightarrow>
    chain_ok E dinv view (view d) ((chain_new d c w)\<lparr>txs_cache := q\<rparr>)"
  by (simp add: chain_ok_def tables_ok_def db_good_def chain_new_def cache_manager_new_ok
    header_table.coherent_empty body_table.coherent_empty address_table.coherent_empty number_table.coherent_empty)

lemma chain_init_inv:
  assumes "dinv d" and "db_good E (view d)" and "chain_init E c d = Some s"
  shows "chain_inv E dinv view s"
proof -
  let ?pad = "\<lambda>x t. foldl (\<lambda>cache _. hc_push_back (padding x t) cache)"
  obtain n0 where n0: "cadd LMT (buffer_size c) = Some n0" using assms(3) by (auto simp: chain_init_def bind_eq_Some_conv)
  obtain w where w1: "cadd n0 1 = Some w" using assms(3) n0 by (auto simp: chain_init_def bind_eq_Some_conv)
  obtain ret where ret: "e_get E d COL_EXTRA CURRENT_HASH = Some ret"
    using assms(3) n0 w1 by (auto simp: chain_init_def bind_eq_Some_conv Let_def)
  have r: "(case ret of
       Inl _ \<Rightarrow> None
     | Inr (Some h) \<Rightarrow> do {
         (header, s) \<leftarrow> get_block_header_by_hash E (hash_from_slice 32 h) (chain_new d c (unat w));
         header \<leftarrow> header;
         (n, header, cache, s) \<leftarrow> window_loop E w header (txs_cache s)
           (s\<lparr>current_height := h_height (rh_header header), current_hash := hash_from_slice 32 h\<rparr>);
         x \<leftarrow> rh_hash E header;
         Some (s\<lparr>txs_cache := ?pad x (h_timestamp (rh_header header)) cache [0..<unat n]\<rparr>) }
     | Inr None \<Rightarrow> do {
         (x, g) \<leftarrow> block_hash (e_sha3 E) (e_bo E) (genesis (start_time c));
         insert_at E g True ((chain_new d c (unat w))\<lparr>txs_cache :=
           ?pad x (start_time c) (txs_cache (chain_new d c (unat w))) [0..<unat w]\<rparr>) }) = Some s"
  proof -
    obtain n5 where "cadd n0 5 = Some n5" using assms(3) n0 by (auto simp: chain_init_def bind_eq_Some_conv)
    then show ?thesis using assms(3)[unfolded chain_init_def Let_def] n0 w1 ret by simp
  qed
  have w: "0 < unat w" using w1 by (auto simp: cadd_def unat_word_ariths split: if_splits)
  let ?s = "chain_new d c (unat w)"
  let ?q = "hc_push_back (padding [] 0) (txs_cache ?s)"
  have ok: "chain_ok E dinv view (view d) (?s\<lparr>txs_cache := q\<rparr>)" if "hc_queue q \<noteq> []" for q
    by (rule new_ok[OF assms(1,2) that])
  consider "ret = Inr None" | h where "ret = Inr (Some h)" using r by (cases ret) auto
  then show ?thesis
  proof cases
    case 1
    then obtain x g where g: "block_hash (e_sha3 E) (e_bo E) (genesis (start_time c)) = Some (x, g)"
      and i: "insert_at E g True (?s\<lparr>txs_cache :=
        foldl (\<lambda>cache _. hc_push_back (padding x (start_time c)) cache) (txs_cache ?s) [0..<unat w]\<rparr>) = Some s"
      using r by (auto simp: bind_eq_Some_conv Let_def)
    show ?thesis
    proof (rule insert_at_inv[OF _ block_hash_good(1)[OF genesis_good[OF sha3_law bo_law] g] i])
      show "chain_inv E dinv view (?s\<lparr>txs_cache :=
          foldl (\<lambda>cache _. hc_push_back (padding x (start_time c)) cache) (txs_cache ?s) [0..<unat w]\<rparr>)"
        using ok[of "?pad x (start_time c) (txs_cache ?s) [0..<unat w]"] w
        by (simp add: chain_inv_def settled_def waiting_ok_def pad_queue chain_new_def)
    qed
  next
    case (2 h)
    let ?h = "hash_from_slice 32 h"
    obtain header s1 n header' cache s2 x where l: "get_block_header_by_hash E ?h ?s = Some (Some header, s1)"
      "window_loop E w header (txs_cache s1) (s1\<lparr>current_height := h_height (rh_header header), current_hash := ?h\<rparr>) =
        Some (n, header', cache, s2)"
      and s: "s = s2\<lparr>txs_cache := foldl (\<lambda>cache _. hc_push_back (padding x (h_timestamp (rh_header header'))) cache) cache [0..<unat n]\<rparr>"
      using r 2 by (auto simp: bind_eq_Some_conv Let_def)
    let ?s1 = "s1\<lparr>txs_cache := ?q\<rparr>"
    let ?t1 = "?s1\<lparr>current_height := h_height (rh_header header), current_hash := ?h\<rparr>"
    have "get_block_header_by_hash E ?h (?s\<lparr>txs_cache := ?q\<rparr>) = Some (Some header, ?s1)"
      using l(1) by (simp add: header_any_window)
    from readsD[OF header_reads[OF ok] this] have s1: "chain_ok E dinv view (view d) ?s1" "same E (view d) (?s\<lparr>txs_cache := ?q\<rparr>) ?s1"
      by simp_all
    have t1: "chain_ok E dinv view (view d) ?t1" using s1(1) by (simp add: chain_ok_def tables_ok_def)
    have eq: "?t1 = (s1\<lparr>current_height := h_height (rh_header header), current_hash := ?h\<rparr>)\<lparr>txs_cache := ?q\<rparr>" by simp
    have "window_loop E w header (txs_cache s1) ?t1 = Some (n, header', cache, s2\<lparr>txs_cache := ?q\<rparr>)"
      unfolding eq by (rule window_loop_any_window[OF l(2)])
    from window_loop_ok[OF t1 this] have s2: "chain_ok E dinv view (view d) (s2\<lparr>txs_cache := ?q\<rparr>)"
      "same E (view d) ?t1 (s2\<lparr>txs_cache := ?q\<rparr>)" "hc_queue cache \<noteq> []" by auto
    have "c_db s2 = d" "future_blocks s2 = []" "unknown_parent s2 = (\<lambda>_. None)"
      using same_fields(1,6,7)[OF s1(2)] same_fields(1,6,7)[OF s2(2)] by (simp_all add: chain_new_def)
    then show ?thesis
      using s2(1,3) by (simp add: s chain_inv_def settled_def waiting_ok_def pad_queue chain_ok_def tables_ok_def)
  qed
qed

end

subsection \<open>Steps\<close>

text \<open>
  A run starts with \<open>init\<close> on a store, and goes on with the operations of the other components in any order:
  a block from the network, an own block, the two threads, the collection of garbage, and a lookup.
\<close>

inductive chain_run :: "('sk, 'pk, 'rs, 'db) env \<Rightarrow> sleepy_config \<Rightarrow> 'db \<Rightarrow> 'db chain \<Rightarrow> bool" for E c d where
  start: "chain_init E c d = Some s \<Longrightarrow> chain_run E c d s"
| insert: "chain_run E c d s \<Longrightarrow> good_block E b \<Longrightarrow> chain_insert E now b s = Some (r, s') \<Longrightarrow> chain_run E c d s'"
| mine: "chain_run E c d s \<Longrightarrow> mined_ok E height h time_sig txs \<Longrightarrow>
    gen_block E height h time time_sig txs s = Some (b, s') \<Longrightarrow> chain_run E c d s'"
| inserted: "chain_run E c d s \<Longrightarrow> on_inserted E seen s = Some s' \<Longrightarrow> chain_run E c d s'"
| pending: "chain_run E c d s \<Longrightarrow> handle_pending E now seen s = Some s' \<Longrightarrow> chain_run E c d s'"
| collect: "chain_run E c d s \<Longrightarrow> chain_collect_garbage E s = Some s' \<Longrightarrow> chain_run E c d s'"
| lookup: "chain_run E c d s \<Longrightarrow> get_block_by_hash E h s = Some (bo, s') \<Longrightarrow> chain_run E c d s'"

inductive_cases chain_runE: "chain_run E c d s"

lemma report_sees:
  assumes "tables_ok E st s"
  shows "let s' = report (\<lambda>ids s. let s = forget_ids ids s in (caches_size E s, s)) es s in
    sees_same E st s s' \<and> tables_ok E st s' \<and> cache_man s' = cache_man s"
  using assms
proof (induction es arbitrary: s)
  case Nil
  then show ?case by (simp add: sees_same_refl)
next
  case (Cons e es)
  note f = forget_sees[OF Cons.prems, of e]
  have "cache_man (forget_ids e s) = cache_man s" by (simp add: forget_ids_def)
  then show ?case using Cons.IH[OF f(2)] sees_same_trans[OF f(1)] by (simp add: Let_def)
qed

lemma collected:
  assumes "chain_inv E dinv view s" and "chain_collect_garbage E s = Some s'"
  shows "chain_inv E dinv view s' \<and> sees_same E (view (c_db s)) s s'"
proof -
  let ?f = "\<lambda>ids s. let s = forget_ids ids s in (caches_size E s, s)"
  obtain size m t where c: "collect_garbage size ?f (cache_man s) s = Some (m, t)" and s': "s' = t\<lparr>cache_man := m\<rparr>"
    using assms(2) by (auto simp: chain_collect_garbage_def bind_eq_Some_conv)
  have mo: "manager_ok (cache_man s)" and to: "tables_ok E (view (c_db s)) s"
    using assms(1) by (simp_all add: chain_inv_def settled_def chain_ok_def)
  have "\<exists>es. manager_ok m \<and> t = report ?f es s"
  proof (cases "size < pref_cache_size (cache_man s)")
    case True
    then show ?thesis using c rotate_ok(1)[OF mo] by (auto simp: collect_garbage_def intro!: exI[of _ "[]"])
  next
    case False
    then have "collect_loop COLLECTION_QUEUE_SIZE ?f (cache_man s) s = (m, t)" using c by (simp add: collect_garbage_def)
    from collect_loop_spec[OF _ this] mo obtain k where "k \<le> COLLECTION_QUEUE_SIZE"
      "m = (cache_man s)\<lparr>cache_usage := replicate k {} @ take (length (cache_usage (cache_man s)) - k) (cache_usage (cache_man s))\<rparr>"
      "t = report ?f (take k (rev (cache_usage (cache_man s)))) s" by (auto simp: manager_ok_def)
    with collected_ok(1)[OF mo this(1,2)] show ?thesis by blast
  qed
  then obtain es where m: "manager_ok m" "t = report ?f es s" by blast
  have r: "sees_same E (view (c_db s)) s t" "tables_ok E (view (c_db s)) t" using report_sees[OF to, of es] m(2) by (simp_all add: Let_def)
  then have "sees_same E (view (c_db s)) s s'"
    by (simp add: sees_same_def s' core_def v_header_def v_body_def v_address_def v_number_db_def)
  moreover from r(1) have "c_db s' = c_db s" "txs_cache s' = txs_cache s" "future_blocks s' = future_blocks s"
    "unknown_parent s' = unknown_parent s" by (simp_all add: sees_same_def core_def s')
  ultimately show ?thesis
    using assms(1) m(1) r(2) by (simp add: chain_inv_def settled_def waiting_ok_def chain_ok_def tables_ok_def s')
qed

context chain_store
begin

lemma lookup_keeps: "chain_inv E dinv view s \<Longrightarrow> keeps E dinv view (get_block_by_hash E h s)"
  unfolding get_block_by_hash_def
  by (rule keeps_bind[OF header_keeps], assumption,
      rule keeps_bind[OF reads_keeps[where r = "get_block_body_by_hash E h", OF _ body_reads]], assumption, assumption,
      erule keeps_return)

lemma run_inv:
  assumes "dinv d" and "db_good E (view d)" and "chain_run E c d s"
  shows "chain_inv E dinv view s"
  using assms(3)
proof induction
  case (start s)
  then show ?case by (rule chain_init_inv[OF assms(1,2)])
next
  case (insert s b now r s')
  then show ?case using keepsD[OF chain_insert_keeps] by blast
next
  case (mine s height h time_sig txs time b s')
  then show ?case using keepsD[OF gen_block_keeps] by blast
next
  case (lookup s h bo s')
  then show ?case using keepsD[OF lookup_keeps] by blast
qed (use on_inserted_inv handle_pending_inv collected in blast)+

end

end
