(* ===== verification/ChainExtend.thy ===== *)
theory ChainExtend
  imports ChainRun
begin

section \<open>A block on top of the chain\<close>

text \<open>
  The usual case: a verified block whose parent is the tip. Insertion does not panic, makes the block the tip,
  moves the window by one and stores what the later lookups find.
\<close>

subsection \<open>The window\<close>

text \<open>The window is full and ends with the tip. (After a restart of a short chain it is not: see \<open>ChainSpec\<close>.)\<close>

definition window_full :: "'db chain \<Rightarrow> bool" where
  "window_full s \<longleftrightarrow> length (hc_queue (txs_cache s)) = hc_total (txs_cache s) \<and> 10 < hc_total (txs_cache s) \<and>
     bi_height (last (hc_queue (txs_cache s))) = current_height s \<and> bi_hash (last (hc_queue (txs_cache s))) = current_hash s"

lemma info_at_window:
  assumes "hc_queue c \<noteq> []" and "bi_height (last (hc_queue c)) = best" and "h \<le> best"
    and "unat best - unat h < length (hc_queue c)"
  shows "block_info_at c h = Some (Some (hc_queue c ! (length (hc_queue c) - 1 - (unat best - unat h))))"
proof -
  have "csub best h = Some (best - h)" and u: "unat (best - h) = unat best - unat h"
    using assms(3) by (simp_all add: csub_def word_le_nat_alt unat_sub)
  moreover have "length (hc_queue c) - 1 - (unat best - unat h) < length (hc_queue c)" using assms(1) by (simp add: less_imp_diff_less)
  ultimately show ?thesis using assms by (simp add: block_info_at_def best_height_def index_def not_le)
qed

lemma print_loop_window:
  assumes "hc_queue (txs_cache s) \<noteq> []" and "bi_height (last (hc_queue (txs_cache s))) = best"
    and "i + n \<le> length (hc_queue (txs_cache s))" and "i + n \<le> Suc (unat best)"
  shows "print_loop E best i n s = Some s"
  using assms(3,4)
proof (induction n arbitrary: i)
  case (Suc n)
  have i: "i \<le> unat best" using Suc.prems(2) by simp
  then have u: "unat (of_nat i :: u64) = i" using unat_bound[of best] by (simp add: unat_of_nat)
  have le: "(of_nat i :: u64) \<le> best" using i u by (simp add: word_le_nat_alt)
  have c: "csub best (of_nat i) = Some (best - of_nat i)" using le by (simp add: csub_def)
  have b: "unat (best - of_nat i) = unat best - i" using le u by (simp add: unat_sub)
  have "unat best - unat (best - of_nat i) = i" using b i by simp
  moreover have "best - of_nat i \<le> best" using b by (simp add: word_le_nat_alt)
  ultimately have "block_info_at (txs_cache s) (best - of_nat i) =
      Some (Some (hc_queue (txs_cache s) ! (length (hc_queue (txs_cache s)) - 1 - i)))"
    using info_at_window[OF assms(1,2), of "best - of_nat i"] Suc.prems(1) by simp
  then show ?case using Suc.IH[of "i + 1"] Suc.prems c by (simp add: block_hash_by_number_def)
qed simp

lemma print_chain_window:
  assumes "10 < length (hc_queue (txs_cache s))" and "bi_height (last (hc_queue (txs_cache s))) = best"
  shows "print_chain E best s = Some s"
proof -
  have ne: "hc_queue (txs_cache s) \<noteq> []" using assms(1) by auto
  show ?thesis
    unfolding print_chain_def
    by (rule print_loop_window[OF ne assms(2)]) (use assms(1) in \<open>auto simp: word_less_nat_alt not_less\<close>)
qed

lemma update_one:
  assumes "length (hc_queue c) = m" and "0 < m"
  shows "hc_queue (update_txs_cache c [b] m) = (hc_queue c)[m - 1 := b]" and "hc_total (update_txs_cache c [b] m) = hc_total c"
proof -
  have "m - 1 < length (hc_queue c)" using assms by simp
  then show "hc_queue (update_txs_cache c [b] m) = (hc_queue c)[m - 1 := b]"
    using assms(2) by (simp add: update_txs_cache_def)
  show "hc_total (update_txs_cache c [b] m) = hc_total c"
    using assms(2) by (simp add: update_txs_cache_def hc_replace_def split: prod.split option.split)
qed

subsection \<open>Writing the block\<close>

definition add_addresses :: "(hash \<Rightarrow> transaction_address option) \<Rightarrow> (hash \<times> transaction_address) list \<Rightarrow> hash \<Rightarrow> transaction_address option" where
  "add_addresses m xs = foldl (\<lambda>m (h, a). m(h \<mapsto> a)) m xs"

lemma add_addresses_simps [simp]:
  "add_addresses m [] = m" "add_addresses m ((h, a) # xs) = add_addresses (m(h \<mapsto> a)) xs"
  by (simp_all add: add_addresses_def)

definition block_addresses :: "block_info \<Rightarrow> (hash \<times> transaction_address) list" where
  "block_addresses b = map (\<lambda>(i, h). (h, \<lparr>ta_block_hash = bi_hash b, ta_index = i\<rparr>)) (enumerate 0 (bi_transactions b))"

lemma hash_cell_length:
  assumes "good_block E b" and "block_hash (e_sha3 E) (e_bo E) b = Some (x, b')"
  shows "length x = 32"
proof -
  have "h_hash (b_header b') = Some x"
    using assms(2) by (auto simp: block_hash_def header_hash_def bind_eq_Some_conv split: option.splits)
  then show ?thesis using block_hash_good(1)[OF assms] by (simp add: good_block_def wf_rich_def)
qed

context chain_store
begin

lemma note_id_total: "manager_ok (cache_man s) \<Longrightarrow> \<exists>m. note_id i s = Some (s\<lparr>cache_man := m\<rparr>)"
  using note_id_ok by blast

lemma write_addresses_total:
  "pend E dinv view batch s \<Longrightarrow> \<forall>(h, a) \<in> set xs. good_address (e_bo E) a \<Longrightarrow>
    \<exists>batch' m. write_addresses E batch xs s =
      Some (batch', s\<lparr>transaction_addresses := add_addresses (transaction_addresses s) xs, cache_man := m\<rparr>)"
proof (induction xs arbitrary: batch s)
  case Nil
  then show ?case by (auto intro!: exI[of _ batch] exI[of _ "cache_man s"])
next
  case (Cons x xs)
  obtain h a where x: "x = (h, a)" by force
  have "good_address (e_bo E) a" using Cons.prems(2) x by simp
  from pend_write_address[OF Cons.prems(1) this, of h] obtain e where
    e: "write_with_cache address_key (enc_address E) COL_EXTRA (transaction_addresses s) h a Overwrite batch =
        Some (tr_put COL_EXTRA (address_key h) e batch, (transaction_addresses s)(h \<mapsto> a))"
      "pend E dinv view (tr_put COL_EXTRA (address_key h) e batch) (s\<lparr>transaction_addresses := (transaction_addresses s)(h \<mapsto> a)\<rparr>)"
    by blast
  let ?s = "s\<lparr>transaction_addresses := (transaction_addresses s)(h \<mapsto> a)\<rparr>"
  have "manager_ok (cache_man ?s)" using e(2) by (simp add: pend_def chain_ok_def)
  then obtain m where m: "note_id (TransactionAddresses h) ?s = Some (?s\<lparr>cache_man := m\<rparr>)" using note_id_total by blast
  from pend_note[OF e(2) m] have p: "pend E dinv view (tr_put COL_EXTRA (address_key h) e batch) (?s\<lparr>cache_man := m\<rparr>)" by simp
  from Cons.IH[OF p] Cons.prems(2) obtain batch' n where
    "write_addresses E (tr_put COL_EXTRA (address_key h) e batch) xs (?s\<lparr>cache_man := m\<rparr>) =
      Some (batch', s\<lparr>transaction_addresses := add_addresses ((transaction_addresses s)(h \<mapsto> a)) xs, cache_man := n\<rparr>)"
    by (auto simp: fun_upd_def)
  then have "write_addresses E batch (x # xs) s =
      Some (batch', s\<lparr>transaction_addresses := add_addresses (transaction_addresses s) (x # xs), cache_man := n\<rparr>)"
    using e(1) m by (simp add: x)
  then show ?case by blast
qed

lemma update_number_total:
  assumes "pend E dinv view batch s" and "good_info b"
  shows "\<exists>batch' m. update_block_number E batch [b] s =
    Some (batch', s\<lparr>block_hashes := (block_hashes s)(bi_height b \<mapsto> bi_hash b), cache_man := m\<rparr>)"
proof -
  have g: "length (bi_hash b) = 32" "bi_height b < 2 ^ 32" using assms(2) by (simp_all add: good_info_def)
  let ?s = "s\<lparr>block_hashes := (block_hashes s)(bi_height b \<mapsto> bi_hash b)\<rparr>"
  obtain e where e: "write_with_cache block_number_key (enc_hash E) COL_EXTRA (block_hashes s) (bi_height b) (bi_hash b) Overwrite batch =
      Some (tr_put COL_EXTRA (block_number_key (bi_height b)) e batch, (block_hashes s)(bi_height b \<mapsto> bi_hash b))"
    "pend E dinv view (tr_put COL_EXTRA (block_number_key (bi_height b)) e batch) ?s"
    using pend_write_number[OF assms(1) g] by blast
  have "manager_ok (cache_man ?s)" using e(2) by (simp add: pend_def chain_ok_def)
  then obtain m where "note_id (BlockHashes (bi_height b)) ?s = Some (?s\<lparr>cache_man := m\<rparr>)" using note_id_total by blast
  then show ?thesis using e(1) by auto
qed

text \<open>A new block above the chain: no old transactions are looked up.\<close>

lemma update_addresses_above:
  assumes "pend E dinv view batch s" and "good_info b" and "bi_height b > current_height s"
  shows "\<exists>batch' m. update_transaction_addresses E batch [b] s =
    Some (batch', s\<lparr>transaction_addresses := add_addresses (transaction_addresses s) (block_addresses b), cache_man := m\<rparr>)"
proof -
  have g: "length (bi_hash b) = 32" "length (bi_transactions b) < 2 ^ 32" using assms(2) by (simp_all add: good_info_def)
  have "\<forall>(h, a) \<in> set (block_addresses b). good_address (e_bo E) a"
    using address_good[OF bo_law g(1)] g(2) by (auto simp: block_addresses_def in_set_enumerate_eq)
  from write_addresses_total[OF assms(1) this] show ?thesis
    using assms(3) by (simp add: update_transaction_addresses_def block_transaction_hashes_by_height_def block_addresses_def)
qed

text \<open>
  What \<open>insert\<close> does for a verified block that joins the best chain without a fork: \<open>fork\<close>, \<open>addr\<close> and
  \<open>win\<close> are the three lookups of \<open>adjust_block_hashes\<close>, which differ for the first block.
\<close>

lemma insert_joins:
  assumes settled: "settled E dinv view s" and good: "good_block E b"
    and hb: "block_hash (e_sha3 E) (e_bo E) b = Some (x, b')"
    and i: "i = \<lparr>bi_hash = x, bi_height = h_height (b_header b), bi_timestamp = h_timestamp (b_header b'), bi_transactions = tx_hashes_of (b_body b)\<rparr>"
    and up: "cadd (current_height s) 1 = Some up"
    and joins: "h_height (b_header b) = up \<or> (h_height (b_header b) = current_height s \<and> (e_gen_range E 0 1 = 0 \<or> current_hash s = hash_new 32))"
    and fork: "\<And>t. core t = core s \<Longrightarrow> (if h_height (b_header b) > 0 then do {
             below \<leftarrow> csub (h_height (b_header b)) 1;
             get_fork_chain E below (parent_hash (b_header b')) t }
           else Some ([], t)) = Some ([], t)"
    and addr: "\<And>batch t. pend E dinv view batch t \<Longrightarrow> core t = core s \<Longrightarrow> \<exists>batch' m. update_transaction_addresses E batch [i] t =
      Some (batch', t\<lparr>transaction_addresses := add_addresses (transaction_addresses t) (block_addresses i), cache_man := m\<rparr>)"
    and win: "(if current_height s < h_height (b_header b)
          then (case hc_queue (txs_cache s) of [] \<Rightarrow> None | front # q \<Rightarrow> Some ((txs_cache s)\<lparr>hc_queue := q @ [front]\<rparr>))
          else Some (txs_cache s)) = Some c0"
    and c: "c = update_txs_cache c0 [i] (hc_total c0)"
    and long: "10 < length (hc_queue c)" and best: "bi_height (last (hc_queue c)) = h_height (b_header b)"
  shows "\<exists>m d. insert_at E b True s = Some (s\<lparr>
      block_headers := (block_headers s)(x \<mapsto> \<lparr>rh_header = b_header b', rh_verified = True\<rparr>),
      block_bodies := (block_bodies s)(x \<mapsto> b_body b),
      block_hashes := (block_hashes s)(h_height (b_header b) \<mapsto> x),
      transaction_addresses := add_addresses (transaction_addresses s) (block_addresses i),
      txs_cache := c, current_height := h_height (b_header b), current_hash := x, cache_man := m, c_db := d\<rparr>)"
proof -
  note g = block_hash_good[OF good hb]
  let ?h = "h_height (b_header b)" and ?r = "\<lparr>rh_header = b_header b', rh_verified = True\<rparr>"
  have cell: "h_hash (b_header b') = Some x"
    using hb by (auto simp: block_hash_def header_hash_def bind_eq_Some_conv split: option.splits)
  then have rh: "rh_hash E ?r = Some x" by (simp add: rh_hash_def header_hash_def)
  obtain e1 where e1: "write_with_cache header_key (enc_rich E) COL_HEADERS (block_headers s) x ?r Overwrite tr_new =
      Some (tr_put COL_HEADERS (header_key x) e1 tr_new, (block_headers s)(x \<mapsto> ?r))"
    "pend E dinv view (tr_put COL_HEADERS (header_key x) e1 tr_new) (s\<lparr>block_headers := (block_headers s)(x \<mapsto> ?r)\<rparr>)"
    using pend_write_header[OF settled_pend[OF settled] g(4)] by blast
  have gb: "good_body (e_bo E) (b_body b)" using good by (simp add: good_block_def)
  let ?s1 = "s\<lparr>block_headers := (block_headers s)(x \<mapsto> ?r)\<rparr>"
  obtain batch2 where e2: "write_with_cache body_key (enc_body E) COL_BODIES (block_bodies s) x (b_body b) Overwrite
        (tr_put COL_HEADERS (header_key x) e1 tr_new) = Some (batch2, (block_bodies s)(x \<mapsto> b_body b))"
    "pend E dinv view batch2 (?s1\<lparr>block_bodies := (block_bodies s)(x \<mapsto> b_body b)\<rparr>)"
    using pend_write_body[OF e1(2) gb, of x] by auto
  let ?s2 = "?s1\<lparr>block_bodies := (block_bodies s)(x \<mapsto> b_body b)\<rparr>"
  have mo: "manager_ok (cache_man ?s2)" using e2(2) by (simp add: pend_def chain_ok_def)
  then obtain m2 where m2: "note_id (BlockBody x) ?s2 = Some (?s2\<lparr>cache_man := m2\<rparr>)" "manager_ok m2"
    using note_id_ok[OF mo] by blast
  let ?s3 = "?s2\<lparr>cache_man := m2\<rparr>"
  have p3: "pend E dinv view batch2 ?s3" using pend_note[OF e2(2) m2(1)] by simp
  have txs: "block_transaction_hashes_by_hash E x ?s2 = Some (tx_hashes_of (b_body b), ?s3)"
    using m2(1) by (simp add: block_transaction_hashes_by_hash_def get_block_body_by_hash_def read_with_cache_def)
  have info: "info_of E ?r (tx_hashes_of (b_body b)) = Some i" using rh by (simp add: info_of_def i g(2))
  have gi: "good_info i" using info_good[OF g(4) good_body_count[OF gb] info] .
  have hi: "bi_height i = ?h" "bi_hash i = x" by (simp_all add: i)
  have "core ?s3 = core s" by (simp add: core_def)
  from addr[OF p3 this] obtain batch4 m4 where a4: "update_transaction_addresses E batch2 [i] ?s3 =
      Some (batch4, ?s3\<lparr>transaction_addresses := add_addresses (transaction_addresses s) (block_addresses i), cache_man := m4\<rparr>)"
    by auto
  let ?s4 = "?s3\<lparr>transaction_addresses := add_addresses (transaction_addresses s) (block_addresses i), cache_man := m4\<rparr>"
  have p4: "pend E dinv view batch4 ?s4" using update_transaction_addresses_pend[OF p3 _ a4] gi by simp
  obtain batch5 m5 where a5: "update_block_number E batch4 [i] ?s4 =
      Some (batch5, ?s4\<lparr>block_hashes := (block_hashes s)(?h \<mapsto> x), cache_man := m5\<rparr>)"
    using update_number_total[OF p4 gi] hi by auto
  let ?s5 = "?s4\<lparr>block_hashes := (block_hashes s)(?h \<mapsto> x), cache_man := m5\<rparr>"
  have print: "print_chain E ?h (?s5\<lparr>txs_cache := c\<rparr>) = Some (?s5\<lparr>txs_cache := c\<rparr>)"
    by (rule print_chain_window) (use long best in simp_all)
  let ?s6 = "?s5\<lparr>txs_cache := c\<rparr>"
  have c2: "core ?s2 = core s" by (simp add: core_def)
  have adjust: "adjust_block_hashes E batch2 ?r ?s2 = Some (True, batch5, ?s6)"
    using fork[OF c2] rh txs info a4 a5 print win
    by (cases "0 < ?h"; cases "current_height s < ?h"; cases "hc_queue (txs_cache s)")
      (auto simp add: adjust_block_hashes_def c g(2) Let_def word_gt_0 simp del: update_block_number.simps split: if_splits)
  have p6: "pend E dinv view batch5 ?s6" using adjust_block_hashes_pend[OF e2(2) g(4) adjust] by simp
  let ?s7 = "?s6\<lparr>current_height := ?h, current_hash := x\<rparr>"
  have p7: "pend E dinv view (tr_put COL_EXTRA CURRENT_HASH x batch5) ?s7" using pend_status[OF pend_put_current[OF p6]] .
  then obtain d where d: "e_write E (tr_put COL_EXTRA CURRENT_HASH x batch5) (c_db s) = Some (Inr (), d)"
    using write_ok[of "c_db s" "tr_put COL_EXTRA CURRENT_HASH x batch5"] by (auto simp: pend_def chain_ok_def)
  have "insert_at E b True s = Some (?s7\<lparr>c_db := d\<rparr>)"
    using hb e1(1) e2(1) up joins adjust d g(2,3) by (simp add: insert_at_def save_status_def Let_def)
  then show ?thesis by (intro exI[of _ m5] exI[of _ d]) simp
qed

text \<open>What is not written stays: where the new caches have no value, the new store has the old one.\<close>

lemma insert_frame:
  assumes "settled E dinv view s" and "good_block E b" and "insert_at E b v s = Some s'"
  shows "cached_table.agrees header_key COL_HEADERS UNIV (block_headers s') (view (c_db s)) (view (c_db s'))"
    and "cached_table.agrees block_number_key COL_EXTRA HEIGHTS (block_hashes s') (view (c_db s)) (view (c_db s'))"
proof -
  obtain x b' where hb: "block_hash (e_sha3 E) (e_bo E) b = Some (x, b')" using assms(3) by (auto simp: insert_at_def bind_eq_Some_conv)
  obtain batch s3 d where p: "e_write E batch (c_db s3) = Some (Inr (), d)" "s' = s3\<lparr>c_db := d\<rparr>" "pend E dinv view batch s3"
    "\<exists>t n h. core s3 = core (s\<lparr>txs_cache := t, current_height := n, current_hash := h\<rparr>)"
    by (rule insert_at_steps[OF assms hb], rule that, assumption+)
  have db: "c_db s3 = c_db s" using p(4) by (auto simp: core_def)
  have v: "view (c_db s') = after_batch (view (c_db s3)) batch"
    using write_ok[of "c_db s3" batch] p(1-3) by (auto simp: pend_def chain_ok_def after_batch_def)
  have f: "block_headers s' = block_headers s3" "block_hashes s' = block_hashes s3" using p(2) by simp_all
  have a: "cached_table.agrees header_key COL_HEADERS UNIV (block_headers s3) (view (c_db s3)) (after_batch (view (c_db s3)) batch)"
    "cached_table.agrees block_number_key COL_EXTRA HEIGHTS (block_hashes s3) (view (c_db s3)) (after_batch (view (c_db s3)) batch)"
    using p(3) unfolding pend_def chain_ok_def by blast+
  show "cached_table.agrees header_key COL_HEADERS UNIV (block_headers s') (view (c_db s)) (view (c_db s'))"
    unfolding v f db[symmetric] by (rule a(1))
  show "cached_table.agrees block_number_key COL_EXTRA HEIGHTS (block_hashes s') (view (c_db s)) (view (c_db s'))"
    unfolding v f db[symmetric] by (rule a(2))
qed

lemma header_frame:
  assumes "settled E dinv view s" and "good_block E b" and "insert_at E b v s = Some s'" and "block_headers s' h = block_headers s h"
  shows "v_header E (view (c_db s')) s' h = v_header E (view (c_db s)) s h"
  using insert_frame(1)[OF assms(1-3)] assms(4)
  by (cases "block_headers s h") (simp_all add: v_header_def table_view_def header_table.agrees_def)

lemma number_frame:
  assumes "settled E dinv view s" and "good_block E b" and "insert_at E b v s = Some s'" and "block_hashes s' n = block_hashes s n"
    and "n < 2 ^ 32"
  shows "v_number_db (view (c_db s')) s' n = v_number_db (view (c_db s)) s n"
  using insert_frame(2)[OF assms(1-3)] assms(4,5)
  by (cases "block_hashes s n") (simp_all add: v_number_db_def table_view_def number_table.agrees_def HEIGHTS_iff)

lemma extend_tip:
  assumes inv_ok: "chain_inv E dinv view s" and full: "window_full s" and good: "good_block E b"
    and hb: "block_hash (e_sha3 E) (e_bo E) b = Some (x, b')"
    and above: "cadd (current_height s) 1 = Some (h_height (b_header b))"
    and parent: "parent_hash (b_header b') = current_hash s"
    and i: "i = \<lparr>bi_hash = x, bi_height = h_height (b_header b), bi_timestamp = h_timestamp (b_header b'), bi_transactions = tx_hashes_of (b_body b)\<rparr>"
  shows "\<exists>s'. insert_at E b True s = Some s' \<and> chain_inv E dinv view s' \<and> window_full s' \<and>
    current_height s' = h_height (b_header b) \<and> current_hash s' = x \<and>
    hc_queue (txs_cache s') = tl (hc_queue (txs_cache s)) @ [i] \<and>
    block_headers s' = (block_headers s)(x \<mapsto> \<lparr>rh_header = b_header b', rh_verified = True\<rparr>) \<and>
    block_bodies s' = (block_bodies s)(x \<mapsto> b_body b) \<and>
    block_hashes s' = (block_hashes s)(h_height (b_header b) \<mapsto> x) \<and>
    transaction_addresses s' = add_addresses (transaction_addresses s) (block_addresses i) \<and> c_config s' = c_config s"
proof -
  let ?h = "h_height (b_header b)"
  note w = full[unfolded window_full_def]
  have ne: "hc_queue (txs_cache s) \<noteq> []" using w by auto
  have settled: "settled E dinv view s" using inv_ok by (simp add: chain_inv_def)
  have h0: "?h \<noteq> 0" "?h > current_height s" "?h - 1 = current_height s"
  proof -
    have u: "unat ?h = unat (current_height s) + 1" using cadd_SomeD[OF above] by simp
    then show "?h \<noteq> 0" "?h > current_height s" by (auto simp: word_less_nat_alt)
    have "?h = current_height s + 1" using above by (auto simp: cadd_def split: if_splits)
    then show "?h - 1 = current_height s" by simp
  qed
  have fork: "(if ?h > 0 then do { below \<leftarrow> csub ?h 1; get_fork_chain E below (parent_hash (b_header b')) t }
      else Some ([], t)) = Some ([], t)" if t: "core t = core s" for t
  proof -
    have tc: "txs_cache t = txs_cache s" using t by (simp add: core_def)
    have "block_info_at (txs_cache s) (?h - 1) = Some (Some (last (hc_queue (txs_cache s))))"
      using info_at_window[OF ne conjunct1[OF conjunct2[OF conjunct2[OF w]]] order_refl] ne by (simp add: h0 last_conv_nth)
    then have "block_hash_by_number E (?h - 1) t = Some (Some (current_hash s), t)"
      using w by (simp add: block_hash_by_number_def tc)
    then show ?thesis using h0(1) by (simp add: csub_one get_fork_chain_def fork_chain_loop.simps[of E "?h - 1"] parent)
  qed
  have gb: "good_body (e_bo E) (b_body b)" using good by (simp add: good_block_def)
  note g = block_hash_good[OF good hb]
  have gi: "good_info i"
    using g(4)[of True] good_body_count[OF gb] hash_cell_length[OF good hb] good by (simp add: good_info_def i good_block_def wf_rich_def)
  have addr: "\<exists>batch' m. update_transaction_addresses E batch [i] t =
      Some (batch', t\<lparr>transaction_addresses := add_addresses (transaction_addresses t) (block_addresses i), cache_man := m\<rparr>)"
    if "pend E dinv view batch t" "core t = core s" for batch t
    by (rule update_addresses_above[OF that(1) gi]) (use that(2) h0(2) in \<open>simp add: core_def i\<close>)
  obtain front q where q: "hc_queue (txs_cache s) = front # q" using ne by (cases "hc_queue (txs_cache s)") auto
  define c0 where "c0 = (txs_cache s)\<lparr>hc_queue := q @ [front]\<rparr>"
  define c where "c = update_txs_cache c0 [i] (hc_total c0)"
  have lc: "length (hc_queue c0) = hc_total c0" "0 < hc_total c0" using w q by (simp_all add: c0_def)
  have qc: "hc_queue c = q @ [i]" "hc_total c = hc_total (txs_cache s)"
  proof -
    have "hc_total c0 - 1 = length q" using lc by (simp add: c0_def)
    then show "hc_queue c = q @ [i]" using update_one(1)[OF lc, of i] by (simp add: c_def) (simp add: c0_def)
    show "hc_total c = hc_total (txs_cache s)" using update_one(2)[OF lc, of i] by (simp add: c_def) (simp add: c0_def)
  qed
  have win: "(if current_height s < ?h
          then (case hc_queue (txs_cache s) of [] \<Rightarrow> None | front # q \<Rightarrow> Some ((txs_cache s)\<lparr>hc_queue := q @ [front]\<rparr>))
          else Some (txs_cache s)) = Some c0" using h0(2) q by (simp add: c0_def)
  have long: "10 < length (hc_queue c)" "bi_height (last (hc_queue c)) = ?h" using w q qc by (simp_all add: i)
  obtain m d where ins: "insert_at E b True s = Some (s\<lparr>
      block_headers := (block_headers s)(x \<mapsto> \<lparr>rh_header = b_header b', rh_verified = True\<rparr>),
      block_bodies := (block_bodies s)(x \<mapsto> b_body b),
      block_hashes := (block_hashes s)(?h \<mapsto> x),
      transaction_addresses := add_addresses (transaction_addresses s) (block_addresses i),
      txs_cache := c, current_height := ?h, current_hash := x, cache_man := m, c_db := d\<rparr>)"
    using insert_joins[OF settled good hb i above disjI1[OF refl] fork addr win c_def long] by blast
  show ?thesis
    by (rule exI, rule conjI[OF ins], rule conjI[OF insert_at_inv[OF inv_ok good ins]])
      (use w q qc in \<open>simp add: window_full_def i\<close>)
qed

end

subsection \<open>The first block\<close>

lemma pad_total: "hc_total (foldl (\<lambda>cache _. hc_push_back b cache) c xs) = hc_total c"
  by (induction xs arbitrary: c) (simp_all add: hc_push_back_def)

lemma genesis_fields [simp]:
  "h_height (b_header (genesis t)) = 0" "h_hash (b_header (genesis t)) = None" "transactions (b_body (genesis t)) = []"
  by (simp_all add: genesis_def block_default_def header_default_def body_default_def)

context chain_store
begin

text \<open>On an empty store the node starts with the first block of its configuration as the tip.\<close>

lemma genesis_start:
  assumes d: "dinv d" "db_good E (view d)" "view d COL_EXTRA CURRENT_HASH = None" and n: "unat (buffer_size c) + 105 < 2 ^ 64"
    and g: "block_hash (e_sha3 E) (e_bo E) (genesis (start_time c)) = Some (x, g)"
  shows "\<exists>s. chain_init E c d = Some s \<and> chain_inv E dinv view s \<and> window_full s \<and> current_height s = 0 \<and> current_hash s = x \<and>
    c_config s = c \<and> block_hashes s 0 = Some x \<and> v_header E (view (c_db s)) s x = Some \<lparr>rh_header = b_header g, rh_verified = True\<rparr> \<and>
    (\<forall>y. y \<noteq> x \<longrightarrow> v_header E (view (c_db s)) s y = Option.bind (view d COL_HEADERS (header_key y)) (dec_rich E))"
proof -
  obtain n0 where n0: "cadd LMT (buffer_size c) = Some n0" "unat n0 = 100 + unat (buffer_size c)"
    using n by (auto simp: cadd_def LMT_def unat_word_ariths)
  obtain w where w: "cadd n0 1 = Some w" "unat w = 101 + unat (buffer_size c)"
    using n n0(2) by (auto simp: cadd_def unat_word_ariths)
  have n5: "\<exists>k. cadd n0 5 = Some k" using n n0(2) by (auto simp: cadd_def)
  let ?s0 = "chain_new d c (unat w)" and ?p = "padding x (start_time c)"
  define q where "q = foldl (\<lambda>cache _. hc_push_back ?p cache) (txs_cache ?s0) [0..<unat w]"
  let ?s = "?s0\<lparr>txs_cache := q\<rparr>"
  have qq: "hc_queue q = replicate (unat w) ?p" "hc_total q = unat w"
    by (simp_all add: q_def pad_queue pad_total) (simp_all add: chain_new_def hc_new_def)
  have ne: "hc_queue q \<noteq> []" using w(2) by (simp add: qq)
  have ok: "chain_inv E dinv view ?s" using new_ok[OF d(1,2) ne, of c "unat w"]
    by (simp add: chain_inv_def settled_def waiting_ok_def) (simp add: chain_new_def)
  have good: "good_block E g" using block_hash_good(1)[OF genesis_good[OF sha3_law bo_law] g] .
  have hg: "h_height (b_header g) = 0" "b_body g = b_body (genesis (start_time c))"
    using block_hash_good(2,3)[OF genesis_good[OF sha3_law bo_law] g] by simp_all
  have cell: "h_hash (b_header g) = Some x"
    using g by (auto simp: block_hash_def header_hash_def bind_eq_Some_conv)
  have gg: "block_hash (e_sha3 E) (e_bo E) g = Some (x, g)" using cell by (simp add: block_hash_def header_hash_def)
  define i where "i = \<lparr>bi_hash = x, bi_height = h_height (b_header g), bi_timestamp = h_timestamp (b_header g), bi_transactions = tx_hashes_of (b_body g)\<rparr>"
  have it: "bi_transactions i = []" "bi_height i = 0" by (simp_all add: i_def hg tx_hashes_of_def)
  have addr: "\<exists>batch' m. update_transaction_addresses E batch [i] t =
      Some (batch', t\<lparr>transaction_addresses := add_addresses (transaction_addresses t) (block_addresses i), cache_man := m\<rparr>)"
    if "core t = core ?s" for batch t
  proof -
    have t: "txs_cache t = q" "current_height t = 0" using that by (simp_all add: core_def chain_new_def)
    have "block_info_at q 0 = Some (Some (hc_queue q ! (length (hc_queue q) - 1 - (unat (0::u64) - unat (0::u64)))))"
      by (rule info_at_window[OF ne]) (use w(2) in \<open>simp_all add: qq padding_def last_replicate\<close>)
    then have "block_info_at q 0 = Some (Some ?p)" using w(2) by (simp add: qq)
    then show ?thesis
      by (intro exI[of _ batch] exI[of _ "cache_man t"])
        (simp add: update_transaction_addresses_def block_transaction_hashes_by_height_def t it block_addresses_def padding_def)
  qed
  define cc where "cc = update_txs_cache q [i] (hc_total q)"
  have lq: "length (hc_queue q) = hc_total q" "0 < hc_total q" using w(2) by (simp_all add: qq)
  have cq: "length (hc_queue cc) = unat w" "hc_total cc = unat w" "last (hc_queue cc) = i"
    using update_one[OF lq, of i] w(2) by (simp_all add: cc_def qq last_list_update)
  have settled: "settled E dinv view ?s" using ok by (simp add: chain_inv_def)
  have up: "cadd (current_height ?s) 1 = Some 1" by (simp add: chain_new_def cadd_def)
  have "\<exists>m d'. insert_at E g True ?s = Some (?s\<lparr>
      block_headers := (block_headers ?s)(x \<mapsto> \<lparr>rh_header = b_header g, rh_verified = True\<rparr>),
      block_bodies := (block_bodies ?s)(x \<mapsto> b_body g),
      block_hashes := (block_hashes ?s)(h_height (b_header g) \<mapsto> x),
      transaction_addresses := add_addresses (transaction_addresses ?s) (block_addresses i),
      txs_cache := cc, current_height := h_height (b_header g), current_hash := x, cache_man := m, c_db := d'\<rparr>)"
    by (rule insert_joins[OF settled good gg i_def up _ _ addr _ cc_def])
      (use w(2) cq in \<open>simp_all add: hg it\<close>, simp_all add: chain_new_def)
  then obtain m d' where ins: "insert_at E g True ?s = Some (?s\<lparr>
      block_headers := (block_headers ?s)(x \<mapsto> \<lparr>rh_header = b_header g, rh_verified = True\<rparr>),
      block_bodies := (block_bodies ?s)(x \<mapsto> b_body g),
      block_hashes := (block_hashes ?s)(h_height (b_header g) \<mapsto> x),
      transaction_addresses := add_addresses (transaction_addresses ?s) (block_addresses i),
      txs_cache := cc, current_height := h_height (b_header g), current_hash := x, cache_man := m, c_db := d'\<rparr>)" by blast
  have "chain_init E c d = insert_at E g True ?s"
    using n0(1) w(1) n5 get_ok[OF d(1), of COL_EXTRA CURRENT_HASH] d(3) g
    by (auto simp: chain_init_def Let_def q_def)
  moreover have "chain_inv E dinv view (the (insert_at E g True ?s))" using insert_at_inv[OF ok good ins] ins by simp
  moreover have "bi_height i = 0" "bi_hash i = x" by (simp_all add: i_def hg)
  moreover have new: "c_config ?s = c" "c_db ?s = d" "block_headers ?s = (\<lambda>_. None)" by (simp_all add: chain_new_def)
  moreover have "v_header E (view (c_db (the (insert_at E g True ?s)))) (the (insert_at E g True ?s)) y =
      Option.bind (view d COL_HEADERS (header_key y)) (dec_rich E)" if "y \<noteq> x" for y
    using header_frame[OF settled good ins, of y] that by (simp add: ins new v_header_def table_view_def)
  moreover have "v_header E (view (c_db (the (insert_at E g True ?s)))) (the (insert_at E g True ?s)) x = Some \<lparr>rh_header = b_header g, rh_verified = True\<rparr>"
    by (simp add: ins v_header_def table_view_def)
  ultimately show ?thesis using ins cq w(2) by (simp add: window_full_def hg)
qed

end

end
