(* ===== verification/ChainSpec.thy ===== *)
theory ChainSpec
  imports ChainExtend
begin

section \<open>What the chain promises\<close>

text \<open>
  The properties of the chain as a whole, over any store that keeps the contract \<open>chain_store\<close>: reading gives
  what was written, a write succeeds, hashes have 32 bytes. The in-memory store of the repository keeps it
  (\<open>mem_chain\<close>), and the witnesses run on that store.
\<close>

subsection \<open>A sample node\<close>

definition sample_base :: "(unit, unit, unit, unit) env" where
  "sample_base =
     \<lparr>e_sha3 = rev, e_bo = byteorder_be, e_secp = unit_secp, e_bls = \<lparr>bls_sign = (\<lambda>m _. m), bls_verify = (\<lambda>m s _ _. m = s)\<rparr>,
      e_get = (\<lambda>(_ :: unit) _ _. None), e_write = (\<lambda>_ _. None), e_gen_range = (\<lambda>a _. a), e_headers_size = (\<lambda>_. 2 ^ 14),
      e_bodies_size = (\<lambda>_. 0), e_hashes_size = (\<lambda>_. 0), e_addresses_size = (\<lambda>_. 0)\<rparr>"

definition sample_env :: "(unit, unit, unit, in_mem) env" where
  "sample_env = mem_env sample_base"

definition sample_config :: sleepy_config where
  "sample_config =
     \<lparr>id_card = 0, max_peer = 3, steps = 10, nps = 10, miner_private_key = [], signer_private_key = replicate 32 1,
      keygroups = [], epoch_len = 5, start_time = 7, buffer_size = 10, public_keys = (\<lambda>_. None)\<rparr>"

interpretation sample: chain_store sample_env mem_ok mem_view
  unfolding sample_env_def by (rule mem_chain.chain_store_axioms)

definition sample_db :: in_mem where
  "sample_db = in_memory 8"

lemma sample_db_view: "mem_view sample_db = (\<lambda>_ _. None)"
proof (intro ext)
  fix c k
  have "hm_get (foldl (\<lambda>cols idx. hm_insert (Some (of_nat idx :: u32)) ([] :: (bytes \<times> bytes) list) cols) (hm_insert None [] []) [0..<n]) c
      \<in> {None, Some []}" for n
    by (induction n) auto
  from this[of 8] have "hm_get (columns sample_db) c \<in> {None, Some []}" by (simp add: sample_db_def in_memory_def)
  then show "mem_view sample_db c k = None" by (auto simp: mem_view_def)
qed

lemma sample_db_ok: "mem_ok sample_db" and sample_db_good: "db_good E (mem_view sample_db)"
proof -
  show "mem_ok sample_db"
    using in_memory_inv[of 8] in_memory_cols[of 8]
    by (auto simp: mem_ok_def sample_db_def COL_HEADERS_def COL_BODIES_def COL_EXTRA_def)
  show "db_good E (mem_view sample_db)"
    by (simp add: db_good_def sample_db_view header_table.stored_ok_def body_table.stored_ok_def
      address_table.stored_ok_def number_table.stored_ok_def)
qed

lemma block_hash_total:
  assumes "good_block E b"
  shows "\<exists>x b'. block_hash (e_sha3 E) (e_bo E) b = Some (x, b')"
proof (cases "h_hash (b_header b)")
  case None
  have "wf_header (e_bo E) (b_header b)" using assms by (simp add: good_block_def wf_rich_def)
  from wf_header_emits(2)[OF this] None show ?thesis by (simp add: block_hash_def header_hash_def rlp_hash_def)
qed (simp add: block_hash_def header_hash_def)

lemma sample_genesis_good: "good_block sample_env (genesis t)"
  using genesis_good[OF sample.sha3_law sample.bo_law] .

lemma sample_start:
  "\<exists>s. chain_init sample_env sample_config sample_db = Some s \<and> chain_inv sample_env mem_ok mem_view s \<and> window_full s \<and>
    current_height s = 0 \<and> length (current_hash s) = 32 \<and> chain_run sample_env sample_config sample_db s \<and> c_config s = sample_config"
proof -
  obtain x g where g: "block_hash (e_sha3 sample_env) (e_bo sample_env) (genesis (start_time sample_config)) = Some (x, g)"
    using block_hash_total[OF sample_genesis_good] by blast
  have n: "unat (buffer_size sample_config) + 105 < 2 ^ 64" by (simp add: sample_config_def)
  have v: "mem_view sample_db COL_EXTRA CURRENT_HASH = None" by (simp add: sample_db_view)
  from sample.genesis_start[OF sample_db_ok sample_db_good v n g] hash_cell_length[OF sample_genesis_good g]
  show ?thesis using chain_run.start[of sample_env sample_config sample_db] by blast
qed

subsection \<open>The caches\<close>

text \<open>
  C2. Whatever the node does, the caches tell what the store holds: after any run (\<open>chain_run\<close>: start, blocks from the network
  and own ones, forks, the threads that retry blocks, garbage collection, lookups, in any order) every
  cached header, body, number and transaction address is the value whose encoding the store has under its key.
\<close>

theorem run_coherent:
  assumes "chain_store E dinv view" and "dinv d" and "db_good E (view d)" and "chain_run E c d s"
  shows "(\<forall>h r. block_headers s h = Some r \<longrightarrow> enc_rich E r = view (c_db s) COL_HEADERS (header_key h) \<and> wf_rich E r) \<and>
    (\<forall>h b. block_bodies s h = Some b \<longrightarrow> enc_body E b = view (c_db s) COL_BODIES (body_key h)) \<and>
    (\<forall>n h. block_hashes s n = Some h \<longrightarrow> enc_hash E h = view (c_db s) COL_EXTRA (block_number_key n)) \<and>
    (\<forall>h a. transaction_addresses s h = Some a \<longrightarrow> enc_address E a = view (c_db s) COL_EXTRA (address_key h)) \<and>
    dinv (c_db s) \<and> db_good E (view (c_db s)) \<and> manager_ok (cache_man s)"
proof -
  have "chain_inv E dinv view s" by (rule chain_store.run_inv[OF assms])
  then show ?thesis
    by (simp add: chain_inv_def settled_def chain_ok_def tables_ok_def db_good_def header_table.coherent_def
      body_table.coherent_def address_table.coherent_def number_table.coherent_def)
qed

theorem run_coherent_witness:
  "\<exists>s. chain_run sample_env sample_config sample_db s \<and> db_good sample_env (mem_view (c_db s)) \<and>
    (\<forall>h b. block_bodies s h = Some b \<longrightarrow> enc_body sample_env b = mem_view (c_db s) COL_BODIES (body_key h))"
proof -
  obtain s where s: "chain_run sample_env sample_config sample_db s" using sample_start by blast
  from run_coherent[OF sample.chain_store_axioms sample_db_ok sample_db_good s] s show ?thesis by blast
qed

text \<open>
  C10. Collecting garbage loses nothing. Afterwards lookups give the same bodies, addresses and numbers, and the same headers up to
  one field: a header that is read from the store again has a recomputed hash in its cell, which for a block that the node has signed is
  another one than the cached header had (\<open>ChainTypes.signed_hash_not_stored\<close>). Everything outside the caches is untouched.
\<close>

theorem garbage_invisible:
  assumes "chain_inv E dinv view s" and "chain_collect_garbage E s = Some s'"
  shows "chain_inv E dinv view s' \<and> core s' = core s \<and>
    v_body (view (c_db s)) s' = v_body (view (c_db s)) s \<and> v_address (view (c_db s)) s' = v_address (view (c_db s)) s \<and>
    v_number_db (view (c_db s)) s' = v_number_db (view (c_db s)) s \<and>
    (\<forall>h. map_option (recelled (e_sha3 E)) (v_header E (view (c_db s)) s' h) = map_option (recelled (e_sha3 E)) (v_header E (view (c_db s)) s h))"
  using collected[OF assms] by (simp add: sees_same_def)

lemma sample_collect:
  assumes "chain_inv sample_env mem_ok mem_view s"
    and "t = s\<lparr>cache_man := (cache_manager_new (2 ^ 14) (2 ^ 20) 400)\<lparr>cache_usage := replicate 7 {} @ [{BlockHeader h}]\<rparr>\<rparr>"
  shows "chain_inv sample_env mem_ok mem_view t"
    and "\<exists>t'. chain_collect_garbage sample_env t = Some t' \<and> block_headers t' h = None"
proof -
  have "usage_ok (replicate 7 {} @ [{BlockHeader h}])" by (simp add: usage_ok_Cons)
  then have "manager_ok (cache_man t)" by (simp add: assms(2) manager_ok_def COLLECTION_QUEUE_SIZE_def)
  then show "chain_inv sample_env mem_ok mem_view t"
    using assms by (simp add: chain_inv_def settled_def chain_ok_def tables_ok_def waiting_ok_def)
  have q: "COLLECTION_QUEUE_SIZE = Suc 7" by (simp add: COLLECTION_QUEUE_SIZE_def)
  show "\<exists>t'. chain_collect_garbage sample_env t = Some t' \<and> block_headers t' h = None"
    by (simp add: assms(2) chain_collect_garbage_def chain_cache_size_def usize_add_def cache_size_total_def collect_garbage_def
      sample_env_def sample_base_def mem_env_def cache_manager_new_def q forget_ids_def caches_size_def Let_def
      collect_loop.simps(2)[of 7, simplified])
qed

theorem garbage_invisible_witness:
  "\<exists>s s' h. chain_inv sample_env mem_ok mem_view s \<and> chain_collect_garbage sample_env s = Some s' \<and>
    block_headers s' h = None \<and> v_body (mem_view (c_db s)) s' = v_body (mem_view (c_db s)) s"
proof -
  obtain s where s: "chain_inv sample_env mem_ok mem_view s" using sample_start by blast
  define t where "t = s\<lparr>cache_man := (cache_manager_new (2 ^ 14) (2 ^ 20) 400)\<lparr>cache_usage := replicate 7 {} @ [{BlockHeader []}]\<rparr>\<rparr>"
  obtain t' where t': "chain_collect_garbage sample_env t = Some t'" "block_headers t' [] = None"
    using sample_collect(2)[OF s t_def] by blast
  note t = sample_collect(1)[OF s t_def]
  from garbage_invisible[OF t t'(1)] t t' show ?thesis by blast
qed

subsection \<open>Insertion at the tip\<close>

text \<open>
  C5. A verified block on top of the chain is accepted. When the window is full, a well-formed block with the next
  height whose parent is the tip is inserted without a panic; it becomes the tip, the window drops its oldest block
  and ends with the new one, its header, body and number are what lookups find, and the invariant holds again.
\<close>

theorem tip_extended:
  assumes "chain_store E dinv view" and "chain_inv E dinv view s" and "window_full s" and "good_block E b"
    and "block_hash (e_sha3 E) (e_bo E) b = Some (x, b')"
    and "cadd (current_height s) 1 = Some (h_height (b_header b))" and "parent_hash (b_header b') = current_hash s"
  shows "\<exists>s'. insert_at E b True s = Some s' \<and> chain_inv E dinv view s' \<and> window_full s' \<and>
    get_status s' = (h_height (b_header b), x) \<and>
    hc_queue (txs_cache s') = tl (hc_queue (txs_cache s)) @
      [\<lparr>bi_hash = x, bi_height = h_height (b_header b), bi_timestamp = h_timestamp (b_header b'), bi_transactions = tx_hashes_of (b_body b)\<rparr>] \<and>
    v_header E (view (c_db s')) s' x = Some \<lparr>rh_header = b_header b', rh_verified = True\<rparr> \<and>
    v_body (view (c_db s')) s' x = Some (b_body b) \<and> v_number (view (c_db s')) s' (h_height (b_header b)) = Some x"
proof -
  from chain_store.extend_tip[OF assms refl] obtain s' where s': "insert_at E b True s = Some s'" "chain_inv E dinv view s'"
    "window_full s'" "current_height s' = h_height (b_header b)" "current_hash s' = x"
    "hc_queue (txs_cache s') = tl (hc_queue (txs_cache s)) @
      [\<lparr>bi_hash = x, bi_height = h_height (b_header b), bi_timestamp = h_timestamp (b_header b'), bi_transactions = tx_hashes_of (b_body b)\<rparr>]"
    "block_headers s' = (block_headers s)(x \<mapsto> \<lparr>rh_header = b_header b', rh_verified = True\<rparr>)"
    "block_bodies s' = (block_bodies s)(x \<mapsto> b_body b)"
    "block_hashes s' = (block_hashes s)(h_height (b_header b) \<mapsto> x)"
    by blast
  have ne: "hc_queue (txs_cache s') \<noteq> []" using s'(6) by simp
  have l: "bi_height (last (hc_queue (txs_cache s'))) = h_height (b_header b)" "bi_hash (last (hc_queue (txs_cache s'))) = x"
    using s'(3-5) by (simp_all add: window_full_def)
  from info_at_window[OF ne l(1) order_refl] ne
  have "block_info_at (txs_cache s') (h_height (b_header b)) = Some (Some (last (hc_queue (txs_cache s'))))"
    by (simp add: last_conv_nth)
  with l(2) have "v_number (view (c_db s')) s' (h_height (b_header b)) = Some x" by (simp add: v_number_def)
  then show ?thesis using s' by (simp add: get_status_def v_header_def v_body_def table_view_def)
qed

theorem tip_extended_witness:
  "\<exists>s s'. chain_run sample_env sample_config sample_db s \<and>
    insert_at sample_env (block_init 1 9 (current_hash s) [] [1, 2]) True s = Some s' \<and> fst (get_status s') = 1"
proof -
  obtain s where s: "chain_run sample_env sample_config sample_db s" "chain_inv sample_env mem_ok mem_view s" "window_full s"
    "current_height s = 0" "length (current_hash s) = 32" using sample_start by blast
  let ?b = "block_init 1 9 (current_hash s) [] [1, 2]"
  have "wf_rich sample_env \<lparr>rh_header = b_header ?b, rh_verified = True\<rparr>"
    by (rule header_wf_rich[OF sample.sha3_law sample.bo_law]) (use s(5) in \<open>simp_all add: block_init_def hash_new_def\<close>)
  moreover have "small (body_item \<lparr>transactions = []\<rparr>)" by (rule small_isize) (simp add: body_item_def)
  ultimately have g: "good_block sample_env ?b"
    using sample.bo_law by (simp add: good_block_def good_body_def block_init_def)
  obtain x b' where hb: "block_hash (e_sha3 sample_env) (e_bo sample_env) ?b = Some (x, b')" using block_hash_total[OF g] by blast
  have p: "parent_hash (b_header b') = current_hash s"
    using hb by (auto simp: block_hash_def header_hash_def block_init_def bind_eq_Some_conv)
  have h: "cadd (current_height s) 1 = Some (h_height (b_header ?b))" by (simp add: s(4) cadd_def block_init_def)
  from tip_extended[OF sample.chain_store_axioms s(2,3) g hb h p] obtain s' where
    "insert_at sample_env ?b True s = Some s'" "get_status s' = (h_height (b_header ?b), x)" by blast
  then show ?thesis using s(1) by (auto simp: block_init_def)
qed

text \<open>
  C9. A node starts on an empty store: if the sizes do not overflow, \<open>init\<close> does not panic, the tip is the first block
  of the configuration at height 0, the window is full, and the invariant holds.
\<close>

theorem start_on_empty:
  assumes "chain_store E dinv view" and "dinv d" and "db_good E (view d)" and "view d COL_EXTRA CURRENT_HASH = None"
    and "unat (buffer_size c) + 105 < 2 ^ 64"
  shows "\<exists>s x g. chain_init E c d = Some s \<and> block_hash (e_sha3 E) (e_bo E) (genesis (start_time c)) = Some (x, g) \<and>
    get_status s = (0, x) \<and> window_full s \<and> chain_inv E dinv view s"
proof -
  have "good_block E (genesis (start_time c))"
    using genesis_good[of E] assms(1) by (simp add: chain_store_def)
  from block_hash_total[OF this] obtain x g where g: "block_hash (e_sha3 E) (e_bo E) (genesis (start_time c)) = Some (x, g)" by blast
  from chain_store.genesis_start[OF assms g] g show ?thesis by (auto simp: get_status_def)
qed

theorem start_on_empty_witness:
  "\<exists>s. chain_init sample_env sample_config sample_db = Some s \<and> fst (get_status s) = 0"
  using start_on_empty[OF sample.chain_store_axioms sample_db_ok sample_db_good, of sample_config]
  by (auto simp: sample_db_view sample_config_def)

end
