(* ===== verification/ChainRestart.thy ===== *)
theory ChainRestart
  imports ChainSpec
begin

section \<open>Restarting the node\<close>

text \<open>
  \<open>init\<close> on a store that a node has used before. It refills the window from the stored blocks, and this shows two
  ways in which the restarted node is not the one that stopped: the hash of a stored header can differ from
  the key it is stored under, and the padding of a short chain goes to the wrong end of the window.
\<close>

subsection \<open>The window after a restart\<close>

lemma header_core: "get_block_header_by_hash E h s = Some (r, s') \<Longrightarrow> core s' = core s"
  by (auto simp: get_block_header_by_hash_def bind_eq_Some_conv dest!: note_id_core)

lemma txs_core: "block_transaction_hashes_by_hash E h s = Some (r, s') \<Longrightarrow> core s' = core s"
  by (auto simp: block_transaction_hashes_by_hash_def get_block_body_by_hash_def bind_eq_Some_conv dest!: note_id_core)

lemma window_loop_queue:
  "window_loop E n header cache s = Some (m, header', cache', s') \<Longrightarrow>
    core s' = core s \<and> (\<exists>blocks. hc_queue cache' = blocks @ hc_queue cache \<and> length blocks + unat m = unat n \<and> blocks \<noteq> [] \<and>
      bi_height (last blocks) = h_height (rh_header header) \<and> (0 < unat m \<longrightarrow> bi_height (hd blocks) = 0))"
proof (induction n arbitrary: header cache s rule: measure_induct_rule[of unat])
  case (less n)
  obtain x txs s1 b n' where w: "info_of E header txs = Some b" "csub n 1 = Some n'"
    and t: "block_transaction_hashes_by_hash E x s = Some (txs, s1)"
    and r: "(if n' = 0 \<or> h_height (rh_header header) = 0 then Some (n', header, hc_push_front b cache, s1)
     else do {
       (p, s) \<leftarrow> get_block_header_by_hash E (parent_hash (rh_header header)) s1;
       p \<leftarrow> p;
       window_loop E n' p (hc_push_front b cache) s }) = Some (m, header', cache', s')"
    using less.prems unfolding window_loop.simps[of E n] by (auto simp: bind_eq_Some_conv Let_def)
  have b: "bi_height b = h_height (rh_header header)" using w(1) by (auto simp: info_of_def bind_eq_Some_conv)
  have n': "unat n = Suc (unat n')"
    using csub_SomeD[OF w(2)] by simp
  show ?case
  proof (cases "n' = 0 \<or> h_height (rh_header header) = 0")
    case True
    then have "m = n'" "cache' = hc_push_front b cache" "s' = s1" using r by auto
    then show ?thesis using True b n' txs_core[OF t] by (intro conjI exI[of _ "[b]"]) auto
  next
    case False
    then obtain p s2 where p: "get_block_header_by_hash E (parent_hash (rh_header header)) s1 = Some (Some p, s2)"
      and l: "window_loop E n' p (hc_push_front b cache) s2 = Some (m, header', cache', s')"
      using r by (auto simp: bind_eq_Some_conv)
    from less.IH[OF _ l] n' obtain blocks where bl: "core s' = core s2" "hc_queue cache' = blocks @ b # hc_queue cache"
      "length blocks + unat m = unat n'" "blocks \<noteq> []" "0 < unat m \<longrightarrow> bi_height (hd blocks) = 0" by auto
    then show ?thesis using b n' header_core[OF p] txs_core[OF t] by (intro conjI exI[of _ "blocks @ [b]"]) (auto simp: hd_append)
  qed
qed

text \<open>What \<open>init\<close> does with a store that has a tip.\<close>

lemma init_stored:
  assumes "e_get E d COL_EXTRA CURRENT_HASH = Some (Inr (Some h))" and "unat (buffer_size c) + 105 < 2 ^ 64"
  shows "chain_init E c d = do {
         (header, s) \<leftarrow> get_block_header_by_hash E (hash_from_slice 32 h) (chain_new d c (101 + unat (buffer_size c)));
         header \<leftarrow> header;
         (n, header, cache, s) \<leftarrow> window_loop E (101 + buffer_size c) header (txs_cache s)
           (s\<lparr>current_height := h_height (rh_header header), current_hash := hash_from_slice 32 h\<rparr>);
         x \<leftarrow> rh_hash E header;
         Some (s\<lparr>txs_cache := foldl (\<lambda>cache _. hc_push_back (padding x (h_timestamp (rh_header header))) cache) cache [0..<unat n]\<rparr>) }"
proof -
  have "cadd LMT (buffer_size c) = Some (100 + buffer_size c)" and u: "unat (100 + buffer_size c) = 100 + unat (buffer_size c)"
    using assms(2) by (simp_all add: cadd_def LMT_def unat_word_ariths)
  moreover have "cadd (100 + buffer_size c) 1 = Some (101 + buffer_size c)" and "unat (101 + buffer_size c) = 101 + unat (buffer_size c)"
    using assms(2) u by (simp_all add: cadd_def unat_word_ariths)
  moreover have "\<exists>y. cadd (100 + buffer_size c) 5 = Some y" using assms(2) u by (simp add: cadd_def)
  ultimately show ?thesis using assms(1) unfolding chain_init_def Let_def by auto
qed

context chain_store
begin

lemma stored_tip:
  assumes "dinv d" and "db_good E (view d)" and "view d COL_HEADERS h = Some (rlp_enc (rich_item r))" and "wf_rich E r"
  shows "\<exists>s. get_block_header_by_hash E h (chain_new d c w) = Some (Some (recelled (e_sha3 E) r), s) \<and> txs_cache s = hc_new w \<and>
    (\<forall>q. hc_queue q \<noteq> [] \<longrightarrow> chain_ok E dinv view (view d) (s\<lparr>txs_cache := q\<rparr>)) \<and> block_bodies s = (\<lambda>_. None) \<and>
    current_height s = 0 \<and> c_db s = d"
proof -
  let ?s = "chain_new d c w" and ?q = "hc_push_back (padding [] 0) (hc_new w)"
  have ok: "chain_ok E dinv view (view d) (?s\<lparr>txs_cache := ?q\<rparr>)" by (rule new_ok[OF assms(1,2)]) simp
  have "v_header E (view d) (?s\<lparr>txs_cache := ?q\<rparr>) h = Some (recelled (e_sha3 E) r)"
    using assms(3) rich_trip(2)[OF assms(4)] by (simp add: v_header_def table_view_def chain_new_def header_key_def)
  with header_yields[OF ok, of h] obtain t where t: "get_block_header_by_hash E h (?s\<lparr>txs_cache := ?q\<rparr>) = Some (Some (recelled (e_sha3 E) r), t)"
    "chain_ok E dinv view (view d) t" "same E (view d) (?s\<lparr>txs_cache := ?q\<rparr>) t"
    by (auto simp: yields_def)
  obtain s where s: "get_block_header_by_hash E h ?s = Some (Some (recelled (e_sha3 E) r), s)" "t = s\<lparr>txs_cache := ?q\<rparr>"
    using t(1) unfolding header_any_window by auto
  have "core s = core ?s" using header_core[OF s(1)] .
  moreover have "block_bodies s = (\<lambda>_. None)"
    using s(1) by (auto simp: get_block_header_by_hash_def note_id_def bind_eq_Some_conv chain_new_def)
  moreover have "chain_ok E dinv view (view d) (s\<lparr>txs_cache := q\<rparr>)" if "hc_queue q \<noteq> []" for q
    using t(2) that by (simp add: s(2) chain_ok_def tables_ok_def)
  ultimately show ?thesis using s(1) by (auto simp: core_def chain_new_def)
qed

lemma restart_at_genesis:
  assumes "dinv d" and "db_good E (view d)" and "view d COL_EXTRA CURRENT_HASH = Some h" and "length h = 32"
    and "view d COL_HEADERS h = Some (rlp_enc (rich_item r))" and "wf_rich E r" and "h_height (rh_header r) = 0"
    and "view d COL_BODIES (e_sha3 E (rlp_enc (header_item (rh_header r)))) = Some (rlp_enc (body_item b))"
    and "good_body (e_bo E) b" and "unat (buffer_size c) + 105 < 2 ^ 64"
  shows "\<exists>s. chain_init E c d = Some s"
proof -
  let ?x = "e_sha3 E (rlp_enc (header_item (rh_header r)))" and ?r = "recelled (e_sha3 E) r"
  obtain s where s: "get_block_header_by_hash E h (chain_new d c (101 + unat (buffer_size c))) = Some (Some ?r, s)"
    "hc_queue (hc_push_back (padding [] 0) (txs_cache s)) \<noteq> [] \<Longrightarrow>
      chain_ok E dinv view (view d) (s\<lparr>txs_cache := hc_push_back (padding [] 0) (txs_cache s)\<rparr>)"
    "block_bodies s = (\<lambda>_. None)" "c_db s = d"
    using stored_tip[OF assms(1,2,5,6)] by blast
  let ?t = "s\<lparr>current_height := h_height (rh_header ?r), current_hash := h\<rparr>"
  have mo: "manager_ok (cache_man s)" using s(2) by (simp add: chain_ok_def)
  have x: "rh_hash E ?r = Some ?x" by (simp add: rh_hash_def header_hash_def recelled_def)
  have "e_get E d COL_BODIES ?x = Some (Inr (Some (rlp_enc (body_item b))))" using get_ok[OF assms(1), of COL_BODIES ?x] assms(8) by simp
  then have read: "read_with_cache body_key dec_body (e_get E d) COL_BODIES (\<lambda>_. None) ?x = Some (Some b, [?x \<mapsto> b])"
    using body_trip(2)[OF assms(9)] by (simp add: read_with_cache_def db_read_def body_key_def)
  have "\<exists>m. note_id (BlockBody ?x) (?t\<lparr>block_bodies := [?x \<mapsto> b]\<rparr>) = Some (?t\<lparr>block_bodies := [?x \<mapsto> b], cache_man := m\<rparr>)"
    using note_id_ok[of "?t\<lparr>block_bodies := [?x \<mapsto> b]\<rparr>" "BlockBody ?x"] mo by auto
  then obtain t' where t': "block_transaction_hashes_by_hash E ?x ?t = Some (tx_hashes_of b, t')"
    using read by (auto simp: block_transaction_hashes_by_hash_def get_block_body_by_hash_def s(3,4))
  have i: "\<exists>i. info_of E ?r (tx_hashes_of b) = Some i" using x by (simp add: info_of_def)
  have "unat (101 + buffer_size c) \<noteq> 0" using assms(10) by (simp add: unat_word_ariths)
  then have "csub (101 + buffer_size c) 1 = Some (101 + buffer_size c - 1)" by (auto simp: csub_one)
  moreover have "h_height (rh_header ?r) = 0" using assms(7) by (simp add: recelled_def)
  ultimately have "\<exists>n c'. window_loop E (101 + buffer_size c) ?r (txs_cache s) ?t = Some (n, ?r, c', t')"
    unfolding window_loop.simps[of E "101 + buffer_size c"] using x t' i by (auto simp: Let_def)
  moreover have "e_get E d COL_EXTRA CURRENT_HASH = Some (Inr (Some h))" using get_ok[OF assms(1), of COL_EXTRA] assms(3) by simp
  moreover have "hash_from_slice 32 h = h" by (rule hash_from_slice_id[OF assms(4)])
  ultimately show ?thesis using init_stored[OF _ assms(10), of E d h] s(1) x by auto
qed

lemma restart_no_body:
  assumes "dinv d" and "db_good E (view d)" and "view d COL_EXTRA CURRENT_HASH = Some h" and "length h = 32"
    and "view d COL_HEADERS h = Some (rlp_enc (rich_item r))" and "wf_rich E r"
    and "view d COL_BODIES (e_sha3 E (rlp_enc (header_item (rh_header r)))) = None"
  shows "chain_init E c d = None"
proof (cases "unat (buffer_size c) + 105 < 2 ^ 64")
  case True
  let ?x = "e_sha3 E (rlp_enc (header_item (rh_header r)))" and ?r = "recelled (e_sha3 E) r"
  obtain s where s: "get_block_header_by_hash E h (chain_new d c (101 + unat (buffer_size c))) = Some (Some ?r, s)"
    "block_bodies s = (\<lambda>_. None)" "c_db s = d"
    using stored_tip[OF assms(1,2,5,6)] by blast
  have x: "rh_hash E ?r = Some ?x" by (simp add: rh_hash_def header_hash_def recelled_def)
  have "e_get E d COL_BODIES ?x = Some (Inr None)" using get_ok[OF assms(1), of COL_BODIES ?x] assms(7) by simp
  then have "block_transaction_hashes_by_hash E ?x t = None" if "block_bodies t = (\<lambda>_. None)" "c_db t = d" for t
    using that by (auto simp: block_transaction_hashes_by_hash_def get_block_body_by_hash_def read_with_cache_def db_read_def
      body_key_def Option.bind_eq_None_conv)
  then have "window_loop E (101 + buffer_size c) ?r (txs_cache s) (s\<lparr>current_height := n, current_hash := h\<rparr>) = None" for n
    unfolding window_loop.simps[of E "101 + buffer_size c"] using x s by simp
  moreover have "e_get E d COL_EXTRA CURRENT_HASH = Some (Inr (Some h))" using get_ok[OF assms(1), of COL_EXTRA] assms(3) by simp
  moreover have "hash_from_slice 32 h = h" by (rule hash_from_slice_id[OF assms(4)])
  ultimately show ?thesis using init_stored[OF _ True, of E d h] s(1) by auto
next
  case False
  then have "cadd LMT (buffer_size c) = None \<or> cadd (100 + buffer_size c) 5 = None"
    using unat_bound[of "buffer_size c"] by (auto simp: cadd_def LMT_def unat_word_ariths)
  then show ?thesis by (auto simp: chain_init_def LMT_def cadd_def)
qed

end

text \<open>
  After a restart the window has the stored blocks up to the tip, and behind them, when the chain is shorter
  than the window, padding of height 0. The window then takes its last element, the padding, for its best
  block: it answers for no height above 0, although the chain has a tip above it. (The first start
  puts the padding in front.)
\<close>

theorem restart_window:
  assumes "chain_init E c d = Some s" and "e_get E d COL_EXTRA CURRENT_HASH = Some (Inr (Some h))"
  shows "\<exists>blocks k x t. hc_queue (txs_cache s) = blocks @ replicate k (padding x t) \<and>
    length blocks + k = 101 + unat (buffer_size c) \<and> blocks \<noteq> [] \<and> bi_height (last blocks) = current_height s \<and>
    current_hash s = hash_from_slice 32 h \<and>
    (0 < k \<longrightarrow> bi_height (hd blocks) = 0 \<and> best_height (txs_cache s) = Some 0 \<and>
      (\<forall>n. 0 < n \<longrightarrow> block_info_at (txs_cache s) n = Some None))"
proof -
  obtain n0 where n0: "cadd LMT (buffer_size c) = Some n0" using assms(1) by (auto simp: chain_init_def bind_eq_Some_conv)
  obtain w where w: "cadd n0 1 = Some w" using assms(1) n0 by (auto simp: chain_init_def bind_eq_Some_conv)
  have uw: "unat w = 101 + unat (buffer_size c)" using cadd_SomeD[OF n0] cadd_SomeD[OF w] by (simp add: LMT_def)
  let ?s = "chain_new d c (unat w)" and ?h = "hash_from_slice 32 h"
  obtain n5 where n5: "cadd n0 5 = Some n5" using assms(1) n0 by (auto simp: chain_init_def bind_eq_Some_conv)
  have r: "do {
         (header, s) \<leftarrow> get_block_header_by_hash E ?h ?s;
         header \<leftarrow> header;
         (n, header, cache, s) \<leftarrow> window_loop E w header (txs_cache s)
           (s\<lparr>current_height := h_height (rh_header header), current_hash := ?h\<rparr>);
         x \<leftarrow> rh_hash E header;
         Some (s\<lparr>txs_cache := foldl (\<lambda>cache _. hc_push_back (padding x (h_timestamp (rh_header header))) cache) cache [0..<unat n]\<rparr>)
       } = Some s"
    using assms(1)[unfolded chain_init_def Let_def] n0 w n5 assms(2) by simp
  then obtain header s1 n header' cache s2 x where l: "get_block_header_by_hash E ?h ?s = Some (Some header, s1)"
      "window_loop E w header (txs_cache s1) (s1\<lparr>current_height := h_height (rh_header header), current_hash := ?h\<rparr>) =
        Some (n, header', cache, s2)"
    and s: "s = s2\<lparr>txs_cache := foldl (\<lambda>cache _. hc_push_back (padding x (h_timestamp (rh_header header'))) cache) cache [0..<unat n]\<rparr>"
    by (auto simp: bind_eq_Some_conv)
  have q1: "hc_queue (txs_cache s1) = []"
    using l(1) by (auto simp: get_block_header_by_hash_def note_id_def bind_eq_Some_conv chain_new_def hc_new_def)
  have "core s2 = core (s1\<lparr>current_height := h_height (rh_header header), current_hash := ?h\<rparr>)"
    using window_loop_queue[OF l(2)] by simp
  then have f: "current_height s = h_height (rh_header header)" "current_hash s = ?h" by (simp_all add: s core_def)
  let ?p = "padding x (h_timestamp (rh_header header'))"
  obtain blocks where bl: "hc_queue cache = blocks" "length blocks + unat n = unat w" "blocks \<noteq> []"
    "bi_height (last blocks) = h_height (rh_header header)" "0 < unat n \<longrightarrow> bi_height (hd blocks) = 0"
    using window_loop_queue[OF l(2)] q1 by auto
  have q: "hc_queue (txs_cache s) = blocks @ replicate (unat n) ?p" by (simp add: s pad_queue bl(1))
  have best: "best_height (txs_cache s) = Some 0" if "0 < unat n"
    using that by (simp add: best_height_def q padding_def last_replicate)
  have "block_info_at (txs_cache s) m = Some None" if "0 < unat n" "0 < m" for m
    using best[OF that(1)] that(2) by (simp add: block_info_at_def)
  then show ?thesis
    using q bl f uw best by (intro exI[of _ blocks] exI[of _ "unat n"] exI[of _ x] exI[of _ "h_timestamp (rh_header header')"]) auto
qed

text \<open>A store with one block, whose header may be under another key than the body.\<close>

lemma one_block_store:
  fixes X :: "('sk, 'pk, 'rs, 'x) env"
  assumes "wf_rich (mem_env X) r" and "good_body (e_bo (mem_env X)) b"
  shows "\<exists>d. mem_ok d \<and> db_good (mem_env X) (mem_view d) \<and> mem_view d COL_EXTRA CURRENT_HASH = Some h \<and>
    (\<forall>k. mem_view d COL_HEADERS k = (if k = h then Some (rlp_enc (rich_item r)) else None)) \<and>
    (\<forall>k. mem_view d COL_BODIES k = (if k = x then Some (rlp_enc (body_item b)) else None))"
proof -
  let ?s = "(chain_new sample_db sample_config 1)\<lparr>txs_cache := hc_push_back (padding [] 0) (hc_new 1)\<rparr>"
  have "settled (mem_env X) mem_ok mem_view ?s"
    unfolding settled_def using mem_chain.new_ok[where X = X, OF sample_db_ok sample_db_good] by (simp add: chain_new_def)
  note p0 = mem_chain.settled_pend[OF this]
  obtain e1 where e1: "enc_rich (mem_env X) r = Some e1"
    "pend (mem_env X) mem_ok mem_view (tr_put COL_HEADERS (header_key h) e1 tr_new) (?s\<lparr>block_headers := (block_headers ?s)(h \<mapsto> r)\<rparr>)"
    using mem_chain.pend_write_header[OF p0 assms(1), of h] by blast
  obtain e2 s2 where e2: "enc_body (mem_env X) b = Some e2"
    "pend (mem_env X) mem_ok mem_view (tr_put COL_BODIES (body_key x) e2 (tr_put COL_HEADERS (header_key h) e1 tr_new)) s2" "c_db s2 = sample_db"
    using mem_chain.pend_write_body[OF e1(2) assms(2), of x] by (auto simp: chain_new_def)
  let ?b = "tr_put COL_EXTRA CURRENT_HASH h (tr_put COL_BODIES (body_key x) e2 (tr_put COL_HEADERS (header_key h) e1 tr_new))"
  have p: "pend (mem_env X) mem_ok mem_view ?b s2" by (rule mem_chain.pend_put_current[OF e2(2)])
  then have "mem_ok (c_db s2)" "ops_ok {COL_HEADERS, COL_BODIES, COL_EXTRA} (ops ?b)" by (simp_all add: pend_def chain_ok_def)
  from mem_chain.write_ok[OF this] obtain d where d: "e_write (mem_env X) ?b (c_db s2) = Some (Inr (), d)"
    "mem_ok d" "mem_view d = after_batch (mem_view sample_db) ?b"
    by (auto simp: after_batch_def e2(3))
  from mem_chain.pend_writes[OF p d(1)] have "db_good (mem_env X) (mem_view d)"
    by (simp add: settled_def chain_ok_def tables_ok_def db_good_def)
  moreover have "e1 = rlp_enc (rich_item r)" "e2 = rlp_enc (body_item b)"
    using e1(1) e2(1) rich_trip(1)[OF assms(1)] body_trip(1)[OF assms(2)] by simp_all
  ultimately show ?thesis using d(2,3)
    by (intro exI[of _ d]) (simp add: sample_db_view header_key_def body_key_def)
qed

lemma sample_block:
  "wf_rich sample_env \<lparr>rh_header = b_header (genesis 7), rh_verified = True\<rparr>" "good_body (e_bo sample_env) body_default"
  using sample_genesis_good[of 7] by (simp_all add: good_block_def genesis_def block_default_def)

lemma sample_store:
  "\<exists>d. mem_ok d \<and> db_good sample_env (mem_view d) \<and> mem_view d COL_EXTRA CURRENT_HASH = Some h \<and>
    mem_view d COL_HEADERS h = Some (rlp_enc (rich_item \<lparr>rh_header = b_header (genesis 7), rh_verified = True\<rparr>)) \<and>
    (\<forall>k. mem_view d COL_BODIES k = (if k = x then Some (rlp_enc (body_item body_default)) else None))"
proof -
  from one_block_store[of sample_base, folded sample_env_def, OF sample_block, of h x] obtain d where
    "mem_ok d \<and> db_good sample_env (mem_view d) \<and> mem_view d COL_EXTRA CURRENT_HASH = Some h \<and>
      (\<forall>k. mem_view d COL_HEADERS k =
        (if k = h then Some (rlp_enc (rich_item \<lparr>rh_header = b_header (genesis 7), rh_verified = True\<rparr>)) else None)) \<and>
      (\<forall>k. mem_view d COL_BODIES k = (if k = x then Some (rlp_enc (body_item body_default)) else None))" by blast
  then show ?thesis by (intro exI[of _ d]) simp
qed

theorem restart_window_witness:
  "\<exists>d s blocks k x t. chain_init sample_env sample_config d = Some s \<and> hc_queue (txs_cache s) = blocks @ replicate k (padding x t) \<and>
    length blocks + k = 111"
proof -
  let ?r = "\<lparr>rh_header = b_header (genesis 7), rh_verified = True\<rparr>"
  obtain d where d: "mem_ok d" "db_good sample_env (mem_view d)" "mem_view d COL_EXTRA CURRENT_HASH = Some (replicate 32 1)"
    "mem_view d COL_HEADERS (replicate 32 1) = Some (rlp_enc (rich_item ?r))"
    "\<forall>k. mem_view d COL_BODIES k = (if k = e_sha3 sample_env (rlp_enc (header_item (rh_header ?r))) then Some (rlp_enc (body_item body_default)) else None)"
    using sample_store by blast
  have "\<exists>s. chain_init sample_env sample_config d = Some s"
    by (rule sample.restart_at_genesis[OF d(1-3) _ d(4) sample_block(1) _ _ sample_block(2)])
      (use d(5) in \<open>simp_all add: sample_config_def\<close>)
  then obtain s where s: "chain_init sample_env sample_config d = Some s" by blast
  have "e_get sample_env d COL_EXTRA CURRENT_HASH = Some (Inr (Some (replicate 32 1)))"
    using sample.get_ok[OF d(1), of COL_EXTRA] d(3) by simp
  moreover have n: "101 + unat (buffer_size sample_config) = 111" by (simp add: sample_config_def)
  ultimately show ?thesis using restart_window[OF s, unfolded n] s by blast
qed

text \<open>
  A node does not survive a restart when its tip is stored under a key that is not the hash of the stored
  bytes: \<open>init\<close> finds the header, computes its hash anew, looks the body up under that hash, and panics.
  That is the case for every block that \<open>Block::sign\<close> made in the node itself, whose key is the hash from before the
  signature (\<open>ChainTypes.signed_hash_not_stored\<close>).
\<close>

theorem restart_panics:
  assumes "chain_store E dinv view" and "dinv d" and "db_good E (view d)" and "view d COL_EXTRA CURRENT_HASH = Some h"
    and "length h = 32" and "view d COL_HEADERS h = Some (rlp_enc (rich_item r))" and "wf_rich E r"
    and "view d COL_BODIES (e_sha3 E (rlp_enc (header_item (rh_header r)))) = None"
  shows "chain_init E c d = None"
  by (rule chain_store.restart_no_body[OF assms])

theorem restart_panics_witness:
  "\<exists>d h. mem_view d COL_EXTRA CURRENT_HASH = Some h \<and> mem_view d COL_BODIES h \<noteq> None \<and> chain_init sample_env sample_config d = None"
proof -
  let ?r = "\<lparr>rh_header = b_header (genesis 7), rh_verified = True\<rparr>"
  let ?x = "e_sha3 sample_env (rlp_enc (header_item (rh_header ?r)))"
  let ?h = "map ((+) 1) ?x"
  have l: "length ?x = 32" using sample.sha3_law by (simp add: sha3_ok_def)
  then have "hd ?h = 1 + hd ?x" by (metis hd_map length_0_conv zero_neq_numeral)
  then have ne: "?x \<noteq> ?h" by (metis add_cancel_left_left zero_neq_one)
  obtain d where d: "mem_ok d" "db_good sample_env (mem_view d)" "mem_view d COL_EXTRA CURRENT_HASH = Some ?h"
    "mem_view d COL_HEADERS ?h = Some (rlp_enc (rich_item ?r))"
    "\<forall>k. mem_view d COL_BODIES k = (if k = ?h then Some (rlp_enc (body_item body_default)) else None)"
    using sample_store by blast
  have "mem_view d COL_BODIES ?x = None" using d(5) ne by simp
  with restart_panics[OF sample.chain_store_axioms d(1-3) _ d(4) sample_block(1) this] l
  have "chain_init sample_env sample_config d = None" by simp
  then show ?thesis using d(3,5) by (intro exI[of _ d] exI[of _ ?h]) simp
qed

end
