(* ===== verification/ChainForks.thy ===== *)
theory ChainForks
  imports ChainRestart
begin

section \<open>Forks\<close>

text \<open>
  What the chain computes about a fork: the ancestor of a block at a height, the transactions between a block and the
  best chain, the window after a switch. The window is where the code is not what it means to be, and the
  lemmas say what it is.
\<close>

subsection \<open>Moving the window\<close>

lemma update_from_queue:
  "length bs + i \<le> m + 1 \<Longrightarrow> 1 \<le> i \<Longrightarrow> m \<le> length (hc_queue c) \<Longrightarrow>
    hc_queue (update_txs_cache_from i c bs m) =
      take (m + 1 - i - length bs) (hc_queue c) @ rev bs @ drop (m + 1 - i) (hc_queue c)"
proof (induction bs arbitrary: i c)
  case (Cons b bs)
  let ?c = "hc_replace (m - i) b c" and ?k = "m - i"
  have k: "?k < length (hc_queue c)" "\<not> i > m" using Cons.prems by simp_all
  have q: "hc_queue ?c = (hc_queue c)[?k := b]" using k by simp
  have ih: "hc_queue (update_txs_cache_from (i + 1) ?c bs m) =
      take (m + 1 - (i + 1) - length bs) (hc_queue ?c) @ rev bs @ drop (m + 1 - (i + 1)) (hc_queue ?c)"
    by (rule Cons.IH) (use Cons.prems q in simp_all)
  have "drop ?k ((hc_queue c)[?k := b]) = b # drop (Suc ?k) (hc_queue c)"
    using k(1) Cons_nth_drop_Suc[of ?k "(hc_queue c)[?k := b]"] by (simp add: drop_update_cancel)
  moreover have "take (?k - length bs) ((hc_queue c)[?k := b]) = take (?k - length bs) (hc_queue c)"
    by (simp add: take_update_cancel)
  ultimately show ?case using ih k q Cons.prems(1,2) by (simp add: Suc_diff_le)
qed simp

lemma roll_back_queue:
  "roll_back_loop E n hdr cache s = Some (cache', s') \<Longrightarrow>
    \<exists>blocks. hc_queue cache' = blocks @ hc_queue cache \<and> length blocks = n"
proof (induction n arbitrary: hdr cache s)
  case (Suc n)
  then obtain hdr' b s1 where "roll_back_loop E n hdr' (hc_push_front b cache) s1 = Some (cache', s')"
    by (auto simp: bind_eq_Some_conv)
  from Suc.IH[OF this] obtain blocks where "hc_queue cache' = blocks @ b # hc_queue cache" "length blocks = n" by auto
  then show ?case by (intro exI[of _ "blocks @ [b]"]) simp
qed simp

text \<open>
  Rolling the window back by \<open>n\<close> blocks keeps the \<open>n\<close> oldest blocks of it and puts \<open>n\<close> earlier ones in front: the
  window then has \<open>2 n\<close> blocks, whatever its size was. It keeps its size only when \<open>n\<close> is half of it. (What the
  switch needs is to drop the \<open>n\<close> newest.)
\<close>

theorem rolled_back_window:
  assumes "tx_cache_roll_back E cache h n s = Some (cache', s')"
  shows "\<exists>blocks. hc_queue cache' = blocks @ take n (hc_queue cache) \<and> length blocks = n \<and> n \<le> length (hc_queue cache) \<and>
    length (hc_queue cache') = 2 * n"
proof -
  obtain c1 hdr s1 where c: "hc_drop_back n cache = Some c1" and r: "roll_back_loop E n hdr c1 s1 = Some (cache', s')"
    using assms by (auto simp: tx_cache_roll_back_def bind_eq_Some_conv)
  have "n \<le> length (hc_queue cache)" "hc_queue c1 = take n (hc_queue cache)"
    using c by (auto simp: hc_drop_back_def split: if_splits)
  then show ?thesis using roll_back_queue[OF r] by auto
qed

text \<open>A cached value is found whatever the store has, and nothing else changes than the usage.\<close>

lemma note_fresh: "\<exists>m. note_id i (s\<lparr>cache_man := cache_manager_new p q e\<rparr>) = Some (s\<lparr>cache_man := m\<rparr>) \<and> manager_ok m"
  using note_used_ok[OF cache_manager_new_ok, of i p q e] by (auto simp: note_id_def)

lemma cached_header:
  assumes "manager_ok (cache_man s)" and "block_headers s h = Some r"
  shows "\<exists>m. get_block_header_by_hash E h s = Some (Some r, s\<lparr>cache_man := m\<rparr>) \<and> manager_ok m"
  using note_used_ok[OF assms(1), of "BlockHeader h"] assms(2)
  by (auto simp: get_block_header_by_hash_def read_with_cache_def note_id_def)

lemma cached_txs:
  assumes "manager_ok (cache_man s)" and "block_bodies s h = Some b"
  shows "\<exists>m. block_transaction_hashes_by_hash E h s = Some (tx_hashes_of b, s\<lparr>cache_man := m\<rparr>) \<and> manager_ok m"
  using note_used_ok[OF assms(1), of "BlockBody h"] assms(2)
  by (auto simp: block_transaction_hashes_by_hash_def get_block_body_by_hash_def read_with_cache_def note_id_def)

definition sample_rich :: "u64 \<Rightarrow> hash \<Rightarrow> hash \<Rightarrow> u64 \<Rightarrow> rich_header" where
  "sample_rich n h p t = \<lparr>rh_header = (b_header (genesis t))\<lparr>h_height := n, h_hash := Some h, parent_hash := p\<rparr>, rh_verified = True\<rparr>"

lemma sample_rich_simps [simp]:
  "h_height (rh_header (sample_rich n h p t)) = n" "parent_hash (rh_header (sample_rich n h p t)) = p"
  "h_timestamp (rh_header (sample_rich n h p t)) = t" "rh_verified (sample_rich n h p t)" "rh_hash E (sample_rich n h p t) = Some h"
  by (simp_all add: sample_rich_def rh_hash_def header_hash_def) (simp add: genesis_def block_default_def)

theorem rolled_back_window_witness:
  "\<exists>cache cache' s s'. tx_cache_roll_back sample_env cache [1] 1 s = Some (cache', s') \<and>
    length (hc_queue cache) = 3 \<and> length (hc_queue cache') = 2"
proof -
  let ?cache = "(hc_new 3)\<lparr>hc_queue := replicate 3 (padding [5] 0)\<rparr>"
  let ?s = "(chain_new sample_db sample_config 3)\<lparr>block_headers := [[1] \<mapsto> sample_rich 0 [1] [] 7], block_bodies := [[1] \<mapsto> body_default]\<rparr>"
  have "manager_ok (cache_man ?s)" by (simp add: chain_new_def cache_manager_new_ok)
  then obtain m where m: "get_block_header_by_hash sample_env [1] ?s = Some (Some (sample_rich 0 [1] [] 7), ?s\<lparr>cache_man := m\<rparr>)" "manager_ok m"
    using cached_header[of ?s "[1]"] by auto
  then obtain m' where m': "block_transaction_hashes_by_hash sample_env [1] (?s\<lparr>cache_man := m\<rparr>) = Some ([], ?s\<lparr>cache_man := m'\<rparr>)"
    using cached_txs[of "?s\<lparr>cache_man := m\<rparr>" "[1]" body_default] by (auto simp: tx_hashes_of_def body_default_def)
  have "\<exists>cache' s'. tx_cache_roll_back sample_env ?cache [1] 1 ?s = Some (cache', s')"
    using m(1) m' by (simp add: tx_cache_roll_back_def hc_drop_back_def info_of_def)
  then obtain cache' s' where r: "tx_cache_roll_back sample_env ?cache [1] 1 ?s = Some (cache', s')" by blast
  have "length (hc_queue cache') = 2" using rolled_back_window[OF r] by auto
  moreover have "length (hc_queue ?cache) = 3" by simp
  ultimately show ?thesis using r by blast
qed

subsection \<open>Walks\<close>

lemma yields_inv:
  assumes "chain_inv E dinv view s" and "yields E dinv view (view (c_db s)) s r x"
  shows "\<exists>s'. r = Some (x, s') \<and> chain_inv E dinv view s' \<and> core s' = core s"
proof -
  obtain s' where s': "r = Some (x, s')" "chain_ok E dinv view (view (c_db s)) s'" "core s' = core s"
    using assms(2) unfolding yields_def same_def by blast
  moreover have "chain_inv E dinv view s'"
    using assms(1) s'(2,3) by (simp add: chain_inv_def settled_def core_def waiting_ok_def)
  ultimately show ?thesis by blast
qed

lemma inv_ok: "chain_inv E dinv view s \<Longrightarrow> chain_ok E dinv view (view (c_db s)) s"
  by (simp add: chain_inv_def settled_def)

text \<open>A fork on the sample node: two blocks on top of the first one, of which the second has become the tip.\<close>

definition sample_one :: "hash \<Rightarrow> u8 \<Rightarrow> block" where
  "sample_one x0 k = (let b = block_init 1 9 x0 [] [1, 2] in
     b\<lparr>b_header := (b_header b)\<lparr>h_proof := \<lparr>time_signature = [1, 2], block_signature = replicate 65 k\<rparr>\<rparr>\<rparr>)"

lemma sample_one_simps [simp]:
  "h_height (b_header (sample_one x0 k)) = 1" "parent_hash (b_header (sample_one x0 k)) = x0" "h_hash (b_header (sample_one x0 k)) = None"
  "b_body (sample_one x0 k) = body_default"
  by (simp_all add: sample_one_def block_init_def body_default_def Let_def)

lemma sample_one_good: "length x0 = 32 \<Longrightarrow> good_block sample_env (sample_one x0 k)"
proof -
  assume "length x0 = 32"
  then have "wf_rich sample_env \<lparr>rh_header = b_header (sample_one x0 k), rh_verified = True\<rparr>"
    by (intro header_wf_rich[OF sample.sha3_law sample.bo_law]) (simp_all, simp_all add: sample_one_def block_init_def)
  moreover have "good_body (e_bo sample_env) body_default"
    using sample_genesis_good[of 0] by (simp add: good_block_def genesis_def block_default_def)
  ultimately show ?thesis by (simp add: good_block_def)
qed

lemma sample_one_hash:
  "length x0 = 32 \<Longrightarrow> block_hash (e_sha3 sample_env) (e_bo sample_env) (sample_one x0 k) =
    (let x = e_sha3 sample_env (rlp_enc (header_item (b_header (sample_one x0 k)))) in
      Some (x, (sample_one x0 k)\<lparr>b_header := (b_header (sample_one x0 k))\<lparr>h_hash := Some x\<rparr>\<rparr>))"
  using wf_header_emits(2)[of "e_bo sample_env" "b_header (sample_one x0 k)"] sample_one_good[of x0 k]
  by (simp add: block_hash_def header_hash_def rlp_hash_def good_block_def wf_rich_def Let_def)

lemma sample_one_last: "hd (e_sha3 sample_env (rlp_enc (header_item (b_header (sample_one x0 k))))) = k"
proof -
  have "\<exists>xs. rlp_enc (header_item (b_header (sample_one x0 k))) = xs @ replicate 65 k"
    by (simp add: header_item_def proof_item_def rlp_enc.simps list_bytes_def data_bytes_def sample_one_def block_init_def Let_def)
  then obtain xs where xs: "rlp_enc (header_item (b_header (sample_one x0 k))) = xs @ replicate 65 k" by blast
  have "hd (rev (replicate 65 k) @ ys) = k" for ys by (simp add: hd_append)
  then show ?thesis by (simp add: sample_env_def sample_base_def mem_env_def xs hd_take)
qed

lemma window_two:
  assumes "10 < length q" and "hc_queue c = tl q @ [i]" and "bi_height i = 1"
  shows "block_info_at c 0 = Some (Some (last q))" and "block_info_at c 1 = Some (Some i)"
proof -
  have ne: "hc_queue c \<noteq> []" and best: "bi_height (last (hc_queue c)) = 1" using assms(2,3) by simp_all
  have l: "length (hc_queue c) = length q" using assms(1,2) by simp
  show "block_info_at c 1 = Some (Some i)"
    using info_at_window[OF ne best, of 1] last_conv_nth[OF ne] assms(2) by simp
  have "hc_queue c ! (length (hc_queue c) - 1 - 1) = last q"
    using assms(1) by (cases q rule: rev_cases) (auto simp: assms(2) nth_append nth_tl last_conv_nth)
  then show "block_info_at c 0 = Some (Some (last q))"
    using info_at_window[OF ne best, of 0] l assms(1) by simp
qed

lemma sample_fork:
  "\<exists>s x0 x1 y r. chain_inv sample_env mem_ok mem_view s \<and> window_full s \<and> get_status s = (1, y) \<and> x1 \<noteq> y \<and>
    v_number (mem_view (c_db s)) s 0 = Some x0 \<and> v_number (mem_view (c_db s)) s 1 = Some y \<and>
    v_header sample_env (mem_view (c_db s)) s x1 = Some r \<and> parent_hash (rh_header r) = x0 \<and> rh_verified r \<and> h_hash (rh_header r) = Some x1 \<and>
    v_body (mem_view (c_db s)) s x1 = Some body_default \<and> c_config s = sample_config \<and>
    (\<exists>ry. v_header sample_env (mem_view (c_db s)) s y = Some ry \<and> parent_hash (rh_header ry) = x0) \<and>
    h_height (rh_header r) = 1 \<and> hd x1 = 1 \<and> hd y = 2 \<and> length x1 = 32"
proof -
  obtain s0 where s0: "chain_inv sample_env mem_ok mem_view s0" "window_full s0" "current_height s0 = 0" "length (current_hash s0) = 32"
      "c_config s0 = sample_config"
    using sample_start by blast
  let ?gen = "current_hash s0" and ?q = "hc_queue (txs_cache s0)"
  let ?x = "\<lambda>k. e_sha3 sample_env (rlp_enc (header_item (b_header (sample_one ?gen k))))"
  let ?b = "\<lambda>k. (sample_one ?gen k)\<lparr>b_header := (b_header (sample_one ?gen k))\<lparr>h_hash := Some (?x k)\<rparr>\<rparr>"
  have hb: "block_hash (e_sha3 sample_env) (e_bo sample_env) (sample_one ?gen k) = Some (?x k, ?b k)" for k
    using sample_one_hash[OF s0(4)] by (simp add: Let_def)
  note g = sample_one_good[OF s0(4)]
  have h: "cadd (current_height s0) 1 = Some (h_height (b_header (sample_one ?gen 1)))" by (simp add: s0(3) cadd_def)
  define i where "i k = \<lparr>bi_hash = ?x k, bi_height = 1, bi_timestamp = h_timestamp (b_header (?b k)), bi_transactions = []\<rparr>" for k
  have i: "i k = \<lparr>bi_hash = ?x k, bi_height = h_height (b_header (sample_one ?gen k)), bi_timestamp = h_timestamp (b_header (?b k)),
      bi_transactions = tx_hashes_of (b_body (sample_one ?gen k))\<rparr>" for k
    by (simp add: i_def tx_hashes_of_def body_default_def)
  have w0: "length ?q = hc_total (txs_cache s0)" "10 < hc_total (txs_cache s0)" "bi_hash (last ?q) = ?gen"
    using s0(2) by (simp_all add: window_full_def)
  obtain s1 where s1: "chain_inv sample_env mem_ok mem_view s1" "window_full s1" "current_height s1 = 1" "current_hash s1 = ?x 1"
    "hc_queue (txs_cache s1) = tl ?q @ [i 1]" "c_config s1 = sample_config"
    "block_headers s1 = (block_headers s0)(?x 1 \<mapsto> \<lparr>rh_header = b_header (?b 1), rh_verified = True\<rparr>)"
    "block_bodies s1 = (block_bodies s0)(?x 1 \<mapsto> body_default)"
    using sample.extend_tip[OF s0(1,2) g hb h _ i] s0(5) by auto
  have lq: "10 < length ?q" using w0 by simp
  have i1: "bi_height (i k) = 1" "bi_transactions (i k) = []" "bi_hash (i k) = ?x k" for k by (simp_all add: i_def)
  note at1 = window_two[OF lq s1(5) i1(1)]
  have fork: "(if h_height (b_header (sample_one ?gen 2)) > 0 then do {
           below \<leftarrow> csub (h_height (b_header (sample_one ?gen 2))) 1;
           get_fork_chain sample_env below (parent_hash (b_header (?b 2))) t }
         else Some ([], t)) = Some ([], t)" if "core t = core s1" for t
  proof -
    have "txs_cache t = txs_cache s1" using that by (simp add: core_def)
    then have "block_hash_by_number sample_env 0 t = Some (Some ?gen, t)" using at1(1) w0(3) by (simp add: block_hash_by_number_def)
    then show ?thesis by (simp add: csub_def get_fork_chain_def fork_chain_loop.simps[of sample_env 0])
  qed
  have addr: "\<exists>batch' m. update_transaction_addresses sample_env batch [i 2] t =
      Some (batch', t\<lparr>transaction_addresses := add_addresses (transaction_addresses t) (block_addresses (i 2)), cache_man := m\<rparr>)"
    if "core t = core s1" for batch t
  proof -
    have t: "txs_cache t = txs_cache s1" "current_height t = 1" using that s1(3) by (simp_all add: core_def)
    show ?thesis
      by (intro exI[of _ batch] exI[of _ "cache_man t"])
        (simp add: update_transaction_addresses_def block_transaction_hashes_by_height_def t i1 at1(2) block_addresses_def)
  qed
  define c where "c = update_txs_cache (txs_cache s1) [i 2] (hc_total (txs_cache s1))"
  have lc: "length (hc_queue (txs_cache s1)) = hc_total (txs_cache s1)" "0 < hc_total (txs_cache s1)" "10 < hc_total (txs_cache s1)"
    using s1(2) by (simp_all add: window_full_def)
  have "hc_total (txs_cache s1) - 1 = length (tl ?q)" using lc(1) s1(5) by simp
  then have qc: "hc_queue c = tl ?q @ [i 2]" "hc_total c = hc_total (txs_cache s1)"
    using update_one[OF lc(1,2), of "i 2"] s1(5) by (simp_all add: c_def list_update_append)
  have settled: "settled sample_env mem_ok mem_view s1" using s1(1) by (simp add: chain_inv_def)
  have up: "cadd (current_height s1) 1 = Some 2" by (simp add: s1(3) cadd_def)
  have "\<exists>m d. insert_at sample_env (sample_one ?gen 2) True s1 = Some (s1\<lparr>
      block_headers := (block_headers s1)(?x 2 \<mapsto> \<lparr>rh_header = b_header (?b 2), rh_verified = True\<rparr>),
      block_bodies := (block_bodies s1)(?x 2 \<mapsto> b_body (sample_one ?gen 2)),
      block_hashes := (block_hashes s1)(h_height (b_header (sample_one ?gen 2)) \<mapsto> ?x 2),
      transaction_addresses := add_addresses (transaction_addresses s1) (block_addresses (i 2)),
      txs_cache := c, current_height := h_height (b_header (sample_one ?gen 2)), current_hash := ?x 2, cache_man := m, c_db := d\<rparr>)"
    by (rule sample.insert_joins[OF settled g hb i up _ fork addr _ c_def])
      (use s1(3) qc w0 lq i1 in \<open>simp_all add: sample_env_def sample_base_def mem_env_def\<close>)
  then obtain s2 where ins: "insert_at sample_env (sample_one ?gen 2) True s1 = Some s2" and s2: "current_height s2 = 1" "current_hash s2 = ?x 2"
    "txs_cache s2 = c" "c_config s2 = sample_config"
    "block_headers s2 = (block_headers s1)(?x 2 \<mapsto> \<lparr>rh_header = b_header (?b 2), rh_verified = True\<rparr>)"
    "block_bodies s2 = (block_bodies s1)(?x 2 \<mapsto> body_default)"
    using s1(6) by auto
  have inv2: "chain_inv sample_env mem_ok mem_view s2" by (rule sample.insert_at_inv[OF s1(1) g ins])
  note hds = sample_one_last[of ?gen 1] sample_one_last[of ?gen 2]
  have "hd (?x 1) \<noteq> hd (?x 2)" unfolding hds by simp
  then have ne: "?x 1 \<noteq> ?x 2" by metis
  have lx: "length (?x 1) = 32" using sample.sha3_law by (simp add: sha3_ok_def)
  note at2 = window_two[OF lq qc(1) i1(1)]
  have full: "window_full s2" using s2 qc lc(3) lc(1) i1 s1(5) by (simp add: window_full_def)
  have n: "v_number st s2 0 = Some ?gen" "v_number st s2 1 = Some (?x 2)" for st
    using at2 w0(3) i1(3) s2(3) by (simp_all add: v_number_def)
  have v: "v_header sample_env st s2 (?x 1) = Some \<lparr>rh_header = b_header (?b 1), rh_verified = True\<rparr>"
    "v_body st s2 (?x 1) = Some body_default"
    "v_header sample_env st s2 (?x 2) = Some \<lparr>rh_header = b_header (?b 2), rh_verified = True\<rparr>" for st
    using ne s1(7,8) s2(5,6) by (simp_all add: v_header_def v_body_def table_view_def)
  show ?thesis
    by (rule exI[of _ s2], rule exI[of _ ?gen], rule exI[of _ "?x 1"], rule exI[of _ "?x 2"],
        rule exI[of _ "\<lparr>rh_header = b_header (?b 1), rh_verified = True\<rparr>"])
      (use s2(1,2,4) ne n v inv2 full hds lx in \<open>simp add: get_status_def\<close>)
qed


lemma one_or_zero:
  assumes "(n :: u64) \<noteq> 0" and "n \<le> 1"
  shows "n = 1"
proof -
  have "unat n \<noteq> 0" using assms(1) by (simp add: unat_eq_0)
  moreover have "unat n \<le> 1" using assms(2) by (simp add: word_le_nat_alt)
  ultimately have "unat n = unat (1 :: u64)" by simp
  then show ?thesis by (rule word_unat_eq_iff[THEN iffD2])
qed

text \<open>
  When the numbers are linked by the parents of the headers, the search on a fork follows the parents. \<open>ChainGrow\<close> shows for which states
  they are; after a switch to a fork they need not be, because the window is then in the wrong order (\<open>ChainWindow\<close>).
\<close>

theorem fork_lookup:
  assumes "chain_store E dinv view" and "chain_inv E dinv view s" and "height < 2 ^ 32"
    and "linked (v_header E (view (c_db s)) s) (v_number (view (c_db s)) s) height"
  shows "\<exists>s'. block_hash_by_number_fork E number height h s =
      Some (if height < number then None else ancestor (v_header E (view (c_db s)) s) (unat height - unat number) h, s') \<and>
    chain_inv E dinv view s' \<and> core s' = core s"
proof -
  from yields_inv[OF assms(2) chain_store.by_number_fork_yields[OF assms(1) inv_ok[OF assms(2)] assms(3,4)]]
  show ?thesis .
qed

theorem fork_lookup_witness:
  "\<exists>s s' s'' x0 x1 y. v_number (mem_view (c_db s)) s 1 = Some y \<and> x1 \<noteq> y \<and>
    block_hash_by_number_fork sample_env 1 1 x1 s = Some (Some x1, s') \<and> block_hash_by_number_fork sample_env 0 1 x1 s = Some (Some x0, s'')"
proof -
  obtain s x0 x1 y r ry where s: "chain_inv sample_env mem_ok mem_view s" "x1 \<noteq> y" "v_number (mem_view (c_db s)) s 0 = Some x0"
    "v_number (mem_view (c_db s)) s 1 = Some y" "v_header sample_env (mem_view (c_db s)) s x1 = Some r" "parent_hash (rh_header r) = x0"
    "v_header sample_env (mem_view (c_db s)) s y = Some ry" "parent_hash (rh_header ry) = x0"
    using sample_fork by blast
  have l: "linked (v_header sample_env (mem_view (c_db s)) s) (v_number (mem_view (c_db s)) s) 1"
    unfolding linked_def
  proof (intro allI impI)
    fix n x
    assume n: "n \<noteq> 0" "n \<le> 1" "v_number (mem_view (c_db s)) s n = Some x"
    then have "n = 1" by (intro one_or_zero)
    then show "\<exists>r. v_header sample_env (mem_view (c_db s)) s x = Some r \<and>
        v_number (mem_view (c_db s)) s (n - 1) = Some (parent_hash (rh_header r))" using n(3) s by simp
  qed
  have "(1 :: u64) < 2 ^ 32" by simp
  note f = fork_lookup[OF sample.chain_store_axioms s(1) this l]
  have "\<exists>s'. block_hash_by_number_fork sample_env 1 1 x1 s = Some (Some x1, s')" using f[of 1 x1] by auto
  moreover have "\<exists>s'. block_hash_by_number_fork sample_env 0 1 x1 s = Some (Some x0, s')" using f[of 0 x1] s(5,6) by auto
  ultimately show ?thesis using s(2,4) by blast
qed

text \<open>
  \<open>get_fork_chain\<close> collects a branch: when following the parents from a block meets the best chain (or height 0) at \<open>base\<close>,
  the result is the list of the blocks met on the way, from the block down to just above \<open>base\<close>, with the hash, height,
  time and transactions that are stored for each, and the caches stay coherent.
\<close>

theorem fork_chain_collects:
  assumes "chain_store E dinv view" and "chain_inv E dinv view s" and "n < 2 ^ 32"
    and "fork_path (v_header E (view (c_db s)) s) (v_number (view (c_db s)) s) n h = Some (path, base)"
    and "path_infos E (v_header E (view (c_db s)) s) (v_body (view (c_db s)) s) path = Some bs"
  shows "\<exists>s'. get_fork_chain E n h s = Some (bs, s') \<and> chain_inv E dinv view s' \<and> core s' = core s \<and>
    length bs = unat n - unat base \<and> map fst path = map (\<lambda>i. n - of_nat i) [0..<length bs]"
proof -
  from yields_inv[OF assms(2) chain_store.get_fork_chain_yields[OF assms(1) inv_ok[OF assms(2)] assms(3-5)]]
  obtain s' where s': "get_fork_chain E n h s = Some (bs, s')" "chain_inv E dinv view s'" "core s' = core s" by blast
  have "length bs = length path" by (rule path_infos_length[OF assms(5)])
  moreover have "unat base + length path = unat n" "map fst path = map (\<lambda>i. n - of_nat i) [0..<length path]"
    using fork_path_heights[OF assms(4)] by simp_all
  ultimately have "length bs = unat n - unat base" "map fst path = map (\<lambda>i. n - of_nat i) [0..<length bs]"
    by simp_all
  then show ?thesis using s' by blast
qed

lemma side_path:
  assumes "hv x1 = Some r" and "parent_hash (rh_header r) = x0" and "nv 1 = Some y" and "x1 \<noteq> y"
  shows "fork_path hv nv 1 x1 = Some ([(1, x1)], 0)"
  using assms by (simp add: fork_path.simps[of hv nv 1] fork_path_stop)

theorem fork_chain_collects_witness:
  "\<exists>s s' x1 i. get_fork_chain sample_env 1 x1 s = Some ([i], s') \<and> bi_hash i = x1 \<and> current_hash s \<noteq> x1"
proof -
  obtain s x1 y r where s: "chain_inv sample_env mem_ok mem_view s" "x1 \<noteq> y" "get_status s = (1, y)"
    "v_number (mem_view (c_db s)) s 1 = Some y" "v_header sample_env (mem_view (c_db s)) s x1 = Some r"
    "v_body (mem_view (c_db s)) s x1 = Some body_default" "h_hash (rh_header r) = Some x1"
    using sample_fork by blast
  note p = side_path[where hv = "v_header sample_env (mem_view (c_db s)) s" and nv = "v_number (mem_view (c_db s)) s", OF s(5) refl s(4,2)]
  let ?i = "\<lparr>bi_hash = x1, bi_height = h_height (rh_header r), bi_timestamp = h_timestamp (rh_header r), bi_transactions = []\<rparr>"
  have "path_infos sample_env (v_header sample_env (mem_view (c_db s)) s) (v_body (mem_view (c_db s)) s) [(1, x1)] = Some [?i]"
    using s(5-7) by (simp add: path_infos_def fork_info_def info_of_def rh_hash_def header_hash_def tx_hashes_of_def body_default_def)
  from fork_chain_collects[OF sample.chain_store_axioms s(1) _ p this] obtain s' where "get_fork_chain sample_env 1 x1 s = Some ([?i], s')"
    by auto
  then show ?thesis using s(2,3) by (intro exI[of _ s] exI[of _ s'] exI[of _ x1] exI[of _ ?i]) (auto simp: get_status_def)
qed

text \<open>
  C13. \<open>transactions_diff\<close> returns the transactions of a branch: if the parents lead from the block to the best chain at \<open>base\<close>
  in fewer steps than the buffer has, over verified headers, it returns \<open>base\<close> and the set of all transactions of the
  blocks in between; if the branch is longer or has a header that is not verified, it refuses with \<open>LongFork\<close>.
\<close>

theorem transactions_of_branch:
  assumes "chain_store E dinv view" and "chain_inv E dinv view s" and "n < 2 ^ 32" and "unat n + unat (buffer_size (c_config s)) < 2 ^ 64"
    and "current_height s \<le> n + buffer_size (c_config s)"
    and "fork_path (v_header E (view (c_db s)) s) (v_number (view (c_db s)) s) n h = Some (path, base)"
    and "\<forall>(m, x) \<in> set path. v_body (view (c_db s)) s x \<noteq> None"
  shows "\<exists>s'. transactions_diff E n h s =
      Some (if length path < unat (buffer_size (c_config s)) \<and> (\<forall>(m, x) \<in> set path. \<exists>r. v_header E (view (c_db s)) s x = Some r \<and> rh_verified r)
        then Inr (base, set (path_txs (v_body (view (c_db s)) s) path)) else Inl LongFork, s') \<and> chain_inv E dinv view s'"
proof -
  have top: "cadd n (buffer_size (c_config s)) = Some (n + buffer_size (c_config s))" using assms(4) by (simp add: cadd_def)
  have eq: "transactions_diff E n h s = diff_loop E (buffer_size (c_config s)) n h {} s"
    using linorder_not_less[THEN iffD2, OF assms(5)] by (simp add: transactions_diff_def top)
  from yields_inv[OF assms(2) chain_store.diff_loop_yields[OF assms(1) inv_ok[OF assms(2)] assms(3,6,7), of "buffer_size (c_config s)" "{}"]]
  show ?thesis unfolding eq Un_empty_left by blast
qed

theorem transactions_of_branch_witness:
  "\<exists>s s' x1. transactions_diff sample_env 1 x1 s = Some (Inr (0, {}), s') \<and> current_hash s \<noteq> x1"
proof -
  obtain s x1 y r where s: "chain_inv sample_env mem_ok mem_view s" "x1 \<noteq> y" "get_status s = (1, y)"
    "v_number (mem_view (c_db s)) s 1 = Some y" "v_header sample_env (mem_view (c_db s)) s x1 = Some r"
    "v_body (mem_view (c_db s)) s x1 = Some body_default" "rh_verified r" "c_config s = sample_config"
    using sample_fork by blast
  note p = side_path[where hv = "v_header sample_env (mem_view (c_db s)) s" and nv = "v_number (mem_view (c_db s)) s", OF s(5) refl s(4,2)]
  have b: "buffer_size (c_config s) = 10" and h: "current_height s = 1" using s(3,8) by (simp_all add: sample_config_def get_status_def)
  have "path_txs (v_body (mem_view (c_db s)) s) [(1, x1)] = []" using s(6) by (simp add: path_txs_def tx_hashes_of_def body_default_def)
  then have "\<exists>s'. transactions_diff sample_env 1 x1 s = Some (Inr (0, {}), s')"
    using transactions_of_branch[OF sample.chain_store_axioms s(1) _ _ _ p] s(5,6,7) b h by auto
  then show ?thesis using s(2,3) by (auto simp: get_status_def)
qed

end
