(* ===== verification/ChainWindow.thy ===== *)
theory ChainWindow
  imports ChainForks
begin

section \<open>The window after a fork\<close>

text \<open>
  \<open>get_fork_chain\<close> lists a branch from its newest block down, \<open>adjust_block_hashes\<close> puts the new block behind them, and \<open>update_txs_cache\<close>
  fills the window from its newest end with the list as it is. So a block that joins from a fork leaves the window with the branch
  in the right order at its end, but the block itself in front of the branch.
\<close>

subsection \<open>Paths depend on their own headers only\<close>

lemma fork_path_cong:
  "fork_path hv nv n h = Some (path, base) \<Longrightarrow> \<forall>p \<in> set path. hv' (snd p) = hv (snd p) \<Longrightarrow> fork_path hv' nv n h = Some (path, base)"
proof (induction path arbitrary: n h)
  case Nil
  then have "Some h = nv n \<or> n = 0" using fork_path_step[of h nv n hv "[]" base] by blast
  then show ?case using Nil by (simp add: fork_path_stop)
next
  case (Cons p path)
  then have ns: "\<not> (Some h = nv n \<or> n = 0)" by (auto simp: fork_path_stop)
  from fork_path_step[OF ns Cons.prems(1)] obtain r :: rich_header where
    r: "hv h = Some r" "fork_path hv nv (n - 1) (parent_hash (rh_header r)) = Some (path, base)" "p = (n, h)" by auto
  show ?case using ns r Cons.IH[OF r(2)] Cons.prems(2) by (simp add: fork_path.simps[of hv' nv n h])
qed

lemma path_infos_cong:
  "\<forall>p \<in> set path. hv' (snd p) = hv (snd p) \<and> bv' (snd p) = bv (snd p) \<Longrightarrow> path_infos E hv' bv' path = path_infos E hv bv path"
  unfolding path_infos_def by (rule arg_cong[where f = those], rule map_cong) (auto simp: fork_info_def)

subsection \<open>The steps of a join return\<close>

text \<open>The blocks that are replaced stand in the window, the new block above it.\<close>

lemma collect_txs_total:
  "\<forall>b \<in> set bs. bi_height b > current_height s \<or> (\<exists>r. block_info_at (txs_cache s) (bi_height b) = Some (Some r)) \<Longrightarrow>
    \<exists>old'. collect_txs E bs old new s = Some ((old', new @ concat (map block_addresses bs)), s)"
proof (induction bs arbitrary: old new)
  case (Cons b bs)
  have "\<exists>o1. block_transaction_hashes_by_height E (bi_height b) s = Some (o1, s)"
    using Cons.prems by (cases "bi_height b > current_height s") (auto simp: block_transaction_hashes_by_height_def)
  then obtain o1 where "block_transaction_hashes_by_height E (bi_height b) s = Some (o1, s)" by blast
  moreover obtain o2 where "collect_txs E bs (old @ o1) (new @ block_addresses b) s =
      Some ((o2, (new @ block_addresses b) @ concat (map block_addresses bs)), s)"
    using Cons.IH[of "old @ o1" "new @ block_addresses b"] Cons.prems by auto
  ultimately show ?case by (simp add: block_addresses_def[of b, symmetric])
qed simp

text \<open>\<open>print_chain\<close> when the window ends one block too early: the first hash comes from the table, the others from the window.\<close>

lemma print_loop_behind:
  assumes "hc_queue (txs_cache s) \<noteq> []" and "bi_height (last (hc_queue (txs_cache s))) = best - 1" and "best \<noteq> 0" and "0 < i"
    and "i + n \<le> Suc (length (hc_queue (txs_cache s)))" and "i + n \<le> Suc (unat best)"
  shows "print_loop E best i n s = Some s"
  using assms(4-6)
proof (induction n arbitrary: i)
  case (Suc n)
  have i: "0 < i" "i \<le> unat best" using Suc.prems by simp_all
  then have u: "unat (of_nat i :: u64) = i" using unat_bound[of best] by (simp add: unat_of_nat)
  have le: "(of_nat i :: u64) \<le> best" using i u by (simp add: word_le_nat_alt)
  have c: "csub best (of_nat i) = Some (best - of_nat i)" using le by (simp add: csub_def)
  have b: "unat (best - of_nat i) = unat best - i" "unat (best - 1) = unat best - 1"
    using le u pred_word[OF assms(3)] by (simp_all add: unat_sub)
  have "best - of_nat i \<le> best - 1" using b i by (simp add: word_le_nat_alt)
  moreover have "unat (best - 1) - unat (best - of_nat i) < length (hc_queue (txs_cache s))" using b i Suc.prems(2) by simp
  ultimately obtain r where "block_info_at (txs_cache s) (best - of_nat i) = Some (Some r)"
    using info_at_window[OF assms(1,2)] by blast
  then show ?case using Suc.IH[of "i + 1"] Suc.prems c by (simp add: block_hash_by_number_def)
qed simp

context chain_store
begin

lemma print_chain_behind:
  assumes "10 < length (hc_queue (txs_cache s))" and "bi_height (last (hc_queue (txs_cache s))) = best - 1" and "best \<noteq> 0"
    and "block_hashes s best = Some x" and "manager_ok (cache_man s)"
  shows "\<exists>s'. print_chain E best s = Some s'"
proof -
  have ne: "hc_queue (txs_cache s) \<noteq> []" using assms(1) by auto
  have "unat (best - 1) < unat best" using pred_word[OF assms(3)] assms(3) by (simp add: unat_gt_0)
  then have "best - 1 < best" by (simp add: word_less_nat_alt)
  then have out: "block_info_at (txs_cache s) best = Some None" using ne assms(2) by (simp add: block_info_at_def best_height_def)
  obtain m where m: "note_id (BlockHashes best) s = Some (s\<lparr>cache_man := m\<rparr>)" using note_id_total[OF assms(5)] by blast
  have r: "read_with_cache block_number_key dec_hash (e_get E (c_db s)) COL_EXTRA (block_hashes s) best = Some (Some x, block_hashes s)"
    using assms(4) by (simp add: read_with_cache_def)
  have "block_hash_by_number E best s = Some (Some x, s\<lparr>cache_man := m\<rparr>)"
    using out r m by (simp add: block_hash_by_number_def block_hash_by_number_db_def)
  moreover have "csub best (of_nat 0) = Some best" by (simp add: csub_def)
  moreover have "print_loop E best 1 (if best > 10 then 10 else unat best) (s\<lparr>cache_man := m\<rparr>) = Some (s\<lparr>cache_man := m\<rparr>)"
    by (rule print_loop_behind) (use ne assms(1-3) in \<open>auto simp: word_less_nat_alt\<close>)
  ultimately show ?thesis by (simp add: print_chain_def)
qed

lemma update_numbers_total:
  "pend E dinv view batch s \<Longrightarrow> \<forall>b \<in> set bs. good_info b \<Longrightarrow>
    \<exists>batch' m. update_block_number E batch bs s =
      Some (batch', s\<lparr>block_hashes := foldl (\<lambda>c b. c(bi_height b \<mapsto> bi_hash b)) (block_hashes s) bs, cache_man := m\<rparr>)"
proof (induction bs arbitrary: batch s)
  case Nil
  then show ?case by (auto intro!: exI[of _ batch] exI[of _ "cache_man s"])
next
  case (Cons b bs)
  obtain batch1 m1 where one: "update_block_number E batch [b] s =
      Some (batch1, s\<lparr>block_hashes := (block_hashes s)(bi_height b \<mapsto> bi_hash b), cache_man := m1\<rparr>)"
    using update_number_total[OF Cons.prems(1), of b] Cons.prems(2) by auto
  let ?s = "s\<lparr>block_hashes := (block_hashes s)(bi_height b \<mapsto> bi_hash b), cache_man := m1\<rparr>"
  have g: "\<forall>b \<in> set bs. good_info b" using Cons.prems(2) by simp
  have "pend E dinv view batch1 ?s" using update_block_number_pend[OF Cons.prems(1) _ one] Cons.prems(2) by simp
  from Cons.IH[OF this g] obtain batch2 m2 where two: "update_block_number E batch1 bs ?s =
      Some (batch2, ?s\<lparr>block_hashes := foldl (\<lambda>c b. c(bi_height b \<mapsto> bi_hash b)) (block_hashes ?s) bs, cache_man := m2\<rparr>)" by blast
  have "update_block_number E batch (b # bs) s =
      Option.bind (update_block_number E batch [b] s) (\<lambda>(batch, s). update_block_number E batch bs s)"
    by (simp add: Option.bind_assoc split_def)
  also have "\<dots> = Some (batch2, ?s\<lparr>block_hashes := foldl (\<lambda>c b. c(bi_height b \<mapsto> bi_hash b)) (block_hashes ?s) bs, cache_man := m2\<rparr>)"
    unfolding one Option.bind.simps prod.case by (rule two)
  also have "\<dots> = Some (batch2, s\<lparr>block_hashes := foldl (\<lambda>c b. c(bi_height b \<mapsto> bi_hash b)) (block_hashes s) (b # bs), cache_man := m2\<rparr>)"
    by (simp del: fun_upd_apply)
  finally show ?case by blast
qed

lemma update_addresses_total:
  assumes "pend E dinv view batch s" and "\<forall>b \<in> set bs. good_info b"
    and "\<forall>b \<in> set bs. bi_height b > current_height s \<or> (\<exists>r. block_info_at (txs_cache s) (bi_height b) = Some (Some r))"
  shows "\<exists>batch' s'. update_transaction_addresses E batch bs s = Some (batch', s')"
proof -
  obtain old where c: "collect_txs E bs [] [] s = Some ((old, concat (map block_addresses bs)), s)"
    using collect_txs_total[OF assms(3), of E "[]" "[]"] by auto
  obtain b2 s2 where d: "delete_addresses batch old s = (b2, s2)" by force
  have p2: "pend E dinv view b2 s2" using delete_addresses_pend[OF assms(1) d] by simp
  have g: "length (bi_hash b) = 32 \<and> length (bi_transactions b) < 2 ^ 32" if "b \<in> set bs" for b
    using assms(2) that by (simp add: good_info_def)
  have "\<forall>(h, a) \<in> set (concat (map block_addresses bs)). good_address (e_bo E) a"
    using address_good[OF bo_law] g by (fastforce simp: block_addresses_def in_set_enumerate_eq)
  from write_addresses_total[OF p2 this] c d show ?thesis by (auto simp: update_transaction_addresses_def)
qed

subsection \<open>Joining from a fork\<close>

lemma adjust_window:
  assumes pend: "pend E dinv view batch t" and st: "st = after_batch (view (c_db t)) batch"
    and hdr: "wf_rich E hdr" "rh_verified hdr" "rh_hash E hdr = Some x" "cadd (current_height t) 1 = Some (h_height (rh_header hdr))"
    and path: "fork_path (v_header E st t) (v_number st t) (current_height t) (parent_hash (rh_header hdr)) = Some (path, base)"
    and infos: "path_infos E (v_header E st t) (v_body st t) path = Some bs" "map bi_height bs = map fst path" "path \<noteq> []"
    and body: "v_body st t x = Some bd" "info_of E hdr (tx_hashes_of bd) = Some i"
    and full: "window_full t" "length path < hc_total (txs_cache t)"
  shows "\<exists>batch' t' front. adjust_block_hashes E batch hdr t = Some (True, batch', t') \<and>
    hc_queue (txs_cache t') = front @ i # rev bs \<and> length front + Suc (length bs) = hc_total (txs_cache t)"
proof -
  have ok: "chain_ok E dinv view st t" using pend by (simp add: pend_def st)
  have h: "h_height (rh_header hdr) < 2 ^ 32" using hdr(1) by (simp add: wf_rich_def)
  let ?h = "h_height (rh_header hdr)"
  have hu: "unat ?h = unat (current_height t) + 1" using cadd_SomeD[OF hdr(4)] by simp
  then have h0: "?h \<noteq> 0" "?h > current_height t" by (auto simp: word_less_nat_alt)
  have "?h = current_height t + 1" using hdr(4) by (auto simp: cadd_def split: if_splits)
  then have h1: "?h - 1 = current_height t" by simp
  then have small: "?h - 1 < 2 ^ 32" using below_small[OF h h0(1)] by simp
  obtain t1 where t1: "get_fork_chain E (?h - 1) (parent_hash (rh_header hdr)) t = Some (bs, t1)"
    "chain_ok E dinv view st t1" "same E st t t1"
    using get_fork_chain_yields[OF ok small path[folded h1] infos(1)] by (auto simp: yields_def)
  note f1 = same_fields[OF t1(3)]
  have "v_body st t1 x = Some bd" using body(1) f1 by simp
  from tx_hashes_yields[OF t1(2) this] obtain t2 where
    t2: "block_transaction_hashes_by_hash E x t1 = Some (tx_hashes_of bd, t2)" by (auto simp: yields_def)
  note p1 = fork_blocks_pend[OF pend small t1(1)]
  have p2: "pend E dinv view batch t2 \<and> length (tx_hashes_of bd) < 2 ^ 32 \<and> core t2 = core t"
    using pend_reads[where r = "block_transaction_hashes_by_hash E x", OF conjunct1[OF p1] tx_hashes_reads t2] p1 by simp
  have "good_info i" using info_good[OF hdr(1) _ body(2)] p2 by simp
  then have gi: "\<forall>b \<in> set (bs @ [i]). good_info b" using p1 by simp
  have i: "bi_height i = ?h" "bi_hash i = x" using body(2) hdr(3) by (auto simp: info_of_def)
  note w = full(1)[unfolded window_full_def]
  have ne: "hc_queue (txs_cache t) \<noteq> []" using w by auto
  have len: "length bs = length path" using infos(2) by (metis length_map)
  have heights: "map bi_height bs = map (\<lambda>j. current_height t - of_nat j) [0..<length path]" "unat base + length path = unat (current_height t)"
    using fork_path_heights[OF path] infos(2) by simp_all
  have at: "\<exists>r. block_info_at (txs_cache t) (current_height t - of_nat j) = Some (Some r)" if j: "j < length path" for j
  proof -
    have "unat (of_nat j :: u64) = j" using j heights(2) unat_bound[of "current_height t"] by (simp add: unat_of_nat)
    then have "unat (current_height t - of_nat j) = unat (current_height t) - j" "current_height t - of_nat j \<le> current_height t"
      using j heights(2) by (simp_all add: unat_sub word_le_nat_alt)
    then show ?thesis
      using info_at_window[OF ne _ _, of "current_height t" "current_height t - of_nat j"] w j full(2) heights(2) by auto
  qed
  have "\<forall>b \<in> set (bs @ [i]). bi_height b > current_height t2 \<or> (\<exists>r. block_info_at (txs_cache t2) (bi_height b) = Some (Some r))"
  proof
    fix b assume "b \<in> set (bs @ [i])"
    then consider "b = i" | "bi_height b \<in> set (map bi_height bs)" by auto
    then show "bi_height b > current_height t2 \<or> (\<exists>r. block_info_at (txs_cache t2) (bi_height b) = Some (Some r))"
      by cases (use p2 i h0 at in \<open>auto simp: core_def heights(1)\<close>)
  qed
  from update_addresses_total[OF conjunct1[OF p2] gi this] obtain batch1 t3 where
    u: "update_transaction_addresses E batch (bs @ [i]) t2 = Some (batch1, t3)" by blast
  note a = update_transaction_addresses_pend[OF conjunct1[OF p2] gi u]
  from update_numbers_total[OF conjunct1[OF a] gi] obtain batch2 m where
    n: "update_block_number E batch1 (bs @ [i]) t3 = Some (batch2, t3\<lparr>block_hashes :=
      (foldl (\<lambda>c b. c(bi_height b \<mapsto> bi_hash b)) (block_hashes t3) bs)(?h \<mapsto> x), cache_man := m\<rparr>)" by (auto simp: i)
  let ?t4 = "t3\<lparr>block_hashes := (foldl (\<lambda>c b. c(bi_height b \<mapsto> bi_hash b)) (block_hashes t3) bs)(?h \<mapsto> x), cache_man := m\<rparr>"
  have p4: "pend E dinv view batch2 ?t4" using update_block_number_pend[OF conjunct1[OF a] gi n] by simp
  have core3: "txs_cache t3 = txs_cache t" "current_height t3 = current_height t" using a p2 by (simp_all add: core_def)
  obtain front q where q: "hc_queue (txs_cache t) = front # q" using ne by (cases "hc_queue (txs_cache t)") auto
  define c0 where "c0 = (txs_cache t)\<lparr>hc_queue := q @ [front]\<rparr>"
  let ?c = "update_txs_cache c0 (bs @ [i]) (hc_total c0)"
  have c0: "hc_total c0 = hc_total (txs_cache t)" "length (hc_queue c0) = hc_total (txs_cache t)" using w q by (simp_all add: c0_def)
  let ?f = "take (hc_total c0 - Suc (length bs)) (hc_queue c0)"
  have qc: "hc_queue ?c = ?f @ i # rev bs" "length ?f + Suc (length bs) = hc_total (txs_cache t)"
    using update_from_queue[of "bs @ [i]" 1 "hc_total c0" c0] c0 full(2) len by (simp_all add: update_txs_cache_def)
  have best: "bi_height (last (hc_queue ?c)) = ?h - 1"
  proof -
    have "bs \<noteq> []" using len infos(3) by auto
    then have "last (hc_queue ?c) = hd bs" by (simp add: qc(1) last_rev)
    moreover have "map bi_height bs ! 0 = current_height t - of_nat 0" unfolding heights(1) using infos(3) by simp
    ultimately show ?thesis using \<open>bs \<noteq> []\<close> h1 by (cases bs) simp_all
  qed
  have "length (hc_queue ?c) = hc_total (txs_cache t)" using qc by simp
  then have long: "10 < length (hc_queue ?c)" using w by simp
  have "manager_ok (cache_man (?t4\<lparr>txs_cache := ?c\<rparr>))" using p4 by (simp add: pend_def chain_ok_def)
  from print_chain_behind[of "?t4\<lparr>txs_cache := ?c\<rparr>" ?h x, OF _ _ h0(1) _ this] long best obtain t' where
    pr: "print_chain E ?h (?t4\<lparr>txs_cache := ?c\<rparr>) = Some t'" by auto
  have t': "txs_cache t' = ?c" using print_chain_pend[OF p4 h pr] by (simp add: core_def)
  have "(if current_height ?t4 < ?h then (case hc_queue (txs_cache ?t4) of [] \<Rightarrow> None | front # q \<Rightarrow> Some ((txs_cache ?t4)\<lparr>hc_queue := q @ [front]\<rparr>))
      else Some (txs_cache ?t4)) = Some c0" using core3 h0(2) q by (simp add: c0_def)
  then have "adjust_block_hashes E batch hdr t = Some (True, batch2, t')"
    using hdr(2,3) h0(1) t1(1) t2 body(2) u n pr
    by (simp add: adjust_block_hashes_def csub_one word_gt_0 Let_def del: update_block_number.simps)
  then show ?thesis using t' qc by auto
qed

lemma fork_joins:
  assumes inv: "chain_inv E dinv view s" and full: "window_full s" and good: "good_block E b"
    and hb: "block_hash (e_sha3 E) (e_bo E) b = Some (x, b')"
    and above: "cadd (current_height s) 1 = Some (h_height (b_header b))"
    and path: "fork_path (v_header E (view (c_db s)) s) (v_number (view (c_db s)) s) (current_height s) (parent_hash (b_header b')) =
      Some (path, base)" "path \<noteq> []" "x \<notin> snd ` set path" "length path < hc_total (txs_cache s)"
    and infos: "path_infos E (v_header E (view (c_db s)) s) (v_body (view (c_db s)) s) path = Some bs" "map bi_height bs = map fst path"
    and i: "i = \<lparr>bi_hash = x, bi_height = h_height (b_header b), bi_timestamp = h_timestamp (b_header b'), bi_transactions = tx_hashes_of (b_body b)\<rparr>"
  shows "\<exists>s' front. insert_at E b True s = Some s' \<and> get_status s' = (h_height (b_header b), x) \<and>
    hc_queue (txs_cache s') = front @ i # rev bs \<and> length front + Suc (length bs) = hc_total (txs_cache s)"
proof -
  let ?r = "\<lparr>rh_header = b_header b', rh_verified = True\<rparr>" and ?st = "view (c_db s)"
  have settled: "settled E dinv view s" using inv by (simp add: chain_inv_def)
  note g = block_hash_good[OF good hb]
  have gb: "good_body (e_bo E) (b_body b)" using good by (simp add: good_block_def)
  have cell: "h_hash (b_header b') = Some x"
    using hb by (auto simp: block_hash_def header_hash_def bind_eq_Some_conv split: option.splits)
  then have rh: "rh_hash E ?r = Some x" by (simp add: rh_hash_def header_hash_def)
  let ?s1 = "s\<lparr>block_headers := (block_headers s)(x \<mapsto> ?r)\<rparr>"
  let ?s2 = "?s1\<lparr>block_bodies := (block_bodies s)(x \<mapsto> b_body b)\<rparr>"
  obtain e1 where e1: "write_with_cache header_key (enc_rich E) COL_HEADERS (block_headers s) x ?r Overwrite tr_new =
      Some (tr_put COL_HEADERS (header_key x) e1 tr_new, (block_headers s)(x \<mapsto> ?r))"
    "pend E dinv view (tr_put COL_HEADERS (header_key x) e1 tr_new) ?s1"
    using pend_write_header[OF settled_pend[OF settled] g(4)] by blast
  obtain e2 where e2: "write_with_cache body_key (enc_body E) COL_BODIES (block_bodies s) x (b_body b) Overwrite
        (tr_put COL_HEADERS (header_key x) e1 tr_new) =
      Some (tr_put COL_BODIES (body_key x) e2 (tr_put COL_HEADERS (header_key x) e1 tr_new), (block_bodies s)(x \<mapsto> b_body b))"
    "pend E dinv view (tr_put COL_BODIES (body_key x) e2 (tr_put COL_HEADERS (header_key x) e1 tr_new)) ?s2"
    using pend_write_body[OF e1(2) gb, of x] by auto
  let ?batch = "tr_put COL_BODIES (body_key x) e2 (tr_put COL_HEADERS (header_key x) e1 tr_new)"
  let ?st2 = "after_batch (view (c_db ?s2)) ?batch"
  have st2: "?st2 = ?st(COL_HEADERS := (?st COL_HEADERS)(x \<mapsto> e1), COL_BODIES := (?st COL_BODIES)(x \<mapsto> e2))"
    by (simp add: after_batch_def tr_new_def tr_put_def header_key_def body_key_def)
  have "?st2 COL_EXTRA = ?st COL_EXTRA" unfolding st2 by simp
  moreover have "block_hashes ?s2 = block_hashes s" by simp
  ultimately have nd: "v_number_db ?st2 ?s2 = v_number_db ?st s" unfolding v_number_db_def table_view_def by (simp only:)
  have tc: "txs_cache ?s2 = txs_cache s" by simp
  have n: "v_number ?st2 ?s2 = v_number ?st s" by (rule ext) (unfold v_number_def tc nd, rule refl)
  have hv: "v_header E ?st2 ?s2 h = v_header E ?st s h" "v_body ?st2 ?s2 h = v_body ?st s h" if "h \<noteq> x" for h
    using that by (simp_all add: st2 v_header_def v_body_def table_view_def header_key_def body_key_def split: option.split)
  have nx: "\<forall>p \<in> set path. v_header E ?st2 ?s2 (snd p) = v_header E ?st s (snd p) \<and> v_body ?st2 ?s2 (snd p) = v_body ?st s (snd p)"
  proof
    fix p assume "p \<in> set path"
    then have "snd p \<noteq> x" using path(3) by force
    then show "v_header E ?st2 ?s2 (snd p) = v_header E ?st s (snd p) \<and> v_body ?st2 ?s2 (snd p) = v_body ?st s (snd p)"
      by (intro conjI hv)
  qed
  have c: "current_height ?s2 = current_height s" "parent_hash (rh_header ?r) = parent_hash (b_header b')" by simp_all
  have path2: "fork_path (v_header E ?st2 ?s2) (v_number ?st2 ?s2) (current_height ?s2) (parent_hash (rh_header ?r)) = Some (path, base)"
    unfolding n c
  proof (rule fork_path_cong[OF path(1)], rule ballI)
    fix p assume "p \<in> set path"
    then show "v_header E ?st2 ?s2 (snd p) = v_header E ?st s (snd p)" by (rule conjunct1[OF bspec[OF nx]])
  qed
  have infos2: "path_infos E (v_header E ?st2 ?s2) (v_body ?st2 ?s2) path = Some bs"
    unfolding path_infos_cong[OF nx] by (rule infos(1))
  have bx: "v_body ?st2 ?s2 x = Some (b_body b)" by (simp add: v_body_def table_view_def)
  have hh: "h_height (b_header b') = h_height (b_header b)" using g by simp
  have ix: "info_of E ?r (tx_hashes_of (b_body b)) = Some i" using rh by (simp add: info_of_def i hh)
  have pre: "cadd (current_height ?s2) 1 = Some (h_height (rh_header ?r))" "window_full ?s2" "length path < hc_total (txs_cache ?s2)"
    using above full path(4) hh by (simp_all add: window_full_def)
  have rv: "rh_verified ?r" by simp
  from adjust_window[OF e2(2) refl g(4) rv rh pre(1) path2 infos2 infos(2) path(2) bx ix pre(2,3)] obtain batch t front where
    adj: "adjust_block_hashes E ?batch ?r ?s2 = Some (True, batch, t)"
    and w: "hc_queue (txs_cache t) = front @ i # rev bs" "length front + Suc (length bs) = hc_total (txs_cache ?s2)" by blast
  let ?t = "t\<lparr>current_height := h_height (b_header b), current_hash := x\<rparr>"
  have "pend E dinv view batch t" using adjust_block_hashes_pend[OF e2(2) g(4) adj] by (rule conjunct1)
  then have "pend E dinv view (tr_put COL_EXTRA CURRENT_HASH x batch) ?t" using pend_status[OF pend_put_current] by blast
  then obtain d where d: "e_write E (tr_put COL_EXTRA CURRENT_HASH x batch) (c_db t) = Some (Inr (), d)"
    using write_ok[of "c_db ?t" "tr_put COL_EXTRA CURRENT_HASH x batch"] by (auto simp: pend_def chain_ok_def)
  have "insert_at E b True s = Some (?t\<lparr>c_db := d\<rparr>)"
    using hb e1(1) e2(1) above adj d g(2,3) by (simp add: insert_at_def save_status_def Let_def)
  then show ?thesis using w by (intro exI[of _ "?t\<lparr>c_db := d\<rparr>"] exI[of _ front]) (simp add: get_status_def)
qed

end

subsection \<open>Properties\<close>

text \<open>
  C14. A block on a verified fork leaves the window in the wrong order. When a verified block \<open>b\<close> with the next height has its parent on a branch
  that leaves the best chain at \<open>base\<close> (a branch of at least one block, shorter than the window, whose headers have the heights of
  their places), \<open>insert\<close> returns and makes \<open>b\<close> the tip, but in the window \<open>b\<close> stands in front of the branch: the window ends with the parent and takes its
  height for the best one, and the lookup of the number \<open>base\<close> answers with the hash of \<open>b\<close>.
\<close>

theorem window_after_fork:
  assumes "chain_store E dinv view" and "chain_inv E dinv view s" and "window_full s" and "good_block E b"
    and "block_hash (e_sha3 E) (e_bo E) b = Some (x, b')"
    and "cadd (current_height s) 1 = Some (h_height (b_header b))"
    and "fork_path (v_header E (view (c_db s)) s) (v_number (view (c_db s)) s) (current_height s) (parent_hash (b_header b')) = Some (path, base)"
    and "path \<noteq> []" and "x \<notin> snd ` set path" and "length path < hc_total (txs_cache s)"
    and "path_infos E (v_header E (view (c_db s)) s) (v_body (view (c_db s)) s) path = Some bs" and "map bi_height bs = map fst path"
  shows "\<exists>s' front. insert_at E b True s = Some s' \<and> get_status s' = (h_height (b_header b), x) \<and>
    hc_queue (txs_cache s') = front @ \<lparr>bi_hash = x, bi_height = h_height (b_header b), bi_timestamp = h_timestamp (b_header b'),
      bi_transactions = tx_hashes_of (b_body b)\<rparr> # rev bs \<and>
    best_height (txs_cache s') = Some (current_height s) \<and> block_hash_by_number E base s' = Some (Some x, s')"
proof -
  let ?i = "\<lparr>bi_hash = x, bi_height = h_height (b_header b), bi_timestamp = h_timestamp (b_header b'), bi_transactions = tx_hashes_of (b_body b)\<rparr>"
  obtain s' front where s': "insert_at E b True s = Some s'" "get_status s' = (h_height (b_header b), x)"
    "hc_queue (txs_cache s') = front @ ?i # rev bs" "length front + Suc (length bs) = hc_total (txs_cache s)"
    using chain_store.fork_joins[OF assms refl] by blast
  have h: "base \<le> current_height s" "map fst path = map (\<lambda>i. current_height s - of_nat i) [0..<length path]"
    "unat base + length path = unat (current_height s)"
    using fork_path_heights[OF assms(7)] by simp_all
  have len: "length bs = length path" using assms(12) by (metis length_map)
  have ne: "bs \<noteq> []" "hc_queue (txs_cache s') \<noteq> []" using len assms(8) s'(3) by auto
  have "map bi_height bs ! 0 = current_height s - of_nat 0" unfolding assms(12) h(2) using assms(8) by simp
  then have last: "bi_height (last (hc_queue (txs_cache s'))) = current_height s"
    using ne(1) by (cases bs) (simp_all add: s'(3))
  have "length (hc_queue (txs_cache s')) - 1 - (unat (current_height s) - unat base) = length front"
    using s'(3) len h(3) by simp
  then have "block_info_at (txs_cache s') base = Some (Some ?i)"
    using info_at_window[OF ne(2) last h(1)] s'(3) len h(3) by (simp add: nth_append)
  then show ?thesis using s' last ne(2) by (auto simp: best_height_def block_hash_by_number_def)
qed

text \<open>A second block on the side branch of the sample node.\<close>

definition sample_two :: "hash \<Rightarrow> block" where
  "sample_two x1 = (let b = block_init 2 20 x1 [] [1, 2] in
     b\<lparr>b_header := (b_header b)\<lparr>h_proof := \<lparr>time_signature = [1, 2], block_signature = replicate 65 3\<rparr>\<rparr>\<rparr>)"

lemma sample_two_simps [simp]:
  "h_height (b_header (sample_two x1)) = 2" "parent_hash (b_header (sample_two x1)) = x1" "h_hash (b_header (sample_two x1)) = None"
  "b_body (sample_two x1) = body_default"
  by (simp_all add: sample_two_def block_init_def body_default_def Let_def)

lemma sample_two_good: "length x1 = 32 \<Longrightarrow> good_block sample_env (sample_two x1)"
proof -
  assume "length x1 = 32"
  then have "wf_rich sample_env \<lparr>rh_header = b_header (sample_two x1), rh_verified = True\<rparr>"
    by (intro header_wf_rich[OF sample.sha3_law sample.bo_law]) (simp_all, simp_all add: sample_two_def block_init_def)
  moreover have "good_body (e_bo sample_env) body_default"
    using sample_genesis_good[of 0] by (simp add: good_block_def genesis_def block_default_def)
  ultimately show ?thesis by (simp add: good_block_def)
qed

lemma sample_two_hash:
  assumes "block_hash (e_sha3 sample_env) (e_bo sample_env) (sample_two x1) = Some (x, b')" and "length x1 = 32"
  shows "hd x = 3" and "parent_hash (b_header b') = x1"
proof -
  have e: "header_rlp (e_bo sample_env) (b_header (sample_two x1)) = Some (rlp_enc (header_item (b_header (sample_two x1))))"
    using wf_header_emits(2)[of "e_bo sample_env" "b_header (sample_two x1)"] sample_two_good[OF assms(2)]
    by (simp add: good_block_def wf_rich_def)
  then have b: "x = e_sha3 sample_env (rlp_enc (header_item (b_header (sample_two x1))))"
    "b' = (sample_two x1)\<lparr>b_header := (b_header (sample_two x1))\<lparr>h_hash := Some x\<rparr>\<rparr>"
    using assms(1) by (auto simp: block_hash_def header_hash_def rlp_hash_def)
  have "\<exists>xs. rlp_enc (header_item (b_header (sample_two x1))) = xs @ replicate 65 3"
    by (simp add: header_item_def proof_item_def rlp_enc.simps list_bytes_def data_bytes_def sample_two_def block_init_def Let_def)
  then obtain xs where xs: "rlp_enc (header_item (b_header (sample_two x1))) = xs @ replicate 65 3" by blast
  have "hd (rev (replicate 65 (3 :: u8)) @ ys) = 3" for ys by (simp add: hd_append)
  then show "hd x = 3" by (simp add: b(1) sample_env_def sample_base_def mem_env_def xs hd_take)
  show "parent_hash (b_header b') = x1" by (simp add: b(2))
qed

theorem window_after_fork_witness:
  "\<exists>s s' b x x0. insert_at sample_env b True s = Some s' \<and> get_status s' = (2, x) \<and> best_height (txs_cache s') = Some 1 \<and>
    v_number (mem_view (c_db s)) s 0 = Some x0 \<and> block_hash_by_number sample_env 0 s' = Some (Some x, s')"
proof -
  obtain s x0 x1 y r where s: "chain_inv sample_env mem_ok mem_view s" "window_full s" "get_status s = (1, y)" "x1 \<noteq> y"
    "v_number (mem_view (c_db s)) s 0 = Some x0" "v_number (mem_view (c_db s)) s 1 = Some y"
    "v_header sample_env (mem_view (c_db s)) s x1 = Some r" "v_body (mem_view (c_db s)) s x1 = Some body_default"
    "h_hash (rh_header r) = Some x1" "h_height (rh_header r) = 1" "hd x1 = 1" "length x1 = 32"
    using sample_fork by blast
  note p = side_path[where hv = "v_header sample_env (mem_view (c_db s)) s" and nv = "v_number (mem_view (c_db s)) s", OF s(7) refl s(6,4)]
  let ?i = "\<lparr>bi_hash = x1, bi_height = h_height (rh_header r), bi_timestamp = h_timestamp (rh_header r), bi_transactions = []\<rparr>"
  have infos: "path_infos sample_env (v_header sample_env (mem_view (c_db s)) s) (v_body (mem_view (c_db s)) s) [(1, x1)] = Some [?i]"
    using s(7-9) by (simp add: path_infos_def fork_info_def info_of_def rh_hash_def header_hash_def tx_hashes_of_def body_default_def)
  have good: "good_block sample_env (sample_two x1)" by (rule sample_two_good[OF s(12)])
  obtain x b' where hb: "block_hash (e_sha3 sample_env) (e_bo sample_env) (sample_two x1) = Some (x, b')" using block_hash_total[OF good] by blast
  note two = sample_two_hash[OF hb s(12)]
  have h: "current_height s = 1" using s(3) by (simp add: get_status_def)
  have up: "cadd (current_height s) 1 = Some (h_height (b_header (sample_two x1)))" by (simp add: h cadd_def)
  have path: "fork_path (v_header sample_env (mem_view (c_db s)) s) (v_number (mem_view (c_db s)) s) (current_height s) (parent_hash (b_header b')) =
      Some ([(1, x1)], 0)" unfolding h two(2) by (rule p)
  have "x \<noteq> x1" using two(1) s(11) by auto
  then have out: "x \<notin> snd ` set [(1 :: u64, x1)]" by simp
  have short: "length [(1 :: u64, x1)] < hc_total (txs_cache s)" using s(2) by (simp add: window_full_def)
  have hs: "map bi_height [?i] = map fst [(1 :: u64, x1)]" using s(10) by simp
  from window_after_fork[OF sample.chain_store_axioms s(1,2) good hb up path _ out short infos hs] obtain s' where
    "insert_at sample_env (sample_two x1) True s = Some s'" "get_status s' = (2, x)" "best_height (txs_cache s') = Some 1"
    "block_hash_by_number sample_env 0 s' = Some (Some x, s')" by (auto simp: h)
  then show ?thesis using s(5) by blast
qed

end
