(* ===== verification/ChainGrow.thy ===== *)
theory ChainGrow
  imports ChainWindow
begin

section \<open>A chain that grows without a switch\<close>

text \<open>
  As long as no block of another branch becomes the tip, the numbers of the best chain name a chain that is linked by
  the parents of the headers, and the window tells the same as the table of the numbers. This is the
  ground on which the short cut of \<open>block_hash_by_number_fork\<close> stands; \<open>ChainWindow.window_after_fork\<close> is how a
  switch takes it away.
\<close>

subsection \<open>The states of such a chain\<close>

text \<open>The condition of \<open>insert\<close> under which a block may change the best chain.\<close>

definition joins :: "('sk, 'pk, 'rs, 'db) env \<Rightarrow> 'db chain \<Rightarrow> u64 \<Rightarrow> bool" where
  "joins E s height \<longleftrightarrow> cadd (current_height s) 1 = Some height \<or>
     (height = current_height s \<and> (e_gen_range E 0 1 = 0 \<or> current_hash s = hash_new 32))"

text \<open>
  The node starts on a store without a tip; verified blocks go on top of the tip, other blocks (verified or not) are stored
  beside the chain, under hashes that are not known yet; lookups fill the caches (\<open>same\<close>: what the tables answer
  stays), garbage is collected.
\<close>

inductive grown ::
    "('sk, 'pk, 'rs, 'db) env \<Rightarrow> ('db \<Rightarrow> bool) \<Rightarrow> ('db \<Rightarrow> store) \<Rightarrow> sleepy_config \<Rightarrow> 'db \<Rightarrow> 'db chain \<Rightarrow> bool"
  for E dinv view c d where
  start: "chain_init E c d = Some s \<Longrightarrow> grown E dinv view c d s"
| extend: "grown E dinv view c d s \<Longrightarrow> good_block E b \<Longrightarrow> block_hash (e_sha3 E) (e_bo E) b = Some (x, b') \<Longrightarrow>
    v_header E (view (c_db s)) s x = None \<Longrightarrow> cadd (current_height s) 1 = Some (h_height (b_header b)) \<Longrightarrow>
    parent_hash (b_header b') = current_hash s \<Longrightarrow> insert_at E b True s = Some s' \<Longrightarrow> grown E dinv view c d s'"
| beside: "grown E dinv view c d s \<Longrightarrow> good_block E b \<Longrightarrow> block_hash (e_sha3 E) (e_bo E) b = Some (x, b') \<Longrightarrow>
    v_header E (view (c_db s)) s x = None \<Longrightarrow> \<not> joins E s (h_height (b_header b)) \<Longrightarrow>
    insert_at E b v s = Some s' \<Longrightarrow> grown E dinv view c d s'"
| look: "grown E dinv view c d s \<Longrightarrow> chain_ok E dinv view (view (c_db s)) s' \<Longrightarrow> same E (view (c_db s)) s s' \<Longrightarrow>
    grown E dinv view c d s'"
| collect: "grown E dinv view c d s \<Longrightarrow> chain_collect_garbage E s = Some s' \<Longrightarrow> grown E dinv view c d s'"

subsection \<open>The invariant\<close>

definition parent_of :: "('sk, 'pk, 'rs, 'db) env \<Rightarrow> store \<Rightarrow> 'db chain \<Rightarrow> hash \<Rightarrow> hash option" where
  "parent_of E st s h = map_option (\<lambda>r. parent_hash (rh_header r)) (v_header E st s h)"

definition behind_tip :: "'db chain \<Rightarrow> u64 \<Rightarrow> nat" where
  "behind_tip s n = unat (current_height s) - unat n"

definition number_ok :: "('sk, 'pk, 'rs, 'db) env \<Rightarrow> store \<Rightarrow> 'db chain \<Rightarrow> u64 \<Rightarrow> bool" where
  "number_ok E st s n \<longleftrightarrow> (\<exists>x p. v_number_db st s n = Some x \<and> parent_of E st s x = Some p \<and>
     (n \<noteq> 0 \<longrightarrow> v_number_db st s (n - 1) = Some p) \<and>
     (behind_tip s n < length (hc_queue (txs_cache s)) \<longrightarrow>
       bi_hash (hc_queue (txs_cache s) ! (length (hc_queue (txs_cache s)) - 1 - behind_tip s n)) = x))"

definition well_grown :: "('sk, 'pk, 'rs, 'db) env \<Rightarrow> ('db \<Rightarrow> store) \<Rightarrow> 'db chain \<Rightarrow> bool" where
  "well_grown E view s \<longleftrightarrow> window_full s \<and> current_height s < 2 ^ 32 \<and>
     (\<forall>n. n \<le> current_height s \<longrightarrow> number_ok E (view (c_db s)) s n)"

lemma number_by_window:
  assumes "window_full s" and "n \<le> current_height s"
  shows "v_number st s n = (if behind_tip s n < length (hc_queue (txs_cache s))
    then Some (bi_hash (hc_queue (txs_cache s) ! (length (hc_queue (txs_cache s)) - 1 - behind_tip s n))) else v_number_db st s n)"
proof -
  have ne: "hc_queue (txs_cache s) \<noteq> []" and b: "bi_height (last (hc_queue (txs_cache s))) = current_height s"
    using assms(1) by (auto simp: window_full_def)
  show ?thesis
  proof (cases "behind_tip s n < length (hc_queue (txs_cache s))")
    case True
    then show ?thesis using info_at_window[OF ne b assms(2)] by (simp add: behind_tip_def v_number_def)
  next
    case False
    have "unat (current_height s - n) = unat (current_height s) - unat n" using assms(2) by (simp add: word_le_nat_alt unat_sub)
    then have "block_info_at (txs_cache s) n = Some None"
      using False ne b assms(2) by (simp add: block_info_at_def best_height_def csub_def behind_tip_def)
    then show ?thesis using False by (simp add: v_number_def)
  qed
qed

lemma well_grown_number:
  assumes "well_grown E view s" and "n \<le> current_height s"
  shows "v_number (view (c_db s)) s n = v_number_db (view (c_db s)) s n"
proof -
  have "number_ok E (view (c_db s)) s n" "window_full s" using assms by (simp_all add: well_grown_def)
  then show ?thesis using number_by_window[OF _ assms(2)] by (auto simp: number_ok_def)
qed

lemma well_grown_linked:
  assumes "well_grown E view s" and "height \<le> current_height s"
  shows "linked (v_header E (view (c_db s)) s) (v_number (view (c_db s)) s) height"
  unfolding linked_def
proof (intro allI impI)
  fix n x assume n: "n \<noteq> 0" "n \<le> height" "v_number (view (c_db s)) s n = Some x"
  have le: "n \<le> current_height s" using n(2) assms(2) by (rule order_trans)
  have le1: "n - 1 \<le> current_height s" using le pred_word[OF n(1)] by (simp add: word_le_nat_alt)
  have "number_ok E (view (c_db s)) s n" using assms(1) le by (simp add: well_grown_def)
  then obtain p where "parent_of E (view (c_db s)) s x = Some p" "v_number_db (view (c_db s)) s (n - 1) = Some p"
    using n(1,3) well_grown_number[OF assms(1) le] by (auto simp: number_ok_def)
  then show "\<exists>r. v_header E (view (c_db s)) s x = Some r \<and> v_number (view (c_db s)) s (n - 1) = Some (parent_hash (rh_header r))"
    using well_grown_number[OF assms(1) le1] by (auto simp: parent_of_def)
qed

text \<open>Steps that leave the tip where it is, and lose no parent.\<close>

lemma well_grown_keep:
  assumes "well_grown E view s"
    and "txs_cache s' = txs_cache s" "current_height s' = current_height s" "current_hash s' = current_hash s"
    and "\<And>n. n \<le> current_height s \<Longrightarrow> v_number_db (view (c_db s')) s' n = v_number_db (view (c_db s)) s n"
    and "\<And>h p. parent_of E (view (c_db s)) s h = Some p \<Longrightarrow> parent_of E (view (c_db s')) s' h = Some p"
  shows "well_grown E view s'"
proof -
  have "number_ok E (view (c_db s')) s' n" if n: "n \<le> current_height s" for n
  proof -
    obtain x p where x: "v_number_db (view (c_db s)) s n = Some x" "parent_of E (view (c_db s)) s x = Some p"
      "n \<noteq> 0 \<longrightarrow> v_number_db (view (c_db s)) s (n - 1) = Some p"
      "behind_tip s n < length (hc_queue (txs_cache s)) \<longrightarrow>
        bi_hash (hc_queue (txs_cache s) ! (length (hc_queue (txs_cache s)) - 1 - behind_tip s n)) = x"
      using assms(1) n unfolding well_grown_def number_ok_def by blast
    have "n - 1 \<le> current_height s" if "n \<noteq> 0" using n pred_word[OF that] by (simp add: word_le_nat_alt)
    then show ?thesis
      unfolding number_ok_def behind_tip_def assms(2,3)
      using x assms(5)[OF n] assms(5)[of "n - 1"] assms(6)[OF x(2)] by (intro exI[of _ x] exI[of _ p]) (simp add: behind_tip_def)
  qed
  then show ?thesis using assms(1-4) by (simp add: well_grown_def window_full_def)
qed

subsection \<open>The invariant holds\<close>

lemma init_size: "chain_init E c d = Some s \<Longrightarrow> unat (buffer_size c) + 105 < 2 ^ 64"
proof -
  assume "chain_init E c d = Some s"
  then obtain n m where n: "cadd LMT (buffer_size c) = Some n" "cadd n 5 = Some m" by (auto simp: chain_init_def bind_eq_Some_conv)
  show ?thesis using cadd_SomeD[OF n(1)] cadd_SomeD[OF n(2)] unat_bound[of m] by (simp add: LMT_def)
qed

context chain_store
begin

lemma start_grown:
  assumes "dinv d" and "db_good E (view d)" and "view d COL_EXTRA CURRENT_HASH = None" and "chain_init E c d = Some s"
  shows "chain_inv E dinv view s" and "well_grown E view s"
proof -
  have "good_block E (genesis (start_time c))" by (rule genesis_good[OF sha3_law bo_law])
  from block_hash_total[OF this] obtain x g where g: "block_hash (e_sha3 E) (e_bo E) (genesis (start_time c)) = Some (x, g)" by blast
  from genesis_start[OF assms(1-3) init_size[OF assms(4)] g] assms(4) have s: "chain_inv E dinv view s" "window_full s"
    "current_height s = 0" "current_hash s = x" "block_hashes s 0 = Some x"
    "v_header E (view (c_db s)) s x = Some \<lparr>rh_header = b_header g, rh_verified = True\<rparr>" by auto
  show "chain_inv E dinv view s" by (rule s(1))
  have ne: "hc_queue (txs_cache s) \<noteq> []" using s(2) by (auto simp: window_full_def)
  have "bi_hash (hc_queue (txs_cache s) ! (length (hc_queue (txs_cache s)) - 1)) = x"
    using s(2,4) unfolding last_conv_nth[OF ne, symmetric] window_full_def by blast
  moreover have "v_number_db (view (c_db s)) s 0 = Some x" using s(5) by (simp add: v_number_db_def table_view_def)
  ultimately have "number_ok E (view (c_db s)) s 0" using s(3,6) by (simp add: number_ok_def parent_of_def behind_tip_def)
  then show "well_grown E view s" using s(2,3) by (simp add: well_grown_def)
qed

lemma beside_steps:
  assumes "settled E dinv view s" and "good_block E b" and "insert_at E b v s = Some s'"
    and "block_hash (e_sha3 E) (e_bo E) b = Some (x, b')" and "\<not> joins E s (h_height (b_header b))"
  shows "txs_cache s' = txs_cache s" and "current_height s' = current_height s" and "current_hash s' = current_hash s"
    and "block_hashes s' = block_hashes s" and "block_headers s' = (block_headers s)(x \<mapsto> \<lparr>rh_header = b_header b', rh_verified = v\<rparr>)"
proof -
  have h: "h_height (b_header b') = h_height (b_header b)" by (rule block_hash_good(2)[OF assms(2,4)])
  obtain batch1 hs batch2 bs up batch3 s3 r d where
    w: "write_with_cache header_key (enc_rich E) COL_HEADERS (block_headers s) x
        \<lparr>rh_header = b_header b', rh_verified = v\<rparr> Overwrite tr_new = Some (batch1, hs)"
    and w2: "write_with_cache body_key (enc_body E) COL_BODIES (block_bodies s) x (b_body b') Overwrite batch1 = Some (batch2, bs)"
    and up: "cadd (current_height s) 1 = Some up"
    and j: "(if h_height (b_header b') = up \<or> (h_height (b_header b') = current_height s \<and>
          (e_gen_range E 0 1 = 0 \<or> current_hash s = hash_new 32))
       then do {
          (ok, batch, s) \<leftarrow> adjust_block_hashes E batch2 \<lparr>rh_header = b_header b', rh_verified = v\<rparr>
            (s\<lparr>block_headers := hs, block_bodies := bs\<rparr>);
          Some (if ok then save_status batch (h_height (b_header b')) x s else (batch, s)) }
        else Some (batch2, s\<lparr>block_headers := hs, block_bodies := bs\<rparr>)) = Some (batch3, s3)"
    and w3: "e_write E batch3 (c_db s3) = Some (r, d)" and r: "(case r of Inl _ \<Rightarrow> None | Inr _ \<Rightarrow> Some (s3\<lparr>c_db := d\<rparr>)) = Some s'"
    using assms(3,4) by (auto simp: insert_at_def bind_eq_Some_conv Let_def)
  have no: "\<not> (h_height (b_header b') = up \<or> (h_height (b_header b') = current_height s \<and>
      (e_gen_range E 0 1 = 0 \<or> current_hash s = hash_new 32)))" using assms(5) up by (auto simp: joins_def h)
  then have s': "(case r of Inl _ \<Rightarrow> None | Inr _ \<Rightarrow> Some (s\<lparr>block_headers := hs, block_bodies := bs, c_db := d\<rparr>)) = Some s'"
    using j[unfolded if_not_P[OF no]] r by auto
  have "hs = (block_headers s)(x \<mapsto> \<lparr>rh_header = b_header b', rh_verified = v\<rparr>)"
    using w by (auto simp: write_with_cache_def bind_eq_Some_conv)
  moreover have "s' = s\<lparr>block_headers := hs, block_bodies := bs, c_db := d\<rparr>" using s' by (cases r) simp_all
  ultimately show "txs_cache s' = txs_cache s" "current_height s' = current_height s" "current_hash s' = current_hash s"
    "block_hashes s' = block_hashes s" "block_headers s' = (block_headers s)(x \<mapsto> \<lparr>rh_header = b_header b', rh_verified = v\<rparr>)"
    by simp_all
qed

lemma beside_total:
  assumes "settled E dinv view s" and "good_block E b" and "block_hash (e_sha3 E) (e_bo E) b = Some (x, b')"
    and "\<not> joins E s (h_height (b_header b))" and "cadd (current_height s) 1 \<noteq> None"
  shows "\<exists>s'. insert_at E b v s = Some s'"
proof -
  note g = block_hash_good[OF assms(2,3)]
  obtain up where up: "cadd (current_height s) 1 = Some up" using assms(5) by blast
  obtain e1 where e1: "write_with_cache header_key (enc_rich E) COL_HEADERS (block_headers s) x \<lparr>rh_header = b_header b', rh_verified = v\<rparr>
      Overwrite tr_new = Some (tr_put COL_HEADERS (header_key x) e1 tr_new, (block_headers s)(x \<mapsto> \<lparr>rh_header = b_header b', rh_verified = v\<rparr>))"
    "pend E dinv view (tr_put COL_HEADERS (header_key x) e1 tr_new)
      (s\<lparr>block_headers := (block_headers s)(x \<mapsto> \<lparr>rh_header = b_header b', rh_verified = v\<rparr>)\<rparr>)"
    using pend_write_header[OF settled_pend[OF assms(1)] g(4)] by blast
  let ?s1 = "s\<lparr>block_headers := (block_headers s)(x \<mapsto> \<lparr>rh_header = b_header b', rh_verified = v\<rparr>)\<rparr>"
  have gb: "good_body (e_bo E) (b_body b)" using assms(2) by (simp add: good_block_def)
  obtain batch2 where e2: "write_with_cache body_key (enc_body E) COL_BODIES (block_bodies s) x (b_body b) Overwrite
        (tr_put COL_HEADERS (header_key x) e1 tr_new) = Some (batch2, (block_bodies s)(x \<mapsto> b_body b))"
    "pend E dinv view batch2 (?s1\<lparr>block_bodies := (block_bodies s)(x \<mapsto> b_body b)\<rparr>)"
    using pend_write_body[OF e1(2) gb, of x] by auto
  obtain d where d: "e_write E batch2 (c_db s) = Some (Inr (), d)"
    using write_ok[of "c_db s" batch2] e2(2) by (auto simp: pend_def chain_ok_def)
  have no: "\<not> (h_height (b_header b) = up \<or> (h_height (b_header b) = current_height s \<and>
      (e_gen_range E 0 1 = 0 \<or> current_hash s = hash_new 32)))" using assms(4) up by (auto simp: joins_def)
  have "insert_at E b v s = Some (?s1\<lparr>block_bodies := (block_bodies s)(x \<mapsto> b_body b), c_db := d\<rparr>)"
    using assms(3) e1(1) e2(1) up d no by (auto simp: insert_at_def g(2,3) Let_def)
  then show ?thesis by blast
qed

text \<open>A new header hides no parent.\<close>

lemma new_header_keeps:
  assumes "settled E dinv view s" and "good_block E b" and "insert_at E b v s = Some s'"
    and "block_headers s' = (block_headers s)(x \<mapsto> r)" and "v_header E (view (c_db s)) s x = None"
    and "parent_of E (view (c_db s)) s h = Some p"
  shows "parent_of E (view (c_db s')) s' h = Some p"
proof -
  have "h \<noteq> x" using assms(5,6) by (auto simp: parent_of_def)
  then show ?thesis using header_frame[OF assms(1-3), of h] assms(4,6) by (simp add: parent_of_def)
qed

lemma beside_grown:
  assumes "chain_inv E dinv view s" and "well_grown E view s" and "good_block E b" and "insert_at E b v s = Some s'"
    and "block_hash (e_sha3 E) (e_bo E) b = Some (x, b')" and "\<not> joins E s (h_height (b_header b))"
    and "v_header E (view (c_db s)) s x = None"
  shows "well_grown E view s'"
proof -
  have settled: "settled E dinv view s" using assms(1) by (simp add: chain_inv_def)
  note b = beside_steps[OF settled assms(3-6)]
  have small: "current_height s < 2 ^ 32" using assms(2) by (simp add: well_grown_def)
  show ?thesis
  proof (rule well_grown_keep[OF assms(2) b(1-3)])
    fix n assume "n \<le> current_height s"
    then have "n < 2 ^ 32" using small by simp
    then show "v_number_db (view (c_db s')) s' n = v_number_db (view (c_db s)) s n"
      using number_frame[OF settled assms(3,4)] b(4) by simp
  qed (rule new_header_keeps[OF settled assms(3,4) b(5) assms(7)])
qed

lemma extend_grown:
  assumes "chain_inv E dinv view s" and "well_grown E view s" and "good_block E b" and "insert_at E b True s = Some s'"
    and "block_hash (e_sha3 E) (e_bo E) b = Some (x, b')" and "cadd (current_height s) 1 = Some (h_height (b_header b))"
    and "parent_hash (b_header b') = current_hash s" and "v_header E (view (c_db s)) s x = None"
  shows "well_grown E view s'"
proof -
  let ?h = "h_height (b_header b)" and ?q = "hc_queue (txs_cache s)"
  let ?i = "\<lparr>bi_hash = x, bi_height = ?h, bi_timestamp = h_timestamp (b_header b'), bi_transactions = tx_hashes_of (b_body b)\<rparr>"
  have settled: "settled E dinv view s" and full: "window_full s" using assms(1,2) by (simp_all add: chain_inv_def well_grown_def)
  from extend_tip[OF assms(1) full assms(3,5-7) refl] assms(4) have e: "window_full s'" "current_height s' = ?h"
    "hc_queue (txs_cache s') = tl ?q @ [?i]" "block_headers s' = (block_headers s)(x \<mapsto> \<lparr>rh_header = b_header b', rh_verified = True\<rparr>)"
    "block_hashes s' = (block_hashes s)(?h \<mapsto> x)" by auto
  have small: "?h < 2 ^ 32" using assms(3) by (simp add: good_block_def wf_rich_def)
  have up: "unat ?h = Suc (unat (current_height s))" using cadd_SomeD[OF assms(6)] by simp
  have ne: "?q \<noteq> []" using full by (auto simp: window_full_def)
  have frame: "v_number_db (view (c_db s')) s' n = v_number_db (view (c_db s)) s n" if "n \<le> current_height s" for n
  proof -
    have "n < ?h" using that up by (simp add: word_le_nat_alt word_less_nat_alt)
    then have "n < 2 ^ 32" "block_hashes s' n = block_hashes s n" using small by (auto simp: e(5))
    then show ?thesis using number_frame[OF settled assms(3,4)] by blast
  qed
  have new: "v_number_db (view (c_db s')) s' ?h = Some x" "parent_of E (view (c_db s')) s' x = Some (current_hash s)"
    using assms(7) by (simp_all add: v_number_db_def table_view_def e(5) parent_of_def v_header_def e(4))
  have old: "number_ok E (view (c_db s)) s n" if "n \<le> current_height s" for n using assms(2) that by (simp add: well_grown_def)
  have tip: "v_number_db (view (c_db s)) s (current_height s) = Some (current_hash s)"
    using old[OF order_refl] full ne last_conv_nth[OF ne] by (auto simp: number_ok_def behind_tip_def window_full_def)
  have "number_ok E (view (c_db s')) s' n" if n: "n \<le> ?h" for n
  proof (cases "n = ?h")
    case True
    have "?h = current_height s + 1" using assms(6) by (auto simp: cadd_def split: if_splits)
    then have "?h - 1 = current_height s" by simp
    then have "v_number_db (view (c_db s')) s' (?h - 1) = Some (current_hash s)" using frame[OF order_refl] tip by simp
    then show ?thesis using new by (simp add: number_ok_def behind_tip_def True e(2,3) nth_append)
  next
    case False
    then have "unat n \<noteq> unat ?h" by (simp add: word_unat_eq_iff)
    then have le: "n \<le> current_height s" using n up by (simp add: word_le_nat_alt)
    have le1: "n - 1 \<le> current_height s" if "n \<noteq> 0" using le pred_word[OF that] by (simp add: word_le_nat_alt)
    have bt: "behind_tip s' n = Suc (behind_tip s n)" using up le by (simp add: behind_tip_def e(2) word_le_nat_alt)
    obtain y p where y: "v_number_db (view (c_db s)) s n = Some y" "parent_of E (view (c_db s)) s y = Some p"
      "n \<noteq> 0 \<longrightarrow> v_number_db (view (c_db s)) s (n - 1) = Some p"
      "behind_tip s n < length ?q \<longrightarrow> bi_hash (?q ! (length ?q - 1 - behind_tip s n)) = y"
      using old[OF le] unfolding number_ok_def by blast
    have "bi_hash ((tl ?q @ [?i]) ! (length ?q - 1 - Suc (behind_tip s n))) = y" if "Suc (behind_tip s n) < length ?q"
    proof -
      have "(tl ?q @ [?i]) ! (length ?q - 1 - Suc (behind_tip s n)) = ?q ! (length ?q - 1 - behind_tip s n)"
        using that by (simp add: nth_append nth_tl Suc_diff_Suc)
      then show ?thesis using y(4) that by simp
    qed
    then show ?thesis
      unfolding number_ok_def bt e(3) using y(1,3) frame[OF le] frame[OF le1] ne new_header_keeps[OF settled assms(3,4) e(4) assms(8) y(2)]
      by (intro exI[of _ y] exI[of _ p]) simp
  qed
  then show ?thesis using e(1,2) small by (simp add: well_grown_def)
qed

lemma grown_ok:
  assumes "dinv d" and "db_good E (view d)" and "view d COL_EXTRA CURRENT_HASH = None" and "grown E dinv view c d s"
  shows "chain_inv E dinv view s \<and> well_grown E view s"
  using assms(4)
proof induction
  case (start s)
  then show ?case using start_grown[OF assms(1-3)] by blast
next
  case (extend s b x b' s')
  note e = extend.hyps and ih = extend.IH
  show ?case by (rule conjI[OF insert_at_inv[OF conjunct1[OF ih] e(2,7)] extend_grown[OF conjunct1[OF ih] conjunct2[OF ih] e(2,7,3,5,6,4)]])
next
  case (beside s b x b' v s')
  note e = beside.hyps and ih = beside.IH
  show ?case by (rule conjI[OF insert_at_inv[OF conjunct1[OF ih] e(2,6)] beside_grown[OF conjunct1[OF ih] conjunct2[OF ih] e(2,6,3,5,4)]])
next
  case (look s s')
  note f = same_fields[OF look.hyps(3)]
  have "waiting_ok E s" using look.IH by (simp add: chain_inv_def)
  then have "chain_inv E dinv view s'" using look.hyps(2) by (simp add: chain_inv_def settled_def waiting_ok_def f)
  moreover have "well_grown E view s'"
    by (rule well_grown_keep[OF conjunct2[OF look.IH] f(2,4,5)]) (simp_all add: parent_of_def f)
  ultimately show ?case by blast
next
  case (collect s s')
  note c = collected[OF conjunct1[OF collect.IH] collect.hyps(2)]
  have f: "c_db s' = c_db s" "txs_cache s' = txs_cache s" "current_height s' = current_height s" "current_hash s' = current_hash s"
    "v_number_db (view (c_db s)) s' = v_number_db (view (c_db s)) s"
    using c by (simp_all add: sees_same_def core_def)
  have p: "parent_of E st t h = map_option (\<lambda>r. parent_hash (rh_header r)) (map_option (recelled (e_sha3 E)) (v_header E st t h))" for st t h
    by (simp add: parent_of_def option.map_comp comp_def recelled_def)
  have "map_option (recelled (e_sha3 E)) (v_header E (view (c_db s)) s' h) = map_option (recelled (e_sha3 E)) (v_header E (view (c_db s)) s h)" for h
    using c unfolding sees_same_def by blast
  then have "parent_of E (view (c_db s)) s' h = parent_of E (view (c_db s)) s h" for h unfolding p by simp
  then have "well_grown E view s'" by (intro well_grown_keep[OF conjunct2[OF collect.IH] f(2-4)]) (simp_all add: f)
  then show ?case using c by blast
qed

end

subsection \<open>Property\<close>

text \<open>
  C12. \<open>block_hash_by_number_fork\<close> finds the ancestor. In every state of a chain that has grown without a switch, the
  block with a number on the branch of a given block (any block, any height up to the tip) is the one that following the parents
  reaches in as many steps as the heights are apart: the short cut over the numbers of the best chain, read from the window or from
  the table, makes no difference. Above the block there is none, and a parent that is missing gives none.
\<close>

theorem ancestor_lookup:
  assumes "chain_store E dinv view" and "dinv d" and "db_good E (view d)" and "view d COL_EXTRA CURRENT_HASH = None"
    and "grown E dinv view c d s" and "height \<le> current_height s"
  shows "\<exists>s'. block_hash_by_number_fork E number height h s =
      Some (if height < number then None else ancestor (v_header E (view (c_db s)) s) (unat height - unat number) h, s') \<and>
    grown E dinv view c d s' \<and> core s' = core s"
proof -
  have s: "chain_inv E dinv view s" "well_grown E view s" using chain_store.grown_ok[OF assms(1-5)] by simp_all
  have "current_height s < 2 ^ 32" using s(2) by (simp add: well_grown_def)
  then have "height < 2 ^ 32" by (rule le_less_trans[OF assms(6)])
  from chain_store.by_number_fork_yields[OF assms(1) inv_ok[OF s(1)] this well_grown_linked[OF s(2) assms(6)]]
  obtain s' where s': "block_hash_by_number_fork E number height h s =
      Some (if height < number then None else ancestor (v_header E (view (c_db s)) s) (unat height - unat number) h, s')"
    "chain_ok E dinv view (view (c_db s)) s'" "same E (view (c_db s)) s s'" unfolding yields_def by blast
  then show ?thesis using grown.look[OF assms(5) s'(2,3)] by (auto simp: same_def)
qed

text \<open>The sample node with two blocks on the first one and another beside the lower of them.\<close>

lemma genesis_last:
  assumes "block_hash (e_sha3 sample_env) (e_bo sample_env) (genesis t) = Some (x, g)"
  shows "hd x = 0"
proof -
  have w: "wf_header (e_bo sample_env) (b_header (genesis t))" using sample_genesis_good[of t] by (simp add: good_block_def wf_rich_def)
  then have x: "x = e_sha3 sample_env (rlp_enc (header_item (b_header (genesis t))))"
    using assms wf_header_emits(2)[OF w] by (auto simp: block_hash_def header_hash_def rlp_hash_def)
  have "\<exists>xs. rlp_enc (header_item (b_header (genesis t))) = xs @ replicate 65 0"
    by (simp add: header_item_def proof_item_def rlp_enc.simps list_bytes_def data_bytes_def genesis_def block_default_def
      header_default_def proof_default_def hash_new_def)
  then obtain xs where xs: "rlp_enc (header_item (b_header (genesis t))) = xs @ replicate 65 0" by blast
  have "hd (rev (replicate 65 (0 :: u8)) @ ys) = 0" for ys by (simp add: hd_append)
  then show ?thesis by (simp add: x sample_env_def sample_base_def mem_env_def xs hd_take)
qed

lemma sample_grown:
  "\<exists>s x0 a1 b1 r. grown sample_env mem_ok mem_view sample_config sample_db s \<and> current_height s = 2 \<and>
    block_hashes s 0 = Some x0 \<and> block_hashes s 1 = Some a1 \<and> a1 \<noteq> b1 \<and>
    v_header sample_env (mem_view (c_db s)) s b1 = Some r \<and> parent_hash (rh_header r) = x0"
proof -
  let ?v = "\<lambda>s. v_header sample_env (mem_view (c_db s)) s"
  obtain x0 g where g: "block_hash (e_sha3 sample_env) (e_bo sample_env) (genesis (start_time sample_config)) = Some (x0, g)"
    using block_hash_total[OF sample_genesis_good] by blast
  have n: "unat (buffer_size sample_config) + 105 < 2 ^ 64" by (simp add: sample_config_def)
  have v: "mem_view sample_db COL_EXTRA CURRENT_HASH = None" by (simp add: sample_db_view)
  from sample.genesis_start[OF sample_db_ok sample_db_good v n g] obtain s0 where s0: "chain_init sample_env sample_config sample_db = Some s0"
    "chain_inv sample_env mem_ok mem_view s0" "window_full s0" "current_height s0 = 0" "current_hash s0 = x0" "block_hashes s0 0 = Some x0"
    "\<forall>y. y \<noteq> x0 \<longrightarrow> ?v s0 y = None" by (auto simp: sample_db_view)
  note grown0 = grown.start[of sample_env, OF s0(1), of mem_ok mem_view]
  have l0: "length x0 = 32" by (rule hash_cell_length[OF sample_genesis_good g])
  have hb: "block_hash (e_sha3 sample_env) (e_bo sample_env) (sample_one x0 k) = Some (e_sha3 sample_env (rlp_enc (header_item (b_header (sample_one x0 k)))),
      (sample_one x0 k)\<lparr>b_header := (b_header (sample_one x0 k))\<lparr>h_hash := Some (e_sha3 sample_env (rlp_enc (header_item (b_header (sample_one x0 k)))))\<rparr>\<rparr>)" for k
    using sample_one_hash[OF l0] by (simp add: Let_def)
  define a1 where "a1 = e_sha3 sample_env (rlp_enc (header_item (b_header (sample_one x0 1))))"
  define b1 where "b1 = e_sha3 sample_env (rlp_enc (header_item (b_header (sample_one x0 2))))"
  have hd: "hd x0 = 0" "hd a1 = 1" "hd b1 = 2"
    using genesis_last[OF g] sample_one_last[of x0 1] sample_one_last[of x0 2] by (simp_all add: a1_def b1_def)
  have la: "length a1 = 32" using hash_cell_length[OF sample_one_good[OF l0] hb[of 1]] by (simp add: a1_def)
  have up1: "cadd (current_height s0) 1 = Some (h_height (b_header (sample_one x0 1)))" by (simp add: s0(4) cadd_def)
  have ne: "x0 \<noteq> a1" "x0 \<noteq> b1" "a1 \<noteq> b1" using hd by auto
  from sample.extend_tip[OF s0(2,3) sample_one_good[OF l0] hb up1 _ refl] obtain s1 where
    s1: "insert_at sample_env (sample_one x0 1) True s0 = Some s1" "chain_inv sample_env mem_ok mem_view s1" "window_full s1"
    "current_height s1 = 1" "current_hash s1 = a1" "block_hashes s1 = (block_hashes s0)(1 \<mapsto> a1)"
    and h1: "\<And>y. y \<noteq> a1 \<Longrightarrow> block_headers s1 y = block_headers s0 y" by (auto simp: s0(5) a1_def)
  have new: "?v s0 y = None" if "hd y \<noteq> 0" for y using s0(7) that hd(1) by auto
  have settled: "settled sample_env mem_ok mem_view s0" "settled sample_env mem_ok mem_view s1" using s0(2) s1(2) by (simp_all add: chain_inv_def)
  have grown1: "grown sample_env mem_ok mem_view sample_config sample_db s1"
    by (rule grown.extend[OF grown0 sample_one_good[OF l0] hb _ up1 _ s1(1)]) (use new[of a1] hd in \<open>simp_all add: s0(5) a1_def[symmetric]\<close>)
  obtain x2 b2 where hb2: "block_hash (e_sha3 sample_env) (e_bo sample_env) (sample_two a1) = Some (x2, b2)"
    using block_hash_total[OF sample_two_good[OF la]] by blast
  note two = sample_two_hash[OF hb2 la]
  have up2: "cadd (current_height s1) 1 = Some (h_height (b_header (sample_two a1)))" by (simp add: s1(4) cadd_def)
  have old1: "?v s1 y = None" if "y \<noteq> a1" "hd y \<noteq> 0" for y
    using sample.header_frame[OF settled(1) sample_one_good[OF l0] s1(1) h1[OF that(1)]] new[OF that(2)] by simp
  have x2: "x2 \<noteq> a1" "hd x2 \<noteq> 0" using two hd by auto
  have p2: "parent_hash (b_header b2) = current_hash s1" by (simp add: two s1(5))
  from sample.extend_tip[OF s1(2,3) sample_two_good[OF la] hb2 up2 p2 refl] obtain s2 where
    s2: "insert_at sample_env (sample_two a1) True s1 = Some s2" "chain_inv sample_env mem_ok mem_view s2" "window_full s2"
    "current_height s2 = 2" "block_hashes s2 = (block_hashes s1)(2 \<mapsto> x2)"
    and h2: "\<And>y. y \<noteq> x2 \<Longrightarrow> block_headers s2 y = block_headers s1 y" by auto
  have grown2: "grown sample_env mem_ok mem_view sample_config sample_db s2"
    by (rule grown.extend[OF grown1 sample_two_good[OF la] hb2 old1[OF x2] up2 p2 s2(1)])
  have "b1 \<noteq> x2" using two hd by auto
  from sample.header_frame[OF settled(2) sample_two_good[OF la] s2(1) h2[OF this]] have b1: "?v s2 b1 = None"
    using old1[of b1] ne hd by simp
  have out: "\<not> joins sample_env s2 (h_height (b_header (sample_one x0 2)))" by (simp add: joins_def s2(4) cadd_def)
  note settled2 = s2(2)[unfolded chain_inv_def, THEN conjunct1]
  obtain s3 where s3: "insert_at sample_env (sample_one x0 2) True s2 = Some s3"
    using sample.beside_total[OF settled2 sample_one_good[OF l0] hb out] by (auto simp: s2(4) cadd_def)
  note b3 = sample.beside_steps[OF settled2 sample_one_good[OF l0] s3 hb out]
  have grown3: "grown sample_env mem_ok mem_view sample_config sample_db s3"
    by (rule grown.beside[OF grown2 sample_one_good[OF l0] hb _ out s3]) (use b1 in \<open>simp add: b1_def\<close>)
  have "?v s3 b1 = Some \<lparr>rh_header = (b_header (sample_one x0 2))\<lparr>h_hash := Some b1\<rparr>, rh_verified = True\<rparr>"
    by (simp add: v_header_def table_view_def b3(5) b1_def)
  then show ?thesis using grown3 b3(2,4) s2(4,5) s1(6) s0(6) ne(3) by (intro exI[of _ s3] exI[of _ x0] exI[of _ a1] exI[of _ b1]) auto
qed

theorem ancestor_lookup_witness:
  "\<exists>s s' s'' x0 a1 b1. grown sample_env mem_ok mem_view sample_config sample_db s \<and> v_number (mem_view (c_db s)) s 1 = Some a1 \<and> a1 \<noteq> b1 \<and>
    block_hash_by_number_fork sample_env 1 1 b1 s = Some (Some b1, s') \<and> block_hash_by_number_fork sample_env 0 1 b1 s = Some (Some x0, s'') \<and>
    v_number (mem_view (c_db s)) s 0 = Some x0"
proof -
  obtain s x0 a1 b1 r where s: "grown sample_env mem_ok mem_view sample_config sample_db s" "current_height s = 2"
    "block_hashes s 0 = Some x0" "block_hashes s 1 = Some a1" "a1 \<noteq> b1"
    "v_header sample_env (mem_view (c_db s)) s b1 = Some r" "parent_hash (rh_header r) = x0" using sample_grown by blast
  have v: "mem_view sample_db COL_EXTRA CURRENT_HASH = None" by (simp add: sample_db_view)
  have h: "(1 :: u64) \<le> current_height s" "(0 :: u64) \<le> current_height s" by (simp_all add: s(2))
  have w: "well_grown sample_env mem_view s" using sample.grown_ok[OF sample_db_ok sample_db_good v s(1)] by simp
  have n: "v_number (mem_view (c_db s)) s 1 = Some a1" "v_number (mem_view (c_db s)) s 0 = Some x0"
    using well_grown_number[OF w h(1)] well_grown_number[OF w h(2)] s(3,4) by (simp_all add: v_number_db_def table_view_def)
  note l = ancestor_lookup[OF sample.chain_store_axioms sample_db_ok sample_db_good v s(1) h(1)]
  have "\<exists>s'. block_hash_by_number_fork sample_env 1 1 b1 s = Some (Some b1, s')" using l[of 1 b1] by auto
  moreover have "\<exists>s'. block_hash_by_number_fork sample_env 0 1 b1 s = Some (Some x0, s')" using l[of 0 b1] s(6,7) by auto
  ultimately show ?thesis using s(1,5) n by blast
qed

end
