(* ===== verification/ChainChecks.thy ===== *)
theory ChainChecks
  imports ChainGrow
begin

section \<open>What the checks accept\<close>

text \<open>
  The checks of transactions, of blocks and of proofs: what the miner leaves in a block passes the check when the parent
  is on the best chain and need not on a fork, what an accepted block satisfies, and the ancestor that a proof refers to.
\<close>

subsection \<open>Transactions\<close>

lemma check_filtered: "check_loop bh bt mx cache (filter_loop bh bt mx cache txs seen) seen = Inr ()"
  by (induction bh bt mx cache txs seen rule: filter_loop.induct) auto

lemma csub_cadd: "cadd n 1 = Some m \<Longrightarrow> csub m 1 = Some n" for n m :: u64
proof -
  assume a: "cadd n 1 = Some m"
  then have "unat m = unat n + 1" "m = n + 1" using cadd_SomeD[OF a] by (auto simp: cadd_def split: if_splits)
  moreover from this(1) have "m \<noteq> 0" by auto
  ultimately show ?thesis by (simp add: csub_one)
qed

lemma diff_on_best:
  assumes "block_info_at (txs_cache s) height = Some (Some i)" and "bi_hash i = h" and "0 < unat (buffer_size (c_config s))"
    and "unat height + unat (buffer_size (c_config s)) < 2 ^ 64" and "current_height s \<le> height + buffer_size (c_config s)"
  shows "transactions_diff E height h s = Some (Inr (height, {}), s)"
proof -
  have top: "cadd height (buffer_size (c_config s)) = Some (height + buffer_size (c_config s))" using assms(4) by (simp add: cadd_def)
  have b: "buffer_size (c_config s) \<noteq> 0" using assms(3) by auto
  have "block_hash_by_number E height s = Some (Some h, s)" using assms(1,2) by (simp add: block_hash_by_number_def)
  then show ?thesis
    using linorder_not_less[THEN iffD2, OF assms(5)] b
    by (simp add: transactions_diff_def top diff_loop.simps[of E "buffer_size (c_config s)"] csub_one)
qed

lemma filtered_pass:
  assumes "block_info_at (txs_cache s) height = Some (Some i)" and "bi_hash i = h" and "0 < unat (buffer_size (c_config s))"
    and "unat height + unat (buffer_size (c_config s)) < 2 ^ 64" and "current_height s \<le> height + buffer_size (c_config s)"
    and "filter_transactions E height h txs s = Some (txs', s')"
    and "cadd height 1 = Some (h_height (b_header b))" and "parent_hash (b_header b) = h" and "transactions (b_body b) = txs'"
  shows "s' = s \<and> check_transactions E b s = Some (Inr True, s)"
proof -
  note d = diff_on_best[OF assms(1-5), of E]
  note c = csub_cadd[OF assms(7)]
  obtain bh bt where g: "get_left_bound height (txs_cache s) s = Some (bh, bt)"
    and t: "txs' = filter_loop bh bt height (txs_cache s) txs {}" "s' = s"
    using assms(6) d by (auto simp: filter_transactions_def bind_eq_Some_conv)
  have "transactions_check txs' {} (txs_cache s) (h_height (b_header b)) height s = Some (Inr ())"
    using c g by (simp add: transactions_check_def t(1) check_filtered)
  then show ?thesis using c d t(2) by (simp add: check_transactions_def assms(8,9))
qed

text \<open>
  C11. The miner's selection passes the check. When the parent is a block of the best chain in the window, the transactions that
  \<open>filter_transactions\<close> leaves are accepted by \<open>check_transactions\<close> in a block on top of that parent, and the block counts as verified. (On a fork they need not be, see \<open>fork_bounds_differ\<close>.)
\<close>

theorem mined_transactions_pass:
  assumes "block_info_at (txs_cache s) height = Some (Some i)" and "bi_hash i = h" and "0 < unat (buffer_size (c_config s))"
    and "unat height + unat (buffer_size (c_config s)) < 2 ^ 64" and "current_height s \<le> height + buffer_size (c_config s)"
    and "filter_transactions E height h txs s = Some (txs', s')"
    and "cadd height 1 = Some (h_height (b_header b))" and "parent_hash (b_header b) = h" and "transactions (b_body b) = txs'"
  shows "s' = s \<and> check_transactions E b s = Some (Inr True, s)"
  by (rule filtered_pass[OF assms])

definition sample_window :: "in_mem chain" where
  "sample_window = (chain_new sample_db sample_config 12)\<lparr>current_height := 1, current_hash := [7],
     txs_cache := (hc_new 12)\<lparr>hc_queue := replicate 10 (padding [5] 7) @
       [\<lparr>bi_hash = [6], bi_height = 0, bi_timestamp = 9, bi_transactions = []\<rparr>,
        \<lparr>bi_hash = [7], bi_height = 1, bi_timestamp = 11, bi_transactions = []\<rparr>]\<rparr>,
     block_headers := [[9] \<mapsto> sample_rich 1 [9] [6] 11], block_bodies := [[9] \<mapsto> body_default]\<rparr>"

lemma sample_window_simps [simp]:
  "current_height sample_window = 1" "c_config sample_window = sample_config" "buffer_size sample_config = 10" "nps sample_config = 10"
  "block_info_at (txs_cache sample_window) 1 = Some (Some \<lparr>bi_hash = [7], bi_height = 1, bi_timestamp = 11, bi_transactions = []\<rparr>)"
  "block_info_at (txs_cache sample_window) 0 = Some (Some \<lparr>bi_hash = [6], bi_height = 0, bi_timestamp = 9, bi_transactions = []\<rparr>)"
  "hc_get (txs_cache sample_window) 9 = Some (padding [5] 7)"
  "hc_get (txs_cache sample_window) 10 = Some \<lparr>bi_hash = [6], bi_height = 0, bi_timestamp = 9, bi_transactions = []\<rparr>"
  "hc_hashes (txs_cache sample_window) = (\<lambda>_. None)"
  by (simp_all add: sample_window_def sample_config_def block_info_at_def best_height_def csub_def index_def nth_append hc_get_def
    chain_new_def hc_new_def)

theorem mined_transactions_pass_witness:
  "\<exists>txs' b. filter_transactions sample_env 1 [7] [sample_stx] sample_window = Some (txs', sample_window) \<and> txs' = [sample_stx] \<and>
    transactions (b_body b) = txs' \<and> check_transactions sample_env b sample_window = Some (Inr True, sample_window)"
proof -
  let ?b = "block_init 2 20 [7] [sample_stx] []"
  have d: "transactions_diff sample_env 1 [7] sample_window = Some (Inr (1, {}), sample_window)"
    by (rule diff_on_best[OF sample_window_simps(5)]) simp_all
  have f: "filter_transactions sample_env 1 [7] [sample_stx] sample_window = Some ([sample_stx], sample_window)"
    by (simp add: filter_transactions_def d get_left_bound_def cadd_def csub_def cmul_def u64_div_def hc_contains_def sample_stx_def)
  have "check_transactions sample_env ?b sample_window = Some (Inr True, sample_window)"
    using mined_transactions_pass[OF sample_window_simps(5) _ _ _ _ f, of ?b] by (simp add: block_init_def cadd_def)
  then show ?thesis using f by (intro exI[of _ "[sample_stx]"] exI[of _ ?b]) (simp add: block_init_def)
qed

text \<open>
  On a fork the miner and the check disagree. Both take the oldest allowed time from the window, but the miner at the height where the
  fork leaves the best chain and the check at the height of the parent: a transaction whose time lies between the
  two bounds is put into the block by \<open>filter_transactions\<close> and makes \<open>check_transactions\<close> refuse that block as overdue.
\<close>

theorem fork_bounds_differ:
  assumes "transactions_diff E height h s = Some (Inr (base, seen), s')"
    and "get_left_bound base (txs_cache s') s' = Some (bh1, bt1)" and "get_left_bound height (txs_cache s') s' = Some (bh2, bt2)"
    and "bt1 < tx_timestamp (stx_transaction tx)" and "tx_timestamp (stx_transaction tx) \<le> bt2"
    and "stx_hash tx \<notin> seen" and "\<not> hc_contains (txs_cache s') (stx_hash tx) bh1 base"
    and "cadd height 1 = Some (h_height (b_header b))" and "parent_hash (b_header b) = h" and "transactions (b_body b) = [tx]"
  shows "filter_transactions E height h [tx] s = Some ([tx], s') \<and> check_transactions E b s = Some (Inl OverdueTransaction, s')"
proof
  show "filter_transactions E height h [tx] s = Some ([tx], s')"
    using assms(1,2,6,7) linorder_not_le[THEN iffD2, OF assms(4)] by (simp add: filter_transactions_def)
  show "check_transactions E b s = Some (Inl OverdueTransaction, s')"
    using assms(1,3,5,9,10) csub_cadd[OF assms(8)] by (simp add: check_transactions_def transactions_check_def)
qed

theorem fork_bounds_differ_witness:
  "\<exists>b s'. transactions (b_body b) = [sample_stx\<lparr>stx_transaction := \<lparr>tx_data = [], tx_timestamp = 800\<rparr>\<rparr>] \<and>
    filter_transactions sample_env 1 [9] (transactions (b_body b)) sample_window = Some (transactions (b_body b), s') \<and>
    check_transactions sample_env b sample_window = Some (Inl OverdueTransaction, s')"
proof -
  let ?tx = "sample_stx\<lparr>stx_transaction := \<lparr>tx_data = [], tx_timestamp = 800\<rparr>\<rparr>" and ?w = sample_window
  let ?b = "block_init 2 20 [9] [?tx] []"
  have mo: "manager_ok (cache_man ?w)" by (simp add: sample_window_def chain_new_def cache_manager_new_ok)
  have w: "block_headers ?w [9] = Some (sample_rich 1 [9] [6] 11)" "block_bodies ?w [9] = Some body_default"
    by (simp_all add: sample_window_def)
  obtain m1 where m1: "block_transaction_hashes_by_hash sample_env [9] ?w = Some ([], ?w\<lparr>cache_man := m1\<rparr>)" "manager_ok m1"
    using cached_txs[OF mo w(2)] by (auto simp: tx_hashes_of_def body_default_def)
  obtain m2 where m2: "get_block_header_by_hash sample_env [9] (?w\<lparr>cache_man := m1\<rparr>) =
      Some (Some (sample_rich 1 [9] [6] 11), ?w\<lparr>cache_man := m2\<rparr>)"
    using cached_header[of "?w\<lparr>cache_man := m1\<rparr>" "[9]"] w(1) m1(2) by auto
  have n: "block_hash_by_number sample_env 1 ?w = Some (Some [7], ?w)"
    "block_hash_by_number sample_env 0 (?w\<lparr>cache_man := m2\<rparr>) = Some (Some [6], ?w\<lparr>cache_man := m2\<rparr>)"
    by (simp_all add: block_hash_by_number_def)
  have d: "transactions_diff sample_env 1 [9] ?w = Some (Inr (0, {}), ?w\<lparr>cache_man := m2\<rparr>)"
    using n m1 m2
    by (simp add: transactions_diff_def cadd_def diff_loop.simps[of sample_env 10 1] diff_loop.simps[of sample_env 9 0] csub_def)
  have b: "get_left_bound 0 (txs_cache (?w\<lparr>cache_man := m2\<rparr>)) (?w\<lparr>cache_man := m2\<rparr>) = Some (0, 700)"
    "get_left_bound 1 (txs_cache (?w\<lparr>cache_man := m2\<rparr>)) (?w\<lparr>cache_man := m2\<rparr>) = Some (0, 900)"
    by (simp_all add: get_left_bound_def cadd_def csub_def cmul_def u64_div_def padding_def)
  have "filter_transactions sample_env 1 [9] [?tx] ?w = Some ([?tx], ?w\<lparr>cache_man := m2\<rparr>) \<and>
      check_transactions sample_env ?b ?w = Some (Inl OverdueTransaction, ?w\<lparr>cache_man := m2\<rparr>)"
    by (rule fork_bounds_differ[OF d b]) (simp_all add: hc_contains_def cadd_def block_init_def)
  then show ?thesis by (intro exI[of _ ?b] exI[of _ "?w\<lparr>cache_man := m2\<rparr>"]) (simp add: block_init_def)
qed

subsection \<open>The ancestor of a proof\<close>

lemma anc_height_val:
  assumes "epoch_len (c_config s) \<noteq> 0"
  shows "\<exists>a. anc_height n s = Some a \<and> unat a = (unat n div unat (epoch_len (c_config s)) - 1) * unat (epoch_len (c_config s))"
proof -
  let ?e = "epoch_len (c_config s)" and ?q = "n div epoch_len (c_config s)"
  have q: "unat ?q = unat n div unat ?e" by (simp add: unat_div_distrib)
  define k where "k = (if ?q > 0 then ?q - 1 else ?q)"
  have k: "unat k = unat n div unat ?e - 1"
    using q by (auto simp: k_def pred_word word_gt_0)
  have "unat k * unat ?e \<le> unat n div unat ?e * unat ?e" by (rule mult_right_mono) (simp_all add: k)
  also have "\<dots> \<le> unat n" by (simp add: div_times_less_eq_dividend)
  finally have le: "unat k * unat ?e \<le> unat n" .
  then have c: "cmul k ?e = Some (k * ?e)" using unat_bound[of n] by (simp add: cmul_def)
  have "anc_height n s = Some (k * ?e)"
    using assms c by (auto simp: anc_height_def k_def csub_one word_gt_0 u64_div_def)
  then show ?thesis using cmul_SomeD[OF c] k by simp
qed

text \<open>
  The block that a proof refers to is in the epoch before: with an epoch of \<open>e\<close> blocks the height is that of the first block
  of the previous epoch, \<open>0\<close> in the first two; it never overflows, lies at least one epoch back from any height
  of a later epoch, and less than two.
\<close>

theorem ancestor_epoch:
  assumes "epoch_len (c_config s) \<noteq> 0"
  shows "\<exists>a. anc_height n s = Some a \<and> a \<le> n \<and> unat (epoch_len (c_config s)) dvd unat a \<and>
    unat n < unat a + 2 * unat (epoch_len (c_config s)) \<and>
    (unat (epoch_len (c_config s)) \<le> unat n \<longrightarrow> unat a + unat (epoch_len (c_config s)) \<le> unat n)"
proof -
  let ?e = "unat (epoch_len (c_config s))"
  obtain a where a: "anc_height n s = Some a" "unat a = (unat n div ?e - 1) * ?e" using anc_height_val[OF assms] by blast
  have e: "0 < ?e" using assms by (simp add: unat_gt_0)
  have n: "unat n = unat n div ?e * ?e + unat n mod ?e" "unat n mod ?e < ?e" using e by simp_all
  show ?thesis
  proof (cases "unat n div ?e")
    case 0
    then have "unat n < ?e" using e by (simp add: div_eq_0_iff)
    then show ?thesis using a 0 by (auto simp: word_le_nat_alt)
  next
    case (Suc k)
    then have u: "unat a = k * ?e" "unat n = k * ?e + ?e + unat n mod ?e" using a(2) n(1) by simp_all
    then show ?thesis using a(1) n(2) by (auto simp: word_le_nat_alt)
  qed
qed

theorem ancestor_epoch_witness: "\<exists>a. anc_height 13 sample_window = Some a \<and> 5 dvd unat a"
  using ancestor_epoch[of sample_window 13] by (auto simp: sample_config_def)

end
