(* ===== verification/ChainAccept.thy ===== *)
theory ChainAccept
  imports ChainChecks
begin

section \<open>Accepted blocks\<close>

subsection \<open>What acceptance means\<close>

lemma check_proof_passed:
  assumes "check_proof E b s = Some (Inr (), s')"
  shows "\<exists>below anc sign_pub proof_pub g. csub (h_height (b_header b)) 1 = Some below \<and>
    anc_hash E below (parent_hash (b_header b)) s = Some (Some anc, s') \<and>
    sign_public (e_sha3 E) (e_bo E) (e_secp E) b = Some (Inr sign_pub) \<and>
    get_proof_pub (c_config s') sign_pub = Some (proof_pub, g) \<and>
    verify_proof (e_sha3 E) (e_bls E) (b_header b) anc proof_pub g"
proof -
  obtain below where below: "csub (h_height (b_header b)) 1 = Some below" using assms by (auto simp: check_proof_def bind_eq_Some_conv)
  obtain anc s1 where anc: "anc_hash E below (parent_hash (b_header b)) s = Some (anc, s1)"
    using assms below by (auto simp: check_proof_def bind_eq_Some_conv)
  obtain a where a: "anc = Some a" using assms below anc by (cases anc) (auto simp: check_proof_def)
  obtain sp where sp: "sign_public (e_sha3 E) (e_bo E) (e_secp E) b = Some sp"
    and r: "(case sp of
             Inl e \<Rightarrow> Inl e
           | Inr sign_pub \<Rightarrow>
               (case get_proof_pub (c_config s1) sign_pub of
                  None \<Rightarrow> Inl InvalidPublicKey
                | Some (proof_pub, proof_g) \<Rightarrow>
                    if \<not> verify_proof (e_sha3 E) (e_bls E) (b_header b) a proof_pub proof_g then Inl InvalidProofKey
                    else Inr ())) = Inr ()" and s1: "s1 = s'"
    using assms below anc a by (auto simp: check_proof_def bind_eq_Some_conv)
  obtain k where k: "sp = Inr k" using r by (cases sp) auto
  obtain pp g where "get_proof_pub (c_config s1) k = Some (pp, g)" using r k by (cases "get_proof_pub (c_config s1) k") auto
  then show ?thesis using below anc a sp k r s1 by (auto split: if_splits)
qed

lemma accepted:
  assumes "chain_insert E now b s = Some (Inr (), s')"
  shows "\<exists>t x b' d limit s1 s2 s3 p below anc sign_pub proof_pub g.
    now = Some t \<and> block_hash (e_sha3 E) (e_bo E) b = Some (x, b') \<and>
    difficulty (e_sha3 E) (b_header b') = Some d \<and> get_difficulty (c_config s) = Some limit \<and> uint_cmp d limit \<noteq> Greater \<and>
    h_timestamp (b_header b') \<le> t \<and>
    get_block_header_by_hash E x s = Some (None, s1) \<and>
    get_block_header_by_hash E (parent_hash (b_header b')) s1 = Some (Some p, s2) \<and>
    h_timestamp (rh_header p) < h_timestamp (b_header b') \<and>
    csub (h_height (b_header b')) 1 = Some below \<and> anc_hash E below (parent_hash (b_header b')) s2 = Some (Some anc, s3) \<and>
    sign_public (e_sha3 E) (e_bo E) (e_secp E) b' = Some (Inr sign_pub) \<and> get_proof_pub (c_config s3) sign_pub = Some (proof_pub, g) \<and>
    verify_proof (e_sha3 E) (e_bls E) (b_header b') anc proof_pub g \<and>
    (\<exists>o'. outbox s' = o' @ [x])"
proof -
  obtain x b' where hb: "block_hash (e_sha3 E) (e_bo E) b = Some (x, b')" using assms by (auto simp: chain_insert_def bind_eq_Some_conv)
  obtain r s3 where bc: "block_basic_check E now b' s = Some (r, s3)" using assms hb by (auto simp: chain_insert_def bind_eq_Some_conv)
  have r: "r = Inr ()" using assms hb bc by (cases r) (auto simp: chain_insert_def)
  obtain c s4 where ct: "check_transactions E b' s3 = Some (c, s4)" using assms hb bc r by (auto simp: chain_insert_def bind_eq_Some_conv)
  obtain v where c: "c = Inr v" using assms hb bc r ct by (cases c) (auto simp: chain_insert_def)
  obtain s5 where "s' = s5\<lparr>outbox := outbox s5 @ [x]\<rparr>"
    using assms hb bc r ct c by (auto simp: chain_insert_def bind_eq_Some_conv)
  then have out: "\<exists>o'. outbox s' = o' @ [x]" by simp
  have cell: "block_hash (e_sha3 E) (e_bo E) b' = Some (x, b')"
    using hb by (auto simp: block_hash_def header_hash_def bind_eq_Some_conv split: option.splits)
  obtain d limit where d: "difficulty (e_sha3 E) (b_header b') = Some d" "get_difficulty (c_config s) = Some limit"
    using bc cell by (auto simp: block_basic_check_def bind_eq_Some_conv)
  have le: "uint_cmp d limit \<noteq> Greater" using bc cell d r by (auto simp: block_basic_check_def)
  obtain t where t: "now = Some t" using bc cell d le r by (cases now) (auto simp: block_basic_check_def)
  obtain m1 m2 m3 where m: "cmul 2 (nps (c_config s)) = Some m1" "cmul m1 (steps (c_config s)) = Some m2" "cadd t m2 = Some m3"
    using bc cell d le t by (auto simp: block_basic_check_def bind_eq_Some_conv)
  have m3: "\<not> m3 < h_timestamp (b_header b')" using bc cell d le t m r by (auto simp: block_basic_check_def)
  obtain known s1 where k: "get_block_header_by_hash E x s = Some (known, s1)"
    using bc cell d le t m m3 by (auto simp: block_basic_check_def bind_eq_Some_conv)
  have kn: "known = None" using bc cell d le t m m3 k r by (cases known) (auto simp: block_basic_check_def)
  obtain parent s2 where pa: "get_block_header_by_hash E (parent_hash (b_header b')) s1 = Some (parent, s2)"
    using bc cell d le t m m3 k kn by (auto simp: block_basic_check_def bind_eq_Some_conv)
  obtain p where p: "parent = Some p"
    using bc cell d le t m m3 k kn pa r by (cases parent) (auto simp: block_basic_check_def Let_def)
  have ts: "\<not> h_timestamp (b_header b') \<le> h_timestamp (rh_header p)" "\<not> h_timestamp (b_header b') > t"
    "check_proof E b' s2 = Some (Inr (), s3)"
    using bc cell d le t m m3 k kn pa p r by (auto simp: block_basic_check_def split: if_splits)
  from check_proof_passed[OF ts(3)] obtain below anc sign_pub proof_pub g where
    "csub (h_height (b_header b')) 1 = Some below" "anc_hash E below (parent_hash (b_header b')) s2 = Some (Some anc, s3)"
    "sign_public (e_sha3 E) (e_bo E) (e_secp E) b' = Some (Inr sign_pub)"
    "get_proof_pub (c_config s3) sign_pub = Some (proof_pub, g)"
    "verify_proof (e_sha3 E) (e_bls E) (b_header b') anc proof_pub g" by blast
  with hb t d le ts(1,2) k kn pa p out show ?thesis by (auto simp: not_le not_less)
qed

text \<open>
  C4. An accepted block is one that the protocol allows. If \<open>insert\<close> accepts a block, then the time servers answered; the hash of the
  block's proof is at most the difficulty of the configuration; its time is not after the present; nothing is
  stored under its hash; its parent is stored and is older; it is not at height 0; its signature recovers to a key of
  the configuration, and the proof verifies under the pairing key registered for that key,
  for the ancestor of the epoch before. It is then announced as inserted.
\<close>

theorem accepted_block:
  assumes "chain_insert E now b s = Some (Inr (), s')"
  shows "\<exists>t x b' d limit s1 s2 s3 p below anc sign_pub proof_pub g.
    now = Some t \<and> block_hash (e_sha3 E) (e_bo E) b = Some (x, b') \<and>
    difficulty (e_sha3 E) (b_header b') = Some d \<and> get_difficulty (c_config s) = Some limit \<and> uint_cmp d limit \<noteq> Greater \<and>
    h_timestamp (b_header b') \<le> t \<and>
    get_block_header_by_hash E x s = Some (None, s1) \<and>
    get_block_header_by_hash E (parent_hash (b_header b')) s1 = Some (Some p, s2) \<and>
    h_timestamp (rh_header p) < h_timestamp (b_header b') \<and>
    csub (h_height (b_header b')) 1 = Some below \<and> anc_hash E below (parent_hash (b_header b')) s2 = Some (Some anc, s3) \<and>
    sign_public (e_sha3 E) (e_bo E) (e_secp E) b' = Some (Inr sign_pub) \<and> get_proof_pub (c_config s3) sign_pub = Some (proof_pub, g) \<and>
    verify_proof (e_sha3 E) (e_bls E) (b_header b') anc proof_pub g \<and>
    (\<exists>o'. outbox s' = o' @ [x])"
  by (rule accepted[OF assms])

text \<open>A node that accepts a block: the keys and the hash function are such that the checks can be computed.\<close>

definition accept_env :: "(unit, unit, unit, in_mem) env" where
  "accept_env = mem_env (sample_base\<lparr>e_sha3 := (\<lambda>b. if length b > 100 then rev b else [])\<rparr>)"

definition accept_config :: sleepy_config where
  "accept_config = sample_config\<lparr>public_keys := (\<lambda>_. Some ([], []))\<rparr>"

interpretation accept: chain_store accept_env mem_ok mem_view
  unfolding accept_env_def by (rule mem_chain.chain_store_axioms)

definition accept_block :: block where
  "accept_block = (let b = sample_one (replicate 32 9) 1 in
     b\<lparr>b_header := (b_header b)\<lparr>h_proof := \<lparr>time_signature = replicate 32 0, block_signature = replicate 65 1\<rparr>\<rparr>\<rparr>)"

lemma accept_block_simps [simp]:
  "h_height (b_header accept_block) = 1" "parent_hash (b_header accept_block) = replicate 32 9" "h_hash (b_header accept_block) = None"
  "b_body accept_block = body_default" "h_timestamp (b_header accept_block) = 9"
  "h_proof (b_header accept_block) = \<lparr>time_signature = replicate 32 0, block_signature = replicate 65 1\<rparr>"
  by (simp_all add: accept_block_def Let_def) (simp add: sample_one_def block_init_def)

lemma accept_block_good: "good_block accept_env accept_block"
proof -
  have "wf_rich accept_env \<lparr>rh_header = b_header accept_block, rh_verified = True\<rparr>"
    by (intro header_wf_rich[OF accept.sha3_law accept.bo_law]) (simp_all, simp_all add: accept_block_def sample_one_def block_init_def Let_def)
  moreover have "good_body (e_bo accept_env) body_default"
    using genesis_good[OF accept.sha3_law accept.bo_law, of 0] by (simp add: good_block_def genesis_def block_default_def)
  ultimately show ?thesis by (simp add: good_block_def)
qed

lemma accept_sha3: "length b > 100 \<Longrightarrow> e_sha3 accept_env b = take 32 (rev b)" "length b \<le> 100 \<Longrightarrow> e_sha3 accept_env b = replicate 32 0"
  by (simp_all add: accept_env_def mem_env_def)

lemma accept_hash:
  "block_hash (e_sha3 accept_env) (e_bo accept_env) accept_block =
    Some (replicate 32 1, accept_block\<lparr>b_header := (b_header accept_block)\<lparr>h_hash := Some (replicate 32 1)\<rparr>\<rparr>)"
proof -
  let ?e = "rlp_enc (header_item (b_header accept_block))"
  have w: "wf_header (e_bo accept_env) (b_header accept_block)" using accept_block_good by (simp add: good_block_def wf_rich_def)
  have "\<exists>xs. ?e = xs @ replicate 65 1 \<and> 100 < length ?e"
    by (simp add: header_item_def proof_item_def rlp_enc.simps list_bytes_def data_bytes_def)
      (simp add: accept_block_def sample_one_def block_init_def Let_def)
  then obtain xs where xs: "?e = xs @ replicate 65 1" "100 < length ?e" by blast
  then have "e_sha3 accept_env ?e = replicate 32 1" by (simp add: accept_sha3)
  then show ?thesis using wf_header_emits(2)[OF w] by (simp add: block_hash_def header_hash_def rlp_hash_def)
qed

definition accept_state :: "in_mem \<Rightarrow> in_mem chain" where
  "accept_state d = (chain_new d accept_config 12)\<lparr>current_hash := replicate 32 9,
     txs_cache := (hc_new 12)\<lparr>hc_queue := replicate 12 \<lparr>bi_hash = replicate 32 9, bi_height = 0, bi_timestamp = 7, bi_transactions = []\<rparr>\<rparr>\<rparr>"

lemma accept_state_simps [simp]:
  "current_height (accept_state d) = 0" "current_hash (accept_state d) = replicate 32 9" "c_config (accept_state d) = accept_config"
  "buffer_size accept_config = 10" "nps accept_config = 10" "steps accept_config = 10" "max_peer accept_config = 3" "epoch_len accept_config = 5"
  "public_keys accept_config k = Some ([], [])"
  "block_info_at (txs_cache (accept_state d)) 0 =
    Some (Some \<lparr>bi_hash = replicate 32 9, bi_height = 0, bi_timestamp = 7, bi_transactions = []\<rparr>)"
  "hc_get (txs_cache (accept_state d)) 10 = Some \<lparr>bi_hash = replicate 32 9, bi_height = 0, bi_timestamp = 7, bi_transactions = []\<rparr>"
  by (simp_all add: accept_state_def accept_config_def sample_config_def chain_new_def block_info_at_def best_height_def index_def csub_def
    hc_get_def last_replicate)

lemma accept_difficulty:
  "\<exists>d limit. difficulty (e_sha3 accept_env) (b_header accept_block) = Some d \<and> get_difficulty accept_config = Some limit \<and>
    uint_cmp d limit \<noteq> Greater"
proof -
  have s: "e_sha3 accept_env (replicate 32 0) = replicate 32 0" by (rule accept_sha3(2)) simp
  have "foldl (\<lambda>acc b. acc * 256 + unat b) 0 (replicate n (0 :: u8)) = 0" for n by (induction n) simp_all
  then have z: "be_val (replicate 32 0) = 0" by (simp add: be_val_def)
  have d: "difficulty (e_sha3 accept_env) (b_header accept_block) = Some (uint_of 4 0)"
    using u256_from_h256_val(1)[of "replicate 32 0"] by (simp add: difficulty_def s z)
  obtain limit where l: "get_difficulty accept_config = Some limit"
  proof -
    let ?m = "uint_max_value 4" and ?u = "uint_from_u64 4 400"
    have u: "length ?m = length ?u" "uval ?u \<noteq> 0"
      using uval_from_u64[of 4 400] by (simp_all add: uint_max_value_def uint_from_u64_def)
    from uint_div_val[OF u] obtain q where "uint_div ?m ?u = Some q" by blast
    then show ?thesis using that by (simp add: get_difficulty_def cadd_def cmul_def)
  qed
  have "uint_cmp (uint_of 4 0) limit \<noteq> Greater"
    using uint_cmp_val[of "uint_of 4 0" limit] get_difficulty_val(2)[OF l] by simp
  then show ?thesis using d l by blast
qed



text \<open>The state is one that the invariant allows, over a store with the first block.\<close>

lemma accept_ready:
  "\<exists>d. chain_inv accept_env mem_ok mem_view (accept_state d) \<and> window_full (accept_state d) \<and> c_db (accept_state d) = d \<and>
    future_blocks (accept_state d) = [] \<and> unknown_parent (accept_state d) = (\<lambda>_. None) \<and>
    v_body (mem_view d) (accept_state d) (replicate 32 9) = Some body_default \<and>
    (\<forall>k. k \<noteq> replicate 32 9 \<longrightarrow> mem_view d COL_BODIES k = None) \<and>
    v_header accept_env (mem_view d) (accept_state d) =
      (\<lambda>k. if k = replicate 32 9 then Some (recelled (e_sha3 accept_env) \<lparr>rh_header = b_header (genesis 7), rh_verified = True\<rparr>) else None)"
proof -
  let ?E = accept_env and ?h = "replicate 32 9 :: hash"
  let ?r = "\<lparr>rh_header = b_header (genesis 7), rh_verified = True\<rparr>"
  have gg: "good_block ?E (genesis 7)" by (rule genesis_good[OF accept.sha3_law accept.bo_law])
  then have r: "wf_rich ?E ?r" "good_body (e_bo ?E) body_default" by (simp_all add: good_block_def genesis_def block_default_def)
  obtain d where d: "mem_ok d" "db_good ?E (mem_view d)"
    "\<And>k. mem_view d COL_HEADERS k = (if k = ?h then Some (rlp_enc (rich_item ?r)) else None)"
    "\<And>k. mem_view d COL_BODIES k = (if k = body_key ?h then Some (rlp_enc (body_item body_default)) else None)"
    using one_block_store[of "sample_base\<lparr>e_sha3 := (\<lambda>b. if length b > 100 then rev b else [])\<rparr>", folded accept_env_def, OF r, of ?h "body_key ?h"]
    by blast
  let ?s = "accept_state d"
  have ok: "chain_ok ?E mem_ok mem_view (mem_view d) ?s"
    using accept.new_ok[OF d(1,2), of "txs_cache ?s" accept_config 12] by (simp add: accept_state_def chain_ok_def tables_ok_def)
  have db: "c_db ?s = d" "unknown_parent ?s = (\<lambda>_. None)" "future_blocks ?s = []" "block_headers ?s = (\<lambda>_. None)" "block_bodies ?s = (\<lambda>_. None)"
    by (simp_all add: accept_state_def chain_new_def)
  have "v_body (mem_view d) ?s ?h = Some body_default" using d(4) body_trip(2)[OF r(2)] by (simp add: v_body_def table_view_def db)
  moreover have inv: "chain_inv ?E mem_ok mem_view ?s" using ok db by (simp add: chain_inv_def settled_def waiting_ok_def)
  have full: "window_full ?s" by (simp add: window_full_def) (simp add: accept_state_def last_replicate hc_new_def)
  moreover have "v_header ?E (mem_view d) ?s = (\<lambda>k. if k = ?h then Some (recelled (e_sha3 ?E) ?r) else None)"
    using d(3) rich_trip(2)[OF r(1)] by (simp add: fun_eq_iff v_header_def table_view_def db header_key_def)
  moreover have "\<forall>k. k \<noteq> ?h \<longrightarrow> mem_view d COL_BODIES k = None" using d(4) by (simp add: body_key_def)
  ultimately show ?thesis using inv full db by blast
qed

lemma hash_from_u64_length: "length (hash_from_u64 n v) = n"
proof -
  let ?f = "\<lambda>(ret, value) i. if i < n then (ret[n - i - 1 := ucast (value AND 0xff)], drop_bit 8 value) else (ret, value)"
  have "length (fst (foldl ?f (ret, v) xs)) = length ret" for ret :: hash and v :: u64 and xs
    by (induction xs arbitrary: ret v) simp_all
  then show ?thesis by (simp add: hash_from_u64_def hash_new_def)
qed

lemma accept_inserts:
  assumes inv: "chain_inv accept_env mem_ok mem_view (accept_state d)" and full: "window_full (accept_state d)"
    and db: "c_db (accept_state d) = d" "future_blocks (accept_state d) = []" "unknown_parent (accept_state d) = (\<lambda>_. None)"
    and vh: "v_header accept_env (mem_view d) (accept_state d) =
      (\<lambda>k. if k = replicate 32 9 then Some (recelled (e_sha3 accept_env) \<lparr>rh_header = b_header (genesis 7), rh_verified = True\<rparr>) else None)"
  shows "\<exists>s'. chain_insert accept_env (Some 10) accept_block (accept_state d) = Some (Inr (), s') \<and> get_status s' = (1, replicate 32 1)"
proof -
  let ?h = "replicate 32 9 :: hash" and ?x = "replicate 32 1 :: hash" and ?E = accept_env
  let ?r = "\<lparr>rh_header = b_header (genesis 7), rh_verified = True\<rparr>"
  let ?b = "accept_block\<lparr>b_header := (b_header accept_block)\<lparr>h_hash := Some ?x\<rparr>\<rparr>"
  let ?s = "accept_state d"
  have ok: "chain_ok ?E mem_ok mem_view (mem_view d) ?s" using inv_ok[OF inv] db(1) by simp
  have v: "v_header ?E (mem_view d) ?s ?x = None" "v_header ?E (mem_view d) ?s ?h = Some (recelled (e_sha3 ?E) ?r)" by (simp_all add: vh)
  from accept.header_yields[OF ok, of ?x] obtain s1 where s1: "get_block_header_by_hash ?E ?x ?s = Some (None, s1)"
    "chain_ok ?E mem_ok mem_view (mem_view d) s1" "same ?E (mem_view d) ?s s1" by (auto simp: yields_def v)
  have v1: "v_header ?E (mem_view d) s1 = v_header ?E (mem_view d) ?s" using s1(3) by (simp add: same_def)
  from accept.header_yields[OF s1(2), of ?h] obtain s2 where s2: "get_block_header_by_hash ?E ?h s1 = Some (Some (recelled (e_sha3 ?E) ?r), s2)"
    "chain_ok ?E mem_ok mem_view (mem_view d) s2" "same ?E (mem_view d) s1 s2" by (auto simp: yields_def v1 v)
  have v2: "v_header ?E (mem_view d) s2 = v_header ?E (mem_view d) s1" using s2(3) by (simp add: same_def)
  from accept.header_yields[OF s2(2), of ?h] obtain s3 where s3: "get_block_header_by_hash ?E ?h s2 = Some (Some (recelled (e_sha3 ?E) ?r), s3)"
    "chain_ok ?E mem_ok mem_view (mem_view d) s3" "same ?E (mem_view d) s2 s3" by (auto simp: yields_def v1 v2 v)
  have core: "core s1 = core ?s" "core s2 = core ?s" "core s3 = core ?s" using s1(3) s2(3) s3(3) by (simp_all add: same_def)
  then have cfg: "c_config s2 = accept_config" "c_config s3 = accept_config" "txs_cache s3 = txs_cache ?s" "current_height s3 = 0"
      "current_hash s3 = ?h" "c_db s3 = d" "waiting_ok ?E s3"
    using inv by (simp_all add: core_def db chain_inv_def waiting_ok_def) 
  have cell: "block_hash (e_sha3 ?E) (e_bo ?E) ?b = Some (?x, ?b)" by (simp add: block_hash_def header_hash_def)
  have fork: "block_hash_by_number_fork ?E 0 0 ?h s2 = Some (Some ?h, s2)"
    by (simp add: block_hash_by_number_fork_def fork_loop.simps[of ?E 0 0])
  have z: "e_sha3 ?E (time_signature (h_proof (rh_header (recelled (e_sha3 ?E) ?r)))) = replicate 32 0"
    by (rule accept_sha3(2)) (simp add: recelled_def genesis_def block_default_def header_default_def proof_default_def)
  have "anc_height 1 s2 = Some 0" by (simp add: anc_height_def u64_div_def cfg cmul_def)
  then have anc: "anc_hash ?E 0 ?h s2 = Some (Some (replicate 32 0), s3)"
    using fork s3(1) z by (simp add: anc_hash_def cadd_def)
  have sp: "sign_public (e_sha3 ?E) (e_bo ?E) (e_secp ?E) ?b = Some (Inr (replicate 64 2))"
    by (simp add: sign_public_def cell) (simp add: accept_env_def mem_env_def sample_base_def crypto_recover_def unit_secp_def)
  have vp: "verify_proof (e_sha3 ?E) (e_bls ?E) (b_header ?b) (replicate 32 0) p g" for p g
  proof -
    have "proof_message (e_sha3 ?E) 9 1 (replicate 32 0) = replicate 32 0"
      unfolding proof_message_def by (rule accept_sha3(2)) (simp add: hash_from_u64_length)
    then show ?thesis by (simp add: verify_proof_def) (simp add: accept_env_def mem_env_def sample_base_def)
  qed
  have check: "check_proof ?E ?b s2 = Some (Inr (), s3)"
    using anc sp vp by (simp add: check_proof_def csub_def cfg get_proof_pub_def)
  obtain df limit where df: "difficulty (e_sha3 ?E) (b_header accept_block) = Some df" "get_difficulty accept_config = Some limit"
    "uint_cmp df limit \<noteq> Greater" using accept_difficulty by blast
  have dfb: "difficulty (e_sha3 ?E) (b_header ?b) = Some df" using df(1) by (simp add: difficulty_def)
  have basic: "block_basic_check ?E (Some 10) ?b ?s = Some (Inr (), s3)"
    using df(2,3) dfb s1(1) s2(1) check
    by (simp add: block_basic_check_def cell cmul_def cadd_def)
      (simp add: recelled_def genesis_def block_default_def)
  have win: "block_info_at (txs_cache s3) 0 =
      Some (Some \<lparr>bi_hash = ?h, bi_height = 0, bi_timestamp = 7, bi_transactions = []\<rparr>)" by (simp add: cfg)
  have "transactions_diff ?E 0 ?h s3 = Some (Inr (0, {}), s3)"
    by (rule diff_on_best[OF win]) (simp_all add: cfg)
  then have txs: "check_transactions ?E ?b s3 = Some (Inr True, s3)"
    by (simp add: check_transactions_def csub_def transactions_check_def get_left_bound_def cfg cadd_def cmul_def u64_div_def body_default_def)
  have inv3: "chain_inv ?E mem_ok mem_view s3" using s3(2) cfg(6,7) by (simp add: chain_inv_def settled_def)
  have full3: "window_full s3" using full core(3) by (simp add: window_full_def core_def)
  have gb: "good_block ?E ?b" using block_hash_good(1)[OF accept_block_good accept_hash] .
  have up: "cadd (current_height s3) 1 = Some (h_height (b_header ?b))" by (simp add: cfg cadd_def)
  from accept.extend_tip[OF inv3 full3 gb cell up _ refl] obtain s4 where s4: "insert_at ?E ?b True s3 = Some s4"
    "current_height s4 = 1" "current_hash s4 = ?x" by (auto simp: cfg)
  have "chain_insert ?E (Some 10) accept_block ?s = Some (Inr (), s4\<lparr>outbox := outbox s4 @ [?x]\<rparr>)"
    using accept_hash basic txs s4(1) by (simp add: chain_insert_def)
  then show ?thesis using s4(2,3) by (simp add: get_status_def)
qed

theorem accepted_block_witness:
  "\<exists>s s'. chain_insert accept_env (Some 10) accept_block s = Some (Inr (), s') \<and> get_status s' = (1, replicate 32 1) \<and>
    (\<exists>p s1 s2. get_block_header_by_hash accept_env (replicate 32 9) s1 = Some (Some p, s2) \<and> h_timestamp (rh_header p) < 9)"
proof -
  obtain d s' where s': "chain_insert accept_env (Some 10) accept_block (accept_state d) = Some (Inr (), s')" "get_status s' = (1, replicate 32 1)"
    using accept_ready accept_inserts by blast
  from accepted_block[OF s'(1)] show ?thesis
    using s' accept_hash by (intro exI[of _ "accept_state d"] exI[of _ s']) auto
qed

end
