(* ===== verification/ChainPending.thy ===== *)
theory ChainPending
  imports ChainAccept
begin

section \<open>A block that waits twice\<close>

text \<open>
  A block that comes too early waits in \<open>future_blocks\<close>, once for each time it was received. \<open>handle_pending\<close> inserts
  the blocks whose time has come and unwraps the result: the second copy is then a duplicate.
\<close>


text \<open>A batch never forgets a header that it has.\<close>

definition keeps_headers :: "db_transaction \<Rightarrow> db_transaction \<Rightarrow> bool" where
  "keeps_headers tr tr' \<longleftrightarrow> (\<forall>st k. after_batch st tr COL_HEADERS k \<noteq> None \<longrightarrow> after_batch st tr' COL_HEADERS k \<noteq> None)"

lemma keeps_headers_refl [simp]: "keeps_headers tr tr"
  by (simp add: keeps_headers_def)

lemma keeps_headers_trans: "keeps_headers a b \<Longrightarrow> keeps_headers b c \<Longrightarrow> keeps_headers a c"
  by (simp add: keeps_headers_def)

lemma keeps_headers_put [simp]: "keeps_headers tr (tr_put c k v tr)"
  by (simp add: keeps_headers_def)

lemma keeps_headers_delete [simp]: "keeps_headers tr (tr_delete COL_EXTRA k tr)"
  by (simp add: keeps_headers_def)

lemma write_keeps_headers: "write_with_cache key enc col c k v p tr = Some (tr', c') \<Longrightarrow> keeps_headers tr tr'"
  by (auto simp: write_with_cache_def tr_write_def bind_eq_Some_conv)

lemma update_number_keeps: "update_block_number E tr bs s = Some (tr', s') \<Longrightarrow> keeps_headers tr tr'"
proof (induction bs arbitrary: tr s)
  case (Cons b bs)
  then obtain tr1 c s1 where w: "write_with_cache block_number_key (enc_hash E) COL_EXTRA (block_hashes s) (bi_height b) (bi_hash b) Overwrite tr = Some (tr1, c)"
    "update_block_number E tr1 bs s1 = Some (tr', s')" by (auto simp: bind_eq_Some_conv)
  from keeps_headers_trans[OF write_keeps_headers[OF w(1)] Cons.IH[OF w(2)]] show ?case .
qed simp

lemma delete_keeps: "delete_addresses tr hs s = (tr', s') \<Longrightarrow> keeps_headers tr tr'"
proof (induction hs arbitrary: tr s)
  case (Cons h hs)
  have "delete_addresses (tr_delete COL_EXTRA (address_key h) tr) hs
      (s\<lparr>transaction_addresses := (transaction_addresses s)(h := None)\<rparr>) = (tr', s')"
    using Cons.prems by (simp add: delete_with_cache_def tr_delete_key_def)
  from keeps_headers_trans[OF keeps_headers_delete Cons.IH[OF this]] show ?case .
qed simp

lemma write_addresses_keeps: "write_addresses E tr xs s = Some (tr', s') \<Longrightarrow> keeps_headers tr tr'"
proof (induction xs arbitrary: tr s)
  case (Cons x xs)
  obtain h a where x: "x = (h, a)" by force
  with Cons.prems obtain tr1 c s1 where w: "write_with_cache address_key (enc_address E) COL_EXTRA (transaction_addresses s) h a Overwrite tr = Some (tr1, c)"
    "write_addresses E tr1 xs s1 = Some (tr', s')" by (auto simp: bind_eq_Some_conv)
  from keeps_headers_trans[OF write_keeps_headers[OF w(1)] Cons.IH[OF w(2)]] show ?case .
qed simp

lemma update_addresses_keeps: "update_transaction_addresses E tr bs s = Some (tr', s') \<Longrightarrow> keeps_headers tr tr'"
proof -
  assume u: "update_transaction_addresses E tr bs s = Some (tr', s')"
  obtain old new s1 where c: "collect_txs E bs [] [] s = Some ((old, new), s1)"
    using u by (auto simp: update_transaction_addresses_def bind_eq_Some_conv)
  obtain tr2 s2 where d: "delete_addresses tr old s1 = (tr2, s2)" by force
  have "write_addresses E tr2 new s2 = Some (tr', s')" using u c d by (simp add: update_transaction_addresses_def)
  from keeps_headers_trans[OF delete_keeps[OF d] write_addresses_keeps[OF this]] show ?thesis .
qed

lemma verify_loop_keeps: "verify_loop E tr hs c bs s = Some (r, tr', s') \<Longrightarrow> keeps_headers tr tr'"
proof (induction hs arbitrary: tr c bs s)
  case (Cons h hs)
  obtain x hdr body s1 k where h: "header_hash (e_sha3 E) (e_bo E) (rh_header h) = Some (x, hdr)"
    and b: "get_block_body_by_hash E x s = Some (Some body, s1)"
    and k: "transactions_check (transactions body) {} c (h_height hdr) (h_height hdr) s1 = Some k"
    and r: "(case k of Inl e \<Rightarrow> Some (Inl e, tr, s1) | Inr _ \<Rightarrow>
      Option.bind (write_with_cache header_key (enc_rich E) COL_HEADERS (block_headers s1) x \<lparr>rh_header = hdr, rh_verified = True\<rparr> Overwrite tr)
        (\<lambda>(batch, hs'). verify_loop E batch hs
          (hc_push_back \<lparr>bi_hash = x, bi_height = h_height hdr, bi_timestamp = h_timestamp hdr, bi_transactions = tx_hashes_of body\<rparr>
            (hc_pop_front c))
          (bs @ [\<lparr>bi_hash = x, bi_height = h_height hdr, bi_timestamp = h_timestamp hdr, bi_transactions = tx_hashes_of body\<rparr>])
          (s1\<lparr>block_headers := hs'\<rparr>))) = Some (r, tr', s')"
    using Cons.prems by (auto simp: bind_eq_Some_conv Let_def)
  show ?case
  proof (cases k)
    case (Inr u)
    with r obtain tr1 hs' c2 bs2 s2 where w: "write_with_cache header_key (enc_rich E) COL_HEADERS (block_headers s1) x
        \<lparr>rh_header = hdr, rh_verified = True\<rparr> Overwrite tr = Some (tr1, hs')" "verify_loop E tr1 hs c2 bs2 s2 = Some (r, tr', s')"
      by (auto simp: bind_eq_Some_conv)
    from keeps_headers_trans[OF write_keeps_headers[OF w(1)] Cons.IH[OF w(2)]] show ?thesis .
  qed (use r in auto)
qed auto

lemma switch_keeps: "switch_long_fork E tr header s = Some (r, tr', s') \<Longrightarrow> keeps_headers tr tr'"
proof -
  assume a: "switch_long_fork E tr header s = Some (r, tr', s')"
  obtain hs c bs s3 r' tr1 s4 where v: "verify_loop E tr hs c bs s3 = Some (r', tr1, s4)"
    and rest: "(case r' of
         Inl e \<Rightarrow> Some (Inl e, tr1, s4)
       | Inr (cache, fork_blocks) \<Rightarrow>
           Option.bind (update_transaction_addresses E tr1 fork_blocks s4) (\<lambda>(batch, s).
           Option.bind (update_block_number E batch fork_blocks s) (\<lambda>(batch, s).
           Option.bind (print_chain E (h_height (rh_header header)) (s\<lparr>txs_cache := cache\<rparr>)) (\<lambda>s.
             Some (Inr (), batch, s))))) = Some (r, tr', s')"
    using a by (auto simp: switch_long_fork_def bind_eq_Some_conv Let_def)
  show ?thesis
  proof (cases r')
    case (Inl e)
    then show ?thesis using rest verify_loop_keeps[OF v] by simp
  next
    case (Inr cb)
    obtain c bs where cb: "cb = (c, bs)" by force
    obtain tr2 s5 s6 where u: "update_transaction_addresses E tr1 bs s4 = Some (tr2, s5)" "update_block_number E tr2 bs s5 = Some (tr', s6)"
      using rest Inr cb by (auto simp: bind_eq_Some_conv)
    from keeps_headers_trans[OF keeps_headers_trans[OF verify_loop_keeps[OF v] update_addresses_keeps[OF u(1)]] update_number_keeps[OF u(2)]]
    show ?thesis .
  qed
qed

lemma adjust_keeps: "adjust_block_hashes E tr header s = Some (ok, tr', s') \<Longrightarrow> keeps_headers tr tr'"
proof (cases "rh_verified header")
  case False
  assume "adjust_block_hashes E tr header s = Some (ok, tr', s')"
  with False obtain r where "switch_long_fork E tr header s = Some (r, tr', s')"
    by (auto simp: adjust_block_hashes_def bind_eq_Some_conv)
  then show ?thesis by (rule switch_keeps)
next
  case True
  assume "adjust_block_hashes E tr header s = Some (ok, tr', s')"
  with True obtain bs s2 tr1 s3 s4 where u: "update_transaction_addresses E tr bs s2 = Some (tr1, s3)" "update_block_number E tr1 bs s3 = Some (tr', s4)"
    by (auto simp: adjust_block_hashes_def bind_eq_Some_conv Let_def simp del: update_block_number.simps)
  from keeps_headers_trans[OF update_addresses_keeps[OF u(1)] update_number_keeps[OF u(2)]] show ?thesis .
qed

context chain_store
begin

lemma inserted_known:
  assumes "chain_inv E dinv view s" and "good_block E b" and hb: "block_hash (e_sha3 E) (e_bo E) b = Some (x, b')"
    and "insert_at E b v s = Some s'"
  shows "v_header E (view (c_db s')) s' x \<noteq> None"
proof -
  have settled: "settled E dinv view s" using assms(1) by (simp add: chain_inv_def)
  obtain e batch2 hs bs batch3 s3 d where k: "after_batch (view (c_db s)) batch2 COL_HEADERS (header_key x) = Some e"
    "(batch3 = batch2 \<and> s3 = s\<lparr>block_headers := hs, block_bodies := bs\<rparr>) \<or>
      (\<exists>ok batch s2. adjust_block_hashes E batch2 \<lparr>rh_header = b_header b', rh_verified = v\<rparr> (s\<lparr>block_headers := hs, block_bodies := bs\<rparr>) =
          Some (ok, batch, s2) \<and>
        (if ok then save_status batch (h_height (b_header b')) x s2 else (batch, s2)) = (batch3, s3))"
    "e_write E batch3 (c_db s3) = Some (Inr (), d)" "s' = s3\<lparr>c_db := d\<rparr>" "pend E dinv view batch3 s3"
    "\<exists>t n h. core s3 = core (s\<lparr>txs_cache := t, current_height := n, current_hash := h\<rparr>)"
    by (rule insert_at_steps[OF settled assms(2,4) hb], rule that, assumption+)
  have "keeps_headers batch2 batch3"
    using k(2) keeps_headers_trans[OF adjust_keeps keeps_headers_put]
    by (auto simp: save_status_def split: if_splits dest: adjust_keeps)
  then have "after_batch (view (c_db s)) batch3 COL_HEADERS (header_key x) \<noteq> None" using k(1) by (simp add: keeps_headers_def)
  moreover have "c_db s3 = c_db s" using k(6) by (auto simp: core_def)
  moreover have "view d = after_batch (view (c_db s3)) batch3"
    using write_ok[of "c_db s3" batch3] k(3,5) by (auto simp: pend_def chain_ok_def after_batch_def)
  ultimately have "view (c_db s') COL_HEADERS (header_key x) \<noteq> None" by (simp add: k(4))
  moreover have "settled E dinv view s'" using insert_at_settled(1)[OF settled assms(2,4)] .
  ultimately show ?thesis
    using header_table.view_None[of E "block_headers s'" "view (c_db s')" x]
    by (simp add: settled_def chain_ok_def tables_ok_def v_header_def)
qed

lemma duplicate_refused:
  assumes "chain_inv E dinv view s" and "block_hash (e_sha3 E) (e_bo E) b = Some (x, b')"
    and "v_header E (view (c_db s)) s x \<noteq> None" and "chain_insert E now b s = Some (r, s')"
  shows "isl r"
proof (rule ccontr)
  assume "\<not> isl r"
  then have "r = Inr ()" by (cases r) auto
  with assms(4) have "chain_insert E now b s = Some (Inr (), s')" by simp
  from accepted[OF this] assms(2) obtain s1 where "get_block_header_by_hash E x s = Some (None, s1)" by auto
  with header_yields[of "view (c_db s)" s x] assms(1,3) show False
    by (auto simp: chain_inv_def settled_def yields_def)
qed

lemma insert_known:
  assumes "chain_inv E dinv view s" and g: "good_block E b" and ins: "chain_insert E now b s = Some (Inr (), s1)"
    and hb: "block_hash (e_sha3 E) (e_bo E) b = Some (x, b')"
  shows "v_header E (view (c_db s1)) s1 x \<noteq> None"
proof -
  have g': "good_block E b'" by (rule block_hash_good(1)[OF g hb])
  obtain r s2 where c: "block_basic_check E now b' s = Some (r, s2)" using ins hb by (auto simp: chain_insert_def bind_eq_Some_conv)
  have r: "r = Inr ()" using ins hb c by (cases r) (auto simp: chain_insert_def)
  obtain t s3 where ct: "check_transactions E b' s2 = Some (t, s3)" using ins hb c r by (auto simp: chain_insert_def bind_eq_Some_conv)
  obtain v where t: "t = Inr v" using ins hb c r ct by (cases t) (auto simp: chain_insert_def)
  obtain s4 where i: "insert_at E b' v s3 = Some s4" and s1: "s1 = s4\<lparr>outbox := outbox s4 @ [x]\<rparr>"
    using ins hb c r ct t by (auto simp: chain_insert_def bind_eq_Some_conv)
  have i2: "chain_inv E dinv view s2" by (rule keepsD[OF basic_check_keeps[OF assms(1) g'] c])
  have i3: "chain_inv E dinv view s3"
    by (rule keepsD[OF reads_keeps[where r = "check_transactions E b'", OF i2 check_transactions_reads[OF _ g']] ct])
  have cell: "block_hash (e_sha3 E) (e_bo E) b' = Some (x, b')"
    using hb by (auto simp: block_hash_def header_hash_def bind_eq_Some_conv split: option.splits)
  from inserted_known[OF i3 g' cell i] show ?thesis by (simp add: s1 v_header_def)
qed

lemma twice_pending:
  assumes "chain_inv E dinv view s" and "good_block E b" and "h_timestamp (b_header b) \<le> now"
  shows "pending_loop E now seen (b # b # bs) s = None"
proof (cases "chain_insert E (seen b) b s")
  case (Some p)
  obtain r s1 where p: "p = (r, s1)" by force
  show ?thesis
  proof (cases r)
    case (Inl e)
    then show ?thesis using Some p assms(3) by simp
  next
    case (Inr u)
    have ins: "chain_insert E (seen b) b s = Some (Inr (), s1)" using Some p Inr by simp
    have i1: "chain_inv E dinv view s1" by (rule keepsD[OF chain_insert_keeps[OF assms(1,2)] ins])
    obtain x b' where hb: "block_hash (e_sha3 E) (e_bo E) b = Some (x, b')" using ins by (auto simp: chain_insert_def bind_eq_Some_conv)
    have known: "v_header E (view (c_db s1)) s1 x \<noteq> None" by (rule insert_known[OF assms(1,2) ins hb])
    show ?thesis
    proof (cases "chain_insert E (seen b) b s1")
      case None
      then show ?thesis using ins assms(3) by simp
    next
      case Some': (Some q)
      obtain r2 s2 where q: "q = (r2, s2)" by force
      have "isl r2" using duplicate_refused[OF i1 hb known, of "seen b" r2 s2] Some' q by simp
      then obtain e where "r2 = Inl e" by (cases r2) auto
      then show ?thesis using ins Some' q assms(3) by simp
    qed
  qed
qed (use assms(3) in simp)

end

text \<open>
  C17. A block that waits twice stops the node. \<open>block_basic_check\<close> pushes a block that comes too early without looking
  whether it waits already, so a block sent twice is twice in \<open>future_blocks\<close>. When its time has come
  \<open>handle_pending\<close> panics, whatever else waits and whatever the time servers answer to the checks: the first copy is refused, or it is stored and the second
  copy is refused as a duplicate, and the error is unwrapped.
\<close>

theorem twice_pending_panics:
  assumes "chain_store E dinv view" and "chain_inv E dinv view s" and "future_blocks s = b # b # bs"
    and "h_timestamp (b_header b) \<le> now"
  shows "handle_pending E (Some now) seen s = None"
proof -
  have "good_block E b" using assms(2,3) by (simp add: chain_inv_def waiting_ok_def)
  from chain_store.twice_pending[OF assms(1,2) this assms(4)] show ?thesis by (simp add: handle_pending_def assms(3) del: pending_loop.simps)
qed

theorem twice_pending_panics_witness:
  "\<exists>s. chain_inv accept_env mem_ok mem_view s \<and> future_blocks s = [accept_block, accept_block] \<and>
    handle_pending accept_env (Some 10) (\<lambda>_. Some 10) s = None"
proof -
  obtain d where d: "chain_inv accept_env mem_ok mem_view (accept_state d)" using accept_ready by blast
  let ?s = "accept_state d\<lparr>future_blocks := [accept_block, accept_block]\<rparr>"
  have inv: "chain_inv accept_env mem_ok mem_view ?s"
    using d accept_block_good by (simp add: chain_inv_def settled_def chain_ok_def tables_ok_def waiting_ok_def)
  from twice_pending_panics[OF accept.chain_store_axioms inv, of accept_block "[]" 10 "\<lambda>_. Some 10"] inv show ?thesis
    by (intro exI[of _ ?s]) simp
qed

end
