(* ===== verification/ChainForge.thy ===== *)
theory ChainForge
  imports ChainPending
begin

section \<open>What the hash of a block does not bind\<close>

text \<open>
  A block is sent with the hash in its cell, and the receiver takes it from there. The cell of a block made by \<open>sign\<close> is
  filled, so \<open>insert\<close> never computes the hash of what it has received.
\<close>

text \<open>Two headers that the checks cannot tell apart.\<close>

definition same_claims :: "header \<Rightarrow> header \<Rightarrow> bool" where
  "same_claims h h' \<longleftrightarrow> h_hash h = h_hash h' \<and> h_hash h \<noteq> None \<and> parent_hash h = parent_hash h' \<and> h_timestamp h = h_timestamp h' \<and>
     h_height h = h_height h' \<and> h_proof h = h_proof h'"

lemma claimed_hash:
  "h_hash (b_header b) = Some x \<Longrightarrow> block_hash sha3 bo b = Some (x, b)"
  by (simp add: block_hash_def header_hash_def)

lemma claims_cells: "same_claims h h' \<Longrightarrow> \<exists>x. h_hash h = Some x \<and> h_hash h' = Some x"
  by (cases "h_hash h'") (auto simp: same_claims_def)

lemma claims_check_proof:
  assumes "same_claims (b_header b) (b_header b')"
  shows "check_proof E b s = check_proof E b' s"
proof -
  obtain x where x: "h_hash (b_header b) = Some x" "h_hash (b_header b') = Some x" using claims_cells[OF assms] by blast
  have f: "h_height (b_header b) = h_height (b_header b')" "parent_hash (b_header b) = parent_hash (b_header b')"
    using assms by (simp_all add: same_claims_def)
  have sp: "sign_public (e_sha3 E) (e_bo E) (e_secp E) b = sign_public (e_sha3 E) (e_bo E) (e_secp E) b'"
    using assms by (simp add: sign_public_def claimed_hash[OF x(1)] claimed_hash[OF x(2)] same_claims_def)
  have vp: "verify_proof sha3 P (b_header b) = verify_proof sha3 P (b_header b')" for sha3 P
    using assms by (simp add: fun_eq_iff verify_proof_def same_claims_def)
  show ?thesis unfolding check_proof_def f sp vp ..
qed

lemma claims_basic_check:
  assumes "same_claims (b_header b) (b_header b')" and "block_basic_check E now b s = Some (Inr (), s')"
  shows "block_basic_check E now b' s = Some (Inr (), s')"
proof -
  obtain x where x: "h_hash (b_header b) = Some x" "h_hash (b_header b') = Some x" using claims_cells[OF assms(1)] by blast
  have d: "difficulty sha3 (b_header b) = difficulty sha3 (b_header b')" for sha3
    using assms(1) by (simp add: difficulty_def same_claims_def)
  have f: "parent_hash (b_header b) = parent_hash (b_header b')" "h_timestamp (b_header b) = h_timestamp (b_header b')"
    using assms(1) by (simp_all add: same_claims_def)
  show ?thesis
    using assms(2)
    by (auto simp: block_basic_check_def claimed_hash[OF x(1)] claimed_hash[OF x(2)] d f claims_check_proof[OF assms(1)]
      bind_eq_Some_conv Let_def split: if_splits option.splits)
qed

lemma empty_passes:
  assumes "check_transactions E b s = Some (Inr v, s')" and "same_claims (b_header b) (b_header b')" and "b_body b' = body_default"
  shows "check_transactions E b' s = Some (Inr v, s')"
proof -
  have f: "h_height (b_header b) = h_height (b_header b')" "parent_hash (b_header b) = parent_hash (b_header b')"
    using assms(2) by (simp_all add: same_claims_def)
  obtain below r s1 where d: "csub (h_height (b_header b')) 1 = Some below" "transactions_diff E below (parent_hash (b_header b')) s = Some (r, s1)"
    and c: "(case r of
       Inl _ \<Rightarrow> Some (Inr False, s1)
     | Inr (height, txs_set) \<Rightarrow> do {
         c \<leftarrow> transactions_check (transactions (b_body b)) txs_set (txs_cache s1) (h_height (b_header b')) height s1;
         Some (case c of Inl e \<Rightarrow> Inl e | Inr _ \<Rightarrow> Inr True, s1) }) = Some (Inr v, s')"
    using assms(1)[unfolded check_transactions_def f] by (auto simp: bind_eq_Some_conv)
  show ?thesis
  proof (cases r)
    case (Inl e)
    then show ?thesis using c d by (simp add: check_transactions_def)
  next
    case (Inr p)
    obtain height txs_set where p: "p = (height, txs_set)" by force
    obtain k where k: "transactions_check (transactions (b_body b)) txs_set (txs_cache s1) (h_height (b_header b')) height s1 = Some k"
      and v: "(case k of Inl e \<Rightarrow> Inl e | Inr _ \<Rightarrow> Inr True) = Inr v" and s1: "s1 = s'"
      using c Inr p by (auto simp: bind_eq_Some_conv)
    have "transactions_check [] txs_set (txs_cache s1) (h_height (b_header b')) height s1 = Some (Inr ())"
      using k by (auto simp: transactions_check_def bind_eq_Some_conv)
    moreover have "v" using v by (cases k) auto
    ultimately show ?thesis using d Inr p s1 by (simp add: check_transactions_def assms(3) body_default_def)
  qed
qed

context chain_store
begin

lemma tip_info:
  assumes "window_full s"
  shows "\<exists>i. block_info_at (txs_cache s) (current_height s) = Some (Some i) \<and> bi_hash i = current_hash s"
proof -
  have ne: "hc_queue (txs_cache s) \<noteq> []" using assms by (auto simp: window_full_def)
  have b: "bi_height (last (hc_queue (txs_cache s))) = current_height s" "bi_hash (last (hc_queue (txs_cache s))) = current_hash s"
    using assms by (simp_all add: window_full_def)
  from info_at_window[OF ne b(1) order_refl] ne b(2) show ?thesis by (simp add: last_conv_nth)
qed

lemma basic_check_core:
  assumes inv: "chain_inv E dinv view s" and good: "good_block E b" and hb: "block_hash (e_sha3 E) (e_bo E) b = Some (x, b)"
    and "block_basic_check E now b s = Some (Inr (), s')"
  shows "core s' = core s"
proof -
  obtain known s1 parent s2 where k: "get_block_header_by_hash E x s = Some (known, s1)"
    "get_block_header_by_hash E (parent_hash (b_header b)) s1 = Some (parent, s2)" "check_proof E b s2 = Some (Inr (), s')"
    using assms(4) by (auto simp: block_basic_check_def hb bind_eq_Some_conv Let_def split: if_splits option.splits)
  have 1: "chain_inv E dinv view s1" "core s1 = core s"
    using inv_reads[where r = "get_block_header_by_hash E x", OF inv header_reads k(1)] by auto
  have 2: "chain_inv E dinv view s2" "core s2 = core s1"
    using inv_reads[where r = "get_block_header_by_hash E (parent_hash (b_header b))", OF 1(1) header_reads k(2)] by auto
  show ?thesis using inv_reads[where r = "check_proof E b", OF 2(1) check_proof_reads[OF _ good] k(3)] 1(2) 2(2) by simp
qed

lemma forged:
  assumes inv: "chain_inv E dinv view s" and full: "window_full s"
    and ins: "chain_insert E now b s = Some (Inr (), s1)" and same: "same_claims (b_header b) (b_header b')"
    and empty: "b_body b' = body_default" and good: "good_block E b" "good_block E b'"
    and tip: "parent_hash (b_header b) = current_hash s" "cadd (current_height s) 1 = Some (h_height (b_header b))"
    and buffer: "0 < unat (buffer_size (c_config s))" "unat (current_height s) + unat (buffer_size (c_config s)) < 2 ^ 64"
  shows "\<exists>s2 x. chain_insert E now b' s = Some (Inr (), s2) \<and> h_hash (b_header b) = Some x \<and> get_status s2 = get_status s1 \<and>
    get_status s2 = (h_height (b_header b), x) \<and>
    v_header E (view (c_db s1)) s1 x = Some \<lparr>rh_header = b_header b, rh_verified = True\<rparr> \<and> v_body (view (c_db s1)) s1 x = Some (b_body b) \<and>
    v_header E (view (c_db s2)) s2 x = Some \<lparr>rh_header = b_header b', rh_verified = True\<rparr> \<and> v_body (view (c_db s2)) s2 x = Some body_default"
proof -
  obtain x where x: "h_hash (b_header b) = Some x" "h_hash (b_header b') = Some x" using claims_cells[OF same] by blast
  note hb = claimed_hash[OF x(1)] and hb' = claimed_hash[OF x(2)]
  have f: "h_height (b_header b') = h_height (b_header b)" "parent_hash (b_header b') = parent_hash (b_header b)"
    using same by (simp_all add: same_claims_def)
  obtain r s3 where bc: "block_basic_check E now b s = Some (r, s3)" using ins by (auto simp: chain_insert_def hb bind_eq_Some_conv)
  have r: "r = Inr ()" using ins bc by (cases r) (auto simp: chain_insert_def hb)
  obtain c s4 where ct: "check_transactions E b s3 = Some (c, s4)" using ins bc r by (auto simp: chain_insert_def hb bind_eq_Some_conv)
  obtain v where c: "c = Inr v" using ins bc r ct by (cases c) (auto simp: chain_insert_def hb)
  obtain s5 where i: "insert_at E b v s4 = Some s5" "s1 = s5\<lparr>outbox := outbox s5 @ [x]\<rparr>"
    using ins bc r ct c by (auto simp: chain_insert_def hb bind_eq_Some_conv)
  have inv3: "chain_inv E dinv view s3" by (rule keepsD[OF basic_check_keeps[OF inv good(1)] bc])
  have inv4: "chain_inv E dinv view s4" and core4: "core s4 = core s3"
    using inv_reads[where r = "check_transactions E b", OF inv3 check_transactions_reads[OF _ good(1)] ct] by auto
  have core3: "txs_cache s3 = txs_cache s" "current_height s3 = current_height s" "current_hash s3 = current_hash s" "c_config s3 = c_config s"
    using basic_check_core[OF inv good(1) hb bc[unfolded r]] by (simp_all add: core_def)
  have full4: "window_full s4" using full core3 core4 by (simp add: window_full_def core_def)
  obtain i0 where i0: "block_info_at (txs_cache s) (current_height s) = Some (Some i0)" "bi_hash i0 = current_hash s" using tip_info[OF full] by blast
  have "transactions_diff E (current_height s) (current_hash s) s3 = Some (Inr (current_height s, {}), s3)"
    by (rule diff_on_best[of _ _ i0]) (use i0 buffer core3 in \<open>auto simp: word_le_nat_alt unat_word_ariths\<close>)
  then obtain k where "(case k of Inl e \<Rightarrow> Inl e | Inr (_ :: unit) \<Rightarrow> Inr True) = c"
    using ct csub_cadd[OF tip(2)] tip(1) by (auto simp: check_transactions_def bind_eq_Some_conv)
  then have v: "v" using c by (cases k) auto
  have up4: "cadd (current_height s4) 1 = Some (h_height (b_header b))" "cadd (current_height s4) 1 = Some (h_height (b_header b'))"
    using tip(2) f core3 core4 by (simp_all add: core_def)
  have par: "parent_hash (b_header b) = current_hash s4" "parent_hash (b_header b') = current_hash s4"
    using tip(1) f core3 core4 by (simp_all add: core_def)
  have e1: "current_height s5 = h_height (b_header b)" "current_hash s5 = x"
    "block_headers s5 = (block_headers s4)(x \<mapsto> \<lparr>rh_header = b_header b, rh_verified = True\<rparr>)" "block_bodies s5 = (block_bodies s4)(x \<mapsto> b_body b)"
    using extend_tip[OF inv4 full4 good(1) hb up4(1) par(1) refl] i(1) v by auto
  obtain s6 where i': "insert_at E b' True s4 = Some s6" and e2: "current_height s6 = h_height (b_header b')" "current_hash s6 = x"
    "block_headers s6 = (block_headers s4)(x \<mapsto> \<lparr>rh_header = b_header b', rh_verified = True\<rparr>)" "block_bodies s6 = (block_bodies s4)(x \<mapsto> b_body b')"
    using extend_tip[OF inv4 full4 good(2) hb' up4(2) par(2) refl] by auto
  have "chain_insert E now b' s = Some (Inr (), s6\<lparr>outbox := outbox s6 @ [x]\<rparr>)"
    using claims_basic_check[OF same bc[unfolded r]] empty_passes[OF ct[unfolded c] same empty] i' v by (simp add: chain_insert_def hb')
  then show ?thesis
    using x(1) i(2) e1 e2 f empty
    by (intro exI[of _ "s6\<lparr>outbox := outbox s6 @ [x]\<rparr>"] exI[of _ x]) (simp add: get_status_def v_header_def v_body_def table_view_def)
qed

end

text \<open>
  C3. The hash and the signature of a block bind neither its transactions nor its roots. If a block with its hash in the
  cell is accepted on the tip of a full window, then so is, in the same state, any block that claims the same hash with the same parent,
  time, height and proof but with other roots and without the transactions: both nodes report the same tip, and store different blocks
  under it. Whoever relays a block can strip it.
\<close>

theorem stripped_block_accepted:
  assumes "chain_store E dinv view" and "chain_inv E dinv view s" and "window_full s"
    and "chain_insert E now b s = Some (Inr (), s1)" and "same_claims (b_header b) (b_header b')"
    and "b_body b' = body_default" and "good_block E b" and "good_block E b'"
    and "parent_hash (b_header b) = current_hash s" and "cadd (current_height s) 1 = Some (h_height (b_header b))"
    and "0 < unat (buffer_size (c_config s))" and "unat (current_height s) + unat (buffer_size (c_config s)) < 2 ^ 64"
  shows "\<exists>s2 x. chain_insert E now b' s = Some (Inr (), s2) \<and> h_hash (b_header b) = Some x \<and> get_status s2 = get_status s1 \<and>
    get_status s2 = (h_height (b_header b), x) \<and>
    v_header E (view (c_db s1)) s1 x = Some \<lparr>rh_header = b_header b, rh_verified = True\<rparr> \<and> v_body (view (c_db s1)) s1 x = Some (b_body b) \<and>
    v_header E (view (c_db s2)) s2 x = Some \<lparr>rh_header = b_header b', rh_verified = True\<rparr> \<and> v_body (view (c_db s2)) s2 x = Some body_default"
  by (rule chain_store.forged[OF assms])

theorem stripped_block_accepted_witness:
  "\<exists>s b b' s1 s2. chain_insert accept_env (Some 10) b s = Some (Inr (), s1) \<and> h_state_root (b_header b') \<noteq> h_state_root (b_header b) \<and>
    chain_insert accept_env (Some 10) b' s = Some (Inr (), s2) \<and> get_status s1 = (1, replicate 32 1) \<and> get_status s2 = get_status s1"
proof -
  let ?b = "accept_block\<lparr>b_header := (b_header accept_block)\<lparr>h_hash := Some (replicate 32 1)\<rparr>\<rparr>"
  let ?b' = "?b\<lparr>b_header := (b_header ?b)\<lparr>h_state_root := replicate 32 5\<rparr>\<rparr>"
  obtain d s1 where d: "chain_inv accept_env mem_ok mem_view (accept_state d)" "window_full (accept_state d)"
    and s1: "chain_insert accept_env (Some 10) accept_block (accept_state d) = Some (Inr (), s1)" "get_status s1 = (1, replicate 32 1)"
    using accept_ready accept_inserts by blast
  have cell: "block_hash (e_sha3 accept_env) (e_bo accept_env) ?b = Some (replicate 32 1, ?b)" by (rule claimed_hash) simp
  have ins: "chain_insert accept_env (Some 10) ?b (accept_state d) = Some (Inr (), s1)"
    using s1(1) accept_hash cell by (simp add: chain_insert_def)
  have good: "good_block accept_env ?b" by (rule block_hash_good(1)[OF accept_block_good accept_hash])
  have "wf_rich accept_env \<lparr>rh_header = b_header ?b', rh_verified = True\<rparr>"
    by (intro header_wf_rich[OF accept.sha3_law accept.bo_law]) (simp_all, simp_all add: accept_block_def sample_one_def block_init_def Let_def)
  then have good': "good_block accept_env ?b'" using good by (simp add: good_block_def)
  have "\<exists>s2 x. chain_insert accept_env (Some 10) ?b' (accept_state d) = Some (Inr (), s2) \<and> h_hash (b_header ?b) = Some x \<and>
    get_status s2 = get_status s1"
    using stripped_block_accepted[OF accept.chain_store_axioms d ins _ _ good good'] by (auto simp: same_claims_def cadd_def)
  moreover have "h_state_root (b_header accept_block) = SHA3_NULL_RLP" by (simp add: accept_block_def sample_one_def block_init_def Let_def)
  then have "hd (h_state_root (b_header ?b')) \<noteq> hd (h_state_root (b_header ?b))" by (simp add: SHA3_NULL_RLP_def hd_replicate)
  then have "h_state_root (b_header ?b') \<noteq> h_state_root (b_header ?b)" by metis
  ultimately show ?thesis using ins s1(2) by blast
qed

end
