(* ===== verification/TxPool.thy ===== *)
theory TxPool
  imports ChainTypes Containers
begin

section \<open>The pool of transactions\<close>

text \<open>
  The crate \<open>tx_pool\<close>. The filter rests on the crate \<open>lru_cache\<close>, whose operations are the record \<open>lru\<close>; the
  documented behaviour that is used is \<open>lru_ok\<close>. The \<open>BTreeSet\<close> of orders is its ascending list, compared by
  the order number alone as \<open>Ord for TxOrder\<close> does; the \<open>HashMap\<close> is an association list. \<open>None\<close> is a panic.
\<close>

subsection \<open>Definitions\<close>

record 'l lru =
  lru_new :: "nat \<Rightarrow> 'l"
  lru_contains :: "hash \<Rightarrow> 'l \<Rightarrow> bool"
  lru_insert :: "hash \<Rightarrow> u32 \<Rightarrow> 'l \<Rightarrow> 'l"

definition filter_new :: "'l lru \<Rightarrow> nat \<Rightarrow> 'l" where
  "filter_new L capacity = lru_new L capacity"

definition filter_check :: "'l lru \<Rightarrow> hash \<Rightarrow> 'l \<Rightarrow> bool \<times> 'l" where
  "filter_check L h f =
     (let is_ok = \<not> lru_contains L h f in (is_ok, if is_ok then lru_insert L h 0 f else f))"

datatype strategy = FIFO | PRIORITY | VIP

record tx_order =
  to_hash :: hash
  to_order :: u64

definition tx_order_new :: "hash \<Rightarrow> u64 \<Rightarrow> tx_order" where
  "tx_order_new h n = \<lparr>to_hash = h, to_order = n\<rparr>"

definition tx_order_cmp :: "tx_order \<Rightarrow> tx_order \<Rightarrow> ordering" where
  "tx_order_cmp a b = (if to_order a < to_order b then Less else if to_order a = to_order b then Equal else Greater)"

text \<open>\<open>BTreeSet::insert\<close> leaves the set alone when an equal element is in it.\<close>

fun os_insert :: "tx_order \<Rightarrow> tx_order list \<Rightarrow> tx_order list" where
  "os_insert x [] = [x]"
| "os_insert x (y # ys) =
     (case tx_order_cmp x y of Less \<Rightarrow> x # y # ys | Equal \<Rightarrow> y # ys | Greater \<Rightarrow> y # os_insert x ys)"

definition os_collect :: "tx_order list \<Rightarrow> tx_order list" where
  "os_collect xs = foldl (\<lambda>s x. os_insert x s) [] xs"

record 'l pool =
  package_limit :: nat
  p_filter :: 'l
  order_set :: "tx_order list"
  p_txs :: "(hash \<times> signed_transaction) list"
  p_strategy :: strategy
  p_order :: u64

definition pool_new_with_strategy :: "'l lru \<Rightarrow> nat \<Rightarrow> nat \<Rightarrow> strategy \<Rightarrow> 'l pool" where
  "pool_new_with_strategy L capacity limit st =
     \<lparr>package_limit = limit, p_filter = filter_new L capacity, order_set = [], p_txs = [], p_strategy = st, p_order = 0\<rparr>"

definition pool_new :: "'l lru \<Rightarrow> nat \<Rightarrow> nat \<Rightarrow> 'l pool" where
  "pool_new L capacity limit =
     \<lparr>package_limit = limit, p_filter = filter_new L capacity, order_set = [], p_txs = [], p_strategy = FIFO, p_order = 0\<rparr>"

definition get_order :: "'l pool \<Rightarrow> u64 \<times> 'l pool" where
  "get_order p = (p_order p, p\<lparr>p_order := p_order p + 1\<rparr>)"

definition get_order_by_priority :: "signed_transaction \<Rightarrow> 'l pool \<Rightarrow> u64 \<times> 'l pool" where
  "get_order_by_priority tx p = get_order p"

definition get_order_by_vip :: "signed_transaction \<Rightarrow> 'l pool \<Rightarrow> u64 \<times> 'l pool" where
  "get_order_by_vip tx p = get_order p"

definition enqueue :: "'l lru \<Rightarrow> signed_transaction \<Rightarrow> hash \<Rightarrow> 'l pool \<Rightarrow> bool \<times> 'l pool" where
  "enqueue L tx h p =
     (let (is_ok, f) = filter_check L h (p_filter p); p = p\<lparr>p_filter := f\<rparr> in
      if is_ok then
        (let (n, p) = (case p_strategy p of
             FIFO \<Rightarrow> get_order p
           | PRIORITY \<Rightarrow> get_order_by_priority tx p
           | VIP \<Rightarrow> get_order_by_vip tx p) in
         (True, p\<lparr>order_set := os_insert (tx_order_new h n) (order_set p), p_txs := hm_insert h tx (p_txs p)\<rparr>))
      else (False, p))"

definition update_order_set :: "hash list \<Rightarrow> 'l pool \<Rightarrow> 'l pool" where
  "update_order_set hs p = p\<lparr>order_set := os_collect (filter (\<lambda>x. to_hash x \<notin> set hs) (order_set p))\<rparr>"

definition pool_update :: "hash list \<Rightarrow> 'l pool \<Rightarrow> 'l pool" where
  "pool_update hs p = update_order_set hs (p\<lparr>p_txs := foldl (\<lambda>m h. hm_remove h m) (p_txs p) hs\<rparr>)"

fun package_loop ::
    "nat \<Rightarrow> tx_order list \<Rightarrow> (hash \<times> signed_transaction) list \<Rightarrow> signed_transaction list \<Rightarrow> hash list \<Rightarrow>
      (signed_transaction list \<times> hash list) option" where
  "package_loop n [] m txs hs = Some (txs, hs)"
| "package_loop n (x # xs) m txs hs =
     (case hm_get m (to_hash x) of
        None \<Rightarrow> None
      | Some tx \<Rightarrow> do {
          n \<leftarrow> (if n = 0 then None else Some (n - 1));
          if n = 0 then Some (txs @ [tx], hs @ [to_hash x])
          else package_loop n xs m (txs @ [tx]) (hs @ [to_hash x]) })"

definition pool_package :: "'l pool \<Rightarrow> (signed_transaction list \<times> hash list) option" where
  "pool_package p = package_loop (package_limit p) (order_set p) (p_txs p) [] []"

definition pool_len :: "'l pool \<Rightarrow> nat" where
  "pool_len p = length (p_txs p)"

subsection \<open>The queue behind the pool\<close>

text \<open>What a client sees: the waiting transactions with their hashes in the order of their arrival.\<close>

type_synonym queue = "(hash \<times> signed_transaction) list"

definition q_enqueue :: "hash \<Rightarrow> signed_transaction \<Rightarrow> queue \<Rightarrow> queue" where
  "q_enqueue h tx q = map (\<lambda>(k, v). (k, if k = h then tx else v)) q @ [(h, tx)]"

definition q_update :: "hash list \<Rightarrow> queue \<Rightarrow> queue" where
  "q_update hs q = filter (\<lambda>(k, _). k \<notin> set hs) q"

definition pool_queue :: "'l pool \<Rightarrow> queue" where
  "pool_queue p = map (\<lambda>x. (to_hash x, the (hm_get (p_txs p) (to_hash x)))) (order_set p)"

definition pool_inv :: "'l pool \<Rightarrow> bool" where
  "pool_inv p \<longleftrightarrow> sorted_wrt (<) (map to_order (order_set p)) \<and> hm_ok (p_txs p) \<and>
     (\<forall>x \<in> set (order_set p). hm_get (p_txs p) (to_hash x) \<noteq> None)"

text \<open>The numbers that were given out lie below the next one; that holds until \<open>2 ^ 64\<close> transactions have come.\<close>

definition pool_fresh :: "'l pool \<Rightarrow> bool" where
  "pool_fresh p \<longleftrightarrow> (\<forall>x \<in> set (order_set p). to_order x < p_order p)"

lemma set_os_insert: "set (os_insert x xs) \<subseteq> insert x (set xs)"
  by (induction x xs rule: os_insert.induct) (auto split: ordering.splits)

lemma sorted_os_insert: "sorted_wrt (<) (map to_order xs) \<Longrightarrow> sorted_wrt (<) (map to_order (os_insert x xs))"
proof (induction x xs rule: os_insert.induct)
  case (2 x y ys)
  have "\<forall>z \<in> set (os_insert x ys). to_order y < to_order z" if "to_order y < to_order x"
    using set_os_insert[of x ys] 2(2) that by auto
  then show ?case using 2 by (auto simp: tx_order_cmp_def intro: order.strict_trans)
qed simp

lemma os_insert_last: "\<forall>y \<in> set xs. to_order y < to_order x \<Longrightarrow> os_insert x xs = xs @ [x]"
  by (induction x xs rule: os_insert.induct) (auto simp: tx_order_cmp_def)

lemma os_collect_sorted: "sorted_wrt (<) (map to_order xs) \<Longrightarrow> os_collect xs = xs"
proof (induction xs rule: rev_induct)
  case (snoc x xs)
  then have "os_collect xs = xs" "\<forall>y \<in> set xs. to_order y < to_order x" by (auto simp: sorted_wrt_append)
  then show ?case by (simp add: os_collect_def os_insert_last)
qed (simp add: os_collect_def)

lemma sorted_filter_orders: "sorted_wrt (<) (map to_order xs) \<Longrightarrow> sorted_wrt (<) (map to_order (filter P xs))"
  by (induction xs) auto

lemma hm_get_remove_all: "hm_get (foldl (\<lambda>m h. hm_remove h m) m hs) k = (if k \<in> set hs then None else hm_get m k)"
  by (induction hs arbitrary: m) auto

lemma hm_ok_remove_all: "hm_ok m \<Longrightarrow> hm_ok (foldl (\<lambda>m h. hm_remove h m) m hs)"
  by (induction hs arbitrary: m) auto

lemma enqueue_simps:
  "lru_contains L h (p_filter p) \<Longrightarrow> enqueue L tx h p = (False, p)"
  "\<not> lru_contains L h (p_filter p) \<Longrightarrow> enqueue L tx h p =
    (True, p\<lparr>p_filter := lru_insert L h 0 (p_filter p), p_order := p_order p + 1,
      order_set := os_insert (tx_order_new h (p_order p)) (order_set p), p_txs := hm_insert h tx (p_txs p)\<rparr>)"
  by (simp_all add: enqueue_def filter_check_def get_order_def get_order_by_priority_def get_order_by_vip_def Let_def split: strategy.split)

lemma pool_new_inv: "pool_inv (pool_new L c n)" "pool_fresh (pool_new L c n)" "pool_queue (pool_new L c n) = []"
  by (simp_all add: pool_inv_def pool_fresh_def pool_queue_def pool_new_def)

lemma enqueue_inv: "pool_inv p \<Longrightarrow> pool_inv (snd (enqueue L tx h p))"
  using sorted_os_insert[of "order_set p" "tx_order_new h (p_order p)"] set_os_insert[of "tx_order_new h (p_order p)" "order_set p"]
  by (cases "lru_contains L h (p_filter p)") (auto simp: enqueue_simps pool_inv_def tx_order_new_def)

lemma update_inv: "pool_inv p \<Longrightarrow> pool_inv (pool_update hs p)"
  by (auto simp: pool_inv_def pool_update_def update_order_set_def os_collect_sorted sorted_filter_orders hm_get_remove_all hm_ok_remove_all)

lemma update_queue:
  assumes "pool_inv p"
  shows "pool_queue (pool_update hs p) = q_update hs (pool_queue p)"
proof -
  have "os_collect (filter (\<lambda>x. to_hash x \<notin> set hs) (order_set p)) = filter (\<lambda>x. to_hash x \<notin> set hs) (order_set p)"
    using assms by (simp add: pool_inv_def os_collect_sorted sorted_filter_orders)
  then show ?thesis
    by (simp add: pool_queue_def q_update_def pool_update_def update_order_set_def hm_get_remove_all filter_map comp_def)
qed

lemma enqueue_queue:
  assumes "pool_fresh p" and "\<not> lru_contains L h (p_filter p)"
  shows "pool_queue (snd (enqueue L tx h p)) = q_enqueue h tx (pool_queue p)"
proof -
  have "os_insert (tx_order_new h (p_order p)) (order_set p) = order_set p @ [tx_order_new h (p_order p)]"
    using assms(1) by (intro os_insert_last) (simp add: pool_fresh_def tx_order_new_def)
  then show ?thesis using assms(2) by (auto simp: pool_queue_def q_enqueue_def enqueue_simps tx_order_new_def)
qed

lemma enqueue_fresh:
  assumes "pool_fresh p" and "p_order p \<noteq> - 1"
  shows "pool_fresh (snd (enqueue L tx h p))"
proof (cases "lru_contains L h (p_filter p)")
  case False
  have "unat (p_order p) \<noteq> unat (- 1 :: u64)" using assms(2) by (simp only: word_unat_eq_iff simp_thms)
  moreover have "(- 1 :: u64) = 18446744073709551615" by simp
  ultimately have "unat (p_order p) \<noteq> 2 ^ 64 - 1" by simp
  then have "p_order p < p_order p + 1" using unsigned_less[of "p_order p", where 'a = nat] by (simp add: word_less_nat_alt unat_word_ariths)
  moreover have "to_order x < p_order p + 1"
    if "x \<in> set (os_insert (tx_order_new h (p_order p)) (order_set p))" and lt: "p_order p < p_order p + 1" for x
  proof -
    have "x = tx_order_new h (p_order p) \<or> x \<in> set (order_set p)" using that set_os_insert by blast
    with assms(1) have "to_order x \<le> p_order p" by (auto simp: pool_fresh_def tx_order_new_def)
    then show ?thesis using lt by (rule order.strict_trans1)
  qed
  ultimately show ?thesis using False by (simp add: pool_fresh_def enqueue_simps)
qed (use assms in \<open>simp add: enqueue_simps\<close>)

lemma package_loop_take:
  assumes "\<forall>x \<in> set xs. hm_get m (to_hash x) \<noteq> None" and "n \<noteq> 0"
  shows "package_loop n xs m txs hs =
    Some (txs @ map (\<lambda>x. the (hm_get m (to_hash x))) (take n xs), hs @ map to_hash (take n xs))"
  using assms
proof (induction n xs m txs hs rule: package_loop.induct)
  case (2 n x xs m txs hs)
  then obtain tx k where "hm_get m (to_hash x) = Some tx" "n = Suc k" by (cases n) auto
  then show ?case using 2 by (cases k) auto
qed simp

lemma package_queue:
  assumes "pool_inv p" and "package_limit p \<noteq> 0"
  shows "pool_package p = Some (map snd (take (package_limit p) (pool_queue p)), map fst (take (package_limit p) (pool_queue p)))"
  using package_loop_take[of "order_set p" "p_txs p" "package_limit p" "[]" "[]"] assms
  by (simp add: pool_package_def pool_inv_def pool_queue_def take_map comp_def)

subsection \<open>Properties\<close>

text \<open>What is documented of the crate: \<open>keys\<close> are the keys of a cache, the last used first, and \<open>cap\<close> its capacity.\<close>

definition lru_ok :: "'l lru \<Rightarrow> ('l \<Rightarrow> hash list) \<Rightarrow> ('l \<Rightarrow> nat) \<Rightarrow> bool" where
  "lru_ok L keys cap \<longleftrightarrow>
     (\<forall>n. keys (lru_new L n) = [] \<and> cap (lru_new L n) = n) \<and>
     (\<forall>c h. lru_contains L h c \<longleftrightarrow> h \<in> set (keys c)) \<and>
     (\<forall>c h v. keys (lru_insert L h v c) = take (cap c) (h # remove1 h (keys c)) \<and> cap (lru_insert L h v c) = cap c)"

definition list_lru :: "(nat \<times> hash list) lru" where
  "list_lru = \<lparr>lru_new = (\<lambda>n. (n, [])), lru_contains = (\<lambda>h (n, ks). h \<in> set ks),
     lru_insert = (\<lambda>h _ (n, ks). (n, take n (h # remove1 h ks)))\<rparr>"

lemma list_lru_ok: "lru_ok list_lru snd fst"
  by (auto simp: lru_ok_def list_lru_def)

text \<open>
  C8. The pool is a queue. A transaction that the filter lets through is put at the end, with its value replacing
  earlier ones of the same hash; a transaction that the filter holds changes nothing; \<open>update\<close> removes exactly the transactions with the
  given hashes; \<open>package\<close> returns the oldest ones up to the limit with their hashes, without a panic, and leaves the
  pool alone. The invariant behind it is kept by all, as long as fewer than \<open>2 ^ 64\<close> numbers have been given out.
\<close>

theorem pool_is_queue:
  assumes "pool_inv p" and "pool_fresh p" and "p_order p \<noteq> - 1" and "package_limit p \<noteq> 0" and "lru_ok L keys cap"
  shows "(let (ok, p') = enqueue L tx h p in
      ok = (h \<notin> set (keys (p_filter p))) \<and> pool_inv p' \<and> pool_fresh p' \<and> (p_order p' = (if ok then p_order p + 1 else p_order p)) \<and>
      pool_queue p' = (if ok then q_enqueue h tx (pool_queue p) else pool_queue p)) \<and>
    pool_queue (pool_update hs p) = q_update hs (pool_queue p) \<and> pool_inv (pool_update hs p) \<and> pool_fresh (pool_update hs p) \<and>
    pool_package p = Some (map snd (take (package_limit p) (pool_queue p)), map fst (take (package_limit p) (pool_queue p)))"
proof -
  have c: "lru_contains L h (p_filter p) \<longleftrightarrow> h \<in> set (keys (p_filter p))" using assms(5) by (simp add: lru_ok_def)
  note e = enqueue_inv[OF assms(1), of L tx h] enqueue_fresh[OF assms(2,3), of L tx h]
  have "fst (enqueue L tx h p) = (h \<notin> set (keys (p_filter p)))" "p_order (snd (enqueue L tx h p)) =
      (if h \<notin> set (keys (p_filter p)) then p_order p + 1 else p_order p)"
    "pool_queue (snd (enqueue L tx h p)) =
      (if h \<notin> set (keys (p_filter p)) then q_enqueue h tx (pool_queue p) else pool_queue p)"
    using enqueue_queue[OF assms(2), of L h tx] c by (cases "lru_contains L h (p_filter p)"; simp add: enqueue_simps)+
  moreover have "pool_fresh (pool_update hs p)"
    using assms(1,2) by (simp add: pool_fresh_def pool_update_def update_order_set_def pool_inv_def os_collect_sorted sorted_filter_orders)
  ultimately show ?thesis using e update_inv[OF assms(1), of hs] update_queue[OF assms(1), of hs] package_queue[OF assms(1,4)]
    by (simp add: case_prod_beta Let_def)
qed

definition sample_tx :: "u8 \<Rightarrow> signed_transaction" where
  "sample_tx b = \<lparr>stx_transaction = \<lparr>tx_data = [b], tx_timestamp = 0\<rparr>, stx_hash = [b], stx_signature = []\<rparr>"

theorem pool_is_queue_witness:
  "\<exists>p p'. enqueue list_lru (sample_tx 2) [2] p = (True, p') \<and> pool_queue p = [([1], sample_tx 1)] \<and>
    pool_queue p' = [([1], sample_tx 1), ([2], sample_tx 2)] \<and> pool_package p = Some ([sample_tx 1], [[1]])"
proof -
  let ?p = "snd (enqueue list_lru (sample_tx 1) [1] (pool_new list_lru 2 5))"
  let ?p' = "snd (enqueue list_lru (sample_tx 2) [2] ?p)"
  have p: "pool_inv ?p" "pool_fresh ?p" "p_order ?p \<noteq> - 1" "package_limit ?p \<noteq> 0" "pool_queue ?p = [([1], sample_tx 1)]"
    "snd (p_filter ?p) = [[1]]" "package_limit ?p = 5"
    by (simp_all add: pool_inv_def pool_fresh_def pool_queue_def enqueue_simps pool_new_def filter_new_def list_lru_def tx_order_new_def
      hm_insert_def hm_ok_def)
      (simp_all add: hm_get_def)
  from pool_is_queue[OF p(1-4) list_lru_ok, of "sample_tx 2" "[2]" "[]"] p(5-7)
  have "enqueue list_lru (sample_tx 2) [2] ?p = (True, ?p')" "pool_queue ?p' = [([1], sample_tx 1), ([2], sample_tx 2)]"
    "pool_package ?p = Some ([sample_tx 1], [[1]])"
    by (simp_all add: case_prod_beta prod_eq_iff q_enqueue_def)
  then show ?thesis using p(5) by blast
qed

text \<open>
  The filter is smaller than the pool may become. When a waiting transaction has left the filter it is let in
  again, and \<open>package\<close> hands it out twice.
\<close>

lemma enqueued_twice:
  assumes "pool_inv p" and "pool_fresh p" and "lru_ok L keys cap" and "(h, v) \<in> set (pool_queue p)" and "h \<notin> set (keys (p_filter p))"
    and "length (pool_queue p) < package_limit p"
  shows "\<exists>p' txs hs. enqueue L tx h p = (True, p') \<and> pool_package p' = Some (txs, hs) \<and> 2 \<le> count_list hs h"
proof -
  have c: "\<not> lru_contains L h (p_filter p)" using assms(3,5) by (simp add: lru_ok_def)
  let ?p = "snd (enqueue L tx h p)"
  have q: "pool_queue ?p = q_enqueue h tx (pool_queue p)" by (rule enqueue_queue[OF assms(2) c])
  have lim: "package_limit ?p = package_limit p" using c by (simp add: enqueue_simps)
  then have "length (pool_queue ?p) \<le> package_limit ?p" using assms(6) by (simp add: q q_enqueue_def)
  moreover have "package_limit ?p \<noteq> 0" using lim assms(6) by simp
  ultimately have "pool_package ?p = Some (map snd (pool_queue ?p), map fst (pool_queue ?p))"
    using package_queue[OF enqueue_inv[OF assms(1), of L tx h]] by simp
  moreover have "map fst (pool_queue ?p) = map fst (pool_queue p) @ [h]" by (simp add: q q_enqueue_def case_prod_beta comp_def)
  moreover have "h \<in> set (map fst (pool_queue p))" using assms(4) by force
  moreover from this have "count_list (map fst (pool_queue p)) h \<noteq> 0" by (simp only: count_list_0_iff not_not)
  ultimately show ?thesis using c by (intro exI[of _ ?p]) (auto simp: enqueue_simps)
qed

end
