(* ===== verification/Miner.thy ===== *)
theory Miner
  imports ChainForge TxPool
begin

section \<open>The miner\<close>

text \<open>
  \<open>miner/src/lib.rs\<close>: one round of the loop in \<open>start_miner\<close>, as a function of what the time servers answer. The block
  that is broadcast is part of the result. \<open>None\<close> is a panic.
\<close>

subsection \<open>Definitions\<close>

definition mine_start :: "u64 option \<Rightarrow> u64 option" where
  "mine_start now = now"

definition mine_round ::
    "('sk, 'pk, 'rs, 'db) env \<Rightarrow> u64 option \<Rightarrow> u64 \<Rightarrow> 'l pool \<Rightarrow> 'db chain \<Rightarrow> (block option \<times> u64 \<times> 'l pool \<times> 'db chain) option" where
  "mine_round E now time pool s =
     (case now of
        None \<Rightarrow> Some (None, time, pool, s)
      | Some new_time \<Rightarrow>
          if time < new_time then do {
            let time = new_time;
            let (height, h) = get_status s;
            let miner_privkey = miner_private_key (c_config s);
            (anc, s) \<leftarrow> anc_hash E height h s;
            anc \<leftarrow> anc;
            up \<leftarrow> cadd height 1;
            let sig = gen_proof (e_sha3 E) (e_bls E) miner_privkey time up anc;
            let proof = e_sha3 E sig;
            d \<leftarrow> get_difficulty (c_config s);
            limit \<leftarrow> h256_from_u256 (e_bo E) d;
            if hash_less proof limit then do {
              (tx_list, hash_list) \<leftarrow> pool_package pool;
              (b, s) \<leftarrow> gen_block E height h time sig tx_list s;
              Some (Some b, time, pool_update hash_list pool, s) }
            else Some (None, time, pool, s) }
          else Some (None, time, pool, s))"

subsection \<open>What a round has done\<close>

lemma mined:
  assumes "mine_round E (Some now) time pool s = Some (Some b, time', pool', s')"
  obtains anc s1 up d limit txs hs sig where
    "time < now" "time' = now" "anc_hash E (current_height s) (current_hash s) s = Some (Some anc, s1)"
    "cadd (current_height s) 1 = Some up" "sig = gen_proof (e_sha3 E) (e_bls E) (miner_private_key (c_config s)) now up anc"
    "get_difficulty (c_config s1) = Some d" "h256_from_u256 (e_bo E) d = Some limit" "hash_less (e_sha3 E sig) limit"
    "pool_package pool = Some (txs, hs)" "pool' = pool_update hs pool"
    "gen_block E (current_height s) (current_hash s) now sig txs s1 = Some (b, s')"
  using assms
  by (auto simp: mine_round_def get_status_def bind_eq_Some_conv Let_def split: if_splits)

lemma difficulty_steps:
  assumes "get_difficulty c = Some d"
  shows "steps c \<noteq> 0"
proof
  assume z: "steps c = 0"
  obtain p1 p2 p where p: "cmul p1 (steps c) = Some p2" "cmul p2 (nps c) = Some p"
    "uint_div (uint_max_value 4) (uint_from_u64 4 p) = Some d"
    using assms by (auto simp: get_difficulty_def bind_eq_Some_conv)
  have "unat p = 0" using cmul_SomeD[OF p(1)] cmul_SomeD[OF p(2)] z by simp
  then have "uval (uint_from_u64 4 p) = 0" using uval_from_u64[of 4 p] by simp
  moreover have "uint_max_value 4 \<noteq> []" "uint_from_u64 4 p \<noteq> []" by (simp_all add: uint_max_value_def uint_from_u64_def)
  ultimately show False using uint_div_zero p(3) by auto
qed

text \<open>The miner compares hashes, the check compares numbers.\<close>

lemma proof_below:
  assumes "big_endian bo" and "length p = 32" and "length d = 4" and "h256_from_u256 bo d = Some limit" and "hash_less p limit"
  shows "\<exists>v. u256_from_h256 p = Some v \<and> uint_cmp v d \<noteq> Greater"
proof -
  note v = u256_from_h256_val[OF assms(2)]
  have l: "limit = be_bytes 32 (uval d)" using h256_from_u256_val[OF assms(1,3)] assms(4) by simp
  have d: "uval d < 2 ^ 256" using uval_bound[of d] assms(3) by simp
  have "be_val p < be_val limit"
    using assms(2,5) by (simp add: hash_less_def hash_cmp_val l split: if_splits)
  also have "be_val limit = uval d" using d by (simp add: l)
  finally show ?thesis using v assms(3) by (simp add: uint_cmp_val)
qed

lemma init_unhashed: "h_hash (b_header (block_init n t h txs sig)) = None"
  by (simp add: block_init_def)

lemma signed_init:
  assumes "block_sign sha3 bo S sk (block_init n t h txs sig) = Some b"
  shows "\<exists>x seal. b = (block_init n t h txs sig)\<lparr>b_header := (b_header (block_init n t h txs sig))
      \<lparr>h_hash := Some x, h_proof := \<lparr>time_signature = sig, block_signature = seal\<rparr>\<rparr>\<rparr> \<and> crypto_sign S sk x = Inr seal"
proof -
  let ?b = "block_init n t h txs sig"
  obtain x b' where hb: "block_hash sha3 bo ?b = Some (x, b')" and c: "(case crypto_sign S sk x of
       Inl _ \<Rightarrow> None
     | Inr seal \<Rightarrow>
         Some (b'\<lparr>b_header := (b_header b')\<lparr>h_proof := (h_proof (b_header b'))\<lparr>block_signature := seal\<rparr>\<rparr>\<rparr>)) = Some b"
    using assms by (auto simp: block_sign_def bind_eq_Some_conv)
  obtain seal where seal: "crypto_sign S sk x = Inr seal" using c by (cases "crypto_sign S sk x") auto
  have "b' = ?b\<lparr>b_header := (b_header ?b)\<lparr>h_hash := Some x\<rparr>\<rparr>"
    using hb by (auto simp: block_hash_def header_hash_def bind_eq_Some_conv block_init_def)
  then show ?thesis using c seal by (intro exI[of _ x] exI[of _ seal]) (simp add: block_init_def)
qed

text \<open>Two nodes follow the same protocol; their keys may differ.\<close>

definition same_protocol :: "sleepy_config \<Rightarrow> sleepy_config \<Rightarrow> bool" where
  "same_protocol c c' \<longleftrightarrow> max_peer c = max_peer c' \<and> steps c = steps c' \<and> nps c = nps c' \<and> epoch_len c = epoch_len c' \<and>
     buffer_size c = buffer_size c'"

lemma same_difficulty: "same_protocol c c' \<Longrightarrow> get_difficulty c = get_difficulty c'"
  by (simp add: same_protocol_def get_difficulty_def)

lemma config_number [simp]: "v_number_db st (s\<lparr>c_config := c\<rparr>) = v_number_db st s"
  by (simp add: v_number_db_def)

lemma config_views [simp]:
  "v_header E st (s\<lparr>c_config := c\<rparr>) = v_header E st s" "v_number st (s\<lparr>c_config := c\<rparr>) = v_number st s"
  "v_body st (s\<lparr>c_config := c\<rparr>) = v_body st s" "v_address st (s\<lparr>c_config := c\<rparr>) = v_address st s"
  by (simp_all add: v_header_def v_number_def v_body_def v_address_def fun_eq_iff split: option.split)

lemma config_ok: "chain_ok E dinv view st s \<Longrightarrow> chain_ok E dinv view st (s\<lparr>c_config := c\<rparr>)"
  by (simp add: chain_ok_def tables_ok_def)

lemma config_inv: "chain_inv E dinv view s \<Longrightarrow> chain_inv E dinv view (s\<lparr>c_config := c\<rparr>)"
  by (simp add: chain_inv_def settled_def config_ok waiting_ok_def)

lemma cmul_total:
  fixes a b :: u64
  assumes "unat a * unat b < 2 ^ 64"
  shows "\<exists>c. cmul a b = Some c \<and> unat c = unat a * unat b"
proof -
  have "cmul a b = Some (a * b)" using assms by (simp add: cmul_def)
  from this cmul_SomeD[OF this] show ?thesis by blast
qed

lemma cadd_total:
  fixes a b :: u64
  assumes "unat a + unat b < 2 ^ 64"
  shows "\<exists>c. cadd a b = Some c \<and> unat c = unat a + unat b"
proof -
  have "cadd a b = Some (a + b)" using assms by (simp add: cadd_def)
  from this cadd_SomeD[OF this] show ?thesis by blast
qed

lemma clock_bound:
  assumes "steps c \<noteq> 0" and "time \<le> now" and "unat now + 2 * unat (nps c) * unat (steps c) < 2 ^ 64"
  obtains m1 m2 m3 where "cmul 2 (nps c) = Some m1" "cmul m1 (steps c) = Some m2" "cadd now m2 = Some m3" "\<not> m3 < time"
proof -
  have "1 \<le> unat (steps c)" using assms(1) by (simp add: unat_gt_0 Suc_le_eq)
  then have "2 * unat (nps c) * 1 \<le> 2 * unat (nps c) * unat (steps c)" by (rule mult_le_mono2)
  then have "2 * unat (nps c) < 2 ^ 64" using assms(3) by linarith
  then have "unat (2 :: u64) * unat (nps c) < 2 ^ 64" by simp
  from cmul_total[OF this] obtain m1 where m1: "cmul 2 (nps c) = Some m1" "unat m1 = 2 * unat (nps c)" by auto
  have "unat m1 * unat (steps c) < 2 ^ 64" unfolding m1(2) using assms(3) by linarith
  then obtain m2 where m2: "cmul m1 (steps c) = Some m2" "unat m2 = 2 * unat (nps c) * unat (steps c)"
    using cmul_total[of m1 "steps c"] unfolding m1(2) by blast
  have "unat now + unat m2 < 2 ^ 64" unfolding m2(2) by (rule assms(3))
  then obtain m3 where m3: "cadd now m2 = Some m3" "unat m3 = unat now + unat m2"
    using cadd_total[of now m2] by blast
  then have late: "\<not> m3 < time" using assms(2) by (simp add: word_less_nat_alt word_le_nat_alt)
  from that[OF m1(1) m2(1) m3(1) late] show thesis .
qed

text \<open>The hash that a proof refers to, given the block that the ancestor's number names.\<close>

definition epoch_hash :: "('sk, 'pk, 'rs, 'db) env \<Rightarrow> (hash \<Rightarrow> rich_header option) \<Rightarrow> hash option \<Rightarrow> hash option" where
  "epoch_hash E hv x = Option.bind x (\<lambda>x. map_option (\<lambda>r. e_sha3 E (time_signature (h_proof (rh_header r)))) (hv x))"

context chain_store
begin

lemma tip_number: "window_full s \<Longrightarrow> v_number st s (current_height s) = Some (current_hash s)"
  using tip_info[of s] by (auto simp: v_number_def)

lemma tip_ancestor:
  assumes ok: "chain_ok E dinv view st s" and "window_full s" and small: "current_height s < 2 ^ 32"
    and up: "cadd (current_height s) 1 = Some up" and a: "anc_height up s = Some a"
  shows "yields E dinv view st s (anc_hash E (current_height s) (current_hash s) s)
    (epoch_hash E (v_header E st s) (v_number st s a))"
proof -
  let ?n = "current_height s"
  have e: "epoch_len (c_config s) \<noteq> 0" using a by (auto simp: anc_height_def u64_div_def)
  obtain a' where "anc_height up s = Some a'" "unat a' = (unat up div unat (epoch_len (c_config s)) - 1) * unat (epoch_len (c_config s))"
    using anc_height_val[OF e] by blast
  with a have ua: "unat a = (unat up div unat (epoch_len (c_config s)) - 1) * unat (epoch_len (c_config s))" by simp
  have uup: "unat up = unat ?n + 1" using cadd_SomeD[OF up] by simp
  have e0: "0 < unat (epoch_len (c_config s))" using e by (simp add: unat_gt_0)
  have "unat a \<le> unat ?n"
  proof (cases "unat up div unat (epoch_len (c_config s))")
    case (Suc k)
    have "Suc k * unat (epoch_len (c_config s)) \<le> unat up" by (simp only: Suc[symmetric] div_times_less_eq_dividend)
    then show ?thesis using ua Suc uup e0 by simp
  qed (use ua in simp)
  then have le: "a \<le> ?n" by (simp add: word_le_nat_alt)
  then have a32: "a < 2 ^ 32" using small by (rule order.strict_trans1)
  have tip: "v_number st s ?n = Some (current_hash s)" by (rule tip_number[OF assms(2)])
  have f: "yields E dinv view st s (block_hash_by_number_fork E a ?n (current_hash s) s) (v_number st s a)"
  proof (cases "?n = a")
    case True
    then show ?thesis using yields_return[OF ok, of "Some (current_hash s)"] tip
      by (simp add: block_hash_by_number_fork_def fork_loop.simps[of E a a])
  next
    case False
    have "yields E dinv view st s (do {
        (v, s') \<leftarrow> block_hash_by_number E ?n s;
        if Some (current_hash s) = v then block_hash_by_number E a s'
        else do {
          (hdr, s') \<leftarrow> get_block_header_by_hash E (current_hash s) s';
          case hdr of None \<Rightarrow> Some (None, s')
          | Some hdr \<Rightarrow> do { height' \<leftarrow> csub ?n 1; fork_loop E a height' (parent_hash (rh_header hdr)) s' } } }) (v_number st s a)"
    proof (rule yields_bind[OF number_yields[OF ok small]])
      fix s' assume s': "chain_ok E dinv view st s'" "same E st s s'"
      then show "yields E dinv view st s' (if Some (current_hash s) = v_number st s ?n then block_hash_by_number E a s'
        else do {
          (hdr, s') \<leftarrow> get_block_header_by_hash E (current_hash s) s';
          case hdr of None \<Rightarrow> Some (None, s')
          | Some hdr \<Rightarrow> do { height' \<leftarrow> csub ?n 1; fork_loop E a height' (parent_hash (rh_header hdr)) s' } }) (v_number st s a)"
        using number_yields[OF s'(1) a32] tip same_fields(13)[OF s'(2)] by simp
    qed
    then show ?thesis
      using False linorder_not_less[THEN iffD2, OF le] by (simp add: block_hash_by_number_fork_def fork_loop.simps[of E a ?n])
  qed
  show ?thesis
    unfolding anc_hash_def up a Option.bind.simps
  proof (rule yields_bind[OF f])
    fix s' assume s': "chain_ok E dinv view st s'" "same E st s s'"
    have h: "v_header E st s' = v_header E st s" using same_fields(9)[OF s'(2)] .
    show "yields E dinv view st s' (case v_number st s a of
        None \<Rightarrow> Some (None, s')
      | Some x \<Rightarrow> Option.bind (get_block_header_by_hash E x s') (\<lambda>(hdr, s).
          Some (map_option (\<lambda>hdr. e_sha3 E (time_signature (h_proof (rh_header hdr)))) hdr, s)))
      (epoch_hash E (v_header E st s) (v_number st s a))"
    proof (cases "v_number st s a")
      case None
      then show ?thesis using yields_return[OF s'(1)] by (simp add: epoch_hash_def)
    next
      case (Some x)
      show ?thesis unfolding Some option.case epoch_hash_def Option.bind.simps h[symmetric] by (rule yields_bind[OF header_yields[OF s'(1)]]) (rule yields_return)
    qed
  qed
qed

text \<open>What the mined block is, and that the miner has it on top of its own chain.\<close>

lemma mined_block:
  assumes inv: "chain_inv E dinv view s" and full: "window_full s" and small: "current_height s < 2 ^ 32"
    and mine: "mine_round E (Some time) before pool s = Some (Some b, time', pool', s')"
    and buffer: "0 < unat (buffer_size (c_config s))" "unat (current_height s) + unat (buffer_size (c_config s)) < 2 ^ 64"
    and good: "good_block E b" and cell: "h_hash (b_header b) = Some x"
  obtains up d v a anc sig seal bound txs txs' where
    "cadd (current_height s) 1 = Some up" "get_difficulty (c_config s) = Some d"
    "difficulty (e_sha3 E) (b_header b) = Some v" "uint_cmp v d \<noteq> Greater"
    "anc_height up s = Some a" "epoch_hash E (v_header E (view (c_db s)) s) (v_number (view (c_db s)) s a) = Some anc"
    "sig = gen_proof (e_sha3 E) (e_bls E) (miner_private_key (c_config s)) time up anc"
    "crypto_sign (e_secp E) (signer_private_key (c_config s)) x = Inr seal" "length x = 32"
    "get_left_bound (current_height s) (txs_cache s) s = Some bound"
    "txs' = filter_loop (fst bound) (snd bound) (current_height s) (txs_cache s) txs {}"
    "h_height (b_header b) = up" "h_timestamp (b_header b) = time" "parent_hash (b_header b) = current_hash s"
    "transactions (b_body b) = txs'" "time_signature (h_proof (b_header b)) = sig" "block_signature (h_proof (b_header b)) = seal"
    "block_hash (e_sha3 E) (e_bo E) b = Some (x, b)" "get_status s' = (current_height s + 1, x)"
proof -
  let ?st = "view (c_db s)" and ?n = "current_height s" and ?h = "current_hash s"
  have ok: "chain_ok E dinv view ?st s" by (rule inv_ok[OF inv])
  obtain anc s1 up d limit txs hs sig where m: "anc_hash E ?n ?h s = Some (Some anc, s1)" "cadd ?n 1 = Some up"
    "sig = gen_proof (e_sha3 E) (e_bls E) (miner_private_key (c_config s)) time up anc" "get_difficulty (c_config s1) = Some d"
    "h256_from_u256 (e_bo E) d = Some limit" "hash_less (e_sha3 E sig) limit"
    "gen_block E ?n ?h time sig txs s1 = Some (b, s')"
    by (rule mined[OF mine], rule that, assumption+)
  obtain a where a: "anc_height up s = Some a" using m(1,2) by (auto simp: anc_hash_def bind_eq_Some_conv)
  have s1: "epoch_hash E (v_header E ?st s) (v_number ?st s a) = Some anc" "chain_ok E dinv view ?st s1" "same E ?st s s1"
    using tip_ancestor[OF ok full small m(2) a] m(1) by (auto simp: yields_def)
  note f1 = same_fields[OF s1(3)]
  obtain txs' s2 where g: "filter_transactions E ?n ?h txs s1 = Some (txs', s2)"
    and sg: "block_sign (e_sha3 E) (e_bo E) (e_secp E) (signer_private_key (c_config s2)) (block_init up time ?h txs' sig) = Some b"
    and ins: "insert_at E b True s2 = Some s'"
    using m(2,7) by (auto simp: gen_block_def bind_eq_Some_conv)
  obtain i where i: "block_info_at (txs_cache s) ?n = Some (Some i)" "bi_hash i = ?h" using tip_info[OF full] by blast
  have d1: "transactions_diff E ?n ?h s1 = Some (Inr (?n, {}), s1)"
    by (rule diff_on_best[of _ _ i]) (use i buffer f1 in \<open>auto simp: word_le_nat_alt unat_word_ariths\<close>)
  have lb: "get_left_bound ?n (txs_cache s1) s1 = get_left_bound ?n (txs_cache s) s" using f1 by (simp add: get_left_bound_def)
  obtain bound where bound: "get_left_bound ?n (txs_cache s) s = Some bound"
    "txs' = filter_loop (fst bound) (snd bound) ?n (txs_cache s) txs {}" and s2: "s2 = s1"
    using g d1 lb f1(2) by (auto simp: filter_transactions_def bind_eq_Some_conv)
  obtain y seal where b: "b = (block_init up time ?h txs' sig)\<lparr>b_header := (b_header (block_init up time ?h txs' sig))
      \<lparr>h_hash := Some y, h_proof := \<lparr>time_signature = sig, block_signature = seal\<rparr>\<rparr>\<rparr>"
    and seal: "crypto_sign (e_secp E) (signer_private_key (c_config s)) y = Inr seal"
    using signed_init[OF sg] s2 f1 by auto
  have y: "y = x" using cell by (simp add: b)
  have bf: "h_height (b_header b) = up" "h_timestamp (b_header b) = time" "parent_hash (b_header b) = ?h" "transactions (b_body b) = txs'"
    "time_signature (h_proof (b_header b)) = sig" "block_signature (h_proof (b_header b)) = seal"
    by (simp_all add: b block_init_def)
  have hash: "block_hash (e_sha3 E) (e_bo E) b = Some (x, b)" by (simp add: block_hash_def header_hash_def cell)
  have lx: "length x = 32" using good cell by (simp add: good_block_def wf_rich_def)
  have dl: "get_difficulty (c_config s) = Some d" using m(4) f1 by simp
  have "length (e_sha3 E sig) = 32" using sha3_law by (simp add: sha3_ok_def)
  from proof_below[OF bo_law this get_difficulty_val(2)[OF dl] m(5,6)]
  obtain v where v: "difficulty (e_sha3 E) (b_header b) = Some v" "uint_cmp v d \<noteq> Greater" by (auto simp: difficulty_def bf)
  have inv1: "chain_inv E dinv view s1" using inv s1(2) f1 by (simp add: chain_inv_def settled_def waiting_ok_def)
  have full1: "window_full s1" using full f1 by (simp add: window_full_def)
  have up1: "cadd (current_height s1) 1 = Some (h_height (b_header b))" using m(2) f1 bf by simp
  from extend_tip[OF inv1 full1 good hash up1 _ refl] bf f1 ins s2 have "current_height s' = up" "current_hash s' = x" by auto
  moreover have "up = ?n + 1" using m(2) by (auto simp: cadd_def split: if_splits)
  ultimately have "get_status s' = (?n + 1, x)" by (simp add: get_status_def)
  from that[OF m(2) dl v a s1(1) m(3) seal[unfolded y] lx bound bf hash this] show thesis .
qed

lemma mined_accepted:
  assumes inv: "chain_inv E dinv view s" and full: "window_full s" and small: "current_height s < 2 ^ 32"
    and mine: "mine_round E (Some time) before pool s = Some (Some b, time', pool', s')"
    and conf: "same_protocol c (c_config s)"
    and keys: "secp_ok (e_secp E)" "keypair_from_privkey (e_secp E) (signer_private_key (c_config s)) = Inr kp"
      "public_keys c (pubkey kp) = Some (pk, g)" "bls_ok (e_bls E) (miner_private_key (c_config s)) pk g"
    and buffer: "0 < unat (buffer_size c)" "unat (current_height s) + unat (buffer_size c) < 2 ^ 64"
    and parent: "v_header E (view (c_db s)) s (current_hash s) = Some p" "h_timestamp (rh_header p) < time"
    and clock: "time \<le> now" "unat now + 2 * unat (nps c) * unat (steps c) < 2 ^ 64"
    and good: "good_block E b" and fresh: "h_hash (b_header b) = Some x" "v_header E (view (c_db s)) s x = None"
  shows "\<exists>r'. chain_insert E (Some now) b (s\<lparr>c_config := c\<rparr>) = Some (Inr (), r') \<and> chain_inv E dinv view r' \<and>
    get_status r' = (current_height s + 1, x)"
proof -
  let ?st = "view (c_db s)" and ?r = "s\<lparr>c_config := c\<rparr>" and ?n = "current_height s" and ?h = "current_hash s"
  note pr = conf[unfolded same_protocol_def]
  have ok: "chain_ok E dinv view ?st s" by (rule inv_ok[OF inv])
  have bs: "buffer_size (c_config s) = buffer_size c" using pr by simp
  obtain up d v a anc sig seal bound txs txs' where m: "cadd ?n 1 = Some up" and dl': "get_difficulty (c_config s) = Some d"
    and v: "difficulty (e_sha3 E) (b_header b) = Some v" "uint_cmp v d \<noteq> Greater"
    and a: "anc_height up s = Some a" and anc: "epoch_hash E (v_header E ?st s) (v_number ?st s a) = Some anc"
    and sig: "sig = gen_proof (e_sha3 E) (e_bls E) (miner_private_key (c_config s)) time up anc"
    and seal: "crypto_sign (e_secp E) (signer_private_key (c_config s)) x = Inr seal" and lx: "length x = 32"
    and bound: "get_left_bound ?n (txs_cache s) s = Some bound"
      "txs' = filter_loop (fst bound) (snd bound) ?n (txs_cache s) txs {}"
    and bf: "h_height (b_header b) = up" "h_timestamp (b_header b) = time" "parent_hash (b_header b) = ?h"
      "transactions (b_body b) = txs'" "time_signature (h_proof (b_header b)) = sig" "block_signature (h_proof (b_header b)) = seal"
    and cell: "block_hash (e_sha3 E) (e_bo E) b = Some (x, b)"
    by (rule mined_block[OF inv full small mine buffer(1,2)[folded bs] good fresh(1)], rule that, assumption+)
  have dl: "get_difficulty c = Some d" using dl' same_difficulty[OF conf] by simp
  obtain i where i: "block_info_at (txs_cache s) ?n = Some (Some i)" "bi_hash i = ?h" using tip_info[OF full] by blast
  have okr: "chain_ok E dinv view ?st ?r" by (rule config_ok[OF ok])
  obtain r1 where r1: "get_block_header_by_hash E x ?r = Some (None, r1)" "chain_ok E dinv view ?st r1" "same E ?st ?r r1"
    using header_yields[OF okr, of x] fresh(2) by (auto simp: yields_def)
  note g1 = same_fields[OF r1(3)]
  obtain r2 where r2: "get_block_header_by_hash E ?h r1 = Some (Some p, r2)" "chain_ok E dinv view ?st r2" "same E ?st r1 r2"
    using header_yields[OF r1(2), of ?h] parent(1) g1 by (auto simp: yields_def)
  note g2 = same_fields[OF r2(3)]
  have full2: "window_full r2" using full g1 g2 by (simp add: window_full_def)
  have a2: "anc_height up r2 = Some a" using a pr g1 g2 by (simp add: anc_height_def)
  have up2: "cadd (current_height r2) 1 = Some up" using m g1 g2 by simp
  have "current_height r2 < 2 ^ 32" using small g1 g2 by simp
  from tip_ancestor[OF r2(2) full2 this up2 a2] anc obtain r3 where
    r3: "anc_hash E ?n ?h r2 = Some (Some anc, r3)" "chain_ok E dinv view ?st r3" "same E ?st r2 r3"
    using g1 g2 by (auto simp: yields_def)
  note g3 = same_fields[OF r3(3)]
  have core3: "c_config r3 = c" "txs_cache r3 = txs_cache s" "current_height r3 = ?n" "current_hash r3 = ?h" "c_db r3 = c_db s"
    "future_blocks r3 = future_blocks s" "unknown_parent r3 = unknown_parent s"
    using g1 g2 g3 by simp_all
  have below: "csub up 1 = Some ?n" by (rule csub_cadd[OF m])
  have "crypto_recover (e_secp E) seal x = Inr (pubkey kp)"
    by (rule conjunct1[OF sign_recovers[OF keys(1,2) lx seal]])
  then have sp: "sign_public (e_sha3 E) (e_bo E) (e_secp E) b = Some (Inr (pubkey kp))" by (simp add: sign_public_def cell bf)
  have vp: "verify_proof (e_sha3 E) (e_bls E) (b_header b) anc pk g"
    using keys(4) by (simp add: verify_proof_def bf sig gen_proof_def bls_ok_def)
  have check: "check_proof E b r2 = Some (Inr (), r3)"
    using below r3(1) sp vp keys(3) core3(1) by (simp add: check_proof_def bf get_proof_pub_def)
  obtain m1 m2 m3 where mm: "cmul 2 (nps c) = Some m1" "cmul m1 (steps c) = Some m2" "cadd now m2 = Some m3" "\<not> m3 < time"
    by (rule clock_bound[OF difficulty_steps[OF dl] clock])
  have basic: "block_basic_check E (Some now) b ?r = Some (Inr (), r3)"
    using dl v r1(1) r2(1) mm parent(2) clock(1) check
    by (simp add: block_basic_check_def cell bf not_le not_less)
  have diff3: "transactions_diff E ?n ?h r3 = Some (Inr (?n, {}), r3)"
    by (rule diff_on_best[of _ _ i]) (use i buffer core3 in \<open>auto simp: word_le_nat_alt unat_word_ariths\<close>)
  have "get_left_bound ?n (txs_cache r3) r3 = get_left_bound ?n (txs_cache s) s" using core3 pr by (simp add: get_left_bound_def)
  then have filt: "filter_transactions E ?n ?h txs r3 = Some (txs', r3)"
    using bound diff3 core3 by (simp add: filter_transactions_def case_prod_beta)
  have txs: "check_transactions E b r3 = Some (Inr True, r3)"
    using filtered_pass[of r3 ?n i ?h E txs txs' r3 b] i buffer core3 filt m bf
    by (auto simp: word_le_nat_alt unat_word_ariths)
  have inv3: "chain_inv E dinv view r3" using inv r3(2) core3 by (simp add: chain_inv_def settled_def waiting_ok_def)
  have full3: "window_full r3" using full core3 by (simp add: window_full_def)
  have up3: "cadd (current_height r3) 1 = Some (h_height (b_header b))" using m core3 bf by simp
  from extend_tip[OF inv3 full3 good cell up3 _ refl] bf core3 obtain s4 where
    s4: "insert_at E b True r3 = Some s4" "chain_inv E dinv view s4" "current_height s4 = up" "current_hash s4 = x" by auto
  have "up = ?n + 1" using m by (auto simp: cadd_def split: if_splits)
  then have "get_status (s4\<lparr>outbox := outbox s4 @ [x]\<rparr>) = (?n + 1, x)" using s4 by (simp add: get_status_def)
  moreover have "chain_insert E (Some now) b ?r = Some (Inr (), s4\<lparr>outbox := outbox s4 @ [x]\<rparr>)"
    using cell basic txs s4(1) by (simp add: chain_insert_def)
  ultimately show ?thesis using sent_inv[OF s4(2)] by blast
qed

lemma mined_refused:
  assumes inv: "chain_inv E dinv view s" and full: "window_full s" and small: "current_height s < 2 ^ 32"
    and mine: "mine_round E (Some time) before pool s = Some (Some b, time', pool', s')"
    and conf: "same_protocol c (c_config s)"
    and buffer: "0 < unat (buffer_size c)" "unat (current_height s) + unat (buffer_size c) < 2 ^ 64"
    and parent: "v_header E (view (c_db s)) s (current_hash s) = Some p" "time \<le> h_timestamp (rh_header p)"
    and clock: "time \<le> now" "unat now + 2 * unat (nps c) * unat (steps c) < 2 ^ 64"
    and good: "good_block E b" and fresh: "h_hash (b_header b) = Some x" "v_header E (view (c_db s)) s x = None"
  shows "get_status s' = (current_height s + 1, x) \<and>
    (\<exists>r'. chain_insert E (Some now) b (s\<lparr>c_config := c\<rparr>) = Some (Inl InvalidTimestamp, r') \<and> get_status r' = get_status s)"
proof -
  let ?st = "view (c_db s)" and ?r = "s\<lparr>c_config := c\<rparr>" and ?h = "current_hash s"
  have bs: "buffer_size (c_config s) = buffer_size c" using conf by (simp add: same_protocol_def)
  obtain d v where dl': "get_difficulty (c_config s) = Some d"
    and v: "difficulty (e_sha3 E) (b_header b) = Some v" "uint_cmp v d \<noteq> Greater"
    and bf: "h_timestamp (b_header b) = time" "parent_hash (b_header b) = ?h"
    and cell: "block_hash (e_sha3 E) (e_bo E) b = Some (x, b)" and st: "get_status s' = (current_height s + 1, x)"
    by (rule mined_block[OF inv full small mine buffer(1,2)[folded bs] good fresh(1)], rule that, assumption+)
  have dl: "get_difficulty c = Some d" using dl' same_difficulty[OF conf] by simp
  obtain m1 m2 m3 where m: "cmul 2 (nps c) = Some m1" "cmul m1 (steps c) = Some m2" "cadd now m2 = Some m3" "\<not> m3 < time"
    by (rule clock_bound[OF difficulty_steps[OF dl] clock])
  have okr: "chain_ok E dinv view ?st ?r" by (rule config_ok[OF inv_ok[OF inv]])
  obtain r1 where r1: "get_block_header_by_hash E x ?r = Some (None, r1)" "chain_ok E dinv view ?st r1" "same E ?st ?r r1"
    using header_yields[OF okr, of x] fresh(2) by (auto simp: yields_def)
  note g1 = same_fields[OF r1(3)]
  obtain r2 where r2: "get_block_header_by_hash E ?h r1 = Some (Some p, r2)" "same E ?st r1 r2"
    using header_yields[OF r1(2), of ?h] parent(1) g1 by (auto simp: yields_def)
  note g2 = same_fields[OF r2(2)]
  have "block_basic_check E (Some now) b ?r = Some (Inl InvalidTimestamp, r2)"
    using dl v r1(1) r2(1) m parent(2) by (simp add: block_basic_check_def cell bf)
  then have "chain_insert E (Some now) b ?r = Some (Inl InvalidTimestamp, r2)" by (simp add: chain_insert_def cell)
  then show ?thesis using st g1 g2 by (simp add: get_status_def)
qed

end

subsection \<open>Properties\<close>

text \<open>
  C1. A mined block is accepted by the other nodes. If a node whose window is full mines a block later than its parent, under a hash that is
  not known yet, with keys that the receiver's configuration knows, and the receiver is in the same chain state, with the same protocol
  and a clock that is not behind, then the receiver, whatever its own keys, accepts the block, and the block is its tip: the proof is below the
  difficulty on both sides, the ancestor is the same, the signature recovers to the miner's key, the proof verifies, and the transactions pass.
  (A block that is not later than its parent is refused, see \<open>mined_at_parent_time\<close>.)
\<close>

theorem mined_block_accepted:
  assumes "chain_store E dinv view" and "chain_inv E dinv view s" and "window_full s" and "current_height s < 2 ^ 32"
    and "mine_round E (Some time) before pool s = Some (Some b, time', pool', s')"
    and "same_protocol c (c_config s)"
    and "secp_ok (e_secp E)" and "keypair_from_privkey (e_secp E) (signer_private_key (c_config s)) = Inr kp"
    and "public_keys c (pubkey kp) = Some (pk, g)" and "bls_ok (e_bls E) (miner_private_key (c_config s)) pk g"
    and "0 < unat (buffer_size c)" and "unat (current_height s) + unat (buffer_size c) < 2 ^ 64"
    and "v_header E (view (c_db s)) s (current_hash s) = Some p" and "h_timestamp (rh_header p) < time"
    and "time \<le> now" and "unat now + 2 * unat (nps c) * unat (steps c) < 2 ^ 64"
    and "good_block E b" and "h_hash (b_header b) = Some x" and "v_header E (view (c_db s)) s x = None"
  shows "\<exists>r'. chain_insert E (Some now) b (s\<lparr>c_config := c\<rparr>) = Some (Inr (), r') \<and> chain_inv E dinv view r' \<and>
    get_status r' = (current_height s + 1, x)"
  by (rule chain_store.mined_accepted[OF assms])

text \<open>
  C15. The miner does not look at the time of the tip. A block that it mines in the time unit of its parent, or in an
  earlier one because the clocks differ, becomes its own tip, and every other node refuses it: the miner has left the chain.
\<close>

theorem mined_at_parent_time:
  assumes "chain_store E dinv view" and "chain_inv E dinv view s" and "window_full s" and "current_height s < 2 ^ 32"
    and "mine_round E (Some time) before pool s = Some (Some b, time', pool', s')"
    and "same_protocol c (c_config s)"
    and "0 < unat (buffer_size c)" and "unat (current_height s) + unat (buffer_size c) < 2 ^ 64"
    and "v_header E (view (c_db s)) s (current_hash s) = Some p" and "time \<le> h_timestamp (rh_header p)"
    and "time \<le> now" and "unat now + 2 * unat (nps c) * unat (steps c) < 2 ^ 64"
    and "good_block E b" and "h_hash (b_header b) = Some x" and "v_header E (view (c_db s)) s x = None"
  shows "get_status s' = (current_height s + 1, x) \<and>
    (\<exists>r'. chain_insert E (Some now) b (s\<lparr>c_config := c\<rparr>) = Some (Inl InvalidTimestamp, r') \<and> get_status r' = get_status s)"
  by (rule chain_store.mined_refused[OF assms])

text \<open>A node that mines on the state of the last section.\<close>

lemma accept_mines:
  assumes inv: "chain_inv accept_env mem_ok mem_view s" and s: "s = accept_state d" and t: "0 < t"
    and vh: "v_header accept_env (mem_view (c_db s)) s (replicate 32 9) = Some p" and p: "time_signature (h_proof (rh_header p)) = []"
  shows "\<exists>b pool' s'. mine_round accept_env (Some t) 0 (pool_new list_lru 2 5) s = Some (Some b, t, pool', s') \<and>
    good_block accept_env b \<and> h_hash (b_header b) = Some (replicate 32 0) \<and>
    block_sign (e_sha3 accept_env) (e_bo accept_env) (e_secp accept_env) (signer_private_key (c_config s))
      (block_init 1 t (replicate 32 9) [] (replicate 32 0)) = Some b"
proof -
  let ?E = accept_env and ?h = "replicate 32 9 :: hash" and ?z = "replicate 32 0 :: hash" and ?st = "mem_view (c_db s)"
  have full: "window_full s" by (simp add: s window_full_def) (simp add: accept_state_def last_replicate hc_new_def)
  have up: "cadd (current_height s) 1 = Some 1" by (simp add: s cadd_def)
  have h0: "anc_height 1 s = Some 0" by (simp add: anc_height_def u64_div_def s cmul_def)
  have "v_number ?st s 0 = Some ?h" using accept.tip_number[OF full, of ?st] by (simp add: s)
  then have ep: "epoch_hash ?E (v_header ?E ?st s) (v_number ?st s 0) = Some ?z"
    using vh p by (simp add: epoch_hash_def accept_sha3(2))
  have "current_height s < 2 ^ 32" by (simp add: s)
  from accept.tip_ancestor[OF inv_ok[OF inv] full this up h0] ep obtain s1 where
    s1: "anc_hash ?E 0 ?h s = Some (Some ?z, s1)" "chain_ok ?E mem_ok mem_view ?st s1" "same ?E ?st s s1"
    by (auto simp: yields_def s)
  note f1 = same_fields[OF s1(3)]
  let ?sig = "gen_proof (e_sha3 ?E) (e_bls ?E) (miner_private_key (c_config s)) t 1 ?z"
  have "proof_message (e_sha3 ?E) t 1 ?z = ?z"
    unfolding proof_message_def by (rule accept_sha3(2)) (simp add: hash_from_u64_length)
  then have sig: "?sig = ?z" by (simp add: gen_proof_def) (simp add: accept_env_def mem_env_def sample_base_def)
  have pz: "e_sha3 ?E ?z = ?z" by (rule accept_sha3(2)) simp
  obtain lim where lim: "get_difficulty accept_config = Some lim" using accept_difficulty by blast
  note lv = get_difficulty_val[OF lim]
  have "be_val (replicate n 0) = 0" for n by (induction n) (simp_all add: be_val_Cons)
  then have "be_val ?z < be_val (be_bytes 32 (uval lim))" using lv uval_bound[of lim] by simp
  then have less: "h256_from_u256 (e_bo ?E) lim = Some (be_bytes 32 (uval lim))" "hash_less ?z (be_bytes 32 (uval lim))"
    using h256_from_u256_val[OF accept.bo_law lv(2)] by (simp_all add: hash_less_def hash_cmp_val)
  have pk: "pool_package (pool_new list_lru 2 5) = Some ([], [])" by (simp add: pool_package_def pool_new_def)
  have win: "block_info_at (txs_cache s1) 0 = Some (Some \<lparr>bi_hash = ?h, bi_height = 0, bi_timestamp = 7, bi_transactions = []\<rparr>)"
    by (simp add: f1 s)
  have "transactions_diff ?E 0 ?h s1 = Some (Inr (0, {}), s1)" by (rule diff_on_best[OF win]) (simp_all add: f1 s)
  then have filt: "filter_transactions ?E 0 ?h [] s1 = Some ([], s1)"
    by (simp add: filter_transactions_def get_left_bound_def f1 s cadd_def csub_def cmul_def u64_div_def)
  have seal: "crypto_sign (e_secp ?E) sk ?z = Inr (replicate 64 3 @ [1])" for sk
    by (simp add: accept_env_def mem_env_def sample_base_def crypto_sign_def unit_secp_def)
  have mo: "mined_ok ?E 0 ?h ?z []"
    by (simp add: mined_ok_def body_item_def) (auto simp: accept_env_def mem_env_def sample_base_def crypto_sign_def unit_secp_def)
  obtain b where b: "block_sign (e_sha3 ?E) (e_bo ?E) (e_secp ?E) (signer_private_key (c_config s1)) (block_init 1 t ?h [] ?z) = Some b"
    "h_hash (b_header b) = Some ?z"
  proof -
    let ?b = "block_init 1 t ?h [] ?z"
    let ?e = "rlp_enc (header_item (b_header ?b))"
    have "wf_rich ?E \<lparr>rh_header = b_header ?b, rh_verified = True\<rparr>"
      by (rule header_wf_rich[OF accept.sha3_law accept.bo_law]) (simp_all add: block_init_def hash_new_def)
    then have w: "wf_header (e_bo ?E) (b_header ?b)" by (simp add: wf_rich_def)
    have "\<exists>xs. ?e = xs @ replicate 65 0 \<and> 100 < length ?e"
      by (simp add: header_item_def proof_item_def rlp_enc.simps list_bytes_def data_bytes_def block_init_def hash_new_def)
    then obtain xs where xs: "?e = xs @ replicate 65 0" "100 < length ?e" by blast
    then have "e_sha3 ?E ?e = ?z" by (simp add: accept_sha3)
    then have "block_hash (e_sha3 ?E) (e_bo ?E) ?b = Some (?z, ?b\<lparr>b_header := (b_header ?b)\<lparr>h_hash := Some ?z\<rparr>\<rparr>)"
      using wf_header_emits(2)[OF w] init_unhashed by (simp add: block_hash_def header_hash_def rlp_hash_def)
    then show ?thesis using that by (simp add: block_sign_def seal)
  qed
  have good: "good_block ?E b" by (rule mined_block_good[OF accept.sha3_law accept.bo_law mo _ _ b(1)]) (simp_all add: cadd_def)
  have cell: "block_hash (e_sha3 ?E) (e_bo ?E) b = Some (?z, b)" by (simp add: block_hash_def header_hash_def b(2))
  have inv1: "chain_inv ?E mem_ok mem_view s1" using inv s1(2) f1 by (simp add: chain_inv_def settled_def waiting_ok_def)
  have full1: "window_full s1" using full f1 by (simp add: window_full_def)
  obtain x seal where bx: "b = (block_init 1 t ?h [] ?z)\<lparr>b_header := (b_header (block_init 1 t ?h [] ?z))
      \<lparr>h_hash := Some x, h_proof := \<lparr>time_signature = ?z, block_signature = seal\<rparr>\<rparr>\<rparr>"
    using signed_init[OF b(1)] by blast
  have "cadd (current_height s1) 1 = Some (h_height (b_header b))" "parent_hash (b_header b) = current_hash s1"
    using f1 by (simp_all add: bx block_init_def s cadd_def)
  from accept.extend_tip[OF inv1 full1 good cell this refl] obtain s2 where s2: "insert_at ?E b True s1 = Some s2" by blast
  have "mine_round ?E (Some t) 0 (pool_new list_lru 2 5) s = Some (Some b, t, pool_update [] (pool_new list_lru 2 5), s2)"
    using t s1(1) sig pz lim less pk filt b(1) s2 f1(3)
    by (simp add: mine_round_def get_status_def s cadd_def gen_block_def)
  moreover have "block_sign (e_sha3 ?E) (e_bo ?E) (e_secp ?E) (signer_private_key (c_config s)) (block_init 1 t ?h [] ?z) = Some b"
    using b(1) f1(3) by simp
  ultimately show ?thesis using good b(2) by blast
qed

theorem mined_block_accepted_witness:
  "\<exists>s b pool' s' r'. mine_round accept_env (Some 9) 0 (pool_new list_lru 2 5) s = Some (Some b, 9, pool', s') \<and>
    chain_insert accept_env (Some 10) b (s\<lparr>c_config := accept_config\<lparr>id_card := 2, miner_private_key := [1]\<rparr>\<rparr>) = Some (Inr (), r') \<and>
    get_status r' = (1, replicate 32 0)"
proof -
  obtain d where d: "chain_inv accept_env mem_ok mem_view (accept_state d)" "window_full (accept_state d)" "c_db (accept_state d) = d"
    "v_header accept_env (mem_view d) (accept_state d) =
      (\<lambda>k. if k = replicate 32 9 then Some (recelled (e_sha3 accept_env) \<lparr>rh_header = b_header (genesis 7), rh_verified = True\<rparr>) else None)"
    using accept_ready by blast
  let ?c = "accept_config\<lparr>id_card := 2, miner_private_key := [1]\<rparr>" and ?s = "accept_state d"
  let ?p = "recelled (e_sha3 accept_env) \<lparr>rh_header = b_header (genesis 7), rh_verified = True\<rparr>"
  have p: "v_header accept_env (mem_view (c_db ?s)) ?s (current_hash ?s) = Some ?p" by (simp add: d(3,4))
  have ts: "time_signature (h_proof (rh_header ?p)) = []" "h_timestamp (rh_header ?p) = 7"
    by (simp_all add: recelled_def genesis_def block_default_def header_default_def proof_default_def)
  obtain b pool' s' where b: "mine_round accept_env (Some 9) 0 (pool_new list_lru 2 5) ?s = Some (Some b, 9, pool', s')"
    "good_block accept_env b" "h_hash (b_header b) = Some (replicate 32 0)"
    using accept_mines[OF d(1) refl _ _ ts(1), of 9] p by auto
  obtain kp where kp: "keypair_from_privkey (e_secp accept_env) (signer_private_key (c_config ?s)) = Inr kp"
    by (simp add: accept_env_def mem_env_def sample_base_def unit_secp_def keypair_from_privkey_def secp_then_def)
  have secp: "secp_ok (e_secp accept_env)" using unit_secp_ok by (simp add: accept_env_def mem_env_def sample_base_def)
  have bls: "bls_ok (e_bls accept_env) sk pk g" for sk pk g by (simp add: bls_ok_def accept_env_def mem_env_def sample_base_def)
  have conf: "same_protocol ?c (c_config ?s)" by (simp add: same_protocol_def)
  have "\<exists>r'. chain_insert accept_env (Some 10) b (?s\<lparr>c_config := ?c\<rparr>) = Some (Inr (), r') \<and> chain_inv accept_env mem_ok mem_view r' \<and>
      get_status r' = (current_height ?s + 1, replicate 32 0)"
    by (rule mined_block_accepted[OF accept.chain_store_axioms d(1,2) _ b(1) conf secp kp _ bls _ _ p _ _ _ b(2,3), where pk = "[]" and g = "[]"])
      (simp_all add: ts(2) d(3,4))
  then show ?thesis using b(1) by auto
qed

theorem mined_at_parent_time_witness:
  "\<exists>s b pool' s' r'. mine_round accept_env (Some 7) 0 (pool_new list_lru 2 5) s = Some (Some b, 7, pool', s') \<and>
    get_status s' = (1, replicate 32 0) \<and> get_status r' = (0, replicate 32 9) \<and>
    chain_insert accept_env (Some 10) b (s\<lparr>c_config := accept_config\<rparr>) = Some (Inl InvalidTimestamp, r')"
proof -
  obtain d where d: "chain_inv accept_env mem_ok mem_view (accept_state d)" "window_full (accept_state d)" "c_db (accept_state d) = d"
    "v_header accept_env (mem_view d) (accept_state d) =
      (\<lambda>k. if k = replicate 32 9 then Some (recelled (e_sha3 accept_env) \<lparr>rh_header = b_header (genesis 7), rh_verified = True\<rparr>) else None)"
    using accept_ready by blast
  let ?s = "accept_state d" and ?p = "recelled (e_sha3 accept_env) \<lparr>rh_header = b_header (genesis 7), rh_verified = True\<rparr>"
  have p: "v_header accept_env (mem_view (c_db ?s)) ?s (current_hash ?s) = Some ?p" by (simp add: d(3,4))
  have ts: "time_signature (h_proof (rh_header ?p)) = []" "h_timestamp (rh_header ?p) = 7"
    by (simp_all add: recelled_def genesis_def block_default_def header_default_def proof_default_def)
  obtain b pool' s' where b: "mine_round accept_env (Some 7) 0 (pool_new list_lru 2 5) ?s = Some (Some b, 7, pool', s')"
    "good_block accept_env b" "h_hash (b_header b) = Some (replicate 32 0)"
    using accept_mines[OF d(1) refl _ _ ts(1), of 7] p by auto
  have conf: "same_protocol accept_config (c_config ?s)" by (simp add: same_protocol_def)
  have "get_status s' = (current_height ?s + 1, replicate 32 0) \<and>
      (\<exists>r'. chain_insert accept_env (Some 10) b (?s\<lparr>c_config := accept_config\<rparr>) = Some (Inl InvalidTimestamp, r') \<and> get_status r' = get_status ?s)"
    by (rule mined_at_parent_time[OF accept.chain_store_axioms d(1,2) _ b(1) conf _ _ p _ _ _ b(2,3)]) (simp_all add: ts(2) d(3,4))
  moreover have "get_status ?s = (0, replicate 32 9)" by (simp add: get_status_def)
  ultimately obtain r' where r: "get_status s' = (1, replicate 32 0)" "get_status r' = (0, replicate 32 9)"
    "chain_insert accept_env (Some 10) b (?s\<lparr>c_config := accept_config\<rparr>) = Some (Inl InvalidTimestamp, r')" by auto
  show ?thesis by (rule exI[of _ ?s], intro exI conjI, (rule b(1) r)+)
qed

end
