(* ===== verification/MinerRestart.thy ===== *)
theory MinerRestart
  imports Miner
begin

section \<open>A restart after mining\<close>


subsection \<open>Properties\<close>



end
