(* ===== verification/NetProtocol.thy ===== *)
theory NetProtocol
  imports Prelude
begin

section \<open>The wire protocol between nodes\<close>

text \<open>
  \<open>network/src/protocol.rs\<close>: the framing codec of the TCP server; \<open>network/src/connection.rs\<close>: the
  client's choice of peers and the frame it writes to them; \<open>network/src/msghandle.rs\<close>: what the
  server does with a frame. A \<open>BytesMut\<close> and a \<open>Vec<u8>\<close> are byte lists. The sockets, the threads
  and the framing loop of tokio are outside the model: writing to a stream is the pair of the
  peer and the bytes handed to \<open>write\<close>.
\<close>

subsection \<open>SleepyCodec\<close>

definition frame_flag :: u64 where
  "frame_flag = 0xDEADBEEF00000000"

definition codec_decode :: "byteorder \<Rightarrow> bytes \<Rightarrow> bytes option \<times> bytes" where
  "codec_decode bo buf =
     (if length buf < 8 then (None, buf)
      else let request_id = read_u64 bo buf in
        if request_id AND 0xffffffff00000000 \<noteq> frame_flag then (None, buf)
        else let msg_len = request_id AND 0x00000000ffffffff in
          if length buf < unat msg_len + 8 then (None, buf)
          else let buf1 = drop 8 buf
               in (Some (take (unat msg_len) buf1), drop (unat msg_len) buf1))"

text \<open>
  The frame header is computed in \<open>usize\<close> with a checked addition; \<open>None\<close> is its panic.
\<close>

definition codec_encode :: "byteorder \<Rightarrow> bytes \<Rightarrow> bytes \<Rightarrow> bytes option" where
  "codec_encode bo msg buf = do {
     request_id \<leftarrow> usize_add (unat frame_flag) (length msg);
     Some (buf @ write_u64 bo (of_nat request_id) @ msg)
   }"

subsection \<open>Connection\<close>

datatype operation = BROADCAST | SINGLE | SUBTRACT

definition is_send :: "u32 \<Rightarrow> u32 \<Rightarrow> operation \<Rightarrow> bool" where
  "is_send id_card origin operate \<longleftrightarrow>
     operate = BROADCAST \<or> (operate = SINGLE \<and> id_card = origin) \<or>
     (operate = SUBTRACT \<and> origin \<noteq> id_card)"

text \<open>
  A peer of \<open>peers_pair\<close>: its id, its address and whether its slot holds an open stream.
\<close>

record 'addr peer =
  peer_id :: u32
  peer_addr :: 'addr
  peer_stream :: bool

record 'addr connection =
  id_card :: u32
  peers_pair :: "'addr peer list"

definition broadcast_buf :: "byteorder \<Rightarrow> u32 \<Rightarrow> bytes \<Rightarrow> bytes option" where
  "broadcast_buf bo me msg = do {
     n \<leftarrow> usize_add (unat frame_flag) (length msg);
     request_id \<leftarrow> usize_add n 4;
     Some (write_u64 bo (of_nat request_id) @ write_u32 bo me @ msg)
   }"

definition broadcast ::
    "byteorder \<Rightarrow> 'addr connection \<Rightarrow> bytes \<Rightarrow> u32 \<Rightarrow> operation \<Rightarrow> (u32 \<times> bytes) list option" where
  "broadcast bo con msg origin operate = do {
     buf \<leftarrow> broadcast_buf bo (id_card con) msg;
     Some (map (\<lambda>p. (peer_id p, buf))
       (filter (\<lambda>p. peer_stream p)
         (filter (\<lambda>p. is_send (peer_id p) origin operate) (peers_pair con))))
   }"

subsection \<open>Message handler\<close>

text \<open>
  The handler forwards \<open>(origin, msg)\<close> on the channel to the main loop, or nothing for a payload
  of at most four bytes.
\<close>

definition net_msg_handler :: "byteorder \<Rightarrow> bytes \<Rightarrow> (u32 \<times> bytes) option" where
  "net_msg_handler bo payload =
     (if length payload > 4
      then Some (read_u32 bo (take 4 payload), drop 4 payload)
      else None)"

subsection \<open>The header word\<close>

lemma unat_frame_flag: "unat frame_flag = 3735928559 * 2 ^ 32"
  by (simp add: frame_flag_def)

lemma low_mask_val: "unat (w AND 0x00000000ffffffff :: u64) = unat w mod 2 ^ 32"
proof -
  have "(0x00000000ffffffff :: u64) = mask 32" by (simp add: mask_eq_exp_minus_1)
  then have "w AND 0x00000000ffffffff = take_bit 32 w" by (simp add: take_bit_eq_mask)
  then show ?thesis by (simp add: take_bit_eq_mod unat_mod)
qed

lemma high_mask_split: "unat w = unat (w AND 0xffffffff00000000 :: u64) + unat w mod 2 ^ 32"
proof -
  have "(0xffffffff00000000 :: u64) = NOT (mask 32)" by (simp add: mask_eq_exp_minus_1)
  then have hi: "w AND 0xffffffff00000000 = push_bit 32 (drop_bit 32 w)"
    by (simp add: bit_eq_iff bit_simps) (metis add.commute le_add_diff_inverse2 not_le)
  have lt: "unat w div 2 ^ 32 * 2 ^ 32 < 2 ^ 64"
    using unat_bound[of w] by simp
  have "push_bit 32 (drop_bit 32 w) = (w div 2 ^ 32) * 2 ^ 32"
    by (simp add: push_bit_eq_mult drop_bit_eq_div)
  then have "unat (push_bit 32 (drop_bit 32 w)) = unat w div 2 ^ 32 * 2 ^ 32"
    using lt by (simp add: unat_word_ariths unat_div)
  then show ?thesis using hi by simp
qed

lemma flag_iff:
  "(w AND 0xffffffff00000000 = frame_flag) \<longleftrightarrow> unat w div 2 ^ 32 = 3735928559"
proof -
  have "(w AND 0xffffffff00000000 = frame_flag)
      \<longleftrightarrow> unat (w AND 0xffffffff00000000) = 3735928559 * 2 ^ 32"
    by (simp only: unat_frame_flag [symmetric] word_unat_eq_iff)
  also have "\<dots> \<longleftrightarrow> unat w div 2 ^ 32 * 2 ^ 32 = 3735928559 * 2 ^ 32"
    using high_mask_split[of w] div_mult_mod_eq[of "unat w" "2 ^ 32"]
    by (metis add_right_cancel)
  also have "\<dots> \<longleftrightarrow> unat w div 2 ^ 32 = 3735928559" by simp
  finally show ?thesis .
qed

declare of_nat_add [simp del]

lemma frame_word:
  assumes "n < 2 ^ 32"
  shows "unat (of_nat (unat frame_flag + n) :: u64) = unat frame_flag + n"
    and "(of_nat (unat frame_flag + n) :: u64) AND 0xffffffff00000000 = frame_flag"
    and "unat ((of_nat (unat frame_flag + n) :: u64) AND 0x00000000ffffffff) = n"
proof -
  have "unat frame_flag + n < 2 ^ 64" using assms by (simp add: unat_frame_flag)
  then show u: "unat (of_nat (unat frame_flag + n) :: u64) = unat frame_flag + n"
    by (simp add: unat_of_nat)
  show "(of_nat (unat frame_flag + n) :: u64) AND 0xffffffff00000000 = frame_flag"
    using assms by (simp add: flag_iff u) (simp add: unat_frame_flag)
  show "unat ((of_nat (unat frame_flag + n) :: u64) AND 0x00000000ffffffff) = n"
    using assms by (simp only: low_mask_val u) (simp only: unat_frame_flag mod_mult_self3 mod_less)
qed

text \<open>What the decoder does on a buffer that starts with a header for \<open>n\<close> bytes.\<close>

lemma codec_decode_header:
  assumes "big_endian bo" and "n < 2 ^ 32"
  shows "codec_decode bo (write_u64 bo (of_nat (unat frame_flag + n)) @ rest) =
    (if length rest < n then (None, write_u64 bo (of_nat (unat frame_flag + n)) @ rest)
     else (Some (take n rest), drop n rest))"
  using assms frame_word[OF assms(2)]
  by (simp add: codec_decode_def read_u64_write_u64 Let_def)

lemma codec_decode_short:
  "length buf < 8 \<Longrightarrow> codec_decode bo buf = (None, buf)"
  by (simp add: codec_decode_def)

lemma codec_encode_append:
  "codec_encode bo msg buf = map_option ((@) buf) (codec_encode bo msg [])"
  by (auto simp: codec_encode_def usize_add_def)

lemma codec_encode_small:
  assumes "length msg < 2 ^ 32"
  shows "codec_encode bo msg buf =
    Some (buf @ write_u64 bo (of_nat (unat frame_flag + length msg)) @ msg)"
  using assms by (simp add: codec_encode_def usize_add_def unat_frame_flag)

subsection \<open>Streams of frames\<close>

text \<open>Several messages appended to one buffer, and as many decoding steps.\<close>

fun encode_all :: "byteorder \<Rightarrow> bytes list \<Rightarrow> bytes \<Rightarrow> bytes option" where
  "encode_all bo [] buf = Some buf"
| "encode_all bo (m # ms) buf = do { buf' \<leftarrow> codec_encode bo m buf; encode_all bo ms buf' }"

fun decode_steps :: "byteorder \<Rightarrow> nat \<Rightarrow> bytes \<Rightarrow> bytes list \<times> bytes" where
  "decode_steps bo 0 buf = ([], buf)"
| "decode_steps bo (Suc n) buf =
     (case codec_decode bo buf of
        (None, buf') \<Rightarrow> ([], buf')
      | (Some m, buf') \<Rightarrow> (let (ms, r) = decode_steps bo n buf' in (m # ms, r)))"

lemma encode_all_prefix:
  "encode_all bo ms buf = map_option ((@) buf) (encode_all bo ms [])"
proof (induction ms arbitrary: buf)
  case Nil
  then show ?case by simp
next
  case (Cons m ms)
  obtain r where r: "codec_encode bo m [] = r" by simp
  show ?case
  proof (cases r)
    case None
    with r show ?thesis by (simp add: codec_encode_append[of bo m buf])
  next
    case (Some b)
    with r have "codec_encode bo m buf = Some (buf @ b)"
      by (simp add: codec_encode_append[of bo m buf])
    with r Some show ?thesis
      by (simp add: Cons.IH[of "buf @ b"] Cons.IH[of b] option.map_comp o_def)
  qed
qed

text \<open>
  C39. Frames survive the wire: any list of messages shorter than 4 GiB, encoded one after the
  other into one buffer with arbitrary bytes behind them, is decoded to the same list, in order,
  by one decoding step each, and exactly the bytes behind the last frame stay in the buffer.
\<close>

theorem codec_stream_roundtrip:
  assumes "big_endian bo" and "list_all (\<lambda>m. length m < 2 ^ 32) msgs"
  shows "\<exists>buf. encode_all bo msgs [] = Some buf \<and>
    decode_steps bo (length msgs) (buf @ rest) = (msgs, rest)"
  using assms(2)
proof (induction msgs)
  case Nil
  then show ?case by simp
next
  case (Cons m ms)
  let ?h = "write_u64 bo (of_nat (unat frame_flag + length m))"
  from Cons obtain buf where buf: "encode_all bo ms [] = Some buf"
    and dec: "decode_steps bo (length ms) (buf @ rest) = (ms, rest)" by auto
  from Cons.prems have m: "length m < 2 ^ 32" by simp
  have "encode_all bo (m # ms) [] = Some (?h @ m @ buf)"
    using m by (simp add: codec_encode_small encode_all_prefix[of bo ms "?h @ m"] buf)
  moreover have "codec_decode bo ((?h @ m @ buf) @ rest) = (Some m, buf @ rest)"
    using codec_decode_header[OF assms(1) m, of "m @ buf @ rest"] by simp
  then have "decode_steps bo (length (m # ms)) ((?h @ m @ buf) @ rest) = (m # ms, rest)"
    using dec by simp
  ultimately show ?case by blast
qed

theorem codec_stream_roundtrip_witness:
  "\<exists>buf. encode_all byteorder_be [[1, 2], [], [3]] [] = Some buf \<and>
    decode_steps byteorder_be (length [[1, 2], [], [3 :: u8]]) (buf @ [9]) = ([[1, 2], [], [3]], [9])"
  by (rule codec_stream_roundtrip) simp_all

text \<open>
  A frame that has not arrived completely is left alone: on every proper prefix of an encoded
  frame the decoder returns nothing and keeps the buffer byte for byte.
\<close>

theorem codec_decode_partial:
  assumes "big_endian bo" and "length msg < 2 ^ 32" and "codec_encode bo msg [] = Some out"
    and "n < length out"
  shows "codec_decode bo (take n out) = (None, take n out)"
proof (cases "n < 8")
  case True
  with assms(4) show ?thesis by (simp add: codec_decode_short)
next
  case False
  let ?h = "write_u64 bo (of_nat (unat frame_flag + length msg))"
  have out: "out = ?h @ msg" using assms(2,3) by (simp add: codec_encode_small)
  have "take n out = ?h @ take (n - 8) msg" using False assms(1) by (simp add: out)
  moreover have "length (take (n - 8) msg) < length msg"
    using assms(1,4) False by (simp add: out)
  ultimately show ?thesis using codec_decode_header[OF assms(1,2)] by simp
qed

theorem codec_decode_partial_witness:
  "codec_decode byteorder_be (take 9 (be_bytes 8 0xDEADBEEF00000002 @ [7, 8])) =
     (None, take 9 (be_bytes 8 0xDEADBEEF00000002 @ [7, 8]))"
  by (rule codec_decode_partial[where msg = "[7, 8]", OF big_endian_byteorder_be])
    (simp_all add: codec_encode_def usize_add_def unat_frame_flag byteorder_be_def)

text \<open>
  A stream that loses synchronisation never recovers: once the eight bytes at the front of the
  buffer do not carry the flag, the decoder consumes nothing, whatever arrives later.
\<close>

theorem codec_decode_stuck:
  assumes "big_endian bo" and "8 \<le> length buf"
    and "read_u64 bo buf AND 0xffffffff00000000 \<noteq> frame_flag"
  shows "codec_decode bo (buf @ later) = (None, buf @ later)"
proof -
  have "read_u64 bo (buf @ later) = read_u64 bo buf"
    using assms(1,2) by (simp add: model_simps)
  with assms(2,3) show ?thesis by (simp add: codec_decode_def)
qed

theorem codec_decode_stuck_witness:
  "codec_decode byteorder_be ([0, 0, 0, 0, 0, 0, 0, 0] @ be_bytes 8 0xDEADBEEF00000000) =
     (None, [0, 0, 0, 0, 0, 0, 0, 0] @ be_bytes 8 0xDEADBEEF00000000)"
  by (rule codec_decode_stuck [OF big_endian_byteorder_be])
    (simp_all add: byteorder_be_def be_val_def frame_flag_def)

text \<open>
  The encoder does not check the length: the header of a message of 4 GiB or more carries into
  the flag, and the receiver rejects the frame and stays stuck on it.
\<close>

theorem codec_long_message_stuck:
  assumes "big_endian bo" and "2 ^ 32 \<le> length msg" and "codec_encode bo msg [] = Some out"
  shows "codec_decode bo (out @ later) = (None, out @ later)"
proof -
  let ?n = "unat frame_flag + length msg"
  from assms(3) have lt: "?n < 2 ^ 64"
    and out: "out = write_u64 bo (of_nat ?n) @ msg"
    by (auto simp: codec_encode_def bind_eq_Some_conv)
  have u: "unat (of_nat ?n :: u64) = ?n" using lt by (simp add: unat_of_nat)
  have "3735928560 * 2 ^ 32 \<le> ?n" using assms(2) by (simp add: unat_frame_flag)
  then have "3735928560 \<le> ?n div 2 ^ 32" by (simp add: less_eq_div_iff_mult_less_eq)
  then have "of_nat ?n AND 0xffffffff00000000 \<noteq> frame_flag" by (simp add: flag_iff u)
  then show ?thesis
    using assms(1) by (intro codec_decode_stuck) (simp_all add: out read_u64_write_u64)
qed

theorem codec_long_message_stuck_witness:
  "\<exists>out. codec_encode byteorder_be (replicate (2 ^ 32) 0) [] = Some out \<and>
    codec_decode byteorder_be (out @ []) = (None, out @ [])"
proof -
  obtain msg :: bytes where msg: "msg = replicate (2 ^ 32) 0" by simp
  then have len: "length msg = 2 ^ 32" by (simp del: replicate.simps)
  have "usize_add (unat frame_flag) (length msg) = Some (unat frame_flag + length msg)"
    unfolding len by (simp add: usize_add_def unat_frame_flag)
  then obtain out where out: "codec_encode byteorder_be msg [] = Some out"
    by (auto simp: codec_encode_def)
  have "codec_decode byteorder_be (out @ []) = (None, out @ [])"
    by (rule codec_long_message_stuck [OF big_endian_byteorder_be _ out]) (simp add: len)
  with out show ?thesis unfolding msg by blast
qed

subsection \<open>From a broadcast to the handler\<close>

lemma broadcast_buf_small:
  assumes "length msg + 4 < 2 ^ 32"
  shows "broadcast_buf bo me msg =
    Some (write_u64 bo (of_nat (unat frame_flag + (length msg + 4))) @ write_u32 bo me @ msg)"
  using assms by (simp add: broadcast_buf_def usize_add_def unat_frame_flag add.assoc)

text \<open>
  C40. Delivery: every connected peer that the operation selects gets one frame, in the order of
  the peer list, and on the receiving side the codec takes exactly that frame off the stream and the
  handler forwards the sender's own id with the message (a message of no bytes is dropped).
\<close>

theorem broadcast_delivers:
  assumes "big_endian bo" and "length msg + 4 < 2 ^ 32"
  shows "\<exists>buf payload. broadcast bo con msg origin operate =
        Some (map (\<lambda>p. (peer_id p, buf))
          (filter (\<lambda>p. peer_stream p \<and> is_send (peer_id p) origin operate) (peers_pair con))) \<and>
      codec_decode bo (buf @ rest) = (Some payload, rest) \<and>
      net_msg_handler bo payload = (if msg = [] then None else Some (id_card con, msg))"
proof -
  let ?h = "write_u64 bo (of_nat (unat frame_flag + (length msg + 4)))"
  let ?payload = "write_u32 bo (id_card con) @ msg"
  have buf: "broadcast_buf bo (id_card con) msg = Some (?h @ ?payload)"
    using assms(2) by (simp add: broadcast_buf_small)
  have dec: "codec_decode bo ((?h @ ?payload) @ rest) = (Some ?payload, rest)"
    using codec_decode_header[OF assms(1,2), of "?payload @ rest"] assms(1) by simp
  have "net_msg_handler bo ?payload = (if msg = [] then None else Some (id_card con, msg))"
    using assms(1) read_u32_write_u32[OF assms(1), of _ "[]"]
    by (simp add: net_msg_handler_def)
  moreover have "broadcast bo con msg origin operate = Some (map (\<lambda>p. (peer_id p, ?h @ ?payload))
      (filter (\<lambda>p. peer_stream p \<and> is_send (peer_id p) origin operate) (peers_pair con)))"
    by (simp add: broadcast_def buf conj_commute)
  ultimately show ?thesis using dec by blast
qed

theorem broadcast_delivers_witness:
  "\<exists>buf payload. broadcast byteorder_be
        \<lparr>id_card = 3, peers_pair = [\<lparr>peer_id = 1, peer_addr = (), peer_stream = True\<rparr>]\<rparr> [42] 1 SINGLE =
        Some (map (\<lambda>p. (peer_id p, buf))
          (filter (\<lambda>p. peer_stream p \<and> is_send (peer_id p) 1 SINGLE)
            (peers_pair \<lparr>id_card = 3,
              peers_pair = [\<lparr>peer_id = 1, peer_addr = (), peer_stream = True\<rparr>]\<rparr>))) \<and>
      codec_decode byteorder_be (buf @ []) = (Some payload, []) \<and>
      net_msg_handler byteorder_be payload =
        (if [42 :: u8] = [] then None else Some (id_card \<lparr>id_card = 3,
              peers_pair = [\<lparr>peer_id = 1, peer_addr = (), peer_stream = True\<rparr>]\<rparr>, [42]))"
  by (rule broadcast_delivers) simp_all

declare of_nat_add [simp]

end
