(* ===== verification/Node.thy ===== *)
theory Node
  imports MinerRestart NetProtocol
begin

section \<open>The node\<close>

text \<open>
  \<open>main.rs\<close>: the loop that handles the messages of the peers, the start and what the miner's thread sends. The crate
  that turns messages into bytes is the record \<open>bincode\<close>. The state has what was handed to the network, as destination or origin, operation
  and bytes (\<open>NetProtocol\<close> models what the network does with it). \<open>None\<close> is a panic.
\<close>

subsection \<open>Definitions\<close>

datatype msg_class =
    BLOCK block
  | SYNCREQ hash
  | TX signed_transaction
  | MSG bytes

record bincode =
  ser :: "msg_class \<Rightarrow> bytes"
  des :: "bytes \<Rightarrow> msg_class option"

definition carries :: "bincode \<Rightarrow> msg_class \<Rightarrow> bool" where
  "carries B m \<longleftrightarrow> des B (ser B m) = Some m"

record ('l, 'db) node =
  n_chain :: "'db chain"
  n_pool :: "'l pool"
  n_sent :: "(u32 \<times> operation \<times> bytes) list"

definition node_send :: "u32 \<Rightarrow> operation \<Rightarrow> bytes \<Rightarrow> ('l, 'db) node \<Rightarrow> ('l, 'db) node" where
  "node_send i op m n = n\<lparr>n_sent := n_sent n @ [(i, op, m)]\<rparr>"

definition node_start :: "('sk, 'pk, 'rs, 'db) env \<Rightarrow> 'l lru \<Rightarrow> sleepy_config \<Rightarrow> 'db \<Rightarrow> ('l, 'db) node option" where
  "node_start E L c d = do {
     s \<leftarrow> chain_init E c d;
     Some \<lparr>n_chain = s, n_pool = pool_new L 1000 300, n_sent = []\<rparr> }"

definition node_receive ::
    "('sk, 'pk, 'rs, 'db) env \<Rightarrow> 'l lru \<Rightarrow> bincode \<Rightarrow> u64 option \<Rightarrow> u32 \<times> bytes \<Rightarrow> ('l, 'db) node \<Rightarrow> ('l, 'db) node option" where
  "node_receive E L B now m n = do {
     let (origin, msg) = m;
     decoded \<leftarrow> des B msg;
     case decoded of
       BLOCK blk \<Rightarrow> do {
         (ret, s) \<leftarrow> chain_insert E now blk (n_chain n);
         let n = n\<lparr>n_chain := s\<rparr>;
         case ret of
           Inr _ \<Rightarrow> Some n
         | Inl err \<Rightarrow>
             if err = UnknownParent then Some (node_send origin SINGLE (ser B (SYNCREQ (parent_hash (b_header blk)))) n)
             else Some n }
     | SYNCREQ h \<Rightarrow> do {
         (r, s) \<leftarrow> get_block_by_hash E h (n_chain n);
         let n = n\<lparr>n_chain := s\<rparr>;
         case r of
           Some blk \<Rightarrow> Some (node_send origin SINGLE (ser B (BLOCK blk)) n)
         | None \<Rightarrow> Some n }
     | TX stx \<Rightarrow>
         (case tx_basic_check E stx of
            Inl _ \<Rightarrow> Some n
          | Inr _ \<Rightarrow>
              (let (ret, p) = enqueue L stx (stx_hash stx) (n_pool n); n = n\<lparr>n_pool := p\<rparr> in
               if ret then Some (node_send origin BROADCAST (ser B (TX stx)) n) else Some n))
     | MSG _ \<Rightarrow> Some n }"

text \<open>A round of the miner, with the message that it sends; \<open>time\<close> is the miner's last time.\<close>

definition node_mine ::
    "('sk, 'pk, 'rs, 'db) env \<Rightarrow> bincode \<Rightarrow> u64 option \<Rightarrow> u64 \<Rightarrow> ('l, 'db) node \<Rightarrow> (u64 \<times> ('l, 'db) node) option" where
  "node_mine E B now time n = do {
     (b, time, p, s) \<leftarrow> mine_round E now time (n_pool n) (n_chain n);
     let n' = n\<lparr>n_chain := s, n_pool := p\<rparr>;
     Some (time, case b of None \<Rightarrow> n' | Some b \<Rightarrow> node_send (sleepy_config.id_card (c_config (n_chain n))) BROADCAST (ser B (BLOCK b)) n') }"

subsection \<open>Lemmas\<close>

lemma check_loop_errors: "check_loop bh bt mx c txs ts \<noteq> Inl UnknownParent"
  by (induction bh bt mx c txs ts rule: check_loop.induct) auto

lemma checks_other_errors:
  assumes "check_transactions E b s = Some (c, s')"
  shows "c \<noteq> Inl UnknownParent"
proof -
  obtain below r s1 where d: "csub (h_height (b_header b)) 1 = Some below" "transactions_diff E below (parent_hash (b_header b)) s = Some (r, s1)"
    using assms by (auto simp: check_transactions_def bind_eq_Some_conv)
  show ?thesis
  proof (cases r)
    case (Inl e)
    then show ?thesis using assms d by (auto simp: check_transactions_def)
  next
    case (Inr p)
    obtain height ts where p: "p = (height, ts)" by force
    obtain k where k: "transactions_check (transactions (b_body b)) ts (txs_cache s1) (h_height (b_header b)) height s1 = Some k"
      "(case k of Inl e \<Rightarrow> Inl e | Inr _ \<Rightarrow> Inr True) = c"
      using assms d Inr p by (auto simp: check_transactions_def bind_eq_Some_conv)
    have "k \<noteq> Inl UnknownParent" using k(1) check_loop_errors by (auto simp: transactions_check_def bind_eq_Some_conv)
    then show ?thesis using k(2) by (cases k) auto
  qed
qed

lemma proof_other_errors:
  assumes "check_proof E b s = Some (r, s')"
  shows "r \<noteq> Inl UnknownParent"
proof -
  obtain below anc s1 where a: "csub (h_height (b_header b)) 1 = Some below" "anc_hash E below (parent_hash (b_header b)) s = Some (anc, s1)"
    using assms by (auto simp: check_proof_def bind_eq_Some_conv)
  show ?thesis
  proof (cases anc)
    case None
    then show ?thesis using assms a by (auto simp: check_proof_def)
  next
    case (Some h)
    obtain sp where sp: "sign_public (e_sha3 E) (e_bo E) (e_secp E) b = Some sp"
      and r: "(case sp of Inl e \<Rightarrow> Inl e
        | Inr sign_pub \<Rightarrow> (case get_proof_pub (c_config s1) sign_pub of None \<Rightarrow> Inl InvalidPublicKey
            | Some (proof_pub, proof_g) \<Rightarrow>
                if \<not> verify_proof (e_sha3 E) (e_bls E) (b_header b) h proof_pub proof_g then Inl InvalidProofKey else Inr ())) = r"
      using assms a Some by (auto simp: check_proof_def bind_eq_Some_conv)
    obtain x b' where hb: "block_hash (e_sha3 E) (e_bo E) b = Some (x, b')" using sp by (auto simp: sign_public_def bind_eq_Some_conv)
    then have "sp = (case crypto_recover (e_secp E) (block_signature (h_proof (b_header b'))) x of Inl _ \<Rightarrow> Inl ErrInvalidSignature | Inr k \<Rightarrow> Inr k)"
      using sp by (simp add: sign_public_def)
    then have "sp \<noteq> Inl UnknownParent" by (cases "crypto_recover (e_secp E) (block_signature (h_proof (b_header b'))) x") auto
    then show ?thesis using r by (cases sp) (auto split: option.splits if_splits)
  qed
qed

text \<open>A block whose parent is unknown waits under its parent.\<close>

lemma unknown_waits:
  assumes "chain_insert E now b s = Some (Inl UnknownParent, s')"
  shows "\<exists>x b' ws. block_hash (e_sha3 E) (e_bo E) b = Some (x, b') \<and> unknown_parent s' (parent_hash (b_header b)) = Some (ws @ [b'])"
proof -
  obtain x b' where hb: "block_hash (e_sha3 E) (e_bo E) b = Some (x, b')" using assms by (auto simp: chain_insert_def bind_eq_Some_conv)
  have cell: "block_hash (e_sha3 E) (e_bo E) b' = Some (x, b')" and p: "parent_hash (b_header b') = parent_hash (b_header b)"
    using hb by (auto simp: block_hash_def header_hash_def bind_eq_Some_conv split: option.splits)
  obtain r s1 where bc: "block_basic_check E now b' s = Some (r, s1)" using assms hb by (auto simp: chain_insert_def bind_eq_Some_conv)
  have other: "check_transactions E b' t = Some (c, t') \<Longrightarrow> c \<noteq> Inl UnknownParent" for c t t'
    by (rule checks_other_errors)
  have "r = Inl UnknownParent \<and> s1 = s'"
  proof (cases r)
    case (Inr u)
    then obtain c s2 where ct: "check_transactions E b' s1 = Some (c, s2)" using assms hb bc by (auto simp: chain_insert_def bind_eq_Some_conv)
    have "c = Inl UnknownParent" using assms hb bc Inr ct by (cases c) (auto simp: chain_insert_def bind_eq_Some_conv)
    then show ?thesis using other[OF ct] by simp
  qed (use assms hb bc in \<open>auto simp: chain_insert_def\<close>)
  then have "block_basic_check E now b' s = Some (Inl UnknownParent, s')" using bc by simp
  then show ?thesis using hb p
    by (auto simp: block_basic_check_def cell bind_eq_Some_conv Let_def split: if_splits option.splits dest: proof_other_errors)
qed

context chain_store
begin

lemma block_yields:
  assumes "chain_ok E dinv view st s"
  shows "yields E dinv view st s (get_block_by_hash E h s)
    (case (v_header E st s h, v_body st s h) of (Some hdr, Some bd) \<Rightarrow> Some \<lparr>b_header = rh_header hdr, b_body = bd\<rparr> | _ \<Rightarrow> None)"
  unfolding get_block_by_hash_def
proof (rule yields_bind[OF header_yields[OF assms]])
  fix s1 assume s1: "chain_ok E dinv view st s1" "same E st s s1"
  note b = body_yields[OF s1(1), of h, unfolded same_fields(10)[OF s1(2)]]
  show "yields E dinv view st s1 (Option.bind (get_block_body_by_hash E h s1) (\<lambda>(bd, s2). Some
      (case (v_header E st s h, bd) of (Some hdr, Some bd) \<Rightarrow> Some \<lparr>b_header = rh_header hdr, b_body = bd\<rparr> | _ \<Rightarrow> None, s2)))
    (case (v_header E st s h, v_body st s h) of (Some hdr, Some bd) \<Rightarrow> Some \<lparr>b_header = rh_header hdr, b_body = bd\<rparr> | _ \<Rightarrow> None)"
    by (rule yields_bind[OF b]) (rule yields_return)
qed

lemma sync_answer:
  assumes "chain_inv E dinv view (n_chain n)" and "carries B (SYNCREQ h)"
  shows "\<exists>s'. node_receive E L B now (i, ser B (SYNCREQ h)) n = Some
      (case (v_header E (view (c_db (n_chain n))) (n_chain n) h, v_body (view (c_db (n_chain n))) (n_chain n) h) of
         (Some hdr, Some bd) \<Rightarrow> node_send i SINGLE (ser B (BLOCK \<lparr>b_header = rh_header hdr, b_body = bd\<rparr>)) (n\<lparr>n_chain := s'\<rparr>)
       | _ \<Rightarrow> n\<lparr>n_chain := s'\<rparr>) \<and> chain_inv E dinv view s'"
proof -
  let ?s = "n_chain n"
  let ?r = "case (v_header E (view (c_db ?s)) ?s h, v_body (view (c_db ?s)) ?s h) of
    (Some hdr, Some bd) \<Rightarrow> Some \<lparr>b_header = rh_header hdr, b_body = bd\<rparr> | _ \<Rightarrow> None"
  obtain s' where s': "get_block_by_hash E h ?s = Some (?r, s')" "chain_inv E dinv view s'"
    using yields_inv[OF assms(1) block_yields[OF inv_ok[OF assms(1)], of h]] by blast
  have "node_receive E L B now (i, ser B (SYNCREQ h)) n =
    Some (case ?r of Some blk \<Rightarrow> node_send i SINGLE (ser B (BLOCK blk)) (n\<lparr>n_chain := s'\<rparr>) | None \<Rightarrow> n\<lparr>n_chain := s'\<rparr>)"
    using assms(2) s'(1) by (cases ?r) (auto simp: node_receive_def carries_def)
  then show ?thesis using s'(2) by (auto split: option.splits)
qed

lemma receive_keeps:
  assumes "chain_inv E dinv view (n_chain n)" and "pool_inv (n_pool n)" and "\<forall>b. des B msg = Some (BLOCK b) \<longrightarrow> good_block E b"
    and "node_receive E L B now (i, msg) n = Some n'"
  shows "chain_inv E dinv view (n_chain n') \<and> pool_inv (n_pool n')"
proof -
  obtain m where m: "des B msg = Some m" using assms(4) by (auto simp: node_receive_def bind_eq_Some_conv)
  note step = assms(4)[unfolded node_receive_def Let_def prod.case m Option.bind.simps]
  show ?thesis
  proof (cases m)
    case (BLOCK b)
    note st = step[unfolded BLOCK msg_class.case]
    obtain r s where r: "chain_insert E now b (n_chain n) = Some (r, s)" using st by (auto simp: bind_eq_Some_conv)
    have "chain_inv E dinv view s" by (rule keepsD[OF chain_insert_keeps[OF assms(1)] r]) (use assms(3) m BLOCK in simp)
    moreover have "n_chain n' = s \<and> n_pool n' = n_pool n"
      using st[unfolded r Option.bind.simps prod.case] by (cases r) (auto simp: node_send_def split: if_splits)
    ultimately show ?thesis using assms(2) by simp
  next
    case (SYNCREQ h)
    note st = step[unfolded SYNCREQ msg_class.case]
    obtain r s where r: "get_block_by_hash E h (n_chain n) = Some (r, s)" using st by (auto simp: bind_eq_Some_conv)
    have "chain_inv E dinv view s" by (rule keepsD[OF lookup_keeps[OF assms(1)] r])
    moreover have "n_chain n' = s \<and> n_pool n' = n_pool n"
      using st[unfolded r Option.bind.simps prod.case] by (cases r) (auto simp: node_send_def)
    ultimately show ?thesis using assms(2) by simp
  next
    case (TX t)
    note st = step[unfolded TX msg_class.case]
    obtain ok p where p: "enqueue L t (stx_hash t) (n_pool n) = (ok, p)" by force
    have "n_chain n' = n_chain n \<and> (n_pool n' = n_pool n \<or> n_pool n' = p)"
      using st[unfolded p prod.case] by (cases "tx_basic_check E t") (auto simp: node_send_def split: if_splits)
    then show ?thesis using assms(1,2) enqueue_inv[OF assms(2), of L t "stx_hash t"] p by auto
  next
    case (MSG x)
    then show ?thesis using step assms(1,2) by simp
  qed
qed

end

subsection \<open>Properties\<close>

text \<open>
  C6. A missing parent is fetched. When a block arrives whose parent is not known, it is kept under the hash of the
  parent, and its sender, and nobody else, is asked for that hash; a node that has the parent answers the question with the stored header and
  body, to the node that asked, without a panic and with its invariant intact.
\<close>

theorem missing_parent_fetched:
  assumes "chain_store E dinv view" and "carries B (BLOCK b)" and "carries B (SYNCREQ (parent_hash (b_header b)))"
    and "chain_inv E dinv view (n_chain na)"
    and "chain_insert E now b (n_chain nb) = Some (Inl UnknownParent, s)"
    and "v_header E (view (c_db (n_chain na))) (n_chain na) (parent_hash (b_header b)) = Some hdr"
    and "v_body (view (c_db (n_chain na))) (n_chain na) (parent_hash (b_header b)) = Some bd"
  shows "\<exists>nb' na' ws x b'. node_receive E L B now (ia, ser B (BLOCK b)) nb = Some nb' \<and>
    n_sent nb' = n_sent nb @ [(ia, SINGLE, ser B (SYNCREQ (parent_hash (b_header b))))] \<and>
    block_hash (e_sha3 E) (e_bo E) b = Some (x, b') \<and> unknown_parent (n_chain nb') (parent_hash (b_header b)) = Some (ws @ [b']) \<and>
    node_receive E L B now' (ib, snd (snd (last (n_sent nb')))) na = Some na' \<and> chain_inv E dinv view (n_chain na') \<and>
    n_sent na' = n_sent na @ [(ib, SINGLE, ser B (BLOCK \<lparr>b_header = rh_header hdr, b_body = bd\<rparr>))]"
proof -
  let ?q = "ser B (SYNCREQ (parent_hash (b_header b)))"
  let ?nb = "node_send ia SINGLE ?q (nb\<lparr>n_chain := s\<rparr>)"
  have nb: "node_receive E L B now (ia, ser B (BLOCK b)) nb = Some ?nb"
    using assms(2,5) by (simp add: node_receive_def carries_def)
  obtain x b' ws where w: "block_hash (e_sha3 E) (e_bo E) b = Some (x, b')" "unknown_parent s (parent_hash (b_header b)) = Some (ws @ [b'])"
    using unknown_waits[OF assms(5)] by blast
  obtain s' where s': "node_receive E L B now' (ib, ?q) na =
      Some (node_send ib SINGLE (ser B (BLOCK \<lparr>b_header = rh_header hdr, b_body = bd\<rparr>)) (na\<lparr>n_chain := s'\<rparr>))" "chain_inv E dinv view s'"
    using chain_store.sync_answer[OF assms(1,4,3), of L now' ib] assms(6,7) by auto
  let ?na = "node_send ib SINGLE (ser B (BLOCK \<lparr>b_header = rh_header hdr, b_body = bd\<rparr>)) (na\<lparr>n_chain := s'\<rparr>)"
  show ?thesis
    by (rule exI[of _ ?nb], rule exI[of _ ?na], rule exI[of _ ws], rule exI[of _ x], rule exI[of _ b'], intro conjI, rule nb)
      (use w s' in \<open>simp_all add: node_send_def\<close>)
qed

text \<open>A node with an empty store does not know the parent.\<close>

lemma accept_orphan:
  "\<exists>s. chain_insert accept_env (Some 10) accept_block (accept_state sample_db) = Some (Inl UnknownParent, s)"
proof -
  let ?h = "replicate 32 9 :: hash" and ?x = "replicate 32 1 :: hash" and ?E = accept_env and ?s = "accept_state sample_db"
  let ?b = "accept_block\<lparr>b_header := (b_header accept_block)\<lparr>h_hash := Some ?x\<rparr>\<rparr>"
  have ok: "chain_ok ?E mem_ok mem_view (mem_view sample_db) ?s"
    using accept.new_ok[OF sample_db_ok sample_db_good, of "txs_cache ?s" accept_config 12] by (simp add: accept_state_def chain_ok_def tables_ok_def)
  have v: "v_header ?E (mem_view sample_db) ?s k = None" for k
    by (simp add: v_header_def table_view_def sample_db_view) (simp add: accept_state_def chain_new_def)
  from accept.header_yields[OF ok, of ?x] obtain s1 where s1: "get_block_header_by_hash ?E ?x ?s = Some (None, s1)"
    "chain_ok ?E mem_ok mem_view (mem_view sample_db) s1" "same ?E (mem_view sample_db) ?s s1" by (auto simp: yields_def v)
  from accept.header_yields[OF s1(2), of ?h] obtain s2 where s2: "get_block_header_by_hash ?E ?h s1 = Some (None, s2)"
    using same_fields(9)[OF s1(3)] by (auto simp: yields_def v)
  obtain df limit where df: "difficulty (e_sha3 ?E) (b_header accept_block) = Some df" "get_difficulty accept_config = Some limit"
    "uint_cmp df limit \<noteq> Greater" using accept_difficulty by blast
  have dfb: "difficulty (e_sha3 ?E) (b_header ?b) = Some df" using df(1) by (simp add: difficulty_def)
  have cell: "block_hash (e_sha3 ?E) (e_bo ?E) ?b = Some (?x, ?b)" by (simp add: block_hash_def header_hash_def)
  have "\<exists>s. block_basic_check ?E (Some 10) ?b ?s = Some (Inl UnknownParent, s)"
    using df(2,3) dfb s1(1) s2 by (simp add: block_basic_check_def cell cmul_def cadd_def)
  then show ?thesis using accept_hash by (auto simp: chain_insert_def)
qed

text \<open>An encoding that carries one block and one transaction, for the examples.\<close>

definition sample_bincode :: bincode where
  "sample_bincode = \<lparr>
     ser = (\<lambda>m. case m of BLOCK b \<Rightarrow> [0] | SYNCREQ h \<Rightarrow> 1 # h | TX t \<Rightarrow> 2 # tx_data (stx_transaction t) | MSG m \<Rightarrow> 3 # m),
     des = (\<lambda>bs. case bs of [] \<Rightarrow> None | b # bs \<Rightarrow>
       if b = 0 then Some (BLOCK accept_block) else if b = 1 then Some (SYNCREQ bs)
       else if b = 2 then Some (TX (sample_tx 1\<lparr>stx_transaction := \<lparr>tx_data = bs, tx_timestamp = 0\<rparr>\<rparr>)) else Some (MSG bs))\<rparr>"

lemma sample_carries: "carries sample_bincode (BLOCK accept_block)" "carries sample_bincode (SYNCREQ h)"
  "carries sample_bincode (TX (sample_tx 1))" "carries sample_bincode (TX (sample_tx 1\<lparr>stx_transaction := \<lparr>tx_data = [9], tx_timestamp = 0\<rparr>\<rparr>))"
  by (simp_all add: carries_def sample_bincode_def sample_tx_def)

definition sample_node :: "in_mem chain \<Rightarrow> (nat \<times> hash list, in_mem) node" where
  "sample_node s = \<lparr>n_chain = s, n_pool = pool_new list_lru 2 5, n_sent = []\<rparr>"

theorem missing_parent_fetched_witness:
  "\<exists>nb na nb' na' reply. node_receive accept_env list_lru sample_bincode (Some 10) (1, ser sample_bincode (BLOCK accept_block)) nb = Some nb' \<and>
    n_sent nb' = [(1, SINGLE, ser sample_bincode (SYNCREQ (replicate 32 9)))] \<and>
    node_receive accept_env list_lru sample_bincode (Some 10) (2, snd (snd (last (n_sent nb')))) na = Some na' \<and>
    n_sent na' = [(2, SINGLE, ser sample_bincode (BLOCK reply))] \<and> h_height (b_header reply) = 0"
proof -
  obtain s where s: "chain_insert accept_env (Some 10) accept_block (accept_state sample_db) = Some (Inl UnknownParent, s)"
    using accept_orphan by blast
  let ?r = "recelled (e_sha3 accept_env) \<lparr>rh_header = b_header (genesis 7), rh_verified = True\<rparr>"
  obtain d where d: "chain_inv accept_env mem_ok mem_view (accept_state d)" "c_db (accept_state d) = d"
    "v_body (mem_view d) (accept_state d) (replicate 32 9) = Some body_default"
    "v_header accept_env (mem_view d) (accept_state d) = (\<lambda>k. if k = replicate 32 9 then Some ?r else None)"
    using accept_ready by blast
  let ?na = "sample_node (accept_state d)" and ?nb = "sample_node (accept_state sample_db)"
  have a: "chain_inv accept_env mem_ok mem_view (n_chain ?na)"
    "v_header accept_env (mem_view (c_db (n_chain ?na))) (n_chain ?na) (parent_hash (b_header accept_block)) = Some ?r"
    "v_body (mem_view (c_db (n_chain ?na))) (n_chain ?na) (parent_hash (b_header accept_block)) = Some body_default"
    using d by (simp_all add: sample_node_def)
  have b: "chain_insert accept_env (Some 10) accept_block (n_chain ?nb) = Some (Inl UnknownParent, s)" using s by (simp add: sample_node_def)
  have "h_height (b_header \<lparr>b_header = rh_header ?r, b_body = body_default\<rparr>) = 0"
    by (simp add: recelled_def genesis_def block_default_def header_default_def)
  moreover have "n_sent ?na = []" "n_sent ?nb = []" by (simp_all add: sample_node_def)
  ultimately show ?thesis
    using missing_parent_fetched[OF accept.chain_store_axioms sample_carries(1,2) a(1) b a(2,3), of list_lru 1 "Some 10" 2] by fastforce
qed

text \<open>
  The answer can be a block with another hash. Once the header has left the cache it is read from the store, where its hash is
  computed anew; for a block that is stored under another key, as every block that a node has signed is
  (\<open>ChainTypes.signed_hash_not_stored\<close>), the block that is sent does not have the hash that was asked for, and what waits for that hash waits on.
\<close>

theorem sync_reply_other_hash:
  assumes "chain_store E dinv view" and "chain_inv E dinv view (n_chain n)" and "carries B (SYNCREQ h)"
    and "block_headers (n_chain n) h = None" and "view (c_db (n_chain n)) COL_HEADERS (header_key h) = Some (rlp_enc (rich_item r))"
    and "wf_rich E r" and "v_body (view (c_db (n_chain n))) (n_chain n) h = Some bd"
    and "e_sha3 E (rlp_enc (header_item (rh_header r))) \<noteq> h"
  shows "\<exists>n' b y. node_receive E L B now (i, ser B (SYNCREQ h)) n = Some n' \<and> n_sent n' = n_sent n @ [(i, SINGLE, ser B (BLOCK b))] \<and>
    h_hash (b_header b) = Some y \<and> y \<noteq> h \<and> b_body b = bd"
proof -
  have v: "v_header E (view (c_db (n_chain n))) (n_chain n) h = Some (recelled (e_sha3 E) r)"
    using assms(4,5) rich_trip(2)[OF assms(6)] by (simp add: v_header_def table_view_def)
  obtain s' where "node_receive E L B now (i, ser B (SYNCREQ h)) n = Some
      (node_send i SINGLE (ser B (BLOCK \<lparr>b_header = rh_header (recelled (e_sha3 E) r), b_body = bd\<rparr>)) (n\<lparr>n_chain := s'\<rparr>))"
    using chain_store.sync_answer[OF assms(1-3), of L now i] assms(7) v by auto
  then show ?thesis using assms(8)
    by (intro exI[of _ "node_send i SINGLE (ser B (BLOCK \<lparr>b_header = rh_header (recelled (e_sha3 E) r), b_body = bd\<rparr>)) (n\<lparr>n_chain := s'\<rparr>)"]
      exI[of _ "\<lparr>b_header = rh_header (recelled (e_sha3 E) r), b_body = bd\<rparr>"]) (simp add: node_send_def recelled_def)
qed

theorem sync_reply_other_hash_witness:
  "\<exists>n n' b y. node_receive accept_env list_lru sample_bincode None (1, ser sample_bincode (SYNCREQ (replicate 32 9))) n = Some n' \<and>
    n_sent n' = [(1, SINGLE, ser sample_bincode (BLOCK b))] \<and> h_hash (b_header b) = Some y \<and> y \<noteq> replicate 32 9"
proof -
  let ?E = accept_env and ?h = "replicate 32 9 :: hash" and ?r = "\<lparr>rh_header = b_header (genesis 7), rh_verified = True\<rparr>"
  have gg: "good_block ?E (genesis 7)" by (rule genesis_good[OF accept.sha3_law accept.bo_law])
  then have r: "wf_rich ?E ?r" "good_body (e_bo ?E) body_default" by (simp_all add: good_block_def genesis_def block_default_def)
  obtain d where d: "mem_ok d" "db_good ?E (mem_view d)"
    "\<And>k. mem_view d COL_HEADERS k = (if k = ?h then Some (rlp_enc (rich_item ?r)) else None)"
    "\<And>k. mem_view d COL_BODIES k = (if k = body_key ?h then Some (rlp_enc (body_item body_default)) else None)"
    using one_block_store[of "sample_base\<lparr>e_sha3 := (\<lambda>b. if length b > 100 then rev b else [])\<rparr>", folded accept_env_def, OF r, of ?h "body_key ?h"]
    by blast
  let ?n = "sample_node (accept_state d)"
  have db: "c_db (accept_state d) = d" "block_headers (accept_state d) = (\<lambda>_. None)" "block_bodies (accept_state d) = (\<lambda>_. None)"
    "unknown_parent (accept_state d) = (\<lambda>_. None)" "future_blocks (accept_state d) = []"
    by (simp_all add: accept_state_def chain_new_def)
  have "chain_ok ?E mem_ok mem_view (mem_view d) (accept_state d)"
    using accept.new_ok[OF d(1,2), of "txs_cache (accept_state d)" accept_config 12] by (simp add: accept_state_def chain_ok_def tables_ok_def)
  then have inv: "chain_inv ?E mem_ok mem_view (n_chain ?n)" by (simp add: sample_node_def chain_inv_def settled_def waiting_ok_def db)
  have st: "block_headers (n_chain ?n) ?h = None" "mem_view (c_db (n_chain ?n)) COL_HEADERS (header_key ?h) = Some (rlp_enc (rich_item ?r))"
    "v_body (mem_view (c_db (n_chain ?n))) (n_chain ?n) ?h = Some body_default"
    using d(3,4) body_trip(2)[OF r(2)] by (simp_all add: sample_node_def db header_key_def v_body_def table_view_def)
  let ?e = "rlp_enc (header_item (b_header (genesis 7)))"
  have "\<exists>xs. ?e = xs @ replicate 65 0"
    by (simp add: header_item_def proof_item_def rlp_enc.simps list_bytes_def data_bytes_def genesis_def block_default_def header_default_def
      proof_default_def hash_new_def)
  then obtain xs where xs: "?e = xs @ replicate 65 0" by blast
  have "e_sha3 ?E ?e = replicate 32 0"
    by (cases "length ?e > 100") (simp_all add: accept_sha3 xs)
  then have ne: "e_sha3 ?E (rlp_enc (header_item (rh_header ?r))) \<noteq> ?h" by simp
  have "n_sent ?n = []" by (simp add: sample_node_def)
  then show ?thesis
    using sync_reply_other_hash[OF accept.chain_store_axioms inv sample_carries(2) st(1,2) r(1) st(3) ne, of list_lru None 1] by fastforce
qed

text \<open>What a node does one after the other: it handles a message, or its miner makes a round.\<close>

datatype node_event = Receives "u64 option" "u32 \<times> bytes" | Mines "u64 option" u64

fun node_step ::
    "('sk, 'pk, 'rs, 'db) env \<Rightarrow> 'l lru \<Rightarrow> bincode \<Rightarrow> node_event \<Rightarrow> ('l, 'db) node \<Rightarrow> ('l, 'db) node option" where
  "node_step E L B (Receives now m) n = node_receive E L B now m n"
| "node_step E L B (Mines now time) n = map_option snd (node_mine E B now time n)"

fun node_steps ::
    "('sk, 'pk, 'rs, 'db) env \<Rightarrow> 'l lru \<Rightarrow> bincode \<Rightarrow> node_event list \<Rightarrow> ('l, 'db) node \<Rightarrow> ('l, 'db) node option" where
  "node_steps E L B [] n = Some n"
| "node_steps E L B (e # es) n = Option.bind (node_step E L B e n) (node_steps E L B es)"

text \<open>A step asks the filter for one hash at most.\<close>

lemma receive_filter:
  assumes "node_receive E L B now m n = Some n'"
  shows "n_pool n' = n_pool n \<or> (\<exists>h. p_filter (n_pool n') = snd (filter_check L h (p_filter (n_pool n))))"
proof -
  obtain i msg where m: "m = (i, msg)" by force
  obtain c where c: "des B msg = Some c" using assms by (auto simp: m node_receive_def bind_eq_Some_conv)
  note step = assms[unfolded m node_receive_def Let_def prod.case c Option.bind.simps]
  show ?thesis
  proof (cases c)
    case (BLOCK b)
    note st = step[unfolded BLOCK msg_class.case]
    obtain r s where r: "chain_insert E now b (n_chain n) = Some (r, s)" using st by (auto simp: bind_eq_Some_conv)
    show ?thesis using st[unfolded r Option.bind.simps prod.case] by (cases r) (auto simp: node_send_def split: if_splits)
  next
    case (SYNCREQ h)
    note st = step[unfolded SYNCREQ msg_class.case]
    obtain r s where r: "get_block_by_hash E h (n_chain n) = Some (r, s)" using st by (auto simp: bind_eq_Some_conv)
    show ?thesis using st[unfolded r Option.bind.simps prod.case] by (cases r) (auto simp: node_send_def)
  next
    case (TX t)
    have "p_filter (snd (enqueue L t (stx_hash t) p)) = snd (filter_check L (stx_hash t) (p_filter p))" for p
      by (cases "lru_contains L (stx_hash t) (p_filter p)") (simp_all add: enqueue_simps filter_check_def)
    moreover have "n_pool n' = n_pool n \<or> n_pool n' = snd (enqueue L t (stx_hash t) (n_pool n))"
      using step unfolding TX by (auto simp: node_send_def split: sum.splits if_splits prod.splits)
    ultimately show ?thesis by metis
  next
    case (MSG x)
    then show ?thesis using step by simp
  qed
qed

lemma mine_filter:
  assumes "node_mine E B now time n = Some (time', n')"
  shows "p_filter (n_pool n') = p_filter (n_pool n)"
proof -
  obtain b p s where r: "mine_round E now time (n_pool n) (n_chain n) = Some (b, time', p, s)"
    and n': "n_pool n' = p"
    using assms by (auto simp: node_mine_def bind_eq_Some_conv node_send_def Let_def split: option.splits)
  have "p_filter p = p_filter (n_pool n)"
    using r by (auto simp: mine_round_def get_status_def bind_eq_Some_conv Let_def pool_update_def update_order_set_def split: option.splits if_splits)
  then show ?thesis using n' by simp
qed

text \<open>A hash among the \<open>i\<close> youngest of the filter is among the \<open>i + 1\<close> youngest after a step.\<close>

lemma filter_ages:
  assumes "lru_ok L keys cap" and "h \<in> set (take i (keys f))" and "Suc i \<le> cap f"
  shows "h \<in> set (take (Suc i) (keys (snd (filter_check L h' f))))" and "cap (snd (filter_check L h' f)) = cap f"
proof -
  show "h \<in> set (take (Suc i) (keys (snd (filter_check L h' f))))"
  proof (cases "lru_contains L h' f")
    case True
    have "set (take i (keys f)) \<subseteq> set (take (Suc i) (keys f))" by (rule set_take_subset_set_take) simp
    then show ?thesis using assms(2) True by (auto simp: filter_check_def)
  next
    case False
    then have "h' \<notin> set (keys f)" using assms(1) by (simp add: lru_ok_def)
    then have "keys (snd (filter_check L h' f)) = take (cap f) (h' # keys f)"
      using assms(1) False by (simp add: filter_check_def lru_ok_def remove1_idem)
    then have "take (Suc i) (keys (snd (filter_check L h' f))) = h' # take i (keys f)"
      using assms(3) by (simp only: take_take min_absorb1 take_Suc_Cons)
    then show ?thesis using assms(2) by simp
  qed
  show "cap (snd (filter_check L h' f)) = cap f" using assms(1) by (simp add: filter_check_def lru_ok_def Let_def)
qed

lemma steps_remember:
  assumes "lru_ok L keys cap"
  shows "node_steps E L B es n = Some n' \<Longrightarrow> h \<in> set (take i (keys (p_filter (n_pool n)))) \<Longrightarrow>
    i + length es \<le> cap (p_filter (n_pool n)) \<Longrightarrow> h \<in> set (keys (p_filter (n_pool n')))"
proof (induction es arbitrary: n i)
  case Nil
  then show ?case by (auto dest: in_set_takeD)
next
  case (Cons e es)
  let ?f = "p_filter (n_pool n)"
  obtain n1 where n1: "node_step E L B e n = Some n1" "node_steps E L B es n1 = Some n'"
    using Cons.prems(1) by (auto simp: bind_eq_Some_conv)
  have "p_filter (n_pool n1) = ?f \<or> (\<exists>h. p_filter (n_pool n1) = snd (filter_check L h ?f))"
  proof (cases e)
    case (Receives now m)
    then show ?thesis using receive_filter[of E L B now m n n1] n1(1) by auto
  next
    case (Mines now time)
    then show ?thesis using mine_filter[of E B now time n] n1(1) by auto
  qed
  moreover have "set (take i (keys ?f)) \<subseteq> set (take (Suc i) (keys ?f))" by (rule set_take_subset_set_take) simp
  ultimately have "h \<in> set (take (Suc i) (keys (p_filter (n_pool n1))))" "cap (p_filter (n_pool n1)) = cap ?f"
    using filter_ages[OF assms Cons.prems(2)] Cons.prems(2,3) by auto
  then show ?case using Cons.IH[OF n1(2), of "Suc i"] Cons.prems(3) by simp
qed

text \<open>
  C7. The first transaction with a hash wins, whatever it contains. The hash of a transaction is what its sender writes there, and its check
  looks at that hash and the signature only. So a peer can put other contents under the hash and the signature of a
  transaction it has seen: when the filter does not hold the hash, the forged one passes the check, enters the pool and is broadcast once.
  During the steps that follow, of which there may be any number below the capacity of the filter, messages and rounds of the miner in any order,
  every transaction with that hash, the true one included, from whichever peer, is dropped without a message and without a change of state.
  (Afterwards the filter may have forgotten the hash, see \<open>TxPool.enqueued_twice\<close>.)
\<close>

theorem first_transaction_wins:
  assumes "lru_ok L keys cap" and "0 < cap (p_filter (n_pool n))" and "carries B (TX t')"
    and "tx_basic_check E t = Inr ()" and "stx_hash t' = stx_hash t" and "stx_signature t' = stx_signature t"
    and "stx_hash t \<notin> set (keys (p_filter (n_pool n)))"
  shows "\<exists>n1. node_receive E L B now (i, ser B (TX t')) n = Some n1 \<and> n_sent n1 = n_sent n @ [(i, BROADCAST, ser B (TX t'))] \<and>
    hm_get (p_txs (n_pool n1)) (stx_hash t) = Some t' \<and>
    (\<forall>es n2 u now' j. length es < cap (p_filter (n_pool n)) \<and> node_steps E L B es n1 = Some n2 \<and> carries B (TX u) \<and> stx_hash u = stx_hash t \<longrightarrow>
      node_receive E L B now' (j, ser B (TX u)) n2 = Some n2)"
proof -
  have c: "\<not> lru_contains L (stx_hash t) (p_filter (n_pool n))" using assms(1,7) by (simp add: lru_ok_def)
  have k: "tx_basic_check E t' = Inr ()" using assms(4-6) by (simp add: tx_basic_check_def recover_public_def)
  let ?p = "snd (enqueue L t' (stx_hash t) (n_pool n))"
  let ?n = "node_send i BROADCAST (ser B (TX t')) (n\<lparr>n_pool := ?p\<rparr>)"
  have recv: "node_receive E L B now (i, ser B (TX t')) n = Some ?n"
    using assms(3,5) k c by (simp add: node_receive_def carries_def enqueue_simps)
  have f: "keys (p_filter ?p) = take (cap (p_filter (n_pool n))) (stx_hash t # remove1 (stx_hash t) (keys (p_filter (n_pool n))))"
    "cap (p_filter ?p) = cap (p_filter (n_pool n))"
    using assms(1) c by (simp_all add: enqueue_simps lru_ok_def)
  then have h: "stx_hash t \<in> set (take 1 (keys (p_filter (n_pool ?n))))"
    using assms(2) by (cases "cap (p_filter (n_pool n))") (auto simp: node_send_def)
  have drop: "node_receive E L B now' (j, ser B (TX u)) n2 = Some n2"
    if "length es < cap (p_filter (n_pool n)) \<and> node_steps E L B es ?n = Some n2 \<and> carries B (TX u) \<and> stx_hash u = stx_hash t" for es n2 u now' j
  proof -
    have "stx_hash t \<in> set (keys (p_filter (n_pool n2)))"
      using steps_remember[OF assms(1) _ h, of E B es n2] that f(2) by (simp add: node_send_def)
    then have "lru_contains L (stx_hash u) (p_filter (n_pool n2))" using assms(1) that by (simp add: lru_ok_def)
    then have "enqueue L u (stx_hash u) (n_pool n2) = (False, n_pool n2)" by (simp add: enqueue_simps)
    then show ?thesis using that by (simp add: node_receive_def carries_def split: sum.split)
  qed
  have "hm_get (p_txs (n_pool ?n)) (stx_hash t) = Some t'" using c by (simp add: enqueue_simps node_send_def)
  moreover have "n_sent ?n = n_sent n @ [(i, BROADCAST, ser B (TX t'))]" by (simp add: node_send_def)
  ultimately show ?thesis using drop recv by blast
qed

text \<open>The forged transaction comes first, then some other message, then the true transaction.\<close>

theorem first_transaction_wins_witness:
  "\<exists>n n1 n2. node_receive accept_env list_lru sample_bincode None (1, [2, 9]) n = Some n1 \<and> n_sent n1 = [(1, BROADCAST, [2, 9])] \<and>
    node_steps accept_env list_lru sample_bincode [Receives None (1, [2, 9])] n1 = Some n2 \<and>
    node_receive accept_env list_lru sample_bincode None (2, ser sample_bincode (TX (sample_tx 1))) n2 = Some n2"
proof -
  let ?t' = "sample_tx 1\<lparr>stx_transaction := \<lparr>tx_data = [9], tx_timestamp = 0\<rparr>\<rparr>" and ?n = "sample_node (accept_state sample_db)"
  have k: "tx_basic_check accept_env (sample_tx 1) = Inr ()"
    by (simp add: tx_basic_check_def recover_public_def crypto_recover_def accept_env_def mem_env_def sample_base_def unit_secp_def)
  have f: "stx_hash (sample_tx 1) \<notin> set (snd (p_filter (n_pool ?n)))" "1 < fst (p_filter (n_pool ?n))"
    by (simp_all add: sample_node_def pool_new_def filter_new_def list_lru_def)
  have ser: "ser sample_bincode (TX ?t') = [2, 9]" by (simp add: sample_bincode_def)
  have pos: "0 < fst (p_filter (n_pool ?n))" using f(2) by simp
  have e: "stx_hash ?t' = stx_hash (sample_tx 1)" "stx_signature ?t' = stx_signature (sample_tx 1)" by simp_all
  obtain n1 where n1: "node_receive accept_env list_lru sample_bincode None (1, [2, 9]) ?n = Some n1"
    "n_sent n1 = n_sent ?n @ [(1, BROADCAST, [2, 9])]"
    and drop: "\<And>es n2 u j. length es < fst (p_filter (n_pool ?n)) \<and> node_steps accept_env list_lru sample_bincode es n1 = Some n2 \<and>
      carries sample_bincode (TX u) \<and> stx_hash u = stx_hash (sample_tx 1) \<Longrightarrow>
      node_receive accept_env list_lru sample_bincode None (j, ser sample_bincode (TX u)) n2 = Some n2"
    using first_transaction_wins[OF list_lru_ok pos sample_carries(4) k e f(1), of None 1] unfolding ser by blast
  have s: "node_steps accept_env list_lru sample_bincode [Receives None (1, [2, 9])] n1 = Some n1"
    using drop[of "[]" n1 ?t' 1] sample_carries(4) f(2) by (simp add: ser)
  have "n_sent ?n = []" by (simp add: sample_node_def)
  moreover have "node_receive accept_env list_lru sample_bincode None (2, ser sample_bincode (TX (sample_tx 1))) n1 = Some n1"
    using drop[of "[Receives None (1, [2, 9])]" n1 "sample_tx 1" 2] s f(2) sample_carries(3) by simp
  ultimately show ?thesis using n1 s by auto
qed

end
