(* ===== verification/AvlNode.thy ===== *)
theory AvlNode
  imports RlpCompress Merkle Containers
begin

section \<open>Nodes of the hashed tree, and lookups in it\<close>

text \<open>
  \<open>util/src/avl/node.rs\<close>, \<open>lookup.rs\<close>, \<open>recorder.rs\<close>, the errors and queries of \<open>mod.rs\<close>, and the trait of
  \<open>util/hashdb\<close>. A node is stored as RLP bytes; a child of a branch is the hash of its bytes, or the bytes
  themselves when they are short. The database behind the trait is the record \<open>hash_db\<close>. \<open>None\<close> is a panic.
\<close>

subsection \<open>Definitions\<close>

type_synonym node_key = bytes
type_synonym db_value = bytes

record 'db hash_db =
  hd_get :: "'db \<Rightarrow> hash \<Rightarrow> db_value option"
  hd_contains :: "'db \<Rightarrow> hash \<Rightarrow> bool"
  hd_insert :: "'db \<Rightarrow> bytes \<Rightarrow> hash \<times> 'db"
  hd_emplace :: "'db \<Rightarrow> hash \<Rightarrow> db_value \<Rightarrow> 'db"
  hd_remove :: "'db \<Rightarrow> hash \<Rightarrow> 'db"

datatype avl_error = InvalidStateRoot hash | IncompleteDatabase hash

text \<open>The branch has the height, the key and the raw bytes of its two children.\<close>

datatype rlp_node = RlpEmpty | RlpLeaf node_key bytes | RlpBranch u32 node_key "bytes \<times> bytes"

text \<open>\<open>Rlp::at(i)\<close>, then \<open>as_raw()\<close> or \<open>data()\<close>.\<close>

definition raw_at :: "untrusted \<Rightarrow> nat \<Rightarrow> (bytes \<times> untrusted) option" where
  "raw_at r i = (case rlp_at r i of (x, r') \<Rightarrow> do { x \<leftarrow> rlp_unwrap x; Some (rbytes x, r') })"

definition data_at :: "untrusted \<Rightarrow> nat \<Rightarrow> (bytes \<times> untrusted) option" where
  "data_at r i = do { (b, r') \<leftarrow> raw_at r i; d \<leftarrow> rlp_unwrap (rlp_data b); Some (d, r') }"

text \<open>The guard on the length is that of any slice in memory.\<close>

definition node_decoded :: "bytes \<Rightarrow> rlp_node option" where
  "node_decoded node_rlp =
     (if 2 ^ 63 \<le> length node_rlp then None
      else case rlp_prototype (untrusted_new node_rlp) of (p, r) \<Rightarrow> do {
        p \<leftarrow> rlp_unwrap p;
        if p = PList 2 then do {
          (key, r) \<leftarrow> data_at r 0;
          (val, r) \<leftarrow> data_at r 1;
          Some (RlpLeaf key val) }
        else if p = PList 4 then do {
          (n0, r) \<leftarrow> raw_at r 0;
          (n1, r) \<leftarrow> raw_at r 1;
          (d, r) \<leftarrow> data_at r 2;
          height \<leftarrow> decode word_decode d;
          (key, r) \<leftarrow> data_at r 3;
          Some (RlpBranch height key (n0, n1)) }
        else if p = Data 0 then Some RlpEmpty
        else None })"

definition node_encoded :: "byteorder \<Rightarrow> rlp_node \<Rightarrow> bytes option" where
  "node_encoded bo node =
     (case node of
        RlpLeaf key val \<Rightarrow> do {
          s \<leftarrow> stream_new_list bo 2;
          s \<leftarrow> append_value bo (bytes_append bo key) s;
          s \<leftarrow> append_value bo (bytes_append bo val) s;
          stream_out s }
      | RlpBranch height key (n0, n1) \<Rightarrow> do {
          s \<leftarrow> stream_new_list bo 4;
          s \<leftarrow> append_raw bo n0 1 s;
          s \<leftarrow> append_raw bo n1 1 s;
          s \<leftarrow> append_value bo (u32_append bo height) s;
          s \<leftarrow> append_value bo (bytes_append bo key) s;
          stream_out s }
      | RlpEmpty \<Rightarrow> do { s \<leftarrow> append_empty_data bo stream_new; stream_out s })"

definition left_of :: "'a \<times> 'a \<Rightarrow> bool \<Rightarrow> 'a" where
  "left_of children left = (if left then fst children else snd children)"

text \<open>What a query (\<open>trait Query\<close>) does: record a node that is passed, and turn the value into an item.\<close>

record ('q, 'i) query =
  q_record :: "hash \<Rightarrow> bytes \<Rightarrow> u32 \<Rightarrow> 'q \<Rightarrow> 'q option"
  q_decode :: "'q \<Rightarrow> bytes \<Rightarrow> 'i"

text \<open>The query that is a function: nothing is recorded.\<close>

definition fn_query :: "(bytes \<Rightarrow> 'i) \<Rightarrow> (unit, 'i) query" where
  "fn_query f = \<lparr>q_record = (\<lambda>_ _ _ q. Some q), q_decode = (\<lambda>_. f)\<rparr>"

record avl_record =
  r_depth :: u32
  r_data :: bytes
  r_hash :: hash

record recorder =
  r_nodes :: "avl_record list"
  min_depth :: u32

definition recorder_with_depth :: "u32 \<Rightarrow> recorder" where
  "recorder_with_depth depth = \<lparr>r_nodes = [], min_depth = depth\<rparr>"

definition recorder_new :: recorder where
  "recorder_new = recorder_with_depth 0"

text \<open>The debug assertion on the hash is a panic.\<close>

definition recorder_record :: "(bytes \<Rightarrow> hash) \<Rightarrow> hash \<Rightarrow> bytes \<Rightarrow> u32 \<Rightarrow> recorder \<Rightarrow> recorder option" where
  "recorder_record sha3 h d depth r =
     (if sha3 d \<noteq> h then None
      else Some (if min_depth r \<le> depth
        then r\<lparr>r_nodes := r_nodes r @ [\<lparr>r_depth = depth, r_data = d, r_hash = h\<rparr>]\<rparr> else r))"

definition recorder_drain :: "recorder \<Rightarrow> avl_record list \<times> recorder" where
  "recorder_drain r = (r_nodes r, r\<lparr>r_nodes := []\<rparr>)"

definition recorder_query :: "(bytes \<Rightarrow> hash) \<Rightarrow> (recorder, db_value) query" where
  "recorder_query sha3 = \<lparr>q_record = recorder_record sha3, q_decode = (\<lambda>_ v. v)\<rparr>"

definition recorder_fn_query :: "(bytes \<Rightarrow> hash) \<Rightarrow> (bytes \<Rightarrow> 'i) \<Rightarrow> (recorder, 'i) query" where
  "recorder_fn_query sha3 f = \<lparr>q_record = recorder_record sha3, q_decode = (\<lambda>_. f)\<rparr>"

text \<open>The bytes of a child are a hash when they are a string of 32 bytes.\<close>

definition is_hash_ref :: "bytes \<Rightarrow> bool" where
  "is_hash_ref node \<longleftrightarrow> is_data node \<and> rlp_size node = 32"

datatype look_step = Found bytes | Absent | Follow hash

lemma rlp_unwrap_Some: "rlp_unwrap r = Some x \<longleftrightarrow> r = Done x"
  by (cases r) (auto simp: rlp_unwrap_def)

lemma iter_loop_cache:
  assumes "cache_ok r" and "fuel + i < usize_max"
  shows "cache_ok (snd (iter_loop fuel r i)) \<and> rbytes (snd (iter_loop fuel r i)) = rbytes r"
  using assms
proof (induction fuel arbitrary: r i)
  case (Suc fuel)
  have i: "i < usize_max" using Suc.prems(2) by simp
  obtain res r' where at: "rlp_at r i = (res, r')" by fastforce
  have c: "cache_ok r'" "rbytes r' = rbytes r" using rlp_at_pure[OF Suc.prems(1) i] at by simp_all
  have "cache_ok (snd (iter_loop fuel r' (i + 1))) \<and> rbytes (snd (iter_loop fuel r' (i + 1))) = rbytes r'"
    by (rule Suc.IH[OF c(1)]) (use Suc.prems(2) in simp)
  then show ?case using at c by (cases res; cases "iter_loop fuel r' (i + 1)") simp_all
qed simp

lemma rlp_prototype_cache:
  assumes "cache_ok r" and "length (rbytes r) < 2 ^ 63"
  shows "cache_ok (snd (rlp_prototype r)) \<and> rbytes (snd (rlp_prototype r)) = rbytes r"
  using iter_loop_cache[OF assms(1), of "length (rbytes r) + 1" 0] assms
  by (auto simp: rlp_prototype_def item_count_def rlp_iter_def usize_max_def Let_def split: option.splits prod.splits)

lemma raw_at_cache:
  assumes "raw_at r i = Some (b, r')" and "cache_ok r" and "i < usize_max"
  shows "cache_ok r'" and "rbytes r' = rbytes r" and "length b < length (rbytes r)"
  using rlp_at_pure[OF assms(2,3)] rlp_at_shorter[OF assms(2,3)] assms(1)
  by (auto simp: raw_at_def rlp_unwrap_Some bind_eq_Some_conv split: prod.splits)

lemma node_decoded_shorter:
  assumes "node_decoded d = Some (RlpBranch h k (n0, n1))"
  shows "length n0 < length d" and "length n1 < length d"
proof -
  have u: "(0::nat) < usize_max" "(1::nat) < usize_max" by (simp_all add: usize_max_def)
  obtain p r where pr: "rlp_prototype (untrusted_new d) = (p, r)" by fastforce
  have l: "length d < 2 ^ 63" using assms by (auto simp: node_decoded_def split: if_splits)
  have r: "cache_ok r" "rbytes r = d"
    using rlp_prototype_cache[OF cache_ok_new, of d] l pr by (simp_all add: untrusted_new_def)
  obtain r1 r2 where a: "raw_at r 0 = Some (n0, r1)" "raw_at r1 1 = Some (n1, r2)"
    using assms l pr by (auto simp: node_decoded_def bind_eq_Some_conv split: if_splits)
  note 1 = raw_at_cache[OF a(1) r(1) u(1)]
  note 2 = raw_at_cache[OF a(2) 1(1) u(2)]
  show "length n0 < length d" "length n1 < length d" using 1 2 r(2) by simp_all
qed

function look_inline :: "bytes \<Rightarrow> node_key \<Rightarrow> look_step option" where
  "look_inline node_data key =
     (case node_decoded node_data of
        None \<Rightarrow> None
      | Some (RlpLeaf k val) \<Rightarrow> Some (if k = key then Found val else Absent)
      | Some (RlpBranch _ k (n0, n1)) \<Rightarrow>
          (let node_data = (if key < k then n0 else n1) in
           if is_hash_ref node_data
           then do { h \<leftarrow> rlp_as_val (hash_decode 32) node_data; Some (Follow h) }
           else look_inline node_data key)
      | Some RlpEmpty \<Rightarrow> Some Absent)"
  by pat_completeness auto
termination
  by (relation "measure (\<lambda>(d, _). length d)") (auto dest: node_decoded_shorter)

declare look_inline.simps [simp del]

text \<open>The depth counts up to the last value of a \<open>u32\<close>.\<close>

function look_up ::
    "'db hash_db \<Rightarrow> ('q, 'i) query \<Rightarrow> 'db \<Rightarrow> hash \<Rightarrow> u32 \<Rightarrow> node_key \<Rightarrow> 'q \<Rightarrow> ((avl_error + 'i option) \<times> 'q) option" where
  "look_up H Q db h depth key q =
     (case cadd depth 1 of
        None \<Rightarrow> None
      | Some deeper \<Rightarrow>
          (case hd_get H db h of
             None \<Rightarrow> Some (Inl (if depth = 0 then InvalidStateRoot h else IncompleteDatabase h), q)
           | Some node_data \<Rightarrow>
               (case q_record Q h node_data depth q of
                  None \<Rightarrow> None
                | Some q \<Rightarrow>
                    (case look_inline node_data key of
                       None \<Rightarrow> None
                     | Some (Found val) \<Rightarrow> Some (Inr (Some (q_decode Q q val)), q)
                     | Some Absent \<Rightarrow> Some (Inr None, q)
                     | Some (Follow h) \<Rightarrow> look_up H Q db h deeper key q))))"
  by pat_completeness auto
termination
  by (relation "measure (\<lambda>(_, _, _, _, depth, _, _). 2 ^ 32 - unat depth)")
    (auto dest!: cadd_SomeD intro: diff_less_mono2 simp: unat_bound[where 'a = 32, simplified])

declare look_up.simps [simp del]

end
