(* ===== verification/AvlMut.thy ===== *)
theory AvlMut
  imports AvlNode
begin

section \<open>The tree that is changed in memory\<close>

text \<open>
  \<open>util/src/avl/avldbmut.rs\<close>. Nodes are loaded from the database into a storage, a vector with a queue of free
  indices; a handle is an index or the hash of a node that is not loaded. \<open>commit\<close> writes the changed nodes and
  gives the new root. An operation returns an error or a value, with the state it leaves behind; \<open>None\<close>
  is a panic. The \<open>&mut\<close> parameter \<open>old_val\<close> of the insertion is a field of the state.
\<close>

subsection \<open>Nodes and their storage\<close>

datatype node_handle = InMemory nat | Hash hash

datatype mem_node = Empty | Leaf node_key db_value | Branch u32 node_key "node_handle option \<times> node_handle option"

datatype action = Replace mem_node | Restore mem_node | Delete

datatype stored_slot = New mem_node | Cached mem_node hash

record node_storage =
  nodes :: "stored_slot list"
  free_indices :: "nat list"

definition storage_empty :: node_storage where
  "storage_empty = \<lparr>nodes = [], free_indices = []\<rparr>"

definition alloc :: "stored_slot \<Rightarrow> node_storage \<Rightarrow> (nat \<times> node_storage) option" where
  "alloc x s =
     (case free_indices s of
        idx # rest \<Rightarrow>
          if idx < length (nodes s) then Some (idx, s\<lparr>nodes := (nodes s)[idx := x], free_indices := rest\<rparr>) else None
      | [] \<Rightarrow> Some (length (nodes s), s\<lparr>nodes := nodes s @ [x]\<rparr>))"

definition destroy :: "nat \<Rightarrow> node_storage \<Rightarrow> (stored_slot \<times> node_storage) option" where
  "destroy idx s = do {
     x \<leftarrow> index (nodes s) idx;
     Some (x, s\<lparr>nodes := (nodes s)[idx := New Empty], free_indices := free_indices s @ [idx]\<rparr>) }"

fun stored_node :: "stored_slot \<Rightarrow> mem_node" where
  "stored_node (New node) = node"
| "stored_node (Cached node h) = node"

definition storage_index :: "node_storage \<Rightarrow> nat \<Rightarrow> mem_node option" where
  "storage_index s idx = map_option stored_node (index (nodes s) idx)"

text \<open>\<open>Node::from_rlp\<close> and \<open>inline_or_hash\<close>; the database they are given is not used.\<close>

function from_rlp :: "bytes \<Rightarrow> node_storage \<Rightarrow> (mem_node \<times> node_storage) option"
  and inline_or_hash :: "bytes \<Rightarrow> node_storage \<Rightarrow> (node_handle \<times> node_storage) option" where
  "from_rlp rlp s =
     (case node_decoded rlp of
        None \<Rightarrow> None
      | Some RlpEmpty \<Rightarrow> Some (Empty, s)
      | Some (RlpLeaf k v) \<Rightarrow> Some (Leaf k v, s)
      | Some (RlpBranch h k (n0, n1)) \<Rightarrow>
          (case (if is_empty n0 then Some (None, s) else map_option (apfst Some) (inline_or_hash n0 s)) of
             None \<Rightarrow> None
           | Some (c0, s) \<Rightarrow>
               (case (if is_empty n1 then Some (None, s) else map_option (apfst Some) (inline_or_hash n1 s)) of
                  None \<Rightarrow> None
                | Some (c1, s) \<Rightarrow> Some (Branch h k (c0, c1), s))))"
| "inline_or_hash node s =
     (if is_hash_ref node
      then (case rlp_as_val (hash_decode 32) node of None \<Rightarrow> None | Some h \<Rightarrow> Some (Hash h, s))
      else (case from_rlp node s of
              None \<Rightarrow> None
            | Some (child, s) \<Rightarrow> map_option (apfst InMemory) (alloc (New child) s)))"
  by pat_completeness auto
termination
  by (relation "measure (case_sum (\<lambda>(b, _). 2 * length b) (\<lambda>(b, _). 2 * length b + 1))")
    (auto dest: node_decoded_shorter)

declare from_rlp.simps [simp del] inline_or_hash.simps [simp del]

text \<open>The children of a branch are written by a callback.\<close>

definition child_rlp ::
    "byteorder \<Rightarrow> (node_handle \<Rightarrow> rlp_stream \<Rightarrow> 's \<Rightarrow> (rlp_stream \<times> 's) option) \<Rightarrow> node_handle option \<Rightarrow>
      rlp_stream \<Rightarrow> 's \<Rightarrow> (rlp_stream \<times> 's) option" where
  "child_rlp bo child_cb child stream s =
     (case child of
        Some handle \<Rightarrow> child_cb handle stream s
      | None \<Rightarrow> do { stream \<leftarrow> append_empty_data bo stream; Some (stream, s) })"

definition into_rlp ::
    "byteorder \<Rightarrow> (node_handle \<Rightarrow> rlp_stream \<Rightarrow> 's \<Rightarrow> (rlp_stream \<times> 's) option) \<Rightarrow> mem_node \<Rightarrow> 's \<Rightarrow> (bytes \<times> 's) option" where
  "into_rlp bo child_cb node s =
     (case node of
        Empty \<Rightarrow> do { stream \<leftarrow> append_empty_data bo stream_new; d \<leftarrow> drain stream; Some (d, s) }
      | Leaf key val \<Rightarrow> do {
          stream \<leftarrow> stream_new_list bo 2;
          stream \<leftarrow> append_value bo (bytes_append bo key) stream;
          stream \<leftarrow> append_value bo (bytes_append bo val) stream;
          d \<leftarrow> drain stream;
          Some (d, s) }
      | Branch height key (c0, c1) \<Rightarrow> do {
          stream \<leftarrow> stream_new_list bo 4;
          (stream, s) \<leftarrow> child_rlp bo child_cb c0 stream s;
          (stream, s) \<leftarrow> child_rlp bo child_cb c1 stream s;
          stream \<leftarrow> append_value bo (u32_append bo height) stream;
          stream \<leftarrow> append_value bo (bytes_append bo key) stream;
          d \<leftarrow> drain stream;
          Some (d, s) })"

subsection \<open>The state, loading nodes\<close>

text \<open>The set \<open>death_row\<close> is a list without repetitions, in the order in which it is drained.\<close>

record 'db avl_mut =
  a_storage :: node_storage
  a_db :: 'db
  a_root :: hash
  root_handle :: node_handle
  death_row :: "hash list"
  hash_count :: nat
  old_val :: "db_value option"

text \<open>The operator \<open>?\<close>.\<close>

definition and_then ::
    "((avl_error + 'a) \<times> 's) option \<Rightarrow> ('a \<Rightarrow> 's \<Rightarrow> ((avl_error + 'b) \<times> 's) option) \<Rightarrow> ((avl_error + 'b) \<times> 's) option" where
  "and_then r f = Option.bind r (\<lambda>(x, s). case x of Inl e \<Rightarrow> Some (Inl e, s) | Inr y \<Rightarrow> f y s)"

definition alloc_in :: "stored_slot \<Rightarrow> 'db avl_mut \<Rightarrow> (nat \<times> 'db avl_mut) option" where
  "alloc_in x m = do { (i, s) \<leftarrow> alloc x (a_storage m); Some (i, m\<lparr>a_storage := s\<rparr>) }"

definition destroy_in :: "nat \<Rightarrow> 'db avl_mut \<Rightarrow> (stored_slot \<times> 'db avl_mut) option" where
  "destroy_in i m = do { (x, s) \<leftarrow> destroy i (a_storage m); Some (x, m\<lparr>a_storage := s\<rparr>) }"

definition doom :: "hash \<Rightarrow> 'db avl_mut \<Rightarrow> 'db avl_mut" where
  "doom h m = m\<lparr>death_row := List.insert h (death_row m)\<rparr>"

definition cache_node :: "'db hash_db \<Rightarrow> hash \<Rightarrow> 'db avl_mut \<Rightarrow> ((avl_error + nat) \<times> 'db avl_mut) option" where
  "cache_node H h m =
     (case hd_get H (a_db m) h of
        None \<Rightarrow> Some (Inl (IncompleteDatabase h), m)
      | Some node_rlp \<Rightarrow> do {
          (node, s) \<leftarrow> from_rlp node_rlp (a_storage m);
          (i, m) \<leftarrow> alloc_in (Cached node h) (m\<lparr>a_storage := s\<rparr>);
          Some (Inr i, m) })"

text \<open>The handle of a node in memory.\<close>

definition load :: "'db hash_db \<Rightarrow> node_handle \<Rightarrow> 'db avl_mut \<Rightarrow> ((avl_error + nat) \<times> 'db avl_mut) option" where
  "load H handle m = (case handle of InMemory i \<Rightarrow> Some (Inr i, m) | Hash h \<Rightarrow> cache_node H h m)"

definition inspect ::
    "stored_slot \<Rightarrow> (mem_node \<Rightarrow> 'db avl_mut \<Rightarrow> ((avl_error + action) \<times> 'db avl_mut) option) \<Rightarrow> 'db avl_mut \<Rightarrow>
      ((avl_error + (stored_slot \<times> bool) option) \<times> 'db avl_mut) option" where
  "inspect x inspector m =
     (case x of
        New node \<Rightarrow> and_then (inspector node m) (\<lambda>a m.
          case a of
            Restore node \<Rightarrow> Some (Inr (Some (New node, False)), m)
          | Replace node \<Rightarrow> Some (Inr (Some (New node, True)), m)
          | Delete \<Rightarrow> Some (Inr None, m))
      | Cached node h \<Rightarrow> and_then (inspector node m) (\<lambda>a m.
          case a of
            Restore node \<Rightarrow> Some (Inr (Some (Cached node h, False)), m)
          | Replace node \<Rightarrow> Some (Inr (Some (New node, True)), doom h m)
          | Delete \<Rightarrow> Some (Inr None, doom h m)))"

partial_function (option) lookup_in ::
    "'db hash_db \<Rightarrow> node_key \<Rightarrow> 'db avl_mut \<Rightarrow> node_handle \<Rightarrow> (avl_error + db_value option) option" where
  "lookup_in H key m handle =
     (case handle of
        Hash h \<Rightarrow> map_option fst (look_up H (fn_query (\<lambda>v. v)) (a_db m) h 0 key ())
      | InMemory i \<Rightarrow> Option.bind (storage_index (a_storage m) i) (\<lambda>node.
          case node of
            Empty \<Rightarrow> Some (Inr None)
          | Leaf k val \<Rightarrow> Some (Inr (if k = key then Some val else None))
          | Branch _ k children \<Rightarrow>
              (case left_of children (key < k) of
                 Some child \<Rightarrow> lookup_in H key m child
               | None \<Rightarrow> Some (Inr None))))"

subsection \<open>Heights and rotations\<close>

fun node_height :: "mem_node \<Rightarrow> u32" where
  "node_height Empty = 0"
| "node_height (Leaf _ _) = 1"
| "node_height (Branch h _ _) = h"

text \<open>The functions that take a node by mutable reference return it.\<close>

definition left_child_destroy ::
    "'db hash_db \<Rightarrow> mem_node \<Rightarrow> 'db avl_mut \<Rightarrow> ((avl_error + mem_node \<times> mem_node) \<times> 'db avl_mut) option" where
  "left_child_destroy H node m =
     (case node of
        Branch h k (Some c, right) \<Rightarrow> and_then (load H c m) (\<lambda>i m. do {
          (x, m) \<leftarrow> destroy_in i m;
          Some (Inr (stored_node x, Branch h k (None, right)), m) })
      | _ \<Rightarrow> Some (Inr (Empty, node), m))"

definition right_child_destroy ::
    "'db hash_db \<Rightarrow> mem_node \<Rightarrow> 'db avl_mut \<Rightarrow> ((avl_error + mem_node \<times> mem_node) \<times> 'db avl_mut) option" where
  "right_child_destroy H node m =
     (case node of
        Branch h k (left, Some c) \<Rightarrow> and_then (load H c m) (\<lambda>i m. do {
          (x, m) \<leftarrow> destroy_in i m;
          Some (Inr (stored_node x, Branch h k (left, None)), m) })
      | _ \<Rightarrow> Some (Inr (Empty, node), m))"

definition left_child_height ::
    "'db hash_db \<Rightarrow> mem_node \<Rightarrow> 'db avl_mut \<Rightarrow> ((avl_error + u32 \<times> mem_node) \<times> 'db avl_mut) option" where
  "left_child_height H node m =
     (case node of
        Branch h k (Some c, right) \<Rightarrow> and_then (load H c m) (\<lambda>i m. do {
          n \<leftarrow> storage_index (a_storage m) i;
          Some (Inr (node_height n, Branch h k (Some (InMemory i), right)), m) })
      | _ \<Rightarrow> Some (Inr (0, node), m))"

definition right_child_height ::
    "'db hash_db \<Rightarrow> mem_node \<Rightarrow> 'db avl_mut \<Rightarrow> ((avl_error + u32 \<times> mem_node) \<times> 'db avl_mut) option" where
  "right_child_height H node m =
     (case node of
        Branch h k (left, Some c) \<Rightarrow> and_then (load H c m) (\<lambda>i m. do {
          n \<leftarrow> storage_index (a_storage m) i;
          Some (Inr (node_height n, Branch h k (left, Some (InMemory i))), m) })
      | _ \<Rightarrow> Some (Inr (0, node), m))"

definition left_rotate :: "mem_node \<Rightarrow> mem_node \<Rightarrow> 'db avl_mut \<Rightarrow> (mem_node \<times> 'db avl_mut) option" where
  "left_rotate k1 k2 m =
     (case (k1, k2) of
        (Branch h1 key1 (l1, r1), Branch h2 key2 (l2, r2)) \<Rightarrow> do {
          h1' \<leftarrow> csub h1 1;
          (i, m) \<leftarrow> alloc_in (New (Branch h1' key1 (r2, r1))) m;
          Some (Branch h1 key2 (l2, Some (InMemory i)), m) }
      | _ \<Rightarrow> None)"

definition right_rotate :: "mem_node \<Rightarrow> mem_node \<Rightarrow> 'db avl_mut \<Rightarrow> (mem_node \<times> 'db avl_mut) option" where
  "right_rotate k1 k2 m =
     (case (k1, k2) of
        (Branch h1 key1 (l1, r1), Branch h2 key2 (l2, r2)) \<Rightarrow> do {
          h1' \<leftarrow> csub h1 1;
          (i, m) \<leftarrow> alloc_in (New (Branch h1' key1 (l1, l2))) m;
          Some (Branch h1 key2 (Some (InMemory i), r2), m) }
      | _ \<Rightarrow> None)"

definition left_rotate_successor :: "'db hash_db \<Rightarrow> mem_node \<Rightarrow> 'db avl_mut \<Rightarrow> ((avl_error + stored_slot) \<times> 'db avl_mut) option" where
  "left_rotate_successor H k1 m =
     and_then (left_child_destroy H k1 m) (\<lambda>(k2, k1) m.
     and_then (left_child_height H k2 m) (\<lambda>(llh, k2) m.
     and_then (right_child_height H k2 m) (\<lambda>(lrh, k2) m.
     if llh < lrh
     then and_then (right_child_destroy H k2 m) (\<lambda>(k3, k2) m. do {
       (k2, m) \<leftarrow> right_rotate k2 k3 m;
       (n, m) \<leftarrow> left_rotate k1 k2 m;
       Some (Inr (New n), m) })
     else do { (n, m) \<leftarrow> left_rotate k1 k2 m; Some (Inr (New n), m) })))"

definition right_rotate_successor :: "'db hash_db \<Rightarrow> mem_node \<Rightarrow> 'db avl_mut \<Rightarrow> ((avl_error + stored_slot) \<times> 'db avl_mut) option" where
  "right_rotate_successor H k1 m =
     and_then (right_child_destroy H k1 m) (\<lambda>(k2, k1) m.
     and_then (left_child_height H k2 m) (\<lambda>(rlh, k2) m.
     and_then (right_child_height H k2 m) (\<lambda>(rrh, k2) m.
     if rrh < rlh
     then and_then (left_child_destroy H k2 m) (\<lambda>(k3, k2) m. do {
       (k2, m) \<leftarrow> left_rotate k2 k3 m;
       (n, m) \<leftarrow> right_rotate k1 k2 m;
       Some (Inr (New n), m) })
     else do { (n, m) \<leftarrow> right_rotate k1 k2 m; Some (Inr (New n), m) })))"

definition rotate_if_necessary :: "'db hash_db \<Rightarrow> stored_slot \<Rightarrow> 'db avl_mut \<Rightarrow> ((avl_error + stored_slot) \<times> 'db avl_mut) option" where
  "rotate_if_necessary H x m =
     (case x of
        Cached node h \<Rightarrow> Some (Inr (Cached node h), m)
      | New node \<Rightarrow>
          and_then (left_child_height H node m) (\<lambda>(lh, node) m.
          and_then (right_child_height H node m) (\<lambda>(rh, node) m. do {
            above_right \<leftarrow> cadd 2 rh;
            if lh = above_right then left_rotate_successor H node m
            else do {
              above_left \<leftarrow> cadd 2 lh;
              if rh = above_left then right_rotate_successor H node m
              else do {
                h \<leftarrow> cadd (max lh rh) 1;
                Some (Inr (New (case node of
                  Empty \<Rightarrow> Empty
                | Leaf k val \<Rightarrow> Leaf k val
                | Branch _ k c \<Rightarrow> Branch h k c)), m) } } })))"

definition tree_height ::
    "'db hash_db \<Rightarrow> 'db avl_mut \<Rightarrow> ((avl_error + (avl_error + u32) \<times> u32 \<times> (avl_error + u32)) \<times> 'db avl_mut) option" where
  "tree_height H m =
     (case hd_get H (a_db m) (a_root m) of
        None \<Rightarrow> Some (Inl (IncompleteDatabase (a_root m)), m)
      | Some node_rlp \<Rightarrow> do {
          (node, s) \<leftarrow> from_rlp node_rlp (a_storage m);
          (lh, m) \<leftarrow> left_child_height H node (m\<lparr>a_storage := s\<rparr>);
          let node' = (case lh of Inl _ \<Rightarrow> node | Inr (_, n) \<Rightarrow> n);
          (rh, m) \<leftarrow> right_child_height H node' m;
          Some (Inr (map_sum id fst lh, node_height node, map_sum id fst rh), m) })"

subsection \<open>Insertion and removal\<close>

text \<open>The inspectors get the recursive call as an argument.\<close>

definition insert_inspector ::
    "(node_handle \<Rightarrow> 'db avl_mut \<Rightarrow> ((avl_error + nat \<times> bool) \<times> 'db avl_mut) option) \<Rightarrow> node_key \<Rightarrow> db_value \<Rightarrow>
      mem_node \<Rightarrow> 'db avl_mut \<Rightarrow> ((avl_error + action) \<times> 'db avl_mut) option" where
  "insert_inspector avl_insert_at key val node m =
     (case node of
        Empty \<Rightarrow> Some (Inr (Replace (Leaf key val)), m)
      | Branch h k children \<Rightarrow>
          (let left = (key < k);
               put = (\<lambda>i. if left then (Some (InMemory i), snd children) else (fst children, Some (InMemory i))) in
           case left_of children left of
             Some child \<Rightarrow> and_then (avl_insert_at child m) (\<lambda>(new_child, changed) m.
               Some (Inr (if \<not> changed then Restore (Branch h k (put new_child)) else Replace (Branch h k (put new_child))), m))
           | None \<Rightarrow> do {
               (leaf, m) \<leftarrow> alloc_in (New (Leaf key val)) m;
               Some (Inr (Replace (Branch h k (put leaf))), m) })
      | Leaf k v \<Rightarrow>
          if k = key
          then Some (Inr (if v = val then Restore (Leaf key val) else Replace (Leaf key val)), m\<lparr>old_val := Some v\<rparr>)
          else if k < key
          then do {
            (i, m) \<leftarrow> alloc_in (New (Leaf k v)) m;
            (j, m) \<leftarrow> alloc_in (New (Leaf key val)) m;
            Some (Inr (Replace (Branch 1 key (Some (InMemory i), Some (InMemory j)))), m) }
          else do {
            (i, m) \<leftarrow> alloc_in (New (Leaf key val)) m;
            (j, m) \<leftarrow> alloc_in (New (Leaf k v)) m;
            Some (Inr (Replace (Branch 1 k (Some (InMemory i), Some (InMemory j)))), m) })"

definition remove_inspector ::
    "'db hash_db \<Rightarrow> (node_handle \<Rightarrow> 'db avl_mut \<Rightarrow> ((avl_error + (nat \<times> bool) option) \<times> 'db avl_mut) option) \<Rightarrow> node_key \<Rightarrow>
      mem_node \<Rightarrow> 'db avl_mut \<Rightarrow> ((avl_error + action) \<times> 'db avl_mut) option" where
  "remove_inspector H avl_remove_at key node m =
     (case node of
        Empty \<Rightarrow> Some (Inr Delete, m)
      | Leaf k v \<Rightarrow> Some (Inr (if k = key then Delete else Restore (Leaf k v)), m)
      | Branch h k children \<Rightarrow>
          (let left = (key < k);
               put = (\<lambda>c. if left then (c, snd children) else (fst children, c)) in
           case left_of children left of
             None \<Rightarrow> Some (Inr (Restore (Branch h k children)), m)
           | Some child \<Rightarrow> and_then (avl_remove_at child m) (\<lambda>r m.
               case r of
                 Some (i, changed) \<Rightarrow>
                   Some (Inr (if changed then Replace (Branch h k (put (Some (InMemory i))))
                              else Restore (Branch h k (put (Some (InMemory i))))), m)
               | None \<Rightarrow>
                   and_then (if left then right_child_destroy H (Branch h k (put None)) m
                             else left_child_destroy H (Branch h k (put None)) m)
                     (\<lambda>(other, _) m. Some (Inr (Replace other), m)))))"

lemma and_then_mono [partial_function_mono]:
  assumes "mono_option B" and "\<And>x s. mono_option (\<lambda>f. C f x s)"
  shows "mono_option (\<lambda>f. and_then (B f) (\<lambda>x s. C f x s))"
proof -
  have "mono_option (\<lambda>f. case y of (Inl e, s) \<Rightarrow> Some (Inl e, s) | (Inr x, s) \<Rightarrow> C f x s)" for y
    using assms(2) by (cases y; cases "fst y") (auto intro: option.const_mono)
  then have "mono_option (\<lambda>f. Option.bind (B f) (\<lambda>y. case y of (Inl e, s) \<Rightarrow> Some (Inl e, s) | (Inr x, s) \<Rightarrow> C f x s))"
    by (rule bind_mono[OF assms(1)])
  then show ?thesis by (simp add: and_then_def case_prod_unfold)
qed

lemma inspect_mono [partial_function_mono]:
  assumes "\<And>n s. mono_option (\<lambda>f. B f n s)"
  shows "mono_option (\<lambda>f. inspect x (\<lambda>n s. B f n s) m)"
  unfolding inspect_def
  by (cases x) (auto intro!: and_then_mono assms split: action.split intro: option.const_mono)

lemma insert_inspector_mono [partial_function_mono]:
  assumes "\<And>h s. mono_option (\<lambda>f. B f h s)"
  shows "mono_option (\<lambda>f. insert_inspector (\<lambda>h s. B f h s) key val node m)"
proof (cases node)
  case (Branch h k children)
  show ?thesis
  proof (cases "left_of children (key < k)")
    case (Some c)
    show ?thesis unfolding insert_inspector_def Branch mem_node.case Let_def Some option.case
      by (rule and_then_mono[OF assms]) (rule option.const_mono)
  qed (simp add: insert_inspector_def Branch option.const_mono)
qed (simp_all add: insert_inspector_def option.const_mono)

lemma remove_inspector_mono [partial_function_mono]:
  assumes "\<And>h s. mono_option (\<lambda>f. B f h s)"
  shows "mono_option (\<lambda>f. remove_inspector H (\<lambda>h s. B f h s) key node m)"
proof (cases node)
  case (Branch h k children)
  show ?thesis
  proof (cases "left_of children (key < k)")
    case (Some c)
    show ?thesis unfolding remove_inspector_def Branch mem_node.case Let_def Some option.case
      by (rule and_then_mono[OF assms]) (rule option.const_mono)
  qed (simp add: remove_inspector_def Branch option.const_mono)
qed (simp_all add: remove_inspector_def option.const_mono)

partial_function (option) avl_insert_at ::
    "'db hash_db \<Rightarrow> node_key \<Rightarrow> db_value \<Rightarrow> node_handle \<Rightarrow> 'db avl_mut \<Rightarrow> ((avl_error + nat \<times> bool) \<times> 'db avl_mut) option" where
  "avl_insert_at H key val handle m =
     and_then (load H handle m) (\<lambda>h m. Option.bind (destroy_in h m) (\<lambda>(x, m).
     and_then (inspect x (\<lambda>node m. insert_inspector (\<lambda>c m. avl_insert_at H key val c m) key val node m) m) (\<lambda>r m.
       case r of
         None \<Rightarrow> None
       | Some (new_stored, changed) \<Rightarrow>
           if changed
           then and_then (rotate_if_necessary H new_stored m) (\<lambda>new_stored m.
             Option.bind (alloc_in new_stored m) (\<lambda>(i, m). Some (Inr (i, True), m)))
           else Option.bind (alloc_in new_stored m) (\<lambda>(i, m). Some (Inr (i, False), m)))))"

partial_function (option) avl_remove_at ::
    "'db hash_db \<Rightarrow> node_key \<Rightarrow> node_handle \<Rightarrow> 'db avl_mut \<Rightarrow> ((avl_error + (nat \<times> bool) option) \<times> 'db avl_mut) option" where
  "avl_remove_at H key handle m =
     and_then (load H handle m) (\<lambda>h m. Option.bind (destroy_in h m) (\<lambda>(x, m).
     and_then (inspect x (\<lambda>node m. remove_inspector H (\<lambda>c m. avl_remove_at H key c m) key node m) m) (\<lambda>r m.
       case r of
         None \<Rightarrow> Some (Inr None, m)
       | Some (new_stored, changed) \<Rightarrow>
           if changed
           then and_then (rotate_if_necessary H new_stored m) (\<lambda>new_stored m.
             Option.bind (alloc_in new_stored m) (\<lambda>(i, m). Some (Inr (Some (i, True)), m)))
           else Option.bind (alloc_in new_stored m) (\<lambda>(i, m). Some (Inr (Some (i, False)), m)))))"

subsection \<open>Writing the changes\<close>

lemma child_rlp_mono:
  assumes "\<And>h st s. mono_option (\<lambda>f. B f h st s)"
  shows "mono_option (\<lambda>f. child_rlp bo (\<lambda>h st s. B f h st s) c st s)"
  using assms by (cases c) (simp_all add: child_rlp_def option.const_mono)

lemma into_rlp_mono [partial_function_mono]:
  assumes "\<And>h st s. mono_option (\<lambda>f. B f h st s)"
  shows "mono_option (\<lambda>f. into_rlp bo (\<lambda>h st s. B f h st s) node s)"
proof (cases node)
  case (Branch h k children)
  show ?thesis unfolding into_rlp_def Branch mem_node.case
    by (cases children) (auto intro!: bind_mono child_rlp_mono assms option.const_mono split: prod.split)
qed (simp_all add: into_rlp_def option.const_mono)

partial_function (option) commit_node ::
    "byteorder \<Rightarrow> 'db hash_db \<Rightarrow> node_handle \<Rightarrow> rlp_stream \<Rightarrow> 'db avl_mut \<Rightarrow> (rlp_stream \<times> 'db avl_mut) option" where
  "commit_node bo H handle stream m =
     (case handle of
        Hash h \<Rightarrow> Option.bind (append_value bo (hash_append bo h) stream) (\<lambda>stream. Some (stream, m))
      | InMemory i \<Rightarrow> Option.bind (destroy_in i m) (\<lambda>(x, m).
          case x of
            Cached _ h \<Rightarrow> Option.bind (append_value bo (hash_append bo h) stream) (\<lambda>stream. Some (stream, m))
          | New node \<Rightarrow>
              Option.bind (into_rlp bo (\<lambda>child stream m. commit_node bo H child stream m) node m) (\<lambda>(node_rlp, m).
                if 32 \<le> length node_rlp
                then (let (h, db) = hd_insert H (a_db m) node_rlp;
                          m = m\<lparr>a_db := db, hash_count := hash_count m + 1\<rparr> in
                      Option.bind (append_value bo (hash_append bo h) stream) (\<lambda>stream. Some (stream, m)))
                else Option.bind (append_raw bo node_rlp 1 stream) (\<lambda>stream. Some (stream, m)))))"

definition commit :: "byteorder \<Rightarrow> 'db hash_db \<Rightarrow> 'db avl_mut \<Rightarrow> 'db avl_mut option" where
  "commit bo H m =
     (let m = m\<lparr>a_db := foldl (hd_remove H) (a_db m) (death_row m), death_row := []\<rparr> in
      case root_handle m of
        Hash _ \<Rightarrow> Some m
      | InMemory i \<Rightarrow> do {
          (x, m) \<leftarrow> destroy_in i m;
          case x of
            New node \<Rightarrow> do {
              (root_rlp, m) \<leftarrow> into_rlp bo (commit_node bo H) node m;
              let (h, db) = hd_insert H (a_db m) root_rlp;
              Some (m\<lparr>a_db := db, a_root := h, hash_count := hash_count m + 1, root_handle := Hash h\<rparr>) }
          | Cached node h \<Rightarrow> do {
              (i, m) \<leftarrow> alloc_in (Cached node h) (m\<lparr>a_root := h\<rparr>);
              Some (m\<lparr>root_handle := InMemory i\<rparr>) } })"

subsection \<open>The trait \<open>AVLMut\<close>\<close>

definition avl_new :: "'db \<Rightarrow> 'db avl_mut" where
  "avl_new db = \<lparr>a_storage = storage_empty, a_db = db, a_root = SHA3_NULL_RLP, root_handle = Hash SHA3_NULL_RLP,
     death_row = [], hash_count = 0, old_val = None\<rparr>"

definition avl_from_existing :: "'db hash_db \<Rightarrow> 'db \<Rightarrow> hash \<Rightarrow> avl_error + 'db avl_mut" where
  "avl_from_existing H db root_hash =
     (if \<not> hd_contains H db root_hash then Inl (InvalidStateRoot root_hash)
      else Inr \<lparr>a_storage = storage_empty, a_db = db, a_root = root_hash, root_handle = Hash root_hash,
        death_row = [], hash_count = 0, old_val = None\<rparr>)"

definition mut_root :: "byteorder \<Rightarrow> 'db hash_db \<Rightarrow> 'db avl_mut \<Rightarrow> (hash \<times> 'db avl_mut) option" where
  "mut_root bo H m = do { m \<leftarrow> commit bo H m; Some (a_root m, m) }"

definition mut_is_empty :: "'db avl_mut \<Rightarrow> bool option" where
  "mut_is_empty m =
     (case root_handle m of
        Hash h \<Rightarrow> Some (h = SHA3_NULL_RLP)
      | InMemory i \<Rightarrow> do { node \<leftarrow> storage_index (a_storage m) i; Some (node = Empty) })"

definition mut_get :: "'db hash_db \<Rightarrow> node_key \<Rightarrow> 'db avl_mut \<Rightarrow> (avl_error + db_value option) option" where
  "mut_get H key m = lookup_in H key m (root_handle m)"

definition mut_contains :: "'db hash_db \<Rightarrow> node_key \<Rightarrow> 'db avl_mut \<Rightarrow> (avl_error + bool) option" where
  "mut_contains H key m = map_option (map_sum id (\<lambda>v. v \<noteq> None)) (mut_get H key m)"

text \<open>Nothing assigns to \<open>old_val\<close> of \<open>remove\<close>.\<close>

definition mut_remove :: "'db hash_db \<Rightarrow> node_key \<Rightarrow> 'db avl_mut \<Rightarrow> ((avl_error + db_value option) \<times> 'db avl_mut) option" where
  "mut_remove H key m =
     and_then (avl_remove_at H key (root_handle m) (m\<lparr>old_val := None\<rparr>)) (\<lambda>r m.
       Some (Inr (old_val m),
         case r of
           Some (handle, changed) \<Rightarrow> m\<lparr>root_handle := InMemory handle\<rparr>
         | None \<Rightarrow> m\<lparr>root_handle := Hash SHA3_NULL_RLP, a_root := SHA3_NULL_RLP\<rparr>))"

definition mut_insert ::
    "'db hash_db \<Rightarrow> node_key \<Rightarrow> db_value \<Rightarrow> 'db avl_mut \<Rightarrow> ((avl_error + db_value option) \<times> 'db avl_mut) option" where
  "mut_insert H key val m =
     (if val = [] then mut_remove H key m
      else and_then (avl_insert_at H key val (root_handle m) (m\<lparr>old_val := None\<rparr>)) (\<lambda>(handle, changed) m.
        Some (Inr (old_val m), m\<lparr>root_handle := InMemory handle\<rparr>)))"

end
