(* ===== verification/AvlDb.thy ===== *)
theory AvlDb
  imports AvlMut
begin

section \<open>The tree in the database\<close>

text \<open>
  \<open>util/src/avl/avldb.rs\<close>: the read-only tree below a root and its iterator; the secure and the fat variants
  (\<open>secavldb.rs\<close>, \<open>fatdb.rs\<close>, \<open>secavldbmut.rs\<close>, \<open>fatdbmut.rs\<close>), which hash the keys, and the factory of \<open>mod.rs\<close>.
  The hash of a key is the argument \<open>sha3\<close>. The iterator follows hashes as long as the database leads it
  on, so its loops are partial functions. \<open>None\<close> is a panic.
\<close>

subsection \<open>The read-only tree\<close>

record 'db avl_db =
  d_db :: 'db
  d_root :: hash

definition avldb_new :: "'db hash_db \<Rightarrow> 'db \<Rightarrow> hash \<Rightarrow> avl_error + 'db avl_db" where
  "avldb_new H db root_hash =
     (if \<not> hd_contains H db root_hash then Inl (InvalidStateRoot root_hash) else Inr \<lparr>d_db = db, d_root = root_hash\<rparr>)"

definition root_data :: "'db hash_db \<Rightarrow> 'db avl_db \<Rightarrow> avl_error + db_value" where
  "root_data H t = (case hd_get H (d_db t) (d_root t) of Some v \<Rightarrow> Inr v | None \<Rightarrow> Inl (InvalidStateRoot (d_root t)))"

definition get_raw_or_lookup :: "'db hash_db \<Rightarrow> 'db avl_db \<Rightarrow> bytes \<Rightarrow> (avl_error + db_value) option" where
  "get_raw_or_lookup H t node =
     (if is_hash_ref node then do {
        key \<leftarrow> rlp_as_val (hash_decode 32) node;
        Some (case hd_get H (d_db t) key of Some v \<Rightarrow> Inr v | None \<Rightarrow> Inl (IncompleteDatabase key)) }
      else Some (Inr node))"

definition avldb_get_with ::
    "'db hash_db \<Rightarrow> ('q, 'i) query \<Rightarrow> 'db avl_db \<Rightarrow> node_key \<Rightarrow> 'q \<Rightarrow> ((avl_error + 'i option) \<times> 'q) option" where
  "avldb_get_with H Q t key q = look_up H Q (d_db t) (d_root t) 0 key q"

definition avldb_get :: "'db hash_db \<Rightarrow> 'db avl_db \<Rightarrow> node_key \<Rightarrow> (avl_error + db_value option) option" where
  "avldb_get H t key = map_option fst (avldb_get_with H (fn_query (\<lambda>v. v)) t key ())"

definition avldb_contains :: "'db hash_db \<Rightarrow> 'db avl_db \<Rightarrow> node_key \<Rightarrow> (avl_error + bool) option" where
  "avldb_contains H t key = map_option (map_sum id (\<lambda>x. x \<noteq> None)) (avldb_get H t key)"

definition avldb_is_empty :: "'db avl_db \<Rightarrow> bool" where
  "avldb_is_empty t \<longleftrightarrow> d_root t = SHA3_NULL_RLP"

subsection \<open>The iterator\<close>

datatype status = Entering | At | AtChild nat | Exiting

record crumb =
  c_node :: rlp_node
  c_status :: status

definition increment :: "crumb \<Rightarrow> crumb" where
  "increment c = c\<lparr>c_status :=
     (case c_node c of
        RlpEmpty \<Rightarrow> Exiting
      | RlpBranch _ _ _ \<Rightarrow>
          (case c_status c of
             Entering \<Rightarrow> At
           | At \<Rightarrow> AtChild 0
           | AtChild i \<Rightarrow> if i = 0 then AtChild 1 else Exiting
           | Exiting \<Rightarrow> Exiting)
      | RlpLeaf _ _ \<Rightarrow> (case c_status c of Entering \<Rightarrow> At | _ \<Rightarrow> Exiting))\<rparr>"

text \<open>The trail has its last crumb first.\<close>

definition descend :: "'db hash_db \<Rightarrow> 'db avl_db \<Rightarrow> bytes \<Rightarrow> crumb list \<Rightarrow> ((avl_error + unit) \<times> crumb list) option" where
  "descend H t d trail = and_then (map_option (\<lambda>r. (r, trail)) (get_raw_or_lookup H t d)) (\<lambda>raw trail. do {
     node \<leftarrow> node_decoded raw;
     Some (Inr (), \<lparr>c_node = node, c_status = Entering\<rparr> # trail) })"

definition iter_new :: "'db hash_db \<Rightarrow> 'db avl_db \<Rightarrow> (avl_error + crumb list) option" where
  "iter_new H t =
     (case root_data H t of
        Inl e \<Rightarrow> Some (Inl e)
      | Inr root \<Rightarrow> map_option (\<lambda>(r, trail). map_sum id (\<lambda>_. trail) r) (descend H t root []))"

partial_function (option) seek_descend ::
    "'db hash_db \<Rightarrow> 'db avl_db \<Rightarrow> node_key \<Rightarrow> db_value \<Rightarrow> crumb list \<Rightarrow> ((avl_error + unit) \<times> crumb list) option" where
  "seek_descend H t key node_data trail =
     (case node_decoded node_data of
        None \<Rightarrow> None
      | Some node \<Rightarrow>
          (case node of
             RlpLeaf k v \<Rightarrow> Some (Inr (), \<lparr>c_node = node, c_status = (if k \<le> key then At else Entering)\<rparr> # trail)
           | RlpBranch h k ns \<Rightarrow>
               and_then (map_option (\<lambda>r. (r, \<lparr>c_node = node, c_status = AtChild (if key < k then 0 else 1)\<rparr> # trail))
                   (get_raw_or_lookup H t (left_of ns (key < k))))
                 (\<lambda>child trail. seek_descend H t key child trail)
           | RlpEmpty \<Rightarrow> Some (Inr (), trail)))"

definition seek :: "'db hash_db \<Rightarrow> 'db avl_db \<Rightarrow> node_key \<Rightarrow> crumb list \<Rightarrow> ((avl_error + unit) \<times> crumb list) option" where
  "seek H t key trail =
     (case root_data H t of
        Inl e \<Rightarrow> Some (Inl e, [])
      | Inr root \<Rightarrow> seek_descend H t key root [])"

text \<open>The vector of children has two of them; another index is a panic.\<close>

partial_function (option) iter_next ::
    "'db hash_db \<Rightarrow> 'db avl_db \<Rightarrow> crumb list \<Rightarrow> ((avl_error + (node_key \<times> db_value)) option \<times> crumb list) option" where
  "iter_next H t trail =
     (case trail of
        [] \<Rightarrow> Some (None, [])
      | c # rest \<Rightarrow>
          (let b = increment c; trail = b # rest in
           case c_status b of
             Exiting \<Rightarrow> iter_next H t rest
           | At \<Rightarrow>
               (case c_node b of
                  RlpLeaf k v \<Rightarrow> Some (Some (Inr (k, v)), trail)
                | RlpBranch _ _ _ \<Rightarrow> iter_next H t trail
                | RlpEmpty \<Rightarrow> None)
           | AtChild i \<Rightarrow>
               (case c_node b of
                  RlpBranch _ _ children \<Rightarrow>
                    if 1 < i then None
                    else if left_of children (i = 0) \<noteq> []
                    then Option.bind (descend H t (left_of children (i = 0)) trail) (\<lambda>(r, trail).
                      case r of Inl e \<Rightarrow> Some (Some (Inl e), trail) | Inr _ \<Rightarrow> iter_next H t trail)
                    else iter_next H t trail
                | _ \<Rightarrow> None)
           | Entering \<Rightarrow> None))"

subsection \<open>Hashed keys\<close>

definition sec_get_with where
  "sec_get_with sha3 H Q t key q = avldb_get_with H Q t (sha3 key) q"

definition sec_contains where
  "sec_contains sha3 H t key = avldb_contains H t (sha3 key)"

definition fat_seek where
  "fat_seek sha3 H t key trail = seek H t (sha3 key) trail"

text \<open>The key itself is stored under the hash of its hash.\<close>

definition fat_next ::
    "(bytes \<Rightarrow> hash) \<Rightarrow> 'db hash_db \<Rightarrow> 'db avl_db \<Rightarrow> crumb list \<Rightarrow>
      ((avl_error + (bytes \<times> db_value)) option \<times> crumb list) option" where
  "fat_next sha3 H t trail = do {
     (r, trail) \<leftarrow> iter_next H t trail;
     case r of
       None \<Rightarrow> Some (None, trail)
     | Some (Inl e) \<Rightarrow> Some (Some (Inl e), trail)
     | Some (Inr (h, v)) \<Rightarrow> do { key \<leftarrow> hd_get H (d_db t) (sha3 h); Some (Some (Inr (key, v)), trail) } }"

definition sec_mut_get where
  "sec_mut_get sha3 H key m = mut_get H (sha3 key) m"

definition sec_mut_contains where
  "sec_mut_contains sha3 H key m = mut_contains H (sha3 key) m"

definition sec_mut_insert where
  "sec_mut_insert sha3 H key val m = mut_insert H (sha3 key) val m"

definition sec_mut_remove where
  "sec_mut_remove sha3 H key m = mut_remove H (sha3 key) m"

definition fat_mut_insert ::
    "(bytes \<Rightarrow> hash) \<Rightarrow> 'db hash_db \<Rightarrow> bytes \<Rightarrow> db_value \<Rightarrow> 'db avl_mut \<Rightarrow> ((avl_error + db_value option) \<times> 'db avl_mut) option" where
  "fat_mut_insert sha3 H key val m =
     (let h = sha3 key in
      and_then (mut_insert H h val m) (\<lambda>out m.
        Some (Inr out, if out = None then m\<lparr>a_db := hd_emplace H (a_db m) (sha3 h) key\<rparr> else m)))"

definition fat_mut_remove ::
    "(bytes \<Rightarrow> hash) \<Rightarrow> 'db hash_db \<Rightarrow> bytes \<Rightarrow> 'db avl_mut \<Rightarrow> ((avl_error + db_value option) \<times> 'db avl_mut) option" where
  "fat_mut_remove sha3 H key m =
     (let h = sha3 key in
      and_then (mut_remove H h m) (\<lambda>out m.
        Some (Inr out, if out \<noteq> None then m\<lparr>a_db := hd_remove H (a_db m) (sha3 h)\<rparr> else m)))"

subsection \<open>The factory\<close>

datatype avl_spec = Generic | Secure | Fat

definition spec_default :: avl_spec where
  "spec_default = Secure"

text \<open>\<open>AVLKinds\<close> is a tree together with its kind.\<close>

definition factory_readonly :: "avl_spec \<Rightarrow> 'db hash_db \<Rightarrow> 'db \<Rightarrow> hash \<Rightarrow> avl_error + (avl_spec \<times> 'db avl_db)" where
  "factory_readonly spec H db root_hash = map_sum id (Pair spec) (avldb_new H db root_hash)"

definition factory_create :: "avl_spec \<Rightarrow> 'db \<Rightarrow> avl_spec \<times> 'db avl_mut" where
  "factory_create spec db = (spec, avl_new db)"

definition factory_from_existing :: "avl_spec \<Rightarrow> 'db hash_db \<Rightarrow> 'db \<Rightarrow> hash \<Rightarrow> avl_error + (avl_spec \<times> 'db avl_mut)" where
  "factory_from_existing spec H db root_hash = map_sum id (Pair spec) (avl_from_existing H db root_hash)"

definition kinds_key :: "(bytes \<Rightarrow> hash) \<Rightarrow> avl_spec \<Rightarrow> bytes \<Rightarrow> node_key" where
  "kinds_key sha3 spec key = (if spec = Generic then key else sha3 key)"

definition kinds_get_with where
  "kinds_get_with sha3 H Q k key q = (case k of (spec, t) \<Rightarrow> avldb_get_with H Q t (kinds_key sha3 spec key) q)"

definition kinds_contains where
  "kinds_contains sha3 H k key = (case k of (spec, t) \<Rightarrow> avldb_contains H t (kinds_key sha3 spec key))"

end
