(* ===== verification/AvlTree.thy ===== *)
theory AvlTree
  imports Main "HOL-Library.List_Lexorder" AvlNode
begin

section \<open>The trees behind the storage\<close>

text \<open>
  What the operations of \<open>util/src/avl/avldbmut.rs\<close> do to the tree that the storage and the database together
  hold. The entries are in the leaves, a branch has the height that the code stores in it, which need not be its
  true height. \<open>weak\<close> is what every operation keeps; \<open>balanced\<close> is what insertions keep and removals do not.
\<close>

subsection \<open>Trees\<close>

datatype avl = Tip | Lf node_key db_value | Br nat node_key avl avl

fun ht :: "avl \<Rightarrow> nat" where
  "ht Tip = 0"
| "ht (Lf k v) = 1"
| "ht (Br h k l r) = h"

fun tmap :: "avl \<Rightarrow> node_key \<rightharpoonup> db_value" where
  "tmap Tip = Map.empty"
| "tmap (Lf k v) = [k \<mapsto> v]"
| "tmap (Br h k l r) = tmap l ++ tmap r"

fun ordered :: "avl \<Rightarrow> bool" where
  "ordered Tip = True"
| "ordered (Lf k v) = True"
| "ordered (Br h k l r) \<longleftrightarrow>
     (\<forall>x \<in> dom (tmap l). x < k) \<and> (\<forall>x \<in> dom (tmap r). k \<le> x) \<and> ordered l \<and> ordered r"

fun find_key :: "avl \<Rightarrow> node_key \<Rightarrow> db_value option" where
  "find_key Tip key = None"
| "find_key (Lf k v) key = (if k = key then Some v else None)"
| "find_key (Br h k l r) key = find_key (if key < k then l else r) key"

text \<open>Branches have two children, and the height in a branch is above those in its children.\<close>

fun weak :: "avl \<Rightarrow> bool" where
  "weak Tip = True"
| "weak (Lf k v) = True"
| "weak (Br h k l r) \<longleftrightarrow> l \<noteq> Tip \<and> r \<noteq> Tip \<and> ht l < h \<and> ht r < h \<and> weak l \<and> weak r"

fun balanced :: "avl \<Rightarrow> bool" where
  "balanced Tip = True"
| "balanced (Lf k v) = True"
| "balanced (Br h k l r) \<longleftrightarrow> l \<noteq> Tip \<and> r \<noteq> Tip \<and> h = max (ht l) (ht r) + 1 \<and>
     ht l \<le> ht r + 1 \<and> ht r \<le> ht l + 1 \<and> balanced l \<and> balanced r"

fun true_height :: "avl \<Rightarrow> nat" where
  "true_height Tip = 0"
| "true_height (Lf k v) = 1"
| "true_height (Br h k l r) = max (true_height l) (true_height r) + 1"

fun leaves :: "avl \<Rightarrow> nat" where
  "leaves Tip = 0"
| "leaves (Lf k v) = 1"
| "leaves (Br h k l r) = leaves l + leaves r"

subsection \<open>Operations\<close>

fun left_rot :: "avl \<Rightarrow> avl" where
  "left_rot (Br h1 a (Br h2 b l2 r2) r1) = Br h1 b l2 (Br (h1 - 1) a r2 r1)"
| "left_rot t = t"

fun right_rot :: "avl \<Rightarrow> avl" where
  "right_rot (Br h1 a l1 (Br h2 b l2 r2)) = Br h1 b (Br (h1 - 1) a l1 l2) r2"
| "right_rot t = t"

definition lean_left :: "avl \<Rightarrow> avl" where
  "lean_left t = (case t of Br h k l r \<Rightarrow> if ht l < ht r then right_rot t else t | _ \<Rightarrow> t)"

definition lean_right :: "avl \<Rightarrow> avl" where
  "lean_right t = (case t of Br h k l r \<Rightarrow> if ht r < ht l then left_rot t else t | _ \<Rightarrow> t)"

fun rebal :: "avl \<Rightarrow> avl" where
  "rebal (Br h k l r) =
     (if ht l = 2 + ht r then left_rot (Br h k (lean_left l) r)
      else if ht r = 2 + ht l then right_rot (Br h k l (lean_right r))
      else Br (max (ht l) (ht r) + 1) k l r)"
| "rebal t = t"

fun ins :: "node_key \<Rightarrow> db_value \<Rightarrow> avl \<Rightarrow> avl \<times> bool" where
  "ins key val Tip = (Lf key val, True)"
| "ins key val (Lf k v) =
     (if k = key then (Lf key val, v \<noteq> val)
      else if k < key then (rebal (Br 1 key (Lf k v) (Lf key val)), True)
      else (rebal (Br 1 k (Lf key val) (Lf k v)), True))"
| "ins key val (Br h k l r) =
     (if key < k then (let (l', c) = ins key val l in (if c then rebal (Br h k l' r) else Br h k l' r, c))
      else (let (r', c) = ins key val r in (if c then rebal (Br h k l r') else Br h k l r', c)))"

text \<open>\<open>None\<close>: nothing is left.\<close>

fun del :: "node_key \<Rightarrow> avl \<Rightarrow> (avl \<times> bool) option" where
  "del key Tip = None"
| "del key (Lf k v) = (if k = key then None else Some (Lf k v, False))"
| "del key (Br h k l r) =
     (if key < k then
        (case del key l of
           None \<Rightarrow> Some (rebal r, True)
         | Some (l', c) \<Rightarrow> Some (if c then rebal (Br h k l' r) else Br h k l' r, c))
      else
        (case del key r of
           None \<Rightarrow> Some (rebal l, True)
         | Some (r', c) \<Rightarrow> Some (if c then rebal (Br h k l r') else Br h k l r', c)))"

subsection \<open>Searching\<close>

lemma find_key_tmap: "ordered t \<Longrightarrow> find_key t key = tmap t key"
proof (induction t)
  case (Br h k l r)
  have "key < k \<Longrightarrow> tmap r key = None" and "\<not> key < k \<Longrightarrow> tmap l key = None" using Br.prems by (force simp: domIff)+
  then show ?case using Br by (auto simp: map_add_def split: option.splits)
qed auto

lemma dom_branch: "dom (tmap (Br h k l r)) = dom (tmap l) \<union> dom (tmap r)"
  by auto

text \<open>No branch lacks a child.\<close>

fun full :: "avl \<Rightarrow> bool" where
  "full Tip = True"
| "full (Lf k v) = True"
| "full (Br h k l r) \<longleftrightarrow> l \<noteq> Tip \<and> r \<noteq> Tip \<and> full l \<and> full r"

lemma weak_full: "weak t \<Longrightarrow> full t"
  by (induction t) auto

lemma full_dom: "full t \<Longrightarrow> t \<noteq> Tip \<Longrightarrow> \<exists>x. x \<in> dom (tmap t)"
  by (induction t) (auto simp: domIff)

subsection \<open>Rotations keep the entries and their order\<close>

lemma left_rot_tmap [simp]: "tmap (left_rot t) = tmap t"
  by (cases t rule: left_rot.cases) simp_all

lemma right_rot_tmap [simp]: "tmap (right_rot t) = tmap t"
  by (cases t rule: right_rot.cases) simp_all

lemma lean_tmap [simp]: "tmap (lean_left t) = tmap t" "tmap (lean_right t) = tmap t"
  by (auto simp: lean_left_def lean_right_def simp del: tmap.simps split: avl.split)

lemma rebal_tmap [simp]: "tmap (rebal t) = tmap t"
  by (cases t rule: rebal.cases) simp_all

lemma left_rot_ordered: "full t \<Longrightarrow> ordered t \<Longrightarrow> ordered (left_rot t) \<and> full (left_rot t)"
proof (induction t rule: left_rot.induct)
  case (1 h1 a h2 b l2 r2 r1)
  obtain x where "x \<in> dom (tmap r2)" using full_dom[of r2] 1(1) by auto
  then have "b \<le> x" "x < a" using 1(2) by auto
  then have ba: "b \<le> a" by order
  have "b \<le> x" if "x \<in> dom (tmap r1)" for x
  proof -
    have "a \<le> x" using 1(2) that by auto
    with ba show ?thesis by order
  qed
  then show ?case using 1 by auto
qed auto

lemma right_rot_ordered: "full t \<Longrightarrow> ordered t \<Longrightarrow> ordered (right_rot t) \<and> full (right_rot t)"
proof (induction t rule: right_rot.induct)
  case (1 h1 a l1 h2 b l2 r2)
  obtain x where "x \<in> dom (tmap l2)" using full_dom[of l2] 1(1) by auto
  then have "a \<le> x" "x < b" using 1(2) by auto
  then have ab: "a < b" by order
  have "x < b" if "x \<in> dom (tmap l1)" for x
  proof -
    have "x < a" using 1(2) that by auto
    with ab show ?thesis by order
  qed
  then show ?case using 1 by auto
qed auto

lemma lean_ordered:
  assumes "full t" and "ordered t"
  shows "ordered (lean_left t) \<and> full (lean_left t)" and "ordered (lean_right t) \<and> full (lean_right t)"
  using assms left_rot_ordered[OF assms] right_rot_ordered[OF assms]
  by (cases t; simp add: lean_left_def lean_right_def del: ordered.simps full.simps)+

lemma rot_Tip [simp]: "left_rot t = Tip \<longleftrightarrow> t = Tip" "right_rot t = Tip \<longleftrightarrow> t = Tip"
  by (cases t rule: left_rot.cases; simp) (cases t rule: right_rot.cases; simp)

lemma lean_Tip [simp]: "lean_left t = Tip \<longleftrightarrow> t = Tip" "lean_right t = Tip \<longleftrightarrow> t = Tip"
  by (auto simp: lean_left_def lean_right_def split: avl.splits)

lemma rebal_ordered: "full t \<Longrightarrow> ordered t \<Longrightarrow> ordered (rebal t) \<and> full (rebal t)"
proof (induction t rule: rebal.induct)
  case (1 h k l r)
  have l: "ordered (lean_left l)" "full (lean_left l)" and r: "ordered (lean_right r)" "full (lean_right r)"
    using 1 lean_ordered[of l] lean_ordered[of r] by auto
  have "ordered (Br h k (lean_left l) r)" "full (Br h k (lean_left l) r)"
    "ordered (Br h k l (lean_right r))" "full (Br h k l (lean_right r))" using 1 l r by auto
  then show ?case using 1 left_rot_ordered right_rot_ordered by auto
qed auto

lemma rebal_Tip [simp]: "rebal t = Tip \<longleftrightarrow> t = Tip"
  by (cases t rule: rebal.cases) auto

subsection \<open>Insertion and removal as updates of the map\<close>

lemma ins_not_Tip [simp]: "fst (ins key val t) \<noteq> Tip"
  by (induction t) (auto simp: Let_def split: prod.split)

lemma ordered_left: "ordered (Br h k l r) \<Longrightarrow> key < k \<Longrightarrow> key \<notin> dom (tmap r)"
  by (metis leD ordered.simps(3))

lemma ordered_right: "ordered (Br h k l r) \<Longrightarrow> \<not> key < k \<Longrightarrow> key \<notin> dom (tmap l)"
  by auto

lemma map_upd_left: "key \<notin> dom n \<Longrightarrow> m(key \<mapsto> val) ++ n = (m ++ n)(key \<mapsto> val)"
  by (auto simp: fun_eq_iff map_add_def split: option.split)

lemma ins_spec:
  assumes "full t" and "ordered t"
  shows "full (fst (ins key val t)) \<and> ordered (fst (ins key val t)) \<and> tmap (fst (ins key val t)) = (tmap t)(key \<mapsto> val)"
  using assms
proof (induction t)
  case (Lf k v)
  have "full (Br 1 key (Lf k v) (Lf key val)) \<and> ordered (Br 1 key (Lf k v) (Lf key val))" if "k < key" using that by auto
  moreover have "full (Br 1 k (Lf key val) (Lf k v)) \<and> ordered (Br 1 k (Lf key val) (Lf k v))" if "k \<noteq> key" "\<not> k < key"
    using that by auto
  ultimately show ?case using rebal_ordered by (auto simp: fun_eq_iff)
next
  case (Br h k l r)
  show ?case
  proof (cases "key < k")
    case True
    obtain l' c where i: "ins key val l = (l', c)" by fastforce
    have l: "full l'" "ordered l'" "tmap l' = (tmap l)(key \<mapsto> val)" "l' \<noteq> Tip"
      using Br i ins_not_Tip[of key val l] by auto
    have "key \<notin> dom (tmap r)" by (rule ordered_left[OF Br.prems(2) True])
    then have "tmap (Br h k l' r) = (tmap (Br h k l r))(key \<mapsto> val)" by (simp add: l(3) map_upd_left)
    moreover have "full (Br h k l' r) \<and> ordered (Br h k l' r)" using l True Br.prems by auto
    ultimately show ?thesis using True i rebal_ordered[of "Br h k l' r"] by (simp del: tmap.simps full.simps ordered.simps rebal.simps)
  next
    case False
    obtain r' c where i: "ins key val r = (r', c)" by fastforce
    have r: "full r'" "ordered r'" "tmap r' = (tmap r)(key \<mapsto> val)" "r' \<noteq> Tip"
      using Br i ins_not_Tip[of key val r] by auto
    have "tmap (Br h k l r') = (tmap (Br h k l r))(key \<mapsto> val)" by (simp add: r(3))
    moreover have "full (Br h k l r') \<and> ordered (Br h k l r')" using r False Br.prems by auto
    ultimately show ?thesis using False i rebal_ordered[of "Br h k l r'"] by (simp del: tmap.simps full.simps ordered.simps rebal.simps)
  qed
qed auto

lemma map_del_left: "key \<notin> dom n \<Longrightarrow> m(key := None) ++ n = (m ++ n)(key := None)"
  by (auto simp: fun_eq_iff map_add_def split: option.split)

lemma map_del_right: "key \<notin> dom m \<Longrightarrow> m ++ n(key := None) = (m ++ n)(key := None)"
  by (auto simp: fun_eq_iff map_add_def domIff split: option.split)

lemma map_del_empty: "m(key := None) = Map.empty \<Longrightarrow> dom m \<subseteq> {key}"
  by (auto simp: fun_eq_iff split: if_splits)

lemma del_spec:
  assumes "full t" and "ordered t"
  shows "case del key t of
      None \<Rightarrow> (tmap t)(key := None) = Map.empty
    | Some (t', c) \<Rightarrow> t' \<noteq> Tip \<and> full t' \<and> ordered t' \<and> tmap t' = (tmap t)(key := None)"
  using assms
proof (induction t)
  case (Br h k l r)
  show ?case
  proof (cases "key < k")
    case True
    have kr: "key \<notin> dom (tmap r)" by (rule ordered_left[OF Br.prems(2) True])
    show ?thesis
    proof (cases "del key l")
      case None
      then have "(tmap l)(key := None) = Map.empty" using Br by simp
      then have "tmap r = (tmap (Br h k l r))(key := None)" using map_del_left[OF kr, of "tmap l"] by simp
      then show ?thesis using True None Br.prems rebal_ordered[of r] by (simp del: tmap.simps rebal.simps)
    next
      case (Some p)
      obtain l' c where p: "p = (l', c)" by fastforce
      have l: "full l'" "ordered l'" "tmap l' = (tmap l)(key := None)" "l' \<noteq> Tip" using Br Some p by auto
      have "tmap (Br h k l' r) = (tmap (Br h k l r))(key := None)" by (simp add: l(3) map_del_left[OF kr])
      moreover have "full (Br h k l' r) \<and> ordered (Br h k l' r)" using l True Br.prems by auto
      ultimately show ?thesis using True Some p rebal_ordered[of "Br h k l' r"]
        by (simp del: tmap.simps full.simps ordered.simps rebal.simps)
    qed
  next
    case False
    have kl: "key \<notin> dom (tmap l)" by (rule ordered_right[OF Br.prems(2) False])
    show ?thesis
    proof (cases "del key r")
      case None
      then have "(tmap r)(key := None) = Map.empty" using Br by simp
      then have "tmap l = (tmap (Br h k l r))(key := None)" using map_del_right[OF kl, of "tmap r"] by simp
      then show ?thesis using False None Br.prems rebal_ordered[of l] by (simp del: tmap.simps rebal.simps)
    next
      case (Some p)
      obtain r' c where p: "p = (r', c)" by fastforce
      have r: "full r'" "ordered r'" "tmap r' = (tmap r)(key := None)" "r' \<noteq> Tip" using Br Some p by auto
      have "tmap (Br h k l r') = (tmap (Br h k l r))(key := None)" by (simp add: r(3) map_del_right[OF kl])
      moreover have "full (Br h k l r') \<and> ordered (Br h k l r')" using r False Br.prems by auto
      ultimately show ?thesis using False Some p rebal_ordered[of "Br h k l r'"]
        by (simp del: tmap.simps full.simps ordered.simps rebal.simps)
    qed
  qed
qed (auto simp: fun_eq_iff)

subsection \<open>Heights\<close>

text \<open>
  A subtree that has reached the height of the branch above it: not both of its children are as high as they
  can be. Insertion leaves the subtree so, and then one rotation is enough.
\<close>

definition calm :: "nat \<Rightarrow> avl \<Rightarrow> bool" where
  "calm h t \<longleftrightarrow> ht t < h \<or> ht t = h \<and> (h = 2 \<or> (case t of Br _ _ a b \<Rightarrow> ht a < h - 1 \<or> ht b < h - 1 | _ \<Rightarrow> False))"

lemma weak_ht: "weak t \<Longrightarrow> t \<noteq> Tip \<Longrightarrow> 1 \<le> ht t"
  by (cases t) auto

lemma weak_Br: "weak t \<Longrightarrow> 2 \<le> ht t \<Longrightarrow> \<exists>k l r. t = Br (ht t) k l r"
  by (cases t) auto

lemma rebal_left_weak:
  assumes l: "weak l" "calm h l" and r: "weak r" "r \<noteq> Tip" and lh: "ht l = 2 + ht r"
  shows "weak (rebal (Br h k l r)) \<and> ht (rebal (Br h k l r)) = h"
proof -
  have "3 \<le> ht l" using weak_ht[OF r] lh by simp
  then obtain h2 k2 ll lr where lb: "l = Br h2 k2 ll lr" using weak_Br[OF l(1)] by fastforce
  note l = l[unfolded lb]
  have h: "h2 \<le> h" "h \<noteq> 2" "h2 = 2 + ht r" "1 \<le> ht r"
    using l(2) lh \<open>3 \<le> ht l\<close> weak_ht[OF r] by (auto simp: calm_def lb)
  show ?thesis
  proof (cases "ht ll < ht lr")
    case True
    then obtain h3 k3 a b where lrb: "lr = Br h3 k3 a b"
      using weak_Br[of lr] weak_ht[of ll] l(1) by fastforce
    show ?thesis using l r h True by (auto simp: lb lrb lean_left_def)
  next
    case False
    have "ht lr < h - 1" using l False h(2) by (auto simp: calm_def)
    then show ?thesis using l r h False by (auto simp: lb lean_left_def)
  qed
qed

lemma rebal_right_weak:
  assumes l: "weak l" "l \<noteq> Tip" and r: "weak r" "calm h r" and lh: "ht r = 2 + ht l"
  shows "weak (rebal (Br h k l r)) \<and> ht (rebal (Br h k l r)) = h"
proof -
  have "3 \<le> ht r" using weak_ht[OF l] lh by simp
  then obtain h2 k2 rl rr where rb: "r = Br h2 k2 rl rr" using weak_Br[OF r(1)] by fastforce
  note r = r[unfolded rb]
  have h: "h2 \<le> h" "h \<noteq> 2" "h2 = 2 + ht l" "1 \<le> ht l"
    using r(2) lh \<open>3 \<le> ht r\<close> weak_ht[OF l] by (auto simp: calm_def rb)
  show ?thesis
  proof (cases "ht rr < ht rl")
    case True
    then obtain h3 k3 a b where rlb: "rl = Br h3 k3 a b"
      using weak_Br[of rl] weak_ht[of rr] r(1) by fastforce
    show ?thesis using l r h True by (auto simp: rb rlb lean_right_def)
  next
    case False
    have "ht rl < h - 1" using r False h(2) by (auto simp: calm_def)
    then show ?thesis using l r h False by (auto simp: rb lean_right_def)
  qed
qed

lemma calm_le: "calm h t \<Longrightarrow> ht t \<le> h"
  by (auto simp: calm_def)

text \<open>Rebalancing a branch whose height is stale: at most one child has reached it.\<close>

lemma rebal_weak:
  assumes "weak l" "calm h l" "l \<noteq> Tip" and "weak r" "calm h r" "r \<noteq> Tip" and "ht l < h \<or> ht r < h"
  shows "weak (rebal (Br h k l r)) \<and> calm (h + 1) (rebal (Br h k l r)) \<and>
    (ht l < h \<and> ht r < h \<longrightarrow> ht (rebal (Br h k l r)) \<le> h)"
proof -
  consider (l) "ht l = 2 + ht r" | (r) "ht r = 2 + ht l" | (n) "ht l \<noteq> 2 + ht r" "ht r \<noteq> 2 + ht l" by linarith
  then show ?thesis
  proof cases
    case l
    then show ?thesis using rebal_left_weak[of l h r k] assms by (simp add: calm_def del: rebal.simps)
  next
    case r
    then show ?thesis using rebal_right_weak[of l r h k] assms by (simp add: calm_def del: rebal.simps)
  next
    case n
    then show ?thesis using assms calm_le[of h l] calm_le[of h r] by (auto simp: calm_def)
  qed
qed

lemma calm_less: "ht t < h \<Longrightarrow> calm h t"
  by (simp add: calm_def)

declare rebal.simps(1) [simp del]

lemma calm_mono: "calm n t \<Longrightarrow> n \<le> h \<Longrightarrow> calm h t"
  by (auto simp: calm_def)

lemma ins_unchanged: "\<not> snd (ins key val t) \<Longrightarrow> fst (ins key val t) = t"
proof (induction t)
  case (Br h k l r)
  then show ?case by (cases "ins key val l"; cases "ins key val r") (auto split: if_splits)
qed (auto split: if_splits)

lemma del_unchanged: "del key t = Some (t', False) \<Longrightarrow> t' = t"
proof (induction t arbitrary: t')
  case (Br h k l r)
  show ?case
  proof (cases "key < k")
    case True
    then obtain l' where "del key l = Some (l', False)" "t' = Br h k l' r"
      using Br.prems by (auto split: option.splits if_splits)
    then show ?thesis using Br.IH(1) by simp
  next
    case False
    then obtain r' where "del key r = Some (r', False)" "t' = Br h k l r'"
      using Br.prems by (auto split: option.splits if_splits)
    then show ?thesis using Br.IH(2) by simp
  qed
qed (auto split: if_splits)

lemma ins_weak:
  assumes "weak t" and "t \<noteq> Tip"
  shows "weak (fst (ins key val t)) \<and> calm (ht t + 1) (fst (ins key val t))"
  using assms
proof (induction t)
  case (Lf k v)
  show ?case by (auto simp: calm_def rebal.simps)
next
  case (Br h k l r)
  obtain l' c where l: "ins key val l = (l', c)" by fastforce
  obtain r' d where r: "ins key val r = (r', d)" by fastforce
  have lw: "weak l'" "calm h l'" "l' \<noteq> Tip" using Br l ins_not_Tip[of key val l] calm_mono[of "ht l + 1"] by auto
  have rw: "weak r'" "calm h r'" "r' \<noteq> Tip" using Br r ins_not_Tip[of key val r] calm_mono[of "ht r + 1"] by auto
  have "weak (rebal (Br h k l' r)) \<and> calm (h + 1) (rebal (Br h k l' r))"
    "weak (rebal (Br h k l r')) \<and> calm (h + 1) (rebal (Br h k l r'))"
    using rebal_weak[of l' h r k] rebal_weak[of l h r' k] lw rw Br.prems by (simp_all add: calm_less)
  moreover have "\<not> c \<Longrightarrow> l' = l" "\<not> d \<Longrightarrow> r' = r" using l r ins_unchanged[of key val l] ins_unchanged[of key val r] by simp_all
  ultimately show ?case using l r Br.prems by (cases c; cases d) (simp_all add: calm_less)
qed simp

lemma del_not_Tip: "full t \<Longrightarrow> del key t = Some (t', c) \<Longrightarrow> t' \<noteq> Tip"
  by (cases t) (auto split: if_splits option.splits)

lemma rebal_self: "weak t \<Longrightarrow> weak (rebal t) \<and> ht (rebal t) \<le> ht t"
proof (induction t)
  case (Br h k l r)
  then show ?case using rebal_weak[of l h r k] by (simp add: calm_less)
qed auto

lemma del_weak:
  assumes "weak t" and "del key t = Some (t', c)"
  shows "weak t' \<and> ht t' \<le> ht t"
  using assms
proof (induction t arbitrary: t' c)
  case (Br h k l r)
  have s: "weak (rebal l) \<and> ht (rebal l) \<le> h" "weak (rebal r) \<and> ht (rebal r) \<le> h"
    using rebal_self[of l] rebal_self[of r] Br.prems(1) by auto
  show ?case
  proof (cases "key < k")
    case True
    show ?thesis
    proof (cases "del key l")
      case None
      then show ?thesis using True Br.prems s by (simp)
    next
      case (Some p)
      obtain l' d where p: "p = (l', d)" by fastforce
      have lw: "weak l" "ht l < h" using Br.prems(1) by simp_all
      have e: "del key l = Some (l', d)" using Some p by simp
      have l: "weak l' \<and> ht l' \<le> ht l" by (rule Br.IH(1)[OF lw(1) e])
      have n: "l' \<noteq> Tip" by (rule del_not_Tip[OF weak_full[OF lw(1)] e])
      have t: "t' = (if d then rebal (Br h k l' r) else Br h k l' r)" using Br.prems(2) True e by (auto)
      have q: "weak (Br h k l' r)" using l lw n Br.prems(1) by simp
      show ?thesis
      proof (cases d)
        case True
        then show ?thesis using rebal_self[OF q] by (simp add: t)
      next
        case False
        then show ?thesis using q by (simp add: t)
      qed
    qed
  next
    case False
    show ?thesis
    proof (cases "del key r")
      case None
      then show ?thesis using False Br.prems s by (simp)
    next
      case (Some p)
      obtain r' d where p: "p = (r', d)" by fastforce
      have rw: "weak r" "ht r < h" using Br.prems(1) by simp_all
      have e: "del key r = Some (r', d)" using Some p by simp
      have r: "weak r' \<and> ht r' \<le> ht r" by (rule Br.IH(2)[OF rw(1) e])
      have n: "r' \<noteq> Tip" by (rule del_not_Tip[OF weak_full[OF rw(1)] e])
      have t: "t' = (if d then rebal (Br h k l r') else Br h k l r')" using Br.prems(2) False e by (auto)
      have "ht r' < h" using r rw by linarith
      then have q: "weak (Br h k l r')" using r n Br.prems(1) by auto
      show ?thesis
      proof (cases d)
        case True
        then show ?thesis using rebal_self[OF q] by (simp add: t)
      next
        case False
        then show ?thesis using q by (simp add: t)
      qed
    qed
  qed
qed (auto split: if_splits)

subsection \<open>Insertions keep the tree balanced\<close>

lemma balanced_weak: "balanced t \<Longrightarrow> weak t"
  by (induction t) auto

lemma balanced_Br: "balanced t \<Longrightarrow> 2 \<le> ht t \<Longrightarrow> \<exists>k l r. t = Br (ht t) k l r"
  using weak_Br[OF balanced_weak] .

lemma rebal_balanced:
  assumes l: "balanced l" "calm h l" "l \<noteq> Tip" and r: "balanced r" "calm h r" "r \<noteq> Tip"
    and h: "h = max (ht l) (ht r) \<or> h = max (ht l) (ht r) + 1"
    and d: "ht l \<le> ht r + 2" "ht r \<le> ht l + 2" and e: "ht l = ht r + 2 \<or> ht r = ht l + 2 \<Longrightarrow> h = max (ht l) (ht r)"
  shows "balanced (rebal (Br h k l r)) \<and> h \<le> ht (rebal (Br h k l r))"
proof -
  have pos: "1 \<le> ht l" "1 \<le> ht r" using weak_ht[OF balanced_weak] l r by auto
  consider (l) "ht l = 2 + ht r" | (r) "ht r = 2 + ht l" | (n) "ht l \<noteq> 2 + ht r" "ht r \<noteq> 2 + ht l" by linarith
  then show ?thesis
  proof cases
    case lh: l
    then obtain h2 k2 ll lr where lb: "l = Br h2 k2 ll lr" using balanced_Br[OF l(1)] pos by fastforce
    note l = l[unfolded lb]
    have hh: "h = h2" "h2 = ht r + 2" using e lh by (simp_all add: lb)
    show ?thesis
    proof (cases "ht ll < ht lr")
      case True
      then obtain h3 k3 a b where lrb: "lr = Br h3 k3 a b"
        using balanced_Br[of lr] weak_ht[OF balanced_weak, of ll] l(1) by fastforce
      show ?thesis using l r hh True by (auto simp: lb lrb lean_left_def rebal.simps)
    next
      case False
      have "ht lr < h - 1" using l False hh pos by (auto simp: calm_def)
      then show ?thesis using l r hh False by (auto simp: lb lean_left_def rebal.simps)
    qed
  next
    case rh: r
    then obtain h2 k2 rl rr where rb: "r = Br h2 k2 rl rr" using balanced_Br[OF r(1)] pos by fastforce
    note r = r[unfolded rb]
    have hh: "h = h2" "h2 = ht l + 2" using e rh by (simp_all add: rb)
    show ?thesis
    proof (cases "ht rr < ht rl")
      case True
      then obtain h3 k3 a b where rlb: "rl = Br h3 k3 a b"
        using balanced_Br[of rl] weak_ht[OF balanced_weak, of rr] r(1) by fastforce
      show ?thesis using l r hh True by (auto simp: rb rlb lean_right_def rebal.simps)
    next
      case False
      have "ht rl < h - 1" using r False hh pos by (auto simp: calm_def)
      then show ?thesis using l r hh False by (auto simp: rb lean_right_def rebal.simps)
    qed
  next
    case n
    then show ?thesis using l r h d by (auto simp: rebal.simps)
  qed
qed

lemma ins_balanced:
  assumes "balanced t" and "t \<noteq> Tip"
  shows "balanced (fst (ins key val t)) \<and> ht t \<le> ht (fst (ins key val t))"
  using assms
proof (induction t)
  case (Lf k v)
  show ?case by (auto simp: rebal.simps)
next
  case (Br h k l r)
  have b: "balanced l" "balanced r" "l \<noteq> Tip" "r \<noteq> Tip" "h = max (ht l) (ht r) + 1" "ht l \<le> ht r + 1" "ht r \<le> ht l + 1"
    using Br.prems by simp_all
  show ?case
  proof (cases "key < k")
    case True
    obtain l' c where i: "ins key val l = (l', c)" by fastforce
    have l': "balanced l'" "ht l \<le> ht l'" "calm (ht l + 1) l'" "l' \<noteq> Tip"
      using Br.IH(1) ins_weak[OF balanced_weak, of l key val] ins_not_Tip[of key val l] i b by auto
    have "balanced (rebal (Br h k l' r)) \<and> h \<le> ht (rebal (Br h k l' r))"
    proof (rule rebal_balanced)
      show "calm h l'" using calm_mono[OF l'(3)] b(5) by simp
      show "calm h r" by (rule calm_less) (use b(5) in simp)
      show "h = max (ht l') (ht r) \<or> h = max (ht l') (ht r) + 1" "ht l' \<le> ht r + 2" "ht r \<le> ht l' + 2"
        "ht l' = ht r + 2 \<or> ht r = ht l' + 2 \<Longrightarrow> h = max (ht l') (ht r)"
        using b l'(2) calm_le[OF l'(3)] by (auto simp: max_def split: if_splits)
    qed (use l' b in auto)
    moreover have "\<not> c \<Longrightarrow> l' = l" using ins_unchanged[of key val l] i by simp
    ultimately show ?thesis using True i Br.prems by (cases c) simp_all
  next
    case False
    obtain r' c where i: "ins key val r = (r', c)" by fastforce
    have r': "balanced r'" "ht r \<le> ht r'" "calm (ht r + 1) r'" "r' \<noteq> Tip"
      using Br.IH(2) ins_weak[OF balanced_weak, of r key val] ins_not_Tip[of key val r] i b by auto
    have "balanced (rebal (Br h k l r')) \<and> h \<le> ht (rebal (Br h k l r'))"
    proof (rule rebal_balanced)
      show "calm h r'" using calm_mono[OF r'(3)] b(5) by simp
      show "calm h l" by (rule calm_less) (use b(5) in simp)
      show "h = max (ht l) (ht r') \<or> h = max (ht l) (ht r') + 1" "ht l \<le> ht r' + 2" "ht r' \<le> ht l + 2"
        "ht l = ht r' + 2 \<or> ht r' = ht l + 2 \<Longrightarrow> h = max (ht l) (ht r')"
        using b r'(2) calm_le[OF r'(3)] by (auto simp: max_def split: if_splits)
    qed (use r' b in auto)
    moreover have "\<not> c \<Longrightarrow> r' = r" using ins_unchanged[of key val r] i by simp
    ultimately show ?thesis using False i Br.prems by (cases c) simp_all
  qed
qed simp

lemma balanced_true_height: "balanced t \<Longrightarrow> ht t = true_height t"
  by (induction t) auto

text \<open>A balanced tree with \<open>n\<close> entries is lower than \<open>2 * log n + 2\<close>.\<close>

lemma balanced_leaves: "balanced t \<Longrightarrow> t \<noteq> Tip \<Longrightarrow> 2 ^ ((ht t - 1) div 2) \<le> leaves t"
proof (induction "ht t" arbitrary: t rule: less_induct)
  case less
  show ?case
  proof (cases t)
    case (Br h k l r)
    have b: "balanced l" "balanced r" "l \<noteq> Tip" "r \<noteq> Tip" "h = max (ht l) (ht r) + 1" "ht l \<le> ht r + 1" "ht r \<le> ht l + 1"
      using less.prems by (simp_all add: Br)
    have pos: "1 \<le> ht l" "1 \<le> ht r" using weak_ht[OF balanced_weak] b by auto
    have "2 ^ ((ht l - 1) div 2) \<le> leaves l" "2 ^ ((ht r - 1) div 2) \<le> leaves r"
      using less.hyps[of l] less.hyps[of r] b by (simp_all add: Br)
    moreover have "(2::nat) ^ ((h - 1 - 2) div 2) \<le> 2 ^ ((ht l - 1) div 2)" "(2::nat) ^ ((h - 1 - 2) div 2) \<le> 2 ^ ((ht r - 1) div 2)"
      using b by (intro power_increasing div_le_mono; simp)+
    ultimately have s: "2 * 2 ^ ((h - 1 - 2) div 2) \<le> leaves t" unfolding Br leaves.simps by linarith
    show ?thesis
    proof (cases "h = 2")
      case True
      then show ?thesis using s by (simp add: Br)
    next
      case False
      then have "(h - 1) div 2 = Suc ((h - 1 - 2) div 2)" using b(5) pos by (simp add: max_def split: if_splits)
      then show ?thesis using s by (simp add: Br)
    qed
  qed (use less.prems in auto)
qed

lemma leaves_card: "ordered t \<Longrightarrow> leaves t = card (dom (tmap t)) \<and> finite (dom (tmap t))"
proof (induction t)
  case (Br h k l r)
  have "dom (tmap l) \<inter> dom (tmap r) = {}" using Br.prems by (auto simp: disjoint_iff) (metis leD domI)
  then show ?case using Br by (simp add: card_Un_disjoint Un_commute dom_branch)
qed auto

lemma balanced_height:
  assumes "balanced t" and "t \<noteq> Tip" and "leaves t < 2 ^ n"
  shows "ht t \<le> 2 * n"
proof -
  have "(2::nat) ^ ((ht t - 1) div 2) < 2 ^ n" using balanced_leaves[OF assms(1,2)] assms(3) by linarith
  then have "(ht t - 1) div 2 < n" by simp
  then show ?thesis by linarith
qed

end
