(* ===== verification/AvlRep.thy ===== *)
theory AvlRep
  imports AvlTree AvlMut
begin

section \<open>Trees in storage and database\<close>

text \<open>
  When a handle represents a tree. A tree in the database is linked by the hash of its encoding; a node in
  memory owns its slot and what its children own. What a tree owns, slots of the storage and hashes of
  the database, is a set of resources; the resources of different parts are disjoint, so that changing one part
  leaves the others as they are, and a hash that is put on the death row belongs to no part that is still linked.
\<close>

subsection \<open>Encodings\<close>

definition child_bytes :: "(bytes \<Rightarrow> hash) \<Rightarrow> bytes \<Rightarrow> bytes" where
  "child_bytes S e = (if 32 \<le> length e then data_bytes (S e) else e)"

definition height_bytes :: "nat \<Rightarrow> bytes" where
  "height_bytes h = rlp_enc (word_item (of_nat h :: u32))"

fun avl_enc :: "(bytes \<Rightarrow> hash) \<Rightarrow> avl \<Rightarrow> bytes" where
  "avl_enc S Tip = [0x80]"
| "avl_enc S (Lf k v) = list_bytes (data_bytes k @ data_bytes v)"
| "avl_enc S (Br h k l r) =
     list_bytes (child_bytes S (avl_enc S l) @ child_bytes S (avl_enc S r) @ height_bytes h @ data_bytes k)"

text \<open>The bounds within which a node can be read back.\<close>

fun storable :: "avl \<Rightarrow> bool" where
  "storable Tip = True"
| "storable (Lf k v) \<longleftrightarrow> length k < 2 ^ 30 \<and> length v < 2 ^ 30"
| "storable (Br h k l r) \<longleftrightarrow> 0 < h \<and> h < 128 \<and> length k < 2 ^ 30 \<and> storable l \<and> storable r"

lemma height_bytes: "0 < h \<Longrightarrow> h < 128 \<Longrightarrow> height_bytes h = [of_nat h]"
proof -
  assume h: "0 < h" "h < 128"
  then have "nbytes h = 1" by (simp add: nbytes.simps)
  then have m: "min_be h = [of_nat h]" using min_be_1 by simp
  have "(of_nat h :: u8) < 0x80" using h by (simp add: word_less_nat_alt unat_of_nat)
  then show ?thesis using h m by (simp add: height_bytes_def word_item_def unat_of_nat data_bytes_def)
qed

text \<open>The hash function gives 32 bytes.\<close>

definition hash32 :: "(bytes \<Rightarrow> hash) \<Rightarrow> bool" where
  "hash32 S \<longleftrightarrow> (\<forall>e. length (S e) = 32)"

lemma rlp_header_bound: "n < 2 ^ 32 \<Longrightarrow> length (rlp_header b n) \<le> 5"
proof -
  assume "n < 2 ^ 32"
  then have "nbytes n \<le> 4" by (simp add: nbytes_le_iff)
  then show ?thesis by (simp add: rlp_header_def)
qed

lemma data_bytes_bound: "length bs < 2 ^ 30 \<Longrightarrow> length (data_bytes bs) < 2 ^ 30 + 5"
  using rlp_header_bound[of "length bs" "0x80"] by (auto simp: data_bytes_def)

lemma child_bytes_bound: "hash32 S \<Longrightarrow> length (child_bytes S e) \<le> 37"
  using rlp_header_bound[of 32 "0x80"] by (auto simp: child_bytes_def hash32_def data_bytes_def)

lemma list_bytes_bound: "length p < 2 ^ 32 \<Longrightarrow> length (list_bytes p) \<le> length p + 5"
  using rlp_header_bound[of "length p" "0xc0"] by (simp add: list_bytes_def)

text \<open>The items of a branch.\<close>

definition branch_items :: "(bytes \<Rightarrow> hash) \<Rightarrow> avl \<Rightarrow> bytes list" where
  "branch_items S t =
     (case t of
        Br h k l r \<Rightarrow> [child_bytes S (avl_enc S l), child_bytes S (avl_enc S r), height_bytes h, data_bytes k]
      | _ \<Rightarrow> [])"

lemma branch_payload_bound:
  assumes "hash32 S" and "storable (Br h k l r)"
  shows "length (concat (branch_items S (Br h k l r))) < 2 ^ 31"
  using child_bytes_bound[OF assms(1), of "avl_enc S l"] child_bytes_bound[OF assms(1), of "avl_enc S r"]
    data_bytes_bound[of k] assms(2) by (simp add: branch_items_def height_bytes)

lemma avl_enc_bound: "hash32 S \<Longrightarrow> storable t \<Longrightarrow> length (avl_enc S t) < 2 ^ 32"
proof (cases t)
  case (Lf k v)
  assume "storable t"
  then have "length (data_bytes k @ data_bytes v) < 2 ^ 31 + 10"
    using data_bytes_bound[of k] data_bytes_bound[of v] by (simp add: Lf)
  then show ?thesis using list_bytes_bound[of "data_bytes k @ data_bytes v"] by (simp add: Lf)
next
  case (Br h k l r)
  assume "hash32 S" "storable t"
  then show ?thesis using branch_payload_bound[of S h k l r] list_bytes_bound[of "concat (branch_items S (Br h k l r))"]
    by (simp add: Br branch_items_def)
qed simp

lemma data_framed: "length bs < 2 ^ 31 \<Longrightarrow> framed (data_bytes bs)"
  using framed_enc[of "RData bs"] data_small[of bs] by simp

lemma tip_data: "avl_enc S Tip = data_bytes []"
  by (simp add: data_bytes_def rlp_header_def)

lemma avl_enc_framed: "hash32 S \<Longrightarrow> storable t \<Longrightarrow> framed (avl_enc S t)"
proof (cases t)
  case Tip
  then show ?thesis using data_framed[of "[]"] tip_data by simp
next
  case (Lf k v)
  assume "hash32 S" "storable t"
  then show ?thesis using avl_enc_bound[of S t] by (simp add: Lf framed_list_bytes)
next
  case (Br h k l r)
  assume "hash32 S" "storable t"
  then show ?thesis using avl_enc_bound[of S t] by (simp add: Br framed_list_bytes)
qed

lemma child_framed: "hash32 S \<Longrightarrow> storable t \<Longrightarrow> framed (child_bytes S (avl_enc S t))"
  by (simp add: child_bytes_def avl_enc_framed data_framed hash32_def)

lemma data_bytes_nonempty: "data_bytes bs \<noteq> []"
  using rlp_enc_nonempty[of "RData bs"] by simp

lemma data_payload_info:
  assumes "length bs < 2 ^ 31"
  shows "\<exists>pi. payload_info (data_bytes bs) = Done pi \<and> value_len pi = length bs \<and>
    header_len pi = length (data_bytes bs) - length bs"
proof -
  obtain pi where f: "payload_info_from (data_bytes bs) = Done pi" "payload_total pi = length (data_bytes bs)"
    "value_len pi = length bs"
    using payload_info_data[of bs "[]"] assms by auto
  moreover have "length (data_bytes bs) < 2 ^ 64" using data_small[OF assms] by simp
  ultimately show ?thesis by (auto simp: payload_info_def payload_total_def)
qed

lemma rlp_data_bytes: "length bs < 2 ^ 31 \<Longrightarrow> rlp_data (data_bytes bs) = Done bs"
proof -
  assume l: "length bs < 2 ^ 31"
  then obtain pi where pi: "payload_info (data_bytes bs) = Done pi" "value_len pi = length bs"
    "header_len pi = length (data_bytes bs) - length bs"
    using data_payload_info by blast
  have "drop (length (data_bytes bs) - length bs) (data_bytes bs) = bs" by (simp add: data_bytes_def)
  then show ?thesis by (simp add: rlp_data_def pi)
qed

lemma hash_ref_hash: "length h = 32 \<Longrightarrow> is_hash_ref (data_bytes h)"
  using data_payload_info[of h] is_data_enc[of h] by (auto simp: is_hash_ref_def rlp_size_def)

lemma hash_ref_decode: "length h = 32 \<Longrightarrow> rlp_as_val (hash_decode 32) (data_bytes h) = Some h"
  by (simp add: rlp_as_val_def rlp_unwrap_def hash_decode_def data_dec)

lemma list_not_hash_ref: "length (list_bytes p) < 2 ^ 64 \<Longrightarrow> \<not> is_hash_ref (list_bytes p)"
proof -
  assume "length (list_bytes p) < 2 ^ 64"
  then have "is_list (list_bytes p)" by (rule is_list_bytes)
  then show ?thesis by (auto simp: is_hash_ref_def is_list_def is_data_def)
qed

lemma enc_list:
  assumes "hash32 S" and "storable t" and "t \<noteq> Tip"
  obtains p where "avl_enc S t = list_bytes p" and "p \<noteq> []" and "length p < 2 ^ 32" and "length (list_bytes p) < 2 ^ 64"
proof -
  have "\<exists>p. avl_enc S t = list_bytes p \<and> p \<noteq> []" using assms(3) data_bytes_nonempty by (cases t) auto
  moreover have "length (avl_enc S t) < 2 ^ 32" by (rule avl_enc_bound[OF assms(1,2)])
  ultimately show ?thesis using that by (fastforce simp: list_bytes_def)
qed

lemma tip_not_hash_ref: "\<not> is_hash_ref [0x80]"
  using data_payload_info[of "[]"] by (auto simp: is_hash_ref_def rlp_size_def tip_data[symmetric] data_bytes_def rlp_header_def)

lemma enc_not_hash_ref:
  assumes "hash32 S" and "storable t"
  shows "\<not> is_hash_ref (avl_enc S t)"
proof (cases "t = Tip")
  case True
  then show ?thesis using tip_not_hash_ref by simp
next
  case False
  from enc_list[OF assms False] show ?thesis using list_not_hash_ref by metis
qed

text \<open>Only the bytes of an absent child are empty.\<close>

lemma list_not_empty: "p \<noteq> [] \<Longrightarrow> length p < 2 ^ 32 \<Longrightarrow> \<not> is_empty (list_bytes p)"
proof -
  assume p: "p \<noteq> []" "length p < 2 ^ 32"
  have n: "nbytes (length p) \<le> 4" using p(2) by (simp add: nbytes_le_iff)
  have "unat (0xc0 + of_nat (length p) :: u8) = 0xc0 + length p" if "length p \<le> 55"
    using that unat_header[of "0xc0" "length p"] by simp
  moreover have "unat (0xc0 + (55 + of_nat (nbytes (length p))) :: u8) = 0xc0 + 55 + nbytes (length p)"
    using unat_header[of "0xc0" "55 + nbytes (length p)"] n by simp
  ultimately show ?thesis using p(1) by (auto simp: is_empty_def list_bytes_def rlp_header_def word_unat_eq_iff)
qed

lemma enc_not_empty:
  assumes "hash32 S" and "storable t" and "t \<noteq> Tip"
  shows "\<not> is_empty (avl_enc S t)"
  using enc_list[OF assms] list_not_empty by metis

lemma hash_not_empty: "length h = 32 \<Longrightarrow> \<not> is_empty (data_bytes h)"
  by (auto simp: is_empty_def data_bytes_def rlp_header_def is_null_def)

lemma child_not_empty: "hash32 S \<Longrightarrow> storable t \<Longrightarrow> t \<noteq> Tip \<Longrightarrow> \<not> is_empty (child_bytes S (avl_enc S t))"
  by (simp add: child_bytes_def enc_not_empty hash_not_empty hash32_def)

lemma child_hash_ref:
  "hash32 S \<Longrightarrow> storable t \<Longrightarrow> is_hash_ref (child_bytes S (avl_enc S t)) \<longleftrightarrow> 32 \<le> length (avl_enc S t)"
  by (simp add: child_bytes_def enc_not_hash_ref hash_ref_hash hash32_def)

subsection \<open>Reading nodes back\<close>

lemma raw_at_views:
  assumes "bviews r bs" and "items_ok bs" and "i < length bs"
  shows "\<exists>r'. raw_at r i = Some (bs ! i, r') \<and> bviews r' bs"
proof -
  have "i < usize_max" using items_ok_length[OF assms(2)] assms(3) by linarith
  from rlp_at_bviews[OF assms(1,2) this] assms(3) show ?thesis
    by (cases "rlp_at r i") (auto simp: raw_at_def rlp_unwrap_def untrusted_new_def)
qed

lemma data_at_views:
  assumes "bviews r bs" and "items_ok bs" and "i < length bs" and "bs ! i = data_bytes d" and "length d < 2 ^ 31"
  shows "\<exists>r'. data_at r i = Some (d, r') \<and> bviews r' bs"
  using raw_at_views[OF assms(1-3)] rlp_data_bytes[OF assms(5)] by (auto simp: data_at_def assms(4) rlp_unwrap_def)

lemma list_prototype:
  assumes "items_ok bs"
  shows "\<exists>r. rlp_prototype (untrusted_new (list_bytes (concat bs))) = (Done (PList (length bs)), r) \<and> bviews r bs"
proof -
  have l: "is_list (list_bytes (concat bs))" using assms is_list_bytes by (simp add: items_ok_def)
  then have "\<not> is_data (list_bytes (concat bs))" by (auto simp: is_data_def is_list_def)
  then show ?thesis using item_count_bviews[OF bviews_new assms] l
    by (cases "item_count (untrusted_new (list_bytes (concat bs)))") (auto simp: rlp_prototype_def untrusted_new_def)
qed

lemma decoded_tip: "node_decoded [0x80] = Some RlpEmpty"
proof -
  have "is_data [0x80] \<and> rlp_size [0x80] = 0"
    using data_payload_info[of "[]"] is_data_enc[of "[]"] by (auto simp: rlp_size_def data_bytes_def rlp_header_def)
  then show ?thesis by (simp add: node_decoded_def rlp_prototype_def untrusted_new_def rlp_unwrap_def)
qed

lemma decoded_leaf:
  assumes "length k < 2 ^ 30" and "length v < 2 ^ 30"
  shows "node_decoded (list_bytes (data_bytes k @ data_bytes v)) = Some (RlpLeaf k v)"
proof -
  let ?bs = "[data_bytes k, data_bytes v]"
  have b: "length (list_bytes (concat ?bs)) < 2 ^ 32"
    using avl_enc_bound[of "\<lambda>_. replicate 32 0" "Lf k v"] assms by (simp add: hash32_def)
  then have ok: "items_ok ?bs" using assms by (simp add: items_ok_def data_framed)
  obtain r where r: "rlp_prototype (untrusted_new (list_bytes (concat ?bs))) = (Done (PList 2), r)" "bviews r ?bs"
    using list_prototype[OF ok] by auto
  obtain r1 where r1: "data_at r 0 = Some (k, r1)" "bviews r1 ?bs" using data_at_views[OF r(2) ok, of 0 k] assms by auto
  obtain r2 where r2: "data_at r1 1 = Some (v, r2)" using data_at_views[OF r1(2) ok, of 1 v] assms by auto
  show ?thesis using b r(1) r1(1) r2 by (simp add: node_decoded_def rlp_unwrap_def)
qed

lemma decode_height:
  assumes "0 < h" and "h < 128"
  shows "decode word_decode [of_nat h] = Some (of_nat h :: u32)"
proof -
  have "word_decode (rlp_enc (word_item (of_nat h :: u32))) = Done (of_nat h :: u32)"
    by (rule u32_rlp.dec_item[where bo = byteorder_be]) simp
  then show ?thesis using height_bytes[OF assms] by (simp add: height_bytes_def decode_def rlp_as_val_def rlp_unwrap_def)
qed

lemma decoded_branch:
  assumes "hash32 S" and "storable (Br h k l r)"
  shows "node_decoded (avl_enc S (Br h k l r)) =
    Some (RlpBranch (of_nat h) k (child_bytes S (avl_enc S l), child_bytes S (avl_enc S r)))"
proof -
  let ?bs = "branch_items S (Br h k l r)"
  have st: "0 < h" "h < 128" "length k < 2 ^ 30" "storable l" "storable r" using assms(2) by simp_all
  have e: "avl_enc S (Br h k l r) = list_bytes (concat ?bs)" by (simp add: branch_items_def)
  have hb: "height_bytes h = data_bytes [of_nat h]"
    using height_bytes[OF st(1,2)] st(2) by (simp add: data_bytes_def word_less_nat_alt unat_of_nat)
  have b: "length (list_bytes (concat ?bs)) < 2 ^ 32" using avl_enc_bound[OF assms] by (simp only: e)
  then have ok: "items_ok ?bs"
    using st assms(1) by (simp add: items_ok_def branch_items_def data_framed child_framed hb)
  obtain u where u: "rlp_prototype (untrusted_new (list_bytes (concat ?bs))) = (Done (PList 4), u)" "bviews u ?bs"
    using list_prototype[OF ok] by (auto simp: branch_items_def)
  obtain u0 where u0: "raw_at u 0 = Some (child_bytes S (avl_enc S l), u0)" "bviews u0 ?bs"
    using raw_at_views[OF u(2) ok, of 0] by (auto simp: branch_items_def)
  obtain u1 where u1: "raw_at u0 1 = Some (child_bytes S (avl_enc S r), u1)" "bviews u1 ?bs"
    using raw_at_views[OF u0(2) ok, of 1] by (auto simp: branch_items_def)
  obtain u2 where u2: "data_at u1 2 = Some ([of_nat h], u2)" "bviews u2 ?bs"
    using data_at_views[OF u1(2) ok, of 2 "[of_nat h]"] by (auto simp: branch_items_def hb)
  obtain u3 where u3: "data_at u2 3 = Some (k, u3)"
    using data_at_views[OF u2(2) ok, of 3 k] st(3) by (auto simp: branch_items_def)
  show ?thesis using b u(1) u0(1) u1(1) u2(1) u3 decode_height[OF st(1,2)]
    by (simp add: node_decoded_def rlp_unwrap_def e del: avl_enc.simps)
qed

text \<open>The node of a tree, with its children as they are encoded.\<close>

definition node_of :: "(bytes \<Rightarrow> hash) \<Rightarrow> avl \<Rightarrow> rlp_node" where
  "node_of S t =
     (case t of
        Tip \<Rightarrow> RlpEmpty
      | Lf k v \<Rightarrow> RlpLeaf k v
      | Br h k l r \<Rightarrow> RlpBranch (of_nat h) k (child_bytes S (avl_enc S l), child_bytes S (avl_enc S r)))"

lemma node_of_simps [simp]:
  "node_of S Tip = RlpEmpty" "node_of S (Lf k v) = RlpLeaf k v"
  "node_of S (Br h k l r) = RlpBranch (of_nat h) k (child_bytes S (avl_enc S l), child_bytes S (avl_enc S r))"
  by (simp_all add: node_of_def)

lemma decoded_node: "hash32 S \<Longrightarrow> storable x \<Longrightarrow> node_decoded (avl_enc S x) = Some (node_of S x)"
  by (cases x) (auto simp: decoded_tip decoded_leaf decoded_branch simp del: avl_enc.simps(3))

end
