(* ===== verification/AvlHeap.thy ===== *)
theory AvlHeap
  imports AvlRep
begin

section \<open>What a handle stands for\<close>

text \<open>
  The relation between a handle and the tree it stands for, with the resources that the tree owns, and the effect of the
  small steps of \<open>AvlMut\<close> on it: allocating and destroying slots, loading nodes from the database.
\<close>

subsection \<open>Trees in the database\<close>

definition own_hash :: "(bytes \<Rightarrow> hash) \<Rightarrow> avl \<Rightarrow> hash set" where
  "own_hash S t = (if 32 \<le> length (avl_enc S t) then {S (avl_enc S t)} else {})"

text \<open>The hashes that occur below the root, and that no hash occurs twice.\<close>

fun refs :: "(bytes \<Rightarrow> hash) \<Rightarrow> avl \<Rightarrow> hash set" where
  "refs S (Br h k l r) = own_hash S l \<union> refs S l \<union> (own_hash S r \<union> refs S r)"
| "refs S t = {}"

fun unshared :: "(bytes \<Rightarrow> hash) \<Rightarrow> avl \<Rightarrow> bool" where
  "unshared S (Br h k l r) \<longleftrightarrow> unshared S l \<and> unshared S r \<and> own_hash S l \<inter> refs S l = {} \<and> own_hash S r \<inter> refs S r = {} \<and>
     (own_hash S l \<union> refs S l) \<inter> (own_hash S r \<union> refs S r) = {}"
| "unshared S t = True"

fun in_db :: "(hash \<Rightarrow> db_value option) \<Rightarrow> (bytes \<Rightarrow> hash) \<Rightarrow> avl \<Rightarrow> bool" where
  "in_db g S (Br h k l r) \<longleftrightarrow> in_db g S l \<and> in_db g S r \<and>
     (\<forall>x \<in> own_hash S l. g x = Some (avl_enc S l)) \<and> (\<forall>x \<in> own_hash S r. g x = Some (avl_enc S r))"
| "in_db g S t = True"

definition rooted :: "(hash \<Rightarrow> db_value option) \<Rightarrow> (bytes \<Rightarrow> hash) \<Rightarrow> avl \<Rightarrow> hash \<Rightarrow> bool" where
  "rooted g S t h \<longleftrightarrow> h = S (avl_enc S t) \<and> g h = Some (avl_enc S t) \<and> in_db g S t \<and> storable t \<and> weak t \<and>
     unshared S t \<and> h \<notin> refs S t"

subsection \<open>Trees in storage\<close>

text \<open>
  Only the root can be in the database under its hash although its encoding is short. A handle that stands for such a node
  owns \<open>Top\<close>, which no child of a branch does.
\<close>

datatype resource = Slot nat | Key hash | Top

definition long :: "(bytes \<Rightarrow> hash) \<Rightarrow> avl \<Rightarrow> bool" where
  "long S t \<longleftrightarrow> 32 \<le> length (avl_enc S t)"

definition top_of :: "(bytes \<Rightarrow> hash) \<Rightarrow> avl \<Rightarrow> resource set" where
  "top_of S t = (if long S t then {} else {Top})"

text \<open>A node as it is stored: a cached one is still the node of its hash, and what it needs in the database is its own.\<close>

definition stored_as ::
    "(hash \<Rightarrow> db_value option) \<Rightarrow> (bytes \<Rightarrow> hash) \<Rightarrow> avl \<Rightarrow> (mem_node \<Rightarrow> resource set \<Rightarrow> bool) \<Rightarrow> stored_slot \<Rightarrow> resource set \<Rightarrow> bool" where
  "stored_as g S t P x R =
     (case x of
        New n \<Rightarrow> P n R
      | Cached n h \<Rightarrow> rooted g S t h \<and> Key ` insert h (refs S t) \<union> top_of S t \<subseteq> R \<and> P n (R - {Key h, Top}))"

definition handle_as ::
    "(hash \<Rightarrow> db_value option) \<Rightarrow> (bytes \<Rightarrow> hash) \<Rightarrow> stored_slot list \<Rightarrow> avl \<Rightarrow> (mem_node \<Rightarrow> resource set \<Rightarrow> bool) \<Rightarrow> node_handle \<Rightarrow>
      resource set \<Rightarrow> bool" where
  "handle_as g S ns t P c R =
     (case c of
        Hash h \<Rightarrow> rooted g S t h \<and> R = Key ` insert h (refs S t) \<union> top_of S t
      | InMemory i \<Rightarrow> i < length ns \<and> Slot i \<in> R \<and> stored_as g S t P (ns ! i) (R - {Slot i}))"

primrec node_rep ::
    "(hash \<Rightarrow> db_value option) \<Rightarrow> (bytes \<Rightarrow> hash) \<Rightarrow> stored_slot list \<Rightarrow> avl \<Rightarrow> mem_node \<Rightarrow> resource set \<Rightarrow> bool" where
  "node_rep g S ns Tip n R = (n = Empty \<and> R = {})"
| "node_rep g S ns (Lf k v) n R = (n = Leaf k v \<and> R = {})"
| "node_rep g S ns (Br h k l r) n R = (\<exists>w c0 c1 R0 R1. n = Branch w k (Some c0, Some c1) \<and> unat w = h \<and>
     handle_as g S ns l (node_rep g S ns l) c0 R0 \<and> handle_as g S ns r (node_rep g S ns r) c1 R1 \<and>
     R0 \<inter> R1 = {} \<and> R = R0 \<union> R1 \<and> Top \<notin> R)"

definition stored_rep where
  "stored_rep g S ns t x R = stored_as g S t (node_rep g S ns t) x R"

definition handle_rep where
  "handle_rep g S ns t c R = handle_as g S ns t (node_rep g S ns t) c R"

lemma node_rep_Br: "node_rep g S ns (Br h k l r) n R \<longleftrightarrow> (\<exists>w c0 c1 R0 R1. n = Branch w k (Some c0, Some c1) \<and> unat w = h \<and>
     handle_rep g S ns l c0 R0 \<and> handle_rep g S ns r c1 R1 \<and> R0 \<inter> R1 = {} \<and> R = R0 \<union> R1 \<and> Top \<notin> R)"
  by (simp add: handle_rep_def)

lemma stored_rep_simps:
  "stored_rep g S ns t (New n) R = node_rep g S ns t n R"
  "stored_rep g S ns t (Cached n h) R = (rooted g S t h \<and> Key ` insert h (refs S t) \<union> top_of S t \<subseteq> R \<and> node_rep g S ns t n (R - {Key h, Top}))"
  by (simp_all add: stored_rep_def stored_as_def)

lemma handle_rep_simps:
  "handle_rep g S ns t (Hash h) R = (rooted g S t h \<and> R = Key ` insert h (refs S t) \<union> top_of S t)"
  "handle_rep g S ns t (InMemory i) R = (i < length ns \<and> Slot i \<in> R \<and> stored_rep g S ns t (ns ! i) (R - {Slot i}))"
  by (simp_all add: handle_rep_def handle_as_def stored_rep_def)

declare node_rep.simps(3) [simp del]

text \<open>Slots that a tree does not own do not matter to it.\<close>

definition agree :: "stored_slot list \<Rightarrow> stored_slot list \<Rightarrow> resource set \<Rightarrow> bool" where
  "agree ns ns' R \<longleftrightarrow> (\<forall>i. Slot i \<in> R \<longrightarrow> i < length ns' \<and> ns' ! i = ns ! i)"

lemma agree_subset: "agree ns ns' R \<Longrightarrow> R' \<subseteq> R \<Longrightarrow> agree ns ns' R'"
  by (auto simp: agree_def)

lemma stored_frame:
  assumes "\<And>n R. node_rep g S ns t n R \<Longrightarrow> agree ns ns' R \<Longrightarrow> node_rep g S ns' t n R"
    and "stored_rep g S ns t x R" and "agree ns ns' R"
  shows "stored_rep g S ns' t x R"
  using assms(2,3) assms(1)[of _ "R"] assms(1)[of _ "R - {Key _, Top}"] agree_subset[of ns ns' R "R - {Key _, Top}"]
  by (cases x) (auto simp: stored_rep_simps)

lemma handle_frame_step:
  assumes "\<And>n R. node_rep g S ns t n R \<Longrightarrow> agree ns ns' R \<Longrightarrow> node_rep g S ns' t n R"
    and "handle_rep g S ns t c R" and "agree ns ns' R"
  shows "handle_rep g S ns' t c R"
proof (cases c)
  case (InMemory i)
  have "agree ns ns' (R - {Slot i})" using assms(3) by (auto simp: agree_def)
  then show ?thesis using assms(2,3) stored_frame[OF assms(1)] by (auto simp: InMemory handle_rep_simps agree_def)
qed (use assms(2) in \<open>simp add: handle_rep_simps\<close>)

lemma node_frame: "node_rep g S ns t n R \<Longrightarrow> agree ns ns' R \<Longrightarrow> node_rep g S ns' t n R"
proof (induction t arbitrary: n R)
  case (Br h k l r)
  obtain w c0 c1 R0 R1 where n: "n = Branch w k (Some c0, Some c1)" "unat w = h"
    and 0: "handle_rep g S ns l c0 R0" and 1: "handle_rep g S ns r c1 R1" and R: "R0 \<inter> R1 = {}" "R = R0 \<union> R1" and T: "Top \<notin> R"
    using Br.prems(1) unfolding node_rep_Br by blast
  have "handle_rep g S ns' l c0 R0" "handle_rep g S ns' r c1 R1"
    by (rule handle_frame_step[OF Br.IH(1) 0], auto intro: agree_subset[OF Br.prems(2)] simp: R)
      (rule handle_frame_step[OF Br.IH(2) 1], auto intro: agree_subset[OF Br.prems(2)] simp: R)
  then show ?case using n R T by (auto simp: node_rep_Br)
qed auto

lemma handle_frame: "handle_rep g S ns t c R \<Longrightarrow> agree ns ns' R \<Longrightarrow> handle_rep g S ns' t c R"
  using handle_frame_step[OF node_frame] .

lemma stored_frame': "stored_rep g S ns t x R \<Longrightarrow> agree ns ns' R \<Longrightarrow> stored_rep g S ns' t x R"
  using stored_frame[OF node_frame] .

lemma rep_height:
  "node_rep g S ns t n R \<Longrightarrow> unat (node_height n) = ht t"
  by (cases t) (auto simp: node_rep_Br)

subsection \<open>Resources of a state\<close>

abbreviation slots :: "'db avl_mut \<Rightarrow> stored_slot list" where
  "slots m \<equiv> nodes (a_storage m)"

fun live :: "'db avl_mut \<Rightarrow> resource \<Rightarrow> bool" where
  "live m (Slot i) \<longleftrightarrow> i < length (slots m) \<and> i \<notin> set (free_indices (a_storage m))"
| "live m (Key h) \<longleftrightarrow> h = SHA3_NULL_RLP \<or> h \<notin> set (death_row m)"
| "live m Top = True"

definition store_ok :: "'db avl_mut \<Rightarrow> bool" where
  "store_ok m \<longleftrightarrow> distinct (free_indices (a_storage m)) \<and> set (free_indices (a_storage m)) \<subseteq> {..<length (slots m)}"

text \<open>
  \<open>step m m' R R'\<close>: what owned \<open>R\<close> before owns \<open>R'\<close> afterwards, and nothing else that is live is touched.
\<close>

definition step :: "'db avl_mut \<Rightarrow> 'db avl_mut \<Rightarrow> resource set \<Rightarrow> resource set \<Rightarrow> bool" where
  "step m m' R R' \<longleftrightarrow> store_ok m' \<and> a_db m' = a_db m \<and> a_root m' = a_root m \<and> root_handle m' = root_handle m \<and>
     hash_count m' = hash_count m \<and> old_val m' = old_val m \<and> (\<forall>r \<in> R'. live m' r) \<and>
     (\<forall>r. live m r \<and> r \<notin> R \<longrightarrow> live m' r \<and> r \<notin> R' \<and> (\<forall>i. r = Slot i \<longrightarrow> slots m' ! i = slots m ! i))"

lemma step_refl: "store_ok m \<Longrightarrow> \<forall>r \<in> R. live m r \<Longrightarrow> R' \<subseteq> R \<Longrightarrow> step m m R R'"
  by (auto simp: step_def)

lemma step_trans [trans]: "step m m1 R R1 \<Longrightarrow> step m1 m2 R1 R2 \<Longrightarrow> step m m2 R R2"
  unfolding step_def by (intro conjI allI impI; metis)

lemma step_frame: "step m m' R R' \<Longrightarrow> \<forall>r \<in> X. live m r \<Longrightarrow> X \<inter> R = {} \<Longrightarrow> step m m' (R \<union> X) (R' \<union> X)"
  by (auto simp: step_def)

lemma step_live: "step m m' R R' \<Longrightarrow> r \<in> R' \<Longrightarrow> live m' r"
  by (simp add: step_def)

lemma step_ok: "step m m' R R' \<Longrightarrow> store_ok m'"
  by (simp add: step_def)

lemma step_db: "step m m' R R' \<Longrightarrow> a_db m' = a_db m"
  by (simp add: step_def)

lemma step_Top: "step m m' R R' \<Longrightarrow> Top \<notin> R \<Longrightarrow> Top \<notin> R'"
  unfolding step_def by (metis live.simps(3))

lemma step_agree: "step m m' R R' \<Longrightarrow> \<forall>r \<in> X. live m r \<Longrightarrow> X \<inter> R = {} \<Longrightarrow> agree (slots m) (slots m') X"
  by (fastforce simp: step_def agree_def)

lemma step_disjoint: "step m m' R R' \<Longrightarrow> \<forall>r \<in> X. live m r \<Longrightarrow> X \<inter> R = {} \<Longrightarrow> X \<inter> R' = {} \<and> (\<forall>r \<in> X. live m' r)"
  by (auto simp: step_def)

text \<open>A handle, a node or a stored node of the state with live resources.\<close>

definition owns where
  "owns H S m t c R \<longleftrightarrow> handle_rep (hd_get H (a_db m)) S (slots m) t c R \<and> (\<forall>r \<in> R. live m r)"

definition nowns where
  "nowns H S m t n R \<longleftrightarrow> node_rep (hd_get H (a_db m)) S (slots m) t n R \<and> (\<forall>r \<in> R. live m r)"

definition sowns where
  "sowns H S m t x R \<longleftrightarrow> stored_rep (hd_get H (a_db m)) S (slots m) t x R \<and> (\<forall>r \<in> R. live m r)"

lemma owns_frame: "owns H S m t c X \<Longrightarrow> step m m' R R' \<Longrightarrow> X \<inter> R = {} \<Longrightarrow> owns H S m' t c X \<and> X \<inter> R' = {}"
  using step_agree[of m m' R R' X] step_disjoint[of m m' R R' X] handle_frame step_db[of m m' R R']
  by (auto simp: owns_def)

lemma nowns_frame: "nowns H S m t n X \<Longrightarrow> step m m' R R' \<Longrightarrow> X \<inter> R = {} \<Longrightarrow> nowns H S m' t n X \<and> X \<inter> R' = {}"
  using step_agree[of m m' R R' X] step_disjoint[of m m' R R' X] node_frame step_db[of m m' R R']
  by (auto simp: nowns_def)

lemma sowns_frame: "sowns H S m t x X \<Longrightarrow> step m m' R R' \<Longrightarrow> X \<inter> R = {} \<Longrightarrow> sowns H S m' t x X \<and> X \<inter> R' = {}"
  using step_agree[of m m' R R' X] step_disjoint[of m m' R R' X] stored_frame' step_db[of m m' R R']
  by (auto simp: sowns_def)

lemma alloc_step:
  assumes "store_ok m"
  obtains i m' where "alloc_in x m = Some (i, m')" and "step m m' {} {Slot i}" and "slots m' ! i = x" and "i < length (slots m')"
proof (cases "free_indices (a_storage m)")
  case Nil
  let ?m = "m\<lparr>a_storage := (a_storage m)\<lparr>nodes := slots m @ [x]\<rparr>\<rparr>"
  have "alloc_in x m = Some (length (slots m), ?m)" by (simp add: alloc_in_def alloc_def Nil)
  moreover have "step m ?m {} {Slot (length (slots m))}"
  proof -
    have "live ?m r \<and> r \<notin> {Slot (length (slots m))} \<and> (\<forall>i. r = Slot i \<longrightarrow> slots ?m ! i = slots m ! i)" if "live m r" for r
      using that by (cases r) (auto simp: Nil nth_append)
    then show ?thesis by (simp add: step_def store_ok_def Nil)
  qed
  ultimately show ?thesis using that by simp
next
  case (Cons i rest)
  let ?m = "m\<lparr>a_storage := (a_storage m)\<lparr>nodes := (slots m)[i := x], free_indices := rest\<rparr>\<rparr>"
  have i: "i < length (slots m)" "i \<notin> set rest" "distinct rest" "set rest \<subseteq> {..<length (slots m)}"
    using assms by (auto simp: store_ok_def Cons)
  have "alloc_in x m = Some (i, ?m)" using i by (simp add: alloc_in_def alloc_def Cons)
  moreover have "step m ?m {} {Slot i}"
  proof -
    have "live ?m r \<and> r \<notin> {Slot i} \<and> (\<forall>j. r = Slot j \<longrightarrow> slots ?m ! j = slots m ! j)" if "live m r" for r
      using that by (cases r) (auto simp: Cons)
    then show ?thesis using i by (simp add: step_def store_ok_def)
  qed
  ultimately show ?thesis using that i by simp
qed

lemma destroy_step:
  assumes "store_ok m" and "live m (Slot i)"
  obtains m' where "destroy_in i m = Some (slots m ! i, m')" and "step m m' {Slot i} {}"
proof -
  let ?m = "m\<lparr>a_storage := (a_storage m)\<lparr>nodes := (slots m)[i := New Empty],
    free_indices := free_indices (a_storage m) @ [i]\<rparr>\<rparr>"
  have "destroy_in i m = Some (slots m ! i, ?m)" using assms(2) by (simp add: destroy_in_def destroy_def)
  moreover have "step m ?m {Slot i} {}"
  proof -
    have "live ?m r \<and> (\<forall>j. r = Slot j \<longrightarrow> slots ?m ! j = slots m ! j)" if "live m r \<and> r \<notin> {Slot i}" for r
      using that by (cases r) auto
    moreover have "store_ok ?m" using assms by (simp add: store_ok_def)
    ultimately show ?thesis unfolding step_def by simp
  qed
  ultimately show ?thesis using that by simp
qed

lemma doom_step: "store_ok m \<Longrightarrow> step m (doom h m) {Key h} {}"
proof -
  assume "store_ok m"
  moreover have "live (doom h m) r \<and> (\<forall>j. r = Slot j \<longrightarrow> slots (doom h m) ! j = slots m ! j)" if "live m r" "r \<noteq> Key h" for r
    using that by (cases r) (auto simp: doom_def)
  ultimately show ?thesis by (simp add: step_def store_ok_def) (simp add: doom_def)
qed

text \<open>The cell \<open>old_val\<close> plays no part.\<close>

lemma live_old [simp]: "live (m\<lparr>old_val := v\<rparr>) r = live m r"
  by (cases r) simp_all

lemma owns_old [simp]: "owns H S (m\<lparr>old_val := v\<rparr>) t c R = owns H S m t c R"
  "nowns H S (m\<lparr>old_val := v\<rparr>) t n R = nowns H S m t n R" "sowns H S (m\<lparr>old_val := v\<rparr>) t x R = sowns H S m t x R"
  by (simp_all add: owns_def nowns_def sowns_def)

lemma store_old [simp]: "store_ok (m\<lparr>old_val := v\<rparr>) = store_ok m"
  by (simp add: store_ok_def)

lemma step_old: "step (m\<lparr>old_val := v\<rparr>) m' R R' \<Longrightarrow>
    step m (m'\<lparr>old_val := old_val m\<rparr>) R R' \<and> m' = m'\<lparr>old_val := old_val m, old_val := v\<rparr>"
  by (simp add: step_def)

subsection \<open>Storing, taking and loading nodes\<close>

lemma put_stored:
  assumes "store_ok m" and "sowns H S m t x R"
  obtains i m' where "alloc_in x m = Some (i, m')" and "step m m' R (insert (Slot i) R)"
    and "owns H S m' t (InMemory i) (insert (Slot i) R)"
proof -
  obtain i m' where a: "alloc_in x m = Some (i, m')" and st: "step m m' {} {Slot i}" and x: "slots m' ! i = x" "i < length (slots m')"
    by (rule alloc_step[OF assms(1)])
  have l: "\<forall>r \<in> R. live m r" using assms(2) by (simp add: sowns_def)
  have s: "sowns H S m' t x R" "R \<inter> {Slot i} = {}" using sowns_frame[OF assms(2) st] by auto
  have "step m m' R (insert (Slot i) R)" using step_frame[OF st l] by simp
  moreover have "owns H S m' t (InMemory i) (insert (Slot i) R)"
    using s x step_live[OF st, of "Slot i"] by (simp add: owns_def sowns_def handle_rep_simps)
  ultimately show ?thesis using that a by blast
qed

lemma take_stored:
  assumes "store_ok m" and "owns H S m t (InMemory i) R"
  obtains m' where "destroy_in i m = Some (slots m ! i, m')" and "step m m' R (R - {Slot i})"
    and "sowns H S m' t (slots m ! i) (R - {Slot i})"
proof -
  have o: "Slot i \<in> R" "stored_rep (hd_get H (a_db m)) S (slots m) t (slots m ! i) (R - {Slot i})" "\<forall>r \<in> R. live m r"
    using assms(2) by (auto simp: owns_def handle_rep_simps)
  obtain m' where d: "destroy_in i m = Some (slots m ! i, m')" and st: "step m m' {Slot i} {}"
    by (rule destroy_step[OF assms(1)]) (use o in auto)
  have s: "sowns H S m t (slots m ! i) (R - {Slot i})" using o by (simp add: sowns_def)
  have "step m m' ({Slot i} \<union> (R - {Slot i})) ({} \<union> (R - {Slot i}))" by (rule step_frame[OF st]) (use o in auto)
  then have "step m m' R (R - {Slot i})" using o(1) by (simp add: insert_absorb)
  moreover have "sowns H S m' t (slots m ! i) (R - {Slot i})" using sowns_frame[OF s st] by simp
  ultimately show ?thesis using that d by blast
qed

lemma nowns_New: "sowns H S m t (New n) R = nowns H S m t n R"
  by (simp add: sowns_def nowns_def stored_rep_simps)

lemma owns_Hash: "owns H S m t (Hash h) R \<longleftrightarrow> rooted (hd_get H (a_db m)) S t h \<and> R = Key ` insert h (refs S t) \<union> top_of S t \<and> (\<forall>r \<in> R. live m r)"
  by (auto simp: owns_def handle_rep_simps)

lemma alloc_in_storage: "alloc_in x (m\<lparr>a_storage := s\<rparr>) = map_option (apsnd (\<lambda>s. m\<lparr>a_storage := s\<rparr>)) (alloc x s)"
  by (cases "alloc x s") (auto simp: alloc_in_def)

text \<open>What reading a node and its inline children from bytes gives.\<close>

definition reads_back :: "'db hash_db \<Rightarrow> (bytes \<Rightarrow> hash) \<Rightarrow> avl \<Rightarrow> bool" where
  "reads_back H S t \<longleftrightarrow> (\<forall>m. store_ok m \<and> in_db (hd_get H (a_db m)) S t \<and> (\<forall>h \<in> refs S t. live m (Key h)) \<longrightarrow>
     (\<exists>n s R. from_rlp (avl_enc S t) (a_storage m) = Some (n, s) \<and> Key ` refs S t \<subseteq> R \<and>
        step m (m\<lparr>a_storage := s\<rparr>) (Key ` refs S t) R \<and> nowns H S (m\<lparr>a_storage := s\<rparr>) t n R))"

lemma reads_child:
  assumes hs: "hash32 S" and rd: "reads_back H S t" and t: "storable t" "weak t" "unshared S t" "t \<noteq> Tip" "own_hash S t \<inter> refs S t = {}"
    and m: "store_ok m" "in_db (hd_get H (a_db m)) S t" "\<forall>h \<in> own_hash S t. hd_get H (a_db m) h = Some (avl_enc S t)"
    "\<forall>h \<in> own_hash S t \<union> refs S t. live m (Key h)"
  shows "\<exists>c s R. map_option (apfst Some) (inline_or_hash (child_bytes S (avl_enc S t)) (a_storage m)) = Some (Some c, s) \<and>
     Key ` (own_hash S t \<union> refs S t) \<subseteq> R \<and> step m (m\<lparr>a_storage := s\<rparr>) (Key ` (own_hash S t \<union> refs S t)) R \<and> owns H S (m\<lparr>a_storage := s\<rparr>) t c R"
proof (cases "32 \<le> length (avl_enc S t)")
  case True
  let ?h = "S (avl_enc S t)"
  have h: "length ?h = 32" using hs by (simp add: hash32_def)
  have "owns H S m t (Hash ?h) (Key ` insert ?h (refs S t))"
    using t m True by (auto simp: owns_Hash rooted_def own_hash_def top_of_def long_def)
  moreover have "step m m (Key ` insert ?h (refs S t)) (Key ` insert ?h (refs S t))"
    using m True by (intro step_refl) (auto simp: own_hash_def)
  moreover have "inline_or_hash (child_bytes S (avl_enc S t)) (a_storage m) = Some (Hash ?h, a_storage m)"
    using True hash_ref_hash[OF h] hash_ref_decode[OF h] by (subst inline_or_hash.simps) (simp add: child_bytes_def)
  ultimately show ?thesis using True by (intro exI[of _ "Hash ?h"] exI[of _ "a_storage m"]) (auto simp: own_hash_def)
next
  case False
  have own: "own_hash S t = {}" using False by (simp add: own_hash_def)
  obtain n s R where f: "from_rlp (avl_enc S t) (a_storage m) = Some (n, s)"
    and st: "step m (m\<lparr>a_storage := s\<rparr>) (Key ` refs S t) R" and n: "nowns H S (m\<lparr>a_storage := s\<rparr>) t n R"
    and kr: "Key ` refs S t \<subseteq> R"
    using rd m by (auto simp: reads_back_def)
  obtain i m' where a: "alloc_in (New n) (m\<lparr>a_storage := s\<rparr>) = Some (i, m')"
    and st': "step (m\<lparr>a_storage := s\<rparr>) m' R (insert (Slot i) R)" and o: "owns H S m' t (InMemory i) (insert (Slot i) R)"
    by (rule put_stored[OF step_ok[OF st], of H S t "New n" R]) (use n in \<open>simp add: nowns_New\<close>)
  obtain s' where s': "alloc (New n) s = Some (i, s')" "m' = m\<lparr>a_storage := s'\<rparr>"
    using a by (auto simp: alloc_in_storage)
  have "inline_or_hash (child_bytes S (avl_enc S t)) (a_storage m) = Some (InMemory i, s')"
    using False enc_not_hash_ref[OF hs t(1)] f s'(1) by (subst inline_or_hash.simps) (simp add: child_bytes_def)
  moreover have "Key ` refs S t \<subseteq> insert (Slot i) R" using kr by blast
  ultimately show ?thesis using step_trans[OF st st'] o own s'(2) by auto
qed

lemma reads_tree: "hash32 S \<Longrightarrow> storable t \<Longrightarrow> weak t \<Longrightarrow> unshared S t \<Longrightarrow> reads_back H S t"
proof (induction t)
  case Tip
  have "from_rlp (avl_enc S Tip) s = Some (Empty, s)" for s using decoded_tip by (subst from_rlp.simps) simp
  then show ?case by (auto simp: reads_back_def nowns_def intro: step_refl)
next
  case (Lf k v)
  have "from_rlp (avl_enc S (Lf k v)) s = Some (Leaf k v, s)" for s
    using decoded_leaf[of k v] Lf.prems by (subst from_rlp.simps) simp
  then show ?case by (auto simp: reads_back_def nowns_def intro: step_refl)
next
  case (Br h k l r)
  note hs = Br.prems(1)
  have l: "storable l" "weak l" "unshared S l" "l \<noteq> Tip" "own_hash S l \<inter> refs S l = {}"
    and r: "storable r" "weak r" "unshared S r" "r \<noteq> Tip" "own_hash S r \<inter> refs S r = {}"
    and lr: "(own_hash S l \<union> refs S l) \<inter> (own_hash S r \<union> refs S r) = {}" and h: "0 < h" "h < 128"
    using Br.prems by auto
  have "reads_back H S l" "reads_back H S r" using Br.IH hs l r by blast+
  note ch = reads_child[OF hs this(1) l] reads_child[OF hs this(2) r]
  let ?L = "Key ` (own_hash S l \<union> refs S l)" and ?R = "Key ` (own_hash S r \<union> refs S r)"
  show ?case unfolding reads_back_def
  proof (intro allI impI)
    fix m :: "'a avl_mut"
    assume m: "store_ok m \<and> in_db (hd_get H (a_db m)) S (Br h k l r) \<and> (\<forall>h \<in> refs S (Br h k l r). live m (Key h))"
    obtain c0 s0 R0 where c0: "map_option (apfst Some) (inline_or_hash (child_bytes S (avl_enc S l)) (a_storage m)) = Some (Some c0, s0)"
      and k0: "?L \<subseteq> R0" and st0: "step m (m\<lparr>a_storage := s0\<rparr>) ?L R0" and o0: "owns H S (m\<lparr>a_storage := s0\<rparr>) l c0 R0"
      using ch(1)[of m] m by auto
    let ?m0 = "m\<lparr>a_storage := s0\<rparr>"
    have d: "?R \<inter> ?L = {}" using lr by auto
    have lv: "\<forall>x \<in> ?R. live m x" using m by auto
    have R: "?R \<inter> R0 = {}" "\<forall>x \<in> ?R. live ?m0 x" using step_disjoint[OF st0 lv d] by auto
    obtain c1 s1 R1 where c1: "map_option (apfst Some) (inline_or_hash (child_bytes S (avl_enc S r)) s0) = Some (Some c1, s1)"
      and k1: "?R \<subseteq> R1" and st1: "step ?m0 (?m0\<lparr>a_storage := s1\<rparr>) ?R R1" and o1: "owns H S (?m0\<lparr>a_storage := s1\<rparr>) r c1 R1"
      using ch(2)[of ?m0] m step_ok[OF st0] R(2) by auto
    let ?m1 = "m\<lparr>a_storage := s1\<rparr>"
    have st1': "step ?m0 ?m1 ?R R1" using st1 by simp
    have o0': "owns H S ?m1 l c0 R0" "R0 \<inter> R1 = {}" using owns_frame[OF o0 st1'] R(1) by auto
    have "step m ?m0 (?L \<union> ?R) (R0 \<union> ?R)" by (rule step_frame[OF st0 lv d])
    moreover have "step ?m0 ?m1 (?R \<union> R0) (R1 \<union> R0)" by (rule step_frame[OF st1']) (use o0 R(1) in \<open>auto simp: owns_def\<close>)
    ultimately have st: "step m ?m1 (?L \<union> ?R) (R0 \<union> R1)" by (simp add: Un_commute) (rule step_trans)
    have "from_rlp (avl_enc S (Br h k l r)) (a_storage m) = Some (Branch (of_nat h) k (Some c0, Some c1), s1)"
      using decoded_branch[OF hs Br.prems(2)] child_not_empty[OF hs l(1,4)] child_not_empty[OF hs r(1,4)] c0 c1
      by (subst from_rlp.simps) (simp del: avl_enc.simps)
    moreover have "nowns H S ?m1 (Br h k l r) (Branch (of_nat h) k (Some c0, Some c1)) (R0 \<union> R1)"
      using o0' o1 h step_Top[OF st] by (auto simp: nowns_def owns_def node_rep_Br unat_of_nat)
    moreover have "?L \<union> ?R = Key ` refs S (Br h k l r)" by auto
    moreover from this have "Key ` refs S (Br h k l r) \<subseteq> R0 \<union> R1" using k0 k1 by blast
    ultimately show "\<exists>n s R. from_rlp (avl_enc S (Br h k l r)) (a_storage m) = Some (n, s) \<and> Key ` refs S (Br h k l r) \<subseteq> R \<and>
        step m (m\<lparr>a_storage := s\<rparr>) (Key ` refs S (Br h k l r)) R \<and> nowns H S (m\<lparr>a_storage := s\<rparr>) (Br h k l r) n R"
      using st by metis
  qed
qed

text \<open>The hashes among the resources are kept.\<close>

definition keeps :: "resource set \<Rightarrow> resource set \<Rightarrow> bool" where
  "keeps R R' \<longleftrightarrow> (\<forall>h. Key h \<in> R \<longrightarrow> Key h \<in> R')"

lemma keeps_refl [simp]: "keeps R R"
  by (simp add: keeps_def)

lemma keeps_trans: "keeps R R' \<Longrightarrow> keeps R' R'' \<Longrightarrow> keeps R R''"
  by (simp add: keeps_def)

lemma keeps_slot [simp]: "keeps R (insert (Slot i) R)" "keeps R (R - {Slot i})"
  by (simp_all add: keeps_def)

lemma keeps_Un: "keeps R R' \<Longrightarrow> keeps (R \<union> X) (R' \<union> X)"
  by (simp add: keeps_def)

lemma load_step_keeps:
  assumes hs: "hash32 S" and m: "store_ok m" and o: "owns H S m t c R"
  obtains i m' R' where "load H c m = Some (Inr i, m')" and "step m m' R R'" and "owns H S m' t (InMemory i) R'" and "keeps R R'"
proof (cases c)
  case (InMemory i)
  have "\<forall>x \<in> R. live m x" using o by (simp add: owns_def)
  then have "step m m R R" by (intro step_refl[OF m]) auto
  then show ?thesis using that o InMemory by (auto simp: load_def)
next
  case (Hash h)
  have k: "rooted (hd_get H (a_db m)) S t h" "R = Key ` insert h (refs S t) \<union> top_of S t" "\<forall>x \<in> R. live m x"
    using o by (auto simp: Hash owns_Hash)
  then have t: "storable t" "weak t" "unshared S t" "in_db (hd_get H (a_db m)) S t" "h \<notin> refs S t"
    "hd_get H (a_db m) h = Some (avl_enc S t)" by (auto simp: rooted_def)
  have lv: "\<forall>h \<in> refs S t. live m (Key h)" using k(2,3) by blast
  obtain n s R' where f: "from_rlp (avl_enc S t) (a_storage m) = Some (n, s)"
    and kr: "Key ` refs S t \<subseteq> R'" and st: "step m (m\<lparr>a_storage := s\<rparr>) (Key ` refs S t) R'" and n: "nowns H S (m\<lparr>a_storage := s\<rparr>) t n R'"
    using reads_tree[OF hs t(1-3), of H] m t(4) lv unfolding reads_back_def by blast
  let ?m = "m\<lparr>a_storage := s\<rparr>" and ?X = "insert (Key h) (top_of S t)"
  have X: "\<forall>x \<in> ?X. live m x" "?X \<inter> Key ` refs S t = {}" using k t(5) by (auto simp: top_of_def)
  have d: "?X \<inter> R' = {}" "\<forall>x \<in> ?X. live ?m x" using step_disjoint[OF st X] by auto
  have T: "Top \<notin> R'" by (rule step_Top[OF st]) auto
  have "step m ?m (Key ` refs S t \<union> ?X) (R' \<union> ?X)" by (rule step_frame[OF st X])
  moreover have "Key ` refs S t \<union> ?X = R" using k(2) by auto
  ultimately have st': "step m ?m R (R' \<union> ?X)" by simp
  have "(R' \<union> ?X) - {Key h, Top} = R'" using d(1) T by (auto simp: top_of_def)
  then have "sowns H S ?m t (Cached n h) (R' \<union> ?X)"
    using n d k(1) kr by (auto simp: sowns_def nowns_def stored_rep_simps)
  then obtain i m' where a: "alloc_in (Cached n h) ?m = Some (i, m')"
    and s: "step ?m m' (R' \<union> ?X) (insert (Slot i) (R' \<union> ?X))"
    and o: "owns H S m' t (InMemory i) (insert (Slot i) (R' \<union> ?X))"
    by (rule put_stored[OF step_ok[OF st]])
  have "load H c m = Some (Inr i, m')" using f t(6) a by (simp add: load_def cache_node_def Hash)
  moreover have "keeps R (insert (Slot i) (R' \<union> ?X))" using kr k(2) by (auto simp: keeps_def)
  ultimately show ?thesis by (rule that[OF _ step_trans[OF st' s] o])
qed

lemma load_step:
  assumes "hash32 S" and "store_ok m" and "owns H S m t c R"
  obtains i m' R' where "load H c m = Some (Inr i, m')" and "step m m' R R'" and "owns H S m' t (InMemory i) R'"
  using load_step_keeps[OF assms] that by blast


subsection \<open>Children of a node\<close>

text \<open>A branch in hand, with what its children own.\<close>

lemma nowns_Br:
  "nowns H S m (Br h k l r) n R \<longleftrightarrow> (\<exists>w c0 c1 R0 R1. n = Branch w k (Some c0, Some c1) \<and> unat w = h \<and>
     owns H S m l c0 R0 \<and> owns H S m r c1 R1 \<and> R0 \<inter> R1 = {} \<and> R = R0 \<union> R1 \<and> Top \<notin> R)"
  by (fastforce simp: nowns_def owns_def node_rep_Br)

lemma nowns_BrE:
  assumes "nowns H S m (Br h k l r) n R"
  obtains w c0 c1 R0 R1 where "n = Branch w k (Some c0, Some c1)" and "unat w = h" and "owns H S m l c0 R0" and "owns H S m r c1 R1"
    and "R0 \<inter> R1 = {}" and "R = R0 \<union> R1" and "Top \<notin> R"
  using assms unfolding nowns_Br by blast

lemma nowns_leaf: "nowns H S m Tip n R \<longleftrightarrow> n = Empty \<and> R = {}" "nowns H S m (Lf k v) n R \<longleftrightarrow> n = Leaf k v \<and> R = {}"
  by (auto simp: nowns_def)

text \<open>An operation on one part, beside another.\<close>

lemma step_beside:
  assumes "step m m' R R'" and "owns H S m t c X" and "R \<inter> X = {}"
  shows "step m m' (R \<union> X) (R' \<union> X)" and "owns H S m' t c X" and "R' \<inter> X = {}" and "Top \<notin> R \<union> X \<longrightarrow> Top \<notin> R' \<union> X"
proof -
  have l: "\<forall>r \<in> X. live m r" using assms(2) by (simp add: owns_def)
  show "step m m' (R \<union> X) (R' \<union> X)" by (rule step_frame[OF assms(1) l]) (use assms(3) in auto)
  show "owns H S m' t c X" "R' \<inter> X = {}" using owns_frame[OF assms(2,1)] assms(3) by auto
  show "Top \<notin> R \<union> X \<longrightarrow> Top \<notin> R' \<union> X" using step_Top[OF assms(1)] by auto
qed

lemma height_of_slot:
  assumes "owns H S m t (InMemory i) R"
  obtains n where "storage_index (a_storage m) i = Some n" and "unat (node_height n) = ht t"
proof -
  have "i < length (slots m)" "stored_rep (hd_get H (a_db m)) S (slots m) t (slots m ! i) (R - {Slot i})"
    using assms by (auto simp: owns_def handle_rep_simps)
  then show ?thesis using that rep_height by (cases "slots m ! i") (auto simp: storage_index_def stored_rep_simps)
qed

lemma child_heights:
  assumes hs: "hash32 S" and m: "store_ok m" and n: "nowns H S m (Br h k l r) n R"
  shows "\<exists>w n' m' R'. left_child_height H n m = Some (Inr (w, n'), m') \<and> unat w = ht l \<and> step m m' R R' \<and> nowns H S m' (Br h k l r) n' R'"
    and "\<exists>w n' m' R'. right_child_height H n m = Some (Inr (w, n'), m') \<and> unat w = ht r \<and> step m m' R R' \<and> nowns H S m' (Br h k l r) n' R'"
proof -
  obtain w c0 c1 R0 R1 where n: "n = Branch w k (Some c0, Some c1)" "unat w = h"
    and o: "owns H S m l c0 R0" "owns H S m r c1 R1" and R: "R0 \<inter> R1 = {}" "R = R0 \<union> R1" and T: "Top \<notin> R"
    by (rule nowns_BrE[OF n])
  obtain i m' R' where i: "load H c0 m = Some (Inr i, m')" and st: "step m m' R0 R'" and o0: "owns H S m' l (InMemory i) R'"
    by (rule load_step[OF hs m o(1)])
  note b = step_beside[OF st o(2) R(1)]
  obtain x where "storage_index (a_storage m') i = Some x" "unat (node_height x) = ht l" by (rule height_of_slot[OF o0])
  then have "left_child_height H n m = Some (Inr (node_height x, Branch w k (Some (InMemory i), Some c1)), m')"
    using i by (simp add: left_child_height_def n and_then_def)
  moreover have "nowns H S m' (Br h k l r) (Branch w k (Some (InMemory i), Some c1)) (R' \<union> R1)"
    using n(2) o0 b T R(2) by (auto simp: nowns_Br)
  ultimately show "\<exists>w n' m' R'. left_child_height H n m = Some (Inr (w, n'), m') \<and> unat w = ht l \<and> step m m' R R' \<and> nowns H S m' (Br h k l r) n' R'"
    using b(1) R(2) \<open>unat (node_height x) = ht l\<close> by metis
  have R': "R1 \<inter> R0 = {}" using R(1) by auto
  obtain i m' R' where i: "load H c1 m = Some (Inr i, m')" and st: "step m m' R1 R'" and o1: "owns H S m' r (InMemory i) R'"
    by (rule load_step[OF hs m o(2)])
  note b = step_beside[OF st o(1) R']
  obtain x where x: "storage_index (a_storage m') i = Some x" "unat (node_height x) = ht r" by (rule height_of_slot[OF o1])
  then have "right_child_height H n m = Some (Inr (node_height x, Branch w k (Some c0, Some (InMemory i))), m')"
    using i by (simp add: right_child_height_def n and_then_def)
  moreover have "nowns H S m' (Br h k l r) (Branch w k (Some c0, Some (InMemory i))) (R' \<union> R0)"
    using n(2) o1 b T R(2) by (auto simp: nowns_Br)
  ultimately show "\<exists>w n' m' R'. right_child_height H n m = Some (Inr (w, n'), m') \<and> unat w = ht r \<and> step m m' R R' \<and> nowns H S m' (Br h k l r) n' R'"
    using b(1) R(2) x(2) by (metis Un_commute)
qed

end
