(* ===== verification/AvlOps.thy ===== *)
theory AvlOps
  imports AvlHeap
begin

section \<open>The operations refine those of the trees\<close>

text \<open>
  Rotations, insertion and removal in the storage do what \<open>AvlTree\<close> says, never panic on a tree that is \<open>weak\<close>, and touch
  nothing that the tree does not own. Nodes are loaded from the database on the way.
\<close>

subsection \<open>Taking children\<close>

lemma stored_node_owns:
  assumes "store_ok m" and "sowns H S m t x R"
  shows "\<exists>R'. nowns H S m t (stored_node x) R' \<and> step m m R R'"
proof (cases x)
  case (New n)
  have "step m m R R" using assms by (intro step_refl) (auto simp: sowns_def)
  then show ?thesis using assms(2) by (auto simp: New nowns_New)
next
  case (Cached n h)
  have "step m m R (R - {Key h, Top})" using assms by (intro step_refl) (auto simp: sowns_def)
  then show ?thesis using assms(2) by (auto simp: Cached sowns_def nowns_def stored_rep_simps)
qed

lemma load_take:
  assumes hs: "hash32 S" and m: "store_ok m" and o: "owns H S m t c R"
  obtains i m1 m' x R' where "load H c m = Some (Inr i, m1)" and "destroy_in i m1 = Some (x, m')"
    and "step m m' R R'" and "nowns H S m' t (stored_node x) R'"
proof -
  obtain i m1 R1 where i: "load H c m = Some (Inr i, m1)" and st: "step m m1 R R1" and o1: "owns H S m1 t (InMemory i) R1"
    by (rule load_step[OF assms])
  obtain m' where d: "destroy_in i m1 = Some (slots m1 ! i, m')" and st': "step m1 m' R1 (R1 - {Slot i})"
    and s: "sowns H S m' t (slots m1 ! i) (R1 - {Slot i})"
    by (rule take_stored[OF step_ok[OF st] o1])
  obtain R' where "nowns H S m' t (stored_node (slots m1 ! i)) R'" "step m' m' (R1 - {Slot i}) R'"
    using stored_node_owns[OF step_ok[OF st'] s] by blast
  then show ?thesis using that i d step_trans[OF st step_trans[OF st']] by blast
qed

lemma left_child_taken:
  assumes hs: "hash32 S" and m: "store_ok m" and o: "owns H S m l c R0" and X: "owns H S m r c1 R1" "R0 \<inter> R1 = {}"
  obtains x m' R' where "left_child_destroy H (Branch w k (Some c, right)) m = Some (Inr (x, Branch w k (None, right)), m')"
    and "step m m' (R0 \<union> R1) (R' \<union> R1)" and "nowns H S m' l x R'" and "owns H S m' r c1 R1" and "R' \<inter> R1 = {}"
proof -
  obtain i m1 m' x R' where i: "load H c m = Some (Inr i, m1)" "destroy_in i m1 = Some (x, m')"
    and st: "step m m' R0 R'" and n: "nowns H S m' l (stored_node x) R'"
    by (rule load_take[OF hs m o])
  have "left_child_destroy H (Branch w k (Some c, right)) m = Some (Inr (stored_node x, Branch w k (None, right)), m')"
    using i by (simp add: left_child_destroy_def and_then_def)
  then show ?thesis using that step_beside[OF st X] n by blast
qed

lemma right_child_taken:
  assumes hs: "hash32 S" and m: "store_ok m" and o: "owns H S m r c R0" and X: "owns H S m l c1 R1" "R0 \<inter> R1 = {}"
  obtains x m' R' where "right_child_destroy H (Branch w k (left, Some c)) m = Some (Inr (x, Branch w k (left, None)), m')"
    and "step m m' (R0 \<union> R1) (R' \<union> R1)" and "nowns H S m' r x R'" and "owns H S m' l c1 R1" and "R' \<inter> R1 = {}"
proof -
  obtain i m1 m' x R' where i: "load H c m = Some (Inr i, m1)" "destroy_in i m1 = Some (x, m')"
    and st: "step m m' R0 R'" and n: "nowns H S m' r (stored_node x) R'"
    by (rule load_take[OF hs m o])
  have "right_child_destroy H (Branch w k (left, Some c)) m = Some (Inr (stored_node x, Branch w k (left, None)), m')"
    using i by (simp add: right_child_destroy_def and_then_def)
  then show ?thesis using that step_beside[OF st X] n by blast
qed

subsection \<open>Rotations\<close>

lemma put_branch:
  assumes m: "store_ok m" and l: "owns H S m l c0 R0" and r: "owns H S m r c1 R1" and d: "R0 \<inter> R1 = {}"
    and T: "Top \<notin> R0 \<union> R1"
  obtains i m' R' where "alloc_in (New (Branch w k (Some c0, Some c1))) m = Some (i, m')" and "step m m' (R0 \<union> R1) R'"
    and "owns H S m' (Br (unat w) k l r) (InMemory i) R'"
proof -
  have "sowns H S m (Br (unat w) k l r) (New (Branch w k (Some c0, Some c1))) (R0 \<union> R1)"
    using assms by (auto simp: nowns_New nowns_Br)
  from put_stored[OF m this] that show ?thesis by metis
qed

lemma csub_height: "1 \<le> unat (h :: u32) \<Longrightarrow> \<exists>h'. csub h 1 = Some h' \<and> unat h' = unat h - 1"
proof -
  assume h: "1 \<le> unat h"
  then obtain h' where "csub h 1 = Some h'" by (auto simp: csub_def word_le_nat_alt)
  then show ?thesis using csub_SomeD[of h 1 h'] by simp
qed

lemma left_rotate_spec:
  assumes m: "store_ok m" and k2: "nowns H S m (Br h2 b l2 r2) k2 R2" and r: "owns H S m r1 c R1" and d: "R2 \<inter> R1 = {}"
    and h: "1 \<le> unat h1" and T: "Top \<notin> R1"
  obtains n m' R' where "left_rotate (Branch h1 a (x, Some c)) k2 m = Some (n, m')" and "step m m' (R2 \<union> R1) R'"
    and "nowns H S m' (Br (unat h1) b l2 (Br (unat h1 - 1) a r2 r1)) n R'"
proof -
  obtain w2 cl cr Rl Rr where k2: "k2 = Branch w2 b (Some cl, Some cr)" and o: "owns H S m l2 cl Rl" "owns H S m r2 cr Rr"
    and R: "Rl \<inter> Rr = {}" "R2 = Rl \<union> Rr" and T2: "Top \<notin> R2"
    using k2 unfolding nowns_Br by blast
  obtain h1' where h1': "csub h1 1 = Some h1'" "unat h1' = unat h1 - 1" using csub_height[OF h] by blast
  have d1: "Rr \<inter> R1 = {}" "(Rr \<union> R1) \<inter> Rl = {}" using d R by auto
  obtain i m' R' where i: "alloc_in (New (Branch h1' a (Some cr, Some c))) m = Some (i, m')" and st: "step m m' (Rr \<union> R1) R'"
    and n: "owns H S m' (Br (unat h1') a r2 r1) (InMemory i) R'"
    by (rule put_branch[OF m o(2) r d1(1)]) (use T T2 R(2) in auto)
  note b = step_beside[OF st o(1) d1(2)]
  have "left_rotate (Branch h1 a (x, Some c)) k2 m = Some (Branch h1 b (Some cl, Some (InMemory i)), m')"
    using h1'(1) i by (simp add: left_rotate_def k2)
  moreover have "nowns H S m' (Br (unat h1) b l2 (Br (unat h1 - 1) a r2 r1)) (Branch h1 b (Some cl, Some (InMemory i))) (R' \<union> Rl)"
    using n b(2-4) h1'(2) T T2 R(2) by (auto simp: nowns_Br)
  moreover have "step m m' (R2 \<union> R1) (R' \<union> Rl)" using b(1) R(2) by (simp add: Un_ac)
  ultimately show ?thesis using that by blast
qed

lemma right_rotate_spec:
  assumes m: "store_ok m" and k2: "nowns H S m (Br h2 b l2 r2) k2 R2" and l: "owns H S m l1 c R1" and d: "R2 \<inter> R1 = {}"
    and h: "1 \<le> unat h1" and T: "Top \<notin> R1"
  obtains n m' R' where "right_rotate (Branch h1 a (Some c, x)) k2 m = Some (n, m')" and "step m m' (R2 \<union> R1) R'"
    and "nowns H S m' (Br (unat h1) b (Br (unat h1 - 1) a l1 l2) r2) n R'"
proof -
  obtain w2 cl cr Rl Rr where k2: "k2 = Branch w2 b (Some cl, Some cr)" and o: "owns H S m l2 cl Rl" "owns H S m r2 cr Rr"
    and R: "Rl \<inter> Rr = {}" "R2 = Rl \<union> Rr" and T2: "Top \<notin> R2"
    using k2 unfolding nowns_Br by blast
  obtain h1' where h1': "csub h1 1 = Some h1'" "unat h1' = unat h1 - 1" using csub_height[OF h] by blast
  have d1: "R1 \<inter> Rl = {}" "(R1 \<union> Rl) \<inter> Rr = {}" using d R by auto
  obtain i m' R' where i: "alloc_in (New (Branch h1' a (Some c, Some cl))) m = Some (i, m')" and st: "step m m' (R1 \<union> Rl) R'"
    and n: "owns H S m' (Br (unat h1') a l1 l2) (InMemory i) R'"
    by (rule put_branch[OF m l o(1) d1(1)]) (use T T2 R(2) in auto)
  note b = step_beside[OF st o(2) d1(2)]
  have "right_rotate (Branch h1 a (Some c, x)) k2 m = Some (Branch h1 b (Some (InMemory i), Some cr), m')"
    using h1'(1) i by (simp add: right_rotate_def k2)
  moreover have "nowns H S m' (Br (unat h1) b (Br (unat h1 - 1) a l1 l2) r2) (Branch h1 b (Some (InMemory i), Some cr)) (R' \<union> Rr)"
    using n b(2-4) h1'(2) T T2 R(2) by (auto simp: nowns_Br)
  moreover have "step m m' (R2 \<union> R1) (R' \<union> Rr)" using b(1) R(2) by (simp add: Un_ac)
  ultimately show ?thesis using that by blast
qed

text \<open>Both child heights, as the code reads them.\<close>

lemma both_heights:
  assumes hs: "hash32 S" and m: "store_ok m" and n: "nowns H S m (Br h k l r) n R"
  obtains lh rh n1 n' m1 m' R' where "left_child_height H n m = Some (Inr (lh, n1), m1)"
    and "right_child_height H n1 m1 = Some (Inr (rh, n'), m')" and "unat lh = ht l" and "unat rh = ht r"
    and "step m m' R R'" and "nowns H S m' (Br h k l r) n' R'"
proof -
  obtain lh n1 m1 R1 where 1: "left_child_height H n m = Some (Inr (lh, n1), m1)" "unat lh = ht l" "step m m1 R R1"
    "nowns H S m1 (Br h k l r) n1 R1"
    using child_heights(1)[OF assms] by blast
  obtain rh n' m' R' where "right_child_height H n1 m1 = Some (Inr (rh, n'), m')" "unat rh = ht r" "step m1 m' R1 R'"
    "nowns H S m' (Br h k l r) n' R'"
    using child_heights(2)[OF hs step_ok[OF 1(3)] 1(4)] by blast
  then show ?thesis using that 1 step_trans[OF 1(3)] by blast
qed

lemma and_then_simps [simp]: "and_then (Some (Inr x, s)) f = f x s" "and_then (Some (Inl e, s)) f = Some (Inl e, s)"
  by (simp_all add: and_then_def)

lemma left_successor_spec:
  assumes hs: "hash32 S" and m: "store_ok m" and n: "nowns H S m (Br h k l r) n R"
    and h: "1 \<le> h" and l: "weak l" "2 \<le> ht l"
  shows "\<exists>n' m' R'. left_rotate_successor H n m = Some (Inr (New n'), m') \<and> step m m' R R' \<and>
    nowns H S m' (left_rot (Br h k (lean_left l) r)) n' R'"
proof -
  obtain h2 k2 ll lr where lb: "l = Br h2 k2 ll lr" using weak_Br[OF l] by metis
  have w2: "weak ll" "weak lr" "ll \<noteq> Tip" "ht lr < h2" "2 \<le> h2" using l by (auto simp: lb)
  obtain w c0 c1 R0 R1 where n: "n = Branch w k (Some c0, Some c1)" "unat w = h"
    and o: "owns H S m l c0 R0" "owns H S m r c1 R1" and R: "R0 \<inter> R1 = {}" "R = R0 \<union> R1" and T: "Top \<notin> R"
    by (rule nowns_BrE[OF n])
  obtain x m1 Q where t1: "left_child_destroy H n m = Some (Inr (x, Branch w k (None, Some c1)), m1)"
    and st1: "step m m1 R (Q \<union> R1)" and x: "nowns H S m1 l x Q" and r1: "owns H S m1 r c1 R1" and d1: "Q \<inter> R1 = {}"
    using left_child_taken[OF hs m o R(1)] unfolding n(1) R(2) by metis
  obtain llh lrh y x' m0 m2 Q2 where hts: "left_child_height H x m1 = Some (Inr (llh, y), m0)"
      "right_child_height H y m0 = Some (Inr (lrh, x'), m2)" "unat llh = ht ll" "unat lrh = ht lr"
    and st2: "step m1 m2 Q Q2" and x': "nowns H S m2 l x' Q2"
    by (rule both_heights[OF hs step_ok[OF st1] x[unfolded lb]]) (use lb in auto)
  note b2 = step_beside[OF st2 r1 d1]
  have st12: "step m m2 R (Q2 \<union> R1)" by (rule step_trans[OF st1 b2(1)])
  have cmp: "llh < lrh \<longleftrightarrow> ht ll < ht lr" using hts(3,4) by (simp add: word_less_nat_alt)
  show ?thesis
  proof (cases "ht ll < ht lr")
    case False
    obtain n' m' R' where "left_rotate (Branch w k (None, Some c1)) x' m2 = Some (n', m')" and st3: "step m2 m' (Q2 \<union> R1) R'"
      and "nowns H S m' (Br (unat w) k2 ll (Br (unat w - 1) k lr r)) n' R'"
      by (rule left_rotate_spec[OF step_ok[OF st2] x'[unfolded lb] b2(2,3)]) (use h n(2) T R(2) in auto)
    then show ?thesis using t1 hts(1,2) cmp False n(2) step_trans[OF st12 st3]
      by (auto simp: left_rotate_successor_def lb lean_left_def)
  next
    case True
    have "2 \<le> ht lr" using True weak_ht[OF w2(1,3)] by simp
    then obtain h3 k3 a b where lrb: "lr = Br h3 k3 a b" using weak_Br[OF w2(2)] by metis
    obtain w' d0 d1' P0 P1 where x'b: "x' = Branch w' k2 (Some d0, Some d1')" "unat w' = h2"
      and p: "owns H S m2 ll d0 P0" "owns H S m2 lr d1' P1" and P: "P0 \<inter> P1 = {}" "Q2 = P0 \<union> P1" and TP: "Top \<notin> Q2"
      using x' unfolding lb nowns_Br by blast
    have P': "P1 \<inter> P0 = {}" "Q2 = P1 \<union> P0" using P by auto
    obtain z m3 P3 where t3: "right_child_destroy H x' m2 = Some (Inr (z, Branch w' k2 (Some d0, None)), m3)"
      and st3: "step m2 m3 Q2 (P3 \<union> P0)" and z: "nowns H S m3 lr z P3" and ll3: "owns H S m3 ll d0 P0" and d3: "P3 \<inter> P0 = {}"
      using right_child_taken[OF hs step_ok[OF st2] p(2,1) P'(1)] unfolding x'b(1) P'(2) by metis
    note b3 = step_beside[OF st3 b2(2,3)]
    obtain n4 m4 Q4 where t4: "right_rotate (Branch w' k2 (Some d0, None)) z m3 = Some (n4, m4)"
      and st4: "step m3 m4 (P3 \<union> P0) Q4" and n4: "nowns H S m4 (Br h2 k3 (Br (h2 - 1) k2 ll a) b) n4 Q4"
      by (rule right_rotate_spec[OF step_ok[OF st3] z[unfolded lrb] ll3 d3]) (use w2(5) x'b(2) TP P(2) in auto)
    note b4 = step_beside[OF st4 b3(2,3)]
    obtain n5 m5 Q5 where t5: "left_rotate (Branch w k (None, Some c1)) n4 m4 = Some (n5, m5)"
      and st5: "step m4 m5 (Q4 \<union> R1) Q5" and n5: "nowns H S m5 (Br (unat w) k3 (Br (h2 - 1) k2 ll a) (Br (unat w - 1) k b r)) n5 Q5"
      by (rule left_rotate_spec[OF step_ok[OF st4] n4 b4(2,3)]) (use h n(2) T R(2) in auto)
    have "step m m5 R Q5" by (rule step_trans[OF st12 step_trans[OF b3(1) step_trans[OF b4(1) st5]]])
    moreover have "left_rotate_successor H n m = Some (Inr (New n5), m5)"
      using t1 hts(1,2) cmp True t3 t4 t5 by (simp add: left_rotate_successor_def)
    moreover have "left_rot (Br h k (lean_left l) r) = Br h k3 (Br (h2 - 1) k2 ll a) (Br (h - 1) k b r)"
      using True by (simp add: lb lrb lean_left_def)
    ultimately show ?thesis using n5 n(2) by auto
  qed
qed

lemma right_successor_spec:
  assumes hs: "hash32 S" and m: "store_ok m" and n: "nowns H S m (Br h k l r) n R"
    and h: "1 \<le> h" and r: "weak r" "2 \<le> ht r"
  shows "\<exists>n' m' R'. right_rotate_successor H n m = Some (Inr (New n'), m') \<and> step m m' R R' \<and>
    nowns H S m' (right_rot (Br h k l (lean_right r))) n' R'"
proof -
  obtain h2 k2 rl rr where rb: "r = Br h2 k2 rl rr" using weak_Br[OF r] by metis
  have w2: "weak rr" "weak rl" "rr \<noteq> Tip" "ht rl < h2" "2 \<le> h2" using r by (auto simp: rb)
  obtain w c0 c1 R0 R1 where n: "n = Branch w k (Some c0, Some c1)" "unat w = h"
    and o: "owns H S m l c0 R0" "owns H S m r c1 R1" and R: "R0 \<inter> R1 = {}" "R = R0 \<union> R1" and T: "Top \<notin> R"
    by (rule nowns_BrE[OF n])
  have R': "R1 \<inter> R0 = {}" "R = R1 \<union> R0" using R by auto
  obtain x m1 Q where t1: "right_child_destroy H n m = Some (Inr (x, Branch w k (Some c0, None)), m1)"
    and st1: "step m m1 R (Q \<union> R0)" and x: "nowns H S m1 r x Q" and l1: "owns H S m1 l c0 R0" and d1: "Q \<inter> R0 = {}"
    using right_child_taken[OF hs m o(2,1) R'(1)] unfolding n(1) R'(2) by metis
  obtain rlh rrh y x' m0 m2 Q2 where hts: "left_child_height H x m1 = Some (Inr (rlh, y), m0)"
      "right_child_height H y m0 = Some (Inr (rrh, x'), m2)" "unat rlh = ht rl" "unat rrh = ht rr"
    and st2: "step m1 m2 Q Q2" and x': "nowns H S m2 r x' Q2"
    by (rule both_heights[OF hs step_ok[OF st1] x[unfolded rb]]) (use rb in auto)
  note b2 = step_beside[OF st2 l1 d1]
  have st12: "step m m2 R (Q2 \<union> R0)" by (rule step_trans[OF st1 b2(1)])
  have cmp: "rrh < rlh \<longleftrightarrow> ht rr < ht rl" using hts(3,4) by (simp add: word_less_nat_alt)
  show ?thesis
  proof (cases "ht rr < ht rl")
    case False
    obtain n' m' R' where "right_rotate (Branch w k (Some c0, None)) x' m2 = Some (n', m')" and st3: "step m2 m' (Q2 \<union> R0) R'"
      and "nowns H S m' (Br (unat w) k2 (Br (unat w - 1) k l rl) rr) n' R'"
      by (rule right_rotate_spec[OF step_ok[OF st2] x'[unfolded rb] b2(2,3)]) (use h n(2) T R(2) in auto)
    then show ?thesis using t1 hts(1,2) cmp False n(2) step_trans[OF st12 st3]
      by (auto simp: right_rotate_successor_def rb lean_right_def)
  next
    case True
    have "2 \<le> ht rl" using True weak_ht[OF w2(1,3)] by simp
    then obtain h3 k3 a b where rlb: "rl = Br h3 k3 a b" using weak_Br[OF w2(2)] by metis
    obtain w' d0 d1' P0 P1 where x'b: "x' = Branch w' k2 (Some d0, Some d1')" "unat w' = h2"
      and p: "owns H S m2 rl d0 P0" "owns H S m2 rr d1' P1" and P: "P0 \<inter> P1 = {}" "Q2 = P0 \<union> P1" and TP: "Top \<notin> Q2"
      using x' unfolding rb nowns_Br by blast
    obtain z m3 P3 where t3: "left_child_destroy H x' m2 = Some (Inr (z, Branch w' k2 (None, Some d1')), m3)"
      and st3: "step m2 m3 Q2 (P3 \<union> P1)" and z: "nowns H S m3 rl z P3" and rr3: "owns H S m3 rr d1' P1" and d3: "P3 \<inter> P1 = {}"
      using left_child_taken[OF hs step_ok[OF st2] p(1,2) P(1)] unfolding x'b(1) P(2) by metis
    note b3 = step_beside[OF st3 b2(2,3)]
    obtain n4 m4 Q4 where t4: "left_rotate (Branch w' k2 (None, Some d1')) z m3 = Some (n4, m4)"
      and st4: "step m3 m4 (P3 \<union> P1) Q4" and n4: "nowns H S m4 (Br h2 k3 a (Br (h2 - 1) k2 b rr)) n4 Q4"
      by (rule left_rotate_spec[OF step_ok[OF st3] z[unfolded rlb] rr3 d3]) (use w2(5) x'b(2) TP P(2) in auto)
    note b4 = step_beside[OF st4 b3(2,3)]
    obtain n5 m5 Q5 where t5: "right_rotate (Branch w k (Some c0, None)) n4 m4 = Some (n5, m5)"
      and st5: "step m4 m5 (Q4 \<union> R0) Q5" and n5: "nowns H S m5 (Br (unat w) k3 (Br (unat w - 1) k l a) (Br (h2 - 1) k2 b rr)) n5 Q5"
      by (rule right_rotate_spec[OF step_ok[OF st4] n4 b4(2,3)]) (use h n(2) T R(2) in auto)
    have "step m m5 R Q5" by (rule step_trans[OF st12 step_trans[OF b3(1) step_trans[OF b4(1) st5]]])
    moreover have "right_rotate_successor H n m = Some (Inr (New n5), m5)"
      using t1 hts(1,2) cmp True t3 t4 t5 by (simp add: right_rotate_successor_def)
    moreover have "right_rot (Br h k l (lean_right r)) = Br h k3 (Br (h - 1) k l a) (Br (h2 - 1) k2 b rr)"
      using True by (simp add: rb rlb lean_right_def)
    ultimately show ?thesis using n5 n(2) by auto
  qed
qed

text \<open>What rebalancing needs of a tree whose root height is stale.\<close>

fun safe :: "avl \<Rightarrow> bool" where
  "safe (Br h k l r) \<longleftrightarrow> 1 \<le> h \<and> weak l \<and> weak r \<and> l \<noteq> Tip \<and> r \<noteq> Tip \<and> ht l < 2 ^ 31 \<and> ht r < 2 ^ 31"
| "safe t = True"

lemma cadd_small: "unat (a :: u32) < 2 ^ 31 \<Longrightarrow> unat b \<le> 2 \<Longrightarrow> cadd a b = Some (a + b) \<and> unat (a + b) = unat a + unat b"
proof -
  assume a: "unat a < 2 ^ 31" "unat b \<le> 2"
  then have c: "cadd a b = Some (a + b)" by (simp add: cadd_def)
  then show ?thesis using cadd_SomeD[OF c] by simp
qed

lemma rotate_spec:
  assumes hs: "hash32 S" and m: "store_ok m" and n: "nowns H S m t n R" and t: "safe t"
  shows "\<exists>n' m' R'. rotate_if_necessary H (New n) m = Some (Inr (New n'), m') \<and> step m m' R R' \<and> nowns H S m' (rebal t) n' R'"
proof (cases t)
  case Tip
  have "step m m R R" using n by (intro step_refl[OF m]) (auto simp: nowns_def)
  then show ?thesis using n
    by (auto simp: Tip nowns_leaf rotate_if_necessary_def left_child_height_def right_child_height_def cadd_def)
next
  case (Lf k v)
  have "step m m R R" using n by (intro step_refl[OF m]) (auto simp: nowns_def)
  then show ?thesis using n
    by (auto simp: Lf nowns_leaf rotate_if_necessary_def left_child_height_def right_child_height_def cadd_def)
next
  case (Br h k l r)
  have s: "1 \<le> h" "weak l" "weak r" "l \<noteq> Tip" "r \<noteq> Tip" "ht l < 2 ^ 31" "ht r < 2 ^ 31" using t by (simp_all add: Br)
  obtain lh rh n1 n' m1 m' R' where hts: "left_child_height H n m = Some (Inr (lh, n1), m1)"
      "right_child_height H n1 m1 = Some (Inr (rh, n'), m')" "unat lh = ht l" "unat rh = ht r"
    and st: "step m m' R R'" and n': "nowns H S m' (Br h k l r) n' R'"
    by (rule both_heights[OF hs m n[unfolded Br]])
  have two: "cadd 2 rh = Some (2 + rh)" "unat (2 + rh) = 2 + ht r" "cadd 2 lh = Some (2 + lh)" "unat (2 + lh) = 2 + ht l"
    using s hts by (auto simp: cadd_def unat_word_ariths)
  have lr: "lh = 2 + rh \<longleftrightarrow> ht l = 2 + ht r" "rh = 2 + lh \<longleftrightarrow> ht r = 2 + ht l"
    using two hts by (simp_all add: word_unat_eq_iff)
  have "unat (max lh rh) = max (ht l) (ht r)" using hts by (simp add: max_def word_le_nat_alt)
  then have one: "cadd (max lh rh) 1 = Some (max lh rh + 1)" "unat (max lh rh + 1) = max (ht l) (ht r) + 1"
    using cadd_small[of "max lh rh" 1] s by auto
  consider (a) "ht l = 2 + ht r" | (b) "ht r = 2 + ht l" "ht l \<noteq> 2 + ht r" | (c) "ht l \<noteq> 2 + ht r" "ht r \<noteq> 2 + ht l" by linarith
  then show ?thesis
  proof cases
    case a
    then have "2 \<le> ht l" by simp
    from left_successor_spec[OF hs step_ok[OF st] n' s(1,2) this] obtain n2 m2 R2 where
      "left_rotate_successor H n' m' = Some (Inr (New n2), m2)" "step m' m2 R' R2"
      "nowns H S m2 (left_rot (Br h k (lean_left l) r)) n2 R2" by blast
    then show ?thesis using a hts(1,2) two lr step_trans[OF st] by (auto simp: rotate_if_necessary_def Br rebal.simps)
  next
    case b
    then have "2 \<le> ht r" by simp
    from right_successor_spec[OF hs step_ok[OF st] n' s(1,3) this] obtain n2 m2 R2 where
      "right_rotate_successor H n' m' = Some (Inr (New n2), m2)" "step m' m2 R' R2"
      "nowns H S m2 (right_rot (Br h k l (lean_right r))) n2 R2" by blast
    then show ?thesis using b hts(1,2) two lr step_trans[OF st] by (auto simp: rotate_if_necessary_def Br rebal.simps)
  next
    case c
    obtain w c0 c1 R0 R1 where "n' = Branch w k (Some c0, Some c1)" "owns H S m' l c0 R0" "owns H S m' r c1 R1"
      "R0 \<inter> R1 = {}" "R' = R0 \<union> R1" "Top \<notin> R'" by (rule nowns_BrE[OF n'])
    then show ?thesis using c hts(1,2) two lr one st n'
      by (auto simp: rotate_if_necessary_def Br rebal.simps nowns_Br)
  qed
qed

end
