(* ===== verification/AvlUpdate.thy ===== *)
theory AvlUpdate
  imports AvlOps
begin

section \<open>Insertion and removal in the storage\<close>

text \<open>
  \<open>insert_at\<close> and \<open>avl_remove_at\<close> return, never panic and leave a handle of the tree that \<open>AvlTree.ins\<close> and \<open>del\<close> give. What
  \<open>Action\<close> does to a stored node is here too: a cached node that changes goes to the death row.
\<close>

subsection \<open>Inspecting a node\<close>

text \<open>What an inspector did to the node of \<open>t\<close>: it stays as it is, or becomes that of \<open>t'\<close>.\<close>

definition acted where
  "acted H S m t t' changed R a m' R' \<longleftrightarrow> step m m' R R' \<and>
     (if changed then \<exists>n'. a = Replace n' \<and> nowns H S m' t' n' R' else \<exists>n'. a = Restore n' \<and> nowns H S m' t n' R' \<and> keeps R R')"

lemma inspect_spec:
  assumes m: "store_ok m" and x: "sowns H S m t x R"
    and insp: "\<And>R0. nowns H S m t (stored_node x) R0 \<Longrightarrow>
      \<exists>a m' R'. inspector (stored_node x) m = Some (Inr a, m'\<lparr>old_val := v\<rparr>) \<and> acted H S m t t' changed R0 a m' R'"
  shows "\<exists>y m' R'. inspect x inspector m = Some (Inr (Some (y, changed)), m'\<lparr>old_val := v\<rparr>) \<and> step m m' R R' \<and>
    (if changed then \<exists>n. y = New n \<and> nowns H S m' t' n R' else sowns H S m' t y R' \<and> keeps R R')"
proof (cases x)
  case (New n)
  then obtain a m' R' where a: "inspector n m = Some (Inr a, m'\<lparr>old_val := v\<rparr>)" "acted H S m t t' changed R a m' R'"
    using insp[of R] x by (auto simp: nowns_New)
  then obtain n' where n': "step m m' R R'" "a = (if changed then Replace n' else Restore n')"
    "if changed then nowns H S m' t' n' R' else nowns H S m' t n' R' \<and> keeps R R'"
    by (cases changed) (auto simp: acted_def)
  then have "inspect x inspector m = Some (Inr (Some (New n', changed)), m'\<lparr>old_val := v\<rparr>)"
    using a(1) by (cases changed) (simp_all add: New inspect_def)
  then show ?thesis using n'(1,3) by (cases changed) (force simp: nowns_New)+
next
  case (Cached n h)
  let ?X = "insert (Key h) (R \<inter> {Top})" and ?R = "R - {Key h, Top}"
  have k: "rooted (hd_get H (a_db m)) S t h" "Key h \<in> R" "\<forall>r \<in> R. live m r" "nowns H S m t n ?R"
    and kr: "Key ` insert h (refs S t) \<union> top_of S t \<subseteq> R"
    using x by (auto simp: Cached sowns_def nowns_def stored_rep_simps)
  obtain a m' R' where a: "inspector n m = Some (Inr a, m'\<lparr>old_val := v\<rparr>)" "acted H S m t t' changed ?R a m' R'"
    using insp[of ?R] k(4) by (auto simp: Cached)
  have st: "step m m' ?R R'" using a(2) by (simp add: acted_def)
  have X: "\<forall>r \<in> ?X. live m r" "?X \<inter> ?R = {}" using k by auto
  have d: "?X \<inter> R' = {}" "\<forall>r \<in> ?X. live m' r" using step_disjoint[OF st X] by auto
  have T: "Top \<notin> R'" by (rule step_Top[OF st]) simp
  have "?R \<union> ?X = R" using k(2) by auto
  then have st': "step m m' R (R' \<union> ?X)" using step_frame[OF st X] by simp
  show ?thesis
  proof (cases changed)
    case False
    then obtain n' where n': "a = Restore n'" "nowns H S m' t n' R'" "keeps ?R R'" using a(2) by (auto simp: acted_def)
    have kp: "keeps R (R' \<union> ?X)" using n'(3) by (auto simp: keeps_def)
    then have "Key ` insert h (refs S t) \<union> top_of S t \<subseteq> R' \<union> ?X" using kr by (auto simp: keeps_def top_of_def split: if_splits)
    moreover have "R' \<union> ?X - {Key h, Top} = R'" using d(1) T by auto
    ultimately have "sowns H S m' t (Cached n' h) (R' \<union> ?X)"
      using n'(2) d(2) k(1) step_db[OF st] by (auto simp: sowns_def nowns_def stored_rep_simps)
    moreover have "inspect x inspector m = Some (Inr (Some (Cached n' h, changed)), m'\<lparr>old_val := v\<rparr>)"
      using False a(1) n' by (simp add: Cached inspect_def)
    ultimately show ?thesis using False st' kp by (metis (no_types))
  next
    case True
    then obtain n' where n': "a = Replace n'" "nowns H S m' t' n' R'" using a(2) by (auto simp: acted_def)
    note dm = doom_step[OF step_ok[OF st], of h]
    have h: "{Key h} \<inter> R' = {}" using d(1) by auto
    have "nowns H S (doom h m') t' n' R'" using nowns_frame[OF n'(2) dm] h by auto
    moreover have "step m (doom h m') R R'"
    proof -
      have "step m' (doom h m') ({Key h} \<union> R') ({} \<union> R')"
        by (rule step_frame[OF dm]) (use n'(2) h in \<open>auto simp: nowns_def\<close>)
      moreover have "step m' m' (R' \<union> ?X) ({Key h} \<union> R')"
        by (rule step_refl[OF step_ok[OF st]]) (use n'(2) d(2) in \<open>auto simp: nowns_def\<close>)
      ultimately show ?thesis using step_trans[OF st'] step_trans by (metis sup_bot_left)
    qed
    moreover have "doom h (m'\<lparr>old_val := v\<rparr>) = (doom h m')\<lparr>old_val := v\<rparr>" by (simp add: doom_def)
    then have "inspect x inspector m = Some (Inr (Some (New n', changed)), (doom h m')\<lparr>old_val := v\<rparr>)"
      using True a(1) n' by (simp add: Cached inspect_def)
    ultimately show ?thesis using True by (metis (no_types))
  qed
qed

text \<open>The common beginning and end of \<open>insert_at\<close> and \<open>avl_remove_at\<close>.\<close>

lemma begin_spec:
  assumes "hash32 S" and "store_ok m" and "owns H S m t c R"
  obtains i m1 x m2 R' where "load H c m = Some (Inr i, m1)" and "destroy_in i m1 = Some (x, m2)" and "step m m2 R R'"
    and "sowns H S m2 t x R'" and "keeps R R'"
proof -
  obtain i m1 R1 where i: "load H c m = Some (Inr i, m1)" and st: "step m m1 R R1" and o1: "owns H S m1 t (InMemory i) R1"
    and kp: "keeps R R1"
    by (rule load_step_keeps[OF assms])
  obtain m2 where "destroy_in i m1 = Some (slots m1 ! i, m2)" "step m1 m2 R1 (R1 - {Slot i})"
    "sowns H S m2 t (slots m1 ! i) (R1 - {Slot i})"
    by (rule take_stored[OF step_ok[OF st] o1])
  then show ?thesis using that i step_trans[OF st] keeps_trans[OF kp keeps_slot(2)] by blast
qed

definition put_back :: "'db hash_db \<Rightarrow> stored_slot \<Rightarrow> bool \<Rightarrow> 'db avl_mut \<Rightarrow> ((avl_error + nat \<times> bool) \<times> 'db avl_mut) option" where
  "put_back H y changed m =
     (if changed
      then and_then (rotate_if_necessary H y m) (\<lambda>y m. Option.bind (alloc_in y m) (\<lambda>(i, m). Some (Inr (i, True), m)))
      else Option.bind (alloc_in y m) (\<lambda>(i, m). Some (Inr (i, False), m)))"

lemma put_back_spec:
  assumes hs: "hash32 S" and m: "store_ok m"
    and y: "if changed then \<exists>n. y = New n \<and> nowns H S m t' n R else sowns H S m t y R" and t': "changed \<Longrightarrow> safe t'"
  shows "\<exists>i m' R'. put_back H y changed m = Some (Inr (i, changed), m') \<and> step m m' R R' \<and>
    owns H S m' (if changed then rebal t' else t) (InMemory i) R' \<and> (\<not> changed \<longrightarrow> keeps R R')"
proof (cases changed)
  case False
  then have "sowns H S m t y R" using y by simp
  from put_stored[OF m this] obtain i m' where "alloc_in y m = Some (i, m')" "step m m' R (insert (Slot i) R)"
    "owns H S m' t (InMemory i) (insert (Slot i) R)" by blast
  then show ?thesis using False by (auto simp: put_back_def intro!: exI[of _ "insert (Slot i) R"])
next
  case True
  then obtain n where n: "y = New n" "nowns H S m t' n R" using y by auto
  obtain n' m1 R1 where r: "rotate_if_necessary H (New n) m = Some (Inr (New n'), m1)" and st: "step m m1 R R1"
    and n': "nowns H S m1 (rebal t') n' R1"
    using rotate_spec[OF hs m n(2) t'[OF True]] by blast
  obtain i m2 where i: "alloc_in (New n') m1 = Some (i, m2)" and st2: "step m1 m2 R1 (insert (Slot i) R1)"
    and o: "owns H S m2 (rebal t') (InMemory i) (insert (Slot i) R1)"
    by (rule put_stored[OF step_ok[OF st], of H S "rebal t'" "New n'" R1]) (use n' in \<open>simp add: nowns_New\<close>)
  show ?thesis using True n(1) r i step_trans[OF st st2] o by (auto simp: put_back_def)
qed

subsection \<open>Insertion\<close>

text \<open>The tree before the rotations at its root.\<close>

fun ins_raw :: "node_key \<Rightarrow> db_value \<Rightarrow> avl \<Rightarrow> avl" where
  "ins_raw key val Tip = Lf key val"
| "ins_raw key val (Lf k v) =
     (if k = key then Lf key val
      else if k < key then Br 1 key (Lf k v) (Lf key val) else Br 1 k (Lf key val) (Lf k v))"
| "ins_raw key val (Br h k l r) =
     (if key < k then Br h k (fst (ins key val l)) r else Br h k l (fst (ins key val r)))"

lemma ins_by_raw: "fst (ins key val t) = (if snd (ins key val t) then rebal (ins_raw key val t) else t)"
proof (cases "snd (ins key val t)")
  case True
  then show ?thesis
  proof (cases t)
    case (Br h k l r)
    then show ?thesis using True by (cases "ins key val l"; cases "ins key val r") auto
  qed (auto split: if_splits)
qed (use ins_unchanged in auto)

lemma ins_raw_safe: "weak t \<Longrightarrow> ht t < 2 ^ 31 \<Longrightarrow> safe (ins_raw key val t)"
proof (cases t)
  case (Br h k l r)
  assume t: "weak t" "ht t < 2 ^ 31"
  then have "weak (fst (ins key val l))" "ht (fst (ins key val l)) \<le> ht l + 1"
    "weak (fst (ins key val r))" "ht (fst (ins key val r)) \<le> ht r + 1"
    using ins_weak[of l key val] ins_weak[of r key val] calm_le by (auto simp: Br)
  then show ?thesis using t by (auto simp: Br)
qed auto

definition old_of :: "node_key \<Rightarrow> avl \<Rightarrow> 'db avl_mut \<Rightarrow> db_value option" where
  "old_of key t m = (case find_key t key of Some v \<Rightarrow> Some v | None \<Rightarrow> old_val m)"

text \<open>What the insertion into a subtree does.\<close>

definition inserts where
  "inserts H S key val t \<longleftrightarrow> (\<forall>m c R. store_ok m \<and> owns H S m t c R \<longrightarrow>
     (\<exists>i m' R'. avl_insert_at H key val c m = Some (Inr (i, snd (ins key val t)), m'\<lparr>old_val := old_of key t m\<rparr>) \<and>
        step m m' R R' \<and> owns H S m' (fst (ins key val t)) (InMemory i) R' \<and> (\<not> snd (ins key val t) \<longrightarrow> keeps R R')))"

lemma insertsD:
  assumes "inserts H S key val t" and "store_ok m" and "owns H S m t c R"
  shows "\<exists>i m' R'. avl_insert_at H key val c m = Some (Inr (i, snd (ins key val t)), m'\<lparr>old_val := old_of key t m\<rparr>) \<and>
    step m m' R R' \<and> owns H S m' (fst (ins key val t)) (InMemory i) R' \<and> (\<not> snd (ins key val t) \<longrightarrow> keeps R R')"
  using assms unfolding inserts_def by blast

lemma step_same_old: "step m m' R R' \<Longrightarrow> m'\<lparr>old_val := old_val m\<rparr> = m'"
  by (simp add: step_def)

lemma put_leaf:
  assumes "store_ok m"
  obtains i m' where "alloc_in (New (Leaf k v)) m = Some (i, m')" and "step m m' {} {Slot i}"
    and "owns H S m' (Lf k v) (InMemory i) {Slot i}"
proof -
  have "sowns H S m (Lf k v) (New (Leaf k v)) {}" by (simp add: nowns_New nowns_leaf)
  from put_stored[OF assms this] that show ?thesis by metis
qed

lemma put_two:
  assumes m: "store_ok m"
  obtains i j m1 m2 where "alloc_in (New (Leaf k v)) m = Some (i, m1)" and "alloc_in (New (Leaf k' v')) m1 = Some (j, m2)"
    and "step m m2 {} {Slot i, Slot j}"
    and "nowns H S m2 (Br 1 key (Lf k v) (Lf k' v')) (Branch 1 key (Some (InMemory i), Some (InMemory j))) {Slot i, Slot j}"
proof -
  obtain i m1 where i: "alloc_in (New (Leaf k v)) m = Some (i, m1)" and st: "step m m1 {} {Slot i}"
    and o: "owns H S m1 (Lf k v) (InMemory i) {Slot i}"
    by (rule put_leaf[OF m])
  obtain j m2 where j: "alloc_in (New (Leaf k' v')) m1 = Some (j, m2)" and st2: "step m1 m2 {} {Slot j}"
    and o2: "owns H S m2 (Lf k' v') (InMemory j) {Slot j}"
    by (rule put_leaf[OF step_ok[OF st]])
  note b = step_beside[OF st2 o]
  have "step m m2 {} {Slot i, Slot j}" using step_trans[OF st] b(1) by (simp add: insert_commute)
  moreover have "nowns H S m2 (Br 1 key (Lf k v) (Lf k' v')) (Branch 1 key (Some (InMemory i), Some (InMemory j))) {Slot i, Slot j}"
    using b(2,3) o2 by (fastforce simp: nowns_Br)
  ultimately show ?thesis using that i j by blast
qed

lemma insert_inspector_spec:
  assumes m: "store_ok m" and n: "nowns H S m t n R" and IH: "\<And>h k l r. t = Br h k l r \<Longrightarrow> inserts H S key val l \<and> inserts H S key val r"
  shows "\<exists>a m' R'. insert_inspector (avl_insert_at H key val) key val n m = Some (Inr a, m'\<lparr>old_val := old_of key t m\<rparr>) \<and>
    acted H S m t (ins_raw key val t) (snd (ins key val t)) R a m' R'"
proof (cases t)
  case Tip
  have "step m m R R" using n by (intro step_refl[OF m]) (auto simp: nowns_def)
  then show ?thesis using n
    by (intro exI[of _ "Replace (Leaf key val)"] exI[of _ m]) (auto simp: Tip nowns_leaf insert_inspector_def old_of_def acted_def)
next
  case (Lf k v)
  have n: "n = Leaf k v" "R = {}" using n by (auto simp: Lf nowns_leaf)
  have st: "step m m {} {}" by (rule step_refl[OF m]) auto
  consider (eq) "k = key" | (lt) "k < key" | (gt) "k \<noteq> key" "\<not> k < key" by blast
  then show ?thesis
  proof cases
    case eq
    then show ?thesis using st
      by (intro exI[of _ "if v = val then Restore (Leaf key val) else Replace (Leaf key val)"] exI[of _ m])
        (auto simp: Lf n insert_inspector_def old_of_def acted_def nowns_leaf)
  next
    case lt
    obtain i j m1 m2 where a: "alloc_in (New (Leaf k v)) m = Some (i, m1)" "alloc_in (New (Leaf key val)) m1 = Some (j, m2)"
      "step m m2 {} {Slot i, Slot j}"
      "nowns H S m2 (Br 1 key (Lf k v) (Lf key val)) (Branch 1 key (Some (InMemory i), Some (InMemory j))) {Slot i, Slot j}"
      by (rule put_two[OF m])
    then show ?thesis using lt step_same_old[OF a(3)]
      by (intro exI[of _ "Replace (Branch 1 key (Some (InMemory i), Some (InMemory j)))"] exI[of _ m2])
        (auto simp: Lf n insert_inspector_def old_of_def acted_def)
  next
    case gt
    obtain i j m1 m2 where a: "alloc_in (New (Leaf key val)) m = Some (i, m1)" "alloc_in (New (Leaf k v)) m1 = Some (j, m2)"
      "step m m2 {} {Slot i, Slot j}"
      "nowns H S m2 (Br 1 k (Lf key val) (Lf k v)) (Branch 1 k (Some (InMemory i), Some (InMemory j))) {Slot i, Slot j}"
      by (rule put_two[OF m])
    then show ?thesis using gt step_same_old[OF a(3)]
      by (intro exI[of _ "Replace (Branch 1 k (Some (InMemory i), Some (InMemory j)))"] exI[of _ m2])
        (auto simp: Lf n insert_inspector_def old_of_def acted_def)
  qed
next
  case (Br h k l r)
  obtain w c0 c1 R0 R1 where n: "n = Branch w k (Some c0, Some c1)" "unat w = h"
    and o: "owns H S m l c0 R0" "owns H S m r c1 R1" and R: "R0 \<inter> R1 = {}" "R = R0 \<union> R1" and T: "Top \<notin> R"
    by (rule nowns_BrE[OF n[unfolded Br]])
  have R': "R1 \<inter> R0 = {}" "R = R1 \<union> R0" using R by auto
  show ?thesis
  proof (cases "key < k")
    case True
    obtain i m' Q where i: "avl_insert_at H key val c0 m = Some (Inr (i, snd (ins key val l)), m'\<lparr>old_val := old_of key l m\<rparr>)"
      and st: "step m m' R0 Q" and oi: "owns H S m' (fst (ins key val l)) (InMemory i) Q"
      and kp: "\<not> snd (ins key val l) \<longrightarrow> keeps R0 Q"
      using insertsD[OF conjunct1[OF IH[OF Br]] m o(1)] by blast
    note b = step_beside[OF st o(2) R(1)]
    let ?n = "Branch w k (Some (InMemory i), Some c1)"
    have nn: "nowns H S m' (Br h k (fst (ins key val l)) r) ?n (Q \<union> R1)" using n(2) oi b(2-4) T R(2) by (auto simp: nowns_Br)
    have ins: "insert_inspector (avl_insert_at H key val) key val n m =
        Some (Inr (if snd (ins key val l) then Replace ?n else Restore ?n), m'\<lparr>old_val := old_of key t m\<rparr>)"
      using i True by (simp add: insert_inspector_def n left_of_def old_of_def Br)
    have "snd (ins key val t) = snd (ins key val l)" using True by (simp add: Br split: prod.splits)
    then have "acted H S m t (ins_raw key val t) (snd (ins key val t)) R
        (if snd (ins key val l) then Replace ?n else Restore ?n) m' (Q \<union> R1)"
      using True nn b(1) kp ins_unchanged[of key val l] by (cases "snd (ins key val l)") (simp_all add: acted_def Br R(2) keeps_Un)
    then show ?thesis using ins by blast
  next
    case False
    obtain i m' Q where i: "avl_insert_at H key val c1 m = Some (Inr (i, snd (ins key val r)), m'\<lparr>old_val := old_of key r m\<rparr>)"
      and st: "step m m' R1 Q" and oi: "owns H S m' (fst (ins key val r)) (InMemory i) Q"
      and kp: "\<not> snd (ins key val r) \<longrightarrow> keeps R1 Q"
      using insertsD[OF conjunct2[OF IH[OF Br]] m o(2)] by blast
    note b = step_beside[OF st o(1) R'(1)]
    let ?n = "Branch w k (Some c0, Some (InMemory i))"
    have nn: "nowns H S m' (Br h k l (fst (ins key val r))) ?n (Q \<union> R0)" using n(2) oi b(2-4) T R(2) by (auto simp: nowns_Br)
    have ins: "insert_inspector (avl_insert_at H key val) key val n m =
        Some (Inr (if snd (ins key val r) then Replace ?n else Restore ?n), m'\<lparr>old_val := old_of key t m\<rparr>)"
      using i False by (simp add: insert_inspector_def n left_of_def old_of_def Br)
    have "snd (ins key val t) = snd (ins key val r)" using False by (simp add: Br split: prod.splits)
    then have "acted H S m t (ins_raw key val t) (snd (ins key val t)) R
        (if snd (ins key val r) then Replace ?n else Restore ?n) m' (Q \<union> R0)"
      using False nn b(1) kp ins_unchanged[of key val r] by (cases "snd (ins key val r)") (simp_all add: acted_def Br R'(2) keeps_Un)
    then show ?thesis using ins by blast
  qed
qed

lemma insert_at_unfold:
  "avl_insert_at H key val c m = and_then (load H c m) (\<lambda>i m. Option.bind (destroy_in i m) (\<lambda>(x, m).
     and_then (inspect x (insert_inspector (avl_insert_at H key val) key val) m) (\<lambda>r m.
       case r of None \<Rightarrow> None | Some (y, changed) \<Rightarrow> put_back H y changed m)))"
  unfolding put_back_def by (rule avl_insert_at.simps)

lemma step_old_eq:
  assumes "step m m' R R'"
  shows "old_of key t m' = old_of key t m"
proof -
  have o: "old_val m' = old_val m" using assms by (simp add: step_def)
  show ?thesis unfolding old_of_def o ..
qed

lemma insert_at_node:
  assumes hs: "hash32 S" and t: "weak t" "ht t < 2 ^ 31"
    and IH: "\<And>h k l r. t = Br h k l r \<Longrightarrow> inserts H S key val l \<and> inserts H S key val r"
  shows "inserts H S key val t"
  unfolding inserts_def
proof (intro allI impI, elim conjE)
  fix m :: "'a avl_mut" and c R assume m: "store_ok m" and o: "owns H S m t c R"
  let ?c = "snd (ins key val t)"
  obtain i m1 x m2 R2 where 1: "load H c m = Some (Inr i, m1)" "destroy_in i m1 = Some (x, m2)" and st: "step m m2 R R2"
    and x: "sowns H S m2 t x R2" and kp: "keeps R R2"
    by (rule begin_spec[OF hs m o])
  define v where "v = old_of key t m2"
  have v: "v = old_of key t m" using step_old_eq[OF st] by (simp add: v_def)
  have I: "\<exists>a m' R'. insert_inspector (avl_insert_at H key val) key val (stored_node x) m2 = Some (Inr a, m'\<lparr>old_val := v\<rparr>) \<and>
      acted H S m2 t (ins_raw key val t) ?c R0 a m' R'" if "nowns H S m2 t (stored_node x) R0" for R0
    unfolding v_def by (rule insert_inspector_spec[OF step_ok[OF st] that]) (rule IH)
  obtain y m3 R3 where insp: "inspect x (insert_inspector (avl_insert_at H key val) key val) m2 = Some (Inr (Some (y, ?c)), m3\<lparr>old_val := v\<rparr>)"
    and st2: "step m2 m3 R2 R3"
    and y: "if ?c then \<exists>n. y = New n \<and> nowns H S m3 (ins_raw key val t) n R3 else sowns H S m3 t y R3 \<and> keeps R2 R3"
    using inspect_spec[OF step_ok[OF st] x, where inspector = "insert_inspector (avl_insert_at H key val) key val", OF I] by blast
  let ?m3 = "m3\<lparr>old_val := v\<rparr>"
  have "if ?c then \<exists>n. y = New n \<and> nowns H S ?m3 (ins_raw key val t) n R3 else sowns H S ?m3 t y R3" using y by (cases ?c) simp_all
  then obtain j m4 R4 where j: "put_back H y ?c ?m3 = Some (Inr (j, ?c), m4)" and st3: "step ?m3 m4 R3 R4"
    and o4: "owns H S m4 (if ?c then rebal (ins_raw key val t) else t) (InMemory j) R4" and kp4: "\<not> ?c \<longrightarrow> keeps R3 R4"
    using put_back_spec[OF hs, of ?m3 ?c y H "ins_raw key val t" R3 t] step_ok[OF st2] ins_raw_safe[OF t] by auto
  note so = step_old[OF st3]
  let ?m4 = "m4\<lparr>old_val := old_val m3\<rparr>"
  have "avl_insert_at H key val c m = Some (Inr (j, ?c), ?m4\<lparr>old_val := old_of key t m\<rparr>)"
    using 1 insp j so v by (subst insert_at_unfold) simp
  moreover have "step m ?m4 R R4" using step_trans[OF st step_trans[OF st2]] so by blast
  moreover have "owns H S ?m4 (fst (ins key val t)) (InMemory j) R4" using o4 by (simp add: ins_by_raw)
  moreover have "\<not> ?c \<longrightarrow> keeps R R4"
  proof
    assume n: "\<not> ?c"
    then have "keeps R2 R3" "keeps R3 R4" using y kp4 by (simp_all only: if_False simp_thms)
    then show "keeps R R4" using keeps_trans kp by blast
  qed
  ultimately show "\<exists>i m' R'. avl_insert_at H key val c m = Some (Inr (i, ?c), m'\<lparr>old_val := old_of key t m\<rparr>) \<and>
      step m m' R R' \<and> owns H S m' (fst (ins key val t)) (InMemory i) R' \<and> (\<not> ?c \<longrightarrow> keeps R R')" by blast
qed

lemma insert_at_spec: "hash32 S \<Longrightarrow> weak t \<Longrightarrow> ht t < 2 ^ 31 \<Longrightarrow> inserts H S key val t"
proof (induction t)
  case (Br h k l r)
  then have "inserts H S key val l" "inserts H S key val r" by auto
  then show ?case using insert_at_node[OF Br.prems] by blast
qed (rule insert_at_node; simp)+

subsection \<open>Removal\<close>

fun del_raw :: "node_key \<Rightarrow> avl \<Rightarrow> avl" where
  "del_raw key (Br h k l r) =
     (if key < k then (case del key l of None \<Rightarrow> r | Some (l', c) \<Rightarrow> Br h k l' r)
      else (case del key r of None \<Rightarrow> l | Some (r', c) \<Rightarrow> Br h k l r'))"
| "del_raw key t = t"

lemma del_by_raw: "del key t = Some (t', c) \<Longrightarrow> t' = (if c then rebal (del_raw key t) else t)"
proof (cases c)
  case True
  assume "del key t = Some (t', c)"
  then show ?thesis using True by (cases t) (auto split: if_splits option.splits)
next
  case False
  assume "del key t = Some (t', c)"
  then show ?thesis using False del_unchanged[of key t t'] by simp
qed

lemma del_raw_safe: "weak t \<Longrightarrow> ht t < 2 ^ 31 \<Longrightarrow> safe (del_raw key t)"
proof (cases t)
  case (Br h k l r)
  assume t: "weak t" "ht t < 2 ^ 31"
  have s: "safe l" "safe r" using t by (cases l; cases r; auto simp: Br)+
  have "weak l' \<and> ht l' \<le> ht l \<and> l' \<noteq> Tip" if "del key l = Some (l', c)" for l' c
    using del_weak[of l key l' c] del_not_Tip[of l key l' c] weak_full that t by (auto simp: Br)
  moreover have "weak r' \<and> ht r' \<le> ht r \<and> r' \<noteq> Tip" if "del key r = Some (r', c)" for r' c
    using del_weak[of r key r' c] del_not_Tip[of r key r' c] weak_full that t by (auto simp: Br)
  ultimately show ?thesis using t s by (fastforce simp: Br split: option.splits)
qed auto

definition removes where
  "removes H S key t \<longleftrightarrow> (\<forall>m c R. store_ok m \<and> owns H S m t c R \<longrightarrow>
     (\<exists>x m' R'. avl_remove_at H key c m = Some (Inr x, m') \<and> step m m' R R' \<and>
        (case del key t of None \<Rightarrow> x = None | Some (t', changed) \<Rightarrow> (\<exists>i. x = Some (i, changed) \<and> owns H S m' t' (InMemory i) R') \<and> (\<not> changed \<longrightarrow> keeps R R'))))"

lemma removesD:
  assumes "removes H S key t" and "store_ok m" and "owns H S m t c R"
  shows "\<exists>x m' R'. avl_remove_at H key c m = Some (Inr x, m') \<and> step m m' R R' \<and>
    (case del key t of None \<Rightarrow> x = None | Some (t', changed) \<Rightarrow> (\<exists>i. x = Some (i, changed) \<and> owns H S m' t' (InMemory i) R') \<and> (\<not> changed \<longrightarrow> keeps R R'))"
  using assms unfolding removes_def by blast

definition acted_del where
  "acted_del H S m key t R a m' R' \<longleftrightarrow>
     (case del key t of
        None \<Rightarrow> a = Delete \<and> step m m' R R'
      | Some (_, changed) \<Rightarrow> acted H S m t (del_raw key t) changed R a m' R')"

lemma promoted:
  assumes hs: "hash32 S" and m: "store_ok m" and o: "owns H S m t c R"
  shows "\<exists>x m' R'. right_child_destroy H (Branch w k (None, Some c)) m = Some (Inr (x, Branch w k (None, None)), m') \<and>
      step m m' R R' \<and> nowns H S m' t x R'"
    and "\<exists>x m' R'. left_child_destroy H (Branch w k (Some c, None)) m = Some (Inr (x, Branch w k (None, None)), m') \<and>
      step m m' R R' \<and> nowns H S m' t x R'"
proof -
  obtain i m1 m' x R' where "load H c m = Some (Inr i, m1)" "destroy_in i m1 = Some (x, m')" "step m m' R R'"
    "nowns H S m' t (stored_node x) R'"
    by (rule load_take[OF assms])
  then show "\<exists>x m' R'. right_child_destroy H (Branch w k (None, Some c)) m = Some (Inr (x, Branch w k (None, None)), m') \<and>
      step m m' R R' \<and> nowns H S m' t x R'"
    "\<exists>x m' R'. left_child_destroy H (Branch w k (Some c, None)) m = Some (Inr (x, Branch w k (None, None)), m') \<and>
      step m m' R R' \<and> nowns H S m' t x R'"
    by (auto simp: right_child_destroy_def left_child_destroy_def)
qed

lemma remove_inspector_spec:
  assumes hs: "hash32 S" and m: "store_ok m" and n: "nowns H S m t n R"
    and IH: "\<And>h k l r. t = Br h k l r \<Longrightarrow> removes H S key l \<and> removes H S key r"
  shows "\<exists>a m' R'. remove_inspector H (avl_remove_at H key) key n m = Some (Inr a, m') \<and> acted_del H S m key t R a m' R'"
proof (cases t)
  case (Br h k l r)
  obtain w c0 c1 R0 R1 where n: "n = Branch w k (Some c0, Some c1)" "unat w = h"
    and o: "owns H S m l c0 R0" "owns H S m r c1 R1" and R: "R0 \<inter> R1 = {}" "R = R0 \<union> R1" and T: "Top \<notin> R"
    by (rule nowns_BrE[OF n[unfolded Br]])
  have R': "R1 \<inter> R0 = {}" "R = R1 \<union> R0" using R by auto
  show ?thesis
  proof (cases "key < k")
    case True
    obtain x m' Q where x: "avl_remove_at H key c0 m = Some (Inr x, m')" and st: "step m m' R0 Q"
      and c: "case del key l of None \<Rightarrow> x = None | Some (t', changed) \<Rightarrow> (\<exists>i. x = Some (i, changed) \<and> owns H S m' t' (InMemory i) Q) \<and> (\<not> changed \<longrightarrow> keeps R0 Q)"
      using removesD[OF conjunct1[OF IH[OF Br]] m o(1)] by blast
    note b = step_beside[OF st o(2) R(1)]
    show ?thesis
    proof (cases "del key l")
      case None
      then have xn: "x = None" using c by simp
      obtain y m2 Q2 where y: "right_child_destroy H (Branch w k (None, Some c1)) m' = Some (Inr (y, Branch w k (None, None)), m2)"
        "step m' m2 R1 Q2" "nowns H S m2 r y Q2"
        using promoted(1)[OF hs step_ok[OF st] b(2)] by blast
      have "step m' m' (Q \<union> R1) R1" using step_refl[OF step_ok[OF st], of "Q \<union> R1" R1] b(1) by (auto simp: step_def)
      then have "step m m2 R Q2" using step_trans[OF b(1) step_trans[OF _ y(2)]] R(2) by simp
      then show ?thesis using True x y None xn
        by (auto simp: remove_inspector_def n left_of_def acted_del_def acted_def Br)
    next
      case (Some p)
      then obtain l' ch where p: "del key l = Some (l', ch)" by (cases p) auto
      then obtain i where i: "x = Some (i, ch)" "owns H S m' l' (InMemory i) Q" "\<not> ch \<longrightarrow> keeps R0 Q" using c by auto
      let ?n = "Branch w k (Some (InMemory i), Some c1)"
      have "nowns H S m' (Br h k l' r) ?n (Q \<union> R1)" using n(2) i(2) b(2-4) T R(2) by (auto simp: nowns_Br)
      then have "acted_del H S m key t R (if ch then Replace ?n else Restore ?n) m' (Q \<union> R1)"
        using True p b(1) i(3) del_unchanged[of key l l'] by (cases ch) (simp_all add: acted_del_def acted_def Br R(2) keeps_Un)
      moreover have "remove_inspector H (avl_remove_at H key) key n m = Some (Inr (if ch then Replace ?n else Restore ?n), m')"
        using x i(1) True by (simp add: remove_inspector_def n left_of_def)
      ultimately show ?thesis by blast
    qed
  next
    case False
    obtain x m' Q where x: "avl_remove_at H key c1 m = Some (Inr x, m')" and st: "step m m' R1 Q"
      and c: "case del key r of None \<Rightarrow> x = None | Some (t', changed) \<Rightarrow> (\<exists>i. x = Some (i, changed) \<and> owns H S m' t' (InMemory i) Q) \<and> (\<not> changed \<longrightarrow> keeps R1 Q)"
      using removesD[OF conjunct2[OF IH[OF Br]] m o(2)] by blast
    note b = step_beside[OF st o(1) R'(1)]
    show ?thesis
    proof (cases "del key r")
      case None
      then have xn: "x = None" using c by simp
      obtain y m2 Q2 where y: "left_child_destroy H (Branch w k (Some c0, None)) m' = Some (Inr (y, Branch w k (None, None)), m2)"
        "step m' m2 R0 Q2" "nowns H S m2 l y Q2"
        using promoted(2)[OF hs step_ok[OF st] b(2)] by blast
      have "step m' m' (Q \<union> R0) R0" using step_refl[OF step_ok[OF st], of "Q \<union> R0" R0] b(1) by (auto simp: step_def)
      then have "step m m2 R Q2" using step_trans[OF b(1) step_trans[OF _ y(2)]] R'(2) by simp
      then show ?thesis using False x y None xn
        by (auto simp: remove_inspector_def n left_of_def acted_del_def acted_def Br)
    next
      case (Some p)
      then obtain r' ch where p: "del key r = Some (r', ch)" by (cases p) auto
      then obtain i where i: "x = Some (i, ch)" "owns H S m' r' (InMemory i) Q" "\<not> ch \<longrightarrow> keeps R1 Q" using c by auto
      let ?n = "Branch w k (Some c0, Some (InMemory i))"
      have "nowns H S m' (Br h k l r') ?n (Q \<union> R0)" using n(2) i(2) b(2-4) T R(2) by (auto simp: nowns_Br)
      then have "acted_del H S m key t R (if ch then Replace ?n else Restore ?n) m' (Q \<union> R0)"
        using False p b(1) i(3) del_unchanged[of key r r'] by (cases ch) (simp_all add: acted_del_def acted_def Br R'(2) keeps_Un)
      moreover have "remove_inspector H (avl_remove_at H key) key n m = Some (Inr (if ch then Replace ?n else Restore ?n), m')"
        using x i(1) False by (simp add: remove_inspector_def n left_of_def)
      ultimately show ?thesis by blast
    qed
  qed
next
  case Tip
  have "step m m R R" using n by (intro step_refl[OF m]) (auto simp: nowns_def)
  then show ?thesis using n by (auto simp: Tip nowns_leaf remove_inspector_def acted_del_def)
next
  case (Lf k v)
  have "step m m R R" using n by (intro step_refl[OF m]) (auto simp: nowns_def)
  then show ?thesis using n by (auto simp: Lf nowns_leaf remove_inspector_def acted_del_def acted_def)
qed

lemma remove_at_unfold:
  "avl_remove_at H key c m = and_then (load H c m) (\<lambda>i m. Option.bind (destroy_in i m) (\<lambda>(x, m).
     and_then (inspect x (remove_inspector H (avl_remove_at H key) key) m) (\<lambda>r m.
       case r of None \<Rightarrow> Some (Inr None, m)
       | Some (y, changed) \<Rightarrow> and_then (put_back H y changed m) (\<lambda>p m. Some (Inr (Some p), m)))))"
proof -
  have assoc: "and_then (and_then r f) g = and_then r (\<lambda>x s. and_then (f x s) g)" for r :: "((avl_error + 'b) \<times> 'c) option"
    and f :: "'b \<Rightarrow> 'c \<Rightarrow> ((avl_error + 'd) \<times> 'c) option" and g :: "'d \<Rightarrow> 'c \<Rightarrow> ((avl_error + 'e) \<times> 'c) option"
    by (auto simp: and_then_def split: sum.split option.split prod.split simp: bind_eq_Some_conv Option.bind_eq_None_conv bind_split)
  have alloc: "and_then (Option.bind (alloc_in y m) (\<lambda>(i, m). Some (Inr (i, b), m))) (\<lambda>p m. Some (Inr (Some p), m)) =
      Option.bind (alloc_in y m) (\<lambda>(i, m). Some (Inr (Some (i, b)), m))" for y b and m :: "'a avl_mut"
    by (cases "alloc_in y m") (auto simp: and_then_def)
  have pb: "and_then (put_back H y changed m) (\<lambda>p m. Some (Inr (Some p), m)) =
      (if changed then and_then (rotate_if_necessary H y m) (\<lambda>y m. Option.bind (alloc_in y m) (\<lambda>(i, m). Some (Inr (Some (i, True)), m)))
       else Option.bind (alloc_in y m) (\<lambda>(i, m). Some (Inr (Some (i, False)), m)))" for y changed and m :: "'a avl_mut"
    by (simp add: put_back_def assoc alloc)
  show ?thesis unfolding pb by (rule avl_remove_at.simps)
qed

lemma inspect_delete:
  assumes m: "store_ok m" and x: "sowns H S m t x R"
    and insp: "\<And>R0. nowns H S m t (stored_node x) R0 \<Longrightarrow>
      \<exists>m' R'. inspector (stored_node x) m = Some (Inr Delete, m') \<and> step m m' R0 R'"
  shows "\<exists>m' R'. inspect x inspector m = Some (Inr None, m') \<and> step m m' R R'"
proof (cases x)
  case (New n)
  then show ?thesis using insp[of R] x by (auto simp: nowns_New inspect_def)
next
  case (Cached n h)
  let ?X = "insert (Key h) (R \<inter> {Top})" and ?R = "R - {Key h, Top}"
  have k: "Key h \<in> R" "\<forall>r \<in> R. live m r" "nowns H S m t n ?R"
    using x by (auto simp: Cached sowns_def nowns_def stored_rep_simps)
  obtain m' R' where a: "inspector n m = Some (Inr Delete, m')" and st: "step m m' ?R R'"
    using insp[of ?R] k(3) by (auto simp: Cached)
  have X: "\<forall>r \<in> ?X. live m r" "?X \<inter> ?R = {}" using k by auto
  have d: "?X \<inter> R' = {}" "\<forall>r \<in> ?X. live m' r" using step_disjoint[OF st X] by auto
  have "?R \<union> ?X = R" using k(1) by auto
  then have st': "step m m' R (R' \<union> ?X)" using step_frame[OF st X] by simp
  have "step m' (doom h m') ({Key h} \<union> R') ({} \<union> R')"
    by (rule step_frame[OF doom_step[OF step_ok[OF st]]]) (use st d(1) in \<open>auto simp: step_def\<close>)
  moreover have "step m' m' (R' \<union> ?X) ({Key h} \<union> R')"
    by (rule step_refl[OF step_ok[OF st]]) (use st d(2) in \<open>auto simp: step_def\<close>)
  ultimately have "step m (doom h m') R R'" using step_trans[OF st'] step_trans by (metis sup_bot_left)
  then show ?thesis using a by (auto simp: Cached inspect_def)
qed

lemma remove_at_node:
  assumes hs: "hash32 S" and t: "weak t" "ht t < 2 ^ 31"
    and IH: "\<And>h k l r. t = Br h k l r \<Longrightarrow> removes H S key l \<and> removes H S key r"
  shows "removes H S key t"
  unfolding removes_def
proof (intro allI impI, elim conjE)
  fix m :: "'a avl_mut" and c R assume m: "store_ok m" and o: "owns H S m t c R"
  obtain i m1 x m2 R2 where 1: "load H c m = Some (Inr i, m1)" "destroy_in i m1 = Some (x, m2)" and st: "step m m2 R R2"
    and x: "sowns H S m2 t x R2" and kp: "keeps R R2"
    by (rule begin_spec[OF hs m o])
  have I: "\<exists>a m' R'. remove_inspector H (avl_remove_at H key) key (stored_node x) m2 = Some (Inr a, m') \<and> acted_del H S m2 key t R0 a m' R'"
    if "nowns H S m2 t (stored_node x) R0" for R0
    by (rule remove_inspector_spec[OF hs step_ok[OF st] that]) (rule IH)
  show "\<exists>x m' R'. avl_remove_at H key c m = Some (Inr x, m') \<and> step m m' R R' \<and>
      (case del key t of None \<Rightarrow> x = None | Some (t', changed) \<Rightarrow> (\<exists>i. x = Some (i, changed) \<and> owns H S m' t' (InMemory i) R') \<and> (\<not> changed \<longrightarrow> keeps R R'))"
  proof (cases "del key t")
    case None
    have "\<exists>m' R'. inspect x (remove_inspector H (avl_remove_at H key) key) m2 = Some (Inr None, m') \<and> step m2 m' R2 R'"
      by (rule inspect_delete[OF step_ok[OF st] x]) (use I in \<open>fastforce simp: acted_del_def None\<close>)
    then show ?thesis using 1 step_trans[OF st] None by (subst remove_at_unfold) fastforce
  next
    case (Some p)
    then obtain t' ch where d: "del key t = Some (t', ch)" by (cases p) auto
    have J: "\<exists>a m' R'. remove_inspector H (avl_remove_at H key) key (stored_node x) m2 = Some (Inr a, m'\<lparr>old_val := old_val m2\<rparr>) \<and>
        acted H S m2 t (del_raw key t) ch R0 a m' R'" if n: "nowns H S m2 t (stored_node x) R0" for R0
    proof -
      obtain a m' R' where a: "remove_inspector H (avl_remove_at H key) key (stored_node x) m2 = Some (Inr a, m')"
        "acted H S m2 t (del_raw key t) ch R0 a m' R'"
        using I[OF n] by (auto simp: acted_del_def d)
      then have "step m2 m' R0 R'" by (simp add: acted_def)
      from step_same_old[OF this] a show ?thesis by metis
    qed
    obtain y m3 R3 where insp: "inspect x (remove_inspector H (avl_remove_at H key) key) m2 = Some (Inr (Some (y, ch)), m3\<lparr>old_val := old_val m2\<rparr>)"
      and st2: "step m2 m3 R2 R3"
      and yk: "if ch then \<exists>n. y = New n \<and> nowns H S m3 (del_raw key t) n R3 else sowns H S m3 t y R3 \<and> keeps R2 R3"
      using inspect_spec[OF step_ok[OF st] x, where inspector = "remove_inspector H (avl_remove_at H key) key", OF J] by blast
    have y: "if ch then \<exists>n. y = New n \<and> nowns H S m3 (del_raw key t) n R3 else sowns H S m3 t y R3" using yk by (cases ch) simp_all
    obtain j m4 R4 where j: "put_back H y ch m3 = Some (Inr (j, ch), m4)" and st3: "step m3 m4 R3 R4"
      and o4: "owns H S m4 (if ch then rebal (del_raw key t) else t) (InMemory j) R4" and kp4: "\<not> ch \<longrightarrow> keeps R3 R4"
      using put_back_spec[OF hs step_ok[OF st2] y] del_raw_safe[OF t] by blast
    have "avl_remove_at H key c m = Some (Inr (Some (j, ch)), m4)"
      using 1 insp j step_same_old[OF st2] by (subst remove_at_unfold) simp
    moreover have "step m m4 R R4" by (rule step_trans[OF st step_trans[OF st2 st3]])
    moreover have "\<not> ch \<longrightarrow> keeps R R4"
    proof
      assume n: "\<not> ch"
      then have "keeps R2 R3" "keeps R3 R4" using yk kp4 by (simp_all only: if_False simp_thms)
      then show "keeps R R4" using keeps_trans kp by blast
    qed
    ultimately show ?thesis using o4 del_by_raw[OF d] by (auto simp: d)
  qed
qed

lemma remove_at_spec: "hash32 S \<Longrightarrow> weak t \<Longrightarrow> ht t < 2 ^ 31 \<Longrightarrow> removes H S key t"
proof (induction t)
  case (Br h k l r)
  then have "removes H S key l" "removes H S key r" by auto
  then show ?case using remove_at_node[OF Br.prems] by blast
qed (rule remove_at_node; simp)+

end
