(* ===== verification/AvlLookup.thy ===== *)
theory AvlLookup
  imports AvlUpdate
begin

section \<open>Lookups, and the operations as updates of a map\<close>

text \<open>
  A lookup finds what the tree holds, in memory and through the database. The state of an \<open>AVLDBMut\<close> represents a
  tree (\<open>avl_state\<close>), and \<open>insert\<close>, \<open>remove\<close> and \<open>get\<close> are the operations of a map on it.
\<close>

subsection \<open>Through the database\<close>

lemma look_inline_spec:
  assumes "hash32 S" and "storable t" and "weak t" and "unshared S t" and "in_db g S t"
  shows "\<exists>st. look_inline (avl_enc S t) key = Some st \<and>
    (case st of
       Found v \<Rightarrow> find_key t key = Some v
     | Absent \<Rightarrow> find_key t key = None
     | Follow h \<Rightarrow> \<exists>c. rooted g S c h \<and> ht c < ht t \<and> find_key t key = find_key c key)"
  using assms
proof (induction t)
  case Tip
  then show ?case using decoded_tip by (subst look_inline.simps) simp
next
  case (Lf k v)
  then show ?case using decoded_leaf[of k v] by (subst look_inline.simps) simp
next
  case (Br h k l r)
  note hs = Br.prems(1)
  define c where "c = (if key < k then l else r)"
  have c: "storable c" "weak c" "unshared S c" "in_db g S c" "ht c < h" "c \<noteq> Tip" "own_hash S c \<inter> refs S c = {}"
    "\<forall>x \<in> own_hash S c. g x = Some (avl_enc S c)"
    using Br.prems by (auto simp: c_def)
  have IH: "\<exists>st. look_inline (avl_enc S c) key = Some st \<and>
    (case st of Found v \<Rightarrow> find_key c key = Some v | Absent \<Rightarrow> find_key c key = None
     | Follow h \<Rightarrow> \<exists>d. rooted g S d h \<and> ht d < ht c \<and> find_key c key = find_key d key)"
  proof (cases "key < k")
    case True
    then have e: "c = l" by (simp add: c_def)
    show ?thesis unfolding e by (rule Br.IH(1)[OF hs c(1-4)[unfolded e]])
  next
    case False
    then have e: "c = r" by (simp add: c_def)
    show ?thesis unfolding e by (rule Br.IH(2)[OF hs c(1-4)[unfolded e]])
  qed
  have f: "find_key (Br h k l r) key = find_key c key" by (simp add: c_def)
  have d: "look_inline (avl_enc S (Br h k l r)) key =
      (let d = child_bytes S (avl_enc S c) in
       if is_hash_ref d then do { h \<leftarrow> rlp_as_val (hash_decode 32) d; Some (Follow h) } else look_inline d key)"
    using decoded_branch[OF hs Br.prems(2)] by (subst look_inline.simps) (simp add: c_def Let_def del: avl_enc.simps)
  show ?case
  proof (cases "32 \<le> length (avl_enc S c)")
    case True
    let ?h = "S (avl_enc S c)"
    have "length ?h = 32" using hs by (simp add: hash32_def)
    then have "look_inline (avl_enc S (Br h k l r)) key = Some (Follow ?h)"
      using d True by (simp add: child_bytes_def hash_ref_hash hash_ref_decode)
    moreover have "rooted g S c ?h" using c True by (auto simp: rooted_def own_hash_def)
    ultimately show ?thesis using c(5) f by auto
  next
    case False
    then have "look_inline (avl_enc S (Br h k l r)) key = look_inline (avl_enc S c) key"
      using d enc_not_hash_ref[OF hs c(1)] by (simp add: child_bytes_def)
    then have e: "look_inline (avl_enc S (Br h k l r)) key = look_inline (avl_enc S c) key" .
    obtain st where st: "look_inline (avl_enc S c) key = Some st" using IH by blast
    show ?thesis
    proof (cases st)
      case (Follow x)
      obtain d where "rooted g S d x" "ht d < ht c" "find_key c key = find_key d key" using IH st by (auto simp: Follow)
      then have "rooted g S d x \<and> ht d < ht (Br h k l r) \<and> find_key (Br h k l r) key = find_key d key" using c(5) f by simp
      then show ?thesis unfolding e st Follow by auto
    qed (use IH in \<open>simp_all add: e st f del: avl_enc.simps find_key.simps\<close>)
  qed
qed

lemma look_up_step:
  assumes "cadd depth 1 = Some deeper" and "hd_get H db h = Some d" and "q_record Q h d depth q = Some q1"
    and "look_inline d key = Some st"
  shows "look_up H Q db h depth key q =
    (case st of Found v \<Rightarrow> Some (Inr (Some (q_decode Q q1 v)), q1) | Absent \<Rightarrow> Some (Inr None, q1)
     | Follow h \<Rightarrow> look_up H Q db h deeper key q1)"
  by (subst look_up.simps) (simp only: assms option.case)

lemma look_up_spec:
  assumes hs: "hash32 S" and q: "\<And>e d q. q_record Q (S e) e d q \<noteq> None"
  shows "rooted (hd_get H db) S t h \<Longrightarrow> unat depth + ht t < 2 ^ 31 \<Longrightarrow>
    \<exists>q'. look_up H Q db h depth key q = Some (Inr (map_option (q_decode Q q') (find_key t key)), q')"
proof (induction "ht t" arbitrary: t h depth q rule: less_induct)
  case less
  have t: "h = S (avl_enc S t)" "hd_get H db h = Some (avl_enc S t)" "storable t" "weak t" "unshared S t" "in_db (hd_get H db) S t"
    using less.prems(1) by (auto simp: rooted_def)
  have u1: "unat (1 :: u32) \<le> 2" and ud: "unat depth < 2 ^ 31" using less.prems(2) by simp_all
  from cadd_small[OF ud u1] obtain deeper where dp: "cadd depth 1 = Some deeper" "unat deeper = unat depth + 1" by auto
  obtain q1 where q1: "q_record Q h (avl_enc S t) depth q = Some q1" using q[of "avl_enc S t"] t(1) by auto
  obtain st where st: "look_inline (avl_enc S t) key = Some st"
    "case st of Found v \<Rightarrow> find_key t key = Some v | Absent \<Rightarrow> find_key t key = None
     | Follow h \<Rightarrow> \<exists>c. rooted (hd_get H db) S c h \<and> ht c < ht t \<and> find_key t key = find_key c key"
    using look_inline_spec[OF hs t(3-6)] by blast
  note u = look_up_step[OF dp(1) t(2) q1 st(1)]
  show ?case
  proof (cases st)
    case (Follow h')
    then obtain c where c: "rooted (hd_get H db) S c h'" "ht c < ht t" "find_key t key = find_key c key" using st(2) by auto
    have "unat deeper + ht c < 2 ^ 31" using dp(2) c(2) less.prems(2) by linarith
    from less.hyps[OF c(2,1) this] show ?thesis using u c(3) Follow by simp
  qed (use u st(2) in auto)
qed

text \<open>Queries never panic on an intact database: the assertion of the recorder holds.\<close>

lemma fn_query_records [simp]: "q_record (fn_query f) h e d q \<noteq> None"
  by (simp add: fn_query_def)

lemma recorder_records [simp]: "q_record (recorder_query S) (S e) e d q \<noteq> None" "q_record (recorder_fn_query S f) (S e) e d q \<noteq> None"
  by (simp_all add: recorder_query_def recorder_fn_query_def recorder_record_def)

subsection \<open>In memory\<close>

lemma lookup_hash:
  assumes "hash32 S" and "ht t < 2 ^ 31" and "owns H S m t (Hash h) R"
  shows "lookup_in H key m (Hash h) = Some (Inr (find_key t key))"
proof -
  have l: "rooted (hd_get H (a_db m)) S t h" using assms(3) by (simp add: owns_Hash)
  have "\<exists>q'. look_up H (fn_query (\<lambda>v. v)) (a_db m) h 0 key () =
      Some (Inr (map_option (q_decode (fn_query (\<lambda>v. v)) q') (find_key t key)), q')"
    by (rule look_up_spec[OF assms(1) fn_query_records l]) (use assms(2) in simp)
  then show ?thesis by (subst lookup_in.simps) (auto simp: fn_query_def option.map_ident)
qed

lemma lookup_slot:
  assumes "owns H S m t (InMemory i) R"
  obtains n R' where "storage_index (a_storage m) i = Some n" and "nowns H S m t n R'"
proof -
  have o: "i < length (slots m)" "stored_rep (hd_get H (a_db m)) S (slots m) t (slots m ! i) (R - {Slot i})" "\<forall>r \<in> R. live m r"
    using assms by (simp_all add: owns_def handle_rep_simps)
  then have "storage_index (a_storage m) i = Some (stored_node (slots m ! i))" by (simp add: storage_index_def)
  moreover have "\<exists>R'. nowns H S m t (stored_node (slots m ! i)) R'"
    using o(2,3) unfolding nowns_def by (cases "slots m ! i") (auto simp: stored_rep_simps)
  ultimately show ?thesis using that by blast
qed

lemma lookup_in_spec:
  "hash32 S \<Longrightarrow> weak t \<Longrightarrow> ht t < 2 ^ 31 \<Longrightarrow> owns H S m t c R \<Longrightarrow> lookup_in H key m c = Some (Inr (find_key t key))"
proof (induction t arbitrary: c R)
  case Tip
  show ?case
  proof (cases c)
    case (InMemory i)
    obtain n R' where "storage_index (a_storage m) i = Some n" "nowns H S m Tip n R'"
      by (rule lookup_slot[OF Tip(4)[unfolded InMemory]])
    then show ?thesis by (subst lookup_in.simps) (simp add: InMemory nowns_leaf)
  next
    case (Hash x)
    show ?thesis unfolding Hash by (rule lookup_hash[OF Tip(1,3) Tip(4)[unfolded Hash]])
  qed
next
  case (Lf k v)
  show ?case
  proof (cases c)
    case (InMemory i)
    obtain n R' where "storage_index (a_storage m) i = Some n" "nowns H S m (Lf k v) n R'"
      by (rule lookup_slot[OF Lf(4)[unfolded InMemory]])
    then show ?thesis by (subst lookup_in.simps) (simp add: InMemory nowns_leaf)
  next
    case (Hash x)
    show ?thesis unfolding Hash by (rule lookup_hash[OF Lf(1,3) Lf(4)[unfolded Hash]])
  qed
next
  case (Br h k l r)
  show ?case
  proof (cases c)
    case (InMemory i)
    obtain n R' where n: "storage_index (a_storage m) i = Some n" "nowns H S m (Br h k l r) n R'"
      by (rule lookup_slot[OF Br.prems(4)[unfolded InMemory]])
    then obtain w c0 c1 R0 R1 where b: "n = Branch w k (Some c0, Some c1)" "owns H S m l c0 R0" "owns H S m r c1 R1"
      unfolding nowns_Br by blast
    have "lookup_in H key m c0 = Some (Inr (find_key l key))"
      by (rule Br.IH(1)[OF Br.prems(1) _ _ b(2)]) (use Br.prems in auto)
    moreover have "lookup_in H key m c1 = Some (Inr (find_key r key))"
      by (rule Br.IH(2)[OF Br.prems(1) _ _ b(3)]) (use Br.prems in auto)
    ultimately show ?thesis using n(1) b(1) by (subst lookup_in.simps) (simp add: InMemory left_of_def)
  next
    case (Hash x)
    show ?thesis unfolding Hash by (rule lookup_hash[OF Br.prems(1,3) Br.prems(4)[unfolded Hash]])
  qed
qed

end
