(* ===== verification/AvlMap.thy ===== *)
theory AvlMap
  imports AvlLookup
begin

section \<open>The tree in memory is a map\<close>

text \<open>
  \<open>avl_state H S m t\<close>: the state \<open>m\<close> of an \<open>AVLDBMut\<close> represents the tree \<open>t\<close>. Every operation of the
  interface is then an operation of the map \<open>tmap t\<close>, and any sequence of operations gives what the map gives.
\<close>

subsection \<open>Single operations\<close>

definition avl_state where
  "avl_state H S m t \<longleftrightarrow> store_ok m \<and> weak t \<and> ordered t \<and> (\<exists>R. owns H S m t (root_handle m) R)"

text \<open>The empty tree is in every database, under the hash that stands for it.\<close>

definition empty_known :: "'db hash_db \<Rightarrow> (bytes \<Rightarrow> hash) \<Rightarrow> 'db \<Rightarrow> bool" where
  "empty_known H S db \<longleftrightarrow> S [0x80] = SHA3_NULL_RLP \<and> hd_get H db SHA3_NULL_RLP = Some [0x80]"

lemma owns_root [simp]: "owns H S (m\<lparr>root_handle := c'\<rparr>) t c R = owns H S m t c R"
  "owns H S (m\<lparr>a_root := h\<rparr>) t c R = owns H S m t c R"
proof -
  have "live (m\<lparr>root_handle := c'\<rparr>) r = live m r" "live (m\<lparr>a_root := h\<rparr>) r = live m r" for r by (cases r; simp)+
  then show "owns H S (m\<lparr>root_handle := c'\<rparr>) t c R = owns H S m t c R"
    "owns H S (m\<lparr>a_root := h\<rparr>) t c R = owns H S m t c R" by (simp_all add: owns_def)
qed

lemma store_root [simp]: "store_ok (m\<lparr>root_handle := c\<rparr>) = store_ok m" "store_ok (m\<lparr>a_root := h\<rparr>) = store_ok m"
  by (simp_all add: store_ok_def)

lemma empty_linked: "empty_known H S db \<Longrightarrow> rooted (hd_get H db) S Tip SHA3_NULL_RLP"
  by (simp add: empty_known_def rooted_def)

lemma owns_empty: "empty_known H S (a_db m) \<Longrightarrow> owns H S m Tip (Hash SHA3_NULL_RLP) {Key SHA3_NULL_RLP, Top}"
  using empty_linked by (auto simp: owns_Hash top_of_def long_def)

lemma state_new: "empty_known H S db \<Longrightarrow> avl_state H S (avl_new db) Tip"
  using owns_empty[of H S "avl_new db"]
  by (auto simp: avl_state_def avl_new_def store_ok_def storage_empty_def)

lemma state_existing:
  assumes "rooted (hd_get H db) S t h" and "ordered t" and "hd_contains H db h"
  shows "\<exists>m. avl_from_existing H db h = Inr m \<and> avl_state H S m t \<and> a_db m = db"
proof -
  let ?m = "\<lparr>a_storage = storage_empty, a_db = db, a_root = h, root_handle = Hash h,
        death_row = [], hash_count = 0, old_val = None\<rparr>"
  have "owns H S ?m t (Hash h) (Key ` insert h (refs S t) \<union> top_of S t)"
    using assms(1) by (auto simp: owns_Hash top_of_def)
  then have "avl_state H S ?m t" using assms by (auto simp: avl_state_def rooted_def store_ok_def storage_empty_def)
  then show ?thesis using assms(3) by (simp add: avl_from_existing_def)
qed

lemma get_state: "hash32 S \<Longrightarrow> avl_state H S m t \<Longrightarrow> ht t < 2 ^ 31 \<Longrightarrow> mut_get H key m = Some (Inr (tmap t key))"
  using lookup_in_spec find_key_tmap by (fastforce simp: avl_state_def mut_get_def)

lemma ins_any_weak: "weak t \<Longrightarrow> weak (fst (ins key val t)) \<and> ht (fst (ins key val t)) \<le> ht t + 1"
  using ins_weak[of t key val] calm_le by (cases "t = Tip") auto

lemma insert_state:
  assumes "hash32 S" and "avl_state H S m t" and "ht t < 2 ^ 31" and "val \<noteq> []"
  shows "\<exists>m'. mut_insert H key val m = Some (Inr (tmap t key), m') \<and> avl_state H S m' (fst (ins key val t)) \<and> a_db m' = a_db m"
proof -
  let ?m = "m\<lparr>old_val := None\<rparr>"
  obtain R where t: "store_ok ?m" "owns H S ?m t (root_handle m) R" "weak t" "ordered t"
    using assms(2) by (auto simp: avl_state_def)
  obtain i m' R' where i: "avl_insert_at H key val (root_handle m) ?m = Some (Inr (i, snd (ins key val t)), m'\<lparr>old_val := old_of key t ?m\<rparr>)"
    and st: "step ?m m' R R'" and o: "owns H S m' (fst (ins key val t)) (InMemory i) R'"
    using insertsD[OF insert_at_spec[OF assms(1) t(3) assms(3)] t(1,2)] by blast
  have v: "old_of key t ?m = tmap t key" using find_key_tmap[OF t(4)] by (auto simp: old_of_def split: option.split)
  have "avl_state H S (m'\<lparr>old_val := tmap t key, root_handle := InMemory i\<rparr>) (fst (ins key val t))"
    using step_ok[OF st] o ins_any_weak[OF t(3)] ins_spec[OF weak_full[OF t(3)] t(4)] by (auto simp: avl_state_def)
  then show ?thesis using i v step_db[OF st] assms(4) by (simp add: mut_insert_def)
qed

definition removed :: "node_key \<Rightarrow> avl \<Rightarrow> avl" where
  "removed key t = (case del key t of None \<Rightarrow> Tip | Some (t', _) \<Rightarrow> t')"

lemma removed_weak:
  assumes "weak t" and "ordered t"
  shows "weak (removed key t) \<and> ordered (removed key t) \<and> ht (removed key t) \<le> ht t \<and> tmap (removed key t) = (tmap t)(key := None)"
  using del_spec[OF weak_full[OF assms(1)] assms(2), of key] del_weak[OF assms(1), of key]
  by (auto simp: removed_def split: option.split)

lemma remove_state:
  assumes "hash32 S" and "avl_state H S m t" and "ht t < 2 ^ 31" and "empty_known H S (a_db m)"
  shows "\<exists>m'. mut_remove H key m = Some (Inr None, m') \<and> avl_state H S m' (removed key t) \<and> a_db m' = a_db m"
proof -
  let ?m = "m\<lparr>old_val := None\<rparr>"
  obtain R where t: "store_ok ?m" "owns H S ?m t (root_handle m) R" "weak t" "ordered t"
    using assms(2) by (auto simp: avl_state_def)
  obtain x m' R' where x: "avl_remove_at H key (root_handle m) ?m = Some (Inr x, m')" and st: "step ?m m' R R'"
    and o: "case del key t of None \<Rightarrow> x = None | Some (t', changed) \<Rightarrow> (\<exists>i. x = Some (i, changed) \<and> owns H S m' t' (InMemory i) R') \<and> (\<not> changed \<longrightarrow> keeps R R')"
    using removesD[OF remove_at_spec[OF assms(1) t(3) assms(3)] t(1,2)] by blast
  note w = removed_weak[OF t(3,4), of key]
  have v: "old_val m' = None" "a_db m' = a_db m" using st by (simp_all add: step_def)
  show ?thesis
  proof (cases x)
    case None
    then have "removed key t = Tip" using o by (auto simp: removed_def split: option.splits)
    moreover have "owns H S m' Tip (Hash SHA3_NULL_RLP) {Key SHA3_NULL_RLP, Top}" using owns_empty assms(4) v by metis
    ultimately have "avl_state H S (m'\<lparr>root_handle := Hash SHA3_NULL_RLP, a_root := SHA3_NULL_RLP\<rparr>) (removed key t)"
      using step_ok[OF st] by (auto simp: avl_state_def)
    then show ?thesis using x v None by (simp add: mut_remove_def)
  next
    case (Some p)
    then obtain i c t' where d: "del key t = Some (t', c)" "p = (i, c)" "owns H S m' t' (InMemory i) R'"
      using o by (auto split: option.splits)
    then have "avl_state H S (m'\<lparr>root_handle := InMemory i\<rparr>) (removed key t)"
      using step_ok[OF st] w by (auto simp: avl_state_def removed_def)
    then show ?thesis using x v Some d(2) by (simp add: mut_remove_def)
  qed
qed

subsection \<open>Sequences of operations\<close>

datatype avl_op = Insert node_key db_value | Remove node_key | Get node_key

definition avl_apply :: "'db hash_db \<Rightarrow> avl_op \<Rightarrow> 'db avl_mut \<Rightarrow> ((avl_error + db_value option) \<times> 'db avl_mut) option" where
  "avl_apply H a m =
     (case a of
        Insert key val \<Rightarrow> mut_insert H key val m
      | Remove key \<Rightarrow> mut_remove H key m
      | Get key \<Rightarrow> map_option (\<lambda>r. (r, m)) (mut_get H key m))"

fun avl_run :: "'db hash_db \<Rightarrow> avl_op list \<Rightarrow> 'db avl_mut \<Rightarrow> ((avl_error + db_value option) list \<times> 'db avl_mut) option" where
  "avl_run H [] m = Some ([], m)"
| "avl_run H (a # as) m = do { (r, m) \<leftarrow> avl_apply H a m; (rs, m) \<leftarrow> avl_run H as m; Some (r # rs, m) }"

text \<open>
  The map that the interface (\<open>AVLMut\<close> in \<open>mod.rs\<close>) documents: each operation tells the value that the key had, and the insertion of
  the empty value is a removal.
\<close>

fun map_apply :: "avl_op \<Rightarrow> (node_key \<rightharpoonup> db_value) \<Rightarrow> db_value option \<times> (node_key \<rightharpoonup> db_value)" where
  "map_apply (Insert key val) M = (M key, if val = [] then M(key := None) else M(key \<mapsto> val))"
| "map_apply (Remove key) M = (M key, M(key := None))"
| "map_apply (Get key) M = (M key, M)"

text \<open>What the code tells of it: nothing after a removal, where the interface promises the old value.\<close>

definition is_removal :: "avl_op \<Rightarrow> bool" where
  "is_removal a = (case a of Insert _ val \<Rightarrow> val = [] | Remove _ \<Rightarrow> True | Get _ \<Rightarrow> False)"

definition told :: "avl_op \<Rightarrow> db_value option \<Rightarrow> db_value option" where
  "told a r = (if is_removal a then None else r)"

lemma told_simps [simp]:
  "told (Insert key val) r = (if val = [] then None else r)" "told (Remove key) r = None" "told (Get key) r = r"
  by (simp_all add: told_def is_removal_def)

fun map_run :: "avl_op list \<Rightarrow> (node_key \<rightharpoonup> db_value) \<Rightarrow> db_value option list \<times> (node_key \<rightharpoonup> db_value)" where
  "map_run [] M = ([], M)"
| "map_run (a # as) M = (let (r, M) = map_apply a M; (rs, M) = map_run as M in (r # rs, M))"

fun tree_apply :: "avl_op \<Rightarrow> avl \<Rightarrow> avl" where
  "tree_apply (Insert key val) t = (if val = [] then removed key t else fst (ins key val t))"
| "tree_apply (Remove key) t = removed key t"
| "tree_apply (Get key) t = t"

lemma tree_apply_map:
  assumes "weak t" and "ordered t"
  shows "weak (tree_apply a t) \<and> ordered (tree_apply a t) \<and> ht (tree_apply a t) \<le> ht t + 1 \<and>
    tmap (tree_apply a t) = snd (map_apply a (tmap t))"
proof (cases a)
  case (Insert key val)
  then show ?thesis using removed_weak[OF assms, of key] ins_any_weak[OF assms(1), of key val]
    ins_spec[OF weak_full[OF assms(1)] assms(2), of key val] by simp
next
  case (Remove key)
  then show ?thesis using removed_weak[OF assms, of key] by simp
qed (use assms in simp)

lemma apply_state:
  assumes "hash32 S" and "avl_state H S m t" and "ht t < 2 ^ 31" and "empty_known H S (a_db m)"
  shows "\<exists>m'. avl_apply H a m = Some (Inr (told a (fst (map_apply a (tmap t)))), m') \<and> avl_state H S m' (tree_apply a t) \<and> a_db m' = a_db m"
proof (cases a)
  case (Insert key val)
  show ?thesis
  proof (cases "val = []")
    case True
    then show ?thesis using remove_state[OF assms, of key] by (simp add: Insert avl_apply_def mut_insert_def)
  next
    case False
    then show ?thesis using insert_state[OF assms(1-3) False, of key] by (simp add: Insert avl_apply_def)
  qed
next
  case (Remove key)
  then show ?thesis using remove_state[OF assms, of key] by (simp add: avl_apply_def)
next
  case (Get key)
  then show ?thesis using get_state[OF assms(1-3), of key] assms(2) by (simp add: avl_apply_def)
qed

lemma run_state:
  assumes "hash32 S" and "avl_state H S m t" and "ht t + length as < 2 ^ 31" and "empty_known H S (a_db m)"
  shows "\<exists>m'. avl_run H as m = Some (map Inr (map2 told as (fst (map_run as (tmap t)))), m') \<and>
    avl_state H S m' (fold tree_apply as t) \<and> a_db m' = a_db m \<and> tmap (fold tree_apply as t) = snd (map_run as (tmap t))"
  using assms(2-4)
proof (induction as arbitrary: m t)
  case (Cons a as)
  have t: "weak t" "ordered t" "ht t < 2 ^ 31" using Cons.prems(1,2) by (simp_all add: avl_state_def)
  note ta = tree_apply_map[OF t(1,2), of a]
  obtain m1 where m1: "avl_apply H a m = Some (Inr (told a (fst (map_apply a (tmap t)))), m1)" "avl_state H S m1 (tree_apply a t)"
    "a_db m1 = a_db m"
    using apply_state[OF assms(1) Cons.prems(1) t(3) Cons.prems(3)] by blast
  have "ht (tree_apply a t) + length as < 2 ^ 31" using ta Cons.prems(2) by simp
  then obtain m2 where "avl_run H as m1 = Some (map Inr (map2 told as (fst (map_run as (tmap (tree_apply a t))))), m2)"
    "avl_state H S m2 (fold tree_apply as (tree_apply a t))" "a_db m2 = a_db m1"
    "tmap (fold tree_apply as (tree_apply a t)) = snd (map_run as (tmap (tree_apply a t)))"
    using Cons.IH[OF m1(2)] m1(3) Cons.prems(3) by auto
  then show ?case using m1 ta by (simp add: case_prod_unfold Let_def)
qed simp

end
