(* ===== verification/AvlProof.thy ===== *)
theory AvlProof
  imports AvlMap
begin

section \<open>What a lookup records\<close>

text \<open>
  The nodes that a recorder keeps are enough to repeat the lookup without the rest of the database.
\<close>

text \<open>A database that holds the recorded nodes.\<close>

definition holds_records :: "'db hash_db \<Rightarrow> 'db \<Rightarrow> avl_record list \<Rightarrow> bool" where
  "holds_records H db ns \<longleftrightarrow> (\<forall>n \<in> set ns. hd_get H db (r_hash n) = Some (r_data n))"

text \<open>One step of a successful lookup.\<close>

lemma look_up_result:
  assumes "look_up H Q db h depth key q = Some (Inr v, q')"
  obtains deeper d q1 st where "cadd depth 1 = Some deeper" and "hd_get H db h = Some d"
    and "q_record Q h d depth q = Some q1" and "look_inline d key = Some st"
    and "(case st of Found x \<Rightarrow> v = Some (q_decode Q q1 x) \<and> q' = q1 | Absent \<Rightarrow> v = None \<and> q' = q1
          | Follow g \<Rightarrow> look_up H Q db g deeper key q1 = Some (Inr v, q'))"
proof -
  obtain deeper where 1: "cadd depth 1 = Some deeper" using assms by (subst (asm) look_up.simps) (auto split: option.splits)
  obtain d where 2: "hd_get H db h = Some d"
    using assms by (subst (asm) look_up.simps) (auto simp: 1 split: option.splits)
  obtain q1 where 3: "q_record Q h d depth q = Some q1"
    using assms by (subst (asm) look_up.simps) (auto simp: 1 2 split: option.splits)
  obtain st where 4: "look_inline d key = Some st"
    using assms by (subst (asm) look_up.simps) (auto simp: 1 2 3 split: option.splits)
  have 5: "case st of Found x \<Rightarrow> v = Some (q_decode Q q1 x) \<and> q' = q1 | Absent \<Rightarrow> v = None \<and> q' = q1
      | Follow g \<Rightarrow> look_up H Q db g deeper key q1 = Some (Inr v, q')"
    using assms unfolding look_up_step[OF 1 2 3 4] by (cases st) auto
  show ?thesis by (rule that[OF 1 2 3 4 5])
qed

lemma recorder_step:
  assumes "q_record (recorder_query S) h d depth r = Some r1" and "min_depth r \<le> depth"
  shows "r_nodes r1 = r_nodes r @ [\<lparr>r_depth = depth, r_data = d, r_hash = h\<rparr>]" and "min_depth r1 = min_depth r" and "S d = h"
  using assms by (auto simp: recorder_query_def recorder_record_def split: if_splits)

lemma deeper_le: "cadd depth 1 = Some deeper \<Longrightarrow> depth \<le> (deeper :: u32)"
  using cadd_SomeD[of depth 1 deeper] by (simp add: word_le_nat_alt)

lemma recorder_grows:
  "look_up H (recorder_query S) db h depth key r = Some (Inr v, r') \<Longrightarrow> min_depth r \<le> depth \<Longrightarrow>
    set (r_nodes r) \<subseteq> set (r_nodes r')"
proof (induction "2 ^ 32 - unat depth" arbitrary: h depth r rule: less_induct)
  case less
  obtain deeper d r1 st where s: "cadd depth 1 = Some deeper" "q_record (recorder_query S) h d depth r = Some r1"
    "(case st of Found x \<Rightarrow> v = Some (q_decode (recorder_query S) r1 x) \<and> r' = r1 | Absent \<Rightarrow> v = None \<and> r' = r1
          | Follow g \<Rightarrow> look_up H (recorder_query S) db g deeper key r1 = Some (Inr v, r'))"
    by (rule look_up_result[OF less.prems(1)])
  note r = recorder_step[OF s(2) less.prems(2)]
  show ?case
  proof (cases st)
    case (Follow g)
    have m: "min_depth r1 \<le> deeper" using r(2) less.prems(2) deeper_le[OF s(1)] by simp
    have l: "2 ^ 32 - unat deeper < 2 ^ 32 - unat depth"
      using cadd_SomeD[OF s(1)] unat_bound[of deeper] by simp
    have "set (r_nodes r1) \<subseteq> set (r_nodes r')" using less.hyps[OF l _ m] s(3) by (simp add: Follow)
    then show ?thesis using r(1) by auto
  qed (use s(3) r(1) in auto)
qed

lemma recorded_replay:
  "look_up H (recorder_query S) db h depth key r = Some (Inr v, r') \<Longrightarrow> min_depth r \<le> depth \<Longrightarrow>
    holds_records H' db' (r_nodes r') \<Longrightarrow>
    look_up H' (recorder_query S) db' h depth key r = Some (Inr v, r')"
proof (induction "2 ^ 32 - unat depth" arbitrary: h depth r rule: less_induct)
  case less
  obtain deeper d r1 st where s: "cadd depth 1 = Some deeper" "q_record (recorder_query S) h d depth r = Some r1"
    "look_inline d key = Some st"
    "(case st of Found x \<Rightarrow> v = Some (q_decode (recorder_query S) r1 x) \<and> r' = r1 | Absent \<Rightarrow> v = None \<and> r' = r1
          | Follow g \<Rightarrow> look_up H (recorder_query S) db g deeper key r1 = Some (Inr v, r'))"
    by (rule look_up_result[OF less.prems(1)])
  note r = recorder_step[OF s(2) less.prems(2)]
  have m: "min_depth r1 \<le> deeper" using r(2) less.prems(2) deeper_le[OF s(1)] by simp
  have "set (r_nodes r1) \<subseteq> set (r_nodes r')"
  proof (cases st)
    case (Follow g)
    then show ?thesis using recorder_grows[OF _ m] s(4) by simp
  qed (use s(4) in simp_all)
  then have "\<lparr>r_depth = depth, r_data = d, r_hash = h\<rparr> \<in> set (r_nodes r')" using r(1) by auto
  then have g: "hd_get H' db' h = Some d" using less.prems(3) by (force simp: holds_records_def)
  have l: "2 ^ 32 - unat deeper < 2 ^ 32 - unat depth"
    using cadd_SomeD[OF s(1)] unat_bound[of deeper] by simp
  show ?case
  proof (cases st)
    case (Follow x)
    then show ?thesis using less.hyps[OF l _ m less.prems(3)] s(4) unfolding look_up_step[OF s(1) g s(2,3)] by simp
  qed (use s(4) in \<open>simp_all add: look_up_step[OF s(1) g s(2,3)]\<close>)
qed

end
