(* ===== verification/AvlCommit.thy ===== *)
theory AvlCommit
  imports AvlProof
begin

section \<open>A root commits to the tree\<close>

text \<open>
  The encoding of a node determines its tree, up to a clash of the hash function between the encodings of the two trees
  that are compared: a child of 32 bytes or more stands in its parent as a hash.
\<close>

fun subtrees :: "avl \<Rightarrow> avl set" where
  "subtrees (Br h k l r) = insert (Br h k l r) (subtrees l \<union> subtrees r)"
| "subtrees t = {t}"

text \<open>The byte strings that a tree hashes, its own encoding included.\<close>

definition encs :: "(bytes \<Rightarrow> hash) \<Rightarrow> avl \<Rightarrow> bytes set" where
  "encs S t = avl_enc S ` subtrees t"

lemma encs_self [simp]: "avl_enc S t \<in> encs S t"
  by (cases t) (auto simp: encs_def)

lemma encs_Br: "encs S (Br h k l r) = insert (avl_enc S (Br h k l r)) (encs S l \<union> encs S r)"
  by (auto simp: encs_def)

lemma clash_wider: "clash S A B \<Longrightarrow> A \<subseteq> A' \<Longrightarrow> B \<subseteq> B' \<Longrightarrow> clash S A' B'"
  unfolding clash_def by blast

lemma child_bytes_eq:
  assumes hs: "hash32 S" and x: "storable x" and y: "storable y" and e: "child_bytes S (avl_enc S x) = child_bytes S (avl_enc S y)"
  shows "avl_enc S x = avl_enc S y \<or> S (avl_enc S x) = S (avl_enc S y)"
proof -
  have "is_hash_ref (child_bytes S (avl_enc S x)) = is_hash_ref (child_bytes S (avl_enc S y))" by (simp only: e)
  then have ln: "32 \<le> length (avl_enc S x) \<longleftrightarrow> 32 \<le> length (avl_enc S y)"
    unfolding child_hash_ref[OF hs x] child_hash_ref[OF hs y] .
  have l: "length (S z) < 2 ^ 31" for z using hs by (simp add: hash32_def)
  show ?thesis
  proof (cases "32 \<le> length (avl_enc S x)")
    case True
    have c: "child_bytes S (avl_enc S x) = data_bytes (S (avl_enc S x))" unfolding child_bytes_def by (rule if_P[OF True])
    have d: "child_bytes S (avl_enc S y) = data_bytes (S (avl_enc S y))" unfolding child_bytes_def by (rule if_P[OF True[unfolded ln]])
    have "data_bytes (S (avl_enc S x)) = data_bytes (S (avl_enc S y))" by (rule trans[OF c[symmetric] trans[OF e d]])
    then have "rlp_data (data_bytes (S (avl_enc S x))) = rlp_data (data_bytes (S (avl_enc S y)))" by (rule arg_cong)
    then have "Done (S (avl_enc S x)) = Done (S (avl_enc S y))" unfolding rlp_data_bytes[OF l] .
    then show ?thesis by simp
  next
    case False
    have c: "child_bytes S (avl_enc S x) = avl_enc S x" unfolding child_bytes_def by (rule if_not_P[OF False])
    have d: "child_bytes S (avl_enc S y) = avl_enc S y" unfolding child_bytes_def by (rule if_not_P[OF False[unfolded ln]])
    show ?thesis by (rule disjI1, rule trans[OF c[symmetric] trans[OF e d]])
  qed
qed

text \<open>The encoding determines the tree.\<close>

lemma enc_commits:
  assumes "hash32 S"
  shows "storable x \<Longrightarrow> storable y \<Longrightarrow> avl_enc S x = avl_enc S y \<Longrightarrow> x = y \<or> clash S (encs S x) (encs S y)"
proof (induction x arbitrary: y)
  case (Br h k l r)
  have n: "node_of S (Br h k l r) = node_of S y"
    using decoded_node[OF assms(1) Br.prems(1)] decoded_node[OF assms(1) Br.prems(2)] Br.prems(3) by simp
  then obtain h' l' r' where y: "y = Br h' k l' r'" "(of_nat h :: u32) = of_nat h'"
    "child_bytes S (avl_enc S l) = child_bytes S (avl_enc S l')" "child_bytes S (avl_enc S r) = child_bytes S (avl_enc S r')"
    by (cases y) auto
  have st: "storable l" "storable l'" "storable r" "storable r'" "h < 128" "h' < 128" using Br.prems(1,2) by (simp_all add: y(1))
  let ?c = "clash S (encs S (Br h k l r)) (encs S y)"
  have part: "a = b \<or> ?c" if "storable a" "storable b" "child_bytes S (avl_enc S a) = child_bytes S (avl_enc S b)"
    "encs S a \<subseteq> encs S (Br h k l r)" "encs S b \<subseteq> encs S y" "avl_enc S a = avl_enc S b \<Longrightarrow> a = b \<or> clash S (encs S a) (encs S b)" for a b
  proof (cases "avl_enc S a = avl_enc S b")
    case True
    then show ?thesis using that(6) clash_wider[OF _ that(4,5)] by blast
  next
    case False
    then have "S (avl_enc S a) = S (avl_enc S b)" using child_bytes_eq[OF assms that(1-3)] by blast
    then have "clash S (encs S a) (encs S b)" using False unfolding clash_def by (intro bexI[OF _ encs_self]) blast
    then show ?thesis using clash_wider[OF _ that(4,5)] by blast
  qed
  have "l = l' \<or> ?c" by (rule part[OF st(1,2) y(3)]) (use Br.IH(1)[OF st(1,2)] in \<open>auto simp: encs_Br y(1)\<close>)
  moreover have "r = r' \<or> ?c" by (rule part[OF st(3,4) y(4)]) (use Br.IH(2)[OF st(3,4)] in \<open>auto simp: encs_Br y(1)\<close>)
  moreover have "h = h'"
  proof -
    have "unat (of_nat h :: u32) = unat (of_nat h' :: u32)" by (simp only: y(2))
    then show ?thesis using st(5,6) by (simp add: unat_of_nat)
  qed
  ultimately show ?case using y(1) by blast
next
  case Tip
  have "node_of S Tip = node_of S y"
    using decoded_node[OF assms(1) Tip.prems(1)] decoded_node[OF assms(1) Tip.prems(2)] Tip.prems(3) by simp
  then show ?case by (cases y) auto
next
  case (Lf k v)
  have "node_of S (Lf k v) = node_of S y"
    using decoded_node[OF assms(1) Lf.prems(1)] decoded_node[OF assms(1) Lf.prems(2)] Lf.prems(3) by simp
  then show ?case by (cases y) auto
qed

lemma hash_commits:
  assumes "hash32 S" and "storable x" and "storable y" and "S (avl_enc S x) = S (avl_enc S y)"
  shows "x = y \<or> clash S (encs S x) (encs S y)"
proof (cases "avl_enc S x = avl_enc S y")
  case False
  then have "clash S (encs S x) (encs S y)" using assms(4) unfolding clash_def by (intro bexI[OF _ encs_self]) blast
  then show ?thesis ..
qed (rule enc_commits[OF assms(1-3)])

text \<open>A lookup below the root of a tree finds what the tree holds.\<close>

lemma rooted_lookup:
  assumes "hash32 S" and "rooted (hd_get H db) S t h" and "ordered t" and "ht t < 2 ^ 31"
  shows "look_up H (fn_query (\<lambda>v. v)) db h 0 key () = Some (Inr (tmap t key), ())"
  using look_up_spec[OF assms(1) fn_query_records assms(2), of 0 "\<lambda>v. v" key "()"] assms(4)
  by (simp add: fn_query_def find_key_tmap[OF assms(3)] option.map_ident)

end
