(* ===== verification/AvlClaims.thy ===== *)
theory AvlClaims
  imports AvlCommit
begin

section \<open>The hashed tree: properties\<close>

text \<open>
  What makes the tree correct: it is a map, a tree that only grows is balanced, a lookup can be repeated with
  the nodes that it recorded, a root commits to the entries; and where it is not: removals unbalance
  it, and an operation that fails can leave the empty tree behind. The witnesses use a small database.
\<close>

subsection \<open>Growing trees are balanced\<close>

definition is_put :: "avl_op \<Rightarrow> bool" where
  "is_put a = (case a of Insert _ val \<Rightarrow> val \<noteq> [] | _ \<Rightarrow> False)"

lemma put_balanced: "is_put a \<Longrightarrow> balanced t \<Longrightarrow> balanced (tree_apply a t)"
proof (cases a)
  case (Insert key val)
  assume "is_put a" "balanced t"
  then show ?thesis using ins_balanced[of t key val] by (cases "t = Tip") (auto simp: Insert is_put_def)
qed (simp_all add: is_put_def)

lemma puts_balanced: "list_all is_put as \<Longrightarrow> balanced t \<Longrightarrow> balanced (fold tree_apply as t)"
  by (induction as arbitrary: t) (simp_all add: put_balanced)

lemma balanced_low:
  assumes "balanced t" and "ordered t" and "card (dom (tmap t)) < 2 ^ n"
  shows "true_height t \<le> 2 * n"
proof (cases "t = Tip")
  case False
  then show ?thesis using balanced_height[OF assms(1)] leaves_card[OF assms(2)] assms(3) balanced_true_height[OF assms(1)] by simp
qed simp

lemma map_run_length: "length (fst (map_run as M)) = length as"
  by (induction as arbitrary: M) (simp_all add: case_prod_unfold Let_def)

text \<open>An insertion of a value tells the old one.\<close>

lemma puts_told: "list_all is_put as \<Longrightarrow> length rs = length as \<Longrightarrow> map2 told as rs = rs"
proof (induction as arbitrary: rs)
  case (Cons a as)
  then show ?case by (cases rs; cases a) (auto simp: is_put_def)
qed simp

subsection \<open>A failed operation\<close>

lemma failed_child:
  assumes "root_handle m = InMemory i" and "i < length (slots m)" and "stored_node (slots m ! i) = Branch w k children"
    and "left_of children (key < k) = Some (Hash h)" and "hd_get H (a_db m) h = None"
  defines "s \<equiv> a_storage m"
  defines "m' \<equiv> m\<lparr>old_val := None, a_storage := s\<lparr>nodes := (nodes s)[i := New Empty], free_indices := free_indices s @ [i]\<rparr>\<rparr>"
  shows "val \<noteq> [] \<Longrightarrow> mut_insert H key val m = Some (Inl (IncompleteDatabase h), m')"
    and "mut_remove H key m = Some (Inl (IncompleteDatabase h), m')"
proof -
  have d: "destroy_in i (m\<lparr>old_val := None\<rparr>) = Some (slots m ! i, m')"
    using assms(2) by (simp add: destroy_in_def destroy_def m'_def s_def)
  have g: "load H (Hash h) m' = Some (Inl (IncompleteDatabase h), m')" using assms(5) by (simp add: load_def cache_node_def m'_def)
  have i: "avl_insert_at H key val (Hash h) m' = Some (Inl (IncompleteDatabase h), m')" for val
    by (subst avl_insert_at.simps) (simp add: g)
  have r: "avl_remove_at H key (Hash h) m' = Some (Inl (IncompleteDatabase h), m')"
    by (subst avl_remove_at.simps) (simp add: g)
  have ii: "insert_inspector (avl_insert_at H key val) key val (Branch w k children) m' = Some (Inl (IncompleteDatabase h), m')" for val
    using assms(4) i by (simp add: insert_inspector_def)
  have ri: "remove_inspector H (avl_remove_at H key) key (Branch w k children) m' = Some (Inl (IncompleteDatabase h), m')"
    using assms(4) r by (simp add: remove_inspector_def)
  have "avl_insert_at H key val (InMemory i) (m\<lparr>old_val := None\<rparr>) = Some (Inl (IncompleteDatabase h), m')" for val
    by (subst avl_insert_at.simps) (use assms(3) in \<open>cases "slots m ! i"; simp add: load_def d inspect_def ii\<close>)
  then show "val \<noteq> [] \<Longrightarrow> mut_insert H key val m = Some (Inl (IncompleteDatabase h), m')"
    by (simp add: mut_insert_def assms(1))
  have "avl_remove_at H key (InMemory i) (m\<lparr>old_val := None\<rparr>) = Some (Inl (IncompleteDatabase h), m')"
    by (subst avl_remove_at.simps) (use assms(3) in \<open>cases "slots m ! i"; simp add: load_def d inspect_def ri\<close>)
  then show "mut_remove H key m = Some (Inl (IncompleteDatabase h), m')" by (simp add: mut_remove_def assms(1))
qed

lemma get_of_empty_slot:
  assumes "root_handle m = InMemory i" and "i < length (slots m)" and "slots m ! i = New Empty"
  shows "mut_is_empty m = Some True" and "mut_get H key m = Some (Inr None)"
proof -
  have s: "storage_index (a_storage m) i = Some Empty" using assms by (simp add: storage_index_def)
  show "mut_is_empty m = Some True" by (simp add: mut_is_empty_def assms s)
  show "mut_get H key m = Some (Inr None)" unfolding mut_get_def assms(1) by (subst lookup_in.simps) (simp add: s)
qed

subsection \<open>A small database\<close>

text \<open>A hash with 32 bytes that tells the values below apart, and a database that is a map.\<close>

definition sample_hash :: "bytes \<Rightarrow> hash" where
  "sample_hash e = (if e = [0x80] then SHA3_NULL_RLP else replicate 32 (last e))"

definition sample_ops :: "(hash \<Rightarrow> db_value option) hash_db" where
  "sample_ops = \<lparr>hd_get = (\<lambda>db. db), hd_contains = (\<lambda>db h. db h \<noteq> None), hd_insert = (\<lambda>db v. (sample_hash v, db(sample_hash v \<mapsto> v))),
     hd_emplace = (\<lambda>db h v. db(h \<mapsto> v)), hd_remove = (\<lambda>db h. if h = SHA3_NULL_RLP then db else db(h := None))\<rparr>"

definition sample_empty :: "hash \<Rightarrow> db_value option" where
  "sample_empty = [SHA3_NULL_RLP \<mapsto> [0x80]]"

definition sample_tree :: avl where
  "sample_tree = Br 2 [1] (Lf [0] (replicate 40 7)) (Lf [1] (replicate 40 8))"

definition sample_nodes :: "hash \<Rightarrow> db_value option" where
  "sample_nodes = sample_empty(sample_hash (avl_enc sample_hash (Lf [0] (replicate 40 7))) \<mapsto> avl_enc sample_hash (Lf [0] (replicate 40 7)),
     sample_hash (avl_enc sample_hash (Lf [1] (replicate 40 8))) \<mapsto> avl_enc sample_hash (Lf [1] (replicate 40 8)),
     sample_hash (avl_enc sample_hash sample_tree) \<mapsto> avl_enc sample_hash sample_tree)"

lemma sample_hash32: "hash32 sample_hash"
  by (simp add: hash32_def sample_hash_def SHA3_NULL_RLP_def)

lemma sample_empty_known: "empty_known sample_ops sample_hash sample_empty"
  by (simp add: empty_known_def sample_ops_def sample_hash_def sample_empty_def)

lemma sample_leaf: "avl_enc sample_hash (Lf [a] (replicate 40 b)) = [0xea, a, 0xa8] @ replicate 40 b" if "a < 0x80"
  using that by (simp add: list_bytes_def data_bytes_def rlp_header_def)

lemma sample_leaf_hash: "a < 0x80 \<Longrightarrow> sample_hash (avl_enc sample_hash (Lf [a] (replicate 40 b))) = replicate 32 b"
  by (simp only: sample_leaf) (simp add: sample_hash_def)

lemma sample_root_hash: "sample_hash (avl_enc sample_hash sample_tree) = replicate 32 1"
proof -
  have "last (avl_enc sample_hash sample_tree) = 1" "avl_enc sample_hash sample_tree \<noteq> [0x80]"
    using data_bytes_nonempty[of "[1]"]
    by (auto simp: sample_tree_def list_bytes_def height_bytes data_bytes_def rlp_header_def)
  then show ?thesis by (simp add: sample_hash_def)
qed

lemma null_not_replicate: "SHA3_NULL_RLP \<noteq> replicate 32 b"
proof
  assume e: "SHA3_NULL_RLP = replicate 32 b"
  have "SHA3_NULL_RLP ! 0 = b" "SHA3_NULL_RLP ! 1 = b" unfolding e by simp_all
  then show False by (simp add: SHA3_NULL_RLP_def)
qed

lemma sample_null: "sample_nodes SHA3_NULL_RLP = Some [0x80]"
  using sample_leaf_hash sample_root_hash null_not_replicate
  by (simp add: sample_nodes_def sample_empty_def del: avl_enc.simps replicate_Suc)

lemma sample_linked: "rooted sample_nodes sample_hash sample_tree (replicate 32 1)"
proof -
  have l: "32 \<le> length (avl_enc sample_hash (Lf [a] (replicate 40 b)))" if "a < 0x80" for a b
    using that by (simp only: sample_leaf) simp
  have ne: "replicate 32 (7 :: u8) \<noteq> replicate 32 8" "replicate 32 (7 :: u8) \<noteq> replicate 32 1" "replicate 32 (8 :: u8) \<noteq> replicate 32 1"
    by simp_all
  have o: "own_hash sample_hash (Lf [a] (replicate 40 b)) = {replicate 32 b}" if "a < 0x80" for a b
    using l[OF that] sample_leaf_hash[OF that] by (simp add: own_hash_def del: avl_enc.simps)
  have r: "refs sample_hash sample_tree = {replicate 32 7, replicate 32 8}"
    by (auto simp: sample_tree_def o)
  have u: "unshared sample_hash sample_tree" using ne by (simp add: sample_tree_def o)
  have d: "sample_nodes (replicate 32 7) = Some (avl_enc sample_hash (Lf [0] (replicate 40 7)))"
    "sample_nodes (replicate 32 8) = Some (avl_enc sample_hash (Lf [1] (replicate 40 8)))"
    "sample_nodes (replicate 32 1) = Some (avl_enc sample_hash sample_tree)"
    using ne sample_leaf_hash sample_root_hash by (simp_all add: sample_nodes_def del: avl_enc.simps)
  have i: "in_db sample_nodes sample_hash sample_tree" using d by (simp add: sample_tree_def o del: avl_enc.simps)
  show ?thesis using sample_root_hash d(3) i u r ne by (simp add: rooted_def) (simp add: sample_tree_def)
qed

text \<open>
  C23. A lookup is repeated by anyone who has the recorded nodes.\<close>

theorem lookup_with_proof:
  assumes "hash32 S" and "rooted (hd_get H db) S t h" and "ordered t" and "ht t < 2 ^ 31"
  shows "\<exists>r. look_up H (recorder_query S) db h 0 key recorder_new = Some (Inr (tmap t key), r) \<and>
    (\<forall>db'. holds_records H' db' (fst (recorder_drain r)) \<longrightarrow>
      look_up H' (recorder_query S) db' h 0 key recorder_new = Some (Inr (tmap t key), r))"
proof -
  have "\<exists>r. look_up H (recorder_query S) db h 0 key recorder_new =
      Some (Inr (map_option (q_decode (recorder_query S) r) (find_key t key)), r)"
    by (rule look_up_spec[OF assms(1) recorder_records(1) assms(2)]) (use assms(4) in simp)
  then obtain r where r: "look_up H (recorder_query S) db h 0 key recorder_new = Some (Inr (tmap t key), r)"
    using find_key_tmap[OF assms(3)] by (auto simp: recorder_query_def option.map_ident)
  have m: "min_depth recorder_new \<le> 0" by (simp add: recorder_new_def recorder_with_depth_def)
  show ?thesis using r recorded_replay[OF r m, of H'] by (auto simp: recorder_drain_def)
qed

theorem lookup_with_proof_witness:
  "\<exists>r. look_up sample_ops (recorder_query sample_hash) sample_nodes (replicate 32 1) 0 [1] recorder_new = Some (Inr (Some (replicate 40 8)), r) \<and>
    (\<forall>db'. holds_records sample_ops db' (fst (recorder_drain r)) \<longrightarrow>
      look_up sample_ops (recorder_query sample_hash) db' (replicate 32 1) 0 [1] recorder_new = Some (Inr (Some (replicate 40 8)), r))"
proof -
  have o: "ordered sample_tree" "ht sample_tree < 2 ^ 31" "tmap sample_tree [1] = Some (replicate 40 8)"
    by (simp_all add: sample_tree_def)
  have l: "rooted (hd_get sample_ops sample_nodes) sample_hash sample_tree (replicate 32 1)" using sample_linked by (simp add: sample_ops_def)
  show ?thesis using lookup_with_proof[OF sample_hash32 l o(1,2), where H' = sample_ops and key = "[1]"] o(3) by simp
qed

text \<open>
  C24. A root commits to its tree. If two databases hold trees under the same root, then either the hash function gives two
  different node encodings of the two trees the same hash, or the trees are the same, with their heights, and every lookup below the
  root returns the same in both databases: the value of the key in the tree.
\<close>

theorem root_commits:
  assumes "hash32 S" and "rooted (hd_get H db) S t h" and "rooted (hd_get H' db') S t' h"
    and "ordered t" and "ordered t'" and "ht t < 2 ^ 31" and "ht t' < 2 ^ 31"
  shows "clash S (encs S t) (encs S t') \<or> t = t' \<and>
    (\<forall>key. look_up H (fn_query (\<lambda>v. v)) db h 0 key () = Some (Inr (tmap t key), ()) \<and>
      look_up H' (fn_query (\<lambda>v. v)) db' h 0 key () = Some (Inr (tmap t key), ()))"
proof -
  have "storable t" "storable t'" "S (avl_enc S t) = S (avl_enc S t')" using assms(2,3) by (simp_all add: rooted_def)
  from hash_commits[OF assms(1) this] consider "clash S (encs S t) (encs S t')" | "t = t'" by blast
  then show ?thesis
  proof cases
    case 2
    then show ?thesis using rooted_lookup[OF assms(1,2,4,6)] rooted_lookup[OF assms(1,3,5,7)] by simp
  qed blast
qed

theorem root_commits_witness:
  "\<exists>db db' g. db \<noteq> db' \<and> \<not> clash sample_hash (encs sample_hash (Lf [1] (replicate 40 8))) (encs sample_hash (Lf [1] (replicate 40 8))) \<and>
    look_up sample_ops (fn_query (\<lambda>v. v)) db g 0 [1] () = Some (Inr (Some (replicate 40 8)), ()) \<and>
    look_up sample_ops (fn_query (\<lambda>v. v)) db' g 0 [1] () = Some (Inr (Some (replicate 40 8)), ())"
proof -
  obtain t e g where t: "t = Lf [1] (replicate 40 (8 :: u8))" "e = avl_enc sample_hash t" "g = replicate 32 (8 :: u8)" by blast
  have h: "g = sample_hash e" using sample_leaf_hash[of 1 8] unfolding t by simp
  have r: "hd_get sample_ops = (\<lambda>db. db)" by (simp add: sample_ops_def)
  have l: "rooted (hd_get sample_ops [g \<mapsto> e]) sample_hash t g" "rooted (hd_get sample_ops (sample_empty(g \<mapsto> e))) sample_hash t g"
    unfolding r rooted_def using h by (simp_all add: t(1) t(2)[unfolded t(1), symmetric] del: avl_enc.simps)
  have o: "ordered t" "ht t < 2 ^ 31" "tmap t [1] = Some (replicate 40 8)" by (simp_all add: t(1))
  have n: "\<not> clash sample_hash (encs sample_hash t) (encs sample_hash t)" by (simp add: clash_def encs_def t(1) del: avl_enc.simps)
  have f: "look_up sample_ops (fn_query (\<lambda>v. v)) [g \<mapsto> e] g 0 [1] () = Some (Inr (Some (replicate 40 8)), ())"
    "look_up sample_ops (fn_query (\<lambda>v. v)) (sample_empty(g \<mapsto> e)) g 0 [1] () = Some (Inr (Some (replicate 40 8)), ())"
    using root_commits[OF sample_hash32 l o(1,1,2,2)] n o(3) by auto
  have "SHA3_NULL_RLP \<noteq> g" unfolding t by (rule null_not_replicate)
  then have d: "[g \<mapsto> e] \<noteq> sample_empty(g \<mapsto> e)" by (metis sample_empty_def fun_upd_other fun_upd_same option.distinct(1))
  show ?thesis
    by (rule exI[of _ "[g \<mapsto> e]"], rule exI[of _ "sample_empty(g \<mapsto> e)"], rule exI[of _ g]) (intro conjI d n[unfolded t(1)] f)
qed

text \<open>
  C19. Starting with the empty tree or with a root in the database, any sequence of operations changes the entries as the documented
  map does, and each lookup and each insertion of a value returns what the map returns; a removal (and the insertion of the empty
  value, which is one) returns nothing, although the interface promises the old value (\<open>told\<close>). None panics and none fails.
\<close>

theorem tree_is_map:
  assumes "hash32 S" and "empty_known H S db" and "length as < 2 ^ 30"
    and "m = avl_new db \<and> t = Tip \<or> avl_from_existing H db h = Inr m \<and> rooted (hd_get H db) S t h \<and> ordered t \<and> ht t < 2 ^ 30"
  shows "\<exists>m' t'. avl_run H as m = Some (map Inr (map2 told as (fst (map_run as (tmap t)))), m') \<and>
    avl_state H S m' t' \<and> tmap t' = snd (map_run as (tmap t))"
proof -
  have "avl_state H S m t \<and> a_db m = db \<and> ht t < 2 ^ 30"
    using assms(4)
  proof
    assume "m = avl_new db \<and> t = Tip"
    then show ?thesis using state_new[OF assms(2)] by (simp add: avl_new_def)
  next
    assume a: "avl_from_existing H db h = Inr m \<and> rooted (hd_get H db) S t h \<and> ordered t \<and> ht t < 2 ^ 30"
    then have "hd_contains H db h" by (auto simp: avl_from_existing_def split: if_splits)
    then show ?thesis using state_existing[of H db S t h] a by auto
  qed
  then show ?thesis using run_state[OF assms(1), of H m t as] assms(2,3) by auto
qed

theorem tree_is_map_witness:
  "\<exists>m m' t'. avl_from_existing sample_ops sample_nodes (replicate 32 1) = Inr m \<and>
    avl_run sample_ops [Get [0], Insert [0] [9], Remove [1], Get [0], Get [1]] m =
      Some ([Inr (Some (replicate 40 7)), Inr (Some (replicate 40 7)), Inr None, Inr (Some [9]), Inr None], m') \<and>
    avl_state sample_ops sample_hash m' t' \<and> tmap t' = [[0] \<mapsto> [9]]"
proof -
  have l: "rooted (hd_get sample_ops sample_nodes) sample_hash sample_tree (replicate 32 1)" using sample_linked by (simp add: sample_ops_def)
  have k: "empty_known sample_ops sample_hash sample_nodes"
    using sample_null by (simp add: empty_known_def sample_ops_def sample_hash_def)
  have o: "ordered sample_tree" "ht sample_tree < 2 ^ 30" by (simp_all add: sample_tree_def)
  have "sample_nodes (replicate 32 1) = Some (avl_enc sample_hash sample_tree)" using sample_linked unfolding rooted_def by blast
  then have "hd_contains sample_ops sample_nodes (replicate 32 1)" by (simp add: sample_ops_def)
  then obtain m where m: "avl_from_existing sample_ops sample_nodes (replicate 32 1) = Inr m" by (simp add: avl_from_existing_def)
  let ?as = "[Get [0], Insert [0] [9], Remove [1], Get [0], Get [1]]"
  have r: "map_run ?as (tmap sample_tree) = ([Some (replicate 40 7), Some (replicate 40 7), Some (replicate 40 8), Some [9], None], [[0] \<mapsto> [9]])"
    by (auto simp: sample_tree_def fun_eq_iff)
  show ?thesis using tree_is_map[OF sample_hash32 k, of ?as m sample_tree "replicate 32 1"] m l o r by (auto simp del: map_run.simps)
qed

text \<open>
  C21. A tree that only grows is balanced: its heights are exact, and with fewer than \<open>2 ^ n\<close> keys it is not higher
  than \<open>2 * n\<close>.
\<close>

theorem growing_tree_balanced:
  assumes "hash32 S" and "empty_known H S db" and "list_all is_put as" and "length as < 2 ^ 31"
  shows "\<exists>m t. avl_run H as (avl_new db) = Some (map Inr (fst (map_run as Map.empty)), m) \<and> avl_state H S m t \<and>
    tmap t = snd (map_run as Map.empty) \<and> balanced t \<and> ht t = true_height t \<and>
    (\<forall>n. card (dom (tmap t)) < 2 ^ n \<longrightarrow> true_height t \<le> 2 * n)"
proof -
  let ?t = "fold tree_apply as Tip"
  obtain m where m: "avl_run H as (avl_new db) = Some (map Inr (fst (map_run as Map.empty)), m)" "avl_state H S m ?t"
    "tmap ?t = snd (map_run as Map.empty)"
    using run_state[OF assms(1) state_new[OF assms(2)], of as] assms(2,4) puts_told[OF assms(3) map_run_length, of Map.empty]
    by (auto simp: avl_new_def)
  have b: "balanced ?t" by (rule puts_balanced[OF assms(3)]) simp
  have "ordered ?t" using m(2) by (simp add: avl_state_def)
  then show ?thesis using m b balanced_true_height[OF b] balanced_low[OF b] by blast
qed

theorem growing_tree_balanced_witness:
  "\<exists>m t. avl_run sample_ops [Insert [1] [7], Insert [2] [8], Insert [1] [9]] (avl_new sample_empty) =
      Some ([Inr None, Inr None, Inr (Some [7])], m) \<and> avl_state sample_ops sample_hash m t \<and>
    tmap t = [[1] \<mapsto> [9], [2] \<mapsto> [8]] \<and> balanced t \<and> ht t = true_height t"
  using growing_tree_balanced[OF sample_hash32 sample_empty_known, of "[Insert [1] [7], Insert [2] [8], Insert [1] [9]]"]
  by (auto simp: is_put_def fun_upd_twist)

text \<open>Ten operations.\<close>

definition unbalancing :: "avl_op list" where
  "unbalancing = map (\<lambda>k. Insert [k] [1]) [7, 5, 4, 1, 6] @ [Remove [1]] @ map (\<lambda>k. Insert [k] [1]) [10, 8, 11] @ [Remove [4]]"

text \<open>
  C25. Removals keep the map but not the balance: the operations \<open>unbalancing\<close> leave a leaf beside a tree of height four, because
  the rotations take one from the height of the node they push down, whatever its children are.
\<close>

theorem removals_unbalance:
  assumes "hash32 S" and "empty_known H S db"
  shows "\<exists>m rs k l r. avl_run H unbalancing (avl_new db) = Some (rs, m) \<and> avl_state H S m (Br 5 k l r) \<and>
    true_height l = 1 \<and> true_height r = 4"
proof -
  let ?t = "fold tree_apply unbalancing Tip"
  obtain m where m: "avl_run H unbalancing (avl_new db) = Some (map Inr (map2 told unbalancing (fst (map_run unbalancing Map.empty))), m)" "avl_state H S m ?t"
    using run_state[OF assms(1) state_new[OF assms(2)], of unbalancing] assms(2) by (auto simp: avl_new_def unbalancing_def)
  let ?r = "Br 4 [8] (Br 2 [7] (Lf [6] [1]) (Lf [7] [1])) (Br 3 [10] (Lf [8] [1]) (Br 2 [11] (Lf [10] [1]) (Lf [11] [1])))"
  have t: "?t = Br 5 [6] (Lf [5] [1]) ?r" by (simp add: unbalancing_def removed_def rebal.simps lean_left_def lean_right_def)
  have "true_height (Lf [5] [1]) = 1" "true_height ?r = 4" by simp_all
  then show ?thesis using m t by metis
qed

theorem removals_unbalance_witness:
  "\<exists>m rs k l r. avl_run sample_ops unbalancing (avl_new sample_empty) = Some (rs, m) \<and> avl_state sample_ops sample_hash m (Br 5 k l r) \<and>
    true_height l = 1 \<and> true_height r = 4"
  by (rule removals_unbalance[OF sample_hash32 sample_empty_known])

text \<open>
  C26. An insertion or a removal that misses a node of the database below a root in memory returns the error and has
  destroyed the slot of the root, which the handle still names: the tree is now empty, whatever it held before.
\<close>

theorem failed_operation_empties:
  assumes "root_handle m = InMemory i" and "i < length (slots m)" and "stored_node (slots m ! i) = Branch w k children"
    and "left_of children (key < k) = Some (Hash h)" and "hd_get H (a_db m) h = None"
  shows "\<exists>m'. (val \<noteq> [] \<longrightarrow> mut_insert H key val m = Some (Inl (IncompleteDatabase h), m')) \<and>
    mut_remove H key m = Some (Inl (IncompleteDatabase h), m') \<and>
    mut_is_empty m' = Some True \<and> (\<forall>key'. mut_get H key' m' = Some (Inr None))"
proof -
  let ?s = "a_storage m"
  let ?m = "m\<lparr>old_val := None, a_storage := ?s\<lparr>nodes := (nodes ?s)[i := New Empty], free_indices := free_indices ?s @ [i]\<rparr>\<rparr>"
  have e: "root_handle ?m = InMemory i" "i < length (slots ?m)" "slots ?m ! i = New Empty" using assms(1,2) by simp_all
  show ?thesis
    using failed_child[OF assms] get_of_empty_slot[OF e] by blast
qed

definition sample_mut :: "(hash \<Rightarrow> db_value option) avl_mut" where
  "sample_mut = (avl_new sample_empty)\<lparr>a_storage := \<lparr>nodes = [New (Branch 2 [1] (Some (Hash (replicate 32 7)), Some (InMemory 1))),
     New (Leaf [1] [8])], free_indices = []\<rparr>, root_handle := InMemory 0\<rparr>"

theorem failed_operation_empties_witness:
  "mut_get sample_ops [1] sample_mut = Some (Inr (Some [8])) \<and>
   (\<exists>m'. mut_insert sample_ops [0] [9] sample_mut = Some (Inl (IncompleteDatabase (replicate 32 7)), m') \<and>
     mut_is_empty m' = Some True \<and> mut_get sample_ops [1] m' = Some (Inr None))"
proof
  have "lookup_in sample_ops [1] sample_mut (InMemory 1) = Some (Inr (Some [8]))"
    by (subst lookup_in.simps) (simp add: sample_mut_def storage_index_def)
  then show "mut_get sample_ops [1] sample_mut = Some (Inr (Some [8]))"
    unfolding mut_get_def by (subst lookup_in.simps) (simp add: sample_mut_def storage_index_def left_of_def)
  have g: "sample_empty (replicate 32 7) = None" using null_not_replicate[of 7] by (simp add: sample_empty_def)
  show "\<exists>m'. mut_insert sample_ops [0] [9] sample_mut = Some (Inl (IncompleteDatabase (replicate 32 7)), m') \<and>
     mut_is_empty m' = Some True \<and> mut_get sample_ops [1] m' = Some (Inr None)"
    using failed_operation_empties[where m = sample_mut and i = 0 and w = 2 and k = "[1]" and key = "[0]" and val = "[9]"
        and children = "(Some (Hash (replicate 32 7)), Some (InMemory 1))" and h = "replicate 32 7" and H = sample_ops] g
    by (simp add: sample_mut_def left_of_def avl_new_def sample_ops_def) blast
qed

end
