(* ===== verification/AvlKnown.thy ===== *)
theory AvlKnown
  imports AvlMut
begin

section \<open>What is known to be in the database\<close>

text \<open>
  A cached node was read from the database, and only hashes of cached nodes are put on the death row. Every operation keeps
  this, whatever the state is otherwise; so that a commit removes nothing that is not there, and nothing twice.
\<close>

subsection \<open>The invariant\<close>

definition known_slot :: "'db hash_db \<Rightarrow> 'db \<Rightarrow> stored_slot \<Rightarrow> bool" where
  "known_slot H db x = (case x of New _ \<Rightarrow> True | Cached _ h \<Rightarrow> hd_get H db h \<noteq> None)"

definition known_store :: "'db hash_db \<Rightarrow> 'db \<Rightarrow> node_storage \<Rightarrow> bool" where
  "known_store H db s \<longleftrightarrow> (\<forall>x \<in> set (nodes s). known_slot H db x)"

definition known :: "'db hash_db \<Rightarrow> 'db \<Rightarrow> 'db avl_mut \<Rightarrow> bool" where
  "known H db m \<longleftrightarrow> a_db m = db \<and> known_store H db (a_storage m) \<and> distinct (death_row m) \<and>
     (\<forall>h \<in> set (death_row m). hd_get H db h \<noteq> None)"

text \<open>Whatever an operation returns, the invariant holds afterwards, and \<open>P\<close> of the result.\<close>

definition keeps_known :: "'db hash_db \<Rightarrow> 'db \<Rightarrow> ('a \<Rightarrow> bool) \<Rightarrow> ('a \<times> 'db avl_mut) option \<Rightarrow> bool" where
  "keeps_known H db P r \<longleftrightarrow> (\<forall>x m. r = Some (x, m) \<longrightarrow> known H db m \<and> P x)"

lemma kk_None [simp]: "keeps_known H db P None"
  by (simp add: keeps_known_def)

lemma kk_Some [simp]: "keeps_known H db P (Some (x, m)) \<longleftrightarrow> known H db m \<and> P x"
  by (simp add: keeps_known_def)

lemma kk_and_then:
  assumes "keeps_known H db (\<lambda>x. case x of Inl _ \<Rightarrow> True | Inr y \<Rightarrow> Q y) B"
    and "\<And>y m. Q y \<Longrightarrow> known H db m \<Longrightarrow> keeps_known H db P (C y m)" and "\<And>e. P (Inl e)"
  shows "keeps_known H db P (and_then B C)"
proof (cases B)
  case (Some p)
  obtain x s where p: "p = (x, s)" by fastforce
  show ?thesis
  proof (cases x)
    case (Inl e)
    then show ?thesis using assms(1,3) by (simp add: keeps_known_def and_then_def Some p)
  next
    case (Inr y)
    then have "Q y" "known H db s" using assms(1) by (simp_all add: keeps_known_def Some p)
    from assms(2)[OF this] show ?thesis by (simp add: and_then_def Some p Inr)
  qed
qed (simp add: and_then_def keeps_known_def)

lemma kk_bind:
  assumes "keeps_known H db Q B" and "\<And>y m. Q y \<Longrightarrow> known H db m \<Longrightarrow> keeps_known H db P (C (y, m))"
  shows "keeps_known H db P (Option.bind B C)"
  using assms by (auto simp: keeps_known_def bind_eq_Some_conv)

lemma kk_weaken: "keeps_known H db Q B \<Longrightarrow> (\<And>x. Q x \<Longrightarrow> P x) \<Longrightarrow> keeps_known H db P B"
  by (auto simp: keeps_known_def)

abbreviation right_of :: "('a \<Rightarrow> bool) \<Rightarrow> 'e + 'a \<Rightarrow> bool" where
  "right_of Q x \<equiv> (case x of Inl _ \<Rightarrow> True | Inr y \<Rightarrow> Q y)"

lemma known_other [simp]: "known H db (m\<lparr>old_val := v\<rparr>) = known H db m" "known H db (m\<lparr>root_handle := c\<rparr>) = known H db m"
  "known H db (m\<lparr>a_root := h\<rparr>) = known H db m"
  by (simp_all add: known_def)

subsection \<open>The storage\<close>

lemma alloc_known: "alloc x s = Some (i, s') \<Longrightarrow> known_store H db s \<Longrightarrow> known_slot H db x \<Longrightarrow> known_store H db s'"
  using set_update_subset_insert[of "nodes s" i x]
  by (fastforce simp: alloc_def known_store_def split: list.splits if_splits)

lemma destroy_known: "destroy i s = Some (x, s') \<Longrightarrow> known_store H db s \<Longrightarrow> known_store H db s' \<and> known_slot H db x"
  using set_update_subset_insert[of "nodes s" i "New Empty"]
  by (auto simp: destroy_def known_store_def known_slot_def index_def bind_eq_Some_conv split: if_splits)

lemma alloc_in_known: "known H db m \<Longrightarrow> known_slot H db x \<Longrightarrow> keeps_known H db (\<lambda>_. True) (alloc_in x m)"
  using alloc_known[of x "a_storage m" _ _ H db] by (auto simp: keeps_known_def alloc_in_def known_def bind_eq_Some_conv)

lemma destroy_in_known: "known H db m \<Longrightarrow> keeps_known H db (known_slot H db) (destroy_in i m)"
  using destroy_known[of i "a_storage m" _ _ H db] by (auto simp: keeps_known_def destroy_in_def known_def bind_eq_Some_conv)

lemma New_known [simp]: "known_slot H db (New n)"
  by (simp add: known_slot_def)

lemma doom_known: "known H db m \<Longrightarrow> hd_get H db h \<noteq> None \<Longrightarrow> known H db (doom h m)"
  by (auto simp: known_def doom_def)

lemma from_rlp_known:
  "from_rlp rlp s = Some (n, s') \<Longrightarrow> known_store H db s \<Longrightarrow> known_store H db s'"
  "inline_or_hash node s = Some (c, s') \<Longrightarrow> known_store H db s \<Longrightarrow> known_store H db s'"
proof (induction rlp s and node s arbitrary: n s' and c s' rule: from_rlp_inline_or_hash.induct)
  case (1 rlp s)
  show ?case
  proof (cases "node_decoded rlp")
    case None
    then show ?thesis using "1.prems" by (simp add: from_rlp.simps[of rlp s])
  next
    case (Some x)
    show ?thesis
    proof (cases x)
      case (RlpBranch h k ns)
      obtain n0 n1 where ns: "ns = (n0, n1)" by fastforce
      have d: "node_decoded rlp = Some (RlpBranch h k (n0, n1))" using Some RlpBranch ns by simp
      obtain c0 s0 where c0: "(if is_empty n0 then Some (None, s) else map_option (apfst Some) (inline_or_hash n0 s)) = Some (c0, s0)"
        using "1.prems"(1) by (subst (asm) from_rlp.simps) (auto simp: d split: option.splits)
      obtain c1 where c1: "(if is_empty n1 then Some (None, s0) else map_option (apfst Some) (inline_or_hash n1 s0)) = Some (c1, s')"
        using "1.prems"(1) by (subst (asm) from_rlp.simps) (auto simp: d c0 split: option.splits)
      have "known_store H db s0"
      proof (cases "is_empty n0")
        case False
        then obtain x where "inline_or_hash n0 s = Some (x, s0)" using c0 by (cases "inline_or_hash n0 s") auto
        from "1.IH"(1)[OF d refl refl False this "1.prems"(2)] show ?thesis .
      qed (use c0 "1.prems" in auto)
      then show ?thesis
      proof (cases "is_empty n1")
        case False
        then obtain x where "inline_or_hash n1 s0 = Some (x, s')" using c1 by (cases "inline_or_hash n1 s0") auto
        from "1.IH"(2)[OF d refl refl c0 refl False this \<open>known_store H db s0\<close>] show ?thesis .
      qed (use c1 in auto)
    qed (use "1.prems" Some in \<open>auto simp: from_rlp.simps[of rlp s]\<close>)
  qed
next
  case (2 node s)
  show ?case
  proof (cases "is_hash_ref node")
    case True
    then show ?thesis using "2.prems" by (auto simp: inline_or_hash.simps[of node s] split: option.splits)
  next
    case False
    then obtain n s0 i where f: "from_rlp node s = Some (n, s0)" "alloc (New n) s0 = Some (i, s')"
      using "2.prems"(1) by (auto simp: inline_or_hash.simps[of node s] split: option.splits)
    show ?thesis using alloc_known[OF f(2) "2.IH"[OF False f(1) "2.prems"(2)]] by simp
  qed
qed

lemma storage_known: "known H db m \<Longrightarrow> known_store H db s \<Longrightarrow> known H db (m\<lparr>a_storage := s\<rparr>)"
  by (simp add: known_def)

lemma cache_known:
  assumes "known H db m"
  shows "keeps_known H db (\<lambda>_. True) (cache_node H h m)"
proof (cases "hd_get H (a_db m) h")
  case (Some d)
  have c: "known_slot H db (Cached n h)" for n using Some assms by (simp add: known_slot_def known_def)
  show ?thesis
  proof (cases "from_rlp d (a_storage m)")
    case f: (Some p)
    obtain n s where p: "p = (n, s)" by fastforce
    have "known H db (m\<lparr>a_storage := s\<rparr>)"
      using storage_known[OF assms from_rlp_known(1)[OF f[unfolded p]]] assms by (simp add: known_def)
    from alloc_in_known[OF this c] show ?thesis
      by (auto simp: cache_node_def Some f p keeps_known_def bind_eq_Some_conv)
  qed (simp add: cache_node_def Some)
qed (simp add: cache_node_def assms)

lemma load_known: "known H db m \<Longrightarrow> keeps_known H db (\<lambda>_. True) (load H c m)"
  by (cases c) (simp_all add: load_def cache_known)

lemma right_True [simp]: "right_of (\<lambda>_. True) x"
  by (cases x) simp_all

lemma load_known': "known H db m \<Longrightarrow> keeps_known H db (right_of (\<lambda>_. True)) (load H c m)"
  using load_known by simp

subsection \<open>Children and rotations\<close>

lemma children_known:
  assumes "known H db m"
  shows "keeps_known H db (\<lambda>_. True) (left_child_destroy H n m)" "keeps_known H db (\<lambda>_. True) (right_child_destroy H n m)"
    and "keeps_known H db (\<lambda>_. True) (left_child_height H n m)" "keeps_known H db (\<lambda>_. True) (right_child_height H n m)"
proof -
  have d: "keeps_known H db (\<lambda>_. True) (and_then (load H c m) (\<lambda>i m. Option.bind (destroy_in i m) (\<lambda>(x, m). Some (Inr (f x), m))))"
    for c and f :: "stored_slot \<Rightarrow> mem_node \<times> mem_node"
    by (rule kk_and_then[OF load_known'[OF assms]]) (auto intro!: kk_bind[OF destroy_in_known])
  have g: "keeps_known H db (\<lambda>_. True) (and_then (load H c m) (\<lambda>i m. Option.bind (storage_index (a_storage m) i) (\<lambda>n. Some (Inr (f i n), m))))"
    for c and f :: "nat \<Rightarrow> mem_node \<Rightarrow> u32 \<times> mem_node"
    by (rule kk_and_then[OF load_known'[OF assms]]) (auto simp: keeps_known_def bind_eq_Some_conv)
  show "keeps_known H db (\<lambda>_. True) (left_child_destroy H n m)" "keeps_known H db (\<lambda>_. True) (right_child_destroy H n m)"
    "keeps_known H db (\<lambda>_. True) (left_child_height H n m)" "keeps_known H db (\<lambda>_. True) (right_child_height H n m)"
    using assms d g
    by (auto simp: left_child_destroy_def right_child_destroy_def left_child_height_def right_child_height_def
        split: mem_node.split option.split)
qed

lemma rotate_known:
  assumes "known H db m"
  shows "keeps_known H db (\<lambda>_. True) (left_rotate k1 k2 m)" "keeps_known H db (\<lambda>_. True) (right_rotate k1 k2 m)"
  unfolding left_rotate_def right_rotate_def
  using alloc_in_known[OF assms New_known]
  by (auto intro!: kk_bind[where Q = "\<lambda>_. True"] simp: assms split: mem_node.split option.split)
    (auto simp: bind_split keeps_known_def)

lemma children_known':
  assumes "known H db m"
  shows "keeps_known H db (right_of (\<lambda>_. True)) (left_child_destroy H n m)" "keeps_known H db (right_of (\<lambda>_. True)) (right_child_destroy H n m)"
    and "keeps_known H db (right_of (\<lambda>_. True)) (left_child_height H n m)" "keeps_known H db (right_of (\<lambda>_. True)) (right_child_height H n m)"
  using children_known[OF assms] by simp_all

text \<open>A new node made by a rotation.\<close>

lemma new_known: "keeps_known H db Q B \<Longrightarrow> keeps_known H db (right_of (known_slot H db)) (Option.bind B (\<lambda>(n, m). Some (Inr (New n), m)))"
  by (rule kk_bind) simp_all

lemma successor_known:
  assumes "known H db m"
  shows "keeps_known H db (right_of (known_slot H db)) (left_rotate_successor H k1 m)"
    and "keeps_known H db (right_of (known_slot H db)) (right_rotate_successor H k1 m)"
  unfolding left_rotate_successor_def right_rotate_successor_def
  by (auto intro!: kk_and_then[OF children_known'(1)] kk_and_then[OF children_known'(2)] kk_and_then[OF children_known'(3)]
      kk_and_then[OF children_known'(4)] kk_bind[OF rotate_known(1)] kk_bind[OF rotate_known(2)] new_known[OF rotate_known(1)]
      new_known[OF rotate_known(2)] assms)

lemma rotate_if_known:
  assumes "known H db m" and "known_slot H db x"
  shows "keeps_known H db (right_of (known_slot H db)) (rotate_if_necessary H x m)"
proof (cases x)
  case (New n)
  show ?thesis unfolding rotate_if_necessary_def New stored_slot.case
    by (auto intro!: kk_and_then[OF children_known'(3)] kk_and_then[OF children_known'(4)] successor_known assms
        simp: bind_split)
qed (use assms in \<open>simp add: rotate_if_necessary_def\<close>)

subsection \<open>Insertion and removal\<close>

definition known_result :: "'db hash_db \<Rightarrow> 'db \<Rightarrow> (stored_slot \<times> bool) option \<Rightarrow> bool" where
  "known_result H db r = (case r of None \<Rightarrow> True | Some (y, _) \<Rightarrow> known_slot H db y)"

lemma inspect_known:
  assumes "known H db m" and "known_slot H db x" and "\<And>n. keeps_known H db (\<lambda>_. True) (inspector n m)"
  shows "keeps_known H db (right_of (known_result H db)) (inspect x inspector m)"
proof -
  have i: "keeps_known H db (right_of (\<lambda>_. True)) (inspector n m)" for n using assms(3) by simp
  show ?thesis
    using assms(2) unfolding inspect_def
    by (cases x) (auto intro!: kk_and_then[OF i] doom_known simp: known_result_def known_slot_def split: action.split)
qed

lemma insert_inspector_known:
  assumes "known H db m" and "\<And>c m. known H db m \<Longrightarrow> keeps_known H db (\<lambda>_. True) (f c m)"
  shows "keeps_known H db (\<lambda>_. True) (insert_inspector f key val n m)"
proof (cases n)
  case Empty
  then show ?thesis using assms(1) by (simp add: insert_inspector_def)
next
  case (Leaf k v)
  show ?thesis unfolding insert_inspector_def Leaf mem_node.case
    using assms(1) by (auto intro!: kk_bind[OF alloc_in_known[OF _ New_known]])
next
  case (Branch h k ns)
  have f: "keeps_known H db (right_of (\<lambda>_. True)) (f c m)" for c using assms by simp
  show ?thesis unfolding insert_inspector_def Branch mem_node.case Let_def
    using assms(1) by (auto intro!: kk_bind[OF alloc_in_known[OF _ New_known]] kk_and_then[OF f] split: option.split)
qed

lemma remove_inspector_known:
  assumes "known H db m" and "\<And>c m. known H db m \<Longrightarrow> keeps_known H db (\<lambda>_. True) (f c m)"
  shows "keeps_known H db (\<lambda>_. True) (remove_inspector H f key n m)"
proof (cases n)
  case (Branch h k ns)
  have f: "keeps_known H db (right_of (\<lambda>_. True)) (f c m)" for c using assms by simp
  show ?thesis unfolding remove_inspector_def Branch mem_node.case Let_def
    using assms(1)
    by (auto intro!: kk_and_then[OF f] kk_and_then[OF children_known'(1)] kk_and_then[OF children_known'(2)] split: option.split)
qed (use assms in \<open>simp_all add: remove_inspector_def\<close>)

lemma insert_at_known: "known H db m \<Longrightarrow> keeps_known H db (\<lambda>_. True) (avl_insert_at H key val c m)"
proof -
  have "known H db m \<longrightarrow> known H db (snd y)" if "avl_insert_at H key val c m = Some y" for y
  proof (rule avl_insert_at.raw_induct[where P = "\<lambda>H key val c m y. known H db m \<longrightarrow> known H db (snd y)", OF _ that])
    fix rec :: "'a hash_db \<Rightarrow> node_key \<Rightarrow> db_value \<Rightarrow> node_handle \<Rightarrow> 'a avl_mut \<Rightarrow> ((avl_error + nat \<times> bool) \<times> 'a avl_mut) option"
    fix H :: "'a hash_db" and key val c m y
    assume IH: "\<And>H key val c m y. rec H key val c m = Some y \<Longrightarrow> known H db m \<longrightarrow> known H db (snd y)"
    have f: "keeps_known H db (\<lambda>_. True) (rec H key val c m)" if "known H db m" for c m
      using IH[of H key val c m] that by (auto simp: keeps_known_def)
    have "keeps_known H db (\<lambda>_. True) (and_then (load H c m) (\<lambda>h m. Option.bind (destroy_in h m) (\<lambda>(x, m).
     and_then (inspect x (\<lambda>node m. insert_inspector (\<lambda>c m. rec H key val c m) key val node m) m) (\<lambda>r m.
       case r of
         None \<Rightarrow> None
       | Some (new_stored, changed) \<Rightarrow>
           if changed
           then and_then (rotate_if_necessary H new_stored m) (\<lambda>new_stored m.
             Option.bind (alloc_in new_stored m) (\<lambda>(i, m). Some (Inr (i, True), m)))
           else Option.bind (alloc_in new_stored m) (\<lambda>(i, m). Some (Inr (i, False), m))))))" if "known H db m"
      by (auto intro!: kk_and_then[OF load_known'[OF that]] kk_bind[OF destroy_in_known] kk_and_then[OF inspect_known]
          insert_inspector_known f kk_and_then[OF rotate_if_known] kk_bind[OF alloc_in_known]
          simp: known_result_def split: option.split)
    then show "(and_then (load H c m) (\<lambda>h m. Option.bind (destroy_in h m) (\<lambda>(x, m).
     and_then (inspect x (\<lambda>node m. insert_inspector (\<lambda>c m. rec H key val c m) key val node m) m) (\<lambda>r m.
       case r of
         None \<Rightarrow> None
       | Some (new_stored, changed) \<Rightarrow>
           if changed
           then and_then (rotate_if_necessary H new_stored m) (\<lambda>new_stored m.
             Option.bind (alloc_in new_stored m) (\<lambda>(i, m). Some (Inr (i, True), m)))
           else Option.bind (alloc_in new_stored m) (\<lambda>(i, m). Some (Inr (i, False), m)))))) = Some y \<Longrightarrow>
        known H db m \<longrightarrow> known H db (snd y)"
      by (cases y) (simp add: keeps_known_def)
  qed
  then show "known H db m \<Longrightarrow> keeps_known H db (\<lambda>_. True) (avl_insert_at H key val c m)" by (auto simp: keeps_known_def)
qed

lemma remove_at_known: "known H db m \<Longrightarrow> keeps_known H db (\<lambda>_. True) (avl_remove_at H key c m)"
proof -
  have "known H db m \<longrightarrow> known H db (snd y)" if "avl_remove_at H key c m = Some y" for y
  proof (rule avl_remove_at.raw_induct[where P = "\<lambda>H key c m y. known H db m \<longrightarrow> known H db (snd y)", OF _ that])
    fix rec :: "'a hash_db \<Rightarrow> node_key \<Rightarrow> node_handle \<Rightarrow> 'a avl_mut \<Rightarrow> ((avl_error + (nat \<times> bool) option) \<times> 'a avl_mut) option"
    fix H :: "'a hash_db" and key c m y
    assume IH: "\<And>H key c m y. rec H key c m = Some y \<Longrightarrow> known H db m \<longrightarrow> known H db (snd y)"
    have f: "keeps_known H db (\<lambda>_. True) (rec H key c m)" if "known H db m" for c m
      using IH[of H key c m] that by (auto simp: keeps_known_def)
    have "keeps_known H db (\<lambda>_. True) (and_then (load H c m) (\<lambda>h m. Option.bind (destroy_in h m) (\<lambda>(x, m).
     and_then (inspect x (\<lambda>node m. remove_inspector H (\<lambda>c m. rec H key c m) key node m) m) (\<lambda>r m.
       case r of
         None \<Rightarrow> Some (Inr None, m)
       | Some (new_stored, changed) \<Rightarrow>
           if changed
           then and_then (rotate_if_necessary H new_stored m) (\<lambda>new_stored m.
             Option.bind (alloc_in new_stored m) (\<lambda>(i, m). Some (Inr (Some (i, True)), m)))
           else Option.bind (alloc_in new_stored m) (\<lambda>(i, m). Some (Inr (Some (i, False)), m))))))" if "known H db m"
      by (auto intro!: kk_and_then[OF load_known'[OF that]] kk_bind[OF destroy_in_known] kk_and_then[OF inspect_known]
          remove_inspector_known f kk_and_then[OF rotate_if_known] kk_bind[OF alloc_in_known]
          simp: known_result_def split: option.split)
    then show "(and_then (load H c m) (\<lambda>h m. Option.bind (destroy_in h m) (\<lambda>(x, m).
     and_then (inspect x (\<lambda>node m. remove_inspector H (\<lambda>c m. rec H key c m) key node m) m) (\<lambda>r m.
       case r of
         None \<Rightarrow> Some (Inr None, m)
       | Some (new_stored, changed) \<Rightarrow>
           if changed
           then and_then (rotate_if_necessary H new_stored m) (\<lambda>new_stored m.
             Option.bind (alloc_in new_stored m) (\<lambda>(i, m). Some (Inr (Some (i, True)), m)))
           else Option.bind (alloc_in new_stored m) (\<lambda>(i, m). Some (Inr (Some (i, False)), m)))))) = Some y \<Longrightarrow>
        known H db m \<longrightarrow> known H db (snd y)"
      by (cases y) (simp add: keeps_known_def)
  qed
  then show "known H db m \<Longrightarrow> keeps_known H db (\<lambda>_. True) (avl_remove_at H key c m)" by (auto simp: keeps_known_def)
qed

text \<open>The operations of the interface.\<close>

lemma mut_known:
  assumes "known H db m"
  shows "keeps_known H db (\<lambda>_. True) (mut_remove H key m)" and "keeps_known H db (\<lambda>_. True) (mut_insert H key val m)"
proof -
  have k: "known H db (m\<lparr>old_val := None\<rparr>)" using assms by simp
  have r: "keeps_known H db (right_of (\<lambda>_. True)) (avl_remove_at H key (root_handle m) (m\<lparr>old_val := None\<rparr>))"
    "keeps_known H db (right_of (\<lambda>_. True)) (avl_insert_at H key val (root_handle m) (m\<lparr>old_val := None\<rparr>))"
    using remove_at_known[OF k] insert_at_known[OF k] by simp_all
  show rm: "keeps_known H db (\<lambda>_. True) (mut_remove H key m)"
    unfolding mut_remove_def by (rule kk_and_then[OF r(1)]) (auto split: option.split)
  have "keeps_known H db (\<lambda>_. True) (and_then (avl_insert_at H key val (root_handle m) (m\<lparr>old_val := None\<rparr>)) (\<lambda>(handle, changed) m.
        Some (Inr (old_val m), m\<lparr>root_handle := InMemory handle\<rparr>)))"
    by (rule kk_and_then[OF r(2)]) auto
  then show "keeps_known H db (\<lambda>_. True) (mut_insert H key val m)" using rm by (simp add: mut_insert_def)
qed

end
