(* ===== verification/AvlIter.thy ===== *)
theory AvlIter
  imports AvlDb AvlClaims AvlKnown
begin

section \<open>Iterating over the tree\<close>

text \<open>
  The iterator walks through the entries of a tree in the database in the order of their keys; after \<open>seek\<close> it
  goes on with the first key above the one that was sought. The abstract state of the iterator is the list of tree_entries
  that are still to come.
\<close>

subsection \<open>What is still to come\<close>

fun tree_entries :: "avl \<Rightarrow> (node_key \<times> db_value) list" where
  "tree_entries Tip = []"
| "tree_entries (Lf k v) = [(k, v)]"
| "tree_entries (Br h k l r) = tree_entries l @ tree_entries r"

text \<open>A tree whose nodes can be read: they are in the database or inline.\<close>

definition readable :: "'db hash_db \<Rightarrow> (bytes \<Rightarrow> hash) \<Rightarrow> 'db avl_db \<Rightarrow> avl \<Rightarrow> bool" where
  "readable H S t x \<longleftrightarrow> storable x \<and> in_db (hd_get H (d_db t)) S x"

definition stored_child :: "'db hash_db \<Rightarrow> (bytes \<Rightarrow> hash) \<Rightarrow> 'db avl_db \<Rightarrow> avl \<Rightarrow> bool" where
  "stored_child H S t x \<longleftrightarrow> readable H S t x \<and> (\<forall>h \<in> own_hash S x. hd_get H (d_db t) h = Some (avl_enc S x))"

lemma readable_Br: "readable H S t (Br h k l r) \<Longrightarrow> stored_child H S t l \<and> stored_child H S t r"
  by (simp add: readable_def stored_child_def)

lemma raw_child:
  assumes "hash32 S" and "stored_child H S t x"
  shows "get_raw_or_lookup H t (child_bytes S (avl_enc S x)) = Some (Inr (avl_enc S x))"
proof -
  have st: "storable x" using assms(2) by (simp add: stored_child_def readable_def)
  have "length (S (avl_enc S x)) = 32" using assms(1) by (simp add: hash32_def)
  note h = hash_ref_hash[OF this] hash_ref_decode[OF this]
  show ?thesis
    using assms(2) h enc_not_hash_ref[OF assms(1) st]
    by (auto simp: get_raw_or_lookup_def child_bytes_def stored_child_def own_hash_def)
qed

lemma descend_child:
  assumes "hash32 S" and "stored_child H S t x"
  shows "descend H t (child_bytes S (avl_enc S x)) trail = Some (Inr (), \<lparr>c_node = node_of S x, c_status = Entering\<rparr> # trail)"
  using raw_child[OF assms] decoded_node[OF assms(1)] assms(2) by (simp add: descend_def stored_child_def readable_def)

lemma child_bytes_nonempty: "hash32 S \<Longrightarrow> child_bytes S e = [] \<longleftrightarrow> e = []"
  using data_bytes_nonempty by (auto simp: child_bytes_def)

lemma avl_enc_nonempty: "avl_enc S x \<noteq> []"
  by (cases x) (simp_all add: list_bytes_def rlp_header_def)

text \<open>A crumb stands for a tree and a status; the entries below it that are still to come, and the steps that takes.\<close>

fun to_come :: "avl \<times> status \<Rightarrow> (node_key \<times> db_value) list" where
  "to_come (x, Entering) = tree_entries x"
| "to_come (Br h k l r, At) = tree_entries l @ tree_entries r"
| "to_come (Br h k l r, AtChild i) = (if i = 0 then tree_entries r else [])"
| "to_come _ = []"

fun cost :: "avl \<Rightarrow> nat" where
  "cost Tip = 1"
| "cost (Lf k v) = 2"
| "cost (Br h k l r) = cost l + cost r + 4"

fun steps_left :: "avl \<times> status \<Rightarrow> nat" where
  "steps_left (x, Entering) = cost x"
| "steps_left (Br h k l r, At) = cost l + cost r + 3"
| "steps_left (Br h k l r, AtChild i) = (if i = 0 then cost r + 2 else 1)"
| "steps_left _ = 1"

definition trail_of :: "(bytes \<Rightarrow> hash) \<Rightarrow> (avl \<times> status) list \<Rightarrow> crumb list" where
  "trail_of S ps = map (\<lambda>(x, s). \<lparr>c_node = node_of S x, c_status = s\<rparr>) ps"

lemma trail_of_simps [simp]: "trail_of S [] = []"
  "trail_of S ((x, s) # ps) = \<lparr>c_node = node_of S x, c_status = s\<rparr> # trail_of S ps"
  by (simp_all add: trail_of_def)

definition coming :: "(avl \<times> status) list \<Rightarrow> (node_key \<times> db_value) list" where
  "coming ps = concat (map to_come ps)"

lemma coming_simps [simp]: "coming [] = []" "coming (p # ps) = to_come p @ coming ps"
  by (simp_all add: coming_def)

definition well_read where
  "well_read H S t ps \<longleftrightarrow> (\<forall>(x, s) \<in> set ps. readable H S t x)"

lemma well_read_simps [simp]: "well_read H S t []"
  "well_read H S t ((x, s) # ps) \<longleftrightarrow> readable H S t x \<and> well_read H S t ps"
  by (auto simp: well_read_def)

subsection \<open>The next entry\<close>

lemma next_trail:
  "iter_next H t (trail_of S ((x, s) # ps)) =
     (let rest = trail_of S ps; b = increment \<lparr>c_node = node_of S x, c_status = s\<rparr>; trail = b # rest in
           case c_status b of
             Exiting \<Rightarrow> iter_next H t rest
           | At \<Rightarrow>
               (case c_node b of
                  RlpLeaf k v \<Rightarrow> Some (Some (Inr (k, v)), trail)
                | RlpBranch _ _ _ \<Rightarrow> iter_next H t trail
                | RlpEmpty \<Rightarrow> None)
           | AtChild i \<Rightarrow>
               (case c_node b of
                  RlpBranch _ _ children \<Rightarrow>
                    if 1 < i then None
                    else if left_of children (i = 0) \<noteq> []
                    then Option.bind (descend H t (left_of children (i = 0)) trail) (\<lambda>(r, trail).
                      case r of Inl e \<Rightarrow> Some (Some (Inl e), trail) | Inr _ \<Rightarrow> iter_next H t trail)
                    else iter_next H t trail
                | _ \<Rightarrow> None)
           | Entering \<Rightarrow> None)"
  unfolding trail_of_simps by (subst iter_next.simps) (simp only: list.case Let_def)

text \<open>One turn of the loop.\<close>

lemma next_turn:
  assumes "hash32 S" and "readable H S t x"
  shows "(\<exists>k v. x = Lf k v \<and> s = Entering \<and>
      iter_next H t (trail_of S ((x, s) # ps)) = Some (Some (Inr (k, v)), trail_of S ((x, At) # ps))) \<or>
    (\<exists>qs. iter_next H t (trail_of S ((x, s) # ps)) = iter_next H t (trail_of S (qs @ ps)) \<and>
      coming qs = to_come (x, s) \<and> sum_list (map steps_left qs) < steps_left (x, s) \<and> well_read H S t qs)"
proof (cases x)
  case Tip
  then show ?thesis by (intro disjI2 exI[of _ "[]"], subst next_trail) (cases s; simp add: increment_def)
next
  case (Lf k v)
  show ?thesis
  proof (cases "s = Entering")
    case False
    then show ?thesis using Lf by (intro disjI2 exI[of _ "[]"], subst next_trail) (cases s; simp add: increment_def)
  next
    case True
    show ?thesis by (rule disjI1, subst next_trail) (simp add: Lf True increment_def)
  qed
next
  case (Br h k l r)
  have c: "stored_child H S t l" "stored_child H S t r" using readable_Br[OF assms(2)[unfolded Br]] by simp_all
  have rd: "readable H S t l" "readable H S t r" using c by (simp_all add: stored_child_def)
  have ne: "child_bytes S (avl_enc S y) \<noteq> []" for y using child_bytes_nonempty[OF assms(1)] avl_enc_nonempty by blast
  note d = descend_child[OF assms(1) c(1)] descend_child[OF assms(1) c(2)]
  show ?thesis
  proof (cases s)
    case Entering
    then show ?thesis using assms(2) by (intro disjI2 exI[of _ "[(x, At)]"], subst next_trail) (simp add: Br increment_def)
  next
    case At
    then show ?thesis using assms(2) rd ne[of l] d(1)
      by (intro disjI2 exI[of _ "[(l, Entering), (x, AtChild 0)]"], subst next_trail)
        (simp add: Br increment_def left_of_def del: avl_enc.simps)
  next
    case (AtChild i)
    show ?thesis
    proof (cases "i = 0")
      case True
      then show ?thesis using assms(2) rd ne[of r] d(2) AtChild
        by (intro disjI2 exI[of _ "[(r, Entering), (x, AtChild 1)]"], subst next_trail)
          (simp add: Br increment_def left_of_def del: avl_enc.simps)
    qed (use AtChild in \<open>intro disjI2 exI[of _ "[]"], subst next_trail, simp add: Br increment_def\<close>)
  qed (intro disjI2 exI[of _ "[]"], subst next_trail, simp add: Br increment_def)
qed

lemma next_entry:
  assumes "hash32 S"
  shows "well_read H S t ps \<Longrightarrow>
    (case coming ps of
       [] \<Rightarrow> iter_next H t (trail_of S ps) = Some (None, [])
     | (k, v) # es \<Rightarrow> \<exists>qs. iter_next H t (trail_of S ps) = Some (Some (Inr (k, v)), trail_of S qs) \<and>
         coming qs = es \<and> well_read H S t qs)"
proof (induction "sum_list (map steps_left ps)" arbitrary: ps rule: less_induct)
  case less
  show ?case
  proof (cases ps)
    case Nil
    then show ?thesis by (subst iter_next.simps) simp
  next
    case (Cons p ps')
    obtain x s where p: "p = (x, s)" by fastforce
    have x: "readable H S t x" "well_read H S t ps'" using less.prems by (simp_all add: Cons p)
    from next_turn[OF assms x(1), of s ps'] show ?thesis
    proof (elim disjE exE conjE)
      fix k v assume a: "x = Lf k v" "s = Entering"
        "iter_next H t (trail_of S ((x, s) # ps')) = Some (Some (Inr (k, v)), trail_of S ((x, At) # ps'))"
      have "coming ((x, At) # ps') = coming ps'" "well_read H S t ((x, At) # ps')" using x a(1) by simp_all
      moreover have "coming ps = (k, v) # coming ps'" using a by (simp add: Cons p)
      ultimately show ?thesis using a(3) by (auto simp: Cons p simp del: trail_of_simps(2))
    next
      fix qs assume a: "iter_next H t (trail_of S ((x, s) # ps')) = iter_next H t (trail_of S (qs @ ps'))"
        "coming qs = to_come (x, s)" "sum_list (map steps_left qs) < steps_left (x, s)" "well_read H S t qs"
      have l: "sum_list (map steps_left (qs @ ps')) < sum_list (map steps_left ps)" using a(3) by (simp add: Cons p)
      have w: "well_read H S t (qs @ ps')" using a(4) x(2) by (auto simp: well_read_def)
      have e: "coming (qs @ ps') = coming ps" using a(2) by (simp add: coming_def Cons p)
      have i: "iter_next H t (trail_of S (qs @ ps')) = iter_next H t (trail_of S ps)" using a(1) by (simp add: Cons p)
      show ?thesis using less.hyps[OF l w] unfolding e i .
    qed
  qed
qed

subsection \<open>Walking through all tree_entries, and seeking\<close>

text \<open>What a client gets that calls \<open>next\<close> until it returns nothing, at most so many times.\<close>

fun iter_collect :: "'db hash_db \<Rightarrow> 'db avl_db \<Rightarrow> nat \<Rightarrow> crumb list \<Rightarrow> (avl_error + (node_key \<times> db_value)) list option" where
  "iter_collect H t 0 trail = None"
| "iter_collect H t (Suc n) trail = do {
     (r, trail) \<leftarrow> iter_next H t trail;
     case r of None \<Rightarrow> Some [] | Some x \<Rightarrow> map_option ((#) x) (iter_collect H t n trail) }"

lemma collect_entries:
  assumes "hash32 S"
  shows "well_read H S t ps \<Longrightarrow> length (coming ps) < n \<Longrightarrow> iter_collect H t n (trail_of S ps) = Some (map Inr (coming ps))"
proof (induction n arbitrary: ps)
  case (Suc n)
  show ?case
  proof (cases "coming ps")
    case Nil
    then show ?thesis using next_entry[OF assms Suc.prems(1)] by simp
  next
    case (Cons e es)
    then obtain k v qs where "e = (k, v)" "iter_next H t (trail_of S ps) = Some (Some (Inr (k, v)), trail_of S qs)"
      "coming qs = es" "well_read H S t qs"
      using next_entry[OF assms Suc.prems(1)] by (cases e) auto
    then show ?thesis using Suc.IH[of qs] Suc.prems(2) Cons by simp
  qed
qed simp

lemma seek_unfold:
  assumes "node_decoded d = Some node"
  shows "seek_descend H t key d trail =
    (case node of
       RlpLeaf k v \<Rightarrow> Some (Inr (), \<lparr>c_node = node, c_status = (if k \<le> key then At else Entering)\<rparr> # trail)
     | RlpBranch h k ns \<Rightarrow>
         and_then (map_option (\<lambda>r. (r, \<lparr>c_node = node, c_status = AtChild (if key < k then 0 else 1)\<rparr> # trail))
             (get_raw_or_lookup H t (left_of ns (key < k))))
           (\<lambda>child trail. seek_descend H t key child trail)
     | RlpEmpty \<Rightarrow> Some (Inr (), trail))"
  by (subst seek_descend.simps) (simp only: assms option.case)

text \<open>The entries above a key.\<close>

definition above :: "node_key \<Rightarrow> avl \<Rightarrow> (node_key \<times> db_value) list" where
  "above key x = filter (\<lambda>(k, _). key < k) (tree_entries x)"

lemma entries_dom: "fst ` set (tree_entries x) = dom (tmap x)"
  by (induction x) (auto simp: image_Un split: if_splits)

lemma above_left:
  assumes "ordered (Br h k l r)" and "key < k"
  shows "above key (Br h k l r) = above key l @ tree_entries r"
proof -
  have "key < fst e" if e: "e \<in> set (tree_entries r)" for e
  proof -
    have "fst e \<in> dom (tmap r)" unfolding entries_dom[symmetric] by (rule imageI[OF e])
    then have "k \<le> fst e" using assms(1) unfolding ordered.simps by blast
    with assms(2) show ?thesis by (rule less_le_trans)
  qed
  then have "filter (\<lambda>(k, _). key < k) (tree_entries r) = tree_entries r" by (simp add: filter_id_conv case_prod_unfold)
  then show ?thesis by (simp add: above_def)
qed

lemma above_right:
  assumes "ordered (Br h k l r)" and "\<not> key < k"
  shows "above key (Br h k l r) = above key r"
proof -
  have "\<not> key < fst e" if e: "e \<in> set (tree_entries l)" for e
  proof -
    have "fst e \<in> dom (tmap l)" unfolding entries_dom[symmetric] by (rule imageI[OF e])
    then have "fst e < k" using assms(1) unfolding ordered.simps by blast
    with assms(2) show ?thesis by (metis less_trans)
  qed
  then have "filter (\<lambda>(k, _). key < k) (tree_entries l) = []" by (simp add: filter_empty_conv case_prod_unfold)
  then show ?thesis by (simp add: above_def)
qed

lemma seek_entries:
  assumes "hash32 S"
  shows "readable H S t x \<Longrightarrow> ordered x \<Longrightarrow> well_read H S t ps \<Longrightarrow>
    \<exists>qs. seek_descend H t key (avl_enc S x) (trail_of S ps) = Some (Inr (), trail_of S qs) \<and>
      coming qs = above key x @ coming ps \<and> well_read H S t qs"
proof (induction x arbitrary: ps)
  case Tip
  then show ?case by (intro exI[of _ ps]) (simp add: seek_unfold[OF decoded_tip] above_def)
next
  case (Lf k v)
  have d: "node_decoded (avl_enc S (Lf k v)) = Some (RlpLeaf k v)"
    using decoded_node[OF assms, of "Lf k v"] Lf.prems(1) by (simp add: readable_def)
  show ?case using Lf.prems
    by (intro exI[of _ "(Lf k v, if k \<le> key then At else Entering) # ps"]) (auto simp: seek_unfold[OF d] above_def simp del: avl_enc.simps)
next
  case (Br h k l r)
  define c where "c = (if key < k then l else r)"
  have d: "node_decoded (avl_enc S (Br h k l r)) = Some (node_of S (Br h k l r))"
    by (rule decoded_node[OF assms]) (use Br.prems(1) in \<open>simp only: readable_def\<close>)
  have sc: "stored_child H S t c" using readable_Br[OF Br.prems(1)] by (simp add: c_def)
  let ?ps = "(Br h k l r, AtChild (if key < k then 0 else 1)) # ps"
  have e: "left_of (child_bytes S (avl_enc S l), child_bytes S (avl_enc S r)) (key < k) = child_bytes S (avl_enc S c)"
    by (simp add: c_def left_of_def)
  have s: "seek_descend H t key (avl_enc S (Br h k l r)) (trail_of S ps) = seek_descend H t key (avl_enc S c) (trail_of S ?ps)"
    using raw_child[OF assms sc] by (simp add: seek_unfold[OF d] e del: avl_enc.simps)
  have w: "well_read H S t ?ps" using Br.prems by simp
  have r: "readable H S t c" "ordered c" using sc Br.prems(2) by (auto simp: stored_child_def c_def)
  have IH: "\<exists>qs. seek_descend H t key (avl_enc S c) (trail_of S ?ps) = Some (Inr (), trail_of S qs) \<and>
      coming qs = above key c @ coming ?ps \<and> well_read H S t qs"
  proof (cases "key < k")
    case True
    then have "c = l" by (simp add: c_def)
    then show ?thesis using Br.IH(1)[OF _ _ w] r by blast
  next
    case False
    then have "c = r" by (simp add: c_def)
    then show ?thesis using Br.IH(2)[OF _ _ w] r by blast
  qed
  have "above key c @ coming ?ps = above key (Br h k l r) @ coming ps"
    using above_left[OF Br.prems(2)] above_right[OF Br.prems(2)] by (auto simp: c_def simp del: tree_entries.simps)
  then show ?case using IH s by metis
qed

text \<open>Keys are in order.\<close>

lemma entries_sorted: "ordered x \<Longrightarrow> sorted_wrt (\<lambda>a b. fst a < fst b) (tree_entries x)"
proof (induction x)
  case (Br h k l r)
  have "fst a < fst b" if "a \<in> set (tree_entries l)" "b \<in> set (tree_entries r)" for a b
    proof -
    have "fst a \<in> dom (tmap l)" "fst b \<in> dom (tmap r)"
      unfolding entries_dom[symmetric] by (rule imageI[OF that(1)], rule imageI[OF that(2)])
    then have "fst a < k" "k \<le> fst b" using Br.prems unfolding ordered.simps by blast+
    then show ?thesis by (rule less_le_trans)
  qed
  then show ?case using Br by (simp add: sorted_wrt_append)
qed simp_all

lemma entries_map: "ordered x \<Longrightarrow> map_of (tree_entries x) = tmap x"
proof (induction x)
  case (Br h k l r)
  have d: "dom (tmap l) \<inter> dom (tmap r) = {}" using Br.prems by (auto simp: disjoint_iff) (metis leD domI)
  show ?case using Br map_add_comm[OF d] by simp
qed simp_all

text \<open>
  C22. A new iterator over the tree below a root gives all its entries in ascending order of the keys, then nothing; after
  \<open>seek\<close>, whatever was read before, it gives those with a key above the one that was sought.
\<close>

theorem iterator_walks:
  assumes "hash32 S" and "rooted (hd_get H (d_db t)) S x (d_root t)" and "ordered x" and "length (tree_entries x) < n"
  shows "\<exists>trail. iter_new H t = Some (Inr trail) \<and> iter_collect H t n trail = Some (map Inr (tree_entries x)) \<and>
    sorted_wrt (\<lambda>a b. fst a < fst b) (tree_entries x) \<and> map_of (tree_entries x) = tmap x \<and>
    (\<forall>any. \<exists>trail'. seek H t key any = Some (Inr (), trail') \<and>
      iter_collect H t n trail' = Some (map Inr (filter (\<lambda>(k, _). key < k) (tree_entries x))))"
proof -
  have g: "hd_get H (d_db t) (d_root t) = Some (avl_enc S x)" and rd: "readable H S t x"
    using assms(2) unfolding rooted_def readable_def by blast+
  then have root: "root_data H t = Inr (avl_enc S x)" by (simp add: root_data_def)
  have st: "storable x" using rd by (simp add: readable_def)
  have "get_raw_or_lookup H t (avl_enc S x) = Some (Inr (avl_enc S x))"
    using enc_not_hash_ref[OF assms(1) st] by (simp add: get_raw_or_lookup_def)
  then have "iter_new H t = Some (Inr (trail_of S [(x, Entering)]))"
    using decoded_node[OF assms(1) st] by (simp add: iter_new_def root descend_def)
  moreover have "iter_collect H t n (trail_of S [(x, Entering)]) = Some (map Inr (coming [(x, Entering)]))"
    by (rule collect_entries[OF assms(1)]) (use rd assms(4) in simp_all)
  moreover have "\<exists>trail'. seek H t key any = Some (Inr (), trail') \<and>
      iter_collect H t n trail' = Some (map Inr (filter (\<lambda>(k, _). key < k) (tree_entries x)))" for any
  proof -
    have "well_read H S t []" by simp
    then obtain qs where q: "seek_descend H t key (avl_enc S x) (trail_of S []) = Some (Inr (), trail_of S qs)"
      "coming qs = above key x @ coming []" "well_read H S t qs"
      using seek_entries[OF assms(1) rd assms(3)] by blast
    have "length (coming qs) < n" using q(2) assms(4) le_less_trans[OF length_filter_le] by (simp add: above_def)
    from collect_entries[OF assms(1) q(3) this] show ?thesis using q(1,2) by (simp add: seek_def root above_def)
  qed
  ultimately show ?thesis using entries_sorted[OF assms(3)] entries_map[OF assms(3)] by auto
qed

theorem iterator_walks_witness:
  "\<exists>trail. iter_new sample_ops \<lparr>d_db = sample_nodes, d_root = replicate 32 1\<rparr> = Some (Inr trail) \<and>
    iter_collect sample_ops \<lparr>d_db = sample_nodes, d_root = replicate 32 1\<rparr> 3 trail =
      Some [Inr ([0], replicate 40 7), Inr ([1], replicate 40 8)] \<and>
    (\<forall>any. \<exists>trail'. seek sample_ops \<lparr>d_db = sample_nodes, d_root = replicate 32 1\<rparr> [0] any = Some (Inr (), trail') \<and>
      iter_collect sample_ops \<lparr>d_db = sample_nodes, d_root = replicate 32 1\<rparr> 3 trail' = Some [Inr ([1], replicate 40 8)])"
proof -
  let ?t = "\<lparr>d_db = sample_nodes, d_root = replicate 32 1\<rparr>"
  have l: "rooted (hd_get sample_ops (d_db ?t)) sample_hash sample_tree (d_root ?t)" using sample_linked by (simp add: sample_ops_def)
  have o: "ordered sample_tree" "length (tree_entries sample_tree) < 3"
    "tree_entries sample_tree = [([0], replicate 40 7), ([1], replicate 40 8)]" by (simp_all add: sample_tree_def)
  have f: "filter (\<lambda>(k, _). [0] < k) (tree_entries sample_tree) = [([1], replicate 40 8)]" by (simp add: o(3))
  show ?thesis using iterator_walks[OF sample_hash32 l o(1,2), of "[0]"] unfolding f unfolding o(3) by auto
qed

subsection \<open>The fat variant\<close>

text \<open>
  \<open>FatDBMut::remove\<close> never removes the entry for the key itself: it asks whether the removal returned the old value, which it
  never does.
\<close>

theorem fat_remove_keeps_key:
  assumes "hash32 S" and "avl_state H S m t" and "ht t < 2 ^ 31" and "empty_known H S (a_db m)"
  shows "\<exists>m'. fat_mut_remove sha3 H key m = Some (Inr None, m') \<and> avl_state H S m' (removed (sha3 key) t) \<and> a_db m' = a_db m"
  using remove_state[OF assms, of "sha3 key"] by (auto simp: fat_mut_remove_def Let_def)

theorem fat_remove_keeps_key_witness:
  "\<exists>m. avl_state sample_ops sample_hash m (Lf (sample_hash [1]) [9]) \<and>
    (\<exists>m'. fat_mut_remove sample_hash sample_ops [1] m = Some (Inr None, m') \<and> avl_state sample_ops sample_hash m' Tip \<and> a_db m' = a_db m)"
proof -
  have n: "([9] :: bytes) \<noteq> []" by simp
  obtain m where m: "avl_state sample_ops sample_hash m (Lf (sample_hash [1]) [9])" "a_db m = sample_empty"
    using insert_state[OF sample_hash32 state_new[OF sample_empty_known] _ n, of "sample_hash [1]"]
    by (auto simp: avl_new_def)
  have k: "empty_known sample_ops sample_hash (a_db m)" using m(2) sample_empty_known by simp
  show ?thesis using fat_remove_keeps_key[OF sample_hash32 m(1) _ k, of sample_hash "[1]"] m(1) by (auto simp: removed_def)
qed

end
