(* ===== verification/Spec2Isabelle.thy ===== *)
theory Spec2Isabelle
  imports UintConv RlpCompress KvRefine Node AvlIter
begin

section \<open>Sleepy: the development\<close>

text \<open>
  Sleepy is a blockchain node in Rust. A node proposes a block when the hash of its deterministic (BLS)
  signature of the height falls below the difficulty; it keeps the longest chain of verified blocks in a
  key-value store with caches in front, a pool of waiting transactions, and sends blocks and transactions to its
  peers. This library translates the program into Isabelle definitions that compute, and proves what makes
  its parts correct, together with the places where they are not.

  \<^bold>\<open>The parts and their theories.\<close> The order is that of the imports, from the bottom up.

  \<^item> \<open>Prelude\<close>, \<open>Containers\<close>: machine integers, checked arithmetic, big-endian bytes; vectors, hash maps and
    ordered maps of the standard library.
  \<^item> \<open>UintBase\<close>, \<open>UintShift\<close>, \<open>UintMul\<close>, \<open>UintDiv\<close>, \<open>UintConv\<close>: \<open>util/bigint/src/uint.rs\<close>, the integers of
    128, 256 and 512 bits as lists of words. \<open>uval\<close> is the value of such a list, every operation is proved
    against it: exact results, exact overflow flags, exactly the inputs that panic.
  \<^item> \<open>Hash\<close>: \<open>util/bigint/src/hash.rs\<close> and \<open>util/plain_hasher\<close>. \<open>Merkle\<close>: \<open>util/src/merklehash.rs\<close>; its
    in-place loops compute the root of a complete tree, which binds the leaves among lists of one length, as far as no
    two of the byte strings that are hashed for it clash.
  \<^item> \<open>RlpStream\<close> (\<open>util/rlp/src/stream.rs\<close>), \<open>RlpDecode\<close> (\<open>untrusted_rlp.rs\<close>), \<open>RlpImpls\<close> (\<open>impls.rs\<close>,
    \<open>rlpin.rs\<close>), \<open>RlpCompress\<close> (\<open>compression.rs\<close>, \<open>common.rs\<close>), \<open>RlpStruct\<close> (what \<open>util/rlp_derive\<close>
    generates). The stream refines a machine with a stack of payloads; \<open>rlp_codec\<close> is the contract of a type that
    can be encoded and decoded.
  \<^item> \<open>KvStore\<close>, \<open>KvDatabase\<close>, \<open>KvRefine\<close>: \<open>util/kvdb/src/lib.rs\<close>. The contract of a store is the locale \<open>kv_store\<close>;
    the in-memory store and the buffered database over RocksDB interpret it.
  \<^item> \<open>Crypto\<close>: the crate \<open>crypto\<close>, signatures and keys.
  \<^item> \<open>ChainTypes\<close>: \<open>block.rs\<close>, \<open>transaction.rs\<close>, \<open>extras.rs\<close>, \<open>error.rs\<close> of \<open>chain/src\<close>.
    \<open>SleepyConfig\<close>: \<open>util/src/config.rs\<close>. \<open>HashCache\<close>: the window of recent blocks.
    \<open>CacheManager\<close>: \<open>cache_manager.rs\<close>, \<open>cache.rs\<close>. \<open>ChainDb\<close>: \<open>db.rs\<close>, the contract of a cached table.
  \<^item> \<open>ChainState\<close>, \<open>Chain\<close>, \<open>ChainInsert\<close>: \<open>chain/src/chain.rs\<close>. The state is the record \<open>chain\<close>; the first theory has
    the lookups, the second the checks, forks, the window and the building of blocks, the third the entry points
    \<open>insert\<close>, \<open>gen_block\<close>, \<open>handle_pending\<close>, \<open>handle_future\<close>, \<open>collect_garbage\<close>, \<open>init\<close>.
  \<^item> About them: \<open>ChainView\<close>, \<open>ChainWalk\<close> (what lookups and walks along a fork return), \<open>ChainInv\<close>, \<open>ChainBatch\<close>,
    \<open>ChainKeep\<close>, \<open>ChainGarbage\<close>, \<open>ChainRun\<close> (the invariant on every path and its reachability), \<open>ChainExtend\<close>,
    \<open>ChainSpec\<close>, \<open>ChainRestart\<close>, \<open>ChainForks\<close>, \<open>ChainWindow\<close> (the window after a block on a fork), \<open>ChainGrow\<close> (the states of a
    chain that grows without a switch, and the search on a branch in them), \<open>ChainChecks\<close>, \<open>ChainAccept\<close>, \<open>ChainPending\<close>,
    \<open>ChainForge\<close> (extension, restart, forks, what acceptance means and what it does not).
  \<^item> \<open>TxPool\<close>: the crate \<open>tx_pool\<close>. \<open>Miner\<close>: the crate \<open>miner\<close>; \<open>MinerRestart\<close>: a restart on a mined tip. \<open>NetProtocol\<close>: framing, peers and
    message handler of \<open>network/src\<close>. \<open>Node\<close>: \<open>main.rs\<close>, which ties chain, pool, miner and network together.

  \<^item> The hashed tree of \<open>util/src/avl\<close>, a balanced search tree whose nodes are RLP values under their hashes. The module
    is in the repository, but \<open>util/src/lib.rs\<close> does not declare it. \<open>AvlNode\<close> (\<open>node.rs\<close>, \<open>lookup.rs\<close>, \<open>recorder.rs\<close>, the
    trait of \<open>util/hashdb\<close>), \<open>AvlMut\<close> (\<open>avldbmut.rs\<close>, the tree in memory and its commit), \<open>AvlDb\<close> (\<open>avldb.rs\<close> with its
    iterator, the variants with hashed keys, the factory) have the code. \<open>AvlTree\<close> has the same algorithm on trees as data,
    with what it does to the map, the order and the heights. \<open>AvlRep\<close> and \<open>AvlHeap\<close> say when a handle stands for such a
    tree and which slots and hashes it owns; \<open>AvlOps\<close>, \<open>AvlUpdate\<close>, \<open>AvlLookup\<close> show that the code does to the handle what the
    algorithm does to the tree. \<open>AvlKnown\<close> has an invariant of every state: what is cached or doomed is in the database.
    \<open>AvlMap\<close> (operations are those of a map, but for what a removal returns), \<open>AvlProof\<close> (recorded nodes),
    \<open>AvlCommit\<close> (the encoding determines the tree), \<open>AvlClaims\<close>, \<open>AvlIter\<close> have what follows for a client.

  \<^bold>\<open>How code becomes definitions.\<close> A \<open>u64\<close> is a word, \<open>usize\<close> a natural number; the arithmetic of a build with overflow
  checks is \<open>cadd\<close>, \<open>csub\<close>, \<open>cmul\<close>, where \<open>None\<close> is the panic. A function that returns \<open>Result\<close> has
  a sum, one that can panic an option around it; one that reads a cache returns the new state. A
  \<open>HashMap\<close> that is never iterated is a partial function, one that is iterated is an association list in any order, a
  \<open>BTreeMap\<close> an ascending list. Names are those of the code where Isabelle allows it.

  \<^bold>\<open>What is a parameter.\<close> Crates that are not in the repository or are C code: \<open>secp256k1\<close> (\<open>secp\<close>), the pairing
  library behind \<open>util/bls\<close> (\<open>bls\<close>), \<open>byteorder\<close>, RocksDB and the file system (\<open>rocks\<close>, \<open>file_system\<close>),
  \<open>lru_cache\<close> (\<open>lru\<close>), the serializer (\<open>bincode\<close>), hexadecimal strings, UTF-8, the random generator, the heap sizes,
  SHA-3. The chain has them together in the record \<open>env\<close>. What the code relies on of each is a named predicate
  (\<open>secp_ok\<close>, \<open>rocks_ok\<close>, \<open>lru_ok\<close>, \<open>sha3_ok\<close>) or the locale \<open>chain_store\<close>, and the witnesses show each to
  hold of a concrete instance.

  \<^bold>\<open>Loops and fuel.\<close> Loops over data are structural recursion or have a measure. The walks along a fork count the height or
  a bound down; the parser recurses into items that are shorter than their list; the powers halve their
  exponent, the long division counts its shift down. The iterator of a decoder has one step more than there are
  bytes, which is enough (\<open>iter_loop_fuel\<close>). Only \<open>unverif_loop\<close>, which follows parents until a verified header, has no
  bound in the code; it is a partial function, and what is proved of it holds for every result it has. The operations of the hashed tree
  follow handles and hashes and are partial functions too; the theorems on lookups, insertions, removals and iteration
  show that they return.

  \<^bold>\<open>The groups of theorems.\<close> For each codec a round trip; for the integers exactness; for stores and pool a refinement of
  an abstract map or queue; for the chain one invariant (\<open>chain_inv\<close>) that every entry point keeps, whatever it is given,
  and theorems on insertion, forks, restart, collection that rest on it; between the components: a block that one node
  mines later than its parent is accepted by the others in the same state, a missing parent is fetched, the first of several equal hashes
  wins as long as the filter remembers it. Where
  the code departs from what it means to do, a theorem says what it does instead.

  \<^bold>\<open>What is not modelled.\<close> Threads, locks and sockets: an operation runs alone, and an interleaving is a sequence of
  whole operations. The server of \<open>network/src/server.rs\<close> and the connection threads are I/O. Debug and Display output, logging,
  file paths (\<open>datapath.rs\<close>), the error enum of \<open>util/src/error.rs\<close>, the helper macros of \<open>common.rs\<close>, random
  hashes, \<open>util/bytes\<close> (views of slices), \<open>util/devtools\<close> (test helpers), the C code of \<open>util/sha3\<close> and the C bindings of
  \<open>util/bls\<close>, the scripts of \<open>admintool\<close>, the inline assembly of \<open>uint.rs\<close>, \<open>standardmap.rs\<close>
  (random test data for the hashed tree). The database of the hashed tree is a parameter, because no crate of the
  repository implements \<open>HashDB\<close>. The commit of the hashed tree is modelled whole, but of it is proved only what its
  parts rest on (\<open>AvlKnown\<close>): no theorem says that the committed root stands for the tree in memory.
\<close>

end
